(* ===== verification/GB_Prelude.thy ===== *)
theory GB_Prelude
  imports Main "HOL-Library.Word"
begin

text \<open>
  What every component shares: the faults a C execution can run into, the result type that
  carries them, C's integer division, and the list lemmas about arrays the components use.

  A C function that can go wrong in the machine (a read outside an array, a null dereference, a
  division by zero) has a result of type \<open>'a res\<close>: \<open>Inl f\<close> is the fault, \<open>Inr x\<close> the normal
  return. The error codes the functions return themselves (\<open>-1\<close>, \<open>NULL\<close>, \<open>FALSE\<close>) stay values of
  the normal return.
\<close>

section \<open>Faults and results\<close>

datatype fault =
    Out_Of_Bounds    \<comment> \<open>an array access outside the allocated block\<close>
  | Null_Deref       \<comment> \<open>a dereference of \<open>NULL\<close>\<close>
  | Div_By_Zero      \<comment> \<open>an integer division by zero (\<open>SIGFPE\<close>)\<close>
  | Use_After_Free   \<comment> \<open>an access to a block that was given back to the allocator\<close>
  | Uninitialised    \<comment> \<open>a read of a byte that was never written\<close>
  | Wild_Pointer     \<comment> \<open>a use of a pointer that was never initialised\<close>
  | Aborted          \<comment> \<open>\<open>exit(1)\<close> after an error message\<close>
  | Signed_Overflow  \<comment> \<open>an \<open>int\<close> sum that does not fit, undefined in C\<close>

type_synonym 'a res = "fault + 'a"

text \<open>Sequencing: a fault ends the execution.\<close>

definition rbind :: "'a res \<Rightarrow> ('a \<Rightarrow> 'b res) \<Rightarrow> 'b res" where
  "rbind r k = (case r of Inl f \<Rightarrow> Inl f | Inr x \<Rightarrow> k x)"

lemma rbind_simps [simp]:
  "rbind (Inl f) k = Inl f"
  "rbind (Inr x) k = k x"
  by (simp_all add: rbind_def)

lemma rbind_eq_Inr: "rbind r k = Inr y \<longleftrightarrow> (\<exists>x. r = Inr x \<and> k x = Inr y)"
  by (cases r) simp_all

lemma rbind_eq_Inl: "rbind r k = Inl f \<longleftrightarrow> r = Inl f \<or> (\<exists>x. r = Inr x \<and> k x = Inl f)"
  by (cases r) simp_all

lemma rbind_cong [fundef_cong]:
  "r = r' \<Longrightarrow> (\<And>x. r' = Inr x \<Longrightarrow> k x = k' x) \<Longrightarrow> rbind r k = rbind r' k'"
  by (cases r') simp_all

text \<open>\<open>is_ok\<close> says that an execution has no fault.\<close>

definition is_ok :: "'a res \<Rightarrow> bool" where
  "is_ok r = (case r of Inl f \<Rightarrow> False | Inr x \<Rightarrow> True)"

lemma is_ok_simps [simp]: "is_ok (Inl f) = False" "is_ok (Inr x) = True"
  by (simp_all add: is_ok_def)

lemma is_okE: "is_ok r \<Longrightarrow> (\<And>x. r = Inr x \<Longrightarrow> P) \<Longrightarrow> P"
  by (cases r) simp_all

text \<open>
  A C function with a loop that may run forever has a result of type \<open>'a run\<close>: \<open>None\<close> when it does
  not return (or, in a definition with fuel, when the fuel is spent), \<open>Some r\<close> when it returns \<open>r\<close>.
\<close>

type_synonym 'a run = "'a res option"

definition ubind :: "'a run \<Rightarrow> ('a \<Rightarrow> 'b run) \<Rightarrow> 'b run" where
  "ubind m k = (case m of None \<Rightarrow> None | Some (Inl f) \<Rightarrow> Some (Inl f) | Some (Inr x) \<Rightarrow> k x)"

lemma ubind_simps [simp]:
  "ubind None k = None"
  "ubind (Some (Inl f)) k = Some (Inl f)"
  "ubind (Some (Inr x)) k = k x"
  by (simp_all add: ubind_def)

text \<open>A loop over a list that changes a state on the way; a fault, or a step that does not return, ends it.\<close>

fun run_fold :: "('w \<Rightarrow> 'a \<Rightarrow> 'w run) \<Rightarrow> 'w \<Rightarrow> 'a list \<Rightarrow> 'w run" where
  "run_fold f w [] = Some (Inr w)"
| "run_fold f w (a # as) = ubind (f w a) (\<lambda>w'. run_fold f w' as)"

lemma run_fold_append: "run_fold f w (as @ bs) = ubind (run_fold f w as) (\<lambda>w'. run_fold f w' bs)"
  by (induction as arbitrary: w) (simp_all add: ubind_def split: option.split sum.split)

text \<open>What every step of a loop keeps, the loop keeps.\<close>

lemma run_fold_inv:
  assumes "\<And>w a. a \<in> set as \<Longrightarrow> P w \<Longrightarrow> \<exists>w'. f w a = Some (Inr w') \<and> P w'" and "P w"
  shows "\<exists>w'. run_fold f w as = Some (Inr w') \<and> P w'"
  using assms
proof (induction as arbitrary: w)
  case (Cons a as)
  then obtain w1 where "f w a = Some (Inr w1)" "P w1" by (meson list.set_intros(1))
  moreover obtain w2 where "run_fold f w1 as = Some (Inr w2)" "P w2"
    using Cons.IH [OF _ \<open>P w1\<close>] Cons.prems(1) by (meson list.set_intros(2))
  ultimately show ?case by simp
qed simp

text \<open>What every step of a loop keeps when it returns, the loop keeps when it returns.\<close>

lemma run_fold_keeps:
  assumes "\<And>w a w'. P w \<Longrightarrow> f w a = Some (Inr w') \<Longrightarrow> P w'"
  shows "P w \<Longrightarrow> run_fold f w as = Some (Inr w') \<Longrightarrow> P w'"
proof (induction as arbitrary: w)
  case (Cons a as)
  then show ?case using assms by (cases "f w a") (auto simp: ubind_def split: sum.splits)
qed simp

lemma ubind_eq_Inr: "ubind m k = Some (Inr y) \<longleftrightarrow> (\<exists>x. m = Some (Inr x) \<and> k x = Some (Inr y))"
  by (auto simp: ubind_def split: option.split sum.split)

text \<open>Recursive calls under \<open>ubind\<close>, for loops that may run forever.\<close>

lemma ubind_mono [partial_function_mono]:
  fixes B :: "('d \<Rightarrow> 'e option) \<Rightarrow> 'b run"
  assumes "mono_option B" "\<And>y. mono_option (\<lambda>f. C y f)"
  shows "mono_option (\<lambda>f. ubind (B f) (\<lambda>y. C y f))"
proof (rule monotoneI)
  fix f g :: "'d \<Rightarrow> 'e option"
  assume fg: "option.le_fun f g"
  have B: "option_ord (B f) (B g)" using assms(1) fg unfolding monotone_def by blast
  have C: "option_ord (C y f) (C y g)" for y using assms(2) fg unfolding monotone_def by blast
  show "option_ord (ubind (B f) (\<lambda>y. C y f)) (ubind (B g) (\<lambda>y. C y g))"
  proof (cases "B f")
    case (Some r)
    then have "B g = B f" using B by (simp add: flat_ord_def)
    then show ?thesis using C by (simp add: ubind_def Some split: sum.split) (simp add: flat_ord_def)
  qed (simp add: flat_ord_def)
qed

section \<open>C integers\<close>

text \<open>
  C's \<open>/\<close> rounds towards zero, Isabelle's \<open>div\<close> towards minus infinity; \<open>cdiv\<close> is C's. A zero
  divisor is the business of the caller (see \<open>cdiv_checked\<close>).
\<close>

definition cdiv :: "int \<Rightarrow> int \<Rightarrow> int" where
  "cdiv a b = sgn a * sgn b * (\<bar>a\<bar> div \<bar>b\<bar>)"

definition cdiv_checked :: "int \<Rightarrow> int \<Rightarrow> int res" where
  "cdiv_checked a b = (if b = 0 then Inl Div_By_Zero else Inr (cdiv a b))"

lemma cdiv_nonneg_eq: "0 \<le> a \<Longrightarrow> 0 < b \<Longrightarrow> cdiv a b = a div b"
  by (cases "a = 0") (simp_all add: cdiv_def)

lemma cdiv_neg_eq: "a \<le> 0 \<Longrightarrow> 0 < b \<Longrightarrow> cdiv a b = - ((- a) div b)"
  by (cases "a = 0") (simp_all add: cdiv_def)

lemma cdiv_nonneg: "0 \<le> a \<Longrightarrow> 0 < b \<Longrightarrow> 0 \<le> cdiv a b"
  by (simp add: cdiv_nonneg_eq pos_imp_zdiv_nonneg_iff)

lemma cdiv_checked_ok [simp]: "b \<noteq> 0 \<Longrightarrow> cdiv_checked a b = Inr (cdiv a b)"
  by (simp add: cdiv_checked_def)

section \<open>Arrays as lists\<close>

text \<open>An array access with C's unchecked index: outside the block it is a fault.\<close>

definition aget :: "'a list \<Rightarrow> int \<Rightarrow> 'a res" where
  "aget xs i = (if 0 \<le> i \<and> i < int (length xs) then Inr (xs ! nat i) else Inl Out_Of_Bounds)"

definition aset :: "'a list \<Rightarrow> int \<Rightarrow> 'a \<Rightarrow> 'a list res" where
  "aset xs i v =
     (if 0 \<le> i \<and> i < int (length xs) then Inr (xs[nat i := v]) else Inl Out_Of_Bounds)"

lemma aget_nat [simp]: "i < length xs \<Longrightarrow> aget xs (int i) = Inr (xs ! i)"
  by (simp add: aget_def)

lemma aset_nat [simp]: "i < length xs \<Longrightarrow> aset xs (int i) v = Inr (xs[i := v])"
  by (simp add: aset_def)

lemma aget_fault: "i < 0 \<or> int (length xs) \<le> i \<Longrightarrow> aget xs i = Inl Out_Of_Bounds"
  by (auto simp: aget_def)

lemma aset_fault: "i < 0 \<or> int (length xs) \<le> i \<Longrightarrow> aset xs i v = Inl Out_Of_Bounds"
  by (auto simp: aset_def)

lemma aget_Inr_iff:
  "aget xs i = Inr x \<longleftrightarrow> 0 \<le> i \<and> i < int (length xs) \<and> x = xs ! nat i"
  by (auto simp: aget_def)

lemma aset_Inr_iff:
  "aset xs i v = Inr ys \<longleftrightarrow> 0 \<le> i \<and> i < int (length xs) \<and> ys = xs[nat i := v]"
  by (auto simp: aset_def)

lemma aset_then_aget: "aset xs i v = Inr ys \<Longrightarrow> aget ys j = (if j = i then Inr v else aget xs j)"
  by (auto simp: aset_def aget_def nth_list_update nat_eq_iff2 split: if_splits)

text \<open>Writing a run of elements over the array from position \<open>p\<close> on (\<open>memcpy\<close>).\<close>

definition blit :: "'a list \<Rightarrow> nat \<Rightarrow> 'a list \<Rightarrow> 'a list" where
  "blit dst p src = take p dst @ src @ drop (p + length src) dst"

lemma length_blit [simp]: "p + length src \<le> length dst \<Longrightarrow> length (blit dst p src) = length dst"
  by (simp add: blit_def)

lemma take_blit: "p + length src \<le> length dst \<Longrightarrow> take (p + length src) (blit dst p src) = take p dst @ src"
  by (simp add: blit_def)

lemma take_list_update_ge [simp]: "n \<le> i \<Longrightarrow> take n (xs[i := v]) = take n xs"
  by (simp add: take_update_cancel)

section \<open>C strings\<close>

text \<open>
  A block of bytes, \<open>None\<close> where nothing was written since it was allocated, and the string a C
  function reads from its start: the bytes before the first \<open>NUL\<close>.
\<close>

abbreviation NUL :: char where "NUL \<equiv> CHR 0x00"

fun cstr :: "char option list \<Rightarrow> char list res" where
  "cstr [] = Inl Out_Of_Bounds"
| "cstr (None # xs) = Inl Uninitialised"
| "cstr (Some c # xs) = (if c = NUL then Inr [] else rbind (cstr xs) (\<lambda>s. Inr (c # s)))"

lemma cstr_terminated:
  "cstr (map Some s @ Some NUL # rest) = Inr (takeWhile (\<lambda>c. c \<noteq> NUL) s)"
  by (induction s) simp_all

section \<open>Rectangles\<close>

text \<open>MiniGUI's \<open>RECT\<close>, and the macros for its width and height.\<close>

record rect =
  r_left :: int
  r_top :: int
  r_right :: int
  r_bottom :: int

definition RECTW :: "rect \<Rightarrow> int" where "RECTW r = r_right r - r_left r"
definition RECTH :: "rect \<Rightarrow> int" where "RECTH r = r_bottom r - r_top r"

section \<open>Serving a sequence of requests\<close>

text \<open>
  A component that answers requests and changes its state on the way: the answers to a sequence of
  requests, and the state left. A fault in one request ends the sequence.
\<close>

fun run_requests :: "('i \<Rightarrow> 's \<Rightarrow> ('o \<times> 's) res) \<Rightarrow> 'i list \<Rightarrow> 's \<Rightarrow> ('o list \<times> 's) res" where
  "run_requests step [] s = Inr ([], s)"
| "run_requests step (i # is) s =
     rbind (step i s) (\<lambda>(r, s'). rbind (run_requests step is s') (\<lambda>(rs, s''). Inr (r # rs, s'')))"

text \<open>
  The contract of a server whose answers do not depend on what was asked before: under its invariant
  every request is answered as the specification says and the invariant is kept.
\<close>

locale stateless_server =
  fixes step :: "'i \<Rightarrow> 's \<Rightarrow> ('o \<times> 's) res"
    and inv :: "'s \<Rightarrow> bool"
    and answer :: "'i \<Rightarrow> 'o"
  assumes step_answer: "inv s \<Longrightarrow> \<exists>s'. step i s = Inr (answer i, s') \<and> inv s'"
begin

lemma run_answers: "inv s \<Longrightarrow> \<exists>s'. run_requests step is s = Inr (map answer is, s') \<and> inv s'"
proof (induction "is" arbitrary: s)
  case Nil
  then show ?case by simp
next
  case (Cons i "is")
  obtain s1 where s1: "step i s = Inr (answer i, s1)" "inv s1"
    using step_answer [OF Cons.prems] by blast
  obtain s2 where "run_requests step is s1 = Inr (map answer is, s2)" "inv s2"
    using Cons.IH [OF s1(2)] by blast
  with s1 show ?case by simp
qed

end

lemma run_requests_append:
  "run_requests step (xs @ ys) s = rbind (run_requests step xs s) (\<lambda>(rs, s). rbind (run_requests step ys s) (\<lambda>(ts, s). Inr (rs @ ts, s)))"
proof (induction xs arbitrary: s)
  case (Cons x xs)
  show ?case
  proof (cases "step x s")
    case (Inr p)
    then show ?thesis using Cons.IH [of "snd p"] by (cases "run_requests step xs (snd p)") (auto simp: rbind_def case_prod_unfold split: sum.split)
  qed (simp add: rbind_def)
qed (simp add: case_prod_unfold rbind_def split: sum.split)

text \<open>
  The contract of a server that follows a specification on states of its own, as long as its requests are allowed.
\<close>

fun run_spec :: "('i \<Rightarrow> 'a \<Rightarrow> 'o \<times> 'a) \<Rightarrow> 'i list \<Rightarrow> 'a \<Rightarrow> 'o list \<times> 'a" where
  "run_spec spec [] a = ([], a)"
| "run_spec spec (i # is) a = (let (r, a) = spec i a; (rs, a) = run_spec spec is a in (r # rs, a))"

fun requests_allowed :: "('i \<Rightarrow> 's \<Rightarrow> ('o \<times> 's) res) \<Rightarrow> ('s \<Rightarrow> 'i \<Rightarrow> bool) \<Rightarrow> 'i list \<Rightarrow> 's \<Rightarrow> bool" where
  "requests_allowed step ok [] s = True"
| "requests_allowed step ok (i # is) s \<longleftrightarrow>
     ok s i \<and> (case step i s of Inl x \<Rightarrow> True | Inr (r, s) \<Rightarrow> requests_allowed step ok is s)"

locale specified_server =
  fixes step :: "'i \<Rightarrow> 's \<Rightarrow> ('o \<times> 's) res"
    and spec :: "'i \<Rightarrow> 'a \<Rightarrow> 'o \<times> 'a"
    and ok :: "'s \<Rightarrow> 'i \<Rightarrow> bool"
    and rel :: "'s \<Rightarrow> 'a \<Rightarrow> bool"
  assumes step_spec: "rel s a \<Longrightarrow> ok s i \<Longrightarrow> \<exists>s'. step i s = Inr (fst (spec i a), s') \<and> rel s' (snd (spec i a))"
begin

lemma run_refines:
  "rel s a \<Longrightarrow> requests_allowed step ok is s \<Longrightarrow>
    \<exists>s'. run_requests step is s = Inr (fst (run_spec spec is a), s') \<and> rel s' (snd (run_spec spec is a))"
proof (induction "is" arbitrary: s a)
  case (Cons i "is")
  obtain s1 where s1: "step i s = Inr (fst (spec i a), s1)" "rel s1 (snd (spec i a))"
    using step_spec [OF Cons.prems(1)] Cons.prems(2) by auto
  moreover have "requests_allowed step ok is s1" using Cons.prems(2) s1(1) by simp
  ultimately show ?case using Cons.IH [OF s1(2)] by (fastforce simp: case_prod_unfold Let_def)
qed simp

end

text \<open>The contract of operations that keep an invariant and do not fault where they are allowed.\<close>

fun run_steps :: "('c \<Rightarrow> 's \<Rightarrow> 's res) \<Rightarrow> 'c list \<Rightarrow> 's \<Rightarrow> 's res" where
  "run_steps step [] s = Inr s"
| "run_steps step (c # cs) s = rbind (step c s) (run_steps step cs)"

fun steps_allowed :: "('c \<Rightarrow> 's \<Rightarrow> 's res) \<Rightarrow> ('s \<Rightarrow> 'c \<Rightarrow> bool) \<Rightarrow> 'c list \<Rightarrow> 's \<Rightarrow> bool" where
  "steps_allowed step ok [] s = True"
| "steps_allowed step ok (c # cs) s \<longleftrightarrow> ok s c \<and> (case step c s of Inl x \<Rightarrow> True | Inr s \<Rightarrow> steps_allowed step ok cs s)"

locale kept_invariant =
  fixes step :: "'c \<Rightarrow> 's \<Rightarrow> 's res"
    and ok :: "'s \<Rightarrow> 'c \<Rightarrow> bool"
    and inv :: "'s \<Rightarrow> bool"
  assumes step_keeps: "inv s \<Longrightarrow> ok s c \<Longrightarrow> \<exists>s'. step c s = Inr s' \<and> inv s'"
begin

lemma run_keeps: "inv s \<Longrightarrow> steps_allowed step ok cs s \<Longrightarrow> \<exists>s'. run_steps step cs s = Inr s' \<and> inv s'"
proof (induction cs arbitrary: s)
  case (Cons c cs)
  obtain s1 where "step c s = Inr s1" "inv s1" using step_keeps [OF Cons.prems(1)] Cons.prems(2) by auto
  then show ?case using Cons by simp
qed simp

end

end
