(* ===== verification/Dlg_Data.thy ===== *)
theory Dlg_Data
  imports GB_Prelude
begin

text \<open>
  The static dialog templates of \<open>mainframe/dlgtmpls.c\<close>, one definition per array of controls and
  one per template, in the order of the file. \<open>CTRLDATA\<close> and \<open>DLGTEMPLATE\<close> are MiniGUI's; the
  records have the members the file initialises, in its order. The macro \<open>_\<close> is the identity in this
  file, so a caption is the literal itself. The three arrays longer than a page are split in two
  halves and appended.
\<close>

record ctrldata =
  class_name :: string
  dwStyle :: "64 word"
  cx :: int
  cy :: int
  cw :: int
  ch :: int
  ctrl_id :: int
  caption :: string
  dwAddData :: "64 word"
  dwExStyle :: "64 word"
  werdr_name :: "string option"
  we_attrs :: "string option"

record dlgtemplate =
  t_style :: "64 word"
  t_exstyle :: "64 word"
  t_x :: int
  t_y :: int
  t_w :: int
  t_h :: int
  t_caption :: string
  t_hIcon :: int
  t_hMenu :: int
  t_controlnr :: int
  t_controls :: "ctrldata list"
  t_dwAddData :: "64 word"

definition FontManager_controls_lo :: "ctrldata list" where
  "FontManager_controls_lo = [
   \<lparr>class_name = ''button'', dwStyle = 0x08010000, cx = 304, cy = 369, cw = 80, ch = 30, ctrl_id = 1,
     caption = ''OK'', dwAddData = 0, dwExStyle = 0, werdr_name = None, we_attrs = None\<rparr>,
   \<lparr>class_name = ''button'', dwStyle = 0x08010000, cx = 403, cy = 369, cw = 80, ch = 30, ctrl_id = 2,
     caption = ''Cancel'', dwAddData = 0, dwExStyle = 0, werdr_name = None, we_attrs = None\<rparr>,
   \<lparr>class_name = ''button'', dwStyle = 0x08010000, cx = 206, cy = 369, cw = 80, ch = 30, ctrl_id = 163,
     caption = ''Import'', dwAddData = 0, dwExStyle = 0, werdr_name = None, we_attrs = None\<rparr>,
   \<lparr>class_name = ''listview'', dwStyle = 0x084D0001, cx = 20, cy = 32, cw = 464, ch = 195, ctrl_id = 161,
     caption = '''', dwAddData = 0, dwExStyle = 0, werdr_name = None, we_attrs = None\<rparr>,
   \<lparr>class_name = ''static'', dwStyle = 0x08010007, cx = 20, cy = 237, cw = 464, ch = 114, ctrl_id = 11,
     caption = ''Default font for project'', dwAddData = 0, dwExStyle = 0, werdr_name = None, we_attrs = None\<rparr>,
   \<lparr>class_name = ''static'', dwStyle = 0x08010010, cx = 21, cy = 8, cw = 381, ch = 23, ctrl_id = 12,
     caption = ''System device font name:'', dwAddData = 0, dwExStyle = 0, werdr_name = None, we_attrs = None\<rparr>]"

definition FontManager_controls_hi :: "ctrldata list" where
  "FontManager_controls_hi = [
   \<lparr>class_name = ''static'', dwStyle = 0x08010030, cx = 28, cy = 260, cw = 106, ch = 30, ctrl_id = 13,
     caption = ''Caption font:'', dwAddData = 0, dwExStyle = 0, werdr_name = None, we_attrs = None\<rparr>,
   \<lparr>class_name = ''static'', dwStyle = 0x08010030, cx = 26, cy = 302, cw = 107, ch = 30, ctrl_id = 14,
     caption = ''Client font:'', dwAddData = 0, dwExStyle = 0, werdr_name = None, we_attrs = None\<rparr>,
   \<lparr>class_name = ''sledit'', dwStyle = 0x08410000, cx = 138, cy = 261, cw = 264, ch = 30, ctrl_id = 166,
     caption = '''', dwAddData = 0, dwExStyle = 0, werdr_name = None, we_attrs = None\<rparr>,
   \<lparr>class_name = ''sledit'', dwStyle = 0x08410000, cx = 138, cy = 303, cw = 264, ch = 30, ctrl_id = 168,
     caption = '''', dwAddData = 0, dwExStyle = 0, werdr_name = None, we_attrs = None\<rparr>,
   \<lparr>class_name = ''button'', dwStyle = 0x08010000, cx = 415, cy = 261, cw = 56, ch = 30, ctrl_id = 167,
     caption = ''...'', dwAddData = 0, dwExStyle = 0, werdr_name = None, we_attrs = None\<rparr>,
   \<lparr>class_name = ''button'', dwStyle = 0x08010000, cx = 415, cy = 303, cw = 56, ch = 30, ctrl_id = 169,
     caption = ''...'', dwAddData = 0, dwExStyle = 0, werdr_name = None, we_attrs = None\<rparr>]"

definition FontManager_controls :: "ctrldata list" where
  "FontManager_controls = FontManager_controls_lo @ FontManager_controls_hi"

definition FontManager_templ :: dlgtemplate where
  "FontManager_templ =
   \<lparr>t_style = 0x30C00000, t_exstyle = 0, t_x = 0, t_y = 0, t_w = 506, t_h = 440,
    t_caption = ''Font Management'', t_hIcon = 0, t_hMenu = 0, t_controlnr = int (length FontManager_controls),
    t_controls = FontManager_controls, t_dwAddData = 0\<rparr>"

definition ImportImage_controls :: "ctrldata list" where
  "ImportImage_controls = [
   \<lparr>class_name = ''button'', dwStyle = 0x08010000, cx = 44, cy = 128, cw = 100, ch = 32, ctrl_id = 202,
     caption = ''Import'', dwAddData = 0, dwExStyle = 0, werdr_name = None, we_attrs = None\<rparr>,
   \<lparr>class_name = ''button'', dwStyle = 0x08010000, cx = 176, cy = 128, cw = 100, ch = 32, ctrl_id = 2,
     caption = ''Cancel'', dwAddData = 0, dwExStyle = 0, werdr_name = None, we_attrs = None\<rparr>,
   \<lparr>class_name = ''sledit'', dwStyle = 0x08410000, cx = 34, cy = 62, cw = 252, ch = 30, ctrl_id = 201,
     caption = ''IDB_IMG_FILENAME'', dwAddData = 0, dwExStyle = 0, werdr_name = None, we_attrs = None\<rparr>,
   \<lparr>class_name = ''static'', dwStyle = 0x08010010, cx = 36, cy = 28, cw = 203, ch = 30, ctrl_id = 12,
     caption = ''Input image ID name:'', dwAddData = 0, dwExStyle = 0, werdr_name = None, we_attrs = None\<rparr>]"

definition ImportImage_templ :: dlgtemplate where
  "ImportImage_templ =
   \<lparr>t_style = 0x38C00000, t_exstyle = 0, t_x = 0, t_y = 0, t_w = 325, t_h = 214,
    t_caption = ''Import Image Resource'', t_hIcon = 0, t_hMenu = 0, t_controlnr = int (length ImportImage_controls),
    t_controls = ImportImage_controls, t_dwAddData = 0\<rparr>"

definition NewFile_controls :: "ctrldata list" where
  "NewFile_controls = [
   \<lparr>class_name = ''propsheet'', dwStyle = 0x08010000, cx = 24, cy = 40, cw = 476, ch = 220, ctrl_id = 100,
     caption = '''', dwAddData = 0, dwExStyle = 0, werdr_name = None, we_attrs = None\<rparr>,
   \<lparr>class_name = ''sledit'', dwStyle = 0x08410000, cx = 173, cy = 280, cw = 327, ch = 29, ctrl_id = 101,
     caption = '''', dwAddData = 0, dwExStyle = 0, werdr_name = None, we_attrs = None\<rparr>,
   \<lparr>class_name = ''static'', dwStyle = 0x08010010, cx = 24, cy = 287, cw = 144, ch = 14, ctrl_id = 11,
     caption = ''Input file name:'', dwAddData = 0, dwExStyle = 0, werdr_name = None, we_attrs = None\<rparr>,
   \<lparr>class_name = ''button'', dwStyle = 0x08010000, cx = 264, cy = 320, cw = 100, ch = 34, ctrl_id = 1,
     caption = ''OK'', dwAddData = 0, dwExStyle = 0, werdr_name = None, we_attrs = None\<rparr>,
   \<lparr>class_name = ''button'', dwStyle = 0x08010000, cx = 400, cy = 320, cw = 100, ch = 34, ctrl_id = 2,
     caption = ''Cancel'', dwAddData = 0, dwExStyle = 0, werdr_name = None, we_attrs = None\<rparr>,
   \<lparr>class_name = ''button'', dwStyle = 0x08010003, cx = 20, cy = 320, cw = 200, ch = 28, ctrl_id = 102,
     caption = ''Overwrite exist file'', dwAddData = 0, dwExStyle = 0, werdr_name = None, we_attrs = None\<rparr>,
   \<lparr>class_name = ''static'', dwStyle = 0x08010010, cx = 24, cy = 16, cw = 344, ch = 21, ctrl_id = 15,
     caption = ''Please select a window template:'', dwAddData = 0, dwExStyle = 0, werdr_name = None, we_attrs = None\<rparr>]"

definition NewFile_templ :: dlgtemplate where
  "NewFile_templ =
   \<lparr>t_style = 0x30C00000, t_exstyle = 0, t_x = 0, t_y = 0, t_w = 526, t_h = 404,
    t_caption = ''New file ...'', t_hIcon = 0, t_hMenu = 0, t_controlnr = int (length NewFile_controls),
    t_controls = NewFile_controls, t_dwAddData = 0\<rparr>"

definition NewRenderer_controls :: "ctrldata list" where
  "NewRenderer_controls = [
   \<lparr>class_name = ''button'', dwStyle = 0x08010000, cx = 84, cy = 228, cw = 100, ch = 32, ctrl_id = 1,
     caption = ''OK'', dwAddData = 0, dwExStyle = 0, werdr_name = None, we_attrs = None\<rparr>,
   \<lparr>class_name = ''button'', dwStyle = 0x08010000, cx = 228, cy = 228, cw = 100, ch = 32, ctrl_id = 2,
     caption = ''Cancel'', dwAddData = 0, dwExStyle = 0, werdr_name = None, we_attrs = None\<rparr>,
   \<lparr>class_name = ''static'', dwStyle = 0x08010007, cx = 28, cy = 20, cw = 344, ch = 184, ctrl_id = 15,
     caption = ''New LF renderer'', dwAddData = 0, dwExStyle = 0x00000000, werdr_name = None, we_attrs = None\<rparr>,
   \<lparr>class_name = ''static'', dwStyle = 0x08010030, cx = 37, cy = 65, cw = 124, ch = 32, ctrl_id = 16,
     caption = ''Renderer type:'', dwAddData = 0, dwExStyle = 0, werdr_name = None, we_attrs = None\<rparr>,
   \<lparr>class_name = ''static'', dwStyle = 0x08010030, cx = 37, cy = 113, cw = 124, ch = 32, ctrl_id = 17,
     caption = ''Control type:'', dwAddData = 0, dwExStyle = 0, werdr_name = None, we_attrs = None\<rparr>,
   \<lparr>class_name = ''static'', dwStyle = 0x08010030, cx = 37, cy = 157, cw = 124, ch = 32, ctrl_id = 18,
     caption = ''ID name:'', dwAddData = 0, dwExStyle = 0, werdr_name = None, we_attrs = None\<rparr>,
   \<lparr>class_name = ''sledit'', dwStyle = 0x08410000, cx = 168, cy = 152, cw = 176, ch = 28, ctrl_id = 120,
     caption = ''IDR_'', dwAddData = 0, dwExStyle = 0, werdr_name = None, we_attrs = None\<rparr>,
   \<lparr>class_name = ''combobox'', dwStyle = 0x0801000B, cx = 168, cy = 60, cw = 180, ch = 28, ctrl_id = 100,
     caption = '''', dwAddData = 0, dwExStyle = 0, werdr_name = None, we_attrs = None\<rparr>,
   \<lparr>class_name = ''combobox'', dwStyle = 0x0801000B, cx = 168, cy = 108, cw = 180, ch = 28, ctrl_id = 110,
     caption = '''', dwAddData = 0, dwExStyle = 0, werdr_name = None, we_attrs = None\<rparr>]"

definition NewRenderer_templ :: dlgtemplate where
  "NewRenderer_templ =
   \<lparr>t_style = 0x30C00000, t_exstyle = 0, t_x = 0, t_y = 0, t_w = 401, t_h = 310,
    t_caption = ''Create New Renderer'', t_hIcon = 0, t_hMenu = 0, t_controlnr = int (length NewRenderer_controls),
    t_controls = NewRenderer_controls, t_dwAddData = 0\<rparr>"

definition NewRendererSet_controls :: "ctrldata list" where
  "NewRendererSet_controls = [
   \<lparr>class_name = ''static'', dwStyle = 0x08010007, cx = 28, cy = 20, cw = 344, ch = 169, ctrl_id = 9,
     caption = ''New renderer set'', dwAddData = 0, dwExStyle = 0, werdr_name = None, we_attrs = None\<rparr>,
   \<lparr>class_name = ''button'', dwStyle = 0x08010000, cx = 84, cy = 224, cw = 100, ch = 32, ctrl_id = 1,
     caption = ''OK'', dwAddData = 0, dwExStyle = 0, werdr_name = None, we_attrs = None\<rparr>,
   \<lparr>class_name = ''button'', dwStyle = 0x08010000, cx = 224, cy = 224, cw = 100, ch = 32, ctrl_id = 2,
     caption = ''Cancel'', dwAddData = 0, dwExStyle = 0, werdr_name = None, we_attrs = None\<rparr>,
   \<lparr>class_name = ''static'', dwStyle = 0x08010030, cx = 34, cy = 73, cw = 125, ch = 30, ctrl_id = 12,
     caption = ''Renderer type:'', dwAddData = 0, dwExStyle = 0, werdr_name = None, we_attrs = None\<rparr>,
   \<lparr>class_name = ''static'', dwStyle = 0x08010030, cx = 34, cy = 122, cw = 125, ch = 30, ctrl_id = 13,
     caption = ''Set ID name:'', dwAddData = 0, dwExStyle = 0, werdr_name = None, we_attrs = None\<rparr>,
   \<lparr>class_name = ''sledit'', dwStyle = 0x08410000, cx = 168, cy = 117, cw = 176, ch = 28, ctrl_id = 120,
     caption = ''IDRS_'', dwAddData = 0, dwExStyle = 0, werdr_name = None, we_attrs = None\<rparr>,
   \<lparr>class_name = ''combobox'', dwStyle = 0x0801000B, cx = 168, cy = 68, cw = 176, ch = 28, ctrl_id = 100,
     caption = '''', dwAddData = 0, dwExStyle = 0, werdr_name = None, we_attrs = None\<rparr>]"

definition NewRendererSet_templ :: dlgtemplate where
  "NewRendererSet_templ =
   \<lparr>t_style = 0x30C00000, t_exstyle = 0, t_x = 0, t_y = 0, t_w = 401, t_h = 310,
    t_caption = ''Create New Renderer Set'', t_hIcon = 0, t_hMenu = 0, t_controlnr = int (length NewRendererSet_controls),
    t_controls = NewRendererSet_controls, t_dwAddData = 0\<rparr>"

definition AddRenderer_controls :: "ctrldata list" where
  "AddRenderer_controls = [
   \<lparr>class_name = ''button'', dwStyle = 0x08010000, cx = 50, cy = 230, cw = 80, ch = 30, ctrl_id = 1,
     caption = ''OK'', dwAddData = 0, dwExStyle = 0, werdr_name = None, we_attrs = None\<rparr>,
   \<lparr>class_name = ''button'', dwStyle = 0x08010000, cx = 270, cy = 230, cw = 80, ch = 30, ctrl_id = 2,
     caption = ''Cancel'', dwAddData = 0, dwExStyle = 0, werdr_name = None, we_attrs = None\<rparr>,
   \<lparr>class_name = ''listbox'', dwStyle = 0x084D0009, cx = 17, cy = 19, cw = 355, ch = 190, ctrl_id = 100,
     caption = '''', dwAddData = 0, dwExStyle = 0, werdr_name = None, we_attrs = None\<rparr>]"

definition AddRenderer_templ :: dlgtemplate where
  "AddRenderer_templ =
   \<lparr>t_style = 0x30C00000, t_exstyle = 0, t_x = 0, t_y = 0, t_w = 400, t_h = 310,
    t_caption = ''Add Renderer to RdrSet'', t_hIcon = 0, t_hMenu = 0, t_controlnr = int (length AddRenderer_controls),
    t_controls = AddRenderer_controls, t_dwAddData = 0\<rparr>"

definition SetDefaultRenderer_controls :: "ctrldata list" where
  "SetDefaultRenderer_controls = [
   \<lparr>class_name = ''listbox'', dwStyle = 0x08410001, cx = 24, cy = 44, cw = 172, ch = 152, ctrl_id = 100,
     caption = '''', dwAddData = 0, dwExStyle = 0, werdr_name = None, we_attrs = None\<rparr>,
   \<lparr>class_name = ''static'', dwStyle = 0x08010010, cx = 24, cy = 16, cw = 172, ch = 24, ctrl_id = 10,
     caption = ''Select renderer:'', dwAddData = 0, dwExStyle = 0, werdr_name = None, we_attrs = None\<rparr>,
   \<lparr>class_name = ''button'', dwStyle = 0x08010000, cx = 224, cy = 46, cw = 100, ch = 32, ctrl_id = 1,
     caption = ''OK'', dwAddData = 0, dwExStyle = 0, werdr_name = None, we_attrs = None\<rparr>,
   \<lparr>class_name = ''button'', dwStyle = 0x08010000, cx = 224, cy = 94, cw = 100, ch = 32, ctrl_id = 2,
     caption = ''Cancel'', dwAddData = 0, dwExStyle = 0, werdr_name = None, we_attrs = None\<rparr>]"

definition SetDefaultRenderer_templ :: dlgtemplate where
  "SetDefaultRenderer_templ =
   \<lparr>t_style = 0x38C00000, t_exstyle = 0, t_x = 0, t_y = 0, t_w = 348, t_h = 244,
    t_caption = ''Set Default Renderer'', t_hIcon = 0, t_hMenu = 0, t_controlnr = int (length SetDefaultRenderer_controls),
    t_controls = SetDefaultRenderer_controls, t_dwAddData = 0\<rparr>"

definition SetScreenSize_controls :: "ctrldata list" where
  "SetScreenSize_controls = [
   \<lparr>class_name = ''button'', dwStyle = 0x08010000, cx = 44, cy = 174, cw = 90, ch = 32, ctrl_id = 1,
     caption = ''OK'', dwAddData = 0, dwExStyle = 0, werdr_name = None, we_attrs = None\<rparr>,
   \<lparr>class_name = ''button'', dwStyle = 0x08010000, cx = 164, cy = 174, cw = 90, ch = 32, ctrl_id = 2,
     caption = ''Cancel'', dwAddData = 0, dwExStyle = 0, werdr_name = None, we_attrs = None\<rparr>,
   \<lparr>class_name = ''sledit'', dwStyle = 0x08410000, cx = 132, cy = 37, cw = 122, ch = 30, ctrl_id = 100,
     caption = '''', dwAddData = 0, dwExStyle = 0, werdr_name = None, we_attrs = None\<rparr>,
   \<lparr>class_name = ''sledit'', dwStyle = 0x08410000, cx = 132, cy = 82, cw = 122, ch = 30, ctrl_id = 101,
     caption = '''', dwAddData = 0, dwExStyle = 0, werdr_name = None, we_attrs = None\<rparr>,
   \<lparr>class_name = ''static'', dwStyle = 0x08010030, cx = 27, cy = 33, cw = 80, ch = 34, ctrl_id = 12,
     caption = ''Width:'', dwAddData = 0, dwExStyle = 0, werdr_name = None, we_attrs = None\<rparr>,
   \<lparr>class_name = ''static'', dwStyle = 0x08010030, cx = 27, cy = 122, cw = 80, ch = 34, ctrl_id = 11,
     caption = ''Depth:'', dwAddData = 0, dwExStyle = 0, werdr_name = None, we_attrs = None\<rparr>,
   \<lparr>class_name = ''static'', dwStyle = 0x08010030, cx = 27, cy = 80, cw = 80, ch = 34, ctrl_id = 13,
     caption = ''Height:'', dwAddData = 0, dwExStyle = 0, werdr_name = None, we_attrs = None\<rparr>,
   \<lparr>class_name = ''combobox'', dwStyle = 0x0801100B, cx = 132, cy = 127, cw = 122, ch = 25, ctrl_id = 15,
     caption = '''', dwAddData = 0, dwExStyle = 0, werdr_name = None, we_attrs = None\<rparr>]"

definition SetScreenSize_templ :: dlgtemplate where
  "SetScreenSize_templ =
   \<lparr>t_style = 0x38C00000, t_exstyle = 0, t_x = 0, t_y = 0, t_w = 300, t_h = 250,
    t_caption = ''Set Screen Size'', t_hIcon = 0, t_hMenu = 0, t_controlnr = int (length SetScreenSize_controls),
    t_controls = SetScreenSize_controls, t_dwAddData = 0\<rparr>"

definition AddLang_controls :: "ctrldata list" where
  "AddLang_controls = [
   \<lparr>class_name = ''combobox'', dwStyle = 0x0801000B, cx = 29, cy = 46, cw = 215, ch = 28, ctrl_id = 2100,
     caption = '''', dwAddData = 0, dwExStyle = 0, werdr_name = None, we_attrs = None\<rparr>,
   \<lparr>class_name = ''button'', dwStyle = 0x08010000, cx = 36, cy = 96, cw = 90, ch = 32, ctrl_id = 1,
     caption = ''OK'', dwAddData = 0, dwExStyle = 0, werdr_name = None, we_attrs = None\<rparr>,
   \<lparr>class_name = ''button'', dwStyle = 0x08010000, cx = 143, cy = 96, cw = 90, ch = 32, ctrl_id = 2,
     caption = ''Cancel'', dwAddData = 0, dwExStyle = 0, werdr_name = None, we_attrs = None\<rparr>,
   \<lparr>class_name = ''static'', dwStyle = 0x08010000, cx = 25, cy = 16, cw = 146, ch = 28, ctrl_id = 17,
     caption = ''Select language:'', dwAddData = 0, dwExStyle = 0, werdr_name = None, we_attrs = None\<rparr>]"

definition AddLang_templ :: dlgtemplate where
  "AddLang_templ =
   \<lparr>t_style = 0x30C00000, t_exstyle = 0, t_x = 0, t_y = 0, t_w = 276, t_h = 168,
    t_caption = ''Add Language'', t_hIcon = 0, t_hMenu = 0, t_controlnr = int (length AddLang_controls),
    t_controls = AddLang_controls, t_dwAddData = 0\<rparr>"

definition TextProfile_controls :: "ctrldata list" where
  "TextProfile_controls = [
   \<lparr>class_name = ''button'', dwStyle = 0x08010000, cx = 316, cy = 29, cw = 98, ch = 30, ctrl_id = 300,
     caption = ''Add'', dwAddData = 0, dwExStyle = 0, werdr_name = None, we_attrs = None\<rparr>,
   \<lparr>class_name = ''button'', dwStyle = 0x08010000, cx = 317, cy = 71, cw = 98, ch = 30, ctrl_id = 400,
     caption = ''Delete'', dwAddData = 0, dwExStyle = 0, werdr_name = None, we_attrs = None\<rparr>,
   \<lparr>class_name = ''button'', dwStyle = 0x08010000, cx = 317, cy = 111, cw = 98, ch = 30, ctrl_id = 500,
     caption = ''Set Default'', dwAddData = 0, dwExStyle = 0, werdr_name = None, we_attrs = None\<rparr>,
   \<lparr>class_name = ''button'', dwStyle = 0x08010000, cx = 317, cy = 155, cw = 98, ch = 30, ctrl_id = 600,
     caption = ''Set Current'', dwAddData = 0, dwExStyle = 0, werdr_name = None, we_attrs = None\<rparr>,
   \<lparr>class_name = ''button'', dwStyle = 0x08010000, cx = 192, cy = 232, cw = 100, ch = 32, ctrl_id = 1,
     caption = ''OK'', dwAddData = 0, dwExStyle = 0, werdr_name = None, we_attrs = None\<rparr>,
   \<lparr>class_name = ''button'', dwStyle = 0x08010000, cx = 315, cy = 232, cw = 100, ch = 32, ctrl_id = 2,
     caption = ''Cancel'', dwAddData = 0, dwExStyle = 0, werdr_name = None, we_attrs = None\<rparr>,
   \<lparr>class_name = ''listview'', dwStyle = 0x084D0001, cx = 24, cy = 28, cw = 269, ch = 168, ctrl_id = 100,
     caption = '''', dwAddData = 0, dwExStyle = 0, werdr_name = None, we_attrs = None\<rparr>]"

definition TextProfile_templ :: dlgtemplate where
  "TextProfile_templ =
   \<lparr>t_style = 0x30C00000, t_exstyle = 0, t_x = 0, t_y = 0, t_w = 443, t_h = 303,
    t_caption = ''Profile ...'', t_hIcon = 0, t_hMenu = 0, t_controlnr = int (length TextProfile_controls),
    t_controls = TextProfile_controls, t_dwAddData = 0\<rparr>"

definition ConnectEvent_controls :: "ctrldata list" where
  "ConnectEvent_controls = [
   \<lparr>class_name = ''button'', dwStyle = 0x08010000, cx = 303, cy = 231, cw = 80, ch = 30, ctrl_id = 2,
     caption = ''Cancel'', dwAddData = 0, dwExStyle = 0, werdr_name = None, we_attrs = None\<rparr>,
   \<lparr>class_name = ''button'', dwStyle = 0x08010000, cx = 303, cy = 33, cw = 80, ch = 30, ctrl_id = 107,
     caption = ''Add'', dwAddData = 0, dwExStyle = 0, werdr_name = None, we_attrs = None\<rparr>,
   \<lparr>class_name = ''button'', dwStyle = 0x08010000, cx = 303, cy = 72, cw = 80, ch = 30, ctrl_id = 106,
     caption = ''Delete'', dwAddData = 0, dwExStyle = 0, werdr_name = None, we_attrs = None\<rparr>,
   \<lparr>class_name = ''button'', dwStyle = 0x08010000, cx = 303, cy = 111, cw = 80, ch = 30, ctrl_id = 116,
     caption = ''Modify'', dwAddData = 0, dwExStyle = 0, werdr_name = None, we_attrs = None\<rparr>,
   \<lparr>class_name = ''button'', dwStyle = 0x08010000, cx = 303, cy = 150, cw = 80, ch = 30, ctrl_id = 117,
     caption = ''GO Source'', dwAddData = 0, dwExStyle = 0, werdr_name = None, we_attrs = None\<rparr>,
   \<lparr>class_name = ''static'', dwStyle = 0x08010010, cx = 15, cy = 5, cw = 250, ch = 23, ctrl_id = 14,
     caption = ''Event Listener:'', dwAddData = 0, dwExStyle = 0, werdr_name = None, we_attrs = None\<rparr>,
   \<lparr>class_name = ''listview'', dwStyle = 0x084D0001, cx = 15, cy = 63, cw = 273, ch = 198, ctrl_id = 115,
     caption = '''', dwAddData = 0, dwExStyle = 0, werdr_name = None, we_attrs = None\<rparr>,
   \<lparr>class_name = ''button'', dwStyle = 0x08010000, cx = 303, cy = 189, cw = 80, ch = 30, ctrl_id = 1,
     caption = ''OK'', dwAddData = 0, dwExStyle = 0, werdr_name = None, we_attrs = None\<rparr>,
   \<lparr>class_name = ''sledit'', dwStyle = 0x08410800, cx = 15, cy = 28, cw = 230, ch = 30, ctrl_id = 103,
     caption = '''', dwAddData = 0, dwExStyle = 0, werdr_name = None, we_attrs = None\<rparr>,
   \<lparr>class_name = ''button'', dwStyle = 0x08010000, cx = 248, cy = 28, cw = 40, ch = 30, ctrl_id = 110,
     caption = ''...'', dwAddData = 0, dwExStyle = 0, werdr_name = None, we_attrs = None\<rparr>]"

definition ConnectEvent_templ :: dlgtemplate where
  "ConnectEvent_templ =
   \<lparr>t_style = 0x30C00000, t_exstyle = 0, t_x = 0, t_y = 0, t_w = 407, t_h = 320,
    t_caption = ''Connect Events'', t_hIcon = 0, t_hMenu = 0, t_controlnr = int (length ConnectEvent_controls),
    t_controls = ConnectEvent_controls, t_dwAddData = 0\<rparr>"

definition SelectEvent_controls :: "ctrldata list" where
  "SelectEvent_controls = [
   \<lparr>class_name = ''button'', dwStyle = 0x08010000, cx = 137, cy = 323, cw = 80, ch = 30, ctrl_id = 1,
     caption = ''OK'', dwAddData = 0, dwExStyle = 0, werdr_name = None, we_attrs = None\<rparr>,
   \<lparr>class_name = ''button'', dwStyle = 0x08010000, cx = 248, cy = 324, cw = 80, ch = 30, ctrl_id = 2,
     caption = ''Cancel'', dwAddData = 0, dwExStyle = 0, werdr_name = None, we_attrs = None\<rparr>,
   \<lparr>class_name = ''static'', dwStyle = 0x08010010, cx = 22, cy = 13, cw = 323, ch = 22, ctrl_id = 17,
     caption = ''Step 1: Select an event:'', dwAddData = 0, dwExStyle = 0, werdr_name = None, we_attrs = None\<rparr>,
   \<lparr>class_name = ''listbox'', dwStyle = 0x084D0001, cx = 22, cy = 70, cw = 323, ch = 127, ctrl_id = 105,
     caption = '''', dwAddData = 0, dwExStyle = 0, werdr_name = None, we_attrs = None\<rparr>,
   \<lparr>class_name = ''static'', dwStyle = 0x08010010, cx = 22, cy = 200, cw = 323, ch = 22, ctrl_id = 20,
     caption = ''Step 2: Input event name:'', dwAddData = 0, dwExStyle = 0, werdr_name = None, we_attrs = None\<rparr>,
   \<lparr>class_name = ''sledit'', dwStyle = 0x08410000, cx = 22, cy = 225, cw = 323, ch = 30, ctrl_id = 108,
     caption = '''', dwAddData = 0, dwExStyle = 0, werdr_name = None, we_attrs = None\<rparr>,
   \<lparr>class_name = ''static'', dwStyle = 0x08010010, cx = 22, cy = 262, cw = 323, ch = 60, ctrl_id = 22,
     caption = ''Note: The event name must be a validate C language function name.'', dwAddData = 0, dwExStyle = 0, werdr_name = None, we_attrs = None\<rparr>,
   \<lparr>class_name = ''sledit'', dwStyle = 0x08410800, cx = 22, cy = 35, cw = 280, ch = 30, ctrl_id = 102,
     caption = '''', dwAddData = 0, dwExStyle = 0, werdr_name = None, we_attrs = None\<rparr>,
   \<lparr>class_name = ''button'', dwStyle = 0x08010000, cx = 305, cy = 35, cw = 40, ch = 30, ctrl_id = 109,
     caption = ''...'', dwAddData = 0, dwExStyle = 0, werdr_name = None, we_attrs = None\<rparr>]"

definition SelectEvent_templ :: dlgtemplate where
  "SelectEvent_templ =
   \<lparr>t_style = 0x30C30000, t_exstyle = 0, t_x = 0, t_y = 0, t_w = 396, t_h = 403,
    t_caption = ''Select Event'', t_hIcon = 0, t_hMenu = 0, t_controlnr = int (length SelectEvent_controls),
    t_controls = SelectEvent_controls, t_dwAddData = 0\<rparr>"

definition InputEventName_controls :: "ctrldata list" where
  "InputEventName_controls = [
   \<lparr>class_name = ''button'', dwStyle = 0x08010000, cx = 105, cy = 163, cw = 80, ch = 30, ctrl_id = 1,
     caption = ''OK'', dwAddData = 0, dwExStyle = 0, werdr_name = None, we_attrs = None\<rparr>,
   \<lparr>class_name = ''button'', dwStyle = 0x08010000, cx = 210, cy = 163, cw = 80, ch = 30, ctrl_id = 2,
     caption = ''Cancel'', dwAddData = 0, dwExStyle = 0, werdr_name = None, we_attrs = None\<rparr>,
   \<lparr>class_name = ''static'', dwStyle = 0x08010010, cx = 13, cy = 6, cw = 271, ch = 22, ctrl_id = 23,
     caption = ''Input event name:'', dwAddData = 0, dwExStyle = 0, werdr_name = None, we_attrs = None\<rparr>,
   \<lparr>class_name = ''sledit'', dwStyle = 0x08410000, cx = 13, cy = 37, cw = 271, ch = 30, ctrl_id = 120,
     caption = ''SlEdit2'', dwAddData = 0, dwExStyle = 0, werdr_name = None, we_attrs = None\<rparr>,
   \<lparr>class_name = ''static'', dwStyle = 0x08010010, cx = 13, cy = 82, cw = 271, ch = 58, ctrl_id = 25,
     caption = ''Note: The event name must be a validate C language function name.'', dwAddData = 0, dwExStyle = 0, werdr_name = None, we_attrs = None\<rparr>]"

definition InputEventName_templ :: dlgtemplate where
  "InputEventName_templ =
   \<lparr>t_style = 0x30C00000, t_exstyle = 0, t_x = 0, t_y = 0, t_w = 333, t_h = 245,
    t_caption = ''Input event name'', t_hIcon = 0, t_hMenu = 0, t_controlnr = int (length InputEventName_controls),
    t_controls = InputEventName_controls, t_dwAddData = 0\<rparr>"

definition FontSelect_controls_lo :: "ctrldata list" where
  "FontSelect_controls_lo = [
   \<lparr>class_name = ''button'', dwStyle = 0x08010000, cx = 242, cy = 344, cw = 80, ch = 30, ctrl_id = 530,
     caption = ''OK'', dwAddData = 0, dwExStyle = 0, werdr_name = None, we_attrs = None\<rparr>,
   \<lparr>class_name = ''button'', dwStyle = 0x08010000, cx = 344, cy = 344, cw = 80, ch = 30, ctrl_id = 531,
     caption = ''Cancel'', dwAddData = 0, dwExStyle = 0, werdr_name = None, we_attrs = None\<rparr>,
   \<lparr>class_name = ''static'', dwStyle = 0x08010010, cx = 12, cy = 8, cw = 100, ch = 24, ctrl_id = 521,
     caption = ''File path:'', dwAddData = 0, dwExStyle = 0, werdr_name = None, we_attrs = None\<rparr>,
   \<lparr>class_name = ''combobox'', dwStyle = 0x0801000B, cx = 107, cy = 8, cw = 269, ch = 25, ctrl_id = 522,
     caption = '''', dwAddData = 0, dwExStyle = 0, werdr_name = None, we_attrs = None\<rparr>,
   \<lparr>class_name = ''button'', dwStyle = 0x08010000, cx = 383, cy = 8, cw = 46, ch = 25, ctrl_id = 523,
     caption = ''UP'', dwAddData = 0, dwExStyle = 0, werdr_name = None, we_attrs = None\<rparr>]"

definition FontSelect_controls_hi :: "ctrldata list" where
  "FontSelect_controls_hi = [
   \<lparr>class_name = ''listview'', dwStyle = 0x084D0001, cx = 12, cy = 41, cw = 417, ch = 216, ctrl_id = 524,
     caption = '''', dwAddData = 0, dwExStyle = 0, werdr_name = None, we_attrs = None\<rparr>,
   \<lparr>class_name = ''static'', dwStyle = 0x08010010, cx = 12, cy = 274, cw = 100, ch = 24, ctrl_id = 525,
     caption = ''File name:'', dwAddData = 0, dwExStyle = 0, werdr_name = None, we_attrs = None\<rparr>,
   \<lparr>class_name = ''static'', dwStyle = 0x08010010, cx = 12, cy = 304, cw = 100, ch = 24, ctrl_id = 527,
     caption = ''File type:'', dwAddData = 0, dwExStyle = 0, werdr_name = None, we_attrs = None\<rparr>,
   \<lparr>class_name = ''sledit'', dwStyle = 0x08410000, cx = 112, cy = 269, cw = 317, ch = 25, ctrl_id = 526,
     caption = '''', dwAddData = 0, dwExStyle = 0, werdr_name = None, we_attrs = None\<rparr>,
   \<lparr>class_name = ''combobox'', dwStyle = 0x0801000B, cx = 112, cy = 305, cw = 317, ch = 25, ctrl_id = 528,
     caption = '''', dwAddData = 0, dwExStyle = 0, werdr_name = None, we_attrs = None\<rparr>,
   \<lparr>class_name = ''button'', dwStyle = 0x08010003, cx = 8, cy = 344, cw = 120, ch = 30, ctrl_id = 529,
     caption = ''Hide file'', dwAddData = 0, dwExStyle = 0, werdr_name = None, we_attrs = None\<rparr>]"

definition FontSelect_controls :: "ctrldata list" where
  "FontSelect_controls = FontSelect_controls_lo @ FontSelect_controls_hi"

definition FontSelect_templ :: dlgtemplate where
  "FontSelect_templ =
   \<lparr>t_style = 0x38C00000, t_exstyle = 0, t_x = 0, t_y = 0, t_w = 458, t_h = 417,
    t_caption = ''Open Or Save File'', t_hIcon = 0, t_hMenu = 0, t_controlnr = int (length FontSelect_controls),
    t_controls = FontSelect_controls, t_dwAddData = 0\<rparr>"

definition IDRangeEditor_controls :: "ctrldata list" where
  "IDRangeEditor_controls = [
   \<lparr>class_name = ''static'', dwStyle = 0x08010010, cx = 6, cy = 7, cw = 75, ch = 23, ctrl_id = 9,
     caption = ''Res type:'', dwAddData = 0, dwExStyle = 0, werdr_name = None, we_attrs = None\<rparr>,
   \<lparr>class_name = ''combobox'', dwStyle = 0x0801000B, cx = 88, cy = 8, cw = 310, ch = 24, ctrl_id = 10,
     caption = '''', dwAddData = 0, dwExStyle = 0, werdr_name = None, we_attrs = None\<rparr>,
   \<lparr>class_name = ''listview'', dwStyle = 0x084D0001, cx = 8, cy = 48, cw = 391, ch = 108, ctrl_id = 11,
     caption = '''', dwAddData = 0, dwExStyle = 0, werdr_name = None, we_attrs = None\<rparr>,
   \<lparr>class_name = ''button'', dwStyle = 0x08010000, cx = 7, cy = 173, cw = 123, ch = 30, ctrl_id = 12,
     caption = ''New range'', dwAddData = 0, dwExStyle = 0, werdr_name = None, we_attrs = None\<rparr>,
   \<lparr>class_name = ''button'', dwStyle = 0x08010000, cx = 318, cy = 173, cw = 80, ch = 30, ctrl_id = 13,
     caption = ''Exit'', dwAddData = 0, dwExStyle = 0, werdr_name = None, we_attrs = None\<rparr>,
   \<lparr>class_name = ''button'', dwStyle = 0x08010000, cx = 140, cy = 173, cw = 123, ch = 30, ctrl_id = 14,
     caption = ''Extend range'', dwAddData = 0, dwExStyle = 0, werdr_name = None, we_attrs = None\<rparr>]"

definition IDRangeEditor_templ :: dlgtemplate where
  "IDRangeEditor_templ =
   \<lparr>t_style = 0x38C00000, t_exstyle = 0, t_x = 0, t_y = 0, t_w = 414, t_h = 252,
    t_caption = ''ID range editor'', t_hIcon = 0, t_hMenu = 0, t_controlnr = int (length IDRangeEditor_controls),
    t_controls = IDRangeEditor_controls, t_dwAddData = 0\<rparr>"

definition NewIDRange_controls_lo :: "ctrldata list" where
  "NewIDRange_controls_lo = [
   \<lparr>class_name = ''listview'', dwStyle = 0x084D0001, cx = 8, cy = 67, cw = 344, ch = 96, ctrl_id = 24,
     caption = '''', dwAddData = 0, dwExStyle = 0, werdr_name = None, we_attrs = None\<rparr>,
   \<lparr>class_name = ''static'', dwStyle = 0x08010010, cx = 8, cy = 40, cw = 339, ch = 25, ctrl_id = 25,
     caption = ''Usable range:'', dwAddData = 0, dwExStyle = 0, werdr_name = None, we_attrs = None\<rparr>,
   \<lparr>class_name = ''button'', dwStyle = 0x08010000, cx = 274, cy = 301, cw = 82, ch = 31, ctrl_id = 1,
     caption = ''OK'', dwAddData = 0, dwExStyle = 0, werdr_name = None, we_attrs = None\<rparr>,
   \<lparr>class_name = ''sledit'', dwStyle = 0x08410000, cx = 92, cy = 204, cw = 115, ch = 24, ctrl_id = 38,
     caption = '''', dwAddData = 0, dwExStyle = 0, werdr_name = None, we_attrs = None\<rparr>,
   \<lparr>class_name = ''sledit'', dwStyle = 0x08410000, cx = 236, cy = 204, cw = 115, ch = 24, ctrl_id = 39,
     caption = '''', dwAddData = 0, dwExStyle = 0, werdr_name = None, we_attrs = None\<rparr>,
   \<lparr>class_name = ''static'', dwStyle = 0x08010000, cx = 212, cy = 212, cw = 23, ch = 10, ctrl_id = 31,
     caption = ''~'', dwAddData = 0, dwExStyle = 0, werdr_name = None, we_attrs = None\<rparr>,
   \<lparr>class_name = ''combobox'', dwStyle = 0x0801000B, cx = 92, cy = 267, cw = 263, ch = 26, ctrl_id = 33,
     caption = '''', dwAddData = 0, dwExStyle = 0, werdr_name = None, we_attrs = None\<rparr>]"

definition NewIDRange_controls_hi :: "ctrldata list" where
  "NewIDRange_controls_hi = [
   \<lparr>class_name = ''static'', dwStyle = 0x08010010, cx = 8, cy = 207, cw = 76, ch = 25, ctrl_id = 34,
     caption = ''Range:'', dwAddData = 0, dwExStyle = 0, werdr_name = None, we_attrs = None\<rparr>,
   \<lparr>class_name = ''static'', dwStyle = 0x08010010, cx = 8, cy = 267, cw = 76, ch = 25, ctrl_id = 35,
     caption = ''User:'', dwAddData = 0, dwExStyle = 0, werdr_name = None, we_attrs = None\<rparr>,
   \<lparr>class_name = ''button'', dwStyle = 0x08010000, cx = 186, cy = 301, cw = 82, ch = 31, ctrl_id = 2,
     caption = ''Cancel'', dwAddData = 0, dwExStyle = 0, werdr_name = None, we_attrs = None\<rparr>,
   \<lparr>class_name = ''static'', dwStyle = 0x0C010010, cx = 9, cy = 6, cw = 346, ch = 34, ctrl_id = 26,
     caption = ''Step 1: Select a usable range as you new range.'', dwAddData = 0, dwExStyle = 0, werdr_name = None, we_attrs = None\<rparr>,
   \<lparr>class_name = ''static'', dwStyle = 0x0C010010, cx = 7, cy = 169, cw = 346, ch = 34, ctrl_id = 29,
     caption = ''Step 2: Input a new range. You should avoid conflict with other developers'', dwAddData = 0, dwExStyle = 0, werdr_name = None, we_attrs = None\<rparr>,
   \<lparr>class_name = ''static'', dwStyle = 0x0C010010, cx = 6, cy = 233, cw = 346, ch = 34, ctrl_id = 30,
     caption = ''Step 3: Select or input a developer name Who Would Use The Range'', dwAddData = 0, dwExStyle = 0, werdr_name = None, we_attrs = None\<rparr>,
   \<lparr>class_name = ''button'', dwStyle = 0x08010000, cx = 7, cy = 301, cw = 163, ch = 31, ctrl_id = 36,
     caption = ''Learn more ...'', dwAddData = 0, dwExStyle = 0, werdr_name = None, we_attrs = None\<rparr>]"

definition NewIDRange_controls :: "ctrldata list" where
  "NewIDRange_controls = NewIDRange_controls_lo @ NewIDRange_controls_hi"

definition NewIDRange_templ :: dlgtemplate where
  "NewIDRange_templ =
   \<lparr>t_style = 0x28C00000, t_exstyle = 0, t_x = 0, t_y = 0, t_w = 376, t_h = 375,
    t_caption = ''New range'', t_hIcon = 0, t_hMenu = 0, t_controlnr = int (length NewIDRange_controls),
    t_controls = NewIDRange_controls, t_dwAddData = 0\<rparr>"

definition ExtendIDRange_controls :: "ctrldata list" where
  "ExtendIDRange_controls = [
   \<lparr>class_name = ''sledit'', dwStyle = 0x08410000, cx = 88, cy = 9, cw = 83, ch = 24, ctrl_id = 38,
     caption = '''', dwAddData = 0, dwExStyle = 0, werdr_name = None, we_attrs = None\<rparr>,
   \<lparr>class_name = ''sledit'', dwStyle = 0x08410000, cx = 204, cy = 9, cw = 81, ch = 24, ctrl_id = 39,
     caption = '''', dwAddData = 0, dwExStyle = 0, werdr_name = None, we_attrs = None\<rparr>,
   \<lparr>class_name = ''static'', dwStyle = 0x08010000, cx = 176, cy = 16, cw = 23, ch = 10, ctrl_id = 40,
     caption = ''~'', dwAddData = 0, dwExStyle = 0, werdr_name = None, we_attrs = None\<rparr>,
   \<lparr>class_name = ''button'', dwStyle = 0x08010000, cx = 86, cy = 60, cw = 82, ch = 31, ctrl_id = 1,
     caption = ''OK'', dwAddData = 0, dwExStyle = 0, werdr_name = None, we_attrs = None\<rparr>,
   \<lparr>class_name = ''button'', dwStyle = 0x08010000, cx = 206, cy = 59, cw = 82, ch = 31, ctrl_id = 2,
     caption = ''Cancel'', dwAddData = 0, dwExStyle = 0, werdr_name = None, we_attrs = None\<rparr>,
   \<lparr>class_name = ''static'', dwStyle = 0x08010030, cx = 3, cy = 9, cw = 80, ch = 25, ctrl_id = 45,
     caption = ''100<'', dwAddData = 0, dwExStyle = 0, werdr_name = None, we_attrs = None\<rparr>,
   \<lparr>class_name = ''static'', dwStyle = 0x08010010, cx = 290, cy = 9, cw = 89, ch = 25, ctrl_id = 46,
     caption = ''>=1000'', dwAddData = 0, dwExStyle = 0, werdr_name = None, we_attrs = None\<rparr>]"

definition ExtendIDRange_templ :: dlgtemplate where
  "ExtendIDRange_templ =
   \<lparr>t_style = 0x28C00000, t_exstyle = 0, t_x = 0, t_y = 0, t_w = 394, t_h = 141,
    t_caption = ''Extend Range'', t_hIcon = 0, t_hMenu = 0, t_controlnr = int (length ExtendIDRange_controls),
    t_controls = ExtendIDRange_controls, t_dwAddData = 0\<rparr>"

definition About_controls :: "ctrldata list" where
  "About_controls = [
   \<lparr>class_name = ''button'', dwStyle = 0x08010000, cx = 180, cy = 340, cw = 92, ch = 32, ctrl_id = 1,
     caption = ''OK'', dwAddData = 0, dwExStyle = 0, werdr_name = None, we_attrs = None\<rparr>,
   \<lparr>class_name = ''static'', dwStyle = 0x08010009, cx = 24, cy = 12, cw = 416, ch = 52, ctrl_id = 104,
     caption = '''', dwAddData = 0, dwExStyle = 0, werdr_name = None, we_attrs = None\<rparr>,
   \<lparr>class_name = ''static'', dwStyle = 0x08010020, cx = 28, cy = 280, cw = 412, ch = 40, ctrl_id = 10,
     caption = ''Copyright (c) 2010 Beijing FMSoft Technologies CO., LTD.'', dwAddData = 0, dwExStyle = 0, werdr_name = None, we_attrs = None\<rparr>,
   \<lparr>class_name = ''static'', dwStyle = 0x08010030, cx = 24, cy = 112, cw = 72, ch = 40, ctrl_id = 11,
     caption = ''Version:'', dwAddData = 0, dwExStyle = 0, werdr_name = None, we_attrs = None\<rparr>,
   \<lparr>class_name = ''static'', dwStyle = 0x08010030, cx = 24, cy = 168, cw = 72, ch = 40, ctrl_id = 12,
     caption = ''Build:'', dwAddData = 0, dwExStyle = 0, werdr_name = None, we_attrs = None\<rparr>,
   \<lparr>class_name = ''static'', dwStyle = 0x08010010, cx = 112, cy = 112, cw = 344, ch = 40, ctrl_id = 100,
     caption = '''', dwAddData = 0, dwExStyle = 0, werdr_name = None, we_attrs = None\<rparr>,
   \<lparr>class_name = ''static'', dwStyle = 0x08010010, cx = 112, cy = 168, cw = 344, ch = 40, ctrl_id = 101,
     caption = '''', dwAddData = 0, dwExStyle = 0, werdr_name = None, we_attrs = None\<rparr>,
   \<lparr>class_name = ''static'', dwStyle = 0x08010020, cx = 20, cy = 76, cw = 420, ch = 24, ctrl_id = 13,
     caption = ''A GUI Builder for MiniGUI (with mGNCS).'', dwAddData = 0, dwExStyle = 0, werdr_name = None, we_attrs = None\<rparr>,
   \<lparr>class_name = ''static'', dwStyle = 0x08010030, cx = 24, cy = 220, cw = 72, ch = 40, ctrl_id = 105,
     caption = ''SN:'', dwAddData = 0, dwExStyle = 0, werdr_name = None, we_attrs = None\<rparr>,
   \<lparr>class_name = ''static'', dwStyle = 0x08010010, cx = 112, cy = 220, cw = 344, ch = 40, ctrl_id = 106,
     caption = '''', dwAddData = 0, dwExStyle = 0, werdr_name = None, we_attrs = None\<rparr>]"

definition About_templ :: dlgtemplate where
  "About_templ =
   \<lparr>t_style = 0x38C00000, t_exstyle = 0, t_x = 0, t_y = 0, t_w = 476, t_h = 424,
    t_caption = ''About GUI Builder'', t_hIcon = 0, t_hMenu = 0, t_controlnr = int (length About_controls),
    t_controls = About_controls, t_dwAddData = 0\<rparr>"

definition SetStartWindow_controls :: "ctrldata list" where
  "SetStartWindow_controls = [
   \<lparr>class_name = ''button'', dwStyle = 0x08010000, cx = 223, cy = 39, cw = 80, ch = 30, ctrl_id = 1,
     caption = ''OK'', dwAddData = 0, dwExStyle = 0, werdr_name = None, we_attrs = None\<rparr>,
   \<lparr>class_name = ''button'', dwStyle = 0x08010000, cx = 223, cy = 75, cw = 80, ch = 30, ctrl_id = 2,
     caption = ''Cancel'', dwAddData = 0, dwExStyle = 0, werdr_name = None, we_attrs = None\<rparr>,
   \<lparr>class_name = ''static'', dwStyle = 0x08010010, cx = 9, cy = 9, cw = 294, ch = 25, ctrl_id = 10,
     caption = ''Select start window'', dwAddData = 0, dwExStyle = 0, werdr_name = None, we_attrs = None\<rparr>,
   \<lparr>class_name = ''listbox'', dwStyle = 0x08490001, cx = 10, cy = 37, cw = 196, ch = 162, ctrl_id = 100,
     caption = '''', dwAddData = 0, dwExStyle = 0, werdr_name = None, we_attrs = None\<rparr>]"

definition SetStartWindow_templ :: dlgtemplate where
  "SetStartWindow_templ =
   \<lparr>t_style = 0x38C00000, t_exstyle = 0, t_x = 0, t_y = 0, t_w = 327, t_h = 250,
    t_caption = ''Select start window ...'', t_hIcon = 0, t_hMenu = 0, t_controlnr = int (length SetStartWindow_controls),
    t_controls = SetStartWindow_controls, t_dwAddData = 0\<rparr>"

definition TranslateProgress_controls :: "ctrldata list" where
  "TranslateProgress_controls = [
   \<lparr>class_name = ''button'', dwStyle = 0x08010000, cx = 148, cy = 102, cw = 80, ch = 30, ctrl_id = 2,
     caption = ''Cancel'', dwAddData = 0, dwExStyle = 0, werdr_name = None, we_attrs = None\<rparr>,
   \<lparr>class_name = ''static'', dwStyle = 0x08010010, cx = 7, cy = 8, cw = 363, ch = 46, ctrl_id = 112,
     caption = '''', dwAddData = 0, dwExStyle = 0, werdr_name = None, we_attrs = None\<rparr>,
   \<lparr>class_name = ''progressbar'', dwStyle = 0x08010001, cx = 7, cy = 66, cw = 363, ch = 25, ctrl_id = 111,
     caption = '''', dwAddData = 0, dwExStyle = 0, werdr_name = None, we_attrs = None\<rparr>]"

definition TranslateProgress_templ :: dlgtemplate where
  "TranslateProgress_templ =
   \<lparr>t_style = 0x38C00000, t_exstyle = 0, t_x = 0, t_y = 0, t_w = 383, t_h = 173,
    t_caption = ''Translate'', t_hIcon = 0, t_hMenu = 0, t_controlnr = int (length TranslateProgress_controls),
    t_controls = TranslateProgress_controls, t_dwAddData = 0\<rparr>"

definition SelectProjectType_controls :: "ctrldata list" where
  "SelectProjectType_controls = [
   \<lparr>class_name = ''button'', dwStyle = 0x08010000, cx = 342, cy = 229, cw = 80, ch = 30, ctrl_id = 1,
     caption = ''OK'', dwAddData = 0, dwExStyle = 0, werdr_name = None, we_attrs = None\<rparr>,
   \<lparr>class_name = ''button'', dwStyle = 0x08010000, cx = 237, cy = 229, cw = 80, ch = 30, ctrl_id = 2,
     caption = ''Cancel'', dwAddData = 0, dwExStyle = 0, werdr_name = None, we_attrs = None\<rparr>,
   \<lparr>class_name = ''static'', dwStyle = 0x08010010, cx = 21, cy = 9, cw = 248, ch = 25, ctrl_id = 10,
     caption = ''Select project type'', dwAddData = 0, dwExStyle = 0, werdr_name = None, we_attrs = None\<rparr>,
   \<lparr>class_name = ''listbox'', dwStyle = 0x084D0001, cx = 21, cy = 36, cw = 401, ch = 169, ctrl_id = 100,
     caption = '''', dwAddData = 0, dwExStyle = 0, werdr_name = None, we_attrs = None\<rparr>]"

definition SelectProjectType_templ :: dlgtemplate where
  "SelectProjectType_templ =
   \<lparr>t_style = 0x38C00000, t_exstyle = 0, t_x = 0, t_y = 0, t_w = 455, t_h = 316,
    t_caption = ''Select project type'', t_hIcon = 0, t_hMenu = 0, t_controlnr = int (length SelectProjectType_controls),
    t_controls = SelectProjectType_controls, t_dwAddData = 0\<rparr>"

text \<open>The table of pointers the dialog ids index.\<close>

definition templs_init :: "dlgtemplate option list" where
  "templs_init = [
    Some FontManager_templ,
    Some ImportImage_templ,
    Some NewFile_templ,
    Some NewRenderer_templ,
    Some NewRendererSet_templ,
    Some AddRenderer_templ,
    Some SetDefaultRenderer_templ,
    Some SetScreenSize_templ,
    Some AddLang_templ,
    Some TextProfile_templ,
    Some ConnectEvent_templ,
    Some SelectEvent_templ,
    Some InputEventName_templ,
    Some FontSelect_templ,
    Some IDRangeEditor_templ,
    Some NewIDRange_templ,
    Some ExtendIDRange_templ,
    Some About_templ,
    Some SetStartWindow_templ,
    Some TranslateProgress_templ,
    Some SelectProjectType_templ]"

lemmas controls_defs =
  FontManager_controls_lo_def
  FontManager_controls_hi_def
  FontManager_controls_def
  ImportImage_controls_def
  NewFile_controls_def
  NewRenderer_controls_def
  NewRendererSet_controls_def
  AddRenderer_controls_def
  SetDefaultRenderer_controls_def
  SetScreenSize_controls_def
  AddLang_controls_def
  TextProfile_controls_def
  ConnectEvent_controls_def
  SelectEvent_controls_def
  InputEventName_controls_def
  FontSelect_controls_lo_def
  FontSelect_controls_hi_def
  FontSelect_controls_def
  IDRangeEditor_controls_def
  NewIDRange_controls_lo_def
  NewIDRange_controls_hi_def
  NewIDRange_controls_def
  ExtendIDRange_controls_def
  About_controls_def
  SetStartWindow_controls_def
  TranslateProgress_controls_def
  SelectProjectType_controls_def

lemmas templ_defs =
  FontManager_templ_def
  ImportImage_templ_def
  NewFile_templ_def
  NewRenderer_templ_def
  NewRendererSet_templ_def
  AddRenderer_templ_def
  SetDefaultRenderer_templ_def
  SetScreenSize_templ_def
  AddLang_templ_def
  TextProfile_templ_def
  ConnectEvent_templ_def
  SelectEvent_templ_def
  InputEventName_templ_def
  FontSelect_templ_def
  IDRangeEditor_templ_def
  NewIDRange_templ_def
  ExtendIDRange_templ_def
  About_templ_def
  SetStartWindow_templ_def
  TranslateProgress_templ_def
  SelectProjectType_templ_def

end
