(* ===== verification/Dlg_Templates.thy ===== *)
theory Dlg_Templates
  imports Dlg_Data
begin

unbundle bit_operations_syntax

text \<open>
  The operations of \<open>mainframe/dlgtmpls.c\<close> on the static templates of \<open>Dlg_Data\<close>. The templates
  are mutable data of the file: \<open>GetDlgTemplate\<close> clears the visible bit of the one it hands out and,
  in a build with \<open>_MSTUDIO_LOCALE\<close>, replaces every caption by its translation on the first call.
  The state is the table of pointers (what they point to written in place) and the flag \<open>_inited\<close>.

  Not under \<open>src/\<close>, hence parameters: MiniGUI's \<open>WS_VISIBLE\<close>. The C++ function \<open>msd_gettext\<close> of
  \<open>trans/gettext.cpp\<close> is a parameter too: a function on captions.
\<close>

record dlg_state =
  templs :: "dlgtemplate option list"
  inited :: bool

definition dlg_init :: dlg_state where
  "dlg_init = \<lparr>templs = templs_init, inited = False\<rparr>"

section \<open>Translation of the captions\<close>

definition translate_control :: "(string \<Rightarrow> string) \<Rightarrow> ctrldata \<Rightarrow> ctrldata" where
  "translate_control gettext c = c\<lparr>caption := gettext (caption c)\<rparr>"

text \<open>
  The inner loop: \<open>j\<close> runs to \<open>controlnr\<close>, which may differ from the number of controls there are;
  then the loop leaves the array.
\<close>

definition translate_template :: "(string \<Rightarrow> string) \<Rightarrow> dlgtemplate \<Rightarrow> dlgtemplate res" where
  "translate_template gettext t =
     (if t_controlnr t \<le> int (length (t_controls t))
      then Inr (t\<lparr>t_caption := gettext (t_caption t),
                  t_controls := map (translate_control gettext) (take (nat (t_controlnr t)) (t_controls t))
                                @ drop (nat (t_controlnr t)) (t_controls t)\<rparr>)
      else Inl Out_Of_Bounds)"

fun translate_all ::
  "(string \<Rightarrow> string) \<Rightarrow> dlgtemplate option list \<Rightarrow> dlgtemplate option list res" where
  "translate_all gettext [] = Inr []"
| "translate_all gettext (None # ts) = rbind (translate_all gettext ts) (\<lambda>ts'. Inr (None # ts'))"
| "translate_all gettext (Some t # ts) =
     rbind (translate_template gettext t) (\<lambda>t'.
     rbind (translate_all gettext ts) (\<lambda>ts'. Inr (Some t' # ts')))"

definition init_international_text :: "(string \<Rightarrow> string) \<Rightarrow> dlg_state \<Rightarrow> dlg_state res" where
  "init_international_text gettext s =
     (if inited s then Inr s
      else rbind (translate_all gettext (templs s)) (\<lambda>ts. Inr (s\<lparr>templs := ts, inited := True\<rparr>)))"

section \<open>The lookup of a template\<close>

text \<open>
  \<open>loc\<close> tells whether the build defines \<open>_MSTUDIO_LOCALE\<close>. The result is the pointer the C code
  returns, read as what it points to.
\<close>

definition GetDlgTemplate ::
  "64 word \<Rightarrow> (string \<Rightarrow> string) option \<Rightarrow> int \<Rightarrow> dlg_state \<Rightarrow> (dlgtemplate option \<times> dlg_state) res"
where
  "GetDlgTemplate WS_VISIBLE loc dlg_id s =
     (let count = int (length (templs s)); idx = dlg_id - 10000 in
      rbind (case loc of None \<Rightarrow> Inr s | Some gettext \<Rightarrow> init_international_text gettext s) (\<lambda>s.
        if idx < 0 \<or> idx \<ge> count then Inr (None, s)
        else rbind (aget (templs s) idx) (\<lambda>p.
          case p of
            None \<Rightarrow> Inr (None, s)
          | Some t \<Rightarrow>
              (let t' = t\<lparr>t_style := t_style t AND NOT WS_VISIBLE\<rparr> in
               rbind (aset (templs s) idx (Some t')) (\<lambda>ts. Inr (Some t', s\<lparr>templs := ts\<rparr>))))))"

section \<open>The lookup of a control\<close>

text \<open>The index loop of \<open>GetControlData\<close>; the pointer returned is given as the index and the control.\<close>

function control_loop :: "ctrldata list \<Rightarrow> int \<Rightarrow> int \<Rightarrow> int \<Rightarrow> (int \<times> ctrldata) option res" where
  "control_loop cs n cid i =
     (if i < n
      then rbind (aget cs i) (\<lambda>c. if ctrl_id c = cid then Inr (Some (i, c)) else control_loop cs n cid (i + 1))
      else Inr None)"
  by pat_completeness auto
termination
  by (relation "measure (\<lambda>(cs, n, cid, i). nat (n - i))") auto

declare control_loop.simps [simp del]

definition GetControlData :: "dlgtemplate option \<Rightarrow> int \<Rightarrow> (int \<times> ctrldata) option res" where
  "GetControlData tmpl cid =
     (case tmpl of
        None \<Rightarrow> Inr None
      | Some t \<Rightarrow> control_loop (t_controls t) (t_controlnr t) cid 0)"

section \<open>Centring a dialog\<close>

text \<open>
  The \<open>MSG_CREATE\<close> branch of \<open>AutoCenterDlgProc\<close>: where the dialog \<open>hwnd\<close> is moved to, as the
  arguments of \<open>MoveWindow\<close>. The window system is a parameter: the rectangle of a window, its main
  window, the rectangle of the screen. As in the source the parent's rectangle is read from the
  dialog itself.
\<close>

definition AutoCenter_move ::
  "('h \<Rightarrow> rect) \<Rightarrow> ('h \<Rightarrow> 'h) \<Rightarrow> rect \<Rightarrow> 'h \<Rightarrow> int \<times> int \<times> int \<times> int" where
  "AutoCenter_move GetWindowRect GetMainWindowHandle g_rcScr hwnd =
     (let rcSelf = GetWindowRect hwnd;
          hMain = GetMainWindowHandle hwnd;
          rcParent = (if hMain = hwnd then g_rcScr else GetWindowRect hwnd);
          x = r_left rcParent + cdiv (RECTW rcParent - RECTW rcSelf) 3;
          y = r_top rcParent + cdiv (RECTH rcParent - RECTH rcSelf) 3
      in (x, y, RECTW rcSelf, RECTH rcSelf))"

section \<open>Facts about the data\<close>

text \<open>
  The records are compared by evaluation: each template has as many controls as \<open>controlnr\<close> says, and
  no two controls of a dialog share an id.
\<close>

definition templ_ok :: "dlgtemplate \<Rightarrow> bool" where
  "templ_ok t \<longleftrightarrow> t_controlnr t = int (length (t_controls t)) \<and> distinct (map ctrl_id (t_controls t))"

text \<open>A control lies in the rectangle of its dialog, with a positive extent.\<close>

definition ctrl_inside :: "dlgtemplate \<Rightarrow> ctrldata \<Rightarrow> bool" where
  "ctrl_inside t c \<longleftrightarrow> 0 \<le> cx c \<and> 0 \<le> cy c \<and> 0 < cw c \<and> 0 < ch c
     \<and> cx c + cw c \<le> t_w t \<and> cy c + ch c \<le> t_h t"

lemma length_templs_init: "length templs_init = 21"
  by (simp add: templs_init_def)

lemma templs_init_Some: "i < 21 \<Longrightarrow> \<exists>t. templs_init ! i = Some t"
proof -
  have "list_all (\<lambda>p. p \<noteq> None) templs_init"
    by (simp add: templs_init_def)
  then show "i < 21 \<Longrightarrow> \<exists>t. templs_init ! i = Some t"
    by (simp add: list_all_length length_templs_init)
qed

lemma templs_init_ok: "list_all (\<lambda>p. templ_ok (the p)) templs_init"
  by (simp add: templs_init_def templ_ok_def templ_defs controls_defs)

lemma templs_init_inside: "list_all (\<lambda>p. list_all (ctrl_inside (the p)) (t_controls (the p))) templs_init"
  by (simp add: templs_init_def ctrl_inside_def templ_defs controls_defs)

section \<open>GetDlgTemplate against its specification\<close>

text \<open>
  What a caller may rely on: the template the file declares for the id, its captions translated once,
  its visible bit cleared, whatever was asked before.
\<close>

definition templ0 :: "nat \<Rightarrow> dlgtemplate" where
  "templ0 i = the (templs_init ! i)"

definition localised :: "(string \<Rightarrow> string) option \<Rightarrow> dlgtemplate \<Rightarrow> dlgtemplate" where
  "localised loc t =
     (case loc of
        None \<Rightarrow> t
      | Some g \<Rightarrow> t\<lparr>t_caption := g (t_caption t), t_controls := map (translate_control g) (t_controls t)\<rparr>)"

definition handed_out :: "64 word \<Rightarrow> (string \<Rightarrow> string) option \<Rightarrow> dlgtemplate \<Rightarrow> dlgtemplate" where
  "handed_out ws loc t = (localised loc t)\<lparr>t_style := t_style t AND NOT ws\<rparr>"

definition dlg_answer :: "64 word \<Rightarrow> (string \<Rightarrow> string) option \<Rightarrow> int \<Rightarrow> dlgtemplate option" where
  "dlg_answer ws loc i =
     (if 10000 \<le> i \<and> i < 10021 then Some (handed_out ws loc (templ0 (nat (i - 10000)))) else None)"

text \<open>
  The invariant: before the first call of a localised build the table is as declared; afterwards each
  entry is localised, with its visible bit as declared or cleared.
\<close>

definition dlg_inv :: "64 word \<Rightarrow> (string \<Rightarrow> string) option \<Rightarrow> dlg_state \<Rightarrow> bool" where
  "dlg_inv ws loc s \<longleftrightarrow>
     (if loc = None \<or> inited s
      then length (templs s) = 21 \<and>
           (\<forall>i<21. templs s ! i = Some (localised loc (templ0 i)) \<or>
                  templs s ! i = Some (handed_out ws loc (templ0 i)))
      else templs s = templs_init)"

lemma templs_init_nth: "i < 21 \<Longrightarrow> templs_init ! i = Some (templ0 i)"
  using templs_init_Some [of i] by (auto simp: templ0_def)

lemma templ0_ok: "i < 21 \<Longrightarrow> templ_ok (templ0 i)"
  using templs_init_ok by (simp add: list_all_length templ0_def length_templs_init)

lemma dlg_inv_init: "dlg_inv ws loc dlg_init"
  by (auto simp: dlg_inv_def dlg_init_def length_templs_init templs_init_nth localised_def)

lemma translate_template_ok: "templ_ok t \<Longrightarrow> translate_template g t = Inr (localised (Some g) t)"
  by (simp add: translate_template_def localised_def templ_ok_def)

lemma translate_all_ok:
  "list_all (\<lambda>p. p \<noteq> None \<and> templ_ok (the p)) ts \<Longrightarrow>
   translate_all g ts = Inr (map (map_option (localised (Some g))) ts)"
  by (induction g ts rule: translate_all.induct) (simp_all add: translate_template_ok)

lemma init_text_inv:
  assumes "dlg_inv ws (Some g) s"
  shows "\<exists>s'. init_international_text g s = Inr s' \<and> dlg_inv ws (Some g) s' \<and> inited s'"
proof (cases "inited s")
  case True
  with assms show ?thesis by (simp add: init_international_text_def)
next
  case False
  have "list_all (\<lambda>p. p \<noteq> None \<and> templ_ok (the p)) templs_init"
    by (auto simp: list_all_length length_templs_init templs_init_nth templ0_ok)
  then have "translate_all g templs_init = Inr (map (map_option (localised (Some g))) templs_init)"
    by (rule translate_all_ok)
  with False assms show ?thesis
    by (auto simp: init_international_text_def dlg_inv_def length_templs_init templs_init_nth)
qed

lemma localised_style: "t_style (localised loc t) = t_style t"
  by (simp add: localised_def split: option.split)

lemma clear_visible:
  "p = localised loc t \<or> p = handed_out ws loc t \<Longrightarrow>
   p\<lparr>t_style := t_style p AND NOT ws\<rparr> = handed_out ws loc t"
  by (auto simp: handed_out_def localised_style and.assoc)

text \<open>One call after the captions are settled.\<close>

lemma hand_out_step:
  assumes inv: "dlg_inv ws loc s" and ready: "loc = None \<or> inited s"
    and idx: "0 \<le> idx" "idx < 21"
  shows "\<exists>p. aget (templs s) idx = Inr (Some p) \<and>
             p\<lparr>t_style := t_style p AND NOT ws\<rparr> = handed_out ws loc (templ0 (nat idx))"
proof -
  have *: "nat idx < 21" using idx by simp
  from inv ready have "length (templs s) = 21" by (simp add: dlg_inv_def)
  moreover from inv ready * obtain p where "templs s ! nat idx = Some p"
      "p = localised loc (templ0 (nat idx)) \<or> p = handed_out ws loc (templ0 (nat idx))"
    by (auto simp: dlg_inv_def)
  ultimately show ?thesis
    using idx clear_visible by (auto simp: aget_def)
qed

lemma dlg_step:
  assumes inv: "dlg_inv ws loc s"
  shows "\<exists>s'. GetDlgTemplate ws loc i s = Inr (dlg_answer ws loc i, s') \<and> dlg_inv ws loc s'"
proof -
  obtain s1 where s1: "(case loc of None \<Rightarrow> Inr s | Some g \<Rightarrow> init_international_text g s) = Inr s1"
      and inv1: "dlg_inv ws loc s1" and ready: "loc = None \<or> inited s1"
    using inv init_text_inv [of ws _ s] by (cases loc) fastforce+
  have len1: "length (templs s1) = 21" using inv1 ready by (simp add: dlg_inv_def)
  have len: "length (templs s) = 21"
    using inv by (auto simp: dlg_inv_def length_templs_init split: if_splits)
  show ?thesis
  proof (cases "10000 \<le> i \<and> i < 10021")
    case False
    with s1 inv1 len show ?thesis
      by (auto simp: GetDlgTemplate_def dlg_answer_def)
  next
    case True
    let ?t = "handed_out ws loc (templ0 (nat (i - 10000)))"
    obtain p where p: "aget (templs s1) (i - 10000) = Inr (Some p)"
        "p\<lparr>t_style := t_style p AND NOT ws\<rparr> = ?t"
      using hand_out_step [OF inv1 ready, of "i - 10000"] True by auto
    let ?s' = "s1\<lparr>templs := (templs s1)[nat (i - 10000) := Some ?t]\<rparr>"
    have "aset (templs s1) (i - 10000) (Some ?t) = Inr ((templs s1)[nat (i - 10000) := Some ?t])"
      using True len1 by (simp add: aset_def)
    with s1 p len True have "GetDlgTemplate ws loc i s = Inr (dlg_answer ws loc i, ?s')"
      by (simp add: GetDlgTemplate_def dlg_answer_def Let_def)
    moreover have "dlg_inv ws loc ?s'"
      using inv1 ready len1 True unfolding dlg_inv_def by (fastforce simp: nth_list_update)
    ultimately show ?thesis by blast
  qed
qed

interpretation dlg: stateless_server "GetDlgTemplate ws loc" "dlg_inv ws loc" "dlg_answer ws loc"
  by unfold_locales (rule dlg_step)

text \<open>
  C29: Every sequence of GetDlgTemplate requests gets the answers of one stateless function: a
  template is localised exactly once whatever was asked before, the window style bits are cleared,
  and an index outside 0..20 gives no template.
\<close>

theorem GetDlgTemplate_history_free:
  "\<exists>s'. run_requests (GetDlgTemplate ws loc) ids dlg_init = Inr (map (dlg_answer ws loc) ids, s')"
  using dlg.run_answers [OF dlg_inv_init] by blast

section \<open>The search of a control\<close>

lemma control_loop_first:
  assumes "n \<le> int (length cs)" "0 \<le> i" "i \<le> j" "j < n" "ctrl_id (cs ! nat j) = k"
    and "\<And>m. i \<le> m \<Longrightarrow> m < j \<Longrightarrow> ctrl_id (cs ! nat m) \<noteq> k"
  shows "control_loop cs n k i = Inr (Some (j, cs ! nat j))"
  using assms
proof (induction cs n k i rule: control_loop.induct)
  case (1 cs n k i)
  show ?case
  proof (cases "i = j")
    case True
    with "1.prems" show ?thesis
      by (subst control_loop.simps) (simp add: aget_def)
  next
    case False
    then have "ctrl_id (cs ! nat i) \<noteq> k" using "1.prems" by auto
    moreover from False "1.prems" have "control_loop cs n k (i + 1) = Inr (Some (j, cs ! nat j))"
      by (intro "1.IH" [of "cs ! nat i"]) (auto simp: aget_def)
    ultimately show ?thesis
      using False "1.prems" by (subst control_loop.simps) (simp add: aget_def)
  qed
qed

lemma control_loop_none:
  assumes "n \<le> int (length cs)" "0 \<le> i" "\<And>m. i \<le> m \<Longrightarrow> m < n \<Longrightarrow> ctrl_id (cs ! nat m) \<noteq> k"
  shows "control_loop cs n k i = Inr None"
  using assms
proof (induction cs n k i rule: control_loop.induct)
  case (1 cs n k i)
  show ?case
  proof (cases "i < n")
    case False
    then show ?thesis by (subst control_loop.simps) simp
  next
    case True
    moreover from True "1.prems" have "control_loop cs n k (i + 1) = Inr None"
      by (intro "1.IH" [of "cs ! nat i"]) (auto simp: aget_def)
    ultimately show ?thesis
      using "1.prems" by (subst control_loop.simps) (simp add: aget_def)
  qed
qed

lemma GetControlData_found:
  assumes ok: "templ_ok t" and j: "j < length (t_controls t)"
  shows "GetControlData (Some t) (ctrl_id (t_controls t ! j)) = Inr (Some (int j, t_controls t ! j))"
proof -
  have "ctrl_id (t_controls t ! nat m) \<noteq> ctrl_id (t_controls t ! j)" if "0 \<le> m" "m < int j" for m
  proof -
    have "nat m < j" using that by linarith
    then show ?thesis
      using ok j by (auto simp: templ_ok_def distinct_conv_nth)
  qed
  then show ?thesis
    using control_loop_first [of "t_controlnr t" "t_controls t" 0 "int j"] ok j
    by (simp add: GetControlData_def templ_ok_def)
qed

lemma handed_out_controls:
  "t_controls (handed_out ws loc t) =
     (case loc of None \<Rightarrow> t_controls t | Some g \<Rightarrow> map (translate_control g) (t_controls t))"
  by (simp add: handed_out_def localised_def split: option.split)

lemma handed_out_ids: "map ctrl_id (t_controls (handed_out ws loc t)) = map ctrl_id (t_controls t)"
  by (simp add: handed_out_controls translate_control_def o_def split: option.split)

lemma handed_out_ok: "templ_ok t \<Longrightarrow> templ_ok (handed_out ws loc t)"
proof -
  have "length (t_controls (handed_out ws loc t)) = length (t_controls t)"
    by (simp add: handed_out_controls split: option.split)
  then show "templ_ok t \<Longrightarrow> templ_ok (handed_out ws loc t)"
    unfolding templ_ok_def handed_out_ids
    by (simp add: handed_out_def localised_def split: option.split)
qed

text \<open>
  For every template the function hands out, GetControlData called with the id of a control gives
  that control and its index, and NULL for an id no control has.
\<close>

theorem GetControlData_finds_every_control:
  assumes "dlg_answer ws loc i = Some t"
  shows "(\<forall>j < length (t_controls t).
            GetControlData (Some t) (ctrl_id (t_controls t ! j)) = Inr (Some (int j, t_controls t ! j)))
         \<and> (\<forall>k. k \<notin> ctrl_id ` set (t_controls t) \<longrightarrow> GetControlData (Some t) k = Inr None)"
proof -
  have ok: "templ_ok t"
    using assms by (auto simp: dlg_answer_def intro!: handed_out_ok templ0_ok split: if_splits)
  moreover have "GetControlData (Some t) k = Inr None" if "k \<notin> ctrl_id ` set (t_controls t)" for k
  proof -
    have "ctrl_id (t_controls t ! nat m) \<noteq> k" if "0 \<le> m" "m < int (length (t_controls t))" for m
    proof -
      have "nat m < length (t_controls t)" using that by linarith
      then show ?thesis using \<open>k \<notin> ctrl_id ` set (t_controls t)\<close> by auto
    qed
    then show ?thesis
      using ok control_loop_none [of "t_controlnr t" "t_controls t" 0 k]
      by (simp add: GetControlData_def templ_ok_def)
  qed
  ultimately show ?thesis by (simp add: GetControlData_found)
qed

theorem GetControlData_finds_every_control_witness:
  "GetControlData (Some (handed_out 0x08000000 None AddRenderer_templ)) 2
     = Inr (Some (1, AddRenderer_controls ! 1))"
  using GetControlData_finds_every_control [of "0x08000000" None 10005 "handed_out 0x08000000 None AddRenderer_templ"]
  by (simp add: dlg_answer_def templ0_def templs_init_def handed_out_controls AddRenderer_templ_def
      AddRenderer_controls_def numeral_nat less_Suc_eq)

text \<open>
  In each of the 21 dialog templates every control has a positive size and lies inside the area of
  its dialog.
\<close>

theorem dialogs_laid_out_inside:
  "list_all (\<lambda>t. list_all (ctrl_inside t) (t_controls t)) (map the templs_init)"
  using templs_init_inside by (simp add: list_all_length templ0_def)

text \<open>
  A dialog that has another main window is moved to where it already is: the rectangle taken for the
  parent is that of the dialog, so an owned dialog is never centred.
\<close>

theorem AutoCenter_keeps_owned_dialog:
  assumes "GetMainWindowHandle hwnd \<noteq> hwnd"
  shows "AutoCenter_move GetWindowRect GetMainWindowHandle g_rcScr hwnd =
           (let r = GetWindowRect hwnd in (r_left r, r_top r, RECTW r, RECTH r))"
  using assms by (simp add: AutoCenter_move_def Let_def cdiv_def)

theorem AutoCenter_keeps_owned_dialog_witness:
  "AutoCenter_move (\<lambda>h::nat. if h = 0 then \<lparr>r_left = 0, r_top = 0, r_right = 1024, r_bottom = 768\<rparr>
                              else \<lparr>r_left = 5, r_top = 7, r_right = 105, r_bottom = 57\<rparr>)
     (\<lambda>_. 0) \<lparr>r_left = 0, r_top = 0, r_right = 1024, r_bottom = 768\<rparr> 1 = (5, 7, 100, 50)"
  by (subst AutoCenter_keeps_owned_dialog) (simp_all add: Let_def RECTW_def RECTH_def)

end
