(* ===== verification/Undo_Redo.thy ===== *)
theory Undo_Redo
  imports GB_Prelude
begin

text \<open>
  The undo and redo history of the editors (\<open>common/defundo-redo-observer.cpp\<close>): a ring of pointers to
  commands, \<open>undo_head\<close> to \<open>undo_tail\<close> those that can be undone, \<open>undo_tail\<close> to \<open>redo_tail\<close> those that can
  be redone. A command is an object on the heap, which the history owns once it was pushed; \<open>alive\<close> are
  the objects that exist, \<open>executed\<close> the calls of \<open>execute\<close> so far, the last one first. What \<open>execute\<close> does to
  the documents is not modelled, only that it needs a living object.
\<close>

section \<open>Data\<close>

type_synonym cmd_ptr = "nat option"

record undo_redo =
  commands :: "cmd_ptr list"
  undo_tail :: int
  undo_head :: int
  redo_tail :: int
  maxcount :: int
  alive :: "nat set"
  executed :: "nat list"

definition DEF_UNDOREDO_MAX :: int where "DEF_UNDOREDO_MAX = 32"
definition DEF_UNDOREDO_MIN :: int where "DEF_UNDOREDO_MIN = 8"

section \<open>Operations\<close>

definition DefaultUndoRedoObserver :: "int \<Rightarrow> undo_redo" where
  "DefaultUndoRedoObserver n =
     (let m = (if DEF_UNDOREDO_MIN > n then DEF_UNDOREDO_MIN else n) in
      \<lparr>commands = replicate (nat m) None, undo_tail = 0, undo_head = 0, redo_tail = 0, maxcount = m,
       alive = {}, executed = []\<rparr>)"

text \<open>\<open>if(commands[i]) delete commands[i];\<close>\<close>

definition delete_at :: "undo_redo \<Rightarrow> int \<Rightarrow> undo_redo res" where
  "delete_at s i =
     rbind (aget (commands s) i) (\<lambda>p.
       case p of
         None \<Rightarrow> Inr s
       | Some c \<Rightarrow> if c \<in> alive s then Inr (s\<lparr>alive := alive s - {c}\<rparr>) else Inl Use_After_Free)"

text \<open>The three ways an index is put back into the ring.\<close>

definition wrap_ge :: "int \<Rightarrow> int \<Rightarrow> int" where "wrap_ge m i = (if i \<ge> m then 0 else i)"
definition wrap_eq :: "int \<Rightarrow> int \<Rightarrow> int" where "wrap_eq m i = (if i = m then 0 else i)"
definition wrap_neg :: "int \<Rightarrow> int \<Rightarrow> int" where "wrap_neg m i = (if i < 0 then m - 1 else i)"

text \<open>
  The loop of the destructor and of \<open>emptyRedo\<close>. The index is put back to 0 in the body only, after it
  was compared with the end: an end of 0 is stepped over.
\<close>

partial_function (option) delete_loop :: "undo_redo \<Rightarrow> int \<Rightarrow> int \<Rightarrow> undo_redo run" where
  "delete_loop s i e =
     (if i = e then Some (Inr s)
      else let i = wrap_eq (maxcount s) i in
        ubind (Some (delete_at s i)) (\<lambda>s. delete_loop s (i + 1) e))"

declare delete_loop.simps [code]

definition destroy :: "undo_redo \<Rightarrow> undo_redo run" where
  "destroy s = delete_loop s (undo_head s) (redo_tail s)"

definition canUndo :: "undo_redo \<Rightarrow> bool" where "canUndo s \<longleftrightarrow> undo_tail s \<noteq> undo_head s"
definition canRedo :: "undo_redo \<Rightarrow> bool" where "canRedo s \<longleftrightarrow> redo_tail s \<noteq> undo_tail s"

definition emptyRedo :: "undo_redo \<Rightarrow> undo_redo run" where
  "emptyRedo s = delete_loop s (undo_tail s) (redo_tail s)"

definition pushUndoRedoCommand :: "undo_redo \<Rightarrow> cmd_ptr \<Rightarrow> undo_redo run" where
  "pushUndoRedoCommand s cmd =
     (if cmd = None then Some (Inr s)
      else ubind (emptyRedo s) (\<lambda>s.
        let next' = wrap_ge (maxcount s) (undo_tail s + 1) in
        ubind (if next' = undo_head s
               then ubind (Some (delete_at s (undo_head s))) (\<lambda>s.
                 Some (Inr (s\<lparr>undo_head := wrap_eq (maxcount s) (undo_head s + 1)\<rparr>)))
               else Some (Inr s)) (\<lambda>s.
        ubind (Some (aset (commands s) (undo_tail s) cmd)) (\<lambda>cs.
          Some (Inr (s\<lparr>commands := cs, undo_tail := next', redo_tail := next'\<rparr>))))))"

text \<open>\<open>if(cmd) cmd->execute();\<close>\<close>

definition execute :: "undo_redo \<Rightarrow> cmd_ptr \<Rightarrow> undo_redo res" where
  "execute s p =
     (case p of
        None \<Rightarrow> Inr s
      | Some c \<Rightarrow> if c \<in> alive s then Inr (s\<lparr>executed := c # executed s\<rparr>) else Inl Use_After_Free)"

definition undo :: "undo_redo \<Rightarrow> (cmd_ptr \<times> undo_redo) res" where
  "undo s =
     (if \<not> canUndo s then Inr (None, s)
      else let t = wrap_neg (maxcount s) (undo_tail s - 1); s = s\<lparr>undo_tail := t\<rparr> in
        rbind (aget (commands s) t) (\<lambda>cmd. rbind (execute s cmd) (\<lambda>s. Inr (cmd, s))))"

definition redo :: "undo_redo \<Rightarrow> (cmd_ptr \<times> undo_redo) res" where
  "redo s =
     (if \<not> canRedo s then Inr (None, s)
      else rbind (aget (commands s) (undo_tail s)) (\<lambda>cmd. rbind (execute s cmd) (\<lambda>s.
        Inr (cmd, s\<lparr>undo_tail := wrap_eq (maxcount s) (undo_tail s + 1)\<rparr>))))"

section \<open>The history a ring stands for\<close>

text \<open>
  \<open>slot s i\<close> is the slot at position \<open>i\<close> of the ring, \<open>ring s a n\<close> the \<open>n\<close> commands from position \<open>a\<close> on, around the end of the array.
\<close>

definition slot :: "undo_redo \<Rightarrow> int \<Rightarrow> cmd_ptr" where
  "slot s i = commands s ! nat (i mod maxcount s)"

definition ring :: "undo_redo \<Rightarrow> int \<Rightarrow> nat \<Rightarrow> cmd_ptr list" where
  "ring s a n = map (\<lambda>k. slot s (a + int k)) [0..<n]"

record history =
  undos :: "nat list"
  redos :: "nat list"

text \<open>
  The invariant, with the history: the commands to be undone, the oldest first, and those to be redone,
  the next one first, all alive and all different, and fewer than \<open>maxcount\<close>.
\<close>

definition hist_inv :: "undo_redo \<Rightarrow> history \<Rightarrow> bool" where
  "hist_inv s h \<longleftrightarrow>
     1 < maxcount s \<and> maxcount s = int (length (commands s))
     \<and> undo_head s \<in> {0..<maxcount s} \<and> undo_tail s \<in> {0..<maxcount s} \<and> redo_tail s \<in> {0..<maxcount s}
     \<and> int (length (undos h) + length (redos h)) < maxcount s
     \<and> undo_tail s = (undo_head s + int (length (undos h))) mod maxcount s
     \<and> redo_tail s = (undo_head s + int (length (undos h) + length (redos h))) mod maxcount s
     \<and> ring s (undo_head s) (length (undos h) + length (redos h)) = map Some (undos h @ redos h)
     \<and> distinct (undos h @ redos h) \<and> set (undos h @ redos h) \<subseteq> alive s"

section \<open>Positions in the ring\<close>

lemma ring_0 [simp]: "ring s a 0 = []"
  by (simp add: ring_def)

lemma length_ring [simp]: "length (ring s a n) = n"
  by (simp add: ring_def)

lemma ring_Suc: "ring s a (Suc n) = slot s a # ring s (a + 1) n"
  by (simp add: ring_def upt_conv_Cons del: upt_Suc flip: map_Suc_upt) (simp add: comp_def algebra_simps)

lemma ring_append: "ring s a (n + k) = ring s a n @ ring s (a + int n) k"
  by (induction n arbitrary: a) (simp_all add: ring_Suc algebra_simps)

lemma ring_mod [simp]: "ring s (a mod maxcount s) n = ring s a n"
  by (simp add: ring_def slot_def mod_simps)

lemma ring_cong: "commands s' = commands s \<Longrightarrow> maxcount s' = maxcount s \<Longrightarrow> ring s' a n = ring s a n"
  by (simp add: ring_def slot_def)

lemma aget_slot:
  assumes "maxcount s = int (length (commands s))" "0 \<le> i" "i < maxcount s"
  shows "aget (commands s) i = Inr (slot s i)"
  using assms by (simp add: slot_def aget_def)

section \<open>Deleting\<close>

lemma delete_loop_ring:
  assumes "maxcount s = int (length (commands s))" "0 \<le> i" "i \<le> maxcount s" "i = maxcount s \<longrightarrow> xs \<noteq> []"
    "e = (i + int (length xs)) mod maxcount s" "int (length xs) < maxcount s" "e \<noteq> 0 \<or> xs = []"
    "ring s i (length xs) = map Some xs" "distinct xs" "set xs \<subseteq> alive s"
  shows "delete_loop s i e = Some (Inr (s\<lparr>alive := alive s - set xs\<rparr>))"
  using assms
proof (induction xs arbitrary: s i)
  case Nil
  then show ?case by (subst delete_loop.simps) simp
next
  case (Cons x xs)
  let ?m = "maxcount s" and ?i = "wrap_eq (maxcount s) i" and ?s = "s\<lparr>alive := alive s - {x}\<rparr>"
  have i: "0 \<le> ?i" "?i < ?m" "?i mod ?m = i mod ?m" using Cons.prems(2,3,6) by (auto simp: wrap_eq_def)
  have "slot s ?i = slot s i" using i(3) by (simp add: slot_def)
  then have x: "aget (commands s) ?i = Inr (Some x)" and rest: "ring s (i + 1) (length xs) = map Some xs"
    using Cons.prems(1,8) aget_slot [OF Cons.prems(1) i(1,2)] by (simp_all add: ring_Suc)
  have e: "e = (?i + 1 + int (length xs)) mod ?m"
    using Cons.prems(5) i(3) by (metis add.commute add.left_commute length_Cons mod_add_left_eq of_nat_Suc)
  have ie: "i \<noteq> e"
  proof
    assume "i = e"
    moreover have "0 \<le> e" "e < ?m" using Cons.prems(5,6) by simp_all
    ultimately have "i < ?m" "(i + int (length (x # xs))) mod ?m = i mod ?m" using Cons.prems(5) by simp_all
    then have "int (length (x # xs)) mod ?m = 0" by (metis add_diff_cancel_left' diff_self mod_0 mod_diff_left_eq mod_diff_right_eq)
    then show False using Cons.prems(6) by simp
  qed
  have "delete_loop ?s (?i + 1) e = Some (Inr (?s\<lparr>alive := alive ?s - set xs\<rparr>))"
  proof (rule Cons.IH)
    have "ring s (?i + 1) (length xs) = ring s (i + 1) (length xs)"
      using ring_mod [of s "?i + 1"] ring_mod [of s "i + 1"] i(3) by (metis mod_add_left_eq)
    then show "ring ?s (?i + 1) (length xs) = map Some xs" using rest by (simp add: ring_cong [of ?s s])
    show "?i + 1 = maxcount ?s \<longrightarrow> xs \<noteq> []" using e Cons.prems(7) by auto
  qed (use Cons.prems i e in auto)
  moreover have "alive ?s - set xs = alive s - set (x # xs)" by auto
  ultimately show ?case using ie x Cons.prems(10) by (subst delete_loop.simps) (simp add: delete_at_def Let_def)
qed

text \<open>An end of 0 is stepped over; the loop then comes back to what it deleted before.\<close>

lemma delete_loop_dead:
  assumes "maxcount s = int (length (commands s))" "1 \<le> j" "j \<le> maxcount s" "0 \<le> k" "k < maxcount s"
    "slot s k = Some c" "c \<notin> alive s"
  shows "delete_loop s j 0 = Some (Inl Use_After_Free)"
  using assms
proof (induction "nat ((k - j) mod maxcount s)" arbitrary: j s rule: less_induct)
  case less
  let ?m = "maxcount s" and ?j = "wrap_eq (maxcount s) j"
  have j: "0 \<le> ?j" "?j < ?m" "?j mod ?m = j mod ?m" using less.prems by (auto simp: wrap_eq_def)
  have get: "aget (commands s) ?j = Inr (slot s ?j)" by (rule aget_slot) (use less.prems j in auto)
  show ?case
  proof (cases "?j = k")
    case True
    then have "delete_at s ?j = Inl Use_After_Free" using get less.prems by (simp add: delete_at_def)
    then show ?thesis using less.prems(2) by (subst delete_loop.simps) (auto simp: Let_def)
  next
    case False
    have "(k - j) mod ?m = (k - ?j) mod ?m" using j(3) by (metis mod_diff_right_eq)
    moreover have "(k - ?j) mod ?m \<noteq> 0" using False less.prems(4,5) j by (simp add: mod_eq_0_iff_dvd dvd_eq_mod_eq_0 [symmetric] mod_eq_dvd_iff [symmetric])
    moreover have "(k - (?j + 1)) mod ?m = ((k - ?j) mod ?m - 1) mod ?m" by (simp add: mod_simps diff_diff_eq)
    ultimately have "(k - (?j + 1)) mod ?m = (k - j) mod ?m - 1 \<and> 0 < (k - j) mod ?m"
      using less.prems(5) by (smt (verit) mod_pos_pos_trivial pos_mod_bound pos_mod_sign less.prems(4))
    then have d: "nat ((k - (?j + 1)) mod ?m) < nat ((k - j) mod ?m)" by simp
    have "delete_loop s' (?j + 1) 0 = Some (Inl Use_After_Free)"
      if s': "commands s' = commands s" "maxcount s' = ?m" "alive s' \<subseteq> alive s" for s'
      using less.hyps [of "?j + 1" s'] d less.prems j s' by (auto simp: slot_def)
    then show ?thesis using less.prems(2) get
      by (subst delete_loop.simps) (auto simp: Let_def delete_at_def split: option.split)
  qed
qed

section \<open>What the operations do to the history\<close>

fun push_hist :: "int \<Rightarrow> nat \<Rightarrow> history \<Rightarrow> history" where
  "push_hist m c h = \<lparr>undos = (if int (length (undos h)) + 1 = m then tl (undos h) else undos h) @ [c], redos = []\<rparr>"

fun undo_hist :: "history \<Rightarrow> cmd_ptr \<times> history" where
  "undo_hist h = (if undos h = [] then (None, h)
     else (Some (last (undos h)), \<lparr>undos = butlast (undos h), redos = last (undos h) # redos h\<rparr>))"

fun redo_hist :: "history \<Rightarrow> cmd_ptr \<times> history" where
  "redo_hist h = (case redos h of [] \<Rightarrow> (None, h) | c # cs \<Rightarrow> (Some c, \<lparr>undos = undos h @ [c], redos = cs\<rparr>))"

lemma new_history: "hist_inv (DefaultUndoRedoObserver n) \<lparr>undos = [], redos = []\<rparr>"
  by (simp add: hist_inv_def DefaultUndoRedoObserver_def DEF_UNDOREDO_MIN_def Let_def)

lemma add_mod_eq_iff:
  fixes m :: int
  assumes "0 \<le> a" "a < m" "0 \<le> k" "k < m"
  shows "(a + k) mod m = a \<longleftrightarrow> k = 0"
  using assms by (smt (verit) mod_pos_pos_trivial minus_mod_self2)

lemma hist_invD:
  assumes "hist_inv s h"
  shows "0 < maxcount s" "1 < maxcount s" "maxcount s = int (length (commands s))" "0 \<le> undo_head s" "undo_head s < maxcount s"
    "0 \<le> undo_tail s" "undo_tail s < maxcount s" "0 \<le> redo_tail s" "redo_tail s < maxcount s"
    "int (length (redos h)) < maxcount s" "int (length (undos h)) < maxcount s"
    "distinct (redos h)" "set (redos h) \<subseteq> alive s" "distinct (undos h)" "set (undos h) \<subseteq> alive s"
    "set (undos h) \<inter> set (redos h) = {}"
  using assms by (auto simp: hist_inv_def)

lemma canUndo_iff: "hist_inv s h \<Longrightarrow> canUndo s \<longleftrightarrow> undos h \<noteq> []"
proof -
  assume i: "hist_inv s h"
  then have "undo_tail s = (undo_head s + int (length (undos h))) mod maxcount s" by (simp add: hist_inv_def)
  then show ?thesis unfolding canUndo_def
    using add_mod_eq_iff [of "undo_head s" "maxcount s" "int (length (undos h))"] hist_invD [OF i] by simp
qed

lemma redo_tail_eq: "hist_inv s h \<Longrightarrow> redo_tail s = (undo_tail s + int (length (redos h))) mod maxcount s"
  by (simp add: hist_inv_def mod_simps algebra_simps)

lemma canRedo_iff: "hist_inv s h \<Longrightarrow> canRedo s \<longleftrightarrow> redos h \<noteq> []"
proof -
  assume i: "hist_inv s h"
  then show ?thesis unfolding canRedo_def redo_tail_eq [OF i]
    using add_mod_eq_iff [of "undo_tail s" "maxcount s" "int (length (redos h))"] hist_invD [OF i] by simp
qed

lemma ring_redos:
  assumes "hist_inv s h"
  shows "ring s (undo_tail s) (length (redos h)) = map Some (redos h)"
    and "ring s (undo_head s) (length (undos h)) = map Some (undos h)"
proof -
  have "ring s (undo_head s) (length (undos h)) @ ring s (undo_head s + int (length (undos h))) (length (redos h))
      = map Some (undos h) @ map Some (redos h)"
    using assms by (simp add: hist_inv_def ring_append [symmetric])
  moreover have "ring s (undo_tail s) = ring s (undo_head s + int (length (undos h)))"
    using assms ring_mod [of s "undo_head s + int (length (undos h))"] by (intro ext) (simp add: hist_inv_def)
  ultimately show "ring s (undo_tail s) (length (redos h)) = map Some (redos h)"
      "ring s (undo_head s) (length (undos h)) = map Some (undos h)" by simp_all
qed

lemma emptyRedo_spec:
  assumes "hist_inv s h" "redos h = [] \<or> redo_tail s \<noteq> 0"
  shows "emptyRedo s = Some (Inr (s\<lparr>alive := alive s - set (redos h)\<rparr>))"
  unfolding emptyRedo_def using assms(2) hist_invD [OF assms(1)] ring_redos(1) [OF assms(1)]
  by (intro delete_loop_ring redo_tail_eq [OF assms(1)]) auto

lemma emptyRedo_fault:
  assumes "hist_inv s h" "redos h \<noteq> []" "redo_tail s = 0"
  shows "emptyRedo s = Some (Inl Use_After_Free)"
proof -
  let ?t = "undo_tail s"
  obtain c cs where c: "redos h = c # cs" using assms(2) by (cases "redos h") auto
  have "slot s ?t = Some c" using ring_redos(1) [OF assms(1)] c by (simp add: ring_Suc)
  moreover have "?t \<noteq> 0" using canRedo_iff [OF assms(1)] assms(2,3) by (simp add: canRedo_def)
  moreover have s: "maxcount s = int (length (commands s))" "0 \<le> ?t" "?t < maxcount s" "c \<in> alive s"
    using assms(1) c by (auto simp: hist_inv_def)
  ultimately show ?thesis using aget_slot [OF s(1-3)]
      delete_loop_dead [of "s\<lparr>alive := alive s - {c}\<rparr>" "?t + 1" ?t c]
    unfolding emptyRedo_def by (subst delete_loop.simps) (simp add: assms(3) delete_at_def slot_def Let_def wrap_eq_def)
qed

lemma slot_head: "hist_inv s h \<Longrightarrow> undos h = c # cs \<Longrightarrow> slot s (undo_head s) = Some c"
  using ring_redos(2) [of s h] by (simp add: ring_Suc)

lemma ring_update:
  assumes "maxcount s = int (length (commands s))" "0 \<le> t" "t < maxcount s"
    "\<forall>k < n. (a + int k) mod maxcount s \<noteq> t"
  shows "ring (s\<lparr>commands := (commands s)[nat t := c]\<rparr>) a n = ring s a n"
proof -
  have "nat ((a + int k) mod maxcount s) \<noteq> nat t" if "k < n" for k
  proof -
    have "0 \<le> (a + int k) mod maxcount s" using assms(2,3) by (intro pos_mod_sign) linarith
    then show ?thesis using assms(2,4) that by (simp add: nat_eq_iff)
  qed
  then show ?thesis by (simp add: ring_def slot_def) (metis atLeastLessThan_iff nth_list_update_neq)
qed

lemma wrap_succ:
  assumes "0 \<le> t" "t < m"
  shows "wrap_ge m (t + 1) = (t + 1) mod m" "wrap_eq m (t + 1) = (t + 1) mod m" "wrap_neg m (t - 1) = (t - 1) mod m"
proof -
  have "(t + 1) mod m = 0" if "t + 1 \<ge> m"
  proof -
    have "t + 1 = m" using assms that by linarith
    then show ?thesis by simp
  qed
  then show "wrap_ge m (t + 1) = (t + 1) mod m" "wrap_eq m (t + 1) = (t + 1) mod m"
    using assms by (auto simp: wrap_ge_def wrap_eq_def)
  show "wrap_neg m (t - 1) = (t - 1) mod m"
    using assms by (cases "t = 0") (simp_all add: wrap_neg_def zmod_minus1)
qed

text \<open>The three parts of a push: the redo list is forgotten, the oldest command goes, the new one comes.\<close>

lemma hist_clear:
  assumes "hist_inv s h"
  shows "hist_inv (s\<lparr>alive := alive s - set (redos h), redo_tail := undo_tail s\<rparr>) \<lparr>undos = undos h, redos = []\<rparr>"
  using assms ring_redos(2) [OF assms] by (auto simp: hist_inv_def ring_cong [of "s\<lparr>alive := _, redo_tail := _\<rparr>" s])

lemma hist_drop:
  assumes "hist_inv s \<lparr>undos = x # xs, redos = []\<rparr>"
  shows "hist_inv (s\<lparr>alive := alive s - {x}, undo_head := (undo_head s + 1) mod maxcount s\<rparr>) \<lparr>undos = xs, redos = []\<rparr>"
proof -
  let ?s = "s\<lparr>alive := alive s - {x}, undo_head := (undo_head s + 1) mod maxcount s\<rparr>"
  have "ring ?s (undo_head ?s) (length xs) = ring s (undo_head s + 1) (length xs)"
    using ring_cong [of ?s s] by simp
  also have "\<dots> = map Some xs" using assms by (simp add: hist_inv_def ring_Suc)
  finally have "ring ?s (undo_head ?s) (length xs) = map Some xs" .
  moreover have "((undo_head s + 1) mod maxcount s + int (length xs)) mod maxcount s = (undo_head s + int (length (x # xs))) mod maxcount s"
    by (simp add: mod_simps algebra_simps)
  ultimately show ?thesis using assms hist_invD [OF assms] by (auto simp: hist_inv_def)
qed

lemma hist_store:
  assumes i: "hist_inv s \<lparr>undos = xs, redos = []\<rparr>" and c: "c \<in> alive s" "c \<notin> set xs" and n: "int (length xs) + 1 < maxcount s"
  shows "hist_inv (s\<lparr>commands := (commands s)[nat (undo_tail s) := Some c], undo_tail := (undo_tail s + 1) mod maxcount s,
      redo_tail := (undo_tail s + 1) mod maxcount s\<rparr>) \<lparr>undos = xs @ [c], redos = []\<rparr>" (is "hist_inv ?s _")
proof -
  let ?a = "undo_head s" and ?n = "length xs" and ?m = "maxcount s"
  let ?c = "s\<lparr>commands := (commands s)[nat (undo_tail s) := Some c]\<rparr>"
  have t: "undo_tail s = (?a + int ?n) mod ?m" using i by (simp add: hist_inv_def)
  have "(?a + int k) mod ?m \<noteq> undo_tail s" if "k < ?n" for k
  proof
    assume "(?a + int k) mod ?m = undo_tail s"
    then have "(int ?n - int k) mod ?m = 0"
      unfolding t by (metis add_diff_cancel_left mod_diff_cong mod_0 diff_self mod_diff_eq)
    then show False using that hist_invD [OF i] by simp
  qed
  then have "ring ?c ?a ?n = ring s ?a ?n" by (intro ring_update) (use hist_invD [OF i] in auto)
  moreover have "slot ?c (?a + int ?n) = Some c"
  proof -
    have "nat (undo_tail s) < length (commands s)" using hist_invD [OF i] by linarith
    then show ?thesis by (simp add: slot_def t [symmetric])
  qed
  moreover have "ring ?s ?a (?n + 1) = ring ?c ?a (?n + 1)" by (rule ring_cong) simp_all
  ultimately have "ring ?s ?a (?n + 1) = map Some (xs @ [c])"
    using ring_redos(2) [OF i] by (simp only: ring_append) (simp add: ring_Suc)
  then show ?thesis using i c n hist_invD [OF i] by (simp add: hist_inv_def mod_simps algebra_simps)
qed

lemma push_spec:
  assumes i: "hist_inv s h" and c: "c \<in> alive s" "c \<notin> set (undos h @ redos h)" and r: "redos h = [] \<or> redo_tail s \<noteq> 0"
  shows "\<exists>s'. pushUndoRedoCommand s (Some c) = Some (Inr s') \<and> hist_inv s' (push_hist (maxcount s) c h)
    \<and> maxcount s' = maxcount s \<and> executed s' = executed s
    \<and> alive s' = alive s - set (redos h) - (if int (length (undos h)) + 1 = maxcount s then {hd (undos h)} else {})"
proof -
  let ?m = "maxcount s" and ?xs = "undos h" and ?t = "undo_tail s"
  define s1 where "s1 = s\<lparr>alive := alive s - set (redos h)\<rparr>"
  have e: "emptyRedo s = Some (Inr s1)" using emptyRedo_spec [OF i r] by (simp add: s1_def)
  have i1: "hist_inv (s1\<lparr>redo_tail := ?t\<rparr>) \<lparr>undos = ?xs, redos = []\<rparr>" using hist_clear [OF i] by (simp add: s1_def)
  have c1: "c \<in> alive s1" "c \<notin> set ?xs" using c by (auto simp: s1_def)
  note D = hist_invD [OF i]
  note nxt = wrap_succ(1) [OF D(6,7)] and hd1 = wrap_succ(2) [OF D(4,5)]
  have t: "(?t + 1) mod ?m = (undo_head s + (int (length ?xs) + 1)) mod ?m"
    using i by (simp add: hist_inv_def mod_simps algebra_simps)
  have put: "aset (commands s) ?t (Some c) = Inr ((commands s)[nat ?t := Some c])" using D by (simp add: aset_def)
  show ?thesis
  proof (cases "int (length ?xs) + 1 = ?m")
    case True
    then obtain x xs where x: "?xs = x # xs" using D(2) by (cases ?xs) auto
    have "(?t + 1) mod ?m = undo_head s" using t True D by simp
    moreover have "delete_at s1 (undo_head s) = Inr (s1\<lparr>alive := alive s1 - {x}\<rparr>)"
      using slot_head [OF i x] aget_slot [of s "undo_head s"] D x by (auto simp: delete_at_def s1_def)
    ultimately have "pushUndoRedoCommand s (Some c) = Some (Inr (s1\<lparr>alive := alive s1 - {x}, undo_head := (undo_head s + 1) mod ?m,
        commands := (commands s)[nat ?t := Some c], undo_tail := (?t + 1) mod ?m, redo_tail := (?t + 1) mod ?m\<rparr>))"
      using e put by (simp add: pushUndoRedoCommand_def Let_def s1_def nxt hd1)
    moreover have "hist_inv (s1\<lparr>alive := alive s1 - {x}, undo_head := (undo_head s + 1) mod ?m,
        commands := (commands s)[nat ?t := Some c], undo_tail := (?t + 1) mod ?m, redo_tail := (?t + 1) mod ?m\<rparr>)
        \<lparr>undos = xs @ [c], redos = []\<rparr>"
      using hist_store [OF hist_drop [OF i1 [unfolded x]], of c] c1 x True by (simp add: s1_def)
    ultimately show ?thesis using x True by (simp add: s1_def)
  next
    case False
    then have "(?t + 1) mod ?m \<noteq> undo_head s"
      unfolding t using add_mod_eq_iff [of "undo_head s" ?m "int (length ?xs) + 1"] D by simp
    then have "pushUndoRedoCommand s (Some c) = Some (Inr (s1\<lparr>commands := (commands s)[nat ?t := Some c],
        undo_tail := (?t + 1) mod ?m, redo_tail := (?t + 1) mod ?m\<rparr>))"
      using e put by (simp add: pushUndoRedoCommand_def Let_def s1_def nxt)
    moreover have "hist_inv (s1\<lparr>commands := (commands s)[nat ?t := Some c],
        undo_tail := (?t + 1) mod ?m, redo_tail := (?t + 1) mod ?m\<rparr>) \<lparr>undos = ?xs @ [c], redos = []\<rparr>"
      using hist_store [OF i1, of c] c1 False D by (simp add: s1_def)
    ultimately show ?thesis using False by (simp add: s1_def)
  qed
qed

lemma push_fault:
  assumes "hist_inv s h" "redos h \<noteq> []" "redo_tail s = 0"
  shows "pushUndoRedoCommand s (Some c) = Some (Inl Use_After_Free)"
  using emptyRedo_fault [OF assms] by (simp add: pushUndoRedoCommand_def)

text \<open>Moving the border between the two lists.\<close>

lemma hist_move:
  assumes i: "hist_inv s h" and h: "undos h' @ redos h' = undos h @ redos h"
    and t: "t = (undo_head s + int (length (undos h'))) mod maxcount s"
  shows "hist_inv (s\<lparr>undo_tail := t, executed := e\<rparr>) h'"
proof -
  have len: "length (undos h') + length (redos h') = length (undos h) + length (redos h)"
    using h by (metis length_append)
  have t1: "0 \<le> t" "t < maxcount s" using t hist_invD(1) [OF i] by simp_all
  have r: "ring (s\<lparr>undo_tail := t, executed := e\<rparr>) = ring s" by (intro ext ring_cong) simp_all
  show ?thesis using i t1 t unfolding hist_inv_def h len undo_redo.simps r by (elim conjE, intro conjI) simp_all
qed

lemma undo_spec:
  assumes i: "hist_inv s h"
  shows "\<exists>s'. undo s = Inr (fst (undo_hist h), s') \<and> hist_inv s' (snd (undo_hist h)) \<and> maxcount s' = maxcount s
    \<and> alive s' = alive s \<and> executed s' = (case fst (undo_hist h) of None \<Rightarrow> [] | Some c \<Rightarrow> [c]) @ executed s"
proof (cases "undos h = []")
  case True
  then show ?thesis using i canUndo_iff [OF i] by (simp add: undo_def)
next
  case False
  then obtain us c where us: "undos h = us @ [c]" by (metis rev_exhaust)
  note D = hist_invD [OF i]
  let ?t = "(undo_tail s - 1) mod maxcount s"
  have t: "?t = (undo_head s + int (length us)) mod maxcount s"
    using i us by (simp add: hist_inv_def mod_simps)
  have "ring s (undo_head s) (length us + 1) = map Some (us @ [c])" using ring_redos(2) [OF i] us by simp
  then have "slot s (undo_head s + int (length us)) = Some c" by (simp only: ring_append) (simp add: ring_Suc)
  then have "slot s ?t = Some c" unfolding t by (simp add: slot_def)
  then have get: "aget (commands s) ?t = Inr (Some c)" using aget_slot [of s ?t] D by simp
  have al: "c \<in> alive s" using D us by auto
  have "undo s = Inr (Some c, s\<lparr>undo_tail := ?t, executed := c # executed s\<rparr>)"
    using canUndo_iff [OF i] us get al by (simp add: undo_def wrap_succ(3) [OF D(6,7)] execute_def Let_def)
  moreover have "hist_inv (s\<lparr>undo_tail := ?t, executed := c # executed s\<rparr>) \<lparr>undos = us, redos = c # redos h\<rparr>"
    by (rule hist_move [OF i]) (use us t in simp_all)
  ultimately show ?thesis using us by simp
qed

lemma redo_spec:
  assumes i: "hist_inv s h"
  shows "\<exists>s'. redo s = Inr (fst (redo_hist h), s') \<and> hist_inv s' (snd (redo_hist h)) \<and> maxcount s' = maxcount s
    \<and> alive s' = alive s \<and> executed s' = (case fst (redo_hist h) of None \<Rightarrow> [] | Some c \<Rightarrow> [c]) @ executed s"
proof (cases "redos h")
  case Nil
  then show ?thesis using i canRedo_iff [OF i] by (simp add: redo_def)
next
  case (Cons c cs)
  note D = hist_invD [OF i]
  let ?t = "(undo_tail s + 1) mod maxcount s"
  have "slot s (undo_tail s) = Some c" using ring_redos(1) [OF i] Cons by (simp add: ring_Suc)
  then have get: "aget (commands s) (undo_tail s) = Inr (Some c)" using aget_slot [of s "undo_tail s"] D by simp
  have al: "c \<in> alive s" using D Cons by auto
  have "redo s = Inr (Some c, s\<lparr>undo_tail := ?t, executed := c # executed s\<rparr>)"
    using canRedo_iff [OF i] Cons get al by (simp add: redo_def wrap_succ(2) [OF D(6,7)] execute_def)
  moreover have "?t = (undo_head s + int (length (undos h @ [c]))) mod maxcount s"
    using i by (simp add: hist_inv_def mod_simps algebra_simps)
  then have "hist_inv (s\<lparr>undo_tail := ?t, executed := c # executed s\<rparr>) \<lparr>undos = undos h @ [c], redos = cs\<rparr>"
    by (intro hist_move [OF i]) (simp_all add: Cons)
  ultimately show ?thesis using Cons by simp
qed

lemma destroy_spec:
  assumes i: "hist_inv s h" and "redo_tail s \<noteq> 0 \<or> undos h @ redos h = []"
  shows "destroy s = Some (Inr (s\<lparr>alive := alive s - set (undos h @ redos h)\<rparr>))"
  unfolding destroy_def using assms(2) hist_invD [OF i] i
  by (intro delete_loop_ring) (auto simp: hist_inv_def)

section \<open>Sequences of calls\<close>

datatype hist_call = Push nat | Undo | Redo

text \<open>The client makes a new object for each command it pushes.\<close>

definition hist_step :: "undo_redo \<Rightarrow> hist_call \<Rightarrow> (cmd_ptr \<times> undo_redo) run" where
  "hist_step s call =
     (case call of
        Push c \<Rightarrow> ubind (pushUndoRedoCommand (s\<lparr>alive := insert c (alive s)\<rparr>) (Some c)) (\<lambda>s. Some (Inr (None, s)))
      | Undo \<Rightarrow> Some (undo s)
      | Redo \<Rightarrow> Some (redo s))"

text \<open>
  The specification: two lists of commands, and the list of the commands that were run, in the order of
  the calls.
\<close>

type_synonym session = "history \<times> nat list"

definition hist_spec :: "int \<Rightarrow> session \<Rightarrow> hist_call \<Rightarrow> cmd_ptr \<times> session" where
  "hist_spec m a call =
     (case (call, a) of
        (Push c, h, runs) \<Rightarrow> (None, push_hist m c h, runs)
      | (Undo, h, runs) \<Rightarrow> (if undos h = [] then (None, h, runs) else (Some (last (undos h)), snd (undo_hist h), runs @ [last (undos h)]))
      | (Redo, h, runs) \<Rightarrow> (if redos h = [] then (None, h, runs) else (Some (hd (redos h)), snd (redo_hist h), runs @ [hd (redos h)])))"

text \<open>
  A push while something can be redone is fine as long as the redo list does not end in the last slot of
  the array. The objects pushed are new ones.
\<close>

definition hist_allowed :: "undo_redo \<Rightarrow> hist_call \<Rightarrow> bool" where
  "hist_allowed s call = (case call of Push c \<Rightarrow> c \<notin> alive s \<and> (canRedo s \<longrightarrow> redo_tail s \<noteq> 0) | _ \<Rightarrow> True)"

text \<open>
  The contract of an object whose calls follow a specification: the calls are made as long as they are
  allowed, each returns what the specification says, and the states stay related.
\<close>

fun run_calls :: "('s \<Rightarrow> 'c \<Rightarrow> ('o \<times> 's) run) \<Rightarrow> 's \<Rightarrow> 'c list \<Rightarrow> ('o list \<times> 's) run" where
  "run_calls step s [] = Some (Inr ([], s))"
| "run_calls step s (c # cs) = ubind (step s c) (\<lambda>(r, s). ubind (run_calls step s cs) (\<lambda>(rs, s). Some (Inr (r # rs, s))))"

fun spec_calls :: "('a \<Rightarrow> 'c \<Rightarrow> 'o \<times> 'a) \<Rightarrow> 'a \<Rightarrow> 'c list \<Rightarrow> 'o list \<times> 'a" where
  "spec_calls spec a [] = ([], a)"
| "spec_calls spec a (c # cs) = (let (r, a) = spec a c; (rs, a) = spec_calls spec a cs in (r # rs, a))"

fun all_allowed :: "('s \<Rightarrow> 'c \<Rightarrow> ('o \<times> 's) run) \<Rightarrow> ('s \<Rightarrow> 'c \<Rightarrow> bool) \<Rightarrow> 's \<Rightarrow> 'c list \<Rightarrow> bool" where
  "all_allowed step ok s [] = True"
| "all_allowed step ok s (c # cs) =
     (ok s c \<and> (case step s c of Some (Inr (r, s)) \<Rightarrow> all_allowed step ok s cs | _ \<Rightarrow> True))"

locale specified_object =
  fixes step :: "'s \<Rightarrow> 'c \<Rightarrow> ('o \<times> 's) run"
    and spec :: "'a \<Rightarrow> 'c \<Rightarrow> 'o \<times> 'a"
    and ok :: "'s \<Rightarrow> 'c \<Rightarrow> bool"
    and rel :: "'s \<Rightarrow> 'a \<Rightarrow> bool"
  assumes step_spec: "rel s a \<Longrightarrow> ok s c \<Longrightarrow> \<exists>s'. step s c = Some (Inr (fst (spec a c), s')) \<and> rel s' (snd (spec a c))"
begin

lemma run_spec:
  "rel s a \<Longrightarrow> all_allowed step ok s cs \<Longrightarrow>
    \<exists>s'. run_calls step s cs = Some (Inr (fst (spec_calls spec a cs), s')) \<and> rel s' (snd (spec_calls spec a cs))"
proof (induction cs arbitrary: s a)
  case (Cons c cs)
  obtain s1 where s1: "step s c = Some (Inr (fst (spec a c), s1))" "rel s1 (snd (spec a c))"
    using step_spec [OF Cons.prems(1)] Cons.prems(2) by auto
  then obtain s2 where "run_calls step s1 cs = Some (Inr (fst (spec_calls spec (snd (spec a c)) cs), s2))"
      "rel s2 (snd (spec_calls spec (snd (spec a c)) cs))"
    using Cons.IH [OF s1(2)] Cons.prems(2) by auto
  then show ?case using s1(1) by (simp add: case_prod_unfold Let_def)
qed simp

end

text \<open>The ring holds the history, exactly its commands exist, and exactly the commands of the list were run.\<close>

definition ring_of :: "int \<Rightarrow> undo_redo \<Rightarrow> session \<Rightarrow> bool" where
  "ring_of m s a \<longleftrightarrow> hist_inv s (fst a) \<and> maxcount s = m \<and> alive s = set (undos (fst a) @ redos (fst a)) \<and> rev (executed s) = snd a"

lemma undo_ring_of:
  assumes "ring_of m s a"
  shows "\<exists>s'. undo s = Inr (fst (hist_spec m a Undo), s') \<and> ring_of m s' (snd (hist_spec m a Undo))"
proof -
  obtain h runs where a: "a = (h, runs)" by (cases a)
  then have i: "hist_inv s h" "maxcount s = m" "alive s = set (undos h @ redos h)" "rev (executed s) = runs"
    using assms by (simp_all add: ring_of_def)
  show ?thesis
  proof (cases "undos h" rule: rev_cases)
    case Nil
    then show ?thesis using undo_spec [OF i(1)] i by (auto simp: hist_spec_def ring_of_def a)
  next
    case (snoc us c)
    then show ?thesis using undo_spec [OF i(1)] i by (auto simp: hist_spec_def ring_of_def a)
  qed
qed

lemma redo_ring_of:
  assumes "ring_of m s a"
  shows "\<exists>s'. redo s = Inr (fst (hist_spec m a Redo), s') \<and> ring_of m s' (snd (hist_spec m a Redo))"
proof -
  obtain h runs where a: "a = (h, runs)" by (cases a)
  then have i: "hist_inv s h" "maxcount s = m" "alive s = set (undos h @ redos h)" "rev (executed s) = runs"
    using assms by (simp_all add: ring_of_def)
  show ?thesis
  proof (cases "redos h")
    case Nil
    then show ?thesis using redo_spec [OF i(1)] i by (auto simp: hist_spec_def ring_of_def a)
  next
    case (Cons c cs)
    then show ?thesis using redo_spec [OF i(1)] i by (auto simp: hist_spec_def ring_of_def a)
  qed
qed

lemma push_ring_of:
  assumes r: "ring_of m s a" and ok: "hist_allowed s (Push x)"
  shows "\<exists>s'. hist_step s (Push x) = Some (Inr (None, s')) \<and> ring_of m s' (snd (hist_spec m a (Push x)))"
proof -
  obtain h runs where a: "a = (h, runs)" by (cases a)
  then have i: "hist_inv s h" "maxcount s = m" "alive s = set (undos h @ redos h)" "rev (executed s) = runs"
    using r by (simp_all add: ring_of_def)
  let ?s = "s\<lparr>alive := insert x (alive s)\<rparr>"
  have j: "hist_inv ?s h" using i(1) ring_cong [of ?s s] by (auto simp: hist_inv_def)
  have x: "x \<notin> set (undos h @ redos h)" using ok hist_invD [OF i(1)] by (auto simp: hist_allowed_def)
  have "redos h = [] \<or> redo_tail ?s \<noteq> 0" using ok canRedo_iff [OF i(1)] by (auto simp: hist_allowed_def)
  then obtain s' where s': "pushUndoRedoCommand ?s (Some x) = Some (Inr s')" "hist_inv s' (push_hist m x h)" "maxcount s' = m"
      "executed s' = executed s"
      "alive s' = insert x (alive s) - set (redos h) - (if int (length (undos h)) + 1 = m then {hd (undos h)} else {})"
    using push_spec [OF j, of x] x i(2) by auto
  have u: "undos h \<noteq> []" if "int (length (undos h)) + 1 = m" using that hist_invD(2) [OF i(1)] i(2) by auto
  have "alive s' = set (undos (push_hist m x h) @ redos (push_hist m x h))"
    unfolding s'(5) using x i(3) hist_invD(14,16) [OF i(1)] u by (cases "undos h") auto
  then show ?thesis using s' i(4) by (simp add: hist_step_def hist_spec_def ring_of_def a)
qed

interpretation undo_ring: specified_object hist_step "hist_spec m" hist_allowed "ring_of m" for m
proof
  fix s a c
  assume r: "ring_of m s a" and ok: "hist_allowed s c"
  show "\<exists>s'. hist_step s c = Some (Inr (fst (hist_spec m a c), s')) \<and> ring_of m s' (snd (hist_spec m a c))"
    using undo_ring_of [OF r] redo_ring_of [OF r] push_ring_of [OF r] ok
    by (cases c) (auto simp: hist_step_def hist_spec_def split: prod.splits)
qed

text \<open>
  C14: Any sequence of pushes of new commands, undos and redos on a new history runs without a fault
  and returns what two lists of commands say, the oldest command dropped when the ring is full; the
  commands executed are exactly those undone and redone, in the order of the calls, and the commands
  that exist afterwards are exactly those of the two lists. No push may be made while something can
  be redone and the history ends in the last slot of the ring.
\<close>

theorem undo_redo_refines_history:
  assumes "all_allowed hist_step hist_allowed (DefaultUndoRedoObserver n) cs"
  shows "case spec_calls (hist_spec (max DEF_UNDOREDO_MIN n)) (\<lparr>undos = [], redos = []\<rparr>, []) cs of (outs, h, runs) \<Rightarrow>
    \<exists>s. run_calls hist_step (DefaultUndoRedoObserver n) cs = Some (Inr (outs, s))
      \<and> rev (executed s) = runs \<and> alive s = set (undos h @ redos h)"
proof -
  have "ring_of (max DEF_UNDOREDO_MIN n) (DefaultUndoRedoObserver n) (\<lparr>undos = [], redos = []\<rparr>, [])"
    using new_history by (simp add: ring_of_def DefaultUndoRedoObserver_def Let_def)
  from undo_ring.run_spec [OF this assms] show ?thesis unfolding ring_of_def by (simp split: prod.split) force
qed

lemma undo_redo_refines_history_witness:
  "\<exists>s. run_calls hist_step (DefaultUndoRedoObserver 8) [Push 1, Push 2, Undo, Push 3, Undo, Undo, Redo, Undo, Undo]
    = Some (Inr ([None, None, Some 2, None, Some 3, Some 1, Some 1, Some 1, None], s))
    \<and> executed s = [1, 1, 1, 3, 2] \<and> alive s = {1, 3}"
proof -
  let ?cs = "[Push 1, Push 2, Undo, Push 3, Undo, Undo, Redo, Undo, Undo]"
  have "all_allowed hist_step hist_allowed (DefaultUndoRedoObserver 8) ?cs" by code_simp
  moreover have "spec_calls (hist_spec (max DEF_UNDOREDO_MIN 8)) (\<lparr>undos = [], redos = []\<rparr>, []) ?cs
      = ([None, None, Some 2, None, Some 3, Some 1, Some 1, Some 1, None], \<lparr>undos = [], redos = [1, 3]\<rparr>, [2, 3, 1, 1, 1])" by code_simp
  ultimately show ?thesis using undo_redo_refines_history [of 8 ?cs] by (auto simp: rev_swap)
qed

text \<open>
  A push while the redo list ends in the last slot of the ring deletes a command that was deleted
  before: the loop of emptyRedo steps over the end 0 and goes around the whole ring.
\<close>

theorem push_after_undo_frees_twice:
  assumes "hist_inv s h" "redos h \<noteq> []" "redo_tail s = 0"
  shows "hist_step s (Push c) = Some (Inl Use_After_Free)"
proof -
  let ?s = "s\<lparr>alive := insert c (alive s)\<rparr>"
  have "hist_inv ?s h" using assms(1) ring_cong [of ?s s] by (auto simp: hist_inv_def)
  then show ?thesis using push_fault [of ?s h c] assms(2,3) by (simp add: hist_step_def)
qed

text \<open>After eight pushes into a ring of eight slots the end of the history is slot 0.\<close>

definition full_ring :: undo_redo where
  "full_ring = \<lparr>commands = map Some [0..<8], undo_tail = 7, undo_head = 1, redo_tail = 0, maxcount = 8,
     alive = set [1..<8], executed = [7]\<rparr>"

lemma full_ring_reached:
  "run_calls hist_step (DefaultUndoRedoObserver 8) (map Push [0..<8] @ [Undo]) = Some (Inr (replicate 8 None @ [Some 7], full_ring))"
  by code_simp

lemma push_after_undo_frees_twice_witness: "hist_step full_ring (Push 8) = Some (Inl Use_After_Free)"
proof (rule push_after_undo_frees_twice)
  show "hist_inv full_ring \<lparr>undos = [1..<7], redos = [7]\<rparr>" unfolding hist_inv_def by code_simp
qed (simp_all add: full_ring_def)

text \<open>
  \<open>emptyRedo\<close> called on its own leaves the positions as they are: the next redo runs a deleted command.
\<close>

lemma redo_after_emptyRedo:
  assumes i: "hist_inv s h" and r: "redos h \<noteq> []" "redo_tail s \<noteq> 0"
  shows "\<exists>s'. emptyRedo s = Some (Inr s') \<and> redo s' = Inl Use_After_Free"
proof -
  obtain c cs where c: "redos h = c # cs" using r(1) by (cases "redos h") auto
  have "slot s (undo_tail s) = Some c" using ring_redos(1) [OF i] c by (simp add: ring_Suc)
  then have "aget (commands s) (undo_tail s) = Inr (Some c)" using aget_slot [of s "undo_tail s"] hist_invD [OF i] by simp
  moreover have "canRedo s" using canRedo_iff [OF i] r(1) by simp
  ultimately show ?thesis using emptyRedo_spec [OF i] r(2) c
    by (simp add: redo_def canRedo_def execute_def)
qed

text \<open>The destructor goes wrong when the history ends in the last slot of the array.\<close>

lemma destroy_fault:
  assumes i: "hist_inv s h" and h: "undos h @ redos h = c # cs" and "redo_tail s = 0"
  shows "destroy s = Some (Inl Use_After_Free)"
proof -
  let ?a = "undo_head s"
  note D = hist_invD [OF i]
  have n: "length (undos h) + length (redos h) = length (c # cs)" using h by (metis length_append)
  have r: "ring s ?a (length (c # cs)) = map Some (c # cs)" "redo_tail s = (?a + int (length (c # cs))) mod maxcount s"
      "int (length (c # cs)) < maxcount s" "c \<in> alive s"
    using i h unfolding hist_inv_def n by (auto simp: n)
  then have sl: "slot s ?a = Some c" by (simp add: ring_Suc)
  have a0: "?a \<noteq> 0"
  proof
    assume "?a = 0"
    then have "redo_tail s = int (length (c # cs))" unfolding r(2) using r(3) by (simp add: mod_pos_pos_trivial del: of_nat_Suc)
    then show False using assms(3) by simp
  qed
  have get: "aget (commands s) ?a = Inr (Some c)" using aget_slot [of s ?a] D sl by simp
  have "delete_loop (s\<lparr>alive := alive s - {c}\<rparr>) (?a + 1) 0 = Some (Inl Use_After_Free)"
    by (rule delete_loop_dead [where k = ?a and c = c]) (use D sl in \<open>auto simp: slot_def\<close>)
  moreover have "delete_at s ?a = Inr (s\<lparr>alive := alive s - {c}\<rparr>)" using get r(4) by (simp add: delete_at_def)
  moreover have "wrap_eq (maxcount s) ?a = ?a" using D(5) by (simp add: wrap_eq_def)
  ultimately show ?thesis unfolding destroy_def assms(3) using a0 by (subst delete_loop.simps) (simp add: Let_def)
qed

end
