(* ===== verification/C_Lib.thy ===== *)
theory C_Lib
  imports GB_Prelude
begin

text \<open>
  What the JSON code uses of C's standard library: character classes in the C locale, comparison
  without case, the decimal forms of \<open>%d\<close> in \<open>printf\<close> and \<open>sscanf\<close>, \<open>strdup\<close>. Strings are given by
  their bytes before the \<open>NUL\<close>. Floating point is left to the machine: a \<open>double\<close> is its 64 bits, and
  \<open>cenv\<close> holds the conversions the code asks for (\<open>%lf\<close> depends on the locale in both directions)
  beside the allocator, \<open>mem n\<close> saying whether \<open>n\<close> bytes can be had.
\<close>

record cenv =
  mem :: "int \<Rightarrow> bool"
  fmt_lf :: "64 word \<Rightarrow> char list"
  scan_lf :: "char list \<Rightarrow> 64 word option"
  dbl_of_int :: "int \<Rightarrow> 64 word"
  int_of_dbl :: "64 word \<Rightarrow> 32 word"
  dbl_nonzero :: "64 word \<Rightarrow> bool"

definition all_mem :: "cenv \<Rightarrow> bool" where "all_mem E \<longleftrightarrow> (\<forall>n. mem E n)"

lemma mem_all: "all_mem E \<Longrightarrow> mem E = (\<lambda>_. True)"
  by (auto simp: all_mem_def)

text \<open>
  An environment to evaluate examples in: memory without end, and conversions that only know the
  bit pattern of zero.
\<close>

definition plain_env :: cenv where
  "plain_env = \<lparr>mem = (\<lambda>_. True), fmt_lf = (\<lambda>_. ''0.000000''), scan_lf = (\<lambda>_. Some 0),
     dbl_of_int = (\<lambda>_. 0), int_of_dbl = (\<lambda>_. 0), dbl_nonzero = (\<lambda>d. d \<noteq> 0)\<rparr>"

lemma all_mem_plain_env [simp]: "all_mem plain_env"
  by (simp add: all_mem_def plain_env_def)

section \<open>Characters\<close>

definition c_isspace :: "char \<Rightarrow> bool" where
  "c_isspace c \<longleftrightarrow> c \<in> {CHR '' '', CHR 0x09, CHR 0x0A, CHR 0x0B, CHR 0x0C, CHR 0x0D}"

definition c_isdigit :: "char \<Rightarrow> bool" where
  "c_isdigit c \<longleftrightarrow> 48 \<le> (of_char c :: nat) \<and> (of_char c :: nat) \<le> 57"

definition c_tolower :: "char \<Rightarrow> char" where
  "c_tolower c = (if 65 \<le> (of_char c :: nat) \<and> (of_char c :: nat) \<le> 90 then char_of (of_char c + 32 :: nat) else c)"

text \<open>\<open>strchr(s, c) != NULL\<close>: the terminator of \<open>s\<close> counts.\<close>

definition c_strchr :: "char list \<Rightarrow> char \<Rightarrow> bool" where
  "c_strchr s c \<longleftrightarrow> c = NUL \<or> c \<in> set s"

text \<open>\<open>strncasecmp(s1, s2, n) == 0\<close>\<close>

fun c_strncaseeq :: "char list \<Rightarrow> char list \<Rightarrow> nat \<Rightarrow> bool" where
  "c_strncaseeq s1 s2 0 = True"
| "c_strncaseeq [] [] (Suc n) = True"
| "c_strncaseeq [] (b # s2) (Suc n) = False"
| "c_strncaseeq (a # s1) [] (Suc n) = False"
| "c_strncaseeq (a # s1) (b # s2) (Suc n) = (c_tolower a = c_tolower b \<and> c_strncaseeq s1 s2 n)"

definition c_strdup :: "cenv \<Rightarrow> char list \<Rightarrow> char list option" where
  "c_strdup E s = (if mem E (int (length s) + 1) then Some s else None)"

section \<open>Decimal numbers\<close>

definition digit_char :: "nat \<Rightarrow> char" where "digit_char n = char_of (48 + n)"

definition digit_value :: "char \<Rightarrow> nat" where "digit_value c = of_char c - 48"

fun digits :: "nat \<Rightarrow> char list" where
  "digits n = (if n < 10 then [digit_char n] else digits (n div 10) @ [digit_char (n mod 10)])"

declare digits.simps [simp del]

definition fmt_d :: "32 word \<Rightarrow> char list" where
  "fmt_d w = (if sint w < 0 then CHR ''-'' # digits (nat (- sint w)) else digits (nat (sint w)))"

definition value_of :: "char list \<Rightarrow> nat" where
  "value_of ds = foldl (\<lambda>n c. n * 10 + digit_value c) 0 ds"

text \<open>
  \<open>sscanf(s, "%d", &n)\<close>: leading space, a sign, digits; the value is clamped to a \<open>long\<close> and cut to
  an \<open>int\<close>.
\<close>

definition clamp_long :: "int \<Rightarrow> int" where
  "clamp_long n = max (- (2 ^ 63)) (min (2 ^ 63 - 1) n)"

definition scan_sign :: "char list \<Rightarrow> bool \<times> char list" where
  "scan_sign s = (case s of
      [] \<Rightarrow> (False, [])
    | c # cs \<Rightarrow> if c = CHR ''-'' then (True, cs) else if c = CHR ''+'' then (False, cs) else (False, s))"

definition scan_d :: "char list \<Rightarrow> 32 word option" where
  "scan_d s =
     (let (neg, s1) = scan_sign (dropWhile c_isspace s); ds = takeWhile c_isdigit s1 in
      if ds = [] then None
      else Some (word_of_int (clamp_long (if neg then - int (value_of ds) else int (value_of ds)))))"

section \<open>Printing and scanning an int\<close>

lemma digit_char_code: "n < 10 \<Longrightarrow> (of_char (digit_char n) :: nat) = 48 + n"
  by (simp add: digit_char_def)

lemma digit_char_is_digit [simp]: "n < 10 \<Longrightarrow> c_isdigit (digit_char n)"
  by (simp add: c_isdigit_def digit_char_code)

lemma digit_value_char [simp]: "n < 10 \<Longrightarrow> digit_value (digit_char n) = n"
  by (simp add: digit_value_def digit_char_code)

lemma digits_are_digits: "\<forall>c \<in> set (digits n). c_isdigit c"
  by (induction n rule: digits.induct) (subst digits.simps, auto)

lemma digits_nonempty [simp]: "digits n \<noteq> []"
  by (subst digits.simps) simp

lemma value_of_snoc: "value_of (ds @ [c]) = value_of ds * 10 + digit_value c"
  by (simp add: value_of_def)

lemma value_of_digits [simp]: "value_of (digits n) = n"
proof (induction n rule: digits.induct)
  case (1 n)
  then show ?case
    by (subst digits.simps) (cases "n < 10", simp_all add: value_of_snoc, simp add: value_of_def)
qed

lemma digit_not_space: "c_isdigit c \<Longrightarrow> \<not> c_isspace c"
  by (auto simp: c_isdigit_def c_isspace_def of_char_def)

lemma digit_not_sign: "c_isdigit c \<Longrightarrow> c \<noteq> CHR ''-'' \<and> c \<noteq> CHR ''+''"
  by (auto simp: c_isdigit_def of_char_def)

text \<open>Reading back what \<open>%d\<close> wrote, whatever follows it that is not a digit.\<close>

lemma scan_d_digits:
  assumes "rest = [] \<or> \<not> c_isdigit (hd rest)"
  shows "takeWhile c_isdigit (digits n @ rest) = digits n"
  using assms digits_are_digits [of n] by (cases rest) (auto simp: takeWhile_append2 takeWhile_tail)

lemma digits_Cons: obtains d ds where "digits n = d # ds" "c_isdigit d"
  using digits_are_digits [of n] digits_nonempty [of n] by (metis list.exhaust list.set_intros(1))

lemma scan_d_fmt_d:
  assumes "rest = [] \<or> \<not> c_isdigit (hd rest)"
  shows "scan_d (fmt_d w @ rest) = Some w"
proof -
  have w: "- (2 ^ 31) \<le> sint w" "sint w < 2 ^ 31"
    using sint_greater_eq [of w] sint_less [of w] by simp_all
  show ?thesis
  proof (cases "sint w < 0")
    case True
    have "scan_sign (dropWhile c_isspace (fmt_d w @ rest)) = (True, digits (nat (- sint w)) @ rest)"
      using True by (simp add: fmt_d_def scan_sign_def c_isspace_def)
    then show ?thesis
      using True w by (simp add: scan_d_def scan_d_digits [OF assms] clamp_long_def)
  next
    case False
    obtain d ds where d: "digits (nat (sint w)) = d # ds" "c_isdigit d" by (rule digits_Cons)
    have "dropWhile c_isspace (fmt_d w @ rest) = digits (nat (sint w)) @ rest"
      using False d by (simp add: fmt_d_def digit_not_space)
    moreover have "scan_sign (digits (nat (sint w)) @ rest) = (False, digits (nat (sint w)) @ rest)"
      using d digit_not_sign [OF d(2)] by (simp add: scan_sign_def)
    ultimately have "scan_sign (dropWhile c_isspace (fmt_d w @ rest)) = (False, digits (nat (sint w)) @ rest)"
      by simp
    then show ?thesis
      using False w by (simp add: scan_d_def scan_d_digits [OF assms] clamp_long_def)
  qed
qed

end
