(* ===== verification/Array_List.thy ===== *)
theory Array_List
  imports GB_Prelude
begin

text \<open>
  The growing array of \<open>texteditor/json/arraylist.c\<close>: a block of \<open>size\<close> pointers of which the first
  \<open>length\<close> are in use. A slot holds \<open>None\<close> for \<open>NULL\<close>. The block is the list \<open>array\<close>; its length is
  what the allocator gave. The destructor \<open>free_fn\<close> is a callback of the client: an operation
  returns the data it was called on, in order. The allocator is the C library's: a call for \<open>n\<close>
  bytes succeeds when \<open>mem n\<close> holds.
\<close>

record 'a array_list =
  array :: "'a option list"
  al_length :: int
  al_size :: int

definition ARRAY_LIST_DEFAULT_SIZE :: int where "ARRAY_LIST_DEFAULT_SIZE = 32"

definition sizeof_ptr :: int where "sizeof_ptr = 8"

definition sizeof_array_list :: int where "sizeof_array_list = 24"

definition array_list_new :: "(int \<Rightarrow> bool) \<Rightarrow> 'a array_list option" where
  "array_list_new mem =
     (if \<not> mem sizeof_array_list then None
      else if \<not> mem (sizeof_ptr * ARRAY_LIST_DEFAULT_SIZE) then None
      else Some \<lparr>array = replicate (nat ARRAY_LIST_DEFAULT_SIZE) None, al_length = 0,
                 al_size = ARRAY_LIST_DEFAULT_SIZE\<rparr>)"

text \<open>The loop of \<open>array_list_free\<close>: the data handed to \<open>free_fn\<close>.\<close>

fun free_slots :: "'a option list \<Rightarrow> 'a list" where
  "free_slots [] = []"
| "free_slots (None # xs) = free_slots xs"
| "free_slots (Some d # xs) = d # free_slots xs"

definition array_list_free :: "'a array_list \<Rightarrow> 'a list res" where
  "array_list_free t =
     (if al_length t \<le> int (length (array t)) then Inr (free_slots (take (nat (al_length t)) (array t)))
      else Inl Out_Of_Bounds)"

definition array_list_get_idx :: "'a array_list \<Rightarrow> int \<Rightarrow> 'a option res" where
  "array_list_get_idx t i = (if i \<ge> al_length t then Inr None else aget (array t) i)"

definition array_list_expand_internal ::
  "(int \<Rightarrow> bool) \<Rightarrow> 'a array_list \<Rightarrow> int \<Rightarrow> int \<times> 'a array_list" where
  "array_list_expand_internal mem t mx =
     (if mx < al_size t then (0, t)
      else let new_size = max (al_size t * 2) mx in
        if \<not> mem (new_size * sizeof_ptr) then (-1, t)
        else (0, t\<lparr>array := take (nat (al_size t)) (array t) @ replicate (nat (new_size - al_size t)) None,
                   al_size := new_size\<rparr>))"

definition array_list_put_idx ::
  "(int \<Rightarrow> bool) \<Rightarrow> 'a array_list \<Rightarrow> int \<Rightarrow> 'a option \<Rightarrow> (int \<times> 'a list \<times> 'a array_list) res" where
  "array_list_put_idx mem t idx data =
     (let (r, t) = array_list_expand_internal mem t idx in
      if r \<noteq> 0 then Inr (-1, [], t)
      else rbind (aget (array t) idx) (\<lambda>old.
           rbind (aset (array t) idx data) (\<lambda>arr.
             Inr (0, (case old of None \<Rightarrow> [] | Some d \<Rightarrow> [d]),
                  t\<lparr>array := arr,
                    al_length := (if al_length t \<le> idx then idx + 1 else al_length t)\<rparr>))))"

definition array_list_add ::
  "(int \<Rightarrow> bool) \<Rightarrow> 'a array_list \<Rightarrow> 'a option \<Rightarrow> (int \<times> 'a list \<times> 'a array_list) res" where
  "array_list_add mem t data = array_list_put_idx mem t (al_length t) data"

definition array_list_length :: "'a array_list \<Rightarrow> int" where
  "array_list_length t = al_length t"

section \<open>Invariant and contents\<close>

text \<open>The block has \<open>size\<close> slots, and those past \<open>length\<close> are \<open>NULL\<close>.\<close>

definition al_inv :: "'a array_list \<Rightarrow> bool" where
  "al_inv t \<longleftrightarrow> int (length (array t)) = al_size t \<and> 0 < al_size t
     \<and> 0 \<le> al_length t \<and> al_length t \<le> al_size t
     \<and> (\<forall>i. al_length t \<le> int i \<and> int i < al_size t \<longrightarrow> array t ! i = None)"

text \<open>What the client sees: the first \<open>length\<close> slots.\<close>

definition al_elems :: "'a array_list \<Rightarrow> 'a option list" where
  "al_elems t = take (nat (al_length t)) (array t)"

lemma length_al_elems: "al_inv t \<Longrightarrow> int (length (al_elems t)) = al_length t"
  by (auto simp: al_elems_def al_inv_def)

lemma array_list_new_inv:
  "array_list_new mem = Some t \<Longrightarrow> al_inv t \<and> al_elems t = []"
  by (auto simp: array_list_new_def al_inv_def al_elems_def ARRAY_LIST_DEFAULT_SIZE_def split: if_splits)

lemma expand_fits: "mx < al_size t \<Longrightarrow> array_list_expand_internal mem t mx = (0, t)"
  by (simp add: array_list_expand_internal_def)

lemma expand_inv:
  assumes "al_inv t" "array_list_expand_internal mem t mx = (r, t')"
  shows "al_inv t' \<and> al_length t' = al_length t \<and> al_elems t' = al_elems t \<and> (r = 0 \<or> t' = t)"
proof (cases "mx < al_size t")
  case True
  with assms show ?thesis by (simp add: expand_fits)
next
  case False
  then have "array_list_expand_internal mem t mx = (r, t')" and "\<not> mx < al_size t"
    using assms by simp_all
  moreover have "array t ! i = None" if "al_length t \<le> int i" "int i < al_size t" for i
    using assms(1) that by (simp add: al_inv_def)
  ultimately show ?thesis
    using assms(1)
    by (auto simp: array_list_expand_internal_def al_inv_def al_elems_def Let_def nth_append max_def
        split: if_splits)
qed

text \<open>When the block is large enough, a write changes exactly one slot.\<close>

lemma put_idx_in_block:
  assumes inv: "al_inv t" and i: "0 \<le> i" "i < al_size t"
  shows "array_list_put_idx mem t i d =
           Inr (0, (case array t ! nat i of None \<Rightarrow> [] | Some x \<Rightarrow> [x]),
                t\<lparr>array := (array t)[nat i := d], al_length := max (al_length t) (i + 1)\<rparr>)"
  using assms
  by (auto simp: array_list_put_idx_def expand_fits aget_def aset_def al_inv_def max_def)

lemma put_idx_expanded:
  assumes "array_list_expand_internal mem t i = (0, t')" "i < al_size t'"
  shows "array_list_put_idx mem t i d = array_list_put_idx mem t' i d"
  using assms by (simp add: array_list_put_idx_def expand_fits)

lemma put_inv:
  assumes inv: "al_inv t" and i: "0 \<le> i" "i < al_size t"
  shows "al_inv (t\<lparr>array := (array t)[nat i := d], al_length := max (al_length t) (i + 1)\<rparr>)"
  using assms by (auto simp: al_inv_def nth_list_update)

text \<open>The slots a write past the end leaves in between read as \<open>NULL\<close>.\<close>

definition put_elems :: "'a option list \<Rightarrow> nat \<Rightarrow> 'a option \<Rightarrow> 'a option list" where
  "put_elems xs i d = (xs @ replicate (Suc i - length xs) None)[i := d]"

lemma put_elems_append: "put_elems xs (length xs) d = xs @ [d]"
  by (simp add: put_elems_def)

lemma take_pad:
  assumes "n \<le> length xs" "m \<le> length xs" "n \<le> m" "\<And>i. n \<le> i \<Longrightarrow> i < length xs \<Longrightarrow> xs ! i = None"
  shows "take m xs = take n xs @ replicate (m - n) None"
  using assms by (intro nth_equalityI) (auto simp: nth_append)

lemma put_al_elems:
  assumes inv: "al_inv t" and i: "0 \<le> i" "i < al_size t"
  shows "al_elems (t\<lparr>array := (array t)[nat i := d], al_length := max (al_length t) (i + 1)\<rparr>)
           = put_elems (al_elems t) (nat i) d"
proof -
  let ?n = "nat (al_length t)" and ?m = "nat (max (al_length t) (i + 1))"
  have "take ?m (array t) = take ?n (array t) @ replicate (?m - ?n) None"
    using inv i by (intro take_pad) (auto simp: al_inv_def)
  moreover have "?m - ?n = Suc (nat i) - length (take ?n (array t))"
    using inv i by (auto simp: al_inv_def)
  ultimately show ?thesis
    by (simp add: al_elems_def put_elems_def take_update_swap)
qed

text \<open>
  A write below twice the block's size: the block grows when it must, and the contents change at the
  index only. With the allocator refusing, the array is left alone.
\<close>

lemma put_idx_spec:
  assumes inv: "al_inv t" and i: "0 \<le> i" "i < 2 * al_size t" and mem: "\<And>n. mem n"
  shows "\<exists>f t'. array_list_put_idx mem t i d = Inr (0, f, t') \<and> al_inv t'
           \<and> al_elems t' = put_elems (al_elems t) (nat i) d \<and> al_length t' = max (al_length t) (i + 1)
           \<and> f = (if i < al_length t then free_slots [al_elems t ! nat i] else [])"
proof -
  obtain r t1 where e: "array_list_expand_internal mem t i = (r, t1)" by fastforce
  have t1: "al_inv t1" "al_length t1 = al_length t" "al_elems t1 = al_elems t"
    using expand_inv [OF inv e] by simp_all
  have r: "r = 0" and sz: "i < al_size t1"
    using e i mem inv by (auto simp: array_list_expand_internal_def Let_def max_def split: if_splits)
  have "array_list_put_idx mem t i d = array_list_put_idx mem t1 i d"
    using e r sz by (intro put_idx_expanded) simp_all
  moreover have "(case array t1 ! nat i of None \<Rightarrow> [] | Some x \<Rightarrow> [x])
      = (if i < al_length t then free_slots [al_elems t ! nat i] else [])"
  proof (cases "i < al_length t")
    case True
    then have "al_elems t ! nat i = array t1 ! nat i"
      using i by (simp flip: t1(2,3)) (simp add: al_elems_def)
    with True show ?thesis by (simp split: option.split)
  next
    case False
    then have "array t1 ! nat i = None" using t1 i sz by (simp add: al_inv_def)
    with False show ?thesis by simp
  qed
  ultimately show ?thesis
    using put_idx_in_block [OF t1(1) i(1) sz] put_inv [OF t1(1) i(1) sz] put_al_elems [OF t1(1) i(1) sz] t1
    by auto
qed

section \<open>The contract of an append-only sequence\<close>

text \<open>
  What a client that only appends relies on: \<open>add\<close> returns 0, destroys nothing and puts the datum at
  the end. Then a run of appends leaves exactly what was appended, in order.
\<close>

fun add_all :: "('s \<Rightarrow> 'e \<Rightarrow> (int \<times> 'f list \<times> 's) res) \<Rightarrow> 's \<Rightarrow> 'e list \<Rightarrow> (int list \<times> 's) res" where
  "add_all add s [] = Inr ([], s)"
| "add_all add s (x # xs) =
     rbind (add s x) (\<lambda>(r, f, s'). rbind (add_all add s' xs) (\<lambda>(rs, s''). Inr (r # rs, s'')))"

locale appendable =
  fixes add :: "'s \<Rightarrow> 'e \<Rightarrow> (int \<times> 'f list \<times> 's) res"
    and elems :: "'s \<Rightarrow> 'e list"
    and inv :: "'s \<Rightarrow> bool"
  assumes add_spec: "inv s \<Longrightarrow> \<exists>s'. add s x = Inr (0, [], s') \<and> elems s' = elems s @ [x] \<and> inv s'"
begin

lemma add_all_spec:
  "inv s \<Longrightarrow>
   \<exists>s'. add_all add s xs = Inr (replicate (length xs) 0, s') \<and> elems s' = elems s @ xs \<and> inv s'"
proof (induction xs arbitrary: s)
  case Nil
  then show ?case by simp
next
  case (Cons x xs)
  obtain s1 where s1: "add s x = Inr (0, [], s1)" "elems s1 = elems s @ [x]" "inv s1"
    using add_spec [OF Cons.prems] by blast
  obtain s2 where "add_all add s1 xs = Inr (replicate (length xs) 0, s2)" "elems s2 = elems s1 @ xs" "inv s2"
    using Cons.IH [OF s1(3)] by blast
  with s1 show ?case by simp
qed

end

lemma array_list_add_spec:
  assumes inv: "al_inv t" and mem: "\<And>n. mem n"
  shows "\<exists>t'. array_list_add mem t d = Inr (0, [], t') \<and> al_elems t' = al_elems t @ [d] \<and> al_inv t'"
proof -
  have l: "0 \<le> al_length t" "al_length t < 2 * al_size t" using inv by (auto simp: al_inv_def)
  have "nat (al_length t) = length (al_elems t)"
    using length_al_elems [OF inv] by simp
  then show ?thesis
    using put_idx_spec [where mem = mem and d = d, OF inv l mem] by (auto simp: array_list_add_def put_elems_append)
qed

interpretation al: appendable "array_list_add (\<lambda>_. True)" al_elems al_inv
  by unfold_locales (rule array_list_add_spec, simp_all)

text \<open>
  Adding any number of elements to a new array list succeeds each time, and the elements can be read
  back in order at their index, with NULL from the length on.
\<close>

theorem array_list_add_all:
  assumes "array_list_new (\<lambda>_. True) = Some t"
  shows "\<exists>t'. add_all (array_list_add (\<lambda>_. True)) t xs = Inr (replicate (length xs) 0, t')
           \<and> array_list_length t' = int (length xs)
           \<and> (\<forall>i. array_list_get_idx t' (int i) = Inr (if i < length xs then xs ! i else None))"
proof -
  have t: "al_inv t" "al_elems t = []" using array_list_new_inv [OF assms] by simp_all
  obtain t' where t': "add_all (array_list_add (\<lambda>_. True)) t xs = Inr (replicate (length xs) 0, t')"
      "al_elems t' = xs" "al_inv t'"
    using al.add_all_spec [OF t(1), of xs] t(2) by auto
  have len: "al_length t' = int (length xs)" using length_al_elems [OF t'(3)] t'(2) by simp
  have "array t' ! i = xs ! i" if "i < length xs" for i
    using that t'(2) len by (metis al_elems_def nat_int nth_take)
  then have "array_list_get_idx t' (int i) = Inr (if i < length xs then xs ! i else None)" for i
    using t' len by (simp add: array_list_get_idx_def al_inv_def)
  with t' len show ?thesis by (auto simp: array_list_length_def)
qed

theorem array_list_add_all_witness:
  "\<exists>t'. add_all (array_list_add (\<lambda>_. True))
          \<lparr>array = replicate 32 None, al_length = 0, al_size = 32\<rparr> [Some (7::nat), None, Some 9]
          = Inr ([0, 0, 0], t') \<and> array_list_length t' = 3"
  using array_list_add_all [of "\<lparr>array = replicate 32 None, al_length = 0, al_size = 32\<rparr>"
      "[Some (7::nat), None, Some 9]"]
  by (auto simp: array_list_new_def ARRAY_LIST_DEFAULT_SIZE_def numeral_3_eq_3)

text \<open>
  Writing at an index of at least twice the capacity, and above it, stores one element past the
  reallocated block: the capacity is grown to the index, not to the index plus one.
\<close>

theorem array_list_put_idx_out_of_bounds:
  assumes "al_inv t" and "\<And>n. mem n"
  shows "is_ok (array_list_put_idx mem t i d) \<longleftrightarrow> 0 \<le> i \<and> i < 2 * al_size t"
proof (cases "0 \<le> i \<and> i < 2 * al_size t")
  case True
  then show ?thesis using put_idx_spec [OF assms(1), where i = i and mem = mem and d = d] assms(2) by auto
next
  case False
  then consider "i < 0" | "2 * al_size t \<le> i" by linarith
  then show ?thesis
  proof cases
    case 1
    with assms have "array_list_put_idx mem t i d = Inl Out_Of_Bounds"
      by (simp add: array_list_put_idx_def expand_fits al_inv_def aget_fault)
    with False show ?thesis by simp
  next
    case 2
    moreover obtain r t1 where e: "array_list_expand_internal mem t i = (r, t1)" by fastforce
    ultimately have "r = 0 \<and> al_size t1 = i"
      using assms by (auto simp: array_list_expand_internal_def Let_def al_inv_def max_def split: if_splits)
    moreover have "al_inv t1" using expand_inv [OF assms(1) e] by simp
    ultimately have "array_list_put_idx mem t i d = Inl Out_Of_Bounds"
      using e by (simp add: array_list_put_idx_def aget_fault al_inv_def)
    with False show ?thesis by simp
  qed
qed

theorem array_list_put_idx_out_of_bounds_witness:
  "\<not> is_ok (array_list_put_idx (\<lambda>_. True) \<lparr>array = replicate 32 None, al_length = 0, al_size = 32\<rparr> 64
             (Some (1::nat)))"
  by (subst array_list_put_idx_out_of_bounds) (simp_all add: al_inv_def)

end
