(* ===== verification/Print_Buf.thy ===== *)
theory Print_Buf
  imports GB_Prelude
begin

text \<open>
  The text buffer of \<open>texteditor/json/printbuf.c\<close>: a block of \<open>size\<close> bytes, of which \<open>bpos\<close> are in
  use, with a \<open>NUL\<close> behind them once something was appended or the buffer was reset. The block of a new
  buffer comes from \<open>malloc\<close>, so its bytes are uninitialised. \<open>mem n\<close> tells whether the allocator has
  \<open>n\<close> bytes.
\<close>

record printbuf =
  buf :: "char option list"
  bpos :: int
  pb_size :: int

definition sizeof_printbuf :: int where "sizeof_printbuf = 16"

definition printbuf_new :: "(int \<Rightarrow> bool) \<Rightarrow> printbuf option" where
  "printbuf_new mem =
     (if \<not> mem sizeof_printbuf then None
      else if \<not> mem 32 then None
      else Some \<lparr>buf = replicate 32 None, bpos = 0, pb_size = 32\<rparr>)"

text \<open>The two writes at the end of \<open>printbuf_memappend\<close>, each inside the block or a fault.\<close>

definition pb_store :: "printbuf \<Rightarrow> char list \<Rightarrow> printbuf res" where
  "pb_store p s =
     (if 0 \<le> bpos p \<and> bpos p + int (length s) \<le> int (length (buf p))
      then rbind (aset (blit (buf p) (nat (bpos p)) (map Some s)) (bpos p + int (length s)) (Some NUL))
             (\<lambda>b. Inr (p\<lparr>buf := b, bpos := bpos p + int (length s)\<rparr>))
      else Inl Out_Of_Bounds)"

definition printbuf_memappend :: "(int \<Rightarrow> bool) \<Rightarrow> printbuf \<Rightarrow> char list \<Rightarrow> (int \<times> printbuf) res" where
  "printbuf_memappend mem p s =
     (let size = int (length s) in
      if pb_size p - bpos p \<le> size
      then (let new_size = max (pb_size p * 2) (bpos p + size + 8) in
            if \<not> mem new_size then Inr (-1, p)
            else rbind (pb_store (p\<lparr>buf := take (nat new_size) (buf p)
                                          @ replicate (nat new_size - length (buf p)) None,
                                    pb_size := new_size\<rparr>) s)
                   (\<lambda>p'. Inr (size, p')))
      else rbind (pb_store p s) (\<lambda>p'. Inr (size, p')))"

text \<open>
  \<open>sprintbuf\<close> on the text its format and arguments expand to (\<open>vsnprintf\<close> and \<open>vasprintf\<close> are the C
  library's): a text that does not fit the stack buffer of 128 bytes is formatted again into a block
  of its own.
\<close>

definition sprintbuf :: "(int \<Rightarrow> bool) \<Rightarrow> printbuf \<Rightarrow> char list \<Rightarrow> (int \<times> printbuf) res" where
  "sprintbuf mem p t =
     (if int (length t) > 127
      then (if \<not> mem (int (length t) + 1) then Inr (-1, p) else printbuf_memappend mem p t)
      else printbuf_memappend mem p t)"

definition printbuf_reset :: "printbuf \<Rightarrow> printbuf res" where
  "printbuf_reset p = rbind (aset (buf p) 0 (Some NUL)) (\<lambda>b. Inr (p\<lparr>buf := b, bpos := 0\<rparr>))"

section \<open>Invariant and text\<close>

definition pb_inv :: "printbuf \<Rightarrow> bool" where
  "pb_inv p \<longleftrightarrow> int (length (buf p)) = pb_size p \<and> 0 \<le> bpos p \<and> bpos p < pb_size p
     \<and> (\<forall>i < nat (bpos p). buf p ! i \<noteq> None)"

definition pb_terminated :: "printbuf \<Rightarrow> bool" where
  "pb_terminated p \<longleftrightarrow> buf p ! nat (bpos p) = Some NUL"

definition pb_text :: "printbuf \<Rightarrow> char list" where
  "pb_text p = map the (take (nat (bpos p)) (buf p))"

lemma printbuf_new_inv: "printbuf_new mem = Some p \<Longrightarrow> pb_inv p \<and> pb_text p = []"
  by (auto simp: printbuf_new_def pb_inv_def pb_text_def split: if_splits)

lemma pb_text_Some: "pb_inv p \<Longrightarrow> take (nat (bpos p)) (buf p) = map Some (pb_text p)"
  by (rule nth_equalityI) (auto simp: pb_inv_def pb_text_def)

lemma length_pb_text: "pb_inv p \<Longrightarrow> int (length (pb_text p)) = bpos p"
  by (auto simp: pb_inv_def pb_text_def)

text \<open>The block, cut at the position of the \<open>NUL\<close>.\<close>

lemma pb_buf_split:
  assumes "pb_inv p" "pb_terminated p"
  shows "buf p = map Some (pb_text p) @ Some NUL # drop (Suc (nat (bpos p))) (buf p)"
proof -
  have "nat (bpos p) < length (buf p)" using assms(1) by (auto simp: pb_inv_def)
  then have "buf p = take (nat (bpos p)) (buf p) @ buf p ! nat (bpos p) # drop (Suc (nat (bpos p))) (buf p)"
    by (rule id_take_nth_drop)
  with assms show ?thesis by (simp add: pb_text_Some pb_terminated_def)
qed

lemma cstr_pb:
  "pb_inv p \<Longrightarrow> pb_terminated p \<Longrightarrow> cstr (buf p) = Inr (takeWhile (\<lambda>c. c \<noteq> NUL) (pb_text p))"
  by (subst pb_buf_split) (simp_all add: cstr_terminated)

lemma pb_store_spec:
  assumes inv: "pb_inv p" and room: "bpos p + int (length s) < pb_size p"
  shows "\<exists>p'. pb_store p s = Inr p' \<and> pb_inv p' \<and> pb_terminated p' \<and> pb_text p' = pb_text p @ s
           \<and> pb_size p' = pb_size p"
proof -
  let ?n = "nat (bpos p) + length s"
  let ?b = "blit (buf p) (nat (bpos p)) (map Some s)"
  let ?p = "p\<lparr>buf := ?b[?n := Some NUL], bpos := bpos p + int (length s)\<rparr>"
  have nat: "nat (bpos p + int (length s)) = ?n" and lt: "?n < length (buf p)"
    using inv room by (auto simp: pb_inv_def)
  have len: "length ?b = length (buf p)" using lt by simp
  have take: "take ?n (?b[?n := Some NUL]) = map Some (pb_text p @ s)"
    using take_blit [of "nat (bpos p)" "map Some s" "buf p"] lt inv by (simp add: pb_text_Some)
  have "pb_store p s = Inr ?p"
    using inv room len nat by (simp add: pb_store_def aset_def pb_inv_def)
  moreover have "pb_text ?p = pb_text p @ s"
    by (simp add: pb_text_def [of ?p] nat take o_def del: map_append)
  moreover have "?b[?n := Some NUL] ! i \<noteq> None" if "i < ?n" for i
  proof -
    have "?b[?n := Some NUL] ! i = take ?n (?b[?n := Some NUL]) ! i" using that by simp
    also have "\<dots> = Some ((pb_text p @ s) ! i)"
      unfolding take using that length_pb_text [OF inv] by (intro nth_map) simp
    finally show ?thesis by simp
  qed
  then have "pb_inv ?p"
    using inv room nat len by (simp add: pb_inv_def)
  moreover have "pb_terminated ?p" using nat len lt by (simp add: pb_terminated_def)
  ultimately show ?thesis by force
qed

lemma grow_inv:
  assumes "pb_inv p" "pb_size p \<le> n"
  defines "p' \<equiv> p\<lparr>buf := take (nat n) (buf p) @ replicate (nat n - length (buf p)) None, pb_size := n\<rparr>"
  shows "pb_inv p' \<and> pb_text p' = pb_text p \<and> bpos p' = bpos p"
  using assms by (auto simp: pb_inv_def pb_text_def nth_append)

lemma memappend_spec:
  assumes inv: "pb_inv p" and mem: "mem = (\<lambda>_. True)"
  shows "\<exists>p'. printbuf_memappend mem p s = Inr (int (length s), p')
           \<and> pb_inv p' \<and> pb_terminated p' \<and> pb_text p' = pb_text p @ s"
proof (cases "pb_size p - bpos p \<le> int (length s)")
  case False
  then show ?thesis
    using pb_store_spec [OF inv, of s] by (auto simp: printbuf_memappend_def)
next
  case True
  let ?n = "max (pb_size p * 2) (bpos p + int (length s) + 8)"
  let ?p = "p\<lparr>buf := take (nat ?n) (buf p) @ replicate (nat ?n - length (buf p)) None, pb_size := ?n\<rparr>"
  have "pb_size p \<le> ?n" using inv by (auto simp: pb_inv_def)
  then have g: "pb_inv ?p" "pb_text ?p = pb_text p" using grow_inv [OF inv] by blast+
  moreover have "bpos ?p + int (length s) < pb_size ?p" by simp
  ultimately obtain p' where "pb_store ?p s = Inr p'" "pb_inv p'" "pb_terminated p'"
      "pb_text p' = pb_text p @ s"
    using pb_store_spec [of ?p s] by auto
  with True mem show ?thesis by (simp add: printbuf_memappend_def)
qed

text \<open>When the allocator refuses, the buffer is as it was and the caller is told.\<close>

lemma memappend_refused:
  assumes inv: "pb_inv p" and no: "\<not> mem (max (pb_size p * 2) (bpos p + int (length s) + 8))"
  shows "(\<exists>p'. printbuf_memappend mem p s = Inr (int (length s), p')
             \<and> pb_inv p' \<and> pb_text p' = pb_text p @ s)
         \<or> printbuf_memappend mem p s = Inr (-1, p)"
proof (cases "pb_size p - bpos p \<le> int (length s)")
  case True
  with no show ?thesis by (simp add: printbuf_memappend_def)
next
  case False
  then show ?thesis
    using pb_store_spec [OF inv, of s] by (auto simp: printbuf_memappend_def)
qed

lemma sprintbuf_spec:
  assumes "pb_inv p" "mem = (\<lambda>_. True)"
  shows "\<exists>p'. sprintbuf mem p s = Inr (int (length s), p')
           \<and> pb_inv p' \<and> pb_terminated p' \<and> pb_text p' = pb_text p @ s"
  using memappend_spec [OF assms, of s] assms(2) by (simp add: sprintbuf_def)

lemma reset_spec:
  "pb_inv p \<Longrightarrow> \<exists>p'. printbuf_reset p = Inr p' \<and> pb_inv p' \<and> pb_terminated p' \<and> pb_text p' = []"
  by (cases "buf p") (auto simp: printbuf_reset_def aset_def pb_inv_def pb_terminated_def pb_text_def)

section \<open>The contract of a text sink\<close>

text \<open>What a writer relies on: a text goes to the end, and its length comes back.\<close>

fun put_all :: "('s \<Rightarrow> char list \<Rightarrow> (int \<times> 's) res) \<Rightarrow> 's \<Rightarrow> char list list \<Rightarrow> 's res" where
  "put_all put s [] = Inr s"
| "put_all put s (t # ts) = rbind (put s t) (\<lambda>(n, s'). put_all put s' ts)"

locale text_sink =
  fixes put :: "'s \<Rightarrow> char list \<Rightarrow> (int \<times> 's) res"
    and contents :: "'s \<Rightarrow> char list"
    and inv :: "'s \<Rightarrow> bool"
    and closed :: "'s \<Rightarrow> bool"
  assumes put_spec:
    "inv s \<Longrightarrow> \<exists>s'. put s t = Inr (int (length t), s') \<and> inv s' \<and> closed s' \<and> contents s' = contents s @ t"
begin

lemma put_all_spec:
  "inv s \<Longrightarrow> \<exists>s'. put_all put s ts = Inr s' \<and> inv s' \<and> (closed s \<or> ts \<noteq> [] \<longrightarrow> closed s')
      \<and> contents s' = contents s @ concat ts"
proof (induction ts arbitrary: s)
  case Nil
  then show ?case by simp
next
  case (Cons t ts)
  obtain s1 where s1: "put s t = Inr (int (length t), s1)" "inv s1" "closed s1" "contents s1 = contents s @ t"
    using put_spec [OF Cons.prems] by blast
  with Cons.IH [OF s1(2)] show ?case by auto
qed

end

interpretation pb: text_sink "printbuf_memappend (\<lambda>_. True)" pb_text pb_inv pb_terminated
  by unfold_locales (rule memappend_spec, simp_all)

interpretation spb: text_sink "sprintbuf (\<lambda>_. True)" pb_text pb_inv pb_terminated
  by unfold_locales (rule sprintbuf_spec, simp_all)

text \<open>
  Appending any non-empty sequence of pieces to a new print buffer never fails, leaves the buffer
  NUL-terminated inside its allocation, and reading it as a C string gives the concatenation up to
  its first NUL.
\<close>

theorem printbuf_reads_back:
  assumes "printbuf_new (\<lambda>_. True) = Some p" and "ts \<noteq> []"
  shows "\<exists>p'. put_all (printbuf_memappend (\<lambda>_. True)) p ts = Inr p'
           \<and> cstr (buf p') = Inr (takeWhile (\<lambda>c. c \<noteq> NUL) (concat ts))
           \<and> bpos p' = int (length (concat ts)) \<and> bpos p' < pb_size p'"
proof -
  have p: "pb_inv p" "pb_text p = []" using printbuf_new_inv [OF assms(1)] by simp_all
  obtain p' where p': "put_all (printbuf_memappend (\<lambda>_. True)) p ts = Inr p'" "pb_inv p'"
      "pb_terminated p'" "pb_text p' = concat ts"
    using pb.put_all_spec [OF p(1), of ts] p(2) assms(2) by auto
  then show ?thesis
    using cstr_pb [OF p'(2,3)] length_pb_text [OF p'(2)] by (simp add: pb_inv_def)
qed

theorem printbuf_reads_back_witness:
  "\<exists>p'. put_all (printbuf_memappend (\<lambda>_. True)) \<lparr>buf = replicate 32 None, bpos = 0, pb_size = 32\<rparr>
          [''ab'', ''c''] = Inr p' \<and> cstr (buf p') = Inr ''abc''"
  using printbuf_reads_back [of "\<lparr>buf = replicate 32 None, bpos = 0, pb_size = 32\<rparr>" "[''ab'', ''c'']"]
  by (auto simp: printbuf_new_def)

text \<open>A buffer nothing was written to has no string in it.\<close>

lemma printbuf_new_unterminated: "printbuf_new mem = Some p \<Longrightarrow> cstr (buf p) = Inl Uninitialised"
  by (auto simp: printbuf_new_def numeral_eq_Suc split: if_splits)

end
