(* ===== verification/Link_Hash.thy ===== *)
theory Link_Hash
  imports GB_Prelude
begin

unbundle bit_operations_syntax

text \<open>
  The linked hash table of \<open>texteditor/json/linkhash.c\<close>: open addressing with linear probing in an array of
  entries, the live entries linked in insertion order. A pointer to an entry is its index in the
  array. A key slot is empty, freed (a tombstone) or holds a key; the value is \<open>None\<close> for \<open>NULL\<close>.
  \<open>hash_fn\<close> and \<open>equal_fn\<close> are the function pointers of the table; of \<open>free_fn\<close> the table keeps whether
  there is one, and an operation returns the entries it was called on.
\<close>

datatype 'k slot = LH_EMPTY | LH_FREED | Live 'k

record ('k, 'v) lh_entry =
  lh_k :: "'k slot"
  lh_v :: "'v option"
  lh_next :: "nat option"
  lh_prev :: "nat option"

record ('k, 'v) lh_table =
  lh_size :: int
  lh_count :: int
  lh_collisions :: int
  lh_resizes :: int
  lh_lookups :: int
  lh_inserts :: int
  lh_deletes :: int
  lh_head :: "nat option"
  lh_tail :: "nat option"
  lh_tab :: "('k, 'v) lh_entry list"
  lh_free_fn :: bool
  lh_hash_fn :: "'k \<Rightarrow> 64 word"
  lh_equal_fn :: "'k \<Rightarrow> 'k \<Rightarrow> bool"

section \<open>Hash functions\<close>

definition LH_PRIME :: "64 word" where "LH_PRIME = 0x9e370001"

definition lh_ptr_hash :: "64 word \<Rightarrow> 64 word" where
  "lh_ptr_hash k = drop_bit 4 (k * LH_PRIME)"

definition lh_ptr_equal :: "64 word \<Rightarrow> 64 word \<Rightarrow> bool" where
  "lh_ptr_equal k1 k2 \<longleftrightarrow> k1 = k2"

text \<open>
  \<open>(unsigned int)(*data++)\<close>: \<open>char\<close> is signed on the platforms of the build, so a byte from 128 on is
  sign-extended. The sum is taken in 32 bits: adding the 64-bit prime and storing into the
  \<open>unsigned int h\<close> keeps the low half.
\<close>

definition char_to_uint :: "char \<Rightarrow> 32 word" where
  "char_to_uint c = word_of_int (if of_char c \<ge> (128::int) then of_char c - 256 else of_char c)"

fun char_hash_loop :: "32 word \<Rightarrow> char list \<Rightarrow> 32 word" where
  "char_hash_loop h [] = h"
| "char_hash_loop h (c # cs) = char_hash_loop (ucast (ucast (h * 129 + char_to_uint c) + LH_PRIME)) cs"

definition lh_char_hash :: "char list \<Rightarrow> 64 word" where
  "lh_char_hash k = ucast (char_hash_loop 0 k)"

text \<open>\<open>strcmp(k1, k2) == 0\<close> on two C strings, given by their bytes before the \<open>NUL\<close>.\<close>

definition lh_char_equal :: "char list \<Rightarrow> char list \<Rightarrow> bool" where
  "lh_char_equal k1 k2 \<longleftrightarrow> k1 = k2"

section \<open>Construction\<close>

definition empty_entry :: "('k, 'v) lh_entry" where
  "empty_entry = \<lparr>lh_k = LH_EMPTY, lh_v = None, lh_next = None, lh_prev = None\<rparr>"

definition lh_table_new ::
  "int \<Rightarrow> bool \<Rightarrow> ('k \<Rightarrow> 64 word) \<Rightarrow> ('k \<Rightarrow> 'k \<Rightarrow> bool) \<Rightarrow> ('k, 'v) lh_table" where
  "lh_table_new sz free_fn hash_fn equal_fn =
     \<lparr>lh_size = sz, lh_count = 0, lh_collisions = 0, lh_resizes = 0, lh_lookups = 0, lh_inserts = 0,
      lh_deletes = 0, lh_head = None, lh_tail = None, lh_tab = replicate (nat sz) empty_entry,
      lh_free_fn = free_fn, lh_hash_fn = hash_fn, lh_equal_fn = equal_fn\<rparr>"

definition lh_kchar_table_new :: "int \<Rightarrow> bool \<Rightarrow> (char list, 'v) lh_table" where
  "lh_kchar_table_new sz free_fn = lh_table_new sz free_fn lh_char_hash lh_char_equal"

definition lh_kptr_table_new :: "int \<Rightarrow> bool \<Rightarrow> (64 word, 'v) lh_table" where
  "lh_kptr_table_new sz free_fn = lh_table_new sz free_fn lh_ptr_hash lh_ptr_equal"

section \<open>Probing\<close>

text \<open>The next slot: \<open>if(++n == t->size) n = 0\<close>.\<close>

definition next_slot :: "nat \<Rightarrow> nat \<Rightarrow> nat" where
  "next_slot sz n = (if Suc n = sz then 0 else Suc n)"

definition home_slot :: "('k, 'v) lh_table \<Rightarrow> 'k \<Rightarrow> nat" where
  "home_slot t k = unat (lh_hash_fn t k) mod nat (lh_size t)"

text \<open>The loop of \<open>lh_table_insert\<close>: the first slot without a key, and the collision counter.\<close>

partial_function (option) find_free ::
  "('k, 'v) lh_entry list \<Rightarrow> nat \<Rightarrow> nat \<Rightarrow> int \<Rightarrow> (nat \<times> int) run" where [code]:
  "find_free tab sz n coll =
     (if \<not> n < length tab then Some (Inl Out_Of_Bounds)
      else if lh_k (tab ! n) = LH_EMPTY \<or> lh_k (tab ! n) = LH_FREED then Some (Inr (n, coll))
      else find_free tab sz (next_slot sz n) (coll + 1))"

text \<open>The loop of \<open>lh_table_lookup_entry\<close>.\<close>

definition key_matches :: "('k \<Rightarrow> 'k \<Rightarrow> bool) \<Rightarrow> 'k slot \<Rightarrow> 'k \<Rightarrow> bool" where
  "key_matches eq s k = (case s of Live k' \<Rightarrow> eq k' k | _ \<Rightarrow> False)"

partial_function (option) find_key ::
  "('k \<Rightarrow> 'k \<Rightarrow> bool) \<Rightarrow> ('k, 'v) lh_entry list \<Rightarrow> nat \<Rightarrow> 'k \<Rightarrow> nat \<Rightarrow> nat option run" where [code]:
  "find_key eq tab sz k n =
     (if \<not> n < length tab then Some (Inl Out_Of_Bounds)
      else if lh_k (tab ! n) = LH_EMPTY then Some (Inr None)
      else if key_matches eq (lh_k (tab ! n)) k then Some (Inr (Some n))
      else find_key eq tab sz k (next_slot sz n))"

section \<open>Operations\<close>

text \<open>
  \<open>t->count > t->size * 0.66\<close>, in \<open>double\<close>: the product is either an integer exactly (\<open>size\<close> a multiple
  of 50) or at least 0.02 away from any, far more than the rounding error, so the comparison is the
  rational one.
\<close>

definition over_load :: "('k, 'v) lh_table \<Rightarrow> bool" where
  "over_load t \<longleftrightarrow> lh_count t * 100 > lh_size t * 66"

text \<open>\<open>lh_table_insert\<close> after its resize: probe, store, link at the tail.\<close>

definition link_tail :: "('k, 'v) lh_table \<Rightarrow> nat \<Rightarrow> ('k, 'v) lh_table res" where
  "link_tail t n =
     (case lh_head t of
        None \<Rightarrow> Inr (t\<lparr>lh_head := Some n, lh_tail := Some n,
                       lh_tab := (lh_tab t)[n := (lh_tab t ! n)\<lparr>lh_next := None, lh_prev := None\<rparr>]\<rparr>)
      | Some h \<Rightarrow>
          (case lh_tail t of
             None \<Rightarrow> Inl Null_Deref
           | Some l \<Rightarrow>
               let tab1 = (lh_tab t)[l := (lh_tab t ! l)\<lparr>lh_next := Some n\<rparr>];
                   tab2 = tab1[n := (tab1 ! n)\<lparr>lh_prev := Some l, lh_next := None\<rparr>]
               in Inr (t\<lparr>lh_tab := tab2, lh_tail := Some n\<rparr>)))"

definition insert_probed :: "('k, 'v) lh_table \<Rightarrow> 'k \<Rightarrow> 'v option \<Rightarrow> ('k, 'v) lh_table run" where
  "insert_probed t k v =
     (if lh_size t = 0 then Some (Inl Div_By_Zero)
      else ubind (find_free (lh_tab t) (nat (lh_size t)) (home_slot t k) (lh_collisions t)) (\<lambda>(n, coll).
        let t1 = t\<lparr>lh_collisions := coll,
                   lh_tab := (lh_tab t)[n := (lh_tab t ! n)\<lparr>lh_k := Live k, lh_v := v\<rparr>],
                   lh_count := lh_count t + 1\<rparr>
        in Some (link_tail t1 n)))"

text \<open>
  Insertion and resizing call each other: a full table is copied into a new one by insertions. The
  first argument is fuel; every call and every turn of the copying loop spends one unit.
\<close>

fun lh_table_insert :: "nat \<Rightarrow> ('k, 'v) lh_table \<Rightarrow> 'k \<Rightarrow> 'v option \<Rightarrow> ('k, 'v) lh_table run"
  and lh_table_resize :: "nat \<Rightarrow> ('k, 'v) lh_table \<Rightarrow> int \<Rightarrow> ('k, 'v) lh_table run"
  and resize_loop ::
    "nat \<Rightarrow> ('k, 'v) lh_table \<Rightarrow> ('k, 'v) lh_table \<Rightarrow> nat option \<Rightarrow> ('k, 'v) lh_table run" where
  "lh_table_insert 0 t k v = None"
| "lh_table_insert (Suc f) t k v =
     (let t0 = t\<lparr>lh_inserts := lh_inserts t + 1\<rparr> in
      ubind (if over_load t0 then lh_table_resize f t0 (lh_size t0 * 2) else Some (Inr t0)) (\<lambda>t1.
        insert_probed t1 k v))"
| "lh_table_resize 0 t new_size = None"
| "lh_table_resize (Suc f) t new_size =
     ubind (resize_loop f t (lh_table_new new_size False (lh_hash_fn t) (lh_equal_fn t)) (lh_head t)) (\<lambda>new_t.
       Some (Inr (t\<lparr>lh_tab := lh_tab new_t, lh_size := new_size, lh_head := lh_head new_t,
                    lh_tail := lh_tail new_t, lh_resizes := lh_resizes t + 1\<rparr>)))"
| "resize_loop 0 t new_t ent = None"
| "resize_loop (Suc f) t new_t None = Some (Inr new_t)"
| "resize_loop (Suc f) t new_t (Some n) =
     (if \<not> n < length (lh_tab t) then Some (Inl Out_Of_Bounds)
      else case lh_k (lh_tab t ! n) of
        Live k \<Rightarrow> ubind (lh_table_insert f new_t k (lh_v (lh_tab t ! n))) (\<lambda>new_t'.
                   resize_loop f t new_t' (lh_next (lh_tab t ! n)))
      | _ \<Rightarrow> Some (Inl Wild_Pointer))"

definition lh_table_lookup_entry :: "('k, 'v) lh_table \<Rightarrow> 'k \<Rightarrow> (nat option \<times> ('k, 'v) lh_table) run" where
  "lh_table_lookup_entry t k =
     (if lh_size t = 0 then Some (Inl Div_By_Zero)
      else let t1 = t\<lparr>lh_lookups := lh_lookups t + 1\<rparr> in
        ubind (find_key (lh_equal_fn t) (lh_tab t) (nat (lh_size t)) k (home_slot t k)) (\<lambda>r. Some (Inr (r, t1))))"

definition lh_table_lookup :: "('k, 'v) lh_table \<Rightarrow> 'k \<Rightarrow> ('v option \<times> ('k, 'v) lh_table) run" where
  "lh_table_lookup t k =
     ubind (lh_table_lookup_entry t k) (\<lambda>(e, t1).
       Some (Inr (case e of Some n \<Rightarrow> lh_v (lh_tab t1 ! n) | None \<Rightarrow> None, t1)))"

text \<open>
  \<open>lh_table_delete_entry\<close>: the entry is given by its distance from the start of the array. The result
  is the return code, the entries \<open>free_fn\<close> was called on, and the table.
\<close>

definition unlink :: "('k, 'v) lh_table \<Rightarrow> nat \<Rightarrow> ('k, 'v) lh_table res" where
  "unlink t n =
     (if lh_tail t = Some n \<and> lh_head t = Some n then Inr (t\<lparr>lh_head := None, lh_tail := None\<rparr>)
      else if lh_head t = Some n then
        (case lh_next (lh_tab t ! n) of
           None \<Rightarrow> Inl Null_Deref
         | Some x \<Rightarrow> Inr (t\<lparr>lh_tab := (lh_tab t)[x := (lh_tab t ! x)\<lparr>lh_prev := None\<rparr>], lh_head := Some x\<rparr>))
      else if lh_tail t = Some n then
        (case lh_prev (lh_tab t ! n) of
           None \<Rightarrow> Inl Null_Deref
         | Some p \<Rightarrow> Inr (t\<lparr>lh_tab := (lh_tab t)[p := (lh_tab t ! p)\<lparr>lh_next := None\<rparr>], lh_tail := Some p\<rparr>))
      else
        (case (lh_prev (lh_tab t ! n), lh_next (lh_tab t ! n)) of
           (Some p, Some x) \<Rightarrow>
             let tab1 = (lh_tab t)[p := (lh_tab t ! p)\<lparr>lh_next := Some x\<rparr>]
             in Inr (t\<lparr>lh_tab := tab1[x := (tab1 ! x)\<lparr>lh_prev := Some p\<rparr>]\<rparr>)
         | _ \<Rightarrow> Inl Null_Deref))"

definition lh_table_delete_entry ::
  "('k, 'v) lh_table \<Rightarrow> int \<Rightarrow> (int \<times> ('k \<times> 'v option) list \<times> ('k, 'v) lh_table) res" where
  "lh_table_delete_entry t n =
     (if n < 0 then Inr (-2, [], t)
      else rbind (aget (lh_tab t) n) (\<lambda>e.
        case lh_k e of
          Live k \<Rightarrow>
            (let t1 = t\<lparr>lh_count := lh_count t - 1,
                        lh_tab := (lh_tab t)[nat n := e\<lparr>lh_v := None, lh_k := LH_FREED\<rparr>]\<rparr> in
             rbind (unlink t1 (nat n)) (\<lambda>t2.
               Inr (0, if lh_free_fn t then [(k, lh_v e)] else [],
                    t2\<lparr>lh_tab := (lh_tab t2)[nat n := (lh_tab t2 ! nat n)\<lparr>lh_next := None, lh_prev := None\<rparr>]\<rparr>)))
        | _ \<Rightarrow> Inr (-1, [], t)))"

definition lh_table_delete ::
  "('k, 'v) lh_table \<Rightarrow> 'k \<Rightarrow> (int \<times> ('k \<times> 'v option) list \<times> ('k, 'v) lh_table) run" where
  "lh_table_delete t k =
     ubind (lh_table_lookup_entry t k) (\<lambda>(e, t1).
       case e of None \<Rightarrow> Some (Inr (-1, [], t1)) | Some n \<Rightarrow> Some (lh_table_delete_entry t1 (int n)))"

text \<open>
  The walk along \<open>next\<close> (\<open>lh_foreach\<close>, and the loop of \<open>lh_table_free\<close>): the entries met, in order. The
  fuel is the number of entries plus one; a chain that is longer has a cycle.
\<close>

fun lh_walk :: "nat \<Rightarrow> ('k, 'v) lh_entry list \<Rightarrow> nat option \<Rightarrow> ('k \<times> 'v option) list run" where
  "lh_walk 0 tab ent = None"
| "lh_walk (Suc f) tab None = Some (Inr [])"
| "lh_walk (Suc f) tab (Some n) =
     (if \<not> n < length tab then Some (Inl Out_Of_Bounds)
      else case lh_k (tab ! n) of
        Live k \<Rightarrow> ubind (lh_walk f tab (lh_next (tab ! n))) (\<lambda>r. Some (Inr ((k, lh_v (tab ! n)) # r)))
      | _ \<Rightarrow> Some (Inl Wild_Pointer))"

definition lh_foreach :: "('k, 'v) lh_table \<Rightarrow> ('k \<times> 'v option) list run" where
  "lh_foreach t = lh_walk (Suc (length (lh_tab t))) (lh_tab t) (lh_head t)"

definition lh_table_free :: "('k, 'v) lh_table \<Rightarrow> ('k \<times> 'v option) list run" where
  "lh_table_free t = ubind (lh_foreach t) (\<lambda>es. Some (Inr (if lh_free_fn t then es else [])))"

end
