(* ===== verification/Link_Hash_Inv.thy ===== *)
theory Link_Hash_Inv
  imports Link_Hash
begin

text \<open>
  The invariant of the hash table of \<open>Link_Hash\<close> and what each operation does to the association list
  it stands for: the chain of live entries in insertion order.
\<close>

section \<open>The chain of live entries\<close>

text \<open>\<open>seg tab p ns x\<close>: the slots \<open>ns\<close> are linked both ways, from predecessor \<open>p\<close> to successor \<open>x\<close>.\<close>

fun seg :: "('k, 'v) lh_entry list \<Rightarrow> nat option \<Rightarrow> nat list \<Rightarrow> nat option \<Rightarrow> bool" where
  "seg tab p [] x = True"
| "seg tab p (n # ns) x \<longleftrightarrow>
     lh_prev (tab ! n) = p \<and> lh_next (tab ! n) = (if ns = [] then x else Some (hd ns)) \<and> seg tab (Some n) ns x"

definition first_of :: "nat list \<Rightarrow> nat option" where
  "first_of ns = (if ns = [] then None else Some (hd ns))"

definition last_of :: "nat list \<Rightarrow> nat option" where
  "last_of ns = (if ns = [] then None else Some (last ns))"

lemma first_of_simps [simp]: "first_of [] = None" "first_of (n # ns) = Some n"
  by (simp_all add: first_of_def)

lemma last_of_simps [simp]: "last_of [] = None" "last_of (ns @ [n]) = Some n"
  by (simp_all add: last_of_def)

lemma seg_append:
  "seg tab p (xs @ ys) x \<longleftrightarrow>
     seg tab p xs (if ys = [] then x else Some (hd ys)) \<and> seg tab (if xs = [] then p else Some (last xs)) ys x"
  by (induction xs arbitrary: p) auto

lemma seg_update_other: "n \<notin> set ns \<Longrightarrow> seg (tab[n := e]) p ns x = seg tab p ns x"
  by (induction ns arbitrary: p) auto

lemma seg_update_same_links:
  "lh_next e = lh_next (tab ! n) \<Longrightarrow> lh_prev e = lh_prev (tab ! n) \<Longrightarrow>
   seg (tab[n := e]) p ns x = seg tab p ns x"
proof (induction ns arbitrary: p)
  case Nil
  then show ?case by simp
next
  case (Cons m ns)
  then show ?case by (cases "n < length tab") (auto simp: nth_list_update list_update_beyond)
qed

lemma seg_set_last_next:
  "seg tab p (xs @ [l]) x \<Longrightarrow> l \<notin> set xs \<Longrightarrow> l < length tab \<Longrightarrow>
   seg (tab[l := (tab ! l)\<lparr>lh_next := y\<rparr>]) p (xs @ [l]) y"
  by (auto simp: seg_append seg_update_other)

lemma seg_set_first_prev:
  "seg tab p (f # xs) x \<Longrightarrow> f \<notin> set xs \<Longrightarrow> f < length tab \<Longrightarrow>
   seg (tab[f := (tab ! f)\<lparr>lh_prev := q\<rparr>]) q (f # xs) x"
  by (auto simp: seg_update_other)

section \<open>The invariant\<close>

definition is_live :: "('k, 'v) lh_entry \<Rightarrow> bool" where
  "is_live e \<longleftrightarrow> (case lh_k e of Live k \<Rightarrow> True | _ \<Rightarrow> False)"

definition key_of :: "('k, 'v) lh_entry \<Rightarrow> 'k" where
  "key_of e = (case lh_k e of Live k \<Rightarrow> k)"

lemma is_live_iff: "is_live e \<longleftrightarrow> (\<exists>k. lh_k e = Live k)"
  by (simp add: is_live_def split: slot.split)

lemma key_of_Live: "lh_k e = Live k \<Longrightarrow> key_of e = k"
  by (simp add: key_of_def)

text \<open>
  \<open>probes\<close>: on the way of a key from its home slot to the slot \<open>n\<close> where it lies there is no empty
  slot, so a search for it does not stop early.
\<close>

definition probes :: "('k, 'v) lh_entry list \<Rightarrow> nat \<Rightarrow> nat \<Rightarrow> bool" where
  "probes tab h n \<longleftrightarrow> (\<exists>d < length tab. n = (h + d) mod length tab
     \<and> (\<forall>e < d. lh_k (tab ! ((h + e) mod length tab)) \<noteq> LH_EMPTY))"

definition lh_inv :: "('k, 'v) lh_table \<Rightarrow> nat list \<Rightarrow> bool" where
  "lh_inv t ord \<longleftrightarrow> 0 < lh_size t \<and> int (length (lh_tab t)) = lh_size t
     \<and> distinct ord \<and> set ord = {n. n < length (lh_tab t) \<and> is_live (lh_tab t ! n)}
     \<and> lh_count t = int (length ord)
     \<and> lh_head t = first_of ord \<and> lh_tail t = last_of ord \<and> seg (lh_tab t) None ord None
     \<and> lh_equal_fn t = (=)
     \<and> (\<forall>n \<in> set ord. probes (lh_tab t) (home_slot t (key_of (lh_tab t ! n))) n)"

definition lh_items :: "('k, 'v) lh_table \<Rightarrow> nat list \<Rightarrow> ('k \<times> 'v option) list" where
  "lh_items t ord = map (\<lambda>n. (key_of (lh_tab t ! n), lh_v (lh_tab t ! n))) ord"

definition has_empty :: "('k, 'v) lh_table \<Rightarrow> bool" where
  "has_empty t \<longleftrightarrow> (\<exists>n < length (lh_tab t). lh_k (lh_tab t ! n) = LH_EMPTY)"

text \<open>What the operations leave alone: the table's functions, and (but for a resize) its size.\<close>

definition same_fns :: "('k, 'v) lh_table \<Rightarrow> ('k, 'v) lh_table \<Rightarrow> bool" where
  "same_fns t t' \<longleftrightarrow> lh_free_fn t' = lh_free_fn t \<and> lh_hash_fn t' = lh_hash_fn t \<and> lh_equal_fn t' = lh_equal_fn t"

lemma same_fns_refl: "same_fns t t"
  by (simp add: same_fns_def)

lemma same_fns_trans: "same_fns t u \<Longrightarrow> same_fns u w \<Longrightarrow> same_fns t w"
  by (simp add: same_fns_def)

lemma lh_inv_size: "lh_inv t ord \<Longrightarrow> nat (lh_size t) = length (lh_tab t) \<and> 0 < length (lh_tab t)"
  by (auto simp: lh_inv_def)

lemma lh_inv_bound: "lh_inv t ord \<Longrightarrow> n \<in> set ord \<Longrightarrow> n < length (lh_tab t)"
  by (auto simp: lh_inv_def)

lemma home_slot_bound: "lh_inv t ord \<Longrightarrow> home_slot t k < length (lh_tab t)"
  using lh_inv_size [of t ord] by (simp add: home_slot_def)

lemma lh_table_new_inv:
  "0 < sz \<Longrightarrow> eq = (=) \<Longrightarrow> lh_inv (lh_table_new sz ff hf eq) [] \<and> lh_items (lh_table_new sz ff hf eq) [] = []
     \<and> has_empty (lh_table_new sz ff hf eq)"
  by (auto simp: lh_inv_def lh_table_new_def lh_items_def has_empty_def empty_entry_def is_live_def
      intro: exI [of _ 0])

lemma lh_char_equal_eq: "lh_char_equal = (=)"
  by (simp add: fun_eq_iff lh_char_equal_def)

lemma lh_ptr_equal_eq: "lh_ptr_equal = (=)"
  by (simp add: fun_eq_iff lh_ptr_equal_def)

section \<open>Probing\<close>

lemma next_slot_mod: "n < sz \<Longrightarrow> next_slot sz n = Suc n mod sz"
  by (auto simp: next_slot_def)

lemma probe_shift: "(Suc n mod sz + d) mod sz = (n + Suc d) mod sz"
  by (simp add: mod_add_left_eq)

lemma find_free_at:
  assumes "n < length tab" "sz = length tab"
    and "\<And>e. e < d \<Longrightarrow> is_live (tab ! ((n + e) mod sz))"
    and "\<not> is_live (tab ! ((n + d) mod sz))"
  shows "find_free tab sz n c = Some (Inr ((n + d) mod sz, c + int d))"
  using assms
proof (induction d arbitrary: n c)
  case 0
  then show ?case
    by (subst find_free.simps) (auto simp: is_live_def split: slot.splits)
next
  case (Suc d)
  have "is_live (tab ! n)" using Suc.prems(1,2) Suc.prems(3) [of 0] by simp
  then have "find_free tab sz n c = find_free tab sz (next_slot sz n) (c + 1)"
    using Suc.prems(1) by (subst find_free.simps) (auto simp: is_live_def)
  moreover have "next_slot sz n = Suc n mod sz" using Suc.prems by (simp add: next_slot_mod)
  moreover have "find_free tab sz (Suc n mod sz) (c + 1)
      = Some (Inr ((Suc n mod sz + d) mod sz, c + 1 + int d))"
  proof (rule Suc.IH)
    show "Suc n mod sz < length tab" using Suc.prems(1,2) by (metis mod_less_divisor gr_zeroI not_less_zero)
    show "is_live (tab ! ((Suc n mod sz + e) mod sz))" if "e < d" for e
      unfolding probe_shift using Suc.prems(3) [of "Suc e"] that by simp
    show "\<not> is_live (tab ! ((Suc n mod sz + d) mod sz))"
      unfolding probe_shift using Suc.prems(4) .
  qed (simp add: Suc.prems)
  ultimately show ?case by (simp add: probe_shift)
qed

lemma find_key_at:
  assumes "n < length tab" "sz = length tab"
    and "\<And>e. e < d \<Longrightarrow> lh_k (tab ! ((n + e) mod sz)) \<noteq> LH_EMPTY \<and> \<not> key_matches eq (lh_k (tab ! ((n + e) mod sz))) k"
    and "lh_k (tab ! ((n + d) mod sz)) = LH_EMPTY \<or> key_matches eq (lh_k (tab ! ((n + d) mod sz))) k"
  shows "find_key eq tab sz k n =
    Some (Inr (if lh_k (tab ! ((n + d) mod sz)) = LH_EMPTY then None else Some ((n + d) mod sz)))"
  using assms
proof (induction d arbitrary: n)
  case 0
  then show ?case by (subst find_key.simps) auto
next
  case (Suc d)
  have "find_key eq tab sz k n = find_key eq tab sz k (next_slot sz n)"
    using Suc.prems(1,2) Suc.prems(3) [of 0] by (subst find_key.simps) auto
  moreover have "next_slot sz n = Suc n mod sz" using Suc.prems by (simp add: next_slot_mod)
  moreover have "find_key eq tab sz k (Suc n mod sz) =
      Some (Inr (if lh_k (tab ! ((Suc n mod sz + d) mod sz)) = LH_EMPTY then None
                 else Some ((Suc n mod sz + d) mod sz)))"
  proof (rule Suc.IH)
    show "Suc n mod sz < length tab" using Suc.prems(1,2) by (metis mod_less_divisor gr_zeroI not_less_zero)
    show "lh_k (tab ! ((Suc n mod sz + e) mod sz)) \<noteq> LH_EMPTY
        \<and> \<not> key_matches eq (lh_k (tab ! ((Suc n mod sz + e) mod sz))) k" if "e < d" for e
      unfolding probe_shift using Suc.prems(3) [of "Suc e"] that by simp
    show "lh_k (tab ! ((Suc n mod sz + d) mod sz)) = LH_EMPTY
        \<or> key_matches eq (lh_k (tab ! ((Suc n mod sz + d) mod sz))) k"
      unfolding probe_shift using Suc.prems(4) .
  qed (simp add: Suc.prems)
  ultimately show ?case by (simp add: probe_shift)
qed

text \<open>A table without an empty slot: a search that finds nothing does not return.\<close>

lemma find_key_diverges:
  assumes "sz = length tab" "n < sz"
    and none: "\<And>m. m < sz \<Longrightarrow> lh_k (tab ! m) \<noteq> LH_EMPTY \<and> \<not> key_matches eq (lh_k (tab ! m)) k"
  shows "find_key eq tab sz k n = None"
proof (cases "find_key eq tab sz k n")
  case None
  then show ?thesis .
next
  case (Some r)
  have "\<not> (eq' = eq \<and> tab' = tab \<and> sz' = sz \<and> k' = k \<and> n' < sz)"
    if "find_key eq' tab' sz' k' n' = Some r'" for eq' tab' sz' k' n' r'
  proof (rule find_key.raw_induct [where P = "\<lambda>eq' tab' sz' k' n' r'.
        \<not> (eq' = eq \<and> tab' = tab \<and> sz' = sz \<and> k' = k \<and> n' < sz)", OF _ that])
    fix f eq' tab' sz' k' n' r'
    assume IH: "\<And>eq' tab' sz' k' n' r'. f eq' tab' sz' k' n' = Some r' \<Longrightarrow>
        \<not> (eq' = eq \<and> tab' = tab \<and> sz' = sz \<and> k' = k \<and> n' < sz)"
      and eqn: "(if \<not> n' < length tab' then Some (Inl Out_Of_Bounds)
        else if lh_k (tab' ! n') = LH_EMPTY then Some (Inr None)
        else if key_matches eq' (lh_k (tab' ! n')) k' then Some (Inr (Some n'))
        else f eq' tab' sz' k' (next_slot sz' n')) = Some r'"
    show "\<not> (eq' = eq \<and> tab' = tab \<and> sz' = sz \<and> k' = k \<and> n' < sz)"
    proof
      assume a: "eq' = eq \<and> tab' = tab \<and> sz' = sz \<and> k' = k \<and> n' < sz"
      then have "f eq tab sz k (next_slot sz n') = Some r'"
        using eqn none [of n'] assms(1) by auto
      moreover have "next_slot sz n' < sz" using a by (auto simp: next_slot_def)
      ultimately show False using IH by blast
    qed
  qed
  from this [OF Some] assms(2) show ?thesis by blast
qed

lemma cyc_reach:
  assumes "n < sz" "m < (sz::nat)"
  shows "\<exists>d < sz. (n + d) mod sz = m"
proof -
  have "(n + (m + sz - n) mod sz) mod sz = (n + (m + sz - n)) mod sz" by (simp add: mod_add_right_eq)
  also have "\<dots> = m" using assms by simp
  finally show ?thesis using assms by (metis mod_less_divisor gr_zeroI not_less_zero)
qed

section \<open>Insertion\<close>

lemma probes_mono:
  assumes "probes tab h n" "length tab' = length tab"
    and "\<And>m. m < length tab \<Longrightarrow> lh_k (tab ! m) \<noteq> LH_EMPTY \<Longrightarrow> lh_k (tab' ! m) \<noteq> LH_EMPTY"
  shows "probes tab' h n"
proof -
  have "0 < length tab" using assms(1) by (auto simp: probes_def)
  then have "(h + e) mod length tab < length tab" for e by simp
  with assms show ?thesis unfolding probes_def by metis
qed

text \<open>There is a slot without a key when there are fewer entries than slots.\<close>

lemma free_slot_exists:
  assumes inv: "lh_inv t ord" and room: "lh_count t < lh_size t"
  shows "\<exists>m < length (lh_tab t). \<not> is_live (lh_tab t ! m)"
proof (rule ccontr)
  assume "\<not> ?thesis"
  then have "set ord = {..< length (lh_tab t)}" using inv by (auto simp: lh_inv_def)
  then have "length ord = length (lh_tab t)"
    using inv by (metis card_lessThan distinct_card lh_inv_def)
  with inv room show False by (simp add: lh_inv_def)
qed

lemma find_free_spec:
  assumes inv: "lh_inv t ord" and room: "lh_count t < lh_size t"
  shows "\<exists>n c. find_free (lh_tab t) (nat (lh_size t)) (home_slot t k) (lh_collisions t) = Some (Inr (n, c))
     \<and> n < length (lh_tab t) \<and> \<not> is_live (lh_tab t ! n)
     \<and> (\<exists>d < length (lh_tab t). n = (home_slot t k + d) mod length (lh_tab t)
          \<and> (\<forall>e < d. is_live (lh_tab t ! ((home_slot t k + e) mod length (lh_tab t)))))"
proof -
  let ?sz = "length (lh_tab t)" and ?h = "home_slot t k"
  let ?P = "\<lambda>d. \<not> is_live (lh_tab t ! ((?h + d) mod ?sz))"
  have h: "?h < ?sz" by (rule home_slot_bound [OF inv])
  obtain m where m: "m < ?sz" "\<not> is_live (lh_tab t ! m)" using free_slot_exists [OF inv room] by blast
  obtain d0 where d0: "d0 < ?sz" "?P d0" using cyc_reach [OF h m(1)] m(2) by metis
  define d where "d = (LEAST d. ?P d)"
  have d: "?P d" "d \<le> d0" unfolding d_def by (rule LeastI, rule d0, rule Least_le, rule d0)
  have before: "is_live (lh_tab t ! ((?h + e) mod ?sz))" if "e < d" for e
    using not_less_Least [of e ?P] that unfolding d_def by blast
  have "find_free (lh_tab t) ?sz ?h (lh_collisions t) = Some (Inr ((?h + d) mod ?sz, lh_collisions t + int d))"
    by (rule find_free_at [OF h refl]) (use before d in auto)
  moreover have "0 < ?sz" using h by linarith
  then have "(?h + d) mod ?sz < ?sz" by simp
  moreover have "d < ?sz" using d0 d by simp
  ultimately show ?thesis using d before lh_inv_size [OF inv] by auto
qed

text \<open>Linking a slot that was just filled.\<close>

lemma link_tail_spec:
  assumes inv: "lh_inv t ord" and n: "n < length (lh_tab t)" "\<not> is_live (lh_tab t ! n)"
    and t1: "t1 = t\<lparr>lh_collisions := c, lh_tab := (lh_tab t)[n := (lh_tab t ! n)\<lparr>lh_k := Live k, lh_v := v\<rparr>],
                    lh_count := lh_count t + 1\<rparr>"
  shows "\<exists>t'. link_tail t1 n = Inr t' \<and> lh_head t' = first_of (ord @ [n]) \<and> lh_tail t' = Some n
     \<and> seg (lh_tab t') None (ord @ [n]) None \<and> length (lh_tab t') = length (lh_tab t)
     \<and> (\<forall>m. lh_k (lh_tab t' ! m) = (if m = n then Live k else lh_k (lh_tab t ! m)))
     \<and> (\<forall>m. lh_v (lh_tab t' ! m) = (if m = n then v else lh_v (lh_tab t ! m)))
     \<and> lh_count t' = lh_count t + 1 \<and> lh_size t' = lh_size t \<and> same_fns t t'"
proof -
  let ?e = "(lh_tab t ! n)\<lparr>lh_k := Live k, lh_v := v\<rparr>"
  have n_ord: "n \<notin> set ord" using inv n by (auto simp: lh_inv_def)
  have seg1: "seg (lh_tab t1) None ord None"
    using inv n_ord unfolding t1 by (simp add: seg_update_other lh_inv_def)
  have tab1: "lh_tab t1 ! m = (if m = n then ?e else lh_tab t ! m)" for m
    using n by (simp add: t1 nth_list_update)
  show ?thesis
  proof (cases "ord = []")
    case True
    then have "lh_head t1 = None" using inv by (simp add: t1 lh_inv_def)
    then show ?thesis
      using True n tab1 by (auto simp: link_tail_def t1 same_fns_def nth_list_update)
  next
    case False
    then obtain xs l where ord: "ord = xs @ [l]" by (metis append_butlast_last_id)
    have l: "l \<notin> set xs" "l \<noteq> n" "l < length (lh_tab t)"
      using inv n_ord ord by (auto simp: lh_inv_def)
    have head: "lh_head t1 = Some (hd ord)" and tail: "lh_tail t1 = Some l"
      using inv False ord by (simp_all add: t1 lh_inv_def first_of_def last_of_def)
    let ?tab1 = "(lh_tab t1)[l := (lh_tab t1 ! l)\<lparr>lh_next := Some n\<rparr>]"
    let ?tab2 = "?tab1[n := (?tab1 ! n)\<lparr>lh_prev := Some l, lh_next := None\<rparr>]"
    have link: "link_tail t1 n = Inr (t1\<lparr>lh_tab := ?tab2, lh_tail := Some n\<rparr>)"
      using head tail by (simp add: link_tail_def Let_def)
    have "seg ?tab1 None ord (Some n)"
      using seg_set_last_next [of "lh_tab t1" None xs l None] seg1 l ord by (simp add: t1)
    then have "seg ?tab2 None (ord @ [n]) None"
      using n_ord n False ord by (simp add: seg_append seg_update_other t1)
    moreover have "lh_k (?tab2 ! m) = (if m = n then Live k else lh_k (lh_tab t ! m))" for m
      using l n tab1 by (simp add: nth_list_update t1)
    moreover have "lh_v (?tab2 ! m) = (if m = n then v else lh_v (lh_tab t ! m))" for m
      using l n tab1 by (simp add: nth_list_update t1)
    ultimately show ?thesis
      using link False head by (simp add: t1 same_fns_def first_of_def)
  qed
qed

lemma insert_probed_spec:
  assumes inv: "lh_inv t ord" and room: "lh_count t < lh_size t"
  shows "\<exists>t' n. insert_probed t k v = Some (Inr t') \<and> lh_inv t' (ord @ [n])
     \<and> lh_items t' (ord @ [n]) = lh_items t ord @ [(k, v)] \<and> lh_size t' = lh_size t \<and> same_fns t t'
     \<and> (\<forall>m. lh_k (lh_tab t' ! m) = (if m = n then Live k else lh_k (lh_tab t ! m)))
     \<and> \<not> is_live (lh_tab t ! n)
     \<and> (\<exists>d < length (lh_tab t). n = (home_slot t k + d) mod length (lh_tab t)
          \<and> (\<forall>e < d. is_live (lh_tab t ! ((home_slot t k + e) mod length (lh_tab t)))))"
proof -
  obtain n c where ff: "find_free (lh_tab t) (nat (lh_size t)) (home_slot t k) (lh_collisions t) = Some (Inr (n, c))"
    and n: "n < length (lh_tab t)" "\<not> is_live (lh_tab t ! n)"
    and way: "\<exists>d < length (lh_tab t). n = (home_slot t k + d) mod length (lh_tab t)
          \<and> (\<forall>e < d. is_live (lh_tab t ! ((home_slot t k + e) mod length (lh_tab t))))"
    using find_free_spec [OF inv room] by blast
  let ?t1 = "t\<lparr>lh_collisions := c, lh_tab := (lh_tab t)[n := (lh_tab t ! n)\<lparr>lh_k := Live k, lh_v := v\<rparr>],
               lh_count := lh_count t + 1\<rparr>"
  obtain t' where t': "link_tail ?t1 n = Inr t'" "lh_head t' = first_of (ord @ [n])" "lh_tail t' = Some n"
      "seg (lh_tab t') None (ord @ [n]) None" "length (lh_tab t') = length (lh_tab t)"
      "\<And>m. lh_k (lh_tab t' ! m) = (if m = n then Live k else lh_k (lh_tab t ! m))"
      "\<And>m. lh_v (lh_tab t' ! m) = (if m = n then v else lh_v (lh_tab t ! m))"
      "lh_count t' = lh_count t + 1" "lh_size t' = lh_size t" "same_fns t t'"
    using link_tail_spec [where c = c and k = k and v = v, OF inv n refl] by blast
  have n_ord: "n \<notin> set ord" using inv n by (auto simp: lh_inv_def)
  have home: "home_slot t' k' = home_slot t k'" for k'
    using t' by (simp add: home_slot_def same_fns_def)
  have key: "key_of (lh_tab t' ! m) = (if m = n then k else key_of (lh_tab t ! m))" for m
    using t'(6) by (simp add: key_of_def)
  have live: "is_live (lh_tab t' ! m) \<longleftrightarrow> m = n \<or> is_live (lh_tab t ! m)" for m
    using t'(6) by (simp add: is_live_def)
  have old: "probes (lh_tab t') (home_slot t k') m" if "probes (lh_tab t) (home_slot t k') m" for k' m
    by (rule probes_mono [OF that t'(5)]) (simp add: t'(6))
  have new: "probes (lh_tab t') (home_slot t k) n"
  proof -
    obtain d where d: "d < length (lh_tab t)" "n = (home_slot t k + d) mod length (lh_tab t)"
        "\<forall>e < d. is_live (lh_tab t ! ((home_slot t k + e) mod length (lh_tab t)))"
      using way by blast
    then have "lh_k (lh_tab t' ! ((home_slot t k + e) mod length (lh_tab t))) \<noteq> LH_EMPTY" if "e < d" for e
      using that t'(6) by (auto simp: is_live_iff)
    with d show ?thesis unfolding probes_def t'(5) by blast
  qed
  have "lh_inv t' (ord @ [n])"
    using inv n n_ord t' home key live old new
    by (auto simp: lh_inv_def same_fns_def split: if_splits)
  moreover have "lh_items t' (ord @ [n]) = lh_items t ord @ [(k, v)]"
    using n_ord key t'(7) by (auto simp: lh_items_def)
  moreover have "insert_probed t k v = Some (Inr t')"
    using ff t'(1) inv by (simp add: insert_probed_def lh_inv_def)
  ultimately show ?thesis using t'(6,9,10) way n(2) by blast
qed

section \<open>Insertion with resizing\<close>

definition no_tombs :: "('k, 'v) lh_table \<Rightarrow> bool" where
  "no_tombs t \<longleftrightarrow> (\<forall>n < length (lh_tab t). lh_k (lh_tab t ! n) \<noteq> LH_FREED)"

lemma count_le_size:
  assumes "lh_inv t ord"
  shows "lh_count t \<le> lh_size t"
proof -
  have "set ord \<subseteq> {..< length (lh_tab t)}" using assms by (auto simp: lh_inv_def)
  then have "card (set ord) \<le> length (lh_tab t)"
    using card_mono [of "{..< length (lh_tab t)}" "set ord"] by simp
  moreover have "card (set ord) = length ord" using assms distinct_card [of ord] by (simp only: lh_inv_def)
  ultimately show ?thesis using assms by (simp add: lh_inv_def)
qed

text \<open>The statistics are not part of the invariant.\<close>

lemma lh_stats [simp]:
  "lh_inv (t\<lparr>lh_inserts := a\<rparr>) ord = lh_inv t ord"
  "lh_inv (t\<lparr>lh_lookups := a\<rparr>) ord = lh_inv t ord"
  "lh_items (t\<lparr>lh_inserts := a\<rparr>) ord = lh_items t ord"
  "lh_items (t\<lparr>lh_lookups := a\<rparr>) ord = lh_items t ord"
  "over_load (t\<lparr>lh_inserts := a\<rparr>) = over_load t"
  "no_tombs (t\<lparr>lh_inserts := a\<rparr>) = no_tombs t"
  "no_tombs (t\<lparr>lh_lookups := a\<rparr>) = no_tombs t"
  "has_empty (t\<lparr>lh_lookups := a\<rparr>) = has_empty t"
  by (simp_all add: lh_inv_def home_slot_def lh_items_def over_load_def no_tombs_def has_empty_def)

lemma insert_room:
  assumes inv: "lh_inv t ord" and load: "\<not> over_load t"
  shows "\<exists>t' n. lh_table_insert (Suc f) t k v = Some (Inr t') \<and> lh_inv t' (ord @ [n])
     \<and> lh_items t' (ord @ [n]) = lh_items t ord @ [(k, v)] \<and> lh_size t' = lh_size t \<and> same_fns t t'
     \<and> (no_tombs t \<longrightarrow> no_tombs t')"
proof -
  let ?t = "t\<lparr>lh_inserts := lh_inserts t + 1\<rparr>"
  have "lh_count ?t < lh_size ?t" using load inv by (simp add: over_load_def lh_inv_def)
  then obtain t' n where t': "insert_probed ?t k v = Some (Inr t')" "lh_inv t' (ord @ [n])"
      "lh_items t' (ord @ [n]) = lh_items ?t ord @ [(k, v)]" "lh_size t' = lh_size ?t" "same_fns ?t t'"
      "\<And>m. lh_k (lh_tab t' ! m) = (if m = n then Live k else lh_k (lh_tab ?t ! m))"
    using insert_probed_spec [of ?t ord k v] inv by auto
  moreover have "length (lh_tab t') = length (lh_tab t)" using t'(2,4) inv by (simp add: lh_inv_def)
  ultimately show ?thesis
    using load by (auto simp: same_fns_def no_tombs_def Let_def)
qed

lemma resize_loop_spec:
  assumes "seg (lh_tab t) p ns None" "\<forall>n \<in> set ns. n < length (lh_tab t) \<and> is_live (lh_tab t ! n)"
    and "lh_inv u ord" "(lh_count u + int (length ns)) * 100 \<le> lh_size u * 66 + 100"
    and "length ns + 2 \<le> f"
  shows "\<exists>u' ord'. resize_loop f t u (first_of ns) = Some (Inr u') \<and> lh_inv u' ord'
     \<and> lh_items u' ord' = lh_items u ord @ lh_items t ns \<and> lh_size u' = lh_size u \<and> same_fns u u'
     \<and> (no_tombs u \<longrightarrow> no_tombs u')"
  using assms
proof (induction ns arbitrary: p u ord f)
  case Nil
  then obtain f' where "f = Suc f'" by (metis Suc_le_D add_2_eq_Suc')
  with Nil show ?case by (auto simp: lh_items_def same_fns_refl)
next
  case (Cons n ns)
  obtain f' where f: "f = Suc (Suc f')" using Cons.prems(5) by (metis Suc_le_D add_2_eq_Suc' Suc_le_mono)
  obtain k where k: "lh_k (lh_tab t ! n) = Live k" using Cons.prems(2) by (auto simp: is_live_iff)
  have "\<not> over_load u" using Cons.prems(4) by (simp add: over_load_def)
  then obtain u1 m where u1: "lh_table_insert (Suc f') u k (lh_v (lh_tab t ! n)) = Some (Inr u1)"
      "lh_inv u1 (ord @ [m])" "lh_items u1 (ord @ [m]) = lh_items u ord @ [(k, lh_v (lh_tab t ! n))]"
      "lh_size u1 = lh_size u" "same_fns u u1" "no_tombs u \<longrightarrow> no_tombs u1"
    using insert_room [OF Cons.prems(3)] by blast
  have "lh_count u1 = lh_count u + 1" using u1(2) Cons.prems(3) by (simp add: lh_inv_def)
  then have load: "(lh_count u1 + int (length ns)) * 100 \<le> lh_size u1 * 66 + 100"
    using Cons.prems(4) u1(4) by simp
  have nx: "lh_next (lh_tab t ! n) = first_of ns" "seg (lh_tab t) (Some n) ns None"
    using Cons.prems(1) by (auto simp: first_of_def)
  have fuel: "length ns + 2 \<le> Suc f'" using Cons.prems(5) f by simp
  have live: "\<forall>n \<in> set ns. n < length (lh_tab t) \<and> is_live (lh_tab t ! n)" using Cons.prems(2) by simp
  obtain u2 ord2 where u2: "resize_loop (Suc f') t u1 (first_of ns) = Some (Inr u2)" "lh_inv u2 ord2"
      "lh_items u2 ord2 = lh_items u1 (ord @ [m]) @ lh_items t ns" "lh_size u2 = lh_size u1"
      "same_fns u1 u2" "no_tombs u1 \<longrightarrow> no_tombs u2"
    using Cons.IH [OF nx(2) live u1(2) load fuel] by blast
  have "resize_loop f t u (first_of (n # ns)) = Some (Inr u2)"
    using u1(1) u2(1) f k nx Cons.prems(2) by simp
  moreover have "lh_items u2 ord2 = lh_items u ord @ lh_items t (n # ns)"
    using u2(3) u1(3) k by (simp add: lh_items_def key_of_def)
  ultimately show ?case
    using u1 u2 same_fns_trans [OF u1(5) u2(5)] by auto
qed

lemma length_lh_items [simp]: "length (lh_items t ord) = length ord"
  by (simp add: lh_items_def)

lemma resize_spec:
  assumes inv: "lh_inv t ord" and sz: "0 < sz" "lh_count t * 100 \<le> sz * 66 + 100"
    and fuel: "length ord + 3 \<le> f"
  shows "\<exists>t' ord'. lh_table_resize f t sz = Some (Inr t') \<and> lh_inv t' ord' \<and> lh_items t' ord' = lh_items t ord
     \<and> lh_size t' = sz \<and> same_fns t t' \<and> no_tombs t'"
proof -
  let ?u = "lh_table_new sz False (lh_hash_fn t) (lh_equal_fn t) :: ('a, 'b) lh_table"
  have eq: "lh_equal_fn t = (=)" using inv by (simp add: lh_inv_def)
  have u: "lh_inv ?u []" "lh_items ?u [] = []" using lh_table_new_inv [OF sz(1) eq] by auto
  have tombs: "no_tombs ?u" by (simp add: no_tombs_def lh_table_new_def empty_entry_def)
  obtain f' where f: "f = Suc f'" using fuel by (metis Suc_le_D add_Suc_right numeral_3_eq_3)
  have "lh_count ?u = 0" "lh_size ?u = sz" by (simp_all add: lh_table_new_def)
  then obtain u' ord' where u': "resize_loop f' t ?u (first_of ord) = Some (Inr u')" "lh_inv u' ord'"
      "lh_items u' ord' = lh_items t ord" "lh_size u' = sz" "same_fns ?u u'" "no_tombs u'"
    using resize_loop_spec [of t None ord ?u "[]" f'] inv u sz fuel f tombs
    by (auto simp: lh_inv_def [of t])
  let ?t = "t\<lparr>lh_tab := lh_tab u', lh_size := sz, lh_head := lh_head u', lh_tail := lh_tail u',
              lh_resizes := lh_resizes t + 1\<rparr>"
  have "lh_table_resize f t sz = Some (Inr ?t)"
    using u'(1) f inv by (simp add: lh_inv_def)
  moreover have "length ord' = length ord" using u'(3) by (metis length_lh_items)
  then have "lh_inv ?t ord'"
    using u'(2,4,5) inv eq
    by (simp add: lh_inv_def home_slot_def same_fns_def lh_table_new_def)
  moreover have "lh_items ?t ord' = lh_items t ord" using u'(3) by (simp add: lh_items_def)
  ultimately show ?thesis using u'(6) by (auto simp: same_fns_def no_tombs_def)
qed

text \<open>
  Insertion, with the copying it may need: with four units of fuel more than there are entries it returns, the
  new entry is the last, and nothing else changes.
\<close>

lemma insert_spec:
  assumes inv: "lh_inv t ord" and fuel: "length ord + 4 \<le> f"
  shows "\<exists>t' ord'. lh_table_insert f t k v = Some (Inr t') \<and> lh_inv t' ord'
     \<and> lh_items t' ord' = lh_items t ord @ [(k, v)] \<and> same_fns t t' \<and> (over_load t \<or> no_tombs t \<longrightarrow> no_tombs t')
     \<and> lh_size t \<le> lh_size t' \<and> (3 \<le> lh_size t \<longrightarrow> lh_count t' < lh_size t')"
proof -
  obtain f' where f: "f = Suc f'" using fuel by (metis Suc_le_D add_Suc_right numeral_eq_Suc)
  have cnt: "lh_count t = int (length ord)" using inv by (simp add: lh_inv_def)
  show ?thesis
  proof (cases "over_load t")
    case False
    then obtain t' n where t': "lh_table_insert f t k v = Some (Inr t')" "lh_inv t' (ord @ [n])"
        "lh_items t' (ord @ [n]) = lh_items t ord @ [(k, v)]" "lh_size t' = lh_size t" "same_fns t t'"
        "no_tombs t \<longrightarrow> no_tombs t'"
      using insert_room [OF inv] f by blast
    moreover have "lh_count t' = lh_count t + 1" using t'(2) cnt by (simp add: lh_inv_def)
    ultimately show ?thesis using False by (auto simp: over_load_def)
  next
    case True
    let ?t = "t\<lparr>lh_inserts := lh_inserts t + 1\<rparr>"
    have size: "0 < lh_size t" "lh_count t \<le> lh_size t"
      using inv count_le_size [OF inv] by (simp_all add: lh_inv_def)
    then obtain t1 ord1 where t1: "lh_table_resize f' ?t (lh_size t * 2) = Some (Inr t1)" "lh_inv t1 ord1"
        "lh_items t1 ord1 = lh_items t ord" "lh_size t1 = lh_size t * 2" "same_fns ?t t1" "no_tombs t1"
      using resize_spec [of ?t ord "lh_size t * 2" f'] inv fuel f by auto
    have cnt1: "lh_count t1 = lh_count t" using t1(2,3) cnt by (metis length_lh_items lh_inv_def)
    obtain t' n where t': "insert_probed t1 k v = Some (Inr t')" "lh_inv t' (ord1 @ [n])"
        "lh_items t' (ord1 @ [n]) = lh_items t1 ord1 @ [(k, v)]" "lh_size t' = lh_size t1" "same_fns t1 t'"
        "\<And>m. lh_k (lh_tab t' ! m) = (if m = n then Live k else lh_k (lh_tab t1 ! m))"
      using insert_probed_spec [OF t1(2), of k v] size t1(4) cnt1 by auto
    have "lh_count t' = lh_count t + 1" using t'(2) t1(2) cnt1 by (simp add: lh_inv_def)
    moreover have "length (lh_tab t') = length (lh_tab t1)" using t'(2,4) t1(2) by (simp add: lh_inv_def)
    moreover have "lh_table_insert f t k v = Some (Inr t')"
      using f True t1(1) t'(1) by (simp add: Let_def)
    moreover have "same_fns t t'" using t1(5) t'(5) by (simp add: same_fns_def)
    ultimately show ?thesis
      using t'(2,3,4,6) t1(3,4,6) size by (auto simp: no_tombs_def)
  qed
qed

section \<open>Lookup\<close>

text \<open>No key twice: what the client has to take care of, since the insertion does not look.\<close>

definition lh_keys :: "('k, 'v) lh_table \<Rightarrow> nat list \<Rightarrow> 'k list" where
  "lh_keys t ord = map fst (lh_items t ord)"

lemma lh_keys_eq: "lh_keys t ord = map (\<lambda>n. key_of (lh_tab t ! n)) ord"
  by (simp add: lh_keys_def lh_items_def)

lemma key_matches_iff:
  "key_matches (=) (lh_k e) k \<longleftrightarrow> is_live e \<and> key_of e = k"
  by (auto simp: key_matches_def is_live_def key_of_def split: slot.splits)

lemma lookup_present:
  assumes inv: "lh_inv t ord" and n: "n \<in> set ord" "key_of (lh_tab t ! n) = k"
    and dist: "distinct (lh_keys t ord)"
  shows "lh_table_lookup_entry t k = Some (Inr (Some n, t\<lparr>lh_lookups := lh_lookups t + 1\<rparr>))"
proof -
  let ?sz = "length (lh_tab t)" and ?h = "home_slot t k"
  let ?at = "\<lambda>d. lh_tab t ! ((?h + d) mod ?sz)"
  let ?stop = "\<lambda>d. lh_k (?at d) = LH_EMPTY \<or> key_matches (=) (lh_k (?at d)) k"
  have live: "is_live (lh_tab t ! n)" using inv n by (auto simp: lh_inv_def)
  have "probes (lh_tab t) ?h n" using inv n unfolding lh_inv_def by blast
  then obtain d0 where d0: "d0 < ?sz" "n = (?h + d0) mod ?sz" "\<forall>e < d0. lh_k (?at e) \<noteq> LH_EMPTY"
    unfolding probes_def by blast
  have "?stop d0" using d0(2) live n by (simp add: key_matches_iff)
  define d where "d = (LEAST d. ?stop d)"
  have d: "?stop d" "d \<le> d0"
    unfolding d_def by (rule LeastI [of ?stop], rule \<open>?stop d0\<close>, rule Least_le, rule \<open>?stop d0\<close>)
  have before: "\<not> ?stop e" if "e < d" for e
    using not_less_Least [of e ?stop] that unfolding d_def by blast
  let ?m = "(?h + d) mod ?sz"
  have "0 < ?sz" using lh_inv_size [OF inv] by simp
  have not_empty: "lh_k (?at d) \<noteq> LH_EMPTY"
    using d0 d(2) live by (cases "d = d0") (auto simp: is_live_def)
  with d(1) have m: "is_live (lh_tab t ! ?m)" "key_of (lh_tab t ! ?m) = k" by (simp_all add: key_matches_iff)
  have "?m \<in> set ord" using m \<open>0 < ?sz\<close> inv by (simp add: lh_inv_def)
  with n m dist have "?m = n"
    by (metis (mono_tags, lifting) distinct_map inj_on_def lh_keys_eq)
  moreover have "find_key (=) (lh_tab t) ?sz k ?h = Some (Inr (if lh_k (?at d) = LH_EMPTY then None else Some ?m))"
    using before d(1) home_slot_bound [OF inv] by (intro find_key_at) auto
  ultimately show ?thesis
    using not_empty inv lh_inv_size [OF inv] by (simp add: lh_table_lookup_entry_def lh_inv_def)
qed

lemma absent_no_match:
  assumes "lh_inv t ord" "k \<notin> set (lh_keys t ord)" "m < length (lh_tab t)"
  shows "\<not> key_matches (lh_equal_fn t) (lh_k (lh_tab t ! m)) k"
  using assms by (auto simp: lh_inv_def lh_keys_eq key_matches_iff)

lemma lookup_absent:
  assumes inv: "lh_inv t ord" and k: "k \<notin> set (lh_keys t ord)" and ne: "has_empty t"
  shows "lh_table_lookup_entry t k = Some (Inr (None, t\<lparr>lh_lookups := lh_lookups t + 1\<rparr>))"
proof -
  let ?sz = "length (lh_tab t)" and ?h = "home_slot t k"
  let ?at = "\<lambda>d. lh_k (lh_tab t ! ((?h + d) mod ?sz))"
  have h: "?h < ?sz" and pos: "0 < ?sz" using home_slot_bound [OF inv] lh_inv_size [OF inv] by simp_all
  obtain m where "m < ?sz" "lh_k (lh_tab t ! m) = LH_EMPTY" using ne by (auto simp: has_empty_def)
  then obtain d0 where d0: "?at d0 = LH_EMPTY" using cyc_reach [OF h] by metis
  define d where "d = (LEAST d. ?at d = LH_EMPTY)"
  have d: "?at d = LH_EMPTY" unfolding d_def by (rule LeastI, rule d0)
  have before: "?at e \<noteq> LH_EMPTY \<and> \<not> key_matches (lh_equal_fn t) (?at e) k" if "e < d" for e
    using not_less_Least [of e "\<lambda>d. ?at d = LH_EMPTY"] that absent_no_match [OF inv k] pos
    unfolding d_def by simp
  have "find_key (lh_equal_fn t) (lh_tab t) ?sz k ?h = Some (Inr (if ?at d = LH_EMPTY then None else Some ((?h + d) mod ?sz)))"
    using before d h by (intro find_key_at) auto
  then show ?thesis
    using d inv lh_inv_size [OF inv] by (simp add: lh_table_lookup_entry_def lh_inv_def)
qed

lemma lookup_absent_diverges:
  assumes inv: "lh_inv t ord" and k: "k \<notin> set (lh_keys t ord)" and full: "\<not> has_empty t"
  shows "lh_table_lookup_entry t k = None"
proof -
  have "find_key (lh_equal_fn t) (lh_tab t) (length (lh_tab t)) k (home_slot t k) = None"
    using full absent_no_match [OF inv k]
    by (intro find_key_diverges) (auto simp: has_empty_def home_slot_bound [OF inv])
  then show ?thesis
    using inv lh_inv_size [OF inv] by (simp add: lh_table_lookup_entry_def lh_inv_def)
qed

lemma in_keys_slot: "k \<in> set (lh_keys t ord) \<Longrightarrow> \<exists>n \<in> set ord. key_of (lh_tab t ! n) = k"
  by (auto simp: lh_keys_eq)

lemma map_of_item:
  assumes "distinct (lh_keys t ord)" "n \<in> set ord"
  shows "map_of (lh_items t ord) (key_of (lh_tab t ! n)) = Some (lh_v (lh_tab t ! n))"
  using assms by (intro map_of_is_SomeI) (auto simp: lh_keys_def lh_items_def)

text \<open>The value a lookup returns, when it returns.\<close>

lemma lookup_value:
  assumes inv: "lh_inv t ord" and dist: "distinct (lh_keys t ord)"
    and ret: "has_empty t \<or> k \<in> set (lh_keys t ord)"
  shows "lh_table_lookup t k =
    Some (Inr (case map_of (lh_items t ord) k of None \<Rightarrow> None | Some v \<Rightarrow> v, t\<lparr>lh_lookups := lh_lookups t + 1\<rparr>))"
proof (cases "k \<in> set (lh_keys t ord)")
  case True
  then obtain n where n: "n \<in> set ord" "key_of (lh_tab t ! n) = k" using in_keys_slot by metis
  then show ?thesis
    using lookup_present [OF inv n dist] map_of_item [OF dist n(1)] by (simp add: lh_table_lookup_def)
next
  case False
  then have "map_of (lh_items t ord) k = None" by (simp add: map_of_eq_None_iff lh_keys_def)
  then show ?thesis
    using lookup_absent [OF inv False] ret False by (simp add: lh_table_lookup_def)
qed

section \<open>Deletion\<close>

lemma distinct_split:
  assumes "distinct ord" "n \<in> set ord"
  shows "\<exists>xs ys. ord = xs @ n # ys \<and> n \<notin> set xs \<and> n \<notin> set ys \<and> remove1 n ord = xs @ ys"
proof -
  obtain xs ys where "ord = xs @ n # ys" using assms(2) by (meson split_list)
  with assms(1) show ?thesis by (auto simp: remove1_append)
qed

text \<open>Taking a slot out of the chain: the chain closes over it, keys and values stay.\<close>

lemma unlink_spec:
  assumes ord: "ord = xs @ n # ys" "distinct ord" and bound: "\<forall>m \<in> set ord. m < length (lh_tab t)"
    and chain: "lh_head t = first_of ord" "lh_tail t = last_of ord" "seg (lh_tab t) None ord None"
  shows "\<exists>t'. unlink t n = Inr t' \<and> lh_head t' = first_of (xs @ ys) \<and> lh_tail t' = last_of (xs @ ys)
     \<and> seg (lh_tab t') None (xs @ ys) None \<and> length (lh_tab t') = length (lh_tab t)
     \<and> (\<forall>m. lh_k (lh_tab t' ! m) = lh_k (lh_tab t ! m)) \<and> (\<forall>m. lh_v (lh_tab t' ! m) = lh_v (lh_tab t ! m))
     \<and> lh_count t' = lh_count t \<and> lh_size t' = lh_size t \<and> same_fns t t'"
proof -
  have kv: "lh_k (xs'[i := (xs' ! i)\<lparr>lh_next := p\<rparr>] ! m) = lh_k (xs' ! m)"
     "lh_k (xs'[i := (xs' ! i)\<lparr>lh_prev := p\<rparr>] ! m) = lh_k (xs' ! m)"
     "lh_v (xs'[i := (xs' ! i)\<lparr>lh_next := p\<rparr>] ! m) = lh_v (xs' ! m)"
     "lh_v (xs'[i := (xs' ! i)\<lparr>lh_prev := p\<rparr>] ! m) = lh_v (xs' ! m)" for xs' :: "('a, 'b) lh_entry list" and i m p
    by (cases "i < length xs'"; simp add: nth_list_update list_update_beyond)+
  consider (only) "xs = []" "ys = []" | (first) y ys' where "xs = []" "ys = y # ys'"
    | (lst) xs' x where "xs = xs' @ [x]" "ys = []" | (mid) xs' x y ys' where "xs = xs' @ [x]" "ys = y # ys'"
    by (metis append_butlast_last_id list.exhaust)
  then show ?thesis
  proof cases
    case only
    then show ?thesis using ord chain by (simp add: unlink_def last_of_def same_fns_def)
  next
    case first
    then have "seg (lh_tab t) (Some n) (y # ys') None" "lh_next (lh_tab t ! n) = Some y" "lh_tail t \<noteq> Some n"
      using ord chain by (auto simp: last_of_def split: if_splits)
    moreover have "seg ((lh_tab t)[y := (lh_tab t ! y)\<lparr>lh_prev := None\<rparr>]) None (y # ys') None"
      using calculation(1) ord first bound by (intro seg_set_first_prev) auto
    ultimately show ?thesis
      using ord chain first kv by (auto simp: unlink_def last_of_def same_fns_def)
  next
    case lst
    then have s: "seg (lh_tab t) None (xs' @ [x]) (Some n)" "lh_prev (lh_tab t ! n) = Some x" "lh_head t \<noteq> Some n"
      using ord chain by (auto simp: seg_append first_of_def hd_append split: if_splits)
    moreover have "seg ((lh_tab t)[x := (lh_tab t ! x)\<lparr>lh_next := None\<rparr>]) None (xs' @ [x]) None"
      using s(1) ord lst bound by (intro seg_set_last_next) auto
    ultimately show ?thesis
      using ord chain lst kv by (auto simp: unlink_def last_of_def first_of_def hd_append same_fns_def)
  next
    case mid
    let ?tab1 = "(lh_tab t)[x := (lh_tab t ! x)\<lparr>lh_next := Some y\<rparr>]"
    let ?tab2 = "?tab1[y := (?tab1 ! y)\<lparr>lh_prev := Some x\<rparr>]"
    have s: "seg (lh_tab t) None (xs' @ [x]) (Some n)" "lh_prev (lh_tab t ! n) = Some x"
        "lh_next (lh_tab t ! n) = Some y" "seg (lh_tab t) (Some n) (y # ys') None"
        "lh_head t \<noteq> Some n" "lh_tail t \<noteq> Some n"
      using ord chain mid by (auto simp: seg_append first_of_def last_of_def hd_append split: if_splits)
    have "unlink t n = Inr (t\<lparr>lh_tab := ?tab2\<rparr>)" using s by (simp add: unlink_def Let_def)
    moreover have "seg ?tab1 None (xs' @ [x]) (Some y)"
      using s(1) ord mid bound by (intro seg_set_last_next) auto
    then have "seg ?tab2 None (xs' @ [x]) (Some y)"
      using ord mid by (subst seg_update_other) auto
    moreover have "seg ?tab1 (Some n) (y # ys') None"
      using s(4) ord mid by (subst seg_update_other) auto
    then have "seg ?tab2 (Some x) (y # ys') None"
      using ord mid bound by (intro seg_set_first_prev) auto
    moreover have "lh_k (?tab2 ! m) = lh_k (lh_tab t ! m)" "lh_v (?tab2 ! m) = lh_v (lh_tab t ! m)" for m
      by (simp_all only: kv)
    ultimately show ?thesis
      using ord chain mid by (auto simp: seg_append first_of_def last_of_def hd_append same_fns_def)
  qed
qed

lemma delete_entry_spec:
  assumes inv: "lh_inv t ord" and n: "n \<in> set ord"
  shows "\<exists>t'. lh_table_delete_entry t (int n) =
       Inr (0, if lh_free_fn t then [(key_of (lh_tab t ! n), lh_v (lh_tab t ! n))] else [], t')
     \<and> lh_inv t' (remove1 n ord)
     \<and> lh_items t' (remove1 n ord) = map (\<lambda>m. (key_of (lh_tab t ! m), lh_v (lh_tab t ! m))) (remove1 n ord)
     \<and> lh_size t' = lh_size t \<and> same_fns t t' \<and> has_empty t' = has_empty t
     \<and> (\<forall>m. lh_k (lh_tab t' ! m) = (if m = n then LH_FREED else lh_k (lh_tab t ! m)))"
proof -
  have nb: "n < length (lh_tab t)" using inv n by (simp add: lh_inv_def)
  obtain k where k: "lh_k (lh_tab t ! n) = Live k" using inv n by (auto simp: lh_inv_def is_live_iff)
  obtain xs ys where ord: "ord = xs @ n # ys" "n \<notin> set xs" "n \<notin> set ys" "remove1 n ord = xs @ ys"
    using distinct_split [OF _ n] inv by (auto simp: lh_inv_def)
  let ?t1 = "t\<lparr>lh_count := lh_count t - 1, lh_tab := (lh_tab t)[n := (lh_tab t ! n)\<lparr>lh_v := None, lh_k := LH_FREED\<rparr>]\<rparr>"
  have "seg (lh_tab ?t1) None ord None" using inv by (simp add: lh_inv_def seg_update_same_links)
  then obtain t2 where t2: "unlink ?t1 n = Inr t2" "lh_head t2 = first_of (xs @ ys)" "lh_tail t2 = last_of (xs @ ys)"
      "seg (lh_tab t2) None (xs @ ys) None" "length (lh_tab t2) = length (lh_tab ?t1)"
      "\<And>m. lh_k (lh_tab t2 ! m) = lh_k (lh_tab ?t1 ! m)" "\<And>m. lh_v (lh_tab t2 ! m) = lh_v (lh_tab ?t1 ! m)"
      "lh_count t2 = lh_count ?t1" "lh_size t2 = lh_size ?t1" "same_fns ?t1 t2"
    using unlink_spec [OF ord(1), of ?t1] inv by (auto simp: lh_inv_def)
  define t3 where "t3 = t2\<lparr>lh_tab := (lh_tab t2)[n := (lh_tab t2 ! n)\<lparr>lh_next := None, lh_prev := None\<rparr>]\<rparr>"
  have len: "length (lh_tab t3) = length (lh_tab t)" using t2(5) by (simp add: t3_def)
  have k3: "lh_k (lh_tab t3 ! m) = (if m = n then LH_FREED else lh_k (lh_tab t ! m))" for m
    using t2(5,6) nb by (simp add: t3_def nth_list_update)
  have v3: "m \<noteq> n \<Longrightarrow> lh_v (lh_tab t3 ! m) = lh_v (lh_tab t ! m)" for m
    using t2(5,7) nb by (simp add: t3_def nth_list_update)
  have key: "m \<noteq> n \<Longrightarrow> key_of (lh_tab t3 ! m) = key_of (lh_tab t ! m)" for m
    by (simp add: key_of_def k3)
  have home: "home_slot t3 k' = home_slot t k'" for k'
    using t2(9,10) by (simp add: t3_def home_slot_def same_fns_def)
  have run: "lh_table_delete_entry t (int n) =
      Inr (0, if lh_free_fn t then [(key_of (lh_tab t ! n), lh_v (lh_tab t ! n))] else [], t3)"
    using nb k t2(1) by (simp add: t3_def lh_table_delete_entry_def key_of_def)
  have probes: "probes (lh_tab t3) h m" if "probes (lh_tab t) h m" for h m
    by (rule probes_mono [OF that len]) (simp add: k3)
  have "seg (lh_tab t3) None (xs @ ys) None"
    using t2(4) ord by (simp add: t3_def seg_update_other)
  moreover have "set (xs @ ys) = {m. m < length (lh_tab t3) \<and> is_live (lh_tab t3 ! m)}"
  proof -
    have live: "set ord = {m. m < length (lh_tab t) \<and> is_live (lh_tab t ! m)}" using inv by (simp add: lh_inv_def)
    have "is_live (lh_tab t3 ! m) \<longleftrightarrow> m \<noteq> n \<and> is_live (lh_tab t ! m)" for m
      using k3 by (simp add: is_live_def)
    moreover have "set (xs @ ys) = set ord - {n}" using ord by auto
    ultimately show ?thesis using live len by auto
  qed
  moreover have "probes (lh_tab t3) (home_slot t3 (key_of (lh_tab t3 ! m))) m" if "m \<in> set (xs @ ys)" for m
  proof -
    have "m \<noteq> n" "m \<in> set ord" using that ord by auto
    then have "probes (lh_tab t) (home_slot t (key_of (lh_tab t ! m))) m" using inv by (simp add: lh_inv_def)
    then show ?thesis using \<open>m \<noteq> n\<close> key home probes by simp
  qed
  ultimately have "lh_inv t3 (xs @ ys)"
    using inv ord(1) t2(2,3,8,9,10) len by (simp add: lh_inv_def same_fns_def t3_def del: set_append)
  moreover have "lh_items t3 (xs @ ys) = map (\<lambda>m. (key_of (lh_tab t ! m), lh_v (lh_tab t ! m))) (xs @ ys)"
    unfolding lh_items_def
  proof (intro map_cong refl)
    fix m assume "m \<in> set (xs @ ys)"
    then have "m \<noteq> n" using ord(2,3) by auto
    then show "(key_of (lh_tab t3 ! m), lh_v (lh_tab t3 ! m)) = (key_of (lh_tab t ! m), lh_v (lh_tab t ! m))"
      by (simp add: key v3)
  qed
  moreover have "has_empty t3 = has_empty t" unfolding has_empty_def len k3 using k by (metis slot.distinct(1) slot.distinct(3))
  moreover have "same_fns t t3" "lh_size t3 = lh_size t" using t2(9,10) by (simp_all add: t3_def same_fns_def)
  ultimately show ?thesis unfolding ord(4) using run k3 by (intro exI [of _ t3] conjI allI)
qed

text \<open>The pairs of a list without those of a key.\<close>

definition without_key :: "'k \<Rightarrow> ('k \<times> 'w) list \<Rightarrow> ('k \<times> 'w) list" where
  "without_key k es = filter (\<lambda>e. fst e \<noteq> k) es"

lemma without_key_absent: "k \<notin> fst ` set es \<Longrightarrow> without_key k es = es"
  by (auto simp: without_key_def intro!: filter_True)

lemma keys_without_key [simp]: "fst ` set (without_key k es) = fst ` set es - {k}"
  by (auto simp: without_key_def)

lemma distinct_without_key: "distinct (map fst es) \<Longrightarrow> distinct (map fst (without_key k es))"
  unfolding without_key_def by (rule distinct_map_filter)

lemma map_of_without_key: "map_of (without_key k es) = (map_of es)(k := None)"
proof -
  have "map_of (filter (\<lambda>e. fst e \<noteq> k) es) j = ((map_of es)(k := None)) j" for j
    by (induction es) auto
  then show ?thesis by (simp add: without_key_def fun_eq_iff)
qed

lemma remove1_items:
  assumes "distinct ord" "distinct (map f ord)" "n \<in> set ord" "f n = k"
  shows "map (\<lambda>m. (f m, g m)) (remove1 n ord) = without_key k (map (\<lambda>m. (f m, g m)) ord)"
proof -
  obtain xs ys where ord: "ord = xs @ n # ys" "n \<notin> set xs" "n \<notin> set ys" "remove1 n ord = xs @ ys"
    using distinct_split [OF assms(1,3)] by blast
  have "f m \<noteq> k" if "m \<in> set xs \<union> set ys" for m
    using assms(2,4) ord(1) that by (auto simp: image_iff)
  then have "without_key k (map (\<lambda>m. (f m, g m)) xs) = map (\<lambda>m. (f m, g m)) xs"
      "without_key k (map (\<lambda>m. (f m, g m)) ys) = map (\<lambda>m. (f m, g m)) ys"
    by (auto simp: without_key_def intro!: filter_True)
  then show ?thesis using ord(1,4) assms(4) by (simp add: without_key_def)
qed

lemma has_empty_counters [simp]:
  "has_empty (t\<lparr>lh_lookups := a\<rparr>) = has_empty t" "has_empty (t\<lparr>lh_inserts := a\<rparr>) = has_empty t"
  by (simp_all add: has_empty_def)

lemma same_fns_counters [simp]:
  "same_fns (t\<lparr>lh_lookups := a\<rparr>) t' = same_fns t t'" "same_fns (t\<lparr>lh_inserts := a\<rparr>) t' = same_fns t t'"
  by (simp_all add: same_fns_def)

lemma delete_present:
  assumes inv: "lh_inv t ord" and dist: "distinct (lh_keys t ord)"
    and n: "n \<in> set ord" "key_of (lh_tab t ! n) = k"
  shows "\<exists>t'. lh_table_delete t k = Some (Inr (0, if lh_free_fn t then [(k, lh_v (lh_tab t ! n))] else [], t'))
     \<and> lh_inv t' (remove1 n ord) \<and> lh_items t' (remove1 n ord) = without_key k (lh_items t ord)
     \<and> lh_size t' = lh_size t \<and> same_fns t t' \<and> has_empty t' = has_empty t
     \<and> (\<forall>m. lh_k (lh_tab t' ! m) = (if m = n then LH_FREED else lh_k (lh_tab t ! m)))"
proof -
  define tl where "tl = t\<lparr>lh_lookups := lh_lookups t + 1\<rparr>"
  have tl: "lh_tab tl = lh_tab t" "lh_size tl = lh_size t" "lh_free_fn tl = lh_free_fn t"
      "has_empty tl = has_empty t" "\<And>t'. same_fns tl t' = same_fns t t'"
    by (simp_all add: tl_def)
  have "lh_inv tl ord" using inv by (simp add: tl_def)
  from delete_entry_spec [OF this n(1)] have spec: "\<exists>t'.
      lh_table_delete_entry tl (int n) = Inr (0, if lh_free_fn t then [(k, lh_v (lh_tab t ! n))] else [], t') \<and>
      lh_inv t' (remove1 n ord) \<and>
      lh_items t' (remove1 n ord) = map (\<lambda>m. (key_of (lh_tab t ! m), lh_v (lh_tab t ! m))) (remove1 n ord) \<and>
      lh_size t' = lh_size t \<and> same_fns t t' \<and> has_empty t' = has_empty t \<and>
      (\<forall>m. lh_k (lh_tab t' ! m) = (if m = n then LH_FREED else lh_k (lh_tab t ! m)))"
    unfolding tl n(2) .
  have items: "map (\<lambda>m. (key_of (lh_tab t ! m), lh_v (lh_tab t ! m))) (remove1 n ord) = without_key k (lh_items t ord)"
    unfolding lh_items_def using inv dist n by (intro remove1_items) (auto simp: lh_inv_def lh_keys_eq)
  have del: "lh_table_delete t k = Some (lh_table_delete_entry tl (int n))"
    using lookup_present [OF inv n dist] by (simp add: lh_table_delete_def tl_def)
  show ?thesis using spec unfolding items del option.inject .
qed

lemma delete_absent:
  assumes "lh_inv t ord" "k \<notin> set (lh_keys t ord)" "has_empty t"
  shows "lh_table_delete t k = Some (Inr (-1, [], t\<lparr>lh_lookups := lh_lookups t + 1\<rparr>))"
  using lookup_absent [OF assms] by (simp add: lh_table_delete_def)

end
