(* ===== verification/Link_Hash_Dict.thy ===== *)
theory Link_Hash_Dict
  imports Link_Hash_Inv "HOL-Library.AList"
begin

text \<open>
  What the users of the hash table rely on. \<open>lh_put\<close> is the pair of calls of
  \<open>json_object_object_add\<close> (delete the key, insert it); a table that is only filled this way behaves as a
  dictionary that keeps the order of insertion, and all its searches return. A table from which keys
  are deleted wears out: once no empty slot is left, a search for an absent key never returns.
\<close>

text \<open>Insertion with the fuel that suffices (\<open>insert_spec\<close>).\<close>

definition lh_insert :: "('k, 'v) lh_table \<Rightarrow> 'k \<Rightarrow> 'v option \<Rightarrow> ('k, 'v) lh_table run" where
  "lh_insert t k v = lh_table_insert (nat (lh_count t) + 4) t k v"

definition lh_put ::
  "('k, 'v) lh_table \<Rightarrow> 'k \<Rightarrow> 'v option \<Rightarrow> (('k \<times> 'v option) list \<times> ('k, 'v) lh_table) run" where
  "lh_put t k v =
     ubind (lh_table_delete t k) (\<lambda>(r, freed, t1). ubind (lh_insert t1 k v) (\<lambda>t2. Some (Inr (freed, t2))))"

section \<open>The walk\<close>

lemma lh_walk_seg:
  assumes "seg tab p ns None" "\<forall>n \<in> set ns. n < length tab \<and> is_live (tab ! n)" "length ns < f"
  shows "lh_walk f tab (first_of ns) = Some (Inr (map (\<lambda>n. (key_of (tab ! n), lh_v (tab ! n))) ns))"
  using assms
proof (induction ns arbitrary: p f)
  case Nil
  then show ?case by (cases f) simp_all
next
  case (Cons n ns)
  obtain f' where f: "f = Suc f'" using Cons.prems(3) by (cases f) simp_all
  obtain k where k: "lh_k (tab ! n) = Live k" using Cons.prems(2) by (auto simp: is_live_iff)
  have "lh_next (tab ! n) = first_of ns" using Cons.prems(1) by (auto simp: first_of_def)
  moreover have "lh_walk f' tab (first_of ns) = Some (Inr (map (\<lambda>n. (key_of (tab ! n), lh_v (tab ! n))) ns))"
    using Cons.prems f by (intro Cons.IH) auto
  ultimately show ?case using f k Cons.prems(2) by (simp add: key_of_def)
qed

lemma foreach_items:
  assumes "lh_inv t ord"
  shows "lh_foreach t = Some (Inr (lh_items t ord))"
proof -
  have "int (length ord) \<le> lh_size t" using count_le_size [OF assms] assms by (simp add: lh_inv_def)
  then have len: "length ord < Suc (length (lh_tab t))" using assms by (simp add: lh_inv_def)
  have "lh_walk (Suc (length (lh_tab t))) (lh_tab t) (first_of ord)
      = Some (Inr (map (\<lambda>n. (key_of (lh_tab t ! n), lh_v (lh_tab t ! n))) ord))"
    using assms len by (intro lh_walk_seg [of _ None]) (auto simp: lh_inv_def)
  then show ?thesis using assms by (simp add: lh_foreach_def lh_items_def lh_inv_def)
qed

section \<open>Tables that are only filled\<close>

definition filled :: "('k, 'v) lh_table \<Rightarrow> ('k \<times> 'v option) list \<Rightarrow> bool" where
  "filled t es \<longleftrightarrow> (\<exists>ord. lh_inv t ord \<and> es = lh_items t ord) \<and> distinct (map fst es)
     \<and> no_tombs t \<and> lh_count t < lh_size t \<and> 3 \<le> lh_size t"

lemma filled_has_empty:
  assumes "filled t es"
  shows "has_empty t"
proof -
  obtain ord where "lh_inv t ord" using assms by (auto simp: filled_def)
  then obtain m where "m < length (lh_tab t)" "\<not> is_live (lh_tab t ! m)"
    using free_slot_exists assms by (metis filled_def)
  moreover then have "lh_k (lh_tab t ! m) \<noteq> LH_FREED" using assms by (simp add: filled_def no_tombs_def)
  ultimately show ?thesis by (auto simp: has_empty_def is_live_def split: slot.splits)
qed

lemma insert_filled:
  assumes inv: "lh_inv t ord" and k: "k \<notin> set (lh_keys t ord)" and d: "distinct (lh_keys t ord)"
    and rest: "no_tombs t" "3 \<le> lh_size t"
  shows "\<exists>t'. lh_insert t k v = Some (Inr t') \<and> filled t' (lh_items t ord @ [(k, v)]) \<and> same_fns t t'"
proof -
  have "length ord + 4 \<le> nat (lh_count t) + 4" using inv by (simp add: lh_inv_def)
  then obtain t' ord' where "lh_table_insert (nat (lh_count t) + 4) t k v = Some (Inr t')" "lh_inv t' ord'"
     "lh_items t' ord' = lh_items t ord @ [(k, v)]" "same_fns t t'" "over_load t \<or> no_tombs t \<longrightarrow> no_tombs t'"
     "lh_size t \<le> lh_size t'" "3 \<le> lh_size t \<longrightarrow> lh_count t' < lh_size t'"
    using insert_spec [OF inv] by blast
  moreover then have "filled t' (lh_items t ord @ [(k, v)])"
    unfolding filled_def using k d rest by (auto simp: lh_keys_def)
  ultimately show ?thesis by (auto simp: lh_insert_def)
qed

text \<open>
  After a key was deleted its slot is the only tombstone, and the insertion of the same key takes that
  slot again (or the table is copied): no tombstone stays.
\<close>

lemma reinsert_same_slot:
  assumes inv: "lh_inv t ord" and load: "\<not> over_load t"
    and n: "n < length (lh_tab t)" "\<not> is_live (lh_tab t ! n)" "probes (lh_tab t) (home_slot t k) n"
    and tomb: "\<And>m. m < length (lh_tab t) \<Longrightarrow> lh_k (lh_tab t ! m) = LH_FREED \<Longrightarrow> m = n"
  shows "\<exists>t' ord'. lh_table_insert (Suc f) t k v = Some (Inr t') \<and> lh_inv t' ord'
     \<and> lh_items t' ord' = lh_items t ord @ [(k, v)] \<and> lh_size t' = lh_size t \<and> same_fns t t' \<and> no_tombs t'"
proof -
  let ?t = "t\<lparr>lh_inserts := lh_inserts t + 1\<rparr>" and ?h = "home_slot t k" and ?sz = "length (lh_tab t)"
  have home: "home_slot ?t k = ?h" by (simp add: home_slot_def)
  have "lh_count ?t < lh_size ?t" using load inv by (simp add: over_load_def lh_inv_def)
  then obtain t' m where t': "insert_probed ?t k v = Some (Inr t')" "lh_inv t' (ord @ [m])"
      "lh_items t' (ord @ [m]) = lh_items ?t ord @ [(k, v)]" "lh_size t' = lh_size ?t" "same_fns ?t t'"
      "\<And>i. lh_k (lh_tab t' ! i) = (if i = m then Live k else lh_k (lh_tab ?t ! i))"
      "\<not> is_live (lh_tab t ! m)"
      "\<exists>d < ?sz. m = (?h + d) mod ?sz \<and> (\<forall>e < d. is_live (lh_tab t ! ((?h + e) mod ?sz)))"
    using insert_probed_spec [of ?t ord k v] inv home by auto
  obtain d where d: "m = (?h + d) mod ?sz" "\<forall>e < d. is_live (lh_tab t ! ((?h + e) mod ?sz))"
    using t'(8) by blast
  obtain d' where d': "n = (?h + d') mod ?sz" "\<forall>e < d'. lh_k (lh_tab t ! ((?h + e) mod ?sz)) \<noteq> LH_EMPTY"
    using n(3) by (auto simp: probes_def)
  have pos: "0 < ?sz" using n(1) by linarith
  have "m = n"
  proof (rule ccontr)
    assume "m \<noteq> n"
    then have "d \<noteq> d'" using d d' by auto
    moreover have "\<not> d' < d" using d(2) d'(1) n(2) by auto
    ultimately have "d < d'" by simp
    then have "lh_k (lh_tab t ! m) \<noteq> LH_EMPTY" using d' d(1) by blast
    with t'(7) have "lh_k (lh_tab t ! m) = LH_FREED" by (simp add: is_live_def split: slot.splits)
    then show False using tomb [of m] d(1) pos \<open>m \<noteq> n\<close> by simp
  qed
  have "length (lh_tab t') = ?sz" using t'(2,4) inv by (simp add: lh_inv_def)
  then have "no_tombs t'" using t'(6) tomb \<open>m = n\<close> by (auto simp: no_tombs_def)
  then show ?thesis using t' load by (auto simp: Let_def same_fns_def)
qed

lemma put_present:
  assumes f: "filled t es" and k: "k \<in> fst ` set es"
  shows "\<exists>t' fr. lh_put t k v = Some (Inr (fr, t')) \<and> filled t' (without_key k es @ [(k, v)]) \<and> same_fns t t'
     \<and> fr = (if lh_free_fn t then [(k, the (map_of es k))] else [])"
proof -
  obtain ord where inv: "lh_inv t ord" and es: "es = lh_items t ord" using f by (auto simp: filled_def)
  have dist: "distinct (lh_keys t ord)" and size: "3 \<le> lh_size t"
    using f es by (simp_all add: filled_def lh_keys_def)
  have "k \<in> set (lh_keys t ord)" using k es by (auto simp: lh_keys_def)
  then obtain n where n: "n \<in> set ord" "key_of (lh_tab t ! n) = k" using in_keys_slot by metis
  obtain t1 where t1: "lh_table_delete t k = Some (Inr (0, if lh_free_fn t then [(k, lh_v (lh_tab t ! n))] else [], t1))"
      "lh_inv t1 (remove1 n ord)" "lh_items t1 (remove1 n ord) = without_key k es" "lh_size t1 = lh_size t"
      "same_fns t t1" "\<And>m. lh_k (lh_tab t1 ! m) = (if m = n then LH_FREED else lh_k (lh_tab t ! m))"
    using delete_present [OF inv dist n] es by auto
  have v: "the (map_of es k) = lh_v (lh_tab t ! n)" using map_of_item [OF dist n(1)] n(2) es by simp
  have len: "length (lh_tab t1) = length (lh_tab t)" using t1(2,4) inv by (simp add: lh_inv_def)
  have "\<exists>t' ord'. lh_insert t1 k v = Some (Inr t') \<and> lh_inv t' ord'
     \<and> lh_items t' ord' = without_key k es @ [(k, v)] \<and> same_fns t1 t' \<and> no_tombs t'
     \<and> lh_count t' < lh_size t' \<and> 3 \<le> lh_size t'"
  proof (cases "over_load t1")
    case True
    have "length (remove1 n ord) + 4 \<le> nat (lh_count t1) + 4" using t1(2) by (simp add: lh_inv_def)
    then show ?thesis
      using insert_spec [OF t1(2), of "nat (lh_count t1) + 4" k v] True t1(3,4) size
      unfolding lh_insert_def by (metis order_trans)
  next
    case False
    have "probes (lh_tab t) (home_slot t k) n" using inv n by (auto simp: lh_inv_def)
    then have "probes (lh_tab t1) (home_slot t k) n" by (rule probes_mono [OF _ len]) (simp add: t1(6))
    then have probes: "probes (lh_tab t1) (home_slot t1 k) n"
      using t1(4,5) by (simp add: home_slot_def same_fns_def)
    have nb: "n < length (lh_tab t1)" using n(1) inv len by (simp add: lh_inv_def)
    have dead: "\<not> is_live (lh_tab t1 ! n)" using t1(6) [of n] by (simp add: is_live_def)
    have tomb: "m = n" if "m < length (lh_tab t1)" "lh_k (lh_tab t1 ! m) = LH_FREED" for m
      using that t1(6) [of m] f len by (auto simp: filled_def no_tombs_def split: if_splits)
    obtain t' ord' where t': "lh_insert t1 k v = Some (Inr t')" "lh_inv t' ord'"
       "lh_items t' ord' = lh_items t1 (remove1 n ord) @ [(k, v)]" "lh_size t' = lh_size t1" "same_fns t1 t'" "no_tombs t'"
      using reinsert_same_slot [OF t1(2) False nb dead probes tomb, of "nat (lh_count t1) + 3" v]
      by (auto simp: lh_insert_def numeral_eq_Suc)
    have "length ord' = length ord" using t'(3) t1(3) es n(1) by (metis length_Suc_conv length_append_singleton length_lh_items
        length_remove1 One_nat_def Suc_pred length_pos_if_in_set)
    then have "lh_count t' = lh_count t" using t'(2) inv by (simp add: lh_inv_def)
    moreover have "lh_count t < lh_size t" using f by (simp add: filled_def)
    ultimately show ?thesis using t' t1(3,4) size by auto
  qed
  then obtain t' ord' where t': "lh_insert t1 k v = Some (Inr t')" "lh_inv t' ord'"
     "lh_items t' ord' = without_key k es @ [(k, v)]" "same_fns t1 t'" "no_tombs t'"
     "lh_count t' < lh_size t'" "3 \<le> lh_size t'"
    by blast
  moreover have "distinct (map fst (without_key k es @ [(k, v)]))"
    using dist es by (simp add: distinct_without_key lh_keys_def)
  ultimately have "filled t' (without_key k es @ [(k, v)])" by (auto simp: filled_def)
  moreover have "lh_put t k v = Some (Inr (if lh_free_fn t then [(k, the (map_of es k))] else [], t'))"
    using t1(1) t'(1) v by (simp add: lh_put_def)
  ultimately show ?thesis using same_fns_trans [OF t1(5) t'(4)] by blast
qed

lemma put_absent:
  assumes f: "filled t es" and k: "k \<notin> fst ` set es"
  shows "\<exists>t'. lh_put t k v = Some (Inr ([], t')) \<and> filled t' (es @ [(k, v)]) \<and> same_fns t t'"
proof -
  obtain ord where inv: "lh_inv t ord" and es: "es = lh_items t ord" using f by (auto simp: filled_def)
  let ?tl = "t\<lparr>lh_lookups := lh_lookups t + 1\<rparr>"
  have "k \<notin> set (lh_keys t ord)" using k es by (auto simp: lh_keys_def)
  then have "lh_table_delete t k = Some (Inr (-1, [], ?tl))"
    using delete_absent [OF inv _ filled_has_empty [OF f]] by blast
  moreover obtain t' where "lh_insert ?tl k v = Some (Inr t')" "filled t' (lh_items ?tl ord @ [(k, v)])" "same_fns ?tl t'"
    using insert_filled [of ?tl ord k v] inv f es k by (auto simp: filled_def lh_keys_def)
  ultimately show ?thesis using es by (auto simp: lh_put_def same_fns_def)
qed

section \<open>The dictionary\<close>

text \<open>
  What \<open>json_object_object_add\<close> promises of the contents: the old entry of the key goes, the new one comes
  last.
\<close>

definition dict_put :: "('k \<times> 'v option) list \<Rightarrow> 'k \<Rightarrow> 'v option \<Rightarrow> ('k \<times> 'v option) list" where
  "dict_put es k v = without_key k es @ [(k, v)]"

lemma put_filled:
  assumes "filled t es"
  shows "\<exists>t' fr. lh_put t k v = Some (Inr (fr, t')) \<and> filled t' (dict_put es k v)"
proof (cases "k \<in> fst ` set es")
  case True
  then show ?thesis using put_present [OF assms True, of v] by (auto simp: dict_put_def)
next
  case False
  then have "without_key k es = es" by (auto simp: without_key_def filter_id_conv)
  then show ?thesis using put_absent [OF assms False, of v] by (auto simp: dict_put_def)
qed

lemma lookup_filled:
  assumes "filled t es"
  shows "lh_table_lookup t k =
     Some (Inr (case map_of es k of Some v \<Rightarrow> v | None \<Rightarrow> None, t\<lparr>lh_lookups := lh_lookups t + 1\<rparr>))"
proof -
  obtain ord where "lh_inv t ord" "es = lh_items t ord" using assms by (auto simp: filled_def)
  then show ?thesis
    using lookup_value [of t ord k] filled_has_empty [OF assms] assms by (auto simp: filled_def lh_keys_def)
qed

lemma filled_lookups [simp]: "filled (t\<lparr>lh_lookups := a\<rparr>) es = filled t es"
  by (simp add: filled_def lh_items_def no_tombs_def)

lemma foreach_filled: "filled t es \<Longrightarrow> lh_foreach t = Some (Inr es)"
  using foreach_items by (auto simp: filled_def)

lemma filled_new:
  assumes "3 \<le> sz" "eq = (=)"
  shows "filled (lh_table_new sz fr h eq) []"
proof -
  have "lh_inv (lh_table_new sz fr h eq) []" "lh_items (lh_table_new sz fr h eq) [] = []"
    using lh_table_new_inv [of sz eq fr h] assms by auto
  moreover have "no_tombs (lh_table_new sz fr h eq)" "lh_count (lh_table_new sz fr h eq) < lh_size (lh_table_new sz fr h eq)"
      "3 \<le> lh_size (lh_table_new sz fr h eq)"
    using assms by (simp_all add: no_tombs_def lh_table_new_def empty_entry_def)
  ultimately show ?thesis unfolding filled_def by (metis distinct.simps(1) list.simps(8))
qed

text \<open>A sequence of additions, and what a client of such a dictionary may conclude from its laws.\<close>

fun put_each :: "('s \<Rightarrow> 'k \<Rightarrow> 'v option \<Rightarrow> ('f \<times> 's) run) \<Rightarrow> 's \<Rightarrow> ('k \<times> 'v option) list \<Rightarrow> 's run" where
  "put_each put s [] = Some (Inr s)"
| "put_each put s ((k, v) # kvs) = ubind (put s k v) (\<lambda>(_, s'). put_each put s' kvs)"

lemma rev_clearjunk_snoc: "rev (AList.clearjunk (rev (kvs @ [(k, v)]))) = dict_put (rev (AList.clearjunk (rev kvs))) k v"
proof -
  have "AList.clearjunk (AList.delete k (rev kvs)) = without_key k (AList.clearjunk (rev kvs))"
    unfolding clearjunk_delete unfolding without_key_def AList.delete_eq by (rule filter_cong) auto
  then show ?thesis by (simp add: dict_put_def without_key_def rev_filter)
qed

lemma foldl_dict_put: "foldl (\<lambda>es (k, v). dict_put es k v) [] kvs = rev (AList.clearjunk (rev kvs))"
  by (induction kvs rule: rev_induct) (simp_all only: rev_clearjunk_snoc foldl_append split_paired_all, simp_all)

locale linked_dict =
  fixes put :: "'s \<Rightarrow> 'k \<Rightarrow> 'v option \<Rightarrow> ('f \<times> 's) run"
    and find :: "'s \<Rightarrow> 'k \<Rightarrow> ('v option \<times> 's) run"
    and walk :: "'s \<Rightarrow> ('k \<times> 'v option) list run"
    and holds :: "'s \<Rightarrow> ('k \<times> 'v option) list \<Rightarrow> bool"
  assumes put_law: "holds s es \<Longrightarrow> \<exists>s' fr. put s k v = Some (Inr (fr, s')) \<and> holds s' (dict_put es k v)"
    and find_law: "holds s es \<Longrightarrow>
      \<exists>s'. find s k = Some (Inr (case map_of es k of Some v \<Rightarrow> v | None \<Rightarrow> None, s')) \<and> holds s' es"
    and walk_law: "holds s es \<Longrightarrow> walk s = Some (Inr es)"
begin

lemma put_each_holds:
  "holds s es \<Longrightarrow> \<exists>s'. put_each put s kvs = Some (Inr s') \<and> holds s' (foldl (\<lambda>es (k, v). dict_put es k v) es kvs)"
proof (induction kvs arbitrary: s es)
  case (Cons kv kvs)
  obtain k v where kv: "kv = (k, v)" by force
  obtain s1 fr where s1: "put s k v = Some (Inr (fr, s1))" "holds s1 (dict_put es k v)"
    using put_law [OF Cons.prems] by blast
  show ?case using Cons.IH [OF s1(2)] s1(1) kv by simp
qed simp

lemma fill_from_empty:
  assumes "holds s []"
  shows "\<exists>s'. put_each put s kvs = Some (Inr s') \<and> holds s' (rev (AList.clearjunk (rev kvs)))"
  using put_each_holds [OF assms, of kvs] by (simp add: foldl_dict_put)

lemma walk_after:
  assumes "holds s []"
  shows "\<exists>s'. put_each put s kvs = Some (Inr s') \<and> walk s' = Some (Inr (rev (AList.clearjunk (rev kvs))))"
  using fill_from_empty [OF assms, of kvs] walk_law by blast

lemma map_of_kept: "map_of (rev (AList.clearjunk (rev kvs))) = map_of (rev kvs)"
proof -
  have "map_of (rev (AList.clearjunk (rev kvs))) = map_of (AList.clearjunk (rev kvs))"
    by (simp add: map_of_inject_set distinct_clearjunk flip: rev_map)
  then show ?thesis by (simp add: map_of_clearjunk)
qed

lemma find_after:
  assumes "holds s []" "put_each put s kvs = Some (Inr s')"
  shows "\<exists>s''. find s' k = Some (Inr (case map_of (rev kvs) k of Some v \<Rightarrow> v | None \<Rightarrow> None, s''))"
proof -
  have "holds s' (rev (AList.clearjunk (rev kvs)))" using fill_from_empty [OF assms(1), of kvs] assms(2) by simp
  from find_law [OF this, of k] show ?thesis by (auto simp: map_of_kept)
qed

end

interpretation lh: linked_dict lh_put lh_table_lookup lh_foreach filled
  by unfold_locales (auto simp: lookup_filled foreach_filled intro: put_filled [THEN exE])

text \<open>
  C20: A table with at least three slots that is only filled by delete-then-insert (as
  json_object_object_add does) is an insertion-ordered dictionary: every call returns, the walk
  gives each key once at its last addition, and a lookup gives the last value written.
\<close>

theorem lh_table_is_ordered_dictionary:
  assumes "3 \<le> sz"
  shows "\<exists>t. put_each lh_put (lh_kchar_table_new sz fr) kvs = Some (Inr t)
     \<and> lh_foreach t = Some (Inr (rev (AList.clearjunk (rev kvs))))
     \<and> (\<forall>k. \<exists>t'. lh_table_lookup t k =
              Some (Inr (case map_of (rev kvs) k of Some v \<Rightarrow> v | None \<Rightarrow> None, t')))"
proof -
  have "filled (lh_kchar_table_new sz fr) []"
    unfolding lh_kchar_table_new_def using assms by (intro filled_new) (simp_all add: lh_char_equal_eq)
  from lh.walk_after [OF this] lh.find_after [OF this] show ?thesis by blast
qed

theorem lh_table_is_ordered_dictionary_witness:
  "\<exists>t. put_each lh_put (lh_kchar_table_new 16 False) [(''w'', Some 1), (''h'', Some 2), (''w'', Some (3::int))]
       = Some (Inr t)
     \<and> lh_foreach t = Some (Inr [(''h'', Some 2), (''w'', Some 3)])"
  using lh_table_is_ordered_dictionary [of 16 False "[(''w'', Some 1), (''h'', Some 2), (''w'', Some (3::int))]"]
  by (auto simp: AList.delete_eq)

section \<open>Tables from which keys are deleted\<close>

text \<open>Additions and deletions of one key after the other, as a client that uses a table as a scratch set does.\<close>

fun lh_churn :: "('k, 'v) lh_table \<Rightarrow> 'k list \<Rightarrow> 'v option \<Rightarrow> ('k, 'v) lh_table run" where
  "lh_churn t [] v = Some (Inr t)"
| "lh_churn t (k # ks) v =
     ubind (lh_insert t k v) (\<lambda>t1. ubind (lh_table_delete t1 k) (\<lambda>(_, _, t2). lh_churn t2 ks v))"

lemma churn_one:
  assumes inv: "lh_inv t []"
  shows "\<exists>t'. lh_churn t (k # ks) v = lh_churn t' ks v \<and> lh_inv t' [] \<and> lh_size t' = lh_size t \<and> same_fns t t'
     \<and> (\<forall>m. lh_k (lh_tab t' ! m) = (if m = home_slot t k then LH_FREED else lh_k (lh_tab t ! m)))"
proof -
  let ?ti = "t\<lparr>lh_inserts := lh_inserts t + 1\<rparr>" and ?h = "home_slot t k"
  have inv_i: "lh_inv ?ti []" "lh_count ?ti < lh_size ?ti" using inv by (simp, simp add: lh_inv_def)
  have dead: "\<not> is_live (lh_tab t ! m)" if "m < length (lh_tab t)" for m using inv that by (simp add: lh_inv_def)
  have home: "home_slot ?ti k = ?h" by (simp add: home_slot_def)
  have pos: "0 < length (lh_tab t)" using lh_inv_size [OF inv] by simp
  have tab: "lh_tab ?ti = lh_tab t" "lh_size ?ti = lh_size t" "\<And>u. same_fns ?ti u = same_fns t u" by simp_all
  have "\<exists>u n. insert_probed ?ti k v = Some (Inr u) \<and> lh_inv u [n] \<and> lh_size u = lh_size t \<and> same_fns t u
      \<and> (\<forall>m. lh_k (lh_tab u ! m) = (if m = n then Live k else lh_k (lh_tab t ! m)))
      \<and> (\<exists>d < length (lh_tab t). n = (?h + d) mod length (lh_tab t)
          \<and> (\<forall>e < d. is_live (lh_tab t ! ((?h + e) mod length (lh_tab t)))))"
    using insert_probed_spec [OF inv_i, of k v] unfolding tab home append_Nil by blast
  then obtain t1 n where t1: "insert_probed ?ti k v = Some (Inr t1)" "lh_inv t1 [n]"
      "lh_size t1 = lh_size t" "same_fns t t1"
      "\<And>m. lh_k (lh_tab t1 ! m) = (if m = n then Live k else lh_k (lh_tab t ! m))"
      "\<exists>d < length (lh_tab t). n = (?h + d) mod length (lh_tab t)
          \<and> (\<forall>e < d. is_live (lh_tab t ! ((?h + e) mod length (lh_tab t))))"
    by blast
  then obtain d where d: "n = (?h + d) mod length (lh_tab t)"
      "\<forall>e < d. is_live (lh_tab t ! ((?h + e) mod length (lh_tab t)))" by blast
  have "d = 0"
  proof (rule ccontr)
    assume "d \<noteq> 0"
    then have "is_live (lh_tab t ! (?h mod length (lh_tab t)))" using d(2) [rule_format, of 0] by simp
    then show False using dead pos by simp
  qed
  then have n: "n = ?h" using d(1) home_slot_bound [OF inv, of k] by simp
  have "\<not> over_load t" using inv by (simp add: over_load_def lh_inv_def)
  then have ins: "lh_insert t k v = Some (Inr t1)"
    using t1(1) inv by (simp add: lh_insert_def lh_inv_def numeral_eq_Suc)
  have key: "key_of (lh_tab t1 ! n) = k" by (rule key_of_Live) (simp add: t1(5))
  have "distinct (lh_keys t1 [n])" by (simp add: lh_keys_eq)
  from delete_present [OF t1(2) this _ key] obtain fr t2 where
    t2: "lh_table_delete t1 k = Some (Inr (0, fr, t2))" "lh_inv t2 []" "lh_size t2 = lh_size t1" "same_fns t1 t2"
      "\<And>m. lh_k (lh_tab t2 ! m) = (if m = n then LH_FREED else lh_k (lh_tab t1 ! m))"
    by auto
  show ?thesis
    using ins t2(1,2,3) t1(3) same_fns_trans [OF t1(4) t2(4)] n by (intro exI [of _ t2]) (simp add: t2(5) t1(5))
qed

lemma churn_wears_out:
  assumes "lh_inv t []"
  shows "\<exists>t'. lh_churn t ks v = Some (Inr t') \<and> lh_inv t' [] \<and> lh_size t' = lh_size t
     \<and> (\<forall>m. lh_k (lh_tab t' ! m) = (if m \<in> home_slot t ` set ks then LH_FREED else lh_k (lh_tab t ! m)))"
  using assms
proof (induction ks arbitrary: t)
  case (Cons k ks)
  obtain t1 where t1: "lh_churn t (k # ks) v = lh_churn t1 ks v" "lh_inv t1 []" "lh_size t1 = lh_size t"
      "same_fns t t1" "\<And>m. lh_k (lh_tab t1 ! m) = (if m = home_slot t k then LH_FREED else lh_k (lh_tab t ! m))"
    using churn_one [OF Cons.prems, of k ks v] by blast
  have home: "home_slot t1 = home_slot t" using t1(3,4) by (simp add: home_slot_def same_fns_def fun_eq_iff)
  show ?case using Cons.IH [OF t1(2)] t1(1,3) unfolding home by (auto simp: t1(5))
qed auto

lemma lh_kchar_table_new_inv:
  assumes "0 < sz"
  shows "lh_inv (lh_kchar_table_new sz fr) []" "has_empty (lh_kchar_table_new sz fr)"
    "lh_size (lh_kchar_table_new sz fr) = sz" "length (lh_tab (lh_kchar_table_new sz fr)) = nat sz"
  using lh_table_new_inv [OF assms, of lh_char_equal] lh_char_equal_eq
  by (auto simp: lh_kchar_table_new_def lh_table_new_def)

text \<open>
  C30: After insertions and deletions of keys whose home slots cover the table, the table is empty,
  the walk finds nothing, but every lookup and every json_object_object_add runs forever, because a
  freed slot is never taken for empty again.
\<close>

theorem lh_table_wears_out:
  assumes "0 < sz" and "home_slot (lh_kchar_table_new sz fr :: (char list, 'v) lh_table) ` set ks = {0..<nat sz}"
  shows "\<exists>t :: (char list, 'v) lh_table. lh_churn (lh_kchar_table_new sz fr) ks v = Some (Inr t)
     \<and> lh_foreach t = Some (Inr []) \<and> lh_count t = 0
     \<and> (\<forall>k w. lh_table_lookup t k = None \<and> lh_put t k w = None)"
proof -
  let ?t = "lh_kchar_table_new sz fr :: (char list, 'v) lh_table"
  note new = lh_kchar_table_new_inv [OF assms(1), of fr]
  obtain t where t: "lh_churn ?t ks v = Some (Inr t)" "lh_inv t []" "lh_size t = sz"
      "\<And>m. lh_k (lh_tab t ! m) = (if m \<in> {0..<nat sz} then LH_FREED else lh_k (lh_tab ?t ! m))"
    using churn_wears_out [OF new(1), of ks v] unfolding assms(2) new(3) by blast
  have "length (lh_tab t) = nat sz" using t(2,3) by (auto simp: lh_inv_def)
  then have full: "\<not> has_empty t" by (simp add: has_empty_def t(4))
  have none: "lh_table_lookup_entry t k = None" for k
    by (rule lookup_absent_diverges [OF t(2) _ full]) (simp add: lh_keys_eq)
  have "lh_foreach t = Some (Inr [])" using foreach_items [OF t(2)] by (simp add: lh_items_def)
  moreover have "lh_count t = 0" using t(2) by (simp add: lh_inv_def)
  ultimately show ?thesis
    using t(1) none by (simp add: lh_table_lookup_def lh_put_def lh_table_delete_def)
qed

lemma lh_table_wears_out_witness:
  "\<exists>t :: (char list, int) lh_table.
     lh_churn (lh_kchar_table_new 16 False) (map (\<lambda>c. [c]) ''opqrstuvwxyz{|}~'') (Some 0) = Some (Inr t)
     \<and> lh_table_lookup t ''name'' = None"
proof -
  let ?t = "lh_kchar_table_new 16 False :: (char list, int) lh_table" and ?ks = "map (\<lambda>c. [c]) ''opqrstuvwxyz{|}~''"
  have "map (home_slot ?t) ?ks = [0..<16]"
    by (simp add: home_slot_def lh_kchar_table_new_def lh_table_new_def lh_char_hash_def char_to_uint_def
        LH_PRIME_def of_char_def upt_conv_Cons)
  then have "home_slot ?t ` set ?ks = {0..<nat 16}" by (metis list.set_map nat_numeral set_upt)
  from lh_table_wears_out [OF _ this] show ?thesis by fastforce
qed

text \<open>
  A lookup in a well-formed table without duplicate keys returns exactly when the key is there or
  some slot was never used.
\<close>

theorem lookup_returns_iff:
  assumes "lh_inv t ord" "distinct (lh_keys t ord)"
  shows "lh_table_lookup t k \<noteq> None \<longleftrightarrow> k \<in> set (lh_keys t ord) \<or> has_empty t"
proof (cases "k \<in> set (lh_keys t ord) \<or> has_empty t")
  case True
  then show ?thesis using lookup_value [OF assms, of k] by auto
next
  case False
  then show ?thesis using lookup_absent_diverges [OF assms(1)] by (simp add: lh_table_lookup_def)
qed

lemma lookup_returns_iff_witness:
  "lh_table_lookup (lh_kchar_table_new 16 False :: (char list, int) lh_table) ''name'' \<noteq> None"
proof -
  let ?t = "lh_kchar_table_new 16 False :: (char list, int) lh_table"
  have "lh_inv ?t []" "has_empty ?t" by (simp_all add: lh_kchar_table_new_inv)
  then show ?thesis using lookup_returns_iff [of ?t "[]" "''name''"] by (simp add: lh_keys_def lh_items_def)
qed

text \<open>
  Inserting into any well-formed table returns, keeps the table well-formed, appends the entry at
  the end of the linked order, never shrinks the table and, from three slots on, leaves a slot free.
\<close>

theorem lh_insert_appends:
  assumes "lh_inv t ord"
  shows "\<exists>t' ord'. lh_insert t k v = Some (Inr t') \<and> lh_inv t' ord' \<and> lh_items t' ord' = lh_items t ord @ [(k, v)]
     \<and> lh_count t' = lh_count t + 1 \<and> lh_size t \<le> lh_size t' \<and> (3 \<le> lh_size t \<longrightarrow> lh_count t' < lh_size t')"
proof -
  have "length ord + 4 \<le> nat (lh_count t) + 4" using assms by (simp add: lh_inv_def)
  then obtain t' ord' where t': "lh_table_insert (nat (lh_count t) + 4) t k v = Some (Inr t')" "lh_inv t' ord'"
     "lh_items t' ord' = lh_items t ord @ [(k, v)]" "lh_size t \<le> lh_size t'" "3 \<le> lh_size t \<longrightarrow> lh_count t' < lh_size t'"
    using insert_spec [OF assms] by blast
  moreover have "length ord' = Suc (length ord)" using arg_cong [OF t'(3), of length] by simp
  ultimately show ?thesis using assms by (auto simp: lh_insert_def lh_inv_def)
qed

lemma lh_insert_appends_witness:
  "\<exists>t' ord'. lh_insert (lh_kptr_table_new 1 False :: (64 word, int) lh_table) 5 None = Some (Inr t')
     \<and> lh_items t' ord' = [(5, None)]"
proof -
  have "lh_inv (lh_kptr_table_new 1 False :: (64 word, int) lh_table) []"
    unfolding lh_kptr_table_new_def lh_ptr_equal_eq using lh_table_new_inv [OF zero_less_one refl] by blast
  from lh_insert_appends [OF this, of 5 None]
  show ?thesis unfolding lh_items_def [of _ "[]"] list.map append_Nil by blast
qed

end
