(* ===== verification/Json_Object.thy ===== *)
theory Json_Object
  imports C_Lib Array_List Print_Buf Link_Hash_Dict
begin

text \<open>
  The reference-counted values of \<open>texteditor/json/json_object.c\<close>. The objects live in a store of
  blocks: a pointer is the number of a block, \<open>None\<close> for \<open>NULL\<close>; blocks are never handed out
  again, so a use of a freed object shows as \<open>Use_After_Free\<close>. The union \<open>o\<close> remembers which member was
  written last, and reading it as another pointer member is \<open>Wild_Pointer\<close> (\<open>Null_Deref\<close> while it is as
  \<open>calloc\<close> left it). Strings, tables, arrays and the print buffer of an object belong to one object only
  and are values in its record.
\<close>

section \<open>Data\<close>

type_synonym addr = nat

type_synonym jptr = "addr option"

datatype json_type =
    json_type_null | json_type_boolean | json_type_double | json_type_int | json_type_object
  | json_type_array | json_type_string

text \<open>The functions \<open>_delete\<close> can point to, and those \<open>_to_json_string\<close> can.\<close>

datatype delete_fn = generic_delete | object_delete | array_delete | string_delete

datatype to_json_fn =
    boolean_to_json | double_to_json | int_to_json | object_to_json | array_to_json | string_to_json

datatype json_data =
    C_calloc
  | C_boolean "8 word"
  | C_double "64 word"
  | C_int "32 word"
  | C_object "(char list, addr) lh_table"
  | C_array "addr array_list option"
  | C_string "char list option"

record json_object =
  o_type :: json_type
  delete_fn :: delete_fn
  to_json_fn :: "to_json_fn option"
  ref_count :: int
  own_pb :: "printbuf option"
  o_data :: json_data

record json_heap =
  objs :: "addr \<Rightarrow> json_object option"
  next_addr :: addr

definition empty_heap :: json_heap where
  "empty_heap = \<lparr>objs = (\<lambda>_. None), next_addr = 0\<rparr>"

definition jderef :: "json_heap \<Rightarrow> jptr \<Rightarrow> (addr \<times> json_object) res" where
  "jderef h p = (case p of None \<Rightarrow> Inl Null_Deref
     | Some a \<Rightarrow> (case objs h a of None \<Rightarrow> Inl Use_After_Free | Some j \<Rightarrow> Inr (a, j)))"

definition jstore :: "json_heap \<Rightarrow> addr \<Rightarrow> json_object \<Rightarrow> json_heap" where
  "jstore h a j = h\<lparr>objs := (objs h)(a := Some j)\<rparr>"

definition jfree :: "json_heap \<Rightarrow> addr \<Rightarrow> json_heap" where
  "jfree h a = h\<lparr>objs := (objs h)(a := None)\<rparr>"

lemma jstore_simps [simp]:
  "objs (jstore h a j) = (objs h)(a \<mapsto> j)" "next_addr (jstore h a j) = next_addr h"
  by (simp_all add: jstore_def)

lemma jfree_simps [simp]:
  "objs (jfree h a) = (objs h)(a := None)" "next_addr (jfree h a) = next_addr h"
  by (simp_all add: jfree_def)

text \<open>The members of the union, as pointers.\<close>

definition as_table :: "json_object \<Rightarrow> (char list, addr) lh_table res" where
  "as_table j = (case o_data j of C_object t \<Rightarrow> Inr t | C_calloc \<Rightarrow> Inl Null_Deref | _ \<Rightarrow> Inl Wild_Pointer)"

definition as_array :: "json_object \<Rightarrow> addr array_list res" where
  "as_array j = (case o_data j of
      C_array (Some l) \<Rightarrow> Inr l | C_array None \<Rightarrow> Inl Null_Deref | C_calloc \<Rightarrow> Inl Null_Deref
    | _ \<Rightarrow> Inl Wild_Pointer)"

definition as_string :: "json_object \<Rightarrow> char list res" where
  "as_string j = (case o_data j of
      C_string (Some s) \<Rightarrow> Inr s | C_string None \<Rightarrow> Inl Null_Deref | C_calloc \<Rightarrow> Inl Null_Deref
    | _ \<Rightarrow> Inl Wild_Pointer)"

section \<open>Construction\<close>

definition JSON_OBJECT_DEF_HASH_ENTRIES :: int where "JSON_OBJECT_DEF_HASH_ENTRIES = 16"

definition sizeof_json_object :: int where "sizeof_json_object = 48"

definition json_object_new :: "cenv \<Rightarrow> json_heap \<Rightarrow> json_type \<Rightarrow> jptr \<times> json_heap" where
  "json_object_new E h ty =
     (if \<not> mem E sizeof_json_object then (None, h)
      else (Some (next_addr h),
            \<lparr>objs = (objs h)(next_addr h :=
                Some \<lparr>o_type = ty, delete_fn = generic_delete, to_json_fn = None, ref_count = 1,
                      own_pb = None, o_data = C_calloc\<rparr>),
             next_addr = Suc (next_addr h)\<rparr>))"

text \<open>The rest of the constructors: the fields set on the new object, when there is one.\<close>

definition json_setup ::
  "jptr \<times> json_heap \<Rightarrow> (json_object \<Rightarrow> json_object) \<Rightarrow> jptr \<times> json_heap" where
  "json_setup r f = (case r of
      (None, h) \<Rightarrow> (None, h)
    | (Some a, h) \<Rightarrow> (Some a, h\<lparr>objs := (objs h)(a := map_option f (objs h a))\<rparr>))"

definition json_object_new_object :: "cenv \<Rightarrow> json_heap \<Rightarrow> jptr \<times> json_heap" where
  "json_object_new_object E h =
     json_setup (json_object_new E h json_type_object) (\<lambda>j.
       j\<lparr>delete_fn := object_delete, to_json_fn := Some object_to_json,
         o_data := C_object (lh_kchar_table_new JSON_OBJECT_DEF_HASH_ENTRIES True)\<rparr>)"

definition json_object_new_boolean :: "cenv \<Rightarrow> json_heap \<Rightarrow> 8 word \<Rightarrow> jptr \<times> json_heap" where
  "json_object_new_boolean E h b =
     json_setup (json_object_new E h json_type_boolean) (\<lambda>j.
       j\<lparr>to_json_fn := Some boolean_to_json, o_data := C_boolean b\<rparr>)"

definition json_object_new_int :: "cenv \<Rightarrow> json_heap \<Rightarrow> 32 word \<Rightarrow> jptr \<times> json_heap" where
  "json_object_new_int E h i =
     json_setup (json_object_new E h json_type_int) (\<lambda>j.
       j\<lparr>to_json_fn := Some int_to_json, o_data := C_int i\<rparr>)"

definition json_object_new_double :: "cenv \<Rightarrow> json_heap \<Rightarrow> 64 word \<Rightarrow> jptr \<times> json_heap" where
  "json_object_new_double E h d =
     json_setup (json_object_new E h json_type_double) (\<lambda>j.
       j\<lparr>to_json_fn := Some double_to_json, o_data := C_double d\<rparr>)"

definition json_object_new_string :: "cenv \<Rightarrow> json_heap \<Rightarrow> char list \<Rightarrow> jptr \<times> json_heap" where
  "json_object_new_string E h s =
     json_setup (json_object_new E h json_type_string) (\<lambda>j.
       j\<lparr>delete_fn := string_delete, to_json_fn := Some string_to_json, o_data := C_string (c_strdup E s)\<rparr>)"

definition json_object_new_string_len :: "cenv \<Rightarrow> json_heap \<Rightarrow> char list \<Rightarrow> nat \<Rightarrow> jptr \<times> json_heap" where
  "json_object_new_string_len E h s len =
     json_setup (json_object_new E h json_type_string) (\<lambda>j.
       j\<lparr>delete_fn := string_delete, to_json_fn := Some string_to_json,
         o_data := C_string (c_strdup E (take len s))\<rparr>)"

definition json_object_new_array :: "cenv \<Rightarrow> json_heap \<Rightarrow> jptr \<times> json_heap" where
  "json_object_new_array E h =
     json_setup (json_object_new E h json_type_array) (\<lambda>j.
       j\<lparr>delete_fn := array_delete, to_json_fn := Some array_to_json, o_data := C_array (array_list_new (mem E))\<rparr>)"

section \<open>Reference counting\<close>

definition json_object_get :: "json_heap \<Rightarrow> jptr \<Rightarrow> (jptr \<times> json_heap) res" where
  "json_object_get h p =
     (if p = None then Inr (None, h)
      else rbind (jderef h p) (\<lambda>(a, j). Inr (p, jstore h a (j\<lparr>ref_count := ref_count j + 1\<rparr>))))"

text \<open>
  The values an object gives back when it is deleted: \<open>lh_table_free\<close> hands every entry to
  \<open>json_object_lh_entry_free\<close>, \<open>array_list_free\<close> every element to \<open>json_object_array_entry_free\<close>; both put
  the value. The other deletions only free memory.
\<close>

definition deleted_values :: "json_object \<Rightarrow> jptr list run" where
  "deleted_values j = (case delete_fn j of
      generic_delete \<Rightarrow> Some (Inr [])
    | string_delete \<Rightarrow> Some (Inr [])
    | object_delete \<Rightarrow> ubind (Some (as_table j)) (\<lambda>t. ubind (lh_table_free t) (\<lambda>es. Some (Inr (map snd es))))
    | array_delete \<Rightarrow> ubind (Some (as_array j)) (\<lambda>l. ubind (Some (array_list_free l)) (\<lambda>ds. Some (Inr (map Some ds)))))"

text \<open>The fuel bounds how deep the deletions nest.\<close>

fun json_object_put :: "nat \<Rightarrow> json_heap \<Rightarrow> jptr \<Rightarrow> json_heap run" where
  "json_object_put 0 h p = (if p = None then Some (Inr h) else None)"
| "json_object_put (Suc f) h p =
     (if p = None then Some (Inr h)
      else ubind (Some (jderef h p)) (\<lambda>(a, j).
        let j = j\<lparr>ref_count := ref_count j - 1\<rparr>; h = jstore h a j in
        if ref_count j = 0
        then ubind (deleted_values j) (\<lambda>vs.
             ubind (run_fold (json_object_put f) h vs) (\<lambda>h. Some (Inr (jfree h a))))
        else Some (Inr h)))"

section \<open>Types\<close>

definition json_object_is_type :: "json_heap \<Rightarrow> jptr \<Rightarrow> json_type \<Rightarrow> bool res" where
  "json_object_is_type h p ty = rbind (jderef h p) (\<lambda>(a, j). Inr (o_type j = ty))"

definition json_object_get_type :: "json_heap \<Rightarrow> jptr \<Rightarrow> json_type res" where
  "json_object_get_type h p = rbind (jderef h p) (\<lambda>(a, j). Inr (o_type j))"

section \<open>Objects\<close>

definition json_object_get_object :: "json_heap \<Rightarrow> jptr \<Rightarrow> (char list, addr) lh_table option res" where
  "json_object_get_object h p =
     (if p = None then Inr None
      else rbind (jderef h p) (\<lambda>(a, j).
        if o_type j = json_type_object then rbind (as_table j) (\<lambda>t. Inr (Some t)) else Inr None))"

definition set_table :: "json_heap \<Rightarrow> addr \<Rightarrow> (char list, addr) lh_table \<Rightarrow> json_heap" where
  "set_table h a t = h\<lparr>objs := (objs h)(a := map_option (o_data_update (\<lambda>_. C_object t)) (objs h a))\<rparr>"

text \<open>
  \<open>lh_table_delete\<close> calls \<open>free_fn\<close> on the entry it deletes, which puts the value. The table is stored
  first and the value is put then: they only meet when the value holds the object itself.
\<close>

definition json_object_object_del :: "nat \<Rightarrow> json_heap \<Rightarrow> jptr \<Rightarrow> char list \<Rightarrow> json_heap run" where
  "json_object_object_del f h p key =
     ubind (Some (jderef h p)) (\<lambda>(a, j).
     ubind (Some (as_table j)) (\<lambda>t.
     ubind (lh_table_delete t key) (\<lambda>(r, freed, t).
       run_fold (json_object_put f) (set_table h a t) (map snd freed))))"

definition json_object_object_add ::
  "cenv \<Rightarrow> nat \<Rightarrow> json_heap \<Rightarrow> jptr \<Rightarrow> char list \<Rightarrow> jptr \<Rightarrow> json_heap run" where
  "json_object_object_add E f h p key val =
     ubind (json_object_object_del f h p key) (\<lambda>h.
     ubind (Some (jderef h p)) (\<lambda>(a, j).
     ubind (Some (as_table j)) (\<lambda>t.
       case c_strdup E key of
         None \<Rightarrow> Some (Inl Null_Deref)
       | Some k \<Rightarrow> ubind (lh_insert t k val) (\<lambda>t. Some (Inr (set_table h a t))))))"

definition json_object_object_get :: "json_heap \<Rightarrow> jptr \<Rightarrow> char list \<Rightarrow> (jptr \<times> json_heap) run" where
  "json_object_object_get h p key =
     ubind (Some (jderef h p)) (\<lambda>(a, j).
     ubind (Some (as_table j)) (\<lambda>t.
     ubind (lh_table_lookup t key) (\<lambda>(v, t). Some (Inr (v, set_table h a t)))))"

section \<open>Arrays\<close>

definition json_object_get_array :: "json_heap \<Rightarrow> jptr \<Rightarrow> addr array_list option res" where
  "json_object_get_array h p =
     (if p = None then Inr None
      else rbind (jderef h p) (\<lambda>(a, j).
        if o_type j = json_type_array
        then (case o_data j of C_array l \<Rightarrow> Inr l | C_calloc \<Rightarrow> Inr None | _ \<Rightarrow> Inl Wild_Pointer) else Inr None))"

definition json_object_array_length :: "json_heap \<Rightarrow> jptr \<Rightarrow> int res" where
  "json_object_array_length h p =
     rbind (jderef h p) (\<lambda>(a, j). rbind (as_array j) (\<lambda>l. Inr (array_list_length l)))"

definition json_object_array_get_idx :: "json_heap \<Rightarrow> jptr \<Rightarrow> int \<Rightarrow> jptr res" where
  "json_object_array_get_idx h p i =
     rbind (jderef h p) (\<lambda>(a, j). rbind (as_array j) (\<lambda>l. array_list_get_idx l i))"

definition set_array :: "json_heap \<Rightarrow> addr \<Rightarrow> addr array_list \<Rightarrow> json_heap" where
  "set_array h a l = h\<lparr>objs := (objs h)(a := map_option (o_data_update (\<lambda>_. C_array (Some l))) (objs h a))\<rparr>"

definition json_object_array_put_idx ::
  "cenv \<Rightarrow> nat \<Rightarrow> json_heap \<Rightarrow> jptr \<Rightarrow> int \<Rightarrow> jptr \<Rightarrow> (int \<times> json_heap) run" where
  "json_object_array_put_idx E f h p i val =
     ubind (Some (jderef h p)) (\<lambda>(a, j).
     ubind (Some (as_array j)) (\<lambda>l.
     ubind (Some (array_list_put_idx (mem E) l i val)) (\<lambda>(r, freed, l).
     ubind (run_fold (json_object_put f) (set_array h a l) (map Some freed)) (\<lambda>h. Some (Inr (r, h))))))"

definition json_object_array_add ::
  "cenv \<Rightarrow> nat \<Rightarrow> json_heap \<Rightarrow> jptr \<Rightarrow> jptr \<Rightarrow> (int \<times> json_heap) run" where
  "json_object_array_add E f h p val =
     ubind (Some (jderef h p)) (\<lambda>(a, j).
     ubind (Some (as_array j)) (\<lambda>l.
     ubind (Some (array_list_add (mem E) l val)) (\<lambda>(r, freed, l).
     ubind (run_fold (json_object_put f) (set_array h a l) (map Some freed)) (\<lambda>h. Some (Inr (r, h))))))"

section \<open>Values of the other types\<close>

definition json_object_get_boolean :: "cenv \<Rightarrow> json_heap \<Rightarrow> jptr \<Rightarrow> 8 word res" where
  "json_object_get_boolean E h p =
     (if p = None then Inr 0
      else rbind (jderef h p) (\<lambda>(a, j).
        case o_type j of
          json_type_boolean \<Rightarrow> (case o_data j of C_boolean b \<Rightarrow> Inr b | _ \<Rightarrow> Inl Wild_Pointer)
        | json_type_int \<Rightarrow> (case o_data j of C_int i \<Rightarrow> Inr (if i \<noteq> 0 then 1 else 0) | _ \<Rightarrow> Inl Wild_Pointer)
        | json_type_double \<Rightarrow> (case o_data j of C_double d \<Rightarrow> Inr (if dbl_nonzero E d then 1 else 0) | _ \<Rightarrow> Inl Wild_Pointer)
        | json_type_string \<Rightarrow> rbind (as_string j) (\<lambda>s. Inr (if length s \<noteq> 0 then 1 else 0))
        | _ \<Rightarrow> Inr 0))"

definition json_object_get_int :: "cenv \<Rightarrow> json_heap \<Rightarrow> jptr \<Rightarrow> 32 word res" where
  "json_object_get_int E h p =
     (if p = None then Inr 0
      else rbind (jderef h p) (\<lambda>(a, j).
        case o_type j of
          json_type_int \<Rightarrow> (case o_data j of C_int i \<Rightarrow> Inr i | _ \<Rightarrow> Inl Wild_Pointer)
        | json_type_double \<Rightarrow> (case o_data j of C_double d \<Rightarrow> Inr (int_of_dbl E d) | _ \<Rightarrow> Inl Wild_Pointer)
        | json_type_boolean \<Rightarrow> (case o_data j of C_boolean b \<Rightarrow> Inr (ucast b) | _ \<Rightarrow> Inl Wild_Pointer)
        | json_type_string \<Rightarrow> rbind (as_string j) (\<lambda>s. Inr (case scan_d s of Some i \<Rightarrow> i | None \<Rightarrow> 0))
        | _ \<Rightarrow> Inr 0))"

definition json_object_get_double :: "cenv \<Rightarrow> json_heap \<Rightarrow> jptr \<Rightarrow> 64 word res" where
  "json_object_get_double E h p =
     (if p = None then Inr (dbl_of_int E 0)
      else rbind (jderef h p) (\<lambda>(a, j).
        case o_type j of
          json_type_double \<Rightarrow> (case o_data j of C_double d \<Rightarrow> Inr d | _ \<Rightarrow> Inl Wild_Pointer)
        | json_type_int \<Rightarrow> (case o_data j of C_int i \<Rightarrow> Inr (dbl_of_int E (sint i)) | _ \<Rightarrow> Inl Wild_Pointer)
        | json_type_boolean \<Rightarrow> (case o_data j of C_boolean b \<Rightarrow> Inr (dbl_of_int E (uint b)) | _ \<Rightarrow> Inl Wild_Pointer)
        | json_type_string \<Rightarrow> rbind (as_string j) (\<lambda>s.
            Inr (case scan_lf E s of Some d \<Rightarrow> d | None \<Rightarrow> dbl_of_int E 0))
        | _ \<Rightarrow> Inr (dbl_of_int E 0)))"

end
