(* ===== verification/Json_Print.thy ===== *)
theory Json_Print
  imports Json_Object
begin

text \<open>
  Printing: \<open>json_escape_str\<close>, the \<open>_to_json_string\<close> functions and \<open>json_object_to_json_string\<close> of
  \<open>texteditor/json/json_object.c\<close>. The text goes into the print buffer of the object that is asked;
  the return codes of the appends are dropped where the code drops them.
\<close>

definition json_number_chars :: "char list" where "json_number_chars = ''0123456789.+-eE''"

definition json_hex_chars :: "char list" where "json_hex_chars = ''0123456789abcdef''"

section \<open>Definitions\<close>

definition put_text :: "cenv \<Rightarrow> printbuf \<Rightarrow> char list \<Rightarrow> printbuf res" where
  "put_text E pb s = rbind (sprintbuf (mem E) pb s) (\<lambda>(r, pb). Inr pb)"

definition put_mem :: "cenv \<Rightarrow> printbuf \<Rightarrow> char list \<Rightarrow> printbuf res" where
  "put_mem E pb s = rbind (printbuf_memappend (mem E) pb s) (\<lambda>(r, pb). Inr pb)"

definition flush_run :: "cenv \<Rightarrow> printbuf \<Rightarrow> char list \<Rightarrow> printbuf res" where
  "flush_run E pb r = (if length r > 0 then put_mem E pb r else Inr pb)"

definition short_escape :: "char \<Rightarrow> char list option" where
  "short_escape c =
     (if c = CHR 0x08 then Some [CHR 0x5C, CHR ''b'']
      else if c = CHR 0x0A then Some [CHR 0x5C, CHR ''n'']
      else if c = CHR 0x0D then Some [CHR 0x5C, CHR ''r'']
      else if c = CHR 0x09 then Some [CHR 0x5C, CHR ''t'']
      else if c = CHR 0x22 then Some [CHR 0x5C, CHR 0x22]
      else if c = CHR 0x5C then Some [CHR 0x5C, CHR 0x5C]
      else if c = CHR ''/'' then Some [CHR 0x5C, CHR ''/'']
      else None)"

definition hex_escape :: "char \<Rightarrow> char list res" where
  "hex_escape c =
     rbind (aget json_hex_chars (int (of_char c div 16))) (\<lambda>hi.
     rbind (aget json_hex_chars (int (of_char c mod 16))) (\<lambda>lo.
       Inr ([CHR 0x5C, CHR ''u'', CHR ''0'', CHR ''0'', hi, lo])))"

text \<open>
  The loop of \<open>json_escape_str\<close>: \<open>r\<close> is the text between \<open>start_offset\<close> and \<open>pos\<close> that is still to be
  appended, the list what lies ahead of \<open>pos\<close>. \<open>c\<close> is an \<open>unsigned char\<close>.
\<close>

fun escape_loop :: "cenv \<Rightarrow> printbuf \<Rightarrow> char list \<Rightarrow> char list \<Rightarrow> printbuf res" where
  "escape_loop E pb r [] = flush_run E pb r"
| "escape_loop E pb r (c # cs) =
     (case short_escape c of
        Some e \<Rightarrow> rbind (flush_run E pb r) (\<lambda>pb. rbind (put_mem E pb e) (\<lambda>pb. escape_loop E pb [] cs))
      | None \<Rightarrow>
          if (of_char c :: nat) < 32
          then rbind (flush_run E pb r) (\<lambda>pb. rbind (hex_escape c) (\<lambda>e.
               rbind (put_text E pb e) (\<lambda>pb. escape_loop E pb [] cs)))
          else escape_loop E pb (r @ [c]) cs)"

definition json_escape_str :: "cenv \<Rightarrow> printbuf \<Rightarrow> char list \<Rightarrow> printbuf res" where
  "json_escape_str E pb s = escape_loop E pb [] s"

text \<open>
  The printing functions call each other through the pointer in the object. \<open>object_items\<close> and
  \<open>array_items\<close> are their loops, \<open>i\<close> the counter. The fuel bounds the nesting.
\<close>

definition put_lit :: "cenv \<Rightarrow> printbuf \<Rightarrow> char list \<Rightarrow> printbuf run" where
  "put_lit E pb s = Some (put_text E pb s)"

fun object_items ::
  "cenv \<Rightarrow> (jptr \<Rightarrow> printbuf \<Rightarrow> printbuf run) \<Rightarrow> nat \<Rightarrow> (char list \<times> jptr) list \<Rightarrow> printbuf \<Rightarrow> printbuf run" where
  "object_items E sub i [] pb = Some (Inr pb)"
| "object_items E sub i ((k, v) # es) pb =
     ubind (if i \<noteq> 0 then put_lit E pb '','' else Some (Inr pb)) (\<lambda>pb.
     ubind (put_lit E pb [CHR '' '', CHR 0x22]) (\<lambda>pb.
     ubind (Some (json_escape_str E pb k)) (\<lambda>pb.
     ubind (put_lit E pb [CHR 0x22, CHR '':'', CHR '' '']) (\<lambda>pb.
     ubind (if v = None then put_lit E pb ''null'' else sub v pb) (\<lambda>pb.
       object_items E sub (i + 1) es pb)))))"

fun array_items ::
  "cenv \<Rightarrow> (jptr \<Rightarrow> printbuf \<Rightarrow> printbuf run) \<Rightarrow> addr array_list \<Rightarrow> nat \<Rightarrow> nat \<Rightarrow> printbuf \<Rightarrow> printbuf run" where
  "array_items E sub l i 0 pb = Some (Inr pb)"
| "array_items E sub l i (Suc left) pb =
     ubind (if i \<noteq> 0 then put_lit E pb '', '' else put_lit E pb '' '') (\<lambda>pb.
     ubind (Some (array_list_get_idx l (int i))) (\<lambda>v.
     ubind (if v = None then put_lit E pb ''null'' else sub v pb) (\<lambda>pb.
       array_items E sub l (i + 1) left pb)))"

definition json_object_boolean_to_json_string :: "cenv \<Rightarrow> json_object \<Rightarrow> printbuf \<Rightarrow> (int \<times> printbuf) run" where
  "json_object_boolean_to_json_string E j pb = (case o_data j of
      C_boolean b \<Rightarrow> Some (sprintbuf (mem E) pb (if b \<noteq> 0 then ''true'' else ''false''))
    | _ \<Rightarrow> Some (Inl Wild_Pointer))"

definition json_object_int_to_json_string :: "cenv \<Rightarrow> json_object \<Rightarrow> printbuf \<Rightarrow> (int \<times> printbuf) run" where
  "json_object_int_to_json_string E j pb = (case o_data j of
      C_int i \<Rightarrow> Some (sprintbuf (mem E) pb (fmt_d i)) | _ \<Rightarrow> Some (Inl Wild_Pointer))"

definition json_object_double_to_json_string :: "cenv \<Rightarrow> json_object \<Rightarrow> printbuf \<Rightarrow> (int \<times> printbuf) run" where
  "json_object_double_to_json_string E j pb = (case o_data j of
      C_double d \<Rightarrow> Some (sprintbuf (mem E) pb (fmt_lf E d)) | _ \<Rightarrow> Some (Inl Wild_Pointer))"

definition json_object_string_to_json_string :: "cenv \<Rightarrow> json_object \<Rightarrow> printbuf \<Rightarrow> (int \<times> printbuf) run" where
  "json_object_string_to_json_string E j pb =
     ubind (put_lit E pb [CHR 0x22]) (\<lambda>pb.
     ubind (Some (as_string j)) (\<lambda>s.
     ubind (Some (json_escape_str E pb s)) (\<lambda>pb.
     ubind (put_lit E pb [CHR 0x22]) (\<lambda>pb. Some (Inr (0, pb))))))"

definition json_object_object_to_json_string ::
  "cenv \<Rightarrow> (jptr \<Rightarrow> printbuf \<Rightarrow> printbuf run) \<Rightarrow> json_object \<Rightarrow> printbuf \<Rightarrow> (int \<times> printbuf) run" where
  "json_object_object_to_json_string E sub j pb =
     ubind (put_lit E pb ''{'') (\<lambda>pb.
     ubind (Some (as_table j)) (\<lambda>t.
     ubind (lh_foreach t) (\<lambda>es.
     ubind (object_items E sub 0 es pb) (\<lambda>pb. Some (sprintbuf (mem E) pb '' }'')))))"

definition json_object_array_to_json_string ::
  "cenv \<Rightarrow> (jptr \<Rightarrow> printbuf \<Rightarrow> printbuf run) \<Rightarrow> json_object \<Rightarrow> printbuf \<Rightarrow> (int \<times> printbuf) run" where
  "json_object_array_to_json_string E sub j pb =
     ubind (put_lit E pb ''['') (\<lambda>pb.
     ubind (Some (as_array j)) (\<lambda>l.
     ubind (array_items E sub l 0 (nat (array_list_length l)) pb) (\<lambda>pb. Some (sprintbuf (mem E) pb '' ]''))))"

text \<open>\<open>jso->_to_json_string(jso, pb)\<close>: the call through the pointer.\<close>

fun to_json_string :: "cenv \<Rightarrow> nat \<Rightarrow> json_heap \<Rightarrow> jptr \<Rightarrow> printbuf \<Rightarrow> (int \<times> printbuf) run" where
  "to_json_string E 0 h p pb = None"
| "to_json_string E (Suc f) h p pb =
     ubind (Some (jderef h p)) (\<lambda>(a, j).
       let sub = (\<lambda>v pb. ubind (to_json_string E f h v pb) (\<lambda>(r, pb). Some (Inr pb))) in
       case to_json_fn j of
         None \<Rightarrow> Some (Inl Null_Deref)
       | Some boolean_to_json \<Rightarrow> json_object_boolean_to_json_string E j pb
       | Some int_to_json \<Rightarrow> json_object_int_to_json_string E j pb
       | Some double_to_json \<Rightarrow> json_object_double_to_json_string E j pb
       | Some string_to_json \<Rightarrow> json_object_string_to_json_string E j pb
       | Some object_to_json \<Rightarrow> json_object_object_to_json_string E sub j pb
       | Some array_to_json \<Rightarrow> json_object_array_to_json_string E sub j pb)"

text \<open>
  \<open>json_object_to_json_string\<close>: the result is \<open>NULL\<close> or the text in the buffer, read as a C string.
\<close>

definition json_object_to_json_string ::
  "cenv \<Rightarrow> nat \<Rightarrow> json_heap \<Rightarrow> jptr \<Rightarrow> (char list option \<times> json_heap) run" where
  "json_object_to_json_string E f h p =
     (if p = None then Some (Inr (Some ''null'', h))
      else ubind (Some (jderef h p)) (\<lambda>(a, j).
        case (case own_pb j of None \<Rightarrow> map_option Inr (printbuf_new (mem E)) | Some pb \<Rightarrow> Some (printbuf_reset pb)) of
          None \<Rightarrow> Some (Inr (None, h))
        | Some r \<Rightarrow> ubind (Some r) (\<lambda>pb.
            ubind (to_json_string E f (jstore h a (j\<lparr>own_pb := Some pb\<rparr>)) p pb) (\<lambda>(r, pb).
              let h = jstore h a (j\<lparr>own_pb := Some pb\<rparr>) in
              if r < 0 then Some (Inr (None, h))
              else ubind (Some (cstr (buf pb))) (\<lambda>s. Some (Inr (Some s, h)))))))"

definition json_object_get_string ::
  "cenv \<Rightarrow> nat \<Rightarrow> json_heap \<Rightarrow> jptr \<Rightarrow> (char list option \<times> json_heap) run" where
  "json_object_get_string E f h p =
     (if p = None then Some (Inr (None, h))
      else ubind (Some (jderef h p)) (\<lambda>(a, j).
        if o_type j = json_type_string
        then (case o_data j of C_string s \<Rightarrow> Some (Inr (s, h)) | C_calloc \<Rightarrow> Some (Inr (None, h))
              | _ \<Rightarrow> Some (Inl Wild_Pointer))
        else json_object_to_json_string E f h p))"

end
