(* ===== verification/Json_Tokener.thy ===== *)
theory Json_Tokener
  imports Json_Print
begin

text \<open>
  The incremental parser of \<open>texteditor/json/json_tokener.c\<close>: a stack of levels, each with a state, the
  state to go back to and the value being built. One definition per case of the switch in
  \<open>json_tokener_parse_ex\<close>; \<open>flow\<close> says how the case is left: \<open>Break\<close> to the next character, \<open>Redo\<close> by
  \<open>goto redo_char\<close>, \<open>Out\<close> by \<open>goto out\<close>.
\<close>

section \<open>Data\<close>

datatype json_tokener_error =
    json_tokener_success | json_tokener_continue | json_tokener_error_depth
  | json_tokener_error_parse_eof | json_tokener_error_parse_unexpected | json_tokener_error_parse_null
  | json_tokener_error_parse_boolean | json_tokener_error_parse_number | json_tokener_error_parse_array
  | json_tokener_error_parse_object_key_name | json_tokener_error_parse_object_key_sep
  | json_tokener_error_parse_object_value_sep | json_tokener_error_parse_string
  | json_tokener_error_parse_comment

fun error_code :: "json_tokener_error \<Rightarrow> int" where
  "error_code json_tokener_success = 0"
| "error_code json_tokener_continue = 1"
| "error_code json_tokener_error_depth = 2"
| "error_code json_tokener_error_parse_eof = 3"
| "error_code json_tokener_error_parse_unexpected = 4"
| "error_code json_tokener_error_parse_null = 5"
| "error_code json_tokener_error_parse_boolean = 6"
| "error_code json_tokener_error_parse_number = 7"
| "error_code json_tokener_error_parse_array = 8"
| "error_code json_tokener_error_parse_object_key_name = 9"
| "error_code json_tokener_error_parse_object_key_sep = 10"
| "error_code json_tokener_error_parse_object_value_sep = 11"
| "error_code json_tokener_error_parse_string = 12"
| "error_code json_tokener_error_parse_comment = 13"

datatype json_tokener_state =
    json_tokener_state_eatws | json_tokener_state_start | json_tokener_state_finish
  | json_tokener_state_null | json_tokener_state_comment_start | json_tokener_state_comment
  | json_tokener_state_comment_eol | json_tokener_state_comment_end | json_tokener_state_string
  | json_tokener_state_string_escape | json_tokener_state_escape_unicode
  | json_tokener_state_boolean | json_tokener_state_number | json_tokener_state_array
  | json_tokener_state_array_add | json_tokener_state_array_sep
  | json_tokener_state_object_field_start | json_tokener_state_object_field
  | json_tokener_state_object_field_end | json_tokener_state_object_value
  | json_tokener_state_object_value_add | json_tokener_state_object_sep

record json_tokener_srec =
  state :: json_tokener_state
  saved_state :: json_tokener_state
  current :: jptr
  obj_field_name :: "char list option"

definition JSON_TOKENER_MAX_DEPTH :: nat where "JSON_TOKENER_MAX_DEPTH = 32"

record json_tokener =
  tok_pb :: "printbuf option"
  depth :: nat
  is_double :: bool
  st_pos :: nat
  char_offset :: int
  err :: json_tokener_error
  ucs_char :: "32 word"
  quote_char :: char
  stack :: "json_tokener_srec list"

text \<open>What \<open>json_tokener_parse_ex\<close> works on: the tokener, the store of objects, the local \<open>obj\<close>.\<close>

record parse_state =
  ps_tok :: json_tokener
  ps_heap :: json_heap
  ps_obj :: jptr

section \<open>Resetting\<close>

definition json_tokener_reset_level ::
  "nat \<Rightarrow> json_heap \<Rightarrow> json_tokener \<Rightarrow> nat \<Rightarrow> (json_tokener \<times> json_heap) run" where
  "json_tokener_reset_level f h t d =
     ubind (Some (aget (stack t) (int d))) (\<lambda>s.
     ubind (json_object_put f h (current s)) (\<lambda>h.
       Some (Inr (t\<lparr>stack := (stack t)[d := \<lparr>state = json_tokener_state_eatws,
           saved_state = json_tokener_state_start, current = None, obj_field_name = None\<rparr>]\<rparr>, h))))"

fun reset_levels :: "nat \<Rightarrow> json_heap \<Rightarrow> json_tokener \<Rightarrow> nat \<Rightarrow> (json_tokener \<times> json_heap) run" where
  "reset_levels f h t 0 = json_tokener_reset_level f h t 0"
| "reset_levels f h t (Suc i) =
     ubind (json_tokener_reset_level f h t (Suc i)) (\<lambda>(t, h). reset_levels f h t i)"

definition json_tokener_reset :: "nat \<Rightarrow> json_heap \<Rightarrow> json_tokener \<Rightarrow> (json_tokener \<times> json_heap) run" where
  "json_tokener_reset f h t =
     ubind (reset_levels f h t (depth t)) (\<lambda>(t, h).
       Some (Inr (t\<lparr>depth := 0, err := json_tokener_success\<rparr>, h)))"

definition sizeof_json_tokener :: int where "sizeof_json_tokener = 1072"

text \<open>The zeroes \<open>calloc\<close> leaves: the first constructor of each enumeration.\<close>

definition zero_level :: json_tokener_srec where
  "zero_level = \<lparr>state = json_tokener_state_eatws, saved_state = json_tokener_state_eatws,
                 current = None, obj_field_name = None\<rparr>"

definition json_tokener_new :: "cenv \<Rightarrow> nat \<Rightarrow> json_heap \<Rightarrow> (json_tokener \<times> json_heap) run" where
  "json_tokener_new E f h =
     (if \<not> mem E sizeof_json_tokener then Some (Inl Null_Deref)
      else json_tokener_reset f h
        \<lparr>tok_pb = printbuf_new (mem E), depth = 0, is_double = False, st_pos = 0, char_offset = 0,
         err = json_tokener_success, ucs_char = 0, quote_char = NUL,
         stack = replicate JSON_TOKENER_MAX_DEPTH zero_level\<rparr>)"

definition json_tokener_free :: "nat \<Rightarrow> json_heap \<Rightarrow> json_tokener \<Rightarrow> json_heap run" where
  "json_tokener_free f h t = ubind (json_tokener_reset f h t) (\<lambda>(t, h). Some (Inr h))"

section \<open>The cases of the switch\<close>

datatype flow = Break | Redo | Out

text \<open>
  Writing the macros \<open>state\<close>, \<open>saved_state\<close>, \<open>current\<close> and \<open>obj_field_name\<close>, which stand for the fields of
  the level \<open>depth\<close>. The level was read before, so it is there.
\<close>

definition on_top :: "(json_tokener_srec \<Rightarrow> json_tokener_srec) \<Rightarrow> json_tokener \<Rightarrow> json_tokener" where
  "on_top g t = t\<lparr>stack := (stack t)[depth t := g (stack t ! depth t)]\<rparr>"

definition go :: "json_tokener_state \<Rightarrow> json_tokener \<Rightarrow> json_tokener" where
  "go st = on_top (\<lambda>s. s\<lparr>state := st\<rparr>)"

definition go_eatws :: "json_tokener_state \<Rightarrow> json_tokener \<Rightarrow> json_tokener" where
  "go_eatws sv = on_top (\<lambda>s. s\<lparr>state := json_tokener_state_eatws, saved_state := sv\<rparr>)"

definition set_current :: "jptr \<Rightarrow> json_tokener \<Rightarrow> json_tokener" where
  "set_current p = on_top (\<lambda>s. s\<lparr>current := p\<rparr>)"

definition fail :: "json_tokener_error \<Rightarrow> parse_state \<Rightarrow> (flow \<times> parse_state) run" where
  "fail e p = Some (Inr (Out, p\<lparr>ps_tok := (ps_tok p)\<lparr>err := e\<rparr>\<rparr>))"

definition leave :: "flow \<Rightarrow> parse_state \<Rightarrow> json_tokener \<Rightarrow> (flow \<times> parse_state) run" where
  "leave w p t = Some (Inr (w, p\<lparr>ps_tok := t\<rparr>))"

definition tok_append :: "cenv \<Rightarrow> char list \<Rightarrow> json_tokener \<Rightarrow> json_tokener res" where
  "tok_append E s t = (case tok_pb t of
      None \<Rightarrow> Inl Null_Deref
    | Some pb \<Rightarrow> rbind (printbuf_memappend (mem E) pb s) (\<lambda>(r, pb). Inr (t\<lparr>tok_pb := Some pb\<rparr>)))"

definition tok_pb_reset :: "json_tokener \<Rightarrow> json_tokener res" where
  "tok_pb_reset t = (case tok_pb t of
      None \<Rightarrow> Inl Null_Deref
    | Some pb \<Rightarrow> rbind (printbuf_reset pb) (\<lambda>pb. Inr (t\<lparr>tok_pb := Some pb\<rparr>)))"

definition tok_text :: "json_tokener \<Rightarrow> char list res" where
  "tok_text t = (case tok_pb t of None \<Rightarrow> Inl Null_Deref | Some pb \<Rightarrow> cstr (buf pb))"

definition st_eatws :: "cenv \<Rightarrow> char \<Rightarrow> json_tokener_srec \<Rightarrow> parse_state \<Rightarrow> (flow \<times> parse_state) run" where
  "st_eatws E c s p =
     (let t = ps_tok p in
      if c_isspace c then leave Break p t
      else if c = CHR ''/'' then
        ubind (Some (rbind (tok_pb_reset t) (tok_append E [c]))) (\<lambda>t. leave Break p (go json_tokener_state_comment_start t))
      else leave Redo p (go (saved_state s) t))"

definition new_current ::
  "json_tokener_state \<Rightarrow> flow \<Rightarrow> parse_state \<Rightarrow> jptr \<times> json_heap \<Rightarrow> (flow \<times> parse_state) run" where
  "new_current sv w p r =
     Some (Inr (w, p\<lparr>ps_tok := set_current (fst r) (go_eatws sv (ps_tok p)), ps_heap := snd r\<rparr>))"

definition st_start :: "cenv \<Rightarrow> char \<Rightarrow> parse_state \<Rightarrow> (flow \<times> parse_state) run" where
  "st_start E c p =
     (let t = ps_tok p; h = ps_heap p in
      if c = CHR ''{'' then new_current json_tokener_state_object_field_start Break p (json_object_new_object E h)
      else if c = CHR ''['' then new_current json_tokener_state_array Break p (json_object_new_array E h)
      else if c = CHR ''N'' \<or> c = CHR ''n'' then
        ubind (Some (tok_pb_reset (go json_tokener_state_null t))) (\<lambda>t. leave Redo p (t\<lparr>st_pos := 0\<rparr>))
      else if c = CHR 0x22 \<or> c = CHR 0x27 then
        ubind (Some (tok_pb_reset (go json_tokener_state_string t))) (\<lambda>t. leave Break p (t\<lparr>quote_char := c\<rparr>))
      else if c = CHR ''T'' \<or> c = CHR ''t'' \<or> c = CHR ''F'' \<or> c = CHR ''f'' then
        ubind (Some (tok_pb_reset (go json_tokener_state_boolean t))) (\<lambda>t. leave Redo p (t\<lparr>st_pos := 0\<rparr>))
      else if c_isdigit c \<or> c = CHR ''-'' then
        ubind (Some (tok_pb_reset (go json_tokener_state_number t))) (\<lambda>t. leave Redo p (t\<lparr>is_double := False\<rparr>))
      else fail json_tokener_error_parse_unexpected p)"

definition st_finish :: "nat \<Rightarrow> json_tokener_srec \<Rightarrow> parse_state \<Rightarrow> (flow \<times> parse_state) run" where
  "st_finish f s p =
     (let t = ps_tok p in
      if depth t = 0 then Some (Inr (Out, p))
      else ubind (Some (json_object_get (ps_heap p) (current s))) (\<lambda>(obj, h).
           ubind (json_tokener_reset_level f h t (depth t)) (\<lambda>(t, h).
             Some (Inr (Redo, \<lparr>ps_tok = t\<lparr>depth := depth t - 1\<rparr>, ps_heap = h, ps_obj = obj\<rparr>)))))"

definition literal_so_far :: "char list \<Rightarrow> json_tokener \<Rightarrow> bool res" where
  "literal_so_far lit t = rbind (tok_text t) (\<lambda>b. Inr (c_strncaseeq lit b (min (st_pos t + 1) (length lit))))"

definition st_null :: "cenv \<Rightarrow> char \<Rightarrow> parse_state \<Rightarrow> (flow \<times> parse_state) run" where
  "st_null E c p =
     ubind (Some (tok_append E [c] (ps_tok p))) (\<lambda>t.
     ubind (Some (literal_so_far ''null'' t)) (\<lambda>ok.
       if ok
       then (if st_pos t = length ''null''
             then new_current json_tokener_state_finish Redo (p\<lparr>ps_tok := t\<rparr>) (None, ps_heap p)
             else leave Break p (t\<lparr>st_pos := st_pos t + 1\<rparr>))
       else fail json_tokener_error_parse_null (p\<lparr>ps_tok := t\<rparr>)))"

definition st_comment_start :: "cenv \<Rightarrow> char \<Rightarrow> parse_state \<Rightarrow> (flow \<times> parse_state) run" where
  "st_comment_start E c p =
     (if c = CHR ''*'' then
        ubind (Some (tok_append E [c] (go json_tokener_state_comment (ps_tok p)))) (leave Break p)
      else if c = CHR ''/'' then
        ubind (Some (tok_append E [c] (go json_tokener_state_comment_eol (ps_tok p)))) (leave Break p)
      else fail json_tokener_error_parse_comment p)"

definition st_comment :: "cenv \<Rightarrow> char \<Rightarrow> parse_state \<Rightarrow> (flow \<times> parse_state) run" where
  "st_comment E c p =
     ubind (Some (tok_append E [c]
       (if c = CHR ''*'' then go json_tokener_state_comment_end (ps_tok p) else ps_tok p))) (leave Break p)"

definition st_comment_eol :: "cenv \<Rightarrow> char \<Rightarrow> parse_state \<Rightarrow> (flow \<times> parse_state) run" where
  "st_comment_eol E c p =
     (if c = CHR 0x0A then leave Break p (go json_tokener_state_eatws (ps_tok p))
      else ubind (Some (tok_append E [c] (ps_tok p))) (leave Break p))"

definition st_comment_end :: "cenv \<Rightarrow> char \<Rightarrow> parse_state \<Rightarrow> (flow \<times> parse_state) run" where
  "st_comment_end E c p =
     ubind (Some (tok_append E [c] (ps_tok p))) (\<lambda>t.
       leave Break p (go (if c = CHR ''/'' then json_tokener_state_eatws else json_tokener_state_comment) t))"

definition st_string :: "cenv \<Rightarrow> char \<Rightarrow> parse_state \<Rightarrow> (flow \<times> parse_state) run" where
  "st_string E c p =
     (let t = ps_tok p in
      if c = quote_char t then
        ubind (Some (tok_text t)) (\<lambda>b.
          new_current json_tokener_state_finish Break p (json_object_new_string E (ps_heap p) b))
      else if c = CHR 0x5C then
        leave Break p (on_top (\<lambda>s. s\<lparr>state := json_tokener_state_string_escape,
                                     saved_state := json_tokener_state_string\<rparr>) t)
      else ubind (Some (tok_append E [c] t)) (leave Break p))"

definition st_string_escape ::
  "cenv \<Rightarrow> char \<Rightarrow> json_tokener_srec \<Rightarrow> parse_state \<Rightarrow> (flow \<times> parse_state) run" where
  "st_string_escape E c s p =
     (let t = ps_tok p; back = (\<lambda>b. ubind (Some (tok_append E b t)) (\<lambda>t. leave Break p (go (saved_state s) t))) in
      if c = CHR 0x22 \<or> c = CHR 0x5C \<or> c = CHR ''/'' then back [c]
      else if c = CHR ''b'' then back [CHR 0x08]
      else if c = CHR ''n'' then back [CHR 0x0A]
      else if c = CHR ''r'' then back [CHR 0x0D]
      else if c = CHR ''t'' then back [CHR 0x09]
      else if c = CHR ''u'' then
        leave Break p (go json_tokener_state_escape_unicode (t\<lparr>ucs_char := 0, st_pos := 0\<rparr>))
      else fail json_tokener_error_parse_string p)"

text \<open>\<open>hexdigit(c)\<close> for a signed \<open>char\<close>.\<close>

definition signed_char :: "char \<Rightarrow> int" where
  "signed_char c = (if (of_char c :: int) \<ge> 128 then of_char c - 256 else of_char c)"

definition hexdigit :: "char \<Rightarrow> int" where
  "hexdigit c = (if signed_char c \<le> 57 then signed_char c - 48 else (signed_char c AND 7) + 9)"

text \<open>The bytes \<open>utf_out\<close>: an assignment to an \<open>unsigned char\<close> keeps the low byte.\<close>

definition utf_byte :: "32 word \<Rightarrow> char" where "utf_byte w = char_of (unat w)"

definition utf_out :: "32 word \<Rightarrow> char list" where
  "utf_out u =
     (if u < 0x80 then [utf_byte u]
      else if u < 0x800 then [utf_byte (0xc0 OR drop_bit 6 u), utf_byte (0x80 OR (u AND 0x3f))]
      else [utf_byte (0xe0 OR drop_bit 12 u), utf_byte (0x80 OR (drop_bit 6 u AND 0x3f)),
            utf_byte (0x80 OR (u AND 0x3f))])"

definition st_escape_unicode ::
  "cenv \<Rightarrow> char \<Rightarrow> json_tokener_srec \<Rightarrow> parse_state \<Rightarrow> (flow \<times> parse_state) run" where
  "st_escape_unicode E c s p =
     (let t = ps_tok p in
      if c_strchr json_hex_chars c then
        (let t = t\<lparr>ucs_char := ucs_char t + push_bit ((3 - st_pos t) * 4) (word_of_int (hexdigit c)),
                   st_pos := st_pos t + 1\<rparr> in
         if st_pos t = 4
         then ubind (Some (tok_append E (utf_out (ucs_char t)) t)) (\<lambda>t. leave Break p (go (saved_state s) t))
         else leave Break p t)
      else fail json_tokener_error_parse_string p)"

definition st_boolean :: "cenv \<Rightarrow> char \<Rightarrow> parse_state \<Rightarrow> (flow \<times> parse_state) run" where
  "st_boolean E c p =
     ubind (Some (tok_append E [c] (ps_tok p))) (\<lambda>t.
     ubind (Some (literal_so_far ''true'' t)) (\<lambda>yes.
       if yes
       then (if st_pos t = length ''true''
             then new_current json_tokener_state_finish Redo (p\<lparr>ps_tok := t\<rparr>)
                    (json_object_new_boolean E (ps_heap p) 1)
             else leave Break p (t\<lparr>st_pos := st_pos t + 1\<rparr>))
       else ubind (Some (literal_so_far ''false'' t)) (\<lambda>no.
         if no
         then (if st_pos t = length ''false''
               then new_current json_tokener_state_finish Redo (p\<lparr>ps_tok := t\<rparr>)
                      (json_object_new_boolean E (ps_heap p) 0)
               else leave Break p (t\<lparr>st_pos := st_pos t + 1\<rparr>))
         else fail json_tokener_error_parse_boolean (p\<lparr>ps_tok := t\<rparr>))))"

definition st_number :: "cenv \<Rightarrow> char \<Rightarrow> parse_state \<Rightarrow> (flow \<times> parse_state) run" where
  "st_number E c p =
     (let t = ps_tok p in
      if c \<noteq> NUL \<and> c_strchr json_number_chars c then
        ubind (Some (tok_append E [c] t)) (\<lambda>t.
          leave Break p (if c = CHR ''.'' \<or> c = CHR ''e'' \<or> c = CHR ''E'' then t\<lparr>is_double := True\<rparr> else t))
      else
        ubind (Some (tok_text t)) (\<lambda>b.
          case (if is_double t then None else scan_d b) of
            Some i \<Rightarrow> new_current json_tokener_state_finish Redo p (json_object_new_int E (ps_heap p) i)
          | None \<Rightarrow>
              (case (if is_double t then scan_lf E b else None) of
                 Some d \<Rightarrow> new_current json_tokener_state_finish Redo p (json_object_new_double E (ps_heap p) d)
               | None \<Rightarrow> fail json_tokener_error_parse_number p)))"

text \<open>A new level: one more on the stack, reset.\<close>

definition push_level :: "nat \<Rightarrow> json_tokener_state \<Rightarrow> parse_state \<Rightarrow> (flow \<times> parse_state) run" where
  "push_level f st p =
     (if depth (ps_tok p) \<ge> JSON_TOKENER_MAX_DEPTH - 1 then fail json_tokener_error_depth p
      else let t = go st (ps_tok p); t = t\<lparr>depth := depth t + 1\<rparr> in
        ubind (json_tokener_reset_level f (ps_heap p) t (depth t)) (\<lambda>(t, h).
          Some (Inr (Redo, p\<lparr>ps_tok := t, ps_heap := h\<rparr>))))"

definition st_array :: "nat \<Rightarrow> char \<Rightarrow> parse_state \<Rightarrow> (flow \<times> parse_state) run" where
  "st_array f c p =
     (if c = CHR '']'' then leave Break p (go_eatws json_tokener_state_finish (ps_tok p))
      else push_level f json_tokener_state_array_add p)"

definition st_array_add :: "cenv \<Rightarrow> nat \<Rightarrow> json_tokener_srec \<Rightarrow> parse_state \<Rightarrow> (flow \<times> parse_state) run" where
  "st_array_add E f s p =
     ubind (json_object_array_add E f (ps_heap p) (current s) (ps_obj p)) (\<lambda>(r, h).
       leave Redo (p\<lparr>ps_heap := h\<rparr>) (go_eatws json_tokener_state_array_sep (ps_tok p)))"

definition st_array_sep :: "char \<Rightarrow> parse_state \<Rightarrow> (flow \<times> parse_state) run" where
  "st_array_sep c p =
     (if c = CHR '']'' then leave Break p (go_eatws json_tokener_state_finish (ps_tok p))
      else if c = CHR '','' then leave Break p (go_eatws json_tokener_state_array (ps_tok p))
      else fail json_tokener_error_parse_array p)"

definition st_object_field_start :: "char \<Rightarrow> parse_state \<Rightarrow> (flow \<times> parse_state) run" where
  "st_object_field_start c p =
     (if c = CHR ''}'' then leave Break p (go_eatws json_tokener_state_finish (ps_tok p))
      else if c = CHR 0x22 \<or> c = CHR 0x27 then
        ubind (Some (tok_pb_reset ((ps_tok p)\<lparr>quote_char := c\<rparr>))) (\<lambda>t.
          leave Break p (go json_tokener_state_object_field t))
      else fail json_tokener_error_parse_object_key_name p)"

definition st_object_field :: "cenv \<Rightarrow> char \<Rightarrow> parse_state \<Rightarrow> (flow \<times> parse_state) run" where
  "st_object_field E c p =
     (let t = ps_tok p in
      if c = quote_char t then
        ubind (Some (tok_text t)) (\<lambda>b.
          leave Break p (go_eatws json_tokener_state_object_field_end
            (on_top (\<lambda>s. s\<lparr>obj_field_name := c_strdup E b\<rparr>) t)))
      else if c = CHR 0x5C then
        leave Break p (on_top (\<lambda>s. s\<lparr>state := json_tokener_state_string_escape,
                                     saved_state := json_tokener_state_object_field\<rparr>) t)
      else ubind (Some (tok_append E [c] t)) (leave Break p))"

definition st_object_field_end :: "char \<Rightarrow> parse_state \<Rightarrow> (flow \<times> parse_state) run" where
  "st_object_field_end c p =
     (if c = CHR '':'' then leave Break p (go_eatws json_tokener_state_object_value (ps_tok p))
      else fail json_tokener_error_parse_object_key_sep p)"

definition st_object_value :: "nat \<Rightarrow> parse_state \<Rightarrow> (flow \<times> parse_state) run" where
  "st_object_value f p = push_level f json_tokener_state_object_value_add p"

definition st_object_value_add :: "cenv \<Rightarrow> nat \<Rightarrow> json_tokener_srec \<Rightarrow> parse_state \<Rightarrow> (flow \<times> parse_state) run" where
  "st_object_value_add E f s p =
     (case obj_field_name s of
        None \<Rightarrow> Some (Inl Null_Deref)
      | Some key \<Rightarrow>
          ubind (json_object_object_add E f (ps_heap p) (current s) key (ps_obj p)) (\<lambda>h.
            leave Redo (p\<lparr>ps_heap := h\<rparr>)
              (go_eatws json_tokener_state_object_sep (on_top (\<lambda>s. s\<lparr>obj_field_name := None\<rparr>) (ps_tok p)))))"

definition st_object_sep :: "char \<Rightarrow> parse_state \<Rightarrow> (flow \<times> parse_state) run" where
  "st_object_sep c p =
     (if c = CHR ''}'' then leave Break p (go_eatws json_tokener_state_finish (ps_tok p))
      else if c = CHR '','' then leave Break p (go_eatws json_tokener_state_object_field_start (ps_tok p))
      else fail json_tokener_error_parse_object_value_sep p)"

section \<open>The parser\<close>

text \<open>\<open>switch(state)\<close>\<close>

definition dispatch :: "cenv \<Rightarrow> nat \<Rightarrow> char \<Rightarrow> parse_state \<Rightarrow> (flow \<times> parse_state) run" where
  "dispatch E f c p =
     ubind (Some (aget (stack (ps_tok p)) (int (depth (ps_tok p))))) (\<lambda>s.
       case state s of
         json_tokener_state_eatws \<Rightarrow> st_eatws E c s p
       | json_tokener_state_start \<Rightarrow> st_start E c p
       | json_tokener_state_finish \<Rightarrow> st_finish f s p
       | json_tokener_state_null \<Rightarrow> st_null E c p
       | json_tokener_state_comment_start \<Rightarrow> st_comment_start E c p
       | json_tokener_state_comment \<Rightarrow> st_comment E c p
       | json_tokener_state_comment_eol \<Rightarrow> st_comment_eol E c p
       | json_tokener_state_comment_end \<Rightarrow> st_comment_end E c p
       | json_tokener_state_string \<Rightarrow> st_string E c p
       | json_tokener_state_string_escape \<Rightarrow> st_string_escape E c s p
       | json_tokener_state_escape_unicode \<Rightarrow> st_escape_unicode E c s p
       | json_tokener_state_boolean \<Rightarrow> st_boolean E c p
       | json_tokener_state_number \<Rightarrow> st_number E c p
       | json_tokener_state_array \<Rightarrow> st_array f c p
       | json_tokener_state_array_add \<Rightarrow> st_array_add E f s p
       | json_tokener_state_array_sep \<Rightarrow> st_array_sep c p
       | json_tokener_state_object_field_start \<Rightarrow> st_object_field_start c p
       | json_tokener_state_object_field \<Rightarrow> st_object_field E c p
       | json_tokener_state_object_field_end \<Rightarrow> st_object_field_end c p
       | json_tokener_state_object_value \<Rightarrow> st_object_value f p
       | json_tokener_state_object_value_add \<Rightarrow> st_object_value_add E f s p
       | json_tokener_state_object_sep \<Rightarrow> st_object_sep c p)"

text \<open>The jumps to \<open>redo_char\<close>, at most as many as the first argument says.\<close>

fun redo_char :: "nat \<Rightarrow> cenv \<Rightarrow> nat \<Rightarrow> char \<Rightarrow> parse_state \<Rightarrow> (flow \<times> parse_state) run" where
  "redo_char 0 E f c p = None"
| "redo_char (Suc n) E f c p =
     ubind (dispatch E f c p) (\<lambda>(w, p). if w = Redo then redo_char n E f c p else Some (Inr (w, p)))"

definition REDO_FUEL :: nat where "REDO_FUEL = 10"

definition top_level :: "json_tokener \<Rightarrow> json_tokener_srec res" where
  "top_level t = aget (stack t) (int (depth t))"

text \<open>Running into \<open>len\<close>, and running into the \<open>NUL\<close>.\<close>

definition at_len :: "parse_state \<Rightarrow> parse_state run" where
  "at_len p = ubind (Some (top_level (ps_tok p))) (\<lambda>s.
     Some (Inr (p\<lparr>ps_tok := (ps_tok p)\<lparr>err :=
       (if depth (ps_tok p) = 0 \<and> state s = json_tokener_state_eatws \<and> saved_state s = json_tokener_state_finish
        then json_tokener_success else json_tokener_continue)\<rparr>\<rparr>)))"

definition after_nul :: "parse_state \<Rightarrow> parse_state run" where
  "after_nul p = ubind (Some (top_level (ps_tok p))) (\<lambda>s.
     Some (Inr (if state s \<noteq> json_tokener_state_finish \<and> saved_state s \<noteq> json_tokener_state_finish
                then p\<lparr>ps_tok := (ps_tok p)\<lparr>err := json_tokener_error_parse_eof\<rparr>\<rparr> else p)))"

fun parse_loop :: "cenv \<Rightarrow> nat \<Rightarrow> int \<Rightarrow> char list \<Rightarrow> parse_state \<Rightarrow> parse_state run" where
  "parse_loop E f len str p =
     (if char_offset (ps_tok p) = len then at_len p
      else case str of
        [] \<Rightarrow> Some (Inl Out_Of_Bounds)
      | c # cs \<Rightarrow>
          ubind (redo_char REDO_FUEL E f c p) (\<lambda>(w, p).
            if w = Out then Some (Inr p)
            else let p = p\<lparr>ps_tok := (ps_tok p)\<lparr>char_offset := char_offset (ps_tok p) + 1\<rparr>\<rparr> in
              if c \<noteq> NUL then parse_loop E f len cs p else after_nul p))"

declare parse_loop.simps [simp del]

definition json_tokener_parse_ex ::
  "cenv \<Rightarrow> nat \<Rightarrow> json_heap \<Rightarrow> json_tokener \<Rightarrow> char list \<Rightarrow> int \<Rightarrow> (jptr \<times> json_tokener \<times> json_heap) run" where
  "json_tokener_parse_ex E f h t str len =
     ubind (parse_loop E f len str
       \<lparr>ps_tok = t\<lparr>char_offset := 0, err := json_tokener_success\<rparr>, ps_heap = h, ps_obj = None\<rparr>) (\<lambda>p.
     ubind (Some (top_level (ps_tok p))) (\<lambda>s.
       if err (ps_tok p) = json_tokener_success
       then ubind (Some (json_object_get (ps_heap p) (current s))) (\<lambda>(obj, h). Some (Inr (obj, ps_tok p, h)))
       else Some (Inr (None, ps_tok p, ps_heap p))))"

text \<open>\<open>error_ptr(-tok->err)\<close>: a number in place of a pointer.\<close>

datatype json_result = Value jptr | Error_Ptr int

definition json_tokener_parse :: "cenv \<Rightarrow> nat \<Rightarrow> json_heap \<Rightarrow> char list \<Rightarrow> (json_result \<times> json_heap) run" where
  "json_tokener_parse E f h str =
     ubind (json_tokener_new E f h) (\<lambda>(t, h).
     ubind (json_tokener_parse_ex E f h t (str @ [NUL]) (-1)) (\<lambda>(obj, t, h).
     ubind (json_tokener_free f h t) (\<lambda>h.
       Some (Inr (if err t \<noteq> json_tokener_success then Error_Ptr (- error_code (err t)) else Value obj, h)))))"

end
