(* ===== verification/Json_Refs.thy ===== *)
theory Json_Refs
  imports Json_Object "HOL-Library.Multiset"
begin

text \<open>
  The invariant of the reference counts. The references a client holds are a multiset \<open>R\<close> of
  addresses; every other reference is a slot of an array or an entry of a table in a live object. The
  count of an object is the number of both. While an object is being deleted (it is in \<open>D\<close>) its
  count is zero and the references it held belong to the deletion.
\<close>

section \<open>Well-formed objects\<close>

text \<open>A well-formed table with the entries it lists; it may have had deletions.\<close>

definition table_ok :: "('k, 'v) lh_table \<Rightarrow> ('k \<times> 'v option) list \<Rightarrow> bool" where
  "table_ok t es \<longleftrightarrow> (\<exists>ord. lh_inv t ord \<and> es = lh_items t ord) \<and> distinct (map fst es)"

lemma filled_table_ok: "filled t es \<Longrightarrow> table_ok t es"
  by (simp add: filled_def table_ok_def)

lemma foreach_table_ok: "table_ok t es \<Longrightarrow> lh_foreach t = Some (Inr es)"
  using foreach_items by (auto simp: table_ok_def)

definition json_object_ok :: "json_object \<Rightarrow> bool" where
  "json_object_ok j \<longleftrightarrow>
     (case o_type j of
        json_type_null \<Rightarrow> False
      | json_type_boolean \<Rightarrow> delete_fn j = generic_delete \<and> to_json_fn j = Some boolean_to_json
          \<and> (\<exists>b. o_data j = C_boolean b)
      | json_type_double \<Rightarrow> delete_fn j = generic_delete \<and> to_json_fn j = Some double_to_json
          \<and> (\<exists>d. o_data j = C_double d)
      | json_type_int \<Rightarrow> delete_fn j = generic_delete \<and> to_json_fn j = Some int_to_json
          \<and> (\<exists>i. o_data j = C_int i)
      | json_type_object \<Rightarrow> delete_fn j = object_delete \<and> to_json_fn j = Some object_to_json
          \<and> (\<exists>t es. o_data j = C_object t \<and> table_ok t es \<and> lh_free_fn t)
      | json_type_array \<Rightarrow> delete_fn j = array_delete \<and> to_json_fn j = Some array_to_json
          \<and> (\<exists>l. o_data j = C_array (Some l) \<and> al_inv l)
      | json_type_string \<Rightarrow> delete_fn j = string_delete \<and> to_json_fn j = Some string_to_json
          \<and> (\<exists>s. o_data j = C_string (Some s)))
     \<and> (\<forall>pb. own_pb j = Some pb \<longrightarrow> pb_inv pb)"

text \<open>The slots of an object that can hold another, and the objects they hold.\<close>

definition table_entries :: "('k, 'v) lh_table \<Rightarrow> ('k \<times> 'v option) list" where
  "table_entries t = (case lh_foreach t of Some (Inr es) \<Rightarrow> es | _ \<Rightarrow> [])"

definition slots :: "json_data \<Rightarrow> jptr list" where
  "slots d = (case d of C_object t \<Rightarrow> map snd (table_entries t) | C_array (Some l) \<Rightarrow> al_elems l | _ \<Rightarrow> [])"

definition kids :: "json_object \<Rightarrow> addr multiset" where
  "kids j = mset (free_slots (slots (o_data j)))"

lemma slots_simps [simp]:
  "slots C_calloc = []" "slots (C_boolean b) = []" "slots (C_double d) = []" "slots (C_int i) = []"
  "slots (C_string s) = []" "slots (C_array (Some l)) = al_elems l"
  "slots (C_object t) = map snd (table_entries t)"
  by (simp_all add: slots_def)

lemma table_entries_ok: "table_ok t es \<Longrightarrow> table_entries t = es"
  by (simp add: table_entries_def foreach_table_ok)

lemma kids_updates [simp]:
  "kids (j\<lparr>ref_count := n\<rparr>) = kids j" "kids (j\<lparr>own_pb := pb\<rparr>) = kids j"
  by (simp_all add: kids_def)

lemma json_object_ok_updates [simp]: "json_object_ok (j\<lparr>ref_count := n\<rparr>) = json_object_ok j"
  by (cases "o_type j") (simp_all add: json_object_ok_def)

definition ptr_refs :: "jptr \<Rightarrow> addr multiset" where
  "ptr_refs p = (case p of None \<Rightarrow> {#} | Some a \<Rightarrow> {#a#})"

lemma ptr_refs_simps [simp]: "ptr_refs None = {#}" "ptr_refs (Some a) = {#a#}"
  by (simp_all add: ptr_refs_def)

definition ptrs_refs :: "jptr list \<Rightarrow> addr multiset" where
  "ptrs_refs ps = mset (free_slots ps)"

lemma ptrs_refs_simps [simp]:
  "ptrs_refs [] = {#}" "ptrs_refs (p # ps) = ptr_refs p + ptrs_refs ps"
  by (simp_all add: ptrs_refs_def ptr_refs_def split: option.split)

lemma ptrs_refs_append [simp]: "ptrs_refs (ps @ qs) = ptrs_refs ps + ptrs_refs qs"
  by (induction ps) (simp_all add: ac_simps)

lemma ptrs_refs_Some [simp]: "ptrs_refs (map Some as) = mset as"
  by (induction as) simp_all

lemma in_ptrs_refs: "a \<in># ptrs_refs ps \<longleftrightarrow> Some a \<in> set ps"
  by (induction ps) (auto simp: ptr_refs_def split: option.split)

text \<open>What deletion gives back is what the object holds.\<close>

lemma deleted_values_ok:
  assumes "json_object_ok j"
  shows "\<exists>vs. deleted_values j = Some (Inr vs) \<and> ptrs_refs vs = kids j"
  using assms
proof (cases "o_type j")
  case json_type_object
  then obtain t es where "o_data j = C_object t" "table_ok t es" "lh_free_fn t" "delete_fn j = object_delete"
    using assms by (auto simp: json_object_ok_def)
  then show ?thesis
    by (simp add: deleted_values_def as_table_def lh_table_free_def foreach_table_ok kids_def table_entries_ok
        ptrs_refs_def)
next
  case json_type_array
  then obtain l where "o_data j = C_array (Some l)" "al_inv l" "delete_fn j = array_delete"
    using assms by (auto simp: json_object_ok_def)
  then show ?thesis
    by (simp add: deleted_values_def as_array_def array_list_free_def kids_def al_inv_def al_elems_def)
qed (auto simp: json_object_ok_def deleted_values_def kids_def)

section \<open>The invariant\<close>

definition held_refs :: "json_heap \<Rightarrow> addr set \<Rightarrow> addr multiset" where
  "held_refs h D = (\<Sum>b \<in> dom (objs h) - D. kids (the (objs h b)))"

definition count_of :: "json_heap \<Rightarrow> addr set \<Rightarrow> addr \<Rightarrow> nat" where
  "count_of h D a = (case objs h a of None \<Rightarrow> 0 | Some j \<Rightarrow> if a \<in> D then 0 else nat (ref_count j))"

definition counts_ok :: "(addr \<Rightarrow> nat) \<Rightarrow> json_heap \<Rightarrow> addr multiset \<Rightarrow> addr set \<Rightarrow> bool" where
  "counts_ok rk h R D \<longleftrightarrow>
     finite (dom (objs h)) \<and> (\<forall>a \<in> dom (objs h). a < next_addr h) \<and> D \<subseteq> dom (objs h)
     \<and> (\<forall>a j. objs h a = Some j \<longrightarrow> json_object_ok j \<and> (a \<notin> D \<longrightarrow> 0 < ref_count j)
          \<and> (\<forall>b \<in># kids j. rk b < rk a))
     \<and> (\<forall>a. count (R + held_refs h D) a = count_of h D a)"

text \<open>Two stores with the same objects up to counts; the second may have fewer.\<close>

definition only_counts :: "json_heap \<Rightarrow> json_heap \<Rightarrow> bool" where
  "only_counts h h' \<longleftrightarrow> next_addr h' = next_addr h
     \<and> (\<forall>a j'. objs h' a = Some j' \<longrightarrow> (\<exists>j n. objs h a = Some j \<and> j' = j\<lparr>ref_count := n\<rparr>))"

lemma only_counts_refl: "only_counts h h"
  unfolding only_counts_def by (metis json_object.surjective json_object.update_convs(4))

lemma only_countsD:
  "only_counts h h' \<Longrightarrow> objs h' a = Some j' \<Longrightarrow> \<exists>j n. objs h a = Some j \<and> j' = j\<lparr>ref_count := n\<rparr>"
  unfolding only_counts_def by blast

lemma only_counts_trans:
  assumes "only_counts h h1" "only_counts h1 h2"
  shows "only_counts h h2"
  unfolding only_counts_def
proof (intro conjI allI impI)
  show "next_addr h2 = next_addr h" using assms by (simp add: only_counts_def)
  fix a j2 assume "objs h2 a = Some j2"
  then obtain j1 n where 1: "objs h1 a = Some j1" "j2 = j1\<lparr>ref_count := n\<rparr>"
    using only_countsD [OF assms(2)] by blast
  then obtain j m where "objs h a = Some j" "j1 = j\<lparr>ref_count := m\<rparr>"
    using only_countsD [OF assms(1)] by blast
  with 1 show "\<exists>j n. objs h a = Some j \<and> j2 = j\<lparr>ref_count := n\<rparr>" by auto
qed

lemma counts_ok_obj:
  "counts_ok rk h R D \<Longrightarrow> objs h a = Some j \<Longrightarrow> json_object_ok j"
  by (simp add: counts_ok_def)

lemma held_refs_cong:
  assumes "dom (objs h') - D' = dom (objs h) - D"
    and "\<And>b j j'. b \<notin> D \<Longrightarrow> objs h b = Some j \<Longrightarrow> objs h' b = Some j' \<Longrightarrow> kids j' = kids j"
  shows "held_refs h' D' = held_refs h D"
  unfolding held_refs_def
proof (rule sum.cong [OF assms(1)])
  fix b assume b: "b \<in> dom (objs h) - D"
  then obtain j where "objs h b = Some j" by blast
  moreover obtain j' where "objs h' b = Some j'" using b assms(1) by blast
  ultimately show "kids (the (objs h' b)) = kids (the (objs h b))" using b assms(2) [of b j j'] by simp
qed

text \<open>An object with a reference from outside is live and counted.\<close>

lemma counts_ok_ref:
  assumes ok: "counts_ok rk h R D" and a: "a \<in># R + held_refs h D"
  obtains j where "objs h a = Some j" "a \<notin> D" "0 < ref_count j"
    "nat (ref_count j) = count (R + held_refs h D) a" "json_object_ok j"
proof -
  have c: "count (R + held_refs h D) a = count_of h D a" using ok by (simp add: counts_ok_def)
  moreover have "count (R + held_refs h D) a \<noteq> 0" using a by simp
  ultimately have "count_of h D a \<noteq> 0" by simp
  then obtain j where j: "objs h a = Some j" "a \<notin> D"
    by (auto simp: count_of_def split: option.splits if_splits)
  show ?thesis
    by (rule that [OF j]) (use ok j c in \<open>auto simp: counts_ok_def count_of_def\<close>)
qed

text \<open>One reference less, and still some left.\<close>

lemma counts_ok_drop:
  assumes ok: "counts_ok rk h (add_mset a R) D" and a: "objs h a = Some j" "a \<notin> D" "ref_count j \<noteq> 1"
  shows "counts_ok rk (jstore h a (j\<lparr>ref_count := ref_count j - 1\<rparr>)) R D"
proof -
  let ?h = "jstore h a (j\<lparr>ref_count := ref_count j - 1\<rparr>)"
  have pos: "0 < ref_count j" using ok a by (simp add: counts_ok_def)
  have held: "held_refs ?h D = held_refs h D"
    by (rule held_refs_cong) (use a in \<open>auto split: if_splits\<close>)
  have "count (R + held_refs ?h D) b = count_of ?h D b" for b
  proof -
    have "count (add_mset a R + held_refs h D) b = count_of h D b" using ok by (simp add: counts_ok_def)
    moreover have "nat (ref_count j - 1) = nat (ref_count j) - 1" by simp
    ultimately show ?thesis using a pos by (auto simp: held count_of_def )
  qed
  moreover have "1 < ref_count j" using pos a(3) by simp
  ultimately show ?thesis
    using ok a unfolding counts_ok_def by (auto split: if_splits)
qed

text \<open>The last reference: the object starts to die, and its references become the deletion's.\<close>

lemma counts_ok_dying:
  assumes ok: "counts_ok rk h (add_mset a R) D" and a: "objs h a = Some j" "a \<notin> D" "ref_count j = 1"
  shows "counts_ok rk (jstore h a (j\<lparr>ref_count := 0\<rparr>)) (kids j + R) (insert a D)"
proof -
  let ?h = "jstore h a (j\<lparr>ref_count := 0\<rparr>)"
  have fin: "finite (dom (objs h))" using ok by (simp add: counts_ok_def)
  have dom: "dom (objs ?h) = dom (objs h)" using a by auto
  have "held_refs h D = kids j + (\<Sum>b \<in> (dom (objs h) - D) - {a}. kids (the (objs h b)))"
    unfolding held_refs_def using fin a by (subst sum.remove [of _ a]) auto
  also have "(\<Sum>b \<in> (dom (objs h) - D) - {a}. kids (the (objs h b))) = held_refs ?h (insert a D)"
    unfolding held_refs_def dom by (rule sum.cong) auto
  finally have held: "held_refs h D = kids j + held_refs ?h (insert a D)" .
  have "count (kids j + R + held_refs ?h (insert a D)) b = count_of ?h (insert a D) b" for b
  proof -
    have "count (add_mset a R + held_refs h D) b = count_of h D b" using ok by (simp add: counts_ok_def)
    then show ?thesis using a by (auto simp: held count_of_def split: option.split)
  qed
  then show ?thesis
    using ok a dom unfolding counts_ok_def by (auto split: if_splits)
qed

text \<open>The end of a deletion: nobody refers to the object, so it can go.\<close>

lemma counts_ok_free:
  assumes ok: "counts_ok rk h R (insert a D)" and a: "a \<notin> D"
  shows "counts_ok rk (jfree h a) R D"
proof -
  have held: "held_refs (jfree h a) D = held_refs h (insert a D)"
    by (rule held_refs_cong) (auto split: if_splits)
  have "count (R + held_refs (jfree h a) D) b = count_of (jfree h a) D b" for b
  proof -
    have "count (R + held_refs h (insert a D)) b = count_of h (insert a D) b" using ok by (simp add: counts_ok_def)
    then show ?thesis by (auto simp: held count_of_def split: option.split)
  qed
  moreover have "dom (objs (jfree h a)) = dom (objs h) - {a}" by auto
  moreover have "objs (jfree h a) b = Some j \<Longrightarrow> objs h b = Some j \<and> b \<noteq> a" for b j
    by (auto split: if_splits)
  moreover have "next_addr (jfree h a) = next_addr h" by simp
  ultimately show ?thesis
    using ok a unfolding counts_ok_def by (auto 4 4)
qed

section \<open>Putting a reference\<close>

definition ptr_below :: "(addr \<Rightarrow> nat) \<Rightarrow> nat \<Rightarrow> jptr \<Rightarrow> bool" where
  "ptr_below rk f p \<longleftrightarrow> (\<forall>a. p = Some a \<longrightarrow> rk a < f)"

lemma ptr_below_simps [simp]: "ptr_below rk f None" "ptr_below rk f (Some a) \<longleftrightarrow> rk a < f"
  by (simp_all add: ptr_below_def)

text \<open>Putting one pointer after the other, when putting one does what it should.\<close>

lemma put_list_step:
  assumes put: "\<And>h p R D. counts_ok rk h (ptr_refs p + R) D \<Longrightarrow> ptr_below rk f p
        \<Longrightarrow> \<exists>h'. json_object_put f h p = Some (Inr h') \<and> counts_ok rk h' R D \<and> only_counts h h'"
    and "counts_ok rk h (ptrs_refs vs + R) D" "\<forall>v \<in> set vs. ptr_below rk f v"
  shows "\<exists>h'. run_fold (json_object_put f) h vs = Some (Inr h') \<and> counts_ok rk h' R D \<and> only_counts h h'"
  using assms(2,3)
proof (induction vs arbitrary: h)
  case Nil
  then show ?case by (auto intro: only_counts_refl)
next
  case (Cons v vs)
  have "counts_ok rk h (ptr_refs v + (ptrs_refs vs + R)) D" using Cons.prems(1) by (simp add: ac_simps)
  then obtain h2 where h2: "json_object_put f h v = Some (Inr h2)"
      "counts_ok rk h2 (ptrs_refs vs + R) D" "only_counts h h2"
    using put Cons.prems(2) by (metis list.set_intros(1))
  then show ?case using Cons.IH [OF h2(2)] Cons.prems(2) only_counts_trans by fastforce
qed

text \<open>
  Putting a reference the client holds returns, frees what nobody refers to any more and nothing
  else, and never touches a freed object. The rank bounds how deep the deletions go.
\<close>

lemma put_spec:
  assumes "counts_ok rk h (ptr_refs p + R) D" "ptr_below rk f p"
  shows "\<exists>h'. json_object_put f h p = Some (Inr h') \<and> counts_ok rk h' R D \<and> only_counts h h'"
  using assms
proof (induction f arbitrary: h p R D)
  case 0
  then show ?case by (cases p) (auto intro: only_counts_refl)
next
  case (Suc f)
  show ?case
  proof (cases p)
    case None
    with Suc.prems show ?thesis by (auto intro: only_counts_refl)
  next
    case p: (Some a)
    have ok: "counts_ok rk h (add_mset a R) D" using Suc.prems(1) p by simp
    then obtain j where a: "objs h a = Some j" "a \<notin> D" and pos: "0 < ref_count j" and jok: "json_object_ok j"
      by (rule counts_ok_ref [of _ _ _ _ a]) auto
    let ?h = "jstore h a (j\<lparr>ref_count := ref_count j - 1\<rparr>)"
    have step: "json_object_put (Suc f) h p =
       (if ref_count j = 1 then ubind (deleted_values (j\<lparr>ref_count := 0\<rparr>)) (\<lambda>vs.
             ubind (run_fold (json_object_put f) (jstore h a (j\<lparr>ref_count := 0\<rparr>)) vs) (\<lambda>h. Some (Inr (jfree h a))))
        else Some (Inr ?h))"
      using a p by (simp add: jderef_def Let_def)
    have oc: "only_counts h (jstore h a (j\<lparr>ref_count := n\<rparr>))" for n
      using a only_counts_refl [of h] by (auto simp: only_counts_def split: if_splits)
    show ?thesis
    proof (cases "ref_count j = 1")
      case False
      then show ?thesis using step counts_ok_drop [OF ok a False] oc by auto
    next
      case True
      let ?h0 = "jstore h a (j\<lparr>ref_count := 0\<rparr>)"
      obtain vs where vs: "deleted_values (j\<lparr>ref_count := 0\<rparr>) = Some (Inr vs)" "ptrs_refs vs = kids j"
        using deleted_values_ok [of "j\<lparr>ref_count := 0\<rparr>"] jok by auto
      have below: "\<forall>v \<in> set vs. ptr_below rk f v"
      proof
        fix v assume v: "v \<in> set vs"
        have "rk b < f" if "v = Some b" for b
        proof -
          have "b \<in># kids j" using vs(2) v that in_ptrs_refs by metis
          then have "rk b < rk a" using ok a by (simp add: counts_ok_def)
          then show ?thesis using Suc.prems(2) p by simp
        qed
        then show "ptr_below rk f v" by (simp add: ptr_below_def)
      qed
      have "counts_ok rk ?h0 (ptrs_refs vs + R) (insert a D)"
        using counts_ok_dying [OF ok a True] vs(2) by (simp add: True)
      then obtain h1 where h1: "run_fold (json_object_put f) ?h0 vs = Some (Inr h1)"
          "counts_ok rk h1 R (insert a D)" "only_counts ?h0 h1"
        using put_list_step [where f = f, OF Suc.IH _ below] by blast
      have "only_counts h1 (jfree h1 a)"
        using only_counts_refl [of h1] by (auto simp: only_counts_def)
      then have "only_counts h (jfree h1 a)" using only_counts_trans [OF oc [of 0]] only_counts_trans [OF h1(3)] by blast
      then show ?thesis
        using step True vs(1) h1(1) counts_ok_free [OF h1(2) a(2)] by simp
    qed
  qed
qed

section \<open>Taking a reference, making an object\<close>

lemma get_spec:
  assumes ok: "counts_ok rk h R D" and p: "ptr_refs p \<subseteq># R + held_refs h D"
  shows "\<exists>h'. json_object_get h p = Inr (p, h') \<and> counts_ok rk h' (ptr_refs p + R) D \<and> only_counts h h'"
proof (cases p)
  case None
  then show ?thesis using ok by (auto simp: json_object_get_def intro: only_counts_refl)
next
  case (Some a)
  then have "a \<in># R + held_refs h D" using p by simp
  then obtain j where a: "objs h a = Some j" "a \<notin> D" "0 < ref_count j" "json_object_ok j"
    by (rule counts_ok_ref [OF ok])
  let ?h = "jstore h a (j\<lparr>ref_count := ref_count j + 1\<rparr>)"
  have held: "held_refs ?h D = held_refs h D"
    by (rule held_refs_cong) (use a in \<open>auto split: if_splits\<close>)
  have "count (add_mset a R + held_refs ?h D) b = count_of ?h D b" for b
  proof -
    have "count (R + held_refs h D) b = count_of h D b" using ok by (simp add: counts_ok_def)
    then show ?thesis using a by (auto simp: held count_of_def)
  qed
  then have "counts_ok rk ?h (add_mset a R) D"
    using ok a unfolding counts_ok_def by (auto intro: order_less_imp_le split: if_splits)
  moreover have "only_counts h ?h" using a only_counts_refl [of h] by (auto simp: only_counts_def)
  ultimately show ?thesis using Some a by (simp add: json_object_get_def jderef_def)
qed

text \<open>Nothing refers to an address that was not handed out.\<close>

lemma fresh_unreferenced:
  assumes ok: "counts_ok rk h R D" and a: "next_addr h \<le> a"
  shows "objs h a = None" "a \<notin># R + held_refs h D" "b \<in> dom (objs h) \<Longrightarrow> b \<notin> D \<Longrightarrow> a \<notin># kids (the (objs h b))"
proof -
  show n: "objs h a = None" using ok a by (meson counts_ok_def domI leD not_None_eq)
  have "count (R + held_refs h D) a = 0" using ok n by (simp add: counts_ok_def count_of_def)
  then show nin: "a \<notin># R + held_refs h D" by (simp add: not_in_iff)
  assume b: "b \<in> dom (objs h)" "b \<notin> D"
  have "finite (dom (objs h))" using ok by (simp add: counts_ok_def)
  then have "held_refs h D = kids (the (objs h b)) + (\<Sum>c \<in> (dom (objs h) - D) - {b}. kids (the (objs h c)))"
    unfolding held_refs_def using b by (subst sum.remove [of _ b]) auto
  then show "a \<notin># kids (the (objs h b))" using nin by auto
qed

lemma counts_ok_new:
  assumes ok: "counts_ok rk h R {}" and j: "json_object_ok j" "ref_count j = 1" "kids j = {#}"
  defines "a \<equiv> next_addr h"
  shows "counts_ok (rk(a := n)) \<lparr>objs = (objs h)(a \<mapsto> j), next_addr = Suc a\<rparr> (add_mset a R) {}"
proof -
  let ?h = "\<lparr>objs = (objs h)(a \<mapsto> j), next_addr = Suc a\<rparr>"
  have fresh: "objs h a = None" "a \<notin># R + held_refs h {}" "\<And>b. b \<in> dom (objs h) \<Longrightarrow> a \<notin># kids (the (objs h b))"
    using fresh_unreferenced [OF ok, of a] by (auto simp: a_def)
  have fin: "finite (dom (objs h))" using ok by (simp add: counts_ok_def)
  have na: "a \<notin> dom (objs h)" using fresh(1) by auto
  have "held_refs ?h {} = (\<Sum>b \<in> dom (objs h). kids (the (objs ?h b)))"
    unfolding held_refs_def using fin na j(3) by simp
  also have "\<dots> = held_refs h {}" unfolding held_refs_def using na by (intro sum.cong) auto
  finally have held: "held_refs ?h {} = held_refs h {}" .
  have "count (add_mset a R + held_refs ?h {}) b = count_of ?h {} b" for b
  proof -
    have "count (R + held_refs h {}) b = count_of h {} b" using ok by (simp add: counts_ok_def)
    then show ?thesis using j fresh(1,2) by (auto simp: held count_of_def not_in_iff)
  qed
  moreover have "c \<noteq> a" if "objs h b = Some i" "c \<in># kids i" for b c i
    using fresh(3) [of b] that by auto
  ultimately show ?thesis
    using ok j na unfolding counts_ok_def by (auto simp: a_def less_Suc_eq split: if_splits)
qed

section \<open>Changing what an object holds\<close>

text \<open>
  The references that move into the object come from the client (\<open>Y\<close>), those that move out go to it
  (\<open>X\<close>).
\<close>

lemma counts_ok_set:
  assumes ok: "counts_ok rk h (Y + R) D" and a: "objs h a = Some j" "a \<notin> D"
    and j': "json_object_ok j'" "ref_count j' = ref_count j" "kids j' + X = kids j + Y"
    and rk: "\<And>b. b \<in># kids j' \<Longrightarrow> rk b < rk a"
  shows "counts_ok rk (jstore h a j') (X + R) D"
proof -
  let ?h = "jstore h a j'" and ?rest = "\<Sum>b \<in> (dom (objs h) - D) - {a}. kids (the (objs h b))"
  have fin: "finite (dom (objs h))" using ok by (simp add: counts_ok_def)
  have dom: "dom (objs ?h) = dom (objs h)" using a by auto
  have old: "held_refs h D = kids j + ?rest"
    unfolding held_refs_def using fin a by (subst sum.remove [of _ a]) auto
  have "held_refs ?h D = kids j' + (\<Sum>b \<in> (dom (objs h) - D) - {a}. kids (the (objs ?h b)))"
    unfolding held_refs_def dom using fin a by (subst sum.remove [of _ a]) auto
  also have "(\<Sum>b \<in> (dom (objs h) - D) - {a}. kids (the (objs ?h b))) = ?rest" by (rule sum.cong) auto
  finally have eq: "X + R + held_refs ?h D = Y + R + held_refs h D"
    using j'(3) old by (metis add.assoc add.commute)
  have "count (X + R + held_refs ?h D) b = count_of ?h D b" for b
  proof -
    have "count (Y + R + held_refs h D) b = count_of h D b" using ok by (simp only: counts_ok_def)
    moreover have "count_of ?h D b = count_of h D b" using a j'(2) by (simp add: count_of_def)
    ultimately show ?thesis by (simp only: eq)
  qed
  then show ?thesis
    using ok a j' rk dom unfolding counts_ok_def by (auto split: if_splits)
qed

lemma kids_rank: "counts_ok rk h R D \<Longrightarrow> objs h a = Some j \<Longrightarrow> b \<in># kids j \<Longrightarrow> rk b < rk a"
  by (simp add: counts_ok_def)

text \<open>What a client of the store can rely on across operations: old objects keep their type.\<close>

definition keeps_types :: "json_heap \<Rightarrow> json_heap \<Rightarrow> bool" where
  "keeps_types h h' \<longleftrightarrow> next_addr h \<le> next_addr h' \<and>
     (\<forall>a j'. a < next_addr h \<longrightarrow> objs h' a = Some j' \<longrightarrow> (\<exists>j. objs h a = Some j \<and> o_type j' = o_type j))"

lemma keeps_types_refl: "keeps_types h h"
  by (simp add: keeps_types_def)

lemma keeps_types_trans: "keeps_types h h1 \<Longrightarrow> keeps_types h1 h2 \<Longrightarrow> keeps_types h h2"
  unfolding keeps_types_def by (metis order_trans order_less_le_trans)

lemma only_counts_keeps_types: "only_counts h h' \<Longrightarrow> keeps_types h h'"
  unfolding keeps_types_def only_counts_def by fastforce

text \<open>No table has a tombstone, so all searches end.\<close>

definition tables_filled :: "json_heap \<Rightarrow> bool" where
  "tables_filled h \<longleftrightarrow> (\<forall>a j t. objs h a = Some j \<longrightarrow> o_data j = C_object t \<longrightarrow> (\<exists>es. filled t es))"

lemma tables_filled_only_counts:
  assumes "tables_filled h" "only_counts h h'"
  shows "tables_filled h'"
  unfolding tables_filled_def
proof (intro allI impI)
  fix a j' t assume "objs h' a = Some j'" "o_data j' = C_object t"
  moreover then obtain j n where "objs h a = Some j" "j' = j\<lparr>ref_count := n\<rparr>"
    using only_countsD [OF assms(2)] by blast
  ultimately show "\<exists>es. filled t es" using assms(1) by (auto simp: tables_filled_def)
qed

text \<open>What an array or table operation finds under a reference.\<close>

lemma array_obj:
  assumes "json_object_ok j" "o_type j = json_type_array"
  obtains l where "o_data j = C_array (Some l)" "al_inv l" "as_array j = Inr l"
  using assms by (auto simp: json_object_ok_def as_array_def)

lemma table_obj:
  assumes "json_object_ok j" "o_type j = json_type_object"
  obtains t es where "o_data j = C_object t" "table_ok t es" "lh_free_fn t" "as_table j = Inr t"
  using assms by (auto simp: json_object_ok_def as_table_def)

lemma json_object_ok_array:
  "json_object_ok j \<Longrightarrow> o_type j = json_type_array \<Longrightarrow> al_inv l \<Longrightarrow> json_object_ok (j\<lparr>o_data := C_array (Some l)\<rparr>)"
  by (auto simp: json_object_ok_def)

lemma json_object_ok_table:
  "json_object_ok j \<Longrightarrow> o_type j = json_type_object \<Longrightarrow> table_ok t es \<Longrightarrow> lh_free_fn t
   \<Longrightarrow> json_object_ok (j\<lparr>o_data := C_object t\<rparr>)"
  by (auto simp: json_object_ok_def)

lemma set_array_eq: "objs h a = Some j \<Longrightarrow> set_array h a l = jstore h a (j\<lparr>o_data := C_array (Some l)\<rparr>)"
  by (simp add: set_array_def jstore_def)

lemma set_table_eq: "objs h a = Some j \<Longrightarrow> set_table h a t = jstore h a (j\<lparr>o_data := C_object t\<rparr>)"
  by (simp add: set_table_def jstore_def)

lemma array_add_counts:
  assumes E: "all_mem E" and ok: "counts_ok rk h (ptr_refs v + R) {}"
    and a: "a \<in># R" "objs h a = Some j" "o_type j = json_type_array" and v: "ptr_below rk (rk a) v"
  shows "\<exists>h'. json_object_array_add E f h (Some a) v = Some (Inr (0, h')) \<and> counts_ok rk h' R {}
     \<and> keeps_types h h' \<and> (tables_filled h \<longrightarrow> tables_filled h')"
proof -
  have jok: "json_object_ok j" using ok a by (simp add: counts_ok_def)
  obtain l where l: "o_data j = C_array (Some l)" "al_inv l" "as_array j = Inr l"
    by (rule array_obj [OF jok a(3)])
  obtain l' where l': "array_list_add (mem E) l v = Inr (0, [], l')" "al_elems l' = al_elems l @ [v]" "al_inv l'"
    using array_list_add_spec [OF l(2), of "mem E" v] E by (auto simp: all_mem_def)
  let ?j = "j\<lparr>o_data := C_array (Some l')\<rparr>"
  have kids: "kids ?j = ptr_refs v + kids j" using l(1) l'(2) by (simp add: kids_def flip: ptrs_refs_def)
  have "counts_ok rk (jstore h a ?j) ({#} + R) {}"
  proof (rule counts_ok_set [OF ok a(2)])
    show "json_object_ok ?j" by (rule json_object_ok_array [OF jok a(3) l'(3)])
    show "rk b < rk a" if "b \<in># kids ?j" for b
      using that v kids_rank [OF ok a(2)] unfolding kids by (cases v) auto
  qed (simp_all add: kids)
  moreover have "keeps_types h (jstore h a ?j)" using a(2) by (simp add: keeps_types_def)
  moreover have "tables_filled h \<longrightarrow> tables_filled (jstore h a ?j)" by (simp add: tables_filled_def)
  ultimately show ?thesis
    using a(2) l(3) l'(1) by (simp add: json_object_array_add_def jderef_def set_array_eq)
qed

lemma array_add_spec:
  assumes "all_mem E" "counts_ok rk h (ptr_refs v + R) {}" "tables_filled h"
    "a \<in># R" "objs h a = Some j" "o_type j = json_type_array" "ptr_below rk (rk a) v"
  shows "\<exists>h'. json_object_array_add E f h (Some a) v = Some (Inr (0, h')) \<and> counts_ok rk h' R {}
     \<and> keeps_types h h' \<and> tables_filled h'"
  using array_add_counts [OF assms(1,2,4-7), of f] assms(3) by blast

text \<open>Deleting a key from a table, as far as the references go.\<close>

lemma ptrs_refs_without_key:
  assumes "distinct (map fst es)"
  shows "ptrs_refs (map snd es) = ptrs_refs (map snd (without_key k es))
           + (case map_of es k of Some v \<Rightarrow> ptr_refs v | None \<Rightarrow> {#})"
  using assms
proof (induction es)
  case Nil
  then show ?case by (simp add: without_key_def)
next
  case (Cons e es)
  obtain k' v where e: "e = (k', v)" by fastforce
  show ?case
  proof (cases "k' = k")
    case True
    then have "without_key k es = es" using Cons.prems e by (intro without_key_absent) simp
    then show ?thesis using True e by (simp add: without_key_def ac_simps)
  next
    case False
    then show ?thesis using Cons e by (simp add: without_key_def ac_simps)
  qed
qed

lemma table_delete_ok:
  assumes t: "table_ok t es" and free: "lh_free_fn t"
    and del: "lh_table_delete t k = Some (Inr (r, freed, t'))"
  shows "table_ok t' (without_key k es) \<and> lh_free_fn t'
     \<and> freed = (case map_of es k of Some v \<Rightarrow> [(k, v)] | None \<Rightarrow> [])"
proof -
  obtain ord where inv: "lh_inv t ord" and es: "es = lh_items t ord" and dist: "distinct (lh_keys t ord)"
    using t by (auto simp: table_ok_def lh_keys_def)
  show ?thesis
  proof (cases "k \<in> set (lh_keys t ord)")
    case True
    then obtain n where n: "n \<in> set ord" "key_of (lh_tab t ! n) = k" using in_keys_slot by metis
    have v: "map_of es k = Some (lh_v (lh_tab t ! n))" using map_of_item [OF dist n(1)] n(2) es by simp
    obtain t1 where t1: "lh_table_delete t k = Some (Inr (0, [(k, lh_v (lh_tab t ! n))], t1))"
        "lh_inv t1 (remove1 n ord)" "lh_items t1 (remove1 n ord) = without_key k es" "same_fns t t1"
      using delete_present [OF inv dist n] es free by auto
    have "distinct (map fst (without_key k es))" using dist es by (simp add: distinct_without_key lh_keys_def)
    then have "table_ok t1 (without_key k es)" using t1(2,3) by (auto simp: table_ok_def)
    then show ?thesis using t1(1,4) del v free by (simp add: same_fns_def)
  next
    case False
    have "lh_table_lookup_entry t k \<noteq> None" using del by (auto simp: lh_table_delete_def ubind_eq_Inr)
    then have "has_empty t" using lookup_absent_diverges [OF inv False] by (cases "has_empty t") simp_all
    then have "lh_table_delete t k = Some (Inr (-1, [], t\<lparr>lh_lookups := lh_lookups t + 1\<rparr>))"
      using delete_absent [OF inv False] by blast
    moreover have "map_of es k = None" using False es by (simp add: lh_keys_def map_of_eq_None_iff)
    moreover then have "without_key k es = es" by (intro without_key_absent) (simp add: map_of_eq_None_iff)
    moreover have "table_ok (t\<lparr>lh_lookups := lh_lookups t + 1\<rparr>) es" using inv es dist
      by (auto simp: table_ok_def lh_keys_def lh_items_def)
    ultimately show ?thesis using del free by auto
  qed
qed

text \<open>A deletion returns just when the key is there or the table has a slot that was never used.\<close>

lemma table_delete_returns:
  assumes "table_ok t es"
  shows "if has_empty t \<or> k \<in> fst ` set es then \<exists>r freed t'. lh_table_delete t k = Some (Inr (r, freed, t')) else lh_table_delete t k = None"
proof -
  obtain ord where inv: "lh_inv t ord" and es: "es = lh_items t ord" and dist: "distinct (lh_keys t ord)"
    using assms by (auto simp: table_ok_def lh_keys_def)
  have keys: "fst ` set es = set (lh_keys t ord)" by (simp add: es lh_keys_def)
  show ?thesis
  proof (cases "k \<in> set (lh_keys t ord)")
    case True
    then obtain n where n: "n \<in> set ord" "key_of (lh_tab t ! n) = k" using in_keys_slot by metis
    show ?thesis using delete_present [OF inv dist n] True keys by auto
  next
    case False
    show ?thesis
    proof (cases "has_empty t")
      case True
      then show ?thesis using delete_absent [OF inv False] by auto
    next
      case no: False
      then have "lh_table_delete t k = None" using lookup_absent_diverges [OF inv False] by (simp add: lh_table_delete_def)
      then show ?thesis using False no keys by simp
    qed
  qed
qed

lemma table_insert_ok:
  assumes "table_ok t es" "k \<notin> fst ` set es"
  shows "\<exists>t'. lh_insert t k v = Some (Inr t') \<and> table_ok t' (es @ [(k, v)]) \<and> same_fns t t'"
proof -
  obtain ord where inv: "lh_inv t ord" and es: "es = lh_items t ord" using assms(1) by (auto simp: table_ok_def)
  then have "length ord + 4 \<le> nat (lh_count t) + 4" by (simp add: lh_inv_def)
  from insert_spec [OF inv this, of k v] obtain t' ord' where "lh_insert t k v = Some (Inr t')" "lh_inv t' ord'"
    "lh_items t' ord' = es @ [(k, v)]" "same_fns t t'" using es by (auto simp: lh_insert_def)
  moreover have "distinct (map fst (es @ [(k, v)]))" using assms by (auto simp: table_ok_def)
  ultimately show ?thesis by (metis table_ok_def)
qed

lemma object_del_spec:
  assumes ok: "counts_ok rk h R {}"
    and a: "objs h a = Some j" "o_type j = json_type_object" and t: "o_data j = C_object t" "table_ok t es"
    and del: "lh_table_delete t k = Some (Inr (r, freed, t'))" and f: "rk a \<le> f"
  shows "\<exists>h'. json_object_object_del f h (Some a) k = Some (Inr h') \<and> counts_ok rk h' R {}
     \<and> only_counts (jstore h a (j\<lparr>o_data := C_object t'\<rparr>)) h'"
proof -
  have jok: "json_object_ok j" using ok a by (simp add: counts_ok_def)
  have free: "lh_free_fn t" "as_table j = Inr t" using table_obj [OF jok a(2)] t(1) by fastforce+
  have t': "table_ok t' (without_key k es)" "lh_free_fn t'" "freed = (case map_of es k of Some v \<Rightarrow> [(k, v)] | None \<Rightarrow> [])"
    using table_delete_ok [OF t(2) free(1) del] by blast+
  let ?j = "j\<lparr>o_data := C_object t'\<rparr>" and ?X = "ptrs_refs (map snd freed)"
  have "distinct (map fst es)" using t(2) by (simp add: table_ok_def)
  from ptrs_refs_without_key [OF this, of k]
  have kids: "kids ?j + ?X = kids j + {#}"
    using t t'(1,3) by (simp add: kids_def table_entries_ok flip: ptrs_refs_def split: option.split)
  have ok1: "counts_ok rk (jstore h a ?j) (?X + R) {}"
  proof (rule counts_ok_set [where Y = "{#}"])
    show "counts_ok rk h ({#} + R) {}" using ok by simp
    show "json_object_ok ?j" by (rule json_object_ok_table [OF jok a(2) t'(1,2)])
    show "rk b < rk a" if "b \<in># kids ?j" for b
      using kids_rank [OF ok a(1)] that kids by (metis add.right_neutral union_iff)
  qed (use a kids in simp_all)
  have below: "\<forall>v \<in> set (map snd freed). ptr_below rk f v"
  proof
    fix v assume v: "v \<in> set (map snd freed)"
    have "rk b < f" if "v = Some b" for b
    proof -
      have "b \<in># kids j" using v that kids in_ptrs_refs by (metis add.right_neutral union_iff)
      then show ?thesis using kids_rank [OF ok a(1)] f by (meson order_less_le_trans)
    qed
    then show "ptr_below rk f v" by (simp add: ptr_below_def)
  qed
  from put_list_step [OF put_spec ok1 below]
  obtain h' where "run_fold (json_object_put f) (jstore h a ?j) (map snd freed) = Some (Inr h')"
      "counts_ok rk h' R {}" "only_counts (jstore h a ?j) h'" by blast
  then show ?thesis
    using a free(2) del by (simp add: json_object_object_del_def jderef_def set_table_eq)
qed

text \<open>
  Adding to an object: when the deletion of the key returns, so does the insertion. Only the table of the object changes.
\<close>

lemma object_add_counts:
  assumes E: "all_mem E" and ok: "counts_ok rk h (ptr_refs v + R) {}"
    and a: "a \<in># R" "objs h a = Some j" "o_type j = json_type_object" and t: "o_data j = C_object t" "table_ok t es"
    and v: "ptr_below rk (rk a) v" and f: "rk a \<le> f" and del: "lh_table_delete t k = Some (Inr (r, fr, t1))"
  shows "\<exists>h' t2. lh_insert t1 k v = Some (Inr t2) \<and> json_object_object_add E f h (Some a) k v = Some (Inr h') \<and> counts_ok rk h' R {}
     \<and> keeps_types h h' \<and> (\<forall>b i u. objs h' b = Some i \<longrightarrow> o_data i = C_object u \<longrightarrow>
          (if b = a then u = t2 else \<exists>i0. objs h b = Some i0 \<and> o_data i0 = C_object u))"
proof -
  have jok: "json_object_ok j" using ok a by (simp add: counts_ok_def)
  have free: "lh_free_fn t" using table_obj [OF jok a(3)] t(1) by fastforce
  have t1_ok: "table_ok t1 (without_key k es)" "lh_free_fn t1" using table_delete_ok [OF t(2) free del] by blast+
  obtain t2 where t2: "lh_insert t1 k v = Some (Inr t2)" "table_ok t2 (without_key k es @ [(k, v)])" "same_fns t1 t2"
    using table_insert_ok [OF t1_ok(1), of k v] by auto
  have free2: "lh_free_fn t2" using t2(3) t1_ok(2) by (simp add: same_fns_def)
  obtain h1 where h1: "json_object_object_del f h (Some a) k = Some (Inr h1)" "counts_ok rk h1 (ptr_refs v + R) {}"
      "only_counts (jstore h a (j\<lparr>o_data := C_object t1\<rparr>)) h1"
    using object_del_spec [OF ok a(2,3) t del f] by blast
  have "a \<in># (ptr_refs v + R) + held_refs h1 {}" using a(1) by simp
  then obtain j1 where j1: "objs h1 a = Some j1" by (rule counts_ok_ref [OF h1(2)])
  then obtain n where j1_eq: "j1 = j\<lparr>o_data := C_object t1, ref_count := n\<rparr>"
    using only_countsD [OF h1(3)] by fastforce
  let ?j = "j1\<lparr>o_data := C_object t2\<rparr>"
  have j1ok: "json_object_ok j1" using counts_ok_obj [OF h1(2) j1] .
  have kids: "kids ?j = kids j1 + ptr_refs v"
    using t1_ok(1) t2(2) j1_eq by (simp add: kids_def table_entries_ok flip: ptrs_refs_def)
  have "counts_ok rk (jstore h1 a ?j) ({#} + R) {}"
  proof (rule counts_ok_set [OF h1(2) j1])
    show "json_object_ok ?j" using j1_eq a(3) free2
      by (intro json_object_ok_table [OF j1ok _ t2(2)]) simp_all
    show "rk b < rk a" if "b \<in># kids ?j" for b
      using that v kids_rank [OF h1(2) j1] unfolding kids by (cases v) auto
  qed (simp_all add: kids)
  moreover have "keeps_types h (jstore h1 a ?j)"
  proof -
    have "keeps_types h (jstore h a (j\<lparr>o_data := C_object t1\<rparr>))" using a(2) by (simp add: keeps_types_def)
    moreover have "keeps_types h1 (jstore h1 a ?j)" using j1 by (simp add: keeps_types_def)
    ultimately show ?thesis using only_counts_keeps_types [OF h1(3)] keeps_types_trans by blast
  qed
  moreover have "if b = a then u = t2 else \<exists>i0. objs h b = Some i0 \<and> o_data i0 = C_object u"
    if b: "objs (jstore h1 a ?j) b = Some i" "o_data i = C_object u" for b i u
    using b only_countsD [OF h1(3), of b i] by auto
  moreover have "as_table j1 = Inr t1" using j1_eq by (simp add: as_table_def)
  then have "json_object_object_add E f h (Some a) k v = Some (Inr (jstore h1 a ?j))"
    using h1(1) j1 t2(1) E by (simp add: json_object_object_add_def jderef_def set_table_eq c_strdup_def all_mem_def)
  ultimately show ?thesis using t2(1) by (intro exI [of _ "jstore h1 a ?j"] exI [of _ t2]) auto
qed

lemma object_add_spec:
  assumes E: "all_mem E" and ok: "counts_ok rk h (ptr_refs v + R) {}" and tf: "tables_filled h"
    and a: "a \<in># R" "objs h a = Some j" "o_type j = json_type_object" and v: "ptr_below rk (rk a) v" and f: "rk a \<le> f"
  shows "\<exists>h'. json_object_object_add E f h (Some a) k v = Some (Inr h') \<and> counts_ok rk h' R {}
     \<and> keeps_types h h' \<and> tables_filled h'"
proof -
  have jok: "json_object_ok j" using ok a by (simp add: counts_ok_def)
  obtain t es where t: "o_data j = C_object t" "filled t es"
    using table_obj [OF jok a(3)] tf a(2) by (metis tables_filled_def)
  obtain t2 fr where "lh_put t k v = Some (Inr (fr, t2))" and t2: "filled t2 (dict_put es k v)"
    using put_filled [OF t(2)] by blast
  then obtain r t1 where t1: "lh_table_delete t k = Some (Inr (r, fr, t1))" "lh_insert t1 k v = Some (Inr t2)"
    by (auto simp: lh_put_def ubind_eq_Inr)
  obtain h' t2' where h': "lh_insert t1 k v = Some (Inr t2')" "json_object_object_add E f h (Some a) k v = Some (Inr h')"
    "counts_ok rk h' R {}" "keeps_types h h'" and tabs: "\<forall>b i u. objs h' b = Some i \<longrightarrow> o_data i = C_object u \<longrightarrow>
          (if b = a then u = t2' else \<exists>i0. objs h b = Some i0 \<and> o_data i0 = C_object u)"
    using object_add_counts [OF E ok a t(1) filled_table_ok [OF t(2)] v f t1(1)] by blast
  have "t2' = t2" using h'(1) t1(2) by simp
  then have "tables_filled h'" using tabs t2 tf unfolding tables_filled_def by metis
  then show ?thesis using h' by blast
qed

end
