(* ===== verification/Json_Client.thy ===== *)
theory Json_Client
  imports Json_Refs
begin

text \<open>
  Programs that use the JSON objects by the rules: they keep account of the references they own
  (\<open>R\<close>), put only what they own, hand a reference over when they add a value to an array or an
  object, and never put an object into itself. Whatever such a program does, no freed object is
  touched, every call but a search in a worn-out table returns, and when all references are put back the store is empty.
\<close>

section \<open>Ranks\<close>

definition holds :: "json_heap \<Rightarrow> (addr \<times> addr) set" where
  "holds h = {(b, a). \<exists>j. objs h a = Some j \<and> b \<in># kids j}"

definition below :: "(addr \<times> addr) set \<Rightarrow> addr \<Rightarrow> addr set" where
  "below r a = {c. (c, a) \<in> r\<^sup>+}"

lemma finite_below: "finite r \<Longrightarrow> finite (below r a)"
  by (rule finite_subset [of _ "Domain r"]) (auto simp: below_def finite_Domain dest: tranclD)

lemma below_mono:
  assumes "finite r" "acyclic r" "(b, a) \<in> r"
  shows "card (below r b) < card (below r a)"
proof (rule psubset_card_mono [OF finite_below [OF assms(1)]])
  have "below r b \<subseteq> below r a" using assms(3) by (auto simp: below_def intro: trancl_into_trancl)
  moreover have "b \<in> below r a" using assms(3) by (auto simp: below_def)
  moreover have "b \<notin> below r b" using assms(2) by (simp add: below_def acyclic_def)
  ultimately show "below r b \<subset> below r a" by blast
qed

lemma counts_ok_rank:
  "counts_ok rk h R D \<Longrightarrow> (\<And>a b. (b, a) \<in> holds h \<Longrightarrow> rk' b < rk' a) \<Longrightarrow> counts_ok rk' h R D"
  unfolding counts_ok_def holds_def by blast

lemma holds_acyclic: "counts_ok rk h R D \<Longrightarrow> acyclic (holds h)"
  by (rule acyclic_subset [OF wf_acyclic [OF wf_measure [of rk]]]) (auto simp: holds_def counts_ok_def)

lemma kids_live:
  assumes ok: "counts_ok rk h R {}" and j: "objs h a = Some j" "b \<in># kids j"
  shows "b \<in> dom (objs h)"
proof (rule ccontr)
  assume "b \<notin> dom (objs h)"
  then have "count (R + held_refs h {}) b = 0" using ok by (auto simp: counts_ok_def count_of_def split: option.split)
  moreover have "finite (dom (objs h))" using ok by (simp add: counts_ok_def)
  then have "held_refs h {} = kids j + (\<Sum>c \<in> dom (objs h) - {a}. kids (the (objs h c)))"
    unfolding held_refs_def using j by (subst sum.remove [of _ a]) auto
  ultimately show False using j(2) by (simp add: not_in_iff [symmetric])
qed

lemma holds_live: "counts_ok rk h R {} \<Longrightarrow> holds h \<subseteq> dom (objs h) \<times> dom (objs h)"
  by (auto simp: holds_def dest: kids_live)

lemma finite_holds: "counts_ok rk h R {} \<Longrightarrow> finite (holds h)"
  by (rule finite_subset [OF holds_live [of rk h R]]) (auto simp: counts_ok_def)

text \<open>
  An acyclic relation between the live objects that has all the references in it gives a rank below
  the number of live objects.
\<close>

definition live :: "json_heap \<Rightarrow> nat" where
  "live h = card (dom (objs h))"

lemma rank_from:
  assumes ok: "counts_ok rk h R {}" and r: "acyclic r" "holds h \<subseteq> r" "r \<subseteq> dom (objs h) \<times> dom (objs h)"
  defines "rk' \<equiv> \<lambda>a. card (below r a)"
  shows "counts_ok rk' h R {}" "(b, a) \<in> r \<Longrightarrow> rk' b < rk' a" "a \<in> dom (objs h) \<Longrightarrow> rk' a < live h"
proof -
  have fin: "finite (dom (objs h))" using ok by (simp add: counts_ok_def)
  then have finr: "finite r" using r(3) finite_subset by blast
  show mono: "rk' b < rk' a" if "(b, a) \<in> r" for a b
    unfolding rk'_def by (rule below_mono [OF finr r(1) that])
  show "counts_ok rk' h R {}" by (rule counts_ok_rank [OF ok mono]) (use r(2) in blast)
  assume a: "a \<in> dom (objs h)"
  have "below r a \<subseteq> dom (objs h)" using r(3) by (auto simp: below_def dest: tranclD)
  moreover have "a \<notin> below r a" using r(1) by (simp add: below_def acyclic_def)
  ultimately have "below r a \<subset> dom (objs h)" using a by blast
  then show "rk' a < live h" unfolding rk'_def live_def by (rule psubset_card_mono [OF fin])
qed

definition refs_ok :: "json_heap \<Rightarrow> addr multiset \<Rightarrow> bool" where
  "refs_ok h R \<longleftrightarrow> (\<exists>rk. counts_ok rk h R {})"

lemma refs_okE:
  assumes "refs_ok h R"
  obtains rk where "counts_ok rk h R {}" "\<And>a. a \<in> dom (objs h) \<Longrightarrow> rk a < live h"
proof -
  obtain rk where rk: "counts_ok rk h R {}" using assms by (auto simp: refs_ok_def)
  show ?thesis by (rule that [OF rank_from(1,3) [OF rk holds_acyclic [OF rk] subset_refl holds_live [OF rk]]])
qed

text \<open>Room for one more reference: the rank puts \<open>b\<close> under \<open>a\<close> when \<open>a\<close> is not under \<open>b\<close>.\<close>

lemma refs_ok_below:
  assumes "refs_ok h R" "a \<in> dom (objs h)" "b \<in> dom (objs h)" "(a, b) \<notin> (holds h)\<^sup>*"
  obtains rk where "counts_ok rk h R {}" "rk b < rk a" "\<And>c. c \<in> dom (objs h) \<Longrightarrow> rk c < live h"
proof -
  obtain rk where rk: "counts_ok rk h R {}" using assms by (auto simp: refs_ok_def)
  let ?r = "insert (b, a) (holds h)"
  have "acyclic ?r" using holds_acyclic [OF rk] assms(4) by (simp add: acyclic_insert)
  moreover have "holds h \<subseteq> ?r" "?r \<subseteq> dom (objs h) \<times> dom (objs h)" using holds_live [OF rk] assms by auto
  ultimately show ?thesis using rank_from [OF rk, of ?r] by (intro that [of "\<lambda>a. card (below ?r a)"]) auto
qed

lemma refs_live: "refs_ok h R \<Longrightarrow> a \<in># R \<Longrightarrow> a \<in> dom (objs h)"
  unfolding refs_ok_def by (metis counts_ok_ref domI union_iff)

text \<open>A store to which no reference is left is empty.\<close>

lemma no_refs_empty:
  assumes "refs_ok h {#}"
  shows "dom (objs h) = {}"
proof (rule ccontr)
  obtain rk where ok: "counts_ok rk h {#} {}" using assms by (auto simp: refs_ok_def)
  assume ne: "dom (objs h) \<noteq> {}"
  have fin: "finite (dom (objs h))" using ok by (simp add: counts_ok_def)
  have "Max (rk ` dom (objs h)) \<in> rk ` dom (objs h)" using fin ne by (intro Max_in) auto
  then obtain a where a: "Max (rk ` dom (objs h)) = rk a" "a \<in> dom (objs h)" by (rule imageE)
  have top: "rk b \<le> rk a" if "b \<in> dom (objs h)" for b using that fin by (simp flip: a(1))
  obtain j where j: "objs h a = Some j" "0 < ref_count j" using a(2) ok by (auto simp: counts_ok_def)
  then have "a \<in># held_refs h {}"
    using ok by (intro count_inI) (auto simp: counts_ok_def count_of_def)
  then obtain b where "b \<in> dom (objs h)" "a \<in># kids (the (objs h b))"
    unfolding held_refs_def using fin by (auto simp: set_mset_sum)
  then have "rk a < rk b" using ok by (auto simp: counts_ok_def)
  then show False using top \<open>b \<in> dom (objs h)\<close> by (meson not_less)
qed

section \<open>New objects\<close>

text \<open>The constructors, as far as references go: a new object that holds nothing.\<close>

definition new_json :: "cenv \<Rightarrow> json_heap \<Rightarrow> jptr \<times> json_heap \<Rightarrow> bool" where
  "new_json E h r \<longleftrightarrow>
     (\<exists>b i d s. r \<in> {json_object_new_object E h, json_object_new_array E h, json_object_new_boolean E h b,
        json_object_new_int E h i, json_object_new_double E h d, json_object_new_string E h s})"

definition adds_object :: "json_heap \<Rightarrow> json_type \<Rightarrow> jptr \<times> json_heap \<Rightarrow> bool" where
  "adds_object h ty r \<longleftrightarrow> (\<exists>j. r = (Some (next_addr h), \<lparr>objs = (objs h)(next_addr h \<mapsto> j), next_addr = Suc (next_addr h)\<rparr>)
     \<and> json_object_ok j \<and> ref_count j = 1 \<and> kids j = {#} \<and> o_type j = ty
     \<and> (\<forall>t. o_data j = C_object t \<longrightarrow> filled t []))"

lemma adds_objectI:
  assumes "r = (Some (next_addr h), \<lparr>objs = (objs h)(next_addr h \<mapsto> j), next_addr = Suc (next_addr h)\<rparr>)"
    "json_object_ok j" "ref_count j = 1" "kids j = {#}" "o_type j = ty" "\<And>t. o_data j = C_object t \<Longrightarrow> filled t []"
  shows "adds_object h ty r"
  using assms by (auto simp: adds_object_def)

lemmas new_json_defs = json_object_new_def json_setup_def json_object_ok_def kids_def all_mem_def

lemma filled_new_table: "filled (lh_kchar_table_new JSON_OBJECT_DEF_HASH_ENTRIES True) []"
  unfolding lh_kchar_table_new_def JSON_OBJECT_DEF_HASH_ENTRIES_def
  by (intro filled_new) (simp_all add: lh_char_equal_eq)

lemma new_object_adds: "all_mem E \<Longrightarrow> adds_object h json_type_object (json_object_new_object E h)"
  using filled_table_ok [OF filled_new_table] filled_new_table
  by (intro adds_objectI [where j = "\<lparr>o_type = json_type_object, delete_fn = object_delete, to_json_fn = Some object_to_json,
        ref_count = 1, own_pb = None, o_data = C_object (lh_kchar_table_new JSON_OBJECT_DEF_HASH_ENTRIES True)\<rparr>"])
    (auto simp: json_object_new_object_def new_json_defs table_entries_ok lh_kchar_table_new_def lh_table_new_def)

lemma new_array_adds: "all_mem E \<Longrightarrow> adds_object h json_type_array (json_object_new_array E h)"
proof -
  assume E: "all_mem E"
  then obtain l :: "addr array_list" where l: "array_list_new (mem E) = Some l" by (auto simp: array_list_new_def all_mem_def)
  then show ?thesis
    using array_list_new_inv [OF l] E
    by (intro adds_objectI [where j = "\<lparr>o_type = json_type_array, delete_fn = array_delete, to_json_fn = Some array_to_json,
          ref_count = 1, own_pb = None, o_data = C_array (Some l)\<rparr>"])
      (auto simp: json_object_new_array_def new_json_defs)
qed

lemma new_boolean_adds: "all_mem E \<Longrightarrow> adds_object h json_type_boolean (json_object_new_boolean E h b)"
  by (intro adds_objectI [where j = "\<lparr>o_type = json_type_boolean, delete_fn = generic_delete,
        to_json_fn = Some boolean_to_json, ref_count = 1, own_pb = None, o_data = C_boolean b\<rparr>"])
    (auto simp: json_object_new_boolean_def new_json_defs)

lemma new_int_adds: "all_mem E \<Longrightarrow> adds_object h json_type_int (json_object_new_int E h i)"
  by (intro adds_objectI [where j = "\<lparr>o_type = json_type_int, delete_fn = generic_delete,
        to_json_fn = Some int_to_json, ref_count = 1, own_pb = None, o_data = C_int i\<rparr>"])
    (auto simp: json_object_new_int_def new_json_defs)

lemma new_double_adds: "all_mem E \<Longrightarrow> adds_object h json_type_double (json_object_new_double E h d)"
  by (intro adds_objectI [where j = "\<lparr>o_type = json_type_double, delete_fn = generic_delete,
        to_json_fn = Some double_to_json, ref_count = 1, own_pb = None, o_data = C_double d\<rparr>"])
    (auto simp: json_object_new_double_def new_json_defs)

lemma new_string_adds: "all_mem E \<Longrightarrow> adds_object h json_type_string (json_object_new_string E h s)"
  by (intro adds_objectI [where j = "\<lparr>o_type = json_type_string, delete_fn = string_delete,
        to_json_fn = Some string_to_json, ref_count = 1, own_pb = None, o_data = C_string (Some s)\<rparr>"])
    (auto simp: json_object_new_string_def new_json_defs c_strdup_def)

lemmas constructors_add = new_object_adds new_array_adds new_boolean_adds new_int_adds new_double_adds new_string_adds

lemma adds_object_counts:
  assumes "counts_ok rk h R {}" "adds_object h ty r"
  shows "fst r = Some (next_addr h)" "counts_ok (rk(next_addr h := n)) (snd r) (add_mset (next_addr h) R) {}"
    "tables_filled h \<Longrightarrow> tables_filled (snd r)" "keeps_types h (snd r)"
    "\<exists>j. objs (snd r) (next_addr h) = Some j \<and> o_type j = ty"
proof -
  obtain j where j: "r = (Some (next_addr h), \<lparr>objs = (objs h)(next_addr h \<mapsto> j), next_addr = Suc (next_addr h)\<rparr>)"
     "json_object_ok j" "ref_count j = 1" "kids j = {#}" "o_type j = ty" "\<forall>t. o_data j = C_object t \<longrightarrow> filled t []"
    using assms(2) by (auto simp: adds_object_def)
  show "counts_ok (rk(next_addr h := n)) (snd r) (add_mset (next_addr h) R) {}"
    using counts_ok_new [OF assms(1) j(2-4), of n] j(1) by simp
  show "tables_filled h \<Longrightarrow> tables_filled (snd r)" using j(1,6) unfolding tables_filled_def by (auto split: if_splits)
  show "keeps_types h (snd r)" using j(1) by (auto simp: keeps_types_def)
qed (use assms(2) in \<open>auto simp: adds_object_def\<close>)

section \<open>Rule-abiding programs\<close>

text \<open>
  \<open>may_hand h R a v\<close>: \<open>v\<close> is \<open>NULL\<close> or owned, the program owns \<open>a\<close> besides, and \<open>a\<close> is not inside \<open>v\<close>. \<open>table_of\<close> is the table of
  an object.
\<close>

definition may_hand :: "json_heap \<Rightarrow> addr multiset \<Rightarrow> addr \<Rightarrow> jptr \<Rightarrow> bool" where
  "may_hand h R a v \<longleftrightarrow> ptr_refs v \<subseteq># R \<and> a \<in># R - ptr_refs v \<and> (\<forall>b. v = Some b \<longrightarrow> (a, b) \<notin> (holds h)\<^sup>*)"

definition table_of :: "json_heap \<Rightarrow> addr \<Rightarrow> (char list, addr) lh_table option" where
  "table_of h a = (case objs h a of None \<Rightarrow> None | Some j \<Rightarrow> (case o_data j of C_object t \<Rightarrow> Some t | _ \<Rightarrow> None))"

inductive client :: "cenv \<Rightarrow> json_heap \<Rightarrow> addr multiset \<Rightarrow> bool" for E where
  start: "client E empty_heap {#}"
| make: "client E h R \<Longrightarrow> new_json E h (p, h') \<Longrightarrow> client E h' (ptr_refs p + R)"
| get: "client E h R \<Longrightarrow> ptr_refs p \<subseteq># R + held_refs h {} \<Longrightarrow> json_object_get h p = Inr (p', h')
        \<Longrightarrow> client E h' (ptr_refs p' + R)"
| put: "client E h (ptr_refs p + R) \<Longrightarrow> live h \<le> f \<Longrightarrow> json_object_put f h p = Some (Inr h') \<Longrightarrow> client E h' R"
| array_add: "client E h R \<Longrightarrow> may_hand h R a v \<Longrightarrow> json_object_is_type h (Some a) json_type_array = Inr True
        \<Longrightarrow> json_object_array_add E f h (Some a) v = Some (Inr (r, h')) \<Longrightarrow> client E h' (R - ptr_refs v)"
| object_add: "client E h R \<Longrightarrow> may_hand h R a v \<Longrightarrow> table_of h a = Some t
        \<Longrightarrow> live h \<le> f \<Longrightarrow> json_object_object_add E f h (Some a) k v = Some (Inr h') \<Longrightarrow> client E h' (R - ptr_refs v)"
| object_del: "client E h R \<Longrightarrow> a \<in># R + held_refs h {} \<Longrightarrow> table_of h a = Some t
        \<Longrightarrow> live h \<le> f \<Longrightarrow> json_object_object_del f h (Some a) k = Some (Inr h') \<Longrightarrow> client E h' R"

text \<open>A store whose counts are right, and one that has no table with a freed slot besides.\<close>

definition client_ok :: "json_heap \<Rightarrow> addr multiset \<Rightarrow> bool" where
  "client_ok h R \<longleftrightarrow> refs_ok h R \<and> tables_filled h"

lemma client_ok_empty: "client_ok empty_heap {#}"
  by (auto simp: client_ok_def refs_ok_def counts_ok_def tables_filled_def empty_heap_def held_refs_def count_of_def)

lemma new_json_adds: "all_mem E \<Longrightarrow> new_json E h (p, h') \<Longrightarrow> \<exists>ty. adds_object h ty (p, h')"
  using constructors_add by (auto simp: new_json_def) metis+

lemma refs_ok_make:
  assumes "refs_ok h R" "all_mem E" "new_json E h (p, h')"
  shows "refs_ok h' (ptr_refs p + R)" "tables_filled h \<Longrightarrow> tables_filled h'"
proof -
  obtain rk where rk: "counts_ok rk h R {}" using assms(1) by (auto simp: refs_ok_def)
  obtain ty where "adds_object h ty (p, h')" using new_json_adds [OF assms(2,3)] by blast
  from adds_object_counts(1-3) [OF rk this] show "refs_ok h' (ptr_refs p + R)" "tables_filled h \<Longrightarrow> tables_filled h'"
    by (auto simp: refs_ok_def)
qed

lemma client_ok_make: "client_ok h R \<Longrightarrow> all_mem E \<Longrightarrow> new_json E h (p, h') \<Longrightarrow> client_ok h' (ptr_refs p + R)"
  unfolding client_ok_def using refs_ok_make by blast

lemma refs_ok_get:
  assumes "refs_ok h R" "ptr_refs p \<subseteq># R + held_refs h {}"
  shows "\<exists>h'. json_object_get h p = Inr (p, h') \<and> refs_ok h' (ptr_refs p + R)"
proof -
  obtain rk where "counts_ok rk h R {}" using assms(1) by (auto simp: refs_ok_def)
  from get_spec [OF this assms(2)] show ?thesis by (auto simp: refs_ok_def)
qed

lemma refs_ok_put:
  assumes refs: "refs_ok h (ptr_refs p + R)" and f: "live h \<le> f"
  shows "\<exists>h'. json_object_put f h p = Some (Inr h') \<and> refs_ok h' R"
proof -
  obtain rk where rk: "counts_ok rk h (ptr_refs p + R) {}" "\<And>a. a \<in> dom (objs h) \<Longrightarrow> rk a < live h"
    by (rule refs_okE [OF refs]) blast
  have "rk a < f" if "p = Some a" for a
    using order_less_le_trans [OF rk(2) f] refs_live [OF refs, of a] that by simp
  then have "ptr_below rk f p" by (simp add: ptr_below_def)
  from put_spec [OF rk(1) this] show ?thesis by (auto simp: refs_ok_def)
qed

lemma may_hand_rank:
  assumes refs: "refs_ok h R" and "may_hand h R a v"
  obtains rk j R' where "counts_ok rk h (ptr_refs v + R') {}" "R' = R - ptr_refs v" "a \<in># R'" "objs h a = Some j"
    "ptr_below rk (rk a) v" "rk a < live h"
proof -
  have R: "R = ptr_refs v + (R - ptr_refs v)" and a: "a \<in># R - ptr_refs v"
    using assms(2) by (simp_all add: may_hand_def)
  then have aR: "a \<in># R" using in_diffD by fastforce
  then obtain j where j: "objs h a = Some j" using refs_live [OF refs] by blast
  show ?thesis
  proof (cases v)
    case None
    obtain rk where "counts_ok rk h R {}" "\<And>a. a \<in> dom (objs h) \<Longrightarrow> rk a < live h" by (rule refs_okE [OF refs]) blast
    then show ?thesis using R a j None by (intro that [of rk "R - ptr_refs v" j]) auto
  next
    case (Some b)
    have "b \<in> dom (objs h)" using assms(2) Some refs_live [OF refs] by (simp add: may_hand_def)
    then obtain rk where "counts_ok rk h R {}" "rk b < rk a" "\<And>c. c \<in> dom (objs h) \<Longrightarrow> rk c < live h"
      using refs_ok_below [OF refs, of a b] assms(2) j Some by (auto simp: may_hand_def)
    then show ?thesis using R a j Some by (intro that [of rk "R - ptr_refs v" j]) auto
  qed
qed

lemma is_type_iff:
  "json_object_is_type h (Some a) ty = Inr True \<longleftrightarrow> (\<exists>j. objs h a = Some j \<and> o_type j = ty)"
  by (auto simp: json_object_is_type_def jderef_def split: option.split)

lemma refs_ok_array_add:
  assumes "refs_ok h R" "all_mem E" "may_hand h R a v" "json_object_is_type h (Some a) json_type_array = Inr True"
  shows "\<exists>h'. json_object_array_add E f h (Some a) v = Some (Inr (0, h')) \<and> refs_ok h' (R - ptr_refs v)"
proof -
  obtain rk j R' where rk: "counts_ok rk h (ptr_refs v + R') {}" and R': "R' = R - ptr_refs v" "a \<in># R'"
      and j: "objs h a = Some j" and below: "ptr_below rk (rk a) v"
    by (rule may_hand_rank [OF assms(1,3)])
  have "o_type j = json_type_array" using assms(4) j by (auto simp: is_type_iff)
  from array_add_counts [OF assms(2) rk R'(2) j this below, of f] show ?thesis
    using R'(1) by (auto simp: refs_ok_def)
qed

text \<open>A live object with a table: the table is well-formed.\<close>

lemma table_ofD:
  assumes "counts_ok rk h R {}" "table_of h a = Some t"
  obtains j es where "objs h a = Some j" "o_data j = C_object t" "o_type j = json_type_object" "table_ok t es" "table_entries t = es"
proof -
  obtain j where j: "objs h a = Some j" "o_data j = C_object t"
    using assms(2) by (auto simp: table_of_def split: option.splits json_data.splits)
  have "json_object_ok j" by (rule counts_ok_obj [OF assms(1) j(1)])
  then have "o_type j = json_type_object \<and> (\<exists>es. table_ok t es)"
    using j(2) by (cases "o_type j") (auto simp: json_object_ok_def)
  then show ?thesis using that [OF j] table_entries_ok by blast
qed

text \<open>Whether a call that looks for a key returns.\<close>

definition search_returns :: "(char list, addr) lh_table \<Rightarrow> char list \<Rightarrow> bool" where
  "search_returns t k \<longleftrightarrow> has_empty t \<or> k \<in> fst ` set (table_entries t)"

lemma refs_ok_object_add:
  assumes "refs_ok h R" "all_mem E" "may_hand h R a v" "table_of h a = Some t" "live h \<le> f"
  shows "if search_returns t k then \<exists>h'. json_object_object_add E f h (Some a) k v = Some (Inr h') \<and> refs_ok h' (R - ptr_refs v)
    else json_object_object_add E f h (Some a) k v = None"
proof -
  obtain rk i R' where rk: "counts_ok rk h (ptr_refs v + R') {}" and R': "R' = R - ptr_refs v" "a \<in># R'"
      and below: "ptr_below rk (rk a) v" "rk a < live h"
    by (rule may_hand_rank [OF assms(1,3)])
  obtain j es where j: "objs h a = Some j" "o_data j = C_object t" "o_type j = json_type_object" "table_ok t es" "table_entries t = es"
    by (rule table_ofD [OF rk assms(4)])
  have f: "rk a \<le> f" using below(2) assms(5) by simp
  show ?thesis
  proof (cases "search_returns t k")
    case True
    then obtain r freed t1 where "lh_table_delete t k = Some (Inr (r, freed, t1))"
      using table_delete_returns [OF j(4), of k] j(5) by (auto simp: search_returns_def split: if_splits)
    from object_add_counts [OF assms(2) rk R'(2) j(1,3,2,4) below(1) f this] show ?thesis
      using True R'(1) by (auto simp: refs_ok_def)
  next
    case False
    then have "lh_table_delete t k = None" using table_delete_returns [OF j(4), of k] j(5) by (simp add: search_returns_def)
    then show ?thesis using False j(1,2)
      by (simp add: json_object_object_add_def json_object_object_del_def jderef_def as_table_def)
  qed
qed

lemma refs_ok_object_del:
  assumes "refs_ok h R" "table_of h a = Some t" "live h \<le> f"
  shows "if search_returns t k then \<exists>h'. json_object_object_del f h (Some a) k = Some (Inr h') \<and> refs_ok h' R
    else json_object_object_del f h (Some a) k = None"
proof -
  obtain rk where rk: "counts_ok rk h R {}" "\<And>a. a \<in> dom (objs h) \<Longrightarrow> rk a < live h" by (rule refs_okE [OF assms(1)]) blast
  obtain j es where j: "objs h a = Some j" "o_data j = C_object t" "o_type j = json_type_object" "table_ok t es" "table_entries t = es"
    by (rule table_ofD [OF rk(1) assms(2)])
  have f: "rk a \<le> f" using rk(2) [of a] j(1) assms(3) by fastforce
  show ?thesis
  proof (cases "search_returns t k")
    case True
    then obtain r freed t1 where "lh_table_delete t k = Some (Inr (r, freed, t1))"
      using table_delete_returns [OF j(4), of k] j(5) by (auto simp: search_returns_def split: if_splits)
    from object_del_spec [OF rk(1) j(1,3,2,4) this f] show ?thesis using True by (auto simp: refs_ok_def)
  next
    case False
    then have "lh_table_delete t k = None" using table_delete_returns [OF j(4), of k] j(5) by (simp add: search_returns_def)
    then show ?thesis using False j(1,2)
      by (simp add: json_object_object_del_def jderef_def as_table_def)
  qed
qed

lemma client_keeps_ok:
  assumes "all_mem E"
  shows "client E h R \<Longrightarrow> refs_ok h R"
proof (induction rule: client.induct)
  case start
  show ?case using client_ok_empty by (simp add: client_ok_def)
next
  case (make h R p h')
  then show ?case using refs_ok_make(1) assms by blast
next
  case (get h R p p' h')
  then show ?case using refs_ok_get [of h R p] by auto
next
  case (put h p R f h')
  then show ?case using refs_ok_put [of h p R f] by auto
next
  case (array_add h R a v f r h')
  then show ?case using refs_ok_array_add [of h R E a v f] assms by auto
next
  case (object_add h R a v t f k h')
  then show ?case using refs_ok_object_add [of h R E a v t f k] assms by (auto split: if_splits)
next
  case (object_del h R a t f k h')
  then show ?case using refs_ok_object_del [of h R a t f k] by (auto split: if_splits)
qed

section \<open>What holds of such programs\<close>

lemma refs_ok_counts:
  assumes "refs_ok h R"
  shows "(case objs h a of None \<Rightarrow> 0 | Some j \<Rightarrow> ref_count j) = int (count (R + held_refs h {}) a)" "objs h a = Some j \<Longrightarrow> 0 < ref_count j"
proof -
  obtain rk where rk: "counts_ok rk h R {}" using assms by (auto simp: refs_ok_def)
  then have c: "count (R + held_refs h {}) a = count_of h {} a" by (simp add: counts_ok_def)
  show pos: "0 < ref_count j" if "objs h a = Some j" for j using that rk by (simp add: counts_ok_def)
  show "(case objs h a of None \<Rightarrow> 0 | Some j \<Rightarrow> ref_count j) = int (count (R + held_refs h {}) a)"
    unfolding c using pos by (auto simp: count_of_def split: option.split)
qed

text \<open>
  C3: In every state a client reaches by making objects and by get, put, array_add, object_add and
  object_del calls on references it holds, the count of every object is the number of references to
  it that the client and other objects hold, none is zero, and the next call of these returns
  without a fault; object_add and object_del return exactly when the key is in the object or its
  table has a slot that was never used, and never return otherwise.
\<close>

theorem client_calls_succeed:
  assumes "all_mem E" "client E h R" "live h \<le> f"
  shows "(\<forall>a. (case objs h a of None \<Rightarrow> 0 | Some j \<Rightarrow> ref_count j) = int (count (R + held_refs h {}) a)
       \<and> (\<forall>j. objs h a = Some j \<longrightarrow> 0 < ref_count j))
   \<and> (\<forall>p. (ptr_refs p \<subseteq># R + held_refs h {} \<longrightarrow> (\<exists>h'. json_object_get h p = Inr (p, h')))
       \<and> (ptr_refs p \<subseteq># R \<longrightarrow> (\<exists>h'. json_object_put f h p = Some (Inr h')))
       \<and> (\<forall>a. may_hand h R a p \<and> json_object_is_type h (Some a) json_type_array = Inr True \<longrightarrow>
              (\<exists>h'. json_object_array_add E f h (Some a) p = Some (Inr (0, h')))))
   \<and> (\<forall>a t k. table_of h a = Some t \<longrightarrow>
       (a \<in># R + held_refs h {} \<longrightarrow>
          (if search_returns t k then \<exists>h'. json_object_object_del f h (Some a) k = Some (Inr h')
           else json_object_object_del f h (Some a) k = None))
     \<and> (\<forall>p. may_hand h R a p \<longrightarrow>
          (if search_returns t k then \<exists>h'. json_object_object_add E f h (Some a) k p = Some (Inr h')
           else json_object_object_add E f h (Some a) k p = None)))"
proof -
  have ok: "refs_ok h R" using client_keeps_ok assms by blast
  have "\<exists>h'. json_object_get h p = Inr (p, h')" if "ptr_refs p \<subseteq># R + held_refs h {}" for p
    using refs_ok_get [OF ok that] by blast
  moreover have "\<exists>h'. json_object_put f h p = Some (Inr h')" if "ptr_refs p \<subseteq># R" for p
    using refs_ok_put [of h p "R - ptr_refs p" f] ok assms(3) that by auto
  moreover have "\<exists>h'. json_object_array_add E f h (Some a) p = Some (Inr (0, h'))"
    if "may_hand h R a p" "json_object_is_type h (Some a) json_type_array = Inr True" for a p
    using refs_ok_array_add [OF ok assms(1) that, of f] by blast
  moreover have "if search_returns t k then \<exists>h'. json_object_object_del f h (Some a) k = Some (Inr h')
      else json_object_object_del f h (Some a) k = None" if "table_of h a = Some t" for a t k
    using refs_ok_object_del [OF ok that assms(3), of k] by (auto split: if_splits)
  moreover have "if search_returns t k then \<exists>h'. json_object_object_add E f h (Some a) k p = Some (Inr h')
      else json_object_object_add E f h (Some a) k p = None" if "table_of h a = Some t" "may_hand h R a p" for a t k p
    using refs_ok_object_add [OF ok assms(1) that(2,1) assms(3), of k] by (auto split: if_splits)
  ultimately show ?thesis using refs_ok_counts [OF ok] by blast
qed

lemma put_all_empties:
  assumes refs: "refs_ok h (mset as)" and "live h \<le> f"
  shows "\<exists>h'. run_fold (json_object_put f) h (map Some as) = Some (Inr h') \<and> refs_ok h' {#}"
proof -
  obtain rk where rk: "counts_ok rk h (mset as) {}" "\<And>a. a \<in> dom (objs h) \<Longrightarrow> rk a < live h"
    by (rule refs_okE [OF refs]) blast
  have below: "\<forall>v \<in> set (map Some as). ptr_below rk f v"
    using order_less_le_trans [OF rk(2) assms(2)] refs_live [OF refs] by auto
  have "counts_ok rk h (ptrs_refs (map Some as) + {#}) {}" using rk(1) by simp
  from put_list_step [OF put_spec this below]
  obtain h' where "run_fold (json_object_put f) h (map Some as) = Some (Inr h')" "counts_ok rk h' {#} {}"
    by blast
  then show ?thesis by (auto simp: refs_ok_def)
qed


text \<open>A program that makes an array and puts an int into it, and keeps the array.\<close>

lemma client_demo: "\<exists>h. client plain_env h {#0#}"
proof -
  let ?E = plain_env
  define h1 where "h1 = snd (json_object_new_array ?E empty_heap)"
  define h2 where "h2 = snd (json_object_new_int ?E h1 7)"
  obtain j where r1: "json_object_new_array ?E empty_heap = (Some 0, h1)" and h1: "next_addr h1 = 1"
      "objs h1 = [0 \<mapsto> j]" "o_type j = json_type_array" "kids j = {#}"
    using new_array_adds [OF all_mem_plain_env, of empty_heap] by (auto simp: adds_object_def h1_def empty_heap_def)
  obtain i where r2: "json_object_new_int ?E h1 7 = (Some 1, h2)" and h2: "objs h2 = [0 \<mapsto> j, 1 \<mapsto> i]" "kids i = {#}"
    using new_int_adds [OF all_mem_plain_env, of h1 7] h1 by (auto simp: adds_object_def h2_def)
  have "new_json ?E empty_heap (Some 0, h1)" unfolding new_json_def using r1 by (metis insertCI)
  then have c1: "client ?E h1 {#0#}" using client.make [OF client.start] by force
  have "new_json ?E h1 (Some 1, h2)" unfolding new_json_def using r2 by (metis insertCI)
  then have c2: "client ?E h2 {#0, 1#}" using client.make [OF c1] by (force simp: add_mset_commute)
  have "holds h2 = {}" using h2 h1(4) by (auto simp: holds_def split: if_splits)
  then have hand: "may_hand h2 {#0, 1#} 0 (Some 1)" by (simp add: may_hand_def)
  have ty: "json_object_is_type h2 (Some 0) json_type_array = Inr True" using h2 h1(3) by (simp add: is_type_iff)
  obtain h3 where add: "json_object_array_add ?E 0 h2 (Some 0) (Some 1) = Some (Inr (0, h3))"
    using refs_ok_array_add [OF client_keeps_ok [OF all_mem_plain_env c2] all_mem_plain_env hand ty] by blast
  then have c3: "client ?E h3 {#0#}" using client.array_add [OF c2 hand ty] by force
  then show ?thesis by blast
qed

lemma client_calls_succeed_witness:
  "\<exists>h h'. client plain_env h {#0#} \<and> json_object_put (live h) h (Some 0) = Some (Inr h')
    \<and> (\<forall>j. objs h 0 = Some j \<longrightarrow> ref_count j = 1 + int (count (held_refs h {}) 0))"
proof -
  obtain h where "client plain_env h {#0#}" using client_demo by blast
  moreover note calls = client_calls_succeed [OF all_mem_plain_env this order_refl]
  from calls have "\<exists>h'. json_object_put (live h) h (Some 0) = Some (Inr h')" by (elim conjE allE [of _ "Some 0"]) simp
  moreover have "\<forall>j. objs h 0 = Some j \<longrightarrow> ref_count j = 1 + int (count (held_refs h {}) 0)"
    using calls by (elim conjE allE [of _ 0]) auto
  ultimately show ?thesis by blast
qed


end
