(* ===== verification/Json_Parse_Safe.thy ===== *)
theory Json_Parse_Safe
  imports Json_Tokener Json_Client
begin

text \<open>
  The parser is safe on every input: \<open>ps_ok\<close> is the invariant between two characters and between two
  jumps to \<open>redo_char\<close>, every case of the switch keeps it, and a weight of the state bounds the jumps.
\<close>

section \<open>The invariant\<close>

definition skip_states :: "json_tokener_state set" where
  "skip_states = {json_tokener_state_eatws, json_tokener_state_comment_start, json_tokener_state_comment,
     json_tokener_state_comment_eol, json_tokener_state_comment_end}"

definition escape_states :: "json_tokener_state set" where
  "escape_states = {json_tokener_state_string_escape, json_tokener_state_escape_unicode}"

definition after_space :: "json_tokener_state set" where
  "after_space = {json_tokener_state_start, json_tokener_state_finish, json_tokener_state_array,
     json_tokener_state_array_sep, json_tokener_state_object_field_start, json_tokener_state_object_field_end,
     json_tokener_state_object_value, json_tokener_state_object_sep}"

definition array_states :: "json_tokener_state set" where
  "array_states = {json_tokener_state_array, json_tokener_state_array_add, json_tokener_state_array_sep}"

definition object_states :: "json_tokener_state set" where
  "object_states = {json_tokener_state_object_field_start, json_tokener_state_object_field,
     json_tokener_state_object_field_end, json_tokener_state_object_value,
     json_tokener_state_object_value_add, json_tokener_state_object_sep}"

definition named_states :: "json_tokener_state set" where
  "named_states = {json_tokener_state_object_field_end, json_tokener_state_object_value,
     json_tokener_state_object_value_add}"

definition empty_states :: "json_tokener_state set" where
  "empty_states = {json_tokener_state_start, json_tokener_state_null, json_tokener_state_boolean,
     json_tokener_state_number, json_tokener_state_string}"

definition add_states :: "json_tokener_state set" where
  "add_states = {json_tokener_state_array_add, json_tokener_state_object_value_add}"

text \<open>The states in which the print buffer is a C string.\<close>

definition text_states :: "json_tokener_state set" where
  "text_states = {json_tokener_state_string, json_tokener_state_number, json_tokener_state_object_field,
     json_tokener_state_string_escape, json_tokener_state_escape_unicode}"

lemmas state_sets = skip_states_def escape_states_def after_space_def array_states_def object_states_def
  named_states_def empty_states_def add_states_def text_states_def

text \<open>The state behind white space, comments and escapes.\<close>

definition eff_state :: "json_tokener_srec \<Rightarrow> json_tokener_state" where
  "eff_state s = (if state s \<in> skip_states \<union> escape_states then saved_state s else state s)"

definition is_of_type :: "json_heap \<Rightarrow> json_type \<Rightarrow> jptr \<Rightarrow> bool" where
  "is_of_type h ty p \<longleftrightarrow> (\<exists>a j. p = Some a \<and> objs h a = Some j \<and> o_type j = ty)"

definition state_ok :: "json_tokener_srec \<Rightarrow> bool" where
  "state_ok s \<longleftrightarrow> (state s \<in> skip_states \<longrightarrow> saved_state s \<in> after_space)
     \<and> (state s \<in> escape_states \<longrightarrow> saved_state s \<in> {json_tokener_state_string, json_tokener_state_object_field})
     \<and> (eff_state s \<in> named_states \<longrightarrow> obj_field_name s \<noteq> None)
     \<and> (eff_state s \<in> empty_states \<longrightarrow> current s = None)"

definition level_ok :: "(addr \<Rightarrow> nat) \<Rightarrow> json_heap \<Rightarrow> nat \<Rightarrow> json_tokener_srec \<Rightarrow> bool" where
  "level_ok rk h i s \<longleftrightarrow> state_ok s
     \<and> (eff_state s \<in> array_states \<longrightarrow> is_of_type h json_type_array (current s))
     \<and> (eff_state s \<in> object_states \<longrightarrow> is_of_type h json_type_object (current s))
     \<and> (\<forall>a. current s = Some a \<longrightarrow> rk a = JSON_TOKENER_MAX_DEPTH - i)"

definition top_rec :: "json_tokener \<Rightarrow> json_tokener_srec" where
  "top_rec t = stack t ! depth t"

definition held_by :: "json_tokener \<Rightarrow> addr multiset" where
  "held_by t = ptrs_refs (map current (stack t))"

definition owned_obj :: "parse_state \<Rightarrow> addr multiset" where
  "owned_obj p = (if state (top_rec (ps_tok p)) \<in> add_states then ptr_refs (ps_obj p) else {#})"

definition shape_ok :: "json_tokener \<Rightarrow> bool" where
  "shape_ok t \<longleftrightarrow> length (stack t) = JSON_TOKENER_MAX_DEPTH \<and> depth t < JSON_TOKENER_MAX_DEPTH
     \<and> (\<forall>i < depth t. state (stack t ! i) \<in> add_states)
     \<and> (\<forall>i. depth t < i \<longrightarrow> i < JSON_TOKENER_MAX_DEPTH \<longrightarrow> current (stack t ! i) = None)"

definition buffer_ok :: "json_tokener \<Rightarrow> bool" where
  "buffer_ok t \<longleftrightarrow> (\<exists>pb. tok_pb t = Some pb \<and> pb_inv pb \<and> (state (top_rec t) \<in> text_states \<longrightarrow> pb_terminated pb))"

definition ps_ok :: "(addr \<Rightarrow> nat) \<Rightarrow> addr multiset \<Rightarrow> parse_state \<Rightarrow> bool" where
  "ps_ok rk R p \<longleftrightarrow> shape_ok (ps_tok p) \<and> buffer_ok (ps_tok p)
     \<and> (\<forall>i \<le> depth (ps_tok p). level_ok rk (ps_heap p) i (stack (ps_tok p) ! i))
     \<and> counts_ok rk (ps_heap p) (held_by (ps_tok p) + owned_obj p + R) {}
     \<and> tables_filled (ps_heap p)
     \<and> (state (top_rec (ps_tok p)) \<in> add_states
          \<longrightarrow> ptr_below rk (JSON_TOKENER_MAX_DEPTH - depth (ps_tok p)) (ps_obj p))"

text \<open>How many cases of the switch the current character can still go through.\<close>

definition weight :: "json_tokener_srec \<Rightarrow> nat" where
  "weight s = (case state s of
      json_tokener_state_eatws \<Rightarrow>
        (if saved_state s \<in> {json_tokener_state_array, json_tokener_state_object_value} then 10
         else if saved_state s = json_tokener_state_start then 8
         else if saved_state s = json_tokener_state_finish then 5 else 2)
    | json_tokener_state_array \<Rightarrow> 9 | json_tokener_state_object_value \<Rightarrow> 9
    | json_tokener_state_start \<Rightarrow> 7
    | json_tokener_state_null \<Rightarrow> 6 | json_tokener_state_boolean \<Rightarrow> 6 | json_tokener_state_number \<Rightarrow> 6
    | json_tokener_state_finish \<Rightarrow> 4
    | json_tokener_state_array_add \<Rightarrow> 3 | json_tokener_state_object_value_add \<Rightarrow> 3
    | _ \<Rightarrow> 1)"

definition good_step :: "addr multiset \<Rightarrow> parse_state \<Rightarrow> (flow \<times> parse_state) run \<Rightarrow> bool" where
  "good_step R p r \<longleftrightarrow> (\<exists>w p' rk'. r = Some (Inr (w, p')) \<and> ps_ok rk' R p'
     \<and> (w = Redo \<longrightarrow> weight (top_rec (ps_tok p')) < weight (top_rec (ps_tok p)))
     \<and> (w \<noteq> Redo \<longrightarrow> state (top_rec (ps_tok p')) \<notin> add_states)
     \<and> char_offset (ps_tok p') = char_offset (ps_tok p))"

lemma good_stepI:
  assumes "r = Some (Inr (w, p'))" "ps_ok rk' R p'"
    "w = Redo \<Longrightarrow> weight (top_rec (ps_tok p')) < weight (top_rec (ps_tok p))"
    "w \<noteq> Redo \<Longrightarrow> state (top_rec (ps_tok p')) \<notin> add_states"
    "char_offset (ps_tok p') = char_offset (ps_tok p)"
  shows "good_step R p r"
  using assms unfolding good_step_def by blast

section \<open>Steps that stay on the level\<close>

lemma top_on_top [simp]:
  "depth t < length (stack t) \<Longrightarrow> top_rec (on_top g t) = g (top_rec t)"
  by (simp add: top_rec_def on_top_def)

lemma held_update:
  assumes "i < length xs"
  shows "ptrs_refs (xs[i := p]) + ptr_refs (xs ! i) = ptrs_refs xs + ptr_refs p"
  using assms
proof (induction xs arbitrary: i)
  case (Cons x xs)
  then show ?case by (cases i) (simp_all add: ac_simps)
qed simp

text \<open>The state of the top level changes, its value does not.\<close>

lemma ps_ok_move:
  assumes ok: "ps_ok rk R p" and s: "state (top_rec (ps_tok p)) \<notin> add_states"
    and t': "stack t' = (stack (ps_tok p))[depth (ps_tok p) := s']" "depth t' = depth (ps_tok p)"
    and s': "current s' = current (top_rec (ps_tok p))" "state s' \<notin> add_states" "state_ok s'"
      "eff_state s' \<in> array_states \<Longrightarrow> eff_state (top_rec (ps_tok p)) \<in> array_states"
      "eff_state s' \<in> object_states \<Longrightarrow> eff_state (top_rec (ps_tok p)) \<in> object_states"
    and pb: "tok_pb t' = Some pb" "pb_inv pb" "state s' \<in> text_states \<Longrightarrow> pb_terminated pb"
  shows "ps_ok rk R (p\<lparr>ps_tok := t'\<rparr>)"
proof -
  let ?t = "ps_tok p"
  have len: "depth ?t < length (stack ?t)" using ok by (simp add: ps_ok_def shape_ok_def)
  have top: "top_rec t' = s'" using t' len by (simp add: top_rec_def)
  have "(map current (stack ?t))[depth ?t := current s'] = map current (stack ?t)"
    using s'(1) len by (simp add: top_rec_def list_update_same_conv)
  then have held: "held_by t' = held_by ?t" by (simp add: held_by_def t'(1) map_update)
  have "level_ok rk (ps_heap p) (depth ?t) (top_rec ?t)" using ok by (simp add: ps_ok_def top_rec_def)
  then have "level_ok rk (ps_heap p) (depth ?t) s'" using s' by (simp add: level_ok_def)
  then have "level_ok rk (ps_heap p) i (stack t' ! i)" if "i \<le> depth t'" for i
    using ok that t' len by (cases "i = depth ?t") (simp_all add: ps_ok_def)
  moreover have "shape_ok t'" using ok t' by (auto simp: ps_ok_def shape_ok_def nth_list_update)
  moreover have "buffer_ok t'" using pb top by (simp add: buffer_ok_def)
  ultimately show ?thesis using ok s s'(2) by (simp add: ps_ok_def held owned_obj_def top)
qed

lemma move_step:
  assumes ok: "ps_ok rk R p" and s: "state (top_rec (ps_tok p)) \<notin> add_states"
    and t': "stack t' = (stack (ps_tok p))[depth (ps_tok p) := s']" "depth t' = depth (ps_tok p)"
      "char_offset t' = char_offset (ps_tok p)"
    and s': "current s' = current (top_rec (ps_tok p))" "state s' \<notin> add_states" "state_ok s'"
      "eff_state s' \<in> array_states \<Longrightarrow> eff_state (top_rec (ps_tok p)) \<in> array_states"
      "eff_state s' \<in> object_states \<Longrightarrow> eff_state (top_rec (ps_tok p)) \<in> object_states"
    and pb: "tok_pb t' = Some pb" "pb_inv pb" "state s' \<in> text_states \<Longrightarrow> pb_terminated pb"
    and w: "w = Redo \<Longrightarrow> weight s' < weight (top_rec (ps_tok p))"
  shows "good_step R p (leave w p t')"
proof -
  have "top_rec t' = s'" using t'(1,2) ok by (simp add: top_rec_def ps_ok_def shape_ok_def)
  moreover have "ps_ok rk R (p\<lparr>ps_tok := t'\<rparr>)" by (rule ps_ok_move [OF ok s t'(1,2) s' pb])
  ultimately show ?thesis using s'(2) t'(3) w
    by (intro good_stepI [where w = w and p' = "p\<lparr>ps_tok := t'\<rparr>"]) (simp_all add: leave_def)
qed

text \<open>What a case may assume of the level it works on.\<close>

lemma ps_okD:
  assumes "ps_ok rk R p"
  obtains pb where "depth (ps_tok p) < length (stack (ps_tok p))"
    "level_ok rk (ps_heap p) (depth (ps_tok p)) (top_rec (ps_tok p))" "state_ok (top_rec (ps_tok p))"
    "tok_pb (ps_tok p) = Some pb" "pb_inv pb" "state (top_rec (ps_tok p)) \<in> text_states \<Longrightarrow> pb_terminated pb"
  using assms by (auto simp: ps_ok_def shape_ok_def buffer_ok_def level_ok_def top_rec_def)

lemma stack_top_id [simp]: "(stack t)[depth t := top_rec t] = stack t"
  by (simp add: top_rec_def)

lemma on_top_simps [simp]:
  "stack (on_top g t) = (stack t)[depth t := g (top_rec t)]" "depth (on_top g t) = depth t"
  "tok_pb (on_top g t) = tok_pb t" "char_offset (on_top g t) = char_offset t" "quote_char (on_top g t) = quote_char t"
  "st_pos (on_top g t) = st_pos t" "is_double (on_top g t) = is_double t" "err (on_top g t) = err t"
  by (simp_all add: on_top_def top_rec_def)

lemma top_rec_other [simp]:
  "top_rec (t\<lparr>tok_pb := a\<rparr>) = top_rec t" "top_rec (t\<lparr>st_pos := n\<rparr>) = top_rec t"
  "top_rec (t\<lparr>quote_char := c\<rparr>) = top_rec t" "top_rec (t\<lparr>is_double := b\<rparr>) = top_rec t"
  "top_rec (t\<lparr>ucs_char := u\<rparr>) = top_rec t" "top_rec (t\<lparr>err := e\<rparr>) = top_rec t"
  "top_rec (t\<lparr>char_offset := k\<rparr>) = top_rec t"
  by (simp_all add: top_rec_def)

lemma tok_append_ok:
  assumes "all_mem E" "tok_pb t = Some pb" "pb_inv pb"
  obtains pb' where "tok_append E s t = Inr (t\<lparr>tok_pb := Some pb'\<rparr>)" "pb_inv pb'" "pb_terminated pb'"
    "pb_text pb' = pb_text pb @ s"
  using memappend_spec [OF assms(3) mem_all [OF assms(1)], of s] assms(2) by (auto simp: tok_append_def)

lemma tok_pb_reset_ok:
  assumes "tok_pb t = Some pb" "pb_inv pb"
  obtains pb' where "tok_pb_reset t = Inr (t\<lparr>tok_pb := Some pb'\<rparr>)" "pb_inv pb'" "pb_terminated pb'" "pb_text pb' = []"
  using reset_spec [OF assms(2)] assms(1) by (auto simp: tok_pb_reset_def)

lemma tok_text_ok:
  "tok_pb t = Some pb \<Longrightarrow> pb_inv pb \<Longrightarrow> pb_terminated pb \<Longrightarrow> tok_text t = Inr (takeWhile (\<lambda>c. c \<noteq> NUL) (pb_text pb))"
  by (simp add: tok_text_def cstr_pb)

lemma fail_step:
  assumes ok: "ps_ok rk R p" and s: "state (top_rec (ps_tok p)) \<notin> add_states"
  shows "good_step R p (fail e p)"
proof -
  obtain pb where l: "state_ok (top_rec (ps_tok p))" and pb: "tok_pb (ps_tok p) = Some pb" "pb_inv pb"
    "state (top_rec (ps_tok p)) \<in> text_states \<Longrightarrow> pb_terminated pb" by (rule ps_okD [OF ok]) blast
  have "good_step R p (leave Out p ((ps_tok p)\<lparr>err := e\<rparr>))"
    by (rule move_step [OF ok s, where s' = "top_rec (ps_tok p)" and pb = pb]) (use s l pb in simp_all)
  then show ?thesis by (simp add: leave_def fail_def)
qed

text \<open>Text was appended, and the case goes on from there.\<close>

lemma good_step_append:
  assumes ok: "ps_ok rk R p" and E: "all_mem E" and s: "state (top_rec (ps_tok p)) \<notin> add_states"
    and next_step: "\<And>pb. ps_ok rk R (p\<lparr>ps_tok := (ps_tok p)\<lparr>tok_pb := Some pb\<rparr>\<rparr>) \<Longrightarrow> pb_inv pb \<Longrightarrow> pb_terminated pb
        \<Longrightarrow> good_step R (p\<lparr>ps_tok := (ps_tok p)\<lparr>tok_pb := Some pb\<rparr>\<rparr>) (k ((ps_tok p)\<lparr>tok_pb := Some pb\<rparr>))"
  shows "good_step R p (ubind (Some (tok_append E c (ps_tok p))) k)"
proof -
  obtain pb where l: "state_ok (top_rec (ps_tok p))" and pb: "tok_pb (ps_tok p) = Some pb" "pb_inv pb"
    by (rule ps_okD [OF ok]) blast
  obtain pb' where pb': "tok_append E c (ps_tok p) = Inr ((ps_tok p)\<lparr>tok_pb := Some pb'\<rparr>)" "pb_inv pb'" "pb_terminated pb'"
    by (rule tok_append_ok [OF E pb])
  have "ps_ok rk R (p\<lparr>ps_tok := (ps_tok p)\<lparr>tok_pb := Some pb'\<rparr>\<rparr>)"
    by (rule ps_ok_move [OF ok s, where s' = "top_rec (ps_tok p)" and pb = pb']) (use s l pb' in simp_all)
  from next_step [OF this pb'(2,3)] pb'(1) show ?thesis by (simp add: good_step_def)
qed

text \<open>The cases that read one character and stay on the level.\<close>

lemmas state_rec_simps = state_sets state_ok_def eff_state_def weight_def

lemma resume_state:
  assumes "state_ok s" "state s = json_tokener_state_eatws"
  defines "s' \<equiv> s\<lparr>state := saved_state s\<rparr>"
  shows "state s' \<notin> add_states" "state s' \<notin> text_states" "state_ok s'" "eff_state s' = eff_state s" "weight s' < weight s"
  using assms by (cases "saved_state s"; simp add: state_rec_simps)+

lemma st_eatws_good:
  assumes ok: "ps_ok rk R p" and E: "all_mem E" and st: "state (top_rec (ps_tok p)) = json_tokener_state_eatws"
  shows "good_step R p (st_eatws E c (top_rec (ps_tok p)) p)"
proof -
  obtain pb where l: "state_ok (top_rec (ps_tok p))" and pb: "tok_pb (ps_tok p) = Some pb" "pb_inv pb"
    by (rule ps_okD [OF ok]) blast
  have s: "state (top_rec (ps_tok p)) \<notin> add_states" using st by (simp add: state_sets)
  obtain pb1 where pb1: "tok_pb_reset (ps_tok p) = Inr ((ps_tok p)\<lparr>tok_pb := Some pb1\<rparr>)" "pb_inv pb1"
    by (rule tok_pb_reset_ok [OF pb]) blast
  obtain pb2 where pb2: "tok_append E [c] ((ps_tok p)\<lparr>tok_pb := Some pb1\<rparr>) = Inr ((ps_tok p)\<lparr>tok_pb := Some pb2\<rparr>)" "pb_inv pb2"
    by (rule tok_append_ok [OF E, of "(ps_tok p)\<lparr>tok_pb := Some pb1\<rparr>" pb1 "[c]"]) (use pb1 in auto)
  have "good_step R p (leave Break p (ps_tok p))"
    by (rule move_step [OF ok s, where s' = "top_rec (ps_tok p)" and pb = pb]) (use s l pb st in \<open>simp_all add: state_sets\<close>)
  moreover have "good_step R p (leave Break p (go json_tokener_state_comment_start ((ps_tok p)\<lparr>tok_pb := Some pb2\<rparr>)))"
    by (rule move_step [OF ok s, where s' = "(top_rec (ps_tok p))\<lparr>state := json_tokener_state_comment_start\<rparr>" and pb = pb2])
      (use l pb2 st in \<open>simp_all add: go_def state_rec_simps\<close>)
  moreover have "good_step R p (leave Redo p (go (saved_state (top_rec (ps_tok p))) (ps_tok p)))"
    by (rule move_step [OF ok s, where s' = "(top_rec (ps_tok p))\<lparr>state := saved_state (top_rec (ps_tok p))\<rparr>" and pb = pb])
      (use resume_state [OF l st] pb in \<open>simp_all add: go_def\<close>)
  ultimately show ?thesis
    using pb1 pb2 by (cases "c_isspace c"; cases "c = CHR ''/''"; simp add: st_eatws_def Let_def)
qed

text \<open>
  A move after the buffer was appended to or reset: the case goes on with the tokener \<open>u\<close>, which
  differs from the old one in the buffer only.
\<close>

lemma buffer_move:
  assumes ok: "ps_ok rk R p" and s: "state (top_rec (ps_tok p)) \<notin> add_states"
    and pb: "pb_inv pb" "pb_terminated pb"
    and t': "stack t' = (stack (ps_tok p))[depth (ps_tok p) := s']" "depth t' = depth (ps_tok p)"
      "char_offset t' = char_offset (ps_tok p)" "tok_pb t' = Some pb"
    and s': "current s' = current (top_rec (ps_tok p))" "state s' \<notin> add_states" "state_ok s'"
      "eff_state s' \<in> array_states \<Longrightarrow> eff_state (top_rec (ps_tok p)) \<in> array_states"
      "eff_state s' \<in> object_states \<Longrightarrow> eff_state (top_rec (ps_tok p)) \<in> object_states"
    and w: "w = Redo \<Longrightarrow> weight s' < weight (top_rec (ps_tok p))"
  shows "good_step R p (leave w p t')"
  by (rule move_step [OF ok s t'(1-3) s' t'(4) pb(1) _ w]) (use pb in simp_all)

text \<open>Append, then go on in state \<open>s'\<close>.\<close>

lemma append_move:
  assumes ok: "ps_ok rk R p" and E: "all_mem E" and s: "state (top_rec (ps_tok p)) \<notin> add_states"
    and u: "tok_pb u = tok_pb (ps_tok p)"
    and g: "\<And>pb. stack (g (u\<lparr>tok_pb := Some pb\<rparr>)) = (stack (ps_tok p))[depth (ps_tok p) := s']
        \<and> depth (g (u\<lparr>tok_pb := Some pb\<rparr>)) = depth (ps_tok p)
        \<and> char_offset (g (u\<lparr>tok_pb := Some pb\<rparr>)) = char_offset (ps_tok p)
        \<and> tok_pb (g (u\<lparr>tok_pb := Some pb\<rparr>)) = Some pb"
    and s': "current s' = current (top_rec (ps_tok p))" "state s' \<notin> add_states" "state_ok s'"
      "eff_state s' \<in> array_states \<Longrightarrow> eff_state (top_rec (ps_tok p)) \<in> array_states"
      "eff_state s' \<in> object_states \<Longrightarrow> eff_state (top_rec (ps_tok p)) \<in> object_states"
  shows "good_step R p (ubind (Some (tok_append E b u)) (\<lambda>t. leave Break p (g t)))"
proof -
  obtain pb where pb: "tok_pb u = Some pb" "pb_inv pb" using u by (auto intro: ps_okD [OF ok])
  obtain pb' where pb': "tok_append E b u = Inr (u\<lparr>tok_pb := Some pb'\<rparr>)" "pb_inv pb'" "pb_terminated pb'"
    by (rule tok_append_ok [OF E pb])
  have "good_step R p (leave Break p (g (u\<lparr>tok_pb := Some pb'\<rparr>)))"
    by (rule buffer_move [OF ok s pb'(2,3), where s' = s']) (use g [of pb'] s' in auto)
  then show ?thesis by (simp add: pb'(1))
qed

text \<open>The same with a reset in place of the append.\<close>

lemma reset_move:
  assumes ok: "ps_ok rk R p" and s: "state (top_rec (ps_tok p)) \<notin> add_states"
    and u: "tok_pb u = tok_pb (ps_tok p)"
    and g: "\<And>pb. stack (g (u\<lparr>tok_pb := Some pb\<rparr>)) = (stack (ps_tok p))[depth (ps_tok p) := s']
        \<and> depth (g (u\<lparr>tok_pb := Some pb\<rparr>)) = depth (ps_tok p)
        \<and> char_offset (g (u\<lparr>tok_pb := Some pb\<rparr>)) = char_offset (ps_tok p)
        \<and> tok_pb (g (u\<lparr>tok_pb := Some pb\<rparr>)) = Some pb"
    and s': "current s' = current (top_rec (ps_tok p))" "state s' \<notin> add_states" "state_ok s'"
      "eff_state s' \<in> array_states \<Longrightarrow> eff_state (top_rec (ps_tok p)) \<in> array_states"
      "eff_state s' \<in> object_states \<Longrightarrow> eff_state (top_rec (ps_tok p)) \<in> object_states"
    and w: "w = Redo \<Longrightarrow> weight s' < weight (top_rec (ps_tok p))"
  shows "good_step R p (ubind (Some (tok_pb_reset u)) (\<lambda>t. leave w p (g t)))"
proof -
  obtain pb where pb: "tok_pb u = Some pb" "pb_inv pb" using u by (auto intro: ps_okD [OF ok])
  obtain pb' where pb': "tok_pb_reset u = Inr (u\<lparr>tok_pb := Some pb'\<rparr>)" "pb_inv pb'" "pb_terminated pb'"
    by (rule tok_pb_reset_ok [OF pb])
  have "good_step R p (leave w p (g (u\<lparr>tok_pb := Some pb'\<rparr>)))"
    by (rule buffer_move [OF ok s pb'(2,3), where s' = s']) (use g [of pb'] s' w in auto)
  then show ?thesis by (simp add: pb'(1))
qed

text \<open>A move without the buffer.\<close>

lemma plain_move:
  assumes ok: "ps_ok rk R p" and s: "state (top_rec (ps_tok p)) \<notin> add_states"
    and t': "stack t' = (stack (ps_tok p))[depth (ps_tok p) := s']" "depth t' = depth (ps_tok p)"
      "char_offset t' = char_offset (ps_tok p)" "tok_pb t' = tok_pb (ps_tok p)"
    and s': "current s' = current (top_rec (ps_tok p))" "state s' \<notin> add_states" "state_ok s'"
      "eff_state s' \<in> array_states \<Longrightarrow> eff_state (top_rec (ps_tok p)) \<in> array_states"
      "eff_state s' \<in> object_states \<Longrightarrow> eff_state (top_rec (ps_tok p)) \<in> object_states"
      "state s' \<in> text_states \<Longrightarrow> state (top_rec (ps_tok p)) \<in> text_states"
    and w: "w = Redo \<Longrightarrow> weight s' < weight (top_rec (ps_tok p))"
  shows "good_step R p (leave w p t')"
proof -
  obtain pb where pb: "tok_pb (ps_tok p) = Some pb" "pb_inv pb" "state (top_rec (ps_tok p)) \<in> text_states \<Longrightarrow> pb_terminated pb"
    by (rule ps_okD [OF ok]) blast
  show ?thesis by (rule move_step [OF ok s t'(1-3) s'(1-5), of pb]) (use pb t'(4) s'(6) w in auto)
qed

lemma ps_ok_top: "ps_ok rk R p \<Longrightarrow> state_ok (top_rec (ps_tok p)) \<and> depth (ps_tok p) < length (stack (ps_tok p))"
  by (auto elim: ps_okD)

text \<open>Between white space and comments, and from a value into white space.\<close>

lemma skip_disjoint:
  "x \<in> skip_states \<Longrightarrow> x \<notin> escape_states \<and> x \<notin> add_states \<and> x \<notin> text_states"
  by (auto simp: state_sets)

lemma skip_to_skip:
  assumes "state_ok s" "state s \<in> skip_states" "x \<in> skip_states"
  shows "state_ok (s\<lparr>state := x\<rparr>)" "eff_state (s\<lparr>state := x\<rparr>) = eff_state s"
  using assms skip_disjoint by (auto simp: state_ok_def eff_state_def)

lemma eatws_ok:
  "state_ok (s\<lparr>state := json_tokener_state_eatws, saved_state := x\<rparr>) \<longleftrightarrow> x \<in> after_space
     \<and> (x \<in> named_states \<longrightarrow> obj_field_name s \<noteq> None) \<and> (x \<in> empty_states \<longrightarrow> current s = None)"
  "eff_state (s\<lparr>state := json_tokener_state_eatws, saved_state := x\<rparr>) = x"
  by (auto simp: state_ok_def eff_state_def skip_states_def escape_states_def)

lemma skip_move:
  assumes ok: "ps_ok rk R p" and E: "all_mem E" and st: "state (top_rec (ps_tok p)) \<in> skip_states"
    and x: "x \<in> skip_states"
  shows "good_step R p (leave Break p (go x (ps_tok p)))"
    "good_step R p (ubind (Some (tok_append E b (go x (ps_tok p)))) (leave Break p))"
    "good_step R p (ubind (Some (tok_append E b (ps_tok p))) (\<lambda>t. leave Break p (go x t)))"
    "good_step R p (ubind (Some (tok_append E b (ps_tok p))) (leave Break p))"
proof -
  let ?s = "(top_rec (ps_tok p))\<lparr>state := x\<rparr>"
  note l = ps_ok_top [OF ok] and s = skip_disjoint [OF st] and d = skip_disjoint [OF x]
  note k = skip_to_skip [OF conjunct1 [OF l] st x]
  have na: "state (top_rec (ps_tok p)) \<notin> add_states" using s by simp
  show "good_step R p (leave Break p (go x (ps_tok p)))"
    by (rule plain_move [OF ok na, where s' = ?s]) (use l d k in \<open>simp_all add: go_def\<close>)
  show "good_step R p (ubind (Some (tok_append E b (go x (ps_tok p)))) (leave Break p))"
    by (rule append_move [OF ok E na, where g = "\<lambda>t. t" and s' = ?s, simplified]) (use l d k in \<open>simp_all add: go_def\<close>)
  show "good_step R p (ubind (Some (tok_append E b (ps_tok p))) (\<lambda>t. leave Break p (go x t)))"
    by (rule append_move [OF ok E na, where g = "go x" and s' = ?s]) (use l d k in \<open>simp_all add: go_def\<close>)
  show "good_step R p (ubind (Some (tok_append E b (ps_tok p))) (leave Break p))"
    by (rule append_move [OF ok E na, where g = "\<lambda>t. t" and s' = "top_rec (ps_tok p)", simplified]) (use l na in simp_all)
qed

text \<open>The end of a token: white space, and then the state \<open>x\<close>.\<close>

lemma eatws_move:
  assumes ok: "ps_ok rk R p" and s: "state (top_rec (ps_tok p)) \<notin> add_states" and x: "x \<in> after_space"
    and k: "x \<in> named_states \<Longrightarrow> obj_field_name (top_rec (ps_tok p)) \<noteq> None"
      "x \<in> empty_states \<Longrightarrow> current (top_rec (ps_tok p)) = None"
      "x \<in> array_states \<Longrightarrow> eff_state (top_rec (ps_tok p)) \<in> array_states"
      "x \<in> object_states \<Longrightarrow> eff_state (top_rec (ps_tok p)) \<in> object_states"
  shows "good_step R p (leave Break p (go_eatws x (ps_tok p)))"
  by (rule plain_move [OF ok s, where s' = "(top_rec (ps_tok p))\<lparr>state := json_tokener_state_eatws, saved_state := x\<rparr>"])
    (use ps_ok_top [OF ok] x k in \<open>simp_all add: go_eatws_def eatws_ok, simp_all add: state_sets\<close>)

lemma st_comments_good:
  assumes ok: "ps_ok rk R p" and E: "all_mem E" and st: "state (top_rec (ps_tok p)) \<in> skip_states"
  shows "good_step R p (st_comment_start E c p)" "good_step R p (st_comment E c p)"
    "good_step R p (st_comment_eol E c p)" "good_step R p (st_comment_end E c p)"
proof -
  have s: "state (top_rec (ps_tok p)) \<notin> add_states" using skip_disjoint [OF st] by simp
  have m: "json_tokener_state_comment \<in> skip_states" "json_tokener_state_comment_eol \<in> skip_states"
     "json_tokener_state_comment_end \<in> skip_states" "json_tokener_state_eatws \<in> skip_states"
    by (simp_all add: skip_states_def)
  note mv = skip_move [OF ok E st m(1)] skip_move [OF ok E st m(2)] skip_move [OF ok E st m(3)] skip_move [OF ok E st m(4)]
  show "good_step R p (st_comment_start E c p)"
    unfolding st_comment_start_def by (simp add: mv fail_step [OF ok s])
  show "good_step R p (st_comment E c p)" unfolding st_comment_def by (simp add: mv)
  show "good_step R p (st_comment_eol E c p)" unfolding st_comment_eol_def by (simp add: mv)
  show "good_step R p (st_comment_end E c p)" unfolding st_comment_end_def by (simp add: mv)
qed

lemma st_separators_good:
  assumes ok: "ps_ok rk R p"
  shows "state (top_rec (ps_tok p)) = json_tokener_state_array_sep \<Longrightarrow> good_step R p (st_array_sep c p)"
    "state (top_rec (ps_tok p)) = json_tokener_state_object_sep \<Longrightarrow> good_step R p (st_object_sep c p)"
    "state (top_rec (ps_tok p)) = json_tokener_state_object_field_end \<Longrightarrow> good_step R p (st_object_field_end c p)"
proof -
  have l: "state_ok (top_rec (ps_tok p))" using ps_ok_top [OF ok] by simp
  assume st: "state (top_rec (ps_tok p)) = json_tokener_state_array_sep"
  then have s: "state (top_rec (ps_tok p)) \<notin> add_states" by (simp add: state_sets)
  have "good_step R p (leave Break p (go_eatws json_tokener_state_finish (ps_tok p)))"
       "good_step R p (leave Break p (go_eatws json_tokener_state_array (ps_tok p)))"
    by (rule eatws_move [OF ok s]; simp add: state_rec_simps st)+
  then show "good_step R p (st_array_sep c p)" unfolding st_array_sep_def by (simp add: fail_step [OF ok s])
next
  assume st: "state (top_rec (ps_tok p)) = json_tokener_state_object_sep"
  then have s: "state (top_rec (ps_tok p)) \<notin> add_states" by (simp add: state_sets)
  have "good_step R p (leave Break p (go_eatws json_tokener_state_finish (ps_tok p)))"
       "good_step R p (leave Break p (go_eatws json_tokener_state_object_field_start (ps_tok p)))"
    by (rule eatws_move [OF ok s]; simp add: state_rec_simps st)+
  then show "good_step R p (st_object_sep c p)" unfolding st_object_sep_def by (simp add: fail_step [OF ok s])
next
  assume st: "state (top_rec (ps_tok p)) = json_tokener_state_object_field_end"
  then have s: "state (top_rec (ps_tok p)) \<notin> add_states" by (simp add: state_sets)
  have named: "obj_field_name (top_rec (ps_tok p)) \<noteq> None"
    using ps_ok_top [OF ok] st by (simp add: state_rec_simps)
  have "good_step R p (leave Break p (go_eatws json_tokener_state_object_value (ps_tok p)))"
    by (rule eatws_move [OF ok s]) (use named in \<open>simp_all add: state_rec_simps st\<close>)
  then show "good_step R p (st_object_field_end c p)" unfolding st_object_field_end_def by (simp add: fail_step [OF ok s])
qed

lemma st_object_field_start_good:
  assumes ok: "ps_ok rk R p" and st: "state (top_rec (ps_tok p)) = json_tokener_state_object_field_start"
  shows "good_step R p (st_object_field_start c p)"
proof -
  note l = ps_ok_top [OF ok]
  have s: "state (top_rec (ps_tok p)) \<notin> add_states" using st by (simp add: state_sets)
  have "good_step R p (leave Break p (go_eatws json_tokener_state_finish (ps_tok p)))"
    by (rule eatws_move [OF ok s]; simp add: state_rec_simps st)
  moreover have "good_step R p (ubind (Some (tok_pb_reset ((ps_tok p)\<lparr>quote_char := c\<rparr>))) (\<lambda>t.
          leave Break p (go json_tokener_state_object_field t)))"
    by (rule reset_move [OF ok s, where s' = "(top_rec (ps_tok p))\<lparr>state := json_tokener_state_object_field\<rparr>"])
      (use l st in \<open>simp_all add: go_def state_rec_simps\<close>)
  ultimately show ?thesis unfolding st_object_field_start_def by (simp add: fail_step [OF ok s])
qed

section \<open>Strings and escapes\<close>

text \<open>Text is collected: the state stays.\<close>

lemma collect_move:
  assumes ok: "ps_ok rk R p" and E: "all_mem E" and s: "state (top_rec (ps_tok p)) \<notin> add_states"
    and g: "\<And>pb. stack (g ((ps_tok p)\<lparr>tok_pb := Some pb\<rparr>)) = stack (ps_tok p)
        \<and> depth (g ((ps_tok p)\<lparr>tok_pb := Some pb\<rparr>)) = depth (ps_tok p)
        \<and> char_offset (g ((ps_tok p)\<lparr>tok_pb := Some pb\<rparr>)) = char_offset (ps_tok p)
        \<and> tok_pb (g ((ps_tok p)\<lparr>tok_pb := Some pb\<rparr>)) = Some pb"
  shows "good_step R p (ubind (Some (tok_append E b (ps_tok p))) (\<lambda>t. leave Break p (g t)))"
  by (rule append_move [OF ok E s, where s' = "top_rec (ps_tok p)"]) (use g s ps_ok_top [OF ok] in simp_all)

text \<open>A backslash, and the way back from it.\<close>

lemma escape_move:
  assumes ok: "ps_ok rk R p" and x: "x = json_tokener_state_string \<or> x = json_tokener_state_object_field"
    and st: "state (top_rec (ps_tok p)) = x"
  shows "good_step R p (leave Break p (on_top (\<lambda>s. s\<lparr>state := json_tokener_state_string_escape, saved_state := x\<rparr>) (ps_tok p)))"
proof -
  have s: "state (top_rec (ps_tok p)) \<notin> add_states" using st x by (auto simp: state_sets)
  show ?thesis
    by (rule plain_move [OF ok s, where s' = "(top_rec (ps_tok p))\<lparr>state := json_tokener_state_string_escape, saved_state := x\<rparr>"])
      (use x ps_ok_top [OF ok] st in \<open>(elim disjE; simp add: state_rec_simps)+\<close>)
qed

lemma escape_back:
  assumes "state_ok s" "state s \<in> escape_states"
  defines "s' \<equiv> s\<lparr>state := saved_state s\<rparr>"
  shows "state_ok s'" "state s' \<notin> add_states" "eff_state s' = eff_state s"
proof -
  have "saved_state s = json_tokener_state_string \<or> saved_state s = json_tokener_state_object_field"
    using assms(1,2) by (simp add: state_ok_def)
  then show "state_ok s'" "state s' \<notin> add_states" "eff_state s' = eff_state s"
    using assms(1,2) unfolding s'_def by (elim disjE; simp add: state_rec_simps)+
qed

lemma back_move:
  assumes ok: "ps_ok rk R p" and E: "all_mem E" and st: "state (top_rec (ps_tok p)) \<in> escape_states"
    and u: "tok_pb u = tok_pb (ps_tok p)" "stack u = stack (ps_tok p)" "depth u = depth (ps_tok p)"
      "char_offset u = char_offset (ps_tok p)"
  shows "good_step R p (ubind (Some (tok_append E b u)) (\<lambda>t. leave Break p (go (saved_state (top_rec (ps_tok p))) t)))"
proof -
  have s: "state (top_rec (ps_tok p)) \<notin> add_states" using st by (auto simp: state_sets)
  have top: "top_rec u = top_rec (ps_tok p)" using u by (simp add: top_rec_def)
  note b = escape_back [OF conjunct1 [OF ps_ok_top [OF ok]] st]
  show ?thesis
    by (rule append_move [OF ok E s, where s' = "(top_rec (ps_tok p))\<lparr>state := saved_state (top_rec (ps_tok p))\<rparr>"])
      (use b u top in \<open>simp_all add: go_def\<close>)
qed

lemma st_string_escape_good:
  assumes ok: "ps_ok rk R p" and E: "all_mem E" and st: "state (top_rec (ps_tok p)) = json_tokener_state_string_escape"
  shows "good_step R p (st_string_escape E c (top_rec (ps_tok p)) p)"
proof -
  have s: "state (top_rec (ps_tok p)) \<notin> add_states" "state (top_rec (ps_tok p)) \<in> escape_states"
    using st by (simp_all add: state_sets)
  note bk = back_move [OF ok E s(2) refl refl refl refl]
  have "good_step R p (leave Break p (go json_tokener_state_escape_unicode ((ps_tok p)\<lparr>ucs_char := 0, st_pos := 0\<rparr>)))"
    by (rule plain_move [OF ok s(1), where s' = "(top_rec (ps_tok p))\<lparr>state := json_tokener_state_escape_unicode\<rparr>"])
      (use ps_ok_top [OF ok] st in \<open>simp_all add: go_def state_rec_simps\<close>)
  then show ?thesis unfolding st_string_escape_def Let_def by (simp add: bk fail_step [OF ok s(1)])
qed

lemma st_escape_unicode_good:
  assumes ok: "ps_ok rk R p" and E: "all_mem E" and st: "state (top_rec (ps_tok p)) = json_tokener_state_escape_unicode"
  shows "good_step R p (st_escape_unicode E c (top_rec (ps_tok p)) p)"
proof -
  have s: "state (top_rec (ps_tok p)) \<notin> add_states" "state (top_rec (ps_tok p)) \<in> escape_states"
    using st by (simp_all add: state_sets)
  have "good_step R p (leave Break p ((ps_tok p)\<lparr>ucs_char := u, st_pos := n\<rparr>))" for u n
    by (rule plain_move [OF ok s(1), where s' = "top_rec (ps_tok p)"])
      (use ps_ok_top [OF ok] st in \<open>simp_all add: state_sets\<close>)
  moreover have "good_step R p (ubind (Some (tok_append E b ((ps_tok p)\<lparr>ucs_char := u, st_pos := n\<rparr>)))
        (\<lambda>t. leave Break p (go (saved_state (top_rec (ps_tok p))) t)))" for b u n
    by (rule back_move [OF ok E s(2)]) simp_all
  ultimately show ?thesis unfolding st_escape_unicode_def Let_def by (simp add: fail_step [OF ok s(1)])
qed

lemma st_object_field_good:
  assumes ok: "ps_ok rk R p" and E: "all_mem E" and st: "state (top_rec (ps_tok p)) = json_tokener_state_object_field"
  shows "good_step R p (st_object_field E c p)"
proof -
  have s: "state (top_rec (ps_tok p)) \<notin> add_states" using st by (simp add: state_sets)
  obtain pb where pb: "tok_pb (ps_tok p) = Some pb" "pb_inv pb" "pb_terminated pb"
    by (rule ps_okD [OF ok]) (use st in \<open>simp add: state_sets\<close>)
  have "good_step R p (leave Break p (go_eatws json_tokener_state_object_field_end
            (on_top (\<lambda>s. s\<lparr>obj_field_name := c_strdup E b\<rparr>) (ps_tok p))))" for b
    by (rule plain_move [OF ok s, where s' = "(top_rec (ps_tok p))\<lparr>obj_field_name := c_strdup E b,
          state := json_tokener_state_eatws, saved_state := json_tokener_state_object_field_end\<rparr>"])
      (use ps_ok_top [OF ok] st E in \<open>simp_all add: go_eatws_def state_rec_simps c_strdup_def all_mem_def\<close>)
  moreover have "good_step R p (ubind (Some (tok_append E [c] (ps_tok p))) (leave Break p))"
    by (rule collect_move [OF ok E s, where g = "\<lambda>t. t", simplified])
  ultimately show ?thesis
    unfolding st_object_field_def Let_def using escape_move [OF ok _ st] tok_text_ok [OF pb] by simp
qed

section \<open>New values\<close>

lemma ps_ok_level: "ps_ok rk R p \<Longrightarrow> i \<le> depth (ps_tok p) \<Longrightarrow> level_ok rk (ps_heap p) i (stack (ps_tok p) ! i)"
  by (simp add: ps_ok_def)

lemma current_live:
  assumes ok: "ps_ok rk R p" and i: "i < length (stack (ps_tok p))" "current (stack (ps_tok p) ! i) = Some a"
  shows "\<exists>j. objs (ps_heap p) a = Some j"
proof -
  have "a \<in># held_by (ps_tok p)"
    unfolding held_by_def in_ptrs_refs using i by (metis length_map nth_map nth_mem)
  then have "a \<in># held_by (ps_tok p) + owned_obj p + R" by simp
  moreover have "counts_ok rk (ps_heap p) (held_by (ps_tok p) + owned_obj p + R) {}" using ok by (simp add: ps_ok_def)
  ultimately show ?thesis by (metis counts_ok_ref union_iff)
qed

text \<open>A level whose value is unchanged keeps its condition when the store only grows.\<close>

lemma level_ok_grow:
  assumes "level_ok rk h i s" "\<And>a. current s = Some a \<Longrightarrow> objs h' a = objs h a \<and> rk' a = rk a"
  shows "level_ok rk' h' i s"
  using assms by (cases "current s") (auto simp: level_ok_def is_of_type_def)

lemma eatws_level_ok:
  assumes "x \<in> after_space" "x \<notin> named_states" "x \<notin> empty_states" "v = Some a" "rk a = JSON_TOKENER_MAX_DEPTH - i"
    and "x \<in> array_states \<Longrightarrow> is_of_type h json_type_array v" "x \<in> object_states \<Longrightarrow> is_of_type h json_type_object v"
  shows "level_ok rk h i (s\<lparr>state := json_tokener_state_eatws, saved_state := x, current := v\<rparr>)"
  using assms by (simp add: level_ok_def state_ok_def eff_state_def skip_states_def escape_states_def)

lemma eatws_plain [simp]:
  "json_tokener_state_eatws \<notin> add_states" "json_tokener_state_eatws \<notin> text_states"
  by (simp_all add: state_sets)

definition value_kind :: "json_tokener_state \<Rightarrow> json_type \<Rightarrow> bool" where
  "value_kind x ty \<longleftrightarrow> x = json_tokener_state_finish \<or> x = json_tokener_state_array \<and> ty = json_type_array
     \<or> x = json_tokener_state_object_field_start \<and> ty = json_type_object"

lemma new_value_step:
  assumes ok: "ps_ok rk R p" and s: "state (top_rec (ps_tok p)) \<notin> add_states" "current (top_rec (ps_tok p)) = None"
    and r: "adds_object (ps_heap p) ty r" and x: "value_kind x ty"
    and w: "w = Redo \<Longrightarrow> x = json_tokener_state_finish \<and> 5 < weight (top_rec (ps_tok p))"
  shows "good_step R p (new_current x w p r)"
proof -
  let ?t = "ps_tok p" and ?h = "ps_heap p" and ?d = "depth (ps_tok p)" and ?a = "next_addr (ps_heap p)"
  let ?s = "(top_rec ?t)\<lparr>state := json_tokener_state_eatws, saved_state := x, current := Some ?a\<rparr>"
  let ?rk = "rk(?a := JSON_TOKENER_MAX_DEPTH - ?d)"
  define t' where "t' = set_current (fst r) (go_eatws x ?t)"
  define p' where "p' = p\<lparr>ps_tok := t', ps_heap := snd r\<rparr>"
  have len: "?d < length (stack ?t)" using ps_ok_top [OF ok] by simp
  have cnt: "counts_ok rk ?h (held_by ?t + R) {}" using ok s(1) by (simp add: ps_ok_def owned_obj_def)
  obtain j where j: "r = (Some ?a, \<lparr>objs = (objs ?h)(?a \<mapsto> j), next_addr = Suc ?a\<rparr>)" "o_type j = ty"
    using r by (auto simp: adds_object_def)
  have t': "stack t' = (stack ?t)[?d := ?s]" "depth t' = ?d" "tok_pb t' = tok_pb ?t" "char_offset t' = char_offset ?t"
    using j len by (simp_all add: t'_def set_current_def go_eatws_def)
  have top: "top_rec t' = ?s" using t'(1,2) len by (simp add: top_rec_def)
  have "ptrs_refs ((map current (stack ?t))[?d := Some ?a]) + {#} = held_by ?t + {#?a#}"
    using held_update [of ?d "map current (stack ?t)" "Some ?a"] len s(2) by (simp add: held_by_def top_rec_def)
  then have held: "held_by t' = add_mset ?a (held_by ?t)" by (simp add: held_by_def t'(1) map_update)
  have fresh: "objs ?h ?a = None" using fresh_unreferenced(1) [OF cnt] by simp
  have old: "objs (snd r) b = objs ?h b \<and> ?rk b = rk b" if "i \<le> ?d" "current (stack ?t ! i) = Some b" for i b
    using current_live [OF ok _ that(2)] that(1) len fresh j(1) by auto
  have ak: "x \<in> after_space" "x \<notin> named_states" "x \<notin> empty_states" "x \<in> array_states \<Longrightarrow> ty = json_type_array"
      "x \<in> object_states \<Longrightarrow> ty = json_type_object"
    using x unfolding value_kind_def by (elim disjE; simp add: state_sets)+
  have kind: "is_of_type (snd r) ty (Some ?a)" using j by (simp add: is_of_type_def)
  have "?rk ?a = JSON_TOKENER_MAX_DEPTH - ?d" by simp
  then have "level_ok ?rk (snd r) ?d ?s"
    using ak(4,5) kind by (intro eatws_level_ok [OF ak(1-3) refl]) blast+
  moreover have "level_ok ?rk (snd r) i (stack ?t ! i)" if "i \<le> ?d" for i
    by (rule level_ok_grow [OF ps_ok_level [OF ok that]]) (use old [OF that] in blast)
  ultimately have levels: "\<forall>i \<le> depth t'. level_ok ?rk (snd r) i (stack t' ! i)"
    using len t'(1,2) by (auto simp: nth_list_update)
  have "shape_ok t'" "buffer_ok t'"
    using ok t' top by (auto simp: ps_ok_def shape_ok_def buffer_ok_def nth_list_update)
  moreover have "counts_ok ?rk (snd r) (held_by t' + owned_obj p' + R) {}"
    using adds_object_counts(2) [OF cnt r] held top by (simp add: owned_obj_def p'_def)
  moreover have "tables_filled (snd r)" using adds_object_counts(3) [OF cnt r] ok by (simp add: ps_ok_def)
  ultimately have "ps_ok ?rk R p'" using levels top by (simp add: ps_ok_def p'_def)
  moreover have "weight ?s = 5" if "x = json_tokener_state_finish" using that by (simp add: weight_def)
  ultimately show ?thesis
    using w top t'(4) by (intro good_stepI [where w = w and p' = p']) (auto simp: new_current_def p'_def t'_def)
qed

lemma null_value_step:
  assumes ok: "ps_ok rk R p" and s: "state (top_rec (ps_tok p)) \<notin> add_states" "current (top_rec (ps_tok p)) = None"
    and w: "5 < weight (top_rec (ps_tok p))"
  shows "good_step R p (new_current json_tokener_state_finish Redo p (None, ps_heap p))"
proof -
  let ?s = "(top_rec (ps_tok p))\<lparr>state := json_tokener_state_eatws, saved_state := json_tokener_state_finish, current := None\<rparr>"
  have "good_step R p (leave Redo p (set_current None (go_eatws json_tokener_state_finish (ps_tok p))))"
    by (rule plain_move [OF ok s(1), where s' = ?s])
      (use ps_ok_top [OF ok] s w in \<open>simp_all add: set_current_def go_eatws_def state_rec_simps\<close>)
  then show ?thesis by (simp add: leave_def new_current_def)
qed

text \<open>A value ends at the current character, which is then looked at again.\<close>

lemma finish_new:
  assumes ok: "ps_ok rk R p" and s: "state (top_rec (ps_tok p)) \<notin> add_states" "current (top_rec (ps_tok p)) = None"
    and r: "adds_object (ps_heap p) ty r" and w: "w = Redo \<Longrightarrow> 5 < weight (top_rec (ps_tok p))"
  shows "good_step R p (new_current json_tokener_state_finish w p r)"
  by (rule new_value_step [OF ok s r]) (use w in \<open>simp_all add: value_kind_def\<close>)

lemma empty_top:
  assumes "ps_ok rk R p" "state (top_rec (ps_tok p)) \<in> empty_states"
  shows "state (top_rec (ps_tok p)) \<notin> add_states" "current (top_rec (ps_tok p)) = None"
proof -
  show "state (top_rec (ps_tok p)) \<notin> add_states" using assms(2) by (auto simp: state_sets)
  have "eff_state (top_rec (ps_tok p)) = state (top_rec (ps_tok p))" using assms(2) by (auto simp: eff_state_def state_sets)
  then show "current (top_rec (ps_tok p)) = None" using ps_ok_top [OF assms(1)] assms(2) by (simp add: state_ok_def)
qed

lemma st_string_good:
  assumes ok: "ps_ok rk R p" and E: "all_mem E" and st: "state (top_rec (ps_tok p)) = json_tokener_state_string"
  shows "good_step R p (st_string E c p)"
proof -
  have s: "state (top_rec (ps_tok p)) \<notin> add_states" "current (top_rec (ps_tok p)) = None"
    by (rule empty_top [OF ok]; simp add: st state_sets)+
  obtain pb where pb: "tok_pb (ps_tok p) = Some pb" "pb_inv pb" "pb_terminated pb"
    by (rule ps_okD [OF ok]) (use st in \<open>simp add: state_sets\<close>)
  have "good_step R p (new_current json_tokener_state_finish Break p (json_object_new_string E (ps_heap p) b))" for b
    by (rule finish_new [OF ok s new_string_adds [OF E]]) simp
  moreover have "good_step R p (ubind (Some (tok_append E [c] (ps_tok p))) (leave Break p))"
    by (rule collect_move [OF ok E s(1), where g = "\<lambda>t. t", simplified])
  ultimately show ?thesis
    unfolding st_string_def Let_def using escape_move [OF ok _ st] tok_text_ok [OF pb] by simp
qed

lemma st_number_good:
  assumes ok: "ps_ok rk R p" and E: "all_mem E" and st: "state (top_rec (ps_tok p)) = json_tokener_state_number"
  shows "good_step R p (st_number E c p)"
proof -
  have s: "state (top_rec (ps_tok p)) \<notin> add_states" "current (top_rec (ps_tok p)) = None"
    by (rule empty_top [OF ok]; simp add: st state_sets)+
  have w: "5 < weight (top_rec (ps_tok p))" by (simp add: weight_def st)
  obtain pb where pb: "tok_pb (ps_tok p) = Some pb" "pb_inv pb" "pb_terminated pb"
    by (rule ps_okD [OF ok]) (use st in \<open>simp add: state_sets\<close>)
  have "good_step R p (ubind (Some (tok_append E [c] (ps_tok p))) (\<lambda>t.
          leave Break p (if c = CHR ''.'' \<or> c = CHR ''e'' \<or> c = CHR ''E'' then t\<lparr>is_double := True\<rparr> else t)))"
    by (rule collect_move [OF ok E s(1)]) simp
  moreover have "good_step R p (new_current json_tokener_state_finish Redo p (json_object_new_int E (ps_heap p) i))"
     "good_step R p (new_current json_tokener_state_finish Redo p (json_object_new_double E (ps_heap p) d))" for i d
    using finish_new [OF ok s new_int_adds [OF E] w] finish_new [OF ok s new_double_adds [OF E] w] by blast+
  ultimately show ?thesis
    unfolding st_number_def Let_def using tok_text_ok [OF pb] fail_step [OF ok s(1)]
    by (simp split: option.split)
qed

lemma literal_ok:
  "tok_pb t = Some pb \<Longrightarrow> pb_inv pb \<Longrightarrow> pb_terminated pb \<Longrightarrow> literal_so_far lit t =
     Inr (c_strncaseeq lit (takeWhile (\<lambda>c. c \<noteq> NUL) (pb_text pb)) (min (st_pos t + 1) (length lit)))"
  by (simp add: literal_so_far_def tok_text_ok)

lemma count_move:
  assumes ok: "ps_ok rk R p" and s: "state (top_rec (ps_tok p)) \<notin> add_states"
  shows "good_step R p (leave Break p ((ps_tok p)\<lparr>st_pos := n\<rparr>))"
  by (rule plain_move [OF ok s, where s' = "top_rec (ps_tok p)"]) (use ps_ok_top [OF ok] s in simp_all)

lemma st_null_good:
  assumes ok: "ps_ok rk R p" and E: "all_mem E" and st: "state (top_rec (ps_tok p)) = json_tokener_state_null"
  shows "good_step R p (st_null E c p)"
  unfolding st_null_def
proof (rule good_step_append [OF ok E])
  show s0: "state (top_rec (ps_tok p)) \<notin> add_states" using st by (simp add: state_sets)
  fix pb
  let ?t = "(ps_tok p)\<lparr>tok_pb := Some pb\<rparr>" and ?p = "p\<lparr>ps_tok := (ps_tok p)\<lparr>tok_pb := Some pb\<rparr>\<rparr>"
  assume ok': "ps_ok rk R ?p" and pb: "pb_inv pb" "pb_terminated pb"
  have st': "state (top_rec (ps_tok ?p)) = json_tokener_state_null" using st by simp
  then have s: "state (top_rec (ps_tok ?p)) \<notin> add_states" "current (top_rec (ps_tok ?p)) = None"
    using empty_top [OF ok'] by (simp_all add: state_sets)
  have w: "5 < weight (top_rec (ps_tok ?p))" by (simp add: weight_def st)
  obtain b where b: "literal_so_far ''null'' ?t = Inr b" using literal_ok [of ?t pb] pb by simp
  have "good_step R ?p (leave Break ?p (?t\<lparr>st_pos := st_pos ?t + 1\<rparr>))" using count_move [OF ok' s(1)] by simp
  moreover have "leave Break ?p x = leave Break p x" for x by (simp add: leave_def)
  ultimately show "good_step R ?p (ubind (Some (literal_so_far ''null'' ?t)) (\<lambda>ok.
       if ok then (if st_pos ?t = length ''null''
             then new_current json_tokener_state_finish Redo (p\<lparr>ps_tok := ?t\<rparr>) (None, ps_heap p)
             else leave Break p (?t\<lparr>st_pos := st_pos ?t + 1\<rparr>))
       else fail json_tokener_error_parse_null (p\<lparr>ps_tok := ?t\<rparr>)))"
    using null_value_step [OF ok' s w] fail_step [OF ok' s(1)] b by simp
qed

lemma st_boolean_good:
  assumes ok: "ps_ok rk R p" and E: "all_mem E" and st: "state (top_rec (ps_tok p)) = json_tokener_state_boolean"
  shows "good_step R p (st_boolean E c p)"
  unfolding st_boolean_def
proof (rule good_step_append [OF ok E])
  show s0: "state (top_rec (ps_tok p)) \<notin> add_states" using st by (simp add: state_sets)
  fix pb
  let ?t = "(ps_tok p)\<lparr>tok_pb := Some pb\<rparr>" and ?p = "p\<lparr>ps_tok := (ps_tok p)\<lparr>tok_pb := Some pb\<rparr>\<rparr>"
  assume ok': "ps_ok rk R ?p" and pb: "pb_inv pb" "pb_terminated pb"
  have st': "state (top_rec (ps_tok ?p)) = json_tokener_state_boolean" using st by simp
  then have s: "state (top_rec (ps_tok ?p)) \<notin> add_states" "current (top_rec (ps_tok ?p)) = None"
    using empty_top [OF ok'] by (simp_all add: state_sets)
  have w: "5 < weight (top_rec (ps_tok ?p))" by (simp add: weight_def st)
  obtain b1 b2 where b: "literal_so_far ''true'' ?t = Inr b1" "literal_so_far ''false'' ?t = Inr b2"
    using literal_ok [of ?t pb] pb by simp
  have cm: "good_step R ?p (leave Break p (?t\<lparr>st_pos := n\<rparr>))" for n
    using count_move [OF ok' s(1), of n] by (simp add: leave_def)
  have nv: "good_step R ?p (new_current json_tokener_state_finish Redo ?p (json_object_new_boolean E (ps_heap p) v))" for v
    using finish_new [OF ok' s new_boolean_adds [OF E] w] by simp
  show "good_step R ?p (ubind (Some (literal_so_far ''true'' ?t)) (\<lambda>yes.
       if yes then (if st_pos ?t = length ''true''
             then new_current json_tokener_state_finish Redo (p\<lparr>ps_tok := ?t\<rparr>) (json_object_new_boolean E (ps_heap p) 1)
             else leave Break p (?t\<lparr>st_pos := st_pos ?t + 1\<rparr>))
       else ubind (Some (literal_so_far ''false'' ?t)) (\<lambda>no.
         if no then (if st_pos ?t = length ''false''
               then new_current json_tokener_state_finish Redo (p\<lparr>ps_tok := ?t\<rparr>) (json_object_new_boolean E (ps_heap p) 0)
               else leave Break p (?t\<lparr>st_pos := st_pos ?t + 1\<rparr>))
         else fail json_tokener_error_parse_boolean (p\<lparr>ps_tok := ?t\<rparr>))))"
    using cm nv fail_step [OF ok' s(1)] by (simp add: b)
qed

lemma st_start_good:
  assumes ok: "ps_ok rk R p" and E: "all_mem E" and st: "state (top_rec (ps_tok p)) = json_tokener_state_start"
  shows "good_step R p (st_start E c p)"
proof -
  have s: "state (top_rec (ps_tok p)) \<notin> add_states" "current (top_rec (ps_tok p)) = None"
    by (rule empty_top [OF ok]; simp add: st state_sets)+
  have obj: "good_step R p (new_current json_tokener_state_object_field_start Break p (json_object_new_object E (ps_heap p)))"
    by (rule new_value_step [OF ok s new_object_adds [OF E]]) (simp_all add: value_kind_def)
  have arr: "good_step R p (new_current json_tokener_state_array Break p (json_object_new_array E (ps_heap p)))"
    by (rule new_value_step [OF ok s new_array_adds [OF E]]) (simp_all add: value_kind_def)
  have lit: "good_step R p (ubind (Some (tok_pb_reset (go x (ps_tok p)))) (\<lambda>t. leave w p (g t)))"
    if "x = json_tokener_state_null \<or> x = json_tokener_state_boolean \<or> x = json_tokener_state_number \<or>
        x = json_tokener_state_string \<and> w = Break" and g: "\<And>t. stack (g t) = stack t \<and> depth (g t) = depth t
          \<and> char_offset (g t) = char_offset t \<and> tok_pb (g t) = tok_pb t" for x w g
    by (rule reset_move [OF ok s(1), where s' = "(top_rec (ps_tok p))\<lparr>state := x\<rparr>"])
      (use that(1) ps_ok_top [OF ok] s st in \<open>simp_all add: go_def g, (elim disjE; simp add: state_rec_simps)+\<close>)
  show ?thesis
    unfolding st_start_def Let_def using obj arr lit [of json_tokener_state_null Redo "\<lambda>t. t\<lparr>st_pos := 0\<rparr>"]
      lit [of json_tokener_state_boolean Redo "\<lambda>t. t\<lparr>st_pos := 0\<rparr>"]
      lit [of json_tokener_state_number Redo "\<lambda>t. t\<lparr>is_double := False\<rparr>"]
      lit [of json_tokener_state_string Break "\<lambda>t. t\<lparr>quote_char := c\<rparr>"] fail_step [OF ok s(1)]
    by simp
qed

section \<open>Going down and coming back\<close>

definition fresh_level :: json_tokener_srec where
  "fresh_level = \<lparr>state = json_tokener_state_eatws, saved_state = json_tokener_state_start, current = None, obj_field_name = None\<rparr>"

lemma reset_level_spec:
  assumes ok: "counts_ok rk h (ptr_refs (current (stack t ! d)) + R) {}" and d: "d < length (stack t)"
    and f: "ptr_below rk f (current (stack t ! d))"
  shows "\<exists>h'. json_tokener_reset_level f h t d = Some (Inr (t\<lparr>stack := (stack t)[d := fresh_level]\<rparr>, h'))
     \<and> counts_ok rk h' R {} \<and> only_counts h h'"
  using put_spec [OF ok f] d by (auto simp: json_tokener_reset_level_def fresh_level_def)

lemma level_ok_counts:
  assumes l: "level_ok rk h i s" and oc: "only_counts h h'" and live: "\<And>a. current s = Some a \<Longrightarrow> objs h' a \<noteq> None"
  shows "level_ok rk h' i s"
proof -
  have "is_of_type h' ty (current s)" if ty: "is_of_type h ty (current s)" for ty
  proof -
    obtain a j where a: "current s = Some a" "objs h a = Some j" "o_type j = ty" using ty by (auto simp: is_of_type_def)
    moreover obtain j' where "objs h' a = Some j'" using live [OF a(1)] by blast
    moreover then obtain j0 n where "objs h a = Some j0" "j' = j0\<lparr>ref_count := n\<rparr>" using only_countsD [OF oc] by blast
    ultimately show ?thesis by (auto simp: is_of_type_def)
  qed
  then show ?thesis using l by (auto simp: level_ok_def)
qed

lemma fresh_level_ok: "level_ok rk h i fresh_level"
  by (simp add: level_ok_def fresh_level_def state_rec_simps)

lemma refs_nth: "i < length xs \<Longrightarrow> xs ! i = Some a \<Longrightarrow> a \<in># ptrs_refs xs"
  by (metis in_ptrs_refs nth_mem)

text \<open>One level less: the finished value becomes \<open>obj\<close>.\<close>

lemma st_finish_good:
  assumes ok: "ps_ok rk R p" and st: "state (top_rec (ps_tok p)) = json_tokener_state_finish"
    and f: "JSON_TOKENER_MAX_DEPTH < f"
  shows "good_step R p (st_finish f (top_rec (ps_tok p)) p)"
proof (cases "depth (ps_tok p) = 0")
  case True
  then show ?thesis using ok st
    by (intro good_stepI [where w = Out and p' = p]) (simp_all add: st_finish_def state_sets)
next
  case False
  let ?t = "ps_tok p" and ?h = "ps_heap p" and ?d = "depth (ps_tok p)"
  let ?v = "current (top_rec (ps_tok p))"
  have s: "state (top_rec ?t) \<notin> add_states" using st by (simp add: state_sets)
  have len: "?d < length (stack ?t)" using ps_ok_top [OF ok] by simp
  have cnt: "counts_ok rk ?h (held_by ?t + R) {}" using ok s by (simp add: ps_ok_def owned_obj_def)
  have rkv: "ptr_below rk (Suc (JSON_TOKENER_MAX_DEPTH - ?d)) ?v"
    using ps_ok_level [OF ok order_refl] by (auto simp: ptr_below_def level_ok_def top_rec_def)
  let ?xs = "(map current (stack ?t))[?d := None]"
  have xs: "held_by ?t = ptr_refs ?v + ptrs_refs ?xs"
    using held_update [of ?d "map current (stack ?t)" None] len by (simp add: held_by_def top_rec_def ac_simps)
  have "ptr_refs ?v \<subseteq># (held_by ?t + R) + held_refs ?h {}" unfolding xs by simp
  from get_spec [OF cnt this] obtain h1 where h1: "json_object_get ?h ?v = Inr (?v, h1)"
      "counts_ok rk h1 (ptr_refs ?v + (held_by ?t + R)) {}" "only_counts ?h h1" by blast
  have "counts_ok rk h1 (ptr_refs (current (stack ?t ! ?d)) + (ptr_refs ?v + ptrs_refs ?xs + R)) {}"
    using h1(2) unfolding xs by (simp add: top_rec_def ac_simps)
  moreover have "ptr_below rk f (current (stack ?t ! ?d))"
    using rkv f by (auto simp: ptr_below_def top_rec_def intro: order_less_le_trans)
  ultimately obtain h2 where h2: "json_tokener_reset_level f h1 ?t ?d = Some (Inr (?t\<lparr>stack := (stack ?t)[?d := fresh_level]\<rparr>, h2))"
      "counts_ok rk h2 (ptr_refs ?v + ptrs_refs ?xs + R) {}" "only_counts h1 h2"
    using reset_level_spec [of rk h1 ?t ?d] len by blast
  define t' where "t' = ?t\<lparr>stack := (stack ?t)[?d := fresh_level], depth := ?d - 1\<rparr>"
  define p' where "p' = \<lparr>ps_tok = t', ps_heap = h2, ps_obj = ?v\<rparr>"
  have t': "stack t' = (stack ?t)[?d := fresh_level]" "depth t' = ?d - 1" "tok_pb t' = tok_pb ?t" "char_offset t' = char_offset ?t"
    by (simp_all add: t'_def)
  have top: "top_rec t' = stack ?t ! (?d - 1)" using False t' by (simp add: top_rec_def)
  have add: "state (top_rec t') \<in> add_states" using ok False unfolding top by (simp add: ps_ok_def shape_ok_def)
  have held: "held_by t' = ptrs_refs ?xs" by (simp add: held_by_def t'(1) map_update fresh_level_def)
  have oc: "only_counts ?h h2" using only_counts_trans [OF h1(3) h2(3)] .
  have levels: "level_ok rk h2 i (stack t' ! i)" if "i \<le> depth t'" for i
  proof -
    have i: "i < ?d" "i < length ?xs" using that False len t'(2) by auto
    have "objs h2 a \<noteq> None" if "current (stack ?t ! i) = Some a" for a
    proof -
      have "a \<in># ptrs_refs ?xs" using refs_nth [OF i(2), of a] i that len by simp
      then have "a \<in># (ptr_refs ?v + ptrs_refs ?xs + R) + held_refs h2 {}" by simp
      then show ?thesis by (rule counts_ok_ref [OF h2(2)]) simp
    qed
    then show ?thesis using level_ok_counts [OF ps_ok_level [OF ok] oc] i(1) t'(1) by simp
  qed
  have "buffer_ok t'" using ok add t'(3) by (auto simp: ps_ok_def buffer_ok_def state_sets)
  moreover have "shape_ok t'" using ok t' False by (auto simp: ps_ok_def shape_ok_def nth_list_update fresh_level_def)
  moreover have "counts_ok rk h2 (held_by t' + owned_obj p' + R) {}"
    using h2(2) add held by (simp add: owned_obj_def p'_def ac_simps)
  moreover have "tables_filled h2" using ok oc by (auto simp: ps_ok_def intro: tables_filled_only_counts)
  moreover have "ptr_below rk (JSON_TOKENER_MAX_DEPTH - depth t') ?v"
  proof -
    have "JSON_TOKENER_MAX_DEPTH - depth t' = Suc (JSON_TOKENER_MAX_DEPTH - ?d)"
      using False ok t'(2) by (auto simp: ps_ok_def shape_ok_def)
    then show ?thesis using rkv by simp
  qed
  ultimately have "ps_ok rk R p'" using levels add by (simp add: ps_ok_def p'_def)
  moreover have "st_finish f (top_rec ?t) p = Some (Inr (Redo, p'))"
    using False h1(1) h2(1) by (simp add: st_finish_def Let_def p'_def t'_def)
  moreover have "weight (top_rec t') = 3" using add by (auto simp: weight_def add_states_def)
  ultimately show ?thesis using t'(4) st
    by (intro good_stepI [where w = Redo and p' = p']) (simp_all add: p'_def weight_def)
qed

text \<open>One level more.\<close>

lemma push_level_good:
  assumes ok: "ps_ok rk R p" and st: "state (top_rec (ps_tok p)) = x"
    and x: "x = json_tokener_state_array \<and> y = json_tokener_state_array_add
          \<or> x = json_tokener_state_object_value \<and> y = json_tokener_state_object_value_add"
  shows "good_step R p (push_level f y p)"
proof -
  let ?t = "ps_tok p" and ?h = "ps_heap p" and ?d = "depth (ps_tok p)"
  let ?s = "(top_rec ?t)\<lparr>state := y\<rparr>"
  have s: "state (top_rec ?t) \<notin> add_states" using st x by (auto simp: state_sets)
  show ?thesis
  proof (cases "?d \<ge> JSON_TOKENER_MAX_DEPTH - 1")
    case True
    then show ?thesis by (simp add: push_level_def fail_step [OF ok s])
  next
    case False
    have len: "length (stack ?t) = JSON_TOKENER_MAX_DEPTH" "Suc ?d < JSON_TOKENER_MAX_DEPTH"
      using ok False by (auto simp: ps_ok_def shape_ok_def)
    then have free: "current (stack ?t ! Suc ?d) = None" using ok by (simp add: ps_ok_def shape_ok_def)
    have cnt: "counts_ok rk ?h (held_by ?t + R) {}" using ok s by (simp add: ps_ok_def owned_obj_def)
    define t' where "t' = ?t\<lparr>depth := Suc ?d, stack := (stack ?t)[?d := ?s, Suc ?d := fresh_level]\<rparr>"
    define p' where "p' = p\<lparr>ps_tok := t'\<rparr>"
    have t': "stack t' = (stack ?t)[?d := ?s, Suc ?d := fresh_level]" "depth t' = Suc ?d" "tok_pb t' = tok_pb ?t"
        "char_offset t' = char_offset ?t" by (simp_all add: t'_def)
    have top: "top_rec t' = fresh_level" using t' len by (simp add: top_rec_def)
    have "json_object_put f ?h None = Some (Inr ?h)" by (cases f) simp_all
    moreover have "aget xs (1 + int ?d) = Inr (xs ! Suc ?d)" if "Suc ?d < length xs" for xs :: "json_tokener_srec list"
      using aget_nat [OF that] by simp
    ultimately have step: "push_level f y p = Some (Inr (Redo, p'))"
      using False len free
      by (simp add: push_level_def go_def json_tokener_reset_level_def Let_def p'_def t'_def fresh_level_def on_top_def top_rec_def)
    have lev: "level_ok rk ?h ?d (top_rec ?t)" using ps_ok_level [OF ok order_refl] by (simp add: top_rec_def)
    have "level_ok rk ?h ?d ?s" using lev st x by (elim disjE conjE; simp add: level_ok_def state_rec_simps)+
    then have levels: "level_ok rk ?h i (stack t' ! i)" if "i \<le> depth t'" for i
      using that t'(1,2) len ps_ok_level [OF ok, of i] fresh_level_ok [of rk ?h]
      by (cases "i = Suc ?d"; cases "i = ?d") (simp_all add: nth_list_update)
    have "map current (stack t') = map current (stack ?t)"
      using len free by (intro nth_equalityI) (auto simp: t'(1) nth_list_update fresh_level_def top_rec_def)
    then have held: "held_by t' = held_by ?t" by (simp add: held_by_def)
    have y: "y \<in> add_states" using x by (auto simp: add_states_def)
    have "shape_ok t'" using ok len t' y
      by (auto simp: ps_ok_def shape_ok_def nth_list_update fresh_level_def less_Suc_eq)
    moreover have "buffer_ok t'" using ok t'(3) top by (auto simp: ps_ok_def buffer_ok_def fresh_level_def)
    ultimately have "ps_ok rk R p'"
      using levels cnt held ok top by (simp add: ps_ok_def p'_def owned_obj_def fresh_level_def)
    moreover have "weight (top_rec t') < weight (top_rec ?t)" using st x top by (auto simp: weight_def fresh_level_def)
    ultimately show ?thesis using step t'(4)
      by (intro good_stepI [where w = Redo and p' = p']) (simp_all add: p'_def)
  qed
qed

lemma st_array_good:
  assumes ok: "ps_ok rk R p" and st: "state (top_rec (ps_tok p)) = json_tokener_state_array"
  shows "good_step R p (st_array f c p)"
proof -
  have s: "state (top_rec (ps_tok p)) \<notin> add_states" using st by (simp add: state_sets)
  have "good_step R p (leave Break p (go_eatws json_tokener_state_finish (ps_tok p)))"
    by (rule eatws_move [OF ok s]; simp add: state_rec_simps st)
  then show ?thesis unfolding st_array_def using push_level_good [OF ok st] by simp
qed

text \<open>A finished value goes into the array or object of the level.\<close>

lemma added_step:
  assumes ok: "ps_ok rk R p" and st: "state (top_rec (ps_tok p)) = y" and y: "y \<in> add_states"
    and x: "x = (if y = json_tokener_state_array_add then json_tokener_state_array_sep else json_tokener_state_object_sep)"
    and h': "counts_ok rk h' (held_by (ps_tok p) + R) {}" "keeps_types (ps_heap p) h'" "tables_filled h'"
    and g: "stack t' = (stack (ps_tok p))[depth (ps_tok p) := s']" "depth t' = depth (ps_tok p)"
      "char_offset t' = char_offset (ps_tok p)" "tok_pb t' = tok_pb (ps_tok p)"
      "s' = (top_rec (ps_tok p))\<lparr>obj_field_name := nm, state := json_tokener_state_eatws, saved_state := x\<rparr>"
  shows "good_step R p (leave Redo (p\<lparr>ps_heap := h'\<rparr>) t')"
proof -
  let ?t = "ps_tok p" and ?h = "ps_heap p" and ?d = "depth (ps_tok p)"
  define p' where "p' = p\<lparr>ps_tok := t', ps_heap := h'\<rparr>"
  have len: "?d < length (stack ?t)" using ps_ok_top [OF ok] by simp
  have top: "top_rec t' = s'" using g len by (simp add: top_rec_def)
  have "(map current (stack ?t))[?d := current s'] = map current (stack ?t)"
    using g(5) len by (simp add: top_rec_def list_update_same_conv)
  then have held: "held_by t' = held_by ?t" by (simp add: held_by_def g(1) map_update)
  have keep: "level_ok rk h' i s" if l: "level_ok rk ?h i s" and i: "i < length (stack ?t)" "s = stack ?t ! i" for i s
  proof -
    have "is_of_type h' ty (current s)" if ty: "is_of_type ?h ty (current s)" for ty
    proof -
      obtain a j where a: "current s = Some a" "objs ?h a = Some j" "o_type j = ty" using ty by (auto simp: is_of_type_def)
      have "a \<in># held_by ?t" using refs_nth [of i "map current (stack ?t)" a] i a(1) by (simp add: held_by_def)
      then obtain j' where "objs h' a = Some j'" using counts_ok_ref [OF h'(1), of a] by (metis union_iff)
      moreover have "a < next_addr ?h" using ok a(2) by (auto simp: ps_ok_def counts_ok_def)
      ultimately show ?thesis using h'(2) a by (auto simp: keeps_types_def is_of_type_def)
    qed
    then show ?thesis using l by (auto simp: level_ok_def)
  qed
  have xy: "y = json_tokener_state_array_add \<and> x = json_tokener_state_array_sep
      \<or> y = json_tokener_state_object_value_add \<and> x = json_tokener_state_object_sep"
    using x y by (auto simp: add_states_def)
  have lev: "level_ok rk h' ?d (top_rec ?t)"
    using keep [OF ps_ok_level [OF ok order_refl]] len by (simp add: top_rec_def)
  have "level_ok rk h' ?d s'" using xy lev st g(5) by (elim disjE conjE; simp add: level_ok_def state_rec_simps)+
  then have levels: "level_ok rk h' i (stack t' ! i)" if "i \<le> depth t'" for i
    using that g(1,2) len keep [OF ps_ok_level [OF ok, of i]] by (cases "i = ?d") simp_all
  have "shape_ok t'" using ok g by (auto simp: ps_ok_def shape_ok_def nth_list_update top_rec_def)
  moreover have "buffer_ok t'" using ok g(4,5) top by (auto simp: ps_ok_def buffer_ok_def)
  ultimately have "ps_ok rk R p'" using levels h' held top g(5) by (simp add: ps_ok_def p'_def owned_obj_def)
  moreover have "weight s' < weight (top_rec ?t)" using xy st g(5) by (auto simp: weight_def)
  ultimately show ?thesis using g(3) top
    by (intro good_stepI [where w = Redo and p' = p']) (simp_all add: p'_def leave_def)
qed

lemma added_pre:
  assumes ok: "ps_ok rk R p" and st: "state (top_rec (ps_tok p)) = y" and y: "y \<in> add_states"
    and ty: "ty = (if y = json_tokener_state_array_add then json_type_array else json_type_object)"
  obtains a j where "current (top_rec (ps_tok p)) = Some a" "objs (ps_heap p) a = Some j" "o_type j = ty"
    "rk a = JSON_TOKENER_MAX_DEPTH - depth (ps_tok p)" "a \<in># held_by (ps_tok p) + R"
    "counts_ok rk (ps_heap p) (ptr_refs (ps_obj p) + (held_by (ps_tok p) + R)) {}"
    "ptr_below rk (rk a) (ps_obj p)" "tables_filled (ps_heap p)"
proof -
  let ?t = "ps_tok p" and ?d = "depth (ps_tok p)"
  have len: "?d < length (stack ?t)" using ps_ok_top [OF ok] by simp
  have lev: "level_ok rk (ps_heap p) ?d (top_rec ?t)" using ps_ok_level [OF ok order_refl] by (simp add: top_rec_def)
  have "eff_state (top_rec ?t) = y" using st y by (auto simp: eff_state_def state_sets)
  then have "is_of_type (ps_heap p) ty (current (top_rec ?t))"
    using lev y ty by (auto simp: level_ok_def add_states_def array_states_def object_states_def)
  then obtain a j where a: "current (top_rec ?t) = Some a" "objs (ps_heap p) a = Some j" "o_type j = ty"
    by (auto simp: is_of_type_def)
  moreover have rk: "rk a = JSON_TOKENER_MAX_DEPTH - ?d" using lev a(1) by (simp add: level_ok_def)
  moreover have "a \<in># held_by ?t + R"
    using refs_nth [of ?d "map current (stack ?t)" a] len a(1) by (simp add: held_by_def top_rec_def)
  moreover have "counts_ok rk (ps_heap p) (ptr_refs (ps_obj p) + (held_by ?t + R)) {}"
    using ok st y by (simp add: ps_ok_def owned_obj_def ac_simps)
  moreover have "ptr_below rk (rk a) (ps_obj p)" "tables_filled (ps_heap p)" using ok st y rk by (simp_all add: ps_ok_def)
  ultimately show ?thesis by (rule that)
qed

lemma st_array_add_good:
  assumes ok: "ps_ok rk R p" and E: "all_mem E" and st: "state (top_rec (ps_tok p)) = json_tokener_state_array_add"
  shows "good_step R p (st_array_add E f (top_rec (ps_tok p)) p)"
proof -
  have y: "json_tokener_state_array_add \<in> add_states" by (simp add: add_states_def)
  obtain a j where a: "current (top_rec (ps_tok p)) = Some a" "objs (ps_heap p) a = Some j" "o_type j = json_type_array"
    "a \<in># held_by (ps_tok p) + R" "counts_ok rk (ps_heap p) (ptr_refs (ps_obj p) + (held_by (ps_tok p) + R)) {}"
    "ptr_below rk (rk a) (ps_obj p)" "tables_filled (ps_heap p)"
    by (rule added_pre [OF ok st y refl]) simp
  obtain h' where h': "json_object_array_add E f (ps_heap p) (Some a) (ps_obj p) = Some (Inr (0, h'))"
      "counts_ok rk h' (held_by (ps_tok p) + R) {}" "keeps_types (ps_heap p) h'" "tables_filled h'"
    using array_add_spec [OF E a(5,7,4,2,3,6), of f] by blast
  have "good_step R p (leave Redo (p\<lparr>ps_heap := h'\<rparr>) (go_eatws json_tokener_state_array_sep (ps_tok p)))"
    by (rule added_step [OF ok st y refl h'(2-4), where nm = "obj_field_name (top_rec (ps_tok p))"])
      (simp_all add: go_eatws_def)
  then show ?thesis by (simp add: st_array_add_def a(1) h'(1))
qed

lemma st_object_value_add_good:
  assumes ok: "ps_ok rk R p" and E: "all_mem E" and st: "state (top_rec (ps_tok p)) = json_tokener_state_object_value_add"
    and f: "JSON_TOKENER_MAX_DEPTH < f"
  shows "good_step R p (st_object_value_add E f (top_rec (ps_tok p)) p)"
proof -
  have y: "json_tokener_state_object_value_add \<in> add_states" by (simp add: add_states_def)
  have len: "depth (ps_tok p) < length (stack (ps_tok p))" using ps_ok_top [OF ok] by simp
  obtain k where k: "obj_field_name (top_rec (ps_tok p)) = Some k"
    using ps_ok_top [OF ok] st by (auto simp: state_rec_simps)
  obtain a j where a: "current (top_rec (ps_tok p)) = Some a" "objs (ps_heap p) a = Some j" "o_type j = json_type_object"
    "a \<in># held_by (ps_tok p) + R" "counts_ok rk (ps_heap p) (ptr_refs (ps_obj p) + (held_by (ps_tok p) + R)) {}"
    "ptr_below rk (rk a) (ps_obj p)" "tables_filled (ps_heap p)" "rk a \<le> f"
    by (rule added_pre [OF ok st y refl]) (use f in simp)
  obtain h' where h': "json_object_object_add E f (ps_heap p) (Some a) k (ps_obj p) = Some (Inr h')"
      "counts_ok rk h' (held_by (ps_tok p) + R) {}" "keeps_types (ps_heap p) h'" "tables_filled h'"
    using object_add_spec [OF E a(5,7,4,2,3,6,8), of k] by blast
  have "good_step R p (leave Redo (p\<lparr>ps_heap := h'\<rparr>) (go_eatws json_tokener_state_object_sep
      (on_top (\<lambda>s. s\<lparr>obj_field_name := None\<rparr>) (ps_tok p))))"
    by (rule added_step [OF ok st y _ h'(2-4), where nm = None]) (use len in \<open>simp_all add: go_eatws_def\<close>)
  then show ?thesis by (simp add: st_object_value_add_def a(1) k h'(1))
qed

section \<open>The switch and the loops\<close>

lemma dispatch_good:
  assumes ok: "ps_ok rk R p" and E: "all_mem E" and f: "JSON_TOKENER_MAX_DEPTH < f"
  shows "good_step R p (dispatch E f c p)"
proof -
  let ?s = "top_rec (ps_tok p)"
  have "aget (stack (ps_tok p)) (int (depth (ps_tok p))) = Inr ?s"
    using ps_ok_top [OF ok] by (simp add: top_rec_def)
  moreover note st_eatws_good [OF ok E] st_start_good [OF ok E] st_finish_good [OF ok _ f] st_null_good [OF ok E]
    st_comments_good [OF ok E] st_string_good [OF ok E] st_string_escape_good [OF ok E] st_escape_unicode_good [OF ok E]
    st_boolean_good [OF ok E] st_number_good [OF ok E] st_array_good [OF ok] st_array_add_good [OF ok E]
    st_separators_good [OF ok] st_object_field_start_good [OF ok] st_object_field_good [OF ok E]
    push_level_good [OF ok, of json_tokener_state_object_value] st_object_value_add_good [OF ok E _ f]
  ultimately show ?thesis by (cases "state ?s") (simp_all add: dispatch_def st_object_value_def skip_states_def)
qed

lemma redo_char_good:
  assumes E: "all_mem E" and f: "JSON_TOKENER_MAX_DEPTH < f"
  shows "ps_ok rk R p \<Longrightarrow> weight (top_rec (ps_tok p)) \<le> n \<Longrightarrow>
    \<exists>w p' rk'. redo_char n E f c p = Some (Inr (w, p')) \<and> w \<noteq> Redo \<and> ps_ok rk' R p'
      \<and> state (top_rec (ps_tok p')) \<notin> add_states \<and> char_offset (ps_tok p') = char_offset (ps_tok p)"
proof (induction n arbitrary: p rk)
  case 0
  have "weight (top_rec (ps_tok p)) > 0" by (simp add: weight_def split: json_tokener_state.split)
  with 0 show ?case by simp
next
  case (Suc n)
  obtain w p1 rk1 where 1: "dispatch E f c p = Some (Inr (w, p1))" "ps_ok rk1 R p1"
      "w = Redo \<Longrightarrow> weight (top_rec (ps_tok p1)) < weight (top_rec (ps_tok p))"
      "w \<noteq> Redo \<Longrightarrow> state (top_rec (ps_tok p1)) \<notin> add_states" "char_offset (ps_tok p1) = char_offset (ps_tok p)"
    using dispatch_good [OF Suc.prems(1) E f, of c] by (auto simp: good_step_def)
  show ?case
  proof (cases "w = Redo")
    case True
    then show ?thesis using Suc.IH [OF 1(2)] 1(1,3,5) Suc.prems(2) by auto
  next
    case False
    then show ?thesis using 1 by auto
  qed
qed

lemma weight_bound: "weight s \<le> REDO_FUEL"
  by (simp add: weight_def REDO_FUEL_def split: json_tokener_state.split)

text \<open>The result of a loop: the invariant holds and nothing is on its way into a container.\<close>

definition rest_ok :: "addr multiset \<Rightarrow> parse_state \<Rightarrow> bool" where
  "rest_ok R p \<longleftrightarrow> (\<exists>rk. ps_ok rk R p) \<and> state (top_rec (ps_tok p)) \<notin> add_states"

lemma top_level_ok: "ps_ok rk R p \<Longrightarrow> top_level (ps_tok p) = Inr (top_rec (ps_tok p))"
  using ps_ok_top by (simp add: top_level_def top_rec_def)

text \<open>Changing \<open>err\<close> or \<open>char_offset\<close> matters to nobody.\<close>

lemma ps_ok_err [simp]:
  "ps_ok rk R (p\<lparr>ps_tok := (ps_tok p)\<lparr>err := e\<rparr>\<rparr>) = ps_ok rk R p"
  "ps_ok rk R (p\<lparr>ps_tok := (ps_tok p)\<lparr>char_offset := k\<rparr>\<rparr>) = ps_ok rk R p"
  by (simp_all add: ps_ok_def shape_ok_def buffer_ok_def held_by_def owned_obj_def)

lemma rest_ok_err [simp]:
  "rest_ok R (p\<lparr>ps_tok := (ps_tok p)\<lparr>err := e\<rparr>\<rparr>) = rest_ok R p"
  "rest_ok R (p\<lparr>ps_tok := (ps_tok p)\<lparr>char_offset := k\<rparr>\<rparr>) = rest_ok R p"
  by (simp_all add: rest_ok_def)

lemma at_len_ok: "rest_ok R p \<Longrightarrow> \<exists>p'. at_len p = Some (Inr p') \<and> rest_ok R p'"
  using top_level_ok by (fastforce simp: at_len_def rest_ok_def)

lemma after_nul_ok: "rest_ok R p \<Longrightarrow> \<exists>p'. after_nul p = Some (Inr p') \<and> rest_ok R p'"
  using top_level_ok by (fastforce simp: after_nul_def rest_ok_def)

text \<open>The input is read up to \<open>len\<close> or its \<open>NUL\<close>, and not beyond.\<close>

lemma parse_loop_ok:
  assumes E: "all_mem E" and f: "JSON_TOKENER_MAX_DEPTH < f"
  shows "rest_ok R p \<Longrightarrow> NUL \<in> set str \<or> char_offset (ps_tok p) \<le> len \<and> len \<le> char_offset (ps_tok p) + int (length str)
    \<Longrightarrow> \<exists>p'. parse_loop E f len str p = Some (Inr p') \<and> rest_ok R p'"
proof (induction str arbitrary: p)
  case Nil
  then show ?case using at_len_ok by (simp add: parse_loop.simps)
next
  case (Cons c cs)
  show ?case
  proof (cases "char_offset (ps_tok p) = len")
    case True
    then show ?thesis using at_len_ok Cons.prems(1) by (simp add: parse_loop.simps)
  next
    case False
    obtain rk where ok: "ps_ok rk R p" using Cons.prems(1) by (auto simp: rest_ok_def)
    obtain w p1 rk1 where 1: "redo_char REDO_FUEL E f c p = Some (Inr (w, p1))" "w \<noteq> Redo" "ps_ok rk1 R p1"
        "state (top_rec (ps_tok p1)) \<notin> add_states" "char_offset (ps_tok p1) = char_offset (ps_tok p)"
      using redo_char_good [OF E f ok weight_bound] by blast
    have r1: "rest_ok R p1" using 1 by (auto simp: rest_ok_def)
    let ?p = "p1\<lparr>ps_tok := (ps_tok p1)\<lparr>char_offset := char_offset (ps_tok p1) + 1\<rparr>\<rparr>"
    have r2: "rest_ok R ?p" using r1 by simp
    have "\<exists>p'. parse_loop E f len cs ?p = Some (Inr p') \<and> rest_ok R p'" if "c \<noteq> NUL"
      using Cons.IH [OF r2] Cons.prems(2) that 1(5) False by auto
    then show ?thesis
      using 1(1) False r1 after_nul_ok [OF r2] by (subst parse_loop.simps) (auto simp: Let_def)
  qed
qed

section \<open>The interface\<close>

text \<open>A tokener between two calls, beside a store in which the client owns \<open>R\<close>.\<close>

definition tokener_ok :: "json_tokener \<Rightarrow> json_heap \<Rightarrow> addr multiset \<Rightarrow> bool" where
  "tokener_ok t h R \<longleftrightarrow> rest_ok R \<lparr>ps_tok = t, ps_heap = h, ps_obj = None\<rparr>"

lemma rest_ok_obj: "rest_ok R (p\<lparr>ps_obj := q\<rparr>) = rest_ok R p"
  by (auto simp: rest_ok_def ps_ok_def owned_obj_def)

lemma tokener_ok_iff: "rest_ok R p \<longleftrightarrow> tokener_ok (ps_tok p) (ps_heap p) R"
  using rest_ok_obj [where R = R and p = p and q = None] by (cases p) (simp add: tokener_ok_def)

lemma tokener_counts:
  assumes "tokener_ok t h R"
  obtains rk where "counts_ok rk h (held_by t + R) {}" "tables_filled h" "shape_ok t" "buffer_ok t"
    "\<And>i. i \<le> depth t \<Longrightarrow> level_ok rk h i (stack t ! i)"
  using assms by (auto simp: tokener_ok_def rest_ok_def ps_ok_def owned_obj_def)

lemma levels_ranked:
  assumes "shape_ok t" "\<And>i. i \<le> depth t \<Longrightarrow> level_ok rk h i (stack t ! i)" "i < length (stack t)"
    and f: "JSON_TOKENER_MAX_DEPTH < f"
  shows "ptr_below rk f (current (stack t ! i))"
  using assms by (cases "i \<le> depth t") (auto simp: ptr_below_def level_ok_def shape_ok_def not_le)

lemma parse_ex_ok:
  assumes E: "all_mem E" and f: "JSON_TOKENER_MAX_DEPTH < f" and t: "tokener_ok t h R"
    and str: "NUL \<in> set str \<or> 0 \<le> len \<and> len \<le> int (length str)"
  shows "\<exists>obj t' h'. json_tokener_parse_ex E f h t str len = Some (Inr (obj, t', h'))
    \<and> tokener_ok t' h' (ptr_refs obj + R) \<and> (err t' \<noteq> json_tokener_success \<longrightarrow> obj = None)"
proof -
  let ?p = "\<lparr>ps_tok = t\<lparr>char_offset := 0, err := json_tokener_success\<rparr>, ps_heap = h, ps_obj = None\<rparr>"
  have "rest_ok R ?p"
    using t rest_ok_err(1) [where R = R and p = "\<lparr>ps_tok = t\<lparr>char_offset := 0\<rparr>, ps_heap = h, ps_obj = None\<rparr>"]
      rest_ok_err(2) [where R = R and p = "\<lparr>ps_tok = t, ps_heap = h, ps_obj = None\<rparr>"]
    by (simp add: tokener_ok_def)
  then obtain p where p: "parse_loop E f len str ?p = Some (Inr p)" "rest_ok R p"
    using parse_loop_ok [OF E f, of R ?p str len] str by auto
  obtain rk where ok: "ps_ok rk R p" using p(2) by (auto simp: rest_ok_def)
  show ?thesis
  proof (cases "err (ps_tok p) = json_tokener_success")
    case False
    then show ?thesis
      using p top_level_ok [OF ok] by (simp add: json_tokener_parse_ex_def tokener_ok_iff)
  next
    case True
    let ?v = "current (top_rec (ps_tok p))"
    have cnt: "counts_ok rk (ps_heap p) (held_by (ps_tok p) + R) {}" and tf: "tables_filled (ps_heap p)"
      using ok p(2) by (simp_all add: rest_ok_def ps_ok_def owned_obj_def)
    have "a \<in># held_by (ps_tok p)" if "?v = Some a" for a
      using ps_ok_top [OF ok] refs_nth [of "depth (ps_tok p)" "map current (stack (ps_tok p))" a] that
      by (simp add: held_by_def top_rec_def)
    then have "ptr_refs ?v \<subseteq># held_by (ps_tok p)" by (cases ?v) simp_all
    then have "ptr_refs ?v \<subseteq># (held_by (ps_tok p) + R) + held_refs (ps_heap p) {}"
      by (meson mset_subset_eq_add_left subset_mset.order_trans)
    from get_spec [OF cnt this] obtain h' where h': "json_object_get (ps_heap p) ?v = Inr (?v, h')"
        "counts_ok rk h' (ptr_refs ?v + (held_by (ps_tok p) + R)) {}" "only_counts (ps_heap p) h'" by blast
    have "level_ok rk h' i (stack (ps_tok p) ! i)" if i: "i \<le> depth (ps_tok p)" for i
    proof (rule level_ok_counts [OF ps_ok_level [OF ok i] h'(3)])
      fix a assume "current (stack (ps_tok p) ! i) = Some a"
      then have "a \<in># held_by (ps_tok p)"
        using refs_nth [of i "map current (stack (ps_tok p))" a] i ps_ok_top [OF ok] by (simp add: held_by_def)
      then have "a \<in># (ptr_refs ?v + (held_by (ps_tok p) + R)) + held_refs h' {}" by simp
      then show "objs h' a \<noteq> None" by (rule counts_ok_ref [OF h'(2)]) simp
    qed
    then have "tokener_ok (ps_tok p) h' (ptr_refs ?v + R)"
      using ok p(2) h'(2) tables_filled_only_counts [OF tf h'(3)]
      by (auto simp: tokener_ok_def rest_ok_def ps_ok_def owned_obj_def ac_simps)
    then show ?thesis
      using p True top_level_ok [OF ok] h'(1) by (simp add: json_tokener_parse_ex_def)
  qed
qed

text \<open>Resetting puts everything the tokener holds.\<close>

lemma reset_levels_ok:
  assumes "counts_ok rk h (held_by t + R) {}" "d < length (stack t)"
    and "\<And>i. i < length (stack t) \<Longrightarrow> ptr_below rk f (current (stack t ! i))"
  shows "\<exists>t' h'. reset_levels f h t d = Some (Inr (t', h')) \<and> counts_ok rk h' (held_by t' + R) {} \<and> only_counts h h'
     \<and> length (stack t') = length (stack t) \<and> tok_pb t' = tok_pb t
     \<and> (\<forall>i < length (stack t). stack t' ! i = (if i \<le> d then fresh_level else stack t ! i))"
  using assms
proof (induction d arbitrary: t h)
  case 0
  let ?xs = "(map current (stack t))[0 := None]"
  have "held_by t = ptr_refs (current (stack t ! 0)) + ptrs_refs ?xs"
    using held_update [of 0 "map current (stack t)" None] 0(2) by (simp add: held_by_def ac_simps)
  then obtain h' where "json_tokener_reset_level f h t 0 = Some (Inr (t\<lparr>stack := (stack t)[0 := fresh_level]\<rparr>, h'))"
      "counts_ok rk h' (ptrs_refs ?xs + R) {}" "only_counts h h'"
    using reset_level_spec [of rk h t 0 "ptrs_refs ?xs + R" f] 0 by (auto simp: ac_simps)
  then show ?case by (auto simp: held_by_def map_update fresh_level_def nth_list_update)
next
  case (Suc d)
  let ?xs = "(map current (stack t))[Suc d := None]" and ?t = "t\<lparr>stack := (stack t)[Suc d := fresh_level]\<rparr>"
  have "held_by t = ptr_refs (current (stack t ! Suc d)) + ptrs_refs ?xs"
    using held_update [of "Suc d" "map current (stack t)" None] Suc.prems(2) by (simp add: held_by_def ac_simps)
  then obtain h1 where h1: "json_tokener_reset_level f h t (Suc d) = Some (Inr (?t, h1))"
      "counts_ok rk h1 (ptrs_refs ?xs + R) {}" "only_counts h h1"
    using reset_level_spec [of rk h t "Suc d" "ptrs_refs ?xs + R" f] Suc.prems by (auto simp: ac_simps)
  have "held_by ?t = ptrs_refs ?xs" by (simp add: held_by_def map_update fresh_level_def)
  then have "counts_ok rk h1 (held_by ?t + R) {}" using h1(2) by simp
  moreover have "ptr_below rk f (current (stack ?t ! i))" if "i < length (stack ?t)" for i
    using Suc.prems(2,3) that by (auto simp: nth_list_update fresh_level_def)
  ultimately obtain t' h' where "reset_levels f h1 ?t d = Some (Inr (t', h'))" "counts_ok rk h' (held_by t' + R) {}"
     "only_counts h1 h'" "length (stack t') = length (stack ?t)" "tok_pb t' = tok_pb ?t"
     "\<forall>i < length (stack ?t). stack t' ! i = (if i \<le> d then fresh_level else stack ?t ! i)"
    using Suc.IH [of h1 ?t] Suc.prems(2) by auto
  then show ?case using h1(1) only_counts_trans [OF h1(3)] Suc.prems(2)
    by (auto simp: nth_list_update le_Suc_eq)
qed

lemma reset_ok:
  assumes t: "tokener_ok t h R" and f: "JSON_TOKENER_MAX_DEPTH < f"
  shows "\<exists>t' h'. json_tokener_reset f h t = Some (Inr (t', h')) \<and> client_ok h' R \<and> tokener_ok t' h' R \<and> held_by t' = {#}"
proof -
  obtain rk where rk: "counts_ok rk h (held_by t + R) {}" "tables_filled h" "shape_ok t" "buffer_ok t"
      "\<And>i. i \<le> depth t \<Longrightarrow> level_ok rk h i (stack t ! i)"
    by (rule tokener_counts [OF t]) blast
  have d: "depth t < length (stack t)" using rk(3) by (simp add: shape_ok_def)
  have below: "\<And>i. i < length (stack t) \<Longrightarrow> ptr_below rk f (current (stack t ! i))"
    using levels_ranked [OF rk(3,5) _ f] by blast
  obtain t1 h' where 1: "reset_levels f h t (depth t) = Some (Inr (t1, h'))" "counts_ok rk h' (held_by t1 + R) {}"
     "only_counts h h'" "length (stack t1) = length (stack t)" "tok_pb t1 = tok_pb t"
     "\<forall>i < length (stack t). stack t1 ! i = (if i \<le> depth t then fresh_level else stack t ! i)"
    using reset_levels_ok [OF rk(1) d below] by blast
  define t' where "t' = t1\<lparr>depth := 0, err := json_tokener_success\<rparr>"
  have empty: "current (stack t1 ! i) = None" if "i < length (stack t1)" for i
    using 1(4,6) that rk(3) by (cases "i \<le> depth t") (auto simp: fresh_level_def shape_ok_def)
  have "a \<notin># held_by t1" for a
    unfolding held_by_def in_ptrs_refs using empty by (auto simp: in_set_conv_nth)
  then have none: "held_by t1 = {#}" by (meson multiset_nonemptyE)
  have top: "top_rec t' = fresh_level" using 1(6) [rule_format, of 0] d by (cases "stack t") (auto simp: t'_def top_rec_def)
  have tf: "tables_filled h'" by (rule tables_filled_only_counts [OF rk(2) 1(3)])
  have "shape_ok t'" using rk(3) 1(4) empty by (simp add: shape_ok_def t'_def)
  moreover have "buffer_ok t'" using rk(4) 1(5) top by (auto simp: buffer_ok_def t'_def fresh_level_def)
  moreover have "stack t' ! 0 = fresh_level" using top by (simp add: top_rec_def t'_def)
  ultimately have "tokener_ok t' h' R"
    using 1(2) none tf top fresh_level_ok
    by (auto simp: tokener_ok_def rest_ok_def ps_ok_def owned_obj_def t'_def held_by_def fresh_level_def)
  moreover have "client_ok h' R" using 1(2) none tf by (auto simp: client_ok_def refs_ok_def)
  ultimately show ?thesis using 1(1) none by (auto simp: json_tokener_reset_def t'_def held_by_def)
qed

lemma free_ok:
  assumes "tokener_ok t h R" "JSON_TOKENER_MAX_DEPTH < f"
  shows "\<exists>h'. json_tokener_free f h t = Some (Inr h') \<and> client_ok h' R"
  using reset_ok [OF assms] by (auto simp: json_tokener_free_def)

lemma new_tokener_ok:
  assumes E: "all_mem E" and h: "client_ok h R"
  shows "\<exists>t. json_tokener_new E f h = Some (Inr (t, h)) \<and> tokener_ok t h R"
proof -
  obtain pb where pb: "printbuf_new (mem E) = Some pb" "pb_inv pb"
    using E printbuf_new_inv by (auto simp: printbuf_new_def all_mem_def)
  obtain rk where rk: "counts_ok rk h R {}" "tables_filled h" using h by (auto simp: client_ok_def refs_ok_def)
  define z where "z = (replicate JSON_TOKENER_MAX_DEPTH zero_level)[0 := fresh_level]"
  define t where "t = \<lparr>tok_pb = Some pb, depth = 0, is_double = False, st_pos = 0, char_offset = 0,
         err = json_tokener_success, ucs_char = 0, quote_char = NUL, stack = z\<rparr>"
  have z: "length z = JSON_TOKENER_MAX_DEPTH" "z ! 0 = fresh_level"
      "\<And>i. i < JSON_TOKENER_MAX_DEPTH \<Longrightarrow> current (z ! i) = None"
    by (auto simp: z_def fresh_level_def zero_level_def nth_list_update JSON_TOKENER_MAX_DEPTH_def)
  have "json_object_put f h None = Some (Inr h)" by (cases f) simp_all
  then have "json_tokener_new E f h = Some (Inr (t, h))"
    using E pb(1) by (simp add: json_tokener_new_def all_mem_def json_tokener_reset_def json_tokener_reset_level_def
        JSON_TOKENER_MAX_DEPTH_def zero_level_def fresh_level_def t_def z_def aget_def)
  moreover have "a \<notin># held_by t" for a
    unfolding held_by_def in_ptrs_refs using z(1,3) by (auto simp: t_def in_set_conv_nth)
  then have none: "held_by t = {#}" by (meson multiset_nonemptyE)
  have "top_rec t = fresh_level" using z(2) by (simp add: t_def top_rec_def)
  then have "tokener_ok t h R"
    using rk none z pb(2) fresh_level_ok
    by (auto simp: tokener_ok_def rest_ok_def ps_ok_def owned_obj_def shape_ok_def buffer_ok_def fresh_level_def t_def
        JSON_TOKENER_MAX_DEPTH_def)
  ultimately show ?thesis by blast
qed

text \<open>
  C2: With memory to allocate, json_tokener_parse returns for every text, from any store whose
  counts are right: no fault, no endless jumps inside the switch, and afterwards each reference
  count is exactly the caller's references plus, on success, the one to the value returned.
\<close>

theorem json_tokener_parse_safe:
  assumes "all_mem E" "client_ok h R" "JSON_TOKENER_MAX_DEPTH < f"
  shows "\<exists>r h'. json_tokener_parse E f h s = Some (Inr (r, h'))
    \<and> client_ok h' ((case r of Value p \<Rightarrow> ptr_refs p | Error_Ptr e \<Rightarrow> {#}) + R)"
proof -
  obtain t where t: "json_tokener_new E f h = Some (Inr (t, h))" "tokener_ok t h R"
    using new_tokener_ok [OF assms(1,2)] by blast
  obtain obj t' h1 where p: "json_tokener_parse_ex E f h t (s @ [NUL]) (-1) = Some (Inr (obj, t', h1))"
      "tokener_ok t' h1 (ptr_refs obj + R)" "err t' \<noteq> json_tokener_success \<longrightarrow> obj = None"
    using parse_ex_ok [OF assms(1,3) t(2), of "s @ [NUL]" "-1"] by auto
  obtain h' where "json_tokener_free f h1 t' = Some (Inr h')" "client_ok h' (ptr_refs obj + R)"
    using free_ok [OF p(2) assms(3)] by blast
  then show ?thesis using t(1) p(1,3) by (auto simp: json_tokener_parse_def)
qed

text \<open>
  Parsing any text in an empty store and putting the value once leaves no object behind: the parser
  leaks nothing, on errors included.
\<close>

theorem parse_then_put_leaves_nothing:
  assumes "all_mem E" "JSON_TOKENER_MAX_DEPTH < f"
  shows "\<exists>r h. json_tokener_parse E f empty_heap s = Some (Inr (r, h)) \<and>
    (case r of Error_Ptr e \<Rightarrow> \<forall>a. objs h a = None
     | Value p \<Rightarrow> \<exists>h'. json_object_put (live h) h p = Some (Inr h') \<and> (\<forall>a. objs h' a = None))"
proof -
  obtain r h where r: "json_tokener_parse E f empty_heap s = Some (Inr (r, h))"
      "client_ok h ((case r of Value p \<Rightarrow> ptr_refs p | Error_Ptr e \<Rightarrow> {#}) + {#})"
    using json_tokener_parse_safe [OF assms(1) client_ok_empty assms(2), of s] by blast
  have empty: "\<forall>a. objs g a = None" if "refs_ok g {#}" for g
    using no_refs_empty that by auto
  show ?thesis
  proof (cases r)
    case (Value p)
    then have "refs_ok h (ptr_refs p + {#})" using r(2) by (simp add: client_ok_def)
    then obtain h' where "json_object_put (live h) h p = Some (Inr h')" "refs_ok h' {#}"
      using refs_ok_put by blast
    then show ?thesis using r(1) Value empty by auto
  next
    case (Error_Ptr e)
    then show ?thesis using r empty by (auto simp: client_ok_def)
  qed
qed

lemma json_tokener_parse_safe_witness:
  "\<exists>r h'. json_tokener_parse plain_env 40 empty_heap ''[1, {'' = Some (Inr (r, h'))"
  using json_tokener_parse_safe [OF all_mem_plain_env client_ok_empty, of 40 "''[1, {''"]
  by (auto simp: JSON_TOKENER_MAX_DEPTH_def)

lemma parse_then_put_leaves_nothing_witness:
  "\<exists>r h. json_tokener_parse plain_env 40 empty_heap ''[[1], 2] x'' = Some (Inr (r, h))"
  using parse_then_put_leaves_nothing [OF all_mem_plain_env, of 40 "''[[1], 2] x''"]
  by (auto simp: JSON_TOKENER_MAX_DEPTH_def)

end
