(* ===== verification/Json_Value.thy ===== *)
theory Json_Value
  imports Json_Print Json_Client
begin

text \<open>
  What a JSON object stands for: \<open>jvalue\<close> is the abstract value, \<open>rep\<close> relates it to a pointer into
  the store, \<open>json_text\<close> is the text the printing functions write for it.
\<close>

section \<open>Abstract values\<close>

datatype jvalue =
    JNull | JBool bool | JInt "32 word" | JDouble "64 word" | JString "char list"
  | JArray "jvalue list" | JObject "(char list \<times> jvalue) list"

text \<open>
  \<open>rep n h p v\<close>: in the store \<open>h\<close> the pointer \<open>p\<close> stands for \<open>v\<close>, and all objects of the value have
  addresses from \<open>n\<close> on.
\<close>

inductive rep :: "addr \<Rightarrow> json_heap \<Rightarrow> jptr \<Rightarrow> jvalue \<Rightarrow> bool" for n h where
  null: "rep n h None JNull"
| bool: "n \<le> a \<Longrightarrow> objs h a = Some j \<Longrightarrow> json_object_ok j \<Longrightarrow> o_type j = json_type_boolean
     \<Longrightarrow> o_data j = C_boolean (if b then 1 else 0) \<Longrightarrow> rep n h (Some a) (JBool b)"
| int: "n \<le> a \<Longrightarrow> objs h a = Some j \<Longrightarrow> json_object_ok j \<Longrightarrow> o_type j = json_type_int
     \<Longrightarrow> o_data j = C_int i \<Longrightarrow> rep n h (Some a) (JInt i)"
| double: "n \<le> a \<Longrightarrow> objs h a = Some j \<Longrightarrow> json_object_ok j \<Longrightarrow> o_type j = json_type_double
     \<Longrightarrow> o_data j = C_double d \<Longrightarrow> rep n h (Some a) (JDouble d)"
| string: "n \<le> a \<Longrightarrow> objs h a = Some j \<Longrightarrow> json_object_ok j \<Longrightarrow> o_type j = json_type_string
     \<Longrightarrow> o_data j = C_string (Some s) \<Longrightarrow> rep n h (Some a) (JString s)"
| array: "n \<le> a \<Longrightarrow> objs h a = Some j \<Longrightarrow> json_object_ok j \<Longrightarrow> o_type j = json_type_array
     \<Longrightarrow> o_data j = C_array (Some l) \<Longrightarrow> list_all2 (rep n h) (al_elems l) vs \<Longrightarrow> rep n h (Some a) (JArray vs)"
| object: "n \<le> a \<Longrightarrow> objs h a = Some j \<Longrightarrow> json_object_ok j \<Longrightarrow> o_type j = json_type_object
     \<Longrightarrow> o_data j = C_object t \<Longrightarrow> table_ok t es \<Longrightarrow> map fst es = map fst kvs
     \<Longrightarrow> list_all2 (rep n h) (map snd es) (map snd kvs) \<Longrightarrow> rep n h (Some a) (JObject kvs)"

inductive_cases rep_nullE: "rep n h p JNull"
inductive_cases rep_boolE: "rep n h p (JBool b)"
inductive_cases rep_intE: "rep n h p (JInt i)"
inductive_cases rep_doubleE: "rep n h p (JDouble d)"
inductive_cases rep_stringE: "rep n h p (JString s)"
inductive_cases rep_arrayE: "rep n h p (JArray vs)"
inductive_cases rep_objectE: "rep n h p (JObject kvs)"

text \<open>
  A value is not touched by changes elsewhere, nor by changes of the counts and the buffers: \<open>same_value\<close>
  says that an object is still there with its type and its data.
\<close>

definition same_value :: "json_heap \<Rightarrow> json_heap \<Rightarrow> addr \<Rightarrow> bool" where
  "same_value h h' a \<longleftrightarrow> (\<forall>j. objs h a = Some j \<and> json_object_ok j \<longrightarrow>
     (\<exists>j'. objs h' a = Some j' \<and> json_object_ok j' \<and> o_type j' = o_type j \<and> o_data j' = o_data j))"

lemma same_valueE:
  assumes "same_value h h' a" "objs h a = Some j" "json_object_ok j"
  obtains j' where "objs h' a = Some j'" "json_object_ok j'" "o_type j' = o_type j" "o_data j' = o_data j"
  using assms by (auto simp: same_value_def)

lemma same_value_eq: "objs h' a = objs h a \<Longrightarrow> same_value h h' a"
  by (simp add: same_value_def)

lemma rep_frame:
  assumes "rep n h p v" "\<And>a. n \<le> a \<Longrightarrow> same_value h h' a" "m \<le> n"
  shows "rep m h' p v"
  using assms(1)
proof (induction rule: rep.induct)
  case null
  show ?case by (rule rep.null)
next
  case (bool a j b)
  from assms(2) [OF bool(1)] bool(2,3) show ?case
    by (rule same_valueE) (use bool assms(3) in \<open>auto intro!: rep.bool\<close>)
next
  case (int a j i)
  from assms(2) [OF int(1)] int(2,3) show ?case
    by (rule same_valueE) (use int assms(3) in \<open>auto intro!: rep.int\<close>)
next
  case (double a j d)
  from assms(2) [OF double(1)] double(2,3) show ?case
    by (rule same_valueE) (use double assms(3) in \<open>auto intro!: rep.double\<close>)
next
  case (string a j s)
  from assms(2) [OF string(1)] string(2,3) show ?case
    by (rule same_valueE) (use string assms(3) in \<open>auto intro!: rep.string\<close>)
next
  case (array a j l vs)
  have vs: "list_all2 (rep m h') (al_elems l) vs" using array(6) by (rule list_all2_mono) simp
  from assms(2) [OF array(1)] array(2,3) show ?case
    by (rule same_valueE) (use array(1,4,5) vs assms(3) in \<open>auto intro!: rep.array\<close>)
next
  case (object a j t es kvs)
  have vs: "list_all2 (rep m h') (map snd es) (map snd kvs)" using object(8) by (rule list_all2_mono) simp
  from assms(2) [OF object(1)] object(2,3) show ?case
    by (rule same_valueE) (use object(1,4-7) vs assms(3) in \<open>auto intro!: rep.object\<close>)
qed

text \<open>The constructors.\<close>

lemma new_values_rep:
  assumes E: "all_mem E"
  shows "\<exists>h'. json_object_new_boolean E h (if b then 1 else 0) = (Some (next_addr h), h') \<and> rep (next_addr h) h' (Some (next_addr h)) (JBool b)"
    and "\<exists>h'. json_object_new_int E h i = (Some (next_addr h), h') \<and> rep (next_addr h) h' (Some (next_addr h)) (JInt i)"
    and "\<exists>h'. json_object_new_double E h d = (Some (next_addr h), h') \<and> rep (next_addr h) h' (Some (next_addr h)) (JDouble d)"
    and "\<exists>h'. json_object_new_string E h s = (Some (next_addr h), h') \<and> rep (next_addr h) h' (Some (next_addr h)) (JString s)"
  using mem_all [OF E]
  by (auto simp: json_object_new_boolean_def json_object_new_int_def json_object_new_double_def
      json_object_new_string_def json_object_new_def json_setup_def c_strdup_def json_object_ok_def
      intro!: rep.bool rep.int rep.double rep.string)

section \<open>The text of a value\<close>

definition esc_char :: "char \<Rightarrow> char list" where
  "esc_char c = (case short_escape c of Some e \<Rightarrow> e
     | None \<Rightarrow> if (of_char c :: nat) < 32 then (case hex_escape c of Inr e \<Rightarrow> e | Inl f \<Rightarrow> []) else [c])"

definition esc :: "char list \<Rightarrow> char list" where
  "esc s = concat (map esc_char s)"

definition quoted :: "char list \<Rightarrow> char list" where
  "quoted s = [CHR 0x22] @ esc s @ [CHR 0x22]"

text \<open>The items of an array and of an object with what separates them.\<close>

fun array_more :: "char list list \<Rightarrow> char list" where
  "array_more [] = []"
| "array_more (t # ts) = '', '' @ t @ array_more ts"

fun array_text :: "char list list \<Rightarrow> char list" where
  "array_text [] = []"
| "array_text (t # ts) = '' '' @ t @ array_more ts"

definition member_text :: "char list \<times> char list \<Rightarrow> char list" where
  "member_text kt = '' '' @ quoted (fst kt) @ '': '' @ snd kt"

fun object_more :: "(char list \<times> char list) list \<Rightarrow> char list" where
  "object_more [] = []"
| "object_more (kt # kts) = '','' @ member_text kt @ object_more kts"

fun object_text :: "(char list \<times> char list) list \<Rightarrow> char list" where
  "object_text [] = []"
| "object_text (kt # kts) = member_text kt @ object_more kts"

fun json_text :: "cenv \<Rightarrow> jvalue \<Rightarrow> char list" where
  "json_text E JNull = ''null''"
| "json_text E (JBool b) = (if b then ''true'' else ''false'')"
| "json_text E (JInt i) = fmt_d i"
| "json_text E (JDouble d) = fmt_lf E d"
| "json_text E (JString s) = quoted s"
| "json_text E (JArray vs) = ''['' @ array_text (map (json_text E) vs) @ '' ]''"
| "json_text E (JObject kvs) = ''{'' @ object_text (map (\<lambda>kv. (fst kv, json_text E (snd kv))) kvs) @ '' }''"

fun jheight :: "jvalue \<Rightarrow> nat" where
  "jheight (JArray vs) = Suc (foldr max (map jheight vs) 0)"
| "jheight (JObject kvs) = Suc (foldr max (map (\<lambda>kv. jheight (snd kv)) kvs) 0)"
| "jheight v = 1"

lemma foldr_max_le: "foldr max ns (0::nat) \<le> f \<longleftrightarrow> (\<forall>n \<in> set ns. n \<le> f)"
  by (induction ns) auto

lemma jheight_item: "v \<in> set vs \<Longrightarrow> jheight v < jheight (JArray vs)"
  using foldr_max_le [of "map jheight vs" "foldr max (map jheight vs) 0"] by (simp add: less_Suc_eq_le)

lemma jheight_member: "(k, v) \<in> set kvs \<Longrightarrow> jheight v < jheight (JObject kvs)"
  using foldr_max_le [of "map (\<lambda>kv. jheight (snd kv)) kvs" "foldr max (map (\<lambda>kv. jheight (snd kv)) kvs) 0"]
  by (fastforce simp: less_Suc_eq_le)

section \<open>Printing\<close>

definition prints :: "printbuf run \<Rightarrow> printbuf \<Rightarrow> char list \<Rightarrow> bool" where
  "prints r pb s \<longleftrightarrow> (\<exists>pb'. r = Some (Inr pb') \<and> pb_inv pb' \<and> (pb_terminated pb \<or> s \<noteq> [] \<longrightarrow> pb_terminated pb')
     \<and> pb_text pb' = pb_text pb @ s)"

lemma prints_none: "pb_inv pb \<Longrightarrow> prints (Some (Inr pb)) pb []"
  by (simp add: prints_def)

lemma prints_then:
  assumes "prints m pb s" "\<And>pb'. pb_inv pb' \<Longrightarrow> prints (k pb') pb' s'"
  shows "prints (ubind m k) pb (s @ s')"
proof -
  obtain pb1 where 1: "m = Some (Inr pb1)" "pb_inv pb1" "pb_terminated pb \<or> s \<noteq> [] \<longrightarrow> pb_terminated pb1"
      "pb_text pb1 = pb_text pb @ s" using assms(1) by (auto simp: prints_def)
  then show ?thesis using assms(2) [OF 1(2)] by (auto simp: prints_def)
qed

lemma put_mem_prints: "all_mem E \<Longrightarrow> pb_inv pb \<Longrightarrow> prints (Some (put_mem E pb s)) pb s"
  using memappend_spec [of pb "mem E" s] by (auto simp: prints_def put_mem_def mem_all)

lemma put_text_prints: "all_mem E \<Longrightarrow> pb_inv pb \<Longrightarrow> prints (Some (put_text E pb s)) pb s"
  using sprintbuf_spec [of pb "mem E" s] by (auto simp: prints_def put_text_def mem_all)

lemma put_lit_prints: "all_mem E \<Longrightarrow> pb_inv pb \<Longrightarrow> prints (put_lit E pb s) pb s"
  using put_text_prints by (simp add: put_lit_def)

lemma Some_rbind: "Some (rbind r k) = ubind (Some r) (\<lambda>x. Some (k x))"
  by (cases r) simp_all

lemma flush_prints: "all_mem E \<Longrightarrow> pb_inv pb \<Longrightarrow> prints (Some (flush_run E pb r)) pb r"
  using put_mem_prints prints_none by (auto simp: flush_run_def)

lemma hex_escape_digits:
  "hex_escape c = Inr [CHR 0x5C, CHR ''u'', CHR ''0'', CHR ''0'', json_hex_chars ! (of_char c div 16),
     json_hex_chars ! (of_char c mod 16)]"
proof -
  have len: "length json_hex_chars = 16" by (simp add: json_hex_chars_def)
  have "(of_char c :: nat) div 16 < 16" using less_mult_imp_div_less [of "of_char c" 16 16] by simp
  then show ?thesis by (simp add: hex_escape_def aget_def len nat_div_distrib nat_mod_distrib)
qed

lemma escape_loop_prints:
  assumes E: "all_mem E"
  shows "pb_inv pb \<Longrightarrow> prints (Some (escape_loop E pb r s)) pb (r @ esc s)"
proof (induction s arbitrary: pb r)
  case Nil
  then show ?case using flush_prints [OF E] by (simp add: esc_def)
next
  case (Cons c s)
  have esc: "esc (c # s) = esc_char c @ esc s" by (simp add: esc_def)
  obtain e where e: "hex_escape c = Inr e" using hex_escape_digits by blast
  show ?case
  proof (cases "short_escape c")
    case (Some x)
    then have "esc_char c = x" by (simp add: esc_char_def)
    moreover have "prints (Some (escape_loop E pb r (c # s))) pb (r @ x @ [] @ esc s)"
      unfolding escape_loop.simps Some option.case Some_rbind
      by (intro prints_then flush_prints put_mem_prints E Cons.prems Cons.IH) (simp add: Cons.IH)
    ultimately show ?thesis by (simp add: esc)
  next
    case None
    show ?thesis
    proof (cases "(of_char c :: nat) < 32")
      case True
      then have ec: "esc_char c = e" using None e by (simp add: esc_char_def)
      have "prints (Some (escape_loop E pb r (c # s))) pb (r @ e @ [] @ esc s)"
        using True None unfolding escape_loop.simps None option.case Some_rbind e rbind_simps
        by (simp only: if_True Some_rbind) (intro prints_then flush_prints put_text_prints E Cons.prems Cons.IH, simp add: Cons.IH)
      then show ?thesis by (simp add: esc ec)
    next
      case False
      then have "esc_char c = [c]" using None by (simp add: esc_char_def)
      then show ?thesis using Cons.IH [OF Cons.prems, of "r @ [c]"] False None by (simp add: esc)
    qed
  qed
qed

lemma escape_str_prints: "all_mem E \<Longrightarrow> pb_inv pb \<Longrightarrow> prints (Some (json_escape_str E pb s)) pb (esc s)"
  using escape_loop_prints [of E pb "[]" s] by (simp add: json_escape_str_def)

text \<open>The loops, for any way to print the values in them.\<close>

definition item_prints :: "cenv \<Rightarrow> (jptr \<Rightarrow> printbuf \<Rightarrow> printbuf run) \<Rightarrow> jptr \<Rightarrow> char list \<Rightarrow> bool" where
  "item_prints E sub p t \<longleftrightarrow>
     (\<forall>pb. pb_inv pb \<longrightarrow> prints (if p = None then put_lit E pb ''null'' else sub p pb) pb t)"

lemma object_items_prints:
  assumes E: "all_mem E"
  shows "list_all2 (item_prints E sub) (map snd es) ts \<Longrightarrow> pb_inv pb
    \<Longrightarrow> prints (object_items E sub i es pb) pb
          (if i = 0 then object_text (zip (map fst es) ts) else object_more (zip (map fst es) ts))"
proof (induction es arbitrary: ts i pb)
  case Nil
  then show ?case by (cases ts) (auto intro: prints_none)
next
  case (Cons kv es)
  obtain k v where kv: "kv = (k, v)" by fastforce
  obtain t ts' where ts: "ts = t # ts'" and t: "item_prints E sub v t" "list_all2 (item_prints E sub) (map snd es) ts'"
    using Cons.prems(1) kv by (cases ts) auto
  have rest: "prints (object_items E sub (i + 1) es pb') pb' (object_more (zip (map fst es) ts'))" if "pb_inv pb'" for pb'
    using Cons.IH [OF t(2) that, of "i + 1"] by simp
  have "prints (object_items E sub i (kv # es) pb) pb ((if i \<noteq> 0 then '','' else []) @ [CHR '' '', CHR 0x22] @ esc k
      @ [CHR 0x22, CHR '':'', CHR '' ''] @ t @ object_more (zip (map fst es) ts'))"
    unfolding kv object_items.simps
    by (intro prints_then rest) (use E Cons.prems(2) t(1) in
      \<open>auto intro: put_lit_prints escape_str_prints prints_none simp: item_prints_def\<close>)
  then show ?case by (simp add: ts kv quoted_def member_text_def split: if_splits)
qed

lemma array_items_prints:
  assumes E: "all_mem E" and l: "al_inv l"
  shows "list_all2 (item_prints E sub) (drop i (al_elems l)) ts \<Longrightarrow> pb_inv pb
    \<Longrightarrow> prints (array_items E sub l i (length ts) pb) pb (if i = 0 then array_text ts else array_more ts)"
proof (induction ts arbitrary: i pb)
  case Nil
  then show ?case by (auto intro: prints_none)
next
  case (Cons t ts)
  have i: "i < length (al_elems l)" using list_all2_lengthD [OF Cons.prems(1)] by simp
  let ?v = "al_elems l ! i"
  have t: "item_prints E sub ?v t" "list_all2 (item_prints E sub) (drop (i + 1) (al_elems l)) ts"
    using Cons.prems(1) i by (simp_all add: Cons_nth_drop_Suc [symmetric])
  have "nat (al_length l) = length (al_elems l)" using length_al_elems [OF l] by simp
  then have get: "array_list_get_idx l (int i) = Inr ?v"
    using i l by (auto simp: array_list_get_idx_def al_elems_def al_inv_def)
  have rest: "prints (array_items E sub l (i + 1) (length ts) pb') pb' (array_more ts)" if "pb_inv pb'" for pb'
    using Cons.IH [OF t(2) that] by simp
  have "prints (array_items E sub l i (length (t # ts)) pb) pb ((if i \<noteq> 0 then '', '' else '' '') @ t @ array_more ts)"
    unfolding list.size(4) add_Suc_right add_0_right array_items.simps get ubind_simps
    by (intro prints_then rest) (use E Cons.prems(2) t(1) in \<open>auto intro: put_lit_prints simp: item_prints_def\<close>)
  then show ?case by (simp split: if_splits)
qed

text \<open>The return code of the last append is its length.\<close>

definition prints_code :: "(int \<times> printbuf) run \<Rightarrow> printbuf \<Rightarrow> char list \<Rightarrow> bool" where
  "prints_code r pb s \<longleftrightarrow> (\<exists>n pb'. r = Some (Inr (n, pb')) \<and> 0 \<le> n \<and> prints (Some (Inr pb')) pb s)"

lemma sprintbuf_code: "all_mem E \<Longrightarrow> pb_inv pb \<Longrightarrow> prints_code (Some (sprintbuf (mem E) pb s)) pb s"
  using sprintbuf_spec [of pb "mem E" s] by (auto simp: prints_code_def prints_def mem_all)

lemma prints_then_code:
  assumes "prints m pb s" "\<And>pb'. pb_inv pb' \<Longrightarrow> prints_code (k pb') pb' s'"
  shows "prints_code (ubind m k) pb (s @ s')"
proof -
  obtain pb1 where 1: "m = Some (Inr pb1)" "pb_inv pb1" "pb_terminated pb \<or> s \<noteq> [] \<longrightarrow> pb_terminated pb1"
      "pb_text pb1 = pb_text pb @ s" using assms(1) by (auto simp: prints_def)
  then show ?thesis using assms(2) [OF 1(2)] by (auto simp: prints_code_def prints_def)
qed

lemma code_prints: "prints_code r pb s \<Longrightarrow> prints (ubind r (\<lambda>(n, pb). Some (Inr pb))) pb s"
  by (auto simp: prints_code_def)

lemma prints_code_ret: "pb_inv pb \<Longrightarrow> prints_code (Some (Inr (0, pb))) pb []"
  by (simp add: prints_code_def prints_none)

text \<open>A value in a list, once it is known to print on its own.\<close>

lemma rep_item_prints:
  assumes E: "all_mem E" and v: "rep n h p v"
    and IH: "\<And>a pb. rep n h (Some a) v \<Longrightarrow> pb_inv pb \<Longrightarrow> prints_code (to_json_string E f h (Some a) pb) pb (json_text E v)"
  shows "item_prints E (\<lambda>v pb. ubind (to_json_string E f h v pb) (\<lambda>(r, pb). Some (Inr pb))) p (json_text E v)"
proof (cases p)
  case None
  with v have "v = JNull" by (auto elim: rep.cases)
  then show ?thesis using None put_lit_prints [OF E] by (simp add: item_prints_def)
next
  case (Some a)
  then show ?thesis using IH v code_prints by (simp add: item_prints_def)
qed

lemma to_json_prints:
  assumes E: "all_mem E"
  shows "rep n h (Some a) v \<Longrightarrow> jheight v \<le> f \<Longrightarrow> pb_inv pb \<Longrightarrow>
    prints_code (to_json_string E f h (Some a) pb) pb (json_text E v)"
proof (induction v arbitrary: a f pb)
  case JNull
  then show ?case by (auto elim: rep_nullE)
next
  case (JBool b)
  then obtain f' j where "f = Suc f'" "objs h a = Some j" "json_object_ok j" "o_type j = json_type_boolean"
      "o_data j = C_boolean (if b then 1 else 0)" by (cases f) (auto elim: rep_boolE)
  then show ?case using JBool.prems sprintbuf_code [OF E]
    by (auto simp: jderef_def json_object_ok_def json_object_boolean_to_json_string_def)
next
  case (JInt i)
  then obtain f' j where "f = Suc f'" "objs h a = Some j" "json_object_ok j" "o_type j = json_type_int"
      "o_data j = C_int i" by (cases f) (auto elim: rep_intE)
  then show ?case using JInt.prems sprintbuf_code [OF E]
    by (auto simp: jderef_def json_object_ok_def json_object_int_to_json_string_def)
next
  case (JDouble d)
  then obtain f' j where "f = Suc f'" "objs h a = Some j" "json_object_ok j" "o_type j = json_type_double"
      "o_data j = C_double d" by (cases f) (auto elim: rep_doubleE)
  then show ?case using JDouble.prems sprintbuf_code [OF E]
    by (auto simp: jderef_def json_object_ok_def json_object_double_to_json_string_def)
next
  case (JString s)
  then obtain f' j where j: "f = Suc f'" "objs h a = Some j" "json_object_ok j" "o_type j = json_type_string"
      "o_data j = C_string (Some s)" by (cases f) (auto elim: rep_stringE)
  have s: "as_string j = Inr s" using j by (simp add: as_string_def)
  have "prints_code (json_object_string_to_json_string E j pb) pb ([CHR 0x22] @ esc s @ [CHR 0x22] @ [])"
    unfolding json_object_string_to_json_string_def s ubind_simps
    by (intro prints_then_code put_lit_prints escape_str_prints E JString.prems(3) prints_code_ret)
  then show ?case using j by (simp add: jderef_def json_object_ok_def quoted_def)
next
  case (JArray vs)
  then obtain f' j l where j: "f = Suc f'" "objs h a = Some j" "json_object_ok j" "o_type j = json_type_array"
      "o_data j = C_array (Some l)" "list_all2 (rep n h) (al_elems l) vs"
    by (cases f) (auto elim: rep_arrayE)
  let ?sub = "\<lambda>v pb. ubind (to_json_string E f' h v pb) (\<lambda>(r, pb). Some (Inr pb))"
  have l: "as_array j = Inr l" "al_inv l" using j by (auto simp: as_array_def json_object_ok_def)
  have len: "nat (array_list_length l) = length vs"
    using length_al_elems [OF l(2)] list_all2_lengthD [OF j(6)] by (simp add: array_list_length_def)
  have "list_all2 (item_prints E ?sub) (al_elems l) (map (json_text E) vs)"
    using j(6) unfolding list_all2_map2
  proof (rule list.rel_mono_strong)
    fix p v assume "p \<in> set (al_elems l)" and v: "v \<in> set vs" "rep n h p v"
    have "jheight v \<le> f'" using JArray.prems(2) v(1) j(1) by (auto simp: foldr_max_le)
    then show "item_prints E ?sub p (json_text E v)"
      using rep_item_prints [OF E v(2)] JArray.IH [OF v(1)] by blast
  qed
  then have items: "pb_inv pb' \<Longrightarrow> prints (array_items E ?sub l 0 (length vs) pb') pb' (array_text (map (json_text E) vs))" for pb'
    using array_items_prints [OF E l(2), of ?sub 0 "map (json_text E) vs" pb'] by simp
  have "prints_code (json_object_array_to_json_string E ?sub j pb) pb (''['' @ array_text (map (json_text E) vs) @ '' ]'')"
    unfolding json_object_array_to_json_string_def l(1) ubind_simps len
    by (intro prints_then_code put_lit_prints items sprintbuf_code E JArray.prems(3))
  then show ?case using j by (simp add: jderef_def json_object_ok_def Let_def)
next
  case (JObject kvs)
  then obtain f' j t es where j: "f = Suc f'" "objs h a = Some j" "json_object_ok j" "o_type j = json_type_object"
      "o_data j = C_object t" "table_ok t es" "map fst es = map fst kvs" "list_all2 (rep n h) (map snd es) (map snd kvs)"
    by (cases f) (auto elim: rep_objectE)
  let ?sub = "\<lambda>v pb. ubind (to_json_string E f' h v pb) (\<lambda>(r, pb). Some (Inr pb))"
  let ?ts = "map (json_text E \<circ> snd) kvs"
  have t: "as_table j = Inr t" using j by (simp add: as_table_def)
  have "list_all2 (item_prints E ?sub) (map snd es) (map (json_text E) (map snd kvs))"
    using j(8) unfolding list_all2_map2 [of _ _ "json_text E"]
  proof (rule list.rel_mono_strong)
    fix p v assume "p \<in> set (map snd es)" and v: "v \<in> set (map snd kvs)" "rep n h p v"
    then obtain k where k: "(k, v) \<in> set kvs" by auto
    have "jheight v \<le> f'" using JObject.prems(2) k j(1) by (auto simp: foldr_max_le)
    then show "item_prints E ?sub p (json_text E v)"
      using rep_item_prints [OF E v(2)] JObject.IH [OF k snds.intros] by fastforce
  qed
  then have items: "pb_inv pb' \<Longrightarrow> prints (object_items E ?sub 0 es pb') pb'
      (object_text (map (\<lambda>kv. (fst kv, json_text E (snd kv))) kvs))" for pb'
    using object_items_prints [OF E, of ?sub es ?ts pb' 0] j(7) by (simp add: zip_map_map zip_same_conv_map comp_def)
  have "prints_code (json_object_object_to_json_string E ?sub j pb) pb
      (''{'' @ object_text (map (\<lambda>kv. (fst kv, json_text E (snd kv))) kvs) @ '' }'')"
    unfolding json_object_object_to_json_string_def t ubind_simps foreach_table_ok [OF j(6)]
    by (intro prints_then_code put_lit_prints items sprintbuf_code E JObject.prems(3))
  then show ?case using j by (simp add: jderef_def json_object_ok_def Let_def)
qed

section \<open>json_object_to_json_string\<close>

text \<open>What is asked of \<open>printf\<close>: a double is written as some characters, none of them \<open>NUL\<close>.\<close>

definition printf_ok :: "cenv \<Rightarrow> bool" where
  "printf_ok E \<longleftrightarrow> (\<forall>d. fmt_lf E d \<noteq> [] \<and> NUL \<notin> set (fmt_lf E d))"

lemma hex_char_in: "n < 16 \<Longrightarrow> json_hex_chars ! n \<in> set json_hex_chars"
  by (rule nth_mem) (simp add: json_hex_chars_def)

lemma esc_char_no_nul: "NUL \<notin> set (esc_char c)"
proof (cases "short_escape c")
  case None
  have "NUL \<notin> set json_hex_chars" by (simp add: json_hex_chars_def)
  moreover have "(of_char c :: nat) div 16 < 16" using less_mult_imp_div_less [of "of_char c" 16 16] by simp
  ultimately have "json_hex_chars ! (of_char c div 16) \<noteq> NUL" "json_hex_chars ! (of_char c mod 16) \<noteq> NUL"
    using hex_char_in by (metis, metis mod_less_divisor zero_less_numeral)
  then show ?thesis using None by (auto simp: esc_char_def hex_escape_digits)
next
  case (Some e)
  then show ?thesis by (auto simp: esc_char_def short_escape_def split: if_splits)
qed

lemma quoted_no_nul [simp]: "NUL \<notin> set (quoted s)"
  using esc_char_no_nul by (auto simp: quoted_def esc_def)

lemma fmt_d_no_nul: "NUL \<notin> set (fmt_d i)"
proof -
  have "NUL \<notin> set (digits n)" for n using digits_are_digits [of n] by (auto simp: c_isdigit_def)
  then show ?thesis by (simp add: fmt_d_def)
qed

lemma array_more_set: "set (array_more ts) \<subseteq> set '', '' \<union> \<Union> (set ` set ts)"
  by (induction ts) auto

lemma array_text_set: "set (array_text ts) \<subseteq> set '', '' \<union> \<Union> (set ` set ts)"
  using array_more_set by (cases ts) fastforce+

lemma object_more_no_nul: "\<forall>kt \<in> set kts. NUL \<notin> set (snd kt) \<Longrightarrow> NUL \<notin> set (object_more kts)"
  by (induction kts) (auto simp: member_text_def)

lemma object_text_no_nul: "\<forall>kt \<in> set kts. NUL \<notin> set (snd kt) \<Longrightarrow> NUL \<notin> set (object_text kts)"
  using object_more_no_nul by (cases kts) (auto simp: member_text_def)

lemma json_text_no_nul: "printf_ok E \<Longrightarrow> NUL \<notin> set (json_text E v)"
proof (induction v)
  case (JArray vs)
  then show ?case using array_text_set [of "map (json_text E) vs"] by fastforce
next
  case (JObject kvs)
  then have "NUL \<notin> set (object_text (map (\<lambda>kv. (fst kv, json_text E (snd kv))) kvs))"
    by (intro object_text_no_nul) (force intro: snds.intros)
  then show ?case by simp
qed (use fmt_d_no_nul in \<open>auto simp: printf_ok_def\<close>)

lemma json_text_nonempty: "printf_ok E \<Longrightarrow> json_text E v \<noteq> []"
  by (cases v) (auto simp: printf_ok_def fmt_d_def quoted_def)

lemma takeWhile_no_nul: "NUL \<notin> set s \<Longrightarrow> takeWhile (\<lambda>c. c \<noteq> NUL) s = s"
  by (auto simp: takeWhile_eq_all_conv)

text \<open>Only the buffer of the object that is asked changes.\<close>

definition own_buffer_set :: "json_heap \<Rightarrow> jptr \<Rightarrow> json_heap \<Rightarrow> bool" where
  "own_buffer_set h p h' \<longleftrightarrow> (case p of None \<Rightarrow> h' = h
     | Some a \<Rightarrow> \<exists>j pb. objs h a = Some j \<and> json_object_ok j \<and> pb_inv pb \<and> h' = jstore h a (j\<lparr>own_pb := Some pb\<rparr>))"

lemma json_object_ok_own_pb: "json_object_ok j \<Longrightarrow> pb_inv pb \<Longrightarrow> json_object_ok (j\<lparr>own_pb := Some pb\<rparr>)"
  by (cases "o_type j") (simp_all add: json_object_ok_def)

lemma own_buffer_rep:
  assumes "own_buffer_set h p h'" "rep n h q v"
  shows "rep n h' q v"
proof (rule rep_frame [OF assms(2) _ order_refl])
  fix b
  show "same_value h h' b"
  proof (cases p)
    case None
    then show ?thesis using assms(1) by (simp add: own_buffer_set_def same_value_def)
  next
    case (Some a)
    then obtain j pb where "objs h a = Some j" "pb_inv pb" "h' = jstore h a (j\<lparr>own_pb := Some pb\<rparr>)"
      using assms(1) by (auto simp: own_buffer_set_def)
    then show ?thesis using json_object_ok_own_pb by (cases "b = a") (simp_all add: same_value_def)
  qed
qed

lemma to_json_string_works:
  assumes E: "all_mem E" "printf_ok E" and v: "rep n h p v" "jheight v \<le> f"
  shows "\<exists>h'. json_object_to_json_string E f h p = Some (Inr (Some (json_text E v), h')) \<and> own_buffer_set h p h'"
proof (cases p)
  case None
  with v have "v = JNull" by (auto elim: rep.cases)
  then show ?thesis using None v by (auto simp: json_object_to_json_string_def own_buffer_set_def)
next
  case (Some a)
  obtain j where j: "objs h a = Some j" "json_object_ok j" using v(1) Some by (auto elim: rep.cases)
  define with_pb where "with_pb pb = jstore h a (j\<lparr>own_pb := Some pb\<rparr>)" for pb
  have own: "rep n (with_pb pb) p v" if "pb_inv pb" for pb
    by (rule own_buffer_rep [of h p, OF _ v(1)]) (use j that Some in \<open>auto simp: own_buffer_set_def with_pb_def\<close>)
  obtain pb where pb: "(case own_pb j of None \<Rightarrow> map_option Inr (printbuf_new (mem E)) | Some pb \<Rightarrow> Some (printbuf_reset pb))
      = Some (Inr pb)" "pb_inv pb" "pb_text pb = []"
  proof (cases "own_pb j")
    case None
    obtain pb where "printbuf_new (mem E) = Some pb" using E(1) by (auto simp: printbuf_new_def mem_all)
    then show ?thesis using that None printbuf_new_inv by auto
  next
    case (Some pb0)
    then have "pb_inv pb0" using j(2) by (simp add: json_object_ok_def)
    then show ?thesis using reset_spec that Some by fastforce
  qed
  have "prints_code (to_json_string E f (with_pb pb) (Some a) pb) pb (json_text E v)"
    using to_json_prints [OF E(1)] own [OF pb(2)] v(2) pb(2) Some by blast
  then obtain c pb' where pb': "to_json_string E f (with_pb pb) (Some a) pb = Some (Inr (c, pb'))" "0 \<le> c" "pb_inv pb'"
      "pb_terminated pb'" "pb_text pb' = json_text E v"
    using json_text_nonempty [OF E(2)] pb(3) by (auto simp: prints_code_def prints_def)
  have "cstr (buf pb') = Inr (json_text E v)"
    using cstr_pb [OF pb'(3,4)] pb'(5) json_text_no_nul [OF E(2)] by (simp add: takeWhile_no_nul)
  then have "json_object_to_json_string E f h p = Some (Inr (Some (json_text E v), with_pb pb'))"
    using Some j(1) pb(1) pb'(1,2) by (simp add: json_object_to_json_string_def jderef_def with_pb_def Let_def)
  then show ?thesis using j pb'(3) Some by (auto simp: with_pb_def own_buffer_set_def)
qed

text \<open>
  json_object_to_json_string returns exactly the JSON text of the value the object stands for, with
  every quote, backslash, slash and control character escaped, and touches nothing but the print
  buffer of the object.
\<close>

theorem json_object_to_json_string_text:
  assumes "all_mem E" "printf_ok E" "rep n h p v" "jheight v \<le> f"
  shows "\<exists>h'. json_object_to_json_string E f h p = Some (Inr (Some (json_text E v), h'))
     \<and> rep n h' p v \<and> (\<forall>b. Some b \<noteq> p \<longrightarrow> objs h' b = objs h b)"
proof -
  obtain h' where "json_object_to_json_string E f h p = Some (Inr (Some (json_text E v), h'))" "own_buffer_set h p h'"
    using to_json_string_works [OF assms] by blast
  then show ?thesis using own_buffer_rep [OF _ assms(3)]
    by (auto simp: own_buffer_set_def split: option.splits)
qed

lemma json_object_to_json_string_text_witness:
  "\<exists>h p h'. json_object_new_string plain_env empty_heap ''a/b'' = (p, h)
     \<and> json_object_to_json_string plain_env 1 h p = Some (Inr (Some [CHR 0x22, CHR ''a'', CHR 0x5C, CHR ''/'', CHR ''b'', CHR 0x22], h'))"
proof -
  obtain h p where h: "json_object_new_string plain_env empty_heap ''a/b'' = (p, h)" "rep 0 h p (JString ''a/b'')"
    using new_values_rep(4) [OF all_mem_plain_env, of empty_heap "''a/b''"] by (auto simp: empty_heap_def)
  have "printf_ok plain_env" by (simp add: printf_ok_def plain_env_def)
  from json_object_to_json_string_text [OF all_mem_plain_env this h(2)] h(1)
  show ?thesis by (fastforce simp: quoted_def esc_def esc_char_def short_escape_def)
qed

end
