(* ===== verification/Json_Read.thy ===== *)
theory Json_Read
  imports Json_Parse_Safe Json_Value
begin

text \<open>
  Runs of the parser over a known text. \<open>goes E f R A s t B\<close> says that the loop, started on the text \<open>s\<close> in
  a state that satisfies \<open>A\<close>, comes to \<open>t\<close> in a state that satisfies \<open>B\<close>; runs are chained by
  \<open>goes_trans\<close>, and each case of the switch gives one step. The invariant of \<open>Json_Parse_Safe\<close> is carried
  along, so only what a step does has to be said here.
\<close>

section \<open>Runs\<close>

definition fine :: "addr multiset \<Rightarrow> parse_state \<Rightarrow> bool" where
  "fine R p \<longleftrightarrow> (\<exists>rk. ps_ok rk R p) \<and> 0 \<le> char_offset (ps_tok p)"

definition tick :: "parse_state \<Rightarrow> parse_state" where
  "tick p = p\<lparr>ps_tok := (ps_tok p)\<lparr>char_offset := char_offset (ps_tok p) + 1\<rparr>\<rparr>"

definition goes ::
  "cenv \<Rightarrow> nat \<Rightarrow> addr multiset \<Rightarrow> (parse_state \<Rightarrow> bool) \<Rightarrow> char list \<Rightarrow> char list \<Rightarrow> (parse_state \<Rightarrow> bool) \<Rightarrow> bool" where
  "goes E f R A s t B \<longleftrightarrow> (all_mem E \<longrightarrow> JSON_TOKENER_MAX_DEPTH < f \<longrightarrow> (\<forall>p. fine R p \<longrightarrow> A p \<longrightarrow>
     (\<exists>p'. fine R p' \<and> B p' \<and> parse_loop E f (-1) s p = parse_loop E f (-1) t p')))"

lemma goes_id: "(\<And>p. A p \<Longrightarrow> B p) \<Longrightarrow> goes E f R A s s B"
  by (auto simp: goes_def)

lemma goes_trans: "goes E f R A s t B \<Longrightarrow> goes E f R B t u C \<Longrightarrow> goes E f R A s u C"
  unfolding goes_def by (metis (no_types))

lemma goes_post: "goes E f R A s t B \<Longrightarrow> (\<And>p. B p \<Longrightarrow> C p) \<Longrightarrow> goes E f R A s t C"
  unfolding goes_def by blast

lemma goes_pre: "goes E f R A s t B \<Longrightarrow> (\<And>p. A' p \<Longrightarrow> A p) \<Longrightarrow> goes E f R A' s t B"
  unfolding goes_def by blast

text \<open>A state description with a parameter.\<close>

lemma goes_ex: "(\<And>x. goes E f R (A x) s t B) \<Longrightarrow> goes E f R (\<lambda>p. \<exists>x. A x p) s t B"
  unfolding goes_def by blast

lemma goes_conj: "(P \<Longrightarrow> goes E f R A s t B) \<Longrightarrow> goes E f R (\<lambda>p. A p \<and> P) s t B"
  unfolding goes_def by blast

text \<open>The invariant can be used to describe the state better.\<close>

lemma goes_fine: "goes E f R (\<lambda>p. A p \<and> fine R p) s t B \<Longrightarrow> goes E f R A s t B"
  unfolding goes_def by blast

lemma goes_break:
  assumes step: "\<And>p. all_mem E \<Longrightarrow> fine R p \<Longrightarrow> A p \<Longrightarrow> \<exists>p1. dispatch E f c p = Some (Inr (Break, p1)) \<and> B (tick p1)"
    and c: "c \<noteq> NUL"
  shows "goes E f R A (c # cs) cs B"
  unfolding goes_def
proof (intro allI impI)
  fix p assume E: "all_mem E" and f: "JSON_TOKENER_MAX_DEPTH < f" and p: "fine R p" "A p"
  obtain p1 where 1: "dispatch E f c p = Some (Inr (Break, p1))" "B (tick p1)" using step E p by blast
  obtain rk where rk: "ps_ok rk R p" using p(1) by (auto simp: fine_def)
  from dispatch_good [OF rk E f, of c] 1(1) obtain rk1 where ok: "ps_ok rk1 R p1"
      and off: "char_offset (ps_tok p1) = char_offset (ps_tok p)" by (auto simp: good_step_def)
  have "redo_char REDO_FUEL E f c p = Some (Inr (Break, p1))" using 1(1) by (simp add: REDO_FUEL_def eval_nat_numeral)
  then have "parse_loop E f (-1) (c # cs) p = parse_loop E f (-1) cs (tick p1)"
    using p(1) c by (subst parse_loop.simps) (simp add: fine_def tick_def Let_def)
  moreover have "fine R (tick p1)" using ok off p(1) by (auto simp: fine_def tick_def)
  ultimately show "\<exists>p'. fine R p' \<and> B p' \<and> parse_loop E f (-1) (c # cs) p = parse_loop E f (-1) cs p'"
    using 1(2) by blast
qed

lemma redo_more: "redo_char n E f c p = Some (Inr r) \<Longrightarrow> redo_char (Suc n) E f c p = Some (Inr r)"
proof (induction n arbitrary: p)
  case (Suc n)
  from Suc.prems obtain w p1 where 1: "dispatch E f c p = Some (Inr (w, p1))"
      "(if w = Redo then redo_char n E f c p1 else Some (Inr (w, p1))) = Some (Inr r)"
    by (auto simp: ubind_eq_Inr)
  then show ?case using Suc.IH [of p1] by (simp split: if_splits)
qed simp

lemma goes_redo:
  assumes step: "\<And>p. all_mem E \<Longrightarrow> JSON_TOKENER_MAX_DEPTH < f \<Longrightarrow> fine R p \<Longrightarrow> A p
    \<Longrightarrow> \<exists>p1. dispatch E f c p = Some (Inr (Redo, p1)) \<and> B p1"
  shows "goes E f R A (c # cs) (c # cs) B"
  unfolding goes_def
proof (intro allI impI)
  fix p assume E: "all_mem E" and f: "JSON_TOKENER_MAX_DEPTH < f" and p: "fine R p" "A p"
  obtain p1 where 1: "dispatch E f c p = Some (Inr (Redo, p1))" "B p1" using step E f p by blast
  obtain rk where rk: "ps_ok rk R p" using p(1) by (auto simp: fine_def)
  from dispatch_good [OF rk E f, of c] 1(1) obtain rk1 where ok: "ps_ok rk1 R p1"
      and off: "char_offset (ps_tok p1) = char_offset (ps_tok p)"
      and w: "weight (top_rec (ps_tok p1)) < weight (top_rec (ps_tok p))" by (auto simp: good_step_def)
  obtain n where n: "REDO_FUEL = Suc n" by (simp add: REDO_FUEL_def eval_nat_numeral)
  then have "weight (top_rec (ps_tok p1)) \<le> n" using w weight_bound [of "top_rec (ps_tok p)"] by simp
  from redo_char_good [OF E f ok this] obtain r where r: "redo_char n E f c p1 = Some (Inr r)" by blast
  then have "redo_char REDO_FUEL E f c p = redo_char REDO_FUEL E f c p1"
    using 1(1) redo_more [OF r] by (simp add: n)
  then have "parse_loop E f (-1) (c # cs) p = parse_loop E f (-1) (c # cs) p1"
    using off p(1) by (subst (1 2) parse_loop.simps) (simp add: fine_def)
  moreover have "fine R p1" using ok off p(1) by (auto simp: fine_def)
  ultimately show "\<exists>p'. fine R p' \<and> B p' \<and> parse_loop E f (-1) (c # cs) p = parse_loop E f (-1) (c # cs) p'"
    using 1(2) by blast
qed

section \<open>Where the parser is\<close>

text \<open>The store, the levels below the top one, and the top one; no error so far.\<close>

definition stands :: "json_heap \<Rightarrow> json_tokener_srec list \<Rightarrow> json_tokener_srec \<Rightarrow> parse_state \<Rightarrow> bool" where
  "stands h bs s p \<longleftrightarrow> ps_heap p = h \<and> depth (ps_tok p) = length bs \<and> take (length bs) (stack (ps_tok p)) = bs
     \<and> top_rec (ps_tok p) = s \<and> err (ps_tok p) = json_tokener_success"

abbreviation lvl :: "json_tokener_state \<Rightarrow> json_tokener_state \<Rightarrow> jptr \<Rightarrow> char list option \<Rightarrow> json_tokener_srec" where
  "lvl st sv v nm \<equiv> \<lparr>state = st, saved_state = sv, current = v, obj_field_name = nm\<rparr>"

text \<open>What the invariant says of such a state.\<close>

lemma stands_fine:
  assumes "fine R p" "stands h bs s p"
  obtains rk pb where "ps_ok rk R p" "length bs < length (stack (ps_tok p))" "tok_pb (ps_tok p) = Some pb" "pb_inv pb"
    "state s \<in> text_states \<Longrightarrow> pb_terminated pb" "length (stack (ps_tok p)) = JSON_TOKENER_MAX_DEPTH"
    "top_rec (ps_tok p) = s" "ps_heap p = h"
  using assms by (auto simp: fine_def stands_def ps_ok_def shape_ok_def buffer_ok_def)

lemma dispatch_at:
  assumes "fine R p" "stands h bs s p"
  shows "dispatch E f c p = (case state s of
         json_tokener_state_eatws \<Rightarrow> st_eatws E c s p
       | json_tokener_state_start \<Rightarrow> st_start E c p
       | json_tokener_state_finish \<Rightarrow> st_finish f s p
       | json_tokener_state_null \<Rightarrow> st_null E c p
       | json_tokener_state_comment_start \<Rightarrow> st_comment_start E c p
       | json_tokener_state_comment \<Rightarrow> st_comment E c p
       | json_tokener_state_comment_eol \<Rightarrow> st_comment_eol E c p
       | json_tokener_state_comment_end \<Rightarrow> st_comment_end E c p
       | json_tokener_state_string \<Rightarrow> st_string E c p
       | json_tokener_state_string_escape \<Rightarrow> st_string_escape E c s p
       | json_tokener_state_escape_unicode \<Rightarrow> st_escape_unicode E c s p
       | json_tokener_state_boolean \<Rightarrow> st_boolean E c p
       | json_tokener_state_number \<Rightarrow> st_number E c p
       | json_tokener_state_array \<Rightarrow> st_array f c p
       | json_tokener_state_array_add \<Rightarrow> st_array_add E f s p
       | json_tokener_state_array_sep \<Rightarrow> st_array_sep c p
       | json_tokener_state_object_field_start \<Rightarrow> st_object_field_start c p
       | json_tokener_state_object_field \<Rightarrow> st_object_field E c p
       | json_tokener_state_object_field_end \<Rightarrow> st_object_field_end c p
       | json_tokener_state_object_value \<Rightarrow> st_object_value f p
       | json_tokener_state_object_value_add \<Rightarrow> st_object_value_add E f s p
       | json_tokener_state_object_sep \<Rightarrow> st_object_sep c p)"
proof -
  have "aget (stack (ps_tok p)) (int (depth (ps_tok p))) = Inr s"
    using assms by (auto simp: aget_def stands_def top_rec_def fine_def ps_ok_def shape_ok_def)
  then show ?thesis by (simp add: dispatch_def)
qed

lemma stands_tick [simp]: "stands h bs s (tick p) = stands h bs s p"
  by (simp add: stands_def tick_def top_rec_def)

lemma stands_on_top:
  "fine R p \<Longrightarrow> stands h bs s p \<Longrightarrow> stands h bs (g s) (p\<lparr>ps_tok := on_top g (ps_tok p)\<rparr>)"
  by (auto simp: stands_def fine_def ps_ok_def shape_ok_def)

lemma stands_on_top_of:
  assumes "fine R p" "stands h bs s p" "stack u = stack (ps_tok p)" "depth u = depth (ps_tok p)" "err u = err (ps_tok p)"
  shows "stands h bs (g s) (p\<lparr>ps_tok := on_top g u\<rparr>)"
  using assms by (auto simp: stands_def fine_def ps_ok_def shape_ok_def top_rec_def on_top_def)

lemma stands_other [simp]:
  "stands h bs s (p\<lparr>ps_tok := t\<lparr>tok_pb := a\<rparr>\<rparr>) = stands h bs s (p\<lparr>ps_tok := t\<rparr>)"
  "stands h bs s (p\<lparr>ps_tok := t\<lparr>st_pos := n\<rparr>\<rparr>) = stands h bs s (p\<lparr>ps_tok := t\<rparr>)"
  "stands h bs s (p\<lparr>ps_tok := t\<lparr>quote_char := q\<rparr>\<rparr>) = stands h bs s (p\<lparr>ps_tok := t\<rparr>)"
  "stands h bs s (p\<lparr>ps_tok := t\<lparr>is_double := b\<rparr>\<rparr>) = stands h bs s (p\<lparr>ps_tok := t\<rparr>)"
  "stands h bs s (p\<lparr>ps_tok := t\<lparr>ucs_char := u\<rparr>\<rparr>) = stands h bs s (p\<lparr>ps_tok := t\<rparr>)"
  by (simp_all add: stands_def)

section \<open>White space\<close>

lemma goes_space:
  assumes "c_isspace c" "state s = json_tokener_state_eatws"
  shows "goes E f R (stands h bs s) (c # cs) cs (stands h bs s)"
proof (rule goes_break)
  show "\<exists>p1. dispatch E f c p = Some (Inr (Break, p1)) \<and> stands h bs s (tick p1)" if "fine R p" "stands h bs s p" for p
    using dispatch_at [OF that, of E f c] that assms by (simp add: st_eatws_def leave_def Let_def)
  show "c \<noteq> NUL" using assms(1) by (auto simp: c_isspace_def)
qed

text \<open>A character at which white space ends and no comment begins.\<close>

definition solid :: "char \<Rightarrow> bool" where
  "solid c \<longleftrightarrow> \<not> c_isspace c \<and> c \<noteq> CHR ''/''"

lemma goes_resume:
  assumes "solid c"
  shows "goes E f R (stands h bs (lvl json_tokener_state_eatws sv v nm)) (c # cs) (c # cs) (stands h bs (lvl sv sv v nm))"
proof (rule goes_redo)
  let ?s = "lvl json_tokener_state_eatws sv v nm"
  fix p assume p: "fine R p" "stands h bs ?s p"
  show "\<exists>p1. dispatch E f c p = Some (Inr (Redo, p1)) \<and> stands h bs (lvl sv sv v nm) p1"
    using dispatch_at [OF p, of E f c] stands_on_top [OF p, of "\<lambda>s. s\<lparr>state := sv\<rparr>"] assms
    by (simp add: st_eatws_def leave_def Let_def solid_def go_def)
qed

text \<open>One step of a state that only looks at the character.\<close>

lemma stands_go_eatws:
  "fine R p \<Longrightarrow> stands h bs (lvl st sv0 v nm) p
     \<Longrightarrow> stands h bs (lvl json_tokener_state_eatws sv v nm) (p\<lparr>ps_tok := go_eatws sv (ps_tok p)\<rparr>)"
  using stands_on_top [of R p h bs "lvl st sv0 v nm" "\<lambda>s. s\<lparr>state := json_tokener_state_eatws, saved_state := sv\<rparr>"]
  by (simp add: go_eatws_def)

lemma goes_punctuation:
  shows "goes E f R (stands h bs (lvl json_tokener_state_array sv v nm)) (CHR '']'' # cs) cs
      (stands h bs (lvl json_tokener_state_eatws json_tokener_state_finish v nm))"
    and "goes E f R (stands h bs (lvl json_tokener_state_array_sep sv v nm)) (CHR '']'' # cs) cs
      (stands h bs (lvl json_tokener_state_eatws json_tokener_state_finish v nm))"
    and "goes E f R (stands h bs (lvl json_tokener_state_array_sep sv v nm)) (CHR '','' # cs) cs
      (stands h bs (lvl json_tokener_state_eatws json_tokener_state_array v nm))"
    and "goes E f R (stands h bs (lvl json_tokener_state_object_field_start sv v nm)) (CHR ''}'' # cs) cs
      (stands h bs (lvl json_tokener_state_eatws json_tokener_state_finish v nm))"
    and "goes E f R (stands h bs (lvl json_tokener_state_object_field_end sv v nm)) (CHR '':'' # cs) cs
      (stands h bs (lvl json_tokener_state_eatws json_tokener_state_object_value v nm))"
    and "goes E f R (stands h bs (lvl json_tokener_state_object_sep sv v nm)) (CHR ''}'' # cs) cs
      (stands h bs (lvl json_tokener_state_eatws json_tokener_state_finish v nm))"
    and "goes E f R (stands h bs (lvl json_tokener_state_object_sep sv v nm)) (CHR '','' # cs) cs
      (stands h bs (lvl json_tokener_state_eatws json_tokener_state_object_field_start v nm))"
  by (rule goes_break; use stands_go_eatws in \<open>fastforce simp: dispatch_at st_array_def st_array_sep_def
      st_object_field_start_def st_object_field_end_def st_object_sep_def leave_def\<close>)+

section \<open>Levels\<close>

lemma put_null [simp]: "json_object_put f h None = Some (Inr h)"
  by (cases f) simp_all

lemma push_level_goes:
  assumes d: "length bs + 1 < JSON_TOKENER_MAX_DEPTH" and p: "fine R p" "stands h bs s p"
  shows "\<exists>p1. push_level f st p = Some (Inr (Redo, p1)) \<and> stands h (bs @ [s\<lparr>state := st\<rparr>]) fresh_level p1"
proof -
  let ?t = "ps_tok p" and ?n = "length bs"
  obtain rk where ok: "ps_ok rk R p" and len: "length (stack ?t) = JSON_TOKENER_MAX_DEPTH"
    by (rule stands_fine [OF p]) blast
  have s: "depth ?t = ?n" "top_rec ?t = s" "take ?n (stack ?t) = bs" "ps_heap p = h" "err ?t = json_tokener_success"
    using p(2) by (simp_all add: stands_def)
  let ?stk = "(stack ?t)[?n := s\<lparr>state := st\<rparr>]"
  let ?u = "(go st ?t)\<lparr>depth := Suc ?n\<rparr>"
  have above: "current (?stk ! Suc ?n) = None" using ok d s(1) by (simp add: ps_ok_def shape_ok_def)
  have r: "json_tokener_reset_level f h ?u (Suc ?n) = Some (Inr (?u\<lparr>stack := ?stk[Suc ?n := fresh_level]\<rparr>, h))"
    using d len above s(1,2) by (simp add: json_tokener_reset_level_def aget_def go_def fresh_level_def nat_add_distrib)
  have "take (Suc ?n) ?stk = bs @ [s\<lparr>state := st\<rparr>]"
    using s(3) len d by (simp add: take_Suc_conv_app_nth)
  then have "stands h (bs @ [s\<lparr>state := st\<rparr>]) fresh_level
      (p\<lparr>ps_tok := ?u\<lparr>stack := ?stk[Suc ?n := fresh_level]\<rparr>, ps_heap := h\<rparr>)"
    using s(5) len d by (simp add: stands_def top_rec_def go_def)
  then show ?thesis using d s r by (auto simp: push_level_def Let_def go_def)
qed

lemma goes_push_array:
  assumes "length bs + 1 < JSON_TOKENER_MAX_DEPTH" "c \<noteq> CHR '']''"
  shows "goes E f R (stands h bs (lvl json_tokener_state_array sv v nm)) (c # cs) (c # cs)
    (stands h (bs @ [lvl json_tokener_state_array_add sv v nm]) fresh_level)"
  by (rule goes_redo)
    (use push_level_goes [OF assms(1), where s = "lvl json_tokener_state_array sv v nm" and st = json_tokener_state_array_add
      and f = f and R = R and h = h] assms(2) in \<open>simp add: dispatch_at st_array_def\<close>)

lemma goes_push_object:
  assumes "length bs + 1 < JSON_TOKENER_MAX_DEPTH"
  shows "goes E f R (stands h bs (lvl json_tokener_state_object_value sv v nm)) (c # cs) (c # cs)
    (stands h (bs @ [lvl json_tokener_state_object_value_add sv v nm]) fresh_level)"
  by (rule goes_redo)
    (use push_level_goes [OF assms(1), where s = "lvl json_tokener_state_object_value sv v nm"
      and st = json_tokener_state_object_value_add and f = f and R = R and h = h]
      in \<open>simp add: dispatch_at st_object_value_def\<close>)

text \<open>Taking a reference and putting it leaves the store as it was.\<close>

lemma get_put_back:
  assumes "p = None \<or> (\<exists>a j. p = Some a \<and> objs h a = Some j \<and> 0 < ref_count j)"
  shows "\<exists>h1. json_object_get h p = Inr (p, h1) \<and> json_object_put (Suc f) h1 p = Some (Inr h)"
proof (cases p)
  case None
  then show ?thesis by (simp add: json_object_get_def)
next
  case (Some a)
  then obtain j where j: "objs h a = Some j" "0 < ref_count j" using assms by auto
  then have "objs h = (objs h)(a \<mapsto> j)" by auto
  then have "h = jstore (jstore h a x) a j" for x by (simp add: jstore_def)
  then show ?thesis using Some j
    by (auto simp: json_object_get_def jderef_def Let_def)
qed

lemma current_counted:
  assumes "fine R p" "stands h bs s p"
  shows "current s = None \<or> (\<exists>a j. current s = Some a \<and> objs h a = Some j \<and> 0 < ref_count j)"
proof (cases "current s")
  case (Some a)
  obtain rk where ok: "ps_ok rk R p" and len: "length bs < length (stack (ps_tok p))"
    by (rule stands_fine [OF assms]) blast
  have s: "ps_heap p = h" "stack (ps_tok p) ! length bs = s" using assms(2) by (auto simp: stands_def top_rec_def)
  have "a \<in># held_by (ps_tok p)"
    using refs_nth [of "length bs" "map current (stack (ps_tok p))" a] len s(2) Some by (simp add: held_by_def)
  then have a: "a \<in># (held_by (ps_tok p) + owned_obj p + R) + held_refs h {}" by simp
  have "counts_ok rk h (held_by (ps_tok p) + owned_obj p + R) {}" using ok s(1) by (simp add: ps_ok_def)
  from this a obtain j where "objs h a = Some j" "0 < ref_count j" by (rule counts_ok_ref) blast
  then show ?thesis using Some by simp
qed simp

lemma goes_pop:
  "goes E f R (stands h (bs @ [b]) (lvl json_tokener_state_finish sv v nm)) (c # cs) (c # cs)
     (\<lambda>p. stands h bs b p \<and> ps_obj p = v)"
proof (rule goes_redo)
  let ?s = "lvl json_tokener_state_finish sv v nm" and ?n = "length bs"
  fix p assume f: "JSON_TOKENER_MAX_DEPTH < f" and p: "fine R p" "stands h (bs @ [b]) ?s p"
  let ?t = "ps_tok p"
  have len: "Suc ?n < length (stack ?t)" by (rule stands_fine [OF p]) simp
  have s: "depth ?t = Suc ?n" "take (Suc ?n) (stack ?t) = bs @ [b]" "stack ?t ! Suc ?n = ?s" "ps_heap p = h"
      "err ?t = json_tokener_success" using p(2) by (auto simp: stands_def top_rec_def)
  obtain f' where f': "f = Suc f'" using f by (cases f) auto
  have "v = None \<or> (\<exists>a j. v = Some a \<and> objs h a = Some j \<and> 0 < ref_count j)" using current_counted [OF p] by simp
  from get_put_back [OF this, of f'] obtain h1 where
    h1: "json_object_get h v = Inr (v, h1)" "json_object_put f h1 v = Some (Inr h)" unfolding f' by blast
  let ?t' = "?t\<lparr>stack := (stack ?t)[Suc ?n := fresh_level]\<rparr>"
  have r: "json_tokener_reset_level f h1 ?t (depth ?t) = Some (Inr (?t', h))"
    using h1(2) len s by (simp add: json_tokener_reset_level_def aget_def fresh_level_def nat_add_distrib)
  have "take ?n (stack ?t) = take ?n (take (Suc ?n) (stack ?t))" by (simp add: min_def)
  then have tk: "take ?n (stack ?t) = bs" unfolding s(2) by simp
  have "stack ?t ! ?n = take (Suc ?n) (stack ?t) ! ?n" by simp
  then have "stack ?t ! ?n = b" unfolding s(2) by simp
  then have "stands h bs b \<lparr>ps_tok = ?t'\<lparr>depth := depth ?t' - 1\<rparr>, ps_heap = h, ps_obj = v\<rparr>"
    using s(1,5) tk by (simp add: stands_def top_rec_def)
  then show "\<exists>p1. dispatch E f c p = Some (Inr (Redo, p1)) \<and> stands h bs b p1 \<and> ps_obj p1 = v"
    using dispatch_at [OF p, of E f c] s(1,4) h1(1) r by (simp add: st_finish_def Let_def)
qed

section \<open>Containers under construction\<close>

text \<open>
  An array or an object in the store with the values it has so far; they lie above it, so that a change
  of the container leaves them alone.
\<close>

definition part_array :: "json_heap \<Rightarrow> addr \<Rightarrow> jvalue list \<Rightarrow> bool" where
  "part_array h a vs \<longleftrightarrow> a < next_addr h \<and> (\<exists>j l. objs h a = Some j \<and> json_object_ok j \<and> o_type j = json_type_array
     \<and> o_data j = C_array (Some l) \<and> list_all2 (rep (Suc a) h) (al_elems l) vs)"

definition part_object :: "json_heap \<Rightarrow> addr \<Rightarrow> (char list \<times> jvalue) list \<Rightarrow> bool" where
  "part_object h a kvs \<longleftrightarrow> a < next_addr h \<and> (\<exists>j t es. objs h a = Some j \<and> json_object_ok j \<and> o_type j = json_type_object
     \<and> o_data j = C_object t \<and> filled t es \<and> map fst es = map fst kvs
     \<and> list_all2 (rep (Suc a) h) (map snd es) (map snd kvs))"

text \<open>Stores that only grow, but for the container itself.\<close>

definition grows :: "addr set \<Rightarrow> json_heap \<Rightarrow> json_heap \<Rightarrow> bool" where
  "grows A h h' \<longleftrightarrow> next_addr h \<le> next_addr h' \<and> (\<forall>b j. b \<notin> A \<longrightarrow> objs h b = Some j \<longrightarrow> objs h' b = Some j)"

lemma grows_refl: "grows A h h"
  by (simp add: grows_def)

lemma grows_trans: "grows A h h1 \<Longrightarrow> grows A h1 h' \<Longrightarrow> grows A h h'"
  by (auto simp: grows_def)

lemma grows_mono: "grows A h h' \<Longrightarrow> A \<subseteq> B \<Longrightarrow> grows B h h'"
  by (auto simp: grows_def)

lemma grows_new: "grows {} h h1 \<Longrightarrow> objs h a = None \<Longrightarrow> grows {a} h1 h' \<Longrightarrow> grows {} h h'"
  unfolding grows_def by (metis empty_iff insert_iff option.distinct(1) order_trans)

lemma grows_same_value: "grows A h h' \<Longrightarrow> b \<notin> A \<Longrightarrow> same_value h h' b"
  by (auto simp: grows_def same_value_def)

lemma rep_grows:
  assumes "rep n h p v" "grows A h h'" "\<And>b. b \<in> A \<Longrightarrow> b < n" "m \<le> n"
  shows "rep m h' p v"
proof (rule rep_frame [OF assms(1) _ assms(4)])
  fix b assume "n \<le> b"
  then show "same_value h h' b" using grows_same_value [OF assms(2)] assms(3) [of b] by (cases "b \<in> A") simp_all
qed

lemma reps_grow:
  assumes "list_all2 (rep n h) ps vs" "grows A h h'" "\<And>b. b \<in> A \<Longrightarrow> b < n" "m \<le> n"
  shows "list_all2 (rep m h') ps vs"
  using assms(1) by (rule list_all2_mono) (rule rep_grows [OF _ assms(2-4)])

lemma part_array_grows:
  assumes "part_array h a vs" "grows {} h h'"
  shows "part_array h' a vs"
proof -
  obtain j l where "a < next_addr h" "objs h a = Some j" "json_object_ok j" "o_type j = json_type_array"
      "o_data j = C_array (Some l)" "list_all2 (rep (Suc a) h) (al_elems l) vs" using assms(1) by (auto simp: part_array_def)
  then show ?thesis using reps_grow [OF _ assms(2), of "Suc a"] assms(2) by (auto simp: part_array_def grows_def)
qed

lemma part_object_grows:
  assumes "part_object h a kvs" "grows {} h h'"
  shows "part_object h' a kvs"
proof -
  obtain j t es where j: "a < next_addr h" "objs h a = Some j" "json_object_ok j" "o_type j = json_type_object"
      "o_data j = C_object t" "filled t es" "map fst es = map fst kvs"
      "list_all2 (rep (Suc a) h) (map snd es) (map snd kvs)" using assms(1) by (auto simp: part_object_def)
  have "list_all2 (rep (Suc a) h') (map snd es) (map snd kvs)" by (rule reps_grow [OF j(8) assms(2)]) simp_all
  then show ?thesis using j assms(2) unfolding part_object_def grows_def by fastforce
qed

lemma part_array_rep:
  assumes "part_array h a vs" "n \<le> a"
  shows "rep n h (Some a) (JArray vs)"
proof -
  obtain j l where j: "objs h a = Some j" "json_object_ok j" "o_type j = json_type_array"
      "o_data j = C_array (Some l)" "list_all2 (rep (Suc a) h) (al_elems l) vs" using assms(1) by (auto simp: part_array_def)
  show ?thesis
    by (rule rep.array [OF assms(2) j(1-4) reps_grow [OF j(5) grows_refl [of "{}"]]]) (use assms(2) in simp_all)
qed

lemma part_object_rep:
  assumes "part_object h a kvs" "n \<le> a"
  shows "rep n h (Some a) (JObject kvs)"
proof -
  obtain j t es where j: "objs h a = Some j" "json_object_ok j" "o_type j = json_type_object"
      "o_data j = C_object t" "filled t es" "map fst es = map fst kvs"
      "list_all2 (rep (Suc a) h) (map snd es) (map snd kvs)" using assms(1) by (auto simp: part_object_def)
  show ?thesis
    by (rule rep.object [OF assms(2) j(1-4) filled_table_ok [OF j(5)] j(6) reps_grow [OF j(7) grows_refl [of "{}"]]])
      (use assms(2) in simp_all)
qed

lemma array_add_part:
  assumes E: "all_mem E" and a: "part_array h a vs" and v: "rep (Suc a) h p v"
  shows "\<exists>h'. json_object_array_add E f h (Some a) p = Some (Inr (0, h')) \<and> part_array h' a (vs @ [v]) \<and> grows {a} h h'"
proof -
  obtain j l where j: "a < next_addr h" "objs h a = Some j" "json_object_ok j" "o_type j = json_type_array"
      "o_data j = C_array (Some l)" "list_all2 (rep (Suc a) h) (al_elems l) vs" using a by (auto simp: part_array_def)
  have inv: "al_inv l" using j by (auto simp: json_object_ok_def)
  obtain l' where l': "array_list_add (mem E) l p = Inr (0, [], l')" "al_elems l' = al_elems l @ [p]" "al_inv l'"
    using array_list_add_spec [OF inv, of "mem E" p] E by (auto simp: all_mem_def)
  let ?h = "jstore h a (j\<lparr>o_data := C_array (Some l')\<rparr>)"
  have h': "grows {a} h ?h" by (simp add: grows_def)
  have "set_array h a l' = ?h" using j(2) by (simp add: set_array_def jstore_def)
  then have "json_object_array_add E f h (Some a) p = Some (Inr (0, ?h))"
    using j l'(1) by (simp add: json_object_array_add_def jderef_def as_array_def)
  moreover have "list_all2 (rep (Suc a) ?h) (al_elems l @ [p]) (vs @ [v])"
    using rep_grows [OF v h', of "Suc a"] reps_grow [OF j(6) h', of "Suc a"] by (simp add: list_all2_appendI)
  then have "part_array ?h a (vs @ [v])"
    using j l' by (auto simp: part_array_def json_object_ok_def)
  ultimately show ?thesis using h' by blast
qed

lemma object_add_part:
  assumes E: "all_mem E" and a: "part_object h a kvs" and v: "rep (Suc a) h p v" and k: "k \<notin> fst ` set kvs"
  shows "\<exists>h'. json_object_object_add E f h (Some a) k p = Some (Inr h') \<and> part_object h' a (kvs @ [(k, v)]) \<and> grows {a} h h'"
proof -
  obtain j t es where j: "a < next_addr h" "objs h a = Some j" "json_object_ok j" "o_type j = json_type_object"
      "o_data j = C_object t" "filled t es" "map fst es = map fst kvs"
      "list_all2 (rep (Suc a) h) (map snd es) (map snd kvs)" using a by (auto simp: part_object_def)
  have "k \<notin> fst ` set es" using k j(7) by (metis list.set_map)
  then obtain t2 where t2: "lh_put t k p = Some (Inr ([], t2))" "filled t2 (es @ [(k, p)])" "same_fns t t2"
    using put_absent [OF j(6)] by blast
  then obtain r t1 where t1: "lh_table_delete t k = Some (Inr (r, [], t1))" "lh_insert t1 k p = Some (Inr t2)"
    by (auto simp: lh_put_def ubind_eq_Inr)
  let ?h1 = "jstore h a (j\<lparr>o_data := C_object t1\<rparr>)" and ?h = "jstore h a (j\<lparr>o_data := C_object t2\<rparr>)"
  have del: "json_object_object_del f h (Some a) k = Some (Inr ?h1)"
    using j t1(1) by (simp add: json_object_object_del_def jderef_def as_table_def set_table_eq)
  have "set_table ?h1 a t2 = ?h" by (simp add: set_table_def jstore_def)
  then have "json_object_object_add E f h (Some a) k p = Some (Inr ?h)"
    using del t1(2) E by (simp add: json_object_object_add_def jderef_def as_table_def c_strdup_def all_mem_def)
  moreover have h': "grows {a} h ?h" by (simp add: grows_def)
  moreover have "list_all2 (rep (Suc a) ?h) (map snd (es @ [(k, p)])) (map snd (kvs @ [(k, v)]))"
    using rep_grows [OF v h', of "Suc a"] reps_grow [OF j(8) h', of "Suc a"] by (simp add: list_all2_appendI)
  moreover have "json_object_ok (j\<lparr>o_data := C_object t2\<rparr>)"
    using j(3-5) t2 filled_table_ok by (fastforce simp: json_object_ok_def same_fns_def)
  ultimately show ?thesis
    using j t2(2) by (auto simp: part_object_def)
qed

section \<open>Strings\<close>

definition text_is :: "char list \<Rightarrow> parse_state \<Rightarrow> bool" where
  "text_is t p \<longleftrightarrow> (\<exists>pb. tok_pb (ps_tok p) = Some pb \<and> pb_text pb = t)"

lemma text_is_tick [simp]: "text_is t (tick p) = text_is t p"
  by (simp add: text_is_def tick_def)

lemma text_is_other [simp]:
  "text_is t (p\<lparr>ps_tok := on_top g u\<rparr>) = text_is t (p\<lparr>ps_tok := u\<rparr>)"
  "text_is t (p\<lparr>ps_tok := u\<lparr>st_pos := n\<rparr>\<rparr>) = text_is t (p\<lparr>ps_tok := u\<rparr>)"
  "text_is t (p\<lparr>ps_tok := u\<lparr>ucs_char := n'\<rparr>\<rparr>) = text_is t (p\<lparr>ps_tok := u\<rparr>)"
  "text_is t (p\<lparr>ps_tok := u\<lparr>is_double := b\<rparr>\<rparr>) = text_is t (p\<lparr>ps_tok := u\<rparr>)"
  "text_is t (p\<lparr>ps_tok := u\<lparr>quote_char := q\<rparr>\<rparr>) = text_is t (p\<lparr>ps_tok := u\<rparr>)"
  "text_is t (p\<lparr>ps_tok := u\<lparr>tok_pb := Some pb\<rparr>\<rparr>) \<longleftrightarrow> pb_text pb = t"
  by (simp_all add: text_is_def)

lemma append_text:
  assumes "all_mem E" "fine R p" "stands h bs s p" "text_is t p" "tok_pb u = tok_pb (ps_tok p)"
  obtains pb where "tok_append E b u = Inr (u\<lparr>tok_pb := Some pb\<rparr>)" "pb_text pb = t @ b" "pb_inv pb" "pb_terminated pb"
proof -
  obtain pb where pb: "tok_pb u = Some pb" "pb_inv pb" "pb_text pb = t"
    using assms(4,5) by (auto simp: text_is_def intro: stands_fine [OF assms(2,3)])
  show ?thesis by (rule tok_append_ok [OF assms(1) pb(1,2), of b]) (use that pb(3) in simp)
qed

lemma reset_text:
  assumes "fine R p" "stands h bs s p" "tok_pb u = tok_pb (ps_tok p)"
  obtains pb where "tok_pb_reset u = Inr (u\<lparr>tok_pb := Some pb\<rparr>)" "pb_text pb = []"
proof -
  obtain pb where pb: "tok_pb u = Some pb" "pb_inv pb" using assms by (auto intro: stands_fine [OF assms(1,2)])
  show ?thesis by (rule tok_pb_reset_ok [OF pb]) (use that in simp)
qed

lemma tok_text_stands:
  assumes "fine R p" "stands h bs s p" "text_is t p" "state s \<in> text_states"
  shows "tok_text (ps_tok p) = Inr (takeWhile (\<lambda>c. c \<noteq> NUL) t)"
proof -
  obtain pb where pb: "tok_pb (ps_tok p) = Some pb" "pb_inv pb" "pb_terminated pb"
    using stands_fine [OF assms(1,2)] assms(4) by metis
  show ?thesis using tok_text_ok [OF pb] assms(3) pb(1) by (simp add: text_is_def)
qed

text \<open>Inside a quoted text: a string or the name of a field.\<close>

definition quoting ::
  "json_heap \<Rightarrow> json_tokener_srec list \<Rightarrow> json_tokener_state \<Rightarrow> jptr \<Rightarrow> char list \<Rightarrow> parse_state \<Rightarrow> bool" where
  "quoting h bs st v t p \<longleftrightarrow> (\<exists>sv. stands h bs (lvl st sv v None) p) \<and> text_is t p \<and> quote_char (ps_tok p) = CHR 0x22"

definition text_state :: "json_tokener_state \<Rightarrow> bool" where
  "text_state st \<longleftrightarrow> st = json_tokener_state_string \<or> st = json_tokener_state_object_field"

lemma quote_tick [simp]: "quote_char (ps_tok (tick p)) = quote_char (ps_tok p)"
  "st_pos (ps_tok (tick p)) = st_pos (ps_tok p)" "ucs_char (ps_tok (tick p)) = ucs_char (ps_tok p)"
  "is_double (ps_tok (tick p)) = is_double (ps_tok p)"
  by (simp_all add: tick_def)

lemma quoting_plain:
  assumes st: "text_state st" and c: "c \<noteq> CHR 0x22" "c \<noteq> CHR 0x5C" "c \<noteq> NUL"
  shows "goes E f R (quoting h bs st v t) (c # cs) cs (quoting h bs st v (t @ [c]))"
proof (rule goes_break [OF _ c(3)])
  fix p assume E: "all_mem E" and p: "fine R p" and q: "quoting h bs st v t p"
  obtain sv where sv: "stands h bs (lvl st sv v None) p" "text_is t p" "quote_char (ps_tok p) = CHR 0x22"
    using q by (auto simp: quoting_def)
  obtain pb where pb: "tok_append E [c] (ps_tok p) = Inr ((ps_tok p)\<lparr>tok_pb := Some pb\<rparr>)" "pb_text pb = t @ [c]"
    by (rule append_text [OF E p sv(1,2) refl]) blast
  have "quoting h bs st v (t @ [c]) (tick (p\<lparr>ps_tok := (ps_tok p)\<lparr>tok_pb := Some pb\<rparr>\<rparr>))"
    using sv pb(2) by (auto simp: quoting_def)
  then show "\<exists>p1. dispatch E f c p = Some (Inr (Break, p1)) \<and> quoting h bs st v (t @ [c]) (tick p1)"
    using dispatch_at [OF p sv(1), of E f c] st c sv(3) pb(1)
    by (auto simp: text_state_def st_string_def st_object_field_def leave_def Let_def)
qed

text \<open>After the backslash.\<close>

definition escaping ::
  "json_heap \<Rightarrow> json_tokener_srec list \<Rightarrow> json_tokener_state \<Rightarrow> jptr \<Rightarrow> char list \<Rightarrow> parse_state \<Rightarrow> bool" where
  "escaping h bs st v t p \<longleftrightarrow> stands h bs (lvl json_tokener_state_string_escape st v None) p \<and> text_is t p
     \<and> quote_char (ps_tok p) = CHR 0x22"

lemma quoting_backslash:
  assumes st: "text_state st"
  shows "goes E f R (quoting h bs st v t) (CHR 0x5C # cs) cs (escaping h bs st v t)"
proof (rule goes_break)
  fix p assume p: "fine R p" and q: "quoting h bs st v t p"
  obtain sv where sv: "stands h bs (lvl st sv v None) p" "text_is t p" "quote_char (ps_tok p) = CHR 0x22"
    using q by (auto simp: quoting_def)
  have "escaping h bs st v t (tick (p\<lparr>ps_tok :=
      on_top (\<lambda>s. s\<lparr>state := json_tokener_state_string_escape, saved_state := st\<rparr>) (ps_tok p)\<rparr>))"
    using stands_on_top [OF p sv(1), of "\<lambda>s. s\<lparr>state := json_tokener_state_string_escape, saved_state := st\<rparr>"] sv(2,3)
    by (simp add: escaping_def)
  then show "\<exists>p1. dispatch E f (CHR 0x5C) p = Some (Inr (Break, p1)) \<and> escaping h bs st v t (tick p1)"
    using dispatch_at [OF p sv(1), of E f "CHR 0x5C"] st sv(3)
    by (auto simp: text_state_def st_string_def st_object_field_def leave_def Let_def)
qed simp

lemma escaping_short:
  assumes c: "(e, c) \<in> {(CHR 0x22, CHR 0x22), (CHR 0x5C, CHR 0x5C), (CHR ''/'', CHR ''/''), (CHR ''b'', CHR 0x08),
      (CHR ''n'', CHR 0x0A), (CHR ''r'', CHR 0x0D), (CHR ''t'', CHR 0x09)}"
  shows "goes E f R (escaping h bs st v t) (e # cs) cs (quoting h bs st v (t @ [c]))"
proof (rule goes_break)
  fix p assume E: "all_mem E" and p: "fine R p" and q: "escaping h bs st v t p"
  let ?s = "lvl json_tokener_state_string_escape st v None"
  have sv: "stands h bs ?s p" "text_is t p" "quote_char (ps_tok p) = CHR 0x22" using q by (auto simp: escaping_def)
  obtain pb where pb: "tok_append E [c] (ps_tok p) = Inr ((ps_tok p)\<lparr>tok_pb := Some pb\<rparr>)" "pb_text pb = t @ [c]"
    by (rule append_text [OF E p sv(1,2) refl]) blast
  let ?u = "(ps_tok p)\<lparr>tok_pb := Some pb\<rparr>"
  have "stands h bs (lvl st st v None) (p\<lparr>ps_tok := go st ?u\<rparr>)"
    unfolding go_def using stands_on_top_of [OF p sv(1), of ?u "\<lambda>s. s\<lparr>state := st\<rparr>"] by simp
  then have "quoting h bs st v (t @ [c]) (tick (p\<lparr>ps_tok := go st ?u\<rparr>))"
    using sv(3) pb(2) by (auto simp: quoting_def go_def)
  moreover have "dispatch E f e p = Some (Inr (Break, p\<lparr>ps_tok := go st ?u\<rparr>))"
    using c dispatch_at [OF p sv(1), of E f e] pb(1)
    by (elim insertE emptyE; simp add: st_string_escape_def leave_def Let_def)
  ultimately show "\<exists>p1. dispatch E f e p = Some (Inr (Break, p1)) \<and> quoting h bs st v (t @ [c]) (tick p1)" by blast
qed (use c in auto)

text \<open>Four hexadecimal digits.\<close>

lemma ucs_on_top [simp]: "ucs_char (on_top g u) = ucs_char u"
  by (simp add: on_top_def)

definition in_unicode ::
  "json_heap \<Rightarrow> json_tokener_srec list \<Rightarrow> json_tokener_state \<Rightarrow> jptr \<Rightarrow> char list \<Rightarrow> nat \<Rightarrow> 32 word \<Rightarrow> parse_state \<Rightarrow> bool" where
  "in_unicode h bs st v t n u p \<longleftrightarrow> stands h bs (lvl json_tokener_state_escape_unicode st v None) p \<and> text_is t p
     \<and> quote_char (ps_tok p) = CHR 0x22 \<and> st_pos (ps_tok p) = n \<and> ucs_char (ps_tok p) = u"

lemma escaping_unicode:
  "goes E f R (escaping h bs st v t) (CHR ''u'' # cs) cs (in_unicode h bs st v t 0 0)"
proof (rule goes_break)
  fix p assume p: "fine R p" and q: "escaping h bs st v t p"
  have sv: "stands h bs (lvl json_tokener_state_string_escape st v None) p" "text_is t p"
    "quote_char (ps_tok p) = CHR 0x22" using q by (auto simp: escaping_def)
  let ?u = "(ps_tok p)\<lparr>ucs_char := 0, st_pos := 0\<rparr>"
  have "in_unicode h bs st v t 0 0 (tick (p\<lparr>ps_tok := go json_tokener_state_escape_unicode ?u\<rparr>))"
    using stands_on_top_of [OF p sv(1), of ?u "\<lambda>s. s\<lparr>state := json_tokener_state_escape_unicode\<rparr>"] sv(2,3)
    by (simp add: in_unicode_def go_def)
  then show "\<exists>p1. dispatch E f (CHR ''u'') p = Some (Inr (Break, p1)) \<and> in_unicode h bs st v t 0 0 (tick p1)"
    using dispatch_at [OF p sv(1), of E f "CHR ''u''"] by (auto simp: st_string_escape_def leave_def Let_def)
qed simp

lemma hex_value: "n < 16 \<Longrightarrow> hexdigit (json_hex_chars ! n) = int n"
proof -
  assume n: "n < 16"
  have "map hexdigit json_hex_chars = map int [0..<16]" by code_simp
  then have "map hexdigit json_hex_chars ! n = map int [0..<16] ! n" by (rule arg_cong)
  moreover have "n < length json_hex_chars" "n < length [0..<16]" using n by (simp_all add: json_hex_chars_def)
  ultimately show ?thesis using n by (simp only: nth_map nth_upt)
qed

lemma in_unicode_digit:
  assumes d: "d < 16" and n: "n < 3"
  shows "goes E f R (in_unicode h bs st v t n u) (json_hex_chars ! d # cs) cs
    (in_unicode h bs st v t (n + 1) (u + push_bit ((3 - n) * 4) (of_nat d)))"
proof (rule goes_break)
  let ?c = "json_hex_chars ! d"
  have mem: "?c \<in> set json_hex_chars" by (rule hex_char_in [OF d])
  then show "?c \<noteq> NUL" by (auto simp: json_hex_chars_def)
  fix p assume p: "fine R p" and q: "in_unicode h bs st v t n u p"
  have sv: "stands h bs (lvl json_tokener_state_escape_unicode st v None) p" "text_is t p"
    "quote_char (ps_tok p) = CHR 0x22" "st_pos (ps_tok p) = n" "ucs_char (ps_tok p) = u" using q by (auto simp: in_unicode_def)
  let ?u = "u + push_bit ((3 - n) * 4) (of_nat d)"
  let ?p = "p\<lparr>ps_tok := (ps_tok p)\<lparr>ucs_char := ?u, st_pos := n + 1\<rparr>\<rparr>"
  have "in_unicode h bs st v t (n + 1) ?u (tick ?p)"
    using sv by (simp add: in_unicode_def)
  moreover have "dispatch E f ?c p = Some (Inr (Break, ?p))"
    using dispatch_at [OF p sv(1), of E f ?c] mem n sv(4,5) hex_value [OF d]
    by (simp add: st_escape_unicode_def leave_def Let_def c_strchr_def)
  ultimately show "\<exists>p1. dispatch E f ?c p = Some (Inr (Break, p1)) \<and> in_unicode h bs st v t (n + 1) ?u (tick p1)" by blast
qed

lemma in_unicode_last:
  assumes d: "d < 16"
  shows "goes E f R (in_unicode h bs st v t 3 u) (json_hex_chars ! d # cs) cs
    (quoting h bs st v (t @ utf_out (u + of_nat d)))"
proof (rule goes_break)
  let ?c = "json_hex_chars ! d"
  have mem: "?c \<in> set json_hex_chars" by (rule hex_char_in [OF d])
  then show "?c \<noteq> NUL" by (auto simp: json_hex_chars_def)
  fix p assume E: "all_mem E" and p: "fine R p" and q: "in_unicode h bs st v t 3 u p"
  have sv: "stands h bs (lvl json_tokener_state_escape_unicode st v None) p" "text_is t p"
    "quote_char (ps_tok p) = CHR 0x22" "st_pos (ps_tok p) = 3" "ucs_char (ps_tok p) = u" using q by (auto simp: in_unicode_def)
  let ?t = "(ps_tok p)\<lparr>ucs_char := u + of_nat d, st_pos := 4\<rparr>" and ?b = "utf_out (u + of_nat d)"
  obtain pb where pb: "tok_append E ?b ?t = Inr (?t\<lparr>tok_pb := Some pb\<rparr>)" "pb_text pb = t @ ?b"
    by (rule append_text [OF E p sv(1,2), of ?t]) auto
  let ?p = "p\<lparr>ps_tok := go st (?t\<lparr>tok_pb := Some pb\<rparr>)\<rparr>"
  have "stands h bs (lvl st st v None) ?p"
    unfolding go_def using stands_on_top_of [OF p sv(1), of "?t\<lparr>tok_pb := Some pb\<rparr>" "\<lambda>s. s\<lparr>state := st\<rparr>"] by simp
  then have "quoting h bs st v (t @ ?b) (tick ?p)"
    using sv(3) pb(2) by (auto simp: quoting_def go_def)
  moreover have "dispatch E f ?c p = Some (Inr (Break, ?p))"
    using dispatch_at [OF p sv(1), of E f ?c] mem sv(4,5) hex_value [OF d] pb(1)
    by (simp add: st_escape_unicode_def leave_def Let_def c_strchr_def)
  ultimately show "\<exists>p1. dispatch E f ?c p = Some (Inr (Break, p1)) \<and> quoting h bs st v (t @ ?b) (tick p1)" by blast
qed

text \<open>What \<open>json_escape_str\<close> wrote for a character is read as this character.\<close>

lemma utf_out_ascii:
  assumes "n < 128"
  shows "utf_out (of_nat n) = [char_of n]"
proof -
  have "unat (of_nat n :: 32 word) = n" using assms by (simp add: unat_of_nat)
  moreover from this have "(of_nat n :: 32 word) < 0x80" using assms by (simp add: word_less_nat_alt)
  ultimately show ?thesis by (simp add: utf_out_def utf_byte_def)
qed

lemma goes_esc_char:
  assumes st: "text_state st" and c: "c \<noteq> NUL"
  shows "goes E f R (quoting h bs st v t) (esc_char c @ cs) cs (quoting h bs st v (t @ [c]))"
proof (cases "short_escape c")
  case (Some x)
  then obtain e where e: "esc_char c = [CHR 0x5C, e]"
      "(e, c) \<in> {(CHR 0x22, CHR 0x22), (CHR 0x5C, CHR 0x5C), (CHR ''/'', CHR ''/''), (CHR ''b'', CHR 0x08),
      (CHR ''n'', CHR 0x0A), (CHR ''r'', CHR 0x0D), (CHR ''t'', CHR 0x09)}"
    by (auto simp: esc_char_def short_escape_def split: if_splits)
  show ?thesis unfolding e(1) append.simps
    by (rule goes_trans [OF quoting_backslash [OF st] escaping_short [OF e(2)]])
next
  case None
  show ?thesis
  proof (cases "(of_char c :: nat) < 32")
    case False
    then have "esc_char c = [c]" using None by (simp add: esc_char_def)
    moreover have "c \<noteq> CHR 0x22" "c \<noteq> CHR 0x5C" using None by (auto simp: short_escape_def)
    ultimately show ?thesis using quoting_plain [OF st _ _ c] by simp
  next
    case True
    define hi lo where "hi = (of_char c :: nat) div 16" and "lo = (of_char c :: nat) mod 16"
    have d: "hi < 16" "lo < 16" using True by (simp_all add: hi_def lo_def)
    have zero: "CHR ''0'' = json_hex_chars ! 0" by (simp add: json_hex_chars_def)
    have split: "esc_char c @ cs = CHR 0x5C # CHR ''u'' # json_hex_chars ! 0 # json_hex_chars ! 0 # json_hex_chars ! hi
        # json_hex_chars ! lo # cs"
      using True None unfolding zero [symmetric] by (simp add: esc_char_def hex_escape_digits hi_def lo_def)
    let ?u = "push_bit 4 (of_nat hi) :: 32 word"
    have code: "(?u + of_nat lo :: 32 word) = of_nat (of_char c)"
    proof -
      have "(?u + of_nat lo :: 32 word) = of_nat (hi * 16 + lo)" by (simp add: push_bit_eq_mult mult.commute)
      then show ?thesis by (simp add: hi_def lo_def)
    qed
    let ?U = "in_unicode h bs st v t" and ?rest = "json_hex_chars ! lo # cs"
    have 0: "goes E f R (?U 0 0) (json_hex_chars ! 0 # xs) xs (?U 1 0)" for xs
      using in_unicode_digit [where d = 0 and n = 0 and u = 0] by simp
    have 1: "goes E f R (?U 1 0) (json_hex_chars ! 0 # xs) xs (?U 2 0)" for xs
      using in_unicode_digit [where d = 0 and n = 1 and u = 0] by (simp add: numeral_2_eq_2)
    have 2: "goes E f R (?U 2 0) (json_hex_chars ! hi # xs) xs (?U 3 ?u)" for xs
      using in_unicode_digit [where d = hi and n = 2 and u = 0] d(1) by simp
    have "goes E f R (quoting h bs st v t) (esc_char c @ cs) ?rest (?U 3 ?u)"
      unfolding split
      by (rule goes_trans [OF quoting_backslash [OF st] goes_trans [OF escaping_unicode goes_trans [OF 0 goes_trans [OF 1 2]]]])
    from goes_trans [OF this in_unicode_last [OF d(2)]] show ?thesis
      using utf_out_ascii [of "of_char c"] True by (simp add: code)
  qed
qed

lemma goes_esc:
  assumes st: "text_state st"
  shows "NUL \<notin> set s \<Longrightarrow> goes E f R (quoting h bs st v t) (esc s @ cs) cs (quoting h bs st v (t @ s))"
proof (induction s arbitrary: t)
  case Nil
  then show ?case by (simp add: esc_def goes_id)
next
  case (Cons c s)
  have "goes E f R (quoting h bs st v t) (esc_char c @ esc s @ cs) cs (quoting h bs st v ((t @ [c]) @ s))"
    by (rule goes_trans [OF goes_esc_char [OF st] Cons.IH]) (use Cons.prems in auto)
  then show ?case by (simp add: esc_def)
qed

end
