(* ===== verification/Json_Roundtrip.thy ===== *)
theory Json_Roundtrip
  imports Json_Read
begin

text \<open>
  Reading back what \<open>json_object_to_json_string\<close> wrote: the parser, given the text of a value, builds an
  object that stands for this value, and the store is otherwise as it was.
\<close>

section \<open>Strings and names\<close>

lemma goes_start_string:
  "goes E f R (stands h bs (lvl json_tokener_state_start sv None None)) (CHR 0x22 # cs) cs
     (quoting h bs json_tokener_state_string None [])"
proof (rule goes_break)
  fix p assume p: "fine R p" "stands h bs (lvl json_tokener_state_start sv None None) p"
  let ?t = "go json_tokener_state_string (ps_tok p)"
  obtain pb where pb: "tok_pb_reset ?t = Inr (?t\<lparr>tok_pb := Some pb\<rparr>)" "pb_text pb = []"
    by (rule reset_text [OF p, of ?t]) (simp add: go_def)
  let ?p = "p\<lparr>ps_tok := ?t\<lparr>tok_pb := Some pb, quote_char := CHR 0x22\<rparr>\<rparr>"
  have "stands h bs (lvl json_tokener_state_string sv None None) ?p"
    using stands_on_top [OF p, of "\<lambda>s. s\<lparr>state := json_tokener_state_string\<rparr>"] by (simp add: go_def)
  then have "quoting h bs json_tokener_state_string None [] (tick ?p)"
    using pb(2) by (auto simp: quoting_def)
  then show "\<exists>p1. dispatch E f (CHR 0x22) p = Some (Inr (Break, p1)) \<and> quoting h bs json_tokener_state_string None [] (tick p1)"
    using dispatch_at [OF p, of E f "CHR 0x22"] pb(1) by (simp add: st_start_def leave_def Let_def)
qed simp

lemma goes_start_field:
  "goes E f R (stands h bs (lvl json_tokener_state_object_field_start sv v None)) (CHR 0x22 # cs) cs
     (quoting h bs json_tokener_state_object_field v [])"
proof (rule goes_break)
  fix p assume p: "fine R p" "stands h bs (lvl json_tokener_state_object_field_start sv v None) p"
  let ?t = "(ps_tok p)\<lparr>quote_char := CHR 0x22\<rparr>"
  obtain pb where pb: "tok_pb_reset ?t = Inr (?t\<lparr>tok_pb := Some pb\<rparr>)" "pb_text pb = []"
    by (rule reset_text [OF p, of ?t]) simp
  let ?p = "p\<lparr>ps_tok := go json_tokener_state_object_field (?t\<lparr>tok_pb := Some pb\<rparr>)\<rparr>"
  have "stands h bs (lvl json_tokener_state_object_field sv v None) ?p"
    unfolding go_def
    using stands_on_top_of [OF p, of "?t\<lparr>tok_pb := Some pb\<rparr>" "\<lambda>s. s\<lparr>state := json_tokener_state_object_field\<rparr>"] by simp
  then have "quoting h bs json_tokener_state_object_field v [] (tick ?p)"
    using pb(2) by (auto simp: quoting_def go_def)
  then show "\<exists>p1. dispatch E f (CHR 0x22) p = Some (Inr (Break, p1)) \<and> quoting h bs json_tokener_state_object_field v [] (tick p1)"
    using dispatch_at [OF p, of E f "CHR 0x22"] pb(1) by (simp add: st_object_field_start_def leave_def Let_def)
qed simp

lemma quoting_text:
  assumes "fine R p" "quoting h bs st v t p" "text_state st" "NUL \<notin> set t"
  shows "tok_text (ps_tok p) = Inr t" "quote_char (ps_tok p) = CHR 0x22"
proof -
  obtain sv where sv: "stands h bs (lvl st sv v None) p" "text_is t p" "quote_char (ps_tok p) = CHR 0x22"
    using assms(2) by (auto simp: quoting_def)
  have "st \<in> text_states" using assms(3) by (auto simp: text_state_def text_states_def)
  then show "tok_text (ps_tok p) = Inr t"
    using tok_text_stands [OF assms(1) sv(1,2)] takeWhile_no_nul [OF assms(4)] by simp
  show "quote_char (ps_tok p) = CHR 0x22" by (rule sv(3))
qed

lemma goes_end_field:
  assumes k: "NUL \<notin> set k"
  shows "goes E f R (quoting h bs json_tokener_state_object_field v k) (CHR 0x22 # cs) cs
     (stands h bs (lvl json_tokener_state_eatws json_tokener_state_object_field_end v (Some k)))"
proof (rule goes_break)
  fix p assume E: "all_mem E" and p: "fine R p" and q: "quoting h bs json_tokener_state_object_field v k p"
  obtain sv where sv: "stands h bs (lvl json_tokener_state_object_field sv v None) p" using q by (auto simp: quoting_def)
  have str: "tok_text (ps_tok p) = Inr k" "quote_char (ps_tok p) = CHR 0x22"
    using quoting_text [OF p q _ k] by (simp_all add: text_state_def)
  let ?u = "on_top (\<lambda>s. s\<lparr>obj_field_name := Some k\<rparr>) (ps_tok p)"
  let ?p = "p\<lparr>ps_tok := go_eatws json_tokener_state_object_field_end ?u\<rparr>"
  have "stands h bs (lvl json_tokener_state_eatws json_tokener_state_object_field_end v (Some k)) ?p"
    using sv p by (auto simp: stands_def go_eatws_def fine_def ps_ok_def shape_ok_def)
  then show "\<exists>p1. dispatch E f (CHR 0x22) p = Some (Inr (Break, p1))
      \<and> stands h bs (lvl json_tokener_state_eatws json_tokener_state_object_field_end v (Some k)) (tick p1)"
    using dispatch_at [OF p sv, of E f "CHR 0x22"] str E
    by (simp add: st_object_field_def leave_def Let_def c_strdup_def all_mem_def)
qed simp

section \<open>New values\<close>

text \<open>A value is done: it is the current one of its level, and the store only grew.\<close>

definition done_with :: "json_heap \<Rightarrow> json_tokener_srec list \<Rightarrow> jvalue \<Rightarrow> parse_state \<Rightarrow> bool" where
  "done_with h bs v p \<longleftrightarrow> (\<exists>h' vp. stands h' bs (lvl json_tokener_state_eatws json_tokener_state_finish vp None) p
     \<and> grows {} h h' \<and> rep (next_addr h) h' vp v)"

lemma done_with_tick [simp]: "done_with h bs v (tick p) = done_with h bs v p"
  by (simp add: done_with_def)

lemma fresh_addr:
  assumes "fine R p" "stands h bs s p"
  shows "objs h (next_addr h) = None"
proof -
  have "\<forall>a \<in> dom (objs h). a < next_addr h" using assms by (auto simp: fine_def ps_ok_def counts_ok_def stands_def)
  then show ?thesis by (meson domIff less_irrefl)
qed

lemma setup_grows:
  assumes "all_mem E" "objs h (next_addr h) = None"
  shows "grows {} h (snd (json_setup (json_object_new E h ty) g))"
  using assms by (auto simp: grows_def json_setup_def json_object_new_def all_mem_def)

lemma new_current_done:
  assumes p: "fine R p" "stands h bs (lvl st sv u None) p"
    and r: "grows {} h (snd r)" "rep (next_addr h) (snd r) (fst r) v"
  shows "\<exists>p1. new_current json_tokener_state_finish w p r = Some (Inr (w, p1)) \<and> done_with h bs v p1"
proof -
  let ?p = "p\<lparr>ps_tok := set_current (fst r) (go_eatws json_tokener_state_finish (ps_tok p)), ps_heap := snd r\<rparr>"
  have "stands (snd r) bs (lvl json_tokener_state_eatws json_tokener_state_finish (fst r) None) ?p"
    using p by (auto simp: stands_def set_current_def go_eatws_def fine_def ps_ok_def shape_ok_def)
  then show ?thesis using r by (auto simp: new_current_def done_with_def)
qed

lemma goes_end_string:
  assumes s: "NUL \<notin> set s"
  shows "goes E f R (quoting h bs json_tokener_state_string None s) (CHR 0x22 # cs) cs (done_with h bs (JString s))"
proof (rule goes_break)
  fix p assume E: "all_mem E" and p: "fine R p" and q: "quoting h bs json_tokener_state_string None s p"
  obtain sv where sv: "stands h bs (lvl json_tokener_state_string sv None None) p" using q by (auto simp: quoting_def)
  have str: "tok_text (ps_tok p) = Inr s" "quote_char (ps_tok p) = CHR 0x22"
    using quoting_text [OF p q _ s] by (simp_all add: text_state_def)
  have h: "ps_heap p = h" using sv by (simp add: stands_def)
  obtain h' where h': "json_object_new_string E h s = (Some (next_addr h), h')" "rep (next_addr h) h' (Some (next_addr h)) (JString s)"
    using new_values_rep(4) [OF E] by blast
  have "grows {} h (snd (json_object_new_string E h s))"
    unfolding json_object_new_string_def by (rule setup_grows [OF E fresh_addr [OF p sv]])
  then obtain p1 where "new_current json_tokener_state_finish Break p (json_object_new_string E h s) = Some (Inr (Break, p1))"
      "done_with h bs (JString s) p1"
    using new_current_done [OF p sv, of "json_object_new_string E h s" "JString s" Break] h' by auto
  then show "\<exists>p1. dispatch E f (CHR 0x22) p = Some (Inr (Break, p1)) \<and> done_with h bs (JString s) (tick p1)"
    using dispatch_at [OF p sv, of E f "CHR 0x22"] str h by (simp add: st_string_def Let_def)
qed simp

section \<open>Numbers\<close>

definition numbering :: "json_heap \<Rightarrow> json_tokener_srec list \<Rightarrow> char list \<Rightarrow> bool \<Rightarrow> parse_state \<Rightarrow> bool" where
  "numbering h bs t d p \<longleftrightarrow> (\<exists>sv. stands h bs (lvl json_tokener_state_number sv None None) p) \<and> text_is t p
     \<and> is_double (ps_tok p) = d"

definition starts_number :: "char \<Rightarrow> bool" where
  "starts_number c \<longleftrightarrow> c_isdigit c \<or> c = CHR ''-''"

definition point_or_exp :: "char \<Rightarrow> bool" where
  "point_or_exp c \<longleftrightarrow> c = CHR ''.'' \<or> c = CHR ''e'' \<or> c = CHR ''E''"

definition stops :: "char \<Rightarrow> bool" where
  "stops c \<longleftrightarrow> c \<notin> set json_number_chars"

lemma goes_start_number:
  assumes c: "starts_number c"
  shows "goes E f R (stands h bs (lvl json_tokener_state_start sv None None)) (c # cs) (c # cs) (numbering h bs [] False)"
proof (rule goes_redo)
  fix p assume p: "fine R p" "stands h bs (lvl json_tokener_state_start sv None None) p"
  let ?t = "go json_tokener_state_number (ps_tok p)"
  obtain pb where pb: "tok_pb_reset ?t = Inr (?t\<lparr>tok_pb := Some pb\<rparr>)" "pb_text pb = []"
    by (rule reset_text [OF p, of ?t]) (simp add: go_def)
  let ?p = "p\<lparr>ps_tok := ?t\<lparr>tok_pb := Some pb, is_double := False\<rparr>\<rparr>"
  have "stands h bs (lvl json_tokener_state_number sv None None) ?p"
    using stands_on_top [OF p, of "\<lambda>s. s\<lparr>state := json_tokener_state_number\<rparr>"] by (simp add: go_def)
  then have "numbering h bs [] False ?p" using pb(2) by (auto simp: numbering_def)
  moreover have "c \<notin> set ''{[NnTtFf'' \<union> {CHR 0x22, CHR 0x27}" using c by (auto simp: starts_number_def c_isdigit_def)
  ultimately show "\<exists>p1. dispatch E f c p = Some (Inr (Redo, p1)) \<and> numbering h bs [] False p1"
    using dispatch_at [OF p, of E f c] pb(1) c by (simp add: st_start_def leave_def Let_def starts_number_def)
qed

lemma goes_number_char:
  assumes c: "c \<in> set json_number_chars"
  shows "goes E f R (numbering h bs t d) (c # cs) cs (numbering h bs (t @ [c]) (d \<or> point_or_exp c))"
proof (rule goes_break)
  show nul: "c \<noteq> NUL" using c by (auto simp: json_number_chars_def)
  fix p assume E: "all_mem E" and p: "fine R p" and q: "numbering h bs t d p"
  obtain sv where sv: "stands h bs (lvl json_tokener_state_number sv None None) p" "text_is t p" "is_double (ps_tok p) = d"
    using q by (auto simp: numbering_def)
  obtain pb where pb: "tok_append E [c] (ps_tok p) = Inr ((ps_tok p)\<lparr>tok_pb := Some pb\<rparr>)" "pb_text pb = t @ [c]"
    by (rule append_text [OF E p sv(1,2) refl]) blast
  let ?u = "(ps_tok p)\<lparr>tok_pb := Some pb\<rparr>"
  let ?p = "p\<lparr>ps_tok := if point_or_exp c then ?u\<lparr>is_double := True\<rparr> else ?u\<rparr>"
  have "numbering h bs (t @ [c]) (d \<or> point_or_exp c) (tick ?p)" using sv pb(2) by (auto simp: numbering_def)
  moreover have "dispatch E f c p = Some (Inr (Break, ?p))"
    using dispatch_at [OF p sv(1), of E f c] c nul pb(1)
    by (simp add: st_number_def leave_def Let_def c_strchr_def point_or_exp_def)
  ultimately show "\<exists>p1. dispatch E f c p = Some (Inr (Break, p1)) \<and> numbering h bs (t @ [c]) (d \<or> point_or_exp c) (tick p1)"
    by blast
qed

lemma goes_number:
  "set ds \<subseteq> set json_number_chars
    \<Longrightarrow> goes E f R (numbering h bs t d) (ds @ cs) cs (numbering h bs (t @ ds) (d \<or> (\<exists>c \<in> set ds. point_or_exp c)))"
proof (induction ds arbitrary: t d)
  case Nil
  then show ?case by (simp add: goes_id)
next
  case (Cons c ds)
  have "goes E f R (numbering h bs t d) (c # ds @ cs) cs
      (numbering h bs ((t @ [c]) @ ds) ((d \<or> point_or_exp c) \<or> (\<exists>c \<in> set ds. point_or_exp c)))"
    by (rule goes_trans [OF goes_number_char Cons.IH]) (use Cons.prems in auto)
  then show ?case by simp
qed

text \<open>The character that ends a number is looked at again.\<close>

lemma numbering_text:
  assumes "fine R p" "numbering h bs t d p" "NUL \<notin> set t"
  obtains sv where "stands h bs (lvl json_tokener_state_number sv None None) p" "tok_text (ps_tok p) = Inr t"
    "is_double (ps_tok p) = d" "ps_heap p = h"
proof -
  obtain sv where sv: "stands h bs (lvl json_tokener_state_number sv None None) p" "text_is t p" "is_double (ps_tok p) = d"
    using assms(2) by (auto simp: numbering_def)
  have "tok_text (ps_tok p) = Inr t"
    using tok_text_stands [OF assms(1) sv(1,2)] takeWhile_no_nul [OF assms(3)] by (simp add: text_states_def)
  moreover have "ps_heap p = h" using sv(1) by (simp add: stands_def)
  ultimately show ?thesis using that sv by blast
qed

lemma number_no_nul: "set t \<subseteq> set json_number_chars \<Longrightarrow> NUL \<notin> set t"
  by (auto simp: json_number_chars_def)

lemma goes_end_int:
  assumes c: "stops c" and t: "set t \<subseteq> set json_number_chars" "scan_d t = Some i"
  shows "goes E f R (numbering h bs t False) (c # cs) (c # cs) (done_with h bs (JInt i))"
proof (rule goes_redo)
  fix p assume E: "all_mem E" and p: "fine R p" and q: "numbering h bs t False p"
  obtain sv where sv: "stands h bs (lvl json_tokener_state_number sv None None) p" "tok_text (ps_tok p) = Inr t"
    "is_double (ps_tok p) = False" "ps_heap p = h" by (rule numbering_text [OF p q number_no_nul [OF t(1)]])
  obtain h' where h': "json_object_new_int E h i = (Some (next_addr h), h')" "rep (next_addr h) h' (Some (next_addr h)) (JInt i)"
    using new_values_rep(2) [OF E] by blast
  have "grows {} h (snd (json_object_new_int E h i))"
    unfolding json_object_new_int_def by (rule setup_grows [OF E fresh_addr [OF p sv(1)]])
  then obtain p1 where "new_current json_tokener_state_finish Redo p (json_object_new_int E h i) = Some (Inr (Redo, p1))"
      "done_with h bs (JInt i) p1"
    using new_current_done [OF p sv(1), of "json_object_new_int E h i" "JInt i" Redo] h' by auto
  then show "\<exists>p1. dispatch E f c p = Some (Inr (Redo, p1)) \<and> done_with h bs (JInt i) p1"
    using dispatch_at [OF p sv(1), of E f c] sv c t(2) by (simp add: st_number_def Let_def c_strchr_def stops_def)
qed

lemma goes_end_double:
  assumes c: "stops c" and t: "set t \<subseteq> set json_number_chars" "scan_lf E t = Some x"
  shows "goes E f R (numbering h bs t True) (c # cs) (c # cs) (done_with h bs (JDouble x))"
proof (rule goes_redo)
  fix p assume E: "all_mem E" and p: "fine R p" and q: "numbering h bs t True p"
  obtain sv where sv: "stands h bs (lvl json_tokener_state_number sv None None) p" "tok_text (ps_tok p) = Inr t"
    "is_double (ps_tok p) = True" "ps_heap p = h" by (rule numbering_text [OF p q number_no_nul [OF t(1)]])
  obtain h' where h': "json_object_new_double E h x = (Some (next_addr h), h')"
      "rep (next_addr h) h' (Some (next_addr h)) (JDouble x)"
    using new_values_rep(3) [OF E] by blast
  have "grows {} h (snd (json_object_new_double E h x))"
    unfolding json_object_new_double_def by (rule setup_grows [OF E fresh_addr [OF p sv(1)]])
  then obtain p1 where "new_current json_tokener_state_finish Redo p (json_object_new_double E h x) = Some (Inr (Redo, p1))"
      "done_with h bs (JDouble x) p1"
    using new_current_done [OF p sv(1), of "json_object_new_double E h x" "JDouble x" Redo] h' by auto
  then show "\<exists>p1. dispatch E f c p = Some (Inr (Redo, p1)) \<and> done_with h bs (JDouble x) p1"
    using dispatch_at [OF p sv(1), of E f c] sv c t(2) by (simp add: st_number_def Let_def c_strchr_def stops_def)
qed

section \<open>Literals\<close>

definition spelling ::
  "json_heap \<Rightarrow> json_tokener_srec list \<Rightarrow> json_tokener_state \<Rightarrow> char list \<Rightarrow> parse_state \<Rightarrow> bool" where
  "spelling h bs st t p \<longleftrightarrow> (\<exists>sv. stands h bs (lvl st sv None None) p) \<and> text_is t p \<and> st_pos (ps_tok p) = length t"

text \<open>What is compared after \<open>c\<close> was appended.\<close>

definition spells :: "char list \<Rightarrow> char list \<Rightarrow> bool" where
  "spells lit t \<longleftrightarrow> c_strncaseeq lit (takeWhile (\<lambda>c. c \<noteq> NUL) t) (min (length t) (length lit))"

lemma spelling_append:
  assumes E: "all_mem E" and p: "fine R p" "spelling h bs st t p"
  obtains sv pb where "stands h bs (lvl st sv None None) p" "tok_append E [c] (ps_tok p) = Inr ((ps_tok p)\<lparr>tok_pb := Some pb\<rparr>)"
    "pb_text pb = t @ [c]" "st_pos (ps_tok p) = length t" "ps_heap p = h"
    "\<forall>lit. literal_so_far lit ((ps_tok p)\<lparr>tok_pb := Some pb\<rparr>) = Inr (spells lit (t @ [c]))"
proof -
  obtain sv where sv: "stands h bs (lvl st sv None None) p" "text_is t p" "st_pos (ps_tok p) = length t"
    using p(2) by (auto simp: spelling_def)
  obtain pb where pb: "tok_append E [c] (ps_tok p) = Inr ((ps_tok p)\<lparr>tok_pb := Some pb\<rparr>)" "pb_text pb = t @ [c]"
      "pb_inv pb" "pb_terminated pb"
    by (rule append_text [OF E p(1) sv(1,2) refl]) blast
  have "\<forall>lit. literal_so_far lit ((ps_tok p)\<lparr>tok_pb := Some pb\<rparr>) = Inr (spells lit (t @ [c]))"
    using tok_text_ok [of "(ps_tok p)\<lparr>tok_pb := Some pb\<rparr>" pb] pb sv(3) by (simp add: literal_so_far_def spells_def)
  moreover have "ps_heap p = h" using sv(1) by (simp add: stands_def)
  ultimately show ?thesis using that [OF sv(1) pb(1,2) sv(3)] by blast
qed

lemma goes_start_literal:
  assumes c: "c = CHR ''n'' \<and> st = json_tokener_state_null \<or> (c = CHR ''t'' \<or> c = CHR ''f'') \<and> st = json_tokener_state_boolean"
  shows "goes E f R (stands h bs (lvl json_tokener_state_start sv None None)) (c # cs) (c # cs) (spelling h bs st [])"
proof (rule goes_redo)
  fix p assume p: "fine R p" "stands h bs (lvl json_tokener_state_start sv None None) p"
  let ?t = "go st (ps_tok p)"
  obtain pb where pb: "tok_pb_reset ?t = Inr (?t\<lparr>tok_pb := Some pb\<rparr>)" "pb_text pb = []"
    by (rule reset_text [OF p, of ?t]) (simp add: go_def)
  let ?p = "p\<lparr>ps_tok := ?t\<lparr>tok_pb := Some pb, st_pos := 0\<rparr>\<rparr>"
  have "stands h bs (lvl st sv None None) ?p"
    using stands_on_top [OF p, of "\<lambda>s. s\<lparr>state := st\<rparr>"] by (simp add: go_def)
  then have "spelling h bs st [] ?p" using pb(2) by (auto simp: spelling_def)
  moreover have "dispatch E f c p = Some (Inr (Redo, ?p))"
    using dispatch_at [OF p, of E f c] pb(1) c by (elim disjE conjE; simp add: st_start_def leave_def Let_def)
  ultimately show "\<exists>p1. dispatch E f c p = Some (Inr (Redo, p1)) \<and> spelling h bs st [] p1" by blast
qed

lemma goes_null_char:
  assumes "spells ''null'' (t @ [c])" "length t < 4" "c \<noteq> NUL"
  shows "goes E f R (spelling h bs json_tokener_state_null t) (c # cs) cs (spelling h bs json_tokener_state_null (t @ [c]))"
proof (rule goes_break [OF _ assms(3)])
  fix p assume E: "all_mem E" and p: "fine R p" and q: "spelling h bs json_tokener_state_null t p"
  obtain sv pb where sv: "stands h bs (lvl json_tokener_state_null sv None None) p" "tok_append E [c] (ps_tok p) = Inr ((ps_tok p)\<lparr>tok_pb := Some pb\<rparr>)"
    "pb_text pb = t @ [c]" "st_pos (ps_tok p) = length t" "ps_heap p = h"
    "\<forall>lit. literal_so_far lit ((ps_tok p)\<lparr>tok_pb := Some pb\<rparr>) = Inr (spells lit (t @ [c]))"
    by (rule spelling_append [OF E p q, of c])
  let ?p = "p\<lparr>ps_tok := (ps_tok p)\<lparr>tok_pb := Some pb, st_pos := length t + 1\<rparr>\<rparr>"
  have "spelling h bs json_tokener_state_null (t @ [c]) (tick ?p)" using sv(1,3) by (auto simp: spelling_def)
  moreover have "dispatch E f c p = Some (Inr (Break, ?p))"
    using dispatch_at [OF p sv(1), of E f c] sv(2,4,6) assms by (simp add: st_null_def leave_def)
  ultimately show "\<exists>p1. dispatch E f c p = Some (Inr (Break, p1)) \<and> spelling h bs json_tokener_state_null (t @ [c]) (tick p1)"
    by blast
qed

lemma goes_null_end:
  assumes "spells ''null'' (t @ [c])" "length t = 4"
  shows "goes E f R (spelling h bs json_tokener_state_null t) (c # cs) (c # cs) (done_with h bs JNull)"
proof (rule goes_redo)
  fix p assume E: "all_mem E" and p: "fine R p" and q: "spelling h bs json_tokener_state_null t p"
  obtain sv pb where sv: "stands h bs (lvl json_tokener_state_null sv None None) p" "tok_append E [c] (ps_tok p) = Inr ((ps_tok p)\<lparr>tok_pb := Some pb\<rparr>)"
    "pb_text pb = t @ [c]" "st_pos (ps_tok p) = length t" "ps_heap p = h"
    "\<forall>lit. literal_so_far lit ((ps_tok p)\<lparr>tok_pb := Some pb\<rparr>) = Inr (spells lit (t @ [c]))"
    by (rule spelling_append [OF E p q, of c])
  let ?u = "(ps_tok p)\<lparr>tok_pb := Some pb\<rparr>"
  let ?p = "p\<lparr>ps_tok := set_current None (go_eatws json_tokener_state_finish ?u), ps_heap := h\<rparr>"
  have "stands h bs (lvl json_tokener_state_eatws json_tokener_state_finish None None) ?p"
    using p sv(1) by (auto simp: stands_def set_current_def go_eatws_def fine_def ps_ok_def shape_ok_def)
  then have "done_with h bs JNull ?p"
    unfolding done_with_def by (intro exI [of _ h] exI [of _ None]) (simp add: grows_refl rep.null)
  moreover have "dispatch E f c p = Some (Inr (Redo, ?p))"
    using dispatch_at [OF p sv(1), of E f c] sv(2,4-6) assms by (simp add: st_null_def new_current_def)
  ultimately show "\<exists>p1. dispatch E f c p = Some (Inr (Redo, p1)) \<and> done_with h bs JNull p1" by blast
qed

lemma goes_boolean_char:
  assumes "spells ''true'' (t @ [c]) \<and> length t < 4 \<or> \<not> spells ''true'' (t @ [c]) \<and> spells ''false'' (t @ [c]) \<and> length t < 5"
    "c \<noteq> NUL"
  shows "goes E f R (spelling h bs json_tokener_state_boolean t) (c # cs) cs (spelling h bs json_tokener_state_boolean (t @ [c]))"
proof (rule goes_break [OF _ assms(2)])
  fix p assume E: "all_mem E" and p: "fine R p" and q: "spelling h bs json_tokener_state_boolean t p"
  obtain sv pb where sv: "stands h bs (lvl json_tokener_state_boolean sv None None) p" "tok_append E [c] (ps_tok p) = Inr ((ps_tok p)\<lparr>tok_pb := Some pb\<rparr>)"
    "pb_text pb = t @ [c]" "st_pos (ps_tok p) = length t" "ps_heap p = h"
    "\<forall>lit. literal_so_far lit ((ps_tok p)\<lparr>tok_pb := Some pb\<rparr>) = Inr (spells lit (t @ [c]))"
    by (rule spelling_append [OF E p q, of c])
  let ?p = "p\<lparr>ps_tok := (ps_tok p)\<lparr>tok_pb := Some pb, st_pos := length t + 1\<rparr>\<rparr>"
  have "spelling h bs json_tokener_state_boolean (t @ [c]) (tick ?p)" using sv(1,3) by (auto simp: spelling_def)
  moreover have "dispatch E f c p = Some (Inr (Break, ?p))"
    using dispatch_at [OF p sv(1), of E f c] sv(2,4,6) assms(1) by (elim disjE conjE; simp add: st_boolean_def leave_def)
  ultimately show "\<exists>p1. dispatch E f c p = Some (Inr (Break, p1)) \<and> spelling h bs json_tokener_state_boolean (t @ [c]) (tick p1)"
    by blast
qed

lemma goes_boolean_end:
  assumes t: "if b then spells ''true'' (t @ [c]) \<and> length t = 4
    else \<not> spells ''true'' (t @ [c]) \<and> spells ''false'' (t @ [c]) \<and> length t = 5"
  shows "goes E f R (spelling h bs json_tokener_state_boolean t) (c # cs) (c # cs) (done_with h bs (JBool b))"
proof (rule goes_redo)
  fix p assume E: "all_mem E" and p: "fine R p" and q: "spelling h bs json_tokener_state_boolean t p"
  obtain sv pb where sv: "stands h bs (lvl json_tokener_state_boolean sv None None) p" "tok_append E [c] (ps_tok p) = Inr ((ps_tok p)\<lparr>tok_pb := Some pb\<rparr>)"
    "pb_text pb = t @ [c]" "st_pos (ps_tok p) = length t" "ps_heap p = h"
    "\<forall>lit. literal_so_far lit ((ps_tok p)\<lparr>tok_pb := Some pb\<rparr>) = Inr (spells lit (t @ [c]))"
    by (rule spelling_append [OF E p q, of c])
  let ?r = "json_object_new_boolean E h (if b then 1 else 0)" and ?p0 = "p\<lparr>ps_tok := (ps_tok p)\<lparr>tok_pb := Some pb\<rparr>\<rparr>"
  obtain h' where h': "?r = (Some (next_addr h), h')" "rep (next_addr h) h' (Some (next_addr h)) (JBool b)"
    using new_values_rep(1) [OF E] by blast
  have "grows {} h (snd ?r)"
    unfolding json_object_new_boolean_def by (rule setup_grows [OF E fresh_addr [OF p sv(1)]])
  moreover have "stands (snd ?r) bs (lvl json_tokener_state_eatws json_tokener_state_finish (fst ?r) None)
     (p\<lparr>ps_tok := set_current (fst ?r) (go_eatws json_tokener_state_finish ((ps_tok p)\<lparr>tok_pb := Some pb\<rparr>)), ps_heap := snd ?r\<rparr>)"
    using p sv(1) by (auto simp: stands_def set_current_def go_eatws_def fine_def ps_ok_def shape_ok_def)
  ultimately have "done_with h bs (JBool b)
     (p\<lparr>ps_tok := set_current (fst ?r) (go_eatws json_tokener_state_finish ((ps_tok p)\<lparr>tok_pb := Some pb\<rparr>)), ps_heap := snd ?r\<rparr>)"
    using h' by (auto simp: done_with_def)
  moreover have "dispatch E f c p = new_current json_tokener_state_finish Redo ?p0 ?r"
    using dispatch_at [OF p sv(1), of E f c] sv(2,4-6) t by (cases b) (simp_all add: st_boolean_def)
  ultimately show "\<exists>p1. dispatch E f c p = Some (Inr (Redo, p1)) \<and> done_with h bs (JBool b) p1"
    by (auto simp: new_current_def)
qed

lemma spells_steps:
  "spells ''null'' ''n''" "spells ''null'' ''nu''" "spells ''null'' ''nul''" "spells ''null'' ''null''"
  "spells ''true'' ''t''" "spells ''true'' ''tr''" "spells ''true'' ''tru''" "spells ''true'' ''true''"
  "spells ''false'' ''f''" "spells ''false'' ''fa''" "spells ''false'' ''fal''" "spells ''false'' ''fals''" "spells ''false'' ''false''"
  "\<not> spells ''true'' ''f''" "\<not> spells ''true'' ''fa''" "\<not> spells ''true'' ''fal''" "\<not> spells ''true'' ''fals''"
  "\<not> spells ''true'' ''false''"
  by code_simp+

lemma spells_ends:
  "spells ''null'' (''null'' @ [c])" "spells ''true'' (''true'' @ [c])" "spells ''false'' (''false'' @ [c])"
  "\<not> spells ''true'' (''false'' @ [c])"
  by (simp_all add: spells_def numeral_eq_Suc c_tolower_def)

lemma goes_null:
  "goes E f R (spelling h bs json_tokener_state_null []) (''null'' @ c # cs) (c # cs) (done_with h bs JNull)"
proof -
  let ?S = "spelling h bs json_tokener_state_null"
  have 1: "goes E f R (?S []) (CHR ''n'' # xs) xs (?S ''n'')" for xs
    using goes_null_char [of "[]" "CHR ''n''"] spells_steps by simp
  have 2: "goes E f R (?S ''n'') (CHR ''u'' # xs) xs (?S ''nu'')" for xs
    using goes_null_char [of "''n''" "CHR ''u''"] spells_steps by simp
  have 3: "goes E f R (?S ''nu'') (CHR ''l'' # xs) xs (?S ''nul'')" for xs
    using goes_null_char [of "''nu''" "CHR ''l''"] spells_steps by simp
  have 4: "goes E f R (?S ''nul'') (CHR ''l'' # xs) xs (?S ''null'')" for xs
    using goes_null_char [of "''nul''" "CHR ''l''"] spells_steps by simp
  have fin: "goes E f R (?S ''null'') (c # cs) (c # cs) (done_with h bs JNull)"
    by (rule goes_null_end) (use spells_ends in simp_all)
  show ?thesis using goes_trans [OF 1 goes_trans [OF 2 goes_trans [OF 3 goes_trans [OF 4 fin]]]] by simp
qed

lemma goes_true:
  "goes E f R (spelling h bs json_tokener_state_boolean []) (''true'' @ c # cs) (c # cs) (done_with h bs (JBool True))"
proof -
  let ?S = "spelling h bs json_tokener_state_boolean"
  have 1: "goes E f R (?S []) (CHR ''t'' # xs) xs (?S ''t'')" for xs
    using goes_boolean_char [of "[]" "CHR ''t''"] spells_steps by simp
  have 2: "goes E f R (?S ''t'') (CHR ''r'' # xs) xs (?S ''tr'')" for xs
    using goes_boolean_char [of "''t''" "CHR ''r''"] spells_steps by simp
  have 3: "goes E f R (?S ''tr'') (CHR ''u'' # xs) xs (?S ''tru'')" for xs
    using goes_boolean_char [of "''tr''" "CHR ''u''"] spells_steps by simp
  have 4: "goes E f R (?S ''tru'') (CHR ''e'' # xs) xs (?S ''true'')" for xs
    using goes_boolean_char [of "''tru''" "CHR ''e''"] spells_steps by simp
  have fin: "goes E f R (?S ''true'') (c # cs) (c # cs) (done_with h bs (JBool True))"
    by (rule goes_boolean_end) (use spells_ends in simp_all)
  show ?thesis using goes_trans [OF 1 goes_trans [OF 2 goes_trans [OF 3 goes_trans [OF 4 fin]]]] by simp
qed

lemma goes_false:
  "goes E f R (spelling h bs json_tokener_state_boolean []) (''false'' @ c # cs) (c # cs) (done_with h bs (JBool False))"
proof -
  let ?S = "spelling h bs json_tokener_state_boolean"
  have 1: "goes E f R (?S []) (CHR ''f'' # xs) xs (?S ''f'')" for xs
    using goes_boolean_char [of "[]" "CHR ''f''"] spells_steps by simp
  have 2: "goes E f R (?S ''f'') (CHR ''a'' # xs) xs (?S ''fa'')" for xs
    using goes_boolean_char [of "''f''" "CHR ''a''"] spells_steps by simp
  have 3: "goes E f R (?S ''fa'') (CHR ''l'' # xs) xs (?S ''fal'')" for xs
    using goes_boolean_char [of "''fa''" "CHR ''l''"] spells_steps by simp
  have 4: "goes E f R (?S ''fal'') (CHR ''s'' # xs) xs (?S ''fals'')" for xs
    using goes_boolean_char [of "''fal''" "CHR ''s''"] spells_steps by simp
  have 5: "goes E f R (?S ''fals'') (CHR ''e'' # xs) xs (?S ''false'')" for xs
    using goes_boolean_char [of "''fals''" "CHR ''e''"] spells_steps by simp
  have fin: "goes E f R (?S ''false'') (c # cs) (c # cs) (done_with h bs (JBool False))"
    by (rule goes_boolean_end) (use spells_ends in simp_all)
  show ?thesis using goes_trans [OF 1 goes_trans [OF 2 goes_trans [OF 3 goes_trans [OF 4 goes_trans [OF 5 fin]]]]] by simp
qed

section \<open>Containers\<close>

declare goes_trans [trans]

lemma part_array_addr: "part_array h a vs \<Longrightarrow> a < next_addr h"
  by (simp add: part_array_def)

lemma part_object_addr: "part_object h a kvs \<Longrightarrow> a < next_addr h"
  by (simp add: part_object_def)

lemma open_step:
  assumes E: "all_mem E" and p: "fine R p" "stands h bs (lvl json_tokener_state_start sv None None) p"
    and r: "r = json_setup (json_object_new E h ty) g"
  shows "\<exists>p1 h1. new_current sv' Break p r = Some (Inr (Break, p1))
    \<and> stands h1 bs (lvl json_tokener_state_eatws sv' (Some (next_addr h)) None) p1 \<and> grows {} h h1
    \<and> objs h (next_addr h) = None \<and> next_addr h < next_addr h1
    \<and> objs h1 (next_addr h) = Some (g \<lparr>o_type = ty, delete_fn = generic_delete, to_json_fn = None, ref_count = 1,
                      own_pb = None, o_data = C_calloc\<rparr>)"
proof -
  let ?h1 = "snd r" and ?a = "next_addr h"
  have new: "fst r = Some ?a" "objs ?h1 ?a = Some (g \<lparr>o_type = ty, delete_fn = generic_delete, to_json_fn = None, ref_count = 1,
                      own_pb = None, o_data = C_calloc\<rparr>)" "?a < next_addr ?h1"
    using E by (simp_all add: r json_setup_def json_object_new_def all_mem_def)
  have "grows {} h ?h1" unfolding r by (rule setup_grows [OF E fresh_addr [OF p]])
  moreover have "stands ?h1 bs (lvl json_tokener_state_eatws sv' (Some ?a) None)
      (p\<lparr>ps_tok := set_current (fst r) (go_eatws sv' (ps_tok p)), ps_heap := ?h1\<rparr>)"
    using p new(1) by (auto simp: stands_def set_current_def go_eatws_def fine_def ps_ok_def shape_ok_def)
  ultimately show ?thesis using new(2,3) fresh_addr [OF p] by (auto simp: new_current_def)
qed

definition opened ::
  "(json_heap \<Rightarrow> addr \<Rightarrow> bool) \<Rightarrow> json_tokener_state \<Rightarrow> json_heap \<Rightarrow> json_tokener_srec list \<Rightarrow> parse_state \<Rightarrow> bool" where
  "opened Q sv h bs p \<longleftrightarrow> (\<exists>h1. stands h1 bs (lvl json_tokener_state_eatws sv (Some (next_addr h)) None) p
     \<and> grows {} h h1 \<and> objs h (next_addr h) = None \<and> Q h1 (next_addr h))"

lemma goes_open_array:
  "goes E f R (stands h bs (lvl json_tokener_state_start sv None None)) (CHR ''['' # cs) cs
     (opened (\<lambda>h a. part_array h a []) json_tokener_state_array h bs)"
proof (rule goes_break)
  fix p assume E: "all_mem E" and p: "fine R p" "stands h bs (lvl json_tokener_state_start sv None None) p"
  let ?g = "\<lambda>j. j\<lparr>delete_fn := array_delete, to_json_fn := Some array_to_json, o_data := C_array (array_list_new (mem E))\<rparr>"
  obtain l :: "addr array_list" where l: "array_list_new (mem E) = Some l" using E by (auto simp: array_list_new_def mem_all)
  then have inv: "al_inv l" "al_elems l = []" using array_list_new_inv by blast+
  obtain p1 h1 where 1: "new_current json_tokener_state_array Break p (json_object_new_array E h) = Some (Inr (Break, p1))"
    "stands h1 bs (lvl json_tokener_state_eatws json_tokener_state_array (Some (next_addr h)) None) p1" "grows {} h h1"
    "objs h (next_addr h) = None" "next_addr h < next_addr h1"
    "objs h1 (next_addr h) = Some (?g \<lparr>o_type = json_type_array, delete_fn = generic_delete, to_json_fn = None, ref_count = 1,
                      own_pb = None, o_data = C_calloc\<rparr>)"
    using open_step [OF E p json_object_new_array_def [of E h]] by blast
  then have "part_array h1 (next_addr h) []" using l inv by (auto simp: part_array_def json_object_ok_def)
  then have "opened (\<lambda>h a. part_array h a []) json_tokener_state_array h bs (tick p1)" using 1 by (auto simp: opened_def)
  then show "\<exists>p1. dispatch E f (CHR ''['') p = Some (Inr (Break, p1))
      \<and> opened (\<lambda>h a. part_array h a []) json_tokener_state_array h bs (tick p1)"
    using dispatch_at [OF p, of E f "CHR ''[''"] 1(1) p(2) by (simp add: st_start_def Let_def stands_def)
qed simp

lemma goes_open_object:
  "goes E f R (stands h bs (lvl json_tokener_state_start sv None None)) (CHR ''{'' # cs) cs
     (opened (\<lambda>h a. part_object h a []) json_tokener_state_object_field_start h bs)"
proof (rule goes_break)
  fix p assume E: "all_mem E" and p: "fine R p" "stands h bs (lvl json_tokener_state_start sv None None) p"
  let ?t = "lh_kchar_table_new JSON_OBJECT_DEF_HASH_ENTRIES True"
  let ?g = "\<lambda>j. j\<lparr>delete_fn := object_delete, to_json_fn := Some object_to_json, o_data := C_object ?t\<rparr>"
  obtain p1 h1 where 1: "new_current json_tokener_state_object_field_start Break p (json_object_new_object E h) = Some (Inr (Break, p1))"
    "stands h1 bs (lvl json_tokener_state_eatws json_tokener_state_object_field_start (Some (next_addr h)) None) p1" "grows {} h h1"
    "objs h (next_addr h) = None" "next_addr h < next_addr h1"
    "objs h1 (next_addr h) = Some (?g \<lparr>o_type = json_type_object, delete_fn = generic_delete, to_json_fn = None, ref_count = 1,
                      own_pb = None, o_data = C_calloc\<rparr>)"
    using open_step [OF E p json_object_new_object_def [of E h]] by blast
  have "lh_free_fn ?t" by (simp add: lh_kchar_table_new_def lh_table_new_def)
  then have "part_object h1 (next_addr h) []"
    using 1(5,6) filled_new_table filled_table_ok [OF filled_new_table] by (fastforce simp: part_object_def json_object_ok_def)
  then have "opened (\<lambda>h a. part_object h a []) json_tokener_state_object_field_start h bs (tick p1)"
    using 1 by (auto simp: opened_def)
  then show "\<exists>p1. dispatch E f (CHR ''{'') p = Some (Inr (Break, p1))
      \<and> opened (\<lambda>h a. part_object h a []) json_tokener_state_object_field_start h bs (tick p1)"
    using dispatch_at [OF p, of E f "CHR ''{''"] 1(1) p(2) by (simp add: st_start_def Let_def stands_def)
qed simp

text \<open>
  The value that was read goes into the container: \<open>with_item Q a v\<close> describes the parser on the level
  above the container \<open>a\<close>, with \<open>v\<close> read and \<open>Q\<close> true of the container so far.
\<close>

definition with_item ::
  "(json_heap \<Rightarrow> addr \<Rightarrow> bool) \<Rightarrow> json_heap \<Rightarrow> addr \<Rightarrow> json_tokener_srec list \<Rightarrow> jvalue \<Rightarrow> parse_state \<Rightarrow> bool" where
  "with_item Q h0 a bs v p \<longleftrightarrow> (\<exists>h vp. stands h bs (lvl json_tokener_state_eatws json_tokener_state_finish vp None) p
     \<and> rep (Suc a) h vp v \<and> Q h a \<and> grows {a} h0 h)"

definition in_container ::
  "(json_heap \<Rightarrow> addr \<Rightarrow> bool) \<Rightarrow> json_heap \<Rightarrow> addr \<Rightarrow> json_tokener_srec list \<Rightarrow> json_tokener_state \<Rightarrow> json_tokener_state
     \<Rightarrow> parse_state \<Rightarrow> bool" where
  "in_container Q h0 a bs st sv p \<longleftrightarrow> (\<exists>h. stands h bs (lvl st sv (Some a) None) p \<and> Q h a \<and> grows {a} h0 h)"

lemma goes_in_container:
  assumes "\<And>h. goes E f R (stands h bs (lvl st sv (Some a) None)) s t (stands h bs (lvl st' sv' (Some a) None))"
  shows "goes E f R (in_container Q h0 a bs st sv) s t (in_container Q h0 a bs st' sv')"
  unfolding in_container_def
  by (intro goes_ex goes_conj, rule goes_post [OF assms]) blast

lemma done_with_item:
  assumes "done_with h bs v p" "Q h a" "grows {a} h0 h" "a < next_addr h" "\<And>h'. Q h a \<Longrightarrow> grows {} h h' \<Longrightarrow> Q h' a"
  shows "with_item Q h0 a bs v p"
proof -
  obtain h' vp where h': "stands h' bs (lvl json_tokener_state_eatws json_tokener_state_finish vp None) p"
      "grows {} h h'" "rep (next_addr h) h' vp v" using assms(1) by (auto simp: done_with_def)
  have "rep (Suc a) h' vp v" by (rule rep_grows [OF h'(3) grows_refl [of "{}"]]) (use assms(4) in simp_all)
  moreover have "grows {a} h0 h'" using grows_trans [OF assms(3) grows_mono [OF h'(2)]] by simp
  ultimately show ?thesis using h'(1,2) assms(2,5) by (auto simp: with_item_def)
qed

text \<open>Reading a value: what the induction on values shows.\<close>

definition reads :: "cenv \<Rightarrow> nat \<Rightarrow> addr multiset \<Rightarrow> jvalue \<Rightarrow> bool" where
  "reads E f R v \<longleftrightarrow> (\<exists>c0 s. json_text E v = c0 # s \<and> solid c0 \<and> c0 \<noteq> CHR '']'')
     \<and> (\<forall>h bs c cs. length bs + jheight v \<le> JSON_TOKENER_MAX_DEPTH \<longrightarrow> stops c \<longrightarrow>
          goes E f R (stands h bs fresh_level) (json_text E v @ c # cs) (c # cs) (done_with h bs v))"

lemma reads_goes:
  "reads E f R v \<Longrightarrow> length bs + jheight v \<le> JSON_TOKENER_MAX_DEPTH \<Longrightarrow> stops c
     \<Longrightarrow> goes E f R (stands h bs fresh_level) (json_text E v @ c # cs) (c # cs) (done_with h bs v)"
  unfolding reads_def by blast

lemma reads_head:
  assumes "reads E f R v"
  obtains c0 s where "json_text E v = c0 # s" "solid c0" "c0 \<noteq> CHR '']''"
  using assms by (auto simp: reads_def)

lemma jheight_pos: "0 < jheight v"
  by (cases v) simp_all

lemma goes_array_item:
  assumes v: "reads E f R v" "length bs + 1 + jheight v \<le> JSON_TOKENER_MAX_DEPTH" and c: "stops c"
  shows "goes E f R (in_container (\<lambda>h a. part_array h a vs) h0 a bs json_tokener_state_eatws json_tokener_state_array)
     (json_text E v @ c # cs) (c # cs)
     (with_item (\<lambda>h a. part_array h a vs) h0 a (bs @ [lvl json_tokener_state_array_add json_tokener_state_array (Some a) None]) v)"
  unfolding in_container_def
proof (intro goes_ex goes_conj, elim conjE)
  fix h assume h: "part_array h a vs" "grows {a} h0 h"
  let ?bs = "bs @ [lvl json_tokener_state_array_add json_tokener_state_array (Some a) None]"
  obtain c0 s where c0: "json_text E v = c0 # s" "solid c0" "c0 \<noteq> CHR '']''" by (rule reads_head [OF v(1)])
  have d: "length bs + 1 < JSON_TOKENER_MAX_DEPTH" using v(2) jheight_pos [of v] by simp
  have "goes E f R (stands h bs (lvl json_tokener_state_eatws json_tokener_state_array (Some a) None)) (json_text E v @ c # cs)
      (json_text E v @ c # cs) (stands h ?bs fresh_level)"
    unfolding c0(1) append.simps by (rule goes_trans [OF goes_resume [OF c0(2)] goes_push_array [OF d c0(3)]])
  also have "goes E f R (stands h ?bs fresh_level) (json_text E v @ c # cs) (c # cs) (done_with h ?bs v)"
    by (rule reads_goes [OF v(1) _ c]) (use v(2) in simp)
  finally show "goes E f R (stands h bs (lvl json_tokener_state_eatws json_tokener_state_array (Some a) None))
      (json_text E v @ c # cs) (c # cs) (with_item (\<lambda>h a. part_array h a vs) h0 a ?bs v)"
    by (rule goes_post) (erule done_with_item [where Q = "\<lambda>h a. part_array h a vs", OF _ h part_array_addr [OF h(1)] part_array_grows])
qed

lemma goes_array_store:
  assumes c: "solid c"
  shows "goes E f R (with_item (\<lambda>h a. part_array h a vs) h0 a (bs @ [lvl json_tokener_state_array_add sv (Some a) None]) v)
     (c # cs) (c # cs)
     (in_container (\<lambda>h a. part_array h a (vs @ [v])) h0 a bs json_tokener_state_array_sep json_tokener_state_array_sep)"
  unfolding with_item_def
proof (intro goes_ex goes_conj, elim conjE)
  fix h vp assume h: "rep (Suc a) h vp v" "part_array h a vs" "grows {a} h0 h"
  let ?b = "lvl json_tokener_state_array_add sv (Some a) None"
  let ?to = "in_container (\<lambda>h a. part_array h a (vs @ [v])) h0 a bs"
  have "goes E f R (stands h (bs @ [?b]) (lvl json_tokener_state_eatws json_tokener_state_finish vp None)) (c # cs) (c # cs)
      (\<lambda>p. stands h bs ?b p \<and> ps_obj p = vp)"
    by (rule goes_trans [OF goes_resume [OF c] goes_pop])
  also have "goes E f R (\<lambda>p. stands h bs ?b p \<and> ps_obj p = vp) (c # cs) (c # cs)
      (?to json_tokener_state_eatws json_tokener_state_array_sep)"
  proof (rule goes_redo)
    fix p assume E: "all_mem E" and p: "fine R p" "stands h bs ?b p \<and> ps_obj p = vp"
    obtain h' where h': "json_object_array_add E f h (Some a) vp = Some (Inr (0, h'))" "part_array h' a (vs @ [v])" "grows {a} h h'"
      using array_add_part [OF E h(2,1)] by blast
    let ?p = "p\<lparr>ps_heap := h', ps_tok := go_eatws json_tokener_state_array_sep (ps_tok p)\<rparr>"
    have "stands h' bs (lvl json_tokener_state_eatws json_tokener_state_array_sep (Some a) None) ?p"
      using p by (auto simp: stands_def go_eatws_def fine_def ps_ok_def shape_ok_def)
    then have "?to json_tokener_state_eatws json_tokener_state_array_sep ?p"
      using h'(2) grows_trans [OF h(3) h'(3)] by (auto simp: in_container_def)
    moreover have "dispatch E f c p = Some (Inr (Redo, ?p))"
      using dispatch_at [OF p(1), of h bs ?b E f c] p(2) h'(1) by (simp add: st_array_add_def leave_def stands_def)
    ultimately show "\<exists>p1. dispatch E f c p = Some (Inr (Redo, p1)) \<and> ?to json_tokener_state_eatws json_tokener_state_array_sep p1"
      by blast
  qed
  also have "goes E f R (?to json_tokener_state_eatws json_tokener_state_array_sep) (c # cs) (c # cs)
      (?to json_tokener_state_array_sep json_tokener_state_array_sep)"
    by (rule goes_in_container [OF goes_resume [OF c]])
  finally show "goes E f R (stands h (bs @ [?b]) (lvl json_tokener_state_eatws json_tokener_state_finish vp None))
      (c # cs) (c # cs) (?to json_tokener_state_array_sep json_tokener_state_array_sep)" .
qed

lemma goes_with_item_space:
  "goes E f R (with_item Q h0 a bs v) (CHR '' '' # cs) cs (with_item Q h0 a bs v)"
  unfolding with_item_def
  by (intro goes_ex goes_conj, rule goes_post [OF goes_space]) (auto simp: c_isspace_def)

lemma solid_stops:
  "solid CHR '']''" "solid CHR '',''" "solid CHR ''}''" "solid CHR '':''" "solid CHR 0x22"
  "stops CHR '' ''" "stops CHR '',''" "solid NUL" "stops NUL"
  by (simp_all add: solid_def stops_def c_isspace_def json_number_chars_def)

lemma goes_array_rest:
  assumes "\<forall>v \<in> set ws. reads E f R v \<and> length bs + 1 + jheight v \<le> JSON_TOKENER_MAX_DEPTH"
  shows "goes E f R (with_item (\<lambda>h a. part_array h a vs) h0 a (bs @ [lvl json_tokener_state_array_add json_tokener_state_array (Some a) None]) v)
     (array_more (map (json_text E) ws) @ '' ]'' @ cs) cs
     (in_container (\<lambda>h a. part_array h a (vs @ v # ws)) h0 a bs json_tokener_state_eatws json_tokener_state_finish)"
  using assms
proof (induction ws arbitrary: vs v)
  case Nil
  show ?case
    using goes_trans [OF goes_with_item_space goes_trans [OF goes_array_store [OF solid_stops(1)] goes_in_container [OF goes_punctuation(2)]]]
    by simp
next
  case (Cons w ws)
  let ?bs = "bs @ [lvl json_tokener_state_array_add json_tokener_state_array (Some a) None]"
  let ?at = "\<lambda>vs. in_container (\<lambda>h a. part_array h a vs) h0 a bs json_tokener_state_eatws"
  obtain x xs where x: "array_more (map (json_text E) ws) @ '' ]'' @ cs = x # xs" "stops x"
    using solid_stops by (cases ws) auto
  have "goes E f R (with_item (\<lambda>h a. part_array h a vs) h0 a ?bs v)
      (CHR '','' # CHR '' '' # json_text E w @ x # xs) (CHR '' '' # json_text E w @ x # xs) (?at (vs @ [v]) json_tokener_state_array)"
    by (rule goes_trans [OF goes_array_store [OF solid_stops(2)] goes_in_container [OF goes_punctuation(3)]])
  also have "goes E f R (?at (vs @ [v]) json_tokener_state_array) (CHR '' '' # json_text E w @ x # xs) (json_text E w @ x # xs)
      (?at (vs @ [v]) json_tokener_state_array)"
    by (rule goes_in_container [OF goes_space]) (simp_all add: c_isspace_def)
  also have "goes E f R (?at (vs @ [v]) json_tokener_state_array) (json_text E w @ x # xs) (x # xs)
      (with_item (\<lambda>h a. part_array h a (vs @ [v])) h0 a ?bs w)"
    by (rule goes_array_item) (use Cons.prems x(2) in simp_all)
  also have "goes E f R (with_item (\<lambda>h a. part_array h a (vs @ [v])) h0 a ?bs w) (x # xs) cs
      (?at ((vs @ [v]) @ w # ws) json_tokener_state_finish)"
    unfolding x(1) [symmetric] by (rule Cons.IH) (use Cons.prems in simp)
  finally show ?case using x(1) by simp
qed

text \<open>The same for the members of an object.\<close>

lemma goes_member:
  assumes v: "reads E f R v" "length bs + 1 + jheight v \<le> JSON_TOKENER_MAX_DEPTH" and k: "NUL \<notin> set k" and c: "stops c"
  shows "goes E f R (in_container (\<lambda>h a. part_object h a kvs) h0 a bs json_tokener_state_eatws json_tokener_state_object_field_start)
     (member_text (k, json_text E v) @ c # cs) (c # cs)
     (with_item (\<lambda>h a. part_object h a kvs) h0 a
        (bs @ [lvl json_tokener_state_object_value_add json_tokener_state_object_value (Some a) (Some k)]) v)"
  unfolding in_container_def
proof (intro goes_ex goes_conj, elim conjE)
  fix h assume h: "part_object h a kvs" "grows {a} h0 h"
  let ?b = "lvl json_tokener_state_object_value_add json_tokener_state_object_value (Some a) (Some k)"
  let ?at = "\<lambda>sv. stands h bs (lvl json_tokener_state_eatws sv (Some a) (Some k))"
  let ?start = "stands h bs (lvl json_tokener_state_eatws json_tokener_state_object_field_start (Some a) None)"
  have sp: "c_isspace (CHR '' '')" by (simp add: c_isspace_def)
  have field: "text_state json_tokener_state_object_field" by (simp add: text_state_def)
  obtain c0 s where c0: "json_text E v = c0 # s" "solid c0" by (rule reads_head [OF v(1)]) blast
  have d: "length bs + 1 < JSON_TOKENER_MAX_DEPTH" using v(2) jheight_pos [of v] by simp
  let ?r3 = "json_text E v @ c # cs" let ?r2 = "CHR '':'' # CHR '' '' # ?r3" let ?r1 = "esc k @ CHR 0x22 # ?r2"
  have "goes E f R ?start (CHR '' '' # CHR 0x22 # ?r1) ?r1 (quoting h bs json_tokener_state_object_field (Some a) [])"
    by (rule goes_trans [OF goes_space [OF sp] goes_trans [OF goes_resume [OF solid_stops(5)] goes_start_field]]) simp
  also have "goes E f R (quoting h bs json_tokener_state_object_field (Some a) []) ?r1 ?r2
      (?at json_tokener_state_object_field_end)"
    using goes_trans [OF goes_esc [OF field k, where t = "[]", unfolded append_Nil] goes_end_field [OF k]] by simp
  also have "goes E f R (?at json_tokener_state_object_field_end) ?r2 ?r3 (?at json_tokener_state_object_value)"
    by (rule goes_trans [OF goes_resume [OF solid_stops(4)] goes_trans [OF goes_punctuation(5) goes_space [OF sp]]]) simp
  also have "goes E f R (?at json_tokener_state_object_value) ?r3 ?r3 (stands h (bs @ [?b]) fresh_level)"
    unfolding c0(1) append.simps by (rule goes_trans [OF goes_resume [OF c0(2)] goes_push_object [OF d]])
  also have "goes E f R (stands h (bs @ [?b]) fresh_level) ?r3 (c # cs) (done_with h (bs @ [?b]) v)"
    by (rule reads_goes [OF v(1) _ c]) (use v(2) in simp)
  finally have "goes E f R ?start (member_text (k, json_text E v) @ c # cs) (c # cs) (done_with h (bs @ [?b]) v)"
    by (simp add: member_text_def quoted_def)
  then show "goes E f R ?start (member_text (k, json_text E v) @ c # cs) (c # cs)
      (with_item (\<lambda>h a. part_object h a kvs) h0 a (bs @ [?b]) v)"
    by (rule goes_post) (erule done_with_item [where Q = "\<lambda>h a. part_object h a kvs", OF _ h part_object_addr [OF h(1)] part_object_grows])
qed

lemma goes_object_store:
  assumes c: "solid c" and k: "k \<notin> fst ` set kvs"
  shows "goes E f R (with_item (\<lambda>h a. part_object h a kvs) h0 a (bs @ [lvl json_tokener_state_object_value_add sv (Some a) (Some k)]) v)
     (c # cs) (c # cs)
     (in_container (\<lambda>h a. part_object h a (kvs @ [(k, v)])) h0 a bs json_tokener_state_object_sep json_tokener_state_object_sep)"
  unfolding with_item_def
proof (intro goes_ex goes_conj, elim conjE)
  fix h vp assume h: "rep (Suc a) h vp v" "part_object h a kvs" "grows {a} h0 h"
  let ?b = "lvl json_tokener_state_object_value_add sv (Some a) (Some k)"
  let ?to = "in_container (\<lambda>h a. part_object h a (kvs @ [(k, v)])) h0 a bs"
  have "goes E f R (stands h (bs @ [?b]) (lvl json_tokener_state_eatws json_tokener_state_finish vp None)) (c # cs) (c # cs)
      (\<lambda>p. stands h bs ?b p \<and> ps_obj p = vp)"
    by (rule goes_trans [OF goes_resume [OF c] goes_pop])
  also have "goes E f R (\<lambda>p. stands h bs ?b p \<and> ps_obj p = vp) (c # cs) (c # cs)
      (?to json_tokener_state_eatws json_tokener_state_object_sep)"
  proof (rule goes_redo)
    fix p assume E: "all_mem E" and p: "fine R p" "stands h bs ?b p \<and> ps_obj p = vp"
    obtain h' where h': "json_object_object_add E f h (Some a) k vp = Some (Inr h')" "part_object h' a (kvs @ [(k, v)])"
        "grows {a} h h'"
      using object_add_part [OF E h(2,1) k] by blast
    let ?p = "p\<lparr>ps_heap := h', ps_tok := go_eatws json_tokener_state_object_sep
        (on_top (\<lambda>s. s\<lparr>obj_field_name := None\<rparr>) (ps_tok p))\<rparr>"
    have "stands h' bs (lvl json_tokener_state_eatws json_tokener_state_object_sep (Some a) None) ?p"
      using p by (auto simp: stands_def go_eatws_def fine_def ps_ok_def shape_ok_def)
    then have "?to json_tokener_state_eatws json_tokener_state_object_sep ?p"
      using h'(2) grows_trans [OF h(3) h'(3)] by (auto simp: in_container_def)
    moreover have "dispatch E f c p = Some (Inr (Redo, ?p))"
      using dispatch_at [OF p(1), of h bs ?b E f c] p(2) h'(1) by (simp add: st_object_value_add_def leave_def stands_def)
    ultimately show "\<exists>p1. dispatch E f c p = Some (Inr (Redo, p1)) \<and> ?to json_tokener_state_eatws json_tokener_state_object_sep p1"
      by blast
  qed
  also have "goes E f R (?to json_tokener_state_eatws json_tokener_state_object_sep) (c # cs) (c # cs)
      (?to json_tokener_state_object_sep json_tokener_state_object_sep)"
    by (rule goes_in_container [OF goes_resume [OF c]])
  finally show "goes E f R (stands h (bs @ [?b]) (lvl json_tokener_state_eatws json_tokener_state_finish vp None))
      (c # cs) (c # cs) (?to json_tokener_state_object_sep json_tokener_state_object_sep)" .
qed

text \<open>The texts of the members.\<close>

abbreviation members :: "cenv \<Rightarrow> (char list \<times> jvalue) list \<Rightarrow> (char list \<times> char list) list" where
  "members E kvs \<equiv> map (\<lambda>kv. (fst kv, json_text E (snd kv))) kvs"

lemma goes_object_rest:
  assumes "\<forall>w \<in> snd ` set ws. reads E f R w \<and> length bs + 1 + jheight w \<le> JSON_TOKENER_MAX_DEPTH"
    and "\<forall>k \<in> fst ` set ws. NUL \<notin> set k" and "distinct (map fst (kvs @ (k, v) # ws))"
  shows "goes E f R (with_item (\<lambda>h a. part_object h a kvs) h0 a
        (bs @ [lvl json_tokener_state_object_value_add json_tokener_state_object_value (Some a) (Some k)]) v)
     (object_more (members E ws) @ '' }'' @ cs) cs
     (in_container (\<lambda>h a. part_object h a (kvs @ (k, v) # ws)) h0 a bs json_tokener_state_eatws json_tokener_state_finish)"
  using assms
proof (induction ws arbitrary: kvs k v)
  case Nil
  have k: "k \<notin> fst ` set kvs" using Nil.prems(3) by auto
  show ?case
    using goes_trans [OF goes_with_item_space goes_trans [OF goes_object_store [OF solid_stops(3) k]
        goes_in_container [OF goes_punctuation(6)]]]
    by simp
next
  case (Cons kw ws)
  obtain k' w where kw: "kw = (k', w)" by fastforce
  let ?b = "\<lambda>k. lvl json_tokener_state_object_value_add json_tokener_state_object_value (Some a) (Some k)"
  let ?at = "\<lambda>kvs. in_container (\<lambda>h a. part_object h a kvs) h0 a bs json_tokener_state_eatws"
  have k: "k \<notin> fst ` set kvs" using Cons.prems(3) by auto
  obtain x xs where x: "object_more (members E ws) @ '' }'' @ cs = x # xs" "stops x"
    using solid_stops by (cases ws) auto
  have "goes E f R (with_item (\<lambda>h a. part_object h a kvs) h0 a (bs @ [?b k]) v)
      (CHR '','' # member_text (k', json_text E w) @ x # xs) (member_text (k', json_text E w) @ x # xs)
      (?at (kvs @ [(k, v)]) json_tokener_state_object_field_start)"
    by (rule goes_trans [OF goes_object_store [OF solid_stops(2) k] goes_in_container [OF goes_punctuation(7)]])
  also have "goes E f R (?at (kvs @ [(k, v)]) json_tokener_state_object_field_start) (member_text (k', json_text E w) @ x # xs)
      (x # xs) (with_item (\<lambda>h a. part_object h a (kvs @ [(k, v)])) h0 a (bs @ [?b k']) w)"
    by (rule goes_member) (use Cons.prems x(2) kw in simp_all)
  also have "goes E f R (with_item (\<lambda>h a. part_object h a (kvs @ [(k, v)])) h0 a (bs @ [?b k']) w) (x # xs) cs
      (?at ((kvs @ [(k, v)]) @ (k', w) # ws) json_tokener_state_finish)"
    unfolding x(1) [symmetric] by (rule Cons.IH) (use Cons.prems kw in simp_all)
  finally show ?case using x(1) kw by simp
qed

section \<open>Values\<close>

text \<open>
  What is asked of \<open>printf\<close> and \<open>sscanf\<close> for a \<open>double\<close>: the text is a number with a point or an exponent
  that is read back as the same \<open>double\<close> (so it is one of those six digits after the point can express).
\<close>

definition reads_back :: "cenv \<Rightarrow> 64 word \<Rightarrow> bool" where
  "reads_back E d \<longleftrightarrow> (case fmt_lf E d of [] \<Rightarrow> False | c # s \<Rightarrow> starts_number c)
     \<and> set (fmt_lf E d) \<subseteq> set json_number_chars \<and> (\<exists>c \<in> set (fmt_lf E d). point_or_exp c)
     \<and> scan_lf E (fmt_lf E d) = Some d"

text \<open>The values whose text can be read: C strings, no key twice.\<close>

fun readable :: "cenv \<Rightarrow> jvalue \<Rightarrow> bool" where
  "readable E (JDouble d) = reads_back E d"
| "readable E (JString s) = (NUL \<notin> set s)"
| "readable E (JArray vs) = (\<forall>v \<in> set vs. readable E v)"
| "readable E (JObject kvs) = (distinct (map fst kvs) \<and> (\<forall>kv \<in> set kvs. NUL \<notin> set (fst kv) \<and> readable E (snd kv)))"
| "readable E v = True"

lemma digit_number_char: "c_isdigit c \<Longrightarrow> c \<in> set json_number_chars \<and> \<not> point_or_exp c"
proof -
  assume "c_isdigit c"
  then have "(of_char c :: nat) \<in> {48, 49, 50, 51, 52, 53, 54, 55, 56, 57}"
    unfolding c_isdigit_def insert_iff empty_iff by presburger
  moreover have "of_char ` set ''0123456789'' = {48, 49, 50, 51, 52, 53, 54, 55, 56, 57 :: nat}" by simp
  ultimately have "(of_char c :: nat) \<in> of_char ` set ''0123456789''" by simp
  then have "c \<in> set ''0123456789''" unfolding image_iff of_char_eq_iff by blast
  then show ?thesis by (auto simp: json_number_chars_def point_or_exp_def)
qed

lemma fmt_d_number:
  shows "set (fmt_d i) \<subseteq> set json_number_chars" "\<forall>c \<in> set (fmt_d i). \<not> point_or_exp c"
    and "\<exists>c s. fmt_d i = c # s \<and> starts_number c"
proof -
  have "set (digits n) \<subseteq> set json_number_chars" "\<forall>c \<in> set (digits n). \<not> point_or_exp c" for n
    using digit_number_char digits_are_digits [of n] by blast+
  then show "set (fmt_d i) \<subseteq> set json_number_chars" "\<forall>c \<in> set (fmt_d i). \<not> point_or_exp c"
    by (auto simp: fmt_d_def json_number_chars_def point_or_exp_def)
  obtain d ds where "digits (nat (sint i)) = d # ds" "c_isdigit d" by (rule digits_Cons)
  then show "\<exists>c s. fmt_d i = c # s \<and> starts_number c" by (auto simp: fmt_d_def starts_number_def)
qed

lemma starts_number_solid: "starts_number c \<Longrightarrow> solid c \<and> c \<noteq> CHR '']''"
  by (auto simp: starts_number_def solid_def c_isdigit_def c_isspace_def)

lemma readsI:
  assumes "json_text E v = c0 # s" "solid c0" "c0 \<noteq> CHR '']''"
    and "\<And>h bs c cs. length bs + jheight v \<le> JSON_TOKENER_MAX_DEPTH \<Longrightarrow> stops c \<Longrightarrow>
      goes E f R (stands h bs (lvl json_tokener_state_start json_tokener_state_start None None)) (c0 # s @ c # cs) (c # cs) (done_with h bs v)"
  shows "reads E f R v"
  unfolding reads_def fresh_level_def assms(1)
  using assms(1-3) goes_trans [OF goes_resume [OF assms(2)] assms(4)] by fastforce


text \<open>A whole container: opened, filled and closed.\<close>

lemma goes_container:
  assumes run: "\<And>h0 a. goes E f R (in_container Q h0 a bs json_tokener_state_eatws sv) s t
      (in_container Q' h0 a bs json_tokener_state_eatws json_tokener_state_finish)"
    and rep: "\<And>h a. Q' h a \<Longrightarrow> a \<le> a \<Longrightarrow> rep a h (Some a) v"
  shows "goes E f R (opened Q sv h bs) s t (done_with h bs v)"
  unfolding opened_def
proof (intro goes_ex goes_conj, elim conjE)
  fix h1 let ?a = "next_addr h"
  assume h1: "grows {} h h1" "objs h ?a = None" "Q h1 ?a"
  show "goes E f R (stands h1 bs (lvl json_tokener_state_eatws sv (Some ?a) None)) s t (done_with h bs v)"
  proof (rule goes_post [OF goes_pre [OF run]])
    fix p assume "stands h1 bs (lvl json_tokener_state_eatws sv (Some ?a) None) p"
    then show "in_container Q h1 ?a bs json_tokener_state_eatws sv p" using h1(3) grows_refl by (auto simp: in_container_def)
  next
    fix p assume "in_container Q' h1 ?a bs json_tokener_state_eatws json_tokener_state_finish p"
    then show "done_with h bs v p"
      using grows_new [OF h1(1,2)] rep by (fastforce simp: in_container_def done_with_def)
  qed
qed

lemma goes_array_text:
  assumes vs: "\<forall>v \<in> set vs. reads E f R v \<and> length bs + 1 + jheight v \<le> JSON_TOKENER_MAX_DEPTH"
  shows "goes E f R (in_container (\<lambda>h a. part_array h a []) h0 a bs json_tokener_state_eatws json_tokener_state_array)
    (array_text (map (json_text E) vs) @ '' ]'' @ cs) cs
    (in_container (\<lambda>h a. part_array h a vs) h0 a bs json_tokener_state_eatws json_tokener_state_finish)"
proof (cases vs)
  case Nil
  show ?thesis unfolding Nil list.map array_text.simps append.simps
    by (rule goes_trans [OF goes_in_container [OF goes_space] goes_trans [OF goes_in_container [OF goes_resume [OF solid_stops(1)]]
      goes_in_container [OF goes_punctuation(1)]]]) (simp_all add: c_isspace_def)
next
  case (Cons w ws)
  let ?in = "in_container (\<lambda>h a. part_array h a []) h0 a bs json_tokener_state_eatws json_tokener_state_array"
  let ?with = "with_item (\<lambda>h a. part_array h a []) h0 a
      (bs @ [lvl json_tokener_state_array_add json_tokener_state_array (Some a) None]) w"
  obtain x xs where x: "array_more (map (json_text E) ws) @ '' ]'' @ cs = x # xs" "stops x"
    using solid_stops by (cases ws) auto
  have "goes E f R ?in (CHR '' '' # json_text E w @ x # xs) (json_text E w @ x # xs) ?in"
    by (rule goes_in_container [OF goes_space]) (simp_all add: c_isspace_def)
  also have "goes E f R ?in (json_text E w @ x # xs) (x # xs) ?with"
    by (rule goes_array_item) (use vs Cons x(2) in simp_all)
  also have "goes E f R ?with (x # xs) cs
      (in_container (\<lambda>h a. part_array h a ([] @ w # ws)) h0 a bs json_tokener_state_eatws json_tokener_state_finish)"
    unfolding x(1) [symmetric] by (rule goes_array_rest) (use vs Cons in simp)
  finally show ?thesis using x(1) Cons by simp
qed

lemma goes_object_text:
  assumes vs: "\<forall>w \<in> snd ` set kvs. reads E f R w \<and> length bs + 1 + jheight w \<le> JSON_TOKENER_MAX_DEPTH"
    and k: "\<forall>k \<in> fst ` set kvs. NUL \<notin> set k" "distinct (map fst kvs)"
  shows "goes E f R (in_container (\<lambda>h a. part_object h a []) h0 a bs json_tokener_state_eatws json_tokener_state_object_field_start)
    (object_text (members E kvs) @ '' }'' @ cs) cs
    (in_container (\<lambda>h a. part_object h a kvs) h0 a bs json_tokener_state_eatws json_tokener_state_finish)"
proof (cases kvs)
  case Nil
  show ?thesis unfolding Nil list.map object_text.simps append.simps
    by (rule goes_trans [OF goes_in_container [OF goes_space] goes_trans [OF goes_in_container [OF goes_resume [OF solid_stops(3)]]
      goes_in_container [OF goes_punctuation(4)]]]) (simp_all add: c_isspace_def)
next
  case (Cons kw ws)
  obtain key w where kw: "kw = (key, w)" by fastforce
  let ?in = "in_container (\<lambda>h a. part_object h a []) h0 a bs json_tokener_state_eatws json_tokener_state_object_field_start"
  let ?with = "with_item (\<lambda>h a. part_object h a []) h0 a
      (bs @ [lvl json_tokener_state_object_value_add json_tokener_state_object_value (Some a) (Some key)]) w"
  obtain x xs where x: "object_more (members E ws) @ '' }'' @ cs = x # xs" "stops x"
    using solid_stops by (cases ws) auto
  have "goes E f R ?in (member_text (key, json_text E w) @ x # xs) (x # xs) ?with"
    by (rule goes_member) (use vs k Cons kw x(2) in simp_all)
  also have "goes E f R ?with (x # xs) cs
      (in_container (\<lambda>h a. part_object h a ([] @ (key, w) # ws)) h0 a bs json_tokener_state_eatws json_tokener_state_finish)"
    unfolding x(1) [symmetric] by (rule goes_object_rest) (use vs k Cons kw in simp_all)
  finally show ?thesis using x(1) Cons kw by simp
qed

lemma readable_reads: "readable E v \<Longrightarrow> reads E f R v"
proof (induction v)
  case JNull
  show ?case
  proof (rule readsI)
    fix h bs c cs
    show "goes E f R (stands h bs (lvl json_tokener_state_start json_tokener_state_start None None))
        (CHR ''n'' # ''ull'' @ c # cs) (c # cs) (done_with h bs JNull)"
      by (rule goes_trans [OF goes_start_literal [where st = json_tokener_state_null]]) (use goes_null in simp_all)
  qed (simp_all add: solid_def c_isspace_def)
next
  case (JBool b)
  show ?case
  proof (rule readsI)
    show "json_text E (JBool b) = (if b then CHR ''t'' else CHR ''f'') # (if b then ''rue'' else ''alse'')" by simp
    fix h bs c cs
    show "goes E f R (stands h bs (lvl json_tokener_state_start json_tokener_state_start None None))
        ((if b then CHR ''t'' else CHR ''f'') # (if b then ''rue'' else ''alse'') @ c # cs) (c # cs) (done_with h bs (JBool b))"
      by (rule goes_trans [OF goes_start_literal [where st = json_tokener_state_boolean]])
        (use goes_true goes_false in \<open>simp_all split: if_split\<close>)
  qed (simp_all add: solid_def c_isspace_def)
next
  case (JInt i)
  obtain c0 s where c0: "fmt_d i = c0 # s" "starts_number c0" using fmt_d_number(3) by blast
  show ?case
  proof (rule readsI)
    show "json_text E (JInt i) = c0 # s" using c0 by simp
    fix h bs c cs assume c: "stops c"
    have scan: "scan_d (fmt_d i) = Some i" using scan_d_fmt_d [of "[]" i] by simp
    have "\<not> (\<exists>c \<in> set (fmt_d i). point_or_exp c)" using fmt_d_number(2) by blast
    then have "goes E f R (numbering h bs [] False) (fmt_d i @ c # cs) (c # cs) (numbering h bs (fmt_d i) False)"
      using goes_number [OF fmt_d_number(1) [of i], where t = "[]" and d = False] by simp
    from goes_trans [OF goes_start_number [OF c0(2)] goes_trans [OF this [unfolded c0(1) append.simps]
      goes_end_int [OF c fmt_d_number(1) scan, unfolded c0(1)]]]
    show "goes E f R (stands h bs (lvl json_tokener_state_start json_tokener_state_start None None))
        (c0 # s @ c # cs) (c # cs) (done_with h bs (JInt i))" by simp
  qed (use starts_number_solid [OF c0(2)] in simp_all)
next
  case (JDouble d)
  then have rb: "set (fmt_lf E d) \<subseteq> set json_number_chars" "\<exists>c \<in> set (fmt_lf E d). point_or_exp c" "scan_lf E (fmt_lf E d) = Some d"
    by (auto simp: reads_back_def)
  obtain c0 s where c0: "fmt_lf E d = c0 # s" "starts_number c0"
    using JDouble by (cases "fmt_lf E d") (auto simp: reads_back_def)
  show ?case
  proof (rule readsI)
    show "json_text E (JDouble d) = c0 # s" using c0 by simp
    fix h bs c cs assume c: "stops c"
    have "goes E f R (numbering h bs [] False) (fmt_lf E d @ c # cs) (c # cs) (numbering h bs (fmt_lf E d) True)"
      using goes_number [OF rb(1), where t = "[]" and d = False] rb(2) by simp
    from goes_trans [OF goes_start_number [OF c0(2)] goes_trans [OF this [unfolded c0(1) append.simps]
      goes_end_double [OF c rb(1,3), unfolded c0(1)]]]
    show "goes E f R (stands h bs (lvl json_tokener_state_start json_tokener_state_start None None))
        (c0 # s @ c # cs) (c # cs) (done_with h bs (JDouble d))" by simp
  qed (use starts_number_solid [OF c0(2)] in simp_all)
next
  case (JString t)
  then have t: "NUL \<notin> set t" by simp
  show ?case
  proof (rule readsI)
    show "json_text E (JString t) = CHR 0x22 # esc t @ [CHR 0x22]" by (simp add: quoted_def)
    fix h bs c cs
    have st: "text_state json_tokener_state_string" by (simp add: text_state_def)
    show "goes E f R (stands h bs (lvl json_tokener_state_start json_tokener_state_start None None))
        (CHR 0x22 # (esc t @ [CHR 0x22]) @ c # cs) (c # cs) (done_with h bs (JString t))"
      using goes_trans [OF goes_start_string goes_trans [OF goes_esc [OF st t, where t = "[]", unfolded append_Nil]
        goes_end_string [OF t]]] by simp
  qed (simp_all add: solid_stops)
next
  case (JArray vs)
  show ?case
  proof (rule readsI)
    show "json_text E (JArray vs) = CHR ''['' # array_text (map (json_text E) vs) @ '' ]''" by simp
    fix h and bs :: "json_tokener_srec list" and c cs assume d: "length bs + jheight (JArray vs) \<le> JSON_TOKENER_MAX_DEPTH"
    have "\<forall>v \<in> set vs. reads E f R v \<and> length bs + 1 + jheight v \<le> JSON_TOKENER_MAX_DEPTH"
      using JArray d jheight_item [of _ vs] by fastforce
    from goes_trans [OF goes_open_array goes_container [OF goes_array_text [OF this] part_array_rep]]
    show "goes E f R (stands h bs (lvl json_tokener_state_start json_tokener_state_start None None))
        (CHR ''['' # (array_text (map (json_text E) vs) @ '' ]'') @ c # cs) (c # cs) (done_with h bs (JArray vs))" by simp
  qed (simp_all add: solid_def c_isspace_def)
next
  case (JObject kvs)
  show ?case
  proof (rule readsI)
    show "json_text E (JObject kvs) = CHR ''{'' # object_text (members E kvs) @ '' }''" by simp
    fix h and bs :: "json_tokener_srec list" and c cs assume d: "length bs + jheight (JObject kvs) \<le> JSON_TOKENER_MAX_DEPTH"
    have vs: "reads E f R v \<and> length bs + 1 + jheight v \<le> JSON_TOKENER_MAX_DEPTH" if kv: "(k, v) \<in> set kvs" for k v
    proof
      have "v \<in> Basic_BNFs.snds (k, v)" by (simp add: snds.intros)
      then show "reads E f R v" using JObject.IH [OF kv] JObject.prems kv by auto
      show "length bs + 1 + jheight v \<le> JSON_TOKENER_MAX_DEPTH"
        using d jheight_member [OF kv] by simp
    qed
    have k: "\<forall>k \<in> fst ` set kvs. NUL \<notin> set k" "distinct (map fst kvs)" using JObject.prems by auto
    have "\<forall>w \<in> snd ` set kvs. reads E f R w \<and> length bs + 1 + jheight w \<le> JSON_TOKENER_MAX_DEPTH" using vs by fastforce
    from goes_trans [OF goes_open_object goes_container [OF goes_object_text [OF this k] part_object_rep]]
    show "goes E f R (stands h bs (lvl json_tokener_state_start json_tokener_state_start None None))
        (CHR ''{'' # (object_text (members E kvs) @ '' }'') @ c # cs) (c # cs) (done_with h bs (JObject kvs))" by simp
  qed (simp_all add: solid_def c_isspace_def)
qed

section \<open>json_tokener_parse\<close>

lemma new_tokener_fresh:
  "all_mem E \<Longrightarrow> json_tokener_new E f h = Some (Inr (t, h'))
     \<Longrightarrow> depth t = 0 \<and> stack t ! 0 = fresh_level \<and> h' = h"
  by (auto simp: json_tokener_new_def all_mem_def json_tokener_reset_def json_tokener_reset_level_def aget_def
      fresh_level_def zero_level_def JSON_TOKENER_MAX_DEPTH_def)

lemma parse_json_text:
  assumes E: "all_mem E" and h: "client_ok h R" and f: "JSON_TOKENER_MAX_DEPTH < f"
    and v: "readable E v" "jheight v \<le> JSON_TOKENER_MAX_DEPTH"
  shows "\<exists>p h'. json_tokener_parse E f h (json_text E v) = Some (Inr (Value p, h'))
     \<and> rep (next_addr h) h' p v \<and> grows {} h h'"
proof -
  obtain t where t: "json_tokener_new E f h = Some (Inr (t, h))" "tokener_ok t h R" using new_tokener_ok [OF E h] by blast
  have top: "depth t = 0" "stack t ! 0 = fresh_level" using new_tokener_fresh [OF E t(1)] by simp_all
  let ?p0 = "\<lparr>ps_tok = t\<lparr>char_offset := 0, err := json_tokener_success\<rparr>, ps_heap = h, ps_obj = None\<rparr>"
  have "rest_ok R ?p0"
    using t(2) rest_ok_err(1) [where R = R and p = "\<lparr>ps_tok = t\<lparr>char_offset := 0\<rparr>, ps_heap = h, ps_obj = None\<rparr>"]
      rest_ok_err(2) [where R = R and p = "\<lparr>ps_tok = t, ps_heap = h, ps_obj = None\<rparr>"]
    by (simp add: tokener_ok_def)
  then have p0: "fine R ?p0" by (auto simp: rest_ok_def fine_def)
  have at0: "stands h [] fresh_level ?p0" using top by (simp add: stands_def top_rec_def)
  have "goes E f R (stands h [] fresh_level) (json_text E v @ [NUL]) [NUL] (done_with h [] v)"
    by (rule reads_goes [OF readable_reads [OF v(1)]]) (use v(2) solid_stops in simp_all)
  then obtain p1 where p1: "fine R p1" "done_with h [] v p1"
      "parse_loop E f (-1) (json_text E v @ [NUL]) ?p0 = parse_loop E f (-1) [NUL] p1"
    using E f p0 at0 unfolding goes_def by blast
  obtain h' vp where h': "stands h' [] (lvl json_tokener_state_eatws json_tokener_state_finish vp None) p1"
      "grows {} h h'" "rep (next_addr h) h' vp v" using p1(2) by (auto simp: done_with_def)
  let ?top = "lvl json_tokener_state_finish json_tokener_state_finish vp None"
  have "goes E f R (stands h' [] (lvl json_tokener_state_eatws json_tokener_state_finish vp None)) [NUL] [NUL] (stands h' [] ?top)"
    by (rule goes_resume [OF solid_stops(8)])
  then obtain p2 where p2: "fine R p2" "stands h' [] ?top p2"
      "parse_loop E f (-1) [NUL] p1 = parse_loop E f (-1) [NUL] p2"
    using E f p1(1) h'(1) unfolding goes_def by blast
  have s: "depth (ps_tok p2) = 0" "top_rec (ps_tok p2) = ?top" "ps_heap p2 = h'" "err (ps_tok p2) = json_tokener_success"
    using p2(2) by (simp_all add: stands_def)
  have "dispatch E f NUL p2 = Some (Inr (Out, p2))"
    using dispatch_at [OF p2(1,2), of E f NUL] s(1) by (simp add: st_finish_def Let_def)
  then have "redo_char REDO_FUEL E f NUL p2 = Some (Inr (Out, p2))" by (simp add: REDO_FUEL_def eval_nat_numeral)
  then have "parse_loop E f (-1) [NUL] p2 = Some (Inr p2)"
    using p2(1) by (subst parse_loop.simps) (simp add: fine_def)
  then have loop: "parse_loop E f (-1) (json_text E v @ [NUL]) ?p0 = Some (Inr p2)" by (simp only: p1(3) p2(3))
  have stk: "stack (ps_tok p2) \<noteq> []" "stack (ps_tok p2) ! 0 = ?top"
  proof -
    have "length (stack (ps_tok p2)) = JSON_TOKENER_MAX_DEPTH" by (rule stands_fine [OF p2(1,2)])
    then show "stack (ps_tok p2) \<noteq> []" by (auto simp: JSON_TOKENER_MAX_DEPTH_def)
    show "stack (ps_tok p2) ! 0 = ?top" using s(1,2) by (simp add: top_rec_def)
  qed
  then have tl: "top_level (ps_tok p2) = Inr ?top" using s(1) by (simp add: top_level_def aget_def)
  obtain f' where f': "f = Suc f'" using f by (cases f) auto
  have "vp = None \<or> (\<exists>a j. vp = Some a \<and> objs h' a = Some j \<and> 0 < ref_count j)" using current_counted [OF p2(1,2)] by simp
  from get_put_back [OF this, of f'] obtain h1 where
    h1: "json_object_get h' vp = Inr (vp, h1)" "json_object_put f h1 vp = Some (Inr h')" unfolding f' by blast
  have ex: "json_tokener_parse_ex E f h t (json_text E v @ [NUL]) (-1) = Some (Inr (vp, ps_tok p2, h1))"
    using loop tl h1(1) s(3,4) by (simp add: json_tokener_parse_ex_def)
  have "json_tokener_free f h1 (ps_tok p2) = Some (Inr h')"
    using h1(2) s(1) stk by (simp add: json_tokener_free_def json_tokener_reset_def json_tokener_reset_level_def aget_def)
  then have "json_tokener_parse E f h (json_text E v) = Some (Inr (Value vp, h'))"
    using t(1) ex s(4) by (simp add: json_tokener_parse_def)
  then show ?thesis using h'(2,3) by blast
qed



text \<open>Printing keeps the counts right.\<close>

lemma own_buffer_client_ok:
  assumes "client_ok h R" "own_buffer_set h p h'"
  shows "client_ok h' R"
proof (cases p)
  case None
  then show ?thesis using assms by (simp add: own_buffer_set_def)
next
  case (Some a)
  then obtain j pb where j: "objs h a = Some j" "json_object_ok j" "pb_inv pb" "h' = jstore h a (j\<lparr>own_pb := Some pb\<rparr>)"
    using assms(2) by (auto simp: own_buffer_set_def)
  obtain rk where rk: "counts_ok rk h ({#} + R) {}" "tables_filled h" using assms(1) by (auto simp: client_ok_def refs_ok_def)
  have "json_object_ok (j\<lparr>own_pb := Some pb\<rparr>)" by (rule json_object_ok_own_pb [OF j(2,3)])
  moreover have "rk b < rk a" if "b \<in># kids (j\<lparr>own_pb := Some pb\<rparr>)" for b using that rk(1) j(1) by (simp add: counts_ok_def)
  ultimately have "counts_ok rk h' ({#} + R) {}" unfolding j(4) by (intro counts_ok_set [OF rk(1) j(1)]) simp_all
  moreover have "tables_filled h'" using rk(2) j(1) by (auto simp: tables_filled_def j(4))
  ultimately show ?thesis by (auto simp: client_ok_def refs_ok_def)
qed

text \<open>
  C1: Printing a value and parsing the text gives a new object that stands for the same value and
  leaves the printed one as it was: for strings and distinct keys without NUL, at most 32 levels,
  and doubles that %lf writes so that sscanf reads the same double.
\<close>

theorem print_then_parse:
  assumes E: "all_mem E" "printf_ok E" and h: "client_ok h R" and f: "JSON_TOKENER_MAX_DEPTH < f"
    and v: "rep n h p v" "readable E v" "jheight v \<le> JSON_TOKENER_MAX_DEPTH"
  shows "\<exists>s h1 q h2. json_object_to_json_string E f h p = Some (Inr (Some s, h1))
     \<and> json_tokener_parse E f h1 s = Some (Inr (Value q, h2)) \<and> rep n h2 p v \<and> rep (next_addr h1) h2 q v"
proof -
  obtain h1 where h1: "json_object_to_json_string E f h p = Some (Inr (Some (json_text E v), h1))" "own_buffer_set h p h1"
    using to_json_string_works [OF E v(1), of f] v(3) f by auto
  obtain q h2 where h2: "json_tokener_parse E f h1 (json_text E v) = Some (Inr (Value q, h2))" "rep (next_addr h1) h2 q v"
      "grows {} h1 h2"
    using parse_json_text [OF E(1) own_buffer_client_ok [OF h h1(2)] f v(2,3)] by blast
  have "rep n h2 p v" using rep_grows [OF own_buffer_rep [OF h1(2) v(1)] h2(3)] by simp
  then show ?thesis using h1(1) h2(1,2) by blast
qed

lemma print_then_parse_witness:
  "\<exists>h p h1 q h2. json_object_new_string plain_env empty_heap ''a/b'' = (p, h)
     \<and> json_object_to_json_string plain_env 40 h p = Some (Inr (Some (quoted ''a/b''), h1))
     \<and> json_tokener_parse plain_env 40 h1 (quoted ''a/b'') = Some (Inr (Value q, h2)) \<and> rep 0 h2 q (JString ''a/b'')"
proof -
  let ?s = "''a/b''"
  obtain h p where h: "json_object_new_string plain_env empty_heap ?s = (p, h)" "rep 0 h p (JString ?s)"
    using new_values_rep(4) [OF all_mem_plain_env, of empty_heap ?s] by (auto simp: empty_heap_def)
  have "client_ok h (ptr_refs p + {#})"
    by (rule client_ok_make [OF client_ok_empty all_mem_plain_env]) (unfold new_json_def, use h(1) [symmetric] in blast)
  moreover have p: "printf_ok plain_env" by (simp add: printf_ok_def plain_env_def)
  ultimately obtain s h1 q h2 where r: "json_object_to_json_string plain_env 40 h p = Some (Inr (Some s, h1))"
      "json_tokener_parse plain_env 40 h1 s = Some (Inr (Value q, h2))" "rep (next_addr h1) h2 q (JString ?s)"
    using print_then_parse [OF all_mem_plain_env p, of h "ptr_refs p + {#}" 40 0 p "JString ?s"] h(2)
    by (auto simp: JSON_TOKENER_MAX_DEPTH_def)
  have "s = quoted ?s" using to_json_string_works [OF all_mem_plain_env p h(2), of 40] r(1) by auto
  moreover have "rep 0 h2 q (JString ?s)" by (rule rep_grows [OF r(3) grows_refl [of "{}"]]) simp_all
  ultimately show ?thesis using h(1) r(1,2) by blast
qed

section \<open>What the parser accepts although it should not\<close>

text \<open>
  The unfinished text "[1/*" is accepted and gives the int 1, the value inside the array, while "[1"
  is refused: at the end of the text only the innermost level is looked at.
\<close>

theorem unfinished_comment_accepted:
  "(case json_tokener_parse plain_env 40 empty_heap ''[1/*'' of
      Some (Inr (Value p, h)) \<Rightarrow> json_object_is_type h p json_type_int = Inr True \<and> json_object_get_int plain_env h p = Inr 1
    | _ \<Rightarrow> False)
   \<and> (case json_tokener_parse plain_env 40 empty_heap ''[1'' of
      Some (Inr (Error_Ptr e, h)) \<Rightarrow> e = - error_code json_tokener_error_parse_array | _ \<Rightarrow> False)"
  by code_simp

end
