(* ===== verification/Json_File.thy ===== *)
theory Json_File
  imports Json_Roundtrip
begin

text \<open>
  \<open>texteditor/json/json_util.c\<close>: a value read from a file and written to one. Files are a map from names
  to their bytes; \<open>file_io\<close> says which of them can be opened and how much each call of \<open>read\<close> and \<open>write\<close>
  moves (a negative number: it fails). The logging macros expand to nothing.
\<close>

type_synonym files = "char list \<Rightarrow> char list option"

record file_io =
  can_open :: "char list \<Rightarrow> bool"
  read_some :: "nat \<Rightarrow> int"
  write_some :: "nat \<Rightarrow> int"

definition JSON_FILE_BUF_SIZE :: nat where "JSON_FILE_BUF_SIZE = 4096"

section \<open>Reading\<close>

text \<open>
  \<open>read(fd, buf, n)\<close> gives at least one byte unless the file is at its end. The loop is left with the
  sign of the last result; \<open>k\<close> counts the calls.
\<close>

definition read_size :: "file_io \<Rightarrow> nat \<Rightarrow> nat" where
  "read_size d k = min JSON_FILE_BUF_SIZE (max 1 (nat (read_some d k)))"

function read_loop :: "cenv \<Rightarrow> file_io \<Rightarrow> nat \<Rightarrow> char list \<Rightarrow> printbuf \<Rightarrow> (bool \<times> printbuf) res" where
  "read_loop E d k ahead pb =
     (if read_some d k < 0 then Inr (False, pb)
      else if ahead = [] then Inr (True, pb)
      else rbind (printbuf_memappend (mem E) pb (take (read_size d k) ahead)) (\<lambda>(r, pb).
             read_loop E d (k + 1) (drop (read_size d k) ahead) pb))"
  by pat_completeness auto

termination
  by (relation "measure (\<lambda>(E, d, k, ahead, pb). length ahead)")
    (auto simp: read_size_def JSON_FILE_BUF_SIZE_def)

declare read_loop.simps [simp del]

definition json_object_from_file ::
  "cenv \<Rightarrow> file_io \<Rightarrow> nat \<Rightarrow> files \<Rightarrow> json_heap \<Rightarrow> char list \<Rightarrow> (json_result \<times> json_heap) run" where
  "json_object_from_file E d f fs h name =
     (case (if can_open d name then fs name else None) of
        None \<Rightarrow> Some (Inr (Error_Ptr (-1), h))
      | Some content \<Rightarrow>
          (case printbuf_new (mem E) of
             None \<Rightarrow> Some (Inr (Error_Ptr (-1), h))
           | Some pb \<Rightarrow> ubind (Some (read_loop E d 0 content pb)) (\<lambda>(ok, pb).
               if \<not> ok then Some (Inr (Error_Ptr (-1), h))
               else ubind (Some (cstr (buf pb))) (\<lambda>s. json_tokener_parse E f h s))))"

section \<open>Writing\<close>

text \<open>
  The loop around \<open>write\<close> ends when all is written or a call fails; a call that writes nothing is
  repeated. \<open>written\<close> is what the file holds so far.
\<close>

partial_function (option) write_loop ::
  "file_io \<Rightarrow> nat \<Rightarrow> char list \<Rightarrow> char list \<Rightarrow> (bool \<times> char list) option" where
  "write_loop d k written ahead =
     (if ahead = [] then Some (True, written)
      else if write_some d k < 0 then Some (False, written)
      else write_loop d (k + 1) (written @ take (nat (write_some d k)) ahead) (drop (nat (write_some d k)) ahead))"

definition json_object_to_file ::
  "cenv \<Rightarrow> file_io \<Rightarrow> nat \<Rightarrow> files \<Rightarrow> json_heap \<Rightarrow> char list \<Rightarrow> jptr \<Rightarrow> (int \<times> files \<times> json_heap) run" where
  "json_object_to_file E d f fs h name p =
     (if p = None then Some (Inr (-1, fs, h))
      else if \<not> can_open d name then Some (Inr (-1, fs, h))
      else ubind (json_object_to_json_string E f h p) (\<lambda>(s, h).
        case s of
          None \<Rightarrow> Some (Inr (-1, fs(name \<mapsto> []), h))
        | Some s \<Rightarrow>
            (case write_loop d 0 [] (take (length s mod 2 ^ 32) s) of
               None \<Rightarrow> None
             | Some (ok, written) \<Rightarrow> Some (Inr (if ok then 0 else -1, fs(name \<mapsto> written), h)))))"

section \<open>What they do\<close>

lemma read_loop_all:
  assumes E: "all_mem E" and d: "\<forall>k. 0 \<le> read_some d k"
  shows "pb_inv pb \<Longrightarrow> \<exists>pb'. read_loop E d k ahead pb = Inr (True, pb') \<and> pb_inv pb' \<and> pb_text pb' = pb_text pb @ ahead
     \<and> (pb_terminated pb \<or> ahead \<noteq> [] \<longrightarrow> pb_terminated pb')"
proof (induction "length ahead" arbitrary: k ahead pb rule: less_induct)
  case less
  show ?case
  proof (cases "ahead = []")
    case True
    then show ?thesis using d less.prems by (subst read_loop.simps) (simp add: not_less)
  next
    case False
    let ?n = "read_size d k"
    have n: "0 < ?n" by (simp add: read_size_def JSON_FILE_BUF_SIZE_def)
    obtain pb1 where 1: "printbuf_memappend (mem E) pb (take ?n ahead) = Inr (int (length (take ?n ahead)), pb1)"
        "pb_inv pb1" "pb_terminated pb1" "pb_text pb1 = pb_text pb @ take ?n ahead"
      using memappend_spec [OF less.prems mem_all [OF E]] by blast
    have "length (drop ?n ahead) < length ahead" using n False by simp
    from less.hyps [OF this 1(2), of "k + 1"] obtain pb' where "read_loop E d (k + 1) (drop ?n ahead) pb1 = Inr (True, pb')"
        "pb_inv pb'" "pb_text pb' = pb_text pb1 @ drop ?n ahead" "pb_terminated pb'" using 1(3) by blast
    moreover have "\<not> read_some d k < 0" using d by (simp add: not_less)
    ultimately show ?thesis using False 1(1,4) by (subst read_loop.simps) simp
  qed
qed

text \<open>Reading a file that is not empty is parsing what it holds.\<close>

lemma from_file_parses:
  assumes E: "all_mem E" and d: "\<forall>k. 0 \<le> read_some d k" and name: "can_open d name" "fs name = Some s" "s \<noteq> []"
  shows "json_object_from_file E d f fs h name = json_tokener_parse E f h (takeWhile (\<lambda>c. c \<noteq> NUL) s)"
proof -
  obtain pb where pb: "printbuf_new (mem E) = Some pb" using E by (auto simp: printbuf_new_def mem_all)
  then have inv: "pb_inv pb" "pb_text pb = []" using printbuf_new_inv by blast+
  obtain pb' where "read_loop E d 0 s pb = Inr (True, pb')" "pb_inv pb'" "pb_text pb' = s" "pb_terminated pb'"
    using read_loop_all [OF E d inv(1), of 0 s] name(3) inv(2) by auto
  then show ?thesis using pb name(1,2) by (simp add: json_object_from_file_def cstr_pb)
qed

lemma write_loop_all:
  assumes d: "\<forall>k. 0 < write_some d k"
  shows "write_loop d k written ahead = Some (True, written @ ahead)"
proof (induction "length ahead" arbitrary: k written ahead rule: less_induct)
  case less
  show ?case
  proof (cases "ahead = []")
    case True
    then show ?thesis by (subst write_loop.simps) simp
  next
    case False
    let ?n = "nat (write_some d k)"
    have n: "0 < write_some d k" using d by blast
    then have "length (drop ?n ahead) < length ahead" using False by simp
    from less [OF this, of "k + 1" "written @ take ?n ahead"] show ?thesis using n False
      by (subst write_loop.simps) simp
  qed
qed


text \<open>An environment in which files can be opened and every call moves three bytes.\<close>

definition plain_io :: file_io where
  "plain_io = \<lparr>can_open = (\<lambda>_. True), read_some = (\<lambda>_. 3), write_some = (\<lambda>_. 3)\<rparr>"


text \<open>
  Reading a file that exists and is empty parses a buffer nothing was written to: the first byte
  read is uninitialised memory.
\<close>

theorem json_object_from_file_empty:
  assumes "all_mem E" "can_open d name" "fs name = Some []" "0 \<le> read_some d 0"
  shows "json_object_from_file E d f fs h name = Some (Inl Uninitialised)"
proof -
  obtain pb where pb: "printbuf_new (mem E) = Some pb" using assms(1) by (auto simp: printbuf_new_def mem_all)
  moreover have "read_loop E d 0 [] pb = Inr (True, pb)" using assms(4) by (subst read_loop.simps) simp
  ultimately show ?thesis using assms(2,3) printbuf_new_unterminated [OF pb] by (simp add: json_object_from_file_def)
qed

lemma json_object_from_file_empty_witness:
  "json_object_from_file plain_env plain_io 40 (\<lambda>_. Some []) empty_heap ''f'' = Some (Inl Uninitialised)"
  by (rule json_object_from_file_empty) (simp_all add: plain_io_def)

text \<open>A call of \<open>write\<close> that fails leaves the file with the part that was written: the old content is gone.\<close>

lemma to_file_failure_truncates:
  assumes "all_mem E" "printf_ok E" "rep n h p v" "p \<noteq> None" "jheight v \<le> f" "length (json_text E v) < 2 ^ 32"
    and d: "can_open d name" "write_some d 0 < 0"
  shows "\<exists>h'. json_object_to_file E d f fs h name p = Some (Inr (-1, fs(name \<mapsto> []), h'))"
proof -
  obtain h1 where "json_object_to_json_string E f h p = Some (Inr (Some (json_text E v), h1))"
    using to_json_string_works [OF assms(1-3,5)] by blast
  moreover have "write_loop d 0 [] (json_text E v) = Some (False, [])"
    using d(2) json_text_nonempty [OF assms(2)] by (subst write_loop.simps) simp
  ultimately show ?thesis using assms(4,6) d(1) by (cases p) (simp_all add: json_object_to_file_def)
qed

end
