(* ===== verification/Res_Package.thy ===== *)
theory Res_Package
  imports Json_File
begin

text \<open>
  The resource packages \<open>tools/res2c\<close> reads (\<open>resource.c\<close>): a file that was read into memory, with a
  table of sections, in each a sorted table of ids, and sections that may lie in files of their own. A
  pointer into such a block is the block and an offset, and every read is checked against the length of
  the block. Words are read with the byte order of the machine, lowest byte first.
\<close>

section \<open>Memory\<close>

type_synonym mptr = "char list \<times> int"

definition word_le :: "char list \<Rightarrow> 32 word" where
  "word_le cs = word_of_int (foldr (\<lambda>c n. of_char c + 256 * n) cs 0)"

definition rd32 :: "char list \<Rightarrow> int \<Rightarrow> 32 word res" where
  "rd32 b off = (if 0 \<le> off \<and> off + 4 \<le> int (length b) then Inr (word_le (take 4 (drop (nat off) b)))
                 else Inl Out_Of_Bounds)"

definition str_at :: "mptr \<Rightarrow> char list res" where
  "str_at p = (if snd p < 0 then Inl Out_Of_Bounds else cstr (map Some (drop (nat (snd p)) (fst p))))"

section \<open>Layout of a package\<close>

definition sizeof_NCSRM_HEADER :: int where "sizeof_NCSRM_HEADER = 48"
definition sizeof_NCSRM_TYPEITEM :: int where "sizeof_NCSRM_TYPEITEM = 12"
definition sizeof_NCSRM_IDITEM :: int where "sizeof_NCSRM_IDITEM = 12"
definition sizeof_NCSRM_SECTHEADER :: int where "sizeof_NCSRM_SECTHEADER = 8"
definition sizeof_NCSRM_DEFLOCALE_INFO :: int where "sizeof_NCSRM_DEFLOCALE_INFO = 8"
definition sizeof_NCSRM_LOCALEITEM :: int where "sizeof_NCSRM_LOCALEITEM = 16"

definition off_nr_sect :: int where "off_nr_sect = 44"

definition NCSRT_STRING :: "32 word" where "NCSRT_STRING = 1"
definition NCSRT_TEXT :: "32 word" where "NCSRT_TEXT = 2"
definition NCSRT_IMAGE :: "32 word" where "NCSRT_IMAGE = 4"

record MAPFILELIST =
  mf_data :: "char list"
  mf_size :: int
  mf_filename_id :: "32 word"

record RPINFO =
  rp_head :: "MAPFILELIST list"
  rp_ref :: int
  rp_data :: "char list"
  rp_size :: int

section \<open>The list of mapped files\<close>

definition sizeof_MAPFILELIST :: int where "sizeof_MAPFILELIST = 40"

definition append_list :: "cenv \<Rightarrow> RPINFO \<Rightarrow> char list \<Rightarrow> 32 word \<Rightarrow> int \<Rightarrow> int \<times> RPINFO" where
  "append_list E pkg data filename_id data_size =
     (if \<not> mem E sizeof_MAPFILELIST then (-1, pkg)
      else (0, pkg\<lparr>rp_head := rp_head pkg @ [\<lparr>mf_data = data, mf_size = data_size, mf_filename_id = filename_id\<rparr>]\<rparr>))"

text \<open>The search stops at the last entry without looking at it.\<close>

fun find_list :: "MAPFILELIST list \<Rightarrow> 32 word \<Rightarrow> MAPFILELIST option" where
  "find_list [] filename_id = None"
| "find_list [x] filename_id = None"
| "find_list (x # y # xs) filename_id = (if mf_filename_id x = filename_id then Some x else find_list (y # xs) filename_id)"

definition del_alllist :: "RPINFO \<Rightarrow> RPINFO" where
  "del_alllist pkg = pkg\<lparr>rp_head := []\<rparr>"

text \<open>
  \<open>TRUE\<close> and \<open>FALSE\<close> are both defined as 0 in \<open>resource.h\<close>, so \<open>found == TRUE\<close> always holds and the pointer
  that is freed was never set when nothing was found.
\<close>

definition RES_FALSE :: int where "RES_FALSE = 0"
definition RES_TRUE :: int where "RES_TRUE = 0"

definition del_list :: "RPINFO \<Rightarrow> 32 word \<Rightarrow> (int \<times> RPINFO) res" where
  "del_list pkg filename_id =
     (if rp_head pkg = [] then Inr (-1, pkg)
      else let other = (\<lambda>x. mf_filename_id x \<noteq> filename_id);
               here = dropWhile other (rp_head pkg);
               found = (if here = [] then RES_FALSE else RES_TRUE) in
        if found = RES_TRUE
        then (case here of
                [] \<Rightarrow> Inl Wild_Pointer
              | x # xs \<Rightarrow> Inr (0, pkg\<lparr>rp_head := takeWhile other (rp_head pkg) @ xs\<rparr>))
        else Inr (-1, pkg))"

section \<open>Searching\<close>

text \<open>\<open>i\<close> stays 0: the loop ends at a type that matches or behind the block.\<close>

function search_type_loop :: "char list \<Rightarrow> 32 word \<Rightarrow> 32 word \<Rightarrow> int \<Rightarrow> mptr option res" where
  "search_type_loop b nr_sect ty off =
     (if 0 < nr_sect
      then rbind (rd32 b off) (\<lambda>t.
             if ty AND t \<noteq> 0 then Inr (Some (b, off))
             else search_type_loop b nr_sect ty (off + sizeof_NCSRM_TYPEITEM))
      else Inr None)"
  by pat_completeness auto

termination
  by (relation "measure (\<lambda>(b, nr, ty, off). nat (int (length b) - off))")
    (auto simp: rd32_def sizeof_NCSRM_TYPEITEM_def split: if_splits)

declare search_type_loop.simps [simp del]

definition search_type_item :: "char list \<Rightarrow> 16 word \<Rightarrow> mptr option res" where
  "search_type_item b ty = rbind (rd32 b off_nr_sect) (\<lambda>n. search_type_loop b n (ucast ty) sizeof_NCSRM_HEADER)"

text \<open>
  \<open>low\<close>, \<open>high\<close> and \<open>mid\<close> are \<open>int\<close>s. A size of \<open>2^31\<close> or more turns negative in \<open>high\<close>, while the
  comparison after the loop is one of unsigned numbers.
\<close>

function bsearch_loop :: "char list \<Rightarrow> int \<Rightarrow> 32 word \<Rightarrow> int \<Rightarrow> int \<Rightarrow> int res" where
  "bsearch_loop b base_iditem res_id low high =
     (if low < high
      then if low + high \<ge> 2 ^ 31 then Inl Signed_Overflow
           else let mid = (low + high) div 2 in
             rbind (rd32 b (base_iditem + mid * sizeof_NCSRM_IDITEM)) (\<lambda>i.
               if i < res_id then bsearch_loop b base_iditem res_id (mid + 1) high
               else bsearch_loop b base_iditem res_id low mid)
      else Inr low)"
  by pat_completeness auto

termination
  by (relation "measure (\<lambda>(b, base_iditem, res_id, low, high). nat (high - low))") auto

declare bsearch_loop.simps [simp del]

definition binary_search_iditem :: "mptr option \<Rightarrow> 32 word \<Rightarrow> mptr option res" where
  "binary_search_iditem sect_base res_id =
     (case sect_base of
        None \<Rightarrow> Inr None
      | Some (b, s) \<Rightarrow>
          rbind (rd32 b (s + 4)) (\<lambda>size_maps.
          rbind (bsearch_loop b (s + sizeof_NCSRM_SECTHEADER) res_id 0 (sint size_maps)) (\<lambda>low.
            let p = s + sizeof_NCSRM_SECTHEADER + low * sizeof_NCSRM_IDITEM in
            if word_of_int low < size_maps
            then rbind (rd32 b p) (\<lambda>i. Inr (if i = res_id then Some (b, p) else None))
            else Inr None)))"

section \<open>Files\<close>

text \<open>
  Without \<open>mmap\<close> a file is read into a new block; the block is filled before the result of \<open>malloc\<close>
  is looked at.
\<close>

definition mmap_file :: "cenv \<Rightarrow> files \<Rightarrow> char list option \<Rightarrow> char list option res" where
  "mmap_file E fs file_name =
     (case file_name of
        None \<Rightarrow> Inr None
      | Some name \<Rightarrow>
          (case fs name of
             None \<Rightarrow> Inr None
           | Some content \<Rightarrow>
               if mem E (int (length content)) then Inr (Some content)
               else if content = [] then Inr None
               else Inl Null_Deref))"

text \<open>
  The name of a file is a string of the package, which \<open>ncsGetString\<close> looks up; this is the argument
  \<open>getstr\<close>, tied back to \<open>ncsGetString\<close> below. A \<open>HPACKAGE\<close> is the package it points to, if any.
\<close>

type_synonym HPACKAGE = "RPINFO option"

type_synonym string_getter = "HPACKAGE \<Rightarrow> 32 word \<Rightarrow> (mptr option \<times> HPACKAGE) run"

definition find_mmap_file ::
  "cenv \<Rightarrow> files \<Rightarrow> string_getter \<Rightarrow> HPACKAGE \<Rightarrow> 32 word \<Rightarrow> (mptr option \<times> HPACKAGE) run" where
  "find_mmap_file E fs getstr package filename_id =
     (if filename_id = 0 then Some (Inr (None, package))
      else case package of
        None \<Rightarrow> Some (Inl Null_Deref)
      | Some pkg \<Rightarrow>
          (case find_list (rp_head pkg) filename_id of
             Some x \<Rightarrow> Some (Inr (Some (mf_data x, 0), package))
           | None \<Rightarrow>
               ubind (getstr package filename_id) (\<lambda>(name, package).
               ubind (Some (case name of None \<Rightarrow> Inr None | Some p \<Rightarrow> rbind (str_at p) (\<lambda>s. Inr (Some s)))) (\<lambda>name.
               ubind (Some (mmap_file E fs name)) (\<lambda>data.
                 case data of
                   None \<Rightarrow> Some (Inr (None, package))
                 | Some d \<Rightarrow>
                     (case package of
                        None \<Rightarrow> Some (Inl Null_Deref)
                      | Some pkg \<Rightarrow>
                          Some (Inr (Some (d, 0), Some (snd (append_list E pkg d filename_id (int (length d))))))))))))"

definition get_res_sectaddr ::
  "cenv \<Rightarrow> files \<Rightarrow> string_getter \<Rightarrow> HPACKAGE \<Rightarrow> 32 word \<Rightarrow> (mptr option \<times> HPACKAGE) run" where
  "get_res_sectaddr E fs getstr hPackage ty =
     (case hPackage of
        None \<Rightarrow> Some (Inr (None, hPackage))
      | Some pkg \<Rightarrow>
          ubind (Some (search_type_item (rp_data pkg) (ucast ty))) (\<lambda>type_item.
            case type_item of
              None \<Rightarrow> Some (Inr (None, hPackage))
            | Some (b, t) \<Rightarrow>
                ubind (Some (rd32 b (t + 8))) (\<lambda>offset.
                  if offset = 0
                  then ubind (Some (rd32 b (t + 4))) (\<lambda>filename_id. find_mmap_file E fs getstr hPackage filename_id)
                  else Some (Inr (Some (rp_data pkg, uint offset), hPackage)))))"

section \<open>Locales\<close>

text \<open>
  The locale of the program is kept in a buffer of 8 bytes, the locale of an entry is put together in
  one of 20; both are written by \<open>sprintf\<close> without a bound. \<open>locale_name\<close> is what it writes.
\<close>

definition locale_name :: "int \<Rightarrow> mptr \<Rightarrow> mptr \<Rightarrow> char list res" where
  "locale_name cap language country =
     rbind (str_at language) (\<lambda>l. rbind (str_at country) (\<lambda>c.
       let s = l @ ''_'' @ c in if int (length s) + 1 \<le> cap then Inr s else Inl Out_Of_Bounds))"

definition sizeof_gLocaleValue :: int where "sizeof_gLocaleValue = 8"
definition sizeof_cur_locale :: int where "sizeof_cur_locale = 20"

definition en_locale :: "char list" where "en_locale = ''en_US''"
definition initial_locale :: "char list" where "initial_locale = ''en_US''"

definition ncsGetDefaultLocale :: "char list \<Rightarrow> char list" where
  "ncsGetDefaultLocale gLocaleValue = gLocaleValue"

definition ncsSetDefaultLocale :: "mptr \<Rightarrow> mptr \<Rightarrow> char list res" where
  "ncsSetDefaultLocale language country = locale_name sizeof_gLocaleValue language country"

text \<open>The entries that are left to look at are counted instead of those seen.\<close>

fun locale_loop ::
  "cenv \<Rightarrow> files \<Rightarrow> string_getter \<Rightarrow> HPACKAGE \<Rightarrow> mptr \<Rightarrow> nat \<Rightarrow> int \<Rightarrow> char list \<Rightarrow> (mptr option \<times> HPACKAGE) run" where
  "locale_loop E fs getstr handle sect 0 loc def_locale = Some (Inr (None, handle))"
| "locale_loop E fs getstr handle sect (Suc n) loc def_locale =
     ubind (Some (locale_name sizeof_cur_locale (fst sect, loc) (fst sect, loc + 4))) (\<lambda>cur_locale.
       if def_locale = cur_locale
       then ubind (Some (rd32 (fst sect) (loc + 12))) (\<lambda>offset.
              if offset = 0
              then ubind (Some (rd32 (fst sect) (loc + 8))) (\<lambda>filename_id. find_mmap_file E fs getstr handle filename_id)
              else Some (Inr (Some (fst sect, snd sect + uint offset), handle)))
       else locale_loop E fs getstr handle sect n (loc + sizeof_NCSRM_LOCALEITEM) def_locale)"

definition get_locale_base_addr ::
  "cenv \<Rightarrow> files \<Rightarrow> string_getter \<Rightarrow> HPACKAGE \<Rightarrow> mptr \<Rightarrow> int \<Rightarrow> char list \<Rightarrow> (mptr option \<times> HPACKAGE) run" where
  "get_locale_base_addr E fs getstr handle sect loc def_locale =
     ubind (Some (rd32 (fst sect) (snd sect + 4))) (\<lambda>size_maps.
       locale_loop E fs getstr handle sect (unat size_maps) loc def_locale)"

section \<open>Strings\<close>

definition getIDItem ::
  "cenv \<Rightarrow> files \<Rightarrow> string_getter \<Rightarrow> char list \<Rightarrow> HPACKAGE \<Rightarrow> 32 word \<Rightarrow> ((mptr option \<times> mptr option) \<times> HPACKAGE) run" where
  "getIDItem E fs getstr gLocaleValue handle res_id =
     ubind (get_res_sectaddr E fs getstr handle (drop_bit 16 res_id)) (\<lambda>(sect_addr, handle).
       case sect_addr of
         None \<Rightarrow> Some (Inr ((None, None), handle))
       | Some (b, s) \<Rightarrow>
           ubind (if drop_bit 16 res_id = NCSRT_TEXT
                  then let loc = s + sizeof_NCSRM_SECTHEADER + sizeof_NCSRM_DEFLOCALE_INFO in
                    ubind (get_locale_base_addr E fs getstr handle (b, s) loc (ncsGetDefaultLocale gLocaleValue)) (\<lambda>(a, handle).
                      if a = None then get_locale_base_addr E fs getstr handle (b, s) loc en_locale
                      else Some (Inr (a, handle)))
                  else Some (Inr (sect_addr, handle))) (\<lambda>(sect_addr, handle).
           ubind (Some (binary_search_iditem sect_addr res_id)) (\<lambda>item.
             Some (Inr ((item, sect_addr), handle)))))"

definition get_string_body ::
  "cenv \<Rightarrow> files \<Rightarrow> string_getter \<Rightarrow> char list \<Rightarrow> HPACKAGE \<Rightarrow> 32 word \<Rightarrow> (mptr option \<times> HPACKAGE) run" where
  "get_string_body E fs getstr gLocaleValue package resId =
     (if package = None \<and> resId = 0 then Some (Inr (None, package))
      else if drop_bit 16 resId \<noteq> NCSRT_STRING \<and> drop_bit 16 resId \<noteq> NCSRT_TEXT then Some (Inr (None, package))
      else ubind (getIDItem E fs getstr gLocaleValue package resId) (\<lambda>((item, sect), package).
        case item of
          None \<Rightarrow> Some (Inr (None, package))
        | Some (b, p) \<Rightarrow>
            ubind (Some (rd32 b (p + 8))) (\<lambda>offset.
              case sect of
                None \<Rightarrow> Some (Inl Null_Deref)
              | Some (b, s) \<Rightarrow> Some (Inr (Some (b, s + uint offset), package)))))"

text \<open>
  Finding the name of a file of strings calls \<open>ncsGetString\<close> again. The fuel bounds how deeply these
  calls nest.
\<close>

fun ncsGetString ::
  "cenv \<Rightarrow> files \<Rightarrow> char list \<Rightarrow> nat \<Rightarrow> HPACKAGE \<Rightarrow> 32 word \<Rightarrow> (mptr option \<times> HPACKAGE) run" where
  "ncsGetString E fs gLocaleValue 0 package resId = None"
| "ncsGetString E fs gLocaleValue (Suc f) package resId =
     get_string_body E fs (ncsGetString E fs gLocaleValue f) gLocaleValue package resId"

section \<open>Loading and unloading\<close>

definition rd8 :: "char list \<Rightarrow> int \<Rightarrow> char res" where
  "rd8 b off = (if 0 \<le> off \<and> off < int (length b) then Inr (b ! nat off) else Inl Out_Of_Bounds)"

definition set_locale_info ::
  "cenv \<Rightarrow> files \<Rightarrow> nat \<Rightarrow> char list \<Rightarrow> HPACKAGE \<Rightarrow> (HPACKAGE \<times> char list) run" where
  "set_locale_info E fs f gLocaleValue hPackage =
     ubind (get_res_sectaddr E fs (ncsGetString E fs gLocaleValue f) hPackage NCSRT_TEXT) (\<lambda>(sect_addr, hPackage).
       case sect_addr of
         None \<Rightarrow> Some (Inr (hPackage, gLocaleValue))
       | Some (b, s) \<Rightarrow>
           let language = s + sizeof_NCSRM_SECTHEADER; country = language + 4 in
           ubind (Some (rd8 b language)) (\<lambda>l.
           ubind (Some (if l = NUL then Inr NUL else rd8 b country)) (\<lambda>c.
             if l \<noteq> NUL \<and> c \<noteq> NUL
             then ubind (Some (ncsSetDefaultLocale (b, language) (b, country))) (\<lambda>g. Some (Inr (hPackage, g)))
             else Some (Inr (hPackage, gLocaleValue)))))"

definition ncsUnloadResPackage :: "HPACKAGE \<Rightarrow> HPACKAGE" where
  "ncsUnloadResPackage package =
     (case package of
        None \<Rightarrow> None
      | Some prpinfo \<Rightarrow>
          let prpinfo = prpinfo\<lparr>rp_ref := rp_ref prpinfo - 1\<rparr> in
          if rp_ref prpinfo > 0 then Some prpinfo else None)"

definition sizeof_RPINFO :: int where "sizeof_RPINFO = 32"
definition mgrp :: "32 word" where "mgrp = 0x4d475250"

definition ncsLoadResPackageFromFile ::
  "cenv \<Rightarrow> files \<Rightarrow> nat \<Rightarrow> char list \<Rightarrow> char list option \<Rightarrow> (HPACKAGE \<times> char list) run" where
  "ncsLoadResPackageFromFile E fs f gLocaleValue fileName =
     ubind (Some (mmap_file E fs fileName)) (\<lambda>data.
       case data of
         None \<Rightarrow> Some (Inr (None, gLocaleValue))
       | Some d \<Rightarrow>
           if \<not> mem E sizeof_RPINFO then Some (Inr (None, gLocaleValue))
           else let (r, pkg) = append_list E \<lparr>rp_head = [], rp_ref = 0, rp_data = [], rp_size = 0\<rparr> d (-1) (int (length d)) in
             if r \<noteq> 0 then Some (Inr (None, gLocaleValue))
             else let pkg = pkg\<lparr>rp_data := d, rp_size := int (length d)\<rparr> in
               ubind (Some (rd32 d 0)) (\<lambda>magic.
                 if magic \<noteq> mgrp then Some (Inr (ncsUnloadResPackage (Some pkg), gLocaleValue))
                 else ubind (set_locale_info E fs f gLocaleValue (Some pkg)) (\<lambda>(hPackage, gLocaleValue).
                   Some (Inr (map_option (\<lambda>pkg. pkg\<lparr>rp_ref := 1\<rparr>) hPackage, gLocaleValue)))))"

section \<open>What they do\<close>

text \<open>
  A table of ids at \<open>s\<close>: the header with the number of entries, and for each entry its id, the id of a
  file name and an offset, in the order of the ids. \<open>xs\<close> lists the ids with their offsets.
\<close>

definition id_table :: "char list \<Rightarrow> int \<Rightarrow> (32 word \<times> 32 word) list \<Rightarrow> bool" where
  "id_table b s xs \<longleftrightarrow> length xs < 2 ^ 30 \<and> sorted (map fst xs) \<and> rd32 b (s + 4) = Inr (of_nat (length xs))
     \<and> (\<forall>i < length xs. rd32 b (s + 8 + int i * 12) = Inr (fst (xs ! i)) \<and> rd32 b (s + 16 + int i * 12) = Inr (snd (xs ! i)))"

text \<open>The number of smaller elements of a sorted list: the place the binary search ends at.\<close>

definition smaller :: "'a::linorder \<Rightarrow> 'a list \<Rightarrow> nat" where
  "smaller x xs = length (takeWhile (\<lambda>y. y < x) xs)"

lemma smaller_le: "smaller x xs \<le> length xs"
  by (simp add: smaller_def length_takeWhile_le)

lemma nth_less_smaller:
  assumes "sorted xs" "m < length xs"
  shows "xs ! m < x \<longleftrightarrow> m < smaller x xs"
proof
  assume *: "xs ! m < x"
  show "m < smaller x xs"
  proof (rule ccontr)
    assume "\<not> m < smaller x xs"
    then have le: "smaller x xs \<le> m" by simp
    then have "\<not> xs ! smaller x xs < x"
      using assms(2) nth_length_takeWhile [of "\<lambda>y. y < x" xs] by (simp add: smaller_def)
    moreover have "xs ! smaller x xs \<le> xs ! m" using assms le by (simp add: sorted_nth_mono)
    ultimately show False using * by simp
  qed
next
  assume "m < smaller x xs"
  then have m: "m < length (takeWhile (\<lambda>y. y < x) xs)" by (simp add: smaller_def)
  show "xs ! m < x" using nth_mem [OF m] takeWhile_nth [OF m] by (metis set_takeWhileD)
qed

lemma bsearch_loop_finds:
  assumes t: "sorted ids" "\<forall>i < length ids. rd32 b (base + int i * 12) = Inr (ids ! i)" "length ids < 2 ^ 30"
  shows "0 \<le> low \<Longrightarrow> high \<le> int (length ids) \<Longrightarrow> low \<le> int (smaller x ids) \<Longrightarrow> int (smaller x ids) \<le> high \<Longrightarrow>
    bsearch_loop b base x low high = Inr (int (smaller x ids))"
proof (induction "nat (high - low)" arbitrary: low high rule: less_induct)
  case less
  show ?case
  proof (cases "low < high")
    case True
    define mid where "mid = (low + high) div 2"
    have mid: "low \<le> mid" "mid < high" "0 \<le> mid" using True less.prems by (auto simp: mid_def)
    have m2: "nat mid < length ids" using mid less.prems by auto
    have "rd32 b (base + int (nat mid) * 12) = Inr (ids ! nat mid)" using t(2) m2 by blast
    then have "rd32 b (base + mid * 12) = Inr (ids ! nat mid)" using mid(3) by simp
    note m = this m2
    have side: "ids ! nat mid < x \<longleftrightarrow> mid < int (smaller x ids)" 
      using nth_less_smaller [OF t(1) m(2), of x] nat_less_iff [OF mid(3), of "smaller x ids"] by (rule trans)
    have fits: "low + high < 2 ^ 31" using True less.prems(2) t(3) by simp
    show ?thesis
    proof (cases "ids ! nat mid < x")
      case True
      then have "bsearch_loop b base x (mid + 1) high = Inr (int (smaller x ids))"
        using less.hyps [of high "mid + 1"] mid less.prems side by simp
      then show ?thesis using True \<open>low < high\<close> fits m
        by (subst bsearch_loop.simps) (simp add: mid_def [symmetric] sizeof_NCSRM_IDITEM_def)
    next
      case False
      then have "bsearch_loop b base x low mid = Inr (int (smaller x ids))"
        using less.hyps [of mid low] mid less.prems side by simp
      then show ?thesis using False \<open>low < high\<close> fits m
        by (subst bsearch_loop.simps) (simp add: mid_def [symmetric] sizeof_NCSRM_IDITEM_def)
    qed
  next
    case False
    then show ?thesis using less.prems by (subst bsearch_loop.simps) simp
  qed
qed

text \<open>In a sorted list an element is at the place found, or nowhere.\<close>

lemma smaller_mem: "sorted xs \<Longrightarrow> x \<in> set xs \<longleftrightarrow> smaller x xs < length xs \<and> xs ! smaller x xs = x"
proof
  assume s: "sorted xs" and "x \<in> set xs"
  then obtain m where m: "m < length xs" "xs ! m = x" by (auto simp: in_set_conv_nth)
  then have "smaller x xs \<le> m" using nth_less_smaller [OF s m(1), of x] by simp
  moreover have "\<not> xs ! smaller x xs < x" using nth_less_smaller [OF s, of "smaller x xs" x] m(1) calculation by simp
  ultimately show "smaller x xs < length xs \<and> xs ! smaller x xs = x"
    using m s sorted_nth_mono [OF s, of "smaller x xs" m] by (auto simp: le_antisym not_less)
qed (metis nth_mem)

lemma map_of_smaller:
  "sorted (map fst xs) \<Longrightarrow> map_of xs x =
    (let k = smaller x (map fst xs) in if k < length xs \<and> fst (xs ! k) = x then Some (snd (xs ! k)) else None)"
proof (induction xs)
  case (Cons a xs)
  show ?case
  proof (cases "fst a < x")
    case True
    then show ?thesis using Cons by (auto simp: smaller_def Let_def)
  next
    case False
    have "x \<notin> fst ` set xs" if "x \<noteq> fst a" using False Cons.prems that by auto
    then have "map_of xs x = None" if "x \<noteq> fst a" using that by (simp add: map_of_eq_None_iff)
    then show ?thesis using False by (cases a) (auto simp: smaller_def)
  qed
qed (simp add: smaller_def)

lemma binary_search_iditem_finds:
  assumes t: "id_table b s xs"
  shows "binary_search_iditem (Some (b, s)) x =
    (let k = smaller x (map fst xs) in
     Inr (if k < length xs \<and> fst (xs ! k) = x then Some (b, s + 8 + int k * 12) else None))"
proof -
  let ?n = "length xs" and ?k = "smaller x (map fst xs)"
  have n: "?n < 2 ^ 30" and size: "rd32 b (s + 4) = Inr (of_nat ?n)" using t by (simp_all add: id_table_def)
  have "signed_take_bit 31 (int ?n) = int ?n" using n by (intro signed_take_bit_int_eq_self) simp_all
  then have sn: "sint (of_nat ?n :: 32 word) = int ?n" by (simp add: signed_of_nat)
  have k: "?k \<le> ?n" using smaller_le [of x "map fst xs"] by simp
  have loop: "bsearch_loop b (s + 8) x 0 (int ?n) = Inr (int ?k)"
    using bsearch_loop_finds [of "map fst xs" b "s + 8" 0 "int ?n" x] t k by (simp add: id_table_def)
  have cmp: "(word_of_int (int ?k) :: 32 word) < of_nat ?n \<longleftrightarrow> ?k < ?n"
    using n k by (simp add: word_less_nat_alt unat_of_nat take_bit_nat_eq_self)
  show ?thesis
  proof (cases "?k < ?n")
    case True
    then have "rd32 b (s + 8 + int ?k * 12) = Inr (fst (xs ! ?k))" using t by (simp add: id_table_def)
    then show ?thesis using True size sn loop cmp
      by (simp add: binary_search_iditem_def sizeof_NCSRM_SECTHEADER_def sizeof_NCSRM_IDITEM_def Let_def)
  next
    case False
    then show ?thesis using size sn loop cmp
      by (simp add: binary_search_iditem_def sizeof_NCSRM_SECTHEADER_def sizeof_NCSRM_IDITEM_def Let_def)
  qed
qed

text \<open>
  A package whose strings are in the package itself: the search for the type of the strings ends at an
  entry that gives an offset, and there is a table of ids there.
\<close>

definition has_strings :: "char list \<Rightarrow> int \<Rightarrow> (32 word \<times> 32 word) list \<Rightarrow> bool" where
  "has_strings d s xs \<longleftrightarrow> id_table d s xs \<and>
     (\<exists>t off. search_type_item d (ucast NCSRT_STRING) = Inr (Some (d, t)) \<and> rd32 d (t + 8) = Inr off \<and> off \<noteq> 0 \<and> s = uint off)"

lemma string_sectaddr:
  assumes "has_strings d s xs" "rp_data p = d"
  shows "get_res_sectaddr E fs getstr (Some p) NCSRT_STRING = Some (Inr (Some (d, s), Some p))"
  using assms by (auto simp: has_strings_def get_res_sectaddr_def)

lemma get_string_found:
  assumes "has_strings (rp_data p) s xs" "drop_bit 16 resId = NCSRT_STRING"
  shows "ncsGetString E fs loc (Suc f) (Some p) resId =
    Some (Inr (map_option (\<lambda>off. (rp_data p, s + uint off)) (map_of xs resId), Some p))"
proof -
  let ?k = "smaller resId (map fst xs)"
  have t: "id_table (rp_data p) s xs" using assms(1) by (simp add: has_strings_def)
  have sorted: "sorted (map fst xs)" using t by (simp add: id_table_def)
  have other: "NCSRT_STRING \<noteq> NCSRT_TEXT" by (simp add: NCSRT_STRING_def NCSRT_TEXT_def)
  have item: "getIDItem E fs (ncsGetString E fs loc f) loc (Some p) resId =
    Some (Inr ((if ?k < length xs \<and> fst (xs ! ?k) = resId then Some (rp_data p, s + 8 + int ?k * 12) else None,
      Some (rp_data p, s)), Some p))"
    using assms(2) other string_sectaddr [OF assms(1) refl]
    by (simp add: getIDItem_def binary_search_iditem_finds [OF t] Let_def)
  show ?thesis
  proof (cases "?k < length xs \<and> fst (xs ! ?k) = resId")
    case True
    then have "rd32 (rp_data p) (s + 16 + int ?k * 12) = Inr (snd (xs ! ?k))" using t by (simp add: id_table_def)
    moreover have "s + 16 + int ?k * 12 = s + 8 + int ?k * 12 + 8" by simp
    ultimately have "rd32 (rp_data p) (s + 8 + int ?k * 12 + 8) = Inr (snd (xs ! ?k))" by metis
    then show ?thesis using True assms(2) item by (simp add: get_string_body_def map_of_smaller [OF sorted] Let_def)
  next
    case False
    then show ?thesis using assms(2) item by (auto simp: get_string_body_def map_of_smaller [OF sorted] Let_def)
  qed
qed

text \<open>
  C26: In a package whose strings lie in the package, in a table of fewer than 2^30 sorted ids,
  ncsGetString finds exactly the string the table gives for an id, NULL for any other id of a
  string, by a binary search that reads inside the table and never overflows; the package is
  unchanged.
\<close>

theorem ncsGetString_lookup:
  assumes "has_strings (rp_data p) s xs" "drop_bit 16 resId = NCSRT_STRING"
  shows "ncsGetString E fs loc (Suc f) (Some p) resId =
    Some (Inr (map_option (\<lambda>off. (rp_data p, s + uint off)) (map_of xs resId), Some p))"
  by (rule get_string_found [OF assms])

text \<open>
  How words and a table of ids are laid out: what the functions above read back.
\<close>

definition le32 :: "32 word \<Rightarrow> char list" where
  "le32 w = map (\<lambda>k. char_of (uint w div 256 ^ k)) [0..<4]"

definition id_bytes :: "(32 word \<times> 32 word) list \<Rightarrow> char list" where
  "id_bytes xs = concat (map (\<lambda>(i, off). le32 i @ le32 0 @ le32 off) xs)"

definition table_bytes :: "(32 word \<times> 32 word) list \<Rightarrow> char list" where
  "table_bytes xs = le32 0 @ le32 (of_nat (length xs)) @ id_bytes xs"

lemma length_le32 [simp]: "length (le32 w) = 4"
  by (simp add: le32_def)

lemma length_id_bytes [simp]: "length (id_bytes xs) = 12 * length xs"
  by (induction xs) (auto simp: id_bytes_def)

lemma word_le_le32: "word_le (le32 w) = w"
proof -
  define n a b c where "n = uint w" and "a = n div 256" and "b = a div 256" and "c = b div 256"
  note defs = a_def b_def c_def
  have "[0..<4] = [0, 1, 2, 3::nat]" by code_simp
  moreover have "n div 65536 = b" "n div 16777216 = c"
    by (simp_all add: defs zdiv_zmult2_eq [symmetric])
  ultimately have le: "le32 w = [char_of n, char_of a, char_of b, char_of c]" by (simp add: le32_def n_def [symmetric] a_def)
  have "0 \<le> n" "n < 2 ^ 32" using uint_lt2p [of w] by (simp_all add: n_def)
  then have "c mod 256 = c" by (simp add: defs zdiv_zmult2_eq [symmetric]) 
  moreover have "n = n mod 256 + 256 * a" "a = a mod 256 + 256 * b" "b = b mod 256 + 256 * c"
    by (simp_all add: defs)
  ultimately have "foldr (\<lambda>c n. of_char c + 256 * n) (le32 w) 0 = n" by (simp add: le)
  then show ?thesis by (simp add: word_le_def n_def)
qed

lemma rd32_le32:
  assumes "off = int (length pre)"
  shows "rd32 (pre @ le32 w @ post) off = Inr w"
  using assms by (simp add: rd32_def word_le_le32)

lemma rd32_prefix:
  assumes "off = int (length pre) + k" "0 \<le> k"
  shows "rd32 (pre @ b) off = rd32 b k"
  using assms by (simp add: rd32_def nat_add_distrib)

lemma rd32_id_bytes:
  "i < length xs \<Longrightarrow> rd32 (id_bytes xs @ post) (int i * 12) = Inr (fst (xs ! i)) \<and>
     rd32 (id_bytes xs @ post) (int i * 12 + 8) = Inr (snd (xs ! i))"
proof (induction xs arbitrary: i)
  case (Cons a xs)
  obtain x y where a: "a = (x, y)" by (cases a)
  let ?e = "le32 x @ le32 0 @ le32 y"
  have b: "id_bytes (a # xs) @ post = ?e @ (id_bytes xs @ post)" by (simp add: id_bytes_def a)
  show ?case
  proof (cases i)
    case 0
    then show ?thesis using rd32_le32 [of 0 "[]" x] rd32_le32 [of 8 "le32 x @ le32 0" y]
      by (simp add: id_bytes_def a)
  next
    case (Suc j)
    then show ?thesis
      using Cons rd32_prefix [of "12 + int j * 12" ?e "int j * 12" "id_bytes xs @ post"]
        rd32_prefix [of "20 + int j * 12" ?e "int j * 12 + 8" "id_bytes xs @ post"]
      by (simp add: b [unfolded a] a)
  qed
qed simp

lemma id_table_words:
  assumes "length xs < 2 ^ 30" "sorted (map fst xs)" "s = int (length pre)"
  shows "id_table (pre @ le32 w @ le32 (of_nat (length xs)) @ id_bytes xs @ post) s xs"
proof -
  let ?h = "le32 w @ le32 (of_nat (length xs))"
  let ?d = "pre @ le32 w @ le32 (of_nat (length xs)) @ id_bytes xs @ post"
  have "rd32 ?d (s + 4) = Inr (of_nat (length xs))"
    using rd32_le32 [of "s + 4" "pre @ le32 w" "of_nat (length xs)" "id_bytes xs @ post"] assms(3) by simp
  moreover have "rd32 ?d (s + 8 + k) = rd32 (id_bytes xs @ post) k" if "0 \<le> k" for k
    using rd32_prefix [of "s + 8 + k" "pre @ ?h" k "id_bytes xs @ post"] assms(3) that by simp
  note tail = this
  moreover have "rd32 ?d (s + 16 + int i * 12) = rd32 (id_bytes xs @ post) (int i * 12 + 8)" for i
    using tail [of "int i * 12 + 8"] by (simp add: algebra_simps)
  ultimately show ?thesis using assms rd32_id_bytes [of _ xs post] by (simp add: id_table_def)
qed

lemma id_table_bytes:
  "length xs < 2 ^ 30 \<Longrightarrow> sorted (map fst xs) \<Longrightarrow> s = int (length pre) \<Longrightarrow> id_table (pre @ table_bytes xs @ post) s xs"
  using id_table_words [of xs s pre 0 post] by (simp add: table_bytes_def)

text \<open>A package with two strings, for the examples.\<close>

definition example_strings :: "(32 word \<times> 32 word) list" where
  "example_strings = [(0x10001, 32), (0x10005, 35)]"

definition example_header :: "char list" where
  "example_header = le32 mgrp @ replicate 40 NUL @ le32 1 @ le32 NCSRT_STRING @ le32 0 @ le32 60"

definition example_package :: "char list" where
  "example_package = example_header @ table_bytes example_strings @ ''hi'' @ [NUL] @ ''a.png'' @ [NUL]"

definition example_rp :: RPINFO where
  "example_rp = \<lparr>rp_head = [\<lparr>mf_data = example_package, mf_size = 101, mf_filename_id = - 1\<rparr>], rp_ref = 1,
     rp_data = example_package, rp_size = 101\<rparr>"

lemma search_type_first:
  assumes "rd32 b off_nr_sect = Inr n" "0 < n" "rd32 b sizeof_NCSRM_HEADER = Inr t" "ucast ty AND t \<noteq> 0"
  shows "search_type_item b ty = Inr (Some (b, sizeof_NCSRM_HEADER))"
  using assms by (simp add: search_type_item_def search_type_loop.simps)

lemma example_has_strings: "has_strings example_package 60 example_strings"
proof -
  let ?rest = "table_bytes example_strings @ ''hi'' @ [NUL] @ ''a.png'' @ [NUL]"
  let ?h = "le32 mgrp @ replicate 40 NUL"
  have "id_table example_package 60 example_strings"
    unfolding example_package_def by (rule id_table_bytes) (simp_all add: example_strings_def example_header_def)
  moreover have "rd32 example_package 44 = Inr 1" "rd32 example_package 48 = Inr NCSRT_STRING" "rd32 example_package 56 = Inr 60"
    using rd32_le32 [of 44 ?h 1] rd32_le32 [of 48 "?h @ le32 1" NCSRT_STRING]
      rd32_le32 [of 56 "?h @ le32 1 @ le32 NCSRT_STRING @ le32 0" 60 ?rest]
    by (simp_all add: example_package_def example_header_def)
  moreover from this have "search_type_item example_package (ucast NCSRT_STRING) = Inr (Some (example_package, 48))"
    using search_type_first [of example_package 1 NCSRT_STRING "ucast NCSRT_STRING"]
    by (simp add: off_nr_sect_def sizeof_NCSRM_HEADER_def NCSRT_STRING_def)
  ultimately show ?thesis unfolding has_strings_def
    by (intro conjI exI [of _ 48] exI [of _ 60]) simp_all
qed

lemma ncsGetString_lookup_witness:
  "\<exists>q. ncsGetString plain_env (\<lambda>_. None) en_locale 1 (Some example_rp) 0x10005 = Some (Inr (Some q, Some example_rp))
     \<and> str_at q = Inr ''a.png''"
proof -
  have d: "rp_data example_rp = example_package" by (simp add: example_rp_def)
  have "drop_bit 16 (0x10005 :: 32 word) = NCSRT_STRING" by (simp add: NCSRT_STRING_def)
  then have "ncsGetString plain_env (\<lambda>_. None) en_locale (Suc 0) (Some example_rp) 0x10005
      = Some (Inr (Some (example_package, 95), Some example_rp))"
    using ncsGetString_lookup [of example_rp 60 example_strings "0x10005"] example_has_strings d by (simp add: example_strings_def)
  moreover have "length (table_bytes example_strings) = 32" "length example_header = 60"
    by (simp_all add: table_bytes_def example_strings_def example_header_def)
  then have "drop 95 example_package = ''a.png'' @ [NUL]" by (simp add: example_package_def)
  then have "str_at (example_package, 95) = Inr ''a.png''" by (simp add: str_at_def)
  ultimately show ?thesis by auto
qed

subsection \<open>Strings in a file of their own\<close>

text \<open>
  \<open>find_list\<close> finds the first entry but for the last one, which it never looks at; so in a package that
  was just loaded it finds nothing.
\<close>

lemma find_list_but_last: "find_list (xs @ [x]) filename_id = find (\<lambda>m. mf_filename_id m = filename_id) xs"
proof (induction xs)
  case (Cons y ys)
  then show ?case by (cases ys) simp_all
qed simp

lemma string_file_asks_for_a_string:
  assumes "search_type_item (rp_data p) (ucast NCSRT_STRING) = Inr (Some (b, t))" "rd32 b (t + 8) = Inr 0"
    "rd32 b (t + 4) = Inr filename_id" "filename_id \<noteq> 0" "find_list (rp_head p) filename_id = None"
    "drop_bit 16 resId = NCSRT_STRING" "getstr (Some p) filename_id = None"
  shows "get_string_body E fs getstr loc (Some p) resId = None"
  using assms by (simp add: get_string_body_def getIDItem_def get_res_sectaddr_def find_mmap_file_def)

text \<open>
  When a just loaded package keeps its strings in a file whose name is itself a string id,
  ncsGetString never returns: to find the name of the file it looks the name up in that file,
  however deep the calls may nest.
\<close>

theorem ncsGetString_file_never_returns:
  assumes "search_type_item (rp_data p) (ucast NCSRT_STRING) = Inr (Some (b, t))" "rd32 b (t + 8) = Inr 0"
    "rd32 b (t + 4) = Inr filename_id" "filename_id \<noteq> 0" "drop_bit 16 filename_id = NCSRT_STRING"
    "rp_head p = [m]" "drop_bit 16 resId = NCSRT_STRING"
  shows "ncsGetString E fs loc f (Some p) resId = None"
  using assms(7)
proof (induction f arbitrary: resId)
  case (Suc f)
  have "find_list (rp_head p) filename_id = None" using assms(6) by simp
  then show ?case using Suc.IH [OF assms(5)]
    by (simp add: string_file_asks_for_a_string [OF assms(1-4) _ Suc.prems])
qed simp

definition filed_package :: "char list" where
  "filed_package = le32 mgrp @ replicate 40 NUL @ le32 1 @ le32 NCSRT_STRING @ le32 0x10001 @ le32 0"

definition filed_rp :: RPINFO where
  "filed_rp = \<lparr>rp_head = [\<lparr>mf_data = filed_package, mf_size = 60, mf_filename_id = - 1\<rparr>], rp_ref = 1,
     rp_data = filed_package, rp_size = 60\<rparr>"

lemma filed_package_words:
  "rd32 filed_package 44 = Inr 1" "rd32 filed_package 48 = Inr NCSRT_STRING" "rd32 filed_package 52 = Inr 0x10001"
  "rd32 filed_package 56 = Inr 0"
  using rd32_le32 [of 44 "le32 mgrp @ replicate 40 NUL" 1] rd32_le32 [of 48 "le32 mgrp @ replicate 40 NUL @ le32 1" NCSRT_STRING]
    rd32_le32 [of 52 "le32 mgrp @ replicate 40 NUL @ le32 1 @ le32 NCSRT_STRING" "0x10001" "le32 0"]
    rd32_le32 [of 56 "le32 mgrp @ replicate 40 NUL @ le32 1 @ le32 NCSRT_STRING @ le32 0x10001" 0 "[]"]
  by (simp_all add: filed_package_def)

lemma ncsGetString_file_never_returns_witness:
  "ncsGetString plain_env (\<lambda>_. None) en_locale 100 (Some filed_rp) 0x10005 = None"
proof (rule ncsGetString_file_never_returns)
  show "search_type_item (rp_data filed_rp) (ucast NCSRT_STRING) = Inr (Some (filed_package, 48))"
    using search_type_first [of filed_package 1 NCSRT_STRING "ucast NCSRT_STRING"] filed_package_words
    by (simp add: filed_rp_def off_nr_sect_def sizeof_NCSRM_HEADER_def NCSRT_STRING_def)
  show "rd32 filed_package (48 + 8) = Inr 0" "rd32 filed_package (48 + 4) = Inr 0x10001"
    using filed_package_words by simp_all
qed (simp_all add: NCSRT_STRING_def filed_rp_def)

subsection \<open>Loading\<close>

text \<open>
  A package with a section of texts in the package that names no default locale loads with one
  reference and leaves the locale; \<open>ncsUnloadResPackage\<close> then gives the package back.
\<close>

lemma load_package:
  assumes E: "all_mem E" and fs: "fs name = Some d" and magic: "rd32 d 0 = Inr mgrp"
    and texts: "search_type_item d (ucast NCSRT_TEXT) = Inr (Some (d, t))" "rd32 d (t + 8) = Inr off" "off \<noteq> 0"
    and loc: "rd8 d (uint off + 8) = Inr NUL"
  shows "\<exists>p. ncsLoadResPackageFromFile E fs f loc (Some name) = Some (Inr (Some p, loc)) \<and> rp_data p = d \<and> rp_ref p = 1
     \<and> (\<exists>m. rp_head p = [m]) \<and> ncsUnloadResPackage (Some p) = None"
  using assms
  by (simp add: ncsLoadResPackageFromFile_def mmap_file_def append_list_def mem_all set_locale_info_def get_res_sectaddr_def
      ncsUnloadResPackage_def sizeof_NCSRM_SECTHEADER_def Let_def)

text \<open>A file of another kind is given back at once; one that is too short for the header is read past its end.\<close>

lemma load_other_magic:
  assumes "all_mem E" "fs name = Some d" "rd32 d 0 = Inr magic" "magic \<noteq> mgrp"
  shows "ncsLoadResPackageFromFile E fs f loc (Some name) = Some (Inr (None, loc))"
  using assms by (simp add: ncsLoadResPackageFromFile_def mmap_file_def append_list_def mem_all ncsUnloadResPackage_def)

lemma load_short_file:
  assumes "all_mem E" "fs name = Some d" "length d < 4"
  shows "ncsLoadResPackageFromFile E fs f loc (Some name) = Some (Inl Out_Of_Bounds)"
  using assms by (simp add: ncsLoadResPackageFromFile_def mmap_file_def append_list_def mem_all rd32_def)

text \<open>
  The search for a type never fails: when a package has sections but none of this type, it runs past
  the end of the package, as its counter never moves.
\<close>

lemma search_type_loop_never_none: "0 < n \<Longrightarrow> search_type_loop b n ty off \<noteq> Inr None"
  by (induction b n ty off rule: search_type_loop.induct) (subst search_type_loop.simps, auto simp: rbind_eq_Inr)

lemma search_type_item_never_none:
  "rd32 b off_nr_sect = Inr n \<Longrightarrow> 0 < n \<Longrightarrow> search_type_item b ty \<noteq> Inr None"
  by (simp add: search_type_item_def search_type_loop_never_none)

text \<open>Removing a file that is not in the list frees a pointer that was never set.\<close>

lemma del_list_missing:
  assumes "rp_head pkg \<noteq> []" "\<forall>x \<in> set (rp_head pkg). mf_filename_id x \<noteq> filename_id"
  shows "del_list pkg filename_id = Inl Wild_Pointer"
  using assms by (simp add: del_list_def Let_def RES_TRUE_def RES_FALSE_def iffD2 [OF dropWhile_eq_Nil_conv])

lemma del_list_present:
  assumes "rp_head pkg = xs @ x # ys" "mf_filename_id x = filename_id" "\<forall>y \<in> set xs. mf_filename_id y \<noteq> filename_id"
  shows "del_list pkg filename_id = Inr (0, pkg\<lparr>rp_head := xs @ ys\<rparr>)"
  using assms by (simp add: del_list_def Let_def RES_TRUE_def RES_FALSE_def dropWhile_append2 takeWhile_append2)

text \<open>The names of a language and a country fit the buffer when they have six characters together at most.\<close>

lemma set_default_locale_fits:
  assumes "str_at language = Inr l" "str_at country = Inr c"
  shows "ncsSetDefaultLocale language country = (if length l + length c \<le> 6 then Inr (l @ ''_'' @ c) else Inl Out_Of_Bounds)"
  using assms by (auto simp: ncsSetDefaultLocale_def locale_name_def sizeof_gLocaleValue_def)

end
