(* ===== verification/Res2c.thy ===== *)
theory Res2c
  imports Res_Package
begin

text \<open>
  The converter \<open>tools/res2c/res2c.c\<close>: the images a resource package names, and the package itself, as C
  source. The file buffers of the program have a fixed size and are written with \<open>strcpy\<close> and \<open>sprintf\<close>.
\<close>

abbreviation NL :: char where "NL \<equiv> CHR 0x0A"
abbreviation DQ :: char where "DQ \<equiv> CHR 0x22"

definition buffered :: "nat \<Rightarrow> char list \<Rightarrow> char list res" where
  "buffered cap s = (if length s < cap then Inr s else Inl Out_Of_Bounds)"

text \<open>The part after the last \<open>c\<close>, if there is one.\<close>

definition after_last :: "char \<Rightarrow> char list \<Rightarrow> char list option" where
  "after_last c s = (if c \<in> set s then Some (rev (takeWhile (\<lambda>x. x \<noteq> c) (rev s))) else None)"

definition file_part :: "char list \<Rightarrow> char list" where
  "file_part s = (case after_last CHR ''/'' s of Some t \<Rightarrow> t | None \<Rightarrow> s)"

definition c_isalnum :: "char \<Rightarrow> bool" where
  "c_isalnum c \<longleftrightarrow> c_isdigit c \<or> (97 \<le> (of_char (c_tolower c) :: nat) \<and> (of_char (c_tolower c) :: nat) \<le> 122)"

section \<open>Names of the variables\<close>

definition add_export :: "char list \<Rightarrow> char list res" where
  "add_export filename =
     (let start = file_part filename;
          ext = after_last CHR ''.'' start;
          stem = (case ext of Some e \<Rightarrow> take (length start - length e - 1) start | None \<Rightarrow> start);
          strname = ''_'' @ (case ext of Some e \<Rightarrow> e @ ''_'' | None \<Rightarrow> [])
             @ map (\<lambda>c. if c_isalnum c then c else CHR ''_'') stem in
      buffered 1024 (strname @ (if last strname = CHR ''_'' then ''data'' else ''_data'')))"

fun key_shorts :: "char list \<Rightarrow> 64 word list" where
  "key_shorts [] = []"
| "key_shorts [a] = [of_nat (of_char a)]"
| "key_shorts (a # b # s) = of_nat (of_char a + 256 * of_char b) # key_shorts s"

fun key_loop :: "nat \<Rightarrow> 64 word list \<Rightarrow> 64 word \<Rightarrow> 64 word" where
  "key_loop i [] ret = ret"
| "key_loop i (s # ss) ret = key_loop (i + 1) ss (ret XOR push_bit (i mod 16) s)"

definition Str2Key :: "char list option \<Rightarrow> 64 word" where
  "Str2Key str = (case str of None \<Rightarrow> - 1 | Some s \<Rightarrow> key_loop 0 (key_shorts s) 0)"

section \<open>A file as an array\<close>

definition hex_char :: "nat \<Rightarrow> char" where
  "hex_char n = (if n < 10 then char_of (48 + n) else char_of (87 + n))"

definition fmt_02x :: "char \<Rightarrow> char list" where
  "fmt_02x c = [hex_char (of_char c div 16), hex_char (of_char c mod 16)]"

fun fmt_x :: "nat \<Rightarrow> char list" where
  "fmt_x n = (if n < 16 then [hex_char n] else fmt_x (n div 16) @ [hex_char (n mod 16)])"

declare fmt_x.simps [simp del]

definition c_lines :: "char list list \<Rightarrow> char list" where
  "c_lines ls = concat (map (\<lambda>l. l @ [NL]) ls)"

fun array_loop :: "nat \<Rightarrow> char list \<Rightarrow> char list" where
  "array_loop j [] = []"
| "array_loop j [c] = (if j mod 8 = 0 then ''  0x'' else ''0x'') @ fmt_02x c @ NL # ''};'' @ [NL, NL]"
| "array_loop j (c # d # dest) =
     (if j mod 8 = 0 then ''  0x'' @ fmt_02x c @ '', ''
      else if j mod 8 = 7 then ''0x'' @ fmt_02x c @ '','' @ [NL]
      else ''0x'' @ fmt_02x c @ '', '') @ array_loop (j + 1) (d # dest)"

definition head_lines :: "char list list" where
  "head_lines = ['' * This file is generated automatically by res2c, please don'' @ [CHR 0x27] @ ''t edit.'', '' *'',
       '' *    Copyright (C) 2009 Feynman Software'',
       '' *    All rights reserved by Feynman Software.'', '' */'', [], ''#ifdef _MGNCS_INCORE_RES'', []]"

definition c_source :: "char list \<Rightarrow> char list \<Rightarrow> char list \<Rightarrow> char list" where
  "c_source tmpname varname dest =
     c_lines ([''/*'', '' * Filename: '' @ tmpname @ '' ''] @ head_lines)
     @ ''static const unsigned char '' @ varname @ ''[] = {'' @ NL # array_loop 0 dest
     @ c_lines [''#endif /* _MGNCS_INCORE_RES */'', []]"

definition BUFSIZE :: nat where "BUFSIZE = 16384"

text \<open>
  Reading the whole file, block by block, into a buffer that grows; \<open>k\<close> counts the calls of \<open>fread\<close>, and
  the last one gives less than it was asked for. \<open>None\<close>: no memory, or an error.
\<close>

function slurp :: "cenv \<Rightarrow> file_io \<Rightarrow> nat \<Rightarrow> nat \<Rightarrow> char list \<Rightarrow> char list \<Rightarrow> char list option res" where
  "slurp E d k sourceBufSize source ahead =
     (let grow = length source + BUFSIZE > sourceBufSize;
          size = (if grow then sourceBufSize + BUFSIZE else sourceBufSize);
          got = take BUFSIZE ahead in
      if grow \<and> \<not> mem E (int size) then Inr None
      else if read_some d k < 0 then Inr None
      else if length source + length got > size then Inl Out_Of_Bounds
      else if length got < BUFSIZE then Inr (Some (source @ got))
      else slurp E d (k + 1) size (source @ got) (drop BUFSIZE ahead))"
  by pat_completeness auto

termination
  by (relation "measure (\<lambda>(E, d, k, size, source, ahead). length ahead)") (auto simp: BUFSIZE_def)

declare slurp.simps [simp del]

record r2c =
  project :: "char list"
  resname :: "char list"
  fullres :: "char list"
  projname :: "char list"
  outdir :: "char list"
  images :: "char list list"

definition initial_r2c :: r2c where
  "initial_r2c = \<lparr>project = [], resname = [], fullres = [], projname = [], outdir = ''incore-res'', images = []\<rparr>"

definition out_name :: "r2c \<Rightarrow> char list \<Rightarrow> char list option \<Rightarrow> char list res" where
  "out_name S inn out =
     (case out of
        Some o' \<Rightarrow> Inr o'
      | None \<Rightarrow> rbind (add_export inn) (\<lambda>x. buffered 1024 (project S @ ''/'' @ outdir S @ ''/'' @ x @ ''.c.data'')))"

definition var_name :: "char list \<Rightarrow> char list option \<Rightarrow> char list res" where
  "var_name inn varname = (case varname of Some v \<Rightarrow> Inr v | None \<Rightarrow> add_export inn)"

definition bin2c ::
  "cenv \<Rightarrow> file_io \<Rightarrow> r2c \<Rightarrow> files \<Rightarrow> char list \<Rightarrow> char list option \<Rightarrow> char list option \<Rightarrow> files res" where
  "bin2c E d S fs inn out varname =
     (if \<not> can_open d inn \<or> fs inn = None then Inr fs
      else rbind (out_name S inn out) (\<lambda>outname.
        if \<not> can_open d outname then Inr fs
        else let fs = fs(outname \<mapsto> []) in
          rbind (slurp E d 0 0 [] (case fs inn of Some content \<Rightarrow> content | None \<Rightarrow> [])) (\<lambda>source.
            case source of
              None \<Rightarrow> Inr fs
            | Some [] \<Rightarrow> Inr fs
            | Some dest \<Rightarrow>
                rbind (var_name inn varname) (\<lambda>v.
                  if length dest > 2 ^ 31 then Inl Signed_Overflow
                  else Inr (fs(outname \<mapsto> c_source (file_part outname) v dest))))))"

section \<open>Arguments\<close>

text \<open>\<open>basename\<close> of the C library; \<open>getenv("PWD")\<close> is an argument.\<close>

definition c_basename :: "char list option \<Rightarrow> char list" where
  "c_basename path =
     (case path of
        None \<Rightarrow> ''.''
      | Some [] \<Rightarrow> ''.''
      | Some s \<Rightarrow> (let t = rev (dropWhile (\<lambda>c. c = CHR ''/'') (rev s)) in if t = [] then ''/'' else file_part t))"

lemma after_last_length: "after_last c s = Some t \<Longrightarrow> length t < length s"
proof -
  assume *: "after_last c s = Some t"
  then have "takeWhile (\<lambda>x. x \<noteq> c) (rev s) \<noteq> rev s" by (auto simp: after_last_def takeWhile_eq_all_conv split: if_splits)
  then have "length (takeWhile (\<lambda>x. x \<noteq> c) (rev s)) < length (rev s)"
    by (metis length_takeWhile_le le_neq_implies_less takeWhile_eq_take take_all)
  then show ?thesis using * by (auto simp: after_last_def split: if_splits)
qed

text \<open>The project loses its last slashes; the result is the project and its name.\<close>

function set_proj_name :: "char list option \<Rightarrow> char list \<Rightarrow> (char list \<times> char list) res" where
  "set_proj_name pwd proj =
     (if proj = ''.'' \<or> proj = ''./'' then rbind (buffered 256 (c_basename pwd)) (\<lambda>n. Inr (proj, n))
      else case (case after_last CHR ''/'' proj of Some t \<Rightarrow> Some t | None \<Rightarrow> after_last (CHR 0x5C) proj) of
        None \<Rightarrow> rbind (buffered 256 proj) (\<lambda>n. Inr (proj, n))
      | Some t \<Rightarrow> if t = [] then set_proj_name pwd (butlast proj) else rbind (buffered 256 t) (\<lambda>n. Inr (proj, n)))"
  by pat_completeness auto

termination
  by (relation "measure (\<lambda>(pwd, proj). length proj)") (auto dest: after_last_length split: option.splits)

declare set_proj_name.simps [simp del]

definition set_package_file :: "r2c \<Rightarrow> r2c res" where
  "set_package_file S =
     (if project S = [] then Inr S
      else rbind (buffered 1024 (if resname S = [] then project S @ ''/res/'' @ projname S @ ''.res''
                             else project S @ ''/res/'' @ resname S)) (\<lambda>f. Inr (S\<lparr>fullres := f\<rparr>)))"

text \<open>What \<open>getopt_long\<close> makes of the command line: the letters of the options with their arguments.\<close>

fun take_options :: "r2c \<Rightarrow> (char \<times> char list option) list \<Rightarrow> r2c res" where
  "take_options S [] = Inr S"
| "take_options S ((c, None) # opts) = take_options S opts"
| "take_options S ((c, Some optarg) # opts) =
     (if c = CHR ''p'' then rbind (buffered 1024 optarg) (\<lambda>s. take_options (S\<lparr>project := s\<rparr>) opts)
      else if c = CHR ''r'' then rbind (buffered 1024 optarg) (\<lambda>s. take_options (S\<lparr>resname := s\<rparr>) opts)
      else if c = CHR ''d'' then rbind (buffered 1024 optarg) (\<lambda>s. take_options (S\<lparr>outdir := s\<rparr>) opts)
      else take_options S opts)"

text \<open>\<open>strncmp(a, b, strlen(a)) == 0\<close>\<close>

definition c_prefix :: "char list \<Rightarrow> char list \<Rightarrow> bool" where
  "c_prefix a b \<longleftrightarrow> take (length a) b = a"

definition parseArgs :: "char list option \<Rightarrow> r2c \<Rightarrow> (char \<times> char list option) list \<Rightarrow> (int \<times> r2c) res" where
  "parseArgs pwd S opts =
     rbind (take_options S opts) (\<lambda>S.
       if project S = [] then Inr (1, S)
       else rbind (if c_prefix (project S) ''.'' \<or> c_prefix (project S) ''./''
                   then (case pwd of None \<Rightarrow> Inl Null_Deref | Some d \<Rightarrow> buffered 1024 d)
                   else Inr (project S)) (\<lambda>proj.
            rbind (set_proj_name pwd proj) (\<lambda>(proj, name).
            rbind (set_package_file (S\<lparr>project := proj, projname := name\<rparr>)) (\<lambda>S. Inr (0, S)))))"

section \<open>The images of a package\<close>

text \<open>A \<open>set<string>\<close>: in the order of the bytes, each once.\<close>

fun byte_less :: "char list \<Rightarrow> char list \<Rightarrow> bool" where
  "byte_less s [] = False"
| "byte_less [] (b # t) = True"
| "byte_less (a # s) (b # t) = ((of_char a :: nat) < of_char b \<or> a = b \<and> byte_less s t)"

fun set_insert :: "char list \<Rightarrow> char list list \<Rightarrow> char list list" where
  "set_insert x [] = [x]"
| "set_insert x (y # ys) = (if x = y then y # ys else if byte_less x y then x # y # ys else y # set_insert x ys)"

fun images_loop ::
  "(HPACKAGE \<Rightarrow> 32 word \<Rightarrow> (mptr option \<times> HPACKAGE) run) \<Rightarrow> HPACKAGE \<Rightarrow> nat \<Rightarrow> mptr \<Rightarrow> char list list \<Rightarrow>
   (char list list \<times> HPACKAGE) run" where
  "images_loop getstr hPackage 0 item imgs = Some (Inr (imgs, hPackage))"
| "images_loop getstr hPackage (Suc n) item imgs =
     ubind (Some (rd32 (fst item) (snd item + 4))) (\<lambda>filename_id.
     ubind (getstr hPackage filename_id) (\<lambda>(filename, hPackage).
     ubind (Some (case filename of None \<Rightarrow> Inr imgs | Some p \<Rightarrow> rbind (str_at p) (\<lambda>s. Inr (set_insert s imgs)))) (\<lambda>imgs.
       images_loop getstr hPackage n (fst item, snd item + sizeof_NCSRM_IDITEM) imgs)))"

definition get_image_list ::
  "cenv \<Rightarrow> files \<Rightarrow> nat \<Rightarrow> char list \<Rightarrow> r2c \<Rightarrow> (int \<times> r2c) run" where
  "get_image_list E fs f loc S =
     ubind (ncsLoadResPackageFromFile E fs f loc (Some (fullres S))) (\<lambda>(hPackage, loc).
       if hPackage = None then Some (Inr (1, S))
       else ubind (get_res_sectaddr E fs (ncsGetString E fs loc f) hPackage NCSRT_IMAGE) (\<lambda>(sect_head, hPackage).
         case sect_head of
           None \<Rightarrow> Some (Inl Null_Deref)
         | Some (b, s) \<Rightarrow>
             ubind (Some (rd32 b (s + 4))) (\<lambda>size_maps.
             ubind (images_loop (ncsGetString E fs loc f) hPackage (unat size_maps) (b, s + sizeof_NCSRM_SECTHEADER) (images S))
               (\<lambda>(imgs, hPackage). Some (Inr (0, S\<lparr>images := imgs\<rparr>))))))"

section \<open>The C files\<close>

definition system_includes :: "char list list" where
  "system_includes = [''#include <minigui/common.h>'', ''#include <minigui/minigui.h>'', ''#include <minigui/gdi.h>'',
     ''#include <minigui/window.h>'', ''#include <mgncs/mgncs.h>'', []]"

text \<open>\<open>pack2c\<close> ends without a \<open>return\<close>; the caller tests a value nobody has set.\<close>

definition pack2c :: "cenv \<Rightarrow> file_io \<Rightarrow> r2c \<Rightarrow> files \<Rightarrow> (int option \<times> files) res" where
  "pack2c E d S fs =
     rbind (buffered 1024 (project S @ ''/'' @ outdir S @ ''/mgncs_incore_package.c'')) (\<lambda>cname.
     rbind (bin2c E d S fs (fullres S) (Some cname) (Some ''_mgncs_incore_package'')) (\<lambda>fs.
       if \<not> can_open d cname then Inr (Some 1, fs)
       else Inr (None, fs(cname \<mapsto> (case fs cname of Some t \<Rightarrow> t | None \<Rightarrow> []) @ c_lines (system_includes @
         [''#ifdef _MGNCS_INCORE_RES'', ''#include '' @ [DQ] @ ''_incore_images.c.data'' @ [DQ], [],
          ''HPACKAGE ncsLoadIncoreResPackage(void)'', ''{'',
          ''    if(sizeof(_mgncs_incore_images) > 0 ) '', ''    { '',
          ''       if(AddInnerRes(_mgncs_incore_images, '',
          ''           sizeof(_mgncs_incore_images)/sizeof(INNER_RES), FALSE) != RES_RET_OK)'',
          ''       return HPACKAGE_NULL;'', ''    }'',
          ''    return ncsLoadResPackageFromMem((const void*)_mgncs_incore_package, sizeof(_mgncs_incore_package));'',
          ''}'', [], ''#endif'']))))) "

fun images_to_c :: "cenv \<Rightarrow> file_io \<Rightarrow> r2c \<Rightarrow> files \<Rightarrow> char list list \<Rightarrow> files res" where
  "images_to_c E d S fs [] = Inr fs"
| "images_to_c E d S fs (it # its) =
     rbind (buffered 1024 (project S @ ''/'' @ it)) (\<lambda>name.
     rbind (bin2c E d S fs name None None) (\<lambda>fs. images_to_c E d S fs its))"

text \<open>
  A name without a slash or without a dot gives a pointer next to \<open>NULL\<close>, which is read.
\<close>

fun image_includes :: "char list list \<Rightarrow> char list list res" where
  "image_includes [] = Inr []"
| "image_includes (it # its) =
     (case after_last CHR ''/'' it of
        None \<Rightarrow> Inl Null_Deref
      | Some t \<Rightarrow> rbind (add_export t) (\<lambda>v. rbind (image_includes its) (\<lambda>ls.
          Inr ((''#include '' @ [DQ] @ v @ ''.c.data'' @ [DQ]) # ls))))"

fun image_entries :: "char list list \<Rightarrow> char list list res" where
  "image_entries [] = Inr []"
| "image_entries (it # its) =
     rbind (add_export it) (\<lambda>tmp.
       case after_last CHR ''.'' it of
         None \<Rightarrow> Inl Null_Deref
       | Some ext \<Rightarrow> rbind (image_entries its) (\<lambda>ls.
           Inr ((''    {0x'' @ fmt_x (unat (ucast (Str2Key (Some it)) :: 32 word)) @ '', (void*)'' @ tmp @ '', sizeof('' @ tmp
             @ ''), '' @ [DQ] @ ext @ [DQ] @ ''},'') # ls)))"

definition image2c :: "cenv \<Rightarrow> file_io \<Rightarrow> r2c \<Rightarrow> files \<Rightarrow> char list list \<Rightarrow> (int \<times> files) res" where
  "image2c E d S fs filelist =
     rbind (buffered 1024 (project S @ ''/'' @ outdir S @ ''/_incore_images.c.data'')) (\<lambda>cname.
     rbind (images_to_c E d S fs filelist) (\<lambda>fs.
       if \<not> can_open d cname then Inr (1, fs)
       else rbind (image_includes filelist) (\<lambda>incs. rbind (image_entries filelist) (\<lambda>ents.
         Inr (0, fs(cname \<mapsto> c_lines
           ([''/*'', '' * Filename: '' @ the (after_last CHR ''.'' cname) @ '' '',
             '' * This file is generated automatically by res2c tools, please don'' @ [CHR 0x27] @ ''t edit.'', '' *'',
             '' *    Copyright (C) 2009 Feynman Software'', '' *    All rights reserved by Feynman Software.'', '' */'', [],
             ''#ifndef _INCORE_IMAGES_H'', ''#define _INCORE_IMAGES_H'', []] @ system_includes @ [''#ifdef _MGNCS_INCORE_RES'']
            @ incs @ [[], ''static INNER_RES _mgncs_incore_images[] = {''] @ ents
            @ [''};'', ''#endif'', [], ''#endif''])))))))"

section \<open>The program\<close>

text \<open>\<open>strstr\<close>: what follows the first place where \<open>pat\<close> stands.\<close>

fun after_first :: "char list \<Rightarrow> char list \<Rightarrow> char list option" where
  "after_first pat [] = (if pat = [] then Some [] else None)"
| "after_first pat (c # s) = (if take (length pat) (c # s) = pat then Some (drop (length pat) (c # s)) else after_first pat s)"

definition check_out_dir :: "r2c \<Rightarrow> unit res" where
  "check_out_dir S = rbind (buffered 1024 (project S @ ''/'' @ outdir S)) (\<lambda>_. Inr ())"

definition res2c ::
  "cenv \<Rightarrow> file_io \<Rightarrow> nat \<Rightarrow> char list option \<Rightarrow> files \<Rightarrow> (char \<times> char list option) list \<Rightarrow> (int \<times> files) run" where
  "res2c E d f pwd fs opts =
     ubind (Some (parseArgs pwd initial_r2c opts)) (\<lambda>(r, S).
       if r \<noteq> 0 then Some (Inr (1, fs))
       else if after_first ''.res'' (fullres S) \<noteq> Some [] then Some (Inr (1, fs))
       else ubind (Some (check_out_dir S)) (\<lambda>_.
            ubind (get_image_list E (\<lambda>n. if can_open d n then fs n else None) f initial_locale S) (\<lambda>(r, S).
              if r \<noteq> 0 then Some (Inr (1, fs))
              else ubind (Some (image2c E d S fs (images S))) (\<lambda>(r, fs).
                if r \<noteq> 0 then Some (Inr (1, fs))
                else ubind (Some (pack2c E d S fs)) (\<lambda>(r, fs).
                  case r of
                    None \<Rightarrow> Some (Inl Uninitialised)
                  | Some r \<Rightarrow> Some (Inr (if r \<noteq> 0 then 1 else 0, fs)))))))"

section \<open>What they do\<close>

lemma slurp_all:
  assumes E: "all_mem E" and d: "\<forall>k. 0 \<le> read_some d k"
  shows "length source \<le> sz \<Longrightarrow> slurp E d k sz source ahead = Inr (Some (source @ ahead))"
proof (induction "length ahead" arbitrary: k sz source ahead rule: less_induct)
  case less
  have env: "mem E = (\<lambda>_. True)" "\<not> read_some d k < 0" using mem_all [OF E] d by (simp_all add: not_less)
  show ?case
  proof (cases "length ahead < BUFSIZE")
    case True
    then show ?thesis using less.prems by (subst slurp.simps) (simp add: env Let_def)
  next
    case False
    let ?sz = "if length source + BUFSIZE > sz then sz + BUFSIZE else sz"
    have got: "length (take BUFSIZE ahead) = BUFSIZE" using False by simp
    have "length (drop BUFSIZE ahead) < length ahead" using False by (simp add: BUFSIZE_def)
    then have "slurp E d (k + 1) ?sz (source @ take BUFSIZE ahead) (drop BUFSIZE ahead) = Inr (Some (source @ ahead))"
      using less.hyps [of "drop BUFSIZE ahead" "source @ take BUFSIZE ahead" ?sz "k + 1"] less.prems got by simp
    then show ?thesis using less.prems got by (subst slurp.simps) (simp add: env Let_def)
  qed
qed

text \<open>
  A reader of C's array initialisers: the bytes \<open>0xhh\<close> up to the closing brace.
\<close>

definition hex_value :: "char \<Rightarrow> nat" where
  "hex_value c = (if c_isdigit c then of_char c - 48 else of_char c - 87)"

fun hex_tokens :: "char list \<Rightarrow> char list" where
  "hex_tokens (a # b # h # l # cs) =
     (if a = CHR ''}'' then []
      else if a = CHR ''0'' \<and> b = CHR ''x'' then char_of (16 * hex_value h + hex_value l) # hex_tokens cs
      else hex_tokens (b # h # l # cs))"
| "hex_tokens cs = []"

definition c_initializer :: "char list \<Rightarrow> char list" where
  "c_initializer text = hex_tokens (dropWhile (\<lambda>c. c \<noteq> CHR ''{'') text)"

lemma hex_value_char: "n < 16 \<Longrightarrow> hex_value (hex_char n) = n"
  by (auto simp: hex_value_def hex_char_def c_isdigit_def)

lemma hex_tokens_byte: "hex_tokens (CHR ''0'' # CHR ''x'' # fmt_02x c @ rest) = c # hex_tokens rest"
proof -
  have "(of_char c :: nat) < 256" by simp
  then have "(of_char c :: nat) div 16 < 16" by (simp add: less_mult_imp_div_less)
  moreover have "16 * ((of_char c :: nat) div 16) + of_char c mod 16 = of_char c" by simp
  ultimately show ?thesis by (simp add: fmt_02x_def hex_value_char)
qed

lemma hex_tokens_skip: "a \<noteq> CHR ''0'' \<Longrightarrow> a \<noteq> CHR ''}'' \<Longrightarrow> hex_tokens (a # s) = hex_tokens s"
  by (cases s rule: hex_tokens.cases) auto

lemma hex_tokens_array: "dest \<noteq> [] \<Longrightarrow> hex_tokens (array_loop j dest @ rest) = dest"
proof (induction j dest rule: array_loop.induct)
  case (2 j c)
  have "hex_tokens (NL # CHR ''}'' # CHR '';'' # NL # NL # rest) = []" by (simp add: hex_tokens_skip)
  then show ?case using hex_tokens_byte [of c] by (simp add: hex_tokens_skip)
next
  case (3 j c d dest)
  then show ?case using hex_tokens_byte [of c] by (simp add: hex_tokens_skip)
qed simp

lemma c_initializer_source:
  assumes "CHR ''{'' \<notin> set tmpname" "CHR ''{'' \<notin> set varname" "dest \<noteq> []"
  shows "c_initializer (c_source tmpname varname dest) = dest"
proof -
  let ?foot = "c_lines [''#endif /* _MGNCS_INCORE_RES */'', []]"
  let ?pre = "c_lines ([''/*'', '' * Filename: '' @ tmpname @ '' ''] @ head_lines) @ ''static const unsigned char '' @ varname @ ''[] = ''"
  have "c_source tmpname varname dest = ?pre @ CHR ''{'' # NL # array_loop 0 dest @ ?foot" by (simp add: c_source_def)
  moreover have "c_lines ([''/*'', '' * Filename: '' @ tmpname @ '' ''] @ head_lines)
      = ''/*'' @ [NL] @ '' * Filename: '' @ tmpname @ '' '' @ [NL] @ c_lines head_lines" by (simp add: c_lines_def)
  moreover have "list_all (\<lambda>c. c \<noteq> CHR ''{'') (c_lines head_lines)" by code_simp
  ultimately have "\<forall>c \<in> set ?pre. c \<noteq> CHR ''{''" using assms(1,2) by (auto simp: list_all_iff)
  moreover note \<open>c_source tmpname varname dest = _\<close>
  ultimately have "dropWhile (\<lambda>c. c \<noteq> CHR ''{'') (c_source tmpname varname dest) = CHR ''{'' # NL # array_loop 0 dest @ ?foot"
    by (simp only: dropWhile_append2 dropWhile.simps refl simp_thms if_False)
  then show ?thesis using hex_tokens_array [OF assms(3), of 0] by (simp add: c_initializer_def hex_tokens_skip)
qed

lemma file_part_subset: "set (file_part s) \<subseteq> set s"
  by (auto simp: file_part_def after_last_def dest: set_takeWhileD)

text \<open>
  C32: bin2c writes a C source whose array initialiser, read back byte by byte, is exactly the
  content of the input file, whatever the sizes of the reads and the length of the file up to 2^31
  bytes.
\<close>

theorem bin2c_array:
  assumes E: "all_mem E" "\<forall>k. 0 \<le> read_some d k" and nms: "out_name S inn out = Inr outname" "var_name inn varname = Inr v"
    and files: "can_open d inn" "can_open d outname" "outname \<noteq> inn" "fs inn = Some content"
    and content: "content \<noteq> []" "length content \<le> 2 ^ 31" and braces: "CHR ''{'' \<notin> set outname" "CHR ''{'' \<notin> set v"
  shows "\<exists>text. bin2c E d S fs inn out varname = Inr (fs(outname \<mapsto> text)) \<and> c_initializer text = content"
proof -
  obtain c cs where c: "content = c # cs" using content(1) by (cases content) auto
  have "slurp E d 0 0 [] content = Inr (Some content)" using slurp_all [OF E] by simp
  then have "bin2c E d S fs inn out varname = Inr (fs(outname \<mapsto> c_source (file_part outname) v content))"
    using nms files content(2) c by (simp add: bin2c_def not_less)
  moreover have "c_initializer (c_source (file_part outname) v content) = content"
    using c_initializer_source content(1) braces file_part_subset [of outname] by blast
  ultimately show ?thesis by blast
qed

lemma bin2c_array_witness:
  "\<exists>text. bin2c plain_env plain_io initial_r2c (\<lambda>_. Some ''abc'') ''x/a-b.png'' (Some ''o.c'') None = Inr ((\<lambda>_. Some ''abc'')(''o.c'' \<mapsto> text))
     \<and> c_initializer text = ''abc''"
proof (rule bin2c_array)
  show "out_name initial_r2c ''x/a-b.png'' (Some ''o.c'') = Inr ''o.c''" by (simp add: out_name_def)
  show "var_name ''x/a-b.png'' None = Inr ''_png_a_b_data''" by code_simp
qed (simp_all add: plain_io_def)

text \<open>An empty file gives an empty file of C, without the array the other files refer to.\<close>

lemma bin2c_empty:
  assumes E: "all_mem E" "\<forall>k. 0 \<le> read_some d k" and name: "out_name S inn out = Inr outname"
    and files: "can_open d inn" "can_open d outname" "outname \<noteq> inn" "fs inn = Some []"
  shows "bin2c E d S fs inn out varname = Inr (fs(outname \<mapsto> []))"
proof -
  have "slurp E d 0 0 [] [] = Inr (Some [])" using slurp_all [OF E] by simp
  then show ?thesis using name files by (simp add: bin2c_def)
qed

text \<open>Two files whose names differ in a character that is no letter or digit get the same variable.\<close>

lemma add_export_collision: "add_export ''res/a-b.png'' = add_export ''res/a_b.png''"
  by code_simp

lemma add_export_raw_extension: "add_export ''a.b-c'' = Inr ''_b-c_a_data''"
  by code_simp

text \<open>A last slash of the project is dropped, its name is the last part.\<close>

lemma set_proj_name_slash:
  assumes "name \<noteq> []" "CHR ''/'' \<notin> set name" "length name < 256" 
  shows "set_proj_name pwd (dir @ CHR ''/'' # name @ ''/'') = Inr (dir @ CHR ''/'' # name, name)"
proof -
  have "set_proj_name pwd (dir @ CHR ''/'' # name @ ''/'') = set_proj_name pwd (dir @ CHR ''/'' # name)"
    using assms by (subst set_proj_name.simps) (simp add: after_last_def butlast_append append_eq_Cons_conv Cons_eq_append_conv)
  also have "\<dots> = Inr (dir @ CHR ''/'' # name, name)"
  proof -
    have "takeWhile (\<lambda>x. x \<noteq> CHR ''/'') (rev name @ CHR ''/'' # rev dir) = rev name"
      using assms(2) by (subst takeWhile_append2) auto
    then show ?thesis
      using assms by (subst set_proj_name.simps) (simp add: after_last_def append_eq_Cons_conv buffered_def)
  qed
  finally show ?thesis .
qed

text \<open>The program never ends with the value 0 that stands for success: \<open>pack2c\<close> has no value to return.\<close>

lemma pack2c_value: "pack2c E d S fs = Inr (r, fs') \<Longrightarrow> r = None \<or> r = Some 1"
  by (auto simp: pack2c_def rbind_eq_Inr split: if_splits)

lemma res2c_never_succeeds: "res2c E d f pwd fs opts \<noteq> Some (Inr (0, fs'))"
  by (auto simp: res2c_def ubind_eq_Inr split: if_splits prod.splits option.splits dest!: pack2c_value)

end
