(* ===== verification/Mo_Catalog.thy ===== *)
theory Mo_Catalog
  imports Res_Package
begin

text \<open>
  The translations of the program's own texts: \<open>trans/read_mo.cpp\<close> reads a \<open>.mo\<close> file into memory,
  \<open>msd_gettext\<close> of \<open>trans/gettext.cpp\<close> looks a text up, by a hash table with double hashing or, when the
  table has two entries or fewer, by binary search. A pointer into the file is an offset; \<open>size_t\<close> and
  \<open>unsigned long\<close> have 64 bits, and sums of \<open>uint32_t\<close> wrap at 32. Messages on \<open>stderr\<close> are left out.
\<close>

section \<open>Reading a file\<close>

text \<open>
  \<open>k\<close> counts the calls of \<open>fread\<close>. A call that fails gives nothing and does not set the end-of-file flag,
  so the loop goes on; the memory it asks for is used without a look at the result.
\<close>

definition mo_increment :: nat where "mo_increment = 4096"

definition mo_grow :: "nat \<Rightarrow> nat \<Rightarrow> nat" where
  "mo_grow alloc size' = (let a = alloc + alloc div 2 in if a < size' + mo_increment then size' + mo_increment else a)"

partial_function (option) read_binary_mo_file ::
  "cenv \<Rightarrow> file_io \<Rightarrow> nat \<Rightarrow> nat \<Rightarrow> char list \<Rightarrow> char list \<Rightarrow> char list run" where
  "read_binary_mo_file E d k alloc data ahead =
     (let grow = length data + mo_increment > alloc;
          alloc = (if grow then mo_grow alloc (length data) else alloc) in
      if grow \<and> \<not> mem E (int alloc) then Some (Inl Null_Deref)
      else if read_some d k < 0 then read_binary_mo_file E d (k + 1) alloc data ahead
      else if length ahead < mo_increment then Some (Inr (data @ ahead))
      else read_binary_mo_file E d (k + 1) alloc (data @ take mo_increment ahead) (drop mo_increment ahead))"

definition get_uint32 :: "char list \<Rightarrow> nat \<Rightarrow> 32 word res" where
  "get_uint32 data offset =
     rbind (rd8 data (int offset)) (\<lambda>b0. rbind (rd8 data (int offset + 1)) (\<lambda>b1.
     rbind (rd8 data (int offset + 2)) (\<lambda>b2. rbind (rd8 data (int offset + 3)) (\<lambda>b3.
       Inr (of_char b0 OR push_bit 8 (of_char b1) OR push_bit 16 (of_char b2) OR push_bit 24 (of_char b3))))))"

text \<open>The string described at \<open>offset\<close>: its place and its length with the \<open>NUL\<close>.\<close>

definition get_string :: "char list \<Rightarrow> nat \<Rightarrow> (nat \<times> nat) res" where
  "get_string data offset =
     rbind (get_uint32 data offset) (\<lambda>s_length. rbind (get_uint32 data (offset + 4)) (\<lambda>s_offset.
     rbind (rd8 data (uint (s_offset + s_length))) (\<lambda>c. Inr (unat s_offset, unat s_length + 1))))"

record message_ty =
  msgctxt :: "nat option"
  msgid :: nat
  msgid_len :: nat
  msgstr :: nat
  msgstr_len :: nat

record message_list_ty =
  item :: "message_ty list option"
  hash_tab :: "32 word list option"
  hash_size :: nat
  nitems :: nat
  bf_data :: "char list"

definition no_messages :: message_list_ty where
  "no_messages = \<lparr>item = None, hash_tab = None, hash_size = 0, nitems = 0, bf_data = []\<rparr>"

definition offset_nstrings :: nat where "offset_nstrings = 8"
definition offset_orig_tab_offset :: nat where "offset_orig_tab_offset = 12"
definition offset_trans_tab_offset :: nat where "offset_trans_tab_offset = 16"
definition offset_hash_tab_size :: nat where "offset_hash_tab_size = 20"
definition offset_hash_tab_offset :: nat where "offset_hash_tab_offset = 24"

fun read_hash :: "char list \<Rightarrow> 32 word \<Rightarrow> nat \<Rightarrow> 32 word list res" where
  "read_hash data off 0 = Inr []"
| "read_hash data off (Suc n) =
     rbind (get_uint32 data (unat off)) (\<lambda>w. rbind (read_hash data (off + 4) n) (\<lambda>ws. Inr (w # ws)))"

definition MSGCTXT_SEPARATOR :: char where "MSGCTXT_SEPARATOR = CHR 0x04"

definition mo_string :: "char list \<Rightarrow> nat \<Rightarrow> char list res" where
  "mo_string data p = str_at (data, int p)"

text \<open>
  One message. A context before the text is cut off by a \<open>NUL\<close> written over the separator.
\<close>

definition read_message :: "char list \<Rightarrow> 32 word \<Rightarrow> 32 word \<Rightarrow> (message_ty \<times> char list) res" where
  "read_message data orig trn =
     rbind (get_string data (unat orig)) (\<lambda>(p, len).
     rbind (mo_string data p) (\<lambda>s.
       let before = takeWhile (\<lambda>c. c \<noteq> MSGCTXT_SEPARATOR) s;
           has_ctxt = (length before < length s);
           data = (if has_ctxt then data[p + length before := NUL] else data) in
       rbind (get_string data (unat trn)) (\<lambda>(q, qlen).
         Inr (\<lparr>msgctxt = (if has_ctxt then Some p else None),
               msgid = (if has_ctxt then p + length before + 1 else p),
               msgid_len = (if has_ctxt then len - (length before + 1) else len),
               msgstr = q, msgstr_len = qlen\<rparr>, data))))"

fun read_messages :: "char list \<Rightarrow> 32 word \<Rightarrow> 32 word \<Rightarrow> nat \<Rightarrow> (message_ty list \<times> char list) res" where
  "read_messages data orig trn 0 = Inr ([], data)"
| "read_messages data orig trn (Suc n) =
     rbind (read_message data orig trn) (\<lambda>(m, data).
     rbind (read_messages data (orig + 8) (trn + 8) n) (\<lambda>(ms, data). Inr (m # ms, data)))"

definition sizeof_message_ty :: int where "sizeof_message_ty = 40"

definition read_mo_file ::
  "cenv \<Rightarrow> file_io \<Rightarrow> files \<Rightarrow> message_list_ty \<Rightarrow> char list \<Rightarrow> message_list_ty run" where
  "read_mo_file E d fs ml filename =
     (case (if can_open d filename then fs filename else None) of
        None \<Rightarrow> Some (Inr ml)
      | Some content \<Rightarrow>
          ubind (read_binary_mo_file E d 0 0 [] content) (\<lambda>data.
          ubind (Some (get_uint32 data offset_nstrings)) (\<lambda>nstrings.
          ubind (Some (get_uint32 data offset_orig_tab_offset)) (\<lambda>orig.
          ubind (Some (get_uint32 data offset_trans_tab_offset)) (\<lambda>trn.
          ubind (Some (get_uint32 data offset_hash_tab_size)) (\<lambda>size'.
          ubind (Some (get_uint32 data offset_hash_tab_offset)) (\<lambda>hash_off.
          let tab = mem E (uint size' * 4); its = mem E (uint nstrings * sizeof_message_ty) in
          if \<not> tab \<and> 0 < size' then Some (Inl Null_Deref)
          else ubind (Some (read_hash data hash_off (unat size'))) (\<lambda>ws.
          if \<not> its \<and> 0 < nstrings then Some (Inl Null_Deref)
          else ubind (Some (read_messages data orig trn (unat nstrings))) (\<lambda>(ms, data).
            Some (Inr \<lparr>item = (if its then Some ms else None), hash_tab = (if tab then Some ws else None), hash_size = unat size',
              nitems = unat nstrings, bf_data = data\<rparr>))))))))))"

section \<open>Looking a text up\<close>

text \<open>\<open>hash_string\<close>: all characters are taken as unsigned.\<close>

definition hash_step :: "64 word \<Rightarrow> char \<Rightarrow> 64 word" where
  "hash_step hval c =
     (let hval = push_bit 4 hval + of_char c; g = hval AND push_bit 28 0xf in
      if g \<noteq> 0 then hval XOR drop_bit 24 g XOR g else hval)"

definition hash_string :: "char list \<Rightarrow> 64 word" where
  "hash_string s = foldl hash_step 0 s"

definition item_id :: "message_list_ty \<Rightarrow> nat \<Rightarrow> char list res" where
  "item_id ml i = (case item ml of None \<Rightarrow> Inl Null_Deref | Some ms \<Rightarrow>
     rbind (aget ms (int i)) (\<lambda>m. mo_string (bf_data ml) (msgid m)))"

definition item_str :: "message_list_ty \<Rightarrow> nat \<Rightarrow> char list res" where
  "item_str ml i = (case item ml of None \<Rightarrow> Inl Null_Deref | Some ms \<Rightarrow>
     rbind (aget ms (int i)) (\<lambda>m. mo_string (bf_data ml) (msgstr m)))"

definition next_probe :: "nat \<Rightarrow> nat \<Rightarrow> nat \<Rightarrow> nat" where
  "next_probe size' incr idx = (if idx \<ge> size' - incr then idx - (size' - incr) else idx + incr)"

text \<open>The first look at the table and the loop after it do the same with the entry at \<open>idx\<close>.\<close>

partial_function (option) probe_loop :: "message_list_ty \<Rightarrow> 32 word list \<Rightarrow> char list \<Rightarrow> nat \<Rightarrow> nat \<Rightarrow> char list run" where
  "probe_loop ml tab text' incr idx =
     ubind (Some (aget tab (int idx))) (\<lambda>nstr.
       if nstr = 0 then Some (Inr text')
       else ubind (Some (item_id ml (unat nstr - 1))) (\<lambda>s.
         if text' = s then Some (item_str ml (unat nstr - 1))
         else probe_loop ml tab text' incr (next_probe (hash_size ml) incr idx)))"

text \<open>\<open>strcmp\<close>: bytes as unsigned numbers.\<close>

fun c_strcmp :: "char list \<Rightarrow> char list \<Rightarrow> int" where
  "c_strcmp [] [] = 0"
| "c_strcmp [] (b # t) = - of_char b"
| "c_strcmp (a # s) [] = of_char a"
| "c_strcmp (a # s) (b # t) = (if a = b then c_strcmp s t else of_char a - of_char b)"

function message_search :: "message_list_ty \<Rightarrow> char list \<Rightarrow> nat \<Rightarrow> nat \<Rightarrow> char list res" where
  "message_search ml text' bottom top' =
     (if bottom < top'
      then let act = (bottom + top') div 2 in
        rbind (item_id ml act) (\<lambda>s.
          if c_strcmp text' s < 0 then message_search ml text' bottom act
          else if c_strcmp text' s > 0 then message_search ml text' (act + 1) top'
          else item_str ml act)
      else Inr text')"
  by pat_completeness auto

termination
  by (relation "measure (\<lambda>(ml, text', bottom, top'). top' - bottom)") auto

declare message_search.simps [simp del]

definition msd_gettext :: "message_list_ty \<Rightarrow> char list \<Rightarrow> char list run" where
  "msd_gettext ml text' =
     (case hash_tab ml of
        None \<Rightarrow> Some (Inr text')
      | Some tab \<Rightarrow>
          if text' = [] then Some (Inr text')
          else if hash_size ml > 2
          then let hash_val = unat (ucast (hash_string text') :: 32 word) in
            probe_loop ml tab text' (1 + hash_val mod (hash_size ml - 2)) (hash_val mod hash_size ml)
          else Some (message_search ml text' 0 (nitems ml)))"

section \<open>Starting and ending\<close>

text \<open>
  \<open>lang\<close> and \<open>path\<close> are what the configuration file gives, cut to the buffers by \<open>GetValueFromEtcFile\<close>.
\<close>

definition sizeof_szLocale :: nat where "sizeof_szLocale = 16"

definition msd_locale_init ::
  "cenv \<Rightarrow> file_io \<Rightarrow> files \<Rightarrow> nat \<Rightarrow> message_list_ty \<Rightarrow> bool \<Rightarrow> char list \<Rightarrow> char list \<Rightarrow> (int \<times> message_list_ty) run" where
  "msd_locale_init E d fs max_path ml cfg lang path =
     (if \<not> cfg then Some (Inr (0, ml))
      else if item ml \<noteq> None then Some (Inr (1, ml))
      else let szLocale = take (sizeof_szLocale - 1) lang; szLangPath = take (max_path - 1) path in
        if szLocale = [] \<or> szLangPath = [] then Some (Inr (1, ml))
        else if szLocale = ''en'' \<or> length szLocale > 20 then Some (Inr (1, ml))
        else let name = szLangPath @ ''/lang/'' @ szLocale @ ''.mo'' in
          if length name + 1 > max_path then Some (Inl Out_Of_Bounds)
          else ubind (read_mo_file E d fs ml name) (\<lambda>ml. Some (Inr (0, ml))))"

definition free_mo_info :: "message_list_ty \<Rightarrow> message_list_ty" where
  "free_mo_info ml = ml\<lparr>hash_tab := None, item := None, bf_data := []\<rparr>"

section \<open>Catalogues\<close>

text \<open>What is in memory: the texts with their translations, in the order of the file.\<close>

definition holds_catalog :: "message_list_ty \<Rightarrow> (char list \<times> char list) list \<Rightarrow> bool" where
  "holds_catalog ml cat \<longleftrightarrow> distinct (map fst cat) \<and> nitems ml = length cat \<and> length cat < 2 ^ 32
     \<and> (\<forall>i < length cat. item_id ml i = Inr (fst (cat ! i)) \<and> item_str ml i = Inr (snd (cat ! i)))"

text \<open>The places the search looks at, one after the other.\<close>

definition text_hash :: "char list \<Rightarrow> nat" where
  "text_hash t = unat (ucast (hash_string t) :: 32 word)"

definition probe_step :: "nat \<Rightarrow> char list \<Rightarrow> nat" where
  "probe_step m t = 1 + text_hash t mod (m - 2)"

definition probe_at :: "nat \<Rightarrow> char list \<Rightarrow> nat \<Rightarrow> nat" where
  "probe_at m t k = (text_hash t + k * probe_step m t) mod m"

text \<open>
  The hash table as \<open>msgfmt\<close> writes it: each text has its number at the first place of its sequence that
  was free, some place is free, and the size is a prime number, so that each sequence sees every place.
\<close>

definition hash_ok :: "32 word list \<Rightarrow> (char list \<times> char list) list \<Rightarrow> bool" where
  "hash_ok tab cat \<longleftrightarrow> 2 < length tab \<and> (\<forall>w \<in> set tab. unat w \<le> length cat) \<and> 0 \<in> set tab
     \<and> (\<forall>r \<in> {0<..<length tab}. coprime r (length tab))
     \<and> (\<forall>i < length cat. \<exists>k. tab ! probe_at (length tab) (fst (cat ! i)) k = of_nat (i + 1)
          \<and> (\<forall>j < k. tab ! probe_at (length tab) (fst (cat ! i)) j \<noteq> 0))"

lemma probe_step_bounds: "2 < m \<Longrightarrow> 0 < probe_step m t \<and> probe_step m t < m"
proof -
  assume "2 < m"
  then have "text_hash t mod (m - 2) < m - 2" by simp
  then show ?thesis by (simp add: probe_step_def)
qed

lemma next_probe_mod: "idx < m \<Longrightarrow> 0 < incr \<Longrightarrow> incr < m \<Longrightarrow> next_probe m incr idx = (idx + incr) mod m"
  by (auto simp: next_probe_def mod_if)

lemma probe_at_Suc: "2 < m \<Longrightarrow> next_probe m (probe_step m t) (probe_at m t k) = probe_at m t (Suc k)"
  using probe_step_bounds [of m t] by (subst next_probe_mod) (auto simp: probe_at_def mod_simps algebra_simps)

lemma probe_at_less: "2 < m \<Longrightarrow> probe_at m t k < m"
  by (simp add: probe_at_def)

text \<open>A sequence whose step has no factor in common with the size comes to every place.\<close>

lemma probe_reaches:
  assumes m: "2 < m" and co: "coprime (probe_step m t) m" and p: "p < m"
  shows "\<exists>k. probe_at m t k = p"
proof -
  let ?s = "probe_step m t" and ?h = "text_hash t mod m"
  obtain x y where xy: "?s * x = m * y + 1" using bezout_nat [of ?s m] co probe_step_bounds [OF m, of t] by auto
  define q where "q = p + (m - ?h)"
  have "probe_at m t (x * q) = (?h + q * (?s * x)) mod m"
    by (simp add: probe_at_def mod_simps algebra_simps)
  also have "?h + q * (?s * x) = (?h + q) + m * (q * y)" unfolding xy by (simp add: algebra_simps)
  also have "((?h + q) + m * (q * y)) mod m = (?h + q) mod m" by simp
  also have "?h + q = p + m"
  proof -
    have "?h < m" using m by simp
    then show ?thesis by (simp add: q_def)
  qed
  also have "(p + m) mod m = p" using p by simp
  finally show ?thesis by blast
qed

text \<open>The search stops at the first place that is free or has the text.\<close>

lemma probe_loop_stops:
  assumes c: "holds_catalog ml cat" and t: "2 < length tab" "hash_size ml = length tab" "\<forall>w \<in> set tab. unat w \<le> length cat"
    and stop: "tab ! probe_at (length tab) t k = w" "w = 0 \<or> fst (cat ! (unat w - 1)) = t"
    and go: "\<forall>j < k. tab ! probe_at (length tab) t j \<noteq> 0 \<and> fst (cat ! (unat (tab ! probe_at (length tab) t j) - 1)) \<noteq> t"
  shows "j \<le> k \<Longrightarrow> probe_loop ml tab t (probe_step (length tab) t) (probe_at (length tab) t j)
    = Some (Inr (if w = 0 then t else snd (cat ! (unat w - 1))))"
proof (induction "k - j" arbitrary: j)
  case 0
  then have j: "j = k" by simp
  have get: "aget tab (int (probe_at (length tab) t k)) = Inr w"
    using stop(1) probe_at_less [OF t(1)] by (simp add: aget_nat)
  have "unat w \<le> length cat" using stop(1) t(3) probe_at_less [OF t(1), of t k] by (metis nth_mem)
  then have "w \<noteq> 0 \<Longrightarrow> unat w - 1 < length cat" using unat_gt_0 [of w] by linarith
  then show ?case using c stop(2) get unfolding j
    by (subst probe_loop.simps) (auto simp: holds_catalog_def)
next
  case (Suc d)
  then have j: "j < k" by simp
  define v where "v = tab ! probe_at (length tab) t j"
  have get: "aget tab (int (probe_at (length tab) t j)) = Inr v"
    using probe_at_less [OF t(1)] by (simp add: aget_nat v_def)
  have v: "v \<noteq> 0" "fst (cat ! (unat v - 1)) \<noteq> t" using go j by (auto simp: v_def)
  have "unat v \<le> length cat" unfolding v_def using t(3) probe_at_less [OF t(1), of t j] by (metis nth_mem)
  then have "unat v - 1 < length cat" using v(1) unat_gt_0 [of v] by linarith
  then have "item_id ml (unat v - 1) = Inr (fst (cat ! (unat v - 1)))" using c by (simp add: holds_catalog_def)
  then show ?case using Suc.hyps(1) [of "Suc j"] Suc.hyps(2) j get v t(2) probe_at_Suc [OF t(1), of t j]
    by (subst probe_loop.simps) auto
qed

lemma msd_gettext_probes:
  assumes "hash_tab ml = Some tab" "hash_size ml = length tab" "2 < length tab" "t \<noteq> []"
  shows "msd_gettext ml t = probe_loop ml tab t (probe_step (length tab) t) (probe_at (length tab) t 0)"
  using assms by (simp add: msd_gettext_def Let_def probe_step_def probe_at_def text_hash_def)

lemma probe_finds_least:
  assumes c: "holds_catalog ml cat" and tab: "hash_tab ml = Some tab" "hash_size ml = length tab" "hash_ok tab cat" and t: "t \<noteq> []"
  shows "msd_gettext ml t = Some (Inr (case map_of cat t of Some u \<Rightarrow> u | None \<Rightarrow> t))"
proof -
  let ?m = "length tab"
  have m: "2 < ?m" "\<forall>w \<in> set tab. unat w \<le> length cat" and co: "\<forall>r \<in> {0<..<?m}. coprime r ?m" and z: "0 \<in> set tab"
    using tab(3) by (simp_all add: hash_ok_def)
  have valid: "unat (tab ! probe_at ?m t j) - 1 < length cat" if "tab ! probe_at ?m t j \<noteq> 0" for j
  proof -
    have "unat (tab ! probe_at ?m t j) \<le> length cat" using m probe_at_less [OF m(1), of t j] by (metis nth_mem)
    then show ?thesis using that unat_gt_0 [of "tab ! probe_at ?m t j"] by linarith
  qed
  show ?thesis
  proof (cases "t \<in> fst ` set cat")
    case True
    then obtain i where i: "i < length cat" "fst (cat ! i) = t" by (auto simp: in_set_conv_nth)
    let ?w = "of_nat (i + 1) :: 32 word"
    have w: "unat ?w = i + 1" using i(1) c by (simp add: holds_catalog_def unat_of_nat take_bit_nat_eq_self del: of_nat_Suc of_nat_add)
    then have w0: "?w \<noteq> 0" by (metis Suc_eq_plus1 nat.simps(3) unat_0)
    obtain k0 where k0: "tab ! probe_at ?m t k0 = ?w" "\<forall>j < k0. tab ! probe_at ?m t j \<noteq> 0"
      using tab(3) i by (auto simp: hash_ok_def)
    define k where "k = (LEAST k. tab ! probe_at ?m t k = ?w)"
    have k: "tab ! probe_at ?m t k = ?w" "k \<le> k0" unfolding k_def using k0(1) by (auto intro: LeastI Least_le)
    have "fst (cat ! (unat (tab ! probe_at ?m t j) - 1)) \<noteq> t" if j: "j < k" for j
    proof
      assume eq: "fst (cat ! (unat (tab ! probe_at ?m t j) - 1)) = t"
      have nz: "tab ! probe_at ?m t j \<noteq> 0" using k0(2) k(2) j by simp
      have "unat (tab ! probe_at ?m t j) - 1 = i"
        using eq i valid [OF nz] c by (simp add: holds_catalog_def distinct_conv_nth) (metis nth_map)
      then have "unat (tab ! probe_at ?m t j) = unat ?w" using nz w unat_gt_0 [of "tab ! probe_at ?m t j"] by linarith
      then have "tab ! probe_at ?m t j = ?w" by (simp only: word_unat_eq_iff)
      then show False using j not_less_Least unfolding k_def by blast
    qed
    then have "probe_loop ml tab t (probe_step ?m t) (probe_at ?m t 0) = Some (Inr (snd (cat ! i)))"
      using probe_loop_stops [OF c m(1) tab(2) m(2) k(1), of 0] k0(2) k(2) w w0 i by simp
    moreover have "map_of cat t = Some (snd (cat ! i))"
      using i c by (simp add: holds_catalog_def) (metis nth_mem prod.collapse map_of_is_SomeI)
    ultimately show ?thesis using msd_gettext_probes [OF tab(1,2) m(1) t] by simp
  next
    case False
    obtain p where p: "p < ?m" "tab ! p = 0" using z by (auto simp: in_set_conv_nth)
    obtain k0 where k0: "tab ! probe_at ?m t k0 = 0"
      using probe_reaches [OF m(1) _ p(1), of t] co probe_step_bounds [OF m(1), of t] p(2) by auto
    define k where "k = (LEAST k. tab ! probe_at ?m t k = 0)"
    have k: "tab ! probe_at ?m t k = 0" unfolding k_def using k0 by (rule LeastI)
    have "tab ! probe_at ?m t j \<noteq> 0" if "j < k" for j using that not_less_Least unfolding k_def by blast
    moreover have "fst (cat ! (unat (tab ! probe_at ?m t j) - 1)) \<noteq> t" if "tab ! probe_at ?m t j \<noteq> 0" for j
      using False valid [OF that] by (metis image_eqI nth_mem)
    ultimately have "probe_loop ml tab t (probe_step ?m t) (probe_at ?m t 0) = Some (Inr t)"
      using probe_loop_stops [OF c m(1) tab(2) m(2) k, of 0] by simp
    moreover have "map_of cat t = None" using False by (simp add: map_of_eq_None_iff)
    ultimately show ?thesis using msd_gettext_probes [OF tab(1,2) m(1) t] by simp
  qed
qed

text \<open>
  Without a hash table the texts are searched in the order of \<open>strcmp\<close>.
\<close>

lemma byte_pos: "c \<noteq> NUL \<Longrightarrow> 0 < (of_char c :: int)"
proof -
  assume "c \<noteq> NUL"
  then have "(of_char c :: nat) \<noteq> of_char NUL" by (metis char_of_char)
  then have "0 < (of_char c :: nat)" by simp
  then show ?thesis by (metis of_nat_0_less_iff of_nat_of_char)
qed

lemma byte_0 [simp]: "(of_char c :: int) = 0 \<longleftrightarrow> c = NUL" "0 < (of_char c :: int) \<longleftrightarrow> c \<noteq> NUL" "\<not> (of_char c :: int) < 0"
proof -
  have "0 \<le> (of_char c :: int)" by (metis of_nat_0_le_iff of_nat_of_char)
  then show "\<not> (of_char c :: int) < 0" by simp
  show "(of_char c :: int) = 0 \<longleftrightarrow> c = NUL" "0 < (of_char c :: int) \<longleftrightarrow> c \<noteq> NUL"
    using byte_pos [of c] by (cases "c = NUL", simp_all)+
qed

lemma byte_eq: "(of_char a :: int) = of_char b \<longleftrightarrow> a = b"
  by (metis char_of_char)

lemma strcmp_refl [simp]: "c_strcmp s s = 0"
  by (induction s) auto

lemma strcmp_flip: "c_strcmp t s = - c_strcmp s t"
  by (induction s t rule: c_strcmp.induct) auto

lemma strcmp_eq_0: "NUL \<notin> set s \<Longrightarrow> NUL \<notin> set t \<Longrightarrow> c_strcmp s t = 0 \<longleftrightarrow> s = t"
  by (induction s t rule: c_strcmp.induct) (auto simp: byte_eq)

lemma strcmp_less_trans:
  "NUL \<notin> set s \<Longrightarrow> NUL \<notin> set t \<Longrightarrow> NUL \<notin> set u \<Longrightarrow> c_strcmp s t < 0 \<Longrightarrow> c_strcmp t u < 0 \<Longrightarrow> c_strcmp s u < 0"
proof (induction s t arbitrary: u rule: c_strcmp.induct)
  case (2 b t)
  then show ?case by (cases u) auto
next
  case (4 a s b t)
  then show ?case by (cases u) (auto split: if_splits simp: byte_eq)
qed auto

lemma message_search_finds:
  assumes c: "holds_catalog ml cat" and s: "sorted_wrt (\<lambda>x y. c_strcmp (fst x) (fst y) < 0) cat"
    and nul: "NUL \<notin> set t" "\<forall>x \<in> set cat. NUL \<notin> set (fst x)"
  shows "top' \<le> length cat \<Longrightarrow> (\<forall>i < length cat. fst (cat ! i) = t \<longrightarrow> bottom \<le> i \<and> i < top') \<Longrightarrow>
    message_search ml t bottom top' = Inr (case map_of cat t of Some u \<Rightarrow> u | None \<Rightarrow> t)"
proof (induction "top' - bottom" arbitrary: bottom top' rule: less_induct)
  case less
  show ?case
  proof (cases "bottom < top'")
    case False
    then have "t \<notin> fst ` set cat" using less.prems by (fastforce simp: in_set_conv_nth)
    then have "map_of cat t = None" by (simp add: map_of_eq_None_iff)
    then show ?thesis using False by (subst message_search.simps) simp
  next
    case True
    define act where "act = (bottom + top') div 2"
    have act: "bottom \<le> act" "act < top'" "act < length cat" using True less.prems(1) by (auto simp: act_def)
    let ?x = "cat ! act"
    have id: "item_id ml act = Inr (fst ?x)" "item_str ml act = Inr (snd ?x)" using c act by (simp_all add: holds_catalog_def)
    have x: "NUL \<notin> set (fst ?x)" using nul(2) act by simp
    have lt: "c_strcmp (fst (cat ! i)) (fst (cat ! j)) < 0" if "i < j" "j < length cat" for i j
      using sorted_wrt_nth_less [OF s that] .
    consider "c_strcmp t (fst ?x) < 0" | "c_strcmp t (fst ?x) > 0" | "t = fst ?x"
      using strcmp_eq_0 [OF nul(1) x] by linarith
    then show ?thesis
    proof cases
      case 1
      have "i < act" if "i < length cat" "fst (cat ! i) = t" for i
      proof (rule ccontr)
        assume "\<not> i < act"
        then consider "i = act" | "act < i" by linarith
        then show False
        proof cases
          case 2
          have "c_strcmp (fst ?x) t < 0" using lt [OF 2 that(1)] that(2) by simp
          then show False using \<open>c_strcmp t (fst ?x) < 0\<close> strcmp_flip [of t "fst ?x"] by simp
        qed (use 1 that in simp)
      qed
      then have "message_search ml t bottom act = Inr (case map_of cat t of Some u \<Rightarrow> u | None \<Rightarrow> t)"
        using less.hyps [of act bottom] less.prems act by auto
      then show ?thesis using 1 True id by (subst message_search.simps) (simp add: act_def [symmetric])
    next
      case 2
      have "act < i" if "i < length cat" "fst (cat ! i) = t" for i
      proof (rule ccontr)
        assume "\<not> act < i"
        then consider "i = act" | "i < act" by linarith
        then show False
        proof cases
          case 2
          have "c_strcmp t (fst ?x) < 0" using lt [OF 2 act(3)] that(2) by simp
          then show False using \<open>c_strcmp t (fst ?x) > 0\<close> by simp
        qed (use 2 that in simp)
      qed
      then have "message_search ml t (act + 1) top' = Inr (case map_of cat t of Some u \<Rightarrow> u | None \<Rightarrow> t)"
        using less.hyps [of top' "act + 1"] less.prems act by (auto simp: Suc_le_eq)
      then show ?thesis using 2 True id by (subst message_search.simps) (simp add: act_def [symmetric])
    next
      case 3
      have "?x \<in> set cat" using act by simp
      then have "map_of cat t = Some (snd ?x)"
        using 3 c by (simp add: holds_catalog_def)
      then show ?thesis using 3 True id by (subst message_search.simps) (simp add: act_def [symmetric])
    qed
  qed
qed

section \<open>The result of a lookup\<close>

text \<open>A catalogue the search can use, in one of its two forms.\<close>

definition catalog_ok :: "message_list_ty \<Rightarrow> (char list \<times> char list) list \<Rightarrow> bool" where
  "catalog_ok ml cat \<longleftrightarrow> holds_catalog ml cat \<and> (\<exists>tab. hash_tab ml = Some tab \<and> hash_size ml = length tab
     \<and> (hash_ok tab cat
        \<or> length tab \<le> 2 \<and> sorted_wrt (\<lambda>x y. c_strcmp (fst x) (fst y) < 0) cat \<and> (\<forall>x \<in> set cat. NUL \<notin> set (fst x))))"

text \<open>
  C15: msd_gettext gives the translation the catalogue has for a text and otherwise the text itself,
  with the hash table msgfmt writes (prime size, a free place, each text at the first free place of
  its probe sequence) or, for small tables, by binary search in strcmp order.
\<close>

theorem msd_gettext_translates:
  assumes "catalog_ok ml cat" "t \<noteq> []" "NUL \<notin> set t"
  shows "msd_gettext ml t = Some (Inr (case map_of cat t of Some u \<Rightarrow> u | None \<Rightarrow> t))"
proof -
  obtain tab where tab: "holds_catalog ml cat" "hash_tab ml = Some tab" "hash_size ml = length tab"
    and alt: "hash_ok tab cat \<or> length tab \<le> 2 \<and> sorted_wrt (\<lambda>x y. c_strcmp (fst x) (fst y) < 0) cat
      \<and> (\<forall>x \<in> set cat. NUL \<notin> set (fst x))"
    using assms(1) by (auto simp: catalog_ok_def)
  from alt show ?thesis
  proof (elim disjE conjE)
    assume "hash_ok tab cat"
    then show ?thesis by (rule probe_finds_least [OF tab _ assms(2)])
  next
    assume b: "length tab \<le> 2" "sorted_wrt (\<lambda>x y. c_strcmp (fst x) (fst y) < 0) cat" "\<forall>x \<in> set cat. NUL \<notin> set (fst x)"
    have "nitems ml = length cat" using tab(1) by (simp add: holds_catalog_def)
    then show ?thesis using message_search_finds [OF tab(1) b(2) assms(3) b(3), of "length cat" 0] tab b(1) assms(2)
      by (simp add: msd_gettext_def)
  qed
qed

text \<open>Without a file, and after the file was given back, every text stands for itself.\<close>

lemma msd_gettext_without_catalog: "hash_tab ml = None \<Longrightarrow> msd_gettext ml t = Some (Inr t)"
  by (simp add: msd_gettext_def)

lemma free_mo_info_untranslated: "msd_gettext (free_mo_info ml) t = Some (Inr t)"
  by (simp add: msd_gettext_without_catalog free_mo_info_def)

text \<open>
  A table without a free place: the search for a text that is not in the catalogue never returns.
\<close>

lemma probe_loop_full:
  assumes c: "holds_catalog ml cat" and tab: "hash_size ml = length tab" "2 < length tab"
    and full: "\<forall>w \<in> set tab. w \<noteq> 0 \<and> unat w \<le> length cat" and t: "t \<notin> fst ` set cat"
    and incr: "0 < incr" "incr < length tab" "idx < length tab"
  shows "probe_loop ml tab t incr idx = None"
proof (cases "probe_loop ml tab t incr idx")
  case (Some r)
  have "\<not> (ml' = ml \<and> tab' = tab \<and> t' = t \<and> incr' = incr \<and> idx' < length tab)"
    if "probe_loop ml' tab' t' incr' idx' = Some r'" for ml' tab' t' incr' idx' r'
  proof (rule probe_loop.raw_induct [where P = "\<lambda>ml' tab' t' incr' idx' r'.
        \<not> (ml' = ml \<and> tab' = tab \<and> t' = t \<and> incr' = incr \<and> idx' < length tab)", OF _ that])
    fix f ml' tab' t' incr' idx' r'
    assume IH: "\<And>ml' tab' t' incr' idx' r'. f ml' tab' t' incr' idx' = Some r' \<Longrightarrow>
        \<not> (ml' = ml \<and> tab' = tab \<and> t' = t \<and> incr' = incr \<and> idx' < length tab)"
      and eqn: "ubind (Some (aget tab' (int idx'))) (\<lambda>nstr.
       if nstr = 0 then Some (Inr t')
       else ubind (Some (item_id ml' (unat nstr - 1))) (\<lambda>s.
         if t' = s then Some (item_str ml' (unat nstr - 1))
         else f ml' tab' t' incr' (next_probe (hash_size ml') incr' idx'))) = Some r'"
    show "\<not> (ml' = ml \<and> tab' = tab \<and> t' = t \<and> incr' = incr \<and> idx' < length tab)"
    proof
      assume a: "ml' = ml \<and> tab' = tab \<and> t' = t \<and> incr' = incr \<and> idx' < length tab"
      define v where "v = tab ! idx'"
      have v: "v \<noteq> 0" "unat v \<le> length cat" using a full by (auto simp: v_def)
      then have n: "unat v - 1 < length cat" using unat_gt_0 [of v] by linarith
      then have "item_id ml (unat v - 1) = Inr (fst (cat ! (unat v - 1)))" "fst (cat ! (unat v - 1)) \<noteq> t"
        using c t by (auto simp: holds_catalog_def)
      then have "f ml tab t incr (next_probe (length tab) incr idx') = Some r'"
        using eqn a v tab(1) by (simp add: aget_nat v_def [symmetric])
      moreover have "next_probe (length tab) incr idx' < length tab"
      proof -
        have "0 < length tab" using tab(2) by linarith
        then show ?thesis using a incr by (subst next_probe_mod) (auto intro: mod_less_divisor)
      qed
      ultimately show False using IH by blast
    qed
  qed
  from this [OF Some] incr(3) show ?thesis by blast
qed simp

text \<open>
  When the hash table of a .mo file has no free place, looking up a text it does not have never
  returns.
\<close>

theorem msd_gettext_full_table:
  assumes "holds_catalog ml cat" "hash_tab ml = Some tab" "hash_size ml = length tab" "2 < length tab"
    "\<forall>w \<in> set tab. w \<noteq> 0 \<and> unat w \<le> length cat" "t \<notin> fst ` set cat" "t \<noteq> []"
  shows "msd_gettext ml t = None"
  using probe_loop_full [OF assms(1,3-6)] msd_gettext_probes [OF assms(2-4,7)] probe_step_bounds [OF assms(4)]
    probe_at_less [OF assms(4)] by simp

text \<open>A read error that persists is not the end of the file: reading never returns.\<close>

lemma read_error_diverges:
  assumes "\<forall>k. read_some d k < 0" "all_mem E"
  shows "read_binary_mo_file E d k alloc data ahead = None"
proof (cases "read_binary_mo_file E d k alloc data ahead")
  case (Some r)
  have "\<not> (E' = E \<and> d' = d)" if "read_binary_mo_file E' d' k' alloc' data' ahead' = Some r'" for E' d' k' alloc' data' ahead' r'
    by (rule read_binary_mo_file.raw_induct [where P = "\<lambda>E' d' k' alloc' data' ahead' r'. \<not> (E' = E \<and> d' = d)", OF _ that])
      (use assms in \<open>auto simp: Let_def mem_all split: if_splits\<close>)
  from this [OF Some] show ?thesis by blast
qed simp

section \<open>An example\<close>

text \<open>A file with one text, a hash table of three places, and what is in memory after it was read.\<close>

definition num4 :: "char \<Rightarrow> char list" where "num4 c = [c, NUL, NUL, NUL]"

definition example_mo :: "char list" where
  "example_mo = concat (map num4 [CHR 0xDE, NUL, CHR 0x01, CHR 0x1C, CHR 0x24, CHR 0x03, CHR 0x2C, CHR 0x01, CHR 0x38,
     CHR 0x01, CHR 0x3A, NUL, CHR 0x01, NUL]) @ ''a'' @ [NUL] @ ''b'' @ [NUL]"

definition example_ml :: message_list_ty where
  "example_ml = \<lparr>item = Some [\<lparr>msgctxt = None, msgid = 56, msgid_len = 2, msgstr = 58, msgstr_len = 2\<rparr>],
     hash_tab = Some [0, 1, 0], hash_size = 3, nitems = 1, bf_data = example_mo\<rparr>"

lemma example_read:
  "read_mo_file plain_env plain_io (\<lambda>_. Some example_mo) no_messages ''de.mo'' = Some (Inr example_ml)"
proof -
  have "read_binary_mo_file plain_env plain_io 0 0 [] example_mo = Some (Inr example_mo)"
    by (subst read_binary_mo_file.simps) (simp add: plain_env_def plain_io_def mo_increment_def example_mo_def num4_def)
  moreover have "get_uint32 example_mo offset_nstrings = Inr 1" "get_uint32 example_mo offset_orig_tab_offset = Inr 28"
      "get_uint32 example_mo offset_trans_tab_offset = Inr 36" "get_uint32 example_mo offset_hash_tab_size = Inr 3"
      "get_uint32 example_mo offset_hash_tab_offset = Inr 44"
    by code_simp+
  moreover have "read_hash example_mo 44 3 = Inr [0, 1, 0]" by code_simp
  moreover have "read_messages example_mo 28 36 1
      = Inr ([\<lparr>msgctxt = None, msgid = 56, msgid_len = 2, msgstr = 58, msgstr_len = 2\<rparr>], example_mo)" by code_simp
  ultimately show ?thesis by (simp add: read_mo_file_def plain_io_def plain_env_def example_ml_def Let_def)
qed

lemma example_catalog: "catalog_ok example_ml [(''a'', ''b'')]"
proof -
  have "item_id example_ml 0 = Inr ''a''" "item_str example_ml 0 = Inr ''b''" by code_simp+
  then have "holds_catalog example_ml [(''a'', ''b'')]" by (simp add: holds_catalog_def example_ml_def)
  moreover have "probe_at 3 ''a'' 0 = 1" by code_simp
  then have "hash_ok [0, 1, 0] [(''a'', ''b'')]"
  proof -
    have "coprime (2::nat) 3" by code_simp
    then have "coprime r 3" if "r \<in> {0<..<3}" for r :: nat
    proof -
      have "r = 1 \<or> r = 2" using that by auto
      then show ?thesis using \<open>coprime (2::nat) 3\<close> by auto
    qed
    then show ?thesis using \<open>probe_at 3 _ 0 = 1\<close> by (simp add: hash_ok_def eval_nat_numeral) (intro exI [of _ 0], simp)
  qed
  ultimately show ?thesis by (simp add: catalog_ok_def example_ml_def)
qed

lemma msd_gettext_translates_witness:
  "msd_gettext example_ml ''a'' = Some (Inr ''b'') \<and> msd_gettext example_ml ''c'' = Some (Inr ''c'')"
  using msd_gettext_translates [OF example_catalog, of "''a''"] msd_gettext_translates [OF example_catalog, of "''c''"] by simp

lemma msd_gettext_full_table_witness:
  "msd_gettext (example_ml\<lparr>hash_tab := Some [1, 1, 1]\<rparr>) ''c'' = None"
proof (rule msd_gettext_full_table [where tab = "[1, 1, 1]"])
  have "item_id (example_ml\<lparr>hash_tab := Some [1, 1, 1]\<rparr>) 0 = Inr ''a''" "item_str (example_ml\<lparr>hash_tab := Some [1, 1, 1]\<rparr>) 0 = Inr ''b''"
    by code_simp+
  then show "holds_catalog (example_ml\<lparr>hash_tab := Some [1, 1, 1]\<rparr>) [(''a'', ''b'')]"
    by (simp add: holds_catalog_def example_ml_def)
qed (simp_all add: example_ml_def)

end
