(* ===== verification/Code_Combin.thy ===== *)
theory Code_Combin
  imports Json_File "HOL-Library.Sublist"
begin

text \<open>
  The merging of generated code (\<open>common/codecombin.cpp\<close>): when a project is generated again, the sections
  between \<open>//<[[AutoGenCode id="..."\<close> and \<open>//]]>\<close> of the old file take their text from the new one, and
  what lies outside of them, the user's code, stays. A file is read through \<open>fgetc\<close> and \<open>ungetc\<close>; the list
  of children of an element is a list, and a pointer into it an index.

  \<open>char\<close> is signed: the result of \<open>fgetc\<close> at the end is the character 255, and \<open>ungetc\<close> of this
  character does nothing. More than one character may be put back, as in the GNU library.
\<close>

section \<open>Files\<close>

record cfile =
  ahead :: "char list"
  at_eof :: bool

abbreviation EOF_char :: char where "EOF_char \<equiv> CHR 0xFF"

definition fgetc :: "cfile \<Rightarrow> char \<times> cfile" where
  "fgetc f = (case ahead f of [] \<Rightarrow> (EOF_char, f\<lparr>at_eof := True\<rparr>) | c # cs \<Rightarrow> (c, f\<lparr>ahead := cs\<rparr>))"

definition ungetc :: "char \<Rightarrow> cfile \<Rightarrow> cfile" where
  "ungetc c f = (if c = EOF_char then f else f\<lparr>ahead := c # ahead f, at_eof := False\<rparr>)"

definition is_newline :: "char \<Rightarrow> bool" where "is_newline c \<longleftrightarrow> c = CHR 0x0A \<or> c = CHR 0x0D"

text \<open>A C string in a buffer ends at the first \<open>NUL\<close>.\<close>

definition c_cut :: "char list \<Rightarrow> char list" where "c_cut s = takeWhile (\<lambda>c. c \<noteq> NUL) s"

fun fgetnstr :: "nat \<Rightarrow> cfile \<Rightarrow> char list \<times> cfile" where
  "fgetnstr 0 f = ([], f)"
| "fgetnstr (Suc n) f =
     (if at_eof f then ([], f)
      else let (c, f) = fgetc f in
        if c = EOF_char then ([], f)
        else if is_newline c then ([], ungetc c f)
        else let (s, f) = fgetnstr n f in (c # s, f))"

definition fungetnstr :: "char list \<Rightarrow> cfile \<Rightarrow> cfile" where
  "fungetnstr s f = foldr ungetc s f"

text \<open>Blanks are skipped; the first other character is put back.\<close>

fun skip_blanks :: "char list \<Rightarrow> cfile" where
  "skip_blanks [] = \<lparr>ahead = [], at_eof = True\<rparr>"
| "skip_blanks (c # cs) =
     (if c = CHR '' '' \<or> c = CHR 0x09 then skip_blanks cs else ungetc c \<lparr>ahead = cs, at_eof = False\<rparr>)"

fun word_loop :: "char list \<Rightarrow> nat \<Rightarrow> cfile \<Rightarrow> char list \<times> cfile" where
  "word_loop spliter 0 f = ([], f)"
| "word_loop spliter (Suc n) f =
     (if at_eof f then ([], f)
      else let (c, f) = fgetc f in
        if c = EOF_char then ([], f)
        else if is_newline c then ([], ungetc c f)
        else if c \<in> set spliter then ([], f)
        else let (s, f) = word_loop spliter n f in (c # s, f))"

definition fgetword :: "char list \<Rightarrow> cfile \<Rightarrow> nat \<Rightarrow> char list \<times> cfile" where
  "fgetword spliter f nMax = word_loop spliter nMax (if at_eof f then ungetc NUL f else skip_blanks (ahead f))"

definition default_spliter :: "char list" where
  "default_spliter = [CHR '' '', CHR 0x09, CHR 0x0D, CHR 0x0A, CHR '','', CHR '';'']"

section \<open>Elements\<close>

datatype element_type = ET_USER | ET_AUTO | ET_DOC | ET_TEXT

text \<open>
  A text without a character is the \<open>NULL\<close> the code has for it.
\<close>

datatype code_element =
    TextElement "char list"
  | CompoundElement element_type "char list option" "code_element list"

fun getType :: "code_element \<Rightarrow> element_type" where
  "getType (TextElement s) = ET_TEXT"
| "getType (CompoundElement ty nm es) = ty"

fun getName :: "code_element \<Rightarrow> char list option" where
  "getName (TextElement s) = None"
| "getName (CompoundElement ty nm es) = nm"

fun element_children :: "code_element \<Rightarrow> code_element list" where
  "element_children (TextElement s) = []"
| "element_children (CompoundElement ty nm es) = es"

section \<open>Loading\<close>

definition open_mark :: "char list" where "open_mark = ''//<[[''"
definition close_mark :: "char list" where "close_mark = ''//]]>''"

definition sizeof_szText :: nat where "sizeof_szText = 4096"

text \<open>
  \<open>stat\<close> says that a line begins. A full buffer is appended to the text, up to its first \<open>NUL\<close>: what the
  copy of a look-ahead with a \<open>NUL\<close> in it leaves unwritten comes after that.
\<close>

definition flush_text :: "char list \<Rightarrow> char list \<Rightarrow> char list \<times> char list" where
  "flush_text text' szText =
     (if length szText \<ge> sizeof_szText - 6 then (text' @ c_cut szText, []) else (text', szText))"

definition ahead_size :: "cfile \<Rightarrow> nat" where
  "ahead_size f = (if at_eof f then 0 else length (ahead f) + 1)"

lemma fgetc_size: "fgetc f = (c, f') \<Longrightarrow> \<not> at_eof f \<Longrightarrow> ahead_size f' < ahead_size f"
  by (auto simp: fgetc_def ahead_size_def split: list.splits)

text \<open>What a scan leaves in the file: it takes at least the characters it gives.\<close>

definition takes :: "char list \<Rightarrow> cfile \<Rightarrow> cfile \<Rightarrow> bool" where
  "takes w f f' \<longleftrightarrow> length w + length (ahead f') \<le> length (ahead f) \<and> (w = [] \<longrightarrow> at_eof f \<longrightarrow> at_eof f')"

lemma fgetnstr_takes: "fgetnstr n f = (w, f') \<Longrightarrow> takes w f f'"
proof (induction n arbitrary: f w f')
  case (Suc n)
  obtain c f1 where c: "fgetc f = (c, f1)" by force
  obtain s2 f2 where s2: "fgetnstr n f1 = (s2, f2)" by force
  show ?case using Suc.prems c s2 Suc.IH [OF s2]
    by (auto simp: takes_def fgetc_def ungetc_def split: if_splits list.splits)
qed (simp add: takes_def)

lemma fgetnstr_size: "fgetnstr n f = (w, f') \<Longrightarrow> ahead_size f' \<le> ahead_size f"
proof (induction n arbitrary: f w f')
  case (Suc n)
  obtain c f1 where c: "fgetc f = (c, f1)" by force
  obtain s2 f2 where s2: "fgetnstr n f1 = (s2, f2)" by force
  show ?case using Suc.prems c s2 Suc.IH [OF s2]
    by (auto simp: ahead_size_def fgetc_def ungetc_def split: if_splits list.splits)
qed simp

function text_loop :: "char list \<Rightarrow> char list \<Rightarrow> bool \<Rightarrow> cfile \<Rightarrow> char list \<times> cfile" where
  "text_loop text' szText stat f =
     (if at_eof f then (text' @ c_cut szText, f)
      else if stat
      then (case fgetnstr 5 f of (w, f') \<Rightarrow>
        if w = open_mark \<or> w = close_mark then (text' @ c_cut szText, fungetnstr w f')
        else (case flush_text text' (szText @ w) of (text', szText) \<Rightarrow> text_loop text' szText False f'))
      else (case fgetc f of (c, f') \<Rightarrow>
        (case flush_text text' (szText @ [c]) of (text', szText) \<Rightarrow> text_loop text' szText (is_newline c) f')))"
  by pat_completeness auto

termination
proof (relation "measure (\<lambda>(text', szText, stat, f). 2 * ahead_size f + (if stat then 1 else 0))", goal_cases)
  case (2 text' szText stat f w f' text2 szText2)
  then show ?case using fgetnstr_size [of 5 f w f'] by simp
next
  case (3 text' szText stat f c f' text2 szText2)
  then show ?case using fgetc_size [of f c f'] by simp
qed simp

declare text_loop.simps [simp del]

text \<open>The name of an element: \<open>id="..."\<close> with one of the two quotes.\<close>

fun skip_to_quote :: "char list \<Rightarrow> char \<times> cfile" where
  "skip_to_quote [] = (EOF_char, \<lparr>ahead = [], at_eof = True\<rparr>)"
| "skip_to_quote (c # cs) =
     (if c = CHR 0x22 \<or> c = CHR 0x27 then (c, \<lparr>ahead = cs, at_eof = False\<rparr>) else skip_to_quote cs)"

fun name_loop :: "char \<Rightarrow> nat \<Rightarrow> cfile \<Rightarrow> char list \<times> cfile" where
  "name_loop quote 0 f = ([], f)"
| "name_loop quote (Suc n) f =
     (if at_eof f then ([], f)
      else let (c, f) = fgetc f in
        if c = quote then ([], f) else let (s, f) = name_loop quote n f in (c # s, f))"

definition sizeof_szWord :: nat where "sizeof_szWord = 256"

definition load_id :: "cfile \<Rightarrow> char list option \<times> cfile" where
  "load_id f =
     (if at_eof f then (None, f)
      else let (w, f) = fgetword ([CHR ''='', CHR '' '', CHR 0x09, CHR 0x0A, CHR 0x0D]) f (sizeof_szWord - 1) in
        if c_cut w = ''id''
        then let (quote, f) = (if at_eof f then (EOF_char, f) else skip_to_quote (ahead f));
                 (s, f) = name_loop quote (sizeof_szWord - 1) f in
          (if s = [] then None else Some (c_cut s), f)
        else (None, fungetnstr w f))"

text \<open>
  The loop over the children. The result says whether the element is kept. An unknown word gives the
  element up.
\<close>

partial_function (option) load_loop :: "code_element list \<Rightarrow> cfile \<Rightarrow> (bool \<times> code_element list \<times> cfile) option" where
  "load_loop es f =
     (if at_eof f then Some (True, es, f)
      else case fgetnstr 5 f of (w, f1) \<Rightarrow>
        if w = close_mark then Some (True, es, f1)
        else if w = open_mark
        then (case fgetword default_spliter f1 (sizeof_szWord - 1) of (w, f2) \<Rightarrow>
          if w = [] then Some (True, es, f2)
          else if c_cut w = ''AutoGenCode'' \<or> c_cut w = ''UserCode''
          then (case load_id f2 of (nm, f3) \<Rightarrow>
            Option.bind (load_loop [] f3) (\<lambda>(ok, cs, f4).
              load_loop (if ok then es @ [CompoundElement (if c_cut w = ''AutoGenCode'' then ET_AUTO else ET_USER) nm cs] else es) f4))
          else Some (False, es, f2))
        else (case text_loop [] [] False (fungetnstr w f1) of (t, f2) \<Rightarrow> load_loop (es @ [TextElement t]) f2))"

declare load_loop.simps [code]

text \<open>\<open>fs\<close> holds the files that can be read.\<close>

definition LoadFromFile :: "files \<Rightarrow> char list \<Rightarrow> code_element option option" where
  "LoadFromFile fs file =
     (case fs file of
        None \<Rightarrow> Some None
      | Some content \<Rightarrow>
          (case load_id \<lparr>ahead = content, at_eof = False\<rparr> of (nm, f) \<Rightarrow>
            Option.bind (load_loop [] f) (\<lambda>(ok, es, f). Some (if ok then Some (CompoundElement ET_DOC nm es) else None))))"

section \<open>Reading that fails\<close>

text \<open>
  The loops look for the end of the file only. When a read fails, because of the device or because the file is a
  directory, \<open>fgetc\<close> gives the character 255 too, but \<open>feof\<close> stays false. The functions here are those above for a
  file of which no more than \<open>ahead\<close> can be read: with \<open>bad\<close> a read behind it fails, otherwise the file ends there.
\<close>

definition fgetc_io :: "bool \<Rightarrow> cfile \<Rightarrow> char \<times> cfile" where
  "fgetc_io bad f = (if bad \<and> ahead f = [] then (EOF_char, f) else fgetc f)"

fun fgetnstr_io :: "bool \<Rightarrow> nat \<Rightarrow> cfile \<Rightarrow> char list \<times> cfile" where
  "fgetnstr_io bad 0 f = ([], f)"
| "fgetnstr_io bad (Suc n) f =
     (if at_eof f then ([], f)
      else let (c, f) = fgetc_io bad f in
        if c = EOF_char then ([], f)
        else if is_newline c then ([], ungetc c f)
        else let (s, f) = fgetnstr_io bad n f in (c # s, f))"

fun skip_blanks_io :: "bool \<Rightarrow> char list \<Rightarrow> cfile" where
  "skip_blanks_io bad [] = \<lparr>ahead = [], at_eof = \<not> bad\<rparr>"
| "skip_blanks_io bad (c # cs) =
     (if c = CHR '' '' \<or> c = CHR 0x09 then skip_blanks_io bad cs else ungetc c \<lparr>ahead = cs, at_eof = False\<rparr>)"

fun word_loop_io :: "bool \<Rightarrow> char list \<Rightarrow> nat \<Rightarrow> cfile \<Rightarrow> char list \<times> cfile" where
  "word_loop_io bad spliter 0 f = ([], f)"
| "word_loop_io bad spliter (Suc n) f =
     (if at_eof f then ([], f)
      else let (c, f) = fgetc_io bad f in
        if c = EOF_char then ([], f)
        else if is_newline c then ([], ungetc c f)
        else if c \<in> set spliter then ([], f)
        else let (s, f) = word_loop_io bad spliter n f in (c # s, f))"

definition fgetword_io :: "bool \<Rightarrow> char list \<Rightarrow> cfile \<Rightarrow> nat \<Rightarrow> char list \<times> cfile" where
  "fgetword_io bad spliter f nMax =
     word_loop_io bad spliter nMax (if at_eof f then ungetc NUL f else skip_blanks_io bad (ahead f))"

partial_function (option) text_loop_io ::
  "bool \<Rightarrow> char list \<Rightarrow> char list \<Rightarrow> bool \<Rightarrow> cfile \<Rightarrow> (char list \<times> cfile) option" where
  "text_loop_io bad text' szText stat f =
     (if at_eof f then Some (text' @ c_cut szText, f)
      else if stat
      then (case fgetnstr_io bad 5 f of (w, f') \<Rightarrow>
        if w = open_mark \<or> w = close_mark then Some (text' @ c_cut szText, fungetnstr w f')
        else (case flush_text text' (szText @ w) of (text', szText) \<Rightarrow> text_loop_io bad text' szText False f'))
      else (case fgetc_io bad f of (c, f') \<Rightarrow>
        (case flush_text text' (szText @ [c]) of (text', szText) \<Rightarrow> text_loop_io bad text' szText (is_newline c) f')))"

partial_function (option) skip_to_quote_io :: "bool \<Rightarrow> char list \<Rightarrow> (char \<times> cfile) option" where
  "skip_to_quote_io bad s =
     (case s of
        [] \<Rightarrow> if bad then skip_to_quote_io bad [] else Some (EOF_char, \<lparr>ahead = [], at_eof = True\<rparr>)
      | c # cs \<Rightarrow>
          if c = CHR 0x22 \<or> c = CHR 0x27 then Some (c, \<lparr>ahead = cs, at_eof = False\<rparr>) else skip_to_quote_io bad cs)"

fun name_loop_io :: "bool \<Rightarrow> char \<Rightarrow> nat \<Rightarrow> cfile \<Rightarrow> char list \<times> cfile" where
  "name_loop_io bad quote 0 f = ([], f)"
| "name_loop_io bad quote (Suc n) f =
     (if at_eof f then ([], f)
      else let (c, f) = fgetc_io bad f in
        if c = quote then ([], f) else let (s, f) = name_loop_io bad quote n f in (c # s, f))"

definition load_id_io :: "bool \<Rightarrow> cfile \<Rightarrow> (char list option \<times> cfile) option" where
  "load_id_io bad f =
     (if at_eof f then Some (None, f)
      else let (w, f) = fgetword_io bad ([CHR ''='', CHR '' '', CHR 0x09, CHR 0x0A, CHR 0x0D]) f (sizeof_szWord - 1) in
        if c_cut w = ''id''
        then Option.bind (if at_eof f then Some (EOF_char, f) else skip_to_quote_io bad (ahead f)) (\<lambda>(quote, f).
          let (s, f) = name_loop_io bad quote (sizeof_szWord - 1) f in
          Some (if s = [] then None else Some (c_cut s), f))
        else Some (None, fungetnstr w f))"

partial_function (option) load_loop_io ::
  "bool \<Rightarrow> code_element list \<Rightarrow> cfile \<Rightarrow> (bool \<times> code_element list \<times> cfile) option" where
  "load_loop_io bad es f =
     (if at_eof f then Some (True, es, f)
      else case fgetnstr_io bad 5 f of (w, f1) \<Rightarrow>
        if w = close_mark then Some (True, es, f1)
        else if w = open_mark
        then (case fgetword_io bad default_spliter f1 (sizeof_szWord - 1) of (w, f2) \<Rightarrow>
          if w = [] then Some (True, es, f2)
          else if c_cut w = ''AutoGenCode'' \<or> c_cut w = ''UserCode''
          then Option.bind (load_id_io bad f2) (\<lambda>(nm, f3).
            Option.bind (load_loop_io bad [] f3) (\<lambda>(ok, cs, f4).
              load_loop_io bad (if ok then es @ [CompoundElement (if c_cut w = ''AutoGenCode'' then ET_AUTO else ET_USER) nm cs] else es) f4))
          else Some (False, es, f2))
        else Option.bind (text_loop_io bad [] [] False (fungetnstr w f1)) (\<lambda>(t, f2). load_loop_io bad (es @ [TextElement t]) f2))"

text \<open>\<open>bad\<close> are the files that are opened but cannot be read to their end.\<close>

definition LoadFromFile_io :: "(char list \<Rightarrow> bool) \<Rightarrow> files \<Rightarrow> char list \<Rightarrow> code_element option option" where
  "LoadFromFile_io bad fs file =
     (case fs file of
        None \<Rightarrow> Some None
      | Some content \<Rightarrow>
          Option.bind (load_id_io (bad file) \<lparr>ahead = content, at_eof = False\<rparr>) (\<lambda>(nm, f).
            Option.bind (load_loop_io (bad file) [] f) (\<lambda>(ok, es, f).
              Some (if ok then Some (CompoundElement ET_DOC nm es) else None))))"

text \<open>Without a failing read these are the functions above.\<close>

lemma fgetc_io_good [simp]: "fgetc_io False = fgetc"
  by (simp add: fgetc_io_def fun_eq_iff)

lemma fgetnstr_io_good [simp]: "fgetnstr_io False n f = fgetnstr n f"
  by (induction n arbitrary: f) (simp_all add: Let_def split: prod.splits)

lemma skip_blanks_io_good [simp]: "skip_blanks_io False s = skip_blanks s"
  by (induction s) simp_all

lemma word_loop_io_good [simp]: "word_loop_io False sp n f = word_loop sp n f"
  by (induction n arbitrary: f) (simp_all add: Let_def split: prod.splits)

lemma fgetword_io_good [simp]: "fgetword_io False sp f n = fgetword sp f n"
  by (simp add: fgetword_io_def fgetword_def)

lemma name_loop_io_good [simp]: "name_loop_io False q n f = name_loop q n f"
  by (induction n arbitrary: f) (simp_all add: Let_def split: prod.splits)

lemma text_loop_io_good [simp]: "text_loop_io False t s st f = Some (text_loop t s st f)"
proof (induction t s st f rule: text_loop.induct)
  case (1 t s st f)
  then show ?case
    by (subst text_loop_io.simps, subst text_loop.simps) (auto split: prod.splits)
qed

lemma skip_to_quote_io_good [simp]: "skip_to_quote_io False s = Some (skip_to_quote s)"
  by (induction s) (subst skip_to_quote_io.simps, simp)+

lemma load_id_io_good [simp]: "load_id_io False f = Some (load_id f)"
  by (auto simp: load_id_io_def load_id_def Let_def split: prod.splits)

section \<open>Saving\<close>

fun saveToFile :: "code_element \<Rightarrow> char list" where
  "saveToFile (TextElement s) = s"
| "saveToFile (CompoundElement ty nm es) =
     (case ty of ET_AUTO \<Rightarrow> ''//<[[AutoGenCode '' | ET_USER \<Rightarrow> ''//<[[UserCode '' | _ \<Rightarrow> [])
     @ (case nm of None \<Rightarrow> [] | Some n \<Rightarrow> ''id='' @ [CHR 0x22] @ n @ [CHR 0x22, CHR '' ''])
     @ concat (map saveToFile es)
     @ (if ty = ET_AUTO \<or> ty = ET_USER then close_mark else [])"

section \<open>Merging\<close>

text \<open>
  The copy of an element. A compound without children is copied through a \<open>NULL\<close>.
\<close>

fun clone :: "code_element \<Rightarrow> code_element res" and clone_all :: "code_element list \<Rightarrow> code_element list res" where
  "clone (TextElement s) = Inr (TextElement s)"
| "clone (CompoundElement ty nm es) =
     (if es = [] then Inl Null_Deref else rbind (clone_all es) (\<lambda>es. Inr (CompoundElement ty nm es)))"
| "clone_all [] = Inr []"
| "clone_all (e # es) = rbind (clone e) (\<lambda>e. rbind (clone_all es) (\<lambda>es. Inr (e # es)))"

definition is_child :: "element_type option \<Rightarrow> char list option \<Rightarrow> code_element \<Rightarrow> bool" where
  "is_child ty nm e \<longleftrightarrow> (ty = None \<or> ty = Some (getType e)) \<and>
     (nm = None \<or> getType e \<noteq> ET_TEXT \<and> getName e = nm)"

fun getChild :: "element_type option \<Rightarrow> char list option \<Rightarrow> code_element list \<Rightarrow> nat option" where
  "getChild ty nm [] = None"
| "getChild ty nm (e # es) = (if is_child ty nm e then Some 0 else map_option Suc (getChild ty nm es))"

definition insertChild :: "code_element \<Rightarrow> nat option \<Rightarrow> bool \<Rightarrow> code_element list \<Rightarrow> code_element list \<times> nat" where
  "insertChild e elem before es =
     (case elem of
        None \<Rightarrow> (es @ [e], length es)
      | Some i \<Rightarrow>
          if es = [] then ([e], 0)
          else let k = (if before then i else i + 1) in (take k es @ e # drop k es, k))"

definition insertText :: "char list \<Rightarrow> char list \<Rightarrow> int \<Rightarrow> char list" where
  "insertText t s pos =
     (let k = (if pos < 0 \<or> pos > int (length t) then length t else nat pos) in take k t @ s @ drop k t)"

definition setText :: "char list \<Rightarrow> char list \<Rightarrow> char list" where
  "setText t s = (if s = [] then t else s)"

fun replace_texts :: "code_element list \<Rightarrow> char list list \<Rightarrow> code_element list" where
  "replace_texts [] ts = []"
| "replace_texts (e # es) [] = e # es"
| "replace_texts (TextElement t # es) (s # ts) = TextElement (setText t s) # replace_texts es ts"
| "replace_texts (CompoundElement ty nm cs # es) (s # ts) = CompoundElement ty nm cs # replace_texts es (s # ts)"

fun texts_of :: "code_element list \<Rightarrow> char list list" where
  "texts_of [] = []"
| "texts_of (TextElement t # es) = t # texts_of es"
| "texts_of (CompoundElement ty nm cs # es) = texts_of es"

fun replaceAutoGenPart :: "code_element \<Rightarrow> code_element \<Rightarrow> code_element" where
  "replaceAutoGenPart (CompoundElement ty nm es) page =
     CompoundElement ty nm (if getName page = nm then replace_texts es (texts_of (element_children page)) else es)"
| "replaceAutoGenPart (TextElement t) page = TextElement t"

definition if_0 :: "char list" where "if_0 = CHR 0x0A # ''#if 0 //''"
definition end_if :: "char list" where "end_if = CHR 0x0A # ''#endif'' @ [CHR 0x0A]"

definition disable_texts :: "code_element list \<Rightarrow> code_element list" where
  "disable_texts es =
     (let es = (case es of TextElement t # cs \<Rightarrow> TextElement (insertText t if_0 0) # cs | _ \<Rightarrow> TextElement if_0 # es) in
      case last es of
        TextElement t \<Rightarrow> butlast es @ [TextElement (insertText t end_if (-1))]
      | _ \<Rightarrow> es @ [TextElement end_if])"

fun disableCode :: "code_element \<Rightarrow> code_element" where
  "disableCode (CompoundElement ty nm es) = CompoundElement ty nm (disable_texts es)"
| "disableCode (TextElement t) = TextElement t"

definition named_auto :: "code_element \<Rightarrow> bool" where
  "named_auto e \<longleftrightarrow> getType e = ET_AUTO \<and> getName e \<noteq> None"

definition stride :: "code_element list \<Rightarrow> nat option \<Rightarrow> nat option" where
  "stride es elast = map_option (\<lambda>i. i + length (takeWhile (\<lambda>e. getType e \<noteq> ET_AUTO) (drop (i + 1) es))) elast"

text \<open>\<open>es\<close> are the children of the element that is changed, the first list those of the other one.\<close>

fun combin_loop :: "code_element list \<Rightarrow> code_element list \<Rightarrow> nat option \<Rightarrow> code_element list res" where
  "combin_loop [] es elast = Inr es"
| "combin_loop (e # rest) es elast =
     (if named_auto e
      then (case getChild (Some ET_AUTO) (getName e) es of
              Some i \<Rightarrow> let es = es[i := replaceAutoGenPart (es ! i) e] in combin_loop rest es (stride es (Some i))
            | None \<Rightarrow> rbind (clone e) (\<lambda>c. let (es, i) = insertChild c elast False es in combin_loop rest es (stride es (Some i))))
      else combin_loop rest es (stride es elast))"

definition disable_missing :: "code_element list \<Rightarrow> code_element list \<Rightarrow> code_element list" where
  "disable_missing from_es es =
     map (\<lambda>e. if named_auto e \<and> getChild (Some ET_AUTO) (getName e) from_es = None then disableCode e else e) es"

definition combin :: "code_element list \<Rightarrow> code_element list \<Rightarrow> code_element list res" where
  "combin from_es es =
     rbind (combin_loop (case getChild (Some ET_AUTO) None from_es of None \<Rightarrow> [] | Some i \<Rightarrow> drop i from_es) es None) (\<lambda>es.
       Inr (disable_missing from_es es))"

text \<open>\<open>wr\<close> says which files can be opened for writing; a file that cannot is written through a \<open>NULL\<close>.\<close>

definition combin_docs :: "code_element \<Rightarrow> code_element option \<Rightarrow> code_element res" where
  "combin_docs ceFrom ceTo =
     (case ceTo of
        None \<Rightarrow> Inr ceFrom
      | Some ce \<Rightarrow>
          rbind (combin (element_children ceFrom) (element_children ce)) (\<lambda>es. Inr (CompoundElement (getType ce) (getName ce) es)))"

definition CodeCombinFiles ::
  "(char list \<Rightarrow> bool) \<Rightarrow> (char list \<Rightarrow> bool) \<Rightarrow> files \<Rightarrow> char list option \<Rightarrow> char list option \<Rightarrow> (int \<times> files) run" where
  "CodeCombinFiles bad wr fs fileFrom fileTo =
     (case (fileFrom, fileTo) of
        (Some from, Some to) \<Rightarrow>
          Option.bind (LoadFromFile_io bad fs from) (\<lambda>ceFrom. Option.bind (LoadFromFile_io bad fs to) (\<lambda>ceTo.
            case ceFrom of
              None \<Rightarrow> Some (Inr (0, fs))
            | Some ce \<Rightarrow> Some (rbind (combin_docs ce ceTo) (\<lambda>e.
                if \<not> wr to then Inl Null_Deref else Inr (1, fs(to \<mapsto> saveToFile e))))))
      | _ \<Rightarrow> Some (Inr (0, fs)))"

section \<open>Loading returns\<close>

lemma ahead_fungetnstr:
  assumes "EOF_char \<notin> set w" shows "ahead (fungetnstr w f) = w @ ahead f" and "at_eof (fungetnstr w f) \<longleftrightarrow> w = [] \<and> at_eof f"
proof -
  have "ahead (foldr ungetc w f) = w @ ahead f \<and> (at_eof (foldr ungetc w f) \<longleftrightarrow> w = [] \<and> at_eof f)"
    using assms by (induction w) (auto simp: ungetc_def)
  then show "ahead (fungetnstr w f) = w @ ahead f" "at_eof (fungetnstr w f) \<longleftrightarrow> w = [] \<and> at_eof f"
    by (simp_all add: fungetnstr_def)
qed

lemma fgetnstr_no_EOF: "fgetnstr n f = (w, f') \<Longrightarrow> EOF_char \<notin> set w"
proof (induction n arbitrary: f w f')
  case (Suc n)
  obtain c f1 where c: "fgetc f = (c, f1)" by force
  obtain s2 f2 where s2: "fgetnstr n f1 = (s2, f2)" by force
  show ?case using Suc.prems c s2 Suc.IH [OF s2] by (auto split: if_splits)
qed simp

lemma fgetnstr_more: "fgetnstr n f = (w, f') \<Longrightarrow> \<not> at_eof f \<Longrightarrow> length w = n \<Longrightarrow> \<not> at_eof f'"
proof (induction n arbitrary: f w f')
  case (Suc n)
  obtain c f1 where c: "fgetc f = (c, f1)" by force
  obtain s2 f2 where s2: "fgetnstr n f1 = (s2, f2)" by force
  show ?case using Suc.prems c s2 Suc.IH [OF s2] by (auto simp: fgetc_def split: if_splits list.splits)
qed simp

lemma word_loop_takes: "word_loop sp n f = (w, f') \<Longrightarrow> takes w f f' \<and> EOF_char \<notin> set w"
proof (induction n arbitrary: f w f')
  case (Suc n)
  obtain c f1 where c: "fgetc f = (c, f1)" by force
  obtain s2 f2 where s2: "word_loop sp n f1 = (s2, f2)" by force
  show ?case using Suc.prems c s2 Suc.IH [OF s2]
    by (auto simp: takes_def fgetc_def ungetc_def split: if_splits list.splits)
qed (simp add: takes_def)

lemma name_loop_takes: "name_loop q n f = (w, f') \<Longrightarrow> length (ahead f') \<le> length (ahead f)"
proof (induction n arbitrary: f w f')
  case (Suc n)
  obtain c f1 where c: "fgetc f = (c, f1)" by force
  obtain s2 f2 where s2: "name_loop q n f1 = (s2, f2)" by force
  show ?case using Suc.prems c s2 Suc.IH [OF s2]
    by (auto simp: fgetc_def split: if_splits list.splits)
qed simp

lemma skip_blanks_le: "length (ahead (skip_blanks cs)) \<le> length cs"
  by (induction cs) (auto simp: ungetc_def)

lemma skip_to_quote_le: "skip_to_quote cs = (q, f) \<Longrightarrow> length (ahead f) \<le> length cs"
  by (induction cs) (auto split: if_splits)

lemma fgetword_takes:
  assumes "fgetword sp f n = (w, f')" "\<not> at_eof f"
  shows "length w + length (ahead f') \<le> length (ahead f) \<and> EOF_char \<notin> set w"
  using word_loop_takes [of sp n "skip_blanks (ahead f)" w f'] skip_blanks_le [of "ahead f"] assms
  by (auto simp: fgetword_def takes_def)

lemma load_id_le:
  assumes "load_id f = (nm, f')" shows "length (ahead f') \<le> length (ahead f)"
proof (cases "at_eof f")
  case False
  obtain w f1 where w: "fgetword ([CHR ''='', CHR '' '', CHR 0x09, CHR 0x0A, CHR 0x0D]) f (sizeof_szWord - 1) = (w, f1)" by force
  obtain q f2 where q: "(if at_eof f1 then (EOF_char, f1) else skip_to_quote (ahead f1)) = (q, f2)" by force
  obtain s f3 where s: "name_loop q (sizeof_szWord - 1) f2 = (s, f3)" by force
  have "length (ahead f3) \<le> length (ahead f1)"
    using name_loop_takes [OF s] q skip_to_quote_le [of "ahead f1"] by (fastforce split: if_splits)
  then show ?thesis using assms False w q s fgetword_takes [OF w False]
    by (auto simp: load_id_def ahead_fungetnstr split: if_splits)
qed (use assms in \<open>simp add: load_id_def\<close>)

lemma text_loop_le: "text_loop t s st f = (t', f') \<Longrightarrow> ahead_size f' \<le> ahead_size f"
proof (induction t s st f rule: text_loop.induct)
  case (1 t s st f)
  show ?case
  proof (cases "at_eof f")
    case True
    then show ?thesis using 1(3) by (simp add: text_loop.simps)
  next
    case False
    note eof = this
    show ?thesis
    proof (cases st)
      case True
      obtain w f1 where w: "fgetnstr 5 f = (w, f1)" by force
      obtain t2 s2 where fl: "flush_text t (s @ w) = (t2, s2)" by force
      show ?thesis
      proof (cases "w = open_mark \<or> w = close_mark")
        case True
        then have "f' = fungetnstr w f1" using 1(3) w eof \<open>st\<close> by (subst (asm) text_loop.simps) simp
        moreover have "takes w f f1" "EOF_char \<notin> set w" using w by (auto dest: fgetnstr_takes fgetnstr_no_EOF)
        ultimately show ?thesis using eof by (simp add: ahead_size_def takes_def ahead_fungetnstr)
      next
        case False
        then have "text_loop t2 s2 False f1 = (t', f')" using 1(3) w fl eof \<open>st\<close> by (subst (asm) text_loop.simps) simp
        from 1(1) [OF eof True w [symmetric] False fl [symmetric] this] fgetnstr_size [OF w] show ?thesis by simp
      qed
    next
      case False
      obtain c f1 where c: "fgetc f = (c, f1)" by force
      obtain t2 s2 where fl: "flush_text t (s @ [c]) = (t2, s2)" by force
      have "text_loop t2 s2 (is_newline c) f1 = (t', f')" using 1(3) c fl eof False by (subst (asm) text_loop.simps) simp
      from 1(2) [OF eof False c [symmetric] fl [symmetric] this] fgetc_size [OF c eof] show ?thesis by simp
    qed
  qed
qed

text \<open>
  Every turn of the loop takes a character, or meets the end of the file: it always returns.
\<close>

lemma text_loop_takes:
  assumes w: "fgetnstr 5 f = (w, f1)" and t: "text_loop [] [] False (fungetnstr w f1) = (t', f')" and "\<not> at_eof f"
  shows "ahead_size f' < ahead_size f"
proof (cases "at_eof (fungetnstr w f1)")
  case True
  then have "(t', f') = ([] @ c_cut [], fungetnstr w f1)" using t by (subst (asm) text_loop.simps) simp
  then show ?thesis using True assms(3) by (simp add: ahead_size_def)
next
  case False
  obtain c f2 where c: "fgetc (fungetnstr w f1) = (c, f2)" by force
  obtain t2 s2 where fl: "flush_text [] [c] = (t2, s2)" by force
  have "text_loop t2 s2 (is_newline c) f2 = (t', f')" using t c fl False by (subst (asm) text_loop.simps) simp
  then have "ahead_size f' \<le> ahead_size f2" by (rule text_loop_le)
  also have "\<dots> < ahead_size (fungetnstr w f1)" by (rule fgetc_size [OF c False])
  also have "\<dots> \<le> ahead_size f" using fgetnstr_takes [OF w] fgetnstr_no_EOF [OF w] assms(3)
    by (simp add: ahead_size_def takes_def ahead_fungetnstr)
  finally show ?thesis .
qed

lemma load_loop_returns:
  "\<exists>ok es' f'. load_loop es f = Some (ok, es', f') \<and> ahead_size f' \<le> ahead_size f"
proof (induction f arbitrary: es rule: measure_induct_rule [where f = ahead_size])
  case (less f)
  show ?case
  proof (cases "at_eof f")
    case True
    then show ?thesis by (subst load_loop.simps) auto
  next
    case False
    obtain w f1 where w: "fgetnstr 5 f = (w, f1)" by force
    have f1: "ahead_size f1 \<le> ahead_size f" using w by (rule fgetnstr_size)
    consider "w = close_mark" | "w = open_mark" | "w \<noteq> close_mark" "w \<noteq> open_mark" by blast
    then show ?thesis
    proof cases
      case 1
      then show ?thesis using w False f1 by (subst load_loop.simps) auto
    next
      case 2
      obtain v f2 where v: "fgetword default_spliter f1 (sizeof_szWord - 1) = (v, f2)" by force
      obtain nm f3 where nm: "load_id f2 = (nm, f3)" by force
      have le: "length (ahead f1) + 5 \<le> length (ahead f)"
        using fgetnstr_takes [OF w] 2 by (simp add: takes_def open_mark_def)
      then have f1': "\<not> at_eof f1" using fgetnstr_more [OF w] 2 False by (simp add: open_mark_def)
      have f3: "ahead_size f3 < ahead_size f" "ahead_size f2 \<le> ahead_size f"
        using le fgetword_takes [OF v f1'] load_id_le [OF nm] False by (auto simp: ahead_size_def)
      obtain ok cs f4 where l: "load_loop [] f3 = Some (ok, cs, f4)" "ahead_size f4 \<le> ahead_size f3"
        using less.IH [OF f3(1)] by blast
      then have "ahead_size f4 < ahead_size f" using f3 by simp
      note IH = less.IH [OF this]
      define es2 where "es2 = (if ok then es @ [CompoundElement (if c_cut v = ''AutoGenCode'' then ET_AUTO else ET_USER) nm cs] else es)"
      obtain ok' es' f' where l2: "load_loop es2 f4 = Some (ok', es', f')" "ahead_size f' \<le> ahead_size f4" using IH by blast
      consider "v = []" | "v \<noteq> []" "c_cut v = ''AutoGenCode'' \<or> c_cut v = ''UserCode''"
        | "v \<noteq> []" "\<not> (c_cut v = ''AutoGenCode'' \<or> c_cut v = ''UserCode'')" by blast
      then show ?thesis
      proof cases
        case 2
        then have "load_loop es f = Some (ok', es', f')" using w v nm l l2(1) False \<open>w = open_mark\<close>
          by (subst load_loop.simps) (simp add: open_mark_def close_mark_def es2_def)
        then show ?thesis using l2(2) l(2) f3 by auto
      qed (use w v f3 False \<open>w = open_mark\<close> in \<open>subst load_loop.simps, auto simp: open_mark_def close_mark_def\<close>)+
    next
      case 3
      obtain t f2 where t: "text_loop [] [] False (fungetnstr w f1) = (t, f2)" by force
      have "ahead_size f2 < ahead_size f" using w t False by (rule text_loop_takes)
      moreover obtain ok es' f' where "load_loop (es @ [TextElement t]) f2 = Some (ok, es', f')" "ahead_size f' \<le> ahead_size f2"
        using less.IH [OF calculation] by blast
      ultimately show ?thesis using w t False 3 by (subst load_loop.simps) (auto simp: open_mark_def close_mark_def)
    qed
  qed
qed

text \<open>With reads that fail: the same when none does, and no return from a file of which nothing can be read.\<close>

lemma load_loop_io_good [simp]: "load_loop_io False es f = load_loop es f"
proof -
  define P where "P = (\<lambda>es f r. load_loop_io False es f = Some r)"
  have "P es f r" if "load_loop es f = Some r" for r
  proof (rule load_loop.raw_induct [where P = P, OF _ that], goal_cases)
    case (1 rec es f r)
    note IH = 1(1) [unfolded P_def]
    show ?case
      unfolding P_def using 1(2)
      by (subst load_loop_io.simps) (auto simp: bind_eq_Some_conv IH split: if_splits prod.splits)
  qed
  then show ?thesis using load_loop_returns [of es f] by (auto simp: P_def)
qed

lemma LoadFromFile_io_good: "\<not> bad file \<Longrightarrow> LoadFromFile_io bad fs file = LoadFromFile fs file"
  by (simp add: LoadFromFile_io_def LoadFromFile_def split: option.splits prod.splits)

lemma fgetnstr_io_endless [simp]: "fgetnstr_io True n \<lparr>ahead = [], at_eof = False\<rparr> = ([], \<lparr>ahead = [], at_eof = False\<rparr>)"
  by (cases n) (simp_all add: fgetc_io_def)

lemma text_loop_io_endless:
  assumes "text_loop_io bad t s st f = Some r" shows "\<not> (bad \<and> f = \<lparr>ahead = [], at_eof = False\<rparr>)"
proof -
  define P where "P = (\<lambda>bad (t :: char list) (s :: char list) (st :: bool) f (r :: char list \<times> cfile). \<not> (bad \<and> f = \<lparr>ahead = [], at_eof = False\<rparr>))"
  have "P bad t s st f r"
  proof (rule text_loop_io.raw_induct [where P = P, OF _ assms], goal_cases)
    case (1 rec bad t s st f r)
    show ?case unfolding P_def
    proof
      assume f: "bad \<and> f = \<lparr>ahead = [], at_eof = False\<rparr>"
      have "\<exists>t' s' st'. rec True t' s' st' f = Some r"
        using 1(2) f by (auto simp: fgetc_io_def open_mark_def close_mark_def split: if_splits prod.splits)
      then show False using 1(1) f unfolding P_def by blast
    qed
  qed
  then show ?thesis by (simp add: P_def)
qed

lemma load_loop_io_endless: "load_loop_io True es \<lparr>ahead = [], at_eof = False\<rparr> = None"
proof -
  have "text_loop_io True [] [] False \<lparr>ahead = [], at_eof = False\<rparr> = None"
    using text_loop_io_endless by (metis option.exhaust)
  then show ?thesis
    by (subst load_loop_io.simps) (simp add: fgetc_io_def numeral_eq_Suc open_mark_def close_mark_def fungetnstr_def)
qed

lemma LoadFromFile_io_endless: "bad file \<Longrightarrow> fs file = Some [] \<Longrightarrow> LoadFromFile_io bad fs file = None"
  by (simp add: LoadFromFile_io_def load_id_io_def fgetword_io_def sizeof_szWord_def numeral_eq_Suc fgetc_io_def c_cut_def
      fungetnstr_def load_loop_io_endless)

section \<open>What merging keeps\<close>

lemma clone_is_copy:
  shows "clone e = Inr c \<Longrightarrow> c = e" and "clone_all es = Inr cs \<Longrightarrow> cs = es"
  by (induction e and es arbitrary: c and cs rule: clone_clone_all.induct) (auto simp: rbind_eq_Inr split: if_splits)

lemma getChild_Some:
  "getChild ty nm es = Some i \<Longrightarrow> i < length es \<and> is_child ty nm (es ! i) \<and> (\<forall>j<i. \<not> is_child ty nm (es ! j))"
proof (induction es arbitrary: i)
  case (Cons e es)
  then show ?case by (cases i) (auto simp: less_Suc_eq_0_disj split: if_splits)
qed simp

lemma getChild_None: "getChild ty nm es = None \<longleftrightarrow> (\<forall>e\<in>set es. \<not> is_child ty nm e)"
  by (induction es) auto

lemma child_named [simp]: "is_child (Some ET_AUTO) (Some nm) e \<longleftrightarrow> named_auto e \<and> getName e = Some nm"
  by (auto simp: is_child_def named_auto_def)

text \<open>
  What a merge may not touch: of a named section of generated code its parts that are not text, of everything
  else all of it.
\<close>

definition is_text :: "code_element \<Rightarrow> bool" where "is_text e \<longleftrightarrow> getType e = ET_TEXT"

definition user_code :: "code_element \<Rightarrow> code_element" where
  "user_code e = (if named_auto e then CompoundElement ET_AUTO (getName e) (filter (\<lambda>c. \<not> is_text c) (element_children e)) else e)"

lemma replace_texts_keeps: "filter (\<lambda>c. \<not> is_text c) (replace_texts es ts) = filter (\<lambda>c. \<not> is_text c) es"
  by (induction es ts rule: replace_texts.induct) (simp_all add: is_text_def)

lemma disable_texts_keeps: "filter (\<lambda>c. \<not> is_text c) (disable_texts es) = filter (\<lambda>c. \<not> is_text c) es"
proof -
  define fs where "fs = (case es of TextElement t # cs \<Rightarrow> TextElement (insertText t if_0 0) # cs | _ \<Rightarrow> TextElement if_0 # es)"
  have fs: "fs \<noteq> []" "filter (\<lambda>c. \<not> is_text c) fs = filter (\<lambda>c. \<not> is_text c) es"
    by (auto simp: fs_def is_text_def split: list.splits code_element.splits)
  then show ?thesis
    by (cases fs rule: rev_cases)
      (auto simp: disable_texts_def Let_def is_text_def simp flip: fs_def split: code_element.splits)
qed

lemma shape_replace [simp]:
  "getType (replaceAutoGenPart e page) = getType e" "getName (replaceAutoGenPart e page) = getName e"
  "named_auto (replaceAutoGenPart e page) = named_auto e"
  by (cases e; simp add: named_auto_def)+

lemma shape_disable [simp]:
  "getType (disableCode e) = getType e" "getName (disableCode e) = getName e" "named_auto (disableCode e) = named_auto e"
  by (cases e; simp add: named_auto_def)+

lemma user_code_replace: "named_auto e \<Longrightarrow> user_code (replaceAutoGenPart e page) = user_code e"
  by (cases e) (auto simp: user_code_def named_auto_def replace_texts_keeps)

lemma user_code_disable: "named_auto e \<Longrightarrow> user_code (disableCode e) = user_code e"
  by (cases e) (auto simp: user_code_def named_auto_def disable_texts_keeps)

definition others :: "code_element list \<Rightarrow> code_element list" where "others es = filter (\<lambda>e. \<not> named_auto e) es"

definition keeps :: "code_element list \<Rightarrow> code_element list \<Rightarrow> bool" where
  "keeps es es' \<longleftrightarrow> others es' = others es \<and> subseq (map user_code es) (map user_code es')"

lemma keeps_refl [simp]: "keeps es es" by (simp add: keeps_def)

lemma keeps_trans: "keeps a b \<Longrightarrow> keeps b c \<Longrightarrow> keeps a c"
  by (auto simp: keeps_def intro: subseq_order.order_trans)

lemma keeps_update:
  assumes "i < length es" "named_auto (es ! i)" "named_auto e" "user_code e = user_code (es ! i)"
  shows "keeps es (es[i := e])"
proof -
  have es: "es = take i es @ es ! i # drop (Suc i) es" using assms(1) by (rule id_take_nth_drop)
  have "others (es[i := e]) = others es" using assms(1-3)
    by (subst es, subst upd_conv_take_nth_drop) (simp_all add: others_def)
  moreover have "map user_code (es[i := e]) = map user_code es" using assms(1,4)
    by (simp add: map_update list_update_same_conv)
  ultimately show ?thesis by (simp add: keeps_def)
qed

lemma keeps_insert: "named_auto c \<Longrightarrow> keeps es (take k es @ c # drop k es)"
proof -
  assume c: "named_auto c"
  have "others es = others (take k es) @ others (drop k es)" by (simp add: others_def flip: filter_append)
  moreover have "subseq (map user_code (take k es @ drop k es)) (map user_code (take k es @ c # drop k es))"
    unfolding map_append list.map by (intro list_emb_append_mono subseq_order.order_refl list_emb_Cons)
  ultimately show ?thesis using c by (simp add: keeps_def others_def)
qed

lemma insertChild_insert: "fst (insertChild c elem before es) = (case elem of None \<Rightarrow> es @ [c] | Some i \<Rightarrow>
    take (if before then i else i + 1) es @ c # drop (if before then i else i + 1) es)"
  by (auto simp: insertChild_def Let_def split: option.splits)

lemma keeps_insertChild: "named_auto c \<Longrightarrow> keeps es (fst (insertChild c elem before es))"
  using keeps_insert [of c es "length es"] keeps_insert [of c es]
  by (auto simp: insertChild_insert split: option.splits)

lemma combin_loop_keeps: "combin_loop new es elast = Inr es' \<Longrightarrow> keeps es es'"
proof (induction new es elast rule: combin_loop.induct)
  case (2 e rest es elast)
  show ?case
  proof (cases "named_auto e")
    case named: True
    show ?thesis
    proof (cases "getChild (Some ET_AUTO) (getName e) es")
      case None
      then obtain c where c: "clone e = Inr c" "combin_loop rest (fst (insertChild c elast False es))
          (stride (fst (insertChild c elast False es)) (Some (snd (insertChild c elast False es)))) = Inr es'"
        using 2(4) named by (cases "clone e") (auto simp: case_prod_beta)
      have "named_auto c" using clone_is_copy(1) [OF c(1)] named by simp
      then have "keeps es (fst (insertChild c elast False es))" by (rule keeps_insertChild)
      moreover have "keeps (fst (insertChild c elast False es)) es'"
        using 2(1) [OF named None c(1) refl prod.collapse] c(2) by simp
      ultimately show ?thesis by (rule keeps_trans)
    next
      case (Some i)
      define es1 where "es1 = es[i := replaceAutoGenPart (es ! i) e]"
      have "i < length es" "named_auto (es ! i)" using getChild_Some [OF Some] named by (auto simp: named_auto_def)
      then have "keeps es es1" unfolding es1_def by (rule keeps_update) (simp_all add: user_code_replace \<open>named_auto (es ! i)\<close>)
      moreover have "keeps es1 es'" using 2(2) [OF named Some es1_def] 2(4) named Some by (simp add: es1_def Let_def)
      ultimately show ?thesis by (rule keeps_trans)
    qed
  next
    case False
    then show ?thesis using 2(3) [OF False] 2(4) by simp
  qed
qed simp

lemma disable_missing_keeps: "keeps es (disable_missing from_es es)"
proof -
  have "others (disable_missing from_es es) = others es"
    by (induction es) (auto simp: disable_missing_def others_def)
  moreover have "map user_code (disable_missing from_es es) = map user_code es"
    by (auto simp: disable_missing_def user_code_disable)
  ultimately show ?thesis by (simp add: keeps_def)
qed

text \<open>\<open>code_section nm es\<close> is the section of generated code with the name \<open>nm\<close>.\<close>

definition code_section :: "char list \<Rightarrow> code_element list \<Rightarrow> code_element option" where
  "code_section nm es = find (\<lambda>e. named_auto e \<and> getName e = Some nm) es"

lemma code_section_simps [simp]:
  "code_section nm [] = None"
  "code_section nm (e # es) = (if named_auto e \<and> getName e = Some nm then Some e else code_section nm es)"
  by (simp_all add: code_section_def)

lemma code_section_append: "code_section nm (es @ fs) = (case code_section nm es of Some e \<Rightarrow> Some e | None \<Rightarrow> code_section nm fs)"
  by (induction es) simp_all

lemma code_section_getChild:
  "code_section nm es = map_option (nth es) (getChild (Some ET_AUTO) (Some nm) es)"
proof (induction es)
  case (Cons e es)
  then show ?case by (cases "getChild (Some ET_AUTO) (Some nm) es") auto
qed simp

lemma code_section_update:
  assumes "getChild (Some ET_AUTO) (Some n) es = Some i" "named_auto e" "getName e = Some n"
  shows "code_section nm (es[i := e]) = (if nm = n then Some e else code_section nm es)"
  using assms
proof (induction es arbitrary: i)
  case (Cons a es)
  then show ?case by (cases i) (auto split: if_splits)
qed simp

lemma code_section_insert:
  assumes "code_section n es = None" "named_auto c" "getName c = Some n"
  shows "code_section nm (take k es @ c # drop k es) = (if nm = n then Some c else code_section nm es)"
proof -
  have es: "code_section nm es = code_section nm (take k es @ drop k es)" for nm by simp
  have "code_section n (take k es) = None" using assms(1) unfolding es [of n] code_section_append by (simp split: option.splits)
  then show ?thesis using assms(2,3) by (auto simp: code_section_append es [of nm] simp del: append_take_drop_id split: option.splits)
qed

lemma code_section_insertChild:
  assumes "code_section n es = None" "named_auto c" "getName c = Some n"
  shows "code_section nm (fst (insertChild c elem before es)) = (if nm = n then Some c else code_section nm es)"
  using code_section_insert [OF assms, of nm] code_section_insert [OF assms, of nm "length es"]
  by (auto simp: insertChild_insert split: option.splits)

definition section_names :: "code_element list \<Rightarrow> char list option list" where
  "section_names es = map getName (filter named_auto es)"

lemma code_section_None: "code_section nm es = None \<longleftrightarrow> Some nm \<notin> set (section_names es)"
  by (induction es) (auto simp: section_names_def)

lemma combin_loop_sections:
  assumes "combin_loop new es elast = Inr es'" "distinct (section_names new)"
  shows "code_section nm es' = (case code_section nm new of
      None \<Rightarrow> code_section nm es
    | Some e \<Rightarrow> Some (case code_section nm es of None \<Rightarrow> e | Some e0 \<Rightarrow> replaceAutoGenPart e0 e))"
  using assms
proof (induction new es elast rule: combin_loop.induct)
  case (2 e rest es elast)
  have dist: "distinct (section_names rest)" using 2(5) by (auto simp: section_names_def split: if_splits)
  show ?case
  proof (cases "named_auto e")
    case named: True
    then obtain n where n: "getName e = Some n" by (auto simp: named_auto_def)
    have rest: "code_section n rest = None" using 2(5) named n by (auto simp: section_names_def code_section_None)
    show ?thesis
    proof (cases "getChild (Some ET_AUTO) (getName e) es")
      case None
      define es1 where "es1 = fst (insertChild e elast False es)"
      from None have c: "clone e = Inr e" "combin_loop rest es1 (stride es1 (Some (snd (insertChild e elast False es)))) = Inr es'"
        using 2(4) named clone_is_copy(1) [of e] by (cases "clone e"; fastforce simp: case_prod_beta es1_def)+
      have "code_section n es = None" using None n by (simp add: code_section_getChild)
      then have sec: "code_section m es1 = (if m = n then Some e else code_section m es)" for m
        unfolding es1_def using named n by (rule code_section_insertChild)
      show ?thesis
        using 2(1) [OF named None c(1) refl prod.collapse] c(2) dist sec n named rest \<open>code_section n es = None\<close>
        by (auto simp: es1_def [symmetric] split: option.splits)
    next
      case (Some i)
      define es1 where "es1 = es[i := replaceAutoGenPart (es ! i) e]"
      have old: "code_section n es = Some (es ! i)" using Some n by (simp add: code_section_getChild)
      have sec: "code_section m es1 = (if m = n then Some (replaceAutoGenPart (es ! i) e) else code_section m es)" for m
        unfolding es1_def using Some getChild_Some [OF Some] n by (intro code_section_update) auto
      have "combin_loop rest es1 (stride es1 (Some i)) = Inr es'" using 2(4) named Some by (simp add: es1_def Let_def)
      then show ?thesis using 2(2) [OF named Some es1_def] dist sec n named rest old
        by (auto split: option.splits)
    qed
  next
    case False
    then show ?thesis using 2(3) [OF False] 2(4) dist by (auto split: option.splits)
  qed
qed simp

lemma getChild_None_section: "getChild (Some ET_AUTO) (Some nm) es = None \<longleftrightarrow> code_section nm es = None"
  by (simp add: code_section_getChild)

lemma section_names_drop: "distinct (section_names es) \<Longrightarrow> distinct (section_names (drop i es))"
proof -
  assume "distinct (section_names es)"
  then have "distinct (section_names (take i es @ drop i es))" by simp
  then show ?thesis by (simp add: section_names_def del: append_take_drop_id)
qed

lemma code_section_disable: "code_section nm (disable_missing from_es es) =
    map_option (\<lambda>e. if code_section nm from_es = None then disableCode e else e) (code_section nm es)"
  by (induction es) (auto simp: disable_missing_def getChild_None_section)

lemma code_section_from:
  "code_section nm (case getChild (Some ET_AUTO) None from_es of None \<Rightarrow> [] | Some i \<Rightarrow> drop i from_es) = code_section nm from_es"
  by (induction from_es) (auto simp: is_child_def named_auto_def split: option.splits)

end
