(* ===== verification/Code_Combin_File.thy ===== *)
theory Code_Combin_File
  imports Code_Combin
begin

text \<open>
  What holds of the merging of generated code (\<open>common/codecombin.cpp\<close>) from file to file: the documents that
  are loaded and merged are well formed, a saved document is loaded as it was but for the blanks the writer
  adds, the user's code stays and each generated section gets the text it should. Three lemmas show where a
  file does not survive.
\<close>

section \<open>Well-formed documents\<close>

fun wf_element :: "code_element \<Rightarrow> bool" where
  "wf_element (TextElement t) \<longleftrightarrow> NUL \<notin> set t"
| "wf_element (CompoundElement ty nm es) \<longleftrightarrow>
     ty \<noteq> ET_TEXT \<and> (case nm of None \<Rightarrow> True | Some n \<Rightarrow> NUL \<notin> set n \<and> length n < sizeof_szWord) \<and>
     (\<forall>e\<in>set es. wf_element e \<and> getType e \<noteq> ET_DOC)"

definition wf_children :: "code_element list \<Rightarrow> bool" where
  "wf_children es \<longleftrightarrow> (\<forall>e\<in>set es. wf_element e \<and> getType e \<noteq> ET_DOC)"

definition wf_name :: "char list option \<Rightarrow> bool" where
  "wf_name nm \<longleftrightarrow> (case nm of None \<Rightarrow> True | Some n \<Rightarrow> NUL \<notin> set n \<and> length n < sizeof_szWord)"

lemma wf_children_simps [simp]:
  "wf_children []" "wf_children (e # es) \<longleftrightarrow> wf_element e \<and> getType e \<noteq> ET_DOC \<and> wf_children es"
  "wf_children (es @ fs) \<longleftrightarrow> wf_children es \<and> wf_children fs"
  by (auto simp: wf_children_def)

lemma wf_Compound [simp]:
  "wf_element (CompoundElement ty nm es) \<longleftrightarrow> ty \<noteq> ET_TEXT \<and> wf_name nm \<and> wf_children es"
  by (simp add: wf_children_def wf_name_def)

declare wf_element.simps(2) [simp del]

lemma wf_part [simp]: "wf_children es \<Longrightarrow> wf_children (take k es)" "wf_children es \<Longrightarrow> wf_children (drop k es)"
  by (auto simp: wf_children_def dest: in_set_takeD in_set_dropD)

lemma wf_member: "wf_children es \<Longrightarrow> i < length es \<Longrightarrow> wf_element (es ! i) \<and> getType (es ! i) \<noteq> ET_DOC"
  by (simp add: wf_children_def)

lemma wf_update: "wf_children es \<Longrightarrow> wf_element e \<Longrightarrow> getType e \<noteq> ET_DOC \<Longrightarrow> wf_children (es[i := e])"
  using set_update_subset_insert [of es i e] by (auto simp: wf_children_def)

lemma NUL_c_cut [simp]: "NUL \<notin> set (c_cut s)"
  unfolding c_cut_def by (metis (mono_tags, lifting) set_takeWhileD)

lemma text_loop_no_NUL: "text_loop t s st f = (t', f') \<Longrightarrow> NUL \<notin> set t \<Longrightarrow> NUL \<notin> set t'"
proof (induction t s st f rule: text_loop.induct)
  case (1 t s st f)
  have fl: "NUL \<notin> set (fst (flush_text t s'))" for s' using 1(4) by (simp add: flush_text_def)
  show ?case using 1 fl
    by (subst (asm) (3) text_loop.simps) (auto split: if_splits prod.splits; metis fst_conv)
qed

lemma name_loop_length: "name_loop q n f = (w, f') \<Longrightarrow> length w \<le> n"
proof (induction n arbitrary: f w f')
  case (Suc n)
  obtain c f1 where c: "fgetc f = (c, f1)" by force
  obtain s2 f2 where s2: "name_loop q n f1 = (s2, f2)" by force
  show ?case using Suc.prems c s2 Suc.IH [OF s2] by (auto split: if_splits)
qed simp

lemma c_cut_length: "length s \<le> n \<Longrightarrow> length (c_cut s) < Suc n"
  unfolding c_cut_def using length_takeWhile_le [of "\<lambda>c. c \<noteq> NUL" s] by simp

lemma load_id_name: "load_id f = (Some n, f') \<Longrightarrow> NUL \<notin> set n \<and> length n < sizeof_szWord"
  by (auto simp: load_id_def Let_def sizeof_szWord_def dest!: name_loop_length c_cut_length [of _ 255]
      split: if_splits prod.splits)

lemma load_loop_wf:
  "load_loop es f = Some (ok, es', f') \<Longrightarrow> wf_children es \<Longrightarrow> wf_children es'"
proof -
  have "wf_children es \<longrightarrow> wf_children (fst (snd r))" if "load_loop es f = Some r" for r
  proof (rule load_loop.raw_induct [where P = "\<lambda>es f r. wf_children es \<longrightarrow> wf_children (fst (snd r))", OF _ that], goal_cases)
    case (1 rec es f r)
    note IH = 1(1) and step = 1(2)
    obtain w f1 where w: "fgetnstr 5 f = (w, f1)" by force
    obtain v f2 where v: "fgetword default_spliter f1 (sizeof_szWord - 1) = (v, f2)" by force
    obtain nm f3 where nm: "load_id f2 = (nm, f3)" by force
    obtain t f4 where t: "text_loop [] [] False (fungetnstr w f1) = (t, f4)" by force
    have name: "wf_name nm" using load_id_name nm by (auto simp: wf_name_def split: option.splits)
    have text': "NUL \<notin> set t" using text_loop_no_NUL [OF t] by simp
    consider "at_eof f \<or> w = close_mark" | "\<not> at_eof f" "w \<noteq> close_mark" "w = open_mark"
      | "\<not> at_eof f" "w \<noteq> close_mark" "w \<noteq> open_mark" by blast
    then show "wf_children es \<longrightarrow> wf_children (fst (snd r))"
    proof cases
      case 1
      then have "fst (snd r) = es" using step w by (auto split: if_splits)
      then show ?thesis by simp
    next
      case 2
      show ?thesis
      proof (cases "v = [] \<or> \<not> (c_cut v = ''AutoGenCode'' \<or> c_cut v = ''UserCode'')")
        case True
        then have "fst (snd r) = es" using step w v 2 by (auto split: if_splits)
        then show ?thesis by simp
      next
        case False
        define ty where "ty = (if c_cut v = ''AutoGenCode'' then ET_AUTO else ET_USER)"
        have ty: "ty \<noteq> ET_TEXT \<and> ty \<noteq> ET_DOC" by (simp add: ty_def)
        obtain ok cs f5 where cs: "rec [] f3 = Some (ok, cs, f5)"
            and r: "rec (if ok then es @ [CompoundElement ty nm cs] else es) f5 = Some r"
          using step w v 2 nm False unfolding ty_def by (simp add: bind_eq_Some_conv) blast
        have "wf_children cs" using IH [OF cs] by simp
        then have "wf_element (CompoundElement ty nm cs)" using name ty by simp
        moreover have "getType (CompoundElement ty nm cs) \<noteq> ET_DOC" using ty by simp
        ultimately show ?thesis using IH [OF r] by (cases ok) simp_all
      qed
    next
      case 3
      then have r: "rec (es @ [TextElement t]) f4 = Some r" using step w t by simp
      have "wf_element (TextElement t)" "getType (TextElement t) \<noteq> ET_DOC" using text' by simp_all
      then show ?thesis using IH [OF r] by simp
    qed
  qed
  then show "load_loop es f = Some (ok, es', f') \<Longrightarrow> wf_children es \<Longrightarrow> wf_children es'" by fastforce
qed

lemma NUL_insertText: "NUL \<notin> set t \<Longrightarrow> NUL \<notin> set s \<Longrightarrow> NUL \<notin> set (insertText t s pos)"
  by (auto simp: insertText_def Let_def dest: in_set_takeD in_set_dropD)

lemma wf_replace_texts: "wf_children es \<Longrightarrow> \<forall>t\<in>set ts. NUL \<notin> set t \<Longrightarrow> wf_children (replace_texts es ts)"
  by (induction es ts rule: replace_texts.induct) (auto simp: setText_def)

lemma wf_texts_of: "wf_children es \<Longrightarrow> \<forall>t\<in>set (texts_of es). NUL \<notin> set t"
  by (induction es rule: texts_of.induct) auto

lemma wf_disable_texts:
  assumes "wf_children es" shows "wf_children (disable_texts es)"
proof -
  define fs where "fs = (case es of TextElement t # cs \<Rightarrow> TextElement (insertText t if_0 0) # cs | _ \<Rightarrow> TextElement if_0 # es)"
  have marks: "NUL \<notin> set if_0" "NUL \<notin> set end_if" by (simp_all add: if_0_def end_if_def)
  have fs: "fs \<noteq> []" "wf_children fs" using assms marks
    by (auto simp: fs_def NUL_insertText split: list.splits code_element.splits)
  then show ?thesis using marks
    by (cases fs rule: rev_cases)
      (auto simp: disable_texts_def Let_def NUL_insertText simp flip: fs_def split: code_element.splits)
qed

lemma wf_replace: "wf_element e \<Longrightarrow> wf_element page \<Longrightarrow> wf_element (replaceAutoGenPart e page)"
proof (cases e)
  case (CompoundElement ty nm es)
  moreover assume "wf_element e" "wf_element page"
  moreover have "wf_children (element_children page)" using \<open>wf_element page\<close> by (cases page) auto
  ultimately show ?thesis by (simp add: wf_replace_texts wf_texts_of)
qed simp

lemma wf_disable: "wf_element e \<Longrightarrow> wf_element (disableCode e)"
  by (cases e) (simp_all add: wf_disable_texts)

lemma wf_combin_loop:
  "combin_loop new es elast = Inr es' \<Longrightarrow> wf_children new \<Longrightarrow> wf_children es \<Longrightarrow> wf_children es'"
proof (induction new es elast rule: combin_loop.induct)
  case (2 e rest es elast)
  consider (old) i where "named_auto e" "getChild (Some ET_AUTO) (getName e) es = Some i"
    | (new) "named_auto e" "getChild (Some ET_AUTO) (getName e) es = None" | (other) "\<not> named_auto e" by blast
  then show ?case
  proof cases
    case old
    define es1 where "es1 = es[i := replaceAutoGenPart (es ! i) e]"
    have "wf_children es1" unfolding es1_def using 2(5,6) getChild_Some [OF old(2)]
      by (intro wf_update wf_replace) (simp_all add: wf_member)
    then show ?thesis using 2(2) [OF old es1_def] 2(4,5) old by (simp add: es1_def Let_def)
  next
    case new
    define es1 where "es1 = fst (insertChild e elast False es)"
    have c: "clone e = Inr e" "combin_loop rest es1 (stride es1 (Some (snd (insertChild e elast False es)))) = Inr es'"
      using 2(4) new clone_is_copy(1) [of e] by (cases "clone e"; fastforce simp: case_prod_beta es1_def)+
    have "wf_children es1" using 2(5,6)
      by (auto simp: es1_def insertChild_insert split: option.splits)
    then show ?thesis using 2(1) [OF new c(1) refl prod.collapse] c(2) 2(5) by (simp flip: es1_def)
  next
    case other
    then show ?thesis using 2(3) [OF other] 2(4-6) by simp
  qed
qed simp

lemma wf_combin: "combin from_es es = Inr es' \<Longrightarrow> wf_children from_es \<Longrightarrow> wf_children es \<Longrightarrow> wf_children es'"
proof -
  assume c: "combin from_es es = Inr es'" and wf: "wf_children from_es" "wf_children es"
  define new where "new = (case getChild (Some ET_AUTO) None from_es of None \<Rightarrow> [] | Some i \<Rightarrow> drop i from_es)"
  obtain es1 where es1: "combin_loop new es None = Inr es1" "es' = disable_missing from_es es1"
    using c by (auto simp: combin_def rbind_eq_Inr new_def)
  have "wf_children new" using wf(1) by (auto simp: new_def split: option.splits)
  from wf_combin_loop [OF es1(1) this wf(2)] show ?thesis
    unfolding es1(2) disable_missing_def by (induction es1) (auto simp: wf_disable)
qed

section \<open>Saving and loading\<close>

text \<open>
  A text that is read back as it was written: it ends with a line, and no line of it begins with a mark; \<open>st\<close>
  says that its first character begins a line.
\<close>

definition marked :: "char list \<Rightarrow> bool" where "marked s \<longleftrightarrow> take 5 s = open_mark \<or> take 5 s = close_mark"

fun no_marks :: "bool \<Rightarrow> char list \<Rightarrow> bool" where
  "no_marks st [] = True"
| "no_marks st (c # cs) \<longleftrightarrow> \<not> (st \<and> marked (c # cs)) \<and> no_marks (is_newline c) cs"

definition full_lines :: "char list \<Rightarrow> bool" where
  "full_lines t \<longleftrightarrow> t \<noteq> [] \<and> is_newline (last t) \<and> NUL \<notin> set t \<and> EOF_char \<notin> set t"

abbreviation stream :: "char list \<Rightarrow> cfile" where "stream s \<equiv> \<lparr>ahead = s, at_eof = False\<rparr>"

lemma fgetc_stream [simp]: "fgetc (stream (c # cs)) = (c, stream cs)" "fgetc (stream []) = (EOF_char, \<lparr>ahead = [], at_eof = True\<rparr>)"
  by (simp_all add: fgetc_def)

lemma fgetnstr_stream:
  assumes "EOF_char \<notin> set s" "\<exists>c\<in>set s. is_newline c"
  shows "\<exists>w t. s = w @ t \<and> t \<noteq> [] \<and> (\<forall>c\<in>set w. \<not> is_newline c) \<and> fgetnstr n (stream (s @ r)) = (w, stream (t @ r))"
  using assms
proof (induction n arbitrary: s)
  case (Suc n)
  obtain c cs where s: "s = c # cs" using Suc.prems by (cases s) auto
  show ?case
  proof (cases "is_newline c")
    case True
    then show ?thesis using Suc.prems by (intro exI [of _ "[]"] exI [of _ s]) (auto simp: s ungetc_def)
  next
    case False
    then obtain w t where "cs = w @ t" "t \<noteq> []" "\<forall>c\<in>set w. \<not> is_newline c" "fgetnstr n (stream (cs @ r)) = (w, stream (t @ r))"
      using Suc.IH [of cs] Suc.prems by (auto simp: s)
    then show ?thesis using False Suc.prems by (intro exI [of _ "c # w"] exI [of _ t]) (auto simp: s)
  qed
qed auto

lemma fgetnstr_mark: "w = open_mark \<or> w = close_mark \<Longrightarrow> fgetnstr 5 (stream (w @ r)) = (w, stream r)"
  by (auto simp: open_mark_def close_mark_def numeral_eq_Suc is_newline_def)

lemma fungetnstr_stream: "EOF_char \<notin> set w \<Longrightarrow> fungetnstr w (stream r) = stream (w @ r)"
  using ahead_fungetnstr [of w "stream r"] by (cases "fungetnstr w (stream r)") simp

lemma no_marks_weaken: "no_marks st s \<Longrightarrow> no_marks False s"
  by (cases s) auto

lemma no_marks_skip:
  "no_marks st (w @ t) \<Longrightarrow> \<forall>c\<in>set w. \<not> is_newline c \<Longrightarrow> no_marks False t"
  by (induction w arbitrary: st) (auto dest: no_marks_weaken)

lemma flush_text_join:
  "flush_text t s = (t', s') \<Longrightarrow> NUL \<notin> set s \<Longrightarrow> t' @ s' = t @ s \<and> NUL \<notin> set s'"
  by (auto simp: flush_text_def c_cut_def split: if_splits intro: takeWhile_eq_all_conv [THEN iffD2])

lemma c_cut_id: "NUL \<notin> set s \<Longrightarrow> c_cut s = s"
  by (auto simp: c_cut_def intro: takeWhile_eq_all_conv [THEN iffD2])

text \<open>What may follow a text: the end of the file or a mark.\<close>

abbreviation rest_of :: "char list \<Rightarrow> cfile" where "rest_of r \<equiv> \<lparr>ahead = r, at_eof = (r = [])\<rparr>"

lemma text_loop_ends:
  assumes "NUL \<notin> set s" "r = [] \<or> marked r"
  shows "text_loop tx s True (stream r) = (tx @ s, rest_of r)"
proof (cases "r = []")
  case True
  have "fgetnstr 5 (stream []) = ([], \<lparr>ahead = [], at_eof = True\<rparr>)" by (simp add: numeral_eq_Suc)
  moreover obtain t2 s2 where "flush_text tx s = (t2, s2)" by force
  ultimately show ?thesis using True flush_text_join [of tx s t2 s2] assms(1)
    by (subst text_loop.simps) (simp add: text_loop.simps [of _ _ _ "\<lparr>ahead = [], at_eof = True\<rparr>"] open_mark_def close_mark_def c_cut_id)
next
  case False
  define m where "m = take 5 r"
  have m: "m = open_mark \<or> m = close_mark" using assms(2) False by (simp add: marked_def m_def)
  have "r = m @ drop 5 r" by (simp add: m_def)
  then have "fgetnstr 5 (stream r) = (m, stream (drop 5 r))" using fgetnstr_mark [OF m] by metis
  moreover have "fungetnstr m (stream (drop 5 r)) = stream r"
    using fungetnstr_stream [of m "drop 5 r"] m \<open>r = m @ drop 5 r\<close> by (auto simp: open_mark_def close_mark_def)
  ultimately show ?thesis using m False assms(1) by (subst text_loop.simps) (simp add: c_cut_id)
qed

lemma text_loop_reads:
  assumes "NUL \<notin> set s" "NUL \<notin> set t" "EOF_char \<notin> set t" "no_marks st t" "if t = [] then st else is_newline (last t)" "r = [] \<or> marked r"
  shows "text_loop tx s st (stream (t @ r)) = (tx @ s @ t, rest_of r)"
  using assms
proof (induction "2 * length t + (if st then 1 else 0)" arbitrary: tx s t st rule: less_induct)
  case less
  show ?case
  proof (cases "t = []")
    case True
    then show ?thesis using less.prems text_loop_ends [of s r tx] by simp
  next
    case False
    then have nl: "is_newline (last t)" "\<exists>c\<in>set t. is_newline c" using less.prems(5) by auto
    show ?thesis
    proof (cases st)
      case True
      obtain w t2 where w: "t = w @ t2" "t2 \<noteq> []" "\<forall>c\<in>set w. \<not> is_newline c" "fgetnstr 5 (stream (t @ r)) = (w, stream (t2 @ r))"
        using fgetnstr_stream [OF less.prems(3) nl(2)] by blast
      obtain tx2 s2 where fl: "flush_text tx (s @ w) = (tx2, s2)" by force
      have "tx2 @ s2 = tx @ s @ w" "NUL \<notin> set s2" using flush_text_join [OF fl] less.prems(1,2) w(1) by auto
      moreover have "text_loop tx2 s2 False (stream (t2 @ r)) = (tx2 @ s2 @ t2, rest_of r)"
        using less.hyps [of t2 False s2 tx2] True w less.prems no_marks_skip [of st w t2] \<open>NUL \<notin> set s2\<close> nl by auto
      moreover have "\<not> (w = open_mark \<or> w = close_mark)"
        using less.prems(4) True False w(1) by (cases t) (auto simp: marked_def open_mark_def close_mark_def)
      ultimately show ?thesis using True w fl by (subst text_loop.simps) simp
    next
      case stat: False
      obtain c cs where t: "t = c # cs" using False by (cases t) auto
      obtain tx2 s2 where fl: "flush_text tx (s @ [c]) = (tx2, s2)" by force
      have "tx2 @ s2 = tx @ s @ [c]" "NUL \<notin> set s2" using flush_text_join [OF fl] less.prems(1,2) t by auto
      moreover have "text_loop tx2 s2 (is_newline c) (stream (cs @ r)) = (tx2 @ s2 @ cs, rest_of r)"
      proof (rule less.hyps [OF _ \<open>NUL \<notin> set s2\<close> _ _ _ _ less.prems(6)])
        show "if cs = [] then is_newline c else is_newline (last cs)" using nl(1) t by (auto split: if_splits)
      qed (use less.prems t stat in auto)
      ultimately show ?thesis using stat t fl by (subst text_loop.simps) simp
    qed
  qed
qed

lemma word_loop_stream:
  assumes "\<forall>c\<in>set w. c \<noteq> EOF_char \<and> \<not> is_newline c \<and> c \<notin> set sp" "length w < n"
    "c \<in> set sp" "\<not> is_newline c" "c \<noteq> EOF_char"
  shows "word_loop sp n (stream (w @ c # r)) = (w, stream r)"
  using assms(1,2)
proof (induction w arbitrary: n)
  case Nil
  then show ?case using assms(3-5) by (cases n) auto
next
  case (Cons a w)
  then show ?case by (cases n) auto
qed

lemma word_loop_prefix:
  assumes "\<forall>c\<in>set w. c \<noteq> EOF_char \<and> \<not> is_newline c \<and> c \<notin> set sp" "length w \<le> n"
  shows "\<exists>v f. word_loop sp n (stream (w @ r)) = (w @ v, f)"
  using assms
proof (induction w arbitrary: n)
  case Nil
  then show ?case by (metis append_Nil surj_pair)
next
  case (Cons a w)
  obtain m where m: "n = Suc m" "length w \<le> m" using Cons.prems(2) by (cases n) auto
  obtain v f where "word_loop sp m (stream (w @ r)) = (w @ v, f)" using Cons.IH [OF _ m(2)] Cons.prems(1) by auto
  then show ?case using Cons.prems(1) by (simp add: m(1))
qed

lemma name_loop_stream:
  assumes "q \<notin> set w" "length w < n" shows "name_loop q n (stream (w @ q # r)) = (w, stream r)"
  using assms
proof (induction w arbitrary: n)
  case Nil
  then show ?case by (cases n) auto
next
  case (Cons a w)
  then show ?case by (cases n) auto
qed

lemma fgetword_stream:
  assumes "\<forall>c\<in>set (a # w). c \<noteq> EOF_char \<and> \<not> is_newline c \<and> c \<notin> set sp" "length (a # w) < n" "a \<noteq> CHR '' ''" "a \<noteq> CHR 0x09"
    "c \<in> set sp" "\<not> is_newline c" "c \<noteq> EOF_char"
  shows "fgetword sp (stream (a # w @ c # r)) n = (a # w, stream r)"
  using word_loop_stream [OF assms(1,2,5-7), of r] assms(1,3,4) by (simp add: fgetword_def ungetc_def)

abbreviation quot :: char where "quot \<equiv> CHR 0x22"

lemma load_id_stream:
  assumes "n \<noteq> []" "quot \<notin> set n" "NUL \<notin> set n" "length n < sizeof_szWord - 1"
  shows "load_id (stream (''id='' @ [quot] @ n @ quot # r)) = (Some n, stream r)"
proof -
  have "fgetword ([CHR ''='', CHR '' '', CHR 0x09, CHR 0x0A, CHR 0x0D]) (stream (CHR ''i'' # ''d'' @ CHR ''='' # quot # n @ quot # r))
      (sizeof_szWord - 1) = (''id'', stream (quot # n @ quot # r))"
    by (rule fgetword_stream) (simp_all add: is_newline_def sizeof_szWord_def)
  then show ?thesis using assms name_loop_stream [of quot n "sizeof_szWord - 1" r]
    by (simp add: load_id_def c_cut_id)
qed

text \<open>
  A document that is read back as it was written, but for the blank that is added to the first text of each
  section: \<open>apart\<close> says that no text follows a text.
\<close>

fun apart :: "code_element list \<Rightarrow> bool" where
  "apart (a # b # es) \<longleftrightarrow> \<not> (is_text a \<and> is_text b) \<and> apart (b # es)"
| "apart es = True"

definition tidy_text :: "bool \<Rightarrow> char list \<Rightarrow> bool" where
  "tidy_text st t \<longleftrightarrow> full_lines t \<and> no_marks st t"

definition good_id :: "char list \<Rightarrow> bool" where
  "good_id n \<longleftrightarrow> n \<noteq> [] \<and> quot \<notin> set n \<and> NUL \<notin> set n \<and> length n < sizeof_szWord - 1"

fun tidy :: "code_element \<Rightarrow> bool" where
  "tidy (TextElement t) \<longleftrightarrow> tidy_text True t"
| "tidy (CompoundElement ty (Some n) (TextElement t # es)) \<longleftrightarrow>
     (ty = ET_AUTO \<or> ty = ET_USER) \<and> good_id n \<and> tidy_text False t \<and> apart (TextElement t # es) \<and> (\<forall>e\<in>set es. tidy e)"
| "tidy _ = False"

fun spaced :: "code_element \<Rightarrow> code_element" where
  "spaced (CompoundElement ty nm (TextElement t # es)) = CompoundElement ty nm (TextElement (CHR '' '' # t) # map spaced es)"
| "spaced e = e"

lemma no_marks_start: "no_marks True t \<Longrightarrow> \<not> marked t"
  by (cases t) (auto simp: marked_def open_mark_def close_mark_def)

lemma load_text:
  assumes "tidy_text True t" "r = [] \<or> marked r"
  shows "load_loop es (stream (t @ r)) = load_loop (es @ [TextElement t]) (rest_of r)"
proof -
  have t: "full_lines t" "no_marks True t" using assms(1) by (simp_all add: tidy_text_def)
  then have nl: "\<exists>c\<in>set t. is_newline c" "EOF_char \<notin> set t" "NUL \<notin> set t" "t \<noteq> []" "is_newline (last t)"
    by (auto simp: full_lines_def)
  obtain w t2 where w: "t = w @ t2" "t2 \<noteq> []" "fgetnstr 5 (stream (t @ r)) = (w, stream (t2 @ r))"
    using fgetnstr_stream [OF nl(2,1)] by blast
  have "w \<noteq> open_mark" "w \<noteq> close_mark" using no_marks_start [OF t(2)] w(1) by (auto simp: marked_def open_mark_def close_mark_def)
  moreover have "fungetnstr w (stream (t2 @ r)) = stream (t @ r)" using fungetnstr_stream [of w "t2 @ r"] nl(2) w(1) by simp
  moreover have "text_loop [] [] False (stream (t @ r)) = (t, rest_of r)"
    using text_loop_reads [of "[]" t False r "[]"] nl no_marks_weaken [OF t(2)] assms(2) by simp
  ultimately show ?thesis using w(3) by (subst load_loop.simps) simp
qed

lemma saved_section:
  "ty = ET_AUTO \<or> ty = ET_USER \<Longrightarrow> saveToFile (CompoundElement ty (Some n) es) =
    open_mark @ (if ty = ET_AUTO then ''AutoGenCode'' else ''UserCode'') @ CHR '' '' # (''id='' @ [quot] @ n @ quot #
      CHR '' '' # concat (map saveToFile es) @ close_mark)"
  by (auto simp: open_mark_def)

lemma marked_section: "tidy e \<Longrightarrow> \<not> is_text e \<Longrightarrow> marked (saveToFile e @ r)"
  by (induction e rule: tidy.induct) (auto simp: is_text_def saved_section marked_def open_mark_def simp del: saveToFile.simps)

lemma load_close: "load_loop es (stream (close_mark @ r)) = Some (True, es, stream r)"
  using fgetnstr_mark [of close_mark r] by (subst load_loop.simps) simp

lemma tidy_type: "tidy (CompoundElement ty nm cs) \<Longrightarrow> ty = ET_AUTO \<or> ty = ET_USER"
  by (cases "CompoundElement ty nm cs" rule: tidy.cases) auto

lemma load_list:
  assumes "\<forall>e\<in>set es. tidy e" "apart es"
    and sec: "\<And>e acc r. e \<in> set es \<Longrightarrow> \<not> is_text e \<Longrightarrow>
      load_loop acc (stream (saveToFile e @ r)) = load_loop (acc @ [spaced e]) (stream r)"
    and r: "r = [] \<or> marked r" "r = [] \<longrightarrow> es = [] \<or> is_text (last es)"
  shows "load_loop acc (rest_of (concat (map saveToFile es) @ r)) = load_loop (acc @ map spaced es) (rest_of r)"
  using assms
proof (induction es arbitrary: acc)
  case (Cons e es)
  have IH: "load_loop acc (rest_of (concat (map saveToFile es) @ r)) = load_loop (acc @ map spaced es) (rest_of r)" for acc
  proof (rule Cons.IH)
    show "apart es" using Cons.prems(2) by (cases es) simp_all
    show "r = [] \<longrightarrow> es = [] \<or> is_text (last es)" using Cons.prems(5) by (auto split: if_splits)
  qed (use Cons.prems(1,3,4) in auto)
  define rest where "rest = concat (map saveToFile es) @ r"
  show ?case
  proof (cases e)
    case (TextElement t)
    have t: "tidy_text True t" "t \<noteq> []" using Cons.prems(1) TextElement by (auto simp: tidy_text_def full_lines_def)
    have "rest = [] \<or> marked rest"
    proof (cases es)
      case (Cons e2 es2)
      then have "\<not> is_text e2" "tidy e2" using Cons.prems(1,2) TextElement by (auto simp: is_text_def)
      then show ?thesis using marked_section [of e2] by (simp add: rest_def Cons)
    qed (use r in \<open>simp add: rest_def\<close>)
    from load_text [OF t(1) this] show ?thesis using IH TextElement t(2) by (simp add: rest_def)
  next
    case (CompoundElement ty nm cs)
    have e: "\<not> is_text e" using tidy_type [of ty nm cs] Cons.prems(1) by (auto simp: is_text_def CompoundElement)
    have "rest \<noteq> []"
    proof (cases "r = []")
      case True
      then obtain e2 es2 where es: "es = e2 # es2" "tidy e2" using Cons.prems(1,5) e by (cases es) (auto split: if_splits)
      then have "saveToFile e2 \<noteq> []" using marked_section [of e2 "[]"]
        by (cases e2) (auto simp: is_text_def tidy_text_def full_lines_def marked_def open_mark_def close_mark_def dest!: tidy_type)
      then show ?thesis by (simp add: rest_def es)
    qed (simp add: rest_def)
    then have "rest_of (saveToFile e @ rest) = stream (saveToFile e @ rest)" "rest_of rest = stream rest" by simp_all
    then have "load_loop acc (rest_of (saveToFile e @ rest)) = load_loop ((acc @ [spaced e]) @ map spaced es) (rest_of r)"
      using Cons.prems(3) [of e acc rest] e IH [of "acc @ [spaced e]"] unfolding rest_def [symmetric] by simp
    then show ?thesis by (simp add: rest_def)
  qed
qed simp

lemma load_section:
  "tidy e \<Longrightarrow> \<not> is_text e \<Longrightarrow> load_loop acc (stream (saveToFile e @ r)) = load_loop (acc @ [spaced e]) (stream r)"
proof (induction e arbitrary: acc r rule: tidy.induct)
  case (2 ty n t es)
  define word where "word = (if ty = ET_AUTO then ''AutoGenCode'' else ''UserCode'')"
  define kids where "kids = TextElement (CHR '' '' # t) # es"
  have ty: "ty = ET_AUTO \<or> ty = ET_USER" and n: "good_id n" and t: "tidy_text False t" and es: "\<forall>e\<in>set es. tidy e" "apart (TextElement t # es)"
    using 2(2) by auto
  obtain a w where aw: "word = a # w" by (cases word) (auto simp: word_def split: if_splits)
  have word: "\<forall>c\<in>set (a # w). c \<noteq> EOF_char \<and> \<not> is_newline c \<and> c \<notin> set default_spliter" "length (a # w) < sizeof_szWord - 1"
    unfolding aw [symmetric] by (auto simp: word_def is_newline_def default_spliter_def sizeof_szWord_def)
  then have a: "a \<noteq> CHR '' ''" "a \<noteq> CHR 0x09" by (auto simp: default_spliter_def)
  define body where "body = concat (map saveToFile kids) @ close_mark @ r"
  have saved: "saveToFile (CompoundElement ty (Some n) (TextElement t # es)) @ r = open_mark @ word @ CHR '' '' # (''id='' @ [quot] @ n @ quot # body)"
    using ty by (simp add: saved_section word_def kids_def body_def del: saveToFile.simps(2))
  have "fgetword default_spliter (stream (word @ CHR '' '' # (''id='' @ [quot] @ n @ quot # body))) (sizeof_szWord - 1) =
      (word, stream (''id='' @ [quot] @ n @ quot # body))"
    using fgetword_stream [OF word a, of "CHR '' ''" "''id='' @ [quot] @ n @ quot # body"]
    by (simp add: aw default_spliter_def is_newline_def)
  moreover have "load_id (stream (''id='' @ [quot] @ n @ quot # body)) = (Some n, stream body)"
    using n by (intro load_id_stream) (auto simp: good_id_def)
  moreover have "load_loop [] (stream body) = Some (True, map spaced kids, stream r)"
  proof -
    have "body \<noteq> []" by (simp add: body_def close_mark_def)
    have "load_loop [] (rest_of (concat (map saveToFile kids) @ close_mark @ r)) = load_loop ([] @ map spaced kids) (rest_of (close_mark @ r))"
    proof (rule load_list)
      have "tidy_text True (CHR '' '' # t)" using t
        by (auto simp: tidy_text_def full_lines_def is_newline_def marked_def open_mark_def close_mark_def)
      then show "\<forall>e\<in>set kids. tidy e" using es by (simp add: kids_def)
      show "apart kids" using es(2) by (cases es) (auto simp: kids_def is_text_def)
      show "load_loop acc (stream (saveToFile e @ r)) = load_loop (acc @ [spaced e]) (stream r)"
        if "e \<in> set kids" "\<not> is_text e" for e acc r
        using 2(1) that es by (auto simp: kids_def is_text_def)
    qed (simp_all add: marked_def close_mark_def)
    then show ?thesis using \<open>body \<noteq> []\<close> load_close [of "map spaced kids" r] by (simp add: body_def close_mark_def)
  qed
  moreover have "c_cut word = word" "word \<noteq> []" by (auto simp: word_def c_cut_def)
  ultimately show ?case using fgetnstr_mark [of open_mark] ty unfolding saved
    by (subst load_loop.simps) (auto simp: word_def open_mark_def close_mark_def kids_def)
qed (auto simp: is_text_def)

section \<open>What the component promises\<close>

lemma LoadFromFile_returns: "\<exists>r. LoadFromFile fs file = Some r"
proof (cases "fs file")
  case (Some content)
  obtain nm f where "load_id (stream content) = (nm, f)" by force
  then show ?thesis using Some load_loop_returns [of "[]" f] by (auto simp: LoadFromFile_def)
qed (simp add: LoadFromFile_def)

lemma combin_split:
  assumes "combin from_es es = Inr es'"
  obtains es1 where "combin_loop (case getChild (Some ET_AUTO) None from_es of None \<Rightarrow> [] | Some i \<Rightarrow> drop i from_es) es None = Inr es1"
    "es' = disable_missing from_es es1"
  using assms by (auto simp: combin_def rbind_eq_Inr)

lemma combin_fault: "combin from_es es = Inl x \<Longrightarrow> x = Null_Deref"
proof -
  have cl: "clone e = Inl x \<Longrightarrow> x = Null_Deref" "clone_all es = Inl x \<Longrightarrow> x = Null_Deref" for e es
    by (induction e and es rule: clone_clone_all.induct) (auto simp: rbind_eq_Inl split: if_splits)
  have "combin_loop new es elast = Inl x \<Longrightarrow> x = Null_Deref" for new es elast
    by (induction new arbitrary: es elast)
      (auto simp: rbind_eq_Inl Let_def case_prod_beta dest: cl(1) split: if_splits option.splits)
  then show "combin from_es es = Inl x \<Longrightarrow> x = Null_Deref" by (auto simp: combin_def rbind_eq_Inl)
qed

text \<open>A copy fails only at a compound without children, so a merge does only when such a section is new.\<close>

fun full_element :: "code_element \<Rightarrow> bool" where
  "full_element (TextElement t) = True"
| "full_element (CompoundElement ty nm es) \<longleftrightarrow> es \<noteq> [] \<and> (\<forall>e\<in>set es. full_element e)"

lemma clone_full:
  shows "full_element e \<Longrightarrow> clone e = Inr e" and "\<forall>e\<in>set es. full_element e \<Longrightarrow> clone_all es = Inr es"
  by (induction e and es rule: clone_clone_all.induct) auto

lemma combin_full: "\<forall>e\<in>set from_es. full_element e \<Longrightarrow> is_ok (combin from_es es)"
proof -
  assume full: "\<forall>e\<in>set from_es. full_element e"
  have "\<forall>e\<in>set new. full_element e \<Longrightarrow> is_ok (combin_loop new es elast)" for new es elast
    by (induction new arbitrary: es elast) (auto simp: clone_full(1) Let_def split: option.splits prod.splits)
  moreover have "\<forall>e\<in>set (case getChild (Some ET_AUTO) None from_es of None \<Rightarrow> [] | Some i \<Rightarrow> drop i from_es). full_element e"
    using full by (auto split: option.splits dest: in_set_dropD)
  ultimately have "is_ok (combin_loop (case getChild (Some ET_AUTO) None from_es of None \<Rightarrow> [] | Some i \<Rightarrow> drop i from_es) es None)"
    by blast
  then show ?thesis by (auto simp: combin_def elim: is_okE)
qed

text \<open>
  Files that do not survive: the blank after the first word is dropped, a last line of five or more characters without an end gets the
  character 255, a disabled section is wrapped once more each time, and a new section without a text ends
  in a \<open>NULL\<close>.
\<close>

lemma first_blank_lost:
  "LoadFromFile ((\<lambda>_. None)(''f'' \<mapsto> ''int main;'' @ [CHR 0x0A])) ''f'' =
    Some (Some (CompoundElement ET_DOC None [TextElement (''intmain;'' @ [CHR 0x0A])]))"
  by code_simp

lemma last_line_gets_255:
  "LoadFromFile ((\<lambda>_. None)(''f'' \<mapsto> [CHR 0x0A] @ ''x = 5;'')) ''f'' =
    Some (Some (CompoundElement ET_DOC None [TextElement ([CHR 0x0A] @ ''x = 5;'' @ [CHR 0xFF])]))"
  by code_simp

lemma disabled_twice:
  "disableCode (disableCode (CompoundElement ET_AUTO (Some n) [TextElement t])) =
    CompoundElement ET_AUTO (Some n) [TextElement (if_0 @ if_0 @ t @ end_if @ end_if)]"
  by (simp add: disable_texts_def insertText_def Let_def)

lemma new_section_without_text:
  "combin [CompoundElement ET_AUTO (Some n) []] [] = Inl Null_Deref"
  by (simp add: combin_def named_auto_def is_child_def)

text \<open>
  C16: Merging newly generated code into a file keeps the user's code: every child that is not a
  named generated section is still there, unchanged and in its order, and every named section is
  still there, in order, with all of its parts that are not text.
\<close>

theorem combin_keeps_user_code:
  assumes "combin from_es es = Inr es'"
  shows "filter (\<lambda>e. \<not> named_auto e) es' = filter (\<lambda>e. \<not> named_auto e) es \<and>
    subseq (map user_code es) (map user_code es')"
proof -
  obtain new es1 where "combin_loop new es None = Inr es1" "es' = disable_missing from_es es1"
    using combin_split [OF assms] by metis
  then have "keeps es es'" using combin_loop_keeps disable_missing_keeps keeps_trans by metis
  then show ?thesis by (simp add: keeps_def others_def)
qed

section \<open>What a merged section holds\<close>

text \<open>
  A section with the texts of a new one: its \<open>k\<close>-th text is the \<open>k\<close>-th text of the new section when there is one that
  is not empty; every other part, and the texts the new section has no more for, stay.
\<close>

definition texts_replaced :: "code_element \<Rightarrow> code_element \<Rightarrow> code_element \<Rightarrow> bool" where
  "texts_replaced old new e \<longleftrightarrow>
     (let cs = element_children old; ts = [t. TextElement t \<leftarrow> element_children new] in
        getType e = getType old \<and> getName e = getName old \<and> length (element_children e) = length cs
        \<and> (\<forall>i < length cs. element_children e ! i =
             (case cs ! i of
                TextElement t \<Rightarrow> (let k = length [t. TextElement t \<leftarrow> take i cs] in
                  TextElement (if k < length ts \<and> ts ! k \<noteq> [] then ts ! k else t))
              | c \<Rightarrow> c)))"

text \<open>A section that is switched off for the preprocessor: the same parts, what is written of them between two lines.\<close>

definition wrapped_off :: "code_element \<Rightarrow> code_element \<Rightarrow> bool" where
  "wrapped_off old e \<longleftrightarrow> getType e = getType old \<and> getName e = getName old
     \<and> filter (\<lambda>c. \<not> is_text c) (element_children e) = filter (\<lambda>c. \<not> is_text c) (element_children old)
     \<and> concat (map saveToFile (element_children e)) =
         CHR 0x0A # ''#if 0 //'' @ concat (map saveToFile (element_children old)) @ CHR 0x0A # ''#endif'' @ [CHR 0x0A]"

lemma texts_of_eq: "texts_of es = [t. TextElement t \<leftarrow> es]"
  by (induction es rule: texts_of.induct) simp_all

lemma replace_texts_nth:
  "length (replace_texts es ts) = length es \<and> (\<forall>i < length es. replace_texts es ts ! i =
     (case es ! i of
        TextElement t \<Rightarrow> (let k = length [t. TextElement t \<leftarrow> take i es] in
          TextElement (if k < length ts \<and> ts ! k \<noteq> [] then ts ! k else t))
      | c \<Rightarrow> c))"
proof (induction es ts rule: replace_texts.induct)
  case (3 t es s ts)
  then show ?case by (auto simp: nth_Cons' take_Cons' setText_def Let_def split: code_element.split)
next
  case (4 ty nm cs es s ts)
  then show ?case by (auto simp: nth_Cons' take_Cons' Let_def split: code_element.split)
qed (auto simp: Let_def split: code_element.split)

lemma texts_replaced_replaceAutoGenPart:
  "named_auto e0 \<Longrightarrow> getName e = getName e0 \<Longrightarrow> texts_replaced e0 e (replaceAutoGenPart e0 e)"
  using replace_texts_nth by (cases e0) (simp_all add: texts_replaced_def texts_of_eq named_auto_def Let_def)

lemma wrapped_off_disableCode: "named_auto e \<Longrightarrow> wrapped_off e (disableCode e)"
proof (cases e)
  case (CompoundElement ty nm es)
  define fs where "fs = (case es of TextElement t # cs \<Rightarrow> TextElement (insertText t if_0 0) # cs | _ \<Rightarrow> TextElement if_0 # es)"
  have "fs \<noteq> []" "concat (map saveToFile fs) = if_0 @ concat (map saveToFile es)"
    by (auto simp: fs_def insertText_def split: list.splits code_element.splits)
  then have "concat (map saveToFile (disable_texts es)) = if_0 @ concat (map saveToFile es) @ end_if"
    by (cases fs rule: rev_cases)
      (auto simp: disable_texts_def Let_def insertText_def simp flip: fs_def split: code_element.splits)
  then show ?thesis
    using CompoundElement disable_texts_keeps by (simp add: wrapped_off_def if_0_def end_if_def)
qed (simp add: named_auto_def)

lemma code_section_named: "code_section nm es = Some e \<Longrightarrow> named_auto e \<and> getName e = Some nm"
  by (auto simp: code_section_def find_Some_iff)

text \<open>
  C17: After a merge into a file each named section of generated code is what it should be. When
  both files have it, each of its texts is the text of the same number of the new section, as far as
  that has one that is not empty, and everything else in it stays. When only the new file has it, it
  is a copy. When only the old file has it, it has the same parts, and what is saved of them stands
  between an #if 0 and an #endif. The names of the sections of the new file are taken to be
  distinct.
\<close>

theorem combin_sections:
  assumes "combin from_es es = Inr es'" "distinct (section_names from_es)"
  shows "case (code_section nm from_es, code_section nm es) of
       (Some e, Some e0) \<Rightarrow> \<exists>e'. code_section nm es' = Some e' \<and> texts_replaced e0 e e'
     | (Some e, None) \<Rightarrow> code_section nm es' = Some e
     | (None, Some e0) \<Rightarrow> \<exists>e'. code_section nm es' = Some e' \<and> wrapped_off e0 e'
     | (None, None) \<Rightarrow> code_section nm es' = None"
proof -
  define new where "new = (case getChild (Some ET_AUTO) None from_es of None \<Rightarrow> [] | Some i \<Rightarrow> drop i from_es)"
  obtain es1 where es1: "combin_loop new es None = Inr es1" "es' = disable_missing from_es es1"
    using combin_split [OF assms(1)] by (auto simp: new_def)
  have sec: "code_section nm new = code_section nm from_es" unfolding new_def by (rule code_section_from)
  have "distinct (section_names new)"
    using section_names_drop [OF assms(2)] by (simp add: new_def section_names_def [of "[]"] split: option.splits)
  note found = combin_loop_sections [OF es1(1) this, of nm, unfolded sec]
  show ?thesis
    using found code_section_named [of nm es] code_section_named [of nm from_es]
      texts_replaced_replaceAutoGenPart wrapped_off_disableCode
    unfolding es1(2) code_section_disable by (fastforce split: option.splits)
qed

text \<open>
  C18: A document of texts of full lines, starting with an empty line, and of named sections is read
  back from the file it is saved to as it was, but for one blank before the first text of every
  section.
\<close>

theorem load_saved_document:
  assumes "\<forall>e\<in>set es. tidy e" "apart es" "is_text (last es)"
    and "es = TextElement (c # t) # es'" "is_newline c"
  shows "LoadFromFile (fs(file \<mapsto> saveToFile (CompoundElement ET_DOC None es))) file =
    Some (Some (CompoundElement ET_DOC None (map spaced es)))"
proof -
  define s where "s = concat (map saveToFile es)"
  have s: "s = c # t @ concat (map saveToFile es')" using assms(4) by (simp add: s_def)
  have "c \<noteq> EOF_char" "c \<noteq> CHR '' ''" "c \<noteq> CHR 0x09" using assms(5) by (auto simp: is_newline_def)
  then have "load_id (stream s) = (None, stream s)" using assms(5)
    by (simp add: s load_id_def fgetword_def ungetc_def sizeof_szWord_def numeral_eq_Suc c_cut_def fungetnstr_def)
  moreover have "load_loop [] (rest_of (s @ [])) = load_loop ([] @ map spaced es) (rest_of [])"
    unfolding s_def by (rule load_list) (use assms load_section in \<open>auto simp: is_text_def\<close>)
  then have "load_loop [] (stream s) = Some (True, map spaced es, rest_of [])"
    using load_loop.simps [of "map spaced es" "rest_of []"] by (simp add: s)
  ultimately show ?thesis by (simp add: LoadFromFile_def s_def)
qed

text \<open>
  C34: CodeCombinFiles ends for any two files that are missing or can be read to their end: it
  changes nothing and returns 0, or writes the target only and returns 1, or stops at a NULL
  pointer. It never ends when one of them can be opened and not read, as a directory can.
\<close>

theorem CodeCombinFiles_returns:
  "(fileFrom = None \<or> fileTo = None \<longrightarrow> CodeCombinFiles bad wr fs fileFrom fileTo = Some (Inr (0, fs)))
   \<and> (fileFrom = Some a \<and> fileTo = Some b \<and> \<not> bad a \<and> \<not> bad b \<longrightarrow>
        (\<exists>r. CodeCombinFiles bad wr fs fileFrom fileTo = Some r
           \<and> (case r of Inl e \<Rightarrow> e = Null_Deref
              | Inr (ret, fs') \<Rightarrow> ret = 0 \<and> fs' = fs \<or> (\<exists>s. ret = 1 \<and> fs' = fs(b \<mapsto> s)))))
   \<and> (fileFrom = Some a \<and> fileTo = Some b \<and> (bad a \<and> fs a = Some [] \<or> bad b \<and> fs b = Some [])
        \<longrightarrow> CodeCombinFiles bad wr fs fileFrom fileTo = None)"
proof (intro conjI impI, goal_cases)
  case 1
  then show ?case by (auto simp: CodeCombinFiles_def split: option.splits)
next
  case 2
  obtain x y where "LoadFromFile fs a = Some x" "LoadFromFile fs b = Some y" using LoadFromFile_returns by metis
  moreover have "e = Null_Deref" if "combin_docs ce y = Inl e" for ce e
    using that by (auto simp: combin_docs_def rbind_eq_Inl dest: combin_fault split: option.splits)
  ultimately show ?case using 2
    by (auto simp: CodeCombinFiles_def rbind_def LoadFromFile_io_good split: option.splits sum.splits)
next
  case 3
  then show ?case
    using LoadFromFile_io_endless [of bad a fs] LoadFromFile_io_endless [of bad b fs]
    by (cases "LoadFromFile_io bad fs a") (auto simp: CodeCombinFiles_def)
qed

text \<open>
  C33: Loading gives well-formed documents (a document only as the root, compounds with short names,
  texts and names without NUL) and merging two of them gives one again.
\<close>

theorem merged_documents_well_formed:
  assumes "LoadFromFile fs fileFrom = Some (Some ceFrom)" "LoadFromFile fs fileTo = Some ceTo"
    "combin_docs ceFrom ceTo = Inr ce"
  shows "wf_element ce \<and> getType ce = ET_DOC"
proof -
  have load: "wf_element e \<and> getType e = ET_DOC" if "LoadFromFile fs nm = Some (Some e)" for nm e
    using that load_loop_wf [of "[]"] load_id_name
    by (auto simp: LoadFromFile_def wf_name_def bind_eq_Some_conv split: option.splits prod.splits if_splits)
  show ?thesis
  proof (cases ceTo)
    case (Some e0)
    have "wf_element e0" "wf_element ceFrom" "getType e0 = ET_DOC" using load assms Some by auto
    then show ?thesis using assms(3) Some wf_combin
      by (cases e0; cases ceFrom) (auto simp: combin_docs_def rbind_eq_Inr)
  qed (use assms load in \<open>auto simp: combin_docs_def\<close>)
qed

text \<open>
  A file that begins with the mark of a named generated section cannot be loaded, because the search
  for an id drops the blank after the first word; merging then overwrites all of it with the
  generated file.
\<close>

theorem file_starting_with_section_replaced:
  assumes "fs fileTo = Some (''//<[[AutoGenCode id='' @ rest)" "LoadFromFile fs fileFrom = Some (Some ce)" "wr fileTo" "\<not> bad fileFrom" "\<not> bad fileTo"
  shows "CodeCombinFiles bad wr fs (Some fileFrom) (Some fileTo) = Some (Inr (1, fs(fileTo \<mapsto> saveToFile ce)))"
proof -
  have "fgetword ([CHR ''='', CHR '' '', CHR 0x09, CHR 0x0A, CHR 0x0D]) (stream (CHR ''/'' # ''/<[[AutoGenCode'' @ CHR '' '' # ''id='' @ rest))
      (sizeof_szWord - 1) = (''//<[[AutoGenCode'', stream (''id='' @ rest))"
    by (rule fgetword_stream) (simp_all add: is_newline_def sizeof_szWord_def)
  then have id: "load_id (stream (''//<[[AutoGenCode id='' @ rest)) = (None, stream (''//<[[AutoGenCodeid='' @ rest))"
    using fungetnstr_stream [of "''//<[[AutoGenCode''"] by (simp add: load_id_def c_cut_def)
  obtain v f where v: "fgetword default_spliter (stream (''AutoGenCodeid='' @ rest)) (sizeof_szWord - 1) = (''AutoGenCodeid'' @ v, f)"
    using word_loop_prefix [of "''AutoGenCodeid''" default_spliter "sizeof_szWord - 1" "CHR ''='' # rest"]
    by (auto simp: fgetword_def ungetc_def is_newline_def default_spliter_def sizeof_szWord_def)
  have "load_loop [] (stream (''//<[[AutoGenCodeid='' @ rest)) = Some (False, [], f)"
    using v fgetnstr_mark [of open_mark "''AutoGenCodeid='' @ rest"]
    by (subst load_loop.simps) (simp add: open_mark_def close_mark_def c_cut_def)
  then have "LoadFromFile fs fileTo = Some None" using assms(1) id by (simp add: LoadFromFile_def)
  then show ?thesis using assms(2-5) by (simp add: CodeCombinFiles_def combin_docs_def LoadFromFile_io_good)
qed

lemma combin_keeps_user_code_witness:
  "\<exists>es'. combin [CompoundElement ET_AUTO (Some ''a'') [TextElement ''new'']]
      [TextElement ''mine'', CompoundElement ET_AUTO (Some ''a'') [TextElement ''old'', CompoundElement ET_USER None [TextElement ''keep'']]] = Inr es' \<and>
    filter (\<lambda>e. \<not> named_auto e) es' = [TextElement ''mine''] \<and>
    subseq [TextElement ''mine'', CompoundElement ET_AUTO (Some ''a'') [CompoundElement ET_USER None [TextElement ''keep'']]] (map user_code es')"
proof -
  have c: "combin [CompoundElement ET_AUTO (Some ''a'') [TextElement ''new'']]
      [TextElement ''mine'', CompoundElement ET_AUTO (Some ''a'') [TextElement ''old'', CompoundElement ET_USER None [TextElement ''keep'']]] =
    Inr [TextElement ''mine'', CompoundElement ET_AUTO (Some ''a'') [TextElement ''new'', CompoundElement ET_USER None [TextElement ''keep'']]]"
    by code_simp
  show ?thesis using combin_keeps_user_code [OF c] c by (simp add: named_auto_def user_code_def is_text_def)
qed

lemma combin_sections_witness:
  "\<exists>es' e'. combin [CompoundElement ET_AUTO (Some ''a'') [TextElement ''new'']]
      [CompoundElement ET_AUTO (Some ''a'') [TextElement ''old'', CompoundElement ET_USER None [], TextElement ''more''],
       CompoundElement ET_AUTO (Some ''b'') [TextElement ''gone'']] = Inr es' \<and>
    code_section ''a'' es' = Some e' \<and> element_children e' ! 0 = TextElement ''new'' \<and> element_children e' ! 2 = TextElement ''more''"
proof -
  let ?old = "CompoundElement ET_AUTO (Some ''a'') [TextElement ''old'', CompoundElement ET_USER None [], TextElement ''more'']"
  have d: "distinct (section_names [CompoundElement ET_AUTO (Some ''a'') [TextElement ''new'']])"
    by (simp add: section_names_def)
  obtain es' where c: "combin [CompoundElement ET_AUTO (Some ''a'') [TextElement ''new'']]
      [?old, CompoundElement ET_AUTO (Some ''b'') [TextElement ''gone'']] = Inr es'"
    using combin_full [of "[CompoundElement ET_AUTO (Some ''a'') [TextElement ''new'']]"] by (auto elim: is_okE)
  obtain e' where e': "code_section ''a'' es' = Some e'"
      "texts_replaced ?old (CompoundElement ET_AUTO (Some ''a'') [TextElement ''new'']) e'"
    using combin_sections [OF c d, of "''a''"] by (auto simp: named_auto_def)
  have "element_children e' ! 0 = TextElement ''new''" "element_children e' ! 2 = TextElement ''more''"
    using e'(2) by (simp_all add: texts_replaced_def is_text_def Let_def)
  then show ?thesis using c e'(1) by blast
qed

lemma CodeCombinFiles_returns_witness:
  "CodeCombinFiles (\<lambda>f. f = ''d'') (\<lambda>_. True) ((\<lambda>_. None)(''d'' \<mapsto> [], ''f'' \<mapsto> [])) (Some ''f'') (Some ''d'') = None
    \<and> (\<exists>r. CodeCombinFiles (\<lambda>f. f = ''d'') (\<lambda>_. True) ((\<lambda>_. None)(''d'' \<mapsto> [], ''f'' \<mapsto> [])) (Some ''f'') (Some ''g'') = Some r)
    \<and> CodeCombinFiles (\<lambda>_. False) (\<lambda>_. True) (\<lambda>_. None) None None = Some (Inr (0, \<lambda>_. None))"
  using CodeCombinFiles_returns [of None None "\<lambda>_. False" "\<lambda>_. True" "\<lambda>_. None" "''f''" "''g''"]
    CodeCombinFiles_returns [of "Some ''f''" "Some ''g''" "\<lambda>f. f = ''d''" "\<lambda>_. True" "(\<lambda>_. None)(''d'' \<mapsto> [], ''f'' \<mapsto> [])" "''f''" "''g''"]
    CodeCombinFiles_returns [of "Some ''f''" "Some ''d''" "\<lambda>f. f = ''d''" "\<lambda>_. True" "(\<lambda>_. None)(''d'' \<mapsto> [], ''f'' \<mapsto> [])" "''f''" "''d''"]
  by (simp add: list_eq_iff_nth_eq) blast

lemma load_saved_document_witness:
  "LoadFromFile ((\<lambda>_. None)(''f'' \<mapsto> saveToFile (CompoundElement ET_DOC None
      [TextElement [CHR 0x0A], CompoundElement ET_AUTO (Some ''a'') [TextElement [CHR ''x'', CHR 0x0A]], TextElement [CHR 0x0A]]))) ''f'' =
    Some (Some (CompoundElement ET_DOC None
      [TextElement [CHR 0x0A], CompoundElement ET_AUTO (Some ''a'') [TextElement [CHR '' '', CHR ''x'', CHR 0x0A]], TextElement [CHR 0x0A]]))"
  using load_saved_document [of "[TextElement [CHR 0x0A], CompoundElement ET_AUTO (Some ''a'') [TextElement [CHR ''x'', CHR 0x0A]], TextElement [CHR 0x0A]]"
      "CHR 0x0A" "[]" "[CompoundElement ET_AUTO (Some ''a'') [TextElement [CHR ''x'', CHR 0x0A]], TextElement [CHR 0x0A]]" "\<lambda>_. None" "''f''"]
  by (simp add: tidy_text_def full_lines_def is_newline_def marked_def open_mark_def close_mark_def good_id_def sizeof_szWord_def is_text_def)

lemma merged_documents_well_formed_witness:
  "\<exists>ce. combin_docs (CompoundElement ET_DOC None [TextElement [CHR 0x0A]]) (Some (CompoundElement ET_DOC None [TextElement [CHR 0x0A]])) = Inr ce \<and>
    wf_element ce \<and> getType ce = ET_DOC"
proof -
  define fs :: files where "fs = (\<lambda>_. None)(''f'' \<mapsto> [CHR 0x0A])"
  have f: "LoadFromFile fs ''f'' = Some (Some (CompoundElement ET_DOC None [TextElement [CHR 0x0A]]))"
    unfolding fs_def by code_simp
  have c: "combin_docs (CompoundElement ET_DOC None [TextElement [CHR 0x0A]]) (Some (CompoundElement ET_DOC None [TextElement [CHR 0x0A]])) =
      Inr (CompoundElement ET_DOC None [TextElement [CHR 0x0A]])"
    by code_simp
  show ?thesis using merged_documents_well_formed [OF f f c] c by blast
qed

lemma file_starting_with_section_replaced_witness:
  "\<exists>fs. CodeCombinFiles (\<lambda>_. False) (\<lambda>_. True) fs (Some ''a'') (Some ''b'') = Some (Inr (1, fs(''b'' \<mapsto> [CHR 0x0A])))"
proof -
  define fs :: files where "fs = (\<lambda>_. None)(''a'' \<mapsto> [CHR 0x0A], ''b'' \<mapsto> ''//<[[AutoGenCode id='' @ ''mine'')"
  have b: "fs ''b'' = Some (''//<[[AutoGenCode id='' @ ''mine'')" by (simp add: fs_def)
  have a: "LoadFromFile fs ''a'' = Some (Some (CompoundElement ET_DOC None [TextElement [CHR 0x0A]]))"
    unfolding fs_def by code_simp
  show ?thesis using file_starting_with_section_replaced [OF b a, of "\<lambda>_. True" "\<lambda>_. False"] by auto
qed

end
