(* ===== verification/Streams.thy ===== *)
theory Streams
  imports Res_Package
begin

text \<open>
  The streams the editors write with (\<open>include/stream.h\<close>, \<open>common/stream.cpp\<close>): a file as the storage, text with
  indentation, numbers in the byte order of the target, and the entities of XML. A file is its content and a
  position; a write to an open file succeeds. What a format of \<open>printf\<close> gives is an argument.
\<close>

section \<open>File storage\<close>

record file_storage =
  fs_file :: "(char list \<times> nat) option"

datatype seek_from = seek_begin | seek_end | seek_cur

text \<open>Bytes behind the end that are skipped are zero.\<close>

definition overwrite :: "char list \<Rightarrow> nat \<Rightarrow> char list \<Rightarrow> char list" where
  "overwrite b p d = take p (b @ replicate (p - length b) NUL) @ d @ drop (p + length d) b"

definition FileStreamStorage :: "bool \<Rightarrow> file_storage" where
  "FileStreamStorage is_open = \<lparr>fs_file = (if is_open then Some ([], 0) else None)\<rparr>"

definition fss_write :: "char list \<Rightarrow> file_storage \<Rightarrow> file_storage" where
  "fss_write d s =
     (if d = [] then s
      else case fs_file s of
        None \<Rightarrow> s
      | Some (b, p) \<Rightarrow> s\<lparr>fs_file := Some (overwrite b p d, p + length d)\<rparr>)"

definition fss_seek :: "int \<Rightarrow> seek_from \<Rightarrow> file_storage \<Rightarrow> int \<times> file_storage" where
  "fss_seek offset where' s =
     (case fs_file s of
        None \<Rightarrow> (-1, s)
      | Some (b, p) \<Rightarrow>
          let q = (case where' of seek_begin \<Rightarrow> 0 | seek_end \<Rightarrow> int (length b) | seek_cur \<Rightarrow> int p) + offset in
          if q < 0 then (-1, s) else (0, s\<lparr>fs_file := Some (b, nat q)\<rparr>))"

definition fss_tell :: "file_storage \<Rightarrow> int" where
  "fss_tell s = (case fs_file s of None \<Rightarrow> -1 | Some (b, p) \<Rightarrow> int p)"

definition fss_ready :: "file_storage \<Rightarrow> bool" where "fss_ready s \<longleftrightarrow> fs_file s \<noteq> None"

definition fss_close :: "file_storage \<Rightarrow> file_storage" where "fss_close s = s\<lparr>fs_file := None\<rparr>"

text \<open>A stream has a pointer to its storage.\<close>

definition stream_seek :: "int \<Rightarrow> seek_from \<Rightarrow> file_storage option \<Rightarrow> int \<times> file_storage option" where
  "stream_seek offset where' st =
     (case st of None \<Rightarrow> (-1, None) | Some s \<Rightarrow> (let (r, s) = fss_seek offset where' s in (r, Some s)))"

definition stream_tell :: "file_storage option \<Rightarrow> int" where
  "stream_tell st = (case st of None \<Rightarrow> -1 | Some s \<Rightarrow> fss_tell s)"

section \<open>Text\<close>

text \<open>\<open>prefix\<close> is the string in a buffer of 64 bytes.\<close>

record text_stream =
  ts_storage :: "file_storage option"
  ts_prefix :: "char list"
  bNewLine :: bool

definition sizeof_prefix :: nat where "sizeof_prefix = 64"

definition TextStream :: "file_storage option \<Rightarrow> text_stream" where
  "TextStream st = \<lparr>ts_storage = st, ts_prefix = [], bNewLine = True\<rparr>"

definition indent :: "text_stream \<Rightarrow> text_stream res" where
  "indent t = (if length (ts_prefix t) + 2 \<le> sizeof_prefix
     then Inr (t\<lparr>ts_prefix := ts_prefix t @ [CHR 0x09]\<rparr>) else Inl Out_Of_Bounds)"

definition unindent :: "text_stream \<Rightarrow> text_stream" where
  "unindent t = t\<lparr>ts_prefix := butlast (ts_prefix t)\<rparr>"

definition line_end :: "char \<Rightarrow> bool" where "line_end c \<longleftrightarrow> c = CHR 0x0D \<or> c = CHR 0x0A"

text \<open>\<open>run\<close> is the text from \<open>begin\<close> to the current character.\<close>

fun vprintf_loop :: "char list \<Rightarrow> char list \<Rightarrow> bool \<Rightarrow> char list \<Rightarrow> file_storage \<Rightarrow> bool \<times> file_storage" where
  "vprintf_loop pre run nl [] s = (nl, if run \<noteq> [] then fss_write run s else s)"
| "vprintf_loop pre run nl (c # cs) s =
     (if line_end c then vprintf_loop pre [] True cs (fss_write (run @ [c]) s)
      else if nl then vprintf_loop pre (run @ [c]) False cs (fss_write pre s)
      else vprintf_loop pre (run @ [c]) nl cs s)"

text \<open>\<open>strp\<close> is the formatted text, up to a \<open>NUL\<close> in it; there is none when the memory for it cannot be had.\<close>

definition vprintf :: "cenv \<Rightarrow> char list option \<Rightarrow> text_stream \<Rightarrow> text_stream" where
  "vprintf E strp t =
     (case (ts_storage t, strp) of
        (Some s, Some txt) \<Rightarrow>
          let s = (if bNewLine t then fss_write (ts_prefix t) s else s) in
          if \<not> mem E (int (length txt) + 1) then t\<lparr>ts_storage := Some s, bNewLine := False\<rparr>
          else let (nl, s) = vprintf_loop (ts_prefix t) [] False (takeWhile (\<lambda>c. c \<noteq> NUL) txt) s in
            t\<lparr>ts_storage := Some s, bNewLine := nl\<rparr>
      | _ \<Rightarrow> t)"

definition ts_printf :: "cenv \<Rightarrow> char list option \<Rightarrow> text_stream \<Rightarrow> text_stream" where
  "ts_printf E strp t = vprintf E strp t"

definition ts_println :: "cenv \<Rightarrow> char list option \<Rightarrow> text_stream \<Rightarrow> text_stream" where
  "ts_println E strp t =
     (let t = vprintf E strp t in
      case ts_storage t of
        None \<Rightarrow> t
      | Some s \<Rightarrow> t\<lparr>ts_storage := Some (fss_write [CHR 0x0A] s), bNewLine := True\<rparr>)"

section \<open>Numbers\<close>

datatype endian = LITTLE_ENDIAN | BIG_ENDIAN

text \<open>The bytes of a number in the memory of a machine.\<close>

definition le16 :: "16 word \<Rightarrow> char list" where
  "le16 w = [char_of (uint w), char_of (uint w div 256)]"

definition mem16 :: "endian \<Rightarrow> 16 word \<Rightarrow> char list" where
  "mem16 sys w = (case sys of LITTLE_ENDIAN \<Rightarrow> le16 w | BIG_ENDIAN \<Rightarrow> rev (le16 w))"

definition mem32 :: "endian \<Rightarrow> 32 word \<Rightarrow> char list" where
  "mem32 sys w = (case sys of LITTLE_ENDIAN \<Rightarrow> le32 w | BIG_ENDIAN \<Rightarrow> rev (le32 w))"

unbundle bit_operations_syntax

definition switch_uint16 :: "16 word \<Rightarrow> 16 word" where
  "switch_uint16 u = push_bit 8 (u AND 0xFF) OR drop_bit 8 u"

definition switch_uint32 :: "32 word \<Rightarrow> 32 word" where
  "switch_uint32 u = push_bit 24 (u AND 0xFF) OR push_bit 8 (u AND 0xFF00) OR drop_bit 8 (u AND 0xFF0000)
     OR drop_bit 24 (u AND 0xFF000000)"

definition getSysEndian :: "endian \<Rightarrow> endian" where
  "getSysEndian sys = (if hd (mem32 sys 0x12345678) = CHR 0x78 then LITTLE_ENDIAN else BIG_ENDIAN)"

text \<open>\<open>bs_sys\<close> is the machine the program runs on.\<close>

record bin_stream =
  bs_storage :: "file_storage option"
  bs_sys :: endian
  to16 :: "16 word \<Rightarrow> 16 word"
  to32 :: "32 word \<Rightarrow> 32 word"

definition BinStream :: "endian \<Rightarrow> file_storage option \<Rightarrow> endian \<Rightarrow> bin_stream" where
  "BinStream sys st endian =
     (if endian = getSysEndian sys then \<lparr>bs_storage = st, bs_sys = sys, to16 = (\<lambda>u. u), to32 = (\<lambda>u. u)\<rparr>
      else \<lparr>bs_storage = st, bs_sys = sys, to16 = switch_uint16, to32 = switch_uint32\<rparr>)"

definition bs_write :: "char list \<Rightarrow> bin_stream \<Rightarrow> bin_stream" where
  "bs_write d b = b\<lparr>bs_storage := map_option (fss_write d) (bs_storage b)\<rparr>"

definition save8 :: "8 word \<Rightarrow> bin_stream \<Rightarrow> bin_stream" where
  "save8 u b = bs_write [char_of (uint u)] b"

definition save16 :: "16 word \<Rightarrow> bin_stream \<Rightarrow> bin_stream" where
  "save16 u b = bs_write (mem16 (bs_sys b) (to16 b u)) b"

definition save32 :: "32 word \<Rightarrow> bin_stream \<Rightarrow> bin_stream" where
  "save32 u b = bs_write (mem32 (bs_sys b) (to32 b u)) b"

definition save8Arr :: "char list option \<Rightarrow> bin_stream \<Rightarrow> bin_stream" where
  "save8Arr u8s b = (case u8s of None \<Rightarrow> b | Some d \<Rightarrow> bs_write d b)"

definition save16Arr :: "16 word list option \<Rightarrow> bin_stream \<Rightarrow> bin_stream" where
  "save16Arr u16s b = (case u16s of None \<Rightarrow> b | Some us \<Rightarrow> fold save16 us b)"

definition save32Arr :: "32 word list option \<Rightarrow> bin_stream \<Rightarrow> bin_stream" where
  "save32Arr u32s b = (case u32s of None \<Rightarrow> b | Some us \<Rightarrow> fold save32 us b)"

definition bs_seek :: "int \<Rightarrow> seek_from \<Rightarrow> bin_stream \<Rightarrow> bin_stream" where
  "bs_seek offset where' b = b\<lparr>bs_storage := snd (stream_seek offset where' (bs_storage b))\<rparr>"

definition bs_tell :: "bin_stream \<Rightarrow> int" where
  "bs_tell b = stream_tell (bs_storage b)"

section \<open>Entities\<close>

definition entity_of :: "char \<Rightarrow> char list option" where
  "entity_of c =
     (if c = CHR ''&'' then Some ''&amp;''
      else if c = CHR 0x27 then Some ''&apos;''
      else if c = CHR 0x22 then Some ''&quot;''
      else if c = CHR ''<'' then Some ''&lt;''
      else if c = CHR ''>'' then Some ''&gt;''
      else None)"

definition sizeof_buff :: nat where "sizeof_buff = 1024"

text \<open>\<open>buff\<close> is what lies before \<open>idx\<close>. An entity is copied with its \<open>NUL\<close>.\<close>

definition SET_ENTITY_REFERENCE :: "char list \<Rightarrow> char list \<Rightarrow> char list res" where
  "SET_ENTITY_REFERENCE er buff =
     (if length buff + length er + 1 \<le> sizeof_buff then Inr (buff @ er) else Inl Out_Of_Bounds)"

definition set_char :: "char \<Rightarrow> char list \<Rightarrow> char list res" where
  "set_char c buff = (if length buff < sizeof_buff then Inr (buff @ [c]) else Inl Out_Of_Bounds)"

fun entity_loop :: "char list \<Rightarrow> char list \<Rightarrow> char list \<Rightarrow> char list res" where
  "entity_loop buff xstr [] = rbind (set_char NUL buff) (\<lambda>_. Inr (xstr @ buff))"
| "entity_loop buff xstr (c # cs) =
     rbind (case entity_of c of Some er \<Rightarrow> SET_ENTITY_REFERENCE er buff | None \<Rightarrow> set_char c buff) (\<lambda>buff.
       if length buff \<ge> sizeof_buff - 1 then rbind (set_char NUL buff) (\<lambda>_. entity_loop [] (xstr @ buff) cs)
       else entity_loop buff xstr cs)"

definition EntityReferenceTranslate :: "char list option \<Rightarrow> char list res" where
  "EntityReferenceTranslate str = (case str of None \<Rightarrow> Inr [] | Some s \<Rightarrow> entity_loop [] [] s)"

section \<open>Writing at the end of a file\<close>

text \<open>A storage whose file is open, with its position at the end.\<close>

definition at_end :: "file_storage option \<Rightarrow> char list \<Rightarrow> bool" where
  "at_end st b \<longleftrightarrow> (\<exists>s. st = Some s \<and> fs_file s = Some (b, length b))"

lemma at_end_simps [simp]: "at_end (Some s) b \<longleftrightarrow> fs_file s = Some (b, length b)" "\<not> at_end None b"
  by (auto simp: at_end_def)

lemma at_end_fresh: "at_end (Some (FileStreamStorage True)) []"
  by (simp add: FileStreamStorage_def)

lemma fss_write_at_end [simp]: "fs_file s = Some (b, length b) \<Longrightarrow> fs_file (fss_write d s) = Some (b @ d, length (b @ d))"
  by (simp add: fss_write_def overwrite_def)

lemma fss_write_Nil [simp]: "fss_write [] s = s"
  by (simp add: fss_write_def)

lemma overwrite_inside:
  "p + length d \<le> length b \<Longrightarrow> overwrite b p d = take p b @ d @ drop (p + length d) b"
  by (simp add: overwrite_def)

section \<open>Byte order\<close>

lemma le32_bytes: "le32 w = [char_of (uint w), char_of (uint (drop_bit 8 w)), char_of (uint (drop_bit 16 w)), char_of (uint (drop_bit 24 w))]"
proof -
  have "[0..<4] = [0, 1, 2, 3::nat]" by code_simp
  then show ?thesis by (simp add: le32_def drop_bit_eq_div unsigned_drop_bit_eq uint_div_distrib flip: power_mult)
qed

lemma char_of_word_bits: "char_of (uint (w :: 'a::len word)) = Char (bit w 0) (bit w 1) (bit w 2) (bit w 3) (bit w 4) (bit w 5) (bit w 6) (bit w 7)"
  if "8 \<le> LENGTH('a)"
  using that by (simp add: char_of_def bit_uint_iff)

lemma rev_switch_uint32: "rev (le32 (switch_uint32 w)) = le32 w"
  unfolding le32_bytes
  by (simp add: char_of_word_bits switch_uint32_def bit_or_iff bit_and_iff bit_push_bit_iff bit_drop_bit_eq
      bit_numeral_rec)

lemma le32_switch: "le32 (switch_uint32 w) = rev (le32 w)"
  using rev_switch_uint32 by (simp add: rev_swap)

lemma le16_bytes: "le16 w = [char_of (uint w), char_of (uint (drop_bit 8 w))]"
  by (simp add: le16_def drop_bit_eq_div unsigned_drop_bit_eq uint_div_distrib)

lemma rev_switch_uint16: "rev (le16 (switch_uint16 w)) = le16 w"
  unfolding le16_bytes
  by (simp add: char_of_word_bits switch_uint16_def bit_or_iff bit_and_iff bit_push_bit_iff bit_drop_bit_eq
      bit_numeral_rec)

lemma getSysEndian_eq [simp]: "getSysEndian sys = sys"
  by (cases sys) (simp_all add: getSysEndian_def mem32_def le32_bytes char_of_def)

lemma save32_BinStream:
  "save32 w (BinStream sys st e) =
    (BinStream sys st e)\<lparr>bs_storage := map_option (fss_write (case e of LITTLE_ENDIAN \<Rightarrow> le32 w | BIG_ENDIAN \<Rightarrow> rev (le32 w))) st\<rparr>"
  by (cases sys; cases e) (simp_all add: save32_def bs_write_def BinStream_def mem32_def rev_switch_uint32 le32_switch)

section \<open>Text in pieces\<close>

text \<open>
  What a text is made of: printing and indenting in any order. \<open>run_text\<close> runs it on a stream.
\<close>

datatype text_op = Indent | Unindent | Print "char list" | Println "char list"

fun run_op :: "cenv \<Rightarrow> text_op \<Rightarrow> text_stream \<Rightarrow> text_stream res" where
  "run_op E Indent t = indent t"
| "run_op E Unindent t = Inr (unindent t)"
| "run_op E (Print s) t = Inr (ts_printf E (Some s) t)"
| "run_op E (Println s) t = Inr (ts_println E (Some s) t)"

fun run_text :: "cenv \<Rightarrow> text_op list \<Rightarrow> text_stream \<Rightarrow> text_stream res" where
  "run_text E [] t = Inr t"
| "run_text E (x # xs) t = rbind (run_op E x t) (run_text E xs)"

text \<open>
  The layout meant: each character with the depth it is printed at, and as many tabs as the depth before the first
  character of a line that has one.
\<close>

fun depths :: "nat \<Rightarrow> text_op list \<Rightarrow> (nat \<times> char) list" where
  "depths d [] = []"
| "depths d (Indent # xs) = depths (d + 1) xs"
| "depths d (Unindent # xs) = depths (d - 1) xs"
| "depths d (Print s # xs) = map (Pair d) s @ depths d xs"
| "depths d (Println s # xs) = map (Pair d) (s @ [CHR 0x0A]) @ depths d xs"

fun layout :: "bool \<Rightarrow> (nat \<times> char) list \<Rightarrow> char list" where
  "layout nl [] = []"
| "layout nl ((d, c) # xs) =
     (if line_end c then c # layout True xs
      else (if nl then replicate d (CHR 0x09) else []) @ c # layout False xs)"

fun max_depth :: "nat \<Rightarrow> text_op list \<Rightarrow> nat" where
  "max_depth d [] = d"
| "max_depth d (Indent # xs) = max_depth (d + 1) xs"
| "max_depth d (Unindent # xs) = max d (max_depth (d - 1) xs)"
| "max_depth d (_ # xs) = max_depth d xs"

text \<open>A piece that begins a line on its own would leave the tabs of an empty line behind.\<close>

definition plain_piece :: "char list \<Rightarrow> bool" where
  "plain_piece s \<longleftrightarrow> s \<noteq> [] \<and> \<not> line_end (hd s) \<and> NUL \<notin> set s"

fun plain_op :: "text_op \<Rightarrow> bool" where
  "plain_op (Print s) = plain_piece s"
| "plain_op (Println s) = plain_piece s"
| "plain_op _ = True"

fun ends_line :: "bool \<Rightarrow> char list \<Rightarrow> bool" where
  "ends_line nl [] = nl"
| "ends_line nl (c # cs) = ends_line (line_end c) cs"

lemma layout_append: "layout nl (map (Pair d) s @ xs) = layout nl (map (Pair d) s) @ layout (ends_line nl s) xs"
  by (induction s arbitrary: nl) auto

lemma vprintf_loop_layout:
  assumes "fs_file s = Some (b, length b)" "nl \<longrightarrow> run = []"
  shows "\<exists>s'. vprintf_loop (replicate d (CHR 0x09)) run nl tx s = (ends_line nl tx, s') \<and>
    fs_file s' = Some (b @ run @ layout nl (map (Pair d) tx), length (b @ run @ layout nl (map (Pair d) tx)))"
  using assms
proof (induction tx arbitrary: run nl s b)
  case Nil
  then show ?case by simp
next
  case (Cons c cs)
  show ?case
  proof (cases "line_end c")
    case True
    then show ?thesis using Cons.IH [OF fss_write_at_end [OF Cons.prems(1), of "run @ [c]"], of True "[]"] by simp
  next
    case False
    then show ?thesis
    proof (cases nl)
      case True
      then show ?thesis using False Cons.prems(2)
          Cons.IH [OF fss_write_at_end [OF Cons.prems(1), of "replicate d (CHR 0x09)"], of False "[c]"] by simp
    next
      case nl: False
      then show ?thesis using False Cons.IH [OF Cons.prems(1), of False "run @ [c]"] by simp
    qed
  qed
qed

text \<open>\<open>shows_text t d nl b\<close>: \<open>b\<close> was written through \<open>t\<close>, which is at depth \<open>d\<close>.\<close>

definition shows_text :: "text_stream \<Rightarrow> nat \<Rightarrow> bool \<Rightarrow> char list \<Rightarrow> bool" where
  "shows_text t d nl b \<longleftrightarrow> at_end (ts_storage t) b \<and> ts_prefix t = replicate d (CHR 0x09) \<and> bNewLine t = nl"

lemma vprintf_layout:
  assumes "all_mem E" "shows_text t d nl b" "plain_piece s"
  shows "shows_text (vprintf E (Some s) t) d (ends_line nl s) (b @ layout nl (map (Pair d) s))"
proof -
  obtain st where st: "ts_storage t = Some st" "fs_file st = Some (b, length b)"
    using assms(2) by (auto simp: shows_text_def at_end_def)
  let ?pre = "if nl then replicate d (CHR 0x09) else []"
  define st' where "st' = (if nl then fss_write (replicate d (CHR 0x09)) st else st)"
  have st': "fs_file st' = Some (b @ ?pre, length (b @ ?pre))"
    using st(2) fss_write_at_end [OF st(2), of "replicate d (CHR 0x09)"] by (cases nl) (simp_all add: st'_def)
  obtain c cs where s: "s = c # cs" "\<not> line_end c" using assms(3) by (cases s) (auto simp: plain_piece_def)
  have cut: "takeWhile (\<lambda>c. c \<noteq> NUL) s = s" using assms(3) by (simp add: plain_piece_def takeWhile_eq_all_conv) blast
  from vprintf_loop_layout [OF st', of False "[]" d s] obtain s2 where s2:
    "vprintf_loop (replicate d (CHR 0x09)) [] False s st' = (ends_line False s, s2)"
    "fs_file s2 = Some (b @ ?pre @ layout False (map (Pair d) s), length (b @ ?pre @ layout False (map (Pair d) s)))"
    by auto
  have "vprintf E (Some s) t = t\<lparr>ts_storage := Some s2, bNewLine := ends_line False s\<rparr>"
    using assms(1,2) st(1) cut s2(1) by (simp add: vprintf_def mem_all shows_text_def st'_def Let_def del: takeWhile_eq_all_conv split: if_splits)
  moreover have "?pre @ layout False (map (Pair d) s) = layout nl (map (Pair d) s)" "ends_line False s = ends_line nl s"
    using s by simp_all
  ultimately show ?thesis using assms(2) s2(2) by (auto simp: shows_text_def)
qed

lemma ends_line_snoc [simp]: "ends_line nl (s @ [c]) = line_end c"
  by (induction s arbitrary: nl) simp_all

lemma println_layout:
  assumes "all_mem E" "shows_text t d nl b" "plain_piece s"
  shows "shows_text (ts_println E (Some s) t) d True (b @ layout nl (map (Pair d) (s @ [CHR 0x0A])))"
proof -
  have *: "shows_text (vprintf E (Some s) t) d (ends_line nl s) (b @ layout nl (map (Pair d) s))"
    by (rule vprintf_layout [OF assms])
  then obtain st where "ts_storage (vprintf E (Some s) t) = Some st"
    by (auto simp: shows_text_def at_end_def)
  then show ?thesis using * fss_write_at_end [of st "b @ layout nl (map (Pair d) s)" "[CHR 0x0A]"]
    by (simp add: ts_println_def shows_text_def layout_append [of nl d s "[(d, CHR 0x0A)]"] line_end_def)
qed

lemma max_depth_le: "d \<le> max_depth d xs"
  by (induction d xs rule: max_depth.induct) auto

lemma run_text_layout:
  assumes "all_mem E" "\<forall>x\<in>set xs. plain_op x"
  shows "shows_text t d nl b \<Longrightarrow> max_depth d xs < sizeof_prefix \<Longrightarrow>
    \<exists>t'. run_text E xs t = Inr t' \<and> at_end (ts_storage t') (b @ layout nl (depths d xs))"
  using assms(2)
proof (induction d xs arbitrary: t nl b rule: depths.induct)
  case (2 d xs)
  have "d + 1 < sizeof_prefix" using "2.prems"(2) max_depth_le [of "d + 1" xs] by simp
  then have "indent t = Inr (t\<lparr>ts_prefix := ts_prefix t @ [CHR 0x09]\<rparr>)"
    using "2.prems"(1) by (simp add: indent_def shows_text_def)
  moreover have "shows_text (t\<lparr>ts_prefix := ts_prefix t @ [CHR 0x09]\<rparr>) (d + 1) nl b"
    using "2.prems"(1) by (simp add: shows_text_def replicate_append_same)
  ultimately show ?case using "2.IH" "2.prems" by simp
next
  case (3 d xs)
  have "shows_text (unindent t) (d - 1) nl b"
    using "3.prems"(1) by (simp add: shows_text_def unindent_def butlast_conv_take min_def)
  then show ?case using "3.IH" "3.prems" by simp
next
  case (4 d s xs)
  have "shows_text (ts_printf E (Some s) t) d (ends_line nl s) (b @ layout nl (map (Pair d) s))"
    using vprintf_layout [OF assms(1) "4.prems"(1)] "4.prems"(3) by (simp add: ts_printf_def)
  from "4.IH" [OF this] show ?case using "4.prems" by (simp add: layout_append)
next
  case (5 d s xs)
  have "shows_text (ts_println E (Some s) t) d True (b @ layout nl (map (Pair d) (s @ [CHR 0x0A])))"
    using println_layout [OF assms(1) "5.prems"(1)] "5.prems"(3) by simp
  from "5.IH" [OF this] show ?case
    using "5.prems" layout_append [of nl d "s @ [CHR 0x0A]" "depths d xs"] by (simp add: line_end_def)
qed (auto simp: shows_text_def)


definition example_text :: "text_op list" where
  "example_text = [Print ''<a'', Println ''>'', Indent, Println ''x'', Print ''y'', Print ''z'', Println ''w'', Unindent, Println ''</a>'']"


text \<open>A line feed of its own at the beginning of a line leaves the tabs of an empty line in the file.\<close>

lemma empty_line_keeps_tabs:
  assumes "all_mem E" "shows_text t d True b"
  shows "shows_text (ts_println E (Some []) t) d True (b @ replicate d (CHR 0x09) @ [CHR 0x0A])"
proof -
  obtain st where st: "ts_storage t = Some st" "fs_file st = Some (b, length b)"
    using assms(2) by (auto simp: shows_text_def at_end_def)
  show ?thesis using assms st fss_write_at_end [OF st(2), of "replicate d (CHR 0x09)"]
      fss_write_at_end [OF fss_write_at_end [OF st(2), of "replicate d (CHR 0x09)"], of "[CHR 0x0A]"]
    by (simp add: ts_println_def vprintf_def mem_all shows_text_def Let_def)
qed

lemma indent_overflows: "shows_text t 63 nl b \<Longrightarrow> indent t = Inl Out_Of_Bounds"
  by (simp add: shows_text_def indent_def sizeof_prefix_def)

section \<open>Entities read back\<close>

definition escape :: "char list \<Rightarrow> char list" where
  "escape s = concat (map (\<lambda>c. case entity_of c of Some er \<Rightarrow> er | None \<Rightarrow> [c]) s)"

lemma escape_simps [simp]:
  "escape [] = []"
  "escape (c # s) = (case entity_of c of Some er \<Rightarrow> er | None \<Rightarrow> [c]) @ escape s"
  by (simp_all add: escape_def)

text \<open>The text that a reader of XML takes the entities for.\<close>

fun after :: "char list \<Rightarrow> char list \<Rightarrow> char list option" where
  "after [] s = Some s"
| "after (a # as) [] = None"
| "after (a # as) (c # s) = (if a = c then after as s else None)"

definition read_entity :: "char list \<Rightarrow> (char \<times> char list) option" where
  "read_entity s = (case filter (\<lambda>c. after (the (entity_of c)) s \<noteq> None) [CHR ''&'', CHR 0x27, CHR 0x22, CHR ''<'', CHR ''>'']
     of [] \<Rightarrow> None | c # _ \<Rightarrow> Some (c, the (after (the (entity_of c)) s)))"

lemma after_append [simp]: "after as (as @ s) = Some s"
  by (induction as) simp_all

lemma after_length: "after as s = Some r \<Longrightarrow> length r + length as = length s"
  by (induction as s rule: after.induct) (auto split: if_splits)

lemma read_entity_shorter: "read_entity s = Some (c, r) \<Longrightarrow> length r < length s"
  by (auto simp: read_entity_def entity_of_def split: list.splits if_splits dest!: after_length)

function unescape :: "char list \<Rightarrow> char list" where
  "unescape [] = []"
| "unescape (c # s) =
     (if c = CHR ''&'' then case read_entity (c # s) of None \<Rightarrow> c # unescape s | Some (d, r) \<Rightarrow> d # unescape r
      else c # unescape s)"
  by pat_completeness auto

termination
  by (relation "measure length") (auto dest!: read_entity_shorter)

lemma read_entity_escape: "entity_of c = Some er \<Longrightarrow> er = CHR ''&'' # tl er \<and> read_entity (er @ s) = Some (c, s)"
  by (auto simp: read_entity_def entity_of_def split: if_splits)

lemma unescape_escape: "unescape (escape s) = s"
proof (induction s)
  case (Cons c s)
  show ?case
  proof (cases "entity_of c")
    case None
    then have "c \<noteq> CHR ''&''" by (auto simp: entity_of_def)
    then show ?thesis using None Cons by simp
  next
    case (Some er)
    with read_entity_escape [OF Some, of "escape s"] obtain es where "er = CHR ''&'' # es" by blast
    then show ?thesis using Some Cons read_entity_escape [OF Some, of "escape s"] by simp
  qed
qed simp

lemma entity_loop_result: "entity_loop buff xstr s = Inr r \<Longrightarrow> r = xstr @ buff @ escape s"
proof (induction buff xstr s arbitrary: r rule: entity_loop.induct)
  case (2 buff xstr c cs)
  let ?put = "case entity_of c of Some er \<Rightarrow> SET_ENTITY_REFERENCE er buff | None \<Rightarrow> set_char c buff"
  obtain b where b: "?put = Inr b" using "2.prems" by (auto simp: rbind_eq_Inr)
  then have e: "b = buff @ (case entity_of c of Some er \<Rightarrow> er | None \<Rightarrow> [c])"
    by (auto simp: SET_ENTITY_REFERENCE_def set_char_def split: option.splits if_splits)
  show ?case
  proof (cases "length b \<ge> sizeof_buff - 1")
    case True
    then have "entity_loop [] (xstr @ b) cs = Inr r" using "2.prems" b by (auto simp: rbind_eq_Inr)
    then show ?thesis using "2.IH"(1) [OF b True] "2.prems" b True e
      by (auto simp: set_char_def split: if_splits)
  next
    case False
    then have "entity_loop b xstr cs = Inr r" using "2.prems" b by simp
    then show ?thesis using "2.IH"(2) [OF b False] e by simp
  qed
qed (auto simp: rbind_eq_Inr)

lemma entity_loop_fits:
  "length buff + length (escape s) < sizeof_buff \<Longrightarrow> length buff < sizeof_buff - 1 \<or> s = [] \<Longrightarrow>
    \<exists>r. entity_loop buff xstr s = Inr r"
proof (induction s arbitrary: buff xstr)
  case Nil
  then show ?case by (simp add: set_char_def)
next
  case (Cons c cs)
  define b where "b = buff @ (case entity_of c of Some er \<Rightarrow> er | None \<Rightarrow> [c])"
  have put: "(case entity_of c of Some er \<Rightarrow> SET_ENTITY_REFERENCE er buff | None \<Rightarrow> set_char c buff) = Inr b"
    using Cons.prems by (auto simp: b_def SET_ENTITY_REFERENCE_def set_char_def split: option.splits)
  have len: "length b + length (escape cs) < sizeof_buff" using Cons.prems by (auto simp: b_def split: option.splits)
  show ?case
  proof (cases "length b \<ge> sizeof_buff - 1")
    case True
    then have "length (escape cs) = 0" using len unfolding sizeof_buff_def by linarith
    then have "escape cs = []" by simp
    then have "cs = []" by (cases cs) (auto simp: entity_of_def split: if_splits)
    then show ?thesis using True len put by (simp add: set_char_def sizeof_buff_def)
  next
    case False
    then show ?thesis using Cons.IH [OF len] put by simp
  qed
qed

text \<open>
  C37: A text whose entities were put in is read back as it was, and it is put in without a fault
  when the result fits the buffer.
\<close>

theorem entity_reference_roundtrip:
  assumes "length (escape s) < sizeof_buff"
  shows "\<exists>r. EntityReferenceTranslate (Some s) = Inr r \<and> r = escape s \<and> unescape r = s"
  using entity_loop_fits [of "[]" s "[]"] assms entity_loop_result [of "[]" "[]" s]
  by (auto simp: EntityReferenceTranslate_def unescape_escape sizeof_buff_def)

lemma entity_reference_roundtrip_witness:
  "\<exists>r. EntityReferenceTranslate (Some ''a<b & c'') = Inr r \<and> r = ''a&lt;b &amp; c'' \<and> unescape r = ''a<b & c''"
  using entity_reference_roundtrip [of "''a<b & c''"] by (simp add: sizeof_buff_def entity_of_def)

text \<open>A longer text is right when it comes through, but an entity that begins in the last six bytes of the buffer overflows it.\<close>

lemma entity_plain: "\<forall>c\<in>set p. entity_of c = None \<Longrightarrow> length buff + length p < sizeof_buff - 1 \<Longrightarrow>
    entity_loop buff xstr (p @ s) = entity_loop (buff @ p) xstr s"
  by (induction p arbitrary: buff) (simp_all add: set_char_def sizeof_buff_def)

lemma entity_overflow:
  assumes "\<forall>c\<in>set p. entity_of c = None" "1018 \<le> length p" "length p \<le> 1022"
  shows "EntityReferenceTranslate (Some (p @ CHR 0x22 # q)) = Inl Out_Of_Bounds"
  using entity_plain [OF assms(1), of "[]" "[]" "CHR 0x22 # q"] assms(2,3)
  by (simp add: EntityReferenceTranslate_def SET_ENTITY_REFERENCE_def entity_of_def sizeof_buff_def)

end
