(* ===== verification/Id_Range.thy ===== *)
theory Id_Range
  imports Json_File
begin

text \<open>
  The ranges of resource ids (\<open>include/resenv.h\<close>, \<open>common/reseditor.cpp\<close>): each developer owns ranges, new ids
  are drawn from them, and the dialog for a new range (\<open>mainframe/newidrange.cpp\<close>) shows what is free.

  A range \<open>(min, max]\<close> is an object on the heap, named by its address; \<open>chain\<close> lists the addresses a manager links by
  \<open>header\<close> and \<open>next\<close>, the other links are fields. The lower 16 bits of an id are its number, the upper 16 its type.
\<close>

section \<open>Ranges and managers\<close>

record id_range =
  range_min :: int
  range_max :: int
  used :: int
  isNewIDRange :: bool
  owner :: "nat option"
  prev :: "nat option"
  prev_slibing :: "nat option"
  next_slibing :: "nat option"
  manager :: "nat option option"

text \<open>\<open>manager\<close> is \<open>None\<close> as long as it is not set: the constructor leaves it out.\<close>

record id_heap =
  ranges :: "nat \<Rightarrow> id_range option"
  fresh :: nat
  owner_header :: "nat \<Rightarrow> nat option"

record id_manager =
  self :: nat
  mtype :: int
  limit_min :: int
  limit_max :: int
  chain :: "nat list"
  next_id :: int
  cur_idrange :: "nat option"

definition ushort :: "int \<Rightarrow> int" where "ushort n = n mod 2 ^ 16"

definition ID2TYPE :: "int \<Rightarrow> int" where "ID2TYPE i = (i mod 2 ^ 32) div 2 ^ 16"

definition IDRangeManager :: "nat \<Rightarrow> int \<Rightarrow> int \<Rightarrow> int \<Rightarrow> id_manager" where
  "IDRangeManager this t lmin lmax = \<lparr>self = this, mtype = t, limit_min = ushort lmin, limit_max = ushort lmax,
     chain = [], next_id = -1, cur_idrange = None\<rparr>"

text \<open>The objects; an object that was deleted is not there.\<close>

definition get_range :: "id_heap \<Rightarrow> nat \<Rightarrow> id_range res" where
  "get_range h p = (case ranges h p of None \<Rightarrow> Inl Use_After_Free | Some r \<Rightarrow> Inr r)"

definition put_range :: "nat \<Rightarrow> id_range \<Rightarrow> id_heap \<Rightarrow> id_heap" where
  "put_range p r h = h\<lparr>ranges := (ranges h)(p \<mapsto> r)\<rparr>"

definition delete_range :: "nat \<Rightarrow> id_heap \<Rightarrow> id_heap" where
  "delete_range p h = h\<lparr>ranges := (ranges h)(p := None)\<rparr>"

definition IDRange :: "int \<Rightarrow> int \<Rightarrow> id_range" where
  "IDRange mn mx = \<lparr>range_min = ushort mn, range_max = ushort mx, used = 0xFFFF, isNewIDRange = True, owner = None,
     prev = None, prev_slibing = None, next_slibing = None, manager = None\<rparr>"

definition new_range :: "id_range \<Rightarrow> id_heap \<Rightarrow> nat \<times> id_heap" where
  "new_range r h = (fresh h, put_range (fresh h) r (h\<lparr>fresh := fresh h + 1\<rparr>))"

definition isInRange :: "id_range \<Rightarrow> int \<Rightarrow> bool" where
  "isInRange r i \<longleftrightarrow> i > range_min r \<and> i \<le> range_max r"

definition unusedCount :: "id_range \<Rightarrow> int" where
  "unusedCount r = used r - (range_max r - range_min r)"

definition range_inc :: "id_range \<Rightarrow> id_range" where
  "range_inc r = r\<lparr>used := ushort ((if used r = 0xFFFF then 0 else used r) + 1)\<rparr>"

definition range_dec :: "id_range \<Rightarrow> id_range" where
  "range_dec r = r\<lparr>used := ushort ((if used r = 0 then 0xFFFF else used r) - 1)\<rparr>"

definition setUsed :: "int \<Rightarrow> id_range \<Rightarrow> id_range" where
  "setUsed n r = r\<lparr>used := ushort n, isNewIDRange := False\<rparr>"

section \<open>Owners\<close>

text \<open>The ranges of an owner form a list of their own.\<close>

definition owner_addIDRange :: "nat \<Rightarrow> nat \<Rightarrow> id_heap \<Rightarrow> id_heap res" where
  "owner_addIDRange o1 p h =
     rbind (get_range h p) (\<lambda>r. let r = r\<lparr>owner := Some o1\<rparr> in
       case owner_header h o1 of
         None \<Rightarrow> Inr ((put_range p (r\<lparr>next_slibing := None, prev_slibing := None\<rparr>) h)\<lparr>owner_header := (owner_header h)(o1 := Some p)\<rparr>)
       | Some hd1 \<Rightarrow> rbind (get_range h hd1) (\<lambda>rh.
           let h = put_range p (r\<lparr>prev_slibing := prev_slibing rh, next_slibing := Some hd1\<rparr>) h in
           rbind (get_range h hd1) (\<lambda>rh.
             Inr ((put_range hd1 (rh\<lparr>prev_slibing := Some p\<rparr>) h)\<lparr>owner_header := (owner_header h)(o1 := Some p)\<rparr>))))"

text \<open>\<open>type_of m\<close> is \<open>manager->getType()\<close>.\<close>

partial_function (option) slibing_loop :: "(nat \<Rightarrow> int) \<Rightarrow> id_heap \<Rightarrow> int \<Rightarrow> int \<Rightarrow> nat option \<Rightarrow> bool run" where
  "slibing_loop type_of h t i idrange =
     (case idrange of
        None \<Rightarrow> Some (Inr False)
      | Some p \<Rightarrow> ubind (Some (get_range h p)) (\<lambda>r.
          case manager r of
            None \<Rightarrow> Some (Inl Wild_Pointer)
          | Some None \<Rightarrow> Some (Inl Null_Deref)
          | Some (Some m) \<Rightarrow>
              if type_of m = t \<and> isInRange r i then Some (Inr True)
              else slibing_loop type_of h t i (next_slibing r)))"

declare slibing_loop.simps [code]

definition owner_isInRange :: "(nat \<Rightarrow> int) \<Rightarrow> id_heap \<Rightarrow> nat \<Rightarrow> int \<Rightarrow> bool run" where
  "owner_isInRange type_of h o1 i = slibing_loop type_of h (ID2TYPE i) (i mod 2 ^ 16) (owner_header h o1)"

section \<open>Changing a range\<close>

text \<open>\<open>next\<close> of an object of the chain.\<close>

fun next_in :: "nat list \<Rightarrow> nat \<Rightarrow> nat option" where
  "next_in (p # q # ps) x = (if p = x then Some q else next_in (q # ps) x)"
| "next_in ps x = None"

definition linked :: "id_heap \<Rightarrow> nat option \<Rightarrow> (id_range \<Rightarrow> bool) \<Rightarrow> bool res" where
  "linked h q P = (case q of None \<Rightarrow> Inr False | Some q \<Rightarrow> rbind (get_range h q) (\<lambda>r. Inr (P r)))"

definition extend :: "id_heap \<Rightarrow> nat list \<Rightarrow> nat \<Rightarrow> int \<Rightarrow> int \<Rightarrow> (bool \<times> id_heap) res" where
  "extend h ps p mn mx =
     rbind (get_range h p) (\<lambda>r.
     rbind (if mn > 0 then linked h (prev r) (\<lambda>q. mn < range_max q) else Inr False) (\<lambda>low.
     rbind (if low then Inr True else if mx > 0 then linked h (next_in ps p) (\<lambda>q. mx > range_min q) else Inr False) (\<lambda>bad.
       if bad then Inr (False, h)
       else if mn > 0 \<and> mn \<ge> (if mx > 0 then mx else range_max r) \<or> mx > 0 \<and> mx \<le> (if mn > 0 then mn else range_min r)
       then Inr (False, h)
       else
         let changed = (mn > 0 \<and> mn \<noteq> range_min r \<or> mx > 0 \<and> mx \<noteq> range_max r);
             r = (if mn > 0 then r\<lparr>range_min := ushort mn\<rparr> else r);
             r = (if mx > 0 then r\<lparr>range_max := ushort mx\<rparr> else r);
             r = (if changed then r\<lparr>isNewIDRange := True\<rparr> else r)
         in Inr (mn > 0 \<or> mx > 0, put_range p r h))))"

section \<open>Adding a range\<close>

type_synonym add_result = "(nat option \<times> id_heap \<times> nat list) res"

text \<open>The object is made, linked between what comes before and after it, and given to its owner.\<close>

definition insert_range :: "nat option option \<Rightarrow> id_heap \<Rightarrow> int \<Rightarrow> int \<Rightarrow> nat \<Rightarrow> nat option \<Rightarrow> nat list \<Rightarrow> nat list \<Rightarrow> add_result" where
  "insert_range mgr h mn mx o1 prv before after =
     (case new_range ((IDRange mn mx)\<lparr>owner := Some o1, prev := prv, manager := mgr\<rparr>) h of (p, h) \<Rightarrow>
        rbind (owner_addIDRange o1 p h) (\<lambda>h. Inr (Some p, h, before @ p # after)))"

fun after_in :: "nat list \<Rightarrow> nat \<Rightarrow> nat list" where
  "after_in [] x = []"
| "after_in (p # ps) x = (if p = x then ps else after_in ps x)"

definition upto_in :: "nat list \<Rightarrow> nat \<Rightarrow> nat list" where "upto_in ps x = takeWhile (\<lambda>p. p \<noteq> x) ps"

text \<open>
  The new range ends where \<open>idrange\<close> begins, and \<open>idrange\<close> and the one before it have its owner: the one before
  is to take all three.
\<close>

definition combine :: "id_heap \<Rightarrow> nat list \<Rightarrow> nat \<Rightarrow> nat \<Rightarrow> add_result" where
  "combine h ps prv p =
     rbind (get_range h prv) (\<lambda>pr. rbind (get_range h p) (\<lambda>r.
     rbind (extend h ps prv (range_min pr) (range_max r)) (\<lambda>(_, h).
       case next_in ps p of
         None \<Rightarrow> Inl Null_Deref
       | Some n \<Rightarrow> rbind (get_range h n) (\<lambda>rn.
           let h = (if prev rn \<noteq> None then put_range n (rn\<lparr>prev := Some prv\<rparr>) h else h)
           in Inr (Some prv, delete_range p h, upto_in ps p @ after_in ps p)))))"

definition add_between :: "nat \<Rightarrow> id_heap \<Rightarrow> nat list \<Rightarrow> int \<Rightarrow> int \<Rightarrow> nat \<Rightarrow> nat \<Rightarrow> id_range \<Rightarrow> nat \<Rightarrow> id_range \<Rightarrow> add_result" where
  "add_between this h ps mn mx o1 prv pr p r =
     (let insert_it = (\<lambda>mn. case insert_range None h mn mx o1 (Some prv) (upto_in ps p) (p # after_in ps p) of
              Inl x \<Rightarrow> Inl x
            | Inr (q, h, ps) \<Rightarrow> rbind (get_range h p) (\<lambda>r.
                Inr (q, put_range p (r\<lparr>prev := q, manager := Some (Some this)\<rparr>) h, ps)))
      in
      if Some o1 = owner pr then (if Some o1 = owner r \<and> mx = range_min r then combine h ps prv p else insert_it mn)
      else if Some o1 = owner r \<and> mx = range_min r
      then rbind (extend h ps p mn (range_max r)) (\<lambda>(_, h). Inr (Some p, h, ps))
      else if range_max pr \<ge> mn
      then (if range_max pr + 1 \<ge> mx then Inr (None, h, ps) else insert_it (range_max pr + 1))
      else insert_it mn)"

definition add_last :: "nat \<Rightarrow> id_heap \<Rightarrow> nat list \<Rightarrow> int \<Rightarrow> int \<Rightarrow> nat \<Rightarrow> nat \<Rightarrow> add_result" where
  "add_last this h ps mn mx o1 prv =
     rbind (get_range h prv) (\<lambda>pr.
       if range_max pr \<ge> mn \<and> owner pr = Some o1
       then rbind (extend h ps prv (range_min pr) (if mx > range_max pr then mx else range_max pr)) (\<lambda>(_, h). Inr (Some prv, h, ps))
       else let mn' = (if range_max pr \<ge> mn then range_max pr + 1 else mn) in
         if range_max pr \<ge> mn \<and> mn' \<ge> mx then Inr (None, h, ps)
         else insert_range (Some (Some this)) h mn' mx o1 (Some prv) ps [])"

fun add_loop :: "nat \<Rightarrow> id_heap \<Rightarrow> nat list \<Rightarrow> int \<Rightarrow> int \<Rightarrow> nat \<Rightarrow> nat \<Rightarrow> nat list \<Rightarrow> add_result" where
  "add_loop this h ps mn mx o1 prv [] = add_last this h ps mn mx o1 prv"
| "add_loop this h ps mn mx o1 prv (p # rest) =
     rbind (get_range h p) (\<lambda>r.
       if mx \<le> range_min r
       then (if prv = hd ps
             then (if Some o1 = owner r \<and> mx = range_min r
                   then rbind (extend h ps p mn (range_max r)) (\<lambda>(_, h). Inr (Some p, h, ps))
                   else insert_range (Some (Some this)) h mn mx o1 None [] ps)
             else rbind (get_range h prv) (\<lambda>pr.
               if range_max pr \<le> mn then add_between this h ps mn mx o1 prv pr p r
               else add_loop this h ps mn mx o1 p rest))
       else add_loop this h ps mn mx o1 p rest)"

definition addIDRange :: "int \<Rightarrow> int \<Rightarrow> nat \<Rightarrow> id_manager \<Rightarrow> id_heap \<Rightarrow> (nat option \<times> id_manager \<times> id_heap) res" where
  "addIDRange mn mx o1 m h =
     (if mn \<ge> mx then Inr (None, m, h)
      else rbind (if chain m = [] then insert_range (Some (Some (self m))) h mn mx o1 None [] []
                  else add_loop (self m) h (chain m) mn mx o1 (hd (chain m)) (chain m)) (\<lambda>(p, h, ps).
        Inr (p, m\<lparr>chain := ps\<rparr>, h)))"

section \<open>Drawing ids\<close>

text \<open>A pointer into the chain is given by the rest of the chain from it on.\<close>

fun get_next_idrange :: "id_heap \<Rightarrow> nat \<Rightarrow> nat list \<Rightarrow> nat list res" where
  "get_next_idrange h o1 [] = Inr []"
| "get_next_idrange h o1 (p # ps) = rbind (get_range h p) (\<lambda>r. if owner r = Some o1 then Inr (p # ps) else get_next_idrange h o1 ps)"

lemma get_next_idrange_length: "get_next_idrange h o1 ps = Inr qs \<Longrightarrow> length qs \<le> length ps"
  by (induction ps) (auto simp: rbind_eq_Inr split: if_splits)

fun skip_unused :: "id_heap \<Rightarrow> nat list \<Rightarrow> nat list res" where
  "skip_unused h [] = Inr []"
| "skip_unused h (p # ps) = rbind (get_range h p) (\<lambda>r. if unusedCount r \<le> 0 then skip_unused h ps else Inr (p # ps))"

function recycle :: "id_heap \<Rightarrow> nat \<Rightarrow> nat list \<Rightarrow> nat list res" where
  "recycle h o1 ps =
     (if ps = [] then Inr []
      else case get_next_idrange h o1 ps of
        Inl x \<Rightarrow> Inl x
      | Inr [] \<Rightarrow> Inl Null_Deref
      | Inr (q # qs) \<Rightarrow> rbind (get_range h q) (\<lambda>r. if used r < range_max r - range_min r then Inr (q # qs) else recycle h o1 qs))"
  by pat_completeness auto

termination
  by (relation "measure (\<lambda>(h, o1, ps). length ps)") (auto dest: get_next_idrange_length)

declare recycle.simps [simp del]

definition from_cur :: "id_manager \<Rightarrow> nat list" where
  "from_cur m = (case cur_idrange m of None \<Rightarrow> [] | Some p \<Rightarrow> dropWhile (\<lambda>q. q \<noteq> p) (chain m))"

definition head_of :: "nat list \<Rightarrow> nat option" where
  "head_of ps = (case ps of [] \<Rightarrow> None | p # _ \<Rightarrow> Some p)"

definition emit_id :: "id_manager \<Rightarrow> nat list \<Rightarrow> int \<Rightarrow> int \<times> id_manager" where
  "emit_id m ps n = (or n (push_bit 16 (mtype m)), m\<lparr>cur_idrange := head_of ps, next_id := n + 1\<rparr>)"

definition nextId :: "nat \<Rightarrow> id_heap \<Rightarrow> id_manager \<Rightarrow> (int \<times> id_manager) res" where
  "nextId o1 h m =
     rbind (case cur_idrange m of
              None \<Rightarrow> get_next_idrange h o1 (chain m)
            | Some p \<Rightarrow> rbind (get_range h p) (\<lambda>_. get_next_idrange h o1 (from_cur m))) (\<lambda>ps.
       case ps of
         [] \<Rightarrow> Inr (-1, m\<lparr>cur_idrange := None\<rparr>)
       | p # rest \<Rightarrow> rbind (get_range h p) (\<lambda>r.
           if next_id m \<le> range_min r then Inr (emit_id m ps (range_min r + 1))
           else if next_id m > range_max r
           then rbind (case rest of
                         q # _ \<Rightarrow> Inr rest
                       | [] \<Rightarrow> rbind (skip_unused h (chain m)) (recycle h o1)) (\<lambda>ps.
             case ps of
               [] \<Rightarrow> Inr (-1, m\<lparr>cur_idrange := None, next_id := -1\<rparr>)
             | q # _ \<Rightarrow> rbind (get_range h q) (\<lambda>rq. Inr (emit_id m ps (range_min rq + 1))))
           else Inr (emit_id m ps (next_id m))))"

section \<open>Counting uses\<close>

fun getIDRangeById :: "id_heap \<Rightarrow> nat list \<Rightarrow> int \<Rightarrow> nat option res" where
  "getIDRangeById h [] i = Inr None"
| "getIDRangeById h (p # ps) i = rbind (get_range h p) (\<lambda>r. if isInRange r i then Inr (Some p) else getIDRangeById h ps i)"

definition count_use :: "(id_range \<Rightarrow> id_range) \<Rightarrow> id_manager \<Rightarrow> int \<Rightarrow> id_heap \<Rightarrow> (bool \<times> id_heap) res" where
  "count_use step m i h =
     (if ID2TYPE i \<noteq> mtype m then Inr (False, h)
      else rbind (getIDRangeById h (chain m) (i mod 2 ^ 16)) (\<lambda>q.
        case q of None \<Rightarrow> Inr (False, h) | Some p \<Rightarrow> rbind (get_range h p) (\<lambda>r. Inr (True, put_range p (step r) h))))"

definition useId :: "id_manager \<Rightarrow> int \<Rightarrow> id_heap \<Rightarrow> (bool \<times> id_heap) res" where "useId = count_use range_inc"

definition unuseId :: "id_manager \<Rightarrow> int \<Rightarrow> id_heap \<Rightarrow> (bool \<times> id_heap) res" where "unuseId = count_use range_dec"

section \<open>Free ranges\<close>

type_synonym range_list = "(int \<times> int) list"

definition IDRangeInfo :: "int \<Rightarrow> int \<Rightarrow> int \<times> int" where "IDRangeInfo mn mx = (ushort mn, ushort mx)"

text \<open>The place where the new range meets the list; \<open>Inr\<close> ends the function.\<close>

fun include_loop :: "int \<Rightarrow> int \<Rightarrow> range_list \<Rightarrow> range_list \<Rightarrow> (range_list \<times> range_list) + range_list" where
  "include_loop mn mx seen [] = Inl (seen, [])"
| "include_loop mn mx seen ((a, b) # xs) =
     (if a > mx then Inr (seen @ IDRangeInfo mn mx # (a, b) # xs)
      else if b \<le> mx then Inl (seen, (if a > mn then ushort mn else a, b) # xs)
      else if b \<ge> mn then Inl (seen, (a, ushort mx) # xs)
      else include_loop mn mx (seen @ [(a, b)]) xs)"

text \<open>
  Joining what now overlaps. After an \<open>erase\<close> the iterator that was already moved on skips an element, and
  passes the end when the last one was erased.
\<close>

fun join_next :: "nat \<Rightarrow> range_list \<Rightarrow> range_list \<Rightarrow> (int \<times> int) \<Rightarrow> range_list res" where
  "join_next 0 kept [] (a, b) = Inr ((a, b) # kept)"
| "join_next (Suc n) kept [] (a, b) = Inl Out_Of_Bounds"
| "join_next 0 kept ((c, d) # xs) (a, b) =
     (if b \<ge> c then join_next 1 kept xs (a, d) else Inr ((a, b) # kept @ (c, d) # xs))"
| "join_next (Suc n) kept (x # xs) (a, b) = join_next n (kept @ [x]) xs (a, b)"

definition includeIDRange :: "range_list \<Rightarrow> int \<Rightarrow> int \<Rightarrow> range_list res" where
  "includeIDRange xs mn mx =
     (if mn \<ge> mx then Inr xs
      else if xs = [] then Inr [IDRangeInfo mn mx]
      else case include_loop mn mx [] xs of
        Inr ys \<Rightarrow> Inr ys
      | Inl (seen, []) \<Rightarrow> Inr (seen @ [IDRangeInfo mn mx])
      | Inl (seen, y # ys) \<Rightarrow> rbind (join_next 0 [] ys y) (\<lambda>ys. Inr (seen @ ys)))"

fun exclude_loop :: "int \<Rightarrow> int \<Rightarrow> range_list \<Rightarrow> range_list" where
  "exclude_loop mn mx [] = []"
| "exclude_loop mn mx ((a, b) # xs) =
     (if a \<ge> mx then (a, b) # xs
      else if a < mn
      then (if b \<le> mx then (a, ushort mn) # exclude_loop mn mx xs else IDRangeInfo mx b # (a, ushort mn) # xs)
      else if b \<le> mx then exclude_loop mn mx xs
      else (ushort mx, b) # xs)"

definition excludeIDRange :: "range_list \<Rightarrow> int \<Rightarrow> int \<Rightarrow> range_list" where
  "excludeIDRange xs mn mx = (if mn \<ge> mx then xs else exclude_loop mn mx xs)"

fun exclude_all :: "id_heap \<Rightarrow> nat list \<Rightarrow> range_list \<Rightarrow> range_list res" where
  "exclude_all h [] xs = Inr xs"
| "exclude_all h (p # ps) xs = rbind (get_range h p) (\<lambda>r. exclude_all h ps (excludeIDRange xs (range_min r) (range_max r)))"

definition getFreeIDRanges :: "id_heap \<Rightarrow> id_manager \<Rightarrow> range_list \<Rightarrow> range_list res" where
  "getFreeIDRanges h m xs = rbind (includeIDRange xs (limit_min m) (limit_max m)) (exclude_all h (chain m))"

section \<open>Well-formed chains\<close>

abbreviation range_at :: "id_heap \<Rightarrow> nat \<Rightarrow> id_range" where "range_at h p \<equiv> the (ranges h p)"

definition alive :: "id_heap \<Rightarrow> nat list \<Rightarrow> bool" where
  "alive h ps \<longleftrightarrow> (\<forall>p\<in>set ps. ranges h p \<noteq> None)"

definition wf_range :: "id_range \<Rightarrow> bool" where
  "wf_range r \<longleftrightarrow> 0 \<le> range_min r \<and> range_min r < range_max r \<and> range_max r < 2 ^ 16"

definition wf_chain :: "id_heap \<Rightarrow> nat list \<Rightarrow> bool" where
  "wf_chain h ps \<longleftrightarrow> alive h ps \<and> (\<forall>p\<in>set ps. wf_range (range_at h p))"

definition wf_manager :: "id_heap \<Rightarrow> id_manager \<Rightarrow> bool" where
  "wf_manager h m \<longleftrightarrow> wf_chain h (chain m) \<and> 0 \<le> mtype m \<and> mtype m < 2 ^ 15 \<and>
     (case cur_idrange m of None \<Rightarrow> True | Some p \<Rightarrow> p \<in> set (chain m))"

lemma get_range_alive [simp]: "alive h ps \<Longrightarrow> p \<in> set ps \<Longrightarrow> get_range h p = Inr (range_at h p)"
  by (auto simp: alive_def get_range_def split: option.splits)

lemma alive_simps [simp]:
  "alive h []" "alive h (p # ps) \<longleftrightarrow> ranges h p \<noteq> None \<and> alive h ps" "alive h (ps @ qs) \<longleftrightarrow> alive h ps \<and> alive h qs"
  by (auto simp: alive_def)

lemma get_range_Some [simp]: "ranges h p = Some r \<Longrightarrow> get_range h p = Inr r"
  by (simp add: get_range_def)

lemma alive_subset: "alive h ps \<Longrightarrow> set qs \<subseteq> set ps \<Longrightarrow> alive h qs"
  by (auto simp: alive_def)

section \<open>The ids that are drawn\<close>

lemma id_number:
  assumes "0 \<le> n" "n < 2 ^ 16" "0 \<le> t" "t < 2 ^ 15"
  shows "or n (push_bit 16 t) = t * 2 ^ 16 + n" "or n (push_bit 16 t) mod 2 ^ 16 = n" "ID2TYPE (or n (push_bit 16 t)) = t"
proof -
  have n: "take_bit 16 n = n" using assms by (simp add: take_bit_int_eq_self_iff)
  have "and (take_bit 16 n) (push_bit 16 t) = 0" by (rule bit_eqI) (auto simp: bit_simps)
  then show e: "or n (push_bit 16 t) = t * 2 ^ 16 + n"
    unfolding n by (simp add: push_bit_eq_mult flip: disjunctive_add_eq_or)
  show "or n (push_bit 16 t) mod 2 ^ 16 = n" unfolding e using assms by simp
  show "ID2TYPE (or n (push_bit 16 t)) = t" unfolding e ID2TYPE_def using assms by (simp add: mod_pos_pos_trivial)
qed

lemma get_next_idrange_suffix:
  "alive h ps \<Longrightarrow> \<exists>qs. get_next_idrange h o1 ps = Inr qs \<and> (\<exists>ns. ps = ns @ qs) \<and> (qs \<noteq> [] \<longrightarrow> owner (range_at h (hd qs)) = Some o1)"
proof (induction ps)
  case (Cons p ps)
  then obtain r where "ranges h p = Some r" by auto
  then show ?case using Cons by (cases "owner r = Some o1") (auto intro: exI [of _ "p # _"])
qed simp

lemma skip_unused_suffix: "alive h ps \<Longrightarrow> \<exists>qs. skip_unused h ps = Inr qs \<and> (\<exists>ns. ps = ns @ qs)"
proof (induction ps)
  case (Cons p ps)
  then obtain r where "ranges h p = Some r" by auto
  then show ?case using Cons by (cases "unusedCount r \<le> 0") (auto intro: exI [of _ "p # _"])
qed simp

lemma get_next_idrange_last:
  assumes "alive h ps" "ps \<noteq> []" "owner (range_at h (last ps)) = Some o1"
  shows "get_next_idrange h o1 ps \<noteq> Inr []"
  using assms
proof (induction ps)
  case (Cons p ps)
  then obtain r where "ranges h p = Some r" by auto
  then show ?case using Cons by (cases "ps = []") auto
qed simp

text \<open>The search for a range that can be used again ends at a range or at the end of the chain, if the last range is the owner's.\<close>

lemma recycle_suffix:
  "alive h ps \<Longrightarrow> ps \<noteq> [] \<longrightarrow> owner (range_at h (last ps)) = Some o1 \<Longrightarrow>
    \<exists>qs. recycle h o1 ps = Inr qs \<and> (\<exists>ns. ps = ns @ qs)"
proof (induction "length ps" arbitrary: ps rule: less_induct)
  case less
  show ?case
  proof (cases "ps = []")
    case False
    obtain qs ns where q: "get_next_idrange h o1 ps = Inr qs" "ps = ns @ qs"
      using get_next_idrange_suffix [OF less.prems(1)] by blast
    then have "qs \<noteq> []" using get_next_idrange_last [OF less.prems(1) False] less.prems(2) False by auto
    then obtain a as where Cons: "qs = a # as" by (cases qs) auto
    then have a: "alive h as" "ranges h a \<noteq> None" "length as < length ps" using less.prems q(2) by auto
    then obtain r where r: "ranges h a = Some r" by auto
    have "recycle h o1 ps = (if used r < range_max r - range_min r then Inr qs else recycle h o1 as)"
      using q(1) Cons r False by (subst recycle.simps) simp
    moreover obtain qs' n2 where "recycle h o1 as = Inr qs'" "as = n2 @ qs'"
      using less.hyps [OF a(3,1)] less.prems(2) q(2) Cons by (auto split: if_splits)
    ultimately show ?thesis using q(2) Cons by (auto intro: exI [of _ "ns @ a # n2"])
  qed (simp add: recycle.simps)
qed

definition id_of :: "id_manager \<Rightarrow> int \<Rightarrow> int" where "id_of m n = or n (push_bit 16 (mtype m))"

lemma emit_id_in_range:
  assumes "wf_manager h m" "p \<in> set (chain m)" "ps = p # rest" "range_min (range_at h p) < n" "n \<le> range_max (range_at h p)"
  shows "case emit_id m ps n of (i, m') \<Rightarrow> wf_manager h m' \<and> chain m' = chain m \<and> mtype m' = mtype m \<and> ID2TYPE i = mtype m \<and>
    isInRange (range_at h p) (i mod 2 ^ 16)"
proof -
  have "wf_range (range_at h p)" using assms(1,2) by (simp add: wf_manager_def wf_chain_def)
  then have "0 \<le> n" "n < 2 ^ 16" using assms(4,5) by (simp_all add: wf_range_def)
  moreover have "0 \<le> mtype m" "mtype m < 2 ^ 15" using assms(1) by (simp_all add: wf_manager_def)
  ultimately show ?thesis using assms id_number [of n "mtype m"]
    by (simp add: emit_id_def head_of_def isInRange_def wf_manager_def)
qed

text \<open>An id that is drawn has the type of the manager and lies in one of its ranges.\<close>

definition good_draw :: "id_heap \<Rightarrow> id_manager \<Rightarrow> int \<Rightarrow> id_manager \<Rightarrow> bool" where
  "good_draw h m i m' \<longleftrightarrow> wf_manager h m' \<and> chain m' = chain m \<and> mtype m' = mtype m \<and>
     (i \<noteq> -1 \<longrightarrow> ID2TYPE i = mtype m \<and> (\<exists>p\<in>set (chain m). isInRange (range_at h p) (i mod 2 ^ 16)))"

lemma good_draw_emit:
  "wf_manager h m \<Longrightarrow> p \<in> set (chain m) \<Longrightarrow> range_min (range_at h p) < n \<Longrightarrow> n \<le> range_max (range_at h p) \<Longrightarrow>
    emit_id m (p # rest) n = (i, m') \<Longrightarrow> good_draw h m i m'"
  using emit_id_in_range [of h m p "p # rest" rest n] by (auto simp: good_draw_def)

lemma nextId_draw:
  assumes wf: "wf_manager h m"
  shows "\<exists>i m'. nextId o1 h m = Inr (i, m') \<and> good_draw h m i m'"
proof -
  have range: "wf_range (range_at h p)" if "p \<in> set (chain m)" for p
    using wf that by (auto simp: wf_manager_def wf_chain_def)
  have cur: "\<exists>ns. chain m = ns @ from_cur m"
    by (metis append_Nil2 from_cur_def option.case_eq_if takeWhile_dropWhile_id)
  have al: "alive h (chain m)" using wf by (simp add: wf_manager_def wf_chain_def)
  then have "alive h (from_cur m)" using cur by (metis alive_simps(3))
  obtain ps ns where ps: "(case cur_idrange m of None \<Rightarrow> get_next_idrange h o1 (chain m)
      | Some p \<Rightarrow> rbind (get_range h p) (\<lambda>_. get_next_idrange h o1 (from_cur m))) = Inr ps"
    and suf: "chain m = ns @ ps" and own: "ps \<noteq> [] \<longrightarrow> owner (range_at h (hd ps)) = Some o1"
  proof (cases "cur_idrange m")
    case None
    obtain qs ns where "get_next_idrange h o1 (chain m) = Inr qs" "chain m = ns @ qs" "qs \<noteq> [] \<longrightarrow> owner (range_at h (hd qs)) = Some o1"
      using get_next_idrange_suffix [OF al, of o1] by blast
    then show ?thesis using that [of qs ns] None by simp
  next
    case (Some p)
    then have "get_range h p = Inr (range_at h p)" using wf al by (simp add: wf_manager_def)
    obtain qs ns where "get_next_idrange h o1 (from_cur m) = Inr qs" "from_cur m = ns @ qs" "qs \<noteq> [] \<longrightarrow> owner (range_at h (hd qs)) = Some o1"
      using get_next_idrange_suffix [OF \<open>alive h (from_cur m)\<close>, of o1] by blast
    moreover obtain ns' where "chain m = ns' @ from_cur m" using cur by blast
    ultimately show ?thesis using that [of qs "ns' @ ns"] Some \<open>get_range h p = Inr (range_at h p)\<close> by simp
  qed
  have sub: "set ps \<subseteq> set (chain m)" using suf by simp
  have none: "good_draw h m (-1) (m\<lparr>cur_idrange := None\<rparr>)" "good_draw h m (-1) (m\<lparr>cur_idrange := None, next_id := -1\<rparr>)"
    using wf by (simp_all add: good_draw_def wf_manager_def)
  have first: "\<exists>i m'. emit_id m qs (range_min (range_at h (hd qs)) + 1) = (i, m') \<and> good_draw h m i m'"
    if "set qs \<subseteq> set (chain m)" "qs \<noteq> []" for qs
    using that good_draw_emit [OF wf, of "hd qs" "range_min (range_at h (hd qs)) + 1" "tl qs"] range [of "hd qs"]
    by (cases qs; cases "emit_id m qs (range_min (range_at h (hd qs)) + 1)") (simp_all add: wf_range_def)
  show ?thesis
  proof (cases ps)
    case Nil
    then show ?thesis using ps none(1) by (simp add: nextId_def)
  next
    case (Cons p rest)
    then have p: "p \<in> set (chain m)" "get_range h p = Inr (range_at h p)" using sub al by auto
    consider "next_id m \<le> range_min (range_at h p)" | "next_id m > range_max (range_at h p)" "\<not> next_id m \<le> range_min (range_at h p)" "rest \<noteq> []"
      | "next_id m > range_max (range_at h p)" "\<not> next_id m \<le> range_min (range_at h p)" "rest = []"
      | "\<not> next_id m \<le> range_min (range_at h p)" "\<not> next_id m > range_max (range_at h p)" by blast
    then show ?thesis
    proof cases
      case 1
      then show ?thesis using ps p Cons first [of ps] sub by (simp add: nextId_def)
    next
      case 2
      then obtain q qs where q: "rest = q # qs" by (cases rest) auto
      then have "get_range h q = Inr (range_at h q)" using sub Cons al by auto
      then show ?thesis using ps p Cons 2 q first [of rest] sub by (simp add: nextId_def)
    next
      case 3
      obtain us ns' where us: "skip_unused h (chain m) = Inr us" "chain m = ns' @ us"
        using skip_unused_suffix [OF al] by blast
      then have "alive h us" using al by (metis alive_simps(3))
      moreover have "owner (range_at h (last us)) = Some o1" if "us \<noteq> []"
        using suf own Cons 3 us(2) that by (metis last_appendR last_ConsL list.sel(1) list.distinct(1))
      ultimately obtain vs where vs: "recycle h o1 us = Inr vs" "set vs \<subseteq> set (chain m)"
        using recycle_suffix [of h us o1] us(2) by fastforce
      show ?thesis
      proof (cases vs)
        case Nil
        then show ?thesis using ps p Cons 3 us vs(1) none by (simp add: nextId_def)
      next
        case q: (Cons q qs)
        then have "get_range h q = Inr (range_at h q)" using vs(2) al by auto
        then show ?thesis using ps p Cons 3 us vs q first [of vs] by (simp add: nextId_def)
      qed
    next
      case 4
      then show ?thesis using ps p Cons good_draw_emit [OF wf p(1), of "next_id m" rest]
        by (cases "emit_id m (p # rest) (next_id m)") (simp add: nextId_def)
    qed
  qed
qed

text \<open>Drawing \<open>n\<close> ids one after the other.\<close>

fun draw :: "nat \<Rightarrow> nat \<Rightarrow> id_heap \<Rightarrow> id_manager \<Rightarrow> (int list \<times> id_manager) res" where
  "draw 0 o1 h m = Inr ([], m)"
| "draw (Suc n) o1 h m = rbind (nextId o1 h m) (\<lambda>(i, m). rbind (draw n o1 h m) (\<lambda>(is, m). Inr (i # is, m)))"

lemma draw_add: "draw (a + b) o1 h m = rbind (draw a o1 h m) (\<lambda>(is, m). rbind (draw b o1 h m) (\<lambda>(js, m). Inr (is @ js, m)))"
  by (induction a arbitrary: m) (auto simp: rbind_def split: sum.splits prod.splits)

lemma get_next_own: "ranges h p = Some r \<Longrightarrow> owner r = Some o1 \<Longrightarrow> get_next_idrange h o1 (p # ps) = Inr (p # ps)"
  by simp

text \<open>Drawing changes the place in the chain only.\<close>

definition moved :: "id_manager \<Rightarrow> id_manager \<Rightarrow> bool" where
  "moved m m' \<longleftrightarrow> m'\<lparr>cur_idrange := None, next_id := 0\<rparr> = m\<lparr>cur_idrange := None, next_id := 0\<rparr>"

lemma moved_trans: "moved a b \<Longrightarrow> moved b c \<Longrightarrow> moved a c"
  by (simp add: moved_def)

lemma movedD: "moved a b \<Longrightarrow> mtype b = mtype a" "moved a b \<Longrightarrow> chain b = chain a"
  "moved a b \<Longrightarrow> b\<lparr>cur_idrange := x, next_id := y\<rparr> = a\<lparr>cur_idrange := x, next_id := y\<rparr>"
  by (cases a; cases b; simp add: moved_def)+

text \<open>The range the manager is at, and what is left of the chain from there.\<close>

definition drawing :: "id_heap \<Rightarrow> nat \<Rightarrow> id_manager \<Rightarrow> nat \<Rightarrow> nat list \<Rightarrow> int \<Rightarrow> bool" where
  "drawing h o1 m p qs n \<longleftrightarrow> cur_idrange m = Some p \<and> next_id m = n \<and> from_cur m = p # qs \<and> alive h (p # qs) \<and>
     owner (range_at h p) = Some o1 \<and> wf_range (range_at h p)"

lemma drawing_step:
  assumes "drawing h o1 m p qs n" "range_min (range_at h p) < n" "n \<le> range_max (range_at h p)"
  shows "\<exists>m'. nextId o1 h m = Inr (id_of m n, m') \<and> drawing h o1 m' p qs (n + 1) \<and> moved m m'"
  using assms
  by (auto simp: drawing_def nextId_def emit_id_def id_of_def head_of_def from_cur_def moved_def)

lemma drawing_range:
  assumes "drawing h o1 m p qs n" "range_min (range_at h p) < n" "n \<le> range_max (range_at h p)"
  shows "\<exists>m'. draw (nat (range_max (range_at h p) + 1 - n)) o1 h m = Inr (map (id_of m) [n..range_max (range_at h p)], m') \<and>
    drawing h o1 m' p qs (range_max (range_at h p) + 1) \<and> moved m m'"
  using assms
proof (induction "nat (range_max (range_at h p) - n)" arbitrary: n m)
  case 0
  then have n: "n = range_max (range_at h p)" by simp
  obtain m' where "nextId o1 h m = Inr (id_of m n, m')" "drawing h o1 m' p qs (n + 1)" "moved m m'"
    using drawing_step [OF 0(2-4)] by blast
  then show ?case by (simp add: n)
next
  case (Suc k)
  obtain m1 where m1: "nextId o1 h m = Inr (id_of m n, m1)" "drawing h o1 m1 p qs (n + 1)" "moved m m1"
    using drawing_step [OF Suc(3-5)] by blast
  have n: "n + 1 \<le> range_max (range_at h p)" "k = nat (range_max (range_at h p) - (n + 1))" using Suc(2) by auto
  obtain m2 where m2: "draw (nat (range_max (range_at h p) + 1 - (n + 1))) o1 h m1 = Inr (map (id_of m1) [n + 1..range_max (range_at h p)], m2)"
      "drawing h o1 m2 p qs (range_max (range_at h p) + 1)" "moved m1 m2"
    using Suc(1) [OF n(2) m1(2)] Suc(4) n(1) by auto
  have "nat (range_max (range_at h p) + 1 - n) = Suc (nat (range_max (range_at h p) + 1 - (n + 1)))" using n by simp
  moreover have "[n..range_max (range_at h p)] = n # [n + 1..range_max (range_at h p)]" using n by (simp add: upto_rec1)
  ultimately show ?case using m1 m2 moved_trans [OF m1(3) m2(3)] by (simp add: id_of_def movedD [OF m1(3)])
qed

definition range_ids :: "id_heap \<Rightarrow> nat \<Rightarrow> int list" where
  "range_ids h p = [range_min (range_at h p) + 1..range_max (range_at h p)]"

lemma drawing_next:
  assumes "drawing h o1 m p (q # qs) n" "range_max (range_at h p) < n" "distinct (chain m)" "p \<in> set (chain m)"
    and q: "wf_range (range_at h q)"
  shows "\<exists>m'. nextId o1 h m = Inr (id_of m (range_min (range_at h q) + 1), m') \<and> cur_idrange m' = Some q \<and>
    next_id m' = range_min (range_at h q) + 2 \<and> from_cur m' = q # qs \<and> moved m m'"
proof -
  define ns where "ns = takeWhile (\<lambda>x. x \<noteq> p) (chain m)"
  have "chain m = ns @ p # q # qs"
    using assms(1) by (auto simp: drawing_def from_cur_def ns_def) (metis takeWhile_dropWhile_id)
  moreover have "dropWhile (\<lambda>x. x \<noteq> q) (ns @ p # q # qs) = dropWhile (\<lambda>x. x \<noteq> q) (p # q # qs)"
    using assms(3) calculation by (intro dropWhile_append2) auto
  ultimately have "dropWhile (\<lambda>x. x \<noteq> q) (chain m) = q # qs" using assms(3) by auto
  then show ?thesis using assms
    by (auto simp: drawing_def nextId_def emit_id_def id_of_def head_of_def from_cur_def wf_range_def moved_def)
qed

lemma drawing_rest:
  assumes "drawing h o1 m p qs (range_max (range_at h p) + 1)" "distinct (chain m)" "p \<in> set (chain m)"
    and "\<forall>q\<in>set qs. owner (range_at h q) = Some o1 \<and> wf_range (range_at h q) \<and> q \<in> set (chain m)"
  shows "\<exists>m' z. draw (length (concat (map (range_ids h) qs))) o1 h m = Inr (map (id_of m) (concat (map (range_ids h) qs)), m') \<and>
    drawing h o1 m' z [] (range_max (range_at h z) + 1) \<and> moved m m'"
  using assms
proof (induction qs arbitrary: m p)
  case (Cons q qs)
  have q: "wf_range (range_at h q)" "owner (range_at h q) = Some o1" "q \<in> set (chain m)" using Cons.prems(4) by auto
  obtain m1 where m1: "nextId o1 h m = Inr (id_of m (range_min (range_at h q) + 1), m1)" "cur_idrange m1 = Some q"
      "next_id m1 = range_min (range_at h q) + 2" "from_cur m1 = q # qs" "moved m m1"
    using drawing_next [OF Cons.prems(1) _ Cons.prems(2,3) q(1)] by auto
  have d1: "drawing h o1 m1 q qs (range_min (range_at h q) + 2)" using m1 q Cons.prems(1) by (simp add: drawing_def)
  obtain m2 where m2: "draw (nat (range_max (range_at h q) + 1 - (range_min (range_at h q) + 2))) o1 h m1 =
      Inr (map (id_of m1) [range_min (range_at h q) + 2..range_max (range_at h q)], m2)"
      "drawing h o1 m2 q qs (range_max (range_at h q) + 1)" "moved m1 m2"
  proof (cases "range_min (range_at h q) + 2 \<le> range_max (range_at h q)")
    case True
    then show ?thesis using drawing_range [OF d1] that by auto
  next
    case False
    then have "range_max (range_at h q) = range_min (range_at h q) + 1" using q(1) by (simp add: wf_range_def)
    then show ?thesis using that [of m1] d1 by (simp add: moved_def algebra_simps)
  qed
  have one: "range_ids h q = (range_min (range_at h q) + 1) # [range_min (range_at h q) + 2..range_max (range_at h q)]"
  proof -
    have "[range_min (range_at h q) + 1..range_max (range_at h q)] = (range_min (range_at h q) + 1) # [range_min (range_at h q) + 1 + 1..range_max (range_at h q)]"
      using q(1) by (intro upto_rec1) (simp add: wf_range_def)
    then show ?thesis by (simp add: range_ids_def add.commute)
  qed
  have len: "length (range_ids h q) = Suc (nat (range_max (range_at h q) + 1 - (range_min (range_at h q) + 2)))"
    unfolding one by simp
  have idm: "id_of m1 = id_of m" "id_of m2 = id_of m" using movedD(1) [OF m1(5)] movedD(1) [OF m2(3)] by (auto simp: id_of_def)
  have first: "draw (length (range_ids h q)) o1 h m = Inr (map (id_of m) (range_ids h q), m2)"
    unfolding len using m1(1) m2(1) by (simp add: one idm)
  have "chain m2 = chain m" using movedD(2) [OF m1(5)] movedD(2) [OF m2(3)] by simp
  then obtain m' z where m': "draw (length (concat (map (range_ids h) qs))) o1 h m2 = Inr (map (id_of m2) (concat (map (range_ids h) qs)), m')"
      "drawing h o1 m' z [] (range_max (range_at h z) + 1)" "moved m2 m'"
    using Cons.IH [OF m2(2)] Cons.prems(2,4) q(3) by auto
  show ?case using first m' moved_trans [OF moved_trans [OF m1(5) m2(3)] m'(3)]
    by (auto simp: draw_add idm)
qed (auto simp: moved_def)

text \<open>
  Where it begins again: at the first range with fewer uses than ids, but only behind the first range with more
  uses than ids, as every range has that has not been counted yet (\<open>used\<close> is 65535).
\<close>

definition begins_again :: "id_heap \<Rightarrow> nat list \<Rightarrow> nat list" where
  "begins_again h ps =
     (let size = (\<lambda>p. range_max (range_at h p) - range_min (range_at h p)); uses = (\<lambda>p. used (range_at h p))
      in dropWhile (\<lambda>p. size p \<le> uses p) (dropWhile (\<lambda>p. uses p \<le> size p) ps))"

lemma skip_unused_eq:
  "alive h ps \<Longrightarrow> skip_unused h ps =
     Inr (dropWhile (\<lambda>p. used (range_at h p) \<le> range_max (range_at h p) - range_min (range_at h p)) ps)"
  by (induction ps) (auto simp: unusedCount_def)

lemma recycle_eq:
  "alive h ps \<Longrightarrow> \<forall>p\<in>set ps. owner (range_at h p) = Some o1 \<Longrightarrow> recycle h o1 ps =
     Inr (dropWhile (\<lambda>p. range_max (range_at h p) - range_min (range_at h p) \<le> used (range_at h p)) ps)"
proof (induction ps)
  case (Cons p ps)
  then obtain r where "ranges h p = Some r" by auto
  then show ?case using Cons by (subst recycle.simps) auto
qed (simp add: recycle.simps)

lemma nextId_starts_over:
  assumes "drawing h o1 m p [] (range_max (range_at h p) + 1)" "alive h (chain m)"
    and own: "\<forall>q\<in>set (chain m). owner (range_at h q) = Some o1"
  shows "nextId o1 h m = Inr (case begins_again h (chain m) of
      [] \<Rightarrow> (-1, m\<lparr>cur_idrange := None, next_id := -1\<rparr>)
    | q # _ \<Rightarrow> (id_of m (range_min (range_at h q) + 1), m\<lparr>cur_idrange := Some q, next_id := range_min (range_at h q) + 2\<rparr>))"
proof -
  let ?us = "dropWhile (\<lambda>p. used (range_at h p) \<le> range_max (range_at h p) - range_min (range_at h p)) (chain m)"
  have us: "set ?us \<subseteq> set (chain m)" by (meson set_dropWhileD subsetI)
  then have al: "alive h ?us" using assms(2) by (auto simp: alive_def)
  have "recycle h o1 ?us = Inr (begins_again h (chain m))"
    using recycle_eq [OF al] own us by (simp add: begins_again_def subset_iff)
  then have again: "rbind (skip_unused h (chain m)) (recycle h o1) = Inr (begins_again h (chain m))"
    by (simp add: skip_unused_eq [OF assms(2)])
  have "set (begins_again h (chain m)) \<subseteq> set (chain m)"
    unfolding begins_again_def Let_def by (meson set_dropWhileD subsetI)
  then have "get_range h q = Inr (range_at h q)" if "begins_again h (chain m) = q # qs" for q qs
    using that assms(2) by (auto simp: alive_def)
  then show ?thesis
    using assms(1) again
    by (auto simp: drawing_def nextId_def from_cur_def wf_range_def emit_id_def id_of_def head_of_def split: list.split)
qed

text \<open>
  C13: Drawing ids from the ranges of one owner gives every id of every range once, in the order of
  the ranges. The next draw gives -1 and leaves the manager as it was at first; but when a range
  with fewer uses than ids comes after one with more uses than ids, as a range has that was never
  counted, it goes on with the first id of the first such range.
\<close>

theorem nextId_deals_all_ids:
  assumes "wf_manager h m" "cur_idrange m = None" "next_id m = -1" "chain m \<noteq> []" "distinct (chain m)"
    and own: "\<forall>p\<in>set (chain m). owner (range_at h p) = Some o1"
  shows "draw (length (concat (map (range_ids h) (chain m))) + 1) o1 h m =
    Inr (case begins_again h (chain m) of
        [] \<Rightarrow> (map (id_of m) (concat (map (range_ids h) (chain m))) @ [-1], m)
      | q # _ \<Rightarrow> (map (id_of m) (concat (map (range_ids h) (chain m))) @ [id_of m (range_min (range_at h q) + 1)],
          m\<lparr>cur_idrange := Some q, next_id := range_min (range_at h q) + 2\<rparr>))"
proof -
  obtain p qs where ps: "chain m = p # qs" using assms(4) by (cases "chain m") auto
  have p: "wf_range (range_at h p)" "owner (range_at h p) = Some o1" and al: "alive h (chain m)"
    using assms(1) own ps by (auto simp: wf_manager_def wf_chain_def)
  define m0 where "m0 = m\<lparr>cur_idrange := Some p, next_id := range_min (range_at h p) + 1\<rparr>"
  have d0: "drawing h o1 m0 p qs (range_min (range_at h p) + 1)"
    using p al ps by (simp add: drawing_def m0_def from_cur_def)
  have same: "nextId o1 h m = nextId o1 h m0"
    using assms(2,3) ps p al by (auto simp: nextId_def m0_def from_cur_def emit_id_def head_of_def wf_range_def)
  obtain m1 where m1: "draw (length (range_ids h p)) o1 h m0 = Inr (map (id_of m0) (range_ids h p), m1)"
      "drawing h o1 m1 p qs (range_max (range_at h p) + 1)" "moved m0 m1"
    using drawing_range [OF d0] p(1) by (auto simp: range_ids_def wf_range_def)
  have len: "length (range_ids h p) = Suc (length (range_ids h p) - 1)" using p(1) by (simp add: range_ids_def wf_range_def)
  have mv: "moved m m0" "moved m m1" using m1(3) by (auto simp: moved_def m0_def)
  have d1: "draw (length (range_ids h p)) o1 h m = Inr (map (id_of m) (range_ids h p), m1)"
  proof -
    have "draw (Suc k) o1 h m = draw (Suc k) o1 h m0" for k by (simp add: same)
    then have "draw (length (range_ids h p)) o1 h m = draw (length (range_ids h p)) o1 h m0" using len by metis
    moreover have "id_of m0 = id_of m" using movedD(1) [OF mv(1)] by (auto simp: id_of_def)
    ultimately show ?thesis using m1(1) by simp
  qed
  obtain m2 z where m2: "draw (length (concat (map (range_ids h) qs))) o1 h m1 = Inr (map (id_of m1) (concat (map (range_ids h) qs)), m2)"
      "drawing h o1 m2 z [] (range_max (range_at h z) + 1)" "moved m1 m2"
    using drawing_rest [OF m1(2)] movedD(2) [OF mv(2)] assms(1,5) own ps by (auto simp: wf_manager_def wf_chain_def)
  have mv2: "moved m m2" using moved_trans [OF mv(2) m2(3)] .
  have idm: "id_of m2 = id_of m" "id_of m1 = id_of m"
    using movedD(1) [OF mv2] movedD(1) [OF mv(2)] by (auto simp: id_of_def)
  have "nextId o1 h m2 = Inr (case begins_again h (chain m) of
      [] \<Rightarrow> (-1, m\<lparr>cur_idrange := None, next_id := -1\<rparr>)
    | q # _ \<Rightarrow> (id_of m (range_min (range_at h q) + 1), m\<lparr>cur_idrange := Some q, next_id := range_min (range_at h q) + 2\<rparr>))"
    using nextId_starts_over [OF m2(2)] movedD(2) [OF mv2] al own 
    by (simp add: movedD(3) [OF mv2] idm(1) split: list.split)
  moreover have "m\<lparr>cur_idrange := None, next_id := -1\<rparr> = m" using assms(2,3) by simp
  ultimately show ?thesis using d1 m2(1) idm(2) unfolding ps list.map concat.simps length_append draw_add
    by (simp split: list.split)
qed

section \<open>What is free\<close>

text \<open>A list of ranges covers the numbers in them.\<close>

definition covers :: "range_list \<Rightarrow> int \<Rightarrow> bool" where
  "covers xs x \<longleftrightarrow> (\<exists>(a, b)\<in>set xs. a < x \<and> x \<le> b)"

lemma covers_simps [simp]:
  "\<not> covers [] x" "covers ((a, b) # xs) x \<longleftrightarrow> a < x \<and> x \<le> b \<or> covers xs x" "covers (xs @ ys) x \<longleftrightarrow> covers xs x \<or> covers ys x"
  by (auto simp: covers_def)

definition span :: "id_heap \<Rightarrow> nat \<Rightarrow> int \<times> int" where
  "span h p = (range_min (range_at h p), range_max (range_at h p))"

definition in_order :: "id_heap \<Rightarrow> nat list \<Rightarrow> bool" where
  "in_order h ps \<longleftrightarrow> sorted_wrt (\<lambda>p q. range_max (range_at h p) \<le> range_min (range_at h q)) ps"

lemma in_order_simps [simp]:
  "in_order h []" "in_order h (p # ps) \<longleftrightarrow> (\<forall>q\<in>set ps. range_max (range_at h p) \<le> range_min (range_at h q)) \<and> in_order h ps"
  by (simp_all add: in_order_def)

lemma exclude_first:
  assumes "c \<le> mn" "mn < mx" "mx < lim" "0 \<le> c" "lim < 2 ^ 16"
  shows "excludeIDRange ((c, lim) # xs) mn mx = (mx, lim) # (if c < mn then (c, mn) # xs else xs)"
  using assms by (auto simp: excludeIDRange_def IDRangeInfo_def ushort_def)

lemma exclude_all_covers:
  assumes "wf_chain h ps" "in_order h ps" "\<forall>p\<in>set ps. c \<le> range_min (range_at h p) \<and> range_max (range_at h p) < lim"
    and "0 \<le> c" "lim < 2 ^ 16"
  shows "\<exists>fl. exclude_all h ps ((c, lim) # xs) = Inr fl \<and>
    (\<forall>x. covers fl x \<longleftrightarrow> covers xs x \<or> c < x \<and> x \<le> lim \<and> \<not> (\<exists>p\<in>set ps. isInRange (range_at h p) x))"
  using assms(1-4)
proof (induction ps arbitrary: c xs)
  case Nil
  then show ?case by auto
next
  case (Cons p ps)
  define a b where "a = range_min (range_at h p)" and "b = range_max (range_at h p)"
  have p: "get_range h p = Inr (range_at h p)" "a < b" "0 \<le> a" and ps: "wf_chain h ps"
    using Cons.prems(1) by (auto simp: wf_chain_def wf_range_def a_def b_def)
  have bounds: "c \<le> a" "b < lim" "\<forall>q\<in>set ps. b \<le> range_min (range_at h q) \<and> range_max (range_at h q) < lim"
    using Cons.prems(2,3) by (auto simp: a_def b_def)
  have step: "exclude_all h (p # ps) ((c, lim) # xs) = exclude_all h ps ((b, lim) # (if c < a then (c, a) # xs else xs))"
    using exclude_first [OF bounds(1) p(2) bounds(2) Cons.prems(4) assms(5)] p(1) by (simp add: a_def b_def)
  obtain fl where fl: "exclude_all h ps ((b, lim) # (if c < a then (c, a) # xs else xs)) = Inr fl"
      "\<forall>x. covers fl x \<longleftrightarrow> covers (if c < a then (c, a) # xs else xs) x \<or>
        b < x \<and> x \<le> lim \<and> \<not> (\<exists>q\<in>set ps. isInRange (range_at h q) x)"
    using Cons.IH [OF ps _ bounds(3), of "if c < a then (c, a) # xs else xs"] Cons.prems(2) p(2,3) by auto
  have later: "\<not> isInRange (range_at h q) x" if "q \<in> set ps" "x \<le> b" for q x
    using bounds(3) that by (auto simp: isInRange_def)
  have "covers fl x \<longleftrightarrow> covers xs x \<or> c < x \<and> x \<le> lim \<and> \<not> (\<exists>q\<in>set (p # ps). isInRange (range_at h q) x)" for x
  proof (cases "x \<le> b")
    case True
    then show ?thesis using fl(2) later bounds(1,2) p(2) by (auto simp: isInRange_def a_def [symmetric] b_def [symmetric])
  next
    case False
    then show ?thesis using fl(2) bounds(1) p(2) by (auto simp: isInRange_def a_def [symmetric] b_def [symmetric])
  qed
  then show ?case using step fl(1) by auto
qed

text \<open>
  C35: With ranges in order, inside the limits and below the upper one, the list of free ranges
  covers exactly the numbers in no range.
\<close>

theorem getFreeIDRanges_exact:
  assumes "wf_chain h (chain m)" "in_order h (chain m)" "0 \<le> limit_min m" "limit_min m < limit_max m" "limit_max m < 2 ^ 16"
    and "\<forall>p\<in>set (chain m). limit_min m \<le> range_min (range_at h p) \<and> range_max (range_at h p) < limit_max m"
  shows "\<exists>fl. getFreeIDRanges h m [] = Inr fl \<and>
    (\<forall>x. covers fl x \<longleftrightarrow> limit_min m < x \<and> x \<le> limit_max m \<and> \<not> (\<exists>p\<in>set (chain m). isInRange (range_at h p) x))"
proof -
  have "includeIDRange [] (limit_min m) (limit_max m) = Inr [(limit_min m, limit_max m)]"
    using assms(3-5) by (simp add: includeIDRange_def IDRangeInfo_def ushort_def)
  then show ?thesis using exclude_all_covers [OF assms(1,2,6,3,5), of "[]"] by (simp add: getFreeIDRanges_def)
qed

text \<open>
  A range that reaches the upper limit makes the list wrong: what is left of the first range is cut at the next
  range, and an entry that ends before a range is extended up to it.
\<close>

lemma exclude_extends: "b < mn \<Longrightarrow> mn < mx \<Longrightarrow> 0 \<le> a \<Longrightarrow> a < b \<Longrightarrow> mn < 2 ^ 16 \<Longrightarrow> excludeIDRange [(a, b)] mn mx = [(a, mn)]"
  by (simp add: excludeIDRange_def ushort_def)

section \<open>Where a range goes\<close>

definition wf_heap :: "id_heap \<Rightarrow> bool" where
  "wf_heap h \<longleftrightarrow> (\<forall>p\<ge>fresh h. ranges h p = None) \<and> (\<forall>o1 p. owner_header h o1 = Some p \<longrightarrow> ranges h p \<noteq> None) \<and>
     (\<forall>p r q. ranges h p = Some r \<longrightarrow> prev r = Some q \<longrightarrow> ranges h q \<noteq> None)"

text \<open>What the ranges are: the lists of the owners and the backward links are left out.\<close>

definition core :: "id_range \<Rightarrow> int \<times> int \<times> nat option \<times> int" where
  "core r = (range_min r, range_max r, owner r, used r)"

definition same_ranges :: "id_heap \<Rightarrow> id_heap \<Rightarrow> bool" where
  "same_ranges h h' \<longleftrightarrow> (\<forall>p r. ranges h p = Some r \<longrightarrow> (\<exists>r'. ranges h' p = Some r' \<and> core r' = core r))"

lemma insert_range_spec:
  assumes "wf_heap h" "0 \<le> mn" "mx < 2 ^ 16" "mn < mx" "\<forall>q. prv = Some q \<longrightarrow> ranges h q \<noteq> None"
  shows "\<exists>h'. insert_range mgr h mn mx o1 prv before after = Inr (Some (fresh h), h', before @ fresh h # after) \<and>
    wf_heap h' \<and> fresh h' = fresh h + 1 \<and> same_ranges h h' \<and>
    (\<exists>r. ranges h' (fresh h) = Some r \<and> core r = (mn, mx, Some o1, 0xFFFF))"
proof -
  define r where "r = (IDRange mn mx)\<lparr>owner := Some o1, prev := prv, manager := mgr\<rparr>"
  define h1 where "h1 = put_range (fresh h) r (h\<lparr>fresh := fresh h + 1\<rparr>)"
  have core: "range_min r = mn" "range_max r = mx" "used r = 0xFFFF" "prev r = prv"
    using assms(2-4) by (simp_all add: r_def IDRange_def ushort_def)
  have new: "ranges h (fresh h) = None" "ranges h1 (fresh h) = Some r" using assms(1) by (simp_all add: wf_heap_def h1_def put_range_def)
  show ?thesis
  proof (cases "owner_header h o1")
    case None
    then have "owner_addIDRange o1 (fresh h) h1 = Inr ((put_range (fresh h) (r\<lparr>owner := Some o1, next_slibing := None, prev_slibing := None\<rparr>) h1)
        \<lparr>owner_header := (owner_header h)(o1 := Some (fresh h))\<rparr>)"
      using new by (simp add: owner_addIDRange_def h1_def put_range_def Let_def)
    then show ?thesis using new core assms(1,5)
      by (auto simp: insert_range_def new_range_def r_def [symmetric] h1_def wf_heap_def put_range_def same_ranges_def core_def)
  next
    case (Some hd1)
    then have "ranges h hd1 \<noteq> None" using assms(1) unfolding wf_heap_def by blast
    then obtain rh where rh: "ranges h hd1 = Some rh" "hd1 \<noteq> fresh h" using new(1) by (metis not_Some_eq)
    then have "owner_addIDRange o1 (fresh h) h1 = Inr ((put_range hd1 (rh\<lparr>prev_slibing := Some (fresh h)\<rparr>)
        (put_range (fresh h) (r\<lparr>owner := Some o1, prev_slibing := prev_slibing rh, next_slibing := Some hd1\<rparr>) h1))
        \<lparr>owner_header := (owner_header h)(o1 := Some (fresh h))\<rparr>)"
      using new Some by (simp add: owner_addIDRange_def h1_def put_range_def Let_def)
    then show ?thesis using new core assms(1,5) rh
      by (auto simp: insert_range_def new_range_def r_def [symmetric] h1_def wf_heap_def put_range_def same_ranges_def core_def)
  qed
qed

lemma same_ranges_put:
  "same_ranges h h' \<Longrightarrow> ranges h' p = Some r \<Longrightarrow> same_ranges h (put_range p (r\<lparr>prev := x, manager := y\<rparr>) h')"
  by (fastforce simp: same_ranges_def put_range_def core_def)

lemma upto_in_split: "p \<notin> set before \<Longrightarrow> upto_in (before @ p # rest) p = before"
  by (induction before) (auto simp: upto_in_def)

lemma after_in_split: "p \<notin> set before \<Longrightarrow> after_in (before @ p # rest) p = rest"
  by (induction before) auto

text \<open>
  A new range that touches no other. \<open>count_below\<close> counts the ranges under it; when that is the first one only, the new
  range goes before it.
\<close>

definition count_below :: "id_heap \<Rightarrow> int \<Rightarrow> nat list \<Rightarrow> nat" where
  "count_below h mn ps = length (takeWhile (\<lambda>p. range_max (range_at h p) < mn) ps)"

definition apart_from :: "id_heap \<Rightarrow> int \<Rightarrow> int \<Rightarrow> nat list \<Rightarrow> bool" where
  "apart_from h mn mx ps \<longleftrightarrow> (\<forall>p\<in>set ps. range_max (range_at h p) < mn \<or> mx < range_min (range_at h p))"

lemma add_loop_spec:
  assumes "wf_heap h" "wf_chain h (before @ prv # rest)" "in_order h (before @ prv # rest)" "distinct (before @ prv # rest)"
    and "apart_from h mn mx (before @ prv # rest)" "range_max (range_at h prv) < mn" "0 \<le> mn" "mn < mx" "mx < 2 ^ 16"
  shows "\<exists>h'. add_loop this h (before @ prv # rest) mn mx o1 prv rest =
      Inr (Some (fresh h), h', (let k = length before + 1 + count_below h mn rest in
        if k = 1 \<and> rest \<noteq> [] then fresh h # before @ prv # rest
        else take k (before @ prv # rest) @ fresh h # drop k (before @ prv # rest))) \<and>
    wf_heap h' \<and> same_ranges h h' \<and> (\<exists>r. ranges h' (fresh h) = Some r \<and> core r = (mn, mx, Some o1, 0xFFFF))"
  using assms(2-6)
proof (induction rest arbitrary: before prv)
  case Nil
  obtain r where r: "ranges h prv = Some r" using Nil(1) by (auto simp: wf_chain_def)
  then have "add_loop this h (before @ [prv]) mn mx o1 prv [] = insert_range (Some (Some this)) h mn mx o1 (Some prv) (before @ [prv]) []"
    using Nil(5) by (simp add: add_last_def)
  then show ?case using r insert_range_spec [OF assms(1,7,9,8) _, of "Some prv" "Some (Some this)" o1 "before @ [prv]" "[]"]
    by (auto simp: count_below_def)
next
  case (Cons p rest)
  define ps where "ps = before @ prv # p # rest"
  obtain r pr where r: "ranges h p = Some r" and pr: "ranges h prv = Some pr" using Cons.prems(1) by (auto simp: wf_chain_def)
  show ?case
  proof (cases "range_max r < mn")
    case True
    have "range_min r < range_max r" using Cons.prems(1) r by (auto simp: wf_chain_def wf_range_def)
    then have "add_loop this h ps mn mx o1 prv (p # rest) = add_loop this h ps mn mx o1 p rest"
      using True r assms(8) by simp
    moreover have "count_below h mn (p # rest) = Suc (count_below h mn rest)" using True r by (simp add: count_below_def)
    ultimately show ?thesis using Cons.IH [of "before @ [prv]" p] Cons.prems True r by (simp add: ps_def Let_def)
  next
    case False
    then have mx: "mx < range_min r" using Cons.prems(4) r by (auto simp: apart_from_def)
    have below: "count_below h mn (p # rest) = 0" using False r by (simp add: count_below_def)
    show ?thesis
    proof (cases "before = []")
      case True
      then have "add_loop this h ps mn mx o1 prv (p # rest) = insert_range (Some (Some this)) h mn mx o1 None [] ps"
        using r mx by (simp add: ps_def)
      then show ?thesis using insert_range_spec [OF assms(1,7,9,8) _, of None "Some (Some this)" o1 "[]" ps] below True
        by (simp add: ps_def del: add_loop.simps) blast
    next
      case b: False
      have "prv \<noteq> hd ps" using Cons.prems(3) b by (cases before) (auto simp: ps_def)
      then have "add_loop this h ps mn mx o1 prv (p # rest) = add_between this h ps mn mx o1 prv pr p r"
        using r pr mx Cons.prems(5) by simp
      moreover have "upto_in ps p = before @ [prv]" "after_in ps p = rest"
        using Cons.prems(3) upto_in_split [of p "before @ [prv]" rest] after_in_split [of p "before @ [prv]" rest]
        by (simp_all add: ps_def)
      moreover obtain h1 where h1: "insert_range None h mn mx o1 (Some prv) (before @ [prv]) (p # rest) =
          Inr (Some (fresh h), h1, (before @ [prv]) @ fresh h # p # rest)" "wf_heap h1" "same_ranges h h1"
          "\<exists>r. ranges h1 (fresh h) = Some r \<and> core r = (mn, mx, Some o1, 0xFFFF)"
        using insert_range_spec [OF assms(1,7,9,8) _, of "Some prv" None o1 "before @ [prv]" "p # rest"] pr by auto
      moreover obtain r1 where r1: "ranges h1 p = Some r1" using h1(3) r by (auto simp: same_ranges_def)
      ultimately have "add_loop this h ps mn mx o1 prv (p # rest) =
          Inr (Some (fresh h), put_range p (r1\<lparr>prev := Some (fresh h), manager := Some (Some this)\<rparr>) h1, (before @ [prv]) @ fresh h # p # rest)"
        using mx pr r Cons.prems(5) by (auto simp: add_between_def Let_def)
      moreover have "p \<noteq> fresh h" using r assms(1) by (auto simp: wf_heap_def)
      ultimately show ?thesis using h1 r1 below b same_ranges_put [OF h1(3) r1]
        by (auto simp: ps_def wf_heap_def put_range_def Let_def)
    qed
  qed
qed

lemma addIDRange_places:
  assumes "wf_heap h" "wf_chain h (chain m)" "in_order h (chain m)" "distinct (chain m)" "apart_from h mn mx (chain m)"
    "0 \<le> mn" "mn < mx" "mx < 2 ^ 16"
  shows "\<exists>h'. addIDRange mn mx o1 m h = Inr (Some (fresh h), m\<lparr>chain := (let k = count_below h mn (chain m) in
        if k = 1 \<and> length (chain m) > 1 then fresh h # chain m
        else take k (chain m) @ fresh h # drop k (chain m))\<rparr>, h') \<and>
    wf_heap h' \<and> same_ranges h h' \<and> (\<exists>r. ranges h' (fresh h) = Some r \<and> core r = (mn, mx, Some o1, 0xFFFF))"
proof (cases "chain m")
  case Nil
  then show ?thesis using assms(7) insert_range_spec [OF assms(1,6,8,7) _, of None "Some (Some (self m))" o1 "[]" "[]"]
    by (auto simp: addIDRange_def count_below_def)
next
  case (Cons p ps)
  obtain r where r: "ranges h p = Some r" "range_min r < range_max r"
    using assms(2) Cons by (auto simp: wf_chain_def wf_range_def)
  show ?thesis
  proof (cases "range_max r < mn")
    case True
    have "add_loop (self m) h (chain m) mn mx o1 p (p # ps) = add_loop (self m) h (chain m) mn mx o1 p ps"
      using True r assms(7) by simp
    moreover have "count_below h mn (p # ps) = Suc (count_below h mn ps)" using True r by (simp add: count_below_def)
    ultimately show ?thesis
      using add_loop_spec [of h "[]" p ps mn mx "self m" o1] assms Cons r True
      by (auto simp: addIDRange_def Let_def split: if_splits)
  next
    case False
    then have mx: "mx < range_min r" using assms(5) r Cons by (auto simp: apart_from_def)
    then show ?thesis using False r Cons assms(7) insert_range_spec [OF assms(1,6,8,7) _, of None "Some (Some (self m))" o1 "[]" "p # ps"]
      by (auto simp: addIDRange_def count_below_def)
  qed
qed

section \<open>Writing and reading the ranges\<close>

text \<open>\<open>MainFrame::saveIDRangeInfo\<close> and \<open>loadIDRanageInfo\<close>, without the XML around the numbers.\<close>

fun saved_ranges :: "id_heap \<Rightarrow> nat list \<Rightarrow> (int \<times> int \<times> nat option) list res" where
  "saved_ranges h [] = Inr []"
| "saved_ranges h (p # ps) = rbind (get_range h p) (\<lambda>r. rbind (saved_ranges h ps) (\<lambda>xs. Inr ((range_min r, range_max r, owner r) # xs)))"

fun load_ranges :: "(int \<times> int \<times> nat option) list \<Rightarrow> id_manager \<Rightarrow> id_heap \<Rightarrow> (id_manager \<times> id_heap) res" where
  "load_ranges [] m h = Inr (m, h)"
| "load_ranges ((mn, mx, None) # xs) m h = load_ranges xs m h"
| "load_ranges ((mn, mx, Some o1) # xs) m h = rbind (addIDRange mn mx o1 m h) (\<lambda>(_, m, h). load_ranges xs m h)"

definition empty_heap :: id_heap where
  "empty_heap = \<lparr>ranges = (\<lambda>_. None), fresh = 0, owner_header = (\<lambda>_. None)\<rparr>"

lemma saved_ranges_alive: "alive h ps \<Longrightarrow>
    saved_ranges h ps = Inr (map (\<lambda>p. (range_min (range_at h p), range_max (range_at h p), owner (range_at h p))) ps)"
  by (induction ps) auto

lemma same_ranges_at: "same_ranges h h' \<Longrightarrow> ranges h p = Some r \<Longrightarrow> ranges h' p \<noteq> None \<and> core (range_at h' p) = core (range_at h p)"
  by (force simp: same_ranges_def)

definition loaded :: "(int \<times> int \<times> nat option) list \<Rightarrow> id_manager \<Rightarrow> id_heap \<Rightarrow> bool" where
  "loaded xs m h \<longleftrightarrow> wf_heap h \<and> wf_chain h (chain m) \<and> in_order h (chain m) \<and> distinct (chain m) \<and>
     map (\<lambda>p. (range_min (range_at h p), range_max (range_at h p), owner (range_at h p))) (chain m) = xs"

lemma load_one:
  assumes "loaded xs m h" "\<forall>(a, b, c)\<in>set xs. b < mn" "0 \<le> mn" "mn < mx" "mx < 2 ^ 16"
  shows "\<exists>m' h' q. addIDRange mn mx o1 m h = Inr (Some q, m', h') \<and> loaded (xs @ [(mn, mx, Some o1)]) m' h'"
proof -
  have low: "\<forall>p\<in>set (chain m). range_max (range_at h p) < mn" using assms(1,2) by (auto simp: loaded_def)
  then have k: "count_below h mn (chain m) = length (chain m)" by (simp add: count_below_def takeWhile_eq_all_conv [THEN iffD2])
  have "apart_from h mn mx (chain m)" using low by (auto simp: apart_from_def)
  moreover have place: "(let k = count_below h mn (chain m) in
      if k = 1 \<and> length (chain m) > 1 then fresh h # chain m else take k (chain m) @ fresh h # drop k (chain m)) = chain m @ [fresh h]"
    by (auto simp: k Let_def)
  ultimately obtain h' where h': "addIDRange mn mx o1 m h = Inr (Some (fresh h), m\<lparr>chain := chain m @ [fresh h]\<rparr>, h')"
      "wf_heap h'" "same_ranges h h'" "\<exists>r. ranges h' (fresh h) = Some r \<and> core r = (mn, mx, Some o1, 0xFFFF)"
    using addIDRange_places [of h m mn mx o1] assms unfolding place loaded_def by blast
  have old: "ranges h' p \<noteq> None \<and> core (range_at h' p) = core (range_at h p)" if p: "p \<in> set (chain m)" for p
  proof -
    obtain r where "ranges h p = Some r" using assms(1) p by (auto simp: loaded_def wf_chain_def alive_def)
    then show ?thesis by (rule same_ranges_at [OF h'(3)])
  qed
  have "fresh h \<notin> set (chain m)" using assms(1) by (auto simp: loaded_def wf_chain_def alive_def wf_heap_def)
  then have "loaded (xs @ [(mn, mx, Some o1)]) (m\<lparr>chain := chain m @ [fresh h]\<rparr>) h'"
    using assms h'(2,4) old low
    by (auto simp: loaded_def wf_chain_def alive_def wf_range_def core_def in_order_def sorted_wrt_append intro: sorted_wrt_mono_rel [rotated] less_imp_le)
  then show ?thesis using h'(1) by blast
qed

lemma load_all:
  assumes "loaded xs m h" "sorted_wrt (\<lambda>(a, b, c) (a', b', c'). b < a') (xs @ ys)"
    and "\<forall>(a, b, c)\<in>set ys. 0 \<le> a \<and> a < b \<and> b < 2 ^ 16 \<and> c \<noteq> None"
  shows "\<exists>m' h'. load_ranges ys m h = Inr (m', h') \<and> loaded (xs @ ys) m' h'"
  using assms
proof (induction ys arbitrary: xs m h)
  case (Cons y ys)
  obtain a b o1 where y: "y = (a, b, Some o1)" using Cons.prems(3) by (cases y) auto
  obtain m1 h1 q where m1: "addIDRange a b o1 m h = Inr (Some q, m1, h1)" "loaded (xs @ [y]) m1 h1"
    using load_one [OF Cons.prems(1), of a b o1] Cons.prems(2,3) y by (fastforce simp: sorted_wrt_append)
  obtain m' h' where "load_ranges ys m1 h1 = Inr (m', h')" "loaded ((xs @ [y]) @ ys) m' h'"
    using Cons.IH [OF m1(2)] Cons.prems(2,3) by auto
  then show ?case using m1(1) y by simp
qed simp

lemma loaded_nothing: "loaded [] (IDRangeManager this t lmin lmax) empty_heap"
  by (simp add: loaded_def IDRangeManager_def empty_heap_def wf_heap_def wf_chain_def)

lemma addIDRange_limits: "addIDRange mn mx o1 m h = Inr (q, m', h') \<Longrightarrow> limit_min m' = limit_min m \<and> limit_max m' = limit_max m"
  by (auto simp: addIDRange_def rbind_eq_Inr split: if_splits)

lemma load_ranges_limits: "load_ranges xs m h = Inr (m', h') \<Longrightarrow> limit_min m' = limit_min m \<and> limit_max m' = limit_max m"
  by (induction xs m h rule: load_ranges.induct) (auto simp: rbind_eq_Inr dest: addIDRange_limits)

section \<open>What the component promises\<close>

text \<open>
  A new range that touches no other is put where its numbers belong and changes no other range,
  except that a range between the first and the second is put before the first.
\<close>

theorem addIDRange_places_range:
  assumes "wf_heap h" "wf_chain h (chain m)" "in_order h (chain m)" "distinct (chain m)" "apart_from h mn mx (chain m)"
    "0 \<le> mn" "mn < mx" "mx < 2 ^ 16"
  shows "\<exists>h'. addIDRange mn mx o1 m h = Inr (Some (fresh h), m\<lparr>chain := (let k = count_below h mn (chain m) in
        if k = 1 \<and> length (chain m) > 1 then fresh h # chain m
        else take k (chain m) @ fresh h # drop k (chain m))\<rparr>, h') \<and>
    wf_heap h' \<and> same_ranges h h' \<and> (\<exists>r. ranges h' (fresh h) = Some r \<and> core r = (mn, mx, Some o1, 0xFFFF))"
  by (rule addIDRange_places [OF assms])

text \<open>
  Ranges with gaps between them that are saved in order are read back as they were, with their
  owners.
\<close>

theorem id_ranges_reload:
  assumes "sorted_wrt (\<lambda>(a, b, c) (a', b', c'). b < a') xs"
    and "\<forall>(a, b, c)\<in>set xs. 0 \<le> a \<and> a < b \<and> b < 2 ^ 16 \<and> c \<noteq> None"
  shows "\<exists>m h. load_ranges xs (IDRangeManager this t lmin lmax) empty_heap = Inr (m, h) \<and> saved_ranges h (chain m) = Inr xs"
proof -
  obtain m h where "load_ranges xs (IDRangeManager this t lmin lmax) empty_heap = Inr (m, h)" "loaded xs m h"
    using load_all [OF loaded_nothing, of xs this t lmin lmax] assms by auto
  then show ?thesis using saved_ranges_alive by (auto simp: loaded_def wf_chain_def)
qed

text \<open>
  nextId never faults on a well-formed manager: it gives -1 or an id of the right type whose number
  lies in one of the ranges, and keeps the manager well formed.
\<close>

theorem nextId_gives_id_of_a_range:
  assumes "wf_manager h m"
  shows "\<exists>i m'. nextId o1 h m = Inr (i, m') \<and> wf_manager h m' \<and> chain m' = chain m \<and>
    (i = -1 \<or> ID2TYPE i = mtype m \<and> (\<exists>p\<in>set (chain m). isInRange (range_at h p) (i mod 2 ^ 16)))"
  using nextId_draw [OF assms, of o1] by (auto simp: good_draw_def)

text \<open>
  When a range is used up and the next one belongs to somebody else, nextId draws an id from that
  range.
\<close>

theorem nextId_leaves_the_owner:
  assumes "wf_manager h m" "distinct (chain m)" "chain m = before @ p # q # after" "cur_idrange m = Some p"
    and "owner (range_at h p) = Some o1" "owner (range_at h q) = Some o2" "o1 \<noteq> o2" "next_id m > range_max (range_at h p)"
  shows "\<exists>i m'. nextId o1 h m = Inr (i, m') \<and> i = id_of m (range_min (range_at h q) + 1) \<and>
    isInRange (range_at h q) (i mod 2 ^ 16)"
proof -
  have q: "wf_range (range_at h q)" "wf_range (range_at h p)" "alive h (p # q # after)"
    using assms(1,3) by (auto simp: wf_manager_def wf_chain_def)
  have "dropWhile (\<lambda>x. x \<noteq> p) (before @ p # q # after) = dropWhile (\<lambda>x. x \<noteq> p) (p # q # after)"
    using assms(2,3) by (intro dropWhile_append2) auto
  then have "drawing h o1 m p (q # after) (next_id m)" using assms q by (simp add: drawing_def from_cur_def)
  from drawing_next [OF this assms(8,2) _ q(1)] obtain m' where
    "nextId o1 h m = Inr (id_of m (range_min (range_at h q) + 1), m')" using assms(3) by auto
  moreover have "id_of m (range_min (range_at h q) + 1) mod 2 ^ 16 = range_min (range_at h q) + 1"
    using id_number(2) [of "range_min (range_at h q) + 1" "mtype m"] q(1) assms(1) by (simp add: id_of_def wf_range_def wf_manager_def)
  ultimately show ?thesis using q(1) by (simp add: isInRange_def wf_range_def)
qed

lemma exclude_all_one: "ranges h p \<noteq> None \<Longrightarrow> exclude_all h (p # ps) xs =
    exclude_all h ps (excludeIDRange xs (range_min (range_at h p)) (range_max (range_at h p)))"
  by auto

lemma core_at: "same_ranges h h' \<Longrightarrow> ranges h p = Some r \<Longrightarrow>
    ranges h' p \<noteq> None \<and> range_min (range_at h' p) = range_min r \<and> range_max (range_at h' p) = range_max r"
  using same_ranges_at [of h h' p r] by (simp add: core_def)

text \<open>
  After a range is added between the first and the second the dialog shows the whole first range as
  free.
\<close>

theorem range_between_first_two_hides_the_first:
  assumes "0 \<le> a" "a < b" "b < c" "c < d" "d < e" "e < f" "f < 0xFFFF"
  shows "\<exists>m h fl. load_ranges [(a, b, Some o1), (e, f, Some o2), (c, d, Some o3)] (IDRangeManager this t 0 0xFFFF) empty_heap = Inr (m, h) \<and>
    getFreeIDRanges h m [] = Inr fl \<and> (\<forall>x\<in>{a<..b}. covers fl x)"
proof -
  define m0 where "m0 = IDRangeManager this t 0 0xFFFF"
  obtain m1 h1 where m1: "load_ranges [(a, b, Some o1), (e, f, Some o2)] m0 empty_heap = Inr (m1, h1)"
      "loaded [(a, b, Some o1), (e, f, Some o2)] m1 h1" "limit_min m1 = 0" "limit_max m1 = 0xFFFF"
    using load_all [OF loaded_nothing, of "[(a, b, Some o1), (e, f, Some o2)]" this t 0 "0xFFFF"] assms load_ranges_limits
    by (fastforce simp: m0_def IDRangeManager_def ushort_def)
  obtain p q where pq: "chain m1 = [p, q]" using m1(2) by (auto simp: loaded_def map_eq_Cons_conv)
  have spans: "range_min (range_at h1 p) = a" "range_max (range_at h1 p) = b" "range_min (range_at h1 q) = e" "range_max (range_at h1 q) = f"
      "ranges h1 p \<noteq> None" "ranges h1 q \<noteq> None"
    using m1(2) pq by (auto simp: loaded_def wf_chain_def)
  have "count_below h1 c (chain m1) = 1" using spans pq assms by (simp add: count_below_def)
  moreover have "apart_from h1 c d (chain m1)" using spans pq assms by (simp add: apart_from_def)
  ultimately obtain h where h: "addIDRange c d o3 m1 h1 = Inr (Some (fresh h1), m1\<lparr>chain := fresh h1 # chain m1\<rparr>, h)"
      "same_ranges h1 h" "\<exists>r. ranges h (fresh h1) = Some r \<and> core r = (c, d, Some o3, 0xFFFF)"
    using addIDRange_places [of h1 m1 c d o3] m1(2) pq assms by (auto simp: loaded_def)
  have at: "ranges h (fresh h1) \<noteq> None" "range_min (range_at h (fresh h1)) = c" "range_max (range_at h (fresh h1)) = d"
      "ranges h p \<noteq> None" "range_min (range_at h p) = a" "range_max (range_at h p) = b"
      "ranges h q \<noteq> None" "range_min (range_at h q) = e" "range_max (range_at h q) = f"
    using h(3) core_at [OF h(2)] spans by (auto simp: core_def)
  define m where "m = m1\<lparr>chain := [fresh h1, p, q]\<rparr>"
  have "getFreeIDRanges h m [] = Inr [(f, 0xFFFF), (d, e), (0, c)]"
    using assms at m1(3,4)
    by (simp add: getFreeIDRanges_def m_def includeIDRange_def IDRangeInfo_def ushort_def exclude_all_one excludeIDRange_def del: exclude_all.simps(2))
  moreover have "covers [(f, 0xFFFF), (d, e), (0, c)] x" if "x \<in> {a<..b}" for x using that assms by simp
  moreover have "load_ranges [(a, b, Some o1), (e, f, Some o2), (c, d, Some o3)] m0 empty_heap = Inr (m, h)"
    using m1(1) h(1) pq by (auto simp: rbind_eq_Inr m_def)
  ultimately show ?thesis unfolding m0_def by blast
qed

text \<open>
  Filling the gap between two ranges of one owner loses numbers: the upper range is deleted, the
  lower one is not extended, so the numbers of the gap and of the upper range are in no range.
\<close>

theorem combining_loses_a_range:
  assumes "0 < a" "a < b" "b < c" "c < d" "d < e" "e < f" "f < g" "g < k" "k < 2 ^ 16"
    and "loaded [(a, b, Some o1), (c, d, Some o1), (e, f, Some o1), (g, k, Some o2)] m h"
  shows "(\<forall>x\<in>{e<..f}. \<exists>p. getIDRangeById h (chain m) x = Inr (Some p)) \<and>
    (\<exists>p m' h'. addIDRange d e o1 m h = Inr (Some p, m', h') \<and> (\<forall>x\<in>{d<..f}. getIDRangeById h' (chain m') x = Inr None))"
proof -
  obtain p q r s where ps: "chain m = [p, q, r, s]" using assms(10) by (auto simp: loaded_def map_eq_Cons_conv)
  have at: "range_min (range_at h p) = a" "range_max (range_at h p) = b" "range_min (range_at h q) = c" "range_max (range_at h q) = d"
      "range_min (range_at h r) = e" "range_max (range_at h r) = f" "range_min (range_at h s) = g" "range_max (range_at h s) = k"
      "owner (range_at h q) = Some o1" "owner (range_at h r) = Some o1" "distinct [p, q, r, s]"
      "ranges h p \<noteq> None" "ranges h q \<noteq> None" "ranges h r \<noteq> None" "ranges h s \<noteq> None"
    using assms(10) ps by (auto simp: loaded_def wf_chain_def)
  have get: "get_range h x = Inr (range_at h x)" if "ranges h x \<noteq> None" for x using that by auto
  have "prev (range_at h q) = Some z \<Longrightarrow> ranges h z \<noteq> None" for z
    using assms(10) at(13) by (auto simp: loaded_def wf_heap_def)
  then obtain low where "linked h (prev (range_at h q)) (\<lambda>x. c < range_max x) = Inr low"
    by (cases "prev (range_at h q)") (auto simp: linked_def)
  then have "extend h [p, q, r, s] q c f = Inr (False, h)"
    using at assms(1-9) by (simp add: extend_def get linked_def)
  then have "addIDRange d e o1 m h = Inr (Some q, m\<lparr>chain := [p, q, s]\<rparr>,
      delete_range r (if prev (range_at h s) \<noteq> None then put_range s ((range_at h s)\<lparr>prev := Some q\<rparr>) h else h))"
    using at assms(1-9) ps by (simp add: addIDRange_def get add_between_def combine_def upto_in_def)
  moreover have "getIDRangeById (delete_range r (if prev (range_at h s) \<noteq> None then put_range s ((range_at h s)\<lparr>prev := Some q\<rparr>) h else h)) [p, q, s] x = Inr None"
    if "x \<in> {d<..f}" for x
    using that at assms(1-9) by (auto simp: get_range_def delete_range_def put_range_def isInRange_def)
  moreover have "getIDRangeById h (chain m) x = Inr (Some r)" if "x \<in> {e<..f}" for x
    using that at assms(1-9) by (auto simp: ps get isInRange_def)
  ultimately show ?thesis by fastforce
qed

text \<open>
  Faults of the ranges: a range that is inserted between two has no manager, a range that was combined is still in
  the list of its owner, a range next to one of another owner loses its first id, and a range cannot be extended
  down to 0.
\<close>

lemma inserted_range_has_no_manager:
  "(case load_ranges [(0, 10, Some 1), (20, 30, Some 1), (40, 50, Some 1), (33, 36, Some 1)] (IDRangeManager 0 1 0 0xFFFF) empty_heap of
      Inr (m, h) \<Rightarrow> owner_isInRange (\<lambda>_. 1) h 1 (2 ^ 16 + 5) | Inl x \<Rightarrow> None) = Some (Inl Wild_Pointer)"
  by code_simp

lemma combined_range_still_owned:
  "(case load_ranges [(0, 10, Some 1), (20, 30, Some 1), (40, 50, Some 1), (60, 70, Some 1), (30, 40, Some 1)] (IDRangeManager 0 1 0 0xFFFF) empty_heap of
      Inr (m, h) \<Rightarrow> owner_isInRange (\<lambda>_. 1) h 1 (2 ^ 16 + 5) | Inl x \<Rightarrow> None) = Some (Inl Use_After_Free)"
  by code_simp

lemma combining_at_the_end:
  "(case load_ranges [(0, 10, Some 1), (20, 30, Some 1), (40, 50, Some 1), (30, 40, Some 1)] (IDRangeManager 0 1 0 0xFFFF) empty_heap of
      Inl x \<Rightarrow> x = Null_Deref | Inr y \<Rightarrow> False)"
  by code_simp

lemma neighbour_loses_an_id:
  "rbind (load_ranges [(0, 10, Some 1), (10, 20, Some 2)] (IDRangeManager 0 1 0 0xFFFF) empty_heap) (\<lambda>(m, h). saved_ranges h (chain m)) =
    Inr [(0, 10, Some 1), (11, 20, Some 2)]"
  by code_simp

lemma range_from_0_not_added:
  "rbind (load_ranges [(10, 20, Some 1), (0, 10, Some 1)] (IDRangeManager 0 1 0 0xFFFF) empty_heap) (\<lambda>(m, h). saved_ranges h (chain m)) =
    Inr [(10, 20, Some 1)]"
  by code_simp

lemma full_type_hides_free_ids:
  "rbind (load_ranges [(10, 20, Some 1), (30, 0xFFFF, Some 1)] (IDRangeManager 0 1 0 0xFFFF) empty_heap) (\<lambda>(m, h). getFreeIDRanges h m []) =
    Inr [(20, 30), (0, 30)]"
  by code_simp

lemma joining_past_the_end: "includeIDRange [(0, 10), (10, 20)] 0 15 = Inl Out_Of_Bounds"
  by code_simp

section \<open>Witnesses\<close>

definition one_range_heap :: id_heap where
  "one_range_heap = empty_heap\<lparr>ranges := (\<lambda>_. None)(0 := Some ((IDRange 4 6)\<lparr>owner := Some 7, used := 0\<rparr>)), fresh := 1\<rparr>"

definition one_range_manager :: id_manager where
  "one_range_manager = (IDRangeManager 0 1 0 0xFFFF)\<lparr>chain := [0]\<rparr>"

lemma one_range:
  "wf_manager one_range_heap one_range_manager" "range_at one_range_heap 0 = (IDRange 4 6)\<lparr>owner := Some 7, used := 0\<rparr>"
  "chain one_range_manager = [0]"
  by (simp_all add: one_range_heap_def one_range_manager_def wf_manager_def wf_chain_def wf_range_def IDRangeManager_def IDRange_def
      ushort_def alive_def)

lemma nextId_deals_all_ids_witness:
  "draw 3 7 one_range_heap one_range_manager = Inr ([2 ^ 16 + 5, 2 ^ 16 + 6, -1], one_range_manager)"
proof -
  have "cur_idrange one_range_manager = None \<and> next_id one_range_manager = -1"
    by (simp add: one_range_manager_def IDRangeManager_def)
  moreover have "[5..6] = [5, 6::int]" by (simp add: upto_rec1)
  moreover have "id_of one_range_manager 5 = 2 ^ 16 + 5" "id_of one_range_manager 6 = 2 ^ 16 + 6"
    by (simp_all add: id_of_def one_range_manager_def IDRangeManager_def)
  ultimately show ?thesis using nextId_deals_all_ids [OF one_range(1), of 7] one_range(2,3)
    by (simp add: range_ids_def IDRange_def ushort_def numeral_eq_Suc begins_again_def)
qed

lemma getFreeIDRanges_exact_witness:
  "\<exists>fl. getFreeIDRanges one_range_heap one_range_manager [] = Inr fl \<and> covers fl 4 \<and> \<not> covers fl 5 \<and> covers fl 7"
proof -
  have "wf_chain one_range_heap (chain one_range_manager)" using one_range(1) by (simp add: wf_manager_def)
  then show ?thesis using getFreeIDRanges_exact [of one_range_heap one_range_manager] one_range(2,3)
    by (fastforce simp: one_range_manager_def IDRangeManager_def ushort_def IDRange_def isInRange_def)
qed

lemma addIDRange_places_range_witness:
  "\<exists>h'. addIDRange 10 20 3 one_range_manager one_range_heap = Inr (Some 1, one_range_manager\<lparr>chain := [0, 1]\<rparr>, h') \<and> wf_heap h'"
proof -
  have "wf_heap one_range_heap" by (simp add: wf_heap_def one_range_heap_def empty_heap_def IDRange_def)
  moreover have "wf_chain one_range_heap (chain one_range_manager)" using one_range(1) by (simp add: wf_manager_def)
  moreover have "fresh one_range_heap = 1" by (simp add: one_range_heap_def)
  ultimately show ?thesis using addIDRange_places_range [of one_range_heap one_range_manager 10 20 3] one_range(2,3)
    by (simp add: apart_from_def count_below_def IDRange_def ushort_def) blast
qed

lemma id_ranges_reload_witness:
  "\<exists>m h. load_ranges [(0, 10, Some 1), (20, 30, Some 2)] (IDRangeManager 0 1 0 0xFFFF) empty_heap = Inr (m, h) \<and>
    saved_ranges h (chain m) = Inr [(0, 10, Some 1), (20, 30, Some 2)]"
  using id_ranges_reload [of "[(0, 10, Some 1), (20, 30, Some 2)]" 0 1 0 "0xFFFF"] by simp

lemma nextId_gives_id_of_a_range_witness:
  "\<exists>i m'. nextId 7 one_range_heap one_range_manager = Inr (i, m') \<and> wf_manager one_range_heap m'"
  using nextId_gives_id_of_a_range [OF one_range(1), of 7] by blast

lemma nextId_leaves_the_owner_witness:
  "\<exists>h m i m'. nextId 1 h m = Inr (i, m') \<and> i = 2 ^ 16 + 12"
proof -
  define h where "h = empty_heap\<lparr>ranges := (\<lambda>_. None)(0 := Some ((IDRange 4 6)\<lparr>owner := Some 1\<rparr>), 1 := Some ((IDRange 11 15)\<lparr>owner := Some 2\<rparr>))\<rparr>"
  define m where "m = (IDRangeManager 0 1 0 0xFFFF)\<lparr>chain := [0, 1], cur_idrange := Some 0, next_id := 7\<rparr>"
  have wf: "wf_manager h m" "distinct (chain m)" "chain m = [] @ 0 # 1 # []" "cur_idrange m = Some 0"
    by (simp_all add: h_def m_def wf_manager_def wf_chain_def wf_range_def IDRangeManager_def IDRange_def ushort_def)
  have "id_of m 12 = 2 ^ 16 + 12" by (simp add: id_of_def m_def IDRangeManager_def)
  then show ?thesis using nextId_leaves_the_owner [OF wf, of 1 2]
    by (auto simp: h_def m_def IDRange_def ushort_def)
qed

lemma range_between_first_two_hides_the_first_witness:
  "\<exists>m h fl. load_ranges [(0, 100, Some 1), (200, 300, Some 1), (120, 150, Some 1)] (IDRangeManager 0 1 0 0xFFFF) empty_heap = Inr (m, h) \<and>
    getFreeIDRanges h m [] = Inr fl \<and> covers fl 50"
  using range_between_first_two_hides_the_first [of 0 100 120 150 200 300 1 1 1 0 1] by fastforce

lemma combining_loses_a_range_witness:
  "\<exists>m h q m' h'. addIDRange 30 40 1 m h = Inr (Some q, m', h') \<and> getIDRangeById h' (chain m') 45 = Inr None"
proof -
  obtain m h where "loaded ([] @ [(5, 10, Some 1), (20, 30, Some 1), (40, 50, Some 1), (60, 70, Some 2)]) m h"
    using load_all [OF loaded_nothing, of "[(5, 10, Some 1), (20, 30, Some 1), (40, 50, Some 1), (60, 70, Some 2)]"] by fastforce
  then show ?thesis using combining_loses_a_range [of 5 10 20 30 40 50 60 70 1 2 m h] by fastforce
qed

end
