(* ===== verification/Res_Ids.thy ===== *)
theory Res_Ids
  imports Id_Range
begin

text \<open>
  The resources of an editor (\<open>include/reseditor.h\<close>, \<open>common/reseditor.cpp\<close>): every resource has an id and may have a
  name, and is found by either. The objects are on a heap; \<open>reses\<close> is the map from ids to them, ordered as the
  code's, \<open>namedRes\<close> the one from names. The dialog for a new id range (\<open>mainframe/newidrange.cpp\<close>) is given by what
  the user enters until it is cancelled.

  Strings of sources are given by their number in the string table of the main frame, and what other editors do
  when they are told of a change is left out.
\<close>

section \<open>Resources\<close>

record resource =
  res_name :: "char list"
  res_id :: int
  source_id :: int
  use_ref :: int

record editor =
  resources :: "nat \<Rightarrow> resource option"
  next_addr :: nat
  reses :: "(int \<times> nat) list"
  namedRes :: "char list \<Rightarrow> nat option"
  bIdChanged :: bool
  idrms :: "nat \<Rightarrow> id_manager"
  id_ranges :: id_heap

text \<open>What the editor's class and the main frame provide: \<open>getIDRangeManager\<close>, the current owner, the type mask.\<close>

record editor_env =
  getIDRangeManager :: "int \<Rightarrow> char list option \<Rightarrow> nat option"
  getCurOwner :: nat
  getTypeMask :: int

fun map_put :: "int \<Rightarrow> 'a \<Rightarrow> (int \<times> 'a) list \<Rightarrow> (int \<times> 'a) list" where
  "map_put k v [] = [(k, v)]"
| "map_put k v ((k', v') # xs) =
     (if k = k' then (k, v) # xs else if k < k' then (k, v) # (k', v') # xs else (k', v') # map_put k v xs)"

definition map_erase :: "int \<Rightarrow> (int \<times> 'a) list \<Rightarrow> (int \<times> 'a) list" where
  "map_erase k xs = filter (\<lambda>(k', v). k' \<noteq> k) xs"

definition get_res :: "editor \<Rightarrow> nat \<Rightarrow> resource res" where
  "get_res ed p = (case resources ed p of None \<Rightarrow> Inl Use_After_Free | Some r \<Rightarrow> Inr r)"

definition put_res :: "nat \<Rightarrow> resource \<Rightarrow> editor \<Rightarrow> editor" where
  "put_res p r ed = ed\<lparr>resources := (resources ed)(p \<mapsto> r)\<rparr>"

text \<open>\<open>reses.at(id)\<close> is \<open>NULL\<close> for an id that is not there.\<close>

definition with_res :: "int \<Rightarrow> editor \<Rightarrow> 'a res \<Rightarrow> (nat \<Rightarrow> resource \<Rightarrow> 'a res) \<Rightarrow> 'a res" where
  "with_res i ed none some = (case map_of (reses ed) i of None \<Rightarrow> none | Some p \<Rightarrow> rbind (get_res ed p) (some p))"

section \<open>Names\<close>

definition c_isalpha :: "char \<Rightarrow> bool" where
  "c_isalpha c \<longleftrightarrow> 65 \<le> (of_char c :: nat) \<and> (of_char c :: nat) \<le> 90 \<or> 97 \<le> (of_char c :: nat) \<and> (of_char c :: nat) \<le> 122"

definition ValidIDName :: "char list \<Rightarrow> bool" where
  "ValidIDName name \<longleftrightarrow> (case name of [] \<Rightarrow> False
     | c # cs \<Rightarrow> c_isalpha c \<and> (\<forall>x\<in>set cs. x = CHR ''_'' \<or> c_isdigit x \<or> c_isalpha x))"

definition isValidName :: "editor \<Rightarrow> char list option \<Rightarrow> bool" where
  "isValidName ed name = (case name of None \<Rightarrow> False | Some n \<Rightarrow> namedRes ed n = None \<and> ValidIDName n)"

definition idToName :: "int \<Rightarrow> editor \<Rightarrow> char list option res" where
  "idToName i ed = with_res i ed (Inr None) (\<lambda>p r. Inr (Some (res_name r)))"

definition nameToId :: "char list option \<Rightarrow> editor \<Rightarrow> int res" where
  "nameToId name ed = (case name of None \<Rightarrow> Inr (-1)
     | Some n \<Rightarrow> (case namedRes ed n of None \<Rightarrow> Inr (-1) | Some p \<Rightarrow> rbind (get_res ed p) (\<lambda>r. Inr (res_id r))))"

definition getRes :: "int \<Rightarrow> editor \<Rightarrow> int res" where
  "getRes i ed = with_res i ed (Inr 0) (\<lambda>p r. Inr (source_id r))"

definition setRes :: "int \<Rightarrow> int \<Rightarrow> editor \<Rightarrow> (bool \<times> editor) res" where
  "setRes i s ed = with_res i ed (Inr (False, ed)) (\<lambda>p r. Inr (True, put_res p (r\<lparr>source_id := s\<rparr>) ed))"

section \<open>Ids\<close>

definition count_id :: "editor_env \<Rightarrow> (id_manager \<Rightarrow> int \<Rightarrow> id_heap \<Rightarrow> (bool \<times> id_heap) res) \<Rightarrow> int \<Rightarrow> char list option \<Rightarrow> editor \<Rightarrow> editor res" where
  "count_id E f i name ed =
     (case getIDRangeManager E (ID2TYPE i) name of
        None \<Rightarrow> Inr ed
      | Some k \<Rightarrow> rbind (f (idrms ed k) i (id_ranges ed)) (\<lambda>(_, h). Inr (ed\<lparr>id_ranges := h\<rparr>)))"

text \<open>
  The numbers of a new range that are in use are counted. \<open>lower_bound\<close> and \<open>upper_bound\<close> give the ids between
  the two ends.
\<close>

definition count_used :: "(int \<times> nat) list \<Rightarrow> int \<Rightarrow> id_range \<Rightarrow> int" where
  "count_used rs t r =
     int (length (filter (\<lambda>(k, p). or (range_min r + 1) (push_bit 16 t) \<le> k \<and> k \<le> or (range_max r) (push_bit 16 t)) rs))"

fun updateIDRangeManager :: "(int \<times> nat) list \<Rightarrow> int \<Rightarrow> nat list \<Rightarrow> id_heap \<Rightarrow> id_heap res" where
  "updateIDRangeManager rs t [] h = Inr h"
| "updateIDRangeManager rs t (p # ps) h = rbind (get_range h p) (\<lambda>r.
     updateIDRangeManager rs t ps (if isNewIDRange r then put_range p (setUsed (count_used rs t r) r) h else h))"

type_synonym answers = "(int \<times> int \<times> nat) list"

text \<open>The dialog stays open as long as what is entered is refused.\<close>

fun newIDRange :: "answers \<Rightarrow> (int \<times> nat) list \<Rightarrow> id_manager \<Rightarrow> id_heap \<Rightarrow> (bool \<times> answers \<times> id_manager \<times> id_heap) res" where
  "newIDRange [] rs m h = Inr (False, [], m, h)"
| "newIDRange ((mn, mx, o1) # as) rs m h =
     (if mn \<ge> mx \<or> mn < limit_min m \<or> mx > limit_max m then newIDRange as rs m h
      else rbind (addIDRange mn mx o1 m h) (\<lambda>(q, m, h).
        if q = None then newIDRange as rs m h
        else rbind (updateIDRangeManager rs (mtype m) (chain m) h) (\<lambda>h. Inr (True, as, m, h))))"

fun try_ids :: "nat \<Rightarrow> nat \<Rightarrow> (int \<times> nat) list \<Rightarrow> id_heap \<Rightarrow> id_manager \<Rightarrow> (int option \<times> id_manager) res" where
  "try_ids n o1 rs h m = rbind (nextId o1 h m) (\<lambda>(i, m).
     if i = -1 then Inr (None, m)
     else case n of 0 \<Rightarrow> Inr (None, m)
     | Suc k \<Rightarrow> if map_of rs i = None then Inr (Some i, m) else try_ids k o1 rs h m)"

declare try_ids.simps [simp del]

lemma newIDRange_length: "newIDRange as rs m h = Inr (True, bs, m', h') \<Longrightarrow> length bs < length as"
proof (induction as arbitrary: m h)
  case (Cons a as)
  obtain mn mx o1 where a: "a = (mn, mx, o1)" by (cases a)
  show ?case using Cons.prems less_SucI [OF Cons.IH] by (auto simp: a rbind_eq_Inr split: if_splits)
qed simp

function new_id_loop :: "nat \<Rightarrow> answers \<Rightarrow> (int \<times> nat) list \<Rightarrow> id_heap \<Rightarrow> id_manager \<Rightarrow> (int \<times> id_manager \<times> id_heap) res" where
  "new_id_loop o1 as rs h m =
     (case try_ids 65535 o1 rs h m of
        Inl x \<Rightarrow> Inl x
      | Inr (Some i, m) \<Rightarrow> Inr (i, m, h)
      | Inr (None, m) \<Rightarrow>
          (case newIDRange as rs m h of
             Inl x \<Rightarrow> Inl x
           | Inr (ok, as, m, h) \<Rightarrow> if ok then new_id_loop o1 as rs h m else Inr (-1, m, h)))"
  by pat_completeness auto

termination
  by (relation "measure (\<lambda>(o1, as, rs, h, m). length as)") (auto dest: newIDRange_length)

declare new_id_loop.simps [simp del]

definition newResId :: "editor_env \<Rightarrow> answers \<Rightarrow> int \<Rightarrow> char list option \<Rightarrow> editor \<Rightarrow> (int \<times> editor) res" where
  "newResId E as t name ed =
     (case getIDRangeManager E t name of
        None \<Rightarrow> Inr (-1, ed)
      | Some k \<Rightarrow> rbind (new_id_loop (getCurOwner E) as (reses ed) (id_ranges ed) (idrms ed k)) (\<lambda>(i, m, h).
          Inr (i, ed\<lparr>idrms := (idrms ed)(k := m), id_ranges := h\<rparr>)))"

section \<open>Operations\<close>

definition add_resource :: "editor_env \<Rightarrow> char list option \<Rightarrow> int \<Rightarrow> int \<Rightarrow> editor \<Rightarrow> (int \<times> editor) res" where
  "add_resource E name i src ed =
     (let p = next_addr ed;
          nm = (case name of None \<Rightarrow> [] | Some n \<Rightarrow> n);
          ed = put_res p \<lparr>res_name = nm, res_id = i, source_id = src, use_ref = 0\<rparr> (ed\<lparr>next_addr := p + 1\<rparr>);
          ed = ed\<lparr>reses := map_put i p (reses ed), bIdChanged := True\<rparr>;
          ed = (if name \<noteq> None then ed\<lparr>namedRes := (namedRes ed)(nm \<mapsto> p)\<rparr> else ed)
      in rbind (count_id E useId i (Some nm) ed) (\<lambda>ed. Inr (i, ed)))"

definition createRes :: "editor_env \<Rightarrow> answers \<Rightarrow> int \<Rightarrow> char list option \<Rightarrow> int \<Rightarrow> int \<Rightarrow> editor \<Rightarrow> (int \<times> editor) res" where
  "createRes E as t name i src ed =
     (if i \<le> 0 \<or> ID2TYPE i \<noteq> t
      then (if name \<noteq> None \<and> \<not> isValidName ed name then Inr (-1, ed)
            else rbind (newResId E as t name ed) (\<lambda>(i, ed). if i = -1 then Inr (-1, ed) else add_resource E name i src ed))
      else add_resource E name i src ed)"

definition setResName :: "int \<Rightarrow> char list option \<Rightarrow> editor \<Rightarrow> (int \<times> editor) res" where
  "setResName i name ed =
     (case name of
        None \<Rightarrow> Inr (-1, ed)
      | Some n \<Rightarrow>
          if n = [] then Inr (-1, ed)
          else with_res i ed (Inr (-1, ed)) (\<lambda>p r.
            if res_name r \<noteq> n \<and> isValidName ed name
            then Inr (i, put_res p (r\<lparr>res_name := n\<rparr>) (ed\<lparr>namedRes := ((namedRes ed)(res_name r := None))(n \<mapsto> p), bIdChanged := True\<rparr>))
            else Inr (-1, ed)))"

definition setResId :: "editor_env \<Rightarrow> int \<Rightarrow> int \<Rightarrow> editor \<Rightarrow> (bool \<times> editor) res" where
  "setResId E oldId newId ed =
     (if oldId = newId \<or> ID2TYPE oldId \<noteq> ID2TYPE newId \<or> map_of (reses ed) newId \<noteq> None then Inr (False, ed)
      else rbind (count_id E useId newId None ed) (\<lambda>ed. rbind (count_id E unuseId oldId None ed) (\<lambda>ed.
        with_res oldId ed (Inr (False, ed)) (\<lambda>p r.
          Inr (True, put_res p (r\<lparr>res_id := newId\<rparr>)
            (ed\<lparr>reses := map_put newId p (map_erase oldId (reses ed)), bIdChanged := True\<rparr>))))))"

definition use :: "int \<Rightarrow> editor \<Rightarrow> (int \<times> editor) res" where
  "use i ed = with_res i ed (Inr (-1, ed)) (\<lambda>p r.
     Inr (use_ref r + 1, put_res p (r\<lparr>use_ref := use_ref r + 1\<rparr>) (if use_ref r = 0 then ed\<lparr>bIdChanged := True\<rparr> else ed)))"

definition unuse :: "int \<Rightarrow> editor \<Rightarrow> (int \<times> editor) res" where
  "unuse i ed = with_res i ed (Inr (-1, ed)) (\<lambda>p r.
     if use_ref r > 0
     then Inr (use_ref r - 1, put_res p (r\<lparr>use_ref := use_ref r - 1\<rparr>) (if use_ref r - 1 \<le> 0 then ed\<lparr>bIdChanged := True\<rparr> else ed))
     else Inr (-1, ed))"

definition removeRes :: "editor_env \<Rightarrow> int \<Rightarrow> editor \<Rightarrow> (bool \<times> editor) res" where
  "removeRes E i ed = with_res i ed (Inr (False, ed)) (\<lambda>p r.
     if use_ref r > 0 then Inr (False, ed)
     else let ed = ed\<lparr>reses := map_erase i (reses ed)\<rparr>;
              ed = (if res_name r \<noteq> [] then ed\<lparr>namedRes := (namedRes ed)(res_name r := None)\<rparr> else ed)
       in rbind (count_id E unuseId i (Some (res_name r)) ed) (\<lambda>ed.
            Inr (True, ed\<lparr>resources := (resources ed)(p := None), bIdChanged := True\<rparr>)))"

section \<open>Files\<close>

text \<open>One node of the file: the name, the value, the type and the source.\<close>

type_synonym id_node = "char list option \<times> int \<times> int \<times> int"

fun save_nodes :: "editor \<Rightarrow> (int \<times> nat) list \<Rightarrow> id_node list res" where
  "save_nodes ed [] = Inr []"
| "save_nodes ed ((k, p) # rs) = rbind (get_res ed p) (\<lambda>r. rbind (save_nodes ed rs) (\<lambda>ns.
     Inr ((if res_name r = [] then None else Some (res_name r), res_id r, ID2TYPE (res_id r), source_id r) # ns)))"

definition saveXMLIDs :: "editor \<Rightarrow> (id_node list option \<times> editor) res" where
  "saveXMLIDs ed =
     (if \<not> bIdChanged ed then Inr (None, ed)
      else rbind (save_nodes ed (reses ed)) (\<lambda>ns. Inr (Some ns, ed\<lparr>bIdChanged := False\<rparr>)))"

fun loadXMLIDs :: "editor_env \<Rightarrow> answers list \<Rightarrow> id_node list \<Rightarrow> editor \<Rightarrow> editor res" where
  "loadXMLIDs E as [] ed = Inr ed"
| "loadXMLIDs E as ((name, i, t, src) # ns) ed =
     (if and (getTypeMask E) t \<noteq> 0
      then rbind (createRes E (case as of [] \<Rightarrow> [] | a # _ \<Rightarrow> a) t name i src ed) (\<lambda>(_, ed). loadXMLIDs E (tl as) ns ed)
      else loadXMLIDs E as ns ed)"

section \<open>The maps\<close>

definition strict_keys :: "(int \<times> 'a) list \<Rightarrow> bool" where
  "strict_keys xs \<longleftrightarrow> sorted_wrt (<) (map fst xs)"

lemma strict_keys_simps [simp]:
  "strict_keys []" "strict_keys ((k, v) # xs) \<longleftrightarrow> (\<forall>x\<in>set xs. k < fst x) \<and> strict_keys xs"
  by (auto simp: strict_keys_def)

lemma set_map_put: "set (map_put k v xs) \<subseteq> insert (k, v) (set xs)"
  by (induction k v xs rule: map_put.induct) auto

lemma strict_map_put: "strict_keys xs \<Longrightarrow> strict_keys (map_put k v xs)"
proof (induction k v xs rule: map_put.induct)
  case (2 k v k' v' xs)
  then show ?case using set_map_put [of k v xs] by fastforce
qed simp

lemma not_a_key: "\<forall>x\<in>set xs. (k :: int) < fst x \<Longrightarrow> map_of xs k = None"
  by (induction xs) auto

lemma map_of_put [simp]: "strict_keys xs \<Longrightarrow> map_of (map_put k v xs) = (map_of xs)(k \<mapsto> v)"
  by (induction k v xs rule: map_put.induct) auto

lemma strict_map_erase: "strict_keys xs \<Longrightarrow> strict_keys (map_erase k xs)"
  by (induction xs) (auto simp: map_erase_def)

lemma map_of_erase [simp]: "map_of (map_erase k xs) = (map_of xs)(k := None)"
  by (induction xs) (auto simp: map_erase_def)

section \<open>Well-formed editors\<close>

text \<open>What is kept of a resource: its name and its source.\<close>

definition content_of :: "(int \<times> nat) list \<Rightarrow> (nat \<Rightarrow> resource option) \<Rightarrow> int \<Rightarrow> (char list \<times> int) option" where
  "content_of rs f k = (case map_of rs k of None \<Rightarrow> None
     | Some p \<Rightarrow> (case f p of None \<Rightarrow> None | Some r \<Rightarrow> Some (res_name r, source_id r)))"

definition content :: "editor \<Rightarrow> int \<Rightarrow> (char list \<times> int) option" where
  "content ed = content_of (reses ed) (resources ed)"

text \<open>What is found by an id: the object and its name.\<close>

definition entry :: "editor \<Rightarrow> int \<Rightarrow> (nat \<times> char list) option" where
  "entry ed k = (case map_of (reses ed) k of None \<Rightarrow> None
     | Some p \<Rightarrow> (case resources ed p of None \<Rightarrow> None | Some r \<Rightarrow> Some (p, res_name r)))"

definition found_by_id :: "editor \<Rightarrow> bool" where
  "found_by_id ed \<longleftrightarrow> (\<forall>k p. map_of (reses ed) k = Some p \<longrightarrow> (\<exists>r. resources ed p = Some r \<and> res_id r = k))"

definition names_ok :: "(int \<Rightarrow> (nat \<times> char list) option) \<Rightarrow> (char list \<Rightarrow> nat option) \<Rightarrow> bool" where
  "names_ok v N \<longleftrightarrow> (\<forall>n p. N n = Some p \<longleftrightarrow> n \<noteq> [] \<and> (\<exists>k. v k = Some (p, n)))"

definition one_place :: "(int \<Rightarrow> (nat \<times> char list) option) \<Rightarrow> bool" where
  "one_place v \<longleftrightarrow> (\<forall>k k' p n n'. v k = Some (p, n) \<longrightarrow> v k' = Some (p, n') \<longrightarrow> k = k')"

definition reg_ok :: "editor \<Rightarrow> bool" where
  "reg_ok ed \<longleftrightarrow> strict_keys (reses ed) \<and> (\<forall>p\<ge>next_addr ed. resources ed p = None) \<and> found_by_id ed \<and>
     names_ok (entry ed) (namedRes ed)"

lemma found_one_place: "found_by_id ed \<Longrightarrow> one_place (entry ed)"
  unfolding one_place_def
proof (intro allI impI)
  fix k k' p n n'
  assume f: "found_by_id ed" and e: "entry ed k = Some (p, n)" "entry ed k' = Some (p, n')"
  from e have "map_of (reses ed) k = Some p" "map_of (reses ed) k' = Some p" by (auto simp: entry_def split: option.splits)
  with f obtain r where "resources ed p = Some r" "res_id r = k" "res_id r = k'" unfolding found_by_id_def by (metis option.inject)
  then show "k = k'" by simp
qed

lemma names_okD: "names_ok v N \<Longrightarrow> N n = Some p \<longleftrightarrow> n \<noteq> [] \<and> (\<exists>k. v k = Some (p, n))"
  by (simp add: names_ok_def)

lemma names_add:
  assumes "names_ok v N" "v i = None" "n = [] \<or> N n = None"
  shows "names_ok (v(i \<mapsto> (p, n))) (if n = [] then N else N(n \<mapsto> p))"
  unfolding names_ok_def
proof (intro allI)
  fix m q
  have v: "(\<exists>k. (v(i \<mapsto> (p, n))) k = Some (q, m)) \<longleftrightarrow> q = p \<and> m = n \<or> (\<exists>k. v k = Some (q, m))"
    using assms(2) by (metis fun_upd_apply option.inject option.distinct(1) prod.inject)
  show "(if n = [] then N else N(n \<mapsto> p)) m = Some q \<longleftrightarrow> m \<noteq> [] \<and> (\<exists>k. (v(i \<mapsto> (p, n))) k = Some (q, m))"
    unfolding v using names_okD [OF assms(1), of m q] assms(3) by auto
qed

lemma names_remove:
  assumes "names_ok v N" "one_place v" "v i = Some (p, n)"
  shows "names_ok (v(i := None)) (if n = [] then N else N(n := None))"
  unfolding names_ok_def
proof (intro allI)
  fix m q
  have same: "k = i \<and> q = p" if "v k = Some (q, n)" "n \<noteq> []" for k q
  proof -
    have "N n = Some q" "N n = Some p" using names_okD [OF assms(1)] that assms(3) by blast+
    then have "q = p" by simp
    then show ?thesis using assms(2,3) that(1) unfolding one_place_def by blast
  qed
  have v: "(\<exists>k. (v(i := None)) k = Some (q, m)) \<longleftrightarrow> (\<exists>k. k \<noteq> i \<and> v k = Some (q, m))" by auto
  show "(if n = [] then N else N(n := None)) m = Some q \<longleftrightarrow> m \<noteq> [] \<and> (\<exists>k. (v(i := None)) k = Some (q, m))"
    unfolding v
  proof (cases "m = n \<and> n \<noteq> []")
    case True
    then show "(if n = [] then N else N(n := None)) m = Some q \<longleftrightarrow> m \<noteq> [] \<and> (\<exists>k. k \<noteq> i \<and> v k = Some (q, m))"
      using same by auto
  next
    case False
    then have "m \<noteq> [] \<Longrightarrow> (\<exists>k. k \<noteq> i \<and> v k = Some (q, m)) \<longleftrightarrow> (\<exists>k. v k = Some (q, m))" using assms(3)
      by (metis option.inject prod.inject)
    then show "(if n = [] then N else N(n := None)) m = Some q \<longleftrightarrow> m \<noteq> [] \<and> (\<exists>k. k \<noteq> i \<and> v k = Some (q, m))"
      using names_okD [OF assms(1), of m q] False by auto
  qed
qed

definition mgr_ok :: "editor \<Rightarrow> bool" where
  "mgr_ok ed \<longleftrightarrow> (\<forall>k. wf_manager (id_ranges ed) (idrms ed k))"

lemma reg_ok_res:
  "reg_ok ed \<Longrightarrow> map_of (reses ed) i = Some p \<Longrightarrow> \<exists>r. resources ed p = Some r \<and> res_id r = i"
  by (simp add: reg_ok_def found_by_id_def)

lemma with_res_ok:
  "reg_ok ed \<Longrightarrow> with_res i ed none some = (case map_of (reses ed) i of None \<Rightarrow> none | Some p \<Rightarrow> some p (the (resources ed p)))"
  using reg_ok_res [of ed i] by (auto simp: with_res_def get_res_def split: option.splits)

lemma entry_simps [simp]:
  "entry (ed\<lparr>id_ranges := h\<rparr>) = entry ed" "entry (ed\<lparr>idrms := f\<rparr>) = entry ed" "entry (ed\<lparr>bIdChanged := b\<rparr>) = entry ed"
  "entry (ed\<lparr>namedRes := g\<rparr>) = entry ed" "entry (ed\<lparr>next_addr := a\<rparr>) = entry ed"
  by (simp_all add: entry_def fun_eq_iff cong: option.case_cong)

lemma reg_ok_id_ranges [simp]:
  "reg_ok (ed\<lparr>id_ranges := h\<rparr>) = reg_ok ed" "reg_ok (ed\<lparr>idrms := f\<rparr>) = reg_ok ed" "reg_ok (ed\<lparr>bIdChanged := b\<rparr>) = reg_ok ed"
  by (simp_all add: reg_ok_def found_by_id_def)

lemma mgr_ok_simps [simp]:
  "mgr_ok (ed\<lparr>resources := a\<rparr>) = mgr_ok ed" "mgr_ok (ed\<lparr>reses := b\<rparr>) = mgr_ok ed" "mgr_ok (ed\<lparr>namedRes := c\<rparr>) = mgr_ok ed"
  "mgr_ok (ed\<lparr>bIdChanged := d\<rparr>) = mgr_ok ed" "mgr_ok (ed\<lparr>next_addr := e\<rparr>) = mgr_ok ed" "mgr_ok (put_res p r ed) = mgr_ok ed"
  by (simp_all add: mgr_ok_def put_res_def)

text \<open>Counting a use keeps the ranges.\<close>

definition counts :: "(id_manager \<Rightarrow> int \<Rightarrow> id_heap \<Rightarrow> (bool \<times> id_heap) res) \<Rightarrow> bool" where
  "counts f \<longleftrightarrow> f = useId \<or> f = unuseId"

lemma getIDRangeById_alive:
  "alive h ps \<Longrightarrow> \<exists>q. getIDRangeById h ps i = Inr q \<and> (\<forall>p. q = Some p \<longrightarrow> p \<in> set ps)"
  by (induction ps) (auto simp: isInRange_def)

lemma wf_manager_step:
  "wf_manager h m \<Longrightarrow> ranges h p = Some r \<Longrightarrow> range_min r' = range_min r \<Longrightarrow> range_max r' = range_max r \<Longrightarrow> wf_manager (put_range p r' h) m"
  by (auto simp: wf_manager_def wf_chain_def alive_def wf_range_def put_range_def)

lemma count_id_ok:
  assumes "mgr_ok ed" "counts f"
  shows "\<exists>h. count_id E f i name ed = Inr (ed\<lparr>id_ranges := h\<rparr>) \<and> mgr_ok (ed\<lparr>id_ranges := h\<rparr>)"
proof (cases "getIDRangeManager E (ID2TYPE i) name")
  case None
  then show ?thesis using assms(1) by (auto simp: count_id_def intro: exI [of _ "id_ranges ed"])
next
  case (Some k)
  define h m where "h = id_ranges ed" and "m = idrms ed k"
  obtain step where step: "f = count_use step" "\<And>r. range_min (step r) = range_min r \<and> range_max (step r) = range_max r"
    using assms(2) by (auto simp: counts_def useId_def unuseId_def range_inc_def range_dec_def)
  have al: "alive h (chain m)" using assms(1) by (simp add: mgr_ok_def wf_manager_def wf_chain_def h_def m_def)
  obtain q where q: "getIDRangeById h (chain m) (i mod 2 ^ 16) = Inr q" "\<forall>p. q = Some p \<longrightarrow> p \<in> set (chain m)"
    using getIDRangeById_alive [OF al] by blast
  have "\<exists>b h'. f m i h = Inr (b, h') \<and> mgr_ok (ed\<lparr>id_ranges := h'\<rparr>)"
  proof (cases "ID2TYPE i = mtype m \<and> q \<noteq> None")
    case True
    then obtain p where "q = Some p" by auto
    then obtain r where p: "q = Some p" "ranges h p = Some r" using q(2) al by (auto simp: alive_def)
    then have "mgr_ok (ed\<lparr>id_ranges := put_range p (step r) h\<rparr>)"
      using assms(1) step(2) wf_manager_step [of h _ p r "step r"] by (simp add: mgr_ok_def h_def)
    then show ?thesis using True q(1) p by (auto simp: step(1) count_use_def)
  next
    case False
    then have "f m i h = Inr (False, h)" using q(1) by (auto simp: step(1) count_use_def)
    then show ?thesis using assms(1) by (auto simp: h_def)
  qed
  then show ?thesis using Some by (auto simp: count_id_def h_def m_def)
qed

section \<open>Every operation keeps the maps\<close>

lemma try_ids_ok:
  "wf_manager h m \<Longrightarrow> \<exists>x m'. try_ids n o1 rs h m = Inr (x, m') \<and> wf_manager h m' \<and>
    (\<forall>i. x = Some i \<longrightarrow> i \<noteq> -1 \<and> map_of rs i = None \<and> ID2TYPE i = mtype m)"
proof (induction n arbitrary: m)
  case 0
  obtain i m' where "nextId o1 h m = Inr (i, m')" "good_draw h m i m'" using nextId_draw [OF 0] by blast
  then show ?case by (subst try_ids.simps) (simp add: good_draw_def)
next
  case (Suc n)
  obtain i m1 where m1: "nextId o1 h m = Inr (i, m1)" "good_draw h m i m1" using nextId_draw [OF Suc.prems] by blast
  then have "wf_manager h m1" "mtype m1 = mtype m" by (simp_all add: good_draw_def)
  then obtain x m' where "try_ids n o1 rs h m1 = Inr (x, m')" "wf_manager h m'"
      "\<forall>i. x = Some i \<longrightarrow> i \<noteq> -1 \<and> map_of rs i = None \<and> ID2TYPE i = mtype m"
    using Suc.IH by metis
  then show ?case using m1 by (subst try_ids.simps) (auto simp: good_draw_def)
qed

lemma try_ids_free: "try_ids n o1 rs h m = Inr (Some i, m') \<Longrightarrow> i \<noteq> -1 \<and> map_of rs i = None"
proof (induction n arbitrary: m)
  case 0
  then show ?case by (subst (asm) try_ids.simps) (auto simp: rbind_eq_Inr split: if_splits)
next
  case (Suc n)
  from Suc.prems show ?case using Suc.IH
    by (subst (asm) try_ids.simps) (auto simp: rbind_eq_Inr split: if_splits)
qed

lemma new_id_loop_free:
  "new_id_loop o1 as rs h m = Inr (i, m', h') \<Longrightarrow> i \<noteq> -1 \<Longrightarrow> map_of rs i = None"
proof (induction o1 as rs h m rule: new_id_loop.induct)
  case (1 o1 as rs h m)
  from 1(2,3) show ?case
    by (subst (asm) new_id_loop.simps) (auto split: sum.splits prod.splits option.splits if_splits dest: try_ids_free 1(1))
qed

lemma newResId_ok:
  assumes "reg_ok ed" "mgr_ok ed"
  shows "\<exists>i ed'. newResId E [] t name ed = Inr (i, ed') \<and> reg_ok ed' \<and> mgr_ok ed' \<and>
    reses ed' = reses ed \<and> namedRes ed' = namedRes ed \<and> (i \<noteq> -1 \<longrightarrow> map_of (reses ed) i = None)"
proof (cases "getIDRangeManager E t name")
  case None
  then show ?thesis using assms by (simp add: newResId_def)
next
  case (Some k)
  obtain x m' where x: "try_ids 65535 (getCurOwner E) (reses ed) (id_ranges ed) (idrms ed k) = Inr (x, m')" "wf_manager (id_ranges ed) m'"
      "\<forall>i. x = Some i \<longrightarrow> map_of (reses ed) i = None"
    using try_ids_ok [of "id_ranges ed" "idrms ed k" 65535 "getCurOwner E" "reses ed"] assms(2) unfolding mgr_ok_def by metis
  then show ?thesis using Some assms
    by (cases x) (auto simp: newResId_def new_id_loop.simps mgr_ok_def)
qed

lemma add_resource_ok:
  assumes "reg_ok ed" "mgr_ok ed" "map_of (reses ed) i = None" "\<forall>n. name = Some n \<longrightarrow> n \<noteq> [] \<and> namedRes ed n = None"
  shows "\<exists>ed'. add_resource E name i src ed = Inr (i, ed') \<and> reg_ok ed' \<and> mgr_ok ed' \<and>
    content ed' = (content ed)(i \<mapsto> (case name of None \<Rightarrow> [] | Some n \<Rightarrow> n, src)) \<and>
    (\<forall>n. namedRes ed' n \<noteq> None \<longleftrightarrow> namedRes ed n \<noteq> None \<or> name = Some n)"
proof -
  define p nm where "p = next_addr ed" and "nm = (case name of None \<Rightarrow> [] | Some n \<Rightarrow> n)"
  define ed1 where "ed1 = (put_res p \<lparr>res_name = nm, res_id = i, source_id = src, use_ref = 0\<rparr> (ed\<lparr>next_addr := p + 1\<rparr>))\<lparr>reses := map_put i p (reses ed), bIdChanged := True\<rparr>"
  define ed2 where "ed2 = (if name \<noteq> None then ed1\<lparr>namedRes := (namedRes ed)(nm \<mapsto> p)\<rparr> else ed1)"
  have new: "resources ed p = None" "strict_keys (reses ed)" using assms(1) by (simp_all add: reg_ok_def p_def)
  have old: "map_of (reses ed) k \<noteq> Some p" for k using reg_ok_res [OF assms(1), of k p] new(1) by auto
  have "reg_ok ed2"
    unfolding reg_ok_def
  proof (intro conjI)
    show "strict_keys (reses ed2)" using new(2) by (simp add: ed2_def ed1_def strict_map_put)
    show "\<forall>q\<ge>next_addr ed2. resources ed2 q = None"
      using assms(1) by (auto simp: ed2_def ed1_def put_res_def reg_ok_def p_def)
    show "found_by_id ed2"
      using assms(1) new(2) old by (auto simp: found_by_id_def ed2_def ed1_def put_res_def reg_ok_def split: if_splits)
    have "entry ed2 = (entry ed)(i \<mapsto> (p, nm))"
      using new old by (auto simp: entry_def ed2_def ed1_def put_res_def fun_eq_iff split: option.splits)
    moreover have "namedRes ed2 = (if nm = [] then namedRes ed else (namedRes ed)(nm \<mapsto> p))"
      using assms(4) by (auto simp: ed2_def ed1_def nm_def put_res_def split: option.splits)
    moreover have "names_ok (entry ed) (namedRes ed)" "entry ed i = None" "nm = [] \<or> namedRes ed nm = None"
      using assms(1,3,4) by (auto simp: reg_ok_def entry_def nm_def split: option.splits)
    ultimately show "names_ok (entry ed2) (namedRes ed2)" using names_add [of "entry ed" "namedRes ed" i nm p] by simp
  qed
  moreover have cont: "content ed2 = (content ed)(i \<mapsto> (nm, src))"
    using new old by (auto simp: content_def content_of_def ed2_def ed1_def put_res_def fun_eq_iff split: option.splits)
  moreover have nam: "namedRes ed2 n \<noteq> None \<longleftrightarrow> namedRes ed n \<noteq> None \<or> name = Some n" for n
    by (auto simp: ed2_def ed1_def put_res_def nm_def split: option.splits)
  moreover have "mgr_ok ed2" using assms(2) by (simp add: ed2_def ed1_def)
  ultimately obtain h where "count_id E useId i (Some nm) ed2 = Inr (ed2\<lparr>id_ranges := h\<rparr>)" "mgr_ok (ed2\<lparr>id_ranges := h\<rparr>)" "reg_ok (ed2\<lparr>id_ranges := h\<rparr>)"
    using count_id_ok [of ed2 useId E i "Some nm"] by (auto simp: counts_def)
  moreover have "add_resource E name i src ed = rbind (count_id E useId i (Some nm) ed2) (\<lambda>ed. Inr (i, ed))"
    by (simp add: add_resource_def Let_def ed2_def ed1_def p_def nm_def put_res_def)
  moreover have "content (ed2\<lparr>id_ranges := h\<rparr>) = content ed2" by (simp add: content_def)
  ultimately show ?thesis using cont nam by (simp add: nm_def)
qed

lemma reg_ok_entry: "reg_ok ed \<Longrightarrow> map_of (reses ed) i = Some p \<Longrightarrow> resources ed p = Some r \<Longrightarrow> entry ed i = Some (p, res_name r)"
  by (simp add: entry_def)

lemma reg_ok_other: "reg_ok ed \<Longrightarrow> map_of (reses ed) i = Some p \<Longrightarrow> map_of (reses ed) k = Some p \<Longrightarrow> k = i"
  by (metis reg_ok_res option.inject)

lemma found_put:
  assumes "reg_ok ed" "map_of (reses ed) i = Some p" "res_id r' = i"
  shows "found_by_id (put_res p r' ed)"
  unfolding found_by_id_def
proof (intro allI impI)
  fix k q assume "map_of (reses (put_res p r' ed)) k = Some q"
  then have k: "map_of (reses ed) k = Some q" by (simp add: put_res_def)
  show "\<exists>x. resources (put_res p r' ed) q = Some x \<and> res_id x = k"
    using reg_ok_res [OF assms(1) k] reg_ok_other [OF assms(1,2)] k assms(3) by (cases "q = p") (auto simp: put_res_def)
qed

lemma found_by_id_simps [simp]:
  "found_by_id (ed\<lparr>namedRes := g\<rparr>) = found_by_id ed" "found_by_id (ed\<lparr>bIdChanged := b\<rparr>) = found_by_id ed"
  by (simp_all add: found_by_id_def)

lemma put_res_simps [simp]:
  "reses (put_res p r ed) = reses ed" "namedRes (put_res p r ed) = namedRes ed" "next_addr (put_res p r ed) = next_addr ed"
  "put_res p r (ed\<lparr>namedRes := g, bIdChanged := b\<rparr>) = (put_res p r ed)\<lparr>namedRes := g, bIdChanged := b\<rparr>"
  by (simp_all add: put_res_def)

lemma entry_put:
  assumes "reg_ok ed" "map_of (reses ed) i = Some p"
  shows "entry (put_res p r' ed) = (entry ed)(i \<mapsto> (p, res_name r'))"
proof
  fix k
  show "entry (put_res p r' ed) k = ((entry ed)(i \<mapsto> (p, res_name r'))) k"
  proof (cases "k = i")
    case True
    then show ?thesis using assms(2) by (simp add: entry_def put_res_def)
  next
    case False
    then have "map_of (reses ed) k \<noteq> Some p" using reg_ok_other [OF assms] by blast
    then show ?thesis using False by (cases "map_of (reses ed) k") (auto simp: entry_def put_res_def)
  qed
qed

text \<open>A change of fields other than the name and the id.\<close>

lemma put_field_ok:
  assumes "reg_ok ed" "map_of (reses ed) i = Some p" "resources ed p = Some r" "res_name r' = res_name r" "res_id r' = res_id r"
  shows "reg_ok (put_res p r' ed)"
proof -
  have "entry (put_res p r' ed) = entry ed" using entry_put [OF assms(1,2)] assms(2-4) by (auto simp: entry_def fun_eq_iff)
  moreover have "p < next_addr ed" using assms(1,3) by (metis leI option.distinct(1) reg_ok_def)
  moreover have "found_by_id (put_res p r' ed)"
    using found_put [OF assms(1,2)] reg_ok_res [OF assms(1,2)] assms(3,5) by auto
  ultimately show ?thesis using assms(1) by (auto simp: reg_ok_def put_res_def)
qed

lemma setResName_ok:
  assumes "reg_ok ed" "mgr_ok ed"
  shows "\<exists>x ed'. setResName i name ed = Inr (x, ed') \<and> reg_ok ed' \<and> mgr_ok ed'"
proof (cases "name = None \<or> name = Some [] \<or> map_of (reses ed) i = None")
  case True
  then have "setResName i name ed = Inr (-1, ed)"
    by (cases name) (auto simp: setResName_def with_res_ok [OF assms(1)])
  then show ?thesis using assms by blast
next
  case False
  then obtain n p where n: "name = Some n" "n \<noteq> []" "map_of (reses ed) i = Some p" by auto
  obtain r where r: "resources ed p = Some r" "res_id r = i" using reg_ok_res [OF assms(1) n(3)] by blast
  show ?thesis
  proof (cases "res_name r \<noteq> n \<and> isValidName ed name")
    case True
    define ed' where "ed' = put_res p (r\<lparr>res_name := n\<rparr>) (ed\<lparr>namedRes := ((namedRes ed)(res_name r := None))(n \<mapsto> p), bIdChanged := True\<rparr>)"
    have old: "entry ed i = Some (p, res_name r)" "names_ok (entry ed) (namedRes ed)" "found_by_id ed" "namedRes ed [] = None"
      using assms(1) n(3) r(1) names_okD [of "entry ed" "namedRes ed" "[]"] by (auto simp: entry_def reg_ok_def)
    have fresh: "namedRes ed n = None" using True n(1) by (simp add: isValidName_def)
    have N: "(if res_name r = [] then namedRes ed else (namedRes ed)(res_name r := None)) = (namedRes ed)(res_name r := None)"
      using old(4) by auto
    have "names_ok ((entry ed)(i := None)) ((namedRes ed)(res_name r := None))"
      using names_remove [OF old(2) found_one_place [OF old(3)] old(1)] by (simp add: N)
    then have "names_ok (((entry ed)(i := None))(i \<mapsto> (p, n))) (((namedRes ed)(res_name r := None))(n \<mapsto> p))"
      using names_add [of "(entry ed)(i := None)" "(namedRes ed)(res_name r := None)" i n p] fresh n(2) by simp
    moreover have "entry ed' = (entry ed)(i \<mapsto> (p, n))"
      using entry_put [OF assms(1) n(3)] by (simp add: ed'_def)
    ultimately have "names_ok (entry ed') (namedRes ed')" by (simp add: ed'_def put_res_def)
    moreover have "p < next_addr ed" using assms(1) r(1) by (metis leI option.distinct(1) reg_ok_def)
    moreover have "found_by_id ed'" using found_put [OF assms(1) n(3)] r(2) by (simp add: ed'_def)
    moreover have "\<forall>q\<ge>next_addr ed'. resources ed' q = None"
      using assms(1) \<open>p < next_addr ed\<close> by (auto simp: reg_ok_def ed'_def put_res_def)
    moreover have "strict_keys (reses ed')" using assms(1) by (simp add: reg_ok_def ed'_def)
    ultimately have "reg_ok ed'" by (simp add: reg_ok_def)
    moreover have "mgr_ok ed'" using assms(2) by (simp add: ed'_def)
    moreover have "setResName i name ed = Inr (i, ed')" using n r True by (simp add: setResName_def with_res_ok [OF assms(1)] ed'_def)
    ultimately show ?thesis by blast
  next
    case False
    then show ?thesis using assms n r by (auto simp: setResName_def with_res_ok [OF assms(1)])
  qed
qed

lemma setResId_ok:
  assumes "reg_ok ed" "mgr_ok ed"
  shows "\<exists>x ed'. setResId E oldId newId ed = Inr (x, ed') \<and> reg_ok ed' \<and> mgr_ok ed'"
proof (cases "oldId = newId \<or> ID2TYPE oldId \<noteq> ID2TYPE newId \<or> map_of (reses ed) newId \<noteq> None")
  case True
  then show ?thesis using assms by (auto simp: setResId_def)
next
  case False
  obtain h1 where h1: "count_id E useId newId None ed = Inr (ed\<lparr>id_ranges := h1\<rparr>)" "mgr_ok (ed\<lparr>id_ranges := h1\<rparr>)"
    using count_id_ok [OF assms(2), of useId E newId None] by (auto simp: counts_def)
  obtain h2 where h2: "count_id E unuseId oldId None (ed\<lparr>id_ranges := h1\<rparr>) = Inr (ed\<lparr>id_ranges := h2\<rparr>)" "mgr_ok (ed\<lparr>id_ranges := h2\<rparr>)"
    using count_id_ok [OF h1(2), of unuseId E oldId None] by (auto simp: counts_def)
  define e2 where "e2 = ed\<lparr>id_ranges := h2\<rparr>"
  have e2: "reg_ok e2" "mgr_ok e2" "reses e2 = reses ed" using assms(1) h2(2) by (simp_all add: e2_def)
  have step: "setResId E oldId newId ed = with_res oldId e2 (Inr (False, e2)) (\<lambda>p r.
      Inr (True, put_res p (r\<lparr>res_id := newId\<rparr>) (e2\<lparr>reses := map_put newId p (map_erase oldId (reses e2)), bIdChanged := True\<rparr>)))"
    using False h1(1) h2(1) by (simp add: setResId_def e2_def)
  show ?thesis
  proof (cases "map_of (reses e2) oldId")
    case None
    then show ?thesis using step e2 by (auto simp: with_res_ok [OF e2(1)])
  next
    case (Some p)
    obtain r where r: "resources e2 p = Some r" using reg_ok_res [OF e2(1) Some] by blast
    define e3 where "e3 = put_res p (r\<lparr>res_id := newId\<rparr>) (e2\<lparr>reses := map_put newId p (map_erase oldId (reses e2)), bIdChanged := True\<rparr>)"
    have st: "strict_keys (reses e2)" "strict_keys (map_erase oldId (reses e2))" using e2(1) by (simp_all add: reg_ok_def strict_map_erase)
    have new: "map_of (reses e2) newId = None" "newId \<noteq> oldId" using False e2(3) by auto
    have ent: "entry e3 = ((entry e2)(oldId := None))(newId \<mapsto> (p, res_name r))"
    proof
      fix k
      show "entry e3 k = (((entry e2)(oldId := None))(newId \<mapsto> (p, res_name r))) k"
      proof (cases "k = newId \<or> k = oldId")
        case True
        then show ?thesis using st new by (auto simp: entry_def e3_def put_res_def)
      next
        case False
        then have "map_of (reses e2) k \<noteq> Some p" using reg_ok_other [OF e2(1) Some] by blast
        then show ?thesis using False st by (cases "map_of (reses e2) k") (auto simp: entry_def e3_def put_res_def)
      qed
    qed
    have old: "entry e2 oldId = Some (p, res_name r)" "names_ok (entry e2) (namedRes e2)" "found_by_id e2"
      using e2(1) Some r by (auto simp: entry_def reg_ok_def)
    define nm N where "nm = res_name r" and "N = namedRes e2"
    have "names_ok ((entry e2)(oldId := None)) (if nm = [] then N else N(nm := None))"
      using names_remove [OF old(2) found_one_place [OF old(3)] old(1)] unfolding nm_def N_def .
    moreover have "((entry e2)(oldId := None)) newId = None" using new(1) by (simp add: entry_def)
    ultimately have "names_ok (entry e3) (if nm = [] then N else (N(nm := None))(nm \<mapsto> p))"
      unfolding ent nm_def [symmetric] using names_add [of "(entry e2)(oldId := None)" N newId nm p] names_add [of "(entry e2)(oldId := None)" "N(nm := None)" newId nm p]
      by (cases "nm = []") auto
    moreover have "nm \<noteq> [] \<Longrightarrow> N nm = Some p" using names_okD [OF old(2)] old(1) by (auto simp: nm_def N_def)
    ultimately have "names_ok (entry e3) (namedRes e3)" by (cases "nm = []") (simp_all add: e3_def N_def fun_upd_idem)
    moreover have "p < next_addr e2" using e2(1) r by (metis leI option.distinct(1) reg_ok_def)
    moreover have "found_by_id e3" unfolding found_by_id_def
    proof (intro allI impI)
      fix k q assume k: "map_of (reses e3) k = Some q"
      show "\<exists>x. resources e3 q = Some x \<and> res_id x = k"
      proof (cases "k = newId")
        case True
        then show ?thesis using k st by (auto simp: e3_def put_res_def)
      next
        case False
        then have "map_of (reses e2) k = Some q" "k \<noteq> oldId" using k st by (auto simp: e3_def put_res_def split: if_splits)
        moreover from this have "q \<noteq> p" using reg_ok_other [OF e2(1) Some] by blast
        ultimately show ?thesis using reg_ok_res [OF e2(1)] by (auto simp: e3_def put_res_def)
      qed
    qed
    ultimately have "reg_ok e3" using e2(1) st by (auto simp: reg_ok_def e3_def put_res_def strict_map_put)
    moreover have "mgr_ok e3" using e2(2) by (simp add: e3_def)
    ultimately show ?thesis using step Some r by (auto simp: with_res_ok [OF e2(1)] e3_def)
  qed
qed

lemma use_ok:
  assumes "reg_ok ed" "mgr_ok ed" shows "\<exists>x ed'. use i ed = Inr (x, ed') \<and> reg_ok ed' \<and> mgr_ok ed'"
proof (cases "map_of (reses ed) i")
  case (Some p)
  obtain r where "resources ed p = Some r" using reg_ok_res [OF assms(1) Some] by blast
  then show ?thesis using Some assms put_field_ok [of "ed\<lparr>bIdChanged := True\<rparr>" i p r] put_field_ok [of ed i p r]
    by (simp add: use_def with_res_ok [OF assms(1)])
qed (use assms in \<open>auto simp: use_def with_res_ok\<close>)

lemma unuse_ok:
  assumes "reg_ok ed" "mgr_ok ed" shows "\<exists>x ed'. unuse i ed = Inr (x, ed') \<and> reg_ok ed' \<and> mgr_ok ed'"
proof (cases "map_of (reses ed) i")
  case (Some p)
  obtain r where "resources ed p = Some r" using reg_ok_res [OF assms(1) Some] by blast
  then show ?thesis using Some assms put_field_ok [of "ed\<lparr>bIdChanged := True\<rparr>" i p r] put_field_ok [of ed i p r]
    by (simp add: unuse_def with_res_ok [OF assms(1)])
qed (use assms in \<open>auto simp: unuse_def with_res_ok\<close>)

lemma removeRes_ok:
  assumes "reg_ok ed" "mgr_ok ed" shows "\<exists>x ed'. removeRes E i ed = Inr (x, ed') \<and> reg_ok ed' \<and> mgr_ok ed'"
proof (cases "map_of (reses ed) i")
  case (Some p)
  obtain r where r: "resources ed p = Some r" using reg_ok_res [OF assms(1) Some] by blast
  show ?thesis
  proof (cases "use_ref r > 0")
    case False
    define N where "N = (if res_name r \<noteq> [] then (namedRes ed)(res_name r := None) else namedRes ed)"
    define e1 where "e1 = ed\<lparr>reses := map_erase i (reses ed), namedRes := N\<rparr>"
    have "mgr_ok e1" using assms(2) by (simp add: e1_def)
    then obtain h where h: "count_id E unuseId i (Some (res_name r)) e1 = Inr (e1\<lparr>id_ranges := h\<rparr>)" "mgr_ok (e1\<lparr>id_ranges := h\<rparr>)"
      using count_id_ok [of e1 unuseId E i "Some (res_name r)"] by (auto simp: counts_def)
    define e2 where "e2 = e1\<lparr>id_ranges := h, resources := (resources e1)(p := None), bIdChanged := True\<rparr>"
    have e2: "reses e2 = map_erase i (reses ed)" "resources e2 = (resources ed)(p := None)" "namedRes e2 = N" "next_addr e2 = next_addr ed"
      by (simp_all add: e2_def e1_def)
    have other: "q \<noteq> p" if "map_of (reses ed) k = Some q" "k \<noteq> i" for k q
      using reg_ok_other [OF assms(1) Some] that by blast
    have "entry e2 = (entry ed)(i := None)"
    proof
      fix k show "entry e2 k = ((entry ed)(i := None)) k"
        using other by (cases "k = i"; cases "map_of (reses ed) k") (auto simp: entry_def e2)
    qed
    moreover have "names_ok (entry ed) (namedRes ed)" "found_by_id ed" "entry ed i = Some (p, res_name r)"
      using assms(1) Some r by (auto simp: reg_ok_def entry_def)
    ultimately have "names_ok (entry e2) (namedRes e2)"
      using names_remove [of "entry ed" "namedRes ed" i p "res_name r"] found_one_place by (auto simp: e2 N_def split: if_splits)
    moreover have "found_by_id e2" using reg_ok_res [OF assms(1)] other by (fastforce simp: found_by_id_def e2 split: if_splits)
    moreover have "strict_keys (reses e2)" using assms(1) by (simp add: e2 reg_ok_def strict_map_erase)
    moreover have "\<forall>q\<ge>next_addr e2. resources e2 q = None" using assms(1) by (simp add: e2 reg_ok_def)
    ultimately have "reg_ok e2" by (simp add: reg_ok_def)
    moreover have "mgr_ok e2" using h(2) by (simp add: e2_def)
    moreover have "removeRes E i ed = rbind (count_id E unuseId i (Some (res_name r)) e1) (\<lambda>ed.
        Inr (True, ed\<lparr>resources := (resources ed)(p := None), bIdChanged := True\<rparr>))"
      using False Some r by (cases "res_name r = []") (simp_all add: removeRes_def with_res_ok [OF assms(1)] Let_def e1_def N_def)
    then have "removeRes E i ed = Inr (True, e2)" by (simp add: h(1) e2_def)
    ultimately show ?thesis by blast
  qed (use assms Some r in \<open>auto simp: removeRes_def with_res_ok\<close>)
qed (use assms in \<open>auto simp: removeRes_def with_res_ok\<close>)

lemma createRes_ok:
  assumes "reg_ok ed" "mgr_ok ed"
    and "i > 0 \<Longrightarrow> ID2TYPE i = t \<Longrightarrow> map_of (reses ed) i = None \<and> (\<forall>n. name = Some n \<longrightarrow> n \<noteq> [] \<and> namedRes ed n = None)"
  shows "\<exists>x ed'. createRes E [] t name i src ed = Inr (x, ed') \<and> reg_ok ed' \<and> mgr_ok ed'"
proof (cases "i \<le> 0 \<or> ID2TYPE i \<noteq> t")
  case new: True
  show ?thesis
  proof (cases "name \<noteq> None \<and> \<not> isValidName ed name")
    case True
    then show ?thesis using new assms by (auto simp: createRes_def)
  next
    case False
    obtain j ed1 where j: "newResId E [] t name ed = Inr (j, ed1)" "reg_ok ed1" "mgr_ok ed1" "namedRes ed1 = namedRes ed"
        "reses ed1 = reses ed" "j \<noteq> -1 \<longrightarrow> map_of (reses ed) j = None"
      using newResId_ok [OF assms(1,2)] by metis
    show ?thesis
    proof (cases "j = -1")
      case False
      have "\<forall>n. name = Some n \<longrightarrow> n \<noteq> [] \<and> namedRes ed1 n = None"
        using \<open>\<not> (name \<noteq> None \<and> \<not> isValidName ed name)\<close> j(4) by (auto simp: isValidName_def ValidIDName_def)
      then show ?thesis using add_resource_ok [OF j(2,3), of j name E src] j False new \<open>\<not> (name \<noteq> None \<and> \<not> isValidName ed name)\<close>
        by (auto simp: createRes_def)
    qed (use j new False in \<open>auto simp: createRes_def\<close>)
  qed
next
  case False
  then show ?thesis using add_resource_ok [OF assms(1,2), of i name E src] assms(3) by (auto simp: createRes_def)
qed

section \<open>What the component promises\<close>

datatype res_op =
    Create int "char list option" int int
  | SetName int "char list option"
  | SetId int int
  | Use int
  | Unuse int
  | Remove int

text \<open>Calls in a row; the dialog for a new range is cancelled.\<close>

definition step :: "editor_env \<Rightarrow> res_op \<Rightarrow> editor \<Rightarrow> editor res" where
  "step E a ed = (case a of
      Create t name i src \<Rightarrow> rbind (createRes E [] t name i src ed) (\<lambda>(_, ed). Inr ed)
    | SetName i name \<Rightarrow> rbind (setResName i name ed) (\<lambda>(_, ed). Inr ed)
    | SetId i j \<Rightarrow> rbind (setResId E i j ed) (\<lambda>(_, ed). Inr ed)
    | Use i \<Rightarrow> rbind (use i ed) (\<lambda>(_, ed). Inr ed)
    | Unuse i \<Rightarrow> rbind (unuse i ed) (\<lambda>(_, ed). Inr ed)
    | Remove i \<Rightarrow> rbind (removeRes E i ed) (\<lambda>(_, ed). Inr ed))"

text \<open>A resource that is made with an id of its own brings an id and a name that are not in use.\<close>

definition op_ok :: "editor \<Rightarrow> res_op \<Rightarrow> bool" where
  "op_ok ed a = (case a of Create t name i src \<Rightarrow>
       if i > 0 \<and> ID2TYPE i = t then map_of (reses ed) i = None \<and> (case name of None \<Rightarrow> True | Some n \<Rightarrow> n \<noteq> [] \<and> namedRes ed n = None)
       else True
     | _ \<Rightarrow> True)"

lemma step_ok:
  assumes "reg_ok ed" "mgr_ok ed" "op_ok ed a"
  shows "\<exists>ed'. step E a ed = Inr ed' \<and> reg_ok ed' \<and> mgr_ok ed'"
proof (cases a)
  case (Create t name i src)
  then have "i > 0 \<Longrightarrow> ID2TYPE i = t \<Longrightarrow> map_of (reses ed) i = None \<and> (\<forall>n. name = Some n \<longrightarrow> n \<noteq> [] \<and> namedRes ed n = None)"
    using assms(3) by (auto simp: op_ok_def split: option.splits)
  then obtain x ed' where "createRes E [] t name i src ed = Inr (x, ed')" "reg_ok ed'" "mgr_ok ed'"
    using createRes_ok [OF assms(1,2), of i t name E src] by blast
  then show ?thesis by (simp add: step_def Create)
next
  case (SetName i name)
  then show ?thesis using setResName_ok [OF assms(1,2), of i name] by (auto simp: step_def)
next
  case (SetId i j)
  then show ?thesis using setResId_ok [OF assms(1,2), of E i j] by (auto simp: step_def)
next
  case (Use i)
  then show ?thesis using use_ok [OF assms(1,2), of i] by (auto simp: step_def)
next
  case (Unuse i)
  then show ?thesis using unuse_ok [OF assms(1,2), of i] by (auto simp: step_def)
next
  case (Remove i)
  then show ?thesis using removeRes_ok [OF assms(1,2), of E i] by (auto simp: step_def)
qed

interpretation registry: kept_invariant "step E" op_ok "\<lambda>ed. reg_ok ed \<and> mgr_ok ed" for E
  by unfold_locales (use step_ok in blast)


text \<open>
  In a consistent editor looking up the name of an id and the id of a name agree.
\<close>

theorem idToName_nameToId:
  assumes "reg_ok ed" "n \<noteq> []"
  shows "idToName i ed = Inr (Some n) \<longleftrightarrow> namedRes ed n \<noteq> None \<and> nameToId (Some n) ed = Inr i"
proof -
  have N: "namedRes ed n = Some p \<longleftrightarrow> (\<exists>k. entry ed k = Some (p, n))" for p
    using assms by (simp add: reg_ok_def names_ok_def)
  have left: "idToName i ed = Inr (Some n) \<longleftrightarrow> (\<exists>p. entry ed i = Some (p, n))"
    using reg_ok_res [OF assms(1), of i] by (auto simp: idToName_def with_res_ok [OF assms(1)] entry_def split: option.splits)
  have right: "nameToId (Some n) ed = Inr j" if "namedRes ed n = Some p" "entry ed j = Some (p, n)" for p j
    using that reg_ok_res [OF assms(1), of j p] by (auto simp: nameToId_def get_res_def entry_def split: option.splits)
  show ?thesis unfolding left
  proof
    assume "\<exists>p. entry ed i = Some (p, n)"
    then obtain p where "entry ed i = Some (p, n)" by blast
    then show "namedRes ed n \<noteq> None \<and> nameToId (Some n) ed = Inr i" using N right by fastforce
  next
    assume a: "namedRes ed n \<noteq> None \<and> nameToId (Some n) ed = Inr i"
    then obtain p k where "namedRes ed n = Some p" "entry ed k = Some (p, n)" using N by auto
    then show "\<exists>p. entry ed i = Some (p, n)" using right a by fastforce
  qed
qed

text \<open>An id that is found is not in use, whatever is entered in the dialog.\<close>

theorem newResId_is_unused:
  assumes "newResId E as t name ed = Inr (i, ed')" "i \<noteq> -1"
  shows "map_of (reses ed) i = None \<and> reses ed' = reses ed"
  using assms new_id_loop_free by (fastforce simp: newResId_def rbind_eq_Inr split: option.splits)

text \<open>A resource with an empty name leaves its entry behind when it is removed.\<close>

theorem empty_name_dangles:
  assumes "reg_ok ed" "mgr_ok ed" "0 < i" "map_of (reses ed) i = None"
  shows "\<exists>ed1 ed2. createRes E as (ID2TYPE i) (Some []) i src ed = Inr (i, ed1) \<and> removeRes E i ed1 = Inr (True, ed2) \<and>
    nameToId (Some []) ed2 = Inl Use_After_Free"
proof -
  define p where "p = next_addr ed"
  define r where "r = \<lparr>res_name = [], res_id = i, source_id = src, use_ref = 0\<rparr>"
  define e1 where "e1 = (put_res p r (ed\<lparr>next_addr := p + 1\<rparr>))\<lparr>reses := map_put i p (reses ed), bIdChanged := True, namedRes := (namedRes ed)([] \<mapsto> p)\<rparr>"
  have "strict_keys (reses ed)" using assms(1) by (simp add: reg_ok_def)
  then have e1: "map_of (reses e1) i = Some p" "resources e1 p = Some r" "namedRes e1 [] = Some p" "mgr_ok e1"
    using assms(2) by (simp_all add: e1_def put_res_def mgr_ok_def)
  obtain h1 where h1: "count_id E useId i (Some []) e1 = Inr (e1\<lparr>id_ranges := h1\<rparr>)" "mgr_ok (e1\<lparr>id_ranges := h1\<rparr>)"
    using count_id_ok [OF e1(4), of useId E i "Some []"] by (auto simp: counts_def)
  have "mgr_ok (e1\<lparr>id_ranges := h1, reses := map_erase i (reses e1)\<rparr>)" using h1(2) by simp
  then obtain h2 where h2: "count_id E unuseId i (Some []) (e1\<lparr>id_ranges := h1, reses := map_erase i (reses e1)\<rparr>) =
      Inr (e1\<lparr>reses := map_erase i (reses e1), id_ranges := h2\<rparr>)"
    using count_id_ok [of "e1\<lparr>id_ranges := h1, reses := map_erase i (reses e1)\<rparr>" unuseId E i "Some []"] by (auto simp: counts_def)
  have "createRes E as (ID2TYPE i) (Some []) i src ed = Inr (i, e1\<lparr>id_ranges := h1\<rparr>)"
    using assms(3) h1(1) by (simp add: createRes_def add_resource_def Let_def p_def r_def e1_def)
  moreover have "removeRes E i (e1\<lparr>id_ranges := h1\<rparr>) =
      Inr (True, e1\<lparr>reses := map_erase i (reses e1), id_ranges := h2, resources := (resources e1)(p := None), bIdChanged := True\<rparr>)"
    using e1 h2 by (simp add: removeRes_def with_res_def get_res_def r_def)
  ultimately show ?thesis using e1(3) by (auto simp: nameToId_def get_res_def)
qed

text \<open>A file: what is saved is read into an editor without resources.\<close>

definition node_of :: "editor \<Rightarrow> int \<times> nat \<Rightarrow> id_node" where
  "node_of ed = (\<lambda>(k, p). let r = the (resources ed p) in
     (if res_name r = [] then None else Some (res_name r), k, ID2TYPE k, source_id r))"

lemma save_nodes_ok:
  "\<forall>(k, p)\<in>set rs. \<exists>r. resources ed p = Some r \<and> res_id r = k \<Longrightarrow> save_nodes ed rs = Inr (map (node_of ed) rs)"
  by (induction ed rs rule: save_nodes.induct) (auto simp: node_of_def get_res_def Let_def)

lemma strict_keys_distinct: "strict_keys rs \<Longrightarrow> distinct (map fst rs)"
  unfolding strict_keys_def using strict_sorted_iff by blast

lemma content_None: "reg_ok ed \<Longrightarrow> content ed k = None \<longleftrightarrow> map_of (reses ed) k = None"
  using reg_ok_res [of ed k] by (auto simp: content_def content_of_def split: option.splits)

lemma name_of_object:
  assumes "reg_ok ed" "map_of (reses ed) k = Some p" "resources ed p = Some r"
  shows "namedRes ed n = Some p \<longleftrightarrow> n \<noteq> [] \<and> res_name r = n"
proof -
  have "entry ed k' = Some (p, n) \<Longrightarrow> res_name r = n" for k' using assms(3) by (auto simp: entry_def split: option.splits)
  moreover have "entry ed k = Some (p, res_name r)" using assms(2,3) by (simp add: entry_def)
  ultimately show ?thesis using assms(1) names_okD [of "entry ed" "namedRes ed" n p] by (auto simp: reg_ok_def)
qed

lemma load_nodes:
  assumes "reg_ok ed" "reg_ok e" "mgr_ok e" "reses ed = seen @ rs"
    and "\<forall>(k, p)\<in>set rs. 0 < k \<and> and (getTypeMask E) (ID2TYPE k) \<noteq> 0"
    and "content e = content_of seen (resources ed)"
    and "\<forall>n. namedRes e n \<noteq> None \<longleftrightarrow> (\<exists>(k, p)\<in>set seen. namedRes ed n = Some p)"
  shows "\<exists>ed'. loadXMLIDs E [] (map (node_of ed) rs) e = Inr ed' \<and> reg_ok ed' \<and> content ed' = content ed"
  using assms(2-)
proof (induction rs arbitrary: e seen)
  case Nil
  then show ?case by (simp add: content_def)
next
  case (Cons x rs)
  obtain k p where x: "x = (k, p)" by (cases x)
  have dist: "distinct (map fst (seen @ x # rs))" using strict_keys_distinct [of "reses ed"] assms(1) Cons.prems(3) by (simp add: reg_ok_def)
  have k: "map_of (reses ed) k = Some p" using dist Cons.prems(3) x by (auto simp: map_add_Some_iff map_of_eq_None_iff)
  obtain r where r: "resources ed p = Some r" "res_id r = k" using reg_ok_res [OF assms(1) k] by blast
  define nm where "nm = (if res_name r = [] then None else Some (res_name r))"
  have unseen: "map_of seen k = None" using dist x by (auto simp: map_of_eq_None_iff)
  then have new: "map_of (reses e) k = None"
    using content_None [OF Cons.prems(1), of k] Cons.prems(5) by (simp add: content_of_def)
  have name: "namedRes ed n = Some p \<longleftrightarrow> nm = Some n" for n
    using name_of_object [OF assms(1) k r(1), of n] by (auto simp: nm_def)
  have apart: "(j, p) \<notin> set seen" for j
  proof
    assume j: "(j, p) \<in> set seen"
    then have "map_of (reses ed) j = Some p" using dist Cons.prems(3) by (simp add: map_of_eq_Some_iff)
    then have "j = k" by (rule reg_ok_other [OF assms(1) k])
    then show False using j dist x by force
  qed
  have "namedRes e n = None" if "nm = Some n" for n
  proof (rule ccontr)
    assume "namedRes e n \<noteq> None"
    then obtain j q where "(j, q) \<in> set seen" "namedRes ed n = Some q" using Cons.prems(6) by auto
    then show False using apart name [of n] that by auto
  qed
  then have fresh: "\<forall>n. nm = Some n \<longrightarrow> n \<noteq> [] \<and> namedRes e n = None" by (auto simp: nm_def split: if_splits)
  obtain e1 where e1: "add_resource E nm k (source_id r) e = Inr (k, e1)" "reg_ok e1" "mgr_ok e1"
      "content e1 = (content e)(k \<mapsto> (case nm of None \<Rightarrow> [] | Some n \<Rightarrow> n, source_id r))"
      "\<forall>n. namedRes e1 n \<noteq> None \<longleftrightarrow> namedRes e n \<noteq> None \<or> nm = Some n"
    using add_resource_ok [OF Cons.prems(1,2) new fresh] by metis
  have pos: "0 < k" "and (getTypeMask E) (ID2TYPE k) \<noteq> 0" using Cons.prems(4) x by auto
  have step: "loadXMLIDs E [] (map (node_of ed) (x # rs)) e = loadXMLIDs E [] (map (node_of ed) rs) e1"
    using pos e1(1) r x by (simp add: node_of_def createRes_def nm_def)
  have "content e1 = content_of (seen @ [x]) (resources ed)"
    using e1(4) Cons.prems(5) r x unseen by (auto simp: content_of_def nm_def map_add_def fun_eq_iff split: option.splits)
  moreover have "\<forall>n. namedRes e1 n \<noteq> None \<longleftrightarrow> (\<exists>(k, q)\<in>set (seen @ [x]). namedRes ed n = Some q)"
    using e1(5) Cons.prems(6) name x by auto
  ultimately show ?case unfolding step using Cons.IH [OF e1(2,3), of "seen @ [x]"] Cons.prems(3,4) by simp
qed


section \<open>Witnesses\<close>

definition blank :: editor where
  "blank = \<lparr>resources = (\<lambda>_. None), next_addr = 0, reses = [], namedRes = (\<lambda>_. None), bIdChanged = False,
     idrms = (\<lambda>_. one_range_manager), id_ranges = one_range_heap\<rparr>"

definition one_env :: editor_env where
  "one_env = \<lparr>getIDRangeManager = (\<lambda>t n. if t = 1 then Some 0 else None), getCurOwner = 7, getTypeMask = 1\<rparr>"

lemma blank_ok: "reg_ok blank" "mgr_ok blank"
  using one_range(1) by (simp_all add: blank_def reg_ok_def found_by_id_def names_ok_def entry_def mgr_ok_def)


definition one_res :: editor where
  "one_res = blank\<lparr>resources := (\<lambda>_. None)(0 := Some \<lparr>res_name = ''OK'', res_id = 2 ^ 16 + 5, source_id = 3, use_ref = 0\<rparr>),
     next_addr := 1, reses := [(2 ^ 16 + 5, 0)], namedRes := (\<lambda>_. None)(''OK'' := Some 0), bIdChanged := True\<rparr>"

lemma one_res_ok: "reg_ok one_res"
  by (auto simp: one_res_def reg_ok_def found_by_id_def names_ok_def entry_def)

lemma idToName_nameToId_witness: "idToName (2 ^ 16 + 5) one_res = Inr (Some ''OK'') \<and> nameToId (Some ''OK'') one_res = Inr (2 ^ 16 + 5)"
  using idToName_nameToId [OF one_res_ok, of "''OK''" "2 ^ 16 + 5"]
  by (simp add: nameToId_def get_res_def one_res_def)


lemma empty_name_dangles_witness:
  "\<exists>ed1 ed2. createRes one_env [] 1 (Some []) (2 ^ 16 + 5) 3 blank = Inr (2 ^ 16 + 5, ed1) \<and> nameToId (Some []) ed2 = Inl Use_After_Free"
  using empty_name_dangles [OF blank_ok, of "2 ^ 16 + 5" one_env "[]" 3] by (auto simp: blank_def ID2TYPE_def)

lemma newResId_is_unused_witness:
  "\<exists>i ed'. newResId one_env [] 1 None one_res = Inr (i, ed') \<and> i = 2 ^ 16 + 6 \<and> map_of (reses one_res) i = None"
proof -
  have "nextId 7 one_range_heap one_range_manager = Inr (2 ^ 16 + 5, one_range_manager\<lparr>cur_idrange := Some 0, next_id := 6\<rparr>)"
    by code_simp
  moreover have "nextId 7 one_range_heap (one_range_manager\<lparr>cur_idrange := Some 0, next_id := 6\<rparr>) =
      Inr (2 ^ 16 + 6, one_range_manager\<lparr>cur_idrange := Some 0, next_id := 7\<rparr>)"
    by code_simp
  ultimately have "try_ids 65535 7 (reses one_res) one_range_heap one_range_manager = Inr (Some (2 ^ 16 + 6), one_range_manager\<lparr>cur_idrange := Some 0, next_id := 7\<rparr>)"
    by (simp add: try_ids.simps [of 65535] try_ids.simps [of 65534] one_res_def)
  then have "newResId one_env [] 1 None one_res = Inr (2 ^ 16 + 6, one_res\<lparr>idrms := (idrms one_res)(0 := one_range_manager\<lparr>cur_idrange := Some 0, next_id := 7\<rparr>)\<rparr>)"
    by (simp add: newResId_def new_id_loop.simps one_env_def one_res_def blank_def)
  from newResId_is_unused [OF this] this show ?thesis by auto
qed

text \<open>Ids that were given back are not found again before the end of the range is met a second time.\<close>

lemma free_ids_not_found:
  "case newResId one_env [] 1 None (blank\<lparr>idrms := (\<lambda>_. one_range_manager\<lparr>cur_idrange := Some 0, next_id := 7\<rparr>)\<rparr>) of
     Inr (i, ed) \<Rightarrow> i = -1 | Inl x \<Rightarrow> False"
proof -
  have "nextId 7 one_range_heap (one_range_manager\<lparr>cur_idrange := Some 0, next_id := 7\<rparr>) = Inr (-1, one_range_manager)"
    by code_simp
  then show ?thesis by (simp add: newResId_def new_id_loop.simps try_ids.simps [of 65535] blank_def one_env_def)
qed

end
