(* ===== verification/Text_Files.thy ===== *)
theory Text_Files
  imports Streams Code_Combin_File Res_Ids
begin

text \<open>
  The texts of one language (\<open>TeNode\<close> in \<open>texteditor/texteditor.h\<close> and \<open>texteditor.cpp\<close>): a map from ids to texts,
  the file it is kept in and the parser of this file, which reads character by character. \<open>fgetc\<close> gives an \<open>int\<close>
  here, \<open>-1\<close> at the end. The functions are those built without \<open>WIN32\<close>.
\<close>

section \<open>Numbers in text\<close>

definition digit_num :: "char \<Rightarrow> nat" where
  "digit_num c = (let n = of_char c :: nat in
     if 48 \<le> n \<and> n \<le> 57 then n - 48 else if 97 \<le> n \<and> n \<le> 122 then n - 87 else if 65 \<le> n \<and> n \<le> 90 then n - 55 else 99)"

definition number_of :: "nat \<Rightarrow> char list \<Rightarrow> nat" where
  "number_of base s = foldl (\<lambda>n c. n * base + digit_num c) 0 (takeWhile (\<lambda>c. digit_num c < base) s)"

text \<open>The digits of \<open>strtol(s, NULL, base)\<close> and their base, which the text chooses when \<open>base\<close> is 0.\<close>

definition hex_prefix :: "char list \<Rightarrow> bool" where
  "hex_prefix s \<longleftrightarrow> (case s of a # b # _ \<Rightarrow> a = CHR ''0'' \<and> (b = CHR ''x'' \<or> b = CHR ''X'') | _ \<Rightarrow> False)"

definition strto_magnitude :: "nat \<Rightarrow> char list \<Rightarrow> nat" where
  "strto_magnitude base s =
     (if (base = 0 \<or> base = 16) \<and> hex_prefix s then number_of 16 (drop 2 s)
      else if base = 0 then number_of (if take 1 s = ''0'' then 8 else 10) s
      else number_of base s)"

definition strtol :: "nat \<Rightarrow> char list \<Rightarrow> int" where
  "strtol base s =
     (let (neg, s1) = scan_sign (dropWhile c_isspace s); n = int (strto_magnitude base s1) in
      clamp_long (if neg then - n else n))"

text \<open>A \<open>long\<close> that is stored in an \<open>int\<close> keeps its lower 32 bits.\<close>

definition to_int :: "int \<Rightarrow> int" where "to_int n = sint (word_of_int n :: 32 word)"

definition hex_upper :: "nat \<Rightarrow> char" where "hex_upper n = (if n < 10 then char_of (48 + n) else char_of (55 + n))"

definition fmt_08X :: "32 word \<Rightarrow> char list" where
  "fmt_08X w = map (\<lambda>k. hex_upper (nat (uint w div 16 ^ k mod 16))) [7, 6, 5, 4, 3, 2, 1, 0]"

section \<open>Reading\<close>

definition fgetc_int :: "cfile \<Rightarrow> int \<times> cfile" where
  "fgetc_int f = (case ahead f of [] \<Rightarrow> (-1, f\<lparr>at_eof := True\<rparr>) | c # cs \<Rightarrow> (of_char c, f\<lparr>ahead := cs\<rparr>))"

definition ungetc_int :: "int \<Rightarrow> cfile \<Rightarrow> cfile" where
  "ungetc_int c f = (if c = -1 then f else f\<lparr>ahead := char_of c # ahead f, at_eof := False\<rparr>)"

definition isNumber :: "int \<Rightarrow> bool" where
  "isNumber ch \<longleftrightarrow> (48 \<le> ch \<and> ch \<le> 57) \<or> ch = 88 \<or> ch = 120 \<or> (65 \<le> ch \<and> ch \<le> 70) \<or> (97 \<le> ch \<and> ch \<le> 102)"

definition isOct :: "int \<Rightarrow> bool" where "isOct ch \<longleftrightarrow> 48 \<le> ch \<and> ch \<le> 55"

definition isSpace :: "int \<Rightarrow> bool" where "isSpace ch \<longleftrightarrow> ch = 32 \<or> ch = 13 \<or> ch = 10 \<or> ch = 0"

text \<open>How much there is to read; the end of the file is met once.\<close>

definition left :: "cfile \<Rightarrow> nat" where "left f = 2 * length (ahead f) + (if at_eof f then 0 else 1)"

definition sizeof_szNumber :: nat where "sizeof_szNumber = 100"

text \<open>The loops that collect a number: the digits, the last character read, if one was.\<close>

function scan_number :: "(int \<Rightarrow> bool) \<Rightarrow> char list \<Rightarrow> int option \<Rightarrow> cfile \<Rightarrow> (char list \<times> int option \<times> cfile) res" where
  "scan_number p szNumber ch fp =
     (if at_eof fp then (if length szNumber < sizeof_szNumber then Inr (szNumber, ch, fp) else Inl Out_Of_Bounds)
      else let (c, fp') = fgetc_int fp in
        if p c \<and> c \<noteq> -1
        then (if length szNumber < sizeof_szNumber then scan_number p (szNumber @ [char_of c]) (Some c) fp'
              else Inl Out_Of_Bounds)
        else (if length szNumber < sizeof_szNumber then Inr (szNumber, Some c, fp') else Inl Out_Of_Bounds))"
  by pat_completeness auto

termination
  by (relation "measure (\<lambda>(p, s, ch, fp). length (ahead fp))") (auto simp: fgetc_int_def split: list.splits)

declare scan_number.simps [simp del]

definition getId :: "cfile \<Rightarrow> (int \<times> cfile) res" where
  "getId fp = rbind (scan_number isNumber [] None fp) (\<lambda>(szNumber, _, fp). Inr (to_int (strtol 0 szNumber), fp))"

definition unget_last :: "int option \<Rightarrow> cfile \<Rightarrow> cfile res" where
  "unget_last ch fp = (case ch of None \<Rightarrow> Inl Uninitialised | Some c \<Rightarrow> Inr (ungetc_int c fp))"

definition getOct :: "cfile \<Rightarrow> (int \<times> cfile) res" where
  "getOct fp = rbind (scan_number isOct [] None fp) (\<lambda>(szNumber, ch, fp).
     rbind (unget_last ch fp) (\<lambda>fp. Inr (to_int (strtol 8 szNumber), fp)))"

definition getHex :: "cfile \<Rightarrow> (int \<times> cfile) res" where
  "getHex fp = rbind (scan_number isNumber [] None fp) (\<lambda>(szNumber, ch, fp).
     rbind (unget_last ch fp) (\<lambda>fp. Inr (to_int (strtol 16 szNumber), fp)))"

text \<open>\<open>while (!feof(fp) && isSpace((ch = fgetc(fp))));\<close>\<close>

function skip_space :: "int \<Rightarrow> cfile \<Rightarrow> int \<times> cfile" where
  "skip_space ch fp =
     (if at_eof fp then (ch, fp)
      else let (c, fp') = fgetc_int fp in if isSpace c then skip_space c fp' else (c, fp'))"
  by pat_completeness auto

termination
  by (relation "measure (\<lambda>(ch, fp). length (ahead fp))") (auto simp: fgetc_int_def isSpace_def split: list.splits)

declare skip_space.simps [simp del]

text \<open>The rest of a line, with or without a look at the end of the file before the first character.\<close>

function nextLine :: "cfile \<Rightarrow> cfile" where
  "nextLine fp =
     (let (ch, fp') = fgetc_int fp in
      if \<not> at_eof fp' \<and> ch \<noteq> 13 \<and> ch \<noteq> 10 then nextLine fp' else fp')"
  by pat_completeness auto

termination
  by (relation "measure (\<lambda>fp. length (ahead fp))") (auto simp: fgetc_int_def split: list.splits)

declare nextLine.simps [simp del]

definition toLineEnd :: "cfile \<Rightarrow> cfile" where
  "toLineEnd fp = (if at_eof fp then fp else nextLine fp)"

text \<open>
  What an escape after a backslash gives: the character to store, a character to go on with after a step back, or
  the closing quote. A step back before the beginning faults here: wherever the code goes on from \<open>idx == -1\<close>, it next
  writes to \<open>szBuff[-1]\<close>.
\<close>

datatype escaped = Store int | Back int | Close

definition read_escape :: "int \<Rightarrow> cfile \<Rightarrow> (escaped \<times> cfile) res" where
  "read_escape chend fp =
     (let (ch, fp) = fgetc_int fp in
      if ch = 13 \<or> ch = 10 then (let (ch, fp) = fgetc_int fp in
        Inr (if chend \<noteq> 0 \<and> ch = chend then Close else Store ch, fp))
      else if ch = of_char (CHR ''n'') then Inr (Store 10, fp)
      else if ch = of_char (CHR ''r'') then Inr (Store 13, fp)
      else if ch = of_char (CHR ''t'') then Inr (Store 9, fp)
      else if ch = of_char (CHR ''b'') then (let (ch, fp) = fgetc_int fp in Inr (Back ch, fp))
      else if ch = of_char (CHR ''0'') then
        (let (ch, fp) = fgetc_int fp in
         if ch = of_char (CHR ''X'') \<or> ch = of_char (CHR ''x'')
         then rbind (getHex fp) (\<lambda>(n, fp). Inr (Store n, fp))
         else rbind (getOct (ungetc_int ch fp)) (\<lambda>(n, fp). Inr (Store n, fp)))
      else Inr (Store ch, fp))"

definition sizeof_szBuff :: nat where "sizeof_szBuff = 1024"

text \<open>\<open>str += szBuff\<close> takes what lies before a \<open>NUL\<close>.\<close>

definition store_char :: "int \<Rightarrow> char list \<Rightarrow> char list \<Rightarrow> char list \<times> char list" where
  "store_char ch szBuff str =
     (let b = szBuff @ [char_of ch] in if length b \<ge> sizeof_szBuff - 32 then ([], str @ c_cut b) else (b, str))"

definition end_string :: "int \<Rightarrow> char list \<Rightarrow> char list \<Rightarrow> cfile \<Rightarrow> char list \<times> cfile" where
  "end_string chend szBuff str fp = (str @ c_cut szBuff, if chend \<noteq> 0 then toLineEnd fp else fp)"

lemma left_fgetc: "fgetc_int f = (c, f') \<Longrightarrow> left f' \<le> left f \<and> (\<not> at_eof f \<longrightarrow> left f' < left f) \<and> (c \<noteq> -1 \<longrightarrow> left f' + 2 = left f)"
  by (auto simp: fgetc_int_def left_def of_char_def split: list.splits)

lemma left_fgetc_snd: "\<not> at_eof f \<Longrightarrow> left (snd (fgetc_int f)) < left f"
  using left_fgetc [of f] by (cases "fgetc_int f") auto

lemma left_unget: "fgetc_int f = (c, f') \<Longrightarrow> \<not> at_eof f \<Longrightarrow> left (ungetc_int c f') \<le> left f"
  by (auto simp: fgetc_int_def left_def ungetc_int_def of_char_def split: list.splits)

lemma left_scan_number:
  "scan_number p s ch f = Inr (s', ch', f') \<Longrightarrow>
    (ch' = ch \<and> f' = f) \<or> (\<exists>c. ch' = Some c \<and> left (ungetc_int c f') \<le> left f \<and> left f' \<le> left f)"
proof (induction p s ch f rule: scan_number.induct)
  case (1 p s ch f)
  show ?case
  proof (cases "at_eof f")
    case True
    then show ?thesis using "1.prems" by (subst (asm) scan_number.simps) (auto split: if_splits)
  next
    case False
    obtain c f1 where c: "fgetc_int f = (c, f1)" by force
    note eq = "1.prems" [unfolded scan_number.simps [of p s ch f]]
    have unget: "left (ungetc_int c f1) \<le> left f" "left f1 \<le> left f"
      using left_unget [OF c False] left_fgetc [OF c] by auto
    show ?thesis
    proof (cases "p c \<and> c \<noteq> -1")
      case True
      then have len: "length s < sizeof_szNumber" and rec: "scan_number p (s @ [char_of c]) (Some c) f1 = Inr (s', ch', f')"
        using eq False c by (auto split: if_splits)
      from "1.IH" [OF False c [symmetric] refl True len rec] show ?thesis using unget by auto
    next
      case stop: False
      then have "ch' = Some c \<and> f' = f1" using eq False c by (auto split: if_splits)
      then show ?thesis using unget by auto
    qed
  qed
qed

lemma left_unget_last: "scan_number p s None f = Inr (s', ch', f') \<Longrightarrow> unget_last ch' f' = Inr f2 \<Longrightarrow> left f2 \<le> left f"
  using left_scan_number [of p s None f s' ch' f'] by (auto simp: unget_last_def split: option.splits)

lemma left_getOct: "getOct f = Inr (n, f') \<Longrightarrow> left f' \<le> left f"
  by (auto simp: getOct_def rbind_eq_Inr dest: left_unget_last)

lemma left_getHex: "getHex f = Inr (n, f') \<Longrightarrow> left f' \<le> left f"
  by (auto simp: getHex_def rbind_eq_Inr dest: left_unget_last)

lemma left_ungetc: "left (ungetc_int c f) \<le> left f + 3"
  by (auto simp: left_def ungetc_int_def)

lemma left_read_escape:
  assumes "read_escape chend f = Inr (e, f')"
  shows "left f' \<le> left f \<and> (case e of Back _ \<Rightarrow> left f' < left f | _ \<Rightarrow> True)"
proof -
  obtain c1 f1 where 1: "fgetc_int f = (c1, f1)" by force
  obtain c2 f2 where 2: "fgetc_int f1 = (c2, f2)" by force
  note l = left_fgetc [OF 1] left_fgetc [OF 2]
  have oct: "left f3 \<le> left f" if "getOct (ungetc_int c2 f2) = Inr (n, f3)" "c1 = 48" for n f3
  proof -
    have "left (ungetc_int c2 f2) \<le> left f1 + 1"
      using 2 by (auto simp: fgetc_int_def left_def ungetc_int_def of_char_def split: list.splits)
    then show ?thesis using left_getOct [OF that(1)] l that(2) by auto
  qed
  show ?thesis using assms 1 2 l oct
    by (auto simp: read_escape_def rbind_eq_Inr Let_def split: if_splits dest!: left_getHex)
qed

text \<open>The loop of \<open>getString\<close>; \<open>ch\<close> is the current character.\<close>

function getString_loop :: "int \<Rightarrow> char list \<Rightarrow> char list \<Rightarrow> int \<Rightarrow> cfile \<Rightarrow> (char list \<times> cfile) res" where
  "getString_loop chend szBuff str ch fp =
     (if ch = of_char (CHR 0x5C)
      then (case read_escape chend fp of
          Inl e \<Rightarrow> Inl e
        | Inr (Close, fp) \<Rightarrow> Inr (end_string chend szBuff str fp)
        | Inr (Back ch, fp) \<Rightarrow>
            if szBuff = [] then Inl Out_Of_Bounds else getString_loop chend (butlast szBuff) str ch fp
        | Inr (Store ch, fp) \<Rightarrow>
            let (szBuff, str) = store_char ch szBuff str in
            if at_eof fp then Inr (end_string chend szBuff str fp)
            else let (ch, fp) = fgetc_int fp in getString_loop chend szBuff str ch fp)
      else if (chend \<noteq> 0 \<and> ch = chend) \<or> (chend = 0 \<and> (ch = 13 \<or> ch = 10))
      then Inr (end_string chend szBuff str fp)
      else let (szBuff, str) = store_char ch szBuff str in
        if at_eof fp then Inr (end_string chend szBuff str fp)
        else let (ch, fp) = fgetc_int fp in getString_loop chend szBuff str ch fp)"
  by pat_completeness auto

termination
proof (relation "measure (\<lambda>(chend, b, s, ch, fp). left fp)", goal_cases)
  case prems: (2 chend b s ch fp e p f2 d)
  then have "left f2 \<le> left fp" "\<not> at_eof f2" using left_read_escape [of chend fp] by (auto split: escaped.splits)
  then have "left (snd (fgetc_int f2)) < left fp" using left_fgetc_snd [of f2] by simp
  then show ?case using prems by (auto simp: case_prod_beta)
next
  case (3 chend b s ch fp)
  then show ?case using left_read_escape [of chend fp] by (auto split: escaped.splits)
next
  case (4 chend b s ch fp)
  then show ?case by (auto simp: case_prod_beta intro: left_fgetc_snd)
qed simp

declare getString_loop.simps [simp del]

definition getString :: "cfile \<Rightarrow> (char list \<times> cfile) res" where
  "getString fp =
     (let (ch, fp) = skip_space 0 fp in
      if ch = 34 then (let (ch', fp) = fgetc_int fp in getString_loop 34 [] [] ch' fp)
      else getString_loop 0 [] [] ch fp)"

section \<open>The texts of a language\<close>

record TeNode =
  te_status :: int
  langType :: "char list"
  country :: "char list"
  charSet :: "char list"
  langMap :: "(int \<times> char list) list"

definition TeNode_getText :: "int \<Rightarrow> TeNode \<Rightarrow> char list option" where
  "TeNode_getText id' n = map_of (langMap n) id'"

definition TeNode_setText :: "int \<Rightarrow> char list option \<Rightarrow> TeNode \<Rightarrow> bool \<times> TeNode" where
  "TeNode_setText id' szText n =
     (case szText of None \<Rightarrow> (False, n) | Some s \<Rightarrow> (True, n\<lparr>langMap := map_put id' s (langMap n)\<rparr>))"

text \<open>The iterator still points at the entry of \<open>oldId\<close> after the assignment.\<close>

definition changeId :: "int \<Rightarrow> int \<Rightarrow> TeNode \<Rightarrow> bool \<times> TeNode" where
  "changeId oldId newId n =
     (case map_of (langMap n) oldId of
        None \<Rightarrow> (False, n)
      | Some s \<Rightarrow> (True, n\<lparr>langMap := map_erase oldId (map_put newId s (langMap n))\<rparr>))"

definition TEXT_TYPE :: int where "TEXT_TYPE = 2"

lemma left_nextLine: "left (nextLine f) \<le> left f \<and> (\<not> at_eof f \<longrightarrow> left (nextLine f) < left f)"
proof (induction f rule: nextLine.induct)
  case (1 f)
  obtain c f1 where c: "fgetc_int f = (c, f1)" by force
  show ?case using "1.IH" [OF c [symmetric] refl] left_fgetc [OF c] c
    by (subst (1 2) nextLine.simps) auto
qed

lemma left_skip_space: "left (snd (skip_space ch f)) \<le> left f"
proof (induction ch f rule: skip_space.induct)
  case (1 ch f)
  obtain c f1 where c: "fgetc_int f = (c, f1)" by force
  show ?case using "1.IH" [OF _ c [symmetric] refl] left_fgetc [OF c] c
    by (subst skip_space.simps) auto
qed

lemma left_end_string: "left (snd (end_string chend b s f)) \<le> left f"
  using left_nextLine [of f] by (simp add: end_string_def toLineEnd_def)

lemma left_getString_loop: "getString_loop chend b s ch f = Inr (r, f') \<Longrightarrow> left f' \<le> left f"
proof (induction chend b s ch f arbitrary: r f' rule: getString_loop.induct)
  case (1 chend b s ch f)
  have stop: "left f' \<le> left f" if "Inr (end_string chend b' s' f1) = (Inr (r, f') :: fault + _)" "left f1 \<le> left f" for b' s' f1
    using that left_end_string [of chend b' s' f1] by simp
  obtain b1 s1 where st: "store_char ch b s = (b1, s1)" by force
  obtain c1 f1 where c1: "fgetc_int f = (c1, f1)" by force
  note eq = "1.prems" [unfolded getString_loop.simps [of chend b s ch f]]
  show ?case
  proof (cases "ch = of_char (CHR 0x5C)")
    case esc: True
    show ?thesis
    proof (cases "read_escape chend f")
      case (Inl e)
      then show ?thesis using eq esc by simp
    next
      case (Inr a)
      obtain e f2 where e: "a = (e, f2)" by force
      note le = left_read_escape [OF Inr [unfolded e]]
      show ?thesis
      proof (cases e)
        case (Store d)
        obtain b2 s2 where st2: "store_char d b s = (b2, s2)" by force
        obtain c2 f3 where c2: "fgetc_int f2 = (c2, f3)" by force
        show ?thesis using eq esc Inr e Store st2 c2 le left_fgetc [OF c2] stop
            "1.IH"(1) [OF esc Inr [unfolded e] refl Store st2 [symmetric] refl _ c2 [symmetric] refl, of r f']
          by (auto split: if_splits)
      next
        case (Back d)
        show ?thesis using eq esc Inr e Back le "1.IH"(2) [OF esc Inr [unfolded e] refl Back, of r f']
          by (auto split: if_splits)
      next
        case Close
        then show ?thesis using eq esc Inr e le stop by auto
      qed
    qed
  next
    case False
    show ?thesis using eq False st c1 left_fgetc [OF c1] stop "1.IH"(3) [OF False _ st [symmetric] refl _ c1 [symmetric] refl, of r f']
      by (auto split: if_splits)
  qed
qed

lemma left_getString:
  assumes "getString f = Inr (s, f')" shows "left f' \<le> left f"
proof -
  obtain c f1 where c: "skip_space 0 f = (c, f1)" by force
  obtain c2 f2 where c2: "fgetc_int f1 = (c2, f2)" by force
  show ?thesis using assms c c2 left_skip_space [of 0 f] left_fgetc [OF c2] left_getString_loop
    by (fastforce simp: getString_def split: if_splits)
qed

lemma left_getId: "getId f = Inr (i, f') \<Longrightarrow> left f' \<le> left f"
  unfolding getId_def by (auto simp: rbind_eq_Inr dest!: left_scan_number)

lemma unget_fgetc: "fgetc_int f = (c, f') \<Longrightarrow> \<not> at_eof f \<Longrightarrow> c \<noteq> -1 \<Longrightarrow> ungetc_int c f' = f"
  by (cases f) (auto simp: fgetc_int_def ungetc_int_def split: list.splits)

lemma left_unget_getId:
  assumes "fgetc_int f = (c, f1)" "\<not> at_eof f" "getId (ungetc_int c f1) = Inr (i, f2)"
  shows "left f2 < left f"
proof (cases "c = -1")
  case True
  then show ?thesis using assms left_getId [of f1 i f2] left_fgetc [OF assms(1)] by (simp add: ungetc_int_def)
next
  case False
  then have "getId f = Inr (i, f2)" using assms unget_fgetc by metis
  then obtain s ch where "scan_number isNumber [] None f = Inr (s, ch, f2)" by (auto simp: getId_def rbind_eq_Inr)
  then have "f2 = f1 \<or> (\<exists>s' ch. scan_number isNumber s' (Some c) f1 = Inr (s, ch, f2))"
    using assms by (subst (asm) scan_number.simps) (auto split: if_splits)
  then show ?thesis using left_fgetc [OF assms(1)] assms(2) by (auto dest!: left_scan_number)
qed

text \<open>\<open>TeNode::readText\<close> on the rest of the file; the file is never closed.\<close>

function read_texts :: "cfile \<Rightarrow> (int \<times> char list) list \<Rightarrow> (int \<times> char list) list res" where
  "read_texts fp m =
     (if at_eof fp then Inr m
      else let (ch, fp1) = fgetc_int fp in
        if ch = of_char (CHR ''#'') then read_texts (nextLine fp1) m
        else (case getId (ungetc_int ch fp1) of
            Inl e \<Rightarrow> Inl e
          | Inr (i, fp2) \<Rightarrow>
              if i \<le> 0 \<or> ID2TYPE i \<noteq> TEXT_TYPE then read_texts (nextLine fp2) m
              else (case getString fp2 of
                  Inl e \<Rightarrow> Inl e
                | Inr (s, fp3) \<Rightarrow> read_texts fp3 (map_put i s m))))"
  by pat_completeness auto

termination
proof (relation "measure (\<lambda>(fp, m). left fp)", goal_cases)
  case (2 fp m x ch fp1)
  then show ?case using left_fgetc [of fp ch fp1] left_nextLine [of fp1] by auto
next
  case (3 fp m x ch fp1 p i fp2)
  then have "left fp2 < left fp" by (intro left_unget_getId [of fp ch fp1]) auto
  then show ?case using left_nextLine [of fp2] by simp
next
  case (4 fp m x ch fp1 p i fp2 q t fp3)
  then have "left fp2 < left fp" "getString fp2 = Inr (t, fp3)" by (auto intro: left_unget_getId [of fp ch fp1])
  then show ?case using left_getString [of fp2 t fp3] by simp
qed simp

declare read_texts.simps [simp del]

definition readText :: "char list option \<Rightarrow> TeNode \<Rightarrow> (bool \<times> TeNode) res" where
  "readText contents n =
     (case contents of
        None \<Rightarrow> Inr (False, n)
      | Some cs \<Rightarrow> rbind (read_texts \<lparr>ahead = cs, at_eof = False\<rparr> (langMap n)) (\<lambda>m. Inr (True, n\<lparr>langMap := m\<rparr>)))"

section \<open>Writing\<close>

text \<open>Of the 100 bytes of \<open>szBuff\<close> at most 83 are used.\<close>

definition escape_char :: "char \<Rightarrow> char list" where
  "escape_char c =
     (if c = CHR 0x22 then [CHR 0x5C, CHR 0x22] else if c = CHR 0x09 then [CHR 0x5C, CHR ''t'']
      else if c = CHR 0x0A then [CHR 0x5C, CHR ''n''] else [c])"

fun save_text_loop :: "cenv \<Rightarrow> char list \<Rightarrow> char list \<Rightarrow> text_stream \<Rightarrow> char list \<times> text_stream" where
  "save_text_loop E szBuff [] t = (szBuff, t)"
| "save_text_loop E szBuff (c # cs) t =
     (let b = szBuff @ escape_char c in
      if length b \<ge> 80 then save_text_loop E [] cs (ts_println E (Some (b @ [CHR 0x5C])) t)
      else save_text_loop E b cs t)"

definition save_fromated_text :: "cenv \<Rightarrow> char list \<Rightarrow> text_stream \<Rightarrow> text_stream" where
  "save_fromated_text E str t =
     (let (szBuff, t) = save_text_loop E [CHR 0x22] str t in
      if szBuff \<noteq> [] then ts_println E (Some (szBuff @ [CHR 0x22])) t else t)"

definition save_entry :: "cenv \<Rightarrow> int \<times> char list \<Rightarrow> text_stream \<Rightarrow> text_stream" where
  "save_entry E e t =
     save_fromated_text E (snd e) (ts_printf E (Some (''0x'' @ fmt_08X (word_of_int (fst e)) @ [CHR 0x09])) t)"

text \<open>The stream at the end; closing it is left to its destructor.\<close>

definition saveText :: "cenv \<Rightarrow> bool \<Rightarrow> TeNode \<Rightarrow> text_stream" where
  "saveText E is_open n =
     fold (save_entry E) (langMap n)
       (ts_println E (Some (''#The Text of '' @ langType n @ ''_'' @ country n)) (TextStream (Some (FileStreamStorage is_open))))"

text \<open>The length of a string in a package, with at least three zeros behind it.\<close>

definition fill_len :: "nat \<Rightarrow> nat" where
  "fill_len str_len = (let n = str_len + 3 in if n mod 4 \<noteq> 0 then (n div 4 + 1) * 4 else n)"

fun save_items :: "(int \<times> char list) list \<Rightarrow> nat \<Rightarrow> char list \<Rightarrow> bin_stream \<Rightarrow> nat \<times> char list \<times> bin_stream" where
  "save_items [] pos strPool bin = (pos, strPool, bin)"
| "save_items ((i, cont) # es) pos strPool bin =
     (let cnt = fill_len (length cont) in
      save_items es (pos + cnt) (strPool @ takeWhile (\<lambda>c. c \<noteq> NUL) cont @ replicate (cnt - length cont) NUL)
        (save32 (of_nat pos) (save32 0 (save32 (word_of_int i) bin))))"

definition saveTextBin :: "TeNode \<Rightarrow> bin_stream \<Rightarrow> nat \<times> bin_stream" where
  "saveTextBin n bin =
     (let size_maps = length (langMap n); sect_size = 8 + size_maps * 12;
          bin = save32 (of_nat size_maps) (save32 (of_nat sect_size) bin);
          (pos, strPool, bin) = save_items (langMap n) sect_size [] bin;
          bin = save8Arr (Some (take (pos - sect_size) strPool)) bin in
      (size_maps, bs_seek 0 seek_end bin))"

section \<open>What is in the file\<close>

text \<open>The text of an entry behind \<open>n\<close> characters of its line.\<close>

fun text_lines :: "nat \<Rightarrow> char list \<Rightarrow> char list" where
  "text_lines n [] = (if n = 0 then [] else [CHR 0x22, CHR 0x0A])"
| "text_lines n (c # cs) =
     escape_char c @ (let k = n + length (escape_char c) in
       if k \<ge> 80 then [CHR 0x5C, CHR 0x0A] @ text_lines 0 cs else text_lines k cs)"

definition entry_text :: "int \<times> char list \<Rightarrow> char list" where
  "entry_text e = ''0x'' @ fmt_08X (word_of_int (fst e)) @ [CHR 0x09, CHR 0x22] @ text_lines 1 (snd e)"

definition file_text :: "TeNode \<Rightarrow> char list" where
  "file_text n = ''#The Text of '' @ langType n @ ''_'' @ country n @ [CHR 0x0A] @ concat (map entry_text (langMap n))"

lemma layout_depth_0 [simp]: "layout nl (map (Pair 0) s) = s"
  by (induction s arbitrary: nl) simp_all

lemma vprintf_plain:
  assumes "all_mem E" "shows_text t 0 nl b" "NUL \<notin> set s"
  shows "\<exists>nl'. shows_text (vprintf E (Some s) t) 0 nl' (b @ s)"
proof -
  obtain st where st: "ts_storage t = Some st" "fs_file st = Some (b, length b)" "ts_prefix t = []"
    using assms(2) by (auto simp: shows_text_def at_end_def)
  have cut: "takeWhile (\<lambda>c. c \<noteq> NUL) s = s" using assms(3) by (simp add: takeWhile_eq_all_conv) blast
  from vprintf_loop_layout [OF st(2), of False "[]" 0 s] obtain s2 where
    "vprintf_loop [] [] False s st = (ends_line False s, s2)" "fs_file s2 = Some (b @ s, length (b @ s))" by auto
  then show ?thesis using assms(1) st cut
    by (simp add: vprintf_def mem_all shows_text_def Let_def del: takeWhile_eq_all_conv)
qed

lemma println_plain:
  assumes "all_mem E" "shows_text t 0 nl b" "NUL \<notin> set s"
  shows "\<exists>nl'. shows_text (ts_println E (Some s) t) 0 nl' (b @ s @ [CHR 0x0A])"
proof -
  obtain nl' where *: "shows_text (vprintf E (Some s) t) 0 nl' (b @ s)" using vprintf_plain [OF assms] by auto
  then obtain st where "ts_storage (vprintf E (Some s) t) = Some st" by (auto simp: shows_text_def at_end_def)
  then show ?thesis using * fss_write_at_end [of st "b @ s" "[CHR 0x0A]"]
    by (auto simp: ts_println_def shows_text_def)
qed

lemma NUL_escape_char [simp]: "NUL \<in> set (escape_char c) \<longleftrightarrow> c = NUL"
  by (auto simp: escape_char_def)

lemma escape_char_length: "length (escape_char c) = 1 \<or> length (escape_char c) = 2"
  by (simp add: escape_char_def)

lemma save_text_loop_lines:
  assumes E: "all_mem E"
  shows "shows_text t 0 nl b \<Longrightarrow> NUL \<notin> set bf \<Longrightarrow> NUL \<notin> set s \<Longrightarrow> save_text_loop E bf s t = (r, t') \<Longrightarrow>
    \<exists>nl' b'. shows_text t' 0 nl' b' \<and> NUL \<notin> set r \<and>
      b' @ r @ (if r = [] then [] else [CHR 0x22, CHR 0x0A]) = b @ bf @ text_lines (length bf) s"
proof (induction s arbitrary: bf t nl b)
  case Nil
  then show ?case by auto
next
  case (Cons c cs)
  let ?b = "bf @ escape_char c"
  show ?case
  proof (cases "length ?b \<ge> 80")
    case True
    obtain nl2 where "shows_text (ts_println E (Some (?b @ [CHR 0x5C])) t) 0 nl2 (b @ (?b @ [CHR 0x5C]) @ [CHR 0x0A])"
      using println_plain [OF E Cons.prems(1), of "?b @ [CHR 0x5C]"] Cons.prems(2,3) by auto
    from Cons.IH [OF this, of "[]"] show ?thesis using Cons.prems(3,4) True by (simp add: Let_def)
  next
    case False
    then have "save_text_loop E ?b cs t = (r, t')" using Cons.prems(4) by (simp add: Let_def)
    from Cons.IH [OF Cons.prems(1) _ _ this] show ?thesis using Cons.prems(2,3) False by (auto simp: Let_def)
  qed
qed

lemma save_entry_text:
  assumes "all_mem E" "shows_text t 0 nl b" "NUL \<notin> set (snd e)"
  shows "\<exists>nl'. shows_text (save_entry E e t) 0 nl' (b @ entry_text e)"
proof -
  have hex: "NUL \<notin> set (fmt_08X w)" for w
  proof -
    have "hex_upper (n mod 16) \<noteq> NUL" for n
    proof -
      have "n mod 16 < 16" by simp
      then have "n mod 16 \<in> set [0..<16]" by simp
      moreover have "\<forall>k\<in>set [0..<16]. hex_upper k \<noteq> NUL" by code_simp
      ultimately show ?thesis by blast
    qed
    moreover have "nat (x mod 16) = nat (x mod 16) mod 16" for x :: int by (simp add: nat_less_iff)
    ultimately have "hex_upper (nat (x mod 16)) \<noteq> NUL" for x :: int by metis
    then show ?thesis by (auto simp: fmt_08X_def dest: sym)
  qed
  let ?h = "''0x'' @ fmt_08X (word_of_int (fst e)) @ [CHR 0x09]"
  obtain nl1 where 1: "shows_text (ts_printf E (Some ?h) t) 0 nl1 (b @ ?h)"
    using vprintf_plain [OF assms(1,2), of ?h] hex by (auto simp: ts_printf_def)
  obtain r t2 where l: "save_text_loop E [CHR 0x22] (snd e) (ts_printf E (Some ?h) t) = (r, t2)" by force
  obtain nl2 b2 where 2: "shows_text t2 0 nl2 b2" "NUL \<notin> set r"
    "b2 @ r @ (if r = [] then [] else [CHR 0x22, CHR 0x0A]) = (b @ ?h) @ [CHR 0x22] @ text_lines 1 (snd e)"
    using save_text_loop_lines [OF assms(1) 1 _ assms(3) l] by auto
  show ?thesis
  proof (cases "r = []")
    case True
    then show ?thesis using 2 l by (auto simp: save_entry_def save_fromated_text_def entry_text_def)
  next
    case False
    then show ?thesis using 2 l println_plain [OF assms(1) 2(1), of "r @ [CHR 0x22]"]
      by (auto simp: save_entry_def save_fromated_text_def entry_text_def)
  qed
qed

lemma save_entries_text:
  assumes "all_mem E"
  shows "shows_text t 0 nl b \<Longrightarrow> \<forall>e\<in>set es. NUL \<notin> set (snd e) \<Longrightarrow>
    \<exists>nl'. shows_text (fold (save_entry E) es t) 0 nl' (b @ concat (map entry_text es))"
proof (induction es arbitrary: t nl b)
  case (Cons e es)
  obtain nl1 where "shows_text (save_entry E e t) 0 nl1 (b @ entry_text e)"
    using save_entry_text [OF assms Cons.prems(1), of e] Cons.prems(2) by auto
  from Cons.IH [OF this] show ?case using Cons.prems(2) by simp
qed auto

definition plain_node :: "TeNode \<Rightarrow> bool" where
  "plain_node n \<longleftrightarrow> NUL \<notin> set (langType n) \<and> NUL \<notin> set (country n) \<and> (\<forall>e\<in>set (langMap n). NUL \<notin> set (snd e))"

lemma saveText_file:
  assumes "all_mem E" "plain_node n"
  shows "at_end (ts_storage (saveText E True n)) (file_text n)"
proof -
  let ?t = "TextStream (Some (FileStreamStorage True))" and ?s = "''#The Text of '' @ langType n @ ''_'' @ country n"
  have "shows_text ?t 0 True []" using at_end_fresh by (simp add: shows_text_def TextStream_def)
  then obtain nl1 where "shows_text (ts_println E (Some ?s) ?t) 0 nl1 ([] @ ?s @ [CHR 0x0A])"
    using println_plain [OF assms(1), of ?t True "[]" ?s] assms(2) by (auto simp: plain_node_def)
  from save_entries_text [OF assms(1) this, of "langMap n"] show ?thesis
    using assms(2) by (auto simp: saveText_def shows_text_def file_text_def plain_node_def)
qed

end
