(* ===== verification/Package_Writer.thy ===== *)
theory Package_Writer
  imports Text_Files
begin

text \<open>
  How a project becomes a resource package: the string pool of the main frame (\<open>mainframe/mainframe.h\<close>), the sections
  the editors write (\<open>TextEditor::save\<close> in \<open>texteditor/texteditor.cpp\<close>, \<open>ImageEditor::save\<close> in \<open>imgeditor/imgeditor.cpp\<close>,
  \<open>RendererEditor::saveBin\<close> in \<open>rdreditor/rdreditor.cpp\<close> with the instances of \<open>rdr-instance.cpp\<close>, \<open>UIEditor::save\<close> in
  \<open>uieditor/uieditor.cpp\<close> with the windows of \<open>window-instance.cpp\<close> and the components of \<open>invisible-component.cpp\<close>) and
  \<open>MainFrame::onSave\<close> (\<open>mainframe/mainframe.cpp\<close>). What the fields of an object are is given, with the kind of their values; saving
  them adds strings to the pool. Sizes and positions are exact for files of less than 2 GB.
\<close>

section \<open>The string pool\<close>

text \<open>Both maps point to the same entries.\<close>

record string_entry =
  se_str :: "char list"
  se_id :: int
  se_ref :: int

record string_pool =
  str_entries :: "nat \<Rightarrow> string_entry option"
  next_entry :: nat
  stringPool :: "(int \<times> nat) list"
  namedStringPool :: "char list \<Rightarrow> nat option"
  str_id_begin :: int

definition NCSRM_SYSSTR_MAXID :: int where "NCSRM_SYSSTR_MAXID = 128"
definition NCSRM_SYSSTR_DEFRDR :: int where "NCSRM_SYSSTR_DEFRDR = 0x10001"

definition empty_pool :: string_pool where
  "empty_pool = \<lparr>str_entries = (\<lambda>_. None), next_entry = 0, stringPool = [], namedStringPool = (\<lambda>_. None),
     str_id_begin = NCSRM_SYSSTR_MAXID\<rparr>"

definition get_entry :: "string_pool \<Rightarrow> nat \<Rightarrow> string_entry res" where
  "get_entry p a = (case str_entries p a of None \<Rightarrow> Inl Use_After_Free | Some se \<Rightarrow> Inr se)"

text \<open>The loop body returns at once: the pool is asked for the number alone, without the type in its upper half.\<close>

definition newStrId :: "string_pool \<Rightarrow> int \<times> string_pool" where
  "newStrId p =
     (if length (stringPool p) \<ge> 65535 then (-1, p)
      else let b = (if str_id_begin p \<ge> 65535 then NCSRM_SYSSTR_MAXID else str_id_begin p) + 1; p = p\<lparr>str_id_begin := b\<rparr> in
        (if map_of (stringPool p) b = None then or b (push_bit 16 1) else -1, p))"

text \<open>\<open>mapex::at\<close> gives \<open>NULL\<close> for a key that is not there.\<close>

definition getString' :: "int \<Rightarrow> string_pool \<Rightarrow> char list option res" where
  "getString' i p =
     (if i < 0 then Inr None
      else case map_of (stringPool p) i of None \<Rightarrow> Inr None | Some a \<Rightarrow> rbind (get_entry p a) (\<lambda>se. Inr (Some (se_str se))))"

definition no_string :: "char list option \<Rightarrow> bool" where
  "no_string str \<longleftrightarrow> str = None \<or> str = Some [] \<or> str = Some ''res/''"

definition stringToId :: "char list option \<Rightarrow> string_pool \<Rightarrow> int res" where
  "stringToId str p =
     (if no_string str then Inr (-1)
      else case namedStringPool p (the str) of None \<Rightarrow> Inr (-1) | Some a \<Rightarrow> rbind (get_entry p a) (\<lambda>se. Inr (se_id se)))"

definition addString :: "char list option \<Rightarrow> string_pool \<Rightarrow> (int \<times> string_pool) res" where
  "addString str p =
     (if no_string str then Inr (-1, p)
      else case namedStringPool p (the str) of
        None \<Rightarrow>
          let (i, p) = newStrId p in
          if i < 0 then Inr (-1, p)
          else let a = next_entry p in
            Inr (i, p\<lparr>str_entries := (str_entries p)(a \<mapsto> \<lparr>se_str = the str, se_id = i, se_ref = 1\<rparr>), next_entry := a + 1,
              stringPool := map_put i a (stringPool p), namedStringPool := (namedStringPool p)(the str \<mapsto> a)\<rparr>)
      | Some a \<Rightarrow> rbind (get_entry p a) (\<lambda>se.
          Inr (se_id se, p\<lparr>str_entries := (str_entries p)(a \<mapsto> se\<lparr>se_ref := se_ref se + 1\<rparr>)\<rparr>)))"

definition removeString :: "int \<Rightarrow> string_pool \<Rightarrow> (int \<times> string_pool) res" where
  "removeString i p =
     (case map_of (stringPool p) i of
        None \<Rightarrow> Inr (1, p)
      | Some a \<Rightarrow> rbind (get_entry p a) (\<lambda>se.
          let se = se\<lparr>se_ref := se_ref se - 1\<rparr> in
          if se_ref se = 0
          then Inr (1, p\<lparr>str_entries := (str_entries p)(a := None), stringPool := map_erase i (stringPool p),
            namedStringPool := (namedStringPool p)(se_str se := None)\<rparr>)
          else Inr (1, p\<lparr>str_entries := (str_entries p)(a \<mapsto> se)\<rparr>)))"

section \<open>The section of strings\<close>

type_synonym id_items = "(32 word \<times> 32 word) list"

text \<open>One string: the item of the table (its file name is 0), the bytes up to the first \<open>NUL\<close> and the next offset.\<close>

definition saveString :: "int \<Rightarrow> char list \<Rightarrow> id_items \<Rightarrow> char list \<Rightarrow> 32 word \<Rightarrow> id_items \<times> char list \<times> 32 word" where
  "saveString i str idmaps strbuff offset =
     (let fill = fill_len (length str) in
      (idmaps @ [(word_of_int i, offset)], strbuff @ takeWhile (\<lambda>c. c \<noteq> NUL) str @ replicate (fill - length str) NUL, offset + of_nat fill))"

fun save_pool :: "string_pool \<Rightarrow> (int \<times> nat) list \<Rightarrow> id_items \<Rightarrow> char list \<Rightarrow> 32 word \<Rightarrow> (id_items \<times> char list \<times> 32 word) res" where
  "save_pool p [] idmaps strbuff offset = Inr (idmaps, strbuff, offset)"
| "save_pool p ((i, a) # es) idmaps strbuff offset =
     rbind (get_entry p a) (\<lambda>se.
       let (idmaps, strbuff, offset) = saveString i (se_str se) idmaps strbuff offset in save_pool p es idmaps strbuff offset)"

fun save_iditems :: "id_items \<Rightarrow> bin_stream \<Rightarrow> bin_stream" where
  "save_iditems [] bin = bin"
| "save_iditems ((i, off) # es) bin = save_iditems es (save32 off (save32 0 (save32 i bin)))"

definition writeStringResource :: "cenv \<Rightarrow> char list \<Rightarrow> string_pool \<Rightarrow> bin_stream \<Rightarrow> bin_stream res" where
  "writeStringResource E defRdr p bin =
     (if stringPool p = [] then Inr bin
      else let nr_id = of_nat (length (stringPool p) + 1) :: 32 word;
               base_sect = 8 + nr_id * 12 in
        if \<not> mem E (12 * (int (length (stringPool p)) + 1)) then Inl Null_Deref
        else let (idmaps, strbuff, offset) = saveString NCSRM_SYSSTR_DEFRDR defRdr [] [] base_sect in
          rbind (save_pool p (stringPool p) idmaps strbuff offset) (\<lambda>(idmaps, strbuff, offset).
            let bin = save_iditems idmaps (save32 nr_id (save32 offset bin)) in
            Inr (save8Arr (Some (take (nat (sint (offset - base_sect))) strbuff)) bin)))"

section \<open>The section of texts\<close>

text \<open>\<open>te_cur\<close> and \<open>te_def\<close> are the nodes \<open>pCurTeNode\<close> and \<open>pDefTeNode\<close> point to, by their places in the list.\<close>

record text_editor =
  configList :: "TeNode list"
  te_cur :: "nat option"
  te_def :: "nat option"

text \<open>Four bytes of a name in its buffer.\<close>

definition four :: "char list \<Rightarrow> char list" where "four s = take 4 (s @ replicate 4 NUL)"

definition node_at :: "text_editor \<Rightarrow> nat option \<Rightarrow> TeNode res" where
  "node_at ed k = (case k of None \<Rightarrow> Inl Null_Deref | Some i \<Rightarrow> aget (configList ed) (int i))"

fun save_locales :: "nat \<Rightarrow> int \<Rightarrow> TeNode list \<Rightarrow> bin_stream \<Rightarrow> bin_stream" where
  "save_locales i begin' [] bin = bin"
| "save_locales i begin' (n # ns) bin =
     (let offset = bs_tell bin - begin';
          pos = begin' + 8 + 8 + int i * 16;
          bin = bs_seek pos seek_begin bin;
          bin = save8Arr (Some (four (country n))) (save8Arr (Some (four (langType n))) bin);
          bin = save32 (word_of_int offset) (save32 0 bin);
          bin = bs_seek 0 seek_end bin in
      save_locales (i + 1) begin' ns (snd (saveTextBin n bin)))"

text \<open>The files of texts that are written beside the package, one for each node.\<close>

definition save_text_files :: "cenv \<Rightarrow> bool \<Rightarrow> text_editor \<Rightarrow> text_stream list" where
  "save_text_files E is_open ed = map (saveText E is_open) (configList ed)"

definition TextEditor_save :: "text_editor \<Rightarrow> bin_stream \<Rightarrow> bin_stream res" where
  "TextEditor_save ed bin =
     (if configList ed = [] then Inr bin
      else let begin' = bs_tell bin; count = length (configList ed);
               bin = save32 (of_nat count) (save32 0 bin) in
        rbind (node_at ed (if te_cur ed \<noteq> None then te_cur ed else te_def ed)) (\<lambda>n.
          let bin = save8Arr (Some (four (country n))) (save8Arr (Some (four (langType n))) bin);
              bin = (save8Arr (Some (replicate 16 NUL)) ^^ count) bin;
              bin = save_locales 0 begin' (configList ed) bin;
              sect_size = bs_tell bin - begin';
              bin = bs_seek begin' seek_begin bin;
              bin = save32 (word_of_int sect_size) bin in
          Inr (bs_seek 0 seek_end bin)))"

text \<open>\<open>TextEditor::saveXmlConfig\<close>, on a file that could be opened or not.\<close>

definition DEF_LANG :: int where "DEF_LANG = 1"
definition CUR_LANG :: int where "CUR_LANG = 2"

definition config_status :: "TeNode \<Rightarrow> char list" where
  "config_status n = (if and (te_status n) DEF_LANG \<noteq> 0 then ''default'' else if and (te_status n) CUR_LANG \<noteq> 0 then ''current'' else ''0'')"

definition config_node :: "cenv \<Rightarrow> TeNode \<Rightarrow> text_stream \<Rightarrow> text_stream res" where
  "config_node E n t =
     rbind (indent (ts_println E (Some (''<text status='' @ [CHR 0x22] @ config_status n @ [CHR 0x22] @ ''>'')) t)) (\<lambda>t.
     rbind (EntityReferenceTranslate (Some (langType n))) (\<lambda>l.
     rbind (EntityReferenceTranslate (Some (country n))) (\<lambda>c.
       let t = ts_println E (Some (''<lang>'' @ l @ ''</lang>'')) t;
           t = ts_println E (Some (''<country>'' @ c @ ''</country>'')) t;
           t = ts_println E (Some ''<charset>utf-8</charset>'') t in
       Inr (ts_println E (Some ''</text>'') (unindent t)))))"

fun config_nodes :: "cenv \<Rightarrow> TeNode list \<Rightarrow> text_stream \<Rightarrow> text_stream res" where
  "config_nodes E [] t = Inr t"
| "config_nodes E (n # ns) t = rbind (config_node E n t) (config_nodes E ns)"

definition saveXmlConfig :: "cenv \<Rightarrow> bool \<Rightarrow> TeNode list \<Rightarrow> text_stream option res" where
  "saveXmlConfig E is_open ns =
     (if ns = [] then Inr None
      else rbind (indent (ts_println E (Some ''<text-configuration>'') (TextStream (Some (FileStreamStorage is_open))))) (\<lambda>t.
           rbind (config_nodes E ns t) (\<lambda>t.
             Inr (Some (ts_println E (Some ''</text-configuration>'') (unindent t))))))"

section \<open>The other editors\<close>

text \<open>An entry whose resource is \<open>NULL\<close> is counted and not written.\<close>

fun save_images :: "(int \<times> resource option) list \<Rightarrow> bin_stream \<Rightarrow> bin_stream" where
  "save_images [] bin = bin"
| "save_images ((k, r) # rs) bin =
     (case r of
        None \<Rightarrow> save_images rs bin
      | Some r \<Rightarrow> save_images rs (save32 0 (save32 (word_of_int (source_id r)) (save32 (word_of_int (res_id r)) bin))))"

definition ImageEditor_save :: "(int \<times> resource option) list \<Rightarrow> bin_stream \<Rightarrow> bin_stream" where
  "ImageEditor_save rs bin =
     (if rs = [] then bin
      else save_images rs (save32 (of_nat (length rs)) (save32 (of_nat (length rs * 12 + 8)) bin)))"

text \<open>
  The prefix and the suffix of the names of classes, the set of controls that is used, and whether \<open>long\<close>, and with it
  \<open>DWORD\<close>, has 8 bytes.
\<close>

record mgncs =
  class_prefix :: "char list"
  class_suffix :: "char list"
  useNewControlSet :: bool
  long64 :: bool

text \<open>
  \<open>ValueType::toRes\<close>: the name of a file is a string of the pool (\<open>NULL\<close> is 0), every other value the number its type makes of
  it, \<open>Res_Number\<close>.
\<close>

datatype res_value = Res_Number "32 word" | Res_String "char list option"

definition toRes :: "res_value \<Rightarrow> string_pool \<Rightarrow> (32 word \<times> string_pool) res" where
  "toRes v p =
     (case v of
        Res_Number w \<Rightarrow> Inr (w, p)
      | Res_String str \<Rightarrow> if str = None then Inr (0, p) else rbind (addString str p) (\<lambda>(i, p). Inr (word_of_int i, p)))"

definition save_value :: "res_value \<Rightarrow> bin_stream \<times> string_pool \<Rightarrow> (bin_stream \<times> string_pool) res" where
  "save_value v bp = rbind (toRes v (snd bp)) (\<lambda>(w, p). Inr (save32 w (fst bp), p))"

text \<open>
  A renderer: its name, the class of its controls if it has one, and its fields with a known type, a font by its name
  and any other by what \<open>toRes\<close> gives. A set of renderers: its name and the ids.
\<close>

datatype field_value = FontField "char list option" | ResField res_value

datatype rdr_object =
    Renderer "char list" "char list option" "(int \<times> field_value) list"
  | Rdr_Set "char list" "int list"
  | No_Instance

definition save_string_id :: "char list option \<Rightarrow> bin_stream \<times> string_pool \<Rightarrow> (bin_stream \<times> string_pool) res" where
  "save_string_id str bp =
     rbind (addString str (snd bp)) (\<lambda>(i, p). Inr (save32 (word_of_int i) (fst bp), p))"

fun save_fields :: "(int \<times> field_value) list \<Rightarrow> bin_stream \<times> string_pool \<Rightarrow> (bin_stream \<times> string_pool) res" where
  "save_fields [] bp = Inr bp"
| "save_fields ((k, v) # fs) (bin, p) =
     rbind (case v of
         FontField str \<Rightarrow> save_string_id str (save32 (word_of_int k) bin, p)
       | ResField w \<Rightarrow> save_value w (save32 (word_of_int k) bin, p)) (save_fields fs)"

text \<open>The name of a class is put together in a buffer of \<open>n\<close> bytes.\<close>

definition class_name :: "nat \<Rightarrow> char list \<Rightarrow> char list \<Rightarrow> char list \<Rightarrow> char list res" where
  "class_name n pre cls post =
     (let s = pre @ cls @ post in if length s + 1 \<le> n then Inr s else Inl Out_Of_Bounds)"

fun save_rdr :: "mgncs \<Rightarrow> rdr_object \<Rightarrow> bin_stream \<times> string_pool \<Rightarrow> (bin_stream \<times> string_pool) res" where
  "save_rdr M (Renderer nm cls fs) bp =
     rbind (save_string_id (Some nm) bp) (\<lambda>bp.
       case cls of
         None \<Rightarrow> Inr bp
       | Some c \<Rightarrow>
           rbind (class_name 100 (class_prefix M) c (class_suffix M)) (\<lambda>c.
           rbind (save_string_id (Some c) bp) (\<lambda>bp.
           rbind (save_fields fs bp) (\<lambda>(bin, p). Inr (save32 0 (save32 (-1) bin), p)))))"
| "save_rdr M (Rdr_Set nm ids) bp =
     rbind (save_string_id (Some nm) bp) (\<lambda>(bin, p). Inr (save32 (-1) (fold (\<lambda>i. save32 (word_of_int i)) ids bin), p))"
| "save_rdr M No_Instance bp = Inr bp"

fun save_rdrs :: "mgncs \<Rightarrow> nat \<Rightarrow> int \<Rightarrow> (int \<times> rdr_object) list \<Rightarrow> bin_stream \<times> string_pool \<Rightarrow>
    (bin_stream \<times> string_pool) res" where
  "save_rdrs M i begin' [] bp = Inr bp"
| "save_rdrs M i begin' ((k, r) # rs) bp =
     (let offset = bs_tell (fst bp) - begin' in
      rbind (save_rdr M r bp) (\<lambda>(bin, p).
        let bin = bs_seek (begin' + 8 + int i * 12) seek_begin bin;
            bin = save32 (word_of_int offset) (save32 0 (save32 (word_of_int k) bin)) in
        save_rdrs M (i + 1) begin' rs (bs_seek 0 seek_end bin, p)))"

definition patch_size :: "int \<Rightarrow> bin_stream \<Rightarrow> bin_stream" where
  "patch_size begin' bin =
     (let offset = bs_tell bin - begin' in bs_seek 0 seek_end (save32 (word_of_int offset) (bs_seek begin' seek_begin bin)))"

definition RendererEditor_saveBin :: "mgncs \<Rightarrow> (int \<times> rdr_object) list \<Rightarrow> bin_stream \<times> string_pool \<Rightarrow>
    (bin_stream \<times> string_pool) res" where
  "RendererEditor_saveBin M rs bp =
     (let begin' = bs_tell (fst bp); count = length rs;
          bin = save32 (of_nat count) (save32 0 (fst bp));
          bin = (save8Arr (Some (replicate 12 NUL)) ^^ count) bin in
      rbind (save_rdrs M 0 begin' rs (bin, snd bp)) (\<lambda>(bin, p). Inr (patch_size begin' bin, p)))"

section \<open>Windows\<close>

text \<open>
  The binary form of a window (\<open>WindowInstance::saveBinToStream\<close>) and of an invisible component: a header, the properties, the
  windows in it. \<open>text_type\<close> is there when the class has a field for the text: what the type of that field makes of the text and
  of the renderer. \<open>bk_color\<close> and \<open>font_name\<close> are there when the field exists. A field with a known type has the number of the type,
  its id and its value.
\<close>

record component_data =
  control_class :: "char list option"
  instance_id :: int
  serial_num :: "32 word"
  text_type :: "(res_value \<times> res_value) option"
  prop_x :: "32 word"
  prop_y :: "32 word"
  prop_width :: "32 word"
  prop_height :: "32 word"
  comm_style :: "32 word"
  comm_exstyle :: "32 word"
  bk_color :: "32 word option"
  font_name :: "char list option option"
  prop_fields :: "(int \<times> (32 word \<times> 32 word \<times> res_value) option) list"

datatype ui_component = Window component_data "ui_component list" | Invisible component_data

fun data_of :: "ui_component \<Rightarrow> component_data" where
  "data_of (Window w cs) = w"
| "data_of (Invisible w) = w"

definition NCSRT_CONTRL :: int where "NCSRT_CONTRL = 0x4000"
definition PropClass :: int where "PropClass = 1000"
definition PropExtendBegin :: int where "PropExtendBegin = 10000"
definition PropExtendEnd :: int where "PropExtendEnd = 20000"

text \<open>\<open>NCSRM_WINHEADER\<close>: its size and the places of the members that are set at the end.\<close>

definition sizeof_WINHEADER :: "mgncs \<Rightarrow> int" where "sizeof_WINHEADER M = (if long64 M then 96 else 80)"
definition at_size :: "mgncs \<Rightarrow> int" where "at_size M = (if long64 M then 68 else 52)"
definition at_offset_props :: "mgncs \<Rightarrow> int" where "at_offset_props M = (if long64 M then 72 else 56)"
definition at_offset_ctrls :: "mgncs \<Rightarrow> int" where "at_offset_ctrls M = (if long64 M then 76 else 60)"
definition at_nr_props :: "mgncs \<Rightarrow> int" where "at_nr_props M = (if long64 M then 80 else 64)"
definition at_nr_ctrls :: "mgncs \<Rightarrow> int" where "at_nr_ctrls M = (if long64 M then 84 else 68)"

definition patch_member :: "int \<Rightarrow> int \<Rightarrow> bin_stream \<Rightarrow> bin_stream" where
  "patch_member pos v bin = save32 (word_of_int v) (bs_seek pos seek_begin bin)"

definition save_win_header :: "mgncs \<Rightarrow> component_data \<Rightarrow> bin_stream \<times> string_pool \<Rightarrow> (bin_stream \<times> string_pool) res" where
  "save_win_header M w bp =
     rbind (if useNewControlSet M
         then case control_class w of
             None \<Rightarrow> Inl Null_Deref
           | Some c \<Rightarrow> rbind (class_name 32 (class_prefix M) c (class_suffix M)) (\<lambda>c. save_string_id (Some c) bp)
         else save_string_id (control_class w) bp) (\<lambda>(bin, p).
       let i = instance_id w;
           bin = save32 (word_of_int (if ID2TYPE i = NCSRT_CONTRL then i mod 2 ^ 16 else i)) bin;
           bin = save32 (serial_num w) bin in
       case text_type w of
         None \<Rightarrow> Inl Null_Deref
       | Some (caption, rdr) \<Rightarrow>
           rbind (save_value caption (bin, p)) (\<lambda>bp.
           rbind (save_value rdr bp) (\<lambda>(bin, p).
             let bin = save32 (prop_height w) (save32 (prop_width w) (save32 (prop_y w) (save32 (prop_x w) bin)));
                 bin = save32 (comm_exstyle w) (save32 (comm_style w) bin);
                 bin = save32 (case bk_color w of None \<Rightarrow> 0 | Some c \<Rightarrow> c) bin in
             rbind (case font_name w of None \<Rightarrow> Inr (save32 0 bin, p) | Some f \<Rightarrow> save_string_id f (bin, p)) (\<lambda>(bin, p).
               Inr ((save32 0 ^^ 7) bin, p)))))"

definition save_invisible_header :: "mgncs \<Rightarrow> component_data \<Rightarrow> bin_stream \<times> string_pool \<Rightarrow> (bin_stream \<times> string_pool) res" where
  "save_invisible_header M w bp =
     (case control_class w of
        None \<Rightarrow> Inl Null_Deref
      | Some c \<Rightarrow>
          rbind (class_name 32 [] c (class_suffix M)) (\<lambda>c.
          rbind (save_string_id (Some c) bp) (\<lambda>(bin, p).
            let bin = save32 (serial_num w) (save32 (word_of_int (instance_id w mod 2 ^ 16)) bin);
                bin = save32 (prop_y w) (save32 (prop_x w) (save32 0 (save32 0 bin))) in
            Inr ((save32 0 ^^ 13) bin, p))))"

text \<open>
  The properties: the fields from 1 on; behind \<open>PropClass\<close> the loop goes on with the first field from \<open>PropExtendBegin\<close> on. A field
  with just this number is found again and again. The count grows with each field whose type is known.
\<close>

definition lower_bound :: "int \<Rightarrow> (int \<times> 'a) list \<Rightarrow> (int \<times> 'a) list" where
  "lower_bound k fs = dropWhile (\<lambda>f. fst f < k) fs"

definition save_win_prop :: "(32 word \<times> 32 word \<times> res_value) option \<Rightarrow> int \<times> bin_stream \<times> string_pool \<Rightarrow> (int \<times> bin_stream \<times> string_pool) res" where
  "save_win_prop ft st =
     (case (ft, st) of
        (None, st) \<Rightarrow> Inr st
      | (Some (ty, i, v), n, bin, p) \<Rightarrow> rbind (save_value v (save32 i (save32 ty bin), p)) (\<lambda>bp. Inr (n + 1, bp)))"

partial_function (option) save_win_props ::
  "(int \<times> (32 word \<times> 32 word \<times> res_value) option) list \<Rightarrow> (int \<times> (32 word \<times> 32 word \<times> res_value) option) list \<Rightarrow>
    int \<times> bin_stream \<times> string_pool \<Rightarrow> (int \<times> bin_stream \<times> string_pool) run" where
  "save_win_props fs rest st =
     (case rest of
        [] \<Rightarrow> Some (Inr st)
      | f # rest \<Rightarrow>
          ubind (Some (save_win_prop (snd f) st)) (\<lambda>st.
            if fst f \<ge> PropExtendEnd then Some (Inr st)
            else save_win_props fs (if PropClass \<le> fst f \<and> fst f \<le> PropExtendBegin then lower_bound PropExtendBegin fs else rest) st))"

declare save_win_props.simps [code]

fun save_invisible_props :: "(int \<times> (32 word \<times> 32 word \<times> res_value) option) list \<Rightarrow> int \<times> bin_stream \<times> string_pool \<Rightarrow>
    (int \<times> bin_stream \<times> string_pool) res" where
  "save_invisible_props [] st = Inr st"
| "save_invisible_props ((k, ft) # fs) st = (if k < PropClass then rbind (save_win_prop ft st) (save_invisible_props fs) else Inr st)"

definition patch_props :: "mgncs \<Rightarrow> int \<Rightarrow> int \<Rightarrow> int \<Rightarrow> bin_stream \<Rightarrow> bin_stream" where
  "patch_props M begin' pos1 cnt bin =
     (if cnt > 0 then patch_member (begin' + at_nr_props M) cnt (patch_member (begin' + at_offset_props M) (pos1 - begin') bin) else bin)"

definition patch_ctrls :: "mgncs \<Rightarrow> int \<Rightarrow> int \<Rightarrow> int \<Rightarrow> bin_stream \<Rightarrow> bin_stream" where
  "patch_ctrls M begin' pos1 cnt bin =
     (if cnt > 0 then patch_member (begin' + at_nr_ctrls M) cnt (patch_member (begin' + at_offset_ctrls M) (pos1 - begin') bin) else bin)"

definition save_invisible :: "mgncs \<Rightarrow> component_data \<Rightarrow> bin_stream \<times> string_pool \<Rightarrow> (int \<times> bin_stream \<times> string_pool) res" where
  "save_invisible M w bp =
     (let begin' = bs_tell (fst bp) in
      rbind (save_invisible_header M w bp) (\<lambda>(bin, p).
        let pos1 = bs_tell bin in
        rbind (save_invisible_props (lower_bound 1 (prop_fields w)) (0, bin, p)) (\<lambda>(n, bin, p).
          let pos2 = bs_tell bin; size' = sizeof_WINHEADER M + n * 12;
              bin = patch_member (begin' + at_size M) size' (patch_props M begin' pos1 n bin) in
          Inr (size', bs_seek pos2 seek_begin bin, p))))"

text \<open>A window with the windows in it; both give the size, the list of windows also how many there are.\<close>

fun save_component :: "mgncs \<Rightarrow> ui_component \<Rightarrow> bin_stream \<times> string_pool \<Rightarrow> (int \<times> bin_stream \<times> string_pool) run"
  and save_children :: "mgncs \<Rightarrow> ui_component list \<Rightarrow> int \<times> int \<Rightarrow> bin_stream \<times> string_pool \<Rightarrow> ((int \<times> int) \<times> bin_stream \<times> string_pool) run"
where
  "save_component M (Invisible w) bp = Some (save_invisible M w bp)"
| "save_component M (Window w cs) bp =
     (let begin' = bs_tell (fst bp) in
      ubind (Some (save_win_header M w bp)) (\<lambda>(bin, p).
        let pos1 = bs_tell bin in
        ubind (save_win_props (prop_fields w) (lower_bound 1 (prop_fields w)) (0, bin, p)) (\<lambda>(n, bin, p).
          let pos2 = bs_tell bin;
              bin = bs_seek pos2 seek_begin (patch_props M begin' pos1 n bin);
              pos3 = bs_tell bin in
          ubind (save_children M cs (0, 0) (bin, p)) (\<lambda>((cnt, ctrls_size), bin, p).
            let pos4 = bs_tell bin; size' = sizeof_WINHEADER M + n * 12 + ctrls_size;
                bin = patch_member (begin' + at_size M) size' (patch_ctrls M begin' pos3 cnt bin) in
            Some (Inr (size', bs_seek pos4 seek_begin bin, p))))))"
| "save_children M [] sizes bp = Some (Inr (sizes, bp))"
| "save_children M (c # cs) (cnt, ctrls_size) bp =
     ubind (save_component M c bp) (\<lambda>(ctrl_size, bp).
       save_children M cs (if ctrl_size > 0 then (cnt + 1, ctrls_size + ctrl_size) else (cnt, ctrls_size)) bp)"

section \<open>The window editor\<close>

text \<open>
  A panel of the window editor: its window (sorting the panels reads its id, so there is one), whether its XML could be saved, and
  the name of the XML file; without a name no window is saved.
\<close>

record ui_panel =
  baseInstance :: ui_component
  ui_saved :: bool
  strXmlFile :: "char list"

definition ui_id :: "ui_panel \<Rightarrow> int" where "ui_id x = instance_id (data_of (baseInstance x))"

fun insert_panel :: "ui_panel \<Rightarrow> ui_panel list \<Rightarrow> ui_panel list" where
  "insert_panel x [] = [x]"
| "insert_panel x (y # ys) = (if ui_id y > ui_id x then x # y # ys else y # insert_panel x ys)"

definition sort_panels :: "ui_panel list \<Rightarrow> ui_panel list" where
  "sort_panels ps = fold insert_panel ps []"

definition EditUIPanel_saveBin :: "mgncs \<Rightarrow> ui_panel \<Rightarrow> bin_stream \<times> string_pool \<Rightarrow> (bin_stream \<times> string_pool) run" where
  "EditUIPanel_saveBin M x bp =
     (if strXmlFile x = [] then Some (Inr bp)
      else ubind (save_component M (baseInstance x) bp) (\<lambda>(size', bin, p). Some (Inr (bs_seek 0 seek_end bin, p))))"

definition save_panel :: "mgncs \<Rightarrow> int \<Rightarrow> nat \<Rightarrow> ui_panel \<Rightarrow> bin_stream \<times> string_pool \<Rightarrow> (bin_stream \<times> string_pool) run" where
  "save_panel M begin' i x bp =
     (if \<not> ui_saved x then Some (Inr bp)
      else let offset = bs_tell (fst bp) - begin';
               bin = bs_seek (begin' + 8 + int i * 12) seek_begin (fst bp);
               bin = save32 (word_of_int offset) (save32 0 (save32 (word_of_int (ui_id x)) bin)) in
        EditUIPanel_saveBin M x (bs_seek 0 seek_end bin, snd bp))"

definition UIEditor_save :: "mgncs \<Rightarrow> ui_panel list \<Rightarrow> bin_stream \<times> string_pool \<Rightarrow> (bin_stream \<times> string_pool) run" where
  "UIEditor_save M ps bp =
     (let begin' = bs_tell (fst bp); count = length ps;
          bin = save32 (of_nat count) (save32 0 (fst bp));
          bin = (save8Arr (Some (replicate 12 NUL)) ^^ count) bin in
      ubind (run_fold (\<lambda>bp (i, x). save_panel M begin' i x bp) (bin, snd bp) (enumerate 0 (sort_panels ps))) (\<lambda>(bin, p).
        Some (Inr (patch_size begin' bin, p))))"

section \<open>Saving a project\<close>

text \<open>
  \<open>nr_sect\<close>, the types and the sections, in the order of the editors; the editor of ids has no section. The version is
  the first four bytes of a buffer of 16.
\<close>

datatype res_editor =
    Id_Editor
  | Text_Editor text_editor
  | Image_Editor "(int \<times> resource option) list"
  | UI_Editor "ui_panel list"
  | Renderer_Editor "(int \<times> rdr_object) list"

definition type_mask :: "res_editor \<Rightarrow> int" where
  "type_mask e = (case e of
      Id_Editor \<Rightarrow> 0 | Text_Editor _ \<Rightarrow> 2 | Image_Editor _ \<Rightarrow> 4 | UI_Editor _ \<Rightarrow> 8 | Renderer_Editor _ \<Rightarrow> 0x30)"

definition editor_save :: "mgncs \<Rightarrow> res_editor \<Rightarrow> bin_stream \<times> string_pool \<Rightarrow> (bin_stream \<times> string_pool) run" where
  "editor_save M e bp = (case e of
      Id_Editor \<Rightarrow> Some (Inr bp)
    | Text_Editor ed \<Rightarrow> Some (rbind (TextEditor_save ed (fst bp)) (\<lambda>bin. Inr (bin, snd bp)))
    | Image_Editor rs \<Rightarrow> Some (Inr (ImageEditor_save rs (fst bp), snd bp))
    | UI_Editor ps \<Rightarrow> UIEditor_save M ps bp
    | Renderer_Editor rs \<Rightarrow> Some (RendererEditor_saveBin M rs bp))"

definition saveTypeItem :: "nat \<Rightarrow> int \<Rightarrow> bin_stream \<Rightarrow> bin_stream" where
  "saveTypeItem idx ty bin =
     (let bin = bs_seek 0 seek_end bin;
          size' = bs_tell bin;
          typePos = sizeof_NCSRM_HEADER + int idx * sizeof_NCSRM_TYPEITEM;
          bin = bs_seek typePos seek_begin bin;
          bin = save32 (word_of_int size') (save32 0 (save32 (word_of_int ty) bin)) in
      bs_seek 0 seek_end bin)"

fun save_editors :: "mgncs \<Rightarrow> nat \<Rightarrow> res_editor list \<Rightarrow> bin_stream \<times> string_pool \<Rightarrow>
    (nat \<times> bin_stream \<times> string_pool) run" where
  "save_editors M idx [] (bin, p) = Some (Inr (idx, bin, p))"
| "save_editors M idx (e # es) (bin, p) =
     (if type_mask e = 0 then save_editors M idx es (bin, p)
      else ubind (editor_save M e (saveTypeItem idx (type_mask e) bin, p)) (save_editors M (idx + 1) es))"

record project =
  editors :: "res_editor list"
  pool :: string_pool
  defRdr :: "char list"
  szVersion :: "char list"

text \<open>
  The ids of an editor as macros, \<open>ResEditor::transIDs\<close>, which the window editor has a version of its own of, and the header file of
  all editors but the one of ids. An editor comes with its type mask and with whether it is the window editor.
\<close>

definition hex_digits :: "nat \<Rightarrow> char list" where
  "hex_digits n = dropWhile (\<lambda>c. c = CHR ''0'') (map (\<lambda>k. if n div 16 ^ k mod 16 < 10 then char_of (48 + n div 16 ^ k mod 16)
     else char_of (87 + n div 16 ^ k mod 16)) [7, 6, 5, 4, 3, 2, 1, 0])"

definition fmt_x :: "int \<Rightarrow> char list" where
  "fmt_x i = (let n = nat (i mod 2 ^ 32) in if n = 0 then ''0'' else hex_digits n)"

fun trans_ids :: "cenv \<Rightarrow> editor \<Rightarrow> (int \<times> nat) list \<Rightarrow> text_stream \<Rightarrow> text_stream res" where
  "trans_ids E ed [] t = Inr t"
| "trans_ids E ed ((i, a) # es) t =
     rbind (get_res ed a) (\<lambda>r.
       trans_ids E ed es
         (if res_name r \<noteq> []
          then ts_println E (Some (''#define '' @ res_name r @ [CHR 0x09, CHR 0x09] @ ''0x'' @ fmt_x (res_id r))) t else t))"

definition predefined_names :: "char list list" where
  "predefined_names = [''IDC_STATIC'', ''IDOK'', ''IDCANCEL'', ''IDABORT'', ''IDRETRY'', ''IDIGNORE'', ''IDYES'', ''IDNO'']"

fun find_name :: "char list \<Rightarrow> int \<Rightarrow> char list list \<Rightarrow> int" where
  "find_name nm i [] = -1"
| "find_name nm i (n # ns) = (if n = nm then or i (push_bit 16 NCSRT_CONTRL) else find_name nm (i + 1) ns)"

definition getPredefinedId :: "char list option \<Rightarrow> int" where
  "getPredefinedId nm = (case nm of None \<Rightarrow> -1 | Some nm \<Rightarrow> find_name nm 0 predefined_names)"

fun ui_trans_ids :: "cenv \<Rightarrow> editor \<Rightarrow> (int \<times> nat) list \<Rightarrow> text_stream \<Rightarrow> text_stream res" where
  "ui_trans_ids E ed [] t = Inr t"
| "ui_trans_ids E ed ((i, a) # es) t =
     rbind (get_res ed a) (\<lambda>r.
       if res_name r \<noteq> [] then
         if ID2TYPE (res_id r) = NCSRT_CONTRL \<and> getPredefinedId (Some (res_name r)) \<noteq> -1 then ui_trans_ids E ed es t
         else let i = (if ID2TYPE (res_id r) = NCSRT_CONTRL then res_id r mod 2 ^ 16 else res_id r) in
           ui_trans_ids E ed es
             (ts_println E (Some (''#define '' @ res_name r @ [CHR 0x09, CHR 0x09, CHR 0x09] @ ''0x'' @ fmt_x i)) t)
       else ui_trans_ids E ed es t)"

definition UI_transIDs :: "cenv \<Rightarrow> editor \<Rightarrow> text_stream option \<Rightarrow> (bool \<times> text_stream option) res" where
  "UI_transIDs E ed ts =
     (case ts of
        None \<Rightarrow> Inr (False, None)
      | Some t \<Rightarrow> if reses ed = [] then Inr (False, Some t)
          else rbind (ui_trans_ids E ed (reses ed) t) (\<lambda>t. Inr (True, Some t)))"

definition transIDs :: "cenv \<Rightarrow> editor \<Rightarrow> text_stream option \<Rightarrow> (bool \<times> text_stream option) res" where
  "transIDs E ed ts =
     (case ts of
        None \<Rightarrow> Inr (False, None)
      | Some t \<Rightarrow> if reses ed = [] then Inr (False, Some t)
          else rbind (trans_ids E ed (reses ed) t) (\<lambda>t. Inr (True, Some t)))"

definition id_header_begin :: "char list list" where
  "id_header_begin =
     [''/****************************************/'',
      ''/* This file is generate by miniStudio,    */'',
      ''/* Please Don'' @ [CHR 0x27] @ ''t edit it.                */'',
      ''/*                                      */'',
      ''/* This file define the IDs used by     */'',
      ''/* resource.                            */'',
      ''/****************************************/'',
      [CHR 0x0A, CHR 0x0A],
      ''#ifndef _RESOURCE_ID_H_'',
      ''#define _RESOURCE_ID_H_'',
      []]"

fun trans_all :: "cenv \<Rightarrow> (int \<times> bool \<times> editor) list \<Rightarrow> text_stream \<Rightarrow> text_stream res" where
  "trans_all E [] t = Inr t"
| "trans_all E ((ty, ui, ed) # es) t =
     (if ty = 0 then trans_all E es t
      else rbind (if ui then UI_transIDs E ed (Some t) else transIDs E ed (Some t)) (\<lambda>(b, ts). case ts of None \<Rightarrow> trans_all E es t | Some t \<Rightarrow> trans_all E es t))"

definition save_id_header :: "cenv \<Rightarrow> bool \<Rightarrow> (int \<times> bool \<times> editor) list \<Rightarrow> text_stream res" where
  "save_id_header E is_open es =
     rbind (trans_all E es (fold (\<lambda>l. ts_println E (Some l)) id_header_begin (TextStream (Some (FileStreamStorage is_open)))))
       (\<lambda>t. Inr (ts_println E (Some ''#endif /*_RESOURCE_ID_H_*/'') t))"

definition getEncoding :: "char list" where "getEncoding = ''utf-8'' @ replicate 11 NUL"
definition getVendor :: "char list" where "getVendor = ''FM-miniStudiio'' @ replicate 2 NUL"

definition save_header :: "char list \<Rightarrow> nat \<Rightarrow> bin_stream \<Rightarrow> bin_stream" where
  "save_header version nr_sect bin =
     (let bin = save32 mgrp bin;
          bin = save8Arr (Some (four version)) (save8Arr (Some (four version)) bin);
          bin = save8Arr (Some getVendor) (save8Arr (Some getEncoding) bin);
          bin = save32 (of_nat nr_sect) bin in
      save8Arr (Some (replicate (nr_sect * 12) NUL)) bin)"

definition getEndian :: endian where "getEndian = LITTLE_ENDIAN"

text \<open>The package file is opened or not; \<open>sys\<close> is the machine. Without editors nothing is saved.\<close>

definition save_package ::
  "cenv \<Rightarrow> endian \<Rightarrow> bool \<Rightarrow> mgncs \<Rightarrow> project \<Rightarrow> (bin_stream \<times> string_pool) option run" where
  "save_package E sys is_open M pr =
     (if editors pr = [] then Some (Inr None)
      else let nr_sect = 1 + length (filter (\<lambda>e. type_mask e \<noteq> 0) (editors pr));
               bin = save_header (szVersion pr) nr_sect (BinStream sys (Some (FileStreamStorage is_open)) getEndian) in
        ubind (save_editors M 0 (editors pr) (bin, pool pr)) (\<lambda>(idx, bin, p).
        ubind (Some (writeStringResource E (defRdr pr) p (saveTypeItem idx 1 bin))) (\<lambda>bin. Some (Inr (Some (bin, p))))))"

end
