(* ===== verification/Text_Ids.thy ===== *)
theory Text_Ids
  imports Package_Writer
begin

text \<open>
  The operations of the text editor (\<open>TextEditor\<close> in \<open>texteditor/texteditor.cpp\<close>): the resources of its base class
  (\<open>Res_Ids\<close>) and the texts of every language (\<open>Text_Files\<close>), which have to follow them.
\<close>

section \<open>The operations\<close>

record text_res =
  te_base :: editor
  te_texts :: text_editor

definition all_nodes :: "(TeNode \<Rightarrow> TeNode) \<Rightarrow> text_res \<Rightarrow> text_res" where
  "all_nodes f st = st\<lparr>te_texts := (te_texts st)\<lparr>configList := map f (configList (te_texts st))\<rparr>\<rparr>"

definition TextEditor_setResName :: "int \<Rightarrow> char list option \<Rightarrow> text_res \<Rightarrow> (int \<times> text_res) res" where
  "TextEditor_setResName i name st =
     rbind (setResName i name (te_base st)) (\<lambda>(newid, ed).
       let st = st\<lparr>te_base := ed\<rparr> in
       if newid \<noteq> -1
       then Inr (newid, if newid \<noteq> i then all_nodes (\<lambda>n. snd (changeId i newid n)) st else st)
       else Inr (-1, st))"

definition TextEditor_setResId :: "editor_env \<Rightarrow> int \<Rightarrow> int \<Rightarrow> text_res \<Rightarrow> (bool \<times> text_res) res" where
  "TextEditor_setResId E oldId newId st =
     rbind (setResId E oldId newId (te_base st)) (\<lambda>(ok, ed).
       let st = st\<lparr>te_base := ed\<rparr> in
       if ok then Inr (True, all_nodes (\<lambda>n. snd (changeId oldId newId n)) st) else Inr (False, st))"

text \<open>The text of an id in the node a pointer leads to, if there is one.\<close>

definition node_text :: "int \<Rightarrow> nat option \<Rightarrow> text_editor \<Rightarrow> char list option res" where
  "node_text i k ed = (if k = None then Inr None else rbind (node_at ed k) (\<lambda>n. Inr (TeNode_getText i n)))"

definition TextEditor_getRes :: "int \<Rightarrow> text_res \<Rightarrow> char list option res" where
  "TextEditor_getRes i st =
     (if i \<le> 0 \<or> ID2TYPE i \<noteq> TEXT_TYPE then Inr None
      else rbind (node_text i (te_cur (te_texts st)) (te_texts st)) (\<lambda>s.
        if s \<noteq> None then Inr s else node_text i (te_def (te_texts st)) (te_texts st)))"

definition set_node_text :: "int \<Rightarrow> char list option \<Rightarrow> nat option \<Rightarrow> text_editor \<Rightarrow> (bool \<times> text_editor) res" where
  "set_node_text i str k ed =
     (case k of None \<Rightarrow> Inr (False, ed)
      | Some j \<Rightarrow> rbind (node_at ed k) (\<lambda>n. let (b, n) = TeNode_setText i str n in Inr (b, ed\<lparr>configList := (configList ed)[j := n]\<rparr>)))"

definition TextEditor_setRes :: "int \<Rightarrow> char list option \<Rightarrow> bool \<Rightarrow> text_res \<Rightarrow> (bool \<times> text_res) res" where
  "TextEditor_setRes i str check_id_exist st =
     (if i \<le> 0 \<or> ID2TYPE i \<noteq> TEXT_TYPE then Inr (False, st)
      else if str = None then Inr (False, st)
      else if check_id_exist \<and> map_of (reses (te_base st)) i = None then Inr (False, st)
      else rbind (set_node_text i str (te_cur (te_texts st)) (te_texts st)) (\<lambda>(b, ed).
        if b then Inr (True, st\<lparr>te_texts := ed\<rparr>)
        else rbind (set_node_text i str (te_def ed) ed) (\<lambda>(b, ed). Inr (b, st\<lparr>te_texts := ed\<rparr>))))"

text \<open>The base class gets no source: \<open>addString(NULL)\<close> is \<open>-1\<close>.\<close>

definition TextEditor_createRes ::
  "editor_env \<Rightarrow> answers \<Rightarrow> int \<Rightarrow> char list option \<Rightarrow> int \<Rightarrow> char list option \<Rightarrow> text_res \<Rightarrow> (int \<times> text_res) res" where
  "TextEditor_createRes E as t name i source st =
     rbind (createRes E as t name i (-1) (te_base st)) (\<lambda>(i, ed).
       let st = st\<lparr>te_base := ed\<rparr> in
       if i = -1 then Inr (-1, st)
       else rbind (TextEditor_setRes i source False (all_nodes (\<lambda>n. snd (TeNode_setText i (Some []) n)) st)) (\<lambda>(_, st). Inr (i, st)))"

definition TextEditor_removeRes :: "editor_env \<Rightarrow> int \<Rightarrow> text_res \<Rightarrow> (bool \<times> text_res) res" where
  "TextEditor_removeRes E i st =
     (if i < 0 \<or> ID2TYPE i \<noteq> TEXT_TYPE then Inr (False, st)
      else rbind (removeRes E i (te_base st)) (\<lambda>(ok, ed).
        let st = st\<lparr>te_base := ed\<rparr> in
        if \<not> ok then Inr (False, st) else Inr (True, all_nodes (\<lambda>n. n\<lparr>langMap := map_erase i (langMap n)\<rparr>) st)))"

section \<open>The ids of the base class\<close>

definition ids_of :: "(int \<times> 'a) list \<Rightarrow> int set" where "ids_of xs = fst ` set xs"

lemma ids_of_put [simp]: "ids_of (map_put k v xs) = insert k (ids_of xs)"
  unfolding ids_of_def by (induction k v xs rule: map_put.induct) auto

lemma ids_of_erase [simp]: "ids_of (map_erase k xs) = ids_of xs - {k}"
  unfolding ids_of_def map_erase_def by auto

lemma ids_of_lookup: "map_of xs k = None \<longleftrightarrow> k \<notin> ids_of xs"
  by (simp add: ids_of_def map_of_eq_None_iff)

lemma count_id_reses: "count_id E f i nm ed = Inr ed' \<Longrightarrow> reses ed' = reses ed"
  by (auto simp: count_id_def rbind_eq_Inr split: option.splits)

lemma setResName_reses: "setResName i name ed = Inr (j, ed') \<Longrightarrow> reses ed' = reses ed \<and> (j = -1 \<or> j = i)"
  by (auto simp: setResName_def with_res_def rbind_eq_Inr put_res_def split: option.splits if_splits)

lemma setResId_reses:
  "setResId E i j ed = Inr (ok, ed') \<Longrightarrow>
    (if ok then i \<noteq> j \<and> i \<in> ids_of (reses ed) \<and> ids_of (reses ed') = insert j (ids_of (reses ed) - {i}) else reses ed' = reses ed)"
proof -
  assume s: "setResId E i j ed = Inr (ok, ed')"
  show ?thesis
  proof (cases "i = j \<or> ID2TYPE i \<noteq> ID2TYPE j \<or> map_of (reses ed) j \<noteq> None")
    case True
    then show ?thesis using s by (auto simp: setResId_def)
  next
    case False
    obtain e1 e2 where e: "count_id E useId j None ed = Inr e1" "count_id E unuseId i None e1 = Inr e2"
      "with_res i e2 (Inr (False, e2)) (\<lambda>p r. Inr (True, put_res p (r\<lparr>res_id := j\<rparr>)
        (e2\<lparr>reses := map_put j p (map_erase i (reses e2)), bIdChanged := True\<rparr>))) = Inr (ok, ed')"
      using s False by (auto simp: setResId_def rbind_eq_Inr)
    have r: "reses e2 = reses ed" using e(1,2) count_id_reses by metis
    show ?thesis
    proof (cases "map_of (reses ed) i")
      case None
      then have "ed' = e2" "\<not> ok" using e(3) by (simp_all add: with_res_def r)
      then show ?thesis using r by simp
    next
      case (Some p)
      then have "i \<in> ids_of (reses ed)" using ids_of_lookup [of "reses ed" i] by auto
      then show ?thesis using e(3) Some False by (auto simp: with_res_def r rbind_eq_Inr put_res_def)
    qed
  qed
qed

lemma add_resource_reses: "add_resource E name i src ed = Inr (j, ed') \<Longrightarrow> j = i \<and> ids_of (reses ed') = insert i (ids_of (reses ed))"
  by (auto simp: add_resource_def Let_def rbind_eq_Inr put_res_def split: if_splits dest!: count_id_reses)

lemma createRes_reses:
  "createRes E as t name i src ed = Inr (j, ed') \<Longrightarrow> j = -1 \<and> reses ed' = reses ed \<or> j \<noteq> -1 \<and> ids_of (reses ed') = insert j (ids_of (reses ed))"
proof -
  assume c: "createRes E as t name i src ed = Inr (j, ed')"
  have n: "reses e1 = reses ed" if "newResId E as t name ed = Inr (k, e1)" for k e1
    using that by (auto simp: newResId_def rbind_eq_Inr split: option.splits)
  show ?thesis
  proof (cases "i \<le> 0 \<or> ID2TYPE i \<noteq> t")
    case True
    show ?thesis
    proof (cases "name \<noteq> None \<and> \<not> isValidName ed name")
      case False
      then obtain k e1 where k: "newResId E as t name ed = Inr (k, e1)"
        "(if k = -1 then Inr (-1, e1) else add_resource E name k src e1) = Inr (j, ed')"
        using c True by (auto simp: createRes_def rbind_eq_Inr)
      then show ?thesis using n [OF k(1)] add_resource_reses [of E name k src e1 j ed'] by (cases "k = -1") simp_all
    qed (use c True in \<open>auto simp: createRes_def\<close>)
  next
    case False
    then show ?thesis using c add_resource_reses [of E name i src ed j ed'] by (simp add: createRes_def)
  qed
qed

lemma removeRes_reses:
  "removeRes E i ed = Inr (ok, ed') \<Longrightarrow> reses ed' = (if ok then map_erase i (reses ed) else reses ed)"
  by (auto simp: removeRes_def with_res_def Let_def rbind_eq_Inr split: option.splits if_splits dest!: count_id_reses)

section \<open>Every language has the texts of the ids\<close>

definition texts_ok :: "text_res \<Rightarrow> bool" where
  "texts_ok st \<longleftrightarrow> (\<forall>n\<in>set (configList (te_texts st)). ids_of (langMap n) = ids_of (reses (te_base st))) \<and>
     (\<forall>k. te_cur (te_texts st) = Some k \<longrightarrow> k < length (configList (te_texts st))) \<and>
     (\<forall>k. te_def (te_texts st) = Some k \<longrightarrow> k < length (configList (te_texts st)))"

lemma all_nodes_ok:
  assumes "texts_ok st" "\<And>n. n \<in> set (configList (te_texts st)) \<Longrightarrow> ids_of (langMap (f n)) = ids_of (reses ed)"
  shows "texts_ok (all_nodes f (st\<lparr>te_base := ed\<rparr>))"
  using assms by (simp add: texts_ok_def all_nodes_def)

lemma base_ok: "texts_ok st \<Longrightarrow> ids_of (reses ed) = ids_of (reses (te_base st)) \<Longrightarrow> texts_ok (st\<lparr>te_base := ed\<rparr>)"
  by (simp add: texts_ok_def)

lemma ids_of_changeId:
  "i \<noteq> j \<Longrightarrow> i \<in> ids_of (langMap n) \<Longrightarrow> ids_of (langMap (snd (changeId i j n))) = insert j (ids_of (langMap n) - {i})"
  using ids_of_lookup [of "langMap n" i] by (cases "map_of (langMap n) i") (auto simp: changeId_def)

lemma set_node_text_ok:
  assumes "\<forall>n\<in>set (configList ed). i \<in> ids_of (langMap n)" "\<forall>j. k = Some j \<longrightarrow> j < length (configList ed)"
  shows "\<exists>b ns. set_node_text i str k ed = Inr (b, ed\<lparr>configList := ns\<rparr>) \<and> length ns = length (configList ed) \<and>
    map (\<lambda>n. ids_of (langMap n)) ns = map (\<lambda>n. ids_of (langMap n)) (configList ed)"
proof (cases k)
  case None
  then show ?thesis by (intro exI [of _ False] exI [of _ "configList ed"]) (simp add: set_node_text_def)
next
  case (Some j)
  let ?n = "configList ed ! j"
  have j: "j < length (configList ed)" "i \<in> ids_of (langMap ?n)" using assms Some by auto
  have "ids_of (langMap (snd (TeNode_setText i str ?n))) = ids_of (langMap ?n)" using j(2) by (auto simp: TeNode_setText_def split: option.split)
  then have "map (\<lambda>n. ids_of (langMap n)) ((configList ed)[j := snd (TeNode_setText i str ?n)]) = map (\<lambda>n. ids_of (langMap n)) (configList ed)"
    by (simp add: map_update) (metis j(1) list_update_id map_update)
  then show ?thesis using Some j(1)
    by (intro exI [of _ "fst (TeNode_setText i str ?n)"] exI [of _ "(configList ed)[j := snd (TeNode_setText i str ?n)]"])
      (simp add: set_node_text_def node_at_def aget_def case_prod_unfold Let_def)
qed

lemma same_ids_ok:
  assumes "texts_ok st" "map (\<lambda>n. ids_of (langMap n)) ns = map (\<lambda>n. ids_of (langMap n)) (configList (te_texts st))"
  shows "texts_ok (st\<lparr>te_texts := (te_texts st)\<lparr>configList := ns\<rparr>\<rparr>)"
proof -
  have "length ns = length (configList (te_texts st))" using arg_cong [OF assms(2), of length] by simp
  moreover have "(\<lambda>n. ids_of (langMap n)) ` set ns = (\<lambda>n. ids_of (langMap n)) ` set (configList (te_texts st))"
    using arg_cong [OF assms(2), of set] by simp
  ultimately show ?thesis using assms(1) unfolding texts_ok_def by (auto 4 4)
qed

lemma TextEditor_setRes_ok:
  assumes "texts_ok st" "check \<or> i \<in> ids_of (reses (te_base st))"
  shows "\<exists>b st'. TextEditor_setRes i str check st = Inr (b, st') \<and> texts_ok st' \<and> te_base st' = te_base st"
proof (cases "i \<le> 0 \<or> ID2TYPE i \<noteq> TEXT_TYPE \<or> str = None \<or> check \<and> map_of (reses (te_base st)) i = None")
  case True
  then show ?thesis using assms(1) by (auto simp: TextEditor_setRes_def)
next
  case False
  then have i: "i \<in> ids_of (reses (te_base st))" using assms(2) ids_of_lookup [of "reses (te_base st)" i] by auto
  let ?ed = "te_texts st"
  have in1: "\<forall>n\<in>set (configList ?ed). i \<in> ids_of (langMap n)" using i assms(1) by (simp add: texts_ok_def)
  have cur: "\<forall>j. te_cur ?ed = Some j \<longrightarrow> j < length (configList ?ed)" using assms(1) by (simp add: texts_ok_def)
  obtain b ns where 1: "set_node_text i str (te_cur ?ed) ?ed = Inr (b, ?ed\<lparr>configList := ns\<rparr>)" "length ns = length (configList ?ed)"
    "map (\<lambda>n. ids_of (langMap n)) ns = map (\<lambda>n. ids_of (langMap n)) (configList ?ed)"
    using set_node_text_ok [OF in1 cur] by blast
  note ok1 = same_ids_ok [OF assms(1) 1(3)]
  show ?thesis
  proof (cases b)
    case True
    then show ?thesis using 1(1) ok1 False by (auto simp: TextEditor_setRes_def)
  next
    case b: False
    let ?ed1 = "?ed\<lparr>configList := ns\<rparr>"
    have in2: "\<forall>n\<in>set (configList ?ed1). i \<in> ids_of (langMap n)" using ok1 i by (simp add: texts_ok_def)
    have df: "\<forall>j. te_def ?ed1 = Some j \<longrightarrow> j < length (configList ?ed1)" using assms(1) 1(2) by (simp add: texts_ok_def)
    obtain c ms where 2: "set_node_text i str (te_def ?ed1) ?ed1 = Inr (c, ?ed1\<lparr>configList := ms\<rparr>)"
      "map (\<lambda>n. ids_of (langMap n)) ms = map (\<lambda>n. ids_of (langMap n)) (configList ?ed1)"
      using set_node_text_ok [OF in2 df] by blast
    have "texts_ok (st\<lparr>te_texts := ?ed\<lparr>configList := ms\<rparr>\<rparr>)" using same_ids_ok [OF assms(1), of ms] 2(2) 1(3) by simp
    then show ?thesis using 1(1) 2(1) b False by (auto simp: TextEditor_setRes_def)
  qed
qed

section \<open>What the text editor promises\<close>

datatype text_cmd =
    New_Text int "char list option" int "char list option"
  | Name_Text int "char list option"
  | Renumber_Text int int
  | Edit_Text int "char list option"
  | Delete_Text int

definition text_step :: "editor_env \<Rightarrow> text_cmd \<Rightarrow> text_res \<Rightarrow> text_res res" where
  "text_step E c st = (case c of
      New_Text t name i source \<Rightarrow> rbind (TextEditor_createRes E [] t name i source st) (\<lambda>(_, st). Inr st)
    | Name_Text i name \<Rightarrow> rbind (TextEditor_setResName i name st) (\<lambda>(_, st). Inr st)
    | Renumber_Text i j \<Rightarrow> rbind (TextEditor_setResId E i j st) (\<lambda>(_, st). Inr st)
    | Edit_Text i str \<Rightarrow> rbind (TextEditor_setRes i str True st) (\<lambda>(_, st). Inr st)
    | Delete_Text i \<Rightarrow> rbind (TextEditor_removeRes E i st) (\<lambda>(_, st). Inr st))"

text \<open>A new text that brings an id brings one, and a name, that are not in use.\<close>

definition cmd_ok :: "text_res \<Rightarrow> text_cmd \<Rightarrow> bool" where
  "cmd_ok st c = (case c of New_Text t name i source \<Rightarrow> op_ok (te_base st) (Create t name i (-1)) | _ \<Rightarrow> True)"

lemma createRes_text_ok:
  assumes "reg_ok (te_base st)" "mgr_ok (te_base st)" "texts_ok st" "op_ok (te_base st) (Create t name i (-1))"
  shows "\<exists>x st'. TextEditor_createRes E [] t name i source st = Inr (x, st') \<and> reg_ok (te_base st') \<and> mgr_ok (te_base st') \<and> texts_ok st'"
proof -
  have "i > 0 \<Longrightarrow> ID2TYPE i = t \<Longrightarrow> map_of (reses (te_base st)) i = None \<and> (\<forall>n. name = Some n \<longrightarrow> n \<noteq> [] \<and> namedRes (te_base st) n = None)"
    using assms(4) by (auto simp: op_ok_def split: option.splits)
  then obtain x ed where c: "createRes E [] t name i (-1) (te_base st) = Inr (x, ed)" "reg_ok ed" "mgr_ok ed"
    using createRes_ok [OF assms(1,2), of i t name E "-1"] by blast
  show ?thesis
  proof (cases "x = -1")
    case True
    then have "reses ed = reses (te_base st)" using createRes_reses [OF c(1)] by simp
    then show ?thesis using c True base_ok [OF assms(3), of ed] by (simp add: TextEditor_createRes_def Let_def)
  next
    case False
    then have ids: "ids_of (reses ed) = insert x (ids_of (reses (te_base st)))" using createRes_reses [OF c(1)] by simp
    let ?st = "all_nodes (\<lambda>n. snd (TeNode_setText x (Some []) n)) (st\<lparr>te_base := ed\<rparr>)"
    have "texts_ok ?st"
      using assms(3) by (intro all_nodes_ok [OF assms(3)]) (simp add: TeNode_setText_def ids texts_ok_def)
    moreover have b: "te_base ?st = ed" by (simp add: all_nodes_def)
    ultimately obtain y st' where "TextEditor_setRes x source False ?st = Inr (y, st')" "texts_ok st'" "te_base st' = ed"
      using TextEditor_setRes_ok [of ?st False x source] ids by auto
    then show ?thesis using c False by (simp add: TextEditor_createRes_def Let_def)
  qed
qed

lemma text_step_ok:
  assumes "reg_ok (te_base st)" "mgr_ok (te_base st)" "texts_ok st" "cmd_ok st c"
  shows "\<exists>st'. text_step E c st = Inr st' \<and> reg_ok (te_base st') \<and> mgr_ok (te_base st') \<and> texts_ok st'"
proof (cases c)
  case (New_Text t name i source)
  then show ?thesis using createRes_text_ok [OF assms(1-3), of t name i E source] assms(4) by (auto simp: text_step_def cmd_ok_def)
next
  case (Name_Text i name)
  obtain j ed where n: "setResName i name (te_base st) = Inr (j, ed)" "reg_ok ed" "mgr_ok ed"
    using setResName_ok [OF assms(1,2)] by blast
  then have "reses ed = reses (te_base st)" "j = -1 \<or> j = i" using setResName_reses by blast+
  then show ?thesis using n Name_Text base_ok [OF assms(3), of ed] by (auto simp: text_step_def TextEditor_setResName_def Let_def)
next
  case (Renumber_Text i j)
  obtain ok ed where n: "setResId E i j (te_base st) = Inr (ok, ed)" "reg_ok ed" "mgr_ok ed"
    using setResId_ok [OF assms(1,2)] by blast
  note r = setResId_reses [OF n(1)]
  show ?thesis
  proof (cases ok)
    case True
    then have "i \<noteq> j" "i \<in> ids_of (reses (te_base st))" "ids_of (reses ed) = insert j (ids_of (reses (te_base st)) - {i})" using r by simp_all
    then have "texts_ok (all_nodes (\<lambda>n. snd (changeId i j n)) (st\<lparr>te_base := ed\<rparr>))"
      using assms(3) by (intro all_nodes_ok [OF assms(3)]) (simp add: ids_of_changeId texts_ok_def)
    moreover have "te_base (all_nodes (\<lambda>n. snd (changeId i j n)) (st\<lparr>te_base := ed\<rparr>)) = ed" by (simp add: all_nodes_def)
    ultimately show ?thesis using n Renumber_Text True by (simp add: text_step_def TextEditor_setResId_def Let_def)
  next
    case False
    then show ?thesis using n r Renumber_Text base_ok [OF assms(3), of ed] by (simp add: text_step_def TextEditor_setResId_def Let_def)
  qed
next
  case (Edit_Text i str)
  then show ?thesis using TextEditor_setRes_ok [OF assms(3), of True i str] assms(1,2) by (auto simp: text_step_def)
next
  case (Delete_Text i)
  show ?thesis
  proof (cases "i < 0 \<or> ID2TYPE i \<noteq> TEXT_TYPE")
    case False
    obtain ok ed where n: "removeRes E i (te_base st) = Inr (ok, ed)" "reg_ok ed" "mgr_ok ed"
      using removeRes_ok [OF assms(1,2)] by blast
    note r = removeRes_reses [OF n(1)]
    let ?st = "all_nodes (\<lambda>n. n\<lparr>langMap := map_erase i (langMap n)\<rparr>) (st\<lparr>te_base := ed\<rparr>)"
    have "ok \<Longrightarrow> texts_ok ?st" using assms(3) r by (intro all_nodes_ok [OF assms(3)]) (simp add: texts_ok_def)
    moreover have "te_base ?st = ed" by (simp add: all_nodes_def)
    ultimately show ?thesis using n r False Delete_Text base_ok [OF assms(3), of ed]
      by (cases ok) (simp_all add: text_step_def TextEditor_removeRes_def Let_def)
  qed (use assms Delete_Text in \<open>auto simp: text_step_def TextEditor_removeRes_def\<close>)
qed

interpretation texts: kept_invariant "text_step E" cmd_ok "\<lambda>st. reg_ok (te_base st) \<and> mgr_ok (te_base st) \<and> texts_ok st" for E
  by unfold_locales (use text_step_ok in blast)

text \<open>With every text there, reading one by its id never fails.\<close>

lemma getRes_current:
  assumes "texts_ok st" "te_cur (te_texts st) = Some k" "i \<in> ids_of (reses (te_base st))" "0 < i" "ID2TYPE i = TEXT_TYPE"
  shows "\<exists>s. TextEditor_getRes i st = Inr (Some s) \<and> TeNode_getText i (configList (te_texts st) ! k) = Some s"
proof -
  have k: "k < length (configList (te_texts st))" using assms(1,2) by (simp add: texts_ok_def)
  then have "configList (te_texts st) ! k \<in> set (configList (te_texts st))" by simp
  then have "i \<in> ids_of (langMap (configList (te_texts st) ! k))" using assms(1,3) by (simp add: texts_ok_def)
  then obtain s where "map_of (langMap (configList (te_texts st) ! k)) i = Some s" using ids_of_lookup by fastforce
  then show ?thesis using assms(2,4,5) k by (simp add: TextEditor_getRes_def node_text_def node_at_def aget_def TeNode_getText_def)
qed


text \<open>Two languages without any text.\<close>

definition two_languages :: text_res where
  "two_languages = \<lparr>te_base = blank, te_texts = \<lparr>configList =
     [\<lparr>te_status = 1, langType = ''en'', country = ''US'', charSet = [], langMap = []\<rparr>,
      \<lparr>te_status = 2, langType = ''zh'', country = ''CN'', charSet = [], langMap = []\<rparr>], te_cur = Some 1, te_def = Some 0\<rparr>\<rparr>"


end
