(* ===== verification/Ncs_Texts.thy ===== *)
theory Ncs_Texts
  imports Text_Files
begin

text \<open>
  What the translator of windows (\<open>tools/ncs2ics\<close>) reads: documents of XML, through libxml and \<open>common/xmlhelp.cpp\<close>, and
  the texts of a project (the second half of \<open>trans.cpp\<close>). XML is read by libxml, which is not here: a document is the
  tree the code walks over, and the functions of the library are in \<open>xml_lib\<close>.
\<close>

section \<open>What the library gives\<close>

datatype xml = Element (xml_name: "char list") (xml_attrs: "(char list \<times> char list) list") (xml_children: "xml list") | Not_Element "char list"

record xml_lib =
  xmlParseFile :: "char list \<Rightarrow> xml option option"
  xmlGetProp :: "xml \<Rightarrow> char list \<Rightarrow> char list option"
  xmlNodeListGetString :: "xml list \<Rightarrow> char list option"
  file_text :: "char list \<Rightarrow> char list option"

definition children_of :: "xml \<Rightarrow> xml list" where
  "children_of x = (case x of Element _ _ cs \<Rightarrow> cs | Not_Element _ \<Rightarrow> [])"

definition xhIsNode :: "xml \<Rightarrow> char list \<Rightarrow> bool" where
  "xhIsNode node nodename = (case node of Element n _ _ \<Rightarrow> n = nodename | Not_Element _ \<Rightarrow> False)"

definition xhGetNodeText :: "xml_lib \<Rightarrow> xml \<Rightarrow> char list option" where
  "xhGetNodeText L node = xmlNodeListGetString L (children_of node)"

definition xhGetChild :: "xml \<Rightarrow> char list \<Rightarrow> xml option" where
  "xhGetChild node node_name = (case node of Element _ _ cs \<Rightarrow> find (\<lambda>c. xhIsNode c node_name) cs | Not_Element _ \<Rightarrow> None)"

definition xhGetChildText :: "xml_lib \<Rightarrow> xml \<Rightarrow> char list \<Rightarrow> char list option" where
  "xhGetChildText L node node_name = (case xhGetChild node node_name of None \<Rightarrow> None | Some c \<Rightarrow> xhGetNodeText L c)"

text \<open>The others, which the editors use.\<close>

definition xhGetChildInt :: "xml_lib \<Rightarrow> xml \<Rightarrow> char list \<Rightarrow> int \<Rightarrow> int" where
  "xhGetChildInt L node node_name defValue =
     (case xhGetChildText L node node_name of Some xtxt \<Rightarrow> to_int (strtol 0 xtxt) | None \<Rightarrow> defValue)"

definition xhGetNodeInt :: "xml_lib \<Rightarrow> xml \<Rightarrow> int" where
  "xhGetNodeInt L node = (case xhGetNodeText L node of Some str \<Rightarrow> to_int (strtol 0 str) | None \<Rightarrow> -1)"

definition xhGetIntProp :: "xml_lib \<Rightarrow> xml option \<Rightarrow> char list option \<Rightarrow> int \<Rightarrow> int" where
  "xhGetIntProp L node attr def =
     (case (node, attr) of
        (Some x, Some a) \<Rightarrow> (case xmlGetProp L x a of Some xstr \<Rightarrow> to_int (strtol 0 xstr) | None \<Rightarrow> def)
      | _ \<Rightarrow> def)"

definition xhGetChildCount :: "xml \<Rightarrow> char list \<Rightarrow> nat" where
  "xhGetChildCount node node_name =
     (case node of Element _ _ cs \<Rightarrow> length (filter (\<lambda>c. xhIsNode c node_name) cs) | Not_Element _ \<Rightarrow> 0)"

definition xhGetBoolProp :: "xml_lib \<Rightarrow> xml option \<Rightarrow> char list option \<Rightarrow> 32 word \<Rightarrow> char list option \<Rightarrow> 32 word" where
  "xhGetBoolProp L node attr_name true_value str_true =
     (case (node, attr_name) of
        (Some x, Some a) \<Rightarrow>
          (case xmlGetProp L x a of
             None \<Rightarrow> 0
           | Some xstr \<Rightarrow> if xstr = (case str_true of None \<Rightarrow> ''true'' | Some t \<Rightarrow> t) then true_value else 0)
      | _ \<Rightarrow> 0)"

definition xhHasElementNode :: "xml option \<Rightarrow> bool" where
  "xhHasElementNode node =
     (case node of None \<Rightarrow> False | Some x \<Rightarrow> list_ex (\<lambda>c. case c of Element _ _ _ \<Rightarrow> True | Not_Element _ \<Rightarrow> False) (children_of x))"

lemma xhGetChildCount_pos: "0 < xhGetChildCount node n \<longleftrightarrow> xhGetChild node n \<noteq> None"
proof (cases node)
  case (Element name as cs)
  then show ?thesis using find_None_iff [of "\<lambda>c. xhIsNode c n" cs]
    by (simp add: xhGetChildCount_def xhGetChild_def filter_empty_conv Bex_def)
qed (simp add: xhGetChildCount_def xhGetChild_def)

section \<open>Texts\<close>

type_synonym texts = "(int \<times> char list) list"

definition GetTextById :: "texts \<Rightarrow> int \<Rightarrow> char list" where
  "GetTextById tx i = (case map_of tx i of None \<Rightarrow> [] | Some s \<Rightarrow> s)"

definition into_buffer :: "nat \<Rightarrow> char list \<Rightarrow> char list res" where
  "into_buffer cap s = (if length s + 1 \<le> cap then Inr s else Inl Out_Of_Bounds)"

fun text_info_loop :: "xml_lib \<Rightarrow> xml list \<Rightarrow> char list option \<Rightarrow> char list option \<Rightarrow> char list option \<times> char list option" where
  "text_info_loop L [] xlang xcountry = (xlang, xcountry)"
| "text_info_loop L (n # ns) xlang xcountry =
     (if xlang \<noteq> None \<and> xcountry \<noteq> None then (xlang, xcountry)
      else if xhIsNode n ''lang'' then text_info_loop L ns (xhGetNodeText L n) xcountry
      else if xhIsNode n ''country'' then text_info_loop L ns xlang (xhGetNodeText L n)
      else text_info_loop L ns xlang xcountry)"

definition getTextInfo :: "xml_lib \<Rightarrow> xml \<Rightarrow> char list" where
  "getTextInfo L node = (case text_info_loop L (children_of node) None None of
      (Some l, Some c) \<Rightarrow> l @ ''_'' @ c | _ \<Rightarrow> [])"

fun text_file_loop :: "xml_lib \<Rightarrow> char list \<Rightarrow> xml list \<Rightarrow> char list \<Rightarrow> char list res" where
  "text_file_loop L dir [] szBuf = Inr szBuf"
| "text_file_loop L dir (n # ns) szBuf =
     (if \<not> xhIsNode n ''text'' then text_file_loop L dir ns szBuf
      else let x = xmlGetProp L n ''status''; name = dir @ ''/'' @ getTextInfo L n @ ''.txt'' in
        if x = Some ''default'' then rbind (into_buffer 1024 name) (text_file_loop L dir ns)
        else if x = Some ''current'' then into_buffer 1024 name
        else text_file_loop L dir ns szBuf)"

definition getTextFile :: "xml_lib \<Rightarrow> char list \<Rightarrow> char list res" where
  "getTextFile L dir =
     rbind (into_buffer 1024 (dir @ ''/text-config.xml'')) (\<lambda>szBuf.
       case xmlParseFile L szBuf of
         None \<Rightarrow> Inr []
       | Some None \<Rightarrow> Inl Null_Deref
       | Some (Some node) \<Rightarrow> text_file_loop L dir (children_of node) [])"

text \<open>
  The file of texts is read as in the text editor (\<open>Text_Files\<close>), but for the buffer: it is emptied when it is full,
  and its \<open>NUL\<close> is then written behind it.
\<close>

definition put_text_char :: "int \<Rightarrow> char list \<Rightarrow> char list res" where
  "put_text_char ch szBuff =
     (if length szBuff + 1 \<ge> sizeof_szBuff then Inl Out_Of_Bounds else Inr (szBuff @ [char_of ch]))"

function text_string_loop :: "int \<Rightarrow> char list \<Rightarrow> int \<Rightarrow> cfile \<Rightarrow> (char list \<times> cfile) res" where
  "text_string_loop chend szBuff ch fp =
     (if ch = of_char (CHR 0x5C)
      then (case read_escape chend fp of
          Inl e \<Rightarrow> Inl e
        | Inr (Close, fp) \<Rightarrow> Inr (end_string chend szBuff [] fp)
        | Inr (Back ch, fp) \<Rightarrow> if szBuff = [] then Inl Out_Of_Bounds else text_string_loop chend (butlast szBuff) ch fp
        | Inr (Store ch, fp) \<Rightarrow>
            (case put_text_char ch szBuff of
               Inl e \<Rightarrow> Inl e
             | Inr szBuff \<Rightarrow>
                 if at_eof fp then Inr (end_string chend szBuff [] fp)
                 else let (ch, fp) = fgetc_int fp in text_string_loop chend szBuff ch fp))
      else if (chend \<noteq> 0 \<and> ch = chend) \<or> (chend = 0 \<and> (ch = 13 \<or> ch = 10))
      then Inr (end_string chend szBuff [] fp)
      else (case put_text_char ch szBuff of
          Inl e \<Rightarrow> Inl e
        | Inr szBuff \<Rightarrow>
            if at_eof fp then Inr (end_string chend szBuff [] fp)
            else let (ch, fp) = fgetc_int fp in text_string_loop chend szBuff ch fp))"
  by pat_completeness auto

termination
proof (relation "measure (\<lambda>(chend, b, ch, fp). left fp)", goal_cases)
  case prems: (2 chend b ch fp e p f2 d)
  then have "left f2 \<le> left fp" "\<not> at_eof f2" using left_read_escape [of chend fp] by (auto split: escaped.splits)
  then have "left (snd (fgetc_int f2)) < left fp" using left_fgetc_snd [of f2] by simp
  then show ?case using prems by (auto simp: case_prod_beta)
next
  case (3 chend b ch fp)
  then show ?case using left_read_escape [of chend fp] by (auto split: escaped.splits)
next
  case (4 chend b ch fp)
  then show ?case by (auto simp: case_prod_beta intro: left_fgetc_snd)
qed simp

declare text_string_loop.simps [simp del]

definition text_string :: "cfile \<Rightarrow> (char list \<times> cfile) res" where
  "text_string fp =
     (let (ch, fp) = skip_space 0 fp in
      if ch = 34 then (let (ch', fp) = fgetc_int fp in text_string_loop 34 [] ch' fp)
      else text_string_loop 0 [] ch fp)"

lemma left_text_string_loop: "text_string_loop chend b ch f = Inr (r, f') \<Longrightarrow> left f' \<le> left f"
proof (induction chend b ch f arbitrary: r f' rule: text_string_loop.induct)
  case (1 chend b ch f)
  have stop: "left f' \<le> left f" if "Inr (end_string chend b' [] f1) = (Inr (r, f') :: fault + _)" "left f1 \<le> left f" for b' f1
    using that left_end_string [of chend b' "[]" f1] by simp
  obtain c1 f1 where c1: "fgetc_int f = (c1, f1)" by force
  note eq = "1.prems" [unfolded text_string_loop.simps [of chend b ch f]]
  show ?case
  proof (cases "ch = of_char (CHR 0x5C)")
    case esc: True
    obtain e f2 where e: "read_escape chend f = Inr (e, f2)" using eq esc by (cases "read_escape chend f") auto
    note le = left_read_escape [OF e]
    show ?thesis
    proof (cases e)
      case (Store d)
      obtain b2 where b2: "put_text_char d b = Inr b2" using eq esc e Store by (cases "put_text_char d b") auto
      obtain c2 f3 where c2: "fgetc_int f2 = (c2, f3)" by force
      show ?thesis using eq esc e Store b2 c2 le left_fgetc [OF c2] stop
          "1.IH"(1) [OF esc e refl Store b2 _ c2 [symmetric] refl, of r f']
        by (auto split: if_splits)
    next
      case (Back d)
      show ?thesis using eq esc e Back le "1.IH"(2) [OF esc e refl Back, of r f'] by (auto split: if_splits)
    next
      case Close
      then show ?thesis using eq esc e le stop by auto
    qed
  next
    case False
    show ?thesis
    proof (cases "(chend \<noteq> 0 \<and> ch = chend) \<or> (chend = 0 \<and> (ch = 13 \<or> ch = 10))")
      case True
      then show ?thesis using eq False stop by auto
    next
      case go: False
      obtain b1 where b1: "put_text_char ch b = Inr b1" using eq False go by (cases "put_text_char ch b") auto
      show ?thesis using eq False go b1 c1 left_fgetc [OF c1] stop "1.IH"(3) [OF False go b1 _ c1 [symmetric] refl, of r f']
        by (auto split: if_splits)
    qed
  qed
qed

lemma left_text_string:
  assumes "text_string f = Inr (s, f')" shows "left f' \<le> left f"
proof -
  obtain c f1 where c: "skip_space 0 f = (c, f1)" by force
  obtain c2 f2 where c2: "fgetc_int f1 = (c2, f2)" by force
  show ?thesis using assms c c2 left_skip_space [of 0 f] left_fgetc [OF c2] left_text_string_loop
    by (fastforce simp: text_string_def split: if_splits)
qed

function read_text_lines :: "cfile \<Rightarrow> texts \<Rightarrow> texts res" where
  "read_text_lines fp m =
     (if at_eof fp then Inr m
      else let (ch, fp1) = fgetc_int fp in
        if ch = of_char (CHR ''#'') then read_text_lines (nextLine fp1) m
        else (case getId (ungetc_int ch fp1) of
            Inl e \<Rightarrow> Inl e
          | Inr (i, fp2) \<Rightarrow>
              if i \<le> 0 \<or> ID2TYPE i \<noteq> TEXT_TYPE then read_text_lines (nextLine fp2) m
              else (case text_string fp2 of
                  Inl e \<Rightarrow> Inl e
                | Inr (s, fp3) \<Rightarrow> read_text_lines fp3 (map_put i s m))))"
  by pat_completeness auto

termination
proof (relation "measure (\<lambda>(fp, m). left fp)", goal_cases)
  case (2 fp m x ch fp1)
  then show ?case using left_fgetc [of fp ch fp1] left_nextLine [of fp1] by auto
next
  case (3 fp m x ch fp1 p i fp2)
  then have "left fp2 < left fp" by (intro left_unget_getId [of fp ch fp1]) auto
  then show ?case using left_nextLine [of fp2] by simp
next
  case (4 fp m x ch fp1 p i fp2 q t fp3)
  then have "left fp2 < left fp" "text_string fp2 = Inr (t, fp3)" by (auto intro: left_unget_getId [of fp ch fp1])
  then show ?case using left_text_string [of fp2 t fp3] by simp
qed simp

declare read_text_lines.simps [simp del]

definition LoadTextSource :: "xml_lib \<Rightarrow> char list \<Rightarrow> texts \<Rightarrow> (bool \<times> texts) res" where
  "LoadTextSource L dir tx =
     rbind (getTextFile L dir) (\<lambda>f.
       case file_text L f of
         None \<Rightarrow> Inr (False, tx)
       | Some cs \<Rightarrow> rbind (read_text_lines \<lparr>ahead = cs, at_eof = False\<rparr> tx) (\<lambda>tx. Inr (True, tx)))"

end
