(* ===== verification/Ncs_Translate.thy ===== *)
theory Ncs_Translate
  imports Ncs_Texts
begin

text \<open>
  The translator of windows (\<open>trans.h\<close> and \<open>trans.cpp\<close> in \<open>tools/ncs2ics\<close>): files of rules say how the properties of a
  window of the designer become those of a MiniGUI control; a window is read as XML and becomes a tree of objects with
  named values. A translator does not change once it has been read, so a pointer to one is its value.
\<close>

section \<open>Maps by strings\<close>

text \<open>A \<open>map\<close> by strings is a list in the order of its keys.\<close>

fun str_less :: "char list \<Rightarrow> char list \<Rightarrow> bool" where
  "str_less xs [] = False"
| "str_less [] (y # ys) = True"
| "str_less (x # xs) (y # ys) = (if x = y then str_less xs ys else (of_char x :: nat) < of_char y)"

fun smap_put :: "char list \<Rightarrow> 'a \<Rightarrow> (char list \<times> 'a) list \<Rightarrow> (char list \<times> 'a) list" where
  "smap_put k v [] = [(k, v)]"
| "smap_put k v ((k', v') # xs) =
     (if k = k' then (k, v) # xs else if str_less k k' then (k, v) # (k', v') # xs else (k', v') # smap_put k v xs)"

lemma map_of_smap_put [simp]: "map_of (smap_put k v xs) = (map_of xs)(k \<mapsto> v)"
  by (induction k v xs rule: smap_put.induct) auto

section \<open>Variables\<close>

definition VT_INT :: int where "VT_INT = 0"
definition VT_STR :: int where "VT_STR = 1"
definition VT_TEXT :: int where "VT_TEXT = 2"
definition VT_ENUM :: int where "VT_ENUM = 3"

datatype variable = IntVariable "32 word" | StrVariable "char list"

definition Variable_combin :: "variable \<Rightarrow> variable \<Rightarrow> variable" where
  "Variable_combin v pv = (case (v, pv) of
      (IntVariable a, IntVariable b) \<Rightarrow> IntVariable (a OR b)
    | (StrVariable s, StrVariable t) \<Rightarrow> StrVariable (s @ t)
    | _ \<Rightarrow> v)"

definition toString :: "variable \<Rightarrow> char list" where
  "toString v = (case v of IntVariable w \<Rightarrow> ''0x'' @ fmt_08X w | StrVariable s \<Rightarrow> s)"

text \<open>The value of a string is the address of its characters; its lower half is printed.\<close>

definition getValue :: "(char list \<Rightarrow> 32 word) \<Rightarrow> variable \<Rightarrow> 32 word" where
  "getValue addr v = (case v of IntVariable w \<Rightarrow> w | StrVariable s \<Rightarrow> addr s)"

definition name2type :: "char list \<Rightarrow> int" where
  "name2type str = (if str = ''int'' then VT_INT else if str = ''string'' then VT_STR else if str = ''text'' then VT_TEXT
     else if str = ''enum'' then VT_ENUM else -1)"

section \<open>Objects\<close>

text \<open>A property whose value is \<open>NULL\<close> is kept in the map.\<close>

type_synonym props = "(char list \<times> variable option) list"

datatype TransedObject = Transed_Object (obj_name: "char list") (getProps: props) (getChildren: "TransedObject list")

definition setName :: "char list \<Rightarrow> TransedObject \<Rightarrow> TransedObject" where
  "setName str t = (case t of Transed_Object _ p c \<Rightarrow> Transed_Object str p c)"

definition insertProp :: "char list \<Rightarrow> variable option \<Rightarrow> TransedObject \<Rightarrow> TransedObject res" where
  "insertProp n newv t = (case t of Transed_Object name p c \<Rightarrow>
     (case map_of p n of
        Some (Some v) \<Rightarrow>
          (case newv of None \<Rightarrow> Inl Null_Deref | Some w \<Rightarrow> Inr (Transed_Object name (smap_put n (Some (Variable_combin v w)) p) c))
      | _ \<Rightarrow> Inr (Transed_Object name (smap_put n newv p) c)))"

definition appendChild :: "TransedObject \<Rightarrow> TransedObject \<Rightarrow> TransedObject" where
  "appendChild child t = (case t of Transed_Object n p c \<Rightarrow> Transed_Object n p (c @ [child]))"

section \<open>Rules\<close>

record Translate =
  source_name :: "char list"
  source_type :: int
  dest_name :: "char list"
  dest_type :: int
  enumMapper :: "(char list \<times> char list) list"

definition new_Translate :: Translate where
  "new_Translate = \<lparr>source_name = [], source_type = 0, dest_name = [], dest_type = 0, enumMapper = []\<rparr>"

record Setter =
  set_name :: "char list"
  set_type :: int
  set_value :: "char list"

text \<open>Where the function ends without a \<open>return\<close>, its result is a pointer that was never set.\<close>

definition getVariable :: "texts \<Rightarrow> Translate \<Rightarrow> char list option \<Rightarrow> variable option res" where
  "getVariable tx t strvalue =
     (case strvalue of
        None \<Rightarrow> Inr None
      | Some s \<Rightarrow>
          if dest_type t = VT_INT
          then (if source_type t = VT_ENUM
                then Inr (Some (IntVariable (case map_of (enumMapper t) s of Some x \<Rightarrow> word_of_int (strtol 0 x) | None \<Rightarrow> 0)))
                else Inr (Some (IntVariable (word_of_int (strtol 0 s)))))
          else if dest_type t = VT_STR
          then (if source_type t = VT_STR \<or> source_type t = VT_INT then Inr (Some (StrVariable s))
                else if source_type t = VT_TEXT then Inr (Some (StrVariable (GetTextById tx (to_int (strtol 0 s)))))
                else if source_type t = VT_ENUM
                then Inr (Some (StrVariable (case map_of (enumMapper t) s of Some x \<Rightarrow> x | None \<Rightarrow> s)))
                else Inl Wild_Pointer)
          else Inr None)"

definition Setter_getVariable :: "texts \<Rightarrow> Setter \<Rightarrow> variable option" where
  "Setter_getVariable tx s =
     (if set_type s = VT_INT then Some (IntVariable (word_of_int (strtol 0 (set_value s))))
      else if set_type s = VT_STR then Some (StrVariable (set_value s))
      else if set_type s = VT_TEXT then Some (StrVariable (GetTextById tx (to_int (strtol 0 (set_value s)))))
      else None)"

datatype Translator = Translator_of (getName: "char list") (sets: "(char list \<times> Setter) list")
  (source_defaults: "(char list \<times> Setter) list") (translates: "(char list \<times> Translate) list") (super: "Translator option")

type_synonym translators = "(char list \<times> Translator) list"

definition GetTranslatorByName :: "translators \<Rightarrow> char list \<Rightarrow> Translator option" where
  "GetTranslatorByName ts name = map_of ts name"

fun getTranslate :: "Translator \<Rightarrow> char list \<Rightarrow> Translate option" where
  "getTranslate (Translator_of n ss ds ts up) tname =
     (case map_of ts tname of
        Some t \<Rightarrow> Some t
      | None \<Rightarrow> (case up of Some s \<Rightarrow> getTranslate s tname | None \<Rightarrow> None))"

section \<open>Translating a window\<close>

text \<open>\<open>props_name_have_setted\<close> is changed by the call, also for the caller.\<close>

definition set_default :: "texts \<Rightarrow> Translator \<Rightarrow> Setter \<Rightarrow> TransedObject \<times> char list list \<Rightarrow> (TransedObject \<times> char list list) res" where
  "set_default tx pthis s st =
     (let (tobj, setted) = st in
      if set_name s \<in> set setted then Inr st
      else (case getTranslate pthis (set_name s) of
          None \<Rightarrow> Inr st
        | Some t \<Rightarrow> rbind (getVariable tx t (Some (set_value s))) (\<lambda>v.
            case v of
              None \<Rightarrow> Inr st
            | Some _ \<Rightarrow> rbind (insertProp (dest_name t) v tobj) (\<lambda>tobj. Inr (tobj, setted @ [set_name s])))))"

fun defaults_loop :: "texts \<Rightarrow> Translator \<Rightarrow> (char list \<times> Setter) list \<Rightarrow> TransedObject \<times> char list list
    \<Rightarrow> (TransedObject \<times> char list list) res" where
  "defaults_loop tx pthis [] st = Inr st"
| "defaults_loop tx pthis ((_, s) # ss) st = rbind (set_default tx pthis s st) (defaults_loop tx pthis ss)"

fun setSourceDefaults :: "texts \<Rightarrow> Translator \<Rightarrow> Translator \<Rightarrow> TransedObject \<times> char list list
    \<Rightarrow> (TransedObject \<times> char list list) res" where
  "setSourceDefaults tx pthis (Translator_of n ss ds ts up) st =
     rbind (defaults_loop tx pthis ds st) (\<lambda>st.
       case up of None \<Rightarrow> Inr st | Some s \<Rightarrow> setSourceDefaults tx pthis s st)"

fun setters_loop :: "texts \<Rightarrow> (char list \<times> Setter) list \<Rightarrow> TransedObject \<Rightarrow> TransedObject res" where
  "setters_loop tx [] tobj = Inr tobj"
| "setters_loop tx ((_, s) # ss) tobj =
     (case Setter_getVariable tx s of
        None \<Rightarrow> setters_loop tx ss tobj
      | Some v \<Rightarrow> rbind (insertProp (set_name s) (Some v) tobj) (setters_loop tx ss))"

definition translate_value :: "xml_lib \<Rightarrow> texts \<Rightarrow> Translator \<Rightarrow> xml \<Rightarrow> TransedObject \<times> char list list
    \<Rightarrow> (TransedObject \<times> char list list) res" where
  "translate_value L tx this node st =
     (case getTranslate this (xml_name node) of
        None \<Rightarrow> Inr st
      | Some t \<Rightarrow>
          (case xhGetNodeText L node of
             None \<Rightarrow> Inr st
           | Some x \<Rightarrow> rbind (getVariable tx t (Some x)) (\<lambda>newv.
               rbind (insertProp (dest_name t) newv (fst st)) (\<lambda>tobj. Inr (tobj, snd st @ [source_name t])))))"

definition is_window :: "xml \<Rightarrow> bool" where
  "is_window node \<longleftrightarrow> xhIsNode node ''window'' \<or> xhIsNode node ''paged-window''"

fun translate :: "xml_lib \<Rightarrow> texts \<Rightarrow> translators \<Rightarrow> Translator \<Rightarrow> xml \<Rightarrow> TransedObject res"
  and translate_children :: "xml_lib \<Rightarrow> texts \<Rightarrow> translators \<Rightarrow> Translator \<Rightarrow> xml list \<Rightarrow> TransedObject \<times> char list list
    \<Rightarrow> (TransedObject \<times> char list list) res" where
  "translate L tx ts this (Not_Element n) =
     rbind (setters_loop tx (sets this) (Transed_Object (getName this) [] [])) (\<lambda>tobj.
       rbind (setSourceDefaults tx this this (tobj, [])) (\<lambda>st. Inr (fst st)))"
| "translate L tx ts this (Element n as cs) =
     rbind (setters_loop tx (sets this) (Transed_Object (getName this) [] [])) (\<lambda>tobj.
       rbind (translate_children L tx ts this cs (tobj, [])) (\<lambda>st.
         rbind (setSourceDefaults tx this this st) (\<lambda>st. Inr (fst st))))"
| "translate_children L tx ts this [] st = Inr st"
| "translate_children L tx ts this (node # nodes) st =
     (case node of
        Not_Element _ \<Rightarrow> translate_children L tx ts this nodes st
      | Element _ _ _ \<Rightarrow>
          if is_window node
          then (case Option.bind (xmlGetProp L node ''class'') (GetTranslatorByName ts) of
              None \<Rightarrow> translate_children L tx ts this nodes st
            | Some t \<Rightarrow> rbind (translate L tx ts t node) (\<lambda>childobj.
                translate_children L tx ts this nodes (appendChild childobj (fst st), snd st)))
          else rbind (translate_value L tx this node st) (translate_children L tx ts this nodes))"

section \<open>Reading the rules\<close>

definition Setter_createFromXML :: "xml_lib \<Rightarrow> xml \<Rightarrow> Setter option" where
  "Setter_createFromXML L node =
     (case xmlGetProp L node ''name'' of
        None \<Rightarrow> None
      | Some x \<Rightarrow> Some \<lparr>set_name = x,
          set_type = (case xmlGetProp L node ''type'' of None \<Rightarrow> 0 | Some y \<Rightarrow> name2type y),
          set_value = (case xmlGetProp L node ''value'' of None \<Rightarrow> [] | Some y \<Rightarrow> y)\<rparr>)"

text \<open>Assigning \<open>NULL\<close> to a \<open>string\<close> reads its characters.\<close>

fun enum_loop :: "xml_lib \<Rightarrow> xml list \<Rightarrow> Translate \<Rightarrow> Translate res" where
  "enum_loop L [] tt = Inr tt"
| "enum_loop L (c # cs) tt =
     (case c of
        Not_Element _ \<Rightarrow> enum_loop L cs tt
      | Element name _ _ \<Rightarrow>
          (case xhGetNodeText L c of
             None \<Rightarrow> Inl Null_Deref
           | Some x \<Rightarrow> enum_loop L cs (tt\<lparr>enumMapper := enumMapper tt @ [(name, x)]\<rparr>)))"

definition read_end :: "xml_lib \<Rightarrow> xml \<Rightarrow> char list \<Rightarrow> int \<Rightarrow> char list \<times> int" where
  "read_end L tn name ty =
     (case xmlGetProp L tn ''name'' of None \<Rightarrow> name | Some x \<Rightarrow> x,
      case xmlGetProp L tn ''type'' of None \<Rightarrow> ty | Some x \<Rightarrow> name2type x)"

definition rule_part :: "xml_lib \<Rightarrow> xml \<Rightarrow> Translate \<Rightarrow> Translate res" where
  "rule_part L tn tt =
     (if xhIsNode tn ''source''
      then (let (n, ty) = read_end L tn (source_name tt) (source_type tt) in Inr (tt\<lparr>source_name := n, source_type := ty\<rparr>))
      else if xhIsNode tn ''dest''
      then (let (n, ty) = read_end L tn (dest_name tt) (dest_type tt) in Inr (tt\<lparr>dest_name := n, dest_type := ty\<rparr>))
      else if xhIsNode tn ''enum-map'' then enum_loop L (children_of tn) tt
      else Inr tt)"

fun rule_loop :: "xml_lib \<Rightarrow> xml list \<Rightarrow> Translate \<Rightarrow> Translate res" where
  "rule_loop L [] tt = Inr tt"
| "rule_loop L (tn # ns) tt = rbind (rule_part L tn tt) (rule_loop L ns)"

definition read_rule :: "xml_lib \<Rightarrow> Translator \<Rightarrow> xml \<Rightarrow> Translator res" where
  "read_rule L t node = (case t of Translator_of n ss ds ts up \<Rightarrow>
     if xhIsNode node ''set''
     then Inr (case Setter_createFromXML L node of None \<Rightarrow> t | Some s \<Rightarrow> Translator_of n (smap_put (set_name s) s ss) ds ts up)
     else if xhIsNode node ''source-default''
     then Inr (case Setter_createFromXML L node of None \<Rightarrow> t | Some s \<Rightarrow> Translator_of n ss (smap_put (set_name s) s ds) ts up)
     else if xhIsNode node ''translate''
     then rbind (rule_loop L (children_of node) new_Translate) (\<lambda>tt. Inr (Translator_of n ss ds (smap_put (source_name tt) tt ts) up))
     else Inr t)"

fun read_rules :: "xml_lib \<Rightarrow> xml list \<Rightarrow> Translator \<Rightarrow> Translator res" where
  "read_rules L [] t = Inr t"
| "read_rules L (node # ns) t = rbind (read_rule L t node) (read_rules L ns)"

definition createFromXML :: "xml_lib \<Rightarrow> translators \<Rightarrow> xml option \<Rightarrow> Translator option res" where
  "createFromXML L ts rnode =
     (case rnode of
        None \<Rightarrow> Inr None
      | Some r \<Rightarrow>
          (case xmlGetProp L r ''class'' of
             None \<Rightarrow> Inr None
           | Some name \<Rightarrow> rbind
               (read_rules L (children_of r)
                 (Translator_of name [] [] [] (Option.bind (xmlGetProp L r ''extends'') (GetTranslatorByName ts))))
               (\<lambda>t. Inr (Some t))))"

text \<open>\<open>fgets\<close> into a buffer with room for \<open>n\<close> characters and a \<open>NUL\<close>.\<close>

fun fgets :: "nat \<Rightarrow> char list \<Rightarrow> char list \<times> char list" where
  "fgets 0 cs = ([], cs)"
| "fgets (Suc n) [] = ([], [])"
| "fgets (Suc n) (c # cs) = (if c = CHR 0x0A then ([c], cs) else let (l, rest) = fgets n cs in (c # l, rest))"

lemma length_fgets: "length (snd (fgets n cs)) \<le> length cs"
  by (induction n cs rule: fgets.induct) (auto simp: case_prod_beta)

function file_lines :: "char list \<Rightarrow> char list list" where
  "file_lines cs = (if cs = [] then [] else let (l, rest) = fgets 1023 cs in l # file_lines rest)"
  by pat_completeness auto

termination
proof (relation "measure length", goal_cases)
  case (2 cs x l rest)
  then obtain c cs' where "cs = c # cs'" by (cases cs) auto
  then have "length rest \<le> length cs'" using 2 length_fgets [of 1022 cs']
    by (auto simp: case_prod_beta numeral_eq_Suc split: if_splits)
  then show ?case using \<open>cs = c # cs'\<close> by simp
qed simp

declare file_lines.simps [simp del]

definition load_line :: "xml_lib \<Rightarrow> char list \<Rightarrow> translators \<Rightarrow> translators res" where
  "load_line L line ts =
     (if c_cut line = [] then Inl Out_Of_Bounds
      else (case xmlParseFile L (butlast (c_cut line)) of
          None \<Rightarrow> Inr ts
        | Some root \<Rightarrow> rbind (createFromXML L ts root) (\<lambda>t.
            Inr (case t of None \<Rightarrow> ts | Some t \<Rightarrow> smap_put (getName t) t ts))))"

fun load_lines :: "xml_lib \<Rightarrow> char list list \<Rightarrow> translators \<Rightarrow> translators res" where
  "load_lines L [] ts = Inr ts"
| "load_lines L (l # ls) ts = rbind (load_line L l ts) (load_lines L ls)"

definition LoadTranslators :: "xml_lib \<Rightarrow> char list \<Rightarrow> translators \<Rightarrow> (bool \<times> translators) res" where
  "LoadTranslators L list_file ts =
     (case file_text L list_file of
        None \<Rightarrow> Inr (False, ts)
      | Some cs \<Rightarrow> rbind (load_lines L (file_lines cs) ts) (\<lambda>ts. Inr (True, ts)))"

section \<open>A project\<close>

definition TranslateFile :: "xml_lib \<Rightarrow> texts \<Rightarrow> translators \<Rightarrow> char list \<Rightarrow> TransedObject option res" where
  "TranslateFile L tx ts file_name =
     (case xmlParseFile L file_name of
        Some (Some node) \<Rightarrow>
          (case Option.bind (xmlGetProp L node ''class'') (GetTranslatorByName ts) of
             None \<Rightarrow> Inr None
           | Some t \<Rightarrow> rbind (translate L tx ts t node) (\<lambda>tobj. Inr (Some tobj)))
      | _ \<Rightarrow> Inr None)"

fun contains :: "char list \<Rightarrow> char list \<Rightarrow> bool" where
  "contains [] pat = (pat = [])"
| "contains (c # cs) pat = (take (length pat) (c # cs) = pat \<or> contains cs pat)"

definition project_node :: "xml_lib \<Rightarrow> texts \<Rightarrow> translators \<Rightarrow> char list
    \<Rightarrow> (TransedObject option \<Rightarrow> char list \<Rightarrow> 's \<Rightarrow> 's res) \<Rightarrow> xml \<Rightarrow> 's \<Rightarrow> 's res" where
  "project_node L tx ts prj_dir process node st =
     (if \<not> xhIsNode node ''res-id'' then Inr st
      else (case xhGetChildText L node ''source'' of
          None \<Rightarrow> Inr st
        | Some source \<Rightarrow>
            if contains source ''.xml''
            then rbind (into_buffer 1024 (prj_dir @ ''/'' @ source)) (\<lambda>szbuf.
              rbind (TranslateFile L tx ts szbuf) (\<lambda>tobj. process tobj source st))
            else Inr st))"

fun project_loop :: "xml_lib \<Rightarrow> texts \<Rightarrow> translators \<Rightarrow> char list
    \<Rightarrow> (TransedObject option \<Rightarrow> char list \<Rightarrow> 's \<Rightarrow> 's res) \<Rightarrow> xml list \<Rightarrow> 's \<Rightarrow> 's res" where
  "project_loop L tx ts prj_dir process [] st = Inr st"
| "project_loop L tx ts prj_dir process (node # nodes) st =
     rbind (project_node L tx ts prj_dir process node st) (project_loop L tx ts prj_dir process nodes)"

definition TranslateProject :: "xml_lib \<Rightarrow> texts \<Rightarrow> translators \<Rightarrow> char list
    \<Rightarrow> (TransedObject option \<Rightarrow> char list \<Rightarrow> 's \<Rightarrow> 's res) \<Rightarrow> 's \<Rightarrow> (bool \<times> 's) res" where
  "TranslateProject L tx ts prj_dir process st =
     rbind (into_buffer 1024 (prj_dir @ ''/res/text'')) (\<lambda>szbuf.
       rbind (LoadTextSource L szbuf tx) (\<lambda>(_, tx).
         rbind (into_buffer 1024 (prj_dir @ ''/res/ui/id.xml'')) (\<lambda>szbuf.
           case xmlParseFile L szbuf of
             None \<Rightarrow> Inr (False, st)
           | Some None \<Rightarrow> Inl Null_Deref
           | Some (Some node) \<Rightarrow>
               rbind (project_loop L tx ts prj_dir process (children_of node) st) (\<lambda>st. Inr (True, st)))))"

section \<open>Showing objects\<close>

definition push_tab :: "char list \<Rightarrow> char list res" where
  "push_tab pfx = into_buffer 100 (pfx @ [CHR 0x09])"

fun dump_props :: "char list \<Rightarrow> props \<Rightarrow> char list \<Rightarrow> char list res" where
  "dump_props pfx [] out = Inr out"
| "dump_props pfx ((k, v) # ps) out =
     (case v of
        None \<Rightarrow> Inl Null_Deref
      | Some v \<Rightarrow> dump_props pfx ps (out @ pfx @ [CHR 0x09] @ c_cut k @ '' : '' @ c_cut (toString v) @ [CHR 0x0A]))"

fun dump_transed_obj :: "char list \<Rightarrow> TransedObject \<Rightarrow> char list \<Rightarrow> char list res"
  and dump_children :: "char list \<Rightarrow> TransedObject list \<Rightarrow> char list \<Rightarrow> char list res" where
  "dump_transed_obj pfx (Transed_Object name ps cs) out =
     rbind (dump_props pfx ps (out @ pfx @ ''Name: '' @ c_cut name @ [CHR 0x0A])) (\<lambda>out.
       if cs = [] then Inr out
       else rbind (push_tab pfx) (\<lambda>pfx. dump_children pfx cs out))"
| "dump_children pfx [] out = Inr out"
| "dump_children pfx (c # cs) out = rbind (dump_transed_obj pfx c out) (dump_children pfx cs)"

definition DumpTransedObj :: "TransedObject option \<Rightarrow> char list \<Rightarrow> char list \<Rightarrow> char list res" where
  "DumpTransedObj tobj source out = (case tobj of None \<Rightarrow> Inr out | Some t \<Rightarrow> dump_transed_obj [] t out)"

end
