(* ===== verification/Ncs_Inherit.thy ===== *)
theory Ncs_Inherit
  imports Ncs_Translate "HOL-Library.AList"
begin

text \<open>
  What the translator of windows (\<open>Ncs_Translate\<close>) makes of a window, said without its loops: the values a window and the
  chain of classes contribute to each property, and that they are all there is.
\<close>

section \<open>The chain of classes\<close>

fun class_chain :: "Translator \<Rightarrow> Translator list" where
  "class_chain (Translator_of n ss ds ts up) = Translator_of n ss ds ts up # (case up of None \<Rightarrow> [] | Some t \<Rightarrow> class_chain t)"

definition all_rules :: "Translator \<Rightarrow> (char list \<times> Translate) list" where
  "all_rules t = concat (map translates (class_chain t))"

definition all_defaults :: "Translator \<Rightarrow> (char list \<times> Setter) list" where
  "all_defaults t = concat (map source_defaults (class_chain t))"

lemma getTranslate_chain: "getTranslate t n = map_of (all_rules t) n"
  by (induction t rule: class_chain.induct) (auto simp: all_rules_def map_add_def split: option.splits)

lemma setSourceDefaults_chain: "setSourceDefaults tx this t st = defaults_loop tx this (all_defaults t) st"
proof (induction t arbitrary: st rule: class_chain.induct)
  case (1 n ss ds ts up)
  have app: "defaults_loop tx this (xs @ ys) st = rbind (defaults_loop tx this xs st) (defaults_loop tx this ys)" for xs ys st
  proof (induction xs arbitrary: st)
    case (Cons x xs)
    then show ?case by (cases x; cases "set_default tx this (snd x) st") auto
  qed simp
  show ?case by (cases up) (auto simp: all_defaults_def app rbind_def "1.IH" split: sum.splits)
qed

text \<open>Rules and settings are kept under the name they have.\<close>

definition class_keyed :: "Translator \<Rightarrow> bool" where
  "class_keyed t \<longleftrightarrow> (\<forall>x\<in>set (translates t). source_name (snd x) = fst x) \<and>
     (\<forall>x\<in>set (source_defaults t). set_name (snd x) = fst x) \<and> (\<forall>x\<in>set (sets t). set_name (snd x) = fst x)"

definition keyed :: "Translator \<Rightarrow> bool" where
  "keyed t \<longleftrightarrow> list_all class_keyed (class_chain t)"

text \<open>A rule that gives a value for every text.\<close>

definition typed :: "Translate \<Rightarrow> bool" where
  "typed r \<longleftrightarrow> dest_type r = VT_INT \<or> dest_type r = VT_STR \<and> source_type r \<in> {VT_INT, VT_STR, VT_TEXT, VT_ENUM}"

definition well_typed :: "Translator \<Rightarrow> bool" where
  "well_typed t \<longleftrightarrow> list_all (typed \<circ> snd) (all_rules t)"

definition rule_ok :: "char list \<times> Translate \<Rightarrow> bool" where
  "rule_ok r \<longleftrightarrow> source_name (snd r) = fst r \<and> typed (snd r)"

definition setter_ok :: "char list \<times> Setter \<Rightarrow> bool" where
  "setter_ok s \<longleftrightarrow> set_name (snd s) = fst s"

definition rules_ok :: "Translator \<Rightarrow> bool" where
  "rules_ok t \<longleftrightarrow> keyed t \<and> well_typed t"

lemma set_smap_put: "set (smap_put k v xs) \<subseteq> insert (k, v) (set xs)"
  by (induction k v xs rule: smap_put.induct) auto

lemma chain_super: "class_chain t = t # (case super t of None \<Rightarrow> [] | Some u \<Rightarrow> class_chain u)"
  by (cases t) simp

lemma read_rule_keyed:
  assumes "keyed t" "read_rule L t node = Inr t'"
  shows "keyed t' \<and> getName t' = getName t"
proof -
  obtain n ss ds ts up where t: "t = Translator_of n ss ds ts up" by (cases t)
  note [dest!] = subsetD [OF set_smap_put]
  show ?thesis using assms unfolding t read_rule_def keyed_def class_keyed_def
    by (auto simp: rbind_eq_Inr split: if_splits option.splits)
qed

lemma read_rules_keyed: "keyed t \<Longrightarrow> read_rules L ns t = Inr t' \<Longrightarrow> keyed t' \<and> getName t' = getName t"
proof (induction ns arbitrary: t)
  case (Cons n ns)
  then obtain t1 where t1: "read_rule L t n = Inr t1" "read_rules L ns t1 = Inr t'" by (auto simp: rbind_eq_Inr)
  then show ?case using read_rule_keyed [OF Cons.prems(1) t1(1)] Cons.IH [of t1] by simp
qed simp

definition loaded_ok :: "translators \<Rightarrow> bool" where
  "loaded_ok ts \<longleftrightarrow> (\<forall>(k, t)\<in>set ts. keyed t \<and> getName t = k)"

lemma createFromXML_keyed:
  assumes "loaded_ok ts" "createFromXML L ts r = Inr (Some t)"
  shows "keyed t"
proof -
  obtain x name where x: "r = Some x" "xmlGetProp L x ''class'' = Some name" using assms(2)
    by (auto simp: createFromXML_def split: option.splits)
  let ?t = "Translator_of name [] [] [] (Option.bind (xmlGetProp L x ''extends'') (GetTranslatorByName ts))"
  have "keyed ?t" using assms(1)
    by (fastforce simp: keyed_def class_keyed_def loaded_ok_def GetTranslatorByName_def bind_eq_Some_conv
        dest: map_of_SomeD split: option.splits)
  then show ?thesis using read_rules_keyed [of ?t L "children_of x" t] assms(2) x
    by (auto simp: createFromXML_def rbind_eq_Inr)
qed

lemma load_line_keyed:
  assumes "loaded_ok ts" "load_line L l ts = Inr ts'" shows "loaded_ok ts'"
proof -
  note [dest!] = subsetD [OF set_smap_put]
  show ?thesis using assms createFromXML_keyed [OF assms(1)]
    by (auto simp: load_line_def rbind_eq_Inr loaded_ok_def split: if_splits option.splits)
qed

lemma load_lines_keyed: "loaded_ok ts \<Longrightarrow> load_lines L ls ts = Inr ts' \<Longrightarrow> loaded_ok ts'"
  by (induction ls arbitrary: ts) (auto simp: rbind_eq_Inr intro: load_line_keyed)

lemma LoadTranslators_keyed: "LoadTranslators L f [] = Inr (b, ts) \<Longrightarrow> loaded_ok ts"
  by (auto simp: LoadTranslators_def rbind_eq_Inr loaded_ok_def split: option.splits
      dest: load_lines_keyed [of "[]", unfolded loaded_ok_def, simplified])

lemma rules_ok_rules: "rules_ok t \<Longrightarrow> list_all rule_ok (all_rules t)"
  by (auto simp: rules_ok_def keyed_def class_keyed_def rule_ok_def well_typed_def all_rules_def list_all_iff)

lemma rules_ok_defaults: "rules_ok t \<Longrightarrow> list_all setter_ok (all_defaults t)"
  by (auto simp: rules_ok_def keyed_def class_keyed_def setter_ok_def all_defaults_def list_all_iff)

lemma rules_ok_sets: "rules_ok t \<Longrightarrow> list_all setter_ok (sets t)"
  by (auto simp: rules_ok_def keyed_def class_keyed_def setter_ok_def chain_super [of t] list_all_iff)

section \<open>What contributes to a window\<close>

type_synonym contributions = "(char list \<times> variable) list"

definition rule_values :: "texts \<Rightarrow> Translate \<Rightarrow> char list \<Rightarrow> contributions" where
  "rule_values tx r x = (case getVariable tx r (Some x) of Inr (Some v) \<Rightarrow> [(dest_name r, v)] | _ \<Rightarrow> [])"

definition setter_values :: "texts \<Rightarrow> char list \<times> Setter \<Rightarrow> contributions" where
  "setter_values tx s = (case Setter_getVariable tx (snd s) of None \<Rightarrow> [] | Some v \<Rightarrow> [(fst s, v)])"

text \<open>The properties the window itself gives: the rule and the text of each element that has both.\<close>

definition given :: "xml_lib \<Rightarrow> Translator \<Rightarrow> xml \<Rightarrow> (Translate \<times> char list) list" where
  "given L t node =
     (case node of
        Not_Element _ \<Rightarrow> []
      | Element name _ _ \<Rightarrow>
          if is_window node then []
          else (case (map_of (all_rules t) name, xhGetNodeText L node) of (Some r, Some x) \<Rightarrow> [(r, x)] | _ \<Rightarrow> []))"

definition default_values :: "texts \<Rightarrow> Translator \<Rightarrow> char list \<times> Setter \<Rightarrow> contributions" where
  "default_values tx t d = (case map_of (all_rules t) (fst d) of None \<Rightarrow> [] | Some r \<Rightarrow> rule_values tx r (set_value (snd d)))"

text \<open>
  First what the class sets, then what the window gives, then the defaults of what it does not give: for each name
  the default of the nearest class.
\<close>

definition contributions_of :: "xml_lib \<Rightarrow> texts \<Rightarrow> Translator \<Rightarrow> xml list \<Rightarrow> contributions" where
  "contributions_of L tx t cs =
     (let gs = concat (map (given L t) cs) in
      concat (map (setter_values tx) (sets t)) @
      concat (map (\<lambda>(r, x). rule_values tx r x) gs) @
      concat (map (default_values tx t)
        (filter (\<lambda>d. fst d \<notin> set (map (source_name \<circ> fst) gs)) (AList.clearjunk (all_defaults t)))))"

definition add_value :: "variable option \<Rightarrow> variable \<Rightarrow> variable" where
  "add_value a v = (case a of None \<Rightarrow> v | Some u \<Rightarrow> Variable_combin u v)"

definition gathered :: "char list \<Rightarrow> contributions \<Rightarrow> variable option" where
  "gathered k cs = foldl (\<lambda>a (k', v). if k' = k then Some (add_value a v) else a) None cs"

lemma gathered_snoc: "gathered k (cs @ [(n, v)]) = (if n = k then Some (add_value (gathered k cs) v) else gathered k cs)"
  by (simp add: gathered_def)

text \<open>Of values that are numbers, each bit is there when one of them has it.\<close>

lemma gathered_bits:
  assumes "\<forall>(k', v)\<in>set cs. k' = k \<longrightarrow> (\<exists>w. v = IntVariable w)"
  shows "case gathered k cs of
      None \<Rightarrow> k \<notin> fst ` set cs
    | Some v \<Rightarrow> \<exists>w. v = IntVariable w \<and> (\<forall>i. bit w i \<longleftrightarrow> (\<exists>u. (k, IntVariable u) \<in> set cs \<and> bit u i))"
  using assms
proof (induction cs rule: rev_induct)
  case Nil
  then show ?case by (simp add: gathered_def)
next
  case (snoc c cs)
  obtain n v where c: "c = (n, v)" by force
  have IH: "case gathered k cs of None \<Rightarrow> k \<notin> fst ` set cs
    | Some v \<Rightarrow> \<exists>w. v = IntVariable w \<and> (\<forall>i. bit w i \<longleftrightarrow> (\<exists>u. (k, IntVariable u) \<in> set cs \<and> bit u i))"
    using snoc by auto
  show ?case
  proof (cases "n = k")
    case False
    then show ?thesis using IH c by (auto simp: gathered_snoc split: option.splits)
  next
    case True
    then obtain w where w: "v = IntVariable w" using snoc.prems c by auto
    show ?thesis
    proof (cases "gathered k cs")
      case None
      then show ?thesis using IH True c w by (force simp: gathered_snoc add_value_def)
    next
      case (Some a)
      then show ?thesis using IH True c w by (auto simp: gathered_snoc add_value_def Variable_combin_def bit_or_iff)
    qed
  qed
qed

text \<open>Properties that have their values from the contributions.\<close>

definition collected :: "props \<Rightarrow> contributions \<Rightarrow> bool" where
  "collected p cs \<longleftrightarrow> (\<forall>k. map_of p k = map_option Some (gathered k cs))"

lemma collected_Nil: "collected [] []"
  by (simp add: collected_def gathered_def)

lemma insertProp_holds:
  assumes "collected p cs"
  shows "\<exists>p'. insertProp k (Some v) (Transed_Object n p c) = Inr (Transed_Object n p' c) \<and> collected p' (cs @ [(k, v)])"
proof -
  have "map_of p k = map_option Some (gathered k cs)" using assms by (simp add: collected_def)
  then have "insertProp k (Some v) (Transed_Object n p c) = Inr (Transed_Object n (smap_put k (Some (add_value (gathered k cs) v)) p) c)"
    by (cases "gathered k cs") (simp_all add: insertProp_def add_value_def)
  then show ?thesis using assms by (auto simp: collected_def gathered_snoc)
qed

section \<open>The loops\<close>

lemma rule_gives:
  assumes "rule_ok (k, r)"
  obtains v where "getVariable tx r (Some x) = Inr (Some v)" "rule_values tx r x = [(dest_name r, v)]"
proof -
  have "\<exists>v. getVariable tx r (Some x) = Inr (Some v)"
    using assms by (auto simp: rule_ok_def typed_def getVariable_def VT_INT_def VT_STR_def VT_TEXT_def VT_ENUM_def)
  then show ?thesis using that by (auto simp: rule_values_def)
qed

lemma setters_loop_holds:
  assumes "list_all setter_ok ss" "collected p cs"
  shows "\<exists>p'. setters_loop tx ss (Transed_Object n p c) = Inr (Transed_Object n p' c) \<and> collected p' (cs @ concat (map (setter_values tx) ss))"
  using assms
proof (induction ss arbitrary: p cs)
  case (Cons a ss)
  obtain k s where a: "a = (k, s)" by force
  then have k: "set_name s = k" using Cons.prems by (simp add: setter_ok_def)
  show ?case
  proof (cases "Setter_getVariable tx s")
    case None
    then show ?thesis using Cons a by (simp add: setter_values_def)
  next
    case (Some v)
    obtain p1 where p1: "insertProp k (Some v) (Transed_Object n p c) = Inr (Transed_Object n p1 c)" "collected p1 (cs @ [(k, v)])"
      using insertProp_holds [OF Cons.prems(2)] by blast
    then show ?thesis using Cons.IH [OF _ p1(2)] Cons.prems(1) a k Some by (simp add: setter_values_def)
  qed
qed simp

lemma concat_map_filter:
  assumes "\<And>x. x \<in> set xs \<Longrightarrow> \<not> Q x \<Longrightarrow> f x = []"
  shows "concat (map f (filter P (filter Q xs))) = concat (map f (filter P xs))"
  using assms by (induction xs) auto

lemma defaults_loop_holds:
  assumes "list_all setter_ok ds" "list_all rule_ok (all_rules t)" "collected p cs"
  shows "\<exists>p' setted'. defaults_loop tx t ds (Transed_Object n p c, setted) = Inr (Transed_Object n p' c, setted') \<and>
    collected p' (cs @ concat (map (default_values tx t) (filter (\<lambda>d. fst d \<notin> set setted) (AList.clearjunk ds))))"
  using assms(1,3)
proof (induction ds arbitrary: p cs setted)
  case (Cons d ds)
  obtain k s where d: "d = (k, s)" by force
  then have k: "set_name s = k" using Cons.prems by (simp add: setter_ok_def)
  let ?kept = "\<lambda>st. filter (\<lambda>d. fst d \<notin> set st) (AList.clearjunk ds)"
  have junk: "AList.clearjunk (d # ds) = (k, s) # filter (\<lambda>(k', _). k \<noteq> k') (AList.clearjunk ds)"
    using d by (simp add: AList.clearjunk_delete AList.delete_eq [symmetric])
  show ?case
  proof (cases "k \<in> set setted")
    case True
    then have "filter (\<lambda>d. fst d \<notin> set setted) (filter (\<lambda>(k', _). k \<noteq> k') (AList.clearjunk ds)) = ?kept setted"
      by (auto simp: filter_filter intro!: filter_cong)
    then show ?thesis using Cons.IH [OF _ Cons.prems(2), of setted] Cons.prems(1) d k True junk by (simp add: set_default_def)
  next
    case new: False
    show ?thesis
    proof (cases "map_of (all_rules t) k")
      case None
      then have "concat (map (default_values tx t) (filter (\<lambda>d. fst d \<notin> set setted) (filter (\<lambda>(k', _). k \<noteq> k') (AList.clearjunk ds)))) =
          concat (map (default_values tx t) (?kept setted))"
        by (intro concat_map_filter) (auto simp: default_values_def)
      moreover have "default_values tx t (k, s) = []" using None by (simp add: default_values_def)
      ultimately show ?thesis using Cons.IH [OF _ Cons.prems(2), of setted] Cons.prems(1) d k new None junk
        by (simp add: set_default_def getTranslate_chain)
    next
      case (Some r)
      then have "rule_ok (k, r)" using assms(2) by (auto simp: list_all_iff dest: map_of_SomeD)
      then obtain v where v: "getVariable tx r (Some (set_value s)) = Inr (Some v)" "rule_values tx r (set_value s) = [(dest_name r, v)]"
        by (rule rule_gives)
      obtain p1 where p1: "insertProp (dest_name r) (Some v) (Transed_Object n p c) = Inr (Transed_Object n p1 c)"
          "collected p1 (cs @ [(dest_name r, v)])"
        using insertProp_holds [OF Cons.prems(2)] by blast
      have "filter (\<lambda>d. fst d \<notin> set setted) (filter (\<lambda>(k', _). k \<noteq> k') (AList.clearjunk ds)) = ?kept (setted @ [k])"
        by (auto simp: filter_filter intro!: filter_cong)
      moreover have "default_values tx t (k, s) = [(dest_name r, v)]" using Some v by (simp add: default_values_def)
      ultimately show ?thesis using Cons.IH [OF _ p1(2), of "setted @ [k]"] Cons.prems(1) d k new Some junk v(1) p1(1)
        by (simp add: set_default_def getTranslate_chain)
    qed
  qed
qed simp

section \<open>Windows in a window\<close>

definition windows_in :: "xml_lib \<Rightarrow> translators \<Rightarrow> xml \<Rightarrow> (Translator \<times> xml) list" where
  "windows_in L ts node =
     (case node of
        Not_Element _ \<Rightarrow> []
      | Element _ _ _ \<Rightarrow>
          if is_window node
          then (case Option.bind (xmlGetProp L node ''class'') (GetTranslatorByName ts) of None \<Rightarrow> [] | Some t \<Rightarrow> [(t, node)])
          else [])"

lemma given_none [simp]: "given L t (Not_Element x) = []" "is_window node \<Longrightarrow> given L t node = []"
  by (auto simp: given_def split: xml.split)

lemma windows_in_none [simp]: "windows_in L ts (Not_Element x) = []" "\<not> is_window node \<Longrightarrow> windows_in L ts node = []"
  by (auto simp: windows_in_def split: xml.split)

lemma windows_in_window:
  "is_window node \<Longrightarrow> node = Element name as cs \<Longrightarrow> windows_in L ts node =
    (case Option.bind (xmlGetProp L node ''class'') (GetTranslatorByName ts) of None \<Rightarrow> [] | Some t \<Rightarrow> [(t, node)])"
  by (auto simp: windows_in_def)

abbreviation becomes :: "xml_lib \<Rightarrow> texts \<Rightarrow> translators \<Rightarrow> Translator \<times> xml \<Rightarrow> TransedObject \<Rightarrow> bool" where
  "becomes L tx ts w tobj \<equiv> translate L tx ts (fst w) (snd w) = Inr tobj"

lemma translate_value_holds:
  assumes "rules_ok t" "collected p K" "node = Element name as cs" "\<not> is_window node"
  shows "\<exists>p'. translate_value L tx t node (Transed_Object n p c, st) =
      Inr (Transed_Object n p' c, st @ map (source_name \<circ> fst) (given L t node)) \<and>
    collected p' (K @ concat (map (\<lambda>(r, x). rule_values tx r x) (given L t node)))"
proof (cases "map_of (all_rules t) name")
  case None
  then show ?thesis using assms by (simp add: translate_value_def given_def getTranslate_chain)
next
  case (Some r)
  then have r: "rule_ok (name, r)" using rules_ok_rules [OF assms(1)] by (auto simp: list_all_iff dest: map_of_SomeD)
  show ?thesis
  proof (cases "xhGetNodeText L node")
    case None
    then show ?thesis using assms Some by (simp add: translate_value_def given_def getTranslate_chain)
  next
    case (Some x)
    obtain v where v: "getVariable tx r (Some x) = Inr (Some v)" "rule_values tx r x = [(dest_name r, v)]"
      using r by (rule rule_gives)
    show ?thesis using insertProp_holds [OF assms(2), of "dest_name r" v n c] assms(3,4) Some \<open>map_of _ _ = Some r\<close> v
      by (auto simp: translate_value_def given_def getTranslate_chain)
  qed
qed

lemma translate_children_holds:
  assumes "rules_ok t" "\<forall>(k, t)\<in>set ts. rules_ok t" "collected p K"
    and "\<And>node t. node \<in> set cs \<Longrightarrow> rules_ok t \<Longrightarrow> \<exists>tobj. translate L tx ts t node = Inr tobj"
  shows "\<exists>p' kids. translate_children L tx ts t cs (Transed_Object n p c, st) =
      Inr (Transed_Object n p' (c @ kids), st @ map (source_name \<circ> fst) (concat (map (given L t) cs))) \<and>
    collected p' (K @ concat (map (\<lambda>(r, x). rule_values tx r x) (concat (map (given L t) cs)))) \<and>
    list_all2 (becomes L tx ts) (concat (map (windows_in L ts) cs)) kids"
  using assms(3,4)
proof (induction cs arbitrary: p c st K)
  case (Cons node cs)
  note IH = Cons.IH [OF _ Cons.prems(2), simplified]
  show ?case
  proof (cases node)
    case (Not_Element x)
    then show ?thesis using IH [OF Cons.prems(1), of c st] by simp
  next
    case el: (Element name as ns)
    show ?thesis
    proof (cases "is_window node")
      case False
      obtain p1 where p1: "translate_value L tx t node (Transed_Object n p c, st) =
            Inr (Transed_Object n p1 c, st @ map (source_name \<circ> fst) (given L t node))"
          "collected p1 (K @ concat (map (\<lambda>(r, x). rule_values tx r x) (given L t node)))"
        using translate_value_holds [OF assms(1) Cons.prems(1) el False] by blast
      show ?thesis using IH [OF p1(2), of c "st @ map (source_name \<circ> fst) (given L t node)"] el False p1(1) by (simp add: comp_def)
    next
      case win: True
      show ?thesis
      proof (cases "Option.bind (xmlGetProp L node ''class'') (GetTranslatorByName ts)")
        case None
        then show ?thesis using IH [OF Cons.prems(1), of c st] el win windows_in_window [OF win el, of L ts] by simp
      next
        case (Some t')
        then have "rules_ok t'" using assms(2) by (auto simp: bind_eq_Some_conv GetTranslatorByName_def dest: map_of_SomeD)
        then obtain o' where "translate L tx ts t' node = Inr o'" using Cons.prems(2) [of node t'] by auto
        moreover obtain p' kids where "translate_children L tx ts t cs (Transed_Object n p (c @ [o']), st) =
              Inr (Transed_Object n p' ((c @ [o']) @ kids), st @ map (source_name \<circ> fst) (concat (map (given L t) cs)))"
            "collected p' (K @ concat (map (\<lambda>(r, x). rule_values tx r x) (concat (map (given L t) cs))))"
            "list_all2 (becomes L tx ts) (concat (map (windows_in L ts) cs)) kids"
          using Cons.IH [OF Cons.prems(1), of "c @ [o']" st] Cons.prems(2) by auto
        ultimately show ?thesis using el win Some windows_in_window [OF win el, of L ts]
          by (auto simp: appendChild_def intro!: exI [of _ p'] exI [of _ "o' # kids"])
      qed
    qed
  qed
qed simp

lemma translate_holds:
  assumes "rules_ok t" "\<forall>(k, t)\<in>set ts. rules_ok t"
  shows "\<exists>p kids. translate L tx ts t node = Inr (Transed_Object (getName t) p kids) \<and>
    collected p (contributions_of L tx t (children_of node)) \<and>
    list_all2 (becomes L tx ts) (concat (map (windows_in L ts) (children_of node))) kids"
  using assms(1)
proof (induction node arbitrary: t)
  case (Element name as cs)
  have ok: "list_all setter_ok (sets t)" using Element.prems by (rule rules_ok_sets)
  let ?gs = "concat (map (given L t) cs)" and ?S = "concat (map (setter_values tx) (sets t))"
  obtain p1 where p1: "setters_loop tx (sets t) (Transed_Object (getName t) [] []) = Inr (Transed_Object (getName t) p1 [])" "collected p1 ?S"
    using setters_loop_holds [OF ok collected_Nil, of tx "getName t" "[]"] by auto
  obtain p2 kids where p2: "translate_children L tx ts t cs (Transed_Object (getName t) p1 [], []) =
        Inr (Transed_Object (getName t) p2 kids, map (source_name \<circ> fst) ?gs)"
      "collected p2 (?S @ concat (map (\<lambda>(r, x). rule_values tx r x) ?gs))"
      "list_all2 (becomes L tx ts) (concat (map (windows_in L ts) cs)) kids"
    using translate_children_holds [OF Element.prems assms(2) p1(2), of cs L tx "getName t" "[]" "[]"] Element.IH by fastforce
  obtain p3 st where p3: "setSourceDefaults tx t t (Transed_Object (getName t) p2 kids, map (source_name \<circ> fst) ?gs) =
        Inr (Transed_Object (getName t) p3 kids, st)"
      "collected p3 (contributions_of L tx t cs)"
    using defaults_loop_holds [OF rules_ok_defaults rules_ok_rules p2(2), OF Element.prems Element.prems,
        of tx "getName t" kids "map (source_name \<circ> fst) ?gs"]
    by (auto simp: setSourceDefaults_chain contributions_of_def Let_def)
  show ?case using p1(1) p2(1,3) p3 by (simp add: children_of_def)
next
  case (Not_Element x)
  have ok: "list_all setter_ok (sets t)" using Not_Element.prems by (rule rules_ok_sets)
  let ?S = "concat (map (setter_values tx) (sets t))"
  obtain p1 where p1: "setters_loop tx (sets t) (Transed_Object (getName t) [] []) = Inr (Transed_Object (getName t) p1 [])" "collected p1 ?S"
    using setters_loop_holds [OF ok collected_Nil, of tx "getName t" "[]"] by auto
  obtain p3 st where p3: "setSourceDefaults tx t t (Transed_Object (getName t) p1 [], []) = Inr (Transed_Object (getName t) p3 [], st)"
      "collected p3 (contributions_of L tx t [])"
    using defaults_loop_holds [OF rules_ok_defaults rules_ok_rules p1(2), OF Not_Element.prems Not_Element.prems,
        of tx "getName t" "[]" "[]"]
    by (auto simp: setSourceDefaults_chain contributions_of_def Let_def)
  show ?case using p1(1) p3 by (simp add: children_of_def)
qed

lemma loaded_rules_ok: "LoadTranslators L f [] = Inr (b, ts) \<Longrightarrow> \<forall>(n, t)\<in>set ts. well_typed t \<Longrightarrow> \<forall>(n, t)\<in>set ts. rules_ok t"
  using LoadTranslators_keyed [of L f b ts] by (auto simp: rules_ok_def loaded_ok_def)

lemma TranslateFile_ok:
  assumes "\<forall>(n, t)\<in>set ts. rules_ok t" shows "is_ok (TranslateFile L tx ts f)"
proof -
  have "is_ok (rbind (translate L tx ts t x) (\<lambda>tobj. Inr (Some tobj)))" if "map_of ts c = Some t" for c t x
  proof -
    have "rules_ok t" using that assms by (auto dest: map_of_SomeD)
    then show ?thesis using translate_holds [OF _ assms, of t L tx x] by auto
  qed
  then show ?thesis by (auto simp: TranslateFile_def GetTranslatorByName_def bind_eq_Some_conv split: option.splits)
qed

text \<open>A library over documents that are given, to try the definitions on.\<close>

definition tree_lib :: "(char list \<Rightarrow> xml option) \<Rightarrow> (char list \<Rightarrow> char list option) \<Rightarrow> xml_lib" where
  "tree_lib docs files = \<lparr>
     xmlParseFile = (\<lambda>f. map_option Some (docs f)),
     xmlGetProp = (\<lambda>x a. case x of Element _ as _ \<Rightarrow> map_of as a | Not_Element _ \<Rightarrow> None),
     xmlNodeListGetString = (\<lambda>xs. case xs of [Not_Element t] \<Rightarrow> Some t | _ \<Rightarrow> None),
     file_text = files\<rparr>"

definition demo_class :: xml where
  "demo_class = Element ''translator'' [(''class'', ''W'')]
     [Element ''set'' [(''name'', ''style''), (''value'', ''2''), (''type'', ''int'')] [],
      Element ''source-default'' [(''name'', ''Y''), (''value'', ''7'')] [],
      Element ''translate'' [] [Element ''source'' [(''name'', ''X'')] [], Element ''dest'' [(''name'', ''style'')] []],
      Element ''translate'' [] [Element ''source'' [(''name'', ''Y'')] [], Element ''dest'' [(''name'', ''y'')] []]]"

definition demo_window :: xml where
  "demo_window = Element ''window'' [(''class'', ''W'')]
     [Element ''X'' [] [Not_Element ''5''], Element ''window'' [(''class'', ''W'')] []]"

definition demo_lib :: xml_lib where
  "demo_lib = tree_lib [''a'' \<mapsto> demo_class] [''l'' \<mapsto> ''a'' @ [CHR 0x0A]]"

definition demo_W :: Translator where
  "demo_W = Translator_of ''W''
     [(''style'', \<lparr>set_name = ''style'', set_type = 0, set_value = ''2''\<rparr>)]
     [(''Y'', \<lparr>set_name = ''Y'', set_type = 0, set_value = ''7''\<rparr>)]
     [(''X'', \<lparr>source_name = ''X'', source_type = 0, dest_name = ''style'', dest_type = 0, enumMapper = []\<rparr>),
      (''Y'', \<lparr>source_name = ''Y'', source_type = 0, dest_name = ''y'', dest_type = 0, enumMapper = []\<rparr>)]
     None"

lemmas demo_defs = demo_lib_def tree_lib_def demo_class_def demo_window_def demo_W_def

lemma demo_loads: "LoadTranslators demo_lib ''l'' [] = Inr (True, [(''W'', demo_W)])"
proof -
  have "file_lines (''a'' @ [CHR 0x0A]) = [''a'' @ [CHR 0x0A]]"
    by (simp add: file_lines.simps numeral_eq_Suc)
  moreover have "load_line demo_lib (''a'' @ [CHR 0x0A]) [] = Inr [(''W'', demo_W)]"
    by (simp add: load_line_def c_cut_def demo_defs createFromXML_def read_rule_def xhIsNode_def Setter_createFromXML_def
        children_of_def rule_part_def read_end_def new_Translate_def name2type_def VT_INT_def)
  ultimately show ?thesis by (simp add: LoadTranslators_def demo_defs)
qed

text \<open>
  C8: With rules that were read from their files and give a value for every text, a window is
  translated without a fault: each property of the object is gathered from what the class sets, what
  the window gives and, for each name it does not give, the default of the nearest class; its
  children are the translations of the windows in it whose class is known.
\<close>

theorem translated_windows:
  assumes "LoadTranslators L list_file [] = Inr (True, ts)" "\<forall>(n, t)\<in>set ts. well_typed t"
    and "GetTranslatorByName ts cls = Some t"
  shows "\<exists>p kids. translate L tx ts t node = Inr (Transed_Object cls p kids) \<and>
    (\<forall>k. map_of p k = map_option Some (gathered k (contributions_of L tx t (children_of node)))) \<and>
    list_all2 (\<lambda>(t', node') kid. translate L tx ts t' node' = Inr kid) (concat (map (windows_in L ts) (children_of node))) kids"
proof -
  have "(cls, t) \<in> set ts" using assms(3) by (auto simp: GetTranslatorByName_def dest: map_of_SomeD)
  moreover have "loaded_ok ts" using assms(1) by (rule LoadTranslators_keyed)
  ultimately have "rules_ok t" "\<forall>(k, t)\<in>set ts. rules_ok t" "getName t = cls"
    using assms(2) by (auto simp: rules_ok_def loaded_ok_def)
  then show ?thesis using translate_holds [of t ts L tx node] by (simp add: collected_def case_prod_unfold)
qed

theorem translated_windows_witness:
  "\<exists>p kids. translate demo_lib [] [(''W'', demo_W)] demo_W demo_window = Inr (Transed_Object ''W'' p kids) \<and>
    map_of p ''style'' = Some (Some (IntVariable 7)) \<and> map_of p ''y'' = Some (Some (IntVariable 7)) \<and> length kids = 1"
proof -
  have "\<forall>(n, t)\<in>set [(''W'', demo_W)]. well_typed t"
    by (simp add: well_typed_def all_rules_def demo_W_def typed_def VT_INT_def)
  moreover have "GetTranslatorByName [(''W'', demo_W)] ''W'' = Some demo_W" by (simp add: GetTranslatorByName_def)
  ultimately obtain p kids where r: "translate demo_lib [] [(''W'', demo_W)] demo_W demo_window = Inr (Transed_Object ''W'' p kids)"
      "\<And>k. map_of p k = map_option Some (gathered k (contributions_of demo_lib [] demo_W (children_of demo_window)))"
      "length (concat (map (windows_in demo_lib [(''W'', demo_W)]) (children_of demo_window))) = length kids"
    using translated_windows [OF demo_loads, of "''W''" demo_W "[]" demo_window] list_all2_lengthD by blast
  have n: "strtol 0 ''2'' = 2" "strtol 0 ''5'' = 5" "strtol 0 ''7'' = 7" by code_simp+
  have rules: "map_of (all_rules demo_W) ''X'' = Some \<lparr>source_name = ''X'', source_type = 0, dest_name = ''style'', dest_type = 0, enumMapper = []\<rparr>"
      "map_of (all_rules demo_W) ''Y'' = Some \<lparr>source_name = ''Y'', source_type = 0, dest_name = ''y'', dest_type = 0, enumMapper = []\<rparr>"
    by (simp_all add: all_rules_def demo_W_def)
  have gs: "concat (map (given demo_lib demo_W) (children_of demo_window)) =
      [(\<lparr>source_name = ''X'', source_type = 0, dest_name = ''style'', dest_type = 0, enumMapper = []\<rparr>, ''5'')]"
    using rules by (simp add: given_def children_of_def demo_window_def is_window_def xhIsNode_def xhGetNodeText_def demo_lib_def tree_lib_def)
  have "contributions_of demo_lib [] demo_W (children_of demo_window) =
      [(''style'', IntVariable 2), (''style'', IntVariable 5), (''y'', IntVariable 7)]"
    unfolding contributions_of_def Let_def gs using rules n
    by (simp add: demo_W_def setter_values_def Setter_getVariable_def VT_INT_def VT_ENUM_def rule_values_def getVariable_def
        default_values_def all_defaults_def AList.delete_eq)
  moreover have "length (concat (map (windows_in demo_lib [(''W'', demo_W)]) (children_of demo_window))) = 1"
    by (simp add: windows_in_def children_of_def demo_window_def is_window_def xhIsNode_def GetTranslatorByName_def demo_lib_def tree_lib_def)
  ultimately show ?thesis using r by (simp add: gathered_def add_value_def Variable_combin_def)
qed

end
