(* ===== verification/Ncs_Source.thy ===== *)
theory Ncs_Source
  imports Ncs_Inherit
begin

text \<open>
  The program \<open>ncs2ics\<close> (\<open>tools/ncs2ics/main.cpp\<close>): the objects of \<open>Ncs_Translate\<close> become the C text of a dialog template,
  appended to a file, or the older form of a configuration.
\<close>

section \<open>String literals\<close>

definition esc_chars :: "char \<Rightarrow> char option" where
  "esc_chars c =
     (if c = CHR 0x0A then Some (CHR ''n'') else if c = CHR 0x0D then Some (CHR ''r'') else if c = CHR 0x09 then Some (CHR ''t'')
      else if c = CHR 0x5C then Some (CHR 0x5C) else if c = CHR 0x27 then Some (CHR 0x27) else if c = CHR 0x22 then Some (CHR 0x22)
      else if c = CHR 0x0B then Some (CHR ''v'') else if c = CHR 0x0C then Some (CHR ''f'') else if c = CHR 0x07 then Some (CHR ''a'')
      else if c = CHR 0x08 then Some (CHR ''b'') else None)"

definition sizeof_cbuf :: nat where "sizeof_cbuf = 4096"

definition MAX_LINE :: nat where "MAX_LINE = 80"

definition cbuf_put :: "char list \<Rightarrow> char list \<Rightarrow> char list res" where
  "cbuf_put cs cbuf = (if length cbuf + length cs \<le> sizeof_cbuf then Inr (cbuf @ cs) else Inl Out_Of_Bounds)"

fun c_string_loop :: "char list \<Rightarrow> char list \<Rightarrow> char list res" where
  "c_string_loop [] cbuf = Inr cbuf"
| "c_string_loop (c # cs) cbuf =
     (if c = NUL then Inr cbuf
      else (case esc_chars c of
          Some e \<Rightarrow> rbind (cbuf_put [CHR 0x5C, e] cbuf) (c_string_loop cs)
        | None \<Rightarrow> rbind (cbuf_put [c] cbuf) (\<lambda>cbuf.
            if length cbuf mod MAX_LINE = 0 then rbind (cbuf_put [CHR 0x5C, CHR 0x0A] cbuf) (c_string_loop cs)
            else c_string_loop cs cbuf)))"

text \<open>The string in \<open>cbuf\<close>, whose \<open>NUL\<close> must fit as well.\<close>

definition str_to_c_string :: "char list \<Rightarrow> char list res" where
  "str_to_c_string str = rbind (c_string_loop str []) (\<lambda>cbuf. rbind (cbuf_put [NUL] cbuf) (\<lambda>_. Inr cbuf))"

section \<open>Dialog templates\<close>

text \<open>Looking for a property puts a \<open>NULL\<close> into the map, which nobody reads afterwards.\<close>

definition get_prop :: "TransedObject \<Rightarrow> char list \<Rightarrow> variable option" where
  "get_prop tobj k = (case map_of (getProps tobj) k of Some v \<Rightarrow> v | None \<Rightarrow> None)"

definition shown_or :: "char list \<Rightarrow> variable option \<Rightarrow> char list" where
  "shown_or d v = (case v of None \<Rightarrow> d | Some v \<Rightarrow> c_cut (toString v))"

definition number :: "(char list \<Rightarrow> 32 word) \<Rightarrow> variable option \<Rightarrow> 32 word" where
  "number addr v = (case v of None \<Rightarrow> 0 | Some v \<Rightarrow> getValue addr v)"

definition caption_of :: "TransedObject \<Rightarrow> char list res" where
  "caption_of tobj = str_to_c_string (case get_prop tobj ''caption'' of None \<Rightarrow> [] | Some v \<Rightarrow> toString v)"

definition main_window :: "char list" where "main_window = ''window::MainWnd''"

definition LF :: "char list" where "LF = [CHR 0x0A]"
definition TAB :: "char list" where "TAB = [CHR 0x09]"
definition QUOTE :: "char list" where "QUOTE = [CHR 0x22]"

definition control_source :: "(char list \<Rightarrow> 32 word) \<Rightarrow> char list \<Rightarrow> TransedObject \<Rightarrow> char list res" where
  "control_source addr pfx tobj =
     rbind (caption_of tobj) (\<lambda>szbuf.
       let v = get_prop tobj; num = (\<lambda>k. fmt_d (number addr (v k))) in
       Inr (pfx @ ''{'' @ LF @
         pfx @ TAB @ QUOTE @ shown_or [] (v ''class'') @ QUOTE @ '', /* class_name */'' @ LF @
         pfx @ TAB @ shown_or [] (v ''style'') @ '', /* style */'' @ LF @
         pfx @ TAB @ num ''x'' @ '', /* x */'' @ LF @
         pfx @ TAB @ num ''y'' @ '', /* y */'' @ LF @
         pfx @ TAB @ num ''width'' @ '', /* w */'' @ LF @
         pfx @ TAB @ num ''height'' @ '', /* h */'' @ LF @
         pfx @ TAB @ fmt_d (number addr (v ''id'') AND 0xFFFF) @ '', /* id */'' @ LF @
         pfx @ TAB @ ''_('' @ QUOTE @ szbuf @ QUOTE @ ''), /* caption */'' @ LF @
         pfx @ TAB @ ''0, /* dwAddData */'' @ LF @
         pfx @ TAB @ shown_or ''0'' (v ''exstyle'') @ '', /* exstye */'' @ LF @
         pfx @ TAB @ ''NULL, /* werdr_name */'' @ LF @
         pfx @ TAB @ ''NULL /* we_attrs */'' @ LF @
         pfx @ ''},'' @ LF))"

definition template_source :: "(char list \<Rightarrow> 32 word) \<Rightarrow> char list \<Rightarrow> TransedObject \<Rightarrow> char list res" where
  "template_source addr name tobj =
     rbind (caption_of tobj) (\<lambda>szbuf.
       let v = get_prop tobj; num = (\<lambda>k. fmt_d (number addr (v k))) in
       Inr (''DLGTEMPLATE _'' @ name @ ''_templ = {'' @ LF @
         TAB @ shown_or ''0'' (v ''style'') @ '',/* style */'' @ LF @
         TAB @ shown_or ''0'' (v ''exstyle'') @ '', /* exstyle */'' @ LF @
         TAB @ num ''x'' @ '', /* x */'' @ LF @
         TAB @ num ''y'' @ '', /* y */'' @ LF @
         TAB @ num ''width'' @ '', /* w */'' @ LF @
         TAB @ num ''height'' @ '', /* h */'' @ LF @
         TAB @ ''_('' @ QUOTE @ szbuf @ QUOTE @ ''), /* caption */'' @ LF @
         TAB @ ''0, /* hIcon */'' @ LF @
         TAB @ ''0, /* hMenu */'' @ LF @
         TAB @ ''sizeof(_'' @ name @ ''_controls)/sizeof(CTRLDATA), /* controlnr */'' @ LF @
         TAB @ ''_'' @ name @ ''_controls, /* controls */'' @ LF @
         TAB @ ''0 /* dwAddData */'' @ LF @
         ''};'' @ LF))"

text \<open>The file so far is \<open>out\<close>; a dialog in a dialog would be written into the array of its parent.\<close>

fun save_one_source :: "(char list \<Rightarrow> 32 word) \<Rightarrow> char list \<Rightarrow> char list \<Rightarrow> TransedObject \<Rightarrow> char list \<Rightarrow> char list res"
  and save_children_source :: "(char list \<Rightarrow> 32 word) \<Rightarrow> char list \<Rightarrow> char list \<Rightarrow> TransedObject list \<Rightarrow> char list
    \<Rightarrow> char list res" where
  "save_one_source addr pfx name (Transed_Object n ps cs) out =
     (if c_cut n = main_window
      then rbind (push_tab pfx) (\<lambda>pfx1.
        rbind (if cs = [] then Inr out
          else rbind (push_tab pfx1) (\<lambda>pfx2.
            rbind (save_children_source addr pfx2 name cs (out @ ''static CTRLDATA _'' @ name @ ''_controls[] = {'' @ LF)) (\<lambda>out.
              Inr (out @ ''};'' @ LF)))) (\<lambda>out.
        rbind (template_source addr name (Transed_Object n ps cs)) (\<lambda>t. Inr (out @ t))))
      else rbind (control_source addr pfx (Transed_Object n ps cs)) (\<lambda>t. Inr (out @ t)))"
| "save_children_source addr pfx name [] out = Inr out"
| "save_children_source addr pfx name (c # cs) out =
     rbind (save_one_source addr pfx name c out) (save_children_source addr pfx name cs)"

text \<open>The file named on the command line, when it can be opened, and how many dialogs have their name from there.\<close>

record SAVE_SOURCE_INFO =
  ssi_can_open :: bool
  ssi_names :: "char list list"
  ssi_current :: nat
  ssi_file :: "char list"

definition save_gui_source :: "(char list \<Rightarrow> 32 word) \<Rightarrow> TransedObject option \<Rightarrow> char list \<Rightarrow> SAVE_SOURCE_INFO \<Rightarrow> SAVE_SOURCE_INFO res" where
  "save_gui_source addr tobj source_file pssi =
     (case tobj of
        None \<Rightarrow> Inr pssi
      | Some t \<Rightarrow>
          if \<not> ssi_can_open pssi then Inr pssi
          else (let (name, pssi) =
              (if ssi_current pssi \<ge> length (ssi_names pssi) then (''dlg'', pssi)
               else (ssi_names pssi ! ssi_current pssi, pssi\<lparr>ssi_current := ssi_current pssi + 1\<rparr>)) in
            rbind (save_one_source addr [] name t (ssi_file pssi)) (\<lambda>out. Inr (pssi\<lparr>ssi_file := out\<rparr>))))"

section \<open>The older form\<close>

fun save_props :: "char list \<Rightarrow> props \<Rightarrow> char list \<Rightarrow> char list res" where
  "save_props pfx [] out = Inr out"
| "save_props pfx ((k, v) # ps) out =
     (case v of
        None \<Rightarrow> Inl Null_Deref
      | Some v \<Rightarrow> save_props pfx ps (out @ pfx @ c_cut k @ '':'' @ c_cut (toString v) @ LF))"

fun save_one_obj :: "char list \<Rightarrow> TransedObject \<Rightarrow> char list \<Rightarrow> char list res"
  and save_objs :: "char list \<Rightarrow> TransedObject list \<Rightarrow> char list \<Rightarrow> char list res" where
  "save_one_obj pfx (Transed_Object n ps cs) out =
     rbind (push_tab pfx) (\<lambda>pfx1.
       rbind (save_props pfx1 ps (out @ pfx @ (if c_cut n = main_window then '':!mainwnd{'' else '':!control{'') @ LF)) (\<lambda>out.
         rbind (if cs = [] then Inr out
           else rbind (push_tab pfx1) (\<lambda>pfx2.
             rbind (save_objs pfx2 cs (out @ pfx1 @ ''constrols:!controls{'' @ LF)) (\<lambda>out.
               Inr (out @ pfx1 @ ''}'' @ LF)))) (\<lambda>out.
         Inr (out @ pfx @ ''}'' @ LF @ LF))))"
| "save_objs pfx [] out = Inr out"
| "save_objs pfx (c # cs) out = rbind (save_one_obj pfx c out) (save_objs pfx cs)"

definition save_gui_config :: "bool \<Rightarrow> TransedObject option \<Rightarrow> char list \<Rightarrow> char list res" where
  "save_gui_config opens tobj out =
     (case tobj of None \<Rightarrow> Inr out | Some t \<Rightarrow> if opens then save_one_obj [] t out else Inr out)"

section \<open>The program\<close>

definition trans_list :: "char list" where "trans_list = ''/usr/local/etc/guibuilder/tools/ncs2ics/trans.list''"

text \<open>The exit code, what it shows, and the file it appends to.\<close>

definition ncs2ics_main :: "xml_lib \<Rightarrow> (char list \<Rightarrow> 32 word) \<Rightarrow> bool \<Rightarrow> char list list \<Rightarrow> char list \<Rightarrow> (int \<times> char list \<times> char list) res" where
  "ncs2ics_main L addr opens argv old =
     (case argv of
        prog # prj_dir # args \<Rightarrow>
          rbind (LoadTranslators L trans_list []) (\<lambda>(_, ts).
            case args of
              [] \<Rightarrow> rbind (TranslateProject L [] ts prj_dir DumpTransedObj []) (\<lambda>(_, out). Inr (0, out, old))
            | dest_file # names \<Rightarrow>
                rbind (TranslateProject L [] ts prj_dir (save_gui_source addr)
                    \<lparr>ssi_can_open = opens, ssi_names = names, ssi_current = 0, ssi_file = old\<rparr>)
                  (\<lambda>(_, ssi). Inr (0, [], ssi_file ssi)))
      | _ \<Rightarrow> Inr (1, ''Usage: '' @ concat (take 1 argv) @ '' <mStudio-Project-Path> [<output-file> [<dialog-name> ... ]]'' @ LF, old))"

section \<open>Literals as a compiler reads them\<close>

text \<open>A backslash at the end of a line joins it with the next one; then the escapes are read.\<close>

fun join_lines :: "char list \<Rightarrow> char list" where
  "join_lines (a # b # cs) = (if a = CHR 0x5C \<and> b = CHR 0x0A then join_lines cs else a # join_lines (b # cs))"
| "join_lines cs = cs"

definition escape_value :: "char \<Rightarrow> char option" where
  "escape_value e =
     (if e = CHR ''n'' then Some (CHR 0x0A) else if e = CHR ''r'' then Some (CHR 0x0D) else if e = CHR ''t'' then Some (CHR 0x09)
      else if e = CHR ''v'' then Some (CHR 0x0B) else if e = CHR ''f'' then Some (CHR 0x0C) else if e = CHR ''a'' then Some (CHR 0x07)
      else if e = CHR ''b'' then Some (CHR 0x08) else if e \<in> {CHR 0x5C, CHR 0x27, CHR 0x22} then Some e else None)"

fun c_unescape :: "char list \<Rightarrow> char list option" where
  "c_unescape [] = Some []"
| "c_unescape (c # cs) =
     (if c = CHR 0x5C
      then (case cs of
          [] \<Rightarrow> None
        | e # cs' \<Rightarrow> (case escape_value e of None \<Rightarrow> None | Some v \<Rightarrow> map_option (Cons v) (c_unescape cs')))
      else if c = CHR 0x22 \<or> c = CHR 0x0A then None else map_option (Cons c) (c_unescape cs))"

definition c_literal :: "char list \<Rightarrow> char list option" where
  "c_literal t = c_unescape (join_lines t)"

lemma join_lines_Cons: "a \<noteq> CHR 0x5C \<or> cs = [] \<or> hd cs \<noteq> CHR 0x0A \<Longrightarrow> join_lines (a # cs) = a # join_lines cs"
  by (cases cs) auto

lemma esc_chars_value:
  "esc_chars c = Some e \<Longrightarrow> escape_value e = Some c \<and> e \<noteq> CHR 0x0A"
  "esc_chars c = None \<Longrightarrow> c \<noteq> CHR 0x5C \<and> c \<noteq> CHR 0x22 \<and> c \<noteq> CHR 0x0A"
  by (auto simp: esc_chars_def escape_value_def split: if_splits)

lemma c_string_loop_reads:
  assumes "NUL \<notin> set cs" "c_string_loop cs b = Inr r"
  shows "\<exists>u. r = b @ u \<and> (u = [] \<or> hd u \<noteq> CHR 0x0A) \<and> c_unescape (join_lines u) = Some cs"
  using assms
proof (induction cs arbitrary: b)
  case (Cons c cs)
  then have c: "c \<noteq> NUL" and cs: "NUL \<notin> set cs" by auto
  show ?case
  proof (cases "esc_chars c")
    case (Some e)
    then have "c_string_loop cs (b @ [CHR 0x5C, e]) = Inr r" using Cons.prems(2) c
      by (auto simp: cbuf_put_def split: if_splits)
    from Cons.IH [OF cs this] obtain u where u: "r = (b @ [CHR 0x5C, e]) @ u" "u = [] \<or> hd u \<noteq> CHR 0x0A"
        "c_unescape (join_lines u) = Some cs" by blast
    then show ?thesis using esc_chars_value(1) [OF Some]
      by (intro exI [of _ "CHR 0x5C # e # u"]) (auto simp: join_lines_Cons)
  next
    case None
    note plain = esc_chars_value(2) [OF None]
    show ?thesis
    proof (cases "(length b + 1) mod MAX_LINE = 0")
      case True
      then have "c_string_loop cs (b @ [c, CHR 0x5C, CHR 0x0A]) = Inr r" using Cons.prems(2) c None
        by (auto simp: cbuf_put_def split: if_splits)
      from Cons.IH [OF cs this] obtain u where u: "r = (b @ [c, CHR 0x5C, CHR 0x0A]) @ u" "c_unescape (join_lines u) = Some cs" by blast
      then show ?thesis using plain by (intro exI [of _ "c # CHR 0x5C # CHR 0x0A # u"]) (auto simp: join_lines_Cons)
    next
      case False
      then have "c_string_loop cs (b @ [c]) = Inr r" using Cons.prems(2) c None
        by (auto simp: cbuf_put_def split: if_splits)
      from Cons.IH [OF cs this] obtain u where u: "r = (b @ [c]) @ u" "c_unescape (join_lines u) = Some cs" by blast
      then show ?thesis using plain by (intro exI [of _ "c # u"]) (auto simp: join_lines_Cons)
    qed
  qed
qed auto

text \<open>
  Two bytes for each character are enough: before a line is broken, an even number of characters was copied as it is.
\<close>

lemma c_string_loop_fits:
  assumes "B + 2 * length cs \<le> sizeof_cbuf" "length b \<le> B" "even B"
  shows "\<exists>r. c_string_loop cs b = Inr r \<and> length r \<le> B + 2 * length cs"
  using assms
proof (induction cs arbitrary: b B)
  case (Cons c cs)
  have next_B: "B + 2 + 2 * length cs \<le> sizeof_cbuf" "even (B + 2)" using Cons.prems by auto
  show ?case
  proof (cases "c = NUL")
    case nul: False
    show ?thesis
    proof (cases "esc_chars c")
      case (Some e)
      then show ?thesis using Cons.IH [OF next_B(1) _ next_B(2), of "b @ [CHR 0x5C, e]"] Cons.prems nul
        by (simp add: cbuf_put_def)
    next
      case None
      show ?thesis
      proof (cases "(length b + 1) mod MAX_LINE = 0")
        case True
        then have "odd (length b)" unfolding MAX_LINE_def by presburger
        then have "length b + 1 \<le> B" using Cons.prems by (metis Suc_eq_plus1 Suc_leI le_neq_implies_less)
        then show ?thesis using Cons.IH [OF next_B(1) _ next_B(2), of "b @ [c, CHR 0x5C, CHR 0x0A]"] Cons.prems nul None True
          by (simp add: cbuf_put_def)
      next
        case False
        then show ?thesis using Cons.IH [OF next_B(1) _ next_B(2), of "b @ [c]"] Cons.prems nul None
          by (simp add: cbuf_put_def)
      qed
    qed
  qed (use Cons.prems in auto)
qed auto

lemma str_to_c_string_fits: "length s \<le> 2047 \<Longrightarrow> \<exists>t. str_to_c_string s = Inr t"
  using c_string_loop_fits [of 0 s "[]"] by (auto simp: str_to_c_string_def cbuf_put_def sizeof_cbuf_def)

lemma c_string_loop_length: "NUL \<notin> set cs \<Longrightarrow> c_string_loop cs b = Inr r \<Longrightarrow> length b + length cs \<le> length r"
proof (induction cs arbitrary: b)
  case (Cons c cs)
  then show ?case using Cons.IH by (fastforce simp: rbind_eq_Inr cbuf_put_def split: if_splits option.splits)
qed simp

lemma c_string_loop_fault: "c_string_loop cs b = Inl f \<Longrightarrow> f = Out_Of_Bounds"
  by (induction cs b rule: c_string_loop.induct)
    (auto simp: rbind_eq_Inl cbuf_put_def split: if_splits option.splits)

text \<open>
  C10: A caption of at most 2047 characters becomes a literal without a fault, one of 4096 and more
  overflows the buffer, and whatever literal is made is read by a compiler, with its broken lines
  joined, as the caption.
\<close>

theorem caption_literal:
  assumes "NUL \<notin> set s"
  shows "(length s \<le> 2047 \<longrightarrow> is_ok (str_to_c_string s)) \<and>
    (\<forall>t. str_to_c_string s = Inr t \<longrightarrow> c_literal t = Some s) \<and>
    (4096 \<le> length s \<longrightarrow> str_to_c_string s = Inl Out_Of_Bounds)"
proof (intro conjI impI allI)
  assume "length s \<le> 2047"
  then show "is_ok (str_to_c_string s)" using str_to_c_string_fits by force
next
  fix t assume "str_to_c_string s = Inr t"
  then have "c_string_loop s [] = Inr t" by (auto simp: str_to_c_string_def rbind_eq_Inr)
  then show "c_literal t = Some s" using c_string_loop_reads [OF assms] by (fastforce simp: c_literal_def)
next
  assume long: "4096 \<le> length s"
  show "str_to_c_string s = Inl Out_Of_Bounds"
  proof (cases "c_string_loop s []")
    case (Inr r)
    then have "4096 \<le> length r" using c_string_loop_length [OF assms Inr] long by simp
    then show ?thesis using Inr by (simp add: str_to_c_string_def cbuf_put_def sizeof_cbuf_def)
  qed (auto simp: str_to_c_string_def dest: c_string_loop_fault)
qed

theorem caption_literal_witness:
  "\<exists>t. str_to_c_string (''say '' @ [CHR 0x22, CHR 0x0A]) = Inr t \<and> c_literal t = Some (''say '' @ [CHR 0x22, CHR 0x0A])"
  using caption_literal [of "''say '' @ [CHR 0x22, CHR 0x0A]"] by (auto elim!: is_okE)

section \<open>The file that is written\<close>

definition caption_text :: "TransedObject \<Rightarrow> char list" where
  "caption_text tobj = (case get_prop tobj ''caption'' of None \<Rightarrow> [] | Some v \<Rightarrow> toString v)"

definition is_main :: "TransedObject \<Rightarrow> bool" where
  "is_main tobj \<longleftrightarrow> c_cut (obj_name tobj) = main_window"

text \<open>Captions that fit into their buffer, and no dialog in a dialog.\<close>

definition printable :: "TransedObject \<Rightarrow> bool" where
  "printable tobj \<longleftrightarrow> length (caption_text tobj) \<le> 2047 \<and>
     (is_main tobj \<longrightarrow> list_all (\<lambda>c. \<not> is_main c \<and> length (caption_text c) \<le> 2047) (getChildren tobj))"

definition text_of :: "char list res \<Rightarrow> char list" where
  "text_of r = (case r of Inl _ \<Rightarrow> [] | Inr t \<Rightarrow> t)"

text \<open>A dialog: the array of its controls, if it has any, and its template. Any other window is one entry of an array.\<close>

definition dialog_text :: "(char list \<Rightarrow> 32 word) \<Rightarrow> char list \<Rightarrow> TransedObject \<Rightarrow> char list" where
  "dialog_text addr name tobj =
     (if is_main tobj
      then (if getChildren tobj = [] then []
        else ''static CTRLDATA _'' @ name @ ''_controls[] = {'' @ LF @
          concat (map (\<lambda>c. text_of (control_source addr (TAB @ TAB) c)) (getChildren tobj)) @ ''};'' @ LF) @
        text_of (template_source addr name tobj)
      else text_of (control_source addr [] tobj))"

lemma caption_fits: "length (caption_text tobj) \<le> 2047 \<Longrightarrow> \<exists>t. caption_of tobj = Inr t"
  using str_to_c_string_fits by (simp add: caption_of_def caption_text_def)

lemma control_source_fits:
  "length (caption_text tobj) \<le> 2047 \<Longrightarrow> rbind (control_source addr pfx tobj) k = k (text_of (control_source addr pfx tobj))"
  using caption_fits [of tobj] by (auto simp: control_source_def text_of_def Let_def)

lemma template_source_fits:
  "length (caption_text tobj) \<le> 2047 \<Longrightarrow> rbind (template_source addr name tobj) k = k (text_of (template_source addr name tobj))"
  using caption_fits [of tobj] by (auto simp: template_source_def text_of_def Let_def)

lemma save_controls:
  "list_all (\<lambda>c. \<not> is_main c \<and> length (caption_text c) \<le> 2047) cs \<Longrightarrow>
    save_children_source addr pfx name cs out = Inr (out @ concat (map (\<lambda>c. text_of (control_source addr pfx c)) cs))"
proof (induction cs arbitrary: out)
  case (Cons c cs)
  obtain n p ks where c: "c = Transed_Object n p ks" by (cases c)
  then have "c_cut n \<noteq> main_window" "length (caption_text c) \<le> 2047" using Cons.prems by (auto simp: is_main_def)
  then have "save_one_source addr pfx name c out = Inr (out @ text_of (control_source addr pfx c))"
    using c by (simp add: control_source_fits)
  then show ?case using Cons by simp
qed simp

lemma save_one_source_text:
  assumes "printable tobj"
  shows "save_one_source addr [] name tobj out = Inr (out @ dialog_text addr name tobj)"
proof -
  obtain n p cs where t: "tobj = Transed_Object n p cs" by (cases tobj)
  have cap: "length (caption_text tobj) \<le> 2047" using assms by (simp add: printable_def)
  show ?thesis
  proof (cases "is_main tobj")
    case False
    then show ?thesis using cap t by (simp add: dialog_text_def is_main_def control_source_fits)
  next
    case True
    then have kids: "list_all (\<lambda>c. \<not> is_main c \<and> length (caption_text c) \<le> 2047) cs" using assms t by (simp add: printable_def)
    have tabs: "push_tab [] = Inr TAB" "push_tab TAB = Inr (TAB @ TAB)" by (simp_all add: push_tab_def into_buffer_def TAB_def)
    show ?thesis using True t tabs save_controls [OF kids, of addr "TAB @ TAB" name] cap
      by (simp add: dialog_text_def is_main_def template_source_fits)
  qed
qed

section \<open>A project\<close>

text \<open>The windows of a project: the sources of its list of ids that are XML, in their order, as far as they can be translated.\<close>

definition xml_sources :: "xml_lib \<Rightarrow> xml \<Rightarrow> char list list" where
  "xml_sources L root = concat (map (\<lambda>node.
     if xhIsNode node ''res-id''
     then (case xhGetChildText L node ''source'' of Some s \<Rightarrow> if contains s ''.xml'' then [s] else [] | None \<Rightarrow> [])
     else []) (children_of root))"

definition translated :: "xml_lib \<Rightarrow> texts \<Rightarrow> translators \<Rightarrow> char list \<Rightarrow> char list \<Rightarrow> TransedObject list" where
  "translated L tx ts dir source =
     (case TranslateFile L tx ts (dir @ ''/'' @ source) of Inr (Some tobj) \<Rightarrow> [tobj] | _ \<Rightarrow> [])"

definition name_at :: "char list list \<Rightarrow> nat \<Rightarrow> char list" where
  "name_at names i = (if i < length names then names ! i else ''dlg'')"

definition dialogs_text :: "(char list \<Rightarrow> 32 word) \<Rightarrow> char list list \<Rightarrow> nat \<Rightarrow> TransedObject list \<Rightarrow> char list" where
  "dialogs_text addr names k ws = concat (map (\<lambda>(i, w). dialog_text addr (name_at names i) w) (enumerate k ws))"

lemma save_gui_source_text:
  assumes "printable w" "ssi_can_open i" "ssi_current i = min k (length names)" "ssi_names i = names"
  shows "\<exists>i'. save_gui_source addr (Some w) src i = Inr i' \<and> ssi_can_open i' \<and> ssi_current i' = min (Suc k) (length names) \<and>
    ssi_names i' = names \<and> ssi_file i' = ssi_file i @ dialog_text addr (name_at names k) w"
  using assms save_one_source_text [OF assms(1)]
  by (auto simp: save_gui_source_def Let_def name_at_def min_def not_le)

lemma project_loop_text:
  assumes "\<And>s. s \<in> set (xml_sources L (Element r as nodes)) \<Longrightarrow> length dir + length s \<le> 1022 \<and>
      is_ok (TranslateFile L tx ts (dir @ ''/'' @ s)) \<and> list_all printable (translated L tx ts dir s)"
    and "ssi_can_open i" "ssi_current i = min k (length names)" "ssi_names i = names"
  shows "\<exists>i'. project_loop L tx ts dir (save_gui_source addr) nodes i = Inr i' \<and>
    ssi_file i' = ssi_file i @ dialogs_text addr names k (concat (map (translated L tx ts dir) (xml_sources L (Element r as nodes))))"
  using assms
proof (induction nodes arbitrary: i k)
  case Nil
  then show ?case by (simp add: xml_sources_def children_of_def dialogs_text_def)
next
  case (Cons node nodes)
  let ?S = "\<lambda>ns. xml_sources L (Element r as ns)"
  have split: "?S (node # nodes) = ?S [node] @ ?S nodes" by (simp add: xml_sources_def children_of_def)
  note IH = Cons.IH [OF Cons.prems(1)]
  show ?case
  proof (cases "?S [node]")
    case Nil
    then have "project_node L tx ts dir (save_gui_source addr) node i = Inr i"
      by (auto simp: xml_sources_def children_of_def project_node_def split: if_splits option.splits)
    then show ?thesis using IH [OF _ Cons.prems(2-4)] split Nil by simp
  next
    case (Cons s more)
    then have s: "xhIsNode node ''res-id''" "xhGetChildText L node ''source'' = Some s" "contains s ''.xml''" "more = []"
      by (auto simp: xml_sources_def children_of_def split: if_splits option.splits)
    have ok: "length dir + length s \<le> 1022" "is_ok (TranslateFile L tx ts (dir @ ''/'' @ s))" "list_all printable (translated L tx ts dir s)"
      using Cons.prems(1) [of s] split Cons by auto
    obtain w where w: "TranslateFile L tx ts (dir @ ''/'' @ s) = Inr w" using ok(2) by (rule is_okE)
    have node: "project_node L tx ts dir (save_gui_source addr) node i = save_gui_source addr w s i"
      using s ok(1) w by (simp add: project_node_def into_buffer_def)
    show ?thesis
    proof (cases w)
      case None
      then have "translated L tx ts dir s = []" "save_gui_source addr w s i = Inr i"
        using w by (simp_all add: translated_def save_gui_source_def)
      then show ?thesis using IH [OF _ Cons.prems(2-4)] node split Cons s(4) by simp
    next
      case (Some o')
      then have t: "translated L tx ts dir s = [o']" using w by (simp add: translated_def)
      obtain i1 where i1: "save_gui_source addr (Some o') s i = Inr i1" "ssi_can_open i1" "ssi_current i1 = min (Suc k) (length names)"
          "ssi_names i1 = names" "ssi_file i1 = ssi_file i @ dialog_text addr (name_at names k) o'"
        using save_gui_source_text [OF _ Cons.prems(2-4)] ok(3) t by fastforce
      then show ?thesis using IH [OF _ i1(2-4)] node split Cons s(4) t Some
        by (auto simp: dialogs_text_def)
    qed
  qed
qed

text \<open>
  C9: When the captions fit and no dialog is in a dialog, the program appends to its file one dialog
  for every window of the project that can be translated, in the order of the list of ids; the
  dialogs have the names of the command line in turn, and then the name dlg.
\<close>

theorem ncs2ics_writes_dialogs:
  assumes "LoadTranslators L trans_list [] = Inr (b, ts)" "\<forall>(n, t)\<in>set ts. well_typed t"
    and "LoadTextSource L (dir @ ''/res/text'') [] = Inr (b', tx)" "length dir \<le> 1009"
    and "xmlParseFile L (dir @ ''/res/ui/id.xml'') = Some (Some root)"
    and "\<forall>s\<in>set (xml_sources L root). length dir + length s \<le> 1022 \<and> list_all printable (translated L tx ts dir s)"
  shows "ncs2ics_main L addr True (prog # dir # dest # names) old =
    Inr (0, [], old @ dialogs_text addr names 0 (concat (map (translated L tx ts dir) (xml_sources L root))))"
proof -
  have root: "xml_sources L root = xml_sources L (Element [] [] (children_of root))" by (simp add: xml_sources_def children_of_def)
  have ok: "is_ok (TranslateFile L tx ts f)" for f using TranslateFile_ok [OF loaded_rules_ok [OF assms(1,2)]] .
  obtain i where i: "project_loop L tx ts dir (save_gui_source addr) (children_of root)
        \<lparr>ssi_can_open = True, ssi_names = names, ssi_current = 0, ssi_file = old\<rparr> = Inr i"
      "ssi_file i = old @ dialogs_text addr names 0 (concat (map (translated L tx ts dir) (xml_sources L root)))"
    using project_loop_text [of L "[]" "[]" "children_of root" dir tx ts
        "\<lparr>ssi_can_open = True, ssi_names = names, ssi_current = 0, ssi_file = old\<rparr>" 0 names addr] assms(6) ok root by auto
  then show ?thesis using assms(1,3,4,5) by (simp add: ncs2ics_main_def TranslateProject_def into_buffer_def)
qed

definition demo_project :: xml_lib where
  "demo_project = tree_lib
     [''a'' \<mapsto> Element ''translator'' [(''class'', ''window::MainWnd'')] [],
      ''p/res/ui/id.xml'' \<mapsto> Element ''ui-id'' [] [Element ''res-id'' [] [Element ''source'' [] [Not_Element ''w.xml'']]],
      ''p/w.xml'' \<mapsto> Element ''window'' [(''class'', ''window::MainWnd'')] []]
     [trans_list \<mapsto> ''a'' @ [CHR 0x0A]]"

theorem ncs2ics_writes_dialogs_witness:
  "ncs2ics_main demo_project (\<lambda>_. 0) True [''ncs2ics'', ''p'', ''o.c'', ''main''] ''x'' =
    Inr (0, [], ''x'' @ dialog_text (\<lambda>_. 0) ''main'' (Transed_Object main_window [] []))"
proof -
  let ?t = "Translator_of ''window::MainWnd'' [] [] [] None"
  have "file_lines (''a'' @ [CHR 0x0A]) = [''a'' @ [CHR 0x0A]]" by (simp add: file_lines.simps numeral_eq_Suc)
  moreover have "load_line demo_project (''a'' @ [CHR 0x0A]) [] = Inr [(''window::MainWnd'', ?t)]"
    by (simp add: load_line_def c_cut_def demo_project_def tree_lib_def createFromXML_def children_of_def)
  ultimately have 1: "LoadTranslators demo_project trans_list [] = Inr (True, [(''window::MainWnd'', ?t)])"
    by (simp add: LoadTranslators_def demo_project_def tree_lib_def)
  have 2: "\<forall>(n, t)\<in>set [(''window::MainWnd'', ?t)]. well_typed t" by (simp add: well_typed_def all_rules_def)
  have 3: "LoadTextSource demo_project (''p'' @ ''/res/text'') [] = Inr (False, [])"
    by (simp add: LoadTextSource_def getTextFile_def into_buffer_def demo_project_def tree_lib_def trans_list_def)
  have 4: "xmlParseFile demo_project (''p'' @ ''/res/ui/id.xml'') =
      Some (Some (Element ''ui-id'' [] [Element ''res-id'' [] [Element ''source'' [] [Not_Element ''w.xml'']]]))" (is "_ = Some (Some ?r)")
    by (simp add: demo_project_def tree_lib_def)
  have 5: "xml_sources demo_project ?r = [''w.xml'']"
    by (simp add: xml_sources_def children_of_def xhIsNode_def xhGetChildText_def xhGetChild_def xhGetNodeText_def demo_project_def tree_lib_def)
  have 6: "translated demo_project [] [(''window::MainWnd'', ?t)] ''p'' ''w.xml'' = [Transed_Object main_window [] []]"
    by (simp add: translated_def TranslateFile_def demo_project_def tree_lib_def GetTranslatorByName_def main_window_def)
  show ?thesis using ncs2ics_writes_dialogs [OF 1 2 3 _ 4, of "\<lambda>_. 0" "''ncs2ics''" "''o.c''" "[''main'']" "''x''"] 5 6
    by (simp add: printable_def caption_text_def get_prop_def dialogs_text_def name_at_def)
qed

end
