(* ===== verification/Text_Roundtrip.thy ===== *)
theory Text_Roundtrip
  imports Text_Files
begin

text \<open>
  What \<open>TeNode::saveText\<close> writes and \<open>TeNode::readText\<close> reads (\<open>texteditor/texteditor.cpp\<close>): the texts come back when no
  line of a text ends where it must not, and the lemmas at the end show what becomes of the others.
\<close>

section \<open>Numbers\<close>

lemma digit_num_hex: "n < 16 \<Longrightarrow> digit_num (hex_upper n) = n"
  by (auto simp: digit_num_def hex_upper_def Let_def)

lemma int_of_char: "(of_char c :: int) = int (of_char c)"
  by (rule of_nat_of_char [symmetric])

lemma isNumber_hex: "n < 16 \<Longrightarrow> isNumber (of_char (hex_upper n))"
  by (simp only: isNumber_def int_of_char hex_upper_def) auto

lemma number_of_fmt_08X: "number_of 16 (fmt_08X w) = nat (uint w)"
proof -
  define n where "n = nat (uint w)"
  have n: "n < 16 ^ 8" using unsigned_less [of w, where 'a = nat] by (simp add: n_def)
  have "nat (x div 16 ^ k mod 16) = nat x div 16 ^ k mod 16" if "0 \<le> x" for x :: int and k
    using that by (simp add: nat_mod_distrib nat_div_distrib nat_power_eq pos_imp_zdiv_nonneg_iff)
  then have d: "nat (uint w div 16 ^ k mod 16) = n div 16 ^ k mod 16" for k unfolding n_def by simp
  have fmt: "fmt_08X w = map (\<lambda>k. hex_upper (n div 16 ^ k mod 16)) [7, 6, 5, 4, 3, 2, 1, 0]"
    by (simp only: fmt_08X_def d)
  have all: "takeWhile (\<lambda>c. digit_num c < 16) (fmt_08X w) = fmt_08X w"
    unfolding takeWhile_eq_all_conv fmt by (simp add: digit_num_hex)
  define a b c e f g h where "a = n div 16" and "b = a div 16" and "c = b div 16" and "e = c div 16" and "f = e div 16"
    and "g = f div 16" and "h = g div 16"
  note defs = a_def b_def c_def e_def f_def g_def h_def
  have p: "n div 16 ^ 0 = n" "n div 16 ^ 1 = a" "n div 16 ^ 2 = b" "n div 16 ^ 3 = c" "n div 16 ^ 4 = e" "n div 16 ^ 5 = f"
    "n div 16 ^ 6 = g" "n div 16 ^ 7 = h"
    by (simp_all add: defs div_mult2_eq [symmetric])
  have h: "h mod 16 = h" using n by (simp add: defs div_mult2_eq [symmetric])
  have "n = n mod 16 + 16 * a" "a = a mod 16 + 16 * b" "b = b mod 16 + 16 * c" "c = c mod 16 + 16 * e"
    "e = e mod 16 + 16 * f" "f = f mod 16 + 16 * g" "g = g mod 16 + 16 * h"
    by (simp_all add: defs)
  moreover have "number_of 16 (fmt_08X w) =
    (((((((h mod 16) * 16 + g mod 16) * 16 + f mod 16) * 16 + e mod 16) * 16 + c mod 16) * 16 + b mod 16) * 16 + a mod 16) * 16 + n mod 16"
    unfolding number_of_def all by (simp only: fmt list.map p foldl_Cons foldl_Nil) (simp add: digit_num_hex)
  moreover have "x = n" if "n = n0 + 16 * a" "a = a0 + 16 * b" "b = b0 + 16 * c" "c = c0 + 16 * e" "e = e0 + 16 * f" "f = f0 + 16 * g"
    "g = g0 + 16 * h" "x = ((((((h * 16 + g0) * 16 + f0) * 16 + e0) * 16 + c0) * 16 + b0) * 16 + a0) * 16 + n0"
    for x n n0 a a0 b b0 c c0 e e0 f f0 g g0 h :: nat
    unfolding that by (simp add: algebra_simps)
  ultimately show ?thesis unfolding n_def [symmetric] h by blast
qed

section \<open>Reading a number\<close>

abbreviation reading :: "char list \<Rightarrow> cfile" where "reading cs \<equiv> \<lparr>ahead = cs, at_eof = False\<rparr>"

lemma fgetc_reading [simp]: "fgetc_int (reading (c # cs)) = (of_char c, reading cs)"
  by (simp add: fgetc_int_def)

lemma scan_number_digits:
  assumes "\<not> isNumber (of_char c)"
  shows "length s + length ds < sizeof_szNumber \<Longrightarrow> \<forall>d\<in>set ds. isNumber (of_char d) \<Longrightarrow>
    scan_number isNumber s ch (reading (ds @ c # cs)) = Inr (s @ ds, Some (of_char c), reading cs)"
proof (induction ds arbitrary: s ch)
  case Nil
  then show ?case using assms by (subst scan_number.simps) simp
next
  case (Cons d ds)
  have "of_char d \<noteq> (-1 :: int)" by (simp add: of_char_def)
  then show ?case using Cons.IH [of "s @ [d]" "Some (of_char d)"] Cons.prems by (subst scan_number.simps) simp
qed

lemma getId_entry:
  assumes "0 < i" "i < 2 ^ 31"
  shows "getId (reading (''0x'' @ fmt_08X (word_of_int i) @ CHR 0x09 # cs)) = Inr (i, reading cs)"
proof -
  let ?h = "fmt_08X (word_of_int i)"
  have digits: "\<forall>d\<in>set ?h. isNumber (of_char d)" by (auto simp: fmt_08X_def intro!: isNumber_hex)
  have "uint (word_of_int i :: 32 word) = i" using assms by (simp add: uint_word_of_int)
  then have "strtol 0 (''0x'' @ ?h) = i"
    using assms number_of_fmt_08X [of "word_of_int i"]
    by (simp add: strtol_def strto_magnitude_def hex_prefix_def scan_sign_def c_isspace_def clamp_long_def)
  moreover have "to_int i = i"
  proof -
    have "signed_take_bit 31 i = i" using assms by (intro signed_take_bit_int_eq_self) simp_all
    then show ?thesis by (simp add: to_int_def signed_of_int)
  qed
  moreover have "scan_number isNumber [] None (reading ((''0x'' @ ?h) @ CHR 0x09 # cs)) = Inr (''0x'' @ ?h, Some 9, reading cs)"
    using scan_number_digits [of "CHR 0x09" "[]" "''0x'' @ ?h" None cs] digits
    by (auto simp: isNumber_def sizeof_szNumber_def fmt_08X_def)
  ultimately show ?thesis by (simp add: getId_def)
qed

section \<open>Reading a string\<close>

text \<open>The loop that has just read the first of \<open>cs\<close>.\<close>

definition read_on :: "char list \<Rightarrow> char list \<Rightarrow> char list \<Rightarrow> (char list \<times> cfile) res" where
  "read_on b s cs = getString_loop 34 b s (of_char (hd cs)) (reading (tl cs))"

definition fits :: "char list \<Rightarrow> bool" where "fits b \<longleftrightarrow> NUL \<notin> set b \<and> length b < sizeof_szBuff - 32"

lemma store_char_text:
  assumes "fits b" "c \<noteq> NUL"
  obtains b' s' where "store_char (of_char c) b s = (b', s')" "fits b'" "s' @ b' = s @ b @ [c]"
  using assms c_cut_id [of "b @ [c]"] that
  by (cases "length (b @ [c]) \<ge> sizeof_szBuff - 32") (auto simp: store_char_def fits_def Let_def sizeof_szBuff_def)

lemma of_char_eq [simp]: "(of_char c :: int) = of_char d \<longleftrightarrow> c = d"
  by (metis char_of_char)

lemma of_char_34 [simp]: "(of_char c :: int) = 34 \<longleftrightarrow> c = CHR 0x22"
  using of_char_eq [of c "CHR 0x22"] by (simp del: of_char_eq)

lemma of_char_92 [simp]: "(of_char c :: int) = 92 \<longleftrightarrow> c = CHR 0x5C"
  using of_char_eq [of c "CHR 0x5C"] by (simp del: of_char_eq)

lemma read_on_plain:
  assumes "fits b" "c \<noteq> NUL" "c \<noteq> CHR 0x5C" "c \<noteq> CHR 0x22"
  shows "\<exists>b' s'. read_on b s (c # d # cs) = read_on b' s' (d # cs) \<and> fits b' \<and> s' @ b' = s @ b @ [c]"
proof -
  obtain b' s' where st: "store_char (of_char c) b s = (b', s')" "fits b'" "s' @ b' = s @ b @ [c]"
    using store_char_text [OF assms(1,2)] by metis
  then have "read_on b s (c # d # cs) = read_on b' s' (d # cs)"
    using assms(3,4) by (simp add: read_on_def getString_loop.simps [of 34 b s])
  then show ?thesis using st by blast
qed

lemma read_on_stored:
  assumes "fits b" "c \<noteq> NUL" "read_escape 34 (reading es) = Inr (Store (of_char c), reading (d # cs))"
  shows "\<exists>b' s'. read_on b s (CHR 0x5C # es) = read_on b' s' (d # cs) \<and> fits b' \<and> s' @ b' = s @ b @ [c]"
proof -
  obtain b' s' where st: "store_char (of_char c) b s = (b', s')" "fits b'" "s' @ b' = s @ b @ [c]"
    using store_char_text [OF assms(1,2)] by metis
  then have "read_on b s (CHR 0x5C # es) = read_on b' s' (d # cs)"
    using assms(3) by (simp add: read_on_def getString_loop.simps [of 34 b s])
  then show ?thesis using st by blast
qed

lemma read_on_char:
  assumes "fits b" "c \<noteq> NUL" "c \<noteq> CHR 0x5C"
  shows "\<exists>b' s'. read_on b s (escape_char c @ d # cs) = read_on b' s' (d # cs) \<and> fits b' \<and> s' @ b' = s @ b @ [c]"
proof -
  have "read_escape 34 (reading (CHR 0x22 # d # cs)) = Inr (Store (of_char (CHR 0x22)), reading (d # cs))"
    "read_escape 34 (reading (CHR ''t'' # d # cs)) = Inr (Store (of_char (CHR 0x09)), reading (d # cs))"
    "read_escape 34 (reading (CHR ''n'' # d # cs)) = Inr (Store (of_char (CHR 0x0A)), reading (d # cs))"
    by (simp_all add: read_escape_def)
  note esc = this [THEN read_on_stored [OF assms(1), rotated]]
  show ?thesis using esc read_on_plain [OF assms] by (auto simp: escape_char_def)
qed

text \<open>After a line that was broken the next character is taken as it is.\<close>

lemma read_on_broken:
  assumes "fits b" "c \<noteq> NUL" "c \<noteq> CHR 0x22"
  shows "\<exists>b' s'. read_on b s (CHR 0x5C # CHR 0x0A # c # d # cs) = read_on b' s' (d # cs) \<and> fits b' \<and> s' @ b' = s @ b @ [c]"
  by (rule read_on_stored [OF assms(1,2)]) (use assms(3) in \<open>simp add: read_escape_def\<close>)

lemma read_on_end:
  assumes "fits b"
  shows "read_on b s (CHR 0x22 # CHR 0x0A # cs) = Inr (s @ b, reading cs)"
proof -
  have "nextLine (reading (CHR 0x0A # cs)) = reading cs" by (subst nextLine.simps) simp
  then show ?thesis using assms c_cut_id [of b]
    by (simp add: read_on_def getString_loop.simps [of 34 b s] end_string_def toLineEnd_def fits_def)
qed

section \<open>Texts that come back\<close>

text \<open>
  \<open>breaks_well n s\<close>: behind \<open>n\<close> characters of a line the text has no backslash, no line is broken right before an
  escaped character, and the last one is not broken at its end.
\<close>

fun breaks_well :: "nat \<Rightarrow> char list \<Rightarrow> bool" where
  "breaks_well n [] \<longleftrightarrow> n \<noteq> 0"
| "breaks_well n (c # cs) \<longleftrightarrow> c \<noteq> NUL \<and> c \<noteq> CHR 0x5C \<and> (n = 0 \<longrightarrow> escape_char c = [c]) \<and>
     (let k = n + length (escape_char c) in if k \<ge> 80 then breaks_well 0 cs else breaks_well k cs)"

lemma text_lines_nonempty: "n \<noteq> 0 \<Longrightarrow> \<exists>d ds. text_lines n s = d # ds"
  by (cases s) (auto simp: escape_char_def)

lemma escape_char_plain: "escape_char c = [c] \<Longrightarrow> c \<noteq> CHR 0x22"
  by (auto simp: escape_char_def)

lemma read_text_lines:
  "breaks_well n s \<Longrightarrow> n \<noteq> 0 \<Longrightarrow> n < 80 \<Longrightarrow> fits b \<Longrightarrow> read_on b r (text_lines n s @ rest) = Inr (r @ b @ s, reading rest)"
proof (induction "length s" arbitrary: s n b r rule: less_induct)
  case less
  show ?case
  proof (cases s)
    case Nil
    then show ?thesis using less.prems read_on_end [OF less.prems(4)] by simp
  next
    case (Cons c cs)
    let ?k = "n + length (escape_char c)"
    have c: "c \<noteq> NUL" "c \<noteq> CHR 0x5C" using less.prems(1) Cons by auto
    show ?thesis
    proof (cases "?k \<ge> 80")
      case False
      obtain d ds where d: "text_lines ?k cs = d # ds" using text_lines_nonempty less.prems(2) by (metis add_is_0)
      obtain b1 r1 where 1: "read_on b r (escape_char c @ d # ds @ rest) = read_on b1 r1 (d # ds @ rest)"
        "fits b1" "r1 @ b1 = r @ b @ [c]"
        using read_on_char [OF less.prems(4) c] by blast
      have "read_on b1 r1 (text_lines ?k cs @ rest) = Inr (r1 @ b1 @ cs, reading rest)"
        using less.hyps [of cs ?k b1 r1] less.prems Cons False 1(2) by (simp add: Let_def)
      moreover have "text_lines n s @ rest = escape_char c @ d # ds @ rest" using Cons False d by (simp add: Let_def)
      moreover have "r1 @ b1 @ cs = r @ b @ s" using 1(3) Cons by (metis append_Cons append_Nil append_assoc)
      ultimately show ?thesis using 1(1) d by simp
    next
      case True
      then have "breaks_well 0 cs" using less.prems(1) Cons by (simp add: Let_def)
      then obtain e es where cs: "cs = e # es" and e: "e \<noteq> NUL" "escape_char e = [e]" "breaks_well 1 es"
        by (cases cs) (auto simp: Let_def)
      obtain d ds where d: "text_lines 1 es = d # ds" using text_lines_nonempty [of 1 es] by auto
      let ?rest = "CHR 0x5C # CHR 0x0A # e # d # ds @ rest"
      obtain b1 r1 where 1: "read_on b r (escape_char c @ ?rest) = read_on b1 r1 ?rest" "fits b1" "r1 @ b1 = r @ b @ [c]"
        using read_on_char [OF less.prems(4) c] by blast
      obtain b2 r2 where 2: "read_on b1 r1 ?rest = read_on b2 r2 (d # ds @ rest)" "fits b2" "r2 @ b2 = r1 @ b1 @ [e]"
        using read_on_broken [OF 1(2) e(1) escape_char_plain [OF e(2)]] by blast
      have "read_on b2 r2 (text_lines 1 es @ rest) = Inr (r2 @ b2 @ es, reading rest)"
        using less.hyps [of es 1 b2 r2] Cons cs e(3) 2(2) by simp
      moreover have "r2 @ b2 @ es = r @ b @ s" using 1(3) 2(3) Cons cs by (metis append_Cons append_Nil append_assoc)
      moreover have "text_lines n s = escape_char c @ CHR 0x5C # CHR 0x0A # e # text_lines 1 es"
        using True Cons cs e(2) by (simp add: Let_def)
      ultimately show ?thesis using 1 2 d by simp
    qed
  qed
qed

lemma getString_entry:
  assumes "breaks_well 1 s"
  shows "getString (reading (CHR 0x22 # text_lines 1 s @ rest)) = Inr (s, reading rest)"
proof -
  obtain d ds where d: "text_lines 1 s = d # ds" using text_lines_nonempty [of 1 s] by auto
  have "skip_space 0 (reading (CHR 0x22 # text_lines 1 s @ rest)) = (34, reading (text_lines 1 s @ rest))"
    by (subst skip_space.simps) (simp add: isSpace_def)
  moreover have "read_on [] [] (text_lines 1 s @ rest) = Inr ([] @ [] @ s, reading rest)"
    using assms by (intro read_text_lines) (simp_all add: fits_def sizeof_szBuff_def)
  ultimately show ?thesis using d by (simp add: getString_def read_on_def)
qed

definition text_id :: "int \<Rightarrow> bool" where
  "text_id i \<longleftrightarrow> 0 < i \<and> i < 2 ^ 31 \<and> ID2TYPE i = TEXT_TYPE"

lemma read_texts_entry:
  assumes "text_id i" "breaks_well 1 s"
  shows "read_texts (reading (entry_text (i, s) @ rest)) m = read_texts (reading rest) (map_put i s m)"
proof -
  let ?tl = "CHR ''x'' # fmt_08X (word_of_int i) @ CHR 0x09 # CHR 0x22 # text_lines 1 s @ rest"
  have eq: "entry_text (i, s) @ rest = CHR ''0'' # ?tl" by (simp add: entry_text_def)
  have "ungetc_int (of_char (CHR ''0'')) (reading ?tl) = reading (entry_text (i, s) @ rest)"
    by (simp add: ungetc_int_def eq char_of_def)
  moreover have "getId (reading (entry_text (i, s) @ rest)) = Inr (i, reading (CHR 0x22 # text_lines 1 s @ rest))"
    using getId_entry [of i "CHR 0x22 # text_lines 1 s @ rest"] assms(1) by (simp add: entry_text_def text_id_def)
  ultimately have "read_texts (reading (CHR ''0'' # ?tl)) m = read_texts (reading rest) (map_put i s m)"
    using assms(1) getString_entry [OF assms(2), of rest] unfolding eq
    by (subst read_texts.simps) (simp add: text_id_def)
  then show ?thesis unfolding eq .
qed

lemma read_texts_end: "read_texts (reading []) m = Inr m"
proof -
  have 1: "scan_number isNumber [] None \<lparr>ahead = [], at_eof = True\<rparr> = Inr ([], None, \<lparr>ahead = [], at_eof = True\<rparr>)"
    by (subst scan_number.simps) (simp add: sizeof_szNumber_def)
  have 2: "nextLine \<lparr>ahead = [], at_eof = True\<rparr> = \<lparr>ahead = [], at_eof = True\<rparr>"
    by (subst nextLine.simps) (simp add: fgetc_int_def)
  have 3: "to_int (strtol 0 []) = 0"
    by (simp add: to_int_def strtol_def strto_magnitude_def scan_sign_def hex_prefix_def number_of_def clamp_long_def)
  have 4: "read_texts \<lparr>ahead = [], at_eof = True\<rparr> m = Inr m" by (subst read_texts.simps) simp
  show ?thesis by (subst read_texts.simps) (simp add: fgetc_int_def ungetc_int_def getId_def 1 2 3 4)
qed

lemma map_put_above: "\<forall>k'\<in>fst ` set xs. k' < k \<Longrightarrow> map_put k v xs = xs @ [(k, v)]"
  by (induction k v xs rule: map_put.induct) auto

lemma read_texts_entries:
  "\<forall>(i, s)\<in>set es. text_id i \<and> breaks_well 1 s \<Longrightarrow> strict_keys (m @ es) \<Longrightarrow>
    read_texts (reading (concat (map entry_text es))) m = Inr (m @ es)"
proof (induction es arbitrary: m)
  case Nil
  then show ?case by (simp add: read_texts_end)
next
  case (Cons e es)
  obtain i s where e: "e = (i, s)" by (cases e)
  have "map_put i s m = m @ [(i, s)]"
    using Cons.prems(2) by (intro map_put_above) (induction m, auto simp: e, fastforce)
  then show ?case using Cons.IH [of "m @ [e]"] Cons.prems read_texts_entry [of i s "concat (map entry_text es)" m]
    by (simp add: e)
qed

lemma nextLine_skips: "\<forall>c\<in>set s. \<not> line_end c \<Longrightarrow> nextLine (reading (s @ CHR 0x0A # cs)) = reading cs"
proof (induction s)
  case Nil
  show ?case by (subst nextLine.simps) simp
next
  case (Cons c s)
  have "(of_char c :: int) \<noteq> 10" "(of_char c :: int) \<noteq> 13"
    using Cons.prems of_char_eq [of c "CHR 0x0A"] of_char_eq [of c "CHR 0x0D"] by (auto simp: line_end_def simp del: of_char_eq of_char_eq_iff)
  then show ?case using Cons by (subst nextLine.simps) simp
qed

text \<open>A node whose file can be read back: what a name and a text must be like.\<close>

definition saved_well :: "TeNode \<Rightarrow> bool" where
  "saved_well n \<longleftrightarrow> strict_keys (langMap n) \<and> (\<forall>(i, s)\<in>set (langMap n). text_id i \<and> breaks_well 1 s) \<and>
     (\<forall>c\<in>set (langType n @ country n). \<not> line_end c \<and> c \<noteq> NUL)"

lemma NUL_breaks_well: "breaks_well n s \<Longrightarrow> NUL \<notin> set s"
  by (induction n s rule: breaks_well.induct) (auto simp: Let_def split: if_splits)

text \<open>
  C6: A file of texts that is saved and read again gives the same texts by the same ids, when no
  text has a backslash, a character the reader changes, or ends exactly where a line is broken.
\<close>

theorem text_file_roundtrip:
  assumes "all_mem E" "saved_well n" "langMap n' = []"
  shows "\<exists>f. at_end (ts_storage (saveText E True n)) f \<and> readText (Some f) n' = Inr (True, n'\<lparr>langMap := langMap n\<rparr>)"
proof (intro exI conjI)
  have "plain_node n" using assms(2) NUL_breaks_well by (fastforce simp: plain_node_def saved_well_def)
  then show "at_end (ts_storage (saveText E True n)) (file_text n)" by (rule saveText_file [OF assms(1)])
  let ?h = "''The Text of '' @ langType n @ ''_'' @ country n" and ?es = "concat (map entry_text (langMap n))"
  have "nextLine (reading (?h @ CHR 0x0A # ?es)) = reading ?es"
    using assms(2) by (intro nextLine_skips) (auto simp: saved_well_def line_end_def)
  then have "read_texts (reading (CHR ''#'' # ?h @ CHR 0x0A # ?es)) [] = read_texts (reading ?es) []"
    by (subst read_texts.simps) simp
  then show "readText (Some (file_text n)) n' = Inr (True, n'\<lparr>langMap := langMap n\<rparr>)"
    using read_texts_entries [of "langMap n" "[]"] assms(2,3) by (simp add: readText_def file_text_def saved_well_def)
qed

definition example_node :: "(int \<times> char list) list \<Rightarrow> TeNode" where
  "example_node m = \<lparr>te_status = 1, langType = ''en'', country = ''US'', charSet = ''utf-8'', langMap = m\<rparr>"

lemma text_file_roundtrip_witness:
  "\<exists>f. at_end (ts_storage (saveText plain_env True (example_node [(0x20001, ''say '' @ [CHR 0x22] @ ''hi'' @ [CHR 0x0A])]))) f \<and>
     readText (Some f) (example_node []) = Inr (True, example_node [(0x20001, ''say '' @ [CHR 0x22] @ ''hi'' @ [CHR 0x0A])])"
proof -
  let ?n = "example_node [(0x20001, ''say '' @ [CHR 0x22] @ ''hi'' @ [CHR 0x0A])]"
  have "saved_well ?n"
    by (simp add: saved_well_def example_node_def text_id_def ID2TYPE_def TEXT_TYPE_def line_end_def escape_char_def Let_def)
  from text_file_roundtrip [OF all_mem_plain_env this, of "example_node []"] show ?thesis
    by (simp add: example_node_def)
qed

section \<open>Texts that do not come back\<close>

text \<open>\<open>breaks_end n s\<close>: as \<open>breaks_well\<close>, but the last line is broken behind its last character.\<close>

fun breaks_end :: "nat \<Rightarrow> char list \<Rightarrow> bool" where
  "breaks_end n [] \<longleftrightarrow> n = 0"
| "breaks_end n (c # cs) \<longleftrightarrow> c \<noteq> NUL \<and> c \<noteq> CHR 0x5C \<and> (n = 0 \<longrightarrow> escape_char c = [c]) \<and>
     (let k = n + length (escape_char c) in if k \<ge> 80 then breaks_end 0 cs else breaks_end k cs)"

lemma text_lines_unclosed:
  "breaks_end n s \<Longrightarrow> n \<noteq> 0 \<Longrightarrow> n < 80 \<Longrightarrow> fits b \<Longrightarrow> c \<noteq> NUL \<Longrightarrow> c \<noteq> CHR 0x22 \<Longrightarrow>
    \<exists>b' r'. read_on b r (text_lines n s @ c # d # rest) = read_on b' r' (d # rest) \<and> fits b' \<and> r' @ b' = r @ b @ s @ [c]"
proof (induction "length s" arbitrary: s n b r rule: less_induct)
  case less
  obtain a as where s: "s = a # as" using less.prems(1,2) by (cases s) auto
  let ?k = "n + length (escape_char a)"
  have a: "a \<noteq> NUL" "a \<noteq> CHR 0x5C" using less.prems(1) s by auto
  note char = read_on_char [OF less.prems(4) a]
  show ?case
  proof (cases "?k \<ge> 80")
    case False
    obtain x xs where x: "text_lines ?k as = x # xs" using text_lines_nonempty less.prems(2) by (metis add_is_0)
    obtain b1 r1 where 1: "read_on b r (escape_char a @ x # xs @ c # d # rest) = read_on b1 r1 (x # xs @ c # d # rest)"
      "fits b1" "r1 @ b1 = r @ b @ [a]" using char by blast
    obtain b2 r2 where 2: "read_on b1 r1 (text_lines ?k as @ c # d # rest) = read_on b2 r2 (d # rest)" "fits b2"
      "r2 @ b2 = r1 @ b1 @ as @ [c]"
      using less.hyps [of as ?k b1 r1] less.prems s False 1(2) by (auto simp: Let_def)
    have "r2 @ b2 = r @ b @ s @ [c]" using 1(3) 2(3) s by (metis append_Cons append_Nil append_assoc)
    moreover have "read_on b r (text_lines n s @ c # d # rest) = read_on b2 r2 (d # rest)"
      using 1(1) 2(1) s False x by (simp add: Let_def)
    ultimately show ?thesis using 2(2) by blast
  next
    case True
    then have end0: "breaks_end 0 as" using less.prems(1) s by (simp add: Let_def)
    show ?thesis
    proof (cases as)
      case Nil
      let ?rest = "CHR 0x5C # CHR 0x0A # c # d # rest"
      obtain b1 r1 where 1: "read_on b r (escape_char a @ ?rest) = read_on b1 r1 ?rest" "fits b1" "r1 @ b1 = r @ b @ [a]"
        using char by blast
      obtain b2 r2 where 2: "read_on b1 r1 ?rest = read_on b2 r2 (d # rest)" "fits b2" "r2 @ b2 = r1 @ b1 @ [c]"
        using read_on_broken [OF 1(2) less.prems(5,6)] by blast
      have "r2 @ b2 = r @ b @ s @ [c]" using 1(3) 2(3) s Nil by (metis append_Cons append_Nil append_assoc)
      moreover have "read_on b r (text_lines n s @ c # d # rest) = read_on b2 r2 (d # rest)"
        using 1(1) 2(1) s Nil True by (simp add: Let_def)
      ultimately show ?thesis using 2(2) by blast
    next
      case (Cons e es)
      then have e: "e \<noteq> NUL" "escape_char e = [e]" "breaks_end 1 es" using end0 by (auto simp: Let_def)
      obtain x xs where x: "text_lines 1 es = x # xs" using text_lines_nonempty [of 1 es] by auto
      let ?rest = "CHR 0x5C # CHR 0x0A # e # x # xs @ c # d # rest"
      obtain b1 r1 where 1: "read_on b r (escape_char a @ ?rest) = read_on b1 r1 ?rest" "fits b1" "r1 @ b1 = r @ b @ [a]"
        using char by blast
      obtain b2 r2 where 2: "read_on b1 r1 ?rest = read_on b2 r2 (x # xs @ c # d # rest)" "fits b2" "r2 @ b2 = r1 @ b1 @ [e]"
        using read_on_broken [OF 1(2) e(1) escape_char_plain [OF e(2)]] by blast
      obtain b3 r3 where 3: "read_on b2 r2 (text_lines 1 es @ c # d # rest) = read_on b3 r3 (d # rest)" "fits b3"
        "r3 @ b3 = r2 @ b2 @ es @ [c]"
        using less.hyps [of es 1 b2 r2] less.prems(5,6) s Cons e(3) 2(2) by auto
      have "r3 @ b3 = r @ b @ s @ [c]" using 1(3) 2(3) 3(3) s Cons by (metis append_Cons append_Nil append_assoc)
      moreover have "text_lines n s = escape_char a @ CHR 0x5C # CHR 0x0A # e # text_lines 1 es"
        using True s Cons e(2) by (simp add: Let_def)
      then have "read_on b r (text_lines n s @ c # d # rest) = read_on b3 r3 (d # rest)" using 1(1) 2(1) 3(1) x by simp
      ultimately show ?thesis using 3(2) by blast
    qed
  qed
qed

lemma read_on_plains:
  "\<forall>c\<in>set cs. c \<noteq> NUL \<and> c \<noteq> CHR 0x5C \<and> c \<noteq> CHR 0x22 \<Longrightarrow> fits b \<Longrightarrow>
    \<exists>b' s'. read_on b s (cs @ d # rest) = read_on b' s' (d # rest) \<and> fits b' \<and> s' @ b' = s @ b @ cs"
proof (induction cs arbitrary: b s)
  case (Cons c cs)
  obtain e es where e: "cs @ d # rest = e # es" by (cases cs) auto
  obtain b1 s1 where 1: "read_on b s (c # e # es) = read_on b1 s1 (e # es)" "fits b1" "s1 @ b1 = s @ b @ [c]"
    using read_on_plain [OF Cons.prems(2), of c s e es] Cons.prems(1) by auto
  obtain b2 s2 where 2: "read_on b1 s1 (cs @ d # rest) = read_on b2 s2 (d # rest)" "fits b2" "s2 @ b2 = s1 @ b1 @ cs"
    using Cons.IH [OF _ 1(2), of s1] Cons.prems(1) by (meson list.set_intros(2))
  have "s2 @ b2 = s @ b @ c # cs" using 1(3) 2(3) by (metis append_Cons append_Nil append_assoc)
  moreover have "read_on b s ((c # cs) @ d # rest) = read_on b2 s2 (d # rest)" using 1(1) 2(1) by (simp only: append_Cons e)
  ultimately show ?case using 2(2) by blast
qed auto

lemma fmt_08X_plain: "c \<in> set (fmt_08X w) \<Longrightarrow> c \<noteq> NUL \<and> c \<noteq> CHR 0x5C \<and> c \<noteq> CHR 0x22 \<and> \<not> line_end c"
proof -
  assume "c \<in> set (fmt_08X w)"
  then obtain k where "c = hex_upper k" "k < 16" by (auto simp: fmt_08X_def)
  then have "isNumber (of_char c)" using isNumber_hex by simp
  moreover have "\<not> isNumber (of_char d)" if "d \<in> {NUL, CHR 0x5C, CHR 0x22, CHR 0x0A, CHR 0x0D}" for d
    using that by (auto simp: isNumber_def)
  ultimately show ?thesis by (auto simp: line_end_def)
qed

text \<open>
  A text that ends exactly where its line is broken is saved without its closing quote, and reading
  the file takes what follows as part of the text.
\<close>

theorem text_without_closing_quote:
  assumes "text_id i" "breaks_end 1 s" "text_lines 1 t = u @ [CHR 0x0A]" "\<forall>c\<in>set u. \<not> line_end c"
  shows "read_texts (reading (entry_text (i, s) @ entry_text (j, t) @ rest)) m =
    read_texts (reading rest) (map_put i (s @ ''0x'' @ fmt_08X (word_of_int j) @ [CHR 0x09]) m)"
proof -
  let ?w = "fmt_08X (word_of_int j)"
  let ?e2 = "CHR 0x22 # u @ CHR 0x0A # rest"
  have e2: "entry_text (j, t) @ rest = ''0x'' @ ?w @ CHR 0x09 # ?e2" using assms(3) by (simp add: entry_text_def)
  obtain b1 s1 where 1: "read_on [] [] (text_lines 1 s @ entry_text (j, t) @ rest) = read_on b1 s1 (CHR ''x'' # ?w @ CHR 0x09 # ?e2)"
    "fits b1" "s1 @ b1 = s @ ''0''"
    using text_lines_unclosed [OF assms(2), of "[]" "CHR ''0''" "[]" "CHR ''x''" "?w @ CHR 0x09 # ?e2"] e2
    by (auto simp: fits_def sizeof_szBuff_def)
  have plain: "\<forall>c\<in>set (''x'' @ ?w @ [CHR 0x09]). c \<noteq> NUL \<and> c \<noteq> CHR 0x5C \<and> c \<noteq> CHR 0x22"
    using fmt_08X_plain by auto
  obtain b2 s2 where 2: "read_on b1 s1 ((''x'' @ ?w @ [CHR 0x09]) @ ?e2) = read_on b2 s2 ?e2" "fits b2"
    "s2 @ b2 = s1 @ b1 @ ''x'' @ ?w @ [CHR 0x09]"
    using read_on_plains [OF plain 1(2), of s1 "CHR 0x22" "u @ CHR 0x0A # rest"] by auto
  have "nextLine (reading (u @ CHR 0x0A # rest)) = reading rest" by (rule nextLine_skips [OF assms(4)])
  then have 3: "read_on b2 s2 ?e2 = Inr (s2 @ b2, reading rest)" using 2(2) c_cut_id [of b2]
    by (simp add: read_on_def getString_loop.simps [of 34 b2 s2] end_string_def toLineEnd_def fits_def)
  obtain d ds where d: "text_lines 1 s @ entry_text (j, t) @ rest = d # ds" using text_lines_nonempty [of 1 s] by auto
  have all: "read_on [] [] (d # ds) = Inr (s @ ''0x'' @ ?w @ [CHR 0x09], reading rest)"
    using 1 2 3 unfolding d by simp
  have str: "getString (reading (CHR 0x22 # d # ds)) = Inr (s @ ''0x'' @ ?w @ [CHR 0x09], reading rest)"
    using all by (simp add: getString_def skip_space.simps [of 0] isSpace_def read_on_def)
  let ?tl = "CHR ''x'' # fmt_08X (word_of_int i) @ CHR 0x09 # CHR 0x22 # d # ds"
  have eq: "entry_text (i, s) @ entry_text (j, t) @ rest = CHR ''0'' # ?tl"
    using d by (simp add: entry_text_def)
  have "getId (reading (CHR ''0'' # ?tl)) = Inr (i, reading (CHR 0x22 # d # ds))"
    using getId_entry [of i "CHR 0x22 # d # ds"] assms(1) by (simp add: text_id_def)
  then show ?thesis using assms(1) str unfolding eq
    by (subst read_texts.simps) (simp add: text_id_def ungetc_int_def char_of_def)
qed

lemma text_without_closing_quote_witness:
  "read_texts (reading (entry_text (0x20001, replicate 79 (CHR ''a'')) @ entry_text (0x20002, ''b'') @ [])) [] =
    read_texts (reading []) (map_put 0x20001 (replicate 79 (CHR ''a'') @ ''0x'' @ fmt_08X (word_of_int 0x20002) @ [CHR 0x09]) [])"
  by (rule text_without_closing_quote [where u = "''b'' @ [CHR 0x22]"])
    (simp_all add: text_id_def ID2TYPE_def TEXT_TYPE_def escape_char_def Let_def line_end_def eval_nat_numeral)

text \<open>
  A line broken before an escape brings the escape back as two characters, a backslash in a text is taken for an
  escape, and a text without quotes at the end of a file gets a character more.
\<close>

lemma escape_after_broken_line:
  assumes "fits b"
  shows "\<exists>b' s'. read_on b s ([CHR 0x5C, CHR 0x0A] @ escape_char (CHR 0x0A) @ d # cs) = read_on b' s' (d # cs) \<and> fits b' \<and>
    s' @ b' = s @ b @ [CHR 0x5C] @ ''n''"
proof -
  obtain b1 s1 where 1: "read_on b s (CHR 0x5C # CHR 0x0A # CHR 0x5C # CHR ''n'' # d # cs) = read_on b1 s1 (CHR ''n'' # d # cs)"
    "fits b1" "s1 @ b1 = s @ b @ [CHR 0x5C]"
    using read_on_broken [OF assms, of "CHR 0x5C" s "CHR ''n''" "d # cs"] by auto
  obtain b2 s2 where 2: "read_on b1 s1 (CHR ''n'' # d # cs) = read_on b2 s2 (d # cs)" "fits b2" "s2 @ b2 = s1 @ b1 @ ''n''"
    using read_on_plain [OF 1(2), of "CHR ''n''" s1 d cs] by auto
  have "s2 @ b2 = s @ b @ [CHR 0x5C] @ ''n''" using 1(3) 2(3) by (metis append_assoc)
  then show ?thesis using 1(1) 2(1,2) by (auto simp: escape_char_def)
qed

lemma backslash_in_text:
  assumes "fits b"
  shows "\<exists>b' s'. read_on b s (concat (map escape_char ([CHR 0x5C] @ ''n'')) @ d # cs) = read_on b' s' (d # cs) \<and> fits b' \<and>
    s' @ b' = s @ b @ [CHR 0x0A]"
  using read_on_stored [OF assms, of "CHR 0x0A" "CHR ''n'' # d # cs" d cs s]
  by (simp add: escape_char_def read_escape_def)

lemma unquoted_text_at_end:
  assumes "NUL \<notin> set b" "length b < 990" "c \<noteq> NUL" "c \<noteq> CHR 0x5C" "\<not> line_end c"
  shows "getString_loop 0 b s (of_char c) (reading []) = Inr (s @ b @ [c, CHR 0xFF], \<lparr>ahead = [], at_eof = True\<rparr>)"
proof -
  have "(of_char c :: int) \<noteq> 10" "(of_char c :: int) \<noteq> 13"
    using assms(5) of_char_eq [of c "CHR 0x0A"] of_char_eq [of c "CHR 0x0D"]
    by (auto simp: line_end_def simp del: of_char_eq of_char_eq_iff)
  moreover have "getString_loop 0 (b @ [c]) s (-1) \<lparr>ahead = [], at_eof = True\<rparr> = Inr (s @ b @ [c, CHR 0xFF], \<lparr>ahead = [], at_eof = True\<rparr>)"
    using assms c_cut_id [of "b @ [c, CHR 0xFF]"]
    by (simp add: getString_loop.simps [of 0 "b @ [c]"] store_char_def sizeof_szBuff_def end_string_def Let_def char_of_def)
  ultimately show ?thesis using assms
    by (simp add: getString_loop.simps [of 0 b] store_char_def sizeof_szBuff_def Let_def fgetc_int_def)
qed

text \<open>A text that is given its own id again is lost, although \<open>changeId\<close> reports success.\<close>

lemma changeId_same_id:
  assumes "map_of (langMap n) i = Some s" "strict_keys (langMap n)"
  shows "\<exists>n'. changeId i i n = (True, n') \<and> TeNode_getText i n' = None"
  using assms by (auto simp: changeId_def TeNode_getText_def map_erase_def map_of_eq_None_iff)

end
