(* ===== verification/Id_Header.thy ===== *)
theory Id_Header
  imports Package_Writer Text_Roundtrip
begin

text \<open>
  The header file of ids that \<open>MainFrame::onSave\<close> writes (\<open>mainframe/mainframe.cpp\<close>, \<open>common/reseditor.cpp\<close>; the
  definitions are in \<open>Package_Writer\<close>): its text, and that the number behind a name reads as the id.
\<close>

text \<open>
  What an editor has a macro for, and the number in it: every named resource with its id; in the window editor (\<open>ui\<close>) the
  controls only when their name is not predefined, with the lower half of the id.
\<close>

definition macro_of :: "bool \<Rightarrow> resource \<Rightarrow> (char list \<times> int) list" where
  "macro_of ui r =
     (if res_name r = [] then []
      else if ui \<and> ID2TYPE (res_id r) = NCSRT_CONTRL
      then if res_name r \<in> set predefined_names then [] else [(res_name r, res_id r mod 65536)]
      else [(res_name r, res_id r)])"

definition macros :: "bool \<Rightarrow> editor \<Rightarrow> (char list \<times> int) list" where
  "macros ui ed = concat (map (\<lambda>(i, a). macro_of ui (the (resources ed a))) (reses ed))"

definition define_line :: "bool \<Rightarrow> char list \<times> int \<Rightarrow> char list" where
  "define_line ui m = ''#define '' @ fst m @ replicate (if ui then 3 else 2) (CHR 0x09) @ ''0x'' @ fmt_x (snd m) @ [CHR 0x0A]"

definition editor_macros :: "int \<times> bool \<times> editor \<Rightarrow> (char list \<times> int) list" where
  "editor_macros e = (case e of (ty, ui, ed) \<Rightarrow> if ty = 0 then [] else macros ui ed)"

definition id_header_text :: "(int \<times> bool \<times> editor) list \<Rightarrow> char list" where
  "id_header_text es = concat (map (\<lambda>l. l @ [CHR 0x0A]) id_header_begin) @
     concat (map (\<lambda>e. concat (map (define_line (fst (snd e))) (editor_macros e))) es) @
     ''#endif /*_RESOURCE_ID_H_*/'' @ [CHR 0x0A]"

definition plain_names :: "editor \<Rightarrow> bool" where
  "plain_names ed \<longleftrightarrow> (\<forall>(i, a)\<in>set (reses ed). \<exists>r. resources ed a = Some r \<and> NUL \<notin> set (res_name r))"

section \<open>Hexadecimal numbers\<close>

definition hex_lower :: "nat \<Rightarrow> char" where "hex_lower k = (if k < 10 then char_of (48 + k) else char_of (87 + k))"

lemma digit_num_lower: "k < 16 \<Longrightarrow> digit_num (hex_lower k) = k"
  by (auto simp: digit_num_def hex_lower_def Let_def)

lemma hex_digits_lower: "hex_digits n = dropWhile (\<lambda>c. c = CHR ''0'') (map (\<lambda>k. hex_lower (n div 16 ^ k mod 16)) [7, 6, 5, 4, 3, 2, 1, 0])"
  unfolding hex_digits_def hex_lower_def ..

lemma foldl_leading_zeros:
  "foldl (\<lambda>n c. n * 16 + digit_num c) 0 (dropWhile (\<lambda>c. c = CHR ''0'') xs) = foldl (\<lambda>n c. n * 16 + digit_num c) 0 xs"
proof (induction xs)
  case (Cons x xs)
  have "digit_num (CHR ''0'') = 0" by code_simp
  then show ?case using Cons by (cases "x = CHR ''0''") simp_all
qed simp

lemma foldl_same_digits:
  "map digit_num xs = map digit_num ys \<Longrightarrow> foldl (\<lambda>n c. n * b + digit_num c) m xs = foldl (\<lambda>n c. n * b + digit_num c) m ys"
proof (induction xs arbitrary: ys m)
  case (Cons x xs)
  then obtain y zs where "ys = y # zs" "digit_num x = digit_num y" "map digit_num xs = map digit_num zs" by (cases ys) simp_all
  then show ?case using Cons.IH [of zs] by simp
qed simp

lemma number_of_hex_digits:
  assumes "n < 2 ^ 32" shows "number_of 16 (hex_digits n) = n"
proof -
  let ?w = "of_nat n :: 32 word" and ?ks = "[7, 6, 5, 4, 3, 2, 1, 0] :: nat list"
  let ?f = "\<lambda>n c. n * 16 + digit_num c"
  have n: "nat (uint ?w) = n" using assms by (simp add: unsigned_of_nat take_bit_nat_eq_self)
  have up: "\<forall>c\<in>set (fmt_08X ?w). digit_num c < 16" by (auto simp: fmt_08X_def digit_num_hex nat_less_iff)
  have u: "uint ?w = int n" using n by (metis unsigned_greater_eq int_nat_eq)
  have "nat (uint ?w div 16 ^ k mod 16) = n div 16 ^ k mod 16" for k
    unfolding u by (metis nat_int of_nat_numeral of_nat_power zdiv_int zmod_int)
  then have "map digit_num (fmt_08X ?w) = map digit_num (map (\<lambda>k. hex_lower (n div 16 ^ k mod 16)) ?ks)"
    by (simp add: fmt_08X_def digit_num_hex digit_num_lower)
  from foldl_same_digits [OF this, of 16 0] have
    same: "foldl ?f 0 (fmt_08X ?w) = foldl ?f 0 (map (\<lambda>k. hex_lower (n div 16 ^ k mod 16)) ?ks)" .
  have "takeWhile (\<lambda>c. digit_num c < 16) (fmt_08X ?w) = fmt_08X ?w" using up by (intro takeWhile_eq_all_conv [THEN iffD2])
  from number_of_fmt_08X [of ?w, unfolded number_of_def this n] have val: "foldl ?f 0 (fmt_08X ?w) = n" .
  have "\<forall>c\<in>set (hex_digits n). digit_num c < 16"
    unfolding hex_digits_lower by (auto simp: digit_num_lower dest!: set_dropWhileD)
  then have "takeWhile (\<lambda>c. digit_num c < 16) (hex_digits n) = hex_digits n" by (intro takeWhile_eq_all_conv [THEN iffD2])
  then have "number_of 16 (hex_digits n) = foldl ?f 0 (hex_digits n)" by (simp only: number_of_def)
  then show ?thesis using same val by (simp add: hex_digits_lower foldl_leading_zeros del: list.map)
qed

lemma strtol_fmt_x:
  assumes "0 \<le> i" "i < 2 ^ 31" shows "strtol 0 (''0x'' @ fmt_x i) = i"
proof -
  have "number_of 16 (fmt_x i) = nat i"
  proof (cases "nat (i mod 2 ^ 32) = 0")
    case True
    then show ?thesis using assms by (simp add: fmt_x_def number_of_def digit_num_def)
  next
    case False
    then show ?thesis using assms number_of_hex_digits [of "nat i"] by (simp add: fmt_x_def Let_def nat_less_iff)
  qed
  then show ?thesis using assms
    by (simp add: strtol_def strto_magnitude_def hex_prefix_def scan_sign_def c_isspace_def clamp_long_def)
qed

section \<open>The text\<close>

lemma NUL_fmt_x: "NUL \<notin> set (fmt_x i)"
proof -
  have "hex_lower k \<noteq> NUL" if "k < 16" for k
  proof
    assume "hex_lower k = NUL"
    moreover have "digit_num NUL = 99" by (simp add: digit_num_def)
    ultimately show False using digit_num_lower [OF that] that by simp
  qed
  then have "NUL \<notin> hex_lower ` {..<16}" by fastforce
  moreover have "set (hex_digits n) \<subseteq> hex_lower ` {..<16}" for n
    unfolding hex_digits_lower by (rule subset_trans [OF _ subset_refl]) (auto dest!: set_dropWhileD)
  ultimately show ?thesis by (auto simp: fmt_x_def Let_def)
qed

lemma fold_println:
  assumes "all_mem E"
  shows "shows_text t 0 nl b \<Longrightarrow> \<forall>l\<in>set ls. NUL \<notin> set l \<Longrightarrow>
    \<exists>nl'. shows_text (fold (\<lambda>l. ts_println E (Some l)) ls t) 0 nl' (b @ concat (map (\<lambda>l. l @ [CHR 0x0A]) ls))"
proof (induction ls arbitrary: t nl b)
  case (Cons l ls)
  obtain nl1 where "shows_text (ts_println E (Some l) t) 0 nl1 (b @ l @ [CHR 0x0A])"
    using println_plain [OF assms Cons.prems(1), of l] Cons.prems(2) by auto
  from Cons.IH [OF this] show ?case using Cons.prems(2) by simp
qed auto

lemma find_name_iff: "0 \<le> i \<Longrightarrow> find_name nm i ns \<noteq> -1 \<longleftrightarrow> nm \<in> set ns"
proof (induction ns arbitrary: i)
  case (Cons n ns)
  have "0 \<le> or i (push_bit 16 NCSRT_CONTRL)" using Cons.prems by (simp add: NCSRT_CONTRL_def)
  then have "or i (push_bit 16 NCSRT_CONTRL) \<noteq> -1" by linarith
  then show ?case using Cons by auto
qed simp

lemma getPredefinedId_iff: "getPredefinedId (Some nm) \<noteq> -1 \<longleftrightarrow> nm \<in> set predefined_names"
  by (simp add: getPredefinedId_def find_name_iff)

lemma println_macro:
  assumes "all_mem E" "shows_text t 0 nl b" "NUL \<notin> set nm"
  shows "\<exists>nl'. shows_text (ts_println E (Some (''#define '' @ nm @ replicate k (CHR 0x09) @ ''0x'' @ fmt_x n)) t) 0 nl'
    (b @ ''#define '' @ nm @ replicate k (CHR 0x09) @ ''0x'' @ fmt_x n @ [CHR 0x0A])"
  using println_plain [OF assms(1,2), of "''#define '' @ nm @ replicate k (CHR 0x09) @ ''0x'' @ fmt_x n"] assms(3) NUL_fmt_x by auto

lemma trans_ids_text:
  assumes "all_mem E"
  shows "shows_text t 0 nl b \<Longrightarrow> \<forall>(i, a)\<in>set es. \<exists>r. resources ed a = Some r \<and> NUL \<notin> set (res_name r) \<Longrightarrow>
    \<exists>t' nl'. (if ui then ui_trans_ids E ed es t else trans_ids E ed es t) = Inr t' \<and>
      shows_text t' 0 nl' (b @ concat (map (define_line ui) (concat (map (\<lambda>(i, a). macro_of ui (the (resources ed a))) es))))"
proof (induction es arbitrary: t nl b)
  case (Cons e es)
  obtain i a where e: "e = (i, a)" by (cases e)
  obtain r where r: "resources ed a = Some r" "NUL \<notin> set (res_name r)" using Cons.prems(2) e by auto
  have rest: "\<forall>(i, a)\<in>set es. \<exists>r. resources ed a = Some r \<and> NUL \<notin> set (res_name r)" using Cons.prems(2) by simp
  show ?case
  proof (cases "macro_of ui r")
    case Nil
    then have "(if ui then ui_trans_ids E ed (e # es) t else trans_ids E ed (e # es) t) = (if ui then ui_trans_ids E ed es t else trans_ids E ed es t)"
      using r(1) by (auto simp: e get_res_def macro_of_def getPredefinedId_iff split: if_splits)
    then show ?thesis using Cons.IH [OF Cons.prems(1) rest] Nil by (simp add: e r(1))
  next
    case (Cons m ms)
    then obtain n where m: "macro_of ui r = [(res_name r, n)]" "res_name r \<noteq> []" by (auto simp: macro_of_def split: if_splits)
    let ?l = "''#define '' @ res_name r @ replicate (if ui then 3 else 2) (CHR 0x09) @ ''0x'' @ fmt_x n"
    have "(if ui then ui_trans_ids E ed (e # es) t else trans_ids E ed (e # es) t) =
        (if ui then ui_trans_ids E ed es (ts_println E (Some ?l) t) else trans_ids E ed es (ts_println E (Some ?l) t))"
      using r(1) m by (auto simp: e get_res_def macro_of_def getPredefinedId_iff numeral_3_eq_3 numeral_2_eq_2 split: if_splits)
    moreover obtain nl1 where "shows_text (ts_println E (Some ?l) t) 0 nl1 (b @ define_line ui (res_name r, n))"
      using println_macro [OF assms Cons.prems(1) r(2)] by (auto simp: define_line_def)
    ultimately show ?thesis using Cons.IH [OF _ rest] m(1) by (fastforce simp: e r(1))
  qed
qed auto

lemma trans_all_text:
  assumes "all_mem E"
  shows "shows_text t 0 nl b \<Longrightarrow> \<forall>(ty, ui, ed)\<in>set es. ty \<noteq> 0 \<longrightarrow> plain_names ed \<Longrightarrow>
    \<exists>t' nl'. trans_all E es t = Inr t' \<and>
      shows_text t' 0 nl' (b @ concat (map (\<lambda>e. concat (map (define_line (fst (snd e))) (editor_macros e))) es))"
proof (induction es arbitrary: t nl b)
  case (Cons e es)
  obtain ty ui ed where e: "e = (ty, ui, ed)" by (cases e)
  show ?case
  proof (cases "ty = 0 \<or> reses ed = []")
    case True
    then show ?thesis using Cons.IH [OF Cons.prems(1)] Cons.prems(2) e
      by (auto simp: transIDs_def UI_transIDs_def editor_macros_def macros_def)
  next
    case False
    then have "\<forall>(i, a)\<in>set (reses ed). \<exists>r. resources ed a = Some r \<and> NUL \<notin> set (res_name r)"
      using Cons.prems(2) e by (simp add: plain_names_def)
    from trans_ids_text [OF assms Cons.prems(1) this, of ui] obtain t1 nl1 where
      t1: "(if ui then ui_trans_ids E ed (reses ed) t else trans_ids E ed (reses ed) t) = Inr t1"
        "shows_text t1 0 nl1 (b @ concat (map (define_line ui) (macros ui ed)))"
      by (auto simp: macros_def)
    have "trans_all E (e # es) t = trans_all E es t1"
      using False t1(1) by (cases ui) (simp_all add: e transIDs_def UI_transIDs_def)
    then show ?thesis using Cons.IH [OF t1(2)] Cons.prems(2) False by (simp add: e editor_macros_def)
  qed
qed auto

text \<open>
  C38: The header file of ids holds, in the order of the ids, one macro for every named resource of
  every editor but the one of ids, except the controls of the window editor whose name is
  predefined. The number of a macro is the id, for the other controls of the window editor its lower
  half, and a number below 2^31 reads as this number. Names have no NUL, and memory can be
  allocated.
\<close>

theorem id_header_defines_ids:
  assumes "all_mem E" "\<forall>(ty, ui, ed)\<in>set es. ty \<noteq> 0 \<longrightarrow> plain_names ed"
  shows "\<exists>t. save_id_header E True es = Inr t \<and> at_end (ts_storage t) (id_header_text es) \<and>
    (\<forall>e\<in>set es. \<forall>(nm, n)\<in>set (editor_macros e). 0 \<le> n \<and> n < 2 ^ 31 \<longrightarrow> strtol 0 (''0x'' @ fmt_x n) = n)"
proof -
  let ?t = "TextStream (Some (FileStreamStorage True))"
  have "shows_text ?t 0 True []" using at_end_fresh by (simp add: shows_text_def TextStream_def)
  moreover have "\<forall>l\<in>set id_header_begin. NUL \<notin> set l" by code_simp
  ultimately obtain nl1 where "shows_text (fold (\<lambda>l. ts_println E (Some l)) id_header_begin ?t) 0 nl1
      ([] @ concat (map (\<lambda>l. l @ [CHR 0x0A]) id_header_begin))" using fold_println [OF assms(1)] by blast
  from trans_all_text [OF assms(1) this assms(2)] obtain t2 nl2 where
    t2: "trans_all E es (fold (\<lambda>l. ts_println E (Some l)) id_header_begin ?t) = Inr t2"
      "shows_text t2 0 nl2 (concat (map (\<lambda>l. l @ [CHR 0x0A]) id_header_begin) @
        concat (map (\<lambda>e. concat (map (define_line (fst (snd e))) (editor_macros e))) es))" by auto
  have "NUL \<notin> set ''#endif /*_RESOURCE_ID_H_*/''" by simp
  from println_plain [OF assms(1) t2(2) this] show ?thesis using t2(1) strtol_fmt_x
    by (auto simp: save_id_header_def id_header_text_def shows_text_def)
qed

definition text_editor_ids :: editor where
  "text_editor_ids = \<lparr>resources = [0 \<mapsto> \<lparr>res_name = ''IDS_OK'', res_id = 0x20001, source_id = -1, use_ref = 0\<rparr>,
     1 \<mapsto> \<lparr>res_name = [], res_id = 0x20002, source_id = -1, use_ref = 1\<rparr>], next_addr = 2, reses = [(0x20001, 0), (0x20002, 1)],
     namedRes = [''IDS_OK'' \<mapsto> 0], bIdChanged = False, idrms = (\<lambda>_. undefined), id_ranges = undefined\<rparr>"

definition ui_editor_ids :: editor where
  "ui_editor_ids = \<lparr>resources = [0 \<mapsto> \<lparr>res_name = ''IDOK'', res_id = 0x40000001, source_id = -1, use_ref = 0\<rparr>,
     1 \<mapsto> \<lparr>res_name = ''IDC_A'', res_id = 0x40000010, source_id = -1, use_ref = 1\<rparr>], next_addr = 2,
     reses = [(0x40000001, 0), (0x40000010, 1)], namedRes = [''IDOK'' \<mapsto> 0, ''IDC_A'' \<mapsto> 1], bIdChanged = False,
     idrms = (\<lambda>_. undefined), id_ranges = undefined\<rparr>"

lemma id_header_defines_ids_witness:
  "\<exists>t. save_id_header plain_env True [(2, False, text_editor_ids), (8, True, ui_editor_ids)] = Inr t \<and>
     at_end (ts_storage t) (concat (map (\<lambda>l. l @ [CHR 0x0A]) id_header_begin) @
     (''#define IDS_OK'' @ [CHR 0x09, CHR 0x09] @ ''0x20001'' @ [CHR 0x0A]) @
     (''#define IDC_A'' @ [CHR 0x09, CHR 0x09, CHR 0x09] @ ''0x10'' @ [CHR 0x0A]) @ ''#endif /*_RESOURCE_ID_H_*/'' @ [CHR 0x0A])"
proof -
  have d: "char_of (48 :: nat) = CHR ''0''" "char_of (49 :: nat) = CHR ''1''" "char_of (50 :: nat) = CHR ''2''" by code_simp+
  have x: "fmt_x 0x20001 = ''20001''" "fmt_x 16 = ''10''" using d by (simp_all add: fmt_x_def hex_digits_def)
  have "concat (map (\<lambda>e. concat (map (define_line (fst (snd e))) (editor_macros e))) [(2, False, text_editor_ids), (8, True, ui_editor_ids)]) =
      (''#define IDS_OK'' @ [CHR 0x09, CHR 0x09] @ ''0x20001'' @ [CHR 0x0A]) @
      (''#define IDC_A'' @ [CHR 0x09, CHR 0x09, CHR 0x09] @ ''0x10'' @ [CHR 0x0A])"
    using x by (simp add: editor_macros_def macros_def text_editor_ids_def ui_editor_ids_def macro_of_def define_line_def
      ID2TYPE_def NCSRT_CONTRL_def predefined_names_def numeral_3_eq_3 numeral_2_eq_2)
  moreover have "plain_names text_editor_ids" "plain_names ui_editor_ids" by (simp_all add: plain_names_def text_editor_ids_def ui_editor_ids_def)
  ultimately show ?thesis using id_header_defines_ids [of plain_env "[(2, False, text_editor_ids), (8, True, ui_editor_ids)]"]
    by (auto simp: id_header_text_def)
qed

end
