(* ===== verification/String_Pool.thy ===== *)
theory String_Pool
  imports Package_Writer
begin

text \<open>
  The string pool of the main frame (\<open>mainframe/mainframe.h\<close>, modelled in \<open>Package_Writer\<close>) as a table of strings with
  an id and a count of uses, as long as the ids have not run once through their range; and what happens afterwards.
\<close>

section \<open>The invariant\<close>

definition entry_ok :: "string_pool \<Rightarrow> int \<Rightarrow> nat \<Rightarrow> bool" where
  "entry_ok p i a \<longleftrightarrow> (\<exists>se. str_entries p a = Some se \<and> se_id se = i \<and> 0 < se_ref se \<and> namedStringPool p (se_str se) = Some a \<and>
     \<not> no_string (Some (se_str se)))"

definition pool_ok :: "string_pool \<Rightarrow> bool" where
  "pool_ok p \<longleftrightarrow> strict_keys (stringPool p) \<and> 128 \<le> str_id_begin p \<and> str_id_begin p \<le> 65535 \<and>
     (\<forall>i a. map_of (stringPool p) i = Some a \<longrightarrow> 0x10080 < i \<and> i \<le> 0x10000 + str_id_begin p \<and> entry_ok p i a) \<and>
     (\<forall>s a. namedStringPool p s = Some a \<longrightarrow> (\<exists>se. str_entries p a = Some se \<and> se_str se = s \<and> map_of (stringPool p) (se_id se) = Some a)) \<and>
     (\<forall>a. next_entry p \<le> a \<longrightarrow> str_entries p a = None)"

lemma pool_okI:
  assumes "strict_keys (stringPool p)" "128 \<le> str_id_begin p" "str_id_begin p \<le> 65535"
    "\<And>i a. map_of (stringPool p) i = Some a \<Longrightarrow> 0x10080 < i \<and> i \<le> 0x10000 + str_id_begin p \<and> entry_ok p i a"
    "\<And>s a. namedStringPool p s = Some a \<Longrightarrow>
      \<exists>se. str_entries p a = Some se \<and> se_str se = s \<and> map_of (stringPool p) (se_id se) = Some a"
    "\<And>a. next_entry p \<le> a \<Longrightarrow> str_entries p a = None"
  shows "pool_ok p"
  using assms unfolding pool_ok_def by blast

lemma pool_ok_empty: "pool_ok empty_pool"
  by (simp add: pool_ok_def empty_pool_def NCSRM_SYSSTR_MAXID_def)

text \<open>The table: the id and the count of each string.\<close>

definition pool_abs :: "string_pool \<Rightarrow> char list \<Rightarrow> (int \<times> int) option" where
  "pool_abs p s = (case namedStringPool p s of None \<Rightarrow> None
     | Some a \<Rightarrow> map_option (\<lambda>se. (se_id se, se_ref se)) (str_entries p a))"

lemma distinct_strict: "strict_keys xs \<Longrightarrow> distinct (map fst xs)"
  unfolding strict_keys_def using strict_sorted_iff by blast

lemma map_of_strict: "strict_keys xs \<Longrightarrow> (k, v) \<in> set xs \<longleftrightarrow> map_of xs k = Some v"
  by (simp add: distinct_strict)

lemma pool_ids:
  assumes "pool_ok p" shows "\<forall>x\<in>set (stringPool p). 0x10080 < fst x \<and> fst x \<le> 0x10000 + str_id_begin p"
proof
  fix x assume "x \<in> set (stringPool p)"
  then have "map_of (stringPool p) (fst x) = Some (snd x)"
    using assms by (simp add: pool_ok_def flip: map_of_strict)
  then show "0x10080 < fst x \<and> fst x \<le> 0x10000 + str_id_begin p" using assms by (simp add: pool_ok_def)
qed

lemma pool_size:
  assumes "pool_ok p" shows "length (stringPool p) < 65535"
proof -
  have "set (map fst (stringPool p)) \<subseteq> {0x10081..0x1FFFF}" using pool_ids [OF assms] assms by (fastforce simp: pool_ok_def)
  then have "card (set (map fst (stringPool p))) \<le> card {0x10081..0x1FFFF::int}" by (intro card_mono) auto
  moreover have "distinct (map fst (stringPool p))" using assms distinct_strict by (auto simp: pool_ok_def)
  ultimately show ?thesis by (simp only: distinct_card length_map) simp
qed

lemma newStrId_fresh:
  assumes "pool_ok p" "str_id_begin p < 65535"
  shows "newStrId p = (str_id_begin p + 1 + 65536, p\<lparr>str_id_begin := str_id_begin p + 1\<rparr>)"
    "map_of (stringPool p) (str_id_begin p + 1 + 65536) = None"
proof -
  let ?b = "str_id_begin p + 1"
  have r: "\<forall>x\<in>set (stringPool p). 0x10080 < fst x \<and> fst x \<le> 0x10000 + str_id_begin p" "128 \<le> str_id_begin p"
    using pool_ids [OF assms(1)] assms(1) by (simp_all add: pool_ok_def)
  have "or ?b (push_bit 16 1) = 1 * 2 ^ 16 + ?b" using r assms(2) by (intro id_number(1)) auto
  moreover have "map_of (stringPool p) ?b = None" using r assms(2) by (fastforce simp: map_of_eq_None_iff)
  ultimately show "newStrId p = (str_id_begin p + 1 + 65536, p\<lparr>str_id_begin := str_id_begin p + 1\<rparr>)"
    using pool_size [OF assms(1)] assms(2) by (simp add: newStrId_def Let_def)
  show "map_of (stringPool p) (?b + 65536) = None" using r by (fastforce simp: map_of_eq_None_iff)
qed

section \<open>The table\<close>

text \<open>What the pool promises: strings with ids and counts, the ids in order.\<close>

type_synonym str_table = "(char list \<Rightarrow> (int \<times> int) option) \<times> int"

datatype pool_op = Add_String "char list option" | Remove_String int

fun table_op :: "pool_op \<Rightarrow> str_table \<Rightarrow> int \<times> str_table" where
  "table_op (Add_String str) (T, b) =
     (if no_string str then (-1, T, b)
      else case T (the str) of
        None \<Rightarrow> (0x10001 + b, T(the str \<mapsto> (0x10001 + b, 1)), b + 1)
      | Some (i, n) \<Rightarrow> (i, T(the str \<mapsto> (i, n + 1)), b))"
| "table_op (Remove_String i) (T, b) =
     (1, \<lambda>s. case T s of None \<Rightarrow> None | Some (j, n) \<Rightarrow> if j \<noteq> i then Some (j, n) else if n = 1 then None else Some (j, n - 1), b)"

fun pool_step :: "pool_op \<Rightarrow> string_pool \<Rightarrow> (int \<times> string_pool) res" where
  "pool_step (Add_String str) p = addString str p"
| "pool_step (Remove_String i) p = removeString i p"

definition table_of :: "string_pool \<Rightarrow> str_table" where "table_of p = (pool_abs p, str_id_begin p)"

lemma pool_named:
  assumes "pool_ok p" "namedStringPool p s = Some a"
  obtains se where "str_entries p a = Some se" "se_str se = s" "map_of (stringPool p) (se_id se) = Some a" "0 < se_ref se"
    "\<not> no_string (Some s)" "pool_abs p s = Some (se_id se, se_ref se)"
proof -
  obtain se where se: "str_entries p a = Some se" "se_str se = s" "map_of (stringPool p) (se_id se) = Some a"
    using assms unfolding pool_ok_def by blast
  moreover have "entry_ok p (se_id se) a" using se(3) assms(1) by (simp add: pool_ok_def)
  ultimately show ?thesis using that [OF se] assms(2) by (simp add: entry_ok_def pool_abs_def)
qed

lemma pool_id:
  assumes "pool_ok p" "map_of (stringPool p) i = Some a"
  obtains se where "str_entries p a = Some se" "se_id se = i" "namedStringPool p (se_str se) = Some a" "0 < se_ref se"
    "\<not> no_string (Some (se_str se))" "0x10080 < i" "i \<le> 0x10000 + str_id_begin p"
  using assms that by (auto simp: pool_ok_def entry_ok_def)

lemma pool_above: "pool_ok p \<Longrightarrow> next_entry p \<le> a \<Longrightarrow> str_entries p a = None"
  by (simp add: pool_ok_def)

lemma pool_fresh: "pool_ok p \<Longrightarrow> str_entries p (next_entry p) = None"
  by (simp add: pool_above)

lemma table_unnamed: "namedStringPool p s = None \<Longrightarrow> pool_abs p s = None"
  by (simp add: pool_abs_def)

section \<open>The operations\<close>

lemma recount:
  assumes "pool_ok p" "namedStringPool p s = Some a" "str_entries p a = Some se" "se_str se = s" "0 < n"
  defines "p' \<equiv> p\<lparr>str_entries := (str_entries p)(a \<mapsto> se\<lparr>se_ref := n\<rparr>)\<rparr>"
  shows "pool_ok p'" "pool_abs p' = (pool_abs p)(s \<mapsto> (se_id se, n))"
proof -
  have ref: "0 < n" by (rule assms(5))
  have one: "t = s" if "namedStringPool p t = Some a" for t
    using pool_named [OF assms(1) that] assms(3,4) by (metis option.inject)
  have e: "entry_ok p' i b" if "entry_ok p i b" for i b
    using that assms(2-4) ref by (cases "b = a") (auto simp: entry_ok_def p'_def)
  have n: "\<exists>se. str_entries p' b = Some se \<and> se_str se = t \<and> map_of (stringPool p') (se_id se) = Some b"
    if "namedStringPool p' t = Some b" for t b
  proof -
    have "namedStringPool p t = Some b" using that by (simp add: p'_def)
    then obtain se' where "str_entries p b = Some se'" "se_str se' = t" "map_of (stringPool p) (se_id se') = Some b"
      by (rule pool_named [OF assms(1)])
    then show ?thesis using assms(3) by (cases "b = a") (auto simp: p'_def)
  qed
  have f: "str_entries p' b = None" if "next_entry p' \<le> b" for b
    using that assms(3) pool_fresh [OF assms(1)] pool_above [OF assms(1), of b] by (auto simp: p'_def)
  have same: "stringPool p' = stringPool p" "str_id_begin p' = str_id_begin p" by (simp_all add: p'_def)
  have r: "0x10080 < i \<and> i \<le> 0x10000 + str_id_begin p' \<and> entry_ok p' i b" if "map_of (stringPool p') i = Some b" for i b
    using assms(1) that e unfolding pool_ok_def same by blast
  have "strict_keys (stringPool p)" "128 \<le> str_id_begin p" "str_id_begin p \<le> 65535" using assms(1) by (simp_all only: pool_ok_def)
  then show "pool_ok p'" by (intro pool_okI r n f) (simp_all only: same)
  show "pool_abs p' = (pool_abs p)(s \<mapsto> (se_id se, n))"
  proof
    fix t
    show "pool_abs p' t = ((pool_abs p)(s \<mapsto> (se_id se, n))) t"
    proof (cases "namedStringPool p t")
      case (Some b)
      then show ?thesis using one [of t] assms(2) by (cases "b = a") (auto simp: pool_abs_def p'_def)
    qed (use assms(2) in \<open>auto simp: pool_abs_def p'_def\<close>)
  qed
qed

lemma add_new:
  fixes p :: string_pool
  assumes "pool_ok p" "namedStringPool p s = None" "str_id_begin p < 65535" "\<not> no_string (Some s)"
  defines "b \<equiv> str_id_begin p + 1" and "a \<equiv> next_entry p"
  defines "p' \<equiv> p\<lparr>str_id_begin := b, str_entries := (str_entries p)(a \<mapsto> \<lparr>se_str = s, se_id = b + 65536, se_ref = 1\<rparr>),
    next_entry := a + 1, stringPool := map_put (b + 65536) a (stringPool p), namedStringPool := (namedStringPool p)(s \<mapsto> a)\<rparr>"
  shows "pool_ok p'" "pool_abs p' = (pool_abs p)(s \<mapsto> (b + 65536, 1))"
proof -
  have st: "strict_keys (stringPool p)" "128 \<le> str_id_begin p" using assms(1) by (simp_all add: pool_ok_def)
  have m: "map_of (stringPool p') = (map_of (stringPool p))(b + 65536 \<mapsto> a)" using st by (simp add: p'_def)
  have free: "map_of (stringPool p) (b + 65536) = None" using newStrId_fresh(2) [OF assms(1,3)] by (simp add: b_def)
  have old: "c \<noteq> a" if "str_entries p c = Some se" for c se using that pool_fresh [OF assms(1)] by (auto simp: a_def)
  have r: "0x10080 < i \<and> i \<le> 0x10000 + b \<and> entry_ok p' i c" if "map_of (stringPool p') i = Some c" for i c
  proof (cases "i = b + 65536")
    case True
    then show ?thesis using that m st assms(4) by (simp add: b_def entry_ok_def p'_def)
  next
    case False
    then have "map_of (stringPool p) i = Some c" using that m by simp
    then obtain se where se: "str_entries p c = Some se" "se_id se = i" "namedStringPool p (se_str se) = Some c" "0 < se_ref se"
      "\<not> no_string (Some (se_str se))" "0x10080 < i" "i \<le> 0x10000 + str_id_begin p" by (rule pool_id [OF assms(1)])
    then have "se_str se \<noteq> s" using assms(2) by auto
    then show ?thesis using se old [OF se(1)] by (simp add: b_def entry_ok_def p'_def)
  qed
  have n: "\<exists>se. str_entries p' c = Some se \<and> se_str se = t \<and> map_of (stringPool p') (se_id se) = Some c"
    if "namedStringPool p' t = Some c" for t c
  proof (cases "t = s")
    case True
    then show ?thesis using that m by (simp add: p'_def)
  next
    case False
    then have "namedStringPool p t = Some c" using that by (simp add: p'_def)
    then obtain se where se: "str_entries p c = Some se" "se_str se = t" "map_of (stringPool p) (se_id se) = Some c"
      by (rule pool_named [OF assms(1)])
    then have "se_id se \<noteq> b + 65536" using free by auto
    then show ?thesis using se old [OF se(1)] m by (simp add: p'_def)
  qed
  have f: "str_entries p' c = None" if "next_entry p' \<le> c" for c
    using that pool_above [OF assms(1), of c] by (auto simp: p'_def a_def)
  have same: "str_id_begin p' = b" by (simp add: p'_def)
  have "strict_keys (stringPool p')" using st by (simp add: p'_def strict_map_put)
  then show "pool_ok p'" using st assms(3) by (intro pool_okI r [folded same] n f) (simp_all add: same b_def)
  show "pool_abs p' = (pool_abs p)(s \<mapsto> (b + 65536, 1))"
  proof
    fix t
    have "c \<noteq> a" if "namedStringPool p t = Some c" for c using pool_named [OF assms(1) that] old by metis
    then show "pool_abs p' t = ((pool_abs p)(s \<mapsto> (b + 65536, 1))) t"
      by (cases "namedStringPool p t") (auto simp: pool_abs_def p'_def)
  qed
qed

lemma addString_table:
  assumes "pool_ok p" "str_id_begin p < 65535"
  shows "\<exists>i p'. addString str p = Inr (i, p') \<and> pool_ok p' \<and> table_op (Add_String str) (table_of p) = (i, table_of p') \<and>
    str_id_begin p' \<le> str_id_begin p + 1"
proof (cases "no_string str")
  case True
  then show ?thesis using assms by (simp add: addString_def table_of_def)
next
  case False
  then obtain s where s: "str = Some s" by (auto simp: no_string_def)
  show ?thesis
  proof (cases "namedStringPool p s")
    case None
    then show ?thesis using add_new [OF assms(1) None assms(2)] False s newStrId_fresh(1) [OF assms] assms(1)
      by (simp add: addString_def table_of_def Let_def table_unnamed add_ac pool_ok_def [of p])
  next
    case (Some a)
    then obtain se where se: "str_entries p a = Some se" "se_str se = s" "pool_abs p s = Some (se_id se, se_ref se)" "0 < se_ref se"
      by (rule pool_named [OF assms(1)])
    then show ?thesis using recount [OF assms(1) Some se(1,2), of "se_ref se + 1"] False s Some
      by (simp add: addString_def table_of_def get_entry_def)
  qed
qed

lemma remove_one:
  assumes "pool_ok p" "map_of (stringPool p) i = Some a" "str_entries p a = Some se" "se_ref se = 1"
  defines "p' \<equiv> p\<lparr>str_entries := (str_entries p)(a := None), stringPool := map_erase i (stringPool p),
    namedStringPool := (namedStringPool p)(se_str se := None)\<rparr>"
  shows "pool_ok p'" "pool_abs p' = (pool_abs p)(se_str se := None)"
proof -
  obtain "se_id se = i" and nm: "namedStringPool p (se_str se) = Some a"
    using pool_id [OF assms(1,2)] assms(3) by (metis option.inject)
  have other: "b \<noteq> a" if "namedStringPool p t = Some b" "t \<noteq> se_str se" for t b
    using pool_named [OF assms(1) that(1)] that(2) assms(3) by (metis option.inject)
  have r: "0x10080 < j \<and> j \<le> 0x10000 + str_id_begin p' \<and> entry_ok p' j b" if "map_of (stringPool p') j = Some b" for j b
  proof -
    have "map_of (stringPool p) j = Some b" "j \<noteq> i" using that by (auto simp: p'_def split: if_splits)
    then obtain se' where e: "str_entries p b = Some se'" "se_id se' = j" "namedStringPool p (se_str se') = Some b" "0 < se_ref se'"
      "\<not> no_string (Some (se_str se'))" "0x10080 < j" "j \<le> 0x10000 + str_id_begin p" by (metis pool_id [OF assms(1)])
    moreover have "b \<noteq> a" using e(1,2) assms(3) \<open>se_id se = i\<close> \<open>j \<noteq> i\<close> by auto
    moreover have "se_str se' \<noteq> se_str se" using e(3) nm \<open>b \<noteq> a\<close> by auto
    ultimately show ?thesis by (simp add: entry_ok_def p'_def)
  qed
  have n: "\<exists>se. str_entries p' b = Some se \<and> se_str se = t \<and> map_of (stringPool p') (se_id se) = Some b"
    if "namedStringPool p' t = Some b" for t b
  proof -
    have t: "namedStringPool p t = Some b" "t \<noteq> se_str se" using that by (auto simp: p'_def split: if_splits)
    obtain se' where "str_entries p b = Some se'" "se_str se' = t" "map_of (stringPool p) (se_id se') = Some b"
      using t(1) by (rule pool_named [OF assms(1)])
    moreover have "b \<noteq> a" using other t by blast
    ultimately show ?thesis using assms(2) by (auto simp: p'_def)
  qed
  have f: "str_entries p' b = None" if "next_entry p' \<le> b" for b using that pool_above [OF assms(1), of b] by (simp add: p'_def)
  have "strict_keys (stringPool p')" "128 \<le> str_id_begin p'" "str_id_begin p' \<le> 65535"
    using assms(1) by (simp_all add: pool_ok_def p'_def strict_map_erase)
  then show "pool_ok p'" by (intro pool_okI r n f)
  show "pool_abs p' = (pool_abs p)(se_str se := None)"
  proof
    fix t
    show "pool_abs p' t = ((pool_abs p)(se_str se := None)) t"
      using other [of t] by (cases "namedStringPool p t") (auto simp: pool_abs_def p'_def)
  qed
qed

lemma remove_many:
  assumes "pool_ok p" "map_of (stringPool p) i = Some a" "str_entries p a = Some se" "1 < se_ref se"
  defines "p' \<equiv> p\<lparr>str_entries := (str_entries p)(a \<mapsto> se\<lparr>se_ref := se_ref se - 1\<rparr>)\<rparr>"
  shows "pool_ok p'" "pool_abs p' = (pool_abs p)(se_str se \<mapsto> (i, se_ref se - 1))"
proof -
  have se: "se_id se = i" "namedStringPool p (se_str se) = Some a"
    using pool_id [OF assms(1,2)] assms(3) by (metis option.inject)+
  show "pool_ok p'"
    using recount(1) [OF assms(1) se(2) assms(3) refl, of "se_ref se - 1"] assms(4) by (simp add: p'_def)
  show "pool_abs p' = (pool_abs p)(se_str se \<mapsto> (i, se_ref se - 1))"
    using recount(2) [OF assms(1) se(2) assms(3) refl, of "se_ref se - 1"] assms(4) se(1) by (simp add: p'_def)
qed

lemma removeString_table:
  assumes "pool_ok p"
  shows "\<exists>p'. removeString i p = Inr (1, p') \<and> pool_ok p' \<and> table_op (Remove_String i) (table_of p) = (1, table_of p') \<and>
    str_id_begin p' = str_id_begin p"
proof (cases "map_of (stringPool p) i")
  case None
  have "snd (snd (table_op (Remove_String i) (pool_abs p, str_id_begin p))) = str_id_begin p" by simp
  moreover have "fst (snd (table_op (Remove_String i) (pool_abs p, str_id_begin p))) s = pool_abs p s" for s
  proof (cases "namedStringPool p s")
    case (Some a)
    then obtain se where "str_entries p a = Some se" "se_str se = s" "map_of (stringPool p) (se_id se) = Some a"
      "0 < se_ref se" "\<not> no_string (Some s)" "pool_abs p s = Some (se_id se, se_ref se)" by (rule pool_named [OF assms])
    moreover from this have "se_id se \<noteq> i" using None by auto
    ultimately show ?thesis by simp
  qed (simp add: table_unnamed)
  ultimately show ?thesis using None assms by (auto simp: removeString_def table_of_def fun_eq_iff)
next
  case (Some a)
  then obtain se where se: "str_entries p a = Some se" "se_id se = i" "namedStringPool p (se_str se) = Some a" "0 < se_ref se"
    by (rule pool_id [OF assms])
  have abs: "pool_abs p (se_str se) = Some (i, se_ref se)" using se by (simp add: pool_abs_def)
  have other: "j \<noteq> i" if s: "s \<noteq> se_str se" "pool_abs p s = Some (j, n)" for s j n
  proof -
    obtain b where b: "namedStringPool p s = Some b" using s(2) by (cases "namedStringPool p s") (auto simp: pool_abs_def)
    then obtain se' where "str_entries p b = Some se'" "se_str se' = s" "map_of (stringPool p) (se_id se') = Some b"
      "pool_abs p s = Some (se_id se', se_ref se')" by (rule pool_named [OF assms])
    then show ?thesis using s Some se(1) by auto
  qed
  have t: "(case pool_abs p s of None \<Rightarrow> None | Some (j, n) \<Rightarrow> if j \<noteq> i then Some (j, n) else if n = 1 then None else Some (j, n - 1)) =
      (if s = se_str se then if se_ref se = 1 then None else Some (i, se_ref se - 1) else pool_abs p s)" for s
    using abs other [of s] by (cases "pool_abs p s") auto
  show ?thesis
  proof (cases "se_ref se = 1")
    case True
    then show ?thesis using remove_one [OF assms Some se(1) True] Some se(1)
      by (simp add: removeString_def get_entry_def table_of_def t fun_eq_iff)
  next
    case False
    then have "1 < se_ref se" using se(4) by simp
    then show ?thesis using remove_many [OF assms Some se(1)] Some se(1)
      by (simp add: removeString_def get_entry_def table_of_def t fun_eq_iff Let_def)
  qed
qed

lemma pool_step_table:
  assumes "pool_ok p" "str_id_begin p < 65535"
  shows "\<exists>i p'. pool_step x p = Inr (i, p') \<and> pool_ok p' \<and> table_op x (table_of p) = (i, table_of p') \<and> str_id_begin p' \<le> str_id_begin p + 1"
  using addString_table [OF assms] removeString_table [OF assms(1)] by (cases x) fastforce+

interpretation str_table: specified_server pool_step table_op "\<lambda>p x. str_id_begin p < 65535" "\<lambda>p t. pool_ok p \<and> table_of p = t"
proof
  fix p t x
  assume "pool_ok p \<and> table_of p = t" "str_id_begin p < 65535"
  then obtain i p' where "pool_step x p = Inr (i, p')" "pool_ok p'" "table_op x t = (i, table_of p')"
    using pool_step_table [of p x] by auto
  then show "\<exists>p'. pool_step x p = Inr (fst (table_op x t), p') \<and> pool_ok p' \<and> table_of p' = snd (table_op x t)" by simp
qed

lemma enough_ids:
  "pool_ok p \<Longrightarrow> str_id_begin p + int (length xs) \<le> 65535 \<Longrightarrow> requests_allowed pool_step (\<lambda>p x. str_id_begin p < 65535) xs p"
proof (induction xs arbitrary: p)
  case (Cons x xs)
  have b: "str_id_begin p < 65535" using Cons.prems(2) by simp
  then obtain i p1 where "pool_step x p = Inr (i, p1)" "pool_ok p1" "str_id_begin p1 \<le> str_id_begin p + 1"
    using pool_step_table [OF Cons.prems(1)] by blast
  then show ?case using Cons.IH [of p1] Cons.prems(2) b by simp
qed simp

lemma run_pool_table:
  assumes "pool_ok p" "str_id_begin p + int (length xs) \<le> 65535"
  shows "\<exists>js p'. run_requests pool_step xs p = Inr (js, p') \<and> run_spec table_op xs (table_of p) = (js, table_of p') \<and> pool_ok p'"
  using str_table.run_refines [of p "table_of p" xs] enough_ids [OF assms] assms(1) by (metis prod.collapse)

lemma table_lookup:
  assumes "pool_ok p" "pool_abs p s = Some (i, n)"
  shows "stringToId (Some s) p = Inr i" "getString' i p = Inr (Some s)" "0x10080 < i" "0 < n"
proof -
  obtain a where a: "namedStringPool p s = Some a" using assms(2) by (cases "namedStringPool p s") (auto simp: pool_abs_def)
  then obtain se where se: "str_entries p a = Some se" "se_str se = s" "map_of (stringPool p) (se_id se) = Some a" "0 < se_ref se"
    "\<not> no_string (Some s)" "pool_abs p s = Some (se_id se, se_ref se)" by (rule pool_named [OF assms(1)])
  then show "stringToId (Some s) p = Inr i" "0 < n" using a assms(2) by (simp_all add: stringToId_def get_entry_def)
  have "0x10080 < se_id se" using pool_id [OF assms(1) se(3)] se(1) by (metis option.inject)
  then show "getString' i p = Inr (Some s)" "0x10080 < i" using se assms(2) by (simp_all add: getString'_def get_entry_def)
qed

lemma table_missing: "pool_ok p \<Longrightarrow> pool_abs p s = None \<Longrightarrow> stringToId (Some s) p = Inr (-1)"
  by (cases "namedStringPool p s") (auto simp: stringToId_def elim: pool_named)

lemma table_below:
  assumes "pool_ok p" "pool_abs p s = Some (i, n)" shows "i \<le> 0x10000 + str_id_begin p"
proof -
  obtain a where a: "namedStringPool p s = Some a" using assms(2) by (cases "namedStringPool p s") (auto simp: pool_abs_def)
  then obtain se where se: "str_entries p a = Some se" "se_str se = s" "map_of (stringPool p) (se_id se) = Some a" "0 < se_ref se"
    "\<not> no_string (Some s)" "pool_abs p s = Some (se_id se, se_ref se)" by (rule pool_named [OF assms(1)])
  then show ?thesis using pool_id [OF assms(1) se(3)] assms(2) by (metis fst_conv option.inject)
qed

text \<open>A string added and removed again and again uses up the ids.\<close>

definition churn :: "char list \<Rightarrow> int \<Rightarrow> nat \<Rightarrow> pool_op list" where
  "churn t i n = concat (map (\<lambda>k. [Add_String (Some t), Remove_String (i + int k)]) [0..<n])"

lemma churn_once:
  assumes "pool_ok p" "str_id_begin p < 65535" "pool_abs p t = None" "\<not> no_string (Some t)"
  shows "\<exists>js p'. run_requests pool_step [Add_String (Some t), Remove_String (0x10001 + str_id_begin p)] p = Inr (js, p') \<and> pool_ok p' \<and>
    pool_abs p' = pool_abs p \<and> str_id_begin p' = str_id_begin p + 1"
proof -
  let ?i = "0x10001 + str_id_begin p"
  obtain p1 where p1: "addString (Some t) p = Inr (?i, p1)" "pool_ok p1" "pool_abs p1 = (pool_abs p)(t \<mapsto> (?i, 1))"
    "str_id_begin p1 = str_id_begin p + 1"
    using addString_table [OF assms(1,2), of "Some t"] assms(3,4) by (auto simp: table_of_def)
  obtain p2 where p2: "removeString ?i p1 = Inr (1, p2)" "pool_ok p2" "str_id_begin p2 = str_id_begin p1"
    "table_op (Remove_String ?i) (table_of p1) = (1, table_of p2)" using removeString_table [OF p1(2), of ?i] by blast
  have "(\<lambda>s. case pool_abs p1 s of None \<Rightarrow> None
      | Some (j, n) \<Rightarrow> if j \<noteq> ?i then Some (j, n) else if n = 1 then None else Some (j, n - 1)) = pool_abs p2"
    using p2(4) by (simp add: table_of_def)
  from fun_cong [OF this] have abs: "pool_abs p2 s = (case pool_abs p1 s of None \<Rightarrow> None
      | Some (j, n) \<Rightarrow> if j \<noteq> ?i then Some (j, n) else if n = 1 then None else Some (j, n - 1))" for s by (rule sym)
  have "pool_abs p2 s = pool_abs p s" for s
  proof (cases "s = t")
    case True
    then show ?thesis using abs [of s] p1(3) assms(3) by simp
  next
    case False
    then have "pool_abs p2 s = (case pool_abs p s of None \<Rightarrow> None
      | Some (j, n) \<Rightarrow> if j \<noteq> ?i then Some (j, n) else if n = 1 then None else Some (j, n - 1))"
      using abs [of s] p1(3) by simp
    moreover have "j \<noteq> ?i" if "pool_abs p s = Some (j, n)" for j n using table_below [OF assms(1) that] by simp
    ultimately show ?thesis by (cases "pool_abs p s") auto
  qed
  then show ?thesis using p1 p2 by (simp add: fun_eq_iff)
qed

lemma churn_many:
  assumes "pool_ok p" "str_id_begin p + int n \<le> 65535" "pool_abs p t = None" "\<not> no_string (Some t)"
  shows "\<exists>js p'. run_requests pool_step (churn t (0x10001 + str_id_begin p) n) p = Inr (js, p') \<and> pool_ok p' \<and>
    pool_abs p' = pool_abs p \<and> str_id_begin p' = str_id_begin p + int n"
  using assms(2)
proof (induction n)
  case (Suc n)
  then obtain js p1 where p1: "run_requests pool_step (churn t (0x10001 + str_id_begin p) n) p = Inr (js, p1)" "pool_ok p1"
    "pool_abs p1 = pool_abs p" "str_id_begin p1 = str_id_begin p + int n" by auto
  have "str_id_begin p1 < 65535" "pool_abs p1 t = None" using Suc.prems p1 assms(3) by simp_all
  from churn_once [OF p1(2) this assms(4)] obtain ks p2 where p2:
    "run_requests pool_step [Add_String (Some t), Remove_String (0x10001 + str_id_begin p1)] p1 = Inr (ks, p2)" "pool_ok p2"
    "pool_abs p2 = pool_abs p1" "str_id_begin p2 = str_id_begin p1 + 1" by blast
  have "churn t (0x10001 + str_id_begin p) (Suc n) =
      churn t (0x10001 + str_id_begin p) n @ [Add_String (Some t), Remove_String (0x10001 + str_id_begin p1)]"
    by (simp add: churn_def p1(4))
  then have "run_requests pool_step (churn t (0x10001 + str_id_begin p) (Suc n)) p = Inr (js @ ks, p2)"
    using p1(1) p2(1) by (simp only: run_requests_append) simp
  then show ?case using p1 p2 by simp
qed (use assms(1) in \<open>simp add: churn_def\<close>)

lemma newStrId_wraps:
  assumes "pool_ok p" "str_id_begin p = 65535"
  shows "newStrId p = (0x10081, p\<lparr>str_id_begin := 129\<rparr>)"
proof -
  have "map_of (stringPool p) 129 = None" using pool_ids [OF assms(1)] by (fastforce simp: map_of_eq_None_iff)
  moreover have "or 129 (push_bit 16 1) = (0x10081::int)" by code_simp
  ultimately show ?thesis using pool_size [OF assms(1)] assms(2)
    by (simp add: newStrId_def Let_def NCSRM_SYSSTR_MAXID_def)
qed

section \<open>What the pool promises\<close>

text \<open>
  C5: Up to 65407 additions and removals on an empty string pool give the ids and leave the content
  of a table from strings to an id and a count: equal strings share an id, a string goes when its
  count falls to zero, and ids and strings lead to each other.
\<close>

theorem string_pool_refines_table:
  assumes "length xs \<le> 65407"
  shows "\<exists>js p T b. run_requests pool_step xs empty_pool = Inr (js, p) \<and> run_spec table_op xs (Map.empty, 128) = (js, T, b) \<and>
    (\<forall>s. stringToId (Some s) p = Inr (case T s of None \<Rightarrow> -1 | Some (i, n) \<Rightarrow> i)) \<and>
    (\<forall>s i n. T s = Some (i, n) \<longrightarrow> 0 < n \<and> getString' i p = Inr (Some s))"
proof -
  have "table_of empty_pool = (Map.empty, 128)"
    by (simp add: table_of_def pool_abs_def empty_pool_def NCSRM_SYSSTR_MAXID_def fun_eq_iff)
  moreover have "str_id_begin empty_pool = 128" by (simp add: empty_pool_def NCSRM_SYSSTR_MAXID_def)
  ultimately obtain js p where p: "run_requests pool_step xs empty_pool = Inr (js, p)" "run_spec table_op xs (Map.empty, 128) = (js, pool_abs p, str_id_begin p)"
    "pool_ok p" using run_pool_table [OF pool_ok_empty, of xs] assms by (auto simp: table_of_def)
  have "stringToId (Some s) p = Inr (case pool_abs p s of None \<Rightarrow> -1 | Some (i, n) \<Rightarrow> i)" for s
    using table_lookup(1) [OF p(3)] table_missing [OF p(3)] by (cases "pool_abs p s") auto
  then show ?thesis using p table_lookup [OF p(3)] by blast
qed

lemma string_pool_refines_table_witness:
  "\<exists>js p T b. run_requests pool_step [Add_String (Some ''a''), Add_String (Some ''b''), Remove_String 0x10081] empty_pool = Inr (js, p) \<and>
    run_spec table_op [Add_String (Some ''a''), Add_String (Some ''b''), Remove_String 0x10081] (Map.empty, 128) = (js, T, b) \<and>
    (\<forall>s. stringToId (Some s) p = Inr (case T s of None \<Rightarrow> -1 | Some (i, n) \<Rightarrow> i)) \<and>
    (\<forall>s i n. T s = Some (i, n) \<longrightarrow> 0 < n \<and> getString' i p = Inr (Some s))"
  by (rule string_pool_refines_table) simp

text \<open>
  C39: When the ids have run through their range, a new string gets the first id although a string
  of the pool still has it: both strings have the same id, and it leads to the new one.
\<close>

theorem string_ids_collide:
  assumes "\<not> no_string (Some s)" "\<not> no_string (Some t)" "\<not> no_string (Some u)" "distinct [s, t, u]"
  shows "\<exists>js p p'. run_requests pool_step (Add_String (Some s) # churn t 0x10082 65406) empty_pool = Inr (js, p) \<and>
    addString (Some u) p = Inr (0x10081, p') \<and> stringToId (Some s) p' = Inr 0x10081 \<and> stringToId (Some u) p' = Inr 0x10081 \<and>
    getString' 0x10081 p' = Inr (Some u)"
proof -
  have e: "str_id_begin empty_pool = 128" "pool_abs empty_pool = Map.empty"
    by (simp_all add: empty_pool_def NCSRM_SYSSTR_MAXID_def pool_abs_def fun_eq_iff)
  obtain p1 where p1: "addString (Some s) empty_pool = Inr (0x10081, p1)" "pool_ok p1" "pool_abs p1 = [s \<mapsto> (0x10081, 1)]"
    "str_id_begin p1 = 129" using addString_table [OF pool_ok_empty, of "Some s"] assms(1) e by (auto simp: table_of_def)
  obtain js p2 where p2: "run_requests pool_step (churn t 0x10082 65406) p1 = Inr (js, p2)" "pool_ok p2" "pool_abs p2 = [s \<mapsto> (0x10081, 1)]"
    "str_id_begin p2 = 65535" using churn_many [OF p1(2), of 65406 t] p1(3,4) assms(2,4) by auto
  have s2: "pool_abs p2 s = Some (0x10081, 1)" using p2(3) by simp
  obtain a where a: "namedStringPool p2 s = Some a" using s2 by (cases "namedStringPool p2 s") (auto simp: pool_abs_def)
  obtain se where se: "str_entries p2 a = Some se" "se_id se = 0x10081" using a s2
    by (auto simp: pool_abs_def)
  have u: "namedStringPool p2 u = None"
  proof (rule ccontr)
    assume "namedStringPool p2 u \<noteq> None"
    then obtain b where b: "namedStringPool p2 u = Some b" by blast
    obtain se :: string_entry where "pool_abs p2 u = Some (se_id se, se_ref se)" by (rule pool_named [OF p2(2) b])
    then show False using p2(3) assms(4) by (auto split: if_splits)
  qed
  have "a \<noteq> next_entry p2" using se(1) pool_fresh [OF p2(2)] by auto
  moreover have "strict_keys (stringPool p2)" using p2(2) by (simp add: pool_ok_def)
  ultimately show ?thesis using p1(1) p2(1) newStrId_wraps [OF p2(2,4)] a se u assms
    by (auto simp: addString_def [of "Some u"] Let_def stringToId_def getString'_def get_entry_def)
qed

lemma string_ids_collide_witness:
  "\<exists>js p p'. run_requests pool_step (Add_String (Some ''a'') # churn ''b'' 0x10082 65406) empty_pool = Inr (js, p) \<and>
    addString (Some ''c'') p = Inr (0x10081, p') \<and> stringToId (Some ''a'') p' = Inr 0x10081 \<and> stringToId (Some ''c'') p' = Inr 0x10081 \<and>
    getString' 0x10081 p' = Inr (Some ''c'')"
  by (rule string_ids_collide) (simp_all add: no_string_def)

end
