(* ===== verification/Package_Readback.thy ===== *)
theory Package_Readback
  imports String_Pool
begin

text \<open>
  What the reader of packages (\<open>tools/res2c/resource.c\<close>, in \<open>Res_Package\<close>) finds in a package that the main frame
  (\<open>Package_Writer\<close>) has written: every string of the pool by its id, whatever sections the editors wrote before. The strings
  the windows and renderers add while they are saved are among them. The locale \<open>saving\<close> says what saving keeps; it is interpreted for
  what was written before and for the pool.
\<close>

section \<open>Writing at a position\<close>

text \<open>A stream that writes numbers lowest byte first, on a file with content \<open>b\<close> at position \<open>p\<close>.\<close>

definition bin_at :: "bin_stream \<Rightarrow> char list \<Rightarrow> nat \<Rightarrow> bool" where
  "bin_at bin b p \<longleftrightarrow> (\<forall>w. mem32 (bs_sys bin) (to32 bin w) = le32 w) \<and> (\<exists>s. bs_storage bin = Some s \<and> fs_file s = Some (b, p))"

lemma bin_at_start: "bin_at (BinStream sys (Some (FileStreamStorage True)) LITTLE_ENDIAN) [] 0"
  by (cases sys) (simp_all add: bin_at_def BinStream_def mem32_def FileStreamStorage_def rev_switch_uint32)

lemma overwrite_Nil [simp]: "p \<le> length b \<Longrightarrow> overwrite b p [] = b"
  by (simp add: overwrite_def)

lemma overwrite_chain: "p \<le> length b \<Longrightarrow> overwrite (overwrite b p d) (p + length d) e = overwrite b p (d @ e)"
  by (simp add: overwrite_def add.commute add.left_commute)

lemma overwrite_end: "overwrite b (length b) d = b @ d"
  by (simp add: overwrite_def)

lemma length_overwrite: "p \<le> length b \<Longrightarrow> length (overwrite b p d) = max (length b) (p + length d)"
  by (simp add: overwrite_def)

lemma overwrite_behind: "length a \<le> p \<Longrightarrow> overwrite (a @ c) p d = a @ overwrite c (p - length a) d"
  by (simp add: overwrite_def)

lemma bin_at_write_any: "bin_at bin b p \<Longrightarrow> d \<noteq> [] \<Longrightarrow> bin_at (bs_write d bin) (overwrite b p d) (p + length d)"
  by (auto simp: bin_at_def bs_write_def fss_write_def)

lemma bin_at_write: "bin_at bin b p \<Longrightarrow> p \<le> length b \<Longrightarrow> bin_at (bs_write d bin) (overwrite b p d) (p + length d)"
  by (cases "d = []") (auto simp: bin_at_write_any, auto simp: bin_at_def bs_write_def)

lemma bin_at_save32: "bin_at bin b p \<Longrightarrow> p \<le> length b \<Longrightarrow> bin_at (save32 w bin) (overwrite b p (le32 w)) (p + 4)"
  using bin_at_write [of bin b p "le32 w"] by (simp add: save32_def bin_at_def)

lemma bin_at_save8Arr: "bin_at bin b p \<Longrightarrow> p \<le> length b \<Longrightarrow> bin_at (save8Arr (Some d) bin) (overwrite b p d) (p + length d)"
  by (simp add: save8Arr_def bin_at_write)

lemma bin_at_seek: "bin_at bin b p \<Longrightarrow> 0 \<le> q \<Longrightarrow> bin_at (bs_seek q seek_begin bin) b (nat q)"
  by (auto simp: bin_at_def bs_seek_def stream_seek_def fss_seek_def)

lemma bin_at_seek_end: "bin_at bin b p \<Longrightarrow> bin_at (bs_seek 0 seek_end bin) b (length b)"
  by (auto simp: bin_at_def bs_seek_def stream_seek_def fss_seek_def)

lemma bin_at_tell: "bin_at bin b p \<Longrightarrow> bs_tell bin = int p"
  by (auto simp: bin_at_def bs_tell_def stream_tell_def fss_tell_def)

text \<open>At the end of the file.\<close>

lemma ends_save32: "bin_at bin b (length b) \<Longrightarrow> bin_at (save32 w bin) (b @ le32 w) (length (b @ le32 w))"
  using bin_at_save32 [of bin b "length b" w] by (simp add: overwrite_end)

lemma ends_save8Arr: "bin_at bin b (length b) \<Longrightarrow> bin_at (save8Arr (Some d) bin) (b @ d) (length (b @ d))"
  using bin_at_save8Arr [of bin b "length b" d] by (simp add: overwrite_end)

section \<open>What comes before stays\<close>

text \<open>The file begins with \<open>a\<close>, and the position is behind it.\<close>

definition keeps_front :: "bin_stream \<Rightarrow> char list \<Rightarrow> bool" where
  "keeps_front bin a \<longleftrightarrow> (\<exists>c p. bin_at bin (a @ c) p \<and> length a \<le> p)"

lemma keepsE:
  assumes "keeps_front bin a" obtains c p where "bin_at bin (a @ c) p" "length a \<le> p"
  using assms by (auto simp: keeps_front_def)

lemma keepsI: "bin_at bin (a @ c) p \<Longrightarrow> length a \<le> p \<Longrightarrow> keeps_front bin a"
  by (auto simp: keeps_front_def)

lemma keeps_write [intro!]: "keeps_front bin a \<Longrightarrow> keeps_front (bs_write d bin) a"
proof (cases "d = []")
  case True
  moreover have "fss_write [] = (\<lambda>s. s)" by (simp add: fun_eq_iff)
  then have "bs_write [] bin = bin" by (cases bin) (simp add: bs_write_def option.map_ident)
  ultimately show "keeps_front bin a \<Longrightarrow> ?thesis" by simp
next
  case False
  assume "keeps_front bin a"
  then obtain c p where c: "bin_at bin (a @ c) p" "length a \<le> p" by (rule keepsE)
  have "bin_at (bs_write d bin) (a @ overwrite c (p - length a) d) (p + length d)"
    using bin_at_write_any [OF c(1) False] c(2) by (simp add: overwrite_behind)
  from keepsI [OF this] show ?thesis using c(2) by simp
qed

lemma keeps_save32 [intro!]: "keeps_front bin a \<Longrightarrow> keeps_front (save32 w bin) a"
  by (simp add: save32_def keeps_write)

lemma keeps_save8Arr [intro!]: "keeps_front bin a \<Longrightarrow> keeps_front (save8Arr (Some d) bin) a"
  by (simp add: save8Arr_def keeps_write)

lemma keeps_power [intro!]: "keeps_front bin a \<Longrightarrow> keeps_front ((save8Arr (Some d) ^^ n) bin) a"
  by (induction n) auto

lemma keeps_seek_end [intro!]: "keeps_front bin a \<Longrightarrow> keeps_front (bs_seek 0 seek_end bin) a"
  by (erule keepsE, rule keepsI, erule bin_at_seek_end) simp

lemma keeps_seek [intro!]: "keeps_front bin a \<Longrightarrow> int (length a) \<le> q \<Longrightarrow> keeps_front (bs_seek q seek_begin bin) a"
  by (erule keepsE, rule keepsI, erule bin_at_seek) simp_all

lemma keeps_tell: "keeps_front bin a \<Longrightarrow> int (length a) \<le> bs_tell bin"
  by (erule keepsE) (simp add: bin_at_tell)

section \<open>The loop over the properties of a window\<close>

lemma lower_bound_all: "strict_keys fs \<Longrightarrow> f \<in> set (lower_bound k fs) \<Longrightarrow> k \<le> fst f"
  unfolding lower_bound_def strict_keys_def
  by (induction fs) (auto split: if_splits)

text \<open>The loop returns when no field has the number \<open>PropExtendBegin\<close>.\<close>

lemma save_win_props_above: "\<forall>f\<in>set rest. PropExtendBegin < fst f \<Longrightarrow> save_win_props fs rest st \<noteq> None"
proof (induction rest arbitrary: st)
  case (Cons x xs)
  then have "\<not> fst x \<le> PropExtendBegin" by simp
  then show ?case using Cons
    by (cases "save_win_prop (snd x) st") (simp_all add: save_win_props.simps [of fs "x # xs"])
qed (simp add: save_win_props.simps [of fs "[]"])

lemma save_win_props_returns:
  assumes "strict_keys fs" "\<forall>f\<in>set fs. fst f \<noteq> PropExtendBegin"
  shows "save_win_props fs rest st \<noteq> None"
proof (induction rest arbitrary: st)
  case (Cons x xs)
  have "PropExtendBegin < fst f" if "f \<in> set (lower_bound PropExtendBegin fs)" for f
  proof -
    have "f \<in> set fs" using that by (auto simp: lower_bound_def dest: set_dropWhileD)
    then show ?thesis using lower_bound_all [OF assms(1) that] assms(2) by force
  qed
  then have "save_win_props fs (lower_bound PropExtendBegin fs) st \<noteq> None" for st by (intro save_win_props_above) blast
  then show ?case using Cons
    by (cases "save_win_prop (snd x) st") (simp_all add: save_win_props.simps [of fs "x # xs"])
qed (simp add: save_win_props.simps [of fs "[]"])

text \<open>With such a field it does not: it finds the field again and again, and the file grows for ever.\<close>

lemma save_win_props_endless:
  assumes "lower_bound PropExtendBegin fs = f # rest" "fst f = PropExtendBegin"
  shows "save_win_props fs (f # rest) st \<noteq> Some (Inr st')"
proof
  assume e: "save_win_props fs (f # rest) st = Some (Inr st')"
  define P where "P = (\<lambda>(fs' :: (int \<times> (32 word \<times> 32 word \<times> res_value) option) list) (rest' :: (int \<times> (32 word \<times> 32 word \<times> res_value) option) list)
    (st :: int \<times> bin_stream \<times> string_pool) (r :: (int \<times> bin_stream \<times> string_pool) res). fs' = fs \<and> rest' = f # rest \<longrightarrow> (\<exists>e. r = Inl e))"
  have "P fs (f # rest) st (Inr st')"
  proof (rule save_win_props.raw_induct [where P = P, OF _ e], goal_cases)
    case (1 h fs' rest' st r)
    show ?case unfolding P_def
    proof (intro impI, elim conjE)
      assume s: "fs' = fs" "rest' = f # rest"
      show "\<exists>e. r = Inl e"
      proof (cases "save_win_prop (snd f) st")
        case (Inl e)
        then show ?thesis using 1(2) unfolding s list.case Inl ubind_simps by blast
      next
        case (Inr st1)
        have "h fs (f # rest) st1 = Some r"
          using 1(2) assms unfolding s list.case Inr ubind_simps by (simp add: PropExtendBegin_def PropExtendEnd_def PropClass_def)
        from 1(1) [OF this] show ?thesis unfolding P_def by blast
      qed
    qed
  qed
  then show False unfolding P_def by blast
qed

section \<open>Sections\<close>

text \<open>What holds of every result that is not a fault, and of every one a loop returns.\<close>

definition res_all :: "('a \<Rightarrow> bool) \<Rightarrow> 'a res \<Rightarrow> bool" where "res_all P r \<longleftrightarrow> (\<forall>x. r = Inr x \<longrightarrow> P x)"

lemma res_all_Inl: "res_all P (Inl f)" and res_all_Inr: "res_all P (Inr x) \<longleftrightarrow> P x" and res_all_True: "res_all (\<lambda>_. True) r"
  by (simp_all add: res_all_def)

lemma res_all_bind: "res_all Q m \<Longrightarrow> (\<And>x. Q x \<Longrightarrow> res_all P (k x)) \<Longrightarrow> res_all P (rbind m k)"
  by (auto simp: res_all_def rbind_eq_Inr)

definition run_all :: "('a \<Rightarrow> bool) \<Rightarrow> 'a run \<Rightarrow> bool" where "run_all P r \<longleftrightarrow> (\<forall>x. r = Some (Inr x) \<longrightarrow> P x)"

lemma run_all_Inr: "run_all P (Some (Inr x)) \<longleftrightarrow> P x" and run_all_res: "run_all P (Some r) \<longleftrightarrow> res_all P r"
  by (simp_all add: run_all_def res_all_def)

lemma run_all_bind: "run_all Q m \<Longrightarrow> (\<And>x. Q x \<Longrightarrow> run_all P (k x)) \<Longrightarrow> run_all P (ubind m k)"
  by (auto simp: run_all_def ubind_eq_Inr)

text \<open>
  What the editors need of a property \<open>K\<close> of the stream and a property \<open>L\<close> of the pool, so that saving keeps both: writing
  keeps \<open>K\<close>, going to a position that \<open>pos\<close> allows too, and adding a string keeps \<open>L\<close>.
\<close>

locale saving =
  fixes K :: "bin_stream \<Rightarrow> bool"
    and L :: "string_pool \<Rightarrow> bool"
    and pos :: "int \<Rightarrow> bool"
  assumes K_save32: "K bin \<Longrightarrow> K (save32 w bin)"
    and K_save8Arr: "K bin \<Longrightarrow> K (save8Arr (Some d) bin)"
    and K_tell: "K bin \<Longrightarrow> pos (bs_tell bin)"
    and pos_mono: "pos q \<Longrightarrow> q \<le> r \<Longrightarrow> pos r"
    and K_seek: "K bin \<Longrightarrow> pos q \<Longrightarrow> K (bs_seek q seek_begin bin)"
    and K_seek_end: "K bin \<Longrightarrow> K (bs_seek 0 seek_end bin)"
    and L_addString: "L p \<Longrightarrow> addString str p = Inr (i, p') \<Longrightarrow> L p'"
begin

lemmas steps = K_save32 K_save8Arr K_seek K_seek_end K_tell

lemma K_power: "K bin \<Longrightarrow> K ((save8Arr (Some d) ^^ n) bin)" "K bin \<Longrightarrow> K ((save32 w ^^ n) bin)"
  by (induction n) (auto intro: steps)

lemma K_items: "K bin \<Longrightarrow> save_items es q sp bin = (q', sp', bin') \<Longrightarrow> K bin'"
  by (induction es q sp bin rule: save_items.induct) (auto simp: Let_def intro: steps)

lemma K_saveTextBin: "K bin \<Longrightarrow> K (snd (saveTextBin n bin))"
proof -
  assume a: "K bin"
  let ?k = "length (langMap n)"
  let ?bin = "save32 (of_nat ?k) (save32 (of_nat (8 + ?k * 12)) bin)"
  obtain q sp bin2 where r: "save_items (langMap n) (8 + ?k * 12) [] ?bin = (q, sp, bin2)" by (metis prod_cases3)
  have "K bin2" by (rule K_items [OF _ r]) (use a in \<open>auto intro: steps\<close>)
  moreover have "snd (saveTextBin n bin) = bs_seek 0 seek_end (save8Arr (Some (take (q - (8 + ?k * 12)) sp)) bin2)"
    using r by (simp add: saveTextBin_def Let_def)
  ultimately show ?thesis by (auto intro: steps)
qed

lemma K_save_locales: "K bin \<Longrightarrow> pos begin' \<Longrightarrow> K (save_locales i begin' ns bin)"
proof (induction i begin' ns bin rule: save_locales.induct)
  case (2 i begin' n ns bin)
  show ?case unfolding save_locales.simps Let_def
    by (rule "2.IH" [OF refl refl refl refl refl refl]) (use "2.prems" in \<open>auto intro!: K_saveTextBin steps pos_mono [OF "2.prems"(2)]\<close>)
qed simp

lemma K_TextEditor_save:
  assumes "K bin" "TextEditor_save ed bin = Inr bin'" shows "K bin'"
  using assms K_tell [OF assms(1)]
  by (auto simp: TextEditor_save_def Let_def rbind_eq_Inr split: if_splits intro!: K_save_locales K_power steps)

lemma K_save_images: "K bin \<Longrightarrow> K (save_images rs bin)"
  by (induction rs bin rule: save_images.induct) (auto split: option.split intro: steps)

lemma K_ImageEditor_save: "K bin \<Longrightarrow> K (ImageEditor_save rs bin)"
  by (auto simp: ImageEditor_save_def intro!: K_save_images steps)

lemma K_patch_size: "K bin \<Longrightarrow> pos begin' \<Longrightarrow> K (patch_size begin' bin)"
  by (auto simp: patch_size_def Let_def intro!: steps)

lemma K_fold: "K bin \<Longrightarrow> K (fold (\<lambda>i. save32 (f i)) xs bin)"
  by (induction xs arbitrary: bin) (auto intro: steps)

lemma KL_string_id: "K (fst bp) \<and> L (snd bp) \<Longrightarrow> save_string_id str bp = Inr bp' \<Longrightarrow> K (fst bp') \<and> L (snd bp')"
  by (auto simp: save_string_id_def rbind_eq_Inr intro: steps L_addString)

lemma KL_value: "K (fst bp) \<and> L (snd bp) \<Longrightarrow> save_value v bp = Inr bp' \<Longrightarrow> K (fst bp') \<and> L (snd bp')"
  by (auto simp: save_value_def toRes_def rbind_eq_Inr intro: steps L_addString split: res_value.splits if_splits)

lemma KL_fields: "K (fst bp) \<and> L (snd bp) \<Longrightarrow> save_fields fs bp = Inr bp' \<Longrightarrow> K (fst bp') \<and> L (snd bp')"
proof (induction fs bp rule: save_fields.induct)
  case (2 k v fs bin p)
  obtain bp1 where 1: "(case v of FontField str \<Rightarrow> save_string_id str (save32 (word_of_int k) bin, p)
       | ResField w \<Rightarrow> save_value w (save32 (word_of_int k) bin, p)) = Inr bp1" "save_fields fs bp1 = Inr bp'"
    using "2.prems"(2) by (auto simp: rbind_eq_Inr)
  have "K (save32 (word_of_int k) bin) \<and> L p" using "2.prems"(1) by (auto intro: steps)
  then have "K (fst bp1) \<and> L (snd bp1)" using 1(1)
    by (cases v) (auto dest!: KL_string_id [rotated] KL_value [rotated])
  then show ?case using "2.IH" [OF 1(1)] 1(2) by simp
qed simp

lemma KL_rdr: "K (fst bp) \<and> L (snd bp) \<Longrightarrow> save_rdr M r bp = Inr bp' \<Longrightarrow> K (fst bp') \<and> L (snd bp')"
proof (induction M r bp rule: save_rdr.induct)
  case (1 M nm cls fs bp)
  obtain bp1 where 1: "save_string_id (Some nm) bp = Inr bp1" using "1.prems"(2) by (auto simp: rbind_eq_Inr)
  note k1 = KL_string_id [OF "1.prems"(1) 1]
  show ?case
  proof (cases cls)
    case None
    then show ?thesis using 1 k1 "1.prems"(2) by simp
  next
    case (Some c)
    then obtain d bp2 bin3 p3 where 2: "save_string_id (Some d) bp1 = Inr bp2" "save_fields fs bp2 = Inr (bin3, p3)"
      "bp' = (save32 0 (save32 (-1) bin3), p3)" using 1 "1.prems"(2) by (auto simp: rbind_eq_Inr)
    show ?thesis using KL_fields [OF KL_string_id [OF k1 2(1)] 2(2)] unfolding 2(3) by (auto intro: steps)
  qed
next
  case (2 M nm ids bp)
  then obtain bp1 where 1: "save_string_id (Some nm) bp = Inr bp1"
    "bp' = (save32 (-1) (fold (\<lambda>i. save32 (word_of_int i)) ids (fst bp1)), snd bp1)" by (auto simp: rbind_eq_Inr)
  show ?case using KL_string_id [OF "2.prems"(1) 1(1)] unfolding 1(2) by (auto intro: steps K_fold)
qed simp

lemma KL_rdrs: "K (fst bp) \<and> L (snd bp) \<Longrightarrow> pos begin' \<Longrightarrow> save_rdrs M i begin' rs bp = Inr bp' \<Longrightarrow> K (fst bp') \<and> L (snd bp')"
proof (induction M i begin' rs bp rule: save_rdrs.induct)
  case (2 M i begin' k r rs bp)
  obtain bin p where r: "save_rdr M r bp = Inr (bin, p)" using "2.prems"(3) by (auto simp: rbind_eq_Inr Let_def)
  let ?bin = "bs_seek 0 seek_end (save32 (word_of_int (bs_tell (fst bp) - begin')) (save32 0 (save32 (word_of_int k)
    (bs_seek (begin' + 8 + int i * 12) seek_begin bin))))"
  have k: "K (fst (?bin, p)) \<and> L (snd (?bin, p))" using KL_rdr [OF "2.prems"(1) r] "2.prems"(2) by (auto intro!: steps pos_mono [OF "2.prems"(2)])
  show ?case by (rule "2.IH" [OF refl r refl refl refl k "2.prems"(2)]) (use "2.prems"(3) r in \<open>simp add: Let_def\<close>)
qed simp

lemma KL_prop: "K (fst (snd st)) \<and> L (snd (snd st)) \<Longrightarrow> save_win_prop ft st = Inr st' \<Longrightarrow> K (fst (snd st')) \<and> L (snd (snd st'))"
  by (cases ft; cases st) (auto simp: save_win_prop_def rbind_eq_Inr intro!: steps dest!: KL_value [rotated])

lemma KL_props:
  assumes "save_win_props fs rest st = Some (Inr st')" "K (fst (snd st)) \<and> L (snd (snd st))"
  shows "K (fst (snd st')) \<and> L (snd (snd st'))"
proof -
  define P where "P = (\<lambda>(fs :: (int \<times> (32 word \<times> 32 word \<times> res_value) option) list) (rest :: (int \<times> (32 word \<times> 32 word \<times> res_value) option) list)
    (st :: int \<times> bin_stream \<times> string_pool) (r :: (int \<times> bin_stream \<times> string_pool) res).
    K (fst (snd st)) \<and> L (snd (snd st)) \<longrightarrow> (\<forall>st'. r = Inr st' \<longrightarrow> K (fst (snd st')) \<and> L (snd (snd st'))))"
  have "P fs rest st (Inr st')"
  proof (rule save_win_props.raw_induct [where P = P, OF _ assms(1)], goal_cases)
    case (1 f fs rest st r)
    show ?case
    proof (cases rest)
      case Nil
      then show ?thesis using 1(2) by (auto simp: P_def)
    next
      case (Cons x xs)
      show ?thesis
      proof (cases "save_win_prop (snd x) st")
        case (Inl e)
        then show ?thesis using 1(2) Cons by (auto simp: P_def)
      next
        case (Inr st1)
        have k1: "K (fst (snd st)) \<and> L (snd (snd st)) \<Longrightarrow> K (fst (snd st1)) \<and> L (snd (snd st1))" by (rule KL_prop [OF _ Inr])
        show ?thesis
        proof (cases "fst x \<ge> PropExtendEnd")
          case True
          then show ?thesis using 1(2) Cons Inr k1 by (auto simp: P_def)
        next
          case False
          have "f fs (if PropClass \<le> fst x \<and> fst x \<le> PropExtendBegin then lower_bound PropExtendBegin fs else xs) st1 = Some r"
            using 1(2) unfolding Cons list.case Inr ubind_simps if_not_P [OF False] .
          from 1(1) [OF this] show ?thesis using k1 unfolding P_def by blast
        qed
      qed
    qed
  qed
  then show ?thesis using assms(2) unfolding P_def by blast
qed

lemma KL_invisible_props: "K (fst (snd st)) \<and> L (snd (snd st)) \<Longrightarrow> save_invisible_props fs st = Inr st' \<Longrightarrow> K (fst (snd st')) \<and> L (snd (snd st'))"
proof (induction fs st rule: save_invisible_props.induct)
  case (2 k ft fs st)
  show ?case
  proof (cases "k < PropClass")
    case True
    then obtain st1 where 1: "save_win_prop ft st = Inr st1" "save_invisible_props fs st1 = Inr st'" using "2.prems"(2) by (auto simp: rbind_eq_Inr)
    show ?thesis by (rule "2.IH" [OF True 1(1) KL_prop [OF "2.prems"(1) 1(1)] 1(2)])
  qed (use "2.prems" in simp)
qed simp

abbreviation KL :: "bin_stream \<times> string_pool \<Rightarrow> bool" where "KL bp \<equiv> K (fst bp) \<and> L (snd bp)"

lemma KL_save32: "KL bp \<Longrightarrow> KL (save32 w (fst bp), snd bp)"
  by (auto intro: steps)

lemma res_string_id: "KL bp \<Longrightarrow> res_all KL (save_string_id str bp)" and res_value: "KL bp \<Longrightarrow> res_all KL (save_value v bp)"
  unfolding res_all_def using KL_string_id KL_value by blast+

lemma res_win_header: "KL bp \<Longrightarrow> res_all KL (save_win_header M w bp)"
  unfolding save_win_header_def
proof (rule res_all_bind [where Q = KL], goal_cases)
  case 1
  then show ?case
    by (auto split: option.split intro: res_string_id simp: res_all_Inl intro!: res_all_bind [where Q = "\<lambda>_. True"] res_all_True)
next
  case (2 bp1)
  obtain bin p where bp1: "bp1 = (bin, p)" by (cases bp1)
  show ?case
  proof (cases "text_type w")
    case None
    then show ?thesis by (simp add: bp1 res_all_Inl)
  next
    case (Some cr)
    obtain caption rdr where cr: "cr = (caption, rdr)" by (cases cr)
    have font: "res_all KL (rbind (case font_name w of None \<Rightarrow> Inr (save32 0 bin, p) | Some f \<Rightarrow> save_string_id f (bin, p))
        (\<lambda>(bin, p). Inr ((save32 0 ^^ 7) bin, p)))" if "KL (bin, p)" for bin p
    proof (rule res_all_bind [where Q = KL])
      show "res_all KL (case font_name w of None \<Rightarrow> Inr (save32 0 bin, p) | Some f \<Rightarrow> save_string_id f (bin, p))"
        using that by (auto split: option.split intro: res_string_id steps simp: res_all_Inr)
    qed (auto simp: res_all_Inr intro: K_power)
    show ?thesis unfolding bp1 Some cr Let_def prod.case option.case
      by (rule res_all_bind [where Q = KL], rule res_value, use 2(2) bp1 in \<open>auto intro: steps\<close>)
        (rule res_all_bind [where Q = KL], rule res_value, auto intro!: font [unfolded fst_conv snd_conv] steps)
  qed
qed

lemma res_invisible_header: "KL bp \<Longrightarrow> res_all KL (save_invisible_header M w bp)"
  unfolding save_invisible_header_def
  by (cases "control_class w")
    (auto simp: res_all_Inl res_all_Inr Let_def intro!: res_all_bind [where Q = "\<lambda>_. True"] res_all_True
      res_all_bind [where Q = KL] res_string_id K_power steps)

lemma K_patch_member: "K bin \<Longrightarrow> pos q \<Longrightarrow> K (patch_member q v bin)"
  by (simp add: patch_member_def steps)

lemma K_patch_props: "K bin \<Longrightarrow> pos q \<Longrightarrow> K (patch_props M q pos1 n bin)"
  and K_patch_ctrls: "K bin \<Longrightarrow> pos q \<Longrightarrow> K (patch_ctrls M q pos1 n bin)"
  by (auto simp: patch_props_def patch_ctrls_def at_nr_props_def at_offset_props_def at_nr_ctrls_def at_offset_ctrls_def
    intro!: K_patch_member pos_mono [of q])

lemma K_patch_at_size: "K bin \<Longrightarrow> pos q \<Longrightarrow> K (patch_member (q + at_size M) v bin)"
  by (auto simp: at_size_def intro!: K_patch_member pos_mono [of q])

lemma res_invisible: "KL bp \<Longrightarrow> res_all (\<lambda>r. KL (snd r)) (save_invisible M w bp)"
proof -
  assume k: "KL bp"
  then have q: "pos (bs_tell (fst bp))" by (simp add: K_tell)
  show ?thesis unfolding save_invisible_def Let_def
  proof (rule res_all_bind [OF res_invisible_header [OF k]], clarify, rule res_all_bind [where Q = "\<lambda>st. KL (snd st)"], goal_cases)
    case (1 bin p)
    then show ?case unfolding res_all_def using KL_invisible_props [of "(0, bin, p)"] by auto
  next
    case (2 bin p st)
    obtain n bin2 p2 where "st = (n, bin2, p2)" by (cases st)
    then show ?case using 2 q by (auto simp: res_all_Inr intro!: steps K_patch_at_size K_patch_props)
  qed
qed

lemma run_component:
  "KL bp \<Longrightarrow> run_all (\<lambda>r. KL (snd r)) (save_component M c bp)"
  "KL bp \<Longrightarrow> run_all (\<lambda>r. KL (snd r)) (save_children M cs sizes bp)"
proof (induction M c bp and M cs sizes bp rule: save_component_save_children.induct)
  case (1 M w bp)
  then show ?case using res_invisible by (simp add: run_all_res)
next
  case (2 M w cs bp)
  note IH = "2.IH"
  from 2 have q: "pos (bs_tell (fst bp))" by (simp add: K_tell)
  show ?case unfolding save_component.simps Let_def
  proof (rule run_all_bind [where Q = KL], goal_cases)
    case 1
    then show ?case using res_win_header [OF 2(2)] by (simp only: run_all_res)
  next
    case (2 bp1)
    obtain bin p where bp1: "bp1 = (bin, p)" by (cases bp1)
    show ?case unfolding bp1 prod.case
    proof (rule run_all_bind [where Q = "\<lambda>st. KL (snd st)"], goal_cases)
      case 1
      then show ?case unfolding run_all_def using KL_props [of _ _ "(0, bin, p)"] 2 bp1 by auto
    next
      case (2 st)
      obtain n bin2 p2 where st: "st = (n, bin2, p2)" by (cases st)
      let ?bin = "bs_seek (bs_tell bin2) seek_begin (patch_props M (bs_tell (fst bp)) (bs_tell bin) n bin2)"
      have k: "KL (?bin, p2)" using 2 st q by (auto intro!: steps K_patch_props)
      show ?case unfolding st prod.case
      proof (rule run_all_bind [where Q = "\<lambda>r. KL (snd r)"], goal_cases)
        case 1
        show ?case by (rule IH [OF refl refl refl refl refl k])
      next
        case (2 r)
        obtain a b bin3 p3 where r: "r = ((a, b), bin3, p3)" by (metis prod.exhaust)
        then show ?case using 2 q by (auto simp: run_all_Inr intro!: steps K_patch_at_size K_patch_ctrls)
      qed
    qed
  qed
next
  case (3 M sizes bp)
  then show ?case by (simp add: run_all_Inr)
next
  case (4 M c cs cnt ctrls_size bp)
  show ?case unfolding save_children.simps
  proof (rule run_all_bind [OF "4.IH"(1) [OF "4.prems"]], goal_cases)
    case (1 r)
    then show ?case using "4.IH"(2) by (cases r) simp
  qed
qed

lemma run_panel: "KL bp \<Longrightarrow> pos begin' \<Longrightarrow> run_all KL (save_panel M begin' i x bp)"
proof (cases "ui_saved x")
  case True
  assume k: "KL bp" and q: "pos begin'"
  let ?bin = "bs_seek 0 seek_end (save32 (word_of_int (bs_tell (fst bp) - begin')) (save32 0 (save32 (word_of_int (ui_id x))
    (bs_seek (begin' + 8 + int i * 12) seek_begin (fst bp)))))"
  have k1: "KL (?bin, snd bp)" using k by (auto intro!: steps pos_mono [OF q])
  have "run_all KL (EditUIPanel_saveBin M x (?bin, snd bp))"
  proof (cases "strXmlFile x = []")
    case False
    show ?thesis unfolding EditUIPanel_saveBin_def if_not_P [OF False]
      by (rule run_all_bind [OF run_component(1) [OF k1]]) (auto simp: run_all_Inr intro: steps)
  qed (use k1 in \<open>simp add: EditUIPanel_saveBin_def run_all_Inr\<close>)
  then show ?thesis using True by (simp add: save_panel_def Let_def)
qed (simp add: save_panel_def run_all_Inr)

lemma run_UIEditor: "KL bp \<Longrightarrow> run_all KL (UIEditor_save M ps bp)"
proof -
  assume k: "KL bp"
  then have q: "pos (bs_tell (fst bp))" by (simp add: K_tell)
  let ?bin = "(save8Arr (Some (replicate 12 NUL)) ^^ length ps) (save32 (of_nat (length ps)) (save32 0 (fst bp)))"
  have k1: "KL (?bin, snd bp)" using k by (auto intro: K_power steps)
  let ?f = "\<lambda>bp' (i, x). save_panel M (bs_tell (fst bp)) i x bp'"
  have keep: "KL w'" if "KL w" "?f w a = Some (Inr w')" for w a w'
    using that run_panel [OF that(1) q, of M "fst a" "snd a"] by (cases a) (auto simp: run_all_def)
  have "KL r" if "run_fold ?f (?bin, snd bp) (enumerate 0 (sort_panels ps)) = Some (Inr r)" for r
    by (rule run_fold_keeps [where P = KL, OF keep k1 that])
  then have "run_all KL (run_fold ?f (?bin, snd bp) (enumerate 0 (sort_panels ps)))" unfolding run_all_def by blast
  then show ?thesis unfolding UIEditor_save_def Let_def
    by (rule run_all_bind) (auto simp: run_all_Inr intro: K_patch_size [OF _ q])
qed

lemma run_editor_save: "KL bp \<Longrightarrow> run_all KL (editor_save M e bp)"
proof (cases e)
  case (UI_Editor ps)
  then show "KL bp \<Longrightarrow> ?thesis" using run_UIEditor by (simp add: editor_save_def)
next
  case (Renderer_Editor rs)
  assume k: "KL bp"
  obtain bin p where bp: "bp = (bin, p)" by (cases bp)
  let ?bin = "(save8Arr (Some (replicate 12 NUL)) ^^ length rs) (save32 (of_nat (length rs)) (save32 0 bin))"
  have k1: "KL (?bin, p)" using k bp by (auto intro: K_power steps)
  show ?thesis unfolding run_all_def
  proof (intro allI impI)
    fix bp' assume "editor_save M e bp = Some (Inr bp')"
    then obtain bin2 p2 where r: "save_rdrs M 0 (bs_tell bin) rs (?bin, p) = Inr (bin2, p2)"
      "bp' = (patch_size (bs_tell bin) bin2, p2)"
      using bp Renderer_Editor by (auto simp: editor_save_def RendererEditor_saveBin_def rbind_eq_Inr Let_def)
    show "KL bp'" using KL_rdrs [OF k1 _ r(1)] K_tell [of bin] k bp r(2) by (auto intro: K_patch_size)
  qed
next
  case (Text_Editor ed)
  assume "KL bp"
  then show ?thesis using Text_Editor K_TextEditor_save by (auto simp: editor_save_def run_all_def rbind_eq_Inr)
qed (auto simp: editor_save_def run_all_Inr intro: K_ImageEditor_save)

end

text \<open>What was written before a section stays when the section is written.\<close>

interpretation front: saving "\<lambda>bin. keeps_front bin a" "\<lambda>_. True" "\<lambda>q. int (length a) \<le> q" for a
  by unfold_locales (auto dest: keeps_tell)

lemma keeps_editor_save: "keeps_front (fst bp) a \<Longrightarrow> editor_save M e bp = Some (Inr bp') \<Longrightarrow> keeps_front (fst bp') a"
  using front.run_editor_save [of bp a M e] by (simp add: run_all_def)

section \<open>The header and the table of types\<close>

lemma length_header:
  "length (le32 mgrp @ four v @ four v @ getEncoding @ getVendor @ le32 w) = 48"
  by (simp add: four_def getEncoding_def getVendor_def)

lemma save_header_bytes:
  assumes "bin_at bin [] 0"
  shows "keeps_front (save_header v n bin) (le32 mgrp @ four v @ four v @ getEncoding @ getVendor @ le32 (of_nat n) @ replicate (12 * n) NUL)"
proof -
  have "bin_at (save_header v n bin) (le32 mgrp @ four v @ four v @ getEncoding @ getVendor @ le32 (of_nat n) @ replicate (n * 12) NUL)
      (length (le32 mgrp @ four v @ four v @ getEncoding @ getVendor @ le32 (of_nat n) @ replicate (n * 12) NUL))"
  proof -
    have "bin_at bin [] (length [])" using assms by simp
    note 1 = ends_save32 [OF this, of mgrp]
    note 2 = ends_save8Arr [OF ends_save8Arr [OF 1, of "four v"], of "four v"]
    note 3 = ends_save32 [OF ends_save8Arr [OF ends_save8Arr [OF 2, of getEncoding], of getVendor], of "of_nat n"]
    show ?thesis using ends_save8Arr [OF 3, of "replicate (n * 12) NUL"]
      by (simp only: save_header_def Let_def append_assoc append_Nil)
  qed
  then show ?thesis using keepsI [where c = "[]"] by (simp add: mult.commute)
qed

lemma id_bytes_snoc: "id_bytes (ts @ [(x, y)]) = id_bytes ts @ le32 x @ le32 0 @ le32 y"
  by (simp add: id_bytes_def)

lemma saveTypeItem_bytes:
  assumes "keeps_front bin (h @ id_bytes ts @ replicate (12 * Suc n) NUL)" "length h = 48"
  shows "\<exists>b c. bin_at (saveTypeItem (length ts) ty bin) (h @ id_bytes (ts @ [(word_of_int ty, of_nat b)]) @ replicate (12 * n) NUL @ c) b \<and>
    b = 48 + 12 * (length ts + 1 + n) + length c"
proof -
  obtain c p where c: "bin_at bin ((h @ id_bytes ts @ replicate (12 * Suc n) NUL) @ c) p" using assms(1) by (rule keepsE)
  let ?f = "h @ id_bytes ts @ replicate (12 * Suc n) NUL @ c" and ?q = "48 + 12 * length ts"
  let ?w = "le32 (word_of_int ty) @ le32 0 @ le32 (of_nat (length ?f))"
  have 1: "bin_at (bs_seek 0 seek_end bin) ?f (length ?f)" using bin_at_seek_end [OF c] by simp
  have 2: "bin_at (bs_seek (sizeof_NCSRM_HEADER + int (length ts) * sizeof_NCSRM_TYPEITEM) seek_begin (bs_seek 0 seek_end bin)) ?f ?q"
    using bin_at_seek [OF 1, of "sizeof_NCSRM_HEADER + int (length ts) * sizeof_NCSRM_TYPEITEM"]
    by (simp add: sizeof_NCSRM_HEADER_def sizeof_NCSRM_TYPEITEM_def nat_add_distrib nat_mult_distrib mult.commute)
  have len: "?q + 12 \<le> length ?f" using assms(2) by simp
  let ?bin = "save32 (word_of_int (bs_tell (bs_seek 0 seek_end bin))) (save32 0 (save32 (word_of_int ty)
    (bs_seek (sizeof_NCSRM_HEADER + int (length ts) * sizeof_NCSRM_TYPEITEM) seek_begin (bs_seek 0 seek_end bin))))"
  have 3: "bin_at ?bin (overwrite ?f ?q ?w) (?q + 12)"
  proof -
    note a = bin_at_save32 [OF 2, of "word_of_int ty"]
    have "bin_at (save32 0 (save32 (word_of_int ty)
      (bs_seek (sizeof_NCSRM_HEADER + int (length ts) * sizeof_NCSRM_TYPEITEM) seek_begin (bs_seek 0 seek_end bin))))
      (overwrite ?f ?q (le32 (word_of_int ty) @ le32 0)) (?q + 8)"
      using bin_at_save32 [OF a, of 0] overwrite_chain [of ?q ?f "le32 (word_of_int ty)" "le32 0"] len by (simp add: length_overwrite)
    from bin_at_save32 [OF this, of "of_nat (length ?f)"]
    show ?thesis using overwrite_chain [of ?q ?f "le32 (word_of_int ty) @ le32 0" "le32 (of_nat (length ?f))"] len
      by (simp add: length_overwrite bin_at_tell [OF 1])
  qed
  have "overwrite ?f ?q ?w = h @ id_bytes ts @ ?w @ replicate (12 * n) NUL @ c"
    using assms(2) by (simp add: overwrite_def replicate_add)
  then have "overwrite ?f ?q ?w = h @ id_bytes (ts @ [(word_of_int ty, of_nat (length ?f))]) @ replicate (12 * n) NUL @ c"
    by (simp add: id_bytes_snoc)
  moreover have "length ?f = 48 + 12 * (length ts + 1 + n) + length c" using assms(2) by simp
  ultimately show ?thesis using bin_at_seek_end [OF 3] assms(2)
    by (intro exI [of _ "length ?f"] exI [of _ c]) (simp add: saveTypeItem_def Let_def)
qed

definition sections :: "res_editor list \<Rightarrow> res_editor list" where "sections es = filter (\<lambda>e. type_mask e \<noteq> 0) es"

lemma sections_Cons: "sections (e # es) = (if type_mask e = 0 then sections es else e # sections es)"
  by (simp add: sections_def)

lemma save_editors_bytes:
  assumes "length h = 48"
  shows "keeps_front bin (h @ id_bytes ts @ replicate (12 * (n + length (sections es))) NUL) \<Longrightarrow>
    save_editors M (length ts) es (bin, p) = Some (Inr (idx, bin', p')) \<Longrightarrow>
    \<exists>us. idx = length (ts @ us) \<and> map fst us = map (\<lambda>e. word_of_int (type_mask e)) (sections es) \<and>
      keeps_front bin' (h @ id_bytes (ts @ us) @ replicate (12 * n) NUL)"
proof (induction es arbitrary: ts bin p)
  case Nil
  then show ?case by (intro exI [of _ "[]"]) (simp add: sections_def)
next
  case (Cons e es)
  show ?case
  proof (cases "type_mask e = 0")
    case True
    then show ?thesis using Cons by (simp add: sections_Cons)
  next
    case False
    let ?m = "n + length (sections es)" and ?bin = "saveTypeItem (length ts) (type_mask e) bin"
    obtain b c where b: "bin_at ?bin ((h @ id_bytes (ts @ [(word_of_int (type_mask e), of_nat b)]) @ replicate (12 * ?m) NUL) @ c) b"
      "b = 48 + 12 * (length ts + 1 + ?m) + length c"
      using saveTypeItem_bytes [of bin h ts ?m "type_mask e"] Cons.prems(1) False assms by (auto simp: sections_Cons)
    let ?ts = "ts @ [(word_of_int (type_mask e), of_nat b)]"
    have k: "keeps_front ?bin (h @ id_bytes ?ts @ replicate (12 * ?m) NUL)"
      by (rule keepsI [OF b(1)]) (use assms b(2) in simp)
    obtain bin1 p1 where 1: "editor_save M e (?bin, p) = Some (Inr (bin1, p1))"
      "save_editors M (length ?ts) es (bin1, p1) = Some (Inr (idx, bin', p'))"
      using Cons.prems(2) False by (auto simp: ubind_eq_Inr)
    have "keeps_front bin1 (h @ id_bytes ?ts @ replicate (12 * ?m) NUL)"
      using keeps_editor_save [OF _ 1(1)] k by simp
    from Cons.IH [OF this 1(2)] obtain us where "idx = length (?ts @ us)"
      "map fst us = map (\<lambda>e. word_of_int (type_mask e)) (sections es)"
      "keeps_front bin' (h @ id_bytes (?ts @ us) @ replicate (12 * n) NUL)" by blast
    then show ?thesis using False
      by (intro exI [of _ "(word_of_int (type_mask e), of_nat b) # us"]) (simp add: sections_Cons)
  qed
qed

section \<open>The table of the strings\<close>

definition padded :: "char list \<Rightarrow> char list" where
  "padded s = s @ replicate (fill_len (length s) - length s) NUL"

fun string_items :: "32 word \<Rightarrow> (int \<times> char list) list \<Rightarrow> id_items" where
  "string_items off [] = []"
| "string_items off ((i, s) # ss) = (word_of_int i, off) # string_items (off + of_nat (fill_len (length s))) ss"

definition string_bytes :: "(int \<times> char list) list \<Rightarrow> char list" where
  "string_bytes ss = concat (map (padded \<circ> snd) ss)"

lemma fill_len_bounds: "n + 3 \<le> fill_len n" "fill_len n \<le> n + 6"
  by (simp_all add: fill_len_def Let_def) presburger+

lemma length_padded: "length (padded s) = fill_len (length s)"
  using fill_len_bounds(1) [of "length s"] by (simp add: padded_def)

lemma padded_ends: "\<exists>rest. padded s = s @ NUL # rest"
proof -
  have "fill_len (length s) - length s = Suc (fill_len (length s) - length s - 1)" using fill_len_bounds(1) [of "length s"] by simp
  then show ?thesis unfolding padded_def by (metis replicate_Suc)
qed

lemma map_fst_string_items: "map fst (string_items off ss) = map (\<lambda>(i, s). word_of_int i) ss"
  by (induction off ss rule: string_items.induct) auto

lemma length_string_items: "length (string_items off ss) = length ss"
  using arg_cong [OF map_fst_string_items, of length] by simp

lemma saveString_padded:
  "NUL \<notin> set s \<Longrightarrow> saveString i s xs buf' off = (xs @ [(word_of_int i, off)], buf' @ padded s, off + of_nat (fill_len (length s)))"
proof -
  assume "NUL \<notin> set s"
  then have "takeWhile (\<lambda>c. c \<noteq> NUL) s = s" by (simp add: takeWhile_eq_all_conv) (metis)
  then show ?thesis by (simp add: saveString_def padded_def Let_def)
qed

definition pool_strings :: "string_pool \<Rightarrow> (int \<times> nat) list \<Rightarrow> (int \<times> char list) list" where
  "pool_strings p es = map (\<lambda>(i, a). (i, se_str (the (str_entries p a)))) es"

lemma save_pool_bytes:
  "\<forall>(i, a)\<in>set es. \<exists>se. str_entries p a = Some se \<and> NUL \<notin> set (se_str se) \<Longrightarrow>
   save_pool p es xs buf' off = Inr (xs @ string_items off (pool_strings p es), buf' @ string_bytes (pool_strings p es),
     off + of_nat (length (string_bytes (pool_strings p es))))"
proof (induction es arbitrary: xs buf' off)
  case (Cons e es)
  obtain i a where e: "e = (i, a)" by (cases e)
  obtain se where se: "str_entries p a = Some se" "NUL \<notin> set (se_str se)" using Cons.prems e by auto
  then show ?case using Cons e
    by (simp add: get_entry_def saveString_padded pool_strings_def string_bytes_def length_padded)
qed (simp add: pool_strings_def string_bytes_def)

lemma save_iditems_bytes:
  "bin_at bin b (length b) \<Longrightarrow> bin_at (save_iditems xs bin) (b @ id_bytes xs) (length (b @ id_bytes xs))"
proof (induction xs bin arbitrary: b rule: save_iditems.induct)
  case (2 i off es bin)
  have "bin_at (save32 off (save32 0 (save32 i bin))) (b @ le32 i @ le32 0 @ le32 off) (length (b @ le32 i @ le32 0 @ le32 off))"
    using ends_save32 [OF ends_save32 [OF ends_save32 [OF "2.prems", of i], of 0], of off] by simp
  from "2.IH" [OF this] show ?case by (simp add: id_bytes_def)
qed (simp add: id_bytes_def)

lemma string_items_lookup:
  assumes "\<forall>(i, s)\<in>set ss. 0 \<le> i \<and> i < 2 ^ 32"
  shows "case map_of ss (uint w) of None \<Rightarrow> map_of (string_items off ss) w = None
    | Some s \<Rightarrow> \<exists>k rest. map_of (string_items off ss) w = Some (off + of_nat k) \<and> drop k (string_bytes ss) = s @ NUL # rest \<and> k < length (string_bytes ss)"
  using assms
proof (induction ss arbitrary: off)
  case (Cons x ss)
  obtain i s where x: "x = (i, s)" by (cases x)
  have i: "uint w = i \<longleftrightarrow> w = word_of_int i" using Cons.prems x by (auto simp: uint_word_of_int_eq take_bit_int_eq_self)
  have b: "string_bytes (x # ss) = padded s @ string_bytes ss" by (simp add: string_bytes_def x)
  show ?case
  proof (cases "uint w = i")
    case True
    obtain rest where "padded s = s @ NUL # rest" using padded_ends by blast
    then show ?thesis using True i unfolding b by (simp add: x exI [of _ 0])
  next
    case False
    have IH: "case map_of ss (uint w) of None \<Rightarrow> map_of (string_items (off + of_nat (fill_len (length s))) ss) w = None
      | Some t \<Rightarrow> \<exists>k rest. map_of (string_items (off + of_nat (fill_len (length s))) ss) w = Some (off + of_nat (fill_len (length s)) + of_nat k) \<and>
          drop k (string_bytes ss) = t @ NUL # rest \<and> k < length (string_bytes ss)" using Cons by simp
    show ?thesis
    proof (cases "map_of ss (uint w)")
      case None
      then show ?thesis using IH False i by (auto simp: x)
    next
      case (Some t)
      then obtain k rest where "map_of (string_items (off + of_nat (fill_len (length s))) ss) w = Some (off + of_nat (fill_len (length s)) + of_nat k)"
        "drop k (string_bytes ss) = t @ NUL # rest" "k < length (string_bytes ss)" using IH by auto
      then show ?thesis using Some False i unfolding b
        by (auto simp: x length_padded add.assoc intro!: exI [of _ "fill_len (length s) + k"])
    qed
  qed
qed simp

definition saved_strings :: "char list \<Rightarrow> string_pool \<Rightarrow> (int \<times> char list) list" where
  "saved_strings dr p = (NCSRM_SYSSTR_DEFRDR, dr) # pool_strings p (stringPool p)"

lemma writeStringResource_bytes:
  fixes dr p
  defines "ss \<equiv> saved_strings dr p"
  assumes "bin_at bin b (length b)" "\<forall>(i, a)\<in>set (stringPool p). \<exists>se. str_entries p a = Some se \<and> NUL \<notin> set (se_str se)"
    "NUL \<notin> set dr" "stringPool p \<noteq> []" "length (string_bytes ss) < 2 ^ 31" "writeStringResource E dr p bin = Inr bin'"
  shows "\<exists>w f. f = b @ le32 w @ le32 (of_nat (length ss)) @ id_bytes (string_items (of_nat (8 + 12 * length ss)) ss) @ string_bytes ss \<and>
    bin_at bin' f (length f)"
proof -
  let ?n = "of_nat (length ss) :: 32 word"
  let ?base = "of_nat (8 + 12 * length ss) :: 32 word" and ?ps = "pool_strings p (stringPool p)"
  have n: "length (stringPool p) + 1 = length ss" by (simp add: ss_def saved_strings_def pool_strings_def)
  have base: "8 + ?n * 12 = ?base" by simp
  have bytes: "string_bytes ss = padded dr @ string_bytes ?ps" by (simp add: ss_def saved_strings_def string_bytes_def)
  have items: "string_items ?base ss = (word_of_int NCSRM_SYSSTR_DEFRDR, ?base) # string_items (?base + of_nat (fill_len (length dr))) ?ps"
    by (simp add: ss_def saved_strings_def)
  let ?off = "?base + of_nat (length (string_bytes ss))"
  have sp: "save_pool p (stringPool p) [(word_of_int NCSRM_SYSSTR_DEFRDR, ?base)] (padded dr) (?base + of_nat (fill_len (length dr))) =
      Inr (string_items ?base ss, string_bytes ss, ?off)"
    unfolding save_pool_bytes [OF assms(3)] items by (simp add: bytes length_padded add.assoc)
  have "sint (of_nat (length (string_bytes ss)) :: 32 word) = int (length (string_bytes ss))"
    using assms(6) by (simp add: signed_of_nat signed_take_bit_int_eq_self)
  then have len: "nat (sint (?off - ?base)) = length (string_bytes ss)" by simp
  have "bin' = save8Arr (Some (string_bytes ss)) (save_iditems (string_items ?base ss) (save32 ?n (save32 ?off bin)))"
    using assms(7) assms(5) sp len
    by (simp only: writeStringResource_def Let_def saveString_padded [OF assms(4)] append_Nil n base) (simp split: if_splits)
  moreover note ends_save8Arr [OF save_iditems_bytes [OF ends_save32 [OF ends_save32 [OF assms(2), of ?off], of ?n]],
    of "string_bytes ss" "string_items ?base ss", unfolded append_assoc]
  ultimately show ?thesis by metis
qed

section \<open>Searching the types\<close>

lemma search_type_loop_last:
  "\<forall>u\<in>set us. ty AND fst u = 0 \<Longrightarrow> ty AND y \<noteq> 0 \<Longrightarrow> 0 < nr \<Longrightarrow> d = pre @ id_bytes (us @ [(y, off)]) @ post \<Longrightarrow>
    search_type_loop d nr ty (int (length pre)) = Inr (Some (d, int (length pre + 12 * length us)))"
proof (induction us arbitrary: pre)
  case Nil
  then have "rd32 d (int (length pre)) = Inr y"
    using rd32_le32 [of "int (length pre)" pre y "le32 0 @ le32 off @ post"] by (simp add: id_bytes_def)
  then show ?case using Nil by (simp add: search_type_loop.simps)
next
  case (Cons u us)
  obtain x z where u: "u = (x, z)" by (cases u)
  let ?pre = "pre @ le32 x @ le32 0 @ le32 z"
  have d: "d = ?pre @ id_bytes (us @ [(y, off)]) @ post" using Cons.prems(4) by (simp add: u id_bytes_def)
  have "rd32 d (int (length pre)) = Inr x"
    using rd32_le32 [of "int (length pre)" pre x "le32 0 @ le32 z @ id_bytes (us @ [(y, off)]) @ post"] d by simp
  moreover have "search_type_loop d nr ty (int (length ?pre)) = Inr (Some (d, int (length ?pre + 12 * length us)))"
    by (rule Cons.IH [OF _ Cons.prems(2,3) d]) (use Cons.prems(1) in simp)
  moreover have "ty AND x = 0" using Cons.prems(1) by (simp add: u)
  ultimately show ?case using Cons.prems(3) search_type_loop.simps [of d nr ty "int (length pre)"]
    by (simp add: sizeof_NCSRM_TYPEITEM_def add.commute)
qed

lemma section_types: "e \<in> set (sections es) \<Longrightarrow> 1 AND (word_of_int (type_mask e) :: 32 word) = 0"
proof -
  have "1 AND (2 :: 32 word) = 0" "1 AND (4 :: 32 word) = 0" "1 AND (8 :: 32 word) = 0" "1 AND (0x30 :: 32 word) = 0" by simp_all
  then show ?thesis by (cases e) (auto simp: sections_def type_mask_def)
qed

section \<open>The pool while the editors save\<close>

definition pool_live :: "string_pool \<Rightarrow> bool" where
  "pool_live p \<longleftrightarrow> strict_keys (stringPool p) \<and> 128 \<le> str_id_begin p \<and> str_id_begin p \<le> 65535 \<and>
     (\<forall>i a. map_of (stringPool p) i = Some a \<longrightarrow> 0x10080 < i \<and> i < 0x20000 \<and> str_entries p a \<noteq> None)"

lemma pool_ok_live: "pool_ok p \<Longrightarrow> pool_live p"
  by (fastforce simp: pool_ok_def pool_live_def entry_ok_def)

lemma live_newStrId:
  assumes "pool_live p" "newStrId p = (i, p')"
  shows "pool_live p'" "i < 0 \<or> 0x10080 < i \<and> i < 0x20000"
proof -
  let ?b = "(if 65535 \<le> str_id_begin p then 128 else str_id_begin p) + 1"
  have b: "128 < ?b" "?b \<le> 65535" using assms(1) by (auto simp: pool_live_def)
  have "or ?b (push_bit 16 1) = 1 * 2 ^ 16 + ?b" using b by (intro id_number(1)) auto
  then have "i < 0 \<or> i = 0x10000 + ?b" "p' = p \<or> p' = p\<lparr>str_id_begin := ?b\<rparr>"
    using assms(2) by (auto simp: newStrId_def Let_def NCSRM_SYSSTR_MAXID_def split: if_splits)
  then show "pool_live p'" "i < 0 \<or> 0x10080 < i \<and> i < 0x20000" using b assms(1) by (auto simp: pool_live_def)
qed

lemma live_addString:
  assumes "pool_live p" "addString str p = Inr (i, p')" shows "pool_live p'"
proof -
  consider "p' = p" | j where "newStrId p = (j, p')" | a se where "p' = p\<lparr>str_entries := (str_entries p)(a \<mapsto> se)\<rparr>"
    | j p1 where "newStrId p = (j, p1)" "0 \<le> j" "str_entries p' = (str_entries p1)(next_entry p1 \<mapsto> \<lparr>se_str = the str, se_id = j, se_ref = 1\<rparr>)"
      "stringPool p' = map_put j (next_entry p1) (stringPool p1)" "str_id_begin p' = str_id_begin p1"
  proof (cases "no_string str \<or> namedStringPool p (the str) \<noteq> None")
    case True
    then show ?thesis using assms(2) that(1,3) by (auto simp: addString_def rbind_eq_Inr split: if_splits option.splits)
  next
    case False
    obtain j p1 where n: "newStrId p = (j, p1)" by fastforce
    then show ?thesis using False assms(2) that(2) that(4) [OF n] by (auto simp: addString_def Let_def split: if_splits)
  qed
  then show ?thesis
  proof cases
    case 2
    then show ?thesis using live_newStrId(1) [OF assms(1)] by blast
  next
    case 3
    then show ?thesis using assms(1) by (auto simp: pool_live_def)
  next
    case 4
    note n = live_newStrId [OF assms(1) 4(1)]
    then have "strict_keys (stringPool p1)" by (simp add: pool_live_def)
    then show ?thesis using n 4 by (auto simp: pool_live_def strict_map_put)
  qed (simp add: assms(1))
qed

interpretation live: saving "\<lambda>_. True" pool_live "\<lambda>_. True"
  by unfold_locales (auto intro: live_addString)

lemma live_editor_save: "pool_live (snd bp) \<Longrightarrow> editor_save M e bp = Some (Inr bp') \<Longrightarrow> pool_live (snd bp')"
  using live.run_editor_save [of bp M e] by (simp add: run_all_def)

lemma live_save_editors: "pool_live p \<Longrightarrow> save_editors M idx es (bin, p) = Some (Inr (idx', bin', p')) \<Longrightarrow> pool_live p'"
proof (induction es arbitrary: idx bin p)
  case (Cons e es)
  show ?case
  proof (cases "type_mask e = 0")
    case False
    then obtain bp where bp: "editor_save M e (saveTypeItem idx (type_mask e) bin, p) = Some (Inr bp)"
      "save_editors M (idx + 1) es (fst bp, snd bp) = Some (Inr (idx', bin', p'))" using Cons.prems(2) by (auto simp: ubind_eq_Inr)
    have "pool_live (snd bp)" using live_editor_save [OF _ bp(1)] Cons.prems(1) by simp
    then show ?thesis by (rule Cons.IH [OF _ bp(2)])
  qed (use Cons in simp)
qed simp

section \<open>What is read back\<close>

text \<open>The strings of the table are in the order of their ids, all of them ids of strings.\<close>

lemma saved_ids:
  assumes "pool_live p"
  shows "\<forall>(i, s)\<in>set (saved_strings dr p). 0x10000 \<le> i \<and> i < 0x20000" "sorted (map fst (string_items off (saved_strings dr p)))"
    "length (saved_strings dr p) < 2 ^ 30" "\<forall>(i, a)\<in>set (stringPool p). str_entries p a \<noteq> None"
proof -
  have st: "strict_keys (stringPool p)" using assms by (simp add: pool_live_def)
  have mem: "0x10080 < i \<and> i < 0x20000 \<and> str_entries p a \<noteq> None" if "(i, a) \<in> set (stringPool p)" for i a
    using that assms by (simp add: pool_live_def flip: map_of_strict)
  then show "\<forall>(i, a)\<in>set (stringPool p). str_entries p a \<noteq> None" by blast
  show r: "\<forall>(i, s)\<in>set (saved_strings dr p). 0x10000 \<le> i \<and> i < 0x20000"
    using mem by (fastforce simp: saved_strings_def pool_strings_def NCSRM_SYSSTR_DEFRDR_def)
  have keys: "map fst (saved_strings dr p) = 0x10001 # map fst (stringPool p)"
    by (simp add: saved_strings_def pool_strings_def NCSRM_SYSSTR_DEFRDR_def case_prod_unfold)
  have s: "sorted_wrt (<) (map fst (saved_strings dr p))"
    unfolding keys using st mem by (fastforce simp: strict_keys_def)
  have "sorted_wrt (\<lambda>x y. (word_of_int (fst x) :: 32 word) \<le> word_of_int (fst y)) (saved_strings dr p)"
  proof (rule sorted_wrt_mono_rel [rotated])
    show "sorted_wrt (\<lambda>x y. fst x < fst y) (saved_strings dr p)" using s by (simp add: sorted_wrt_map)
    fix x y assume "x \<in> set (saved_strings dr p)" "y \<in> set (saved_strings dr p)" "fst x < fst y"
    moreover from this have "65536 \<le> fst x" "fst y < 131072" using r by fastforce+
    ultimately show "(word_of_int (fst x) :: 32 word) \<le> word_of_int (fst y)"
      by (simp add: Word.word_le_def uint_word_of_int_eq take_bit_int_eq_self)
  qed
  then show "sorted (map fst (string_items off (saved_strings dr p)))"
    by (simp add: map_fst_string_items sorted_wrt_map case_prod_unfold)
  have "length (stringPool p) = card (set (map fst (stringPool p)))" using distinct_strict [OF st] by (simp only: distinct_card length_map)
  also have "\<dots> \<le> card {0x10081..0x1FFFF::int}" by (intro card_mono) (use mem in \<open>fastforce+\<close>)
  finally show "length (saved_strings dr p) < 2 ^ 30" by (simp add: saved_strings_def pool_strings_def)
qed

lemma saved_strings_plain:
  assumes "(i, str) \<in> set (saved_strings dr p)" "NUL \<notin> set dr" "\<forall>a se. str_entries p a = Some se \<longrightarrow> NUL \<notin> set (se_str se)" "pool_live p"
  shows "NUL \<notin> set str"
  using assms(1-3) saved_ids(4) [OF assms(4)] by (fastforce simp: saved_strings_def pool_strings_def)

text \<open>The file up to the strings: the header, the table of the types with the strings last, and the other sections.\<close>

definition package_front :: "char list \<Rightarrow> id_items \<Rightarrow> 32 word \<Rightarrow> char list \<Rightarrow> char list" where
  "package_front v us b c = (le32 mgrp @ four v @ four v @ getEncoding @ getVendor @ le32 (of_nat (length us + 1))) @
     id_bytes (us @ [(1, b)]) @ c"

lemma length_package_front: "length (package_front v us b c) = 60 + 12 * length us + length c"
  using length_header [of v] by (simp add: package_front_def)

lemma save_package_layout:
  assumes "save_package E sys True M pr = Some (Inr (Some (bin, p)))" "pool_live (pool pr)"
  shows "\<exists>us c bin1 b. bin_at bin1 (package_front (szVersion pr) us (of_nat b) c) b \<and> b = length (package_front (szVersion pr) us (of_nat b) c) \<and>
    (\<forall>u\<in>set us. 1 AND fst u = 0) \<and> writeStringResource E (defRdr pr) p bin1 = Inr bin \<and> pool_live p"
proof -
  let ?es = "editors pr" and ?v = "szVersion pr"
  let ?n = "1 + length (sections ?es)"
  let ?h = "le32 mgrp @ four ?v @ four ?v @ getEncoding @ getVendor @ le32 (of_nat ?n)"
  let ?bin = "save_header ?v ?n (BinStream sys (Some (FileStreamStorage True)) LITTLE_ENDIAN)"
  obtain idx bin0 where 0: "save_editors M 0 ?es (?bin, pool pr) = Some (Inr (idx, bin0, p))"
    "writeStringResource E (defRdr pr) p (saveTypeItem idx 1 bin0) = Inr bin"
    using assms(1) by (auto simp: save_package_def Let_def ubind_eq_Inr getEndian_def sections_def split: if_splits)
  have h: "length ?h = 48" by (rule length_header)
  have "keeps_front ?bin (?h @ id_bytes [] @ replicate (12 * (1 + length (sections ?es))) NUL)"
    using save_header_bytes [OF bin_at_start, of ?v ?n sys] by (simp add: id_bytes_def)
  from save_editors_bytes [OF h this, of M "pool pr" idx bin0 p] 0(1) obtain us where us: "idx = length us"
    "map fst us = map (\<lambda>e. word_of_int (type_mask e)) (sections ?es)" "keeps_front bin0 (?h @ id_bytes us @ replicate (12 * 1) NUL)"
    by auto
  have n: "length us + 1 = ?n" using arg_cong [OF us(2), of length] by simp
  have "keeps_front bin0 (?h @ id_bytes us @ replicate (12 * Suc 0) NUL)" using us(3) by simp
  from saveTypeItem_bytes [OF this h, of 1] obtain b c where
    b: "bin_at (saveTypeItem (length us) 1 bin0) (?h @ id_bytes (us @ [(1, of_nat b)]) @ c) b" "b = 60 + 12 * length us + length c"
    by auto
  have f: "?h @ id_bytes (us @ [(1, of_nat b)]) @ c = package_front ?v us (of_nat b) c" by (simp only: package_front_def n append_assoc)
  have "1 AND fst u = 0" if "u \<in> set us" for u
  proof -
    have "fst u \<in> set (map fst us)" using that by simp
    then show ?thesis unfolding us(2) by (auto simp: section_types)
  qed
  moreover have "pool_live p" by (rule live_save_editors [OF assms(2) 0(1)])
  ultimately show ?thesis using b 0(2) us(1) unfolding f
    by (intro exI [of _ us] exI [of _ c] exI [of _ "saveTypeItem (length us) 1 bin0"] exI [of _ b]) (simp add: length_package_front)
qed

lemma package_front_types:
  assumes "\<forall>u\<in>set us. 1 AND fst u = 0" "d = package_front v us off c @ rest" "length d < 2 ^ 31"
  shows "\<exists>t. search_type_item d (ucast NCSRT_STRING) = Inr (Some (d, t)) \<and> rd32 d (t + 8) = Inr off"
proof -
  let ?h = "le32 mgrp @ four v @ four v @ getEncoding @ getVendor" and ?n = "of_nat (length us + 1) :: 32 word"
  have d: "d = (?h @ le32 ?n) @ id_bytes (us @ [(1, off)]) @ c @ rest" using assms(2) by (simp add: package_front_def)
  have h: "length ?h = 44" using length_header [of v 0] by simp
  have "rd32 d off_nr_sect = Inr ?n"
    using rd32_le32 [of 44 ?h ?n "id_bytes (us @ [(1, off)]) @ c @ rest"] h d by (simp add: off_nr_sect_def)
  moreover have "0 < ?n"
  proof -
    have "length us + 1 < 2 ^ 32" using assms(2,3) length_package_front [of v us off c] by simp
    then have "unat ?n = length us + 1" by (simp only: unat_of_nat take_bit_nat_eq_self_iff len_num1 len_num0 len_bit0 len_bit1) simp
    then show ?thesis by (simp add: word_less_nat_alt)
  qed
  moreover have "search_type_loop d ?n 1 (int (length (?h @ le32 ?n))) = Inr (Some (d, int (length (?h @ le32 ?n) + 12 * length us)))"
    by (rule search_type_loop_last [where us = us and off = off and post = "c @ rest"]) (use assms(1) d calculation(2) in auto)
  moreover have "int (length (?h @ le32 ?n)) = 48" using h by (simp only: length_append length_le32)
  then have "search_type_loop d ?n 1 48 = Inr (Some (d, 48 + 12 * int (length us)))"
    using calculation(3) by (simp only: of_nat_add of_nat_mult of_nat_numeral)
  ultimately have 1: "search_type_item d (ucast NCSRT_STRING) = Inr (Some (d, 48 + 12 * int (length us)))"
    by (simp add: search_type_item_def sizeof_NCSRM_HEADER_def NCSRT_STRING_def)
  have "d = (?h @ le32 ?n @ id_bytes us @ le32 1 @ le32 0) @ le32 off @ c @ rest" unfolding d id_bytes_snoc by simp
  moreover have "48 + 12 * int (length us) + 8 = int (length (?h @ le32 ?n @ id_bytes us @ le32 1 @ le32 0))" using h by simp
  ultimately have "rd32 d (48 + 12 * int (length us) + 8) = Inr off" by (metis rd32_le32)
  then show ?thesis using 1 by blast
qed

text \<open>
  C4: When a project has been saved as a package and its string pool is not empty then, the reader
  of packages finds every string of the pool by its id, and the name of the default renderer, and
  NULL for every other id of a string, whatever sections the editors wrote before; the strings that
  windows, renderers and their fields add to the pool while they are saved are among those of the
  pool. The strings have no NUL, and they and the whole package take less than 2 GB.
\<close>

theorem saved_strings_read_back:
  assumes "save_package E sys True M pr = Some (Inr (Some (bin, p)))" "pool_live (pool pr)" "stringPool p \<noteq> []"
    "NUL \<notin> set (defRdr pr)" "\<forall>a se. str_entries p a = Some se \<longrightarrow> NUL \<notin> set (se_str se)"
    "length (string_bytes (saved_strings (defRdr pr) p)) < 2 ^ 31" "length d < 2 ^ 31"
    "bs_storage bin = Some s" "fs_file s = Some (d, m)" "rp_data pkg = d" "drop_bit 16 resId = NCSRT_STRING"
  shows "\<exists>q. ncsGetString E' fs loc (Suc f) (Some pkg) resId = Some (Inr (q, Some pkg)) \<and>
    (case map_of (saved_strings (defRdr pr) p) (uint resId) of None \<Rightarrow> q = None | Some str \<Rightarrow> \<exists>r. q = Some r \<and> str_at r = Inr str)"
proof -
  let ?ss = "saved_strings (defRdr pr) p"
  let ?off = "of_nat (8 + 12 * length ?ss) :: 32 word"
  obtain us c bin1 b where b: "bin_at bin1 (package_front (szVersion pr) us (of_nat b) c) b"
    "b = length (package_front (szVersion pr) us (of_nat b) c)" "\<forall>u\<in>set us. 1 AND fst u = 0"
    "writeStringResource E (defRdr pr) p bin1 = Inr bin" "pool_live p"
    using save_package_layout [OF assms(1,2)] by blast
  let ?front = "package_front (szVersion pr) us (of_nat b) c"
  note ids = saved_ids(1-3) [OF b(5), where dr = "defRdr pr"]
  have "\<forall>(i, a)\<in>set (stringPool p). \<exists>se. str_entries p a = Some se \<and> NUL \<notin> set (se_str se)"
    using saved_ids(4) [OF b(5)] assms(5) by fast
  note entries = this
  have lb: "length ?front = b" by (rule b(2) [symmetric])
  have "bin_at bin1 ?front (length ?front)" unfolding lb by (rule b(1))
  from writeStringResource_bytes [OF this entries assms(4,3,6) b(4)] obtain w n where
    w: "bin_at bin (?front @ le32 w @ le32 (of_nat (length ?ss)) @ id_bytes (string_items ?off ?ss) @ string_bytes ?ss) n" by blast
  then have d: "d = ?front @ le32 w @ le32 (of_nat (length ?ss)) @ id_bytes (string_items ?off ?ss) @ string_bytes ?ss"
    using assms(8,9) by (auto simp: bin_at_def)
  have len: "length d = b + 8 + 12 * length ?ss + length (string_bytes ?ss)"
    unfolding d using lb by (simp add: length_string_items)
  then have b32: "b < 2 ^ 31" "8 + 12 * length ?ss + length (string_bytes ?ss) < 2 ^ 31" using assms(7) by simp_all
  have ub: "uint (of_nat b :: 32 word) = int b" using b32(1) by (simp add: uint_word_of_int_eq unsigned_of_nat take_bit_nat_eq_self)
  have "id_table d (int b) (string_items ?off ?ss)"
    using id_table_words [of "string_items ?off ?ss" "int b" ?front w "string_bytes ?ss"] ids(2,3) lb
    unfolding d by (simp add: length_string_items)
  moreover obtain t where t: "search_type_item d (ucast NCSRT_STRING) = Inr (Some (d, t))" "rd32 d (t + 8) = Inr (of_nat b)"
    using package_front_types [OF b(3) d assms(7)] by blast
  moreover have "of_nat b \<noteq> (0 :: 32 word)" using ub lb length_package_front [of "szVersion pr" us "of_nat b" c] by auto
  ultimately have hs: "has_strings (rp_data pkg) (int b) (string_items ?off ?ss)"
    unfolding has_strings_def assms(10) using ub by auto
  have range: "\<forall>(i, s)\<in>set ?ss. 0 \<le> i \<and> i < 2 ^ 32" using ids(1) by fastforce
  note look = string_items_lookup [OF range, where w = resId and off = ?off] and get = get_string_found [OF hs assms(11), of E' fs loc f]
  show ?thesis
  proof (cases "map_of ?ss (uint resId)")
    case None
    then show ?thesis using look get by simp
  next
    case (Some str)
    then obtain k rest where k: "map_of (string_items ?off ?ss) resId = Some (?off + of_nat k)"
      "drop k (string_bytes ?ss) = str @ NUL # rest" "k < length (string_bytes ?ss)" using look by auto
    have "(?off + of_nat k) = of_nat (8 + 12 * length ?ss + k)" by simp
    then have "uint (?off + of_nat k) = int (8 + 12 * length ?ss + k)"
      using b32(2) k(3) by (simp only: unsigned_of_nat take_bit_nat_eq_self_iff) (simp add: take_bit_nat_eq_self)
    then have "nat (int b + uint (?off + of_nat k)) = b + (8 + 12 * length ?ss + k)" by (simp only: nat_int flip: of_nat_add)
    then have q: "drop (nat (int b + uint (?off + of_nat k))) d = str @ NUL # rest"
      unfolding d using k(2) lb by (simp add: length_string_items nat_add_distrib)
    have "NUL \<notin> set str" by (rule saved_strings_plain [OF map_of_SomeD [OF Some] assms(4,5) b(5)])
    then have "takeWhile (\<lambda>c. c \<noteq> NUL) str = str" by (intro takeWhile_eq_all_conv [THEN iffD2]) auto
    moreover have "\<not> int b + uint (?off + of_nat k) < 0" by (simp only: not_less) simp
    ultimately have "str_at (d, int b + uint (?off + of_nat k)) = Inr str" using q cstr_terminated [of str "map Some rest"] by (simp add: str_at_def)
    then show ?thesis using Some get k(1) assms(10) by simp
  qed
qed

text \<open>
  C40: A project that leaves the string pool empty is saved without its strings, but with an entry
  for them that points at the end of the file: looking for any string, the default renderer too,
  reads behind the file.
\<close>

theorem package_without_strings:
  assumes "save_package E sys True M pr = Some (Inr (Some (bin, p)))" "pool_live (pool pr)" "stringPool p = []"
    "bs_storage bin = Some s" "fs_file s = Some (d, m)" "length d < 2 ^ 31" "rp_data pkg = d" "drop_bit 16 resId = NCSRT_STRING"
  shows "ncsGetString E' fs loc (Suc f) (Some pkg) resId = Some (Inl Out_Of_Bounds)"
proof -
  obtain us c bin1 b where b: "bin_at bin1 (package_front (szVersion pr) us (of_nat b) c) b"
    "b = length (package_front (szVersion pr) us (of_nat b) c)" "\<forall>u\<in>set us. 1 AND fst u = 0"
    "writeStringResource E (defRdr pr) p bin1 = Inr bin" "pool_live p"
    using save_package_layout [OF assms(1,2)] by blast
  have lb: "length (package_front (szVersion pr) us (of_nat b) c) = b" by (rule b(2) [symmetric])
  have "bin = bin1" using b(4) assms(3) by (simp add: writeStringResource_def)
  then have d: "d = package_front (szVersion pr) us (of_nat b) c @ []" using b(1) assms(4,5) by (simp add: bin_at_def)
  then have len: "length d = b" using lb by simp
  have ub: "uint (of_nat b :: 32 word) = int b" using len assms(6) by (simp add: uint_word_of_int_eq unsigned_of_nat take_bit_nat_eq_self)
  obtain t where t: "search_type_item d (ucast NCSRT_STRING) = Inr (Some (d, t))" "rd32 d (t + 8) = Inr (of_nat b)"
    using package_front_types [OF b(3) d assms(6)] by blast
  have "of_nat b \<noteq> (0 :: 32 word)" using ub lb length_package_front [of "szVersion pr" us "of_nat b" c] by auto
  then have "get_res_sectaddr E' fs (ncsGetString E' fs loc f) (Some pkg) NCSRT_STRING = Some (Inr (Some (d, int b), Some pkg))"
    using t assms(7) ub by (auto simp: get_res_sectaddr_def)
  moreover have "binary_search_iditem (Some (d, int b)) resId = Inl Out_Of_Bounds"
    using len by (simp add: binary_search_iditem_def rd32_def)
  moreover have "NCSRT_STRING \<noteq> NCSRT_TEXT" by (simp add: NCSRT_STRING_def NCSRT_TEXT_def)
  ultimately show ?thesis using assms(8) by (simp add: get_string_body_def getIDItem_def Let_def)
qed

section \<open>A project with a window\<close>

text \<open>The length of the file and the position, for the example.\<close>

definition sized :: "bin_stream \<Rightarrow> nat \<Rightarrow> nat \<Rightarrow> bool" where
  "sized bin n q \<longleftrightarrow> (\<exists>b. bin_at bin b q \<and> length b = n \<and> q \<le> n)"

lemma sized_save32: "sized bin n q \<Longrightarrow> sized (save32 w bin) (max n (q + 4)) (q + 4)"
  unfolding sized_def using bin_at_save32 by (fastforce simp: length_overwrite)

lemma sized_save8Arr: "sized bin n q \<Longrightarrow> sized (save8Arr (Some d) bin) (max n (q + length d)) (q + length d)"
  unfolding sized_def using bin_at_save8Arr by (fastforce simp: length_overwrite)

lemma sized_seek_end: "sized bin n q \<Longrightarrow> sized (bs_seek 0 seek_end bin) n n"
  by (auto simp: sized_def dest: bin_at_seek_end)

lemma sized_seek: "sized bin n q \<Longrightarrow> 0 \<le> k \<Longrightarrow> k \<le> int n \<Longrightarrow> sized (bs_seek k seek_begin bin) n (nat k)"
  by (auto simp: sized_def dest: bin_at_seek)

lemma sized_tell: "sized bin n q \<Longrightarrow> bs_tell bin = int q"
  by (auto simp: sized_def bin_at_tell)

lemma sized_saveTypeItem:
  assumes "sized bin n q" "60 + 12 * idx \<le> n" shows "sized (saveTypeItem idx ty bin) n n"
proof -
  note e = sized_seek_end [OF assms(1)]
  have "sized (bs_seek (sizeof_NCSRM_HEADER + int idx * sizeof_NCSRM_TYPEITEM) seek_begin (bs_seek 0 seek_end bin)) n (48 + 12 * idx)"
    using sized_seek [OF e, of "sizeof_NCSRM_HEADER + int idx * sizeof_NCSRM_TYPEITEM"] assms(2)
    by (simp add: sizeof_NCSRM_HEADER_def sizeof_NCSRM_TYPEITEM_def nat_add_distrib nat_mult_distrib mult.commute)
  note s = sized_seek_end [OF sized_save32 [OF sized_save32 [OF sized_save32 [OF this, of "word_of_int ty"], of 0]]]
  have "max (max (max n (48 + 12 * idx + 4)) (48 + 12 * idx + 4 + 4)) (48 + 12 * idx + 4 + 4 + 4) = n" using assms(2) by simp
  then show ?thesis using s by (simp add: saveTypeItem_def Let_def)
qed

lemma sized_patch_size:
  assumes "sized bin n q" "0 \<le> k" "k + 4 \<le> int n" shows "sized (patch_size k bin) n n"
proof -
  have "sized (bs_seek k seek_begin bin) n (nat k)" using assms by (intro sized_seek) auto
  note s = sized_seek_end [OF sized_save32 [OF this]]
  have "max n (nat k + 4) = n" using assms by simp
  then show ?thesis using s by (simp add: patch_size_def Let_def)
qed

definition plain_mgncs :: mgncs where
  "plain_mgncs = \<lparr>class_prefix = [], class_suffix = [], useNewControlSet = True, long64 = False\<rparr>"

definition main_window :: component_data where
  "main_window = \<lparr>control_class = Some ''mainwnd'', instance_id = 0x80001, serial_num = 1, text_type = Some (Res_Number 0, Res_Number 0),
     prop_x = 0, prop_y = 0, prop_width = 320, prop_height = 240, comm_style = 0, comm_exstyle = 0, bk_color = None, font_name = None,
     prop_fields = [(1, Some (6, 1, Res_String (Some ''a.gif'')))]\<rparr>"

definition ui_project :: project where
  "ui_project = \<lparr>editors = [Id_Editor, UI_Editor [\<lparr>baseInstance = Window main_window [], ui_saved = True, strXmlFile = ''ui/a.xml''\<rparr>]],
     pool = empty_pool, defRdr = ''classic'', szVersion = ''1.0''\<rparr>"

definition one_string :: string_pool where
  "one_string = empty_pool\<lparr>str_id_begin := 129, str_entries := [0 \<mapsto> \<lparr>se_str = ''mainwnd'', se_id = 0x10081, se_ref = 1\<rparr>],
     next_entry := 1, stringPool := [(0x10081, 0)], namedStringPool := [''mainwnd'' \<mapsto> 0]\<rparr>"

definition two_strings :: string_pool where
  "two_strings = one_string\<lparr>str_id_begin := 130,
     str_entries := [0 \<mapsto> \<lparr>se_str = ''mainwnd'', se_id = 0x10081, se_ref = 1\<rparr>, 1 \<mapsto> \<lparr>se_str = ''a.gif'', se_id = 0x10082, se_ref = 1\<rparr>],
     next_entry := 2, stringPool := [(0x10081, 0), (0x10082, 1)], namedStringPool := [''mainwnd'' \<mapsto> 0, ''a.gif'' \<mapsto> 1]\<rparr>"

lemma add_mainwnd: "addString (Some ''mainwnd'') empty_pool = Inr (0x10081, one_string)"
  by (simp add: addString_def newStrId_def empty_pool_def no_string_def NCSRM_SYSSTR_MAXID_def one_string_def)

lemma add_gif: "addString (Some ''a.gif'') one_string = Inr (0x10082, two_strings)"
  by (simp add: addString_def newStrId_def empty_pool_def no_string_def NCSRM_SYSSTR_MAXID_def one_string_def two_strings_def)

lemma sized_end32: "sized bin n n \<Longrightarrow> sized (save32 w bin) (n + 4) (n + 4)"
  using sized_save32 [of bin n n w] by simp

lemma sized_zeros: "sized bin n n \<Longrightarrow> sized ((save32 w ^^ k) bin) (n + 4 * k) (n + 4 * k)"
  by (induction k) (auto dest: sized_end32 [where w = w] simp: add.commute add.left_commute)

lemma save_main_header:
  assumes "sized bin 92 92"
  shows "\<exists>bin'. save_win_header plain_mgncs main_window (bin, empty_pool) = Inr (bin', one_string) \<and> sized bin' 172 172"
proof -
  note 1 = sized_end32 [OF sized_end32 [OF sized_end32 [OF sized_end32 [OF sized_end32 [OF assms, of "0x10081"], of "0x80001"], of 1], of 0], of 0]
  note 2 = sized_end32 [OF sized_end32 [OF sized_end32 [OF sized_end32 [OF 1, of 0], of 0], of 320], of 240]
  note 3 = sized_end32 [OF sized_end32 [OF sized_end32 [OF sized_end32 [OF 2, of 0], of 0], of 0], of 0]
  show ?thesis using sized_zeros [OF 3, where w = 0 and k = 7]
    by (simp add: save_win_header_def plain_mgncs_def main_window_def class_name_def save_string_id_def add_mainwnd Let_def ID2TYPE_def
      NCSRT_CONTRL_def save_value_def toRes_def)
qed

lemma save_main_window:
  assumes "sized bin 92 92"
  shows "\<exists>bin'. save_component plain_mgncs (Window main_window []) (bin, empty_pool) = Some (Inr (92, bin', two_strings)) \<and> sized bin' 184 184"
proof -
  obtain b1 where h: "save_win_header plain_mgncs main_window (bin, empty_pool) = Inr (b1, one_string)" "sized b1 172 172"
    using save_main_header [OF assms] by blast
  let ?b2 = "save32 0x10082 (save32 1 (save32 6 b1))"
  have 2: "sized ?b2 184 184" using sized_end32 [OF sized_end32 [OF sized_end32 [OF h(2), of 6], of 1], of "0x10082"] by simp
  have fs: "prop_fields main_window = [(1, Some (6, 1, Res_String (Some ''a.gif'')))]" by (simp add: main_window_def)
  have props: "save_win_props (prop_fields main_window) (lower_bound 1 (prop_fields main_window)) (0, b1, one_string) = Some (Inr (1, ?b2, two_strings))"
    unfolding fs by (simp add: save_win_props.simps [of _ "_ # _"] save_win_props.simps [of _ "[]"] lower_bound_def save_win_prop_def save_value_def
      toRes_def add_gif PropExtendEnd_def PropClass_def)
  let ?p = "\<lambda>k w bin. save32 w (bs_seek k seek_begin bin)"
  have p: "sized (?p k w b) 184 (nat k + 4)" if "sized b 184 q" "0 \<le> k" "k + 4 \<le> 184" for k w b q
  proof -
    have "max 184 (nat k + 4) = 184" using that(2,3) by linarith
    then show ?thesis using sized_save32 [OF sized_seek [OF that(1,2)], of w] that(3) by simp
  qed
  have "sized (bs_seek 184 seek_begin (?p 156 1 (?p 148 80 ?b2))) 184 184"
    using sized_seek [OF p [OF p [OF 2, of 148 80], of 156 1], of 184] by simp
  note 3 = this
  have "sized (bs_seek 184 seek_begin (?p 144 92 (bs_seek 184 seek_begin (?p 156 1 (?p 148 80 ?b2))))) 184 184"
    using sized_seek [OF p [OF 3, of 144 92], of 184] by simp
  moreover have "save_component plain_mgncs (Window main_window []) (bin, empty_pool) =
      Some (Inr (92, bs_seek 184 seek_begin (?p 144 92 (bs_seek 184 seek_begin (?p 156 1 (?p 148 80 ?b2)))), two_strings))"
    using sized_tell [OF assms] sized_tell [OF h(2)] sized_tell [OF 2] sized_tell [OF 3] h(1) props
    by (simp add: Let_def patch_props_def patch_ctrls_def patch_member_def at_size_def at_nr_props_def at_offset_props_def
      sizeof_WINHEADER_def plain_mgncs_def)
  ultimately show ?thesis by blast
qed

lemma save_ui_section:
  assumes "sized bin 72 72"
  shows "\<exists>bin'. editor_save plain_mgncs (UI_Editor [\<lparr>baseInstance = Window main_window [], ui_saved = True, strXmlFile = ''ui/a.xml''\<rparr>]) (bin, empty_pool)
    = Some (Inr (bin', two_strings)) \<and> sized bin' 184 184"
proof -
  let ?b1 = "save8Arr (Some (replicate 12 NUL)) (save32 1 (save32 0 bin))"
  let ?b2 = "bs_seek 0 seek_end (save32 20 (save32 0 (save32 0x80001 (bs_seek 80 seek_begin ?b1))))"
  have 1: "sized ?b1 92 92" using sized_save8Arr [OF sized_save32 [OF sized_save32 [OF assms, of 0], of 1], of "replicate 12 NUL"] by simp
  have "sized (bs_seek 80 seek_begin ?b1) 92 80" using sized_seek [OF 1, of 80] by simp
  from sized_seek_end [OF sized_save32 [OF sized_save32 [OF sized_save32 [OF this, of "0x80001"], of 0], of 20]]
  have "sized ?b2 92 92" by simp
  then obtain b3 where 3: "save_component plain_mgncs (Window main_window []) (?b2, empty_pool) = Some (Inr (92, b3, two_strings))" "sized b3 184 184"
    using save_main_window by blast
  have 4: "sized (patch_size 72 (bs_seek 0 seek_end b3)) 184 184" by (rule sized_patch_size [OF sized_seek_end [OF 3(2)]]) simp_all
  have "ui_id \<lparr>baseInstance = Window main_window [], ui_saved = True, strXmlFile = ''ui/a.xml''\<rparr> = 0x80001"
    by (simp add: ui_id_def main_window_def)
  then have "editor_save plain_mgncs (UI_Editor [\<lparr>baseInstance = Window main_window [], ui_saved = True, strXmlFile = ''ui/a.xml''\<rparr>]) (bin, empty_pool)
      = Some (Inr (patch_size 72 (bs_seek 0 seek_end b3), two_strings))"
    using sized_tell [OF assms] sized_tell [OF 1] 3(1)
    by (simp add: editor_save_def UIEditor_save_def sort_panels_def save_panel_def EditUIPanel_saveBin_def Let_def
      del: save_component.simps)
  then show ?thesis using 4 by blast
qed

lemma sized_header: "sized (save_header ''1.0'' 2 (BinStream LITTLE_ENDIAN (Some (FileStreamStorage True)) LITTLE_ENDIAN)) 72 72"
proof -
  have "sized (BinStream LITTLE_ENDIAN (Some (FileStreamStorage True)) LITTLE_ENDIAN) 0 0"
    using bin_at_start [of LITTLE_ENDIAN] by (auto simp: sized_def)
  note 1 = sized_save8Arr [OF sized_save8Arr [OF sized_save32 [OF this, of mgrp], of "four ''1.0''"], of "four ''1.0''"]
  note 2 = sized_save32 [OF sized_save8Arr [OF sized_save8Arr [OF 1, of getEncoding], of getVendor], of 2]
  show ?thesis using sized_save8Arr [OF 2, of "replicate 24 NUL"]
    by (simp add: save_header_def Let_def four_def getEncoding_def getVendor_def)
qed

lemma save_ui_project:
  "\<exists>bin. save_package plain_env LITTLE_ENDIAN True plain_mgncs ui_project = Some (Inr (Some (bin, two_strings))) \<and> sized bin 260 260"
proof -
  let ?h = "save_header ''1.0'' 2 (BinStream LITTLE_ENDIAN (Some (FileStreamStorage True)) LITTLE_ENDIAN)"
  have "sized ?h 72 72" by (rule sized_header)
  then have "sized (saveTypeItem 0 8 ?h) 72 72" by (rule sized_saveTypeItem) simp
  from save_ui_section [OF this] obtain bin where bin: "sized bin 184 184"
    "editor_save plain_mgncs (UI_Editor [\<lparr>baseInstance = Window main_window [], ui_saved = True, strXmlFile = ''ui/a.xml''\<rparr>]) (saveTypeItem 0 8 ?h, empty_pool)
      = Some (Inr (bin, two_strings))" by blast
  have 3: "sized (saveTypeItem 1 1 bin) 184 184" by (rule sized_saveTypeItem [OF bin(1)]) simp
  let ?f = "save_iditems [(0x10001, 44), (0x10081, 56), (0x10082, 68)] (save32 3 (save32 76 (saveTypeItem 1 1 bin)))"
  have 4: "sized (save32 3 (save32 76 (saveTypeItem 1 1 bin))) 192 192" using sized_end32 [OF sized_end32 [OF 3, of 76], of 3] by simp
  note 5 = sized_end32 [OF sized_end32 [OF sized_end32 [OF 4, of "0x10001"], of 0], of 44]
  note 6 = sized_end32 [OF sized_end32 [OF sized_end32 [OF 5, of "0x10081"], of 0], of 56]
  note 7 = sized_end32 [OF sized_end32 [OF sized_end32 [OF 6, of "0x10082"], of 0], of 68]
  have "sized ?f 228 228" using 7 by simp
  from sized_save8Arr [OF this, of "padded ''classic'' @ padded ''mainwnd'' @ padded ''a.gif''"]
  have 8: "sized (save8Arr (Some (padded ''classic'' @ padded ''mainwnd'' @ padded ''a.gif'')) ?f) 260 260" by (simp add: length_padded fill_len_def)
  have "writeStringResource plain_env ''classic'' two_strings (saveTypeItem 1 1 bin) =
      Inr (save8Arr (Some (padded ''classic'' @ padded ''mainwnd'' @ padded ''a.gif'')) ?f)"
    by (simp add: writeStringResource_def two_strings_def plain_env_def saveString_padded get_entry_def fill_len_def
      NCSRM_SYSSTR_DEFRDR_def length_padded)
  then show ?thesis using 8 bin(2)
    by (simp add: save_package_def ui_project_def type_mask_def getEndian_def Let_def numeral_2_eq_2)
qed

lemma saved_strings_read_back_witness:
  "\<exists>bin p s d m pkg q. save_package plain_env LITTLE_ENDIAN True plain_mgncs ui_project = Some (Inr (Some (bin, p))) \<and>
    bs_storage bin = Some s \<and> fs_file s = Some (d, m) \<and> rp_data pkg = d \<and>
    ncsGetString plain_env (\<lambda>_. None) en_locale 1 (Some pkg) 0x10082 = Some (Inr (Some q, Some pkg)) \<and> str_at q = Inr ''a.gif''"
proof -
  obtain bin d s m where b: "save_package plain_env LITTLE_ENDIAN True plain_mgncs ui_project = Some (Inr (Some (bin, two_strings)))"
    "bs_storage bin = Some s" "fs_file s = Some (d, m)" "length d = 260" using save_ui_project by (auto simp: sized_def bin_at_def)
  define pkg where "pkg = example_rp\<lparr>rp_data := d\<rparr>"
  have strings: "saved_strings ''classic'' two_strings = [(0x10001, ''classic''), (0x10081, ''mainwnd''), (0x10082, ''a.gif'')]"
    by (simp add: saved_strings_def pool_strings_def two_strings_def NCSRM_SYSSTR_DEFRDR_def)
  have "\<exists>q. ncsGetString plain_env (\<lambda>_. None) en_locale (Suc 0) (Some pkg) 0x10082 = Some (Inr (q, Some pkg)) \<and>
    (case map_of (saved_strings (defRdr ui_project) two_strings) (uint (0x10082 :: 32 word)) of None \<Rightarrow> q = None
      | Some str \<Rightarrow> \<exists>r. q = Some r \<and> str_at r = Inr str)"
  proof (rule saved_strings_read_back [OF b(1) _ _ _ _ _ _ b(2,3)])
    show "pool_live (pool ui_project)" by (simp add: ui_project_def pool_ok_live pool_ok_empty)
    show "stringPool two_strings \<noteq> []" "\<forall>a se. str_entries two_strings a = Some se \<longrightarrow> NUL \<notin> set (se_str se)"
      by (simp_all add: two_strings_def)
    show "NUL \<notin> set (defRdr ui_project)" by (simp add: ui_project_def)
    show "length (string_bytes (saved_strings (defRdr ui_project) two_strings)) < 2 ^ 31"
      by (simp add: ui_project_def strings string_bytes_def length_padded fill_len_def)
    show "length d < 2 ^ 31" using b(4) by simp
    show "rp_data pkg = d" by (simp add: pkg_def)
    show "drop_bit 16 0x10082 = NCSRT_STRING" by (simp add: NCSRT_STRING_def)
  qed
  moreover have "map_of (saved_strings (defRdr ui_project) two_strings) (uint (0x10082 :: 32 word)) = Some ''a.gif''"
    by (simp add: ui_project_def strings)
  ultimately obtain r where "ncsGetString plain_env (\<lambda>_. None) en_locale 1 (Some pkg) 0x10082 = Some (Inr (Some r, Some pkg))"
    "str_at r = Inr ''a.gif''" by auto
  moreover have "rp_data pkg = d" by (simp add: pkg_def)
  ultimately show ?thesis using b(1-3) by blast
qed

text \<open>Images alone leave the pool empty.\<close>

definition image_project :: project where
  "image_project = \<lparr>editors = [Id_Editor, Image_Editor []], pool = empty_pool, defRdr = ''classic'', szVersion = ''1.0''\<rparr>"

lemma package_without_strings_witness:
  "\<exists>bin p s d m pkg. save_package plain_env LITTLE_ENDIAN True plain_mgncs image_project = Some (Inr (Some (bin, p))) \<and>
    bs_storage bin = Some s \<and> fs_file s = Some (d, m) \<and> rp_data pkg = d \<and>
    ncsGetString plain_env (\<lambda>_. None) en_locale 1 (Some pkg) 0x10001 = Some (Inl Out_Of_Bounds)"
proof -
  let ?h = "save_header ''1.0'' 2 (BinStream LITTLE_ENDIAN (Some (FileStreamStorage True)) LITTLE_ENDIAN)"
  let ?bin = "saveTypeItem 1 1 (saveTypeItem 0 4 ?h)"
  have s: "save_package plain_env LITTLE_ENDIAN True plain_mgncs image_project = Some (Inr (Some (?bin, empty_pool)))"
    by (simp add: save_package_def image_project_def type_mask_def editor_save_def getEndian_def Let_def numeral_2_eq_2
      ImageEditor_save_def writeStringResource_def empty_pool_def)
  have "sized ?bin 72 72" by (rule sized_saveTypeItem [OF sized_saveTypeItem [OF sized_header]]) simp_all
  then obtain st d m where d: "bs_storage ?bin = Some st" "fs_file st = Some (d, m)" "length d = 72" by (auto simp: sized_def bin_at_def)
  define pkg where "pkg = example_rp\<lparr>rp_data := d\<rparr>"
  have "ncsGetString plain_env (\<lambda>_. None) en_locale (Suc 0) (Some pkg) 0x10001 = Some (Inl Out_Of_Bounds)"
  proof (rule package_without_strings [OF s _ _ d(1,2)])
    show "pool_live (pool image_project)" by (simp add: image_project_def pool_ok_live pool_ok_empty)
    show "stringPool empty_pool = []" by (simp add: empty_pool_def)
    show "length d < 2 ^ 31" using d(3) by simp
    show "rp_data pkg = d" by (simp add: pkg_def)
    show "drop_bit 16 0x10001 = NCSRT_STRING" by (simp add: NCSRT_STRING_def)
  qed
  moreover have "rp_data pkg = d" by (simp add: pkg_def)
  ultimately show ?thesis using s d(1,2) by (metis One_nat_def)
qed

end
