(* ===== verification/Layout_Units.thy ===== *)
theory Layout_Units
  imports GB_Prelude
begin

text \<open>
  The size units of the grid layout (\<open>LAYOUT_UNIT\<close> of \<open>mgfc/gridlayout.h\<close> and the functions of
  \<open>mgfc/gridlayout.c\<close> that work on an array of them): the division of a width among columns or rows
  that are given in pixels, in percent, as a splitter bar or not at all.

  The fields are bit-fields, so a store cuts the value: \<open>type:2\<close> and \<open>current_size:16\<close> are unsigned,
  \<open>logic_size:14\<close> is signed. The sums and products are \<open>int\<close>, taken as unbounded: with
  \<open>\<bar>logic_size\<bar> \<le> 8192\<close> they stay in 32 bits for every width below 262144 pixels.
\<close>

section \<open>Bit-fields\<close>

definition u2 :: "int \<Rightarrow> int" where "u2 v = v mod 4"
definition s14 :: "int \<Rightarrow> int" where "s14 v = (v + 8192) mod 16384 - 8192"
definition u16 :: "int \<Rightarrow> int" where "u16 v = v mod 65536"

lemma u16_id [simp]: "0 \<le> v \<Longrightarrow> v < 65536 \<Longrightarrow> u16 v = v"
  by (simp add: u16_def)

lemma s14_id [simp]: "- 8192 \<le> v \<Longrightarrow> v < 8192 \<Longrightarrow> s14 v = v"
  by (simp add: s14_def)

lemma u2_id [simp]: "0 \<le> v \<Longrightarrow> v < 4 \<Longrightarrow> u2 v = v"
  by (simp add: u2_def)

lemma u16_nonneg [simp]: "0 \<le> u16 v"
  by (simp add: u16_def)

lemma u16_le: "0 \<le> v \<Longrightarrow> u16 v \<le> v"
  unfolding u16_def by (rule zmod_le_nonneg_dividend)

record layout_unit =
  u_type :: int
  u_logic :: int
  u_current :: int

text \<open>The invariant of the bit-fields.\<close>

definition unit_ok :: "layout_unit \<Rightarrow> bool" where
  "unit_ok u \<longleftrightarrow> 0 \<le> u_type u \<and> u_type u < 4 \<and> - 8192 \<le> u_logic u \<and> u_logic u < 8192
     \<and> 0 \<le> u_current u \<and> u_current u < 65536"

definition lutPixel :: int where "lutPixel = 0"
definition lutPercent :: int where "lutPercent = 1"
definition lutSpliter :: int where "lutSpliter = 2"

definition SPLITER_SIZE :: int where "SPLITER_SIZE = 4"

lemmas lut_defs = lutPixel_def lutPercent_def lutSpliter_def SPLITER_SIZE_def

text \<open>\<open>units[i].type != lutSpliter && units[i].logic_size == 0\<close>: a unit that shares what is left.\<close>

definition is_avg :: "layout_unit \<Rightarrow> bool" where
  "is_avg u \<longleftrightarrow> u_type u \<noteq> lutSpliter \<and> u_logic u = 0"

section \<open>\<open>recalca_units\<close>\<close>

text \<open>
  The first loop, on the units still ahead and the room \<open>recent\<close> that is left: it gives the units, how
  many share the rest, and the rest.
\<close>

definition wanted_size :: "int \<Rightarrow> layout_unit \<Rightarrow> int" where
  "wanted_size width u =
     u16 (if u_type u = lutPixel then u_logic u
          else if u_type u = lutSpliter then SPLITER_SIZE
          else cdiv (u_logic u * width) 100)"

fun fixed_loop :: "int \<Rightarrow> layout_unit list \<Rightarrow> int \<Rightarrow> layout_unit list \<times> int \<times> int" where
  "fixed_loop width [] recent = ([], 0, recent)"
| "fixed_loop width (u # us) recent =
     (if is_avg u then (let (us', avgs, r) = fixed_loop width us recent in (u # us', avgs + 1, r))
      else (let c = (if wanted_size width u > recent then u16 recent else wanted_size width u);
                (us', avgs, r) = fixed_loop width us (recent - c)
            in (u\<lparr>u_current := c\<rparr> # us', avgs, r)))"

fun avg_loop :: "int \<Rightarrow> layout_unit list \<Rightarrow> int \<Rightarrow> layout_unit list" where
  "avg_loop avg_size [] avgs = []"
| "avg_loop avg_size (u # us) avgs =
     (if \<not> avgs > 0 then u # us
      else if is_avg u then u\<lparr>u_current := u16 avg_size\<rparr> # avg_loop avg_size us (avgs - 1)
      else u # avg_loop avg_size us avgs)"

definition recalca_units :: "layout_unit list option \<Rightarrow> int \<Rightarrow> int \<Rightarrow> layout_unit list option res" where
  "recalca_units units n width =
     (case units of
        None \<Rightarrow> Inr None
      | Some us \<Rightarrow>
          if width \<le> 0 then Inr (Some us)
          else if n > int (length us) then Inl Out_Of_Bounds
          else
            (let (us1, avgs, recent) = fixed_loop width (take (nat n) us) width;
                 rest = drop (nat n) us
             in if recent \<le> 0 then Inr (Some (us1 @ rest))
                else (let avgs = (if avgs \<le> 0 then 1 else avgs);
                          avg_size = cdiv recent avgs
                      in Inr (Some (avg_loop avg_size us1 avgs @ rest)))))"

section \<open>Setting a size\<close>

definition zero_unit :: layout_unit where
  "zero_unit = \<lparr>u_type = 0, u_logic = 0, u_current = 0\<rparr>"

definition set_unit_size ::
  "layout_unit list option \<Rightarrow> int \<Rightarrow> int \<Rightarrow> int \<Rightarrow> int \<Rightarrow> int \<Rightarrow> layout_unit list option res" where
  "set_unit_size units idx n width type logic_size =
     (if idx < 0 \<or> idx \<ge> n then Inr units
      else
        (let us = (case units of None \<Rightarrow> replicate (nat n) zero_unit | Some us \<Rightarrow> us);
             type = (if type < 0 \<or> type > 3 then 0 else type)
         in rbind (aget us idx) (\<lambda>u.
            rbind (aset us idx (u\<lparr>u_type := u2 type, u_logic := s14 logic_size\<rparr>)) (\<lambda>us'.
            recalca_units (Some us') n width))))"

section \<open>Positions\<close>

text \<open>\<open>get_idx_by_pos\<close>: the loop stops at the first unit that ends at or behind the position.\<close>

fun idx_loop :: "int \<Rightarrow> layout_unit list \<Rightarrow> int \<Rightarrow> int \<Rightarrow> int \<Rightarrow> int res" where
  "idx_loop n [] pos w i =
     (if i < n \<and> pos > w then Inl Out_Of_Bounds else Inr (if pos > w then -1 else i - 1))"
| "idx_loop n (u # us) pos w i =
     (if i < n \<and> pos > w then idx_loop n us pos (w + u_current u) (i + 1)
      else Inr (if pos > w then -1 else i - 1))"

definition get_idx_by_pos :: "layout_unit list \<Rightarrow> int \<Rightarrow> int \<Rightarrow> int res" where
  "get_idx_by_pos units pos n = idx_loop n units pos 0 0"

definition getPosFromUnit :: "layout_unit list \<Rightarrow> int \<Rightarrow> int \<Rightarrow> int res" where
  "getPosFromUnit unit idx n =
     (if idx > int (length unit) then Inl Out_Of_Bounds
      else Inr (sum_list (map u_current (take (nat idx) unit))))"

section \<open>What \<open>recalca_units\<close> computes\<close>

definition total_size :: "layout_unit list \<Rightarrow> int" where
  "total_size us = sum_list (map u_current us)"

definition avg_count :: "layout_unit list \<Rightarrow> int" where
  "avg_count us = int (length (filter is_avg us))"

lemma total_size_simps [simp]:
  "total_size [] = 0" "total_size (u # us) = u_current u + total_size us"
  "total_size (us @ us') = total_size us + total_size us'"
  by (simp_all add: total_size_def)

lemma avg_count_simps [simp]:
  "avg_count [] = 0" "avg_count (u # us) = (if is_avg u then 1 else 0) + avg_count us"
  by (simp_all add: avg_count_def)

lemma avg_count_nonneg [simp]: "0 \<le> avg_count us"
  by (simp add: avg_count_def)

lemma avg_count_0: "avg_count us = 0 \<longleftrightarrow> (\<forall>u \<in> set us. \<not> is_avg u)"
  by (auto simp: avg_count_def filter_empty_conv)

lemma total_size_nonneg: "\<forall>u \<in> set us. 0 \<le> u_current u \<Longrightarrow> 0 \<le> total_size us"
  by (induction us) auto

text \<open>The kind of a unit is what the layout keeps when it is resized.\<close>

definition same_kind :: "layout_unit \<Rightarrow> layout_unit \<Rightarrow> bool" where
  "same_kind u v \<longleftrightarrow> u_type u = u_type v \<and> u_logic u = u_logic v"

lemma same_kind_refl [simp]: "same_kind u u"
  by (simp add: same_kind_def)

lemma same_kind_current [simp]: "same_kind u (v\<lparr>u_current := c\<rparr>) = same_kind u v"
  by (simp add: same_kind_def)

lemma same_kind_avg: "same_kind u v \<Longrightarrow> is_avg u = is_avg v"
  by (simp add: same_kind_def is_avg_def)

lemma same_kind_avg_count: "list_all2 same_kind us vs \<Longrightarrow> avg_count vs = avg_count us"
  by (induction rule: list_all2_induct) (simp_all add: same_kind_avg)

text \<open>
  The size a fixed unit takes is what it asks for, or what is left; the units that share the rest
  are not touched by the first loop.
\<close>

lemma fixed_loop_all:
  "fixed_loop width us recent = (us', avgs, r) \<Longrightarrow> 0 \<le> recent \<Longrightarrow>
     list_all2 same_kind us us' \<and> avgs = avg_count us \<and> 0 \<le> r
     \<and> total_size (filter (\<lambda>u. \<not> is_avg u) us') = recent - r \<and> filter is_avg us' = filter is_avg us \<and> r \<le> recent
     \<and> (\<forall>u \<in> set us'. is_avg u \<or> 0 \<le> u_current u)"
proof (induction us arbitrary: recent us' avgs r)
  case (Cons u us)
  show ?case
  proof (cases "is_avg u")
    case True
    with Cons.prems obtain us1 avgs1 where *: "fixed_loop width us recent = (us1, avgs1, r)" "us' = u # us1" "avgs = avgs1 + 1"
      by (auto split: prod.splits)
    from Cons.IH [OF *(1) Cons.prems(2)] *(2,3) True show ?thesis by simp
  next
    case False
    define c where "c = (if wanted_size width u > recent then u16 recent else wanted_size width u)"
    have c: "0 \<le> c" "0 \<le> recent - c" using Cons.prems(2) u16_le [of recent] by (auto simp: c_def wanted_size_def)
    from Cons.prems(1) False obtain us1 where *: "fixed_loop width us (recent - c) = (us1, avgs, r)"
        "us' = u\<lparr>u_current := c\<rparr> # us1"
      by (auto simp: c_def Let_def split: prod.splits)
    have "\<not> is_avg (u\<lparr>u_current := c\<rparr>)" using False by (simp add: is_avg_def)
    with Cons.IH [OF *(1) c(2)] *(2) False c show ?thesis by simp
  qed
qed simp

lemma avg_loop_done: "avg_count us = 0 \<Longrightarrow> map (\<lambda>u. if is_avg u then f u else u) us = us"
  by (simp add: avg_count_0 map_idI)

lemma avg_loop_eq:
  "avg_count us \<le> avgs \<Longrightarrow>
     avg_loop sz us avgs = map (\<lambda>u. if is_avg u then u\<lparr>u_current := u16 sz\<rparr> else u) us"
proof (induction us arbitrary: avgs)
  case (Cons u us)
  show ?case
  proof (cases "0 < avgs")
    case True
    then show ?thesis using Cons.IH [of avgs] Cons.IH [of "avgs - 1"] Cons.prems by (cases "is_avg u") simp_all
  next
    case False
    then have "avg_count (u # us) = 0" using Cons.prems avg_count_nonneg [of "u # us"] by linarith
    from avg_loop_done [OF this] False show ?thesis by simp
  qed
qed simp

lemma total_size_split:
  "total_size us = total_size (filter (\<lambda>u. \<not> is_avg u) us) + total_size (filter is_avg us)"
  by (induction us) simp_all

lemma total_size_avg_map:
  "total_size (map (\<lambda>u. if is_avg u then u\<lparr>u_current := c\<rparr> else u) us)
     = total_size (filter (\<lambda>u. \<not> is_avg u) us) + avg_count us * c"
  by (induction us) (simp_all add: algebra_simps)

text \<open>
  After a call on an array of \<open>n\<close> units: the units keep their kind; when room is left (or no unit asks
  for a share) the sizes add up to at most the width, and with shared units all but less than one
  pixel per shared unit is used.
\<close>

definition room_left :: "int \<Rightarrow> layout_unit list \<Rightarrow> int" where
  "room_left width us = snd (snd (fixed_loop width us width))"

lemma recalca_units_spec:
  assumes "0 < width"
  shows "\<exists>us'. recalca_units (Some us) (int (length us)) width = Inr (Some us')
     \<and> list_all2 same_kind us us' \<and> 0 \<le> room_left width us \<and> room_left width us \<le> width
     \<and> (avg_count us = 0 \<longrightarrow> total_size us' = width - room_left width us)
     \<and> (0 < avg_count us \<and> 0 < room_left width us \<and> width < 65536 \<longrightarrow>
          total_size us' \<le> width \<and> width < total_size us' + avg_count us)
     \<and> (room_left width us = 0 \<longrightarrow> total_size us' = width + total_size (filter is_avg us))"
proof -
  obtain us1 avgs r where fl: "fixed_loop width us width = (us1, avgs, r)" by (metis prod_cases3)
  have width: "0 \<le> width" using assms by simp
  have spec: "list_all2 same_kind us us1" "avgs = avg_count us" "0 \<le> r"
      "total_size (filter (\<lambda>u. \<not> is_avg u) us1) = width - r" "filter is_avg us1 = filter is_avg us" "r \<le> width"
    using fixed_loop_all [OF fl width] by simp_all
  have room: "room_left width us = r" by (simp add: room_left_def fl)
  have cnt: "avg_count us1 = avg_count us" using same_kind_avg_count [OF spec(1)] .
  show ?thesis
  proof (cases "r \<le> 0")
    case True
    then show ?thesis
      using assms spec room fl total_size_split [of us1] by (simp add: recalca_units_def avg_count_0)
  next
    case False
    define a where "a = (if avg_count us \<le> 0 then 1 else avg_count us)"
    define c where "c = u16 (cdiv r a)"
    have "recalca_units (Some us) (int (length us)) width =
        Inr (Some (map (\<lambda>u. if is_avg u then u\<lparr>u_current := c\<rparr> else u) us1))"
      using assms False fl spec(2) avg_loop_eq [of us1 a "cdiv r a"] cnt
      by (simp add: recalca_units_def a_def c_def Let_def)
    moreover have "list_all2 same_kind us (map (\<lambda>u. if is_avg u then u\<lparr>u_current := c\<rparr> else u) us1)"
      using spec(1) by (auto simp: list_all2_conv_all_nth)
    moreover have "total_size (map (\<lambda>u. if is_avg u then u\<lparr>u_current := c\<rparr> else u) us1) = width - r + avg_count us * c"
      using spec(4) cnt by (simp add: total_size_avg_map)
    moreover have "avg_count us * c \<le> r \<and> r < avg_count us * c + avg_count us" if "0 < avg_count us" "width < 65536"
    proof -
      have "r div avg_count us \<le> r div 1" using that False by (intro zdiv_mono2) simp_all
      then have c: "c = r div avg_count us"
        using that False spec(6) by (simp add: c_def a_def cdiv_nonneg_eq pos_imp_zdiv_nonneg_iff)
      show ?thesis
        using mult_div_mod_eq [of "avg_count us" r] pos_mod_bound [OF that(1), of r] pos_mod_sign [OF that(1), of r]
        unfolding c by linarith
    qed
    ultimately show ?thesis using False room spec(3,6) by auto
  qed
qed

text \<open>
  recalca_units keeps the kinds of all units; with no shared unit the sizes add up to at most the
  width, with shared ones they fill it up to one pixel each, unless the fixed units use everything:
  then shared units keep stale sizes and the total exceeds the width.
\<close>

theorem recalca_units_divides_width:
  assumes "0 < width" "width < 65536"
  shows "\<exists>us'. recalca_units (Some us) (int (length us)) width = Inr (Some us') \<and> list_all2 same_kind us us'
     \<and> (if avg_count us = 0 then total_size us' \<le> width
        else if 0 < room_left width us then total_size us' \<le> width \<and> width < total_size us' + avg_count us
        else total_size us' = width + total_size (filter is_avg us))"
proof -
  obtain us' where "recalca_units (Some us) (int (length us)) width = Inr (Some us')" "list_all2 same_kind us us'"
     "0 \<le> room_left width us" "avg_count us = 0 \<longrightarrow> total_size us' = width - room_left width us"
     "0 < avg_count us \<and> 0 < room_left width us \<longrightarrow> total_size us' \<le> width \<and> width < total_size us' + avg_count us"
     "room_left width us = 0 \<longrightarrow> total_size us' = width + total_size (filter is_avg us)"
    using recalca_units_spec [OF assms(1), of us] assms(2) by blast
  moreover have "0 < avg_count us \<or> avg_count us = 0" using avg_count_nonneg [of us] by linarith
  ultimately show ?thesis by (intro exI [of _ us']) auto
qed

lemma recalca_units_divides_width_witness:
  "\<exists>us'. recalca_units (Some [\<lparr>u_type = 0, u_logic = 0, u_current = 50\<rparr>, \<lparr>u_type = 0, u_logic = 120, u_current = 50\<rparr>]) 2 100
       = Inr (Some us') \<and> total_size us' = 150"
  using recalca_units_divides_width [of 100 "[\<lparr>u_type = 0, u_logic = 0, u_current = 50\<rparr>, \<lparr>u_type = 0, u_logic = 120, u_current = 50\<rparr>]"]
  by (auto simp: is_avg_def lut_defs room_left_def wanted_size_def)

section \<open>Positions and indices\<close>

text \<open>Where a unit begins, counted from the start of the array.\<close>

definition unit_pos :: "layout_unit list \<Rightarrow> nat \<Rightarrow> int" where
  "unit_pos us j = total_size (take j us)"

lemma unit_pos_0 [simp]: "unit_pos us 0 = 0"
  by (simp add: unit_pos_def)

lemma unit_pos_Suc_Cons [simp]: "unit_pos (u # us) (Suc j) = u_current u + unit_pos us j"
  by (simp add: unit_pos_def)

lemma unit_pos_Suc: "j < length us \<Longrightarrow> unit_pos us (Suc j) = unit_pos us j + u_current (us ! j)"
  by (simp add: unit_pos_def take_Suc_conv_app_nth)

lemma unit_pos_all: "length us \<le> j \<Longrightarrow> unit_pos us j = total_size us"
  by (simp add: unit_pos_def)

lemma getPosFromUnit_eq: "j \<le> length us \<Longrightarrow> getPosFromUnit us (int j) n = Inr (unit_pos us j)"
  by (simp add: getPosFromUnit_def unit_pos_def total_size_def)

lemma unit_pos_mono:
  assumes "\<forall>u \<in> set us. 0 \<le> u_current u" "j \<le> k"
  shows "unit_pos us j \<le> unit_pos us k"
proof -
  have "take k us = take j us @ take (k - j) (drop j us)"
    using assms(2) by (metis le_add_diff_inverse take_add)
  moreover have "0 \<le> total_size (take (k - j) (drop j us))"
    using assms(1) by (intro total_size_nonneg) (meson in_set_dropD in_set_takeD)
  ultimately show ?thesis by (simp add: unit_pos_def)
qed

lemma unit_pos_le_total: "\<forall>u \<in> set us. 0 \<le> u_current u \<Longrightarrow> unit_pos us j \<le> total_size us"
  using unit_pos_mono [of us j "max j (length us)"] by (simp add: unit_pos_all)

text \<open>The search: a position belongs to the unit it lies behind the start of, up to and with its end.\<close>

lemma idx_loop_hit:
  "k < length us \<Longrightarrow> w + unit_pos us k < pos \<Longrightarrow> pos \<le> w + unit_pos us (Suc k)
     \<Longrightarrow> \<forall>u \<in> set us. 0 \<le> u_current u \<Longrightarrow> i + int (length us) = n
     \<Longrightarrow> idx_loop n us pos w i = Inr (i + int k)"
proof (induction us arbitrary: w i k)
  case (Cons u us)
  have "0 \<le> unit_pos (u # us) k" using unit_pos_mono [OF Cons.prems(4), of 0 k] by simp
  then have w: "w < pos" using Cons.prems(2) by linarith
  show ?case
  proof (cases k)
    case 0
    then have "pos \<le> w + u_current u" using Cons.prems(3) by simp
    then have "idx_loop n us pos (w + u_current u) (i + 1) = Inr i" by (cases us) simp_all
    then show ?thesis using w 0 Cons.prems(5) by simp
  next
    case (Suc k')
    then show ?thesis using Cons.prems Cons.IH [of k' "w + u_current u" "i + 1"] w by simp
  qed
qed simp

lemma idx_loop_miss:
  "w + total_size us < pos \<Longrightarrow> \<forall>u \<in> set us. 0 \<le> u_current u \<Longrightarrow> i + int (length us) = n
     \<Longrightarrow> idx_loop n us pos w i = Inr (- 1)"
proof (induction us arbitrary: w i)
  case (Cons u us)
  have "0 \<le> total_size us" using Cons.prems(2) by (simp add: total_size_nonneg)
  then show ?case using Cons by simp
qed simp

lemma unit_at_pos:
  "\<forall>u \<in> set us. 0 \<le> u_current u \<Longrightarrow> 0 < pos \<Longrightarrow> pos \<le> total_size us
     \<Longrightarrow> \<exists>k < length us. unit_pos us k < pos \<and> pos \<le> unit_pos us (Suc k)"
proof (induction us arbitrary: pos)
  case (Cons u us)
  show ?case
  proof (cases "pos \<le> u_current u")
    case True
    then show ?thesis using Cons.prems by (intro exI [of _ 0]) simp
  next
    case False
    then obtain k where "k < length us" "unit_pos us k < pos - u_current u" "pos - u_current u \<le> unit_pos us (Suc k)"
      using Cons.IH [of "pos - u_current u"] Cons.prems by auto
    then show ?thesis by (intro exI [of _ "Suc k"]) simp
  qed
qed simp

lemma get_idx_by_pos_spec:
  assumes "\<forall>u \<in> set us. 0 \<le> u_current u"
  shows "\<exists>j. get_idx_by_pos us pos (int (length us)) = Inr j \<and> - 1 \<le> j \<and> j < int (length us)
     \<and> (\<forall>k < length us. j = int k \<longleftrightarrow> unit_pos us k < pos \<and> pos \<le> unit_pos us (Suc k))
     \<and> (j = - 1 \<longleftrightarrow> pos \<le> 0 \<or> total_size us < pos)"
proof (cases "pos \<le> 0 \<or> total_size us < pos")
  case True
  then have "get_idx_by_pos us pos (int (length us)) = Inr (- 1)"
  proof
    assume "pos \<le> 0"
    then show ?thesis by (cases us) (simp_all add: get_idx_by_pos_def)
  next
    assume "total_size us < pos"
    then show ?thesis using assms by (simp add: get_idx_by_pos_def idx_loop_miss)
  qed
  moreover have "\<not> (unit_pos us k < pos \<and> pos \<le> unit_pos us (Suc k))" for k
    using True unit_pos_mono [OF assms, of 0 k] unit_pos_le_total [OF assms, of "Suc k"] by auto
  ultimately show ?thesis using True by auto
next
  case False
  then obtain k where k: "k < length us" "unit_pos us k < pos" "pos \<le> unit_pos us (Suc k)"
    using unit_at_pos [OF assms, of pos] by auto
  have idx: "get_idx_by_pos us pos (int (length us)) = Inr (int k)"
    using idx_loop_hit [of k us 0 pos 0] k assms by (simp add: get_idx_by_pos_def)
  have uniq: "m = k" if "unit_pos us m < pos" "pos \<le> unit_pos us (Suc m)" for m
  proof (rule ccontr)
    assume "m \<noteq> k"
    then consider "Suc m \<le> k" | "Suc k \<le> m" by linarith
    then show False
      using unit_pos_mono [OF assms, of "Suc m" k] unit_pos_mono [OF assms, of "Suc k" m] that k by cases linarith+
  qed
  have iff: "int k = int m \<longleftrightarrow> unit_pos us m < pos \<and> pos \<le> unit_pos us (Suc m)" for m
  proof
    assume "int k = int m"
    then show "unit_pos us m < pos \<and> pos \<le> unit_pos us (Suc m)" using k(2,3) by simp
  next
    assume "unit_pos us m < pos \<and> pos \<le> unit_pos us (Suc m)"
    then have "m = k" using uniq [of m] by blast
    then show "int k = int m" by (rule arg_cong [OF sym])
  qed
  show ?thesis
  proof (intro exI conjI allI impI)
    show "get_idx_by_pos us pos (int (length us)) = Inr (int k)" by (rule idx)
    show "- 1 \<le> int k" "int k < int (length us)" using k(1) by simp_all
    show "int k = - 1 \<longleftrightarrow> pos \<le> 0 \<or> total_size us < pos" using False by simp
  qed (rule iff)
qed

section \<open>The bit-fields stay in range\<close>

lemma unit_ok_current [simp]: "unit_ok u \<Longrightarrow> unit_ok (u\<lparr>u_current := u16 v\<rparr>)"
  by (simp add: unit_ok_def u16_def)

lemma unit_ok_kind [simp]: "unit_ok u \<Longrightarrow> unit_ok (u\<lparr>u_type := u2 a, u_logic := s14 b\<rparr>)"
  by (simp add: unit_ok_def u2_def s14_def)

lemma zero_unit_ok [simp]: "unit_ok zero_unit"
  by (simp add: unit_ok_def zero_unit_def)

lemma fixed_loop_ok:
  "\<forall>u \<in> set us. unit_ok u \<Longrightarrow> fixed_loop width us recent = (us', a, r) \<Longrightarrow> \<forall>u \<in> set us'. unit_ok u"
proof (induction us arbitrary: recent us' a r)
  case (Cons u us)
  define c where "c = (if wanted_size width u > recent then u16 recent else wanted_size width u)"
  have "\<exists>v. c = u16 v" by (auto simp: c_def wanted_size_def)
  then have u: "unit_ok (u\<lparr>u_current := c\<rparr>)" using Cons.prems(1) by auto
  obtain us1 a1 where "fixed_loop width us (if is_avg u then recent else recent - c) = (us1, a1, r)"
      "us' = (if is_avg u then u else u\<lparr>u_current := c\<rparr>) # us1"
    using Cons.prems(2) by (auto simp: c_def Let_def split: if_splits prod.splits)
  then show ?case using Cons.IH [of _ us1 a1 r] Cons.prems(1) u by auto
qed simp

lemma avg_loop_ok: "\<forall>u \<in> set us. unit_ok u \<Longrightarrow> \<forall>u \<in> set (avg_loop a us n). unit_ok u"
  by (induction us arbitrary: n) auto

lemma length_fixed_loop: "fixed_loop width us recent = (us', a, r) \<Longrightarrow> length us' = length us"
  by (induction us arbitrary: recent us' a r) (auto simp: Let_def split: if_splits prod.splits)

lemma length_avg_loop: "length (avg_loop a us n) = length us"
  by (induction us arbitrary: n) auto

text \<open>A units array of a layout with \<open>n\<close> columns (or rows): none, or \<open>n\<close> units.\<close>

definition units_ok :: "layout_unit list option \<Rightarrow> int \<Rightarrow> bool" where
  "units_ok units n \<longleftrightarrow> (case units of None \<Rightarrow> True | Some us \<Rightarrow> int (length us) = n \<and> (\<forall>u \<in> set us. unit_ok u))"

lemma units_ok_None [simp]: "units_ok None n"
  by (simp add: units_ok_def)

lemma units_ok_nonneg: "units_ok (Some us) n \<Longrightarrow> \<forall>u \<in> set us. 0 \<le> u_current u"
  by (auto simp: units_ok_def unit_ok_def)

lemma recalca_units_ok:
  assumes "units_ok units n"
  shows "\<exists>units'. recalca_units units n width = Inr units' \<and> units_ok units' n \<and> (units' = None \<longleftrightarrow> units = None)"
proof (cases units)
  case (Some us)
  obtain us1 avgs r where fl: "fixed_loop width us width = (us1, avgs, r)" by (metis prod_cases3)
  have "\<forall>u \<in> set us1. unit_ok u" using fixed_loop_ok [OF _ fl] assms Some by (simp add: units_ok_def)
  moreover have "length us1 = length us" by (rule length_fixed_loop [OF fl])
  ultimately show ?thesis
    using assms Some fl by (auto simp: recalca_units_def units_ok_def Let_def length_avg_loop avg_loop_ok)
qed (simp add: recalca_units_def)

lemma set_unit_size_ok:
  assumes "units_ok units n"
  shows "\<exists>units'. set_unit_size units idx n width type logic = Inr units' \<and> units_ok units' n"
proof (cases "idx < 0 \<or> idx \<ge> n")
  case False
  define us where "us = (case units of None \<Rightarrow> replicate (nat n) zero_unit | Some us \<Rightarrow> us)"
  define t where "t = (if type < 0 \<or> type > 3 then 0 else type)"
  define us' where "us' = us[nat idx := (us ! nat idx)\<lparr>u_type := u2 t, u_logic := s14 logic\<rparr>]"
  have us: "int (length us) = n" "\<forall>u \<in> set us. unit_ok u"
    using assms False by (auto simp: us_def units_ok_def split: option.splits)
  have "set_unit_size units idx n width type logic = recalca_units (Some us') n width"
    using False us(1) by (simp add: set_unit_size_def us'_def us_def [symmetric] t_def aget_def aset_def Let_def)
  moreover have "units_ok (Some us') n"
    using us False by (auto simp: units_ok_def us'_def dest!: set_update_subset_insert [THEN subsetD])
  ultimately show ?thesis using recalca_units_ok by metis
qed (use assms in \<open>simp add: set_unit_size_def\<close>)

end
