(* ===== verification/Grid_Layout.thy ===== *)
theory Grid_Layout
  imports Layout_Units
begin

text \<open>
  The grid layout of \<open>mgfc/gridlayout.c\<close>: one \<open>GRID_LAYOUT\<close> with its cells, and the operations that look
  at a single layout: creation, sizes, the content of the cells, the cell under a point, the rectangle
  of a cell and the walk over all cells with their rectangles.

  A pointer is a number, \<open>0\<close> for \<open>NULL\<close>; the union of a cell is the pointer it holds. A function that
  gets a layout pointer takes the layout, or \<open>None\<close> for \<open>NULL\<close>; the cells are reached as
  \<open>cells[col][row]\<close>, as in the source, and an index outside the arrays is a fault. \<open>calloc\<close> does not fail
  (the source does not look).
\<close>

section \<open>Data\<close>

definition gct_unknown :: int where "gct_unknown = 0"
definition gct_hwnd :: int where "gct_hwnd = 1"
definition gct_grid :: int where "gct_grid = 2"
definition gct_user :: int where "gct_user = 3"
definition gct_max :: int where "gct_max = 4"

lemmas gct_defs = gct_unknown_def gct_hwnd_def gct_grid_def gct_user_def gct_max_def

record grid_cell =
  c_type :: int
  c_revert :: int
  c_flag :: int
  c_data :: nat

record grid_layout =
  hwndAttached :: nat
  gl_x :: int
  gl_y :: int
  gl_width :: int
  gl_height :: int
  row_cnt :: int
  row_height :: "layout_unit list option"
  col_cnt :: int
  col_width :: "layout_unit list option"
  cells :: "grid_cell list list"

section \<open>Creation\<close>

definition zero_cell :: grid_cell where
  "zero_cell = \<lparr>c_type = 0, c_revert = 0, c_flag = 0, c_data = 0\<rparr>"

definition zero_layout :: grid_layout where
  "zero_layout = \<lparr>hwndAttached = 0, gl_x = 0, gl_y = 0, gl_width = 0, gl_height = 0, row_cnt = 0,
     row_height = None, col_cnt = 0, col_width = None, cells = []\<rparr>"

definition InitGridLayout :: "grid_layout \<Rightarrow> int \<Rightarrow> int \<Rightarrow> int \<times> grid_layout" where
  "InitGridLayout gl rows cols =
     (1, gl\<lparr>row_cnt := rows, col_cnt := cols,
            cells := replicate (nat cols) (replicate (nat rows) zero_cell)\<rparr>)"

definition CreateGridLayout :: "int \<Rightarrow> int \<Rightarrow> grid_layout option" where
  "CreateGridLayout rows cols =
     (if rows \<le> 0 \<or> cols \<le> 0 then None else Some (snd (InitGridLayout zero_layout rows cols)))"

section \<open>Sizes of rows and columns\<close>

definition GridLayoutSetRowHeight :: "grid_layout \<Rightarrow> int \<Rightarrow> int \<Rightarrow> int \<Rightarrow> grid_layout res" where
  "GridLayoutSetRowHeight gl row type logic_size =
     (if row \<ge> row_cnt gl then Inr gl
      else rbind (set_unit_size (row_height gl) row (row_cnt gl) (gl_height gl) type logic_size) (\<lambda>us.
        Inr (gl\<lparr>row_height := us\<rparr>)))"

definition GridLayoutSetColWidth :: "grid_layout \<Rightarrow> int \<Rightarrow> int \<Rightarrow> int \<Rightarrow> grid_layout res" where
  "GridLayoutSetColWidth gl col type logic_size =
     (if col \<ge> col_cnt gl then Inr gl
      else rbind (set_unit_size (col_width gl) col (col_cnt gl) (gl_width gl) type logic_size) (\<lambda>us.
        Inr (gl\<lparr>col_width := us\<rparr>)))"

section \<open>The content of a cell\<close>

definition spliter_at :: "layout_unit list option \<Rightarrow> int \<Rightarrow> bool res" where
  "spliter_at units i =
     (case units of None \<Rightarrow> Inr False | Some us \<Rightarrow> rbind (aget us i) (\<lambda>u. Inr (u_type u = lutSpliter)))"

definition cell_at :: "grid_layout \<Rightarrow> int \<Rightarrow> int \<Rightarrow> grid_cell res" where
  "cell_at gl col row = rbind (aget (cells gl) col) (\<lambda>c. aget c row)"

definition put_cell :: "grid_layout \<Rightarrow> int \<Rightarrow> int \<Rightarrow> grid_cell \<Rightarrow> grid_layout res" where
  "put_cell gl col row cell =
     rbind (aget (cells gl) col) (\<lambda>c. rbind (aset c row cell) (\<lambda>c'.
     rbind (aset (cells gl) col c') (\<lambda>cs. Inr (gl\<lparr>cells := cs\<rparr>))))"

text \<open>
  The guard of \<open>GridLayoutGetCell\<close> and \<open>GridLayoutSetCell\<close>, with the \<open>&&\<close> of the source: no index is at
  once negative and too large, so the first two tests never hold.
\<close>

definition refused :: "grid_layout \<Rightarrow> int \<Rightarrow> int \<Rightarrow> bool res" where
  "refused gl row col =
     (if (col < 0 \<and> col \<ge> col_cnt gl) \<or> (row < 0 \<and> row \<ge> row_cnt gl) then Inr True
      else rbind (spliter_at (col_width gl) col) (\<lambda>sc.
        if sc then Inr True else spliter_at (row_height gl) row))"

definition GridLayoutGetCell :: "grid_layout option \<Rightarrow> int \<Rightarrow> int \<Rightarrow> nat res" where
  "GridLayoutGetCell playout row col =
     (case playout of
        None \<Rightarrow> Inr 0
      | Some gl \<Rightarrow> rbind (refused gl row col) (\<lambda>r.
          if r then Inr 0 else rbind (cell_at gl col row) (\<lambda>c. Inr (c_data c))))"

definition GridLayoutSetCell ::
  "grid_layout option \<Rightarrow> int \<Rightarrow> int \<Rightarrow> int \<Rightarrow> nat \<Rightarrow> (nat \<times> grid_layout option) res" where
  "GridLayoutSetCell playout row col type new_obj =
     (case playout of
        None \<Rightarrow> Inr (0, None)
      | Some gl \<Rightarrow> rbind (refused gl row col) (\<lambda>r.
          if r then Inr (0, playout)
          else if type \<le> gct_unknown \<or> type \<ge> gct_max then Inr (0, playout)
          else rbind (cell_at gl col row) (\<lambda>c.
               rbind (put_cell gl col row (c\<lparr>c_data := new_obj, c_type := type\<rparr>)) (\<lambda>gl'.
               Inr (c_data c, Some gl')))))"

definition GridLayoutRemove :: "grid_layout option \<Rightarrow> int \<Rightarrow> int \<Rightarrow> (nat \<times> grid_layout option) res" where
  "GridLayoutRemove playout row col =
     (case playout of
        None \<Rightarrow> Inr (0, None)
      | Some gl \<Rightarrow>
          if (col < 0 \<and> col \<ge> col_cnt gl) \<or> (row < 0 \<and> row \<ge> row_cnt gl) then Inr (0, playout)
          else rbind (cell_at gl col row) (\<lambda>c.
               rbind (put_cell gl col row (c\<lparr>c_data := 0\<rparr>)) (\<lambda>gl'. Inr (c_data c, Some gl'))))"

section \<open>The cell under a point\<close>

text \<open>The row (or column) of one coordinate: by the units, or by the average size.\<close>

definition axis_idx :: "layout_unit list option \<Rightarrow> int \<Rightarrow> int \<Rightarrow> int \<Rightarrow> int res" where
  "axis_idx units pos extent n =
     (case units of
        Some us \<Rightarrow> get_idx_by_pos us pos n
      | None \<Rightarrow> rbind (cdiv_checked extent n) (\<lambda>avg. cdiv_checked pos avg))"

definition GetRowColByPos :: "grid_layout \<Rightarrow> int \<Rightarrow> int \<Rightarrow> (bool \<times> int \<times> int) res" where
  "GetRowColByPos gl x y =
     rbind (axis_idx (row_height gl) (y - gl_y gl) (gl_height gl) (row_cnt gl)) (\<lambda>row.
     rbind (axis_idx (col_width gl) (x - gl_x gl) (gl_width gl) (col_cnt gl)) (\<lambda>col.
     Inr (row \<ge> 0 \<and> row < row_cnt gl \<and> col \<ge> 0 \<and> col < col_cnt gl, row, col)))"

text \<open>The pointer \<open>&cells[col][row]\<close> is given as column and row.\<close>

definition GridLayoutHit :: "grid_layout \<Rightarrow> int \<Rightarrow> int \<Rightarrow> (int \<times> int) option res" where
  "GridLayoutHit gl x y =
     rbind (GetRowColByPos gl x y) (\<lambda>(_, row, col).
     Inr (if col \<ge> 0 \<and> row \<ge> 0 \<and> col < col_cnt gl \<and> row < row_cnt gl then Some (col, row) else None))"

definition GridLayoutRemoveHit :: "grid_layout \<Rightarrow> int \<Rightarrow> int \<Rightarrow> (nat \<times> grid_layout option) res" where
  "GridLayoutRemoveHit gl x y =
     rbind (GetRowColByPos gl x y) (\<lambda>(_, row, col). GridLayoutRemove (Some gl) row col)"

section \<open>Rectangles\<close>

definition is_in_gridlayout :: "int \<Rightarrow> int \<Rightarrow> grid_layout \<Rightarrow> bool" where
  "is_in_gridlayout x y gl \<longleftrightarrow>
     (let in_x = x - gl_x gl; in_y = y - gl_y gl
      in in_x \<ge> 0 \<and> in_x < gl_width gl \<and> in_y \<ge> 0 \<and> in_y < gl_height gl)"

text \<open>One direction of \<open>GridLayoutGetCellRect\<close>: from where to where column (or row) \<open>i\<close> reaches.\<close>

definition axis_span :: "layout_unit list option \<Rightarrow> int \<Rightarrow> int \<Rightarrow> int \<Rightarrow> int \<Rightarrow> (int \<times> int) res" where
  "axis_span units i start extent n =
     (case units of
        Some us \<Rightarrow>
          rbind (getPosFromUnit us i n) (\<lambda>p.
          rbind (aget us i) (\<lambda>u. Inr (start + p, start + p + u_current u)))
      | None \<Rightarrow> rbind (cdiv_checked extent n) (\<lambda>avg. Inr (start + avg * i, start + avg * i + avg)))"

text \<open>\<open>None\<close> stands for \<open>FALSE\<close>, with the rectangle of the caller left as it was.\<close>

definition GridLayoutGetCellRect :: "grid_layout \<Rightarrow> int \<Rightarrow> int \<Rightarrow> rect option res" where
  "GridLayoutGetCellRect gl row col =
     (if (row < 0 \<or> row \<ge> row_cnt gl) \<or> (col < 0 \<or> col \<ge> col_cnt gl) then Inr None
      else rbind (axis_span (col_width gl) col (gl_x gl) (gl_width gl) (col_cnt gl)) (\<lambda>(l, r).
           rbind (axis_span (row_height gl) row (gl_y gl) (gl_height gl) (row_cnt gl)) (\<lambda>(t, b).
           Inr (Some \<lparr>r_left = l, r_top = t, r_right = r, r_bottom = b\<rparr>))))"

text \<open>
  \<open>>> 1\<close> on a negative \<open>int\<close> is the arithmetic shift, which is \<open>div 2\<close>. The rectangle is a local
  variable without a value: where \<open>GridLayoutGetCellRect\<close> does not set it, it is read uninitialised.
\<close>

definition GetHittedGridCenterPos :: "grid_layout \<Rightarrow> int \<Rightarrow> int \<Rightarrow> (int \<times> int) option res" where
  "GetHittedGridCenterPos gl x y =
     (if \<not> is_in_gridlayout x y gl then Inr None
      else rbind (GetRowColByPos gl x y) (\<lambda>(_, row, col).
           rbind (GridLayoutGetCellRect gl row col) (\<lambda>rc.
           case rc of
             None \<Rightarrow> Inl Uninitialised
           | Some rc \<Rightarrow> Inr (Some ((r_left rc + r_right rc) div 2, (r_top rc + r_bottom rc) div 2)))))"

section \<open>Walking over the cells\<close>

text \<open>
  \<open>_grid_layout_deal_cell_with_position\<close>: the calls \<open>deal_cell(cell, &rect)\<close> it makes, in order, each as
  column, row, cell and rectangle. What the callback does to the layout itself is not seen by the
  walk; the two users of it only change layouts further down.
\<close>

definition size_at :: "layout_unit list option \<Rightarrow> int \<Rightarrow> int \<Rightarrow> int res" where
  "size_at units i avg = (case units of None \<Rightarrow> Inr avg | Some us \<Rightarrow> rbind (aget us i) (\<lambda>u. Inr (u_current u)))"

fun deal_rows ::
  "grid_layout \<Rightarrow> int \<Rightarrow> int \<Rightarrow> int \<Rightarrow> int \<Rightarrow> nat \<Rightarrow> int \<Rightarrow> int \<Rightarrow> (int \<times> int \<times> grid_cell \<times> rect) list res" where
  "deal_rows gl avgrow col left right 0 row tp = Inr []"
| "deal_rows gl avgrow col left right (Suc k) row tp =
     rbind (size_at (row_height gl) row avgrow) (\<lambda>h.
     rbind (spliter_at (row_height gl) row) (\<lambda>sp.
     rbind (if sp then Inr []
            else rbind (cell_at gl col row) (\<lambda>c.
              Inr [(col, row, c, \<lparr>r_left = left, r_top = tp, r_right = right, r_bottom = tp + h\<rparr>)])) (\<lambda>here.
     rbind (deal_rows gl avgrow col left right k (row + 1) (tp + h)) (\<lambda>rest. Inr (here @ rest)))))"

fun deal_cols ::
  "grid_layout \<Rightarrow> int \<Rightarrow> int \<Rightarrow> nat \<Rightarrow> int \<Rightarrow> int \<Rightarrow> (int \<times> int \<times> grid_cell \<times> rect) list res" where
  "deal_cols gl avgcol avgrow 0 col left = Inr []"
| "deal_cols gl avgcol avgrow (Suc k) col left =
     rbind (size_at (col_width gl) col avgcol) (\<lambda>w.
     rbind (spliter_at (col_width gl) col) (\<lambda>sp.
     rbind (if sp then Inr []
            else deal_rows gl avgrow col left (left + w) (nat (row_cnt gl)) 0 (gl_y gl)) (\<lambda>here.
     rbind (deal_cols gl avgcol avgrow k (col + 1) (left + w)) (\<lambda>rest. Inr (here @ rest)))))"

definition deal_cell_with_position :: "grid_layout \<Rightarrow> (int \<times> int \<times> grid_cell \<times> rect) list res" where
  "deal_cell_with_position gl =
     rbind (if col_width gl = None then cdiv_checked (gl_width gl) (col_cnt gl) else Inr 0) (\<lambda>avgcol.
     rbind (if row_height gl = None then cdiv_checked (gl_height gl) (row_cnt gl) else Inr 0) (\<lambda>avgrow.
     deal_cols gl avgcol avgrow (nat (col_cnt gl)) 0 (gl_x gl)))"

text \<open>
  \<open>GridLayoutEnumAllCellObjs\<close>: row by row, the cells whose type is set are handed to the callback with
  the state it works on; a callback that returns \<open>FALSE\<close> ends the walk.
\<close>

fun enum_cols ::
  "(grid_cell \<Rightarrow> int \<Rightarrow> int \<Rightarrow> 's \<Rightarrow> (bool \<times> 's) run) \<Rightarrow> grid_layout \<Rightarrow> int \<Rightarrow> nat \<Rightarrow> int \<Rightarrow> 's \<Rightarrow> (bool \<times> 's) run"
where
  "enum_cols deal_obj gl row 0 col s = Some (Inr (True, s))"
| "enum_cols deal_obj gl row (Suc k) col s =
     ubind (Some (cell_at gl col row)) (\<lambda>c.
     ubind (if c_type c \<noteq> 0 then deal_obj c row col s else Some (Inr (True, s))) (\<lambda>(go, s).
     if go then enum_cols deal_obj gl row k (col + 1) s else Some (Inr (False, s))))"

fun enum_rows ::
  "(grid_cell \<Rightarrow> int \<Rightarrow> int \<Rightarrow> 's \<Rightarrow> (bool \<times> 's) run) \<Rightarrow> grid_layout \<Rightarrow> nat \<Rightarrow> int \<Rightarrow> 's \<Rightarrow> 's run"
where
  "enum_rows deal_obj gl 0 row s = Some (Inr s)"
| "enum_rows deal_obj gl (Suc k) row s =
     ubind (enum_cols deal_obj gl row (nat (col_cnt gl)) 0 s) (\<lambda>(go, s).
     if go then enum_rows deal_obj gl k (row + 1) s else Some (Inr s))"

definition GridLayoutEnumAllCellObjs ::
  "(grid_cell \<Rightarrow> int \<Rightarrow> int \<Rightarrow> 's \<Rightarrow> (bool \<times> 's) run) \<Rightarrow> grid_layout option \<Rightarrow> 's \<Rightarrow> 's run" where
  "GridLayoutEnumAllCellObjs deal_obj playout s =
     (case playout of None \<Rightarrow> Some (Inr s) | Some gl \<Rightarrow> enum_rows deal_obj gl (nat (row_cnt gl)) 0 s)"

section \<open>The invariant, and that every operation keeps it\<close>

definition layout_ok :: "grid_layout \<Rightarrow> bool" where
  "layout_ok gl \<longleftrightarrow> 0 < row_cnt gl \<and> 0 < col_cnt gl
     \<and> int (length (cells gl)) = col_cnt gl \<and> (\<forall>c \<in> set (cells gl). int (length c) = row_cnt gl)
     \<and> units_ok (row_height gl) (row_cnt gl) \<and> units_ok (col_width gl) (col_cnt gl)"

text \<open>An index pair the layout has a cell for.\<close>

definition in_grid :: "grid_layout \<Rightarrow> int \<Rightarrow> int \<Rightarrow> bool" where
  "in_grid gl row col \<longleftrightarrow> 0 \<le> row \<and> row < row_cnt gl \<and> 0 \<le> col \<and> col < col_cnt gl"

definition cell_of :: "grid_layout \<Rightarrow> int \<Rightarrow> int \<Rightarrow> grid_cell" where
  "cell_of gl row col = cells gl ! nat col ! nat row"

definition on_spliter :: "grid_layout \<Rightarrow> int \<Rightarrow> int \<Rightarrow> bool" where
  "on_spliter gl row col \<longleftrightarrow>
     (case col_width gl of None \<Rightarrow> False | Some us \<Rightarrow> u_type (us ! nat col) = lutSpliter)
     \<or> (case row_height gl of None \<Rightarrow> False | Some us \<Rightarrow> u_type (us ! nat row) = lutSpliter)"

lemma cell_at_ok: "layout_ok gl \<Longrightarrow> in_grid gl row col \<Longrightarrow> cell_at gl col row = Inr (cell_of gl row col)"
  by (auto simp: layout_ok_def in_grid_def cell_at_def cell_of_def aget_def)

lemma put_cell_ok:
  assumes "layout_ok gl" "in_grid gl row col"
  shows "\<exists>gl'. put_cell gl col row c = Inr gl' \<and> layout_ok gl'
     \<and> gl' = gl\<lparr>cells := (cells gl)[nat col := (cells gl ! nat col)[nat row := c]]\<rparr>"
  using assms
  by (auto simp: layout_ok_def in_grid_def put_cell_def aget_def aset_def dest!: set_update_subset_insert [THEN subsetD])

lemma column_length: "layout_ok gl \<Longrightarrow> 0 \<le> col \<Longrightarrow> col < col_cnt gl \<Longrightarrow> int (length (cells gl ! nat col)) = row_cnt gl"
  by (auto simp: layout_ok_def)

lemma cell_of_put:
  assumes "layout_ok gl" "in_grid gl row col" "in_grid gl row' col'"
  shows "cell_of (gl\<lparr>cells := (cells gl)[nat col := (cells gl ! nat col)[nat row := c]]\<rparr>) row' col'
     = (if row' = row \<and> col' = col then c else cell_of gl row' col')"
  using assms column_length [OF assms(1), of col]
  by (auto simp: layout_ok_def in_grid_def cell_of_def nth_list_update nat_eq_iff2)

lemma spliter_at_ok:
  "units_ok units n \<Longrightarrow> 0 \<le> i \<Longrightarrow> i < n \<Longrightarrow>
     spliter_at units i = Inr (case units of None \<Rightarrow> False | Some us \<Rightarrow> u_type (us ! nat i) = lutSpliter)"
  by (auto simp: spliter_at_def units_ok_def aget_def split: option.splits)

lemma refused_ok: "layout_ok gl \<Longrightarrow> in_grid gl row col \<Longrightarrow> refused gl row col = Inr (on_spliter gl row col)"
  by (auto simp: layout_ok_def in_grid_def refused_def on_spliter_def spliter_at_ok)

lemma CreateGridLayout_ok: "CreateGridLayout rows cols = Some gl \<Longrightarrow> layout_ok gl"
  by (auto simp: CreateGridLayout_def InitGridLayout_def layout_ok_def zero_layout_def split: if_splits)

lemma SetRowHeight_ok:
  assumes "layout_ok gl"
  shows "\<exists>gl'. GridLayoutSetRowHeight gl row type logic = Inr gl' \<and> layout_ok gl' \<and> cells gl' = cells gl"
proof -
  obtain us where "set_unit_size (row_height gl) row (row_cnt gl) (gl_height gl) type logic = Inr us"
      "units_ok us (row_cnt gl)"
    using set_unit_size_ok assms by (metis layout_ok_def)
  then show ?thesis using assms by (simp add: GridLayoutSetRowHeight_def layout_ok_def)
qed

lemma SetColWidth_ok:
  assumes "layout_ok gl"
  shows "\<exists>gl'. GridLayoutSetColWidth gl col type logic = Inr gl' \<and> layout_ok gl' \<and> cells gl' = cells gl"
proof -
  obtain us where "set_unit_size (col_width gl) col (col_cnt gl) (gl_width gl) type logic = Inr us"
      "units_ok us (col_cnt gl)"
    using set_unit_size_ok assms by (metis layout_ok_def)
  then show ?thesis using assms by (simp add: GridLayoutSetColWidth_def layout_ok_def)
qed

section \<open>Cell contents\<close>

lemma GetCell_ok:
  "layout_ok gl \<Longrightarrow> in_grid gl row col \<Longrightarrow>
     GridLayoutGetCell (Some gl) row col = Inr (if on_spliter gl row col then 0 else c_data (cell_of gl row col))"
  by (simp add: GridLayoutGetCell_def refused_ok cell_at_ok)

lemma in_grid_cells [simp]: "in_grid (gl\<lparr>cells := cs\<rparr>) = in_grid gl"
  by (simp add: in_grid_def fun_eq_iff)

lemma on_spliter_cells [simp]: "on_spliter (gl\<lparr>cells := cs\<rparr>) = on_spliter gl"
  by (simp add: on_spliter_def fun_eq_iff)

text \<open>
  GridLayoutSetCell returns what the cell held and changes exactly this cell; on a splitter bar or
  with an invalid type it returns NULL and changes nothing.
\<close>

theorem SetCell_then_GetCell:
  assumes "layout_ok gl" "in_grid gl row col"
  shows "\<exists>old gl'. GridLayoutSetCell (Some gl) row col type p = Inr (old, Some gl') \<and> layout_ok gl'
     \<and> (if on_spliter gl row col \<or> \<not> (gct_unknown < type \<and> type < gct_max) then old = 0 \<and> gl' = gl
        else GridLayoutGetCell (Some gl) row col = Inr old
          \<and> (\<forall>r c. in_grid gl r c \<longrightarrow> GridLayoutGetCell (Some gl') r c
               = (if r = row \<and> c = col then Inr p else GridLayoutGetCell (Some gl) r c)))"
proof (cases "on_spliter gl row col \<or> \<not> (gct_unknown < type \<and> type < gct_max)")
  case True
  then show ?thesis using assms by (auto simp: GridLayoutSetCell_def refused_ok)
next
  case False
  let ?c = "(cell_of gl row col)\<lparr>c_data := p, c_type := type\<rparr>"
  define gl' where "gl' = gl\<lparr>cells := (cells gl)[nat col := (cells gl ! nat col)[nat row := ?c]]\<rparr>"
  have gl': "put_cell gl col row ?c = Inr gl'" "layout_ok gl'"
    using put_cell_ok [OF assms, of ?c] by (auto simp: gl'_def)
  have "GridLayoutGetCell (Some gl') r c = (if r = row \<and> c = col then Inr p else GridLayoutGetCell (Some gl) r c)"
    if "in_grid gl r c" for r c
  proof -
    have "in_grid gl' r c" "on_spliter gl' r c = on_spliter gl r c"
        "cell_of gl' r c = (if r = row \<and> c = col then ?c else cell_of gl r c)"
      using that cell_of_put [OF assms that, of ?c] by (simp_all add: gl'_def)
    then show ?thesis using that False assms gl'(2) by (cases "r = row \<and> c = col") (auto simp: GetCell_ok)
  qed
  then show ?thesis
    using False assms gl' by (auto simp: GridLayoutSetCell_def refused_ok cell_at_ok GetCell_ok)
qed

text \<open>The layout of two by two cells a witness works on: the second column is a splitter bar.\<close>

definition sample_layout :: grid_layout where
  "sample_layout = \<lparr>hwndAttached = 0, gl_x = 10, gl_y = 20, gl_width = 104, gl_height = 50, row_cnt = 2,
     row_height = None, col_cnt = 3,
     col_width = Some [\<lparr>u_type = 0, u_logic = 0, u_current = 50\<rparr>, \<lparr>u_type = 2, u_logic = 0, u_current = 4\<rparr>,
                       \<lparr>u_type = 0, u_logic = 0, u_current = 50\<rparr>],
     cells = replicate 3 (replicate 2 zero_cell)\<rparr>"

lemma sample_layout_ok: "layout_ok sample_layout"
  by (auto simp: sample_layout_def layout_ok_def units_ok_def unit_ok_def)

lemma SetCell_then_GetCell_witness:
  "\<exists>gl'. GridLayoutSetCell (Some sample_layout) 1 2 gct_hwnd 77 = Inr (0, Some gl')
     \<and> GridLayoutGetCell (Some gl') 1 2 = Inr 77"
proof -
  have "in_grid sample_layout 1 2" "\<not> on_spliter sample_layout 1 2" "GridLayoutGetCell (Some sample_layout) 1 2 = Inr 0"
    using sample_layout_ok
    by (simp_all add: GetCell_ok in_grid_def sample_layout_def on_spliter_def lut_defs cell_of_def zero_cell_def
        eval_nat_numeral)
  then show ?thesis
    using SetCell_then_GetCell [OF sample_layout_ok, of 1 2 gct_hwnd 77] by (auto simp: gct_defs)
qed

text \<open>
  In a layout without unit arrays GridLayoutGetCell is safe exactly for indices in the grid: its
  range test joins the two bounds with && and never refuses one outside.
\<close>

theorem GetCell_guard_never_holds:
  assumes "layout_ok gl" "col_width gl = None" "row_height gl = None"
  shows "is_ok (GridLayoutGetCell (Some gl) row col) \<longleftrightarrow> in_grid gl row col"
proof (cases "0 \<le> col \<and> col < col_cnt gl")
  case True
  then show ?thesis
    using assms column_length [of gl col]
    by (auto simp: GridLayoutGetCell_def refused_def spliter_at_def cell_at_def aget_def layout_ok_def in_grid_def)
next
  case False
  then show ?thesis
    using assms
    by (auto simp: GridLayoutGetCell_def refused_def spliter_at_def cell_at_def aget_def layout_ok_def in_grid_def)
qed

lemma GetCell_guard_never_holds_witness:
  "\<not> is_ok (GridLayoutGetCell (CreateGridLayout 2 3) 2 0)"
proof -
  have "\<exists>gl. CreateGridLayout 2 3 = Some gl \<and> col_width gl = None \<and> row_height gl = None \<and> row_cnt gl = 2"
    by (simp add: CreateGridLayout_def InitGridLayout_def zero_layout_def)
  then obtain gl where gl: "CreateGridLayout 2 3 = Some gl" "col_width gl = None" "row_height gl = None" "row_cnt gl = 2"
    by blast
  from GetCell_guard_never_holds [OF CreateGridLayout_ok [OF gl(1)] gl(2,3), of 2 0] gl(1,4)
  show ?thesis by (simp add: in_grid_def)
qed

section \<open>The cell under a point and the rectangle of a cell\<close>

text \<open>
  One direction of the grid as an interface: the search of an index, the span of an index, and when a
  position counts as inside a span. An axis answers a search with the index whose span the position is
  in, and with an index out of range when there is none.
\<close>

locale grid_axis =
  fixes search :: "int \<Rightarrow> int res"
    and span :: "int \<Rightarrow> (int \<times> int) res"
    and n :: int
    and inside :: "int \<Rightarrow> int \<times> int \<Rightarrow> bool"
    and valid :: "int \<Rightarrow> bool"
  assumes span_ok: "valid pos \<Longrightarrow> 0 \<le> i \<Longrightarrow> i < n \<Longrightarrow> \<exists>s. span i = Inr s"
    and search_law: "valid pos \<Longrightarrow>
      \<exists>j. search pos = Inr j \<and> (\<forall>i s. 0 \<le> i \<and> i < n \<and> span i = Inr s \<longrightarrow> (j = i \<longleftrightarrow> inside pos s))"
begin

lemma search_iff:
  assumes "valid pos" "search pos = Inr j" "0 \<le> i" "i < n" "span i = Inr s"
  shows "j = i \<longleftrightarrow> inside pos s"
proof -
  obtain j' where j': "search pos = Inr j'"
      "\<forall>i s. 0 \<le> i \<and> i < n \<and> span i = Inr s \<longrightarrow> (j' = i \<longleftrightarrow> inside pos s)"
    using search_law [OF assms(1)] by blast
  have "j' = j" using j'(1) assms(2) by simp
  then show ?thesis using j'(2) assms(3-5) by blast
qed

lemma one_span:
  assumes "valid pos" "0 \<le> i" "i < n" "0 \<le> i'" "i' < n" "span i = Inr s" "span i' = Inr s'"
    and "inside pos s" "inside pos s'"
  shows "i = i'"
proof -
  obtain j where "search pos = Inr j" using search_law [OF assms(1)] by blast
  then show ?thesis using search_iff [OF assms(1)] assms(2-9) by metis
qed

end

text \<open>Units: the span without its start, with its end. Average sizes: with its start, without its end.\<close>

definition in_unit :: "int \<Rightarrow> int \<times> int \<Rightarrow> bool" where
  "in_unit pos s \<longleftrightarrow> fst s < pos \<and> pos \<le> snd s"

definition in_average :: "int \<Rightarrow> int \<times> int \<Rightarrow> bool" where
  "in_average pos s \<longleftrightarrow> fst s \<le> pos \<and> pos < snd s"

lemma axis_span_units:
  "0 \<le> i \<Longrightarrow> i < int (length us) \<Longrightarrow>
     axis_span (Some us) i start extent n = Inr (start + unit_pos us (nat i), start + unit_pos us (Suc (nat i)))"
  using getPosFromUnit_eq [of "nat i" us n] unit_pos_Suc [of "nat i" us]
  by (auto simp: axis_span_def aget_def)

lemma axis_span_average: "0 < n \<Longrightarrow>
    axis_span None i start extent n = Inr (start + cdiv extent n * i, start + cdiv extent n * i + cdiv extent n)"
  by (simp add: axis_span_def)

lemma unit_axis_search:
  assumes "\<forall>u \<in> set us. 0 \<le> u_current u"
  shows "\<exists>j. axis_idx (Some us) (pos - start) extent (int (length us)) = Inr j \<and>
     (\<forall>i s. 0 \<le> i \<and> i < int (length us) \<and> axis_span (Some us) i start extent (int (length us)) = Inr s
        \<longrightarrow> (j = i \<longleftrightarrow> in_unit pos s))"
proof -
  obtain j where j: "get_idx_by_pos us (pos - start) (int (length us)) = Inr j"
      "\<forall>k < length us. j = int k \<longleftrightarrow> unit_pos us k < pos - start \<and> pos - start \<le> unit_pos us (Suc k)"
    using get_idx_by_pos_spec [OF assms, of "pos - start"] by blast
  have "j = i \<longleftrightarrow> in_unit pos (start + unit_pos us (nat i), start + unit_pos us (Suc (nat i)))"
    if "0 \<le> i" "i < int (length us)" for i
  proof -
    have "nat i < length us" using that by linarith
    with j(2) have "j = int (nat i) \<longleftrightarrow> unit_pos us (nat i) < pos - start \<and> pos - start \<le> unit_pos us (Suc (nat i))"
      by blast
    then show ?thesis using that by (auto simp: in_unit_def)
  qed
  then show ?thesis using j(1) by (auto simp: axis_idx_def axis_span_units)
qed

lemma average_axis_search:
  assumes "0 < n" "n \<le> extent" "start \<le> pos"
  shows "\<exists>j. axis_idx None (pos - start) extent n = Inr j \<and>
     (\<forall>i s. 0 \<le> i \<and> i < n \<and> axis_span None i start extent n = Inr s \<longrightarrow> (j = i \<longleftrightarrow> in_average pos s))"
proof -
  define avg where "avg = cdiv extent n"
  have "1 \<le> extent div n" using assms by (simp add: pos_imp_zdiv_pos_iff int_one_le_iff_zero_less)
  then have avg: "0 < avg" using assms by (simp add: avg_def cdiv_nonneg_eq)
  have "axis_idx None (pos - start) extent n = Inr ((pos - start) div avg)"
    using assms avg by (simp add: axis_idx_def avg_def [symmetric] cdiv_nonneg_eq [of "pos - start"])
  moreover have "(pos - start) div avg = i \<longleftrightarrow> in_average pos (start + avg * i, start + avg * i + avg)" for i
  proof -
    define p where "p = pos - start"
    have "p div avg = i \<longleftrightarrow> avg * i \<le> p \<and> p < avg * i + avg"
    proof
      assume "p div avg = i"
      then show "avg * i \<le> p \<and> p < avg * i + avg"
        using pos_mod_bound [OF avg, of p] pos_mod_sign [OF avg, of p] mult_div_mod_eq [of avg p] by auto
    next
      assume "avg * i \<le> p \<and> p < avg * i + avg"
      then show "p div avg = i" using int_div_pos_eq [of p avg i "p - avg * i"] by auto
    qed
    then have "(pos - start) div avg = i \<longleftrightarrow> avg * i \<le> pos - start \<and> pos - start < avg * i + avg"
      by (simp only: p_def)
    then show ?thesis by (auto simp: in_average_def)
  qed
  ultimately show ?thesis using assms(1) by (auto simp: axis_span_average avg_def)
qed

interpretation unit_axis: grid_axis "\<lambda>pos. axis_idx (Some us) (pos - start) extent (int (length us))"
    "\<lambda>i. axis_span (Some us) i start extent (int (length us))" "int (length us)" in_unit
    "\<lambda>pos. \<forall>u \<in> set us. 0 \<le> u_current u"
  by unfold_locales (simp add: axis_span_units, rule unit_axis_search)

interpretation average_axis: grid_axis "\<lambda>pos. axis_idx None (pos - start) extent n"
    "\<lambda>i. axis_span None i start extent n" n in_average "\<lambda>pos. 0 < n \<and> n \<le> extent \<and> start \<le> pos"
  by unfold_locales (simp add: axis_span_average, blast intro: average_axis_search)

definition in_axis :: "layout_unit list option \<Rightarrow> int \<Rightarrow> int \<times> int \<Rightarrow> bool" where
  "in_axis units = (case units of None \<Rightarrow> in_average | Some _ \<Rightarrow> in_unit)"

text \<open>Where the average sizes may be used: at least one pixel each, and not before the start.\<close>

definition axis_valid :: "layout_unit list option \<Rightarrow> int \<Rightarrow> int \<Rightarrow> int \<Rightarrow> int \<Rightarrow> bool" where
  "axis_valid units start extent n pos \<longleftrightarrow> (units = None \<longrightarrow> n \<le> extent \<and> start \<le> pos)"

lemma axis_hit:
  assumes "units_ok units n" "0 < n" "axis_valid units start extent n pos"
  shows "\<exists>j. axis_idx units (pos - start) extent n = Inr j
     \<and> (\<forall>i. 0 \<le> i \<and> i < n \<longrightarrow> (\<exists>s. axis_span units i start extent n = Inr s \<and> (j = i \<longleftrightarrow> in_axis units pos s)))"
proof (cases units)
  case None
  have v: "0 < n \<and> n \<le> extent \<and> start \<le> pos" using assms None by (simp add: axis_valid_def)
  show ?thesis
    using average_axis.search_law [OF v] average_axis.span_ok [OF v] None unfolding in_axis_def by fastforce
next
  case (Some us)
  have v: "\<forall>u \<in> set us. 0 \<le> u_current u" using units_ok_nonneg assms(1) Some by blast
  have n: "n = int (length us)" using assms(1) Some by (simp add: units_ok_def)
  show ?thesis
    using unit_axis.search_law [OF v, where pos = pos and start = start and extent = extent]
      unit_axis.span_ok [OF v, where start = start and extent = extent] Some n unfolding in_axis_def by fastforce
qed



text \<open>
  A hit test on a layout without row sizes that is lower than its number of rows, as every newly
  created layout is, divides by zero.
\<close>

theorem hit_divides_by_zero:
  assumes "layout_ok gl" "row_height gl = None" "0 \<le> gl_height gl" "gl_height gl < row_cnt gl"
  shows "GridLayoutHit gl x y = Inl Div_By_Zero \<and> GridLayoutRemoveHit gl x y = Inl Div_By_Zero"
  using assms
  by (simp add: GridLayoutHit_def GridLayoutRemoveHit_def GetRowColByPos_def axis_idx_def cdiv_nonneg_eq
      layout_ok_def cdiv_checked_def)

lemma hit_divides_by_zero_witness:
  "\<exists>gl. CreateGridLayout 2 3 = Some gl \<and> GridLayoutHit gl 0 0 = Inl Div_By_Zero"
proof -
  obtain gl where gl: "CreateGridLayout 2 3 = Some gl" "row_height gl = None" "gl_height gl = 0" "row_cnt gl = 2"
    by (simp add: CreateGridLayout_def InitGridLayout_def zero_layout_def)
  with hit_divides_by_zero [OF CreateGridLayout_ok [OF gl(1)] gl(2), of 0 0] show ?thesis by auto
qed

text \<open>
  For a point inside a layout with sized columns and rows, GetHittedGridCenterPos gives the centre
  of the cell hit, except on the first pixel column or row and beyond the sizes, where it computes
  with an uninitialised rectangle.
\<close>

theorem center_of_hit_uninitialised:
  assumes ok: "layout_ok gl" and u: "col_width gl = Some cs" "row_height gl = Some rs" and "is_in_gridlayout x y gl"
  shows "if x = gl_x gl \<or> y = gl_y gl \<or> gl_x gl + total_size cs < x \<or> gl_y gl + total_size rs < y
     then GetHittedGridCenterPos gl x y = Inl Uninitialised
     else \<exists>row col rc. GridLayoutHit gl x y = Inr (Some (col, row)) \<and> GridLayoutGetCellRect gl row col = Inr (Some rc)
            \<and> GetHittedGridCenterPos gl x y =
                Inr (Some ((r_left rc + r_right rc) div 2, (r_top rc + r_bottom rc) div 2))"
proof -
  have cs: "\<forall>u \<in> set cs. 0 \<le> u_current u" "int (length cs) = col_cnt gl"
    using ok u units_ok_nonneg by (auto simp: layout_ok_def units_ok_def)
  have rs: "\<forall>u \<in> set rs. 0 \<le> u_current u" "int (length rs) = row_cnt gl"
    using ok u units_ok_nonneg by (auto simp: layout_ok_def units_ok_def)
  obtain c where c: "get_idx_by_pos cs (x - gl_x gl) (col_cnt gl) = Inr c" "- 1 \<le> c" "c < col_cnt gl"
      "c = - 1 \<longleftrightarrow> x - gl_x gl \<le> 0 \<or> total_size cs < x - gl_x gl"
    using get_idx_by_pos_spec [OF cs(1), of "x - gl_x gl"] unfolding cs(2) by blast
  obtain r where r: "get_idx_by_pos rs (y - gl_y gl) (row_cnt gl) = Inr r" "- 1 \<le> r" "r < row_cnt gl"
      "r = - 1 \<longleftrightarrow> y - gl_y gl \<le> 0 \<or> total_size rs < y - gl_y gl"
    using get_idx_by_pos_spec [OF rs(1), of "y - gl_y gl"] unfolding rs(2) by blast
  have pos: "\<exists>b. GetRowColByPos gl x y = Inr (b, r, c)" using c r u by (simp add: GetRowColByPos_def axis_idx_def)
  have "x \<ge> gl_x gl \<and> y \<ge> gl_y gl" using assms(4) by (simp add: is_in_gridlayout_def)
  then have miss: "c = - 1 \<or> r = - 1 \<longleftrightarrow> x = gl_x gl \<or> y = gl_y gl \<or> gl_x gl + total_size cs < x \<or> gl_y gl + total_size rs < y"
    using c(4) r(4) by linarith
  show ?thesis
  proof (cases "c = - 1 \<or> r = - 1")
    case True
    then have "GridLayoutGetCellRect gl r c = Inr None" by (auto simp: GridLayoutGetCellRect_def)
    then show ?thesis using pos assms(4) True miss by (auto simp: GetHittedGridCenterPos_def)
  next
    case False
    then have in_r: "0 \<le> c" "0 \<le> r" using c r by auto
    then obtain rc where "GridLayoutGetCellRect gl r c = Inr (Some rc)"
      using c r u cs rs by (auto simp: GridLayoutGetCellRect_def axis_span_units)
    then show ?thesis using pos assms(4) False miss in_r c r
      by (auto simp: GetHittedGridCenterPos_def GridLayoutHit_def)
  qed
qed

lemma center_of_hit_uninitialised_witness:
  "GetHittedGridCenterPos (sample_layout\<lparr>row_height := Some [zero_unit, zero_unit]\<rparr>) 10 30 = Inl Uninitialised"
proof -
  let ?gl = "sample_layout\<lparr>row_height := Some [zero_unit, zero_unit]\<rparr>"
  have "layout_ok ?gl" using sample_layout_ok by (auto simp: layout_ok_def units_ok_def sample_layout_def)
  moreover have "is_in_gridlayout 10 30 ?gl" "gl_x ?gl = 10" by (simp_all add: is_in_gridlayout_def sample_layout_def)
  moreover obtain cs where "col_width ?gl = Some cs" by (simp add: sample_layout_def)
  ultimately show ?thesis
    using center_of_hit_uninitialised [of ?gl cs "[zero_unit, zero_unit]" 10 30] by simp
qed

section \<open>The walk over the cells\<close>

definition average_size :: "layout_unit list option \<Rightarrow> int \<Rightarrow> int \<Rightarrow> int" where
  "average_size units extent n = (if units = None then cdiv extent n else 0)"

text \<open>Where column (or row) \<open>j\<close> begins, relative to the layout.\<close>

definition axis_pos :: "layout_unit list option \<Rightarrow> int \<Rightarrow> nat \<Rightarrow> int" where
  "axis_pos units avg j = (case units of None \<Rightarrow> avg * int j | Some us \<Rightarrow> unit_pos us j)"

definition is_spliter :: "layout_unit list option \<Rightarrow> nat \<Rightarrow> bool" where
  "is_spliter units j = (case units of None \<Rightarrow> False | Some us \<Rightarrow> u_type (us ! j) = lutSpliter)"

lemma axis_pos_0 [simp]: "axis_pos units avg 0 = 0"
  by (simp add: axis_pos_def split: option.split)

lemma size_at_eq: "units_ok units n \<Longrightarrow> int j < n \<Longrightarrow>
    size_at units (int j) avg = Inr (axis_pos units avg (Suc j) - axis_pos units avg j)"
  by (auto simp: size_at_def axis_pos_def units_ok_def unit_pos_Suc algebra_simps split: option.splits)

lemma spliter_at_eq: "units_ok units n \<Longrightarrow> int j < n \<Longrightarrow> spliter_at units (int j) = Inr (is_spliter units j)"
  by (auto simp: spliter_at_def is_spliter_def units_ok_def split: option.splits)

lemma axis_span_eq:
  "units_ok units n \<Longrightarrow> int j < n \<Longrightarrow>
     axis_span units (int j) start extent n =
       Inr (start + axis_pos units (average_size units extent n) j,
            start + axis_pos units (average_size units extent n) (Suc j))"
  by (auto simp: average_size_def axis_pos_def axis_span_average axis_span_units units_ok_def algebra_simps
      split: option.splits)

text \<open>The rectangle of a cell by the positions of its borders.\<close>

definition cell_rect :: "grid_layout \<Rightarrow> nat \<Rightarrow> nat \<Rightarrow> rect" where
  "cell_rect gl r c =
     (let px = axis_pos (col_width gl) (average_size (col_width gl) (gl_width gl) (col_cnt gl));
          py = axis_pos (row_height gl) (average_size (row_height gl) (gl_height gl) (row_cnt gl))
      in \<lparr>r_left = gl_x gl + px c, r_top = gl_y gl + py r,
          r_right = gl_x gl + px (Suc c), r_bottom = gl_y gl + py (Suc r)\<rparr>)"

lemma GetCellRect_eq:
  "layout_ok gl \<Longrightarrow> int r < row_cnt gl \<Longrightarrow> int c < col_cnt gl \<Longrightarrow>
     GridLayoutGetCellRect gl (int r) (int c) = Inr (Some (cell_rect gl r c))"
  by (simp add: layout_ok_def GridLayoutGetCellRect_def axis_span_eq cell_rect_def Let_def)

text \<open>The cells the walk visits: column by column, the splitter bars left out.\<close>

definition column_items :: "grid_layout \<Rightarrow> nat \<Rightarrow> nat \<Rightarrow> nat \<Rightarrow> (int \<times> int \<times> grid_cell \<times> rect) list" where
  "column_items gl c i k =
     map (\<lambda>r. (int c, int r, cells gl ! c ! r, cell_rect gl r c)) (filter (\<lambda>r. \<not> is_spliter (row_height gl) r) [i..<i + k])"

definition walk_items :: "grid_layout \<Rightarrow> nat \<Rightarrow> nat \<Rightarrow> (int \<times> int \<times> grid_cell \<times> rect) list" where
  "walk_items gl i k =
     concat (map (\<lambda>c. column_items gl c 0 (nat (row_cnt gl))) (filter (\<lambda>c. \<not> is_spliter (col_width gl) c) [i..<i + k]))"

lemma column_items_Suc:
  "column_items gl c i (Suc k) =
     (if is_spliter (row_height gl) i then [] else [(int c, int i, cells gl ! c ! i, cell_rect gl i c)])
     @ column_items gl c (Suc i) k"
  by (simp add: column_items_def upt_conv_Cons del: upt_Suc)

lemma walk_items_Suc:
  "walk_items gl i (Suc k) =
     (if is_spliter (col_width gl) i then [] else column_items gl i 0 (nat (row_cnt gl))) @ walk_items gl (Suc i) k"
  by (simp add: walk_items_def upt_conv_Cons del: upt_Suc)

lemma deal_rows_eq:
  assumes "layout_ok gl" "int c < col_cnt gl"
    and "avgrow = average_size (row_height gl) (gl_height gl) (row_cnt gl)"
    and "left = r_left (cell_rect gl 0 c)" "right = r_right (cell_rect gl 0 c)"
  shows "int (i + k) \<le> row_cnt gl \<Longrightarrow>
     deal_rows gl avgrow (int c) left right k (int i) (gl_y gl + axis_pos (row_height gl) avgrow i)
       = Inr (column_items gl c i k)"
proof (induction k arbitrary: i)
  case 0
  then show ?case by (simp add: column_items_def)
next
  case (Suc k)
  have i: "int i < row_cnt gl" using Suc.prems by simp
  have u: "units_ok (row_height gl) (row_cnt gl)" using assms(1) by (simp add: layout_ok_def)
  have "cell_at gl (int c) (int i) = Inr (cells gl ! c ! i)"
    using cell_at_ok [OF assms(1), of "int i" "int c"] i assms(2) by (simp add: in_grid_def cell_of_def)
  moreover have "cell_rect gl i c = \<lparr>r_left = left, r_top = gl_y gl + axis_pos (row_height gl) avgrow i,
      r_right = right, r_bottom = gl_y gl + axis_pos (row_height gl) avgrow (Suc i)\<rparr>"
    using assms(3-5) by (simp add: cell_rect_def Let_def)
  moreover have "deal_rows gl avgrow (int c) left right k (int i + 1) (gl_y gl + axis_pos (row_height gl) avgrow (Suc i))
      = Inr (column_items gl c (Suc i) k)"
    using Suc.IH [of "Suc i"] Suc.prems by (simp add: add.commute)
  ultimately show ?case
    using size_at_eq [OF u i] spliter_at_eq [OF u i] by (simp add: column_items_Suc)
qed

lemma deal_cols_eq:
  assumes ok: "layout_ok gl"
    and "avgrow = average_size (row_height gl) (gl_height gl) (row_cnt gl)"
    and avg: "avgcol = average_size (col_width gl) (gl_width gl) (col_cnt gl)"
  shows "int (i + k) \<le> col_cnt gl \<Longrightarrow>
     deal_cols gl avgcol avgrow k (int i) (gl_x gl + axis_pos (col_width gl) avgcol i) = Inr (walk_items gl i k)"
proof (induction k arbitrary: i)
  case 0
  then show ?case by (simp add: walk_items_def)
next
  case (Suc k)
  have i: "int i < col_cnt gl" using Suc.prems by simp
  have u: "units_ok (col_width gl) (col_cnt gl)" using ok by (simp add: layout_ok_def)
  have "deal_rows gl avgrow (int i) (gl_x gl + axis_pos (col_width gl) avgcol i)
       (gl_x gl + axis_pos (col_width gl) avgcol (Suc i)) (nat (row_cnt gl)) 0 (gl_y gl)
      = Inr (column_items gl i 0 (nat (row_cnt gl)))"
    using deal_rows_eq [OF ok i assms(2), where i = 0 and k = "nat (row_cnt gl)"] ok avg
    by (simp add: cell_rect_def Let_def layout_ok_def)
  moreover have "deal_cols gl avgcol avgrow k (int i + 1) (gl_x gl + axis_pos (col_width gl) avgcol (Suc i))
      = Inr (walk_items gl (Suc i) k)"
    using Suc.IH [of "Suc i"] Suc.prems by (simp add: add.commute)
  ultimately show ?case
    using size_at_eq [OF u i] spliter_at_eq [OF u i] by (simp add: walk_items_Suc)
qed

lemma deal_cell_with_position_eq:
  assumes "layout_ok gl"
  shows "deal_cell_with_position gl = Inr (walk_items gl 0 (nat (col_cnt gl)))"
proof -
  have "deal_cols gl (average_size (col_width gl) (gl_width gl) (col_cnt gl))
     (average_size (row_height gl) (gl_height gl) (row_cnt gl)) (nat (col_cnt gl)) 0 (gl_x gl)
     = Inr (walk_items gl 0 (nat (col_cnt gl)))"
    using deal_cols_eq [OF assms refl refl, of 0 "nat (col_cnt gl)"] assms by (simp add: layout_ok_def)
  moreover have "row_cnt gl \<noteq> 0" "col_cnt gl \<noteq> 0" using assms by (simp_all add: layout_ok_def)
  ultimately show ?thesis
    unfolding deal_cell_with_position_def average_size_def
    by (cases "col_width gl"; cases "row_height gl") simp_all
qed

lemma walk_items_nat:
  "(c, r, cell, rc) \<in> set (walk_items gl i k) \<longleftrightarrow>
     (\<exists>m n. c = int m \<and> r = int n \<and> i \<le> m \<and> m < i + k \<and> n < nat (row_cnt gl)
        \<and> \<not> is_spliter (col_width gl) m \<and> \<not> is_spliter (row_height gl) n
        \<and> cell = cells gl ! m ! n \<and> rc = cell_rect gl n m)"
  by (auto simp: walk_items_def column_items_def)

lemma walk_items_set:
  assumes "layout_ok gl"
  shows "(c, r, cell, rc) \<in> set (walk_items gl 0 (nat (col_cnt gl))) \<longleftrightarrow>
     in_grid gl r c \<and> \<not> on_spliter gl r c \<and> cell = cell_of gl r c \<and> rc = cell_rect gl (nat r) (nat c)"
  (is "?L \<longleftrightarrow> ?R")
proof
  assume ?L
  then show ?R
    by (auto simp: walk_items_nat in_grid_def on_spliter_def is_spliter_def cell_of_def split: option.splits)
next
  assume ?R
  then show ?L
    unfolding walk_items_nat
    by (intro exI [of _ "nat c"] exI [of _ "nat r"])
      (auto simp: in_grid_def on_spliter_def is_spliter_def cell_of_def nat_less_iff split: option.splits)
qed

lemma distinct_walk_items: "distinct (map (\<lambda>(c, r, _, _). (c, r)) (walk_items gl i k))"
proof (induction k arbitrary: i)
  case 0
  then show ?case by (simp add: walk_items_def)
next
  case (Suc k)
  let ?f = "\<lambda>(c, r, _, _). (c, r)" and ?col = "column_items gl i 0 (nat (row_cnt gl))"
  have "distinct (map ?f ?col)" by (simp add: column_items_def distinct_map comp_def inj_on_def)
  moreover have "fst x = int i" if "x \<in> set (map ?f ?col)" for x
    using that by (auto simp: column_items_def)
  moreover have "fst x > int i" if "x \<in> set (map ?f (walk_items gl (Suc i) k))" for x
    using that by (auto simp: walk_items_nat)
  ultimately have "distinct (map ?f ?col @ map ?f (walk_items gl (Suc i) k))"
    using Suc.IH [of "Suc i"] by (fastforce simp only: distinct_append)
  then show ?case using Suc.IH [of "Suc i"]
    by (cases "is_spliter (col_width gl) i")
      (simp_all only: walk_items_Suc if_True if_False append_Nil map_append simp_thms)
qed

text \<open>
  The traversal that accumulates the rectangles hands out each cell that is not on a splitter bar
  once, with the same rectangle GridLayoutGetCellRect computes directly from the sizes.
\<close>

theorem walk_deals_every_cell_once:
  assumes "layout_ok gl"
  shows "\<exists>items. deal_cell_with_position gl = Inr items
     \<and> distinct (map (\<lambda>(c, r, _, _). (c, r)) items)
     \<and> (\<forall>c r cell rc. (c, r, cell, rc) \<in> set items \<longleftrightarrow>
          in_grid gl r c \<and> \<not> on_spliter gl r c \<and> cell_at gl c r = Inr cell
          \<and> GridLayoutGetCellRect gl r c = Inr (Some rc))"
proof -
  have "GridLayoutGetCellRect gl r c = Inr (Some (cell_rect gl (nat r) (nat c)))" if "in_grid gl r c" for r c
    using GetCellRect_eq [OF assms, of "nat r" "nat c"] that by (simp add: in_grid_def)
  then have "(c, r, cell, rc) \<in> set (walk_items gl 0 (nat (col_cnt gl))) \<longleftrightarrow>
          in_grid gl r c \<and> \<not> on_spliter gl r c \<and> cell_at gl c r = Inr cell
          \<and> GridLayoutGetCellRect gl r c = Inr (Some rc)" for c r cell rc
    using walk_items_set [OF assms, of c r cell rc] cell_at_ok [OF assms, of r c] by auto
  then show ?thesis
    by (intro exI [of _ "walk_items gl 0 (nat (col_cnt gl))"] conjI deal_cell_with_position_eq [OF assms]
        distinct_walk_items) blast
qed

lemma walk_deals_every_cell_once_witness:
  "\<exists>items. deal_cell_with_position sample_layout = Inr items
     \<and> (2, 1, zero_cell, \<lparr>r_left = 64, r_top = 45, r_right = 114, r_bottom = 70\<rparr>) \<in> set items"
proof -
  have "in_grid sample_layout 1 2" "\<not> on_spliter sample_layout 1 2" "cell_at sample_layout 2 1 = Inr zero_cell"
      "GridLayoutGetCellRect sample_layout 1 2 = Inr (Some \<lparr>r_left = 64, r_top = 45, r_right = 114, r_bottom = 70\<rparr>)"
    by (simp_all add: in_grid_def sample_layout_def on_spliter_def lut_defs cell_at_def aget_def eval_nat_numeral
        GridLayoutGetCellRect_def axis_span_def getPosFromUnit_def cdiv_checked_def cdiv_def)
  then show ?thesis using walk_deals_every_cell_once [OF sample_layout_ok] by auto
qed

end
