(* ===== verification/Grid_Resize.thy ===== *)
theory Grid_Resize
  imports Grid_Layout
begin

text \<open>
  The operations of \<open>mgfc/gridlayout.c\<close> that go through a whole tree of layouts: \<open>SetGridLayoutRect\<close>,
  \<open>GridLayoutShow\<close>, \<open>CleanupGridLayout\<close> and \<open>DeleteGridLayout\<close>. The layouts and the user cells lie in a
  store by their address. What leaves the component (moving and showing windows, the callbacks of the
  user cells) is recorded in a log, in order; what a callback does in turn is not modelled.

  A grid cell can hold any layout, its own parent too, so the recursion has fuel: one unit for each
  level of nesting. \<open>None\<close> is the recursion that was deeper.
\<close>

section \<open>The store\<close>

record grid_user_inf =
  inf_setRect :: nat
  inf_user_to_gridlayout :: nat
  inf_show :: nat
  inf_free :: nat

record grid_user =
  gu_inf :: "grid_user_inf option"
  gu_user :: nat

datatype cursor = SizeNS | SizeWE | DefaultCursor

datatype grid_event =
    MoveWindow nat int int int int
  | ShowWindow nat bool
  | CallSetRect nat nat int int int int
  | CallShow nat nat bool
  | CallFree nat nat
  | SetCursor cursor
  | GetClientDC nat
  | FillBox int int int int
  | ReleaseDC
  | SetCapture nat
  | ReleaseCapture

record grid_world =
  layouts :: "nat \<Rightarrow> grid_layout option"
  users :: "nat \<Rightarrow> grid_user option"
  event_log :: "grid_event list"

definition emit :: "grid_event \<Rightarrow> grid_world \<Rightarrow> grid_world" where
  "emit e w = w\<lparr>event_log := event_log w @ [e]\<rparr>"

definition put_layout :: "nat \<Rightarrow> grid_layout \<Rightarrow> grid_world \<Rightarrow> grid_world" where
  "put_layout p gl w = w\<lparr>layouts := (layouts w)(p \<mapsto> gl)\<rparr>"

lemma emit_simps [simp]:
  "layouts (emit e w) = layouts w" "users (emit e w) = users w" "event_log (emit e w) = event_log w @ [e]"
  by (simp_all add: emit_def)

lemma put_layout_simps [simp]:
  "layouts (put_layout p gl w) = (layouts w)(p \<mapsto> gl)" "users (put_layout p gl w) = users w"
  "event_log (put_layout p gl w) = event_log w"
  by (simp_all add: put_layout_def)

text \<open>\<open>NOTNULL_USER\<close>: the function pointer and the user data of a cell's callback, when there is one.\<close>

definition user_fn :: "(grid_user_inf \<Rightarrow> nat) \<Rightarrow> grid_world \<Rightarrow> grid_cell \<Rightarrow> (nat \<times> nat) option res" where
  "user_fn func w cell =
     (if c_data cell = 0 then Inr None
      else case users w (c_data cell) of
        None \<Rightarrow> Inl Wild_Pointer
      | Some gu \<Rightarrow>
          (case gu_inf gu of
             None \<Rightarrow> Inr None
           | Some gi \<Rightarrow> Inr (if func gi = 0 then None else Some (func gi, gu_user gu))))"

definition grid_cell_set_rect :: "grid_world \<Rightarrow> grid_cell \<Rightarrow> int \<Rightarrow> int \<Rightarrow> int \<Rightarrow> int \<Rightarrow> grid_world res" where
  "grid_cell_set_rect w cell x y width height =
     rbind (user_fn inf_setRect w cell) (\<lambda>p.
       Inr (case p of None \<Rightarrow> w | Some (f, u) \<Rightarrow> emit (CallSetRect f u x y width height) w))"

definition grid_cell_show :: "grid_world \<Rightarrow> grid_cell \<Rightarrow> bool \<Rightarrow> grid_world res" where
  "grid_cell_show w cell sh =
     rbind (user_fn inf_show w cell) (\<lambda>p.
       Inr (case p of None \<Rightarrow> w | Some (f, u) \<Rightarrow> emit (CallShow f u sh) w))"

section \<open>\<open>SetGridLayoutRect\<close>\<close>

text \<open>One cell (\<open>_grid_layout_resize\<close>); \<open>set_rect\<close> is the recursive call.\<close>

definition grid_layout_resize ::
  "(grid_world \<Rightarrow> nat \<Rightarrow> int \<Rightarrow> int \<Rightarrow> int \<Rightarrow> int \<Rightarrow> grid_world run) \<Rightarrow> (nat \<Rightarrow> bool)
     \<Rightarrow> grid_world \<Rightarrow> grid_cell \<Rightarrow> rect \<Rightarrow> grid_world run" where
  "grid_layout_resize set_rect IsWindow w cell rc =
     (if c_type cell = gct_hwnd then
        Some (Inr (if IsWindow (c_data cell)
                   then emit (MoveWindow (c_data cell) (r_left rc) (r_top rc) (RECTW rc) (RECTH rc)) w
                   else w))
      else if c_type cell = gct_grid then
        (if c_data cell \<noteq> 0 then set_rect w (c_data cell) (r_left rc) (r_top rc) (RECTW rc) (RECTH rc)
         else Some (Inr w))
      else if c_type cell = gct_user then
        Some (grid_cell_set_rect w cell (r_left rc) (r_top rc) (RECTW rc) (RECTH rc))
      else Some (Inr w))"

text \<open>The same, on what the walk over the cells hands to its callback.\<close>

definition resize_item ::
  "(grid_world \<Rightarrow> nat \<Rightarrow> int \<Rightarrow> int \<Rightarrow> int \<Rightarrow> int \<Rightarrow> grid_world run) \<Rightarrow> (nat \<Rightarrow> bool)
     \<Rightarrow> grid_world \<Rightarrow> int \<times> int \<times> grid_cell \<times> rect \<Rightarrow> grid_world run" where
  "resize_item set_rect IsWindow w item =
     grid_layout_resize set_rect IsWindow w (fst (snd (snd item))) (snd (snd (snd item)))"

lemma resize_item_simp [simp]: "resize_item set_rect W w (c, r, cell, rc) = grid_layout_resize set_rect W w cell rc"
  by (simp add: resize_item_def)

text \<open>The new size of one layout: both unit arrays divided again when the size differs.\<close>

definition resized :: "grid_layout \<Rightarrow> int \<Rightarrow> int \<Rightarrow> int \<Rightarrow> int \<Rightarrow> grid_layout res" where
  "resized gl x y width height =
     (if width = gl_width gl \<and> height = gl_height gl then Inr (gl\<lparr>gl_x := x, gl_y := y\<rparr>)
      else rbind (recalca_units (col_width gl) (col_cnt gl) width) (\<lambda>cs.
           rbind (recalca_units (row_height gl) (row_cnt gl) height) (\<lambda>rs.
           Inr (gl\<lparr>gl_x := x, gl_y := y, gl_width := width, gl_height := height,
                   col_width := cs, row_height := rs\<rparr>))))"

primrec SetGridLayoutRect ::
  "nat \<Rightarrow> (nat \<Rightarrow> bool) \<Rightarrow> grid_world \<Rightarrow> nat \<Rightarrow> int \<Rightarrow> int \<Rightarrow> int \<Rightarrow> int \<Rightarrow> grid_world run" where
  "SetGridLayoutRect 0 IsWindow w p x y width height = None"
| "SetGridLayoutRect (Suc f) IsWindow w p x y width height =
     (if p = 0 then Some (Inr w)
      else if width \<le> 0 \<or> height \<le> 0 then Some (Inr w)
      else case layouts w p of
        None \<Rightarrow> Some (Inl Use_After_Free)
      | Some gl \<Rightarrow>
          ubind (Some (resized gl x y width height)) (\<lambda>gl'.
          ubind (Some (deal_cell_with_position gl')) (\<lambda>items.
          run_fold (resize_item (SetGridLayoutRect f IsWindow) IsWindow)
            (put_layout p gl' w) items)))"

section \<open>\<open>GridLayoutShow\<close>\<close>

definition gridlayout_show ::
  "(grid_world \<Rightarrow> nat \<Rightarrow> grid_world run) \<Rightarrow> bool \<Rightarrow> grid_cell \<Rightarrow> int \<Rightarrow> int \<Rightarrow> grid_world
     \<Rightarrow> (bool \<times> grid_world) run" where
  "gridlayout_show show_rec sh cell row col w =
     ubind (if c_type cell = gct_hwnd then Some (Inr (emit (ShowWindow (c_data cell) sh) w))
            else if c_type cell = gct_grid then show_rec w (c_data cell)
            else if c_type cell = gct_user then Some (grid_cell_show w cell sh)
            else Some (Inr w)) (\<lambda>w'. Some (Inr (True, w')))"

primrec GridLayoutShow :: "nat \<Rightarrow> bool \<Rightarrow> grid_world \<Rightarrow> nat \<Rightarrow> grid_world run" where
  "GridLayoutShow 0 sh w p = None"
| "GridLayoutShow (Suc f) sh w p =
     (if p = 0 then Some (Inr w)
      else case layouts w p of
        None \<Rightarrow> Some (Inl Use_After_Free)
      | Some gl \<Rightarrow> GridLayoutEnumAllCellObjs (gridlayout_show (GridLayoutShow f sh) sh) (Some gl) w)"

section \<open>\<open>CleanupGridLayout\<close> and \<open>DeleteGridLayout\<close>\<close>

text \<open>
  The arrays that were freed are left as empty arrays, so that every later access to them is a fault;
  a deleted layout is gone from the store. A callback \<open>free_cell\<close> of the caller is a parameter,
  \<open>None\<close> for \<open>NULL\<close>.
\<close>

definition free_cell_default ::
  "(grid_world \<Rightarrow> nat \<Rightarrow> grid_world run) \<Rightarrow> grid_world \<Rightarrow> grid_cell \<Rightarrow> grid_world run" where
  "free_cell_default delete_rec w cell =
     (if c_type cell = gct_grid then delete_rec w (c_data cell)
      else if c_type cell = gct_user then
        Some (if c_data cell = 0 then Inl Null_Deref
              else case users w (c_data cell) of
                None \<Rightarrow> Inl Wild_Pointer
              | Some gu \<Rightarrow>
                  Inr (case gu_inf gu of
                         None \<Rightarrow> w
                       | Some gi \<Rightarrow> if inf_free gi = 0 then w else emit (CallFree (inf_free gi) (gu_user gu)) w))
      else Some (Inr w))"

definition freed_layout :: "grid_layout \<Rightarrow> grid_layout" where
  "freed_layout gl = gl\<lparr>cells := [], row_height := map_option (\<lambda>_. []) (row_height gl),
     col_width := map_option (\<lambda>_. []) (col_width gl)\<rparr>"

definition cleanup_with ::
  "(grid_world \<Rightarrow> grid_cell \<Rightarrow> grid_world run) \<Rightarrow> grid_world \<Rightarrow> nat \<Rightarrow> grid_world run" where
  "cleanup_with free_cell w p =
     (if p = 0 then Some (Inr w)
      else case layouts w p of
        None \<Rightarrow> Some (Inl Use_After_Free)
      | Some gl \<Rightarrow>
          ubind (run_fold (\<lambda>w (col, row). ubind (Some (cell_at gl col row)) (free_cell w)) w
                   (List.product (map int [0..<nat (col_cnt gl)]) (map int [0..<nat (row_cnt gl)]))) (\<lambda>w'.
          Some (Inr (put_layout p (freed_layout gl) w'))))"

primrec DeleteGridLayout ::
  "nat \<Rightarrow> (grid_world \<Rightarrow> grid_cell \<Rightarrow> grid_world run) option \<Rightarrow> grid_world \<Rightarrow> nat \<Rightarrow> grid_world run" where
  "DeleteGridLayout 0 free_cell w p = None"
| "DeleteGridLayout (Suc f) free_cell w p =
     (if p = 0 then Some (Inr w)
      else ubind (cleanup_with (case free_cell of None \<Rightarrow> free_cell_default (DeleteGridLayout f None) | Some g \<Rightarrow> g) w p)
             (\<lambda>w'. Some (Inr (w'\<lparr>layouts := (layouts w')(p := None)\<rparr>))))"

definition CleanupGridLayout ::
  "nat \<Rightarrow> (grid_world \<Rightarrow> grid_cell \<Rightarrow> grid_world run) option \<Rightarrow> grid_world \<Rightarrow> nat \<Rightarrow> grid_world run" where
  "CleanupGridLayout f free_cell w p =
     cleanup_with (case free_cell of None \<Rightarrow> free_cell_default (DeleteGridLayout f None) | Some g \<Rightarrow> g) w p"

end
