(* ===== verification/Grid_Tree.thy ===== *)
theory Grid_Tree
  imports Grid_Resize
begin

text \<open>
  Trees of layouts: the invariant of the store (every layout is well-formed, a nested layout exists and
  is lower in a ranking, so no layout contains itself), and what the recursive operations do to a tree.
\<close>

section \<open>The invariant of the store\<close>

definition cell_in :: "grid_layout \<Rightarrow> grid_cell \<Rightarrow> bool" where
  "cell_in gl cell \<longleftrightarrow> (\<exists>c \<in> set (cells gl). cell \<in> set c)"

definition cell_ok :: "(nat \<Rightarrow> nat) \<Rightarrow> grid_world \<Rightarrow> nat \<Rightarrow> grid_cell \<Rightarrow> bool" where
  "cell_ok rank w p cell \<longleftrightarrow>
     (c_type cell = gct_grid \<and> c_data cell \<noteq> 0 \<longrightarrow> layouts w (c_data cell) \<noteq> None \<and> rank (c_data cell) < rank p)
     \<and> (c_type cell = gct_user \<and> c_data cell \<noteq> 0 \<longrightarrow> users w (c_data cell) \<noteq> None)"

definition tree_ok :: "(nat \<Rightarrow> nat) \<Rightarrow> grid_world \<Rightarrow> bool" where
  "tree_ok rank w \<longleftrightarrow> (\<forall>p gl. layouts w p = Some gl \<longrightarrow> layout_ok gl \<and> (\<forall>cell. cell_in gl cell \<longrightarrow> cell_ok rank w p cell))"

text \<open>What a resize leaves alone: which layouts there are, their cells, their numbers of rows and columns.\<close>

definition same_shape :: "grid_layout \<Rightarrow> grid_layout \<Rightarrow> bool" where
  "same_shape g h \<longleftrightarrow> cells h = cells g \<and> row_cnt h = row_cnt g \<and> col_cnt h = col_cnt g"

definition same_structure :: "grid_world \<Rightarrow> grid_world \<Rightarrow> bool" where
  "same_structure w w' \<longleftrightarrow> users w' = users w \<and> (\<forall>p. rel_option same_shape (layouts w p) (layouts w' p))"

lemma same_shape_refl [simp]: "same_shape g g"
  by (simp add: same_shape_def)

lemma same_structure_refl [simp]: "same_structure w w"
  by (simp add: same_structure_def option.rel_refl)

lemma same_structure_trans: "same_structure w w1 \<Longrightarrow> same_structure w1 w2 \<Longrightarrow> same_structure w w2"
  unfolding same_structure_def
proof (intro conjI allI)
  fix p
  assume a: "users w1 = users w \<and> (\<forall>p. rel_option same_shape (layouts w p) (layouts w1 p))"
    "users w2 = users w1 \<and> (\<forall>p. rel_option same_shape (layouts w1 p) (layouts w2 p))"
  then show "users w2 = users w" by simp
  have "rel_option same_shape (layouts w p) (layouts w1 p)" "rel_option same_shape (layouts w1 p) (layouts w2 p)"
    using a by simp_all
  then show "rel_option same_shape (layouts w p) (layouts w2 p)"
    by (cases "layouts w p"; cases "layouts w1 p"; cases "layouts w2 p") (simp_all add: same_shape_def)
qed

lemma same_structure_emit [simp]: "same_structure w (emit e w') = same_structure w w'"
  by (simp add: same_structure_def)

lemma same_structure_put:
  "layouts w p = Some gl \<Longrightarrow> same_shape gl gl' \<Longrightarrow> same_structure w (put_layout p gl' w)"
  by (auto simp: same_structure_def intro: option.rel_refl)

lemma same_structure_Some: "same_structure w w' \<Longrightarrow> layouts w p \<noteq> None \<Longrightarrow> layouts w' p \<noteq> None"
  unfolding same_structure_def by (metis option.rel_distinct(2) option.exhaust)

lemma cell_ok_same_structure: "same_structure w w' \<Longrightarrow> cell_ok rank w p cell \<Longrightarrow> cell_ok rank w' p cell"
  using same_structure_Some by (auto simp: cell_ok_def) (auto simp: same_structure_def)

text \<open>A store whose layouts are still well-formed and of the same shape keeps the invariant.\<close>

lemma tree_ok_same_structure:
  assumes "tree_ok rank w" "same_structure w w'" "\<And>p gl. layouts w' p = Some gl \<Longrightarrow> layout_ok gl"
  shows "tree_ok rank w'"
  unfolding tree_ok_def
proof (intro allI impI conjI)
  fix p gl' cell
  assume p: "layouts w' p = Some gl'"
  then show "layout_ok gl'" by (rule assms(3))
  assume c: "cell_in gl' cell"
  have "rel_option same_shape (layouts w p) (layouts w' p)" using assms(2) by (simp add: same_structure_def)
  then obtain gl where "layouts w p = Some gl" "same_shape gl gl'" using p by (auto simp: option_rel_Some2)
  then have "cell_ok rank w p cell" using assms(1) c by (simp add: tree_ok_def cell_in_def same_shape_def)
  then show "cell_ok rank w' p cell" by (rule cell_ok_same_structure [OF assms(2)])
qed

section \<open>Layouts whose sizes fit\<close>

text \<open>
  No unit shares the rest, and the sizes together are not wider than the layout. The first is a matter of
  the sizes that were set, the second is what every resize establishes.
\<close>

definition axis_fits :: "layout_unit list option \<Rightarrow> int \<Rightarrow> bool" where
  "axis_fits units extent \<longleftrightarrow> 0 \<le> extent \<and>
     (case units of None \<Rightarrow> True | Some us \<Rightarrow> avg_count us = 0 \<and> total_size us \<le> extent)"

definition fits :: "grid_layout \<Rightarrow> bool" where
  "fits gl \<longleftrightarrow> axis_fits (col_width gl) (gl_width gl) \<and> axis_fits (row_height gl) (gl_height gl)"

definition all_fit :: "grid_world \<Rightarrow> bool" where
  "all_fit w \<longleftrightarrow> (\<forall>p gl. layouts w p = Some gl \<longrightarrow> fits gl)"

lemma recalca_fits:
  assumes "units_ok units n" "0 < width" "axis_fits units w0"
  shows "\<exists>units'. recalca_units units n width = Inr units' \<and> units_ok units' n \<and> axis_fits units' width"
proof (cases units)
  case None
  then show ?thesis using assms(2) by (simp add: recalca_units_def axis_fits_def)
next
  case (Some us)
  have n: "n = int (length us)" using assms(1) Some by (simp add: units_ok_def)
  have avg: "avg_count us = 0" using assms(3) Some by (simp add: axis_fits_def)
  obtain us' where us': "recalca_units (Some us) n width = Inr (Some us')" "list_all2 same_kind us us'"
      "0 \<le> room_left width us" "avg_count us = 0 \<longrightarrow> total_size us' = width - room_left width us"
    using recalca_units_spec [OF assms(2), of us] n by blast
  have "units_ok (Some us') n" using recalca_units_ok [OF assms(1), of width] us'(1) Some by auto
  then show ?thesis
    using us' avg assms(2) Some same_kind_avg_count [OF us'(2)] by (intro exI [of _ "Some us'"]) (simp add: axis_fits_def)
qed

lemma resized_ok:
  assumes "layout_ok gl" "0 < width" "0 < height"
  shows "\<exists>gl'. resized gl x y width height = Inr gl' \<and> layout_ok gl' \<and> same_shape gl gl'
     \<and> gl_x gl' = x \<and> gl_y gl' = y \<and> gl_width gl' = width \<and> gl_height gl' = height \<and> (fits gl \<longrightarrow> fits gl')"
proof (cases "width = gl_width gl \<and> height = gl_height gl")
  case True
  then show ?thesis using assms by (simp add: resized_def layout_ok_def same_shape_def fits_def)
next
  case False
  have u: "units_ok (col_width gl) (col_cnt gl)" "units_ok (row_height gl) (row_cnt gl)"
    using assms(1) by (simp_all add: layout_ok_def)
  obtain cs where cs: "recalca_units (col_width gl) (col_cnt gl) width = Inr cs" "units_ok cs (col_cnt gl)"
    using recalca_units_ok [OF u(1), of width] by blast
  obtain rs where rs: "recalca_units (row_height gl) (row_cnt gl) height = Inr rs" "units_ok rs (row_cnt gl)"
    using recalca_units_ok [OF u(2), of height] by blast
  have "axis_fits cs width \<and> axis_fits rs height" if "fits gl"
    using recalca_fits [OF u(1) assms(2)] recalca_fits [OF u(2) assms(3)] cs rs that by (auto simp: fits_def)
  then show ?thesis
    using False cs rs assms by (auto simp: resized_def layout_ok_def same_shape_def fits_def)
qed

section \<open>Cells inside their layout\<close>

lemma axis_pos_mono:
  assumes "units_ok units n" "0 \<le> avg" "j \<le> k"
  shows "axis_pos units avg j \<le> axis_pos units avg k"
  using assms unit_pos_mono units_ok_nonneg
  by (auto simp: axis_pos_def mult_left_mono split: option.split)

lemma axis_pos_end:
  assumes "units_ok units n" "0 < n" "axis_fits units extent" "int k \<le> n"
  shows "axis_pos units (average_size units extent n) k \<le> extent"
proof (cases units)
  case None
  have "cdiv extent n * int k \<le> cdiv extent n * n"
    using assms None by (intro mult_left_mono) (simp_all add: cdiv_nonneg axis_fits_def)
  also have "cdiv extent n * n \<le> extent"
  proof -
    have "n * (extent div n) \<le> extent"
      using mult_div_mod_eq [of n extent] pos_mod_sign [OF assms(2), of extent] by linarith
    then show ?thesis using assms(2,3) by (simp add: cdiv_nonneg_eq axis_fits_def mult.commute)
  qed
  finally show ?thesis using None by (simp add: axis_pos_def average_size_def)
next
  case (Some us)
  then show ?thesis
    using assms unit_pos_le_total [of us k] units_ok_nonneg [of us n] by (simp add: axis_pos_def axis_fits_def)
qed

lemma average_size_nonneg: "axis_fits units extent \<Longrightarrow> 0 < n \<Longrightarrow> 0 \<le> average_size units extent n"
  by (simp add: average_size_def axis_fits_def cdiv_nonneg)

definition rect_in :: "int \<Rightarrow> int \<Rightarrow> int \<Rightarrow> int \<Rightarrow> rect \<Rightarrow> bool" where
  "rect_in x y width height rc \<longleftrightarrow>
     x \<le> r_left rc \<and> y \<le> r_top rc \<and> r_right rc \<le> x + width \<and> r_bottom rc \<le> y + height"

lemma cell_rect_in:
  assumes "layout_ok gl" "fits gl" "int r < row_cnt gl" "int c < col_cnt gl"
  shows "rect_in (gl_x gl) (gl_y gl) (gl_width gl) (gl_height gl) (cell_rect gl r c)"
proof -
  have ok: "units_ok (col_width gl) (col_cnt gl)" "units_ok (row_height gl) (row_cnt gl)" "0 < col_cnt gl" "0 < row_cnt gl"
    using assms(1) by (simp_all add: layout_ok_def)
  have fit: "axis_fits (col_width gl) (gl_width gl)" "axis_fits (row_height gl) (gl_height gl)"
    using assms(2) by (simp_all add: fits_def)
  have "0 \<le> axis_pos (col_width gl) (average_size (col_width gl) (gl_width gl) (col_cnt gl)) c"
    using axis_pos_mono [OF ok(1) average_size_nonneg [OF fit(1) ok(3)], of 0 c] by simp
  moreover have "0 \<le> axis_pos (row_height gl) (average_size (row_height gl) (gl_height gl) (row_cnt gl)) r"
    using axis_pos_mono [OF ok(2) average_size_nonneg [OF fit(2) ok(4)], of 0 r] by simp
  ultimately show ?thesis
    using axis_pos_end [OF ok(1,3) fit(1), of "Suc c"] axis_pos_end [OF ok(2,4) fit(2), of "Suc r"] assms(3,4)
    by (simp add: rect_in_def cell_rect_def Let_def)
qed

section \<open>Resizing a tree\<close>

text \<open>A call that gives a rectangle to a window or a user cell gives one inside \<open>x, y, width, height\<close>.\<close>

definition event_in :: "int \<Rightarrow> int \<Rightarrow> int \<Rightarrow> int \<Rightarrow> grid_event \<Rightarrow> bool" where
  "event_in x y width height e \<longleftrightarrow>
     (case e of
        MoveWindow h a b c d \<Rightarrow> x \<le> a \<and> y \<le> b \<and> a + c \<le> x + width \<and> b + d \<le> y + height
      | CallSetRect f u a b c d \<Rightarrow> x \<le> a \<and> y \<le> b \<and> a + c \<le> x + width \<and> b + d \<le> y + height
      | _ \<Rightarrow> True)"

text \<open>
  What a part of the resize of a layout with rank \<open>n\<close> may do to the store: keep the tree and its shape, log
  the events \<open>evs\<close>, change layouts below the rank only; and when all sizes fit (\<open>fit\<close>), they still do and
  the events lie inside the rectangle.
\<close>

definition resize_step ::
  "(nat \<Rightarrow> nat) \<Rightarrow> nat \<Rightarrow> rect \<Rightarrow> bool \<Rightarrow> grid_world \<Rightarrow> grid_event list \<Rightarrow> grid_world \<Rightarrow> bool" where
  "resize_step rank n rc fit w evs w' \<longleftrightarrow>
     tree_ok rank w' \<and> same_structure w w' \<and> event_log w' = event_log w @ evs
     \<and> (\<forall>q. n \<le> rank q \<longrightarrow> layouts w' q = layouts w q)
     \<and> (fit \<longrightarrow> all_fit w' \<and> list_all (event_in (r_left rc) (r_top rc) (RECTW rc) (RECTH rc)) evs)"

text \<open>A store the resize may start from.\<close>

definition ready :: "(nat \<Rightarrow> nat) \<Rightarrow> bool \<Rightarrow> grid_world \<Rightarrow> bool" where
  "ready rank fit w \<longleftrightarrow> tree_ok rank w \<and> (fit \<longrightarrow> all_fit w)"

lemma rect_in_self [simp]: "rect_in (r_left rc) (r_top rc) (RECTW rc) (RECTH rc) rc"
  by (simp add: rect_in_def RECTW_def RECTH_def)

lemma resize_step_ready: "resize_step rank n rc fit w evs w' \<Longrightarrow> ready rank fit w'"
  by (simp add: resize_step_def ready_def)

lemma resize_step_refl: "ready rank fit w \<Longrightarrow> resize_step rank n rc fit w [] w"
  by (simp add: resize_step_def ready_def)

lemma resize_step_trans:
  "resize_step rank n rc fit w evs1 w1 \<Longrightarrow> resize_step rank n rc fit w1 evs2 w2
     \<Longrightarrow> resize_step rank n rc fit w (evs1 @ evs2) w2"
  by (auto simp: resize_step_def intro: same_structure_trans)

lemma tree_ok_emit [simp]: "tree_ok rank (emit e w) = tree_ok rank w"
  by (simp add: tree_ok_def cell_ok_def)

lemma all_fit_emit [simp]: "all_fit (emit e w) = all_fit w"
  by (simp add: all_fit_def)

lemma resize_step_emit:
  "ready rank fit w \<Longrightarrow> event_in (r_left rc) (r_top rc) (RECTW rc) (RECTH rc) e
     \<Longrightarrow> resize_step rank n rc fit w [e] (emit e w)"
  by (simp add: resize_step_def ready_def)

text \<open>A cell of a layout with rank \<open>n\<close>; its rectangle \<open>rc\<close> lies in the rectangle \<open>big\<close> of the layout when all fits.\<close>

lemma event_in_mono:
  "event_in (r_left rc) (r_top rc) (RECTW rc) (RECTH rc) e
     \<Longrightarrow> rect_in (r_left big) (r_top big) (RECTW big) (RECTH big) rc
     \<Longrightarrow> event_in (r_left big) (r_top big) (RECTW big) (RECTH big) e"
  by (auto simp: event_in_def rect_in_def RECTW_def RECTH_def split: grid_event.splits)

lemma resize_step_mono:
  assumes "resize_step rank m rc fit w evs w'" "m \<le> n"
    and "fit \<Longrightarrow> rect_in (r_left big) (r_top big) (RECTW big) (RECTH big) rc"
  shows "resize_step rank n big fit w evs w'"
  using assms event_in_mono by (fastforce simp: resize_step_def list_all_iff)

text \<open>The windows among the cells that were dealt with.\<close>

definition window_moves :: "(nat \<Rightarrow> bool) \<Rightarrow> (int \<times> int \<times> grid_cell \<times> rect) list \<Rightarrow> grid_event set" where
  "window_moves IsWindow items =
     {MoveWindow (c_data cell) (r_left rc) (r_top rc) (RECTW rc) (RECTH rc) | cell rc.
        (\<exists>c r. (c, r, cell, rc) \<in> set items) \<and> c_type cell = gct_hwnd \<and> IsWindow (c_data cell)}"

lemma window_moves_Cons:
  "window_moves W ((c, r, cell, rc) # items) =
     (if c_type cell = gct_hwnd \<and> W (c_data cell)
      then insert (MoveWindow (c_data cell) (r_left rc) (r_top rc) (RECTW rc) (RECTH rc)) (window_moves W items)
      else window_moves W items)"
  by (auto simp: window_moves_def)

lemma window_moves_cell: "window_moves W (item # items) = window_moves W [item] \<union> window_moves W items"
  unfolding window_moves_def list.set by blast

text \<open>What the recursive call is assumed to do, for the layouts of rank below \<open>n\<close>.\<close>

definition resizes_below ::
  "(nat \<Rightarrow> nat) \<Rightarrow> nat \<Rightarrow> (grid_world \<Rightarrow> nat \<Rightarrow> int \<Rightarrow> int \<Rightarrow> int \<Rightarrow> int \<Rightarrow> grid_world run) \<Rightarrow> bool" where
  "resizes_below rank n set_rect \<longleftrightarrow>
     (\<forall>fit w p rc. ready rank fit w \<and> layouts w p \<noteq> None \<and> p \<noteq> 0 \<and> rank p < n \<longrightarrow>
        (\<exists>w' evs. set_rect w p (r_left rc) (r_top rc) (RECTW rc) (RECTH rc) = Some (Inr w')
           \<and> resize_step rank (Suc (rank p)) rc fit w evs w'))"

lemma resize_cell:
  assumes rec: "resizes_below rank n set_rect" and t: "ready rank fit w"
    and c: "cell_ok rank w p cell" "rank p = n"
  shows "\<exists>w' evs. grid_layout_resize set_rect W w cell rc = Some (Inr w') \<and> resize_step rank n rc fit w evs w'
     \<and> window_moves W [(i, j, cell, rc)] \<subseteq> set evs"
proof -
  have ev: "event_in (r_left rc) (r_top rc) (RECTW rc) (RECTH rc) (MoveWindow h (r_left rc) (r_top rc) (RECTW rc) (RECTH rc))"
      "event_in (r_left rc) (r_top rc) (RECTW rc) (RECTH rc) (CallSetRect f u (r_left rc) (r_top rc) (RECTW rc) (RECTH rc))"
    for h f u by (simp_all add: event_in_def)
  have none: "window_moves W [(i, j, cell, rc)] = {}" if "c_type cell \<noteq> gct_hwnd \<or> \<not> W (c_data cell)"
    using that by (auto simp: window_moves_def)
  have same: "?thesis" if "grid_layout_resize set_rect W w cell rc = Some (Inr w)" "c_type cell \<noteq> gct_hwnd \<or> \<not> W (c_data cell)"
    using that none resize_step_refl [OF t, of n rc] by (intro exI [of _ w] exI [of _ "[]"]) simp
  consider "c_type cell = gct_hwnd" | "c_type cell = gct_grid" | "c_type cell = gct_user"
      | "c_type cell \<notin> {gct_hwnd, gct_grid, gct_user}" by blast
  then show ?thesis
  proof cases
    case 1
    let ?e = "MoveWindow (c_data cell) (r_left rc) (r_top rc) (RECTW rc) (RECTH rc)"
    show ?thesis
    proof (cases "W (c_data cell)")
      case True
      then show ?thesis
        using 1 resize_step_emit [OF t ev(1), of n]
        by (intro exI [of _ "emit ?e w"] exI [of _ "[?e]"]) (auto simp: grid_layout_resize_def window_moves_def)
    next
      case False
      then show ?thesis using 1 by (intro same) (simp_all add: grid_layout_resize_def)
    qed
  next
    case 2
    show ?thesis
    proof (cases "c_data cell = 0")
      case True
      then show ?thesis using 2 by (intro same) (simp_all add: grid_layout_resize_def gct_defs)
    next
      case False
      then have "layouts w (c_data cell) \<noteq> None" "rank (c_data cell) < n" using 2 c by (auto simp: cell_ok_def)
      then obtain w' evs where "set_rect w (c_data cell) (r_left rc) (r_top rc) (RECTW rc) (RECTH rc) = Some (Inr w')"
          "resize_step rank (Suc (rank (c_data cell))) rc fit w evs w'"
        using rec t False unfolding resizes_below_def by blast
      moreover from this(2) have "resize_step rank n rc fit w evs w'"
        by (rule resize_step_mono) (use \<open>rank (c_data cell) < n\<close> in simp_all)
      ultimately show ?thesis
        using 2 False none by (intro exI [of _ w'] exI [of _ evs]) (simp add: grid_layout_resize_def gct_defs)
    qed
  next
    case 3
    then have "c_data cell = 0 \<or> (\<exists>gu. users w (c_data cell) = Some gu)" using c by (auto simp: cell_ok_def)
    then have "\<exists>o'. user_fn inf_setRect w cell = Inr o'" by (auto simp: user_fn_def split: option.splits)
    then obtain o' where o': "user_fn inf_setRect w cell = Inr o'" ..
    show ?thesis
    proof (cases o')
      case None
      then show ?thesis using 3 o' by (intro same) (simp_all add: grid_layout_resize_def grid_cell_set_rect_def gct_defs)
    next
      case (Some p)
      let ?e = "CallSetRect (fst p) (snd p) (r_left rc) (r_top rc) (RECTW rc) (RECTH rc)"
      show ?thesis
        using 3 Some o' none resize_step_emit [OF t ev(2), of n]
        by (intro exI [of _ "emit ?e w"] exI [of _ "[?e]"])
          (simp add: grid_layout_resize_def grid_cell_set_rect_def gct_defs split_beta)
    qed
  next
    case 4
    then show ?thesis by (intro same) (simp_all add: grid_layout_resize_def)
  qed
qed

lemma resize_cells:
  assumes rec: "resizes_below rank n set_rect" and "rank p = n"
  shows "ready rank fit w \<Longrightarrow> \<forall>(c, r, cell, rc) \<in> set items. cell_ok rank w p cell
       \<and> (fit \<longrightarrow> rect_in (r_left big) (r_top big) (RECTW big) (RECTH big) rc)
     \<Longrightarrow> \<exists>w' evs. run_fold (resize_item set_rect W) w items = Some (Inr w')
        \<and> resize_step rank n big fit w evs w' \<and> window_moves W items \<subseteq> set evs"
proof (induction items arbitrary: w)
  case Nil
  then show ?case using resize_step_refl [of rank fit w n big] by (auto simp: window_moves_def)
next
  case (Cons item items)
  obtain i j cell rc where item: "item = (i, j, cell, rc)" by (cases item)
  have cell: "cell_ok rank w p cell" "fit \<Longrightarrow> rect_in (r_left big) (r_top big) (RECTW big) (RECTH big) rc"
    using Cons.prems(2) item by simp_all
  obtain w1 evs1 where w1: "grid_layout_resize set_rect W w cell rc = Some (Inr w1)" "resize_step rank n rc fit w evs1 w1"
      "window_moves W [item] \<subseteq> set evs1"
    using resize_cell [OF rec Cons.prems(1) cell(1) assms(2), of W rc i j] item by blast
  have t1: "ready rank fit w1" "same_structure w w1" using w1(2) by (simp_all add: resize_step_def ready_def)
  have "\<forall>(c, r, cell, rc) \<in> set items. cell_ok rank w1 p cell
       \<and> (fit \<longrightarrow> rect_in (r_left big) (r_top big) (RECTW big) (RECTH big) rc)"
    using Cons.prems(2) cell_ok_same_structure [OF t1(2)] by fastforce
  then obtain w2 evs2 where w2:
      "run_fold (resize_item set_rect W) w1 items = Some (Inr w2)"
      "resize_step rank n big fit w1 evs2 w2" "window_moves W items \<subseteq> set evs2"
    using Cons.IH [OF t1(1)] by blast
  have "resize_step rank n big fit w (evs1 @ evs2) w2"
    using resize_step_trans [OF resize_step_mono [OF w1(2) le_refl cell(2)] w2(2)] .
  moreover have "window_moves W (item # items) \<subseteq> set (evs1 @ evs2)"
    using w1(3) w2(3) by (subst window_moves_cell) auto
  ultimately show ?case using w1(1) w2(1) item by (intro exI [of _ w2] exI [of _ "evs1 @ evs2"]) simp
qed

lemma set_rect_tree:
  "resizes_below rank n (SetGridLayoutRect f W) \<Longrightarrow> ready rank fit w \<Longrightarrow> layouts w p = Some gl \<Longrightarrow> p \<noteq> 0
     \<Longrightarrow> rank p = n \<Longrightarrow> 0 < RECTW big \<Longrightarrow> 0 < RECTH big
     \<Longrightarrow> \<exists>w' evs gl' items. SetGridLayoutRect (Suc f) W w p (r_left big) (r_top big) (RECTW big) (RECTH big) = Some (Inr w')
       \<and> resized gl (r_left big) (r_top big) (RECTW big) (RECTH big) = Inr gl' \<and> layouts w' p = Some gl'
       \<and> deal_cell_with_position gl' = Inr items \<and> window_moves W items \<subseteq> set evs
       \<and> resize_step rank (Suc n) big fit w evs w' \<and> (\<forall>q. n \<le> rank q \<and> q \<noteq> p \<longrightarrow> layouts w' q = layouts w q)"
proof -
  assume rec: "resizes_below rank n (SetGridLayoutRect f W)" and t: "ready rank fit w" and gl: "layouts w p = Some gl"
    and p: "p \<noteq> 0" "rank p = n" and pos: "0 < RECTW big" "0 < RECTH big"
  have ok: "layout_ok gl" and cells: "\<And>cell. cell_in gl cell \<Longrightarrow> cell_ok rank w p cell"
    using t gl by (simp_all add: ready_def tree_ok_def)
  obtain gl' where gl': "resized gl (r_left big) (r_top big) (RECTW big) (RECTH big) = Inr gl'" "layout_ok gl'"
      "same_shape gl gl'" "gl_x gl' = r_left big" "gl_y gl' = r_top big" "gl_width gl' = RECTW big"
      "gl_height gl' = RECTH big" "fits gl \<longrightarrow> fits gl'"
    using resized_ok [OF ok pos, of "r_left big" "r_top big"] by blast
  define w0 where "w0 = put_layout p gl' w"
  define items where "items = walk_items gl' 0 (nat (col_cnt gl'))"
  have ss: "same_structure w w0" unfolding w0_def by (rule same_structure_put [OF gl gl'(3)])
  have "tree_ok rank w0"
    by (rule tree_ok_same_structure [OF _ ss]) (use t gl'(2) in \<open>auto simp: ready_def tree_ok_def w0_def split: if_splits\<close>)
  moreover have "all_fit w0" if fit
    using that t gl'(8) gl by (auto simp: ready_def all_fit_def w0_def)
  ultimately have t0: "ready rank fit w0" by (simp add: ready_def)
  have fits: "fits gl'" if fit using that t gl gl'(8) by (simp add: ready_def all_fit_def)
  have "cell_ok rank w0 p cell \<and> (fit \<longrightarrow> rect_in (r_left big) (r_top big) (RECTW big) (RECTH big) rc)"
    if item: "(c, r, cell, rc) \<in> set items" for c r cell rc
  proof -
    obtain i j where ij: "int i < col_cnt gl'" "int j < row_cnt gl'" "cell = cells gl' ! i ! j" "rc = cell_rect gl' j i"
      using item unfolding items_def walk_items_nat by (auto simp: zless_nat_eq_int_zless)
    have "i < length (cells gl')" using ij(1) gl'(2) by (simp add: layout_ok_def)
    moreover from this have "int (length (cells gl' ! i)) = row_cnt gl'" using gl'(2) by (simp add: layout_ok_def)
    ultimately have "cell_in gl' cell" unfolding cell_in_def using ij(2,3)
      by (intro bexI [of _ "cells gl' ! i"]) simp_all
    then have "cell_in gl cell" using gl'(3) by (simp add: cell_in_def same_shape_def)
    then have "cell_ok rank w0 p cell" using cell_ok_same_structure [OF ss] cells by blast
    moreover have "rect_in (r_left big) (r_top big) (RECTW big) (RECTH big) rc" if fit
      using cell_rect_in [OF gl'(2) fits [OF that] ij(2,1)] gl'(4-7) ij(4) by simp
    ultimately show ?thesis by blast
  qed
  then have "\<forall>(c, r, cell, rc) \<in> set items. cell_ok rank w0 p cell
       \<and> (fit \<longrightarrow> rect_in (r_left big) (r_top big) (RECTW big) (RECTH big) rc)"
    by blast
  then obtain w' evs where w':
      "run_fold (resize_item (SetGridLayoutRect f W) W) w0 items = Some (Inr w')"
      "resize_step rank n big fit w0 evs w'" "window_moves W items \<subseteq> set evs"
    using resize_cells [OF rec p(2) t0] by blast
  have deal: "deal_cell_with_position gl' = Inr items"
    unfolding items_def by (rule deal_cell_with_position_eq [OF gl'(2)])
  have call: "SetGridLayoutRect (Suc f) W w p (r_left big) (r_top big) (RECTW big) (RECTH big) = Some (Inr w')"
    using p pos gl gl'(1) deal w'(1) by (simp add: w0_def)
  have own: "layouts w' p = Some gl'" using w'(2) p(2) by (simp add: resize_step_def w0_def)
  have others: "layouts w' q = layouts w q" if "n \<le> rank q" "q \<noteq> p" for q
    using w'(2) that by (simp add: resize_step_def w0_def)
  have "layouts w' q = layouts w q" if "Suc n \<le> rank q" for q
    using that p(2) others [of q] by (cases "q = p") auto
  moreover have "tree_ok rank w'" "same_structure w w'" "event_log w' = event_log w @ evs"
      "fit \<longrightarrow> all_fit w' \<and> list_all (event_in (r_left big) (r_top big) (RECTW big) (RECTH big)) evs"
    using w'(2) same_structure_trans [OF ss] by (simp_all add: resize_step_def w0_def)
  ultimately have "resize_step rank (Suc n) big fit w evs w'" by (simp add: resize_step_def)
  then show ?thesis using call gl'(1) own deal w'(3) others by blast
qed

lemma set_rect_below: "resizes_below rank f (SetGridLayoutRect f W)"
proof (induction f)
  case 0
  then show ?case by (simp add: resizes_below_def)
next
  case (Suc f)
  have below: "resizes_below rank n (SetGridLayoutRect f W)" if "n \<le> f" for n
    using Suc.IH less_le_trans [OF _ that] unfolding resizes_below_def by blast
  show ?case
    unfolding resizes_below_def
  proof (intro allI impI)
    fix fit w p rc
    assume a: "ready rank fit w \<and> layouts w p \<noteq> None \<and> p \<noteq> 0 \<and> rank p < Suc f"
    then obtain gl where gl: "layouts w p = Some gl" by blast
    show "\<exists>w' evs. SetGridLayoutRect (Suc f) W w p (r_left rc) (r_top rc) (RECTW rc) (RECTH rc) = Some (Inr w')
         \<and> resize_step rank (Suc (rank p)) rc fit w evs w'"
    proof (cases "0 < RECTW rc \<and> 0 < RECTH rc")
      case True
      have "rank p \<le> f" using a by simp
      then show ?thesis using set_rect_tree [OF below [of "rank p"], of fit w p gl rc] a gl True by blast
    next
      case False
      then show ?thesis
        using a resize_step_refl [of rank fit w "Suc (rank p)" rc] by (intro exI [of _ w] exI [of _ "[]"]) auto
    qed
  qed
qed

lemma rect_of_size:
  "\<exists>rc. r_left rc = x \<and> r_top rc = y \<and> RECTW rc = width \<and> RECTH rc = height"
  by (rule exI [of _ "\<lparr>r_left = x, r_top = y, r_right = x + width, r_bottom = y + height\<rparr>"])
    (simp add: RECTW_def RECTH_def)

lemma SetGridLayoutRect_spec:
  assumes t: "ready rank fit w" and p: "layouts w p = Some gl" "p \<noteq> 0" and "rank p < f" and pos: "0 < width" "0 < height"
  shows "\<exists>w' evs gl'. SetGridLayoutRect f W w p x y width height = Some (Inr w')
     \<and> layouts w' p = Some gl' \<and> layout_ok gl' \<and> same_shape gl gl'
     \<and> gl_x gl' = x \<and> gl_y gl' = y \<and> gl_width gl' = width \<and> gl_height gl' = height
     \<and> tree_ok rank w' \<and> same_structure w w' \<and> event_log w' = event_log w @ evs
     \<and> (\<forall>r c cell rc. in_grid gl' r c \<and> \<not> on_spliter gl' r c \<and> cell_at gl' c r = Inr cell
          \<and> GridLayoutGetCellRect gl' r c = Inr (Some rc) \<and> c_type cell = gct_hwnd \<and> W (c_data cell)
          \<longrightarrow> MoveWindow (c_data cell) (r_left rc) (r_top rc) (RECTW rc) (RECTH rc) \<in> set evs)
     \<and> (fit \<longrightarrow> all_fit w' \<and> list_all (event_in x y width height) evs)"
proof -
  obtain f' where f: "f = Suc f'" "rank p \<le> f'" using assms(4) by (cases f) simp_all
  obtain big where big: "r_left big = x" "r_top big = y" "RECTW big = width" "RECTH big = height"
    using rect_of_size by blast
  have below: "resizes_below rank (rank p) (SetGridLayoutRect f' W)"
    using set_rect_below [of rank f' W] less_le_trans [OF _ f(2)] unfolding resizes_below_def by blast
  obtain w' evs gl' items where w': "SetGridLayoutRect f W w p x y width height = Some (Inr w')"
      "resized gl x y width height = Inr gl'" "layouts w' p = Some gl'" "deal_cell_with_position gl' = Inr items"
      "window_moves W items \<subseteq> set evs" "resize_step rank (Suc (rank p)) big fit w evs w'"
    using set_rect_tree [OF below t p(1,2) refl, of big] pos unfolding big f(1) by blast
  have ok: "layout_ok gl" using t p(1) by (simp add: ready_def tree_ok_def)
  have gl': "layout_ok gl'" "same_shape gl gl'" "gl_x gl' = x" "gl_y gl' = y" "gl_width gl' = width" "gl_height gl' = height"
    using resized_ok [OF ok pos, of x y] w'(2) by auto
  have "MoveWindow (c_data cell) (r_left rc) (r_top rc) (RECTW rc) (RECTH rc) \<in> set evs"
    if "in_grid gl' r c" "\<not> on_spliter gl' r c" "cell_at gl' c r = Inr cell"
      "GridLayoutGetCellRect gl' r c = Inr (Some rc)" "c_type cell = gct_hwnd" "W (c_data cell)" for r c cell rc
  proof -
    have "rc = cell_rect gl' (nat r) (nat c)"
      using GetCellRect_eq [OF gl'(1), of "nat r" "nat c"] that(1,4) by (simp add: in_grid_def)
    then have "(c, r, cell, rc) \<in> set items"
      using walk_items_set [OF gl'(1), of c r cell rc] that(1-3) cell_at_ok [OF gl'(1) that(1)] w'(4)
        deal_cell_with_position_eq [OF gl'(1)] by simp
    then show ?thesis using w'(5) that(5,6) unfolding window_moves_def by blast
  qed
  then show ?thesis
    using w'(1,3,6) gl' unfolding resize_step_def big by (intro exI [of _ w'] exI [of _ evs] exI [of _ gl']) blast
qed

text \<open>
  C23: Setting the rectangle of a layout returns for a tree of nesting below the fuel, stores the
  new rectangle, keeps all layouts well-formed with the same cells, and moves each window in a cell
  exactly to the rectangle GridLayoutGetCellRect gives for that cell.
\<close>

theorem SetGridLayoutRect_moves_windows:
  assumes "tree_ok rank w" "layouts w p = Some gl" "p \<noteq> 0" "rank p < f" "0 < width" "0 < height"
  shows "\<exists>w' evs gl'. SetGridLayoutRect f W w p x y width height = Some (Inr w')
     \<and> layouts w' p = Some gl' \<and> layout_ok gl' \<and> same_shape gl gl'
     \<and> gl_x gl' = x \<and> gl_y gl' = y \<and> gl_width gl' = width \<and> gl_height gl' = height
     \<and> tree_ok rank w' \<and> same_structure w w' \<and> event_log w' = event_log w @ evs
     \<and> (\<forall>r c cell rc. in_grid gl' r c \<and> \<not> on_spliter gl' r c \<and> cell_at gl' c r = Inr cell
          \<and> GridLayoutGetCellRect gl' r c = Inr (Some rc) \<and> c_type cell = gct_hwnd \<and> W (c_data cell)
          \<longrightarrow> MoveWindow (c_data cell) (r_left rc) (r_top rc) (RECTW rc) (RECTH rc) \<in> set evs)"
  using SetGridLayoutRect_spec [of rank False w p gl f width height W x y] assms unfolding ready_def by blast

section \<open>What a resize reaches\<close>

text \<open>
  What a cell with the rectangle \<open>rc\<close> is due: a window is moved to it, a user cell is called with it, and a
  nested layout is visited when the rectangle has an extent. \<open>V\<close> are the layouts visited, \<open>evs\<close> the calls.
\<close>

definition cell_served :: "(nat \<Rightarrow> bool) \<Rightarrow> grid_world \<Rightarrow> nat set \<Rightarrow> grid_event list \<Rightarrow> grid_cell \<Rightarrow> rect \<Rightarrow> bool" where
  "cell_served W w V evs cell rc \<longleftrightarrow>
     (c_type cell = gct_hwnd \<and> W (c_data cell)
        \<longrightarrow> MoveWindow (c_data cell) (r_left rc) (r_top rc) (RECTW rc) (RECTH rc) \<in> set evs)
     \<and> (\<forall>f u. c_type cell = gct_user \<and> user_fn inf_setRect w cell = Inr (Some (f, u))
        \<longrightarrow> CallSetRect f u (r_left rc) (r_top rc) (RECTW rc) (RECTH rc) \<in> set evs)
     \<and> (c_type cell = gct_grid \<and> c_data cell \<noteq> 0 \<and> 0 < RECTW rc \<and> 0 < RECTH rc \<longrightarrow> c_data cell \<in> V)"

definition served :: "(nat \<Rightarrow> bool) \<Rightarrow> grid_world \<Rightarrow> nat set \<Rightarrow> grid_event list \<Rightarrow> grid_layout \<Rightarrow> bool" where
  "served W w V evs gl \<longleftrightarrow>
     (\<forall>c r cell rc. (c, r, cell, rc) \<in> set (walk_items gl 0 (nat (col_cnt gl))) \<longrightarrow> cell_served W w V evs cell rc)"

text \<open>
  A part of a resize that visits the layouts \<open>V\<close>: only they change, and each is served as it stands at the end.
\<close>

definition visits ::
  "(nat \<Rightarrow> nat) \<Rightarrow> nat \<Rightarrow> (nat \<Rightarrow> bool) \<Rightarrow> nat set \<Rightarrow> grid_event list \<Rightarrow> grid_world \<Rightarrow> grid_world \<Rightarrow> bool" where
  "visits rank n W V evs w w' \<longleftrightarrow>
     users w' = users w \<and> event_log w' = event_log w @ evs
     \<and> (\<forall>q. q \<notin> V \<longrightarrow> layouts w' q = layouts w q)
     \<and> (\<forall>q \<in> V. rank q < n \<and> (\<exists>gl. layouts w' q = Some gl \<and> served W w' V evs gl))"

lemma cell_served_mono:
  "cell_served W w V evs cell rc \<Longrightarrow> users w' = users w \<Longrightarrow> V \<subseteq> V' \<Longrightarrow> set evs \<subseteq> set evs'
     \<Longrightarrow> cell_served W w' V' evs' cell rc"
  by (auto simp: cell_served_def user_fn_def)

lemma served_mono:
  "served W w V evs gl \<Longrightarrow> users w' = users w \<Longrightarrow> V \<subseteq> V' \<Longrightarrow> set evs \<subseteq> set evs' \<Longrightarrow> served W w' V' evs' gl"
  unfolding served_def using cell_served_mono [of W w V evs _ _ w' V' evs'] by blast

lemma visits_refl: "visits rank n W {} [] w w"
  by (simp add: visits_def)

lemma visits_emit: "visits rank n W {} [e] w (emit e w)"
  by (simp add: visits_def)

lemma visits_mono: "visits rank m W V evs w w' \<Longrightarrow> m \<le> n \<Longrightarrow> visits rank n W V evs w w'"
  unfolding visits_def by (meson less_le_trans)

lemma visits_trans:
  assumes "visits rank n W V1 evs1 w w1" "visits rank n W V2 evs2 w1 w2"
  shows "visits rank n W (V1 \<union> V2) (evs1 @ evs2) w w2"
proof -
  have "rank q < n \<and> (\<exists>gl. layouts w2 q = Some gl \<and> served W w2 (V1 \<union> V2) (evs1 @ evs2) gl)" if "q \<in> V1 \<union> V2" for q
  proof (cases "q \<in> V2")
    case True
    then obtain gl where "rank q < n" "layouts w2 q = Some gl" "served W w2 V2 evs2 gl"
      using assms(2) by (auto simp: visits_def)
    then show ?thesis using served_mono [of W w2 V2 evs2 gl w2 "V1 \<union> V2" "evs1 @ evs2"] by auto
  next
    case False
    then have "q \<in> V1" using that by simp
    then obtain gl where "rank q < n" "layouts w1 q = Some gl" "served W w1 V1 evs1 gl"
      using assms(1) unfolding visits_def by blast
    moreover have "layouts w2 q = layouts w1 q" "users w2 = users w1" using assms(2) False by (simp_all add: visits_def)
    ultimately show ?thesis using served_mono [of W w1 V1 evs1 gl w2 "V1 \<union> V2" "evs1 @ evs2"] by auto
  qed
  then show ?thesis using assms by (simp add: visits_def)
qed

text \<open>What the recursive call visits, for the layouts of rank below \<open>n\<close>.\<close>

definition visits_below ::
  "(nat \<Rightarrow> nat) \<Rightarrow> nat \<Rightarrow> (nat \<Rightarrow> bool) \<Rightarrow> (grid_world \<Rightarrow> nat \<Rightarrow> int \<Rightarrow> int \<Rightarrow> int \<Rightarrow> int \<Rightarrow> grid_world run) \<Rightarrow> bool" where
  "visits_below rank n W set_rect \<longleftrightarrow>
     (\<forall>w q x y width height w'. tree_ok rank w \<and> rank q < n \<and> set_rect w q x y width height = Some (Inr w') \<longrightarrow>
        (\<exists>V evs. visits rank (Suc (rank q)) W V evs w w' \<and> (q \<noteq> 0 \<and> 0 < width \<and> 0 < height \<longrightarrow> q \<in> V)))"

lemma resize_cell_visits:
  assumes rec: "visits_below rank n W set_rect" and t: "tree_ok rank w" and c: "cell_ok rank w p cell" "rank p = n"
    and run: "grid_layout_resize set_rect W w cell rc = Some (Inr w')"
  shows "\<exists>V evs. visits rank n W V evs w w' \<and> cell_served W w V evs cell rc"
proof -
  have same: "?thesis" if "w' = w" "cell_served W w {} [] cell rc"
    using that visits_refl by blast
  have event: "?thesis" if "w' = emit e w" "cell_served W w {} [e] cell rc" for e
    using that visits_emit by blast
  consider "c_type cell = gct_hwnd" | "c_type cell = gct_grid" "c_data cell \<noteq> 0" | "c_type cell = gct_user"
      | "c_type cell \<noteq> gct_hwnd" "c_type cell \<noteq> gct_user" "c_type cell = gct_grid \<longrightarrow> c_data cell = 0" by metis
  then show ?thesis
  proof cases
    case 1
    let ?e = "MoveWindow (c_data cell) (r_left rc) (r_top rc) (RECTW rc) (RECTH rc)"
    show ?thesis
    proof (cases "W (c_data cell)")
      case True
      then show ?thesis using 1 run by (intro event [of ?e]) (simp_all add: grid_layout_resize_def cell_served_def gct_defs)
    next
      case False
      then show ?thesis using 1 run by (intro same) (simp_all add: grid_layout_resize_def cell_served_def gct_defs)
    qed
  next
    case 2
    then have "set_rect w (c_data cell) (r_left rc) (r_top rc) (RECTW rc) (RECTH rc) = Some (Inr w')" "rank (c_data cell) < n"
      using run c by (simp_all add: grid_layout_resize_def gct_defs cell_ok_def)
    then obtain V evs where V: "visits rank (Suc (rank (c_data cell))) W V evs w w'"
        "0 < RECTW rc \<and> 0 < RECTH rc \<longrightarrow> c_data cell \<in> V"
      using rec t 2(2) unfolding visits_below_def by blast
    have "visits rank n W V evs w w'" using visits_mono [OF V(1)] \<open>rank (c_data cell) < n\<close> by simp
    moreover have "cell_served W w V evs cell rc" using 2 V(2) by (simp add: cell_served_def gct_defs)
    ultimately show ?thesis by blast
  next
    case 3
    then obtain o' where o': "user_fn inf_setRect w cell = Inr o'"
        "w' = (case o' of None \<Rightarrow> w | Some (f, u) \<Rightarrow> emit (CallSetRect f u (r_left rc) (r_top rc) (RECTW rc) (RECTH rc)) w)"
      using run by (cases "user_fn inf_setRect w cell")
        (auto simp: grid_layout_resize_def grid_cell_set_rect_def gct_defs)
    then show ?thesis
      using 3 same event by (cases o') (auto simp: cell_served_def gct_defs)
  next
    case 4
    then show ?thesis using run by (intro same) (auto simp: grid_layout_resize_def cell_served_def split: if_splits)
  qed
qed

lemma cell_of_in:
  assumes "layout_ok gl" "in_grid gl r c" "cell = cell_of gl r c"
  shows "cell_in gl cell"
proof -
  have "cells gl ! nat c \<in> set (cells gl)" using assms(1,2) by (intro nth_mem) (auto simp: layout_ok_def in_grid_def)
  moreover from this have "nat r < length (cells gl ! nat c)" using assms(1,2) by (fastforce simp: layout_ok_def in_grid_def)
  ultimately show ?thesis using assms(3) nth_mem unfolding cell_in_def cell_of_def by blast
qed

lemma resize_cells_visits:
  assumes rec: "visits_below rank n W set_rect" "resizes_below rank n set_rect" and "rank p = n"
  shows "tree_ok rank w \<Longrightarrow> \<forall>(c, r, cell, rc) \<in> set items. cell_ok rank w p cell
     \<Longrightarrow> run_fold (resize_item set_rect W) w items = Some (Inr w')
     \<Longrightarrow> \<exists>V evs. visits rank n W V evs w w' \<and> (\<forall>c r cell rc. (c, r, cell, rc) \<in> set items \<longrightarrow> cell_served W w V evs cell rc)"
proof (induction items arbitrary: w)
  case Nil
  then show ?case using visits_refl by fastforce
next
  case (Cons item items)
  obtain i j cell rc where item: "item = (i, j, cell, rc)" by (cases item)
  have cell: "cell_ok rank w p cell" using Cons.prems(2) item by simp
  obtain w1 evs0 where w1: "grid_layout_resize set_rect W w cell rc = Some (Inr w1)" "resize_step rank n rc False w evs0 w1"
    using resize_cell [OF rec(2) _ cell assms(3), of False W rc] Cons.prems(1) unfolding ready_def by blast
  have t1: "tree_ok rank w1" "same_structure w w1" using w1(2) by (simp_all add: resize_step_def)
  obtain V1 evs1 where V1: "visits rank n W V1 evs1 w w1" "cell_served W w V1 evs1 cell rc"
    using resize_cell_visits [OF rec(1) Cons.prems(1) cell assms(3) w1(1)] by blast
  have "\<forall>(c, r, cell, rc) \<in> set items. cell_ok rank w1 p cell"
    using Cons.prems(2) cell_ok_same_structure [OF t1(2)] by fastforce
  moreover have "run_fold (resize_item set_rect W) w1 items = Some (Inr w')"
    using Cons.prems(3) item w1(1) by simp
  ultimately obtain V2 evs2 where V2: "visits rank n W V2 evs2 w1 w'"
      "\<forall>c r cell rc. (c, r, cell, rc) \<in> set items \<longrightarrow> cell_served W w1 V2 evs2 cell rc"
    using Cons.IH [OF t1(1)] by blast
  have u: "users w = users w1" using V1(1) by (simp add: visits_def)
  have "cell_served W w (V1 \<union> V2) (evs1 @ evs2) c' rc'" if "(i', j', c', rc') \<in> set (item # items)" for i' j' c' rc'
  proof (cases "(i', j', c', rc') = item")
    case True
    then show ?thesis using item V1(2) cell_served_mono [of W w V1 evs1 cell rc w "V1 \<union> V2" "evs1 @ evs2"] by simp
  next
    case False
    then have "cell_served W w1 V2 evs2 c' rc'" using that V2(2) by auto
    then show ?thesis using u cell_served_mono [of W w1 V2 evs2 c' rc' w "V1 \<union> V2" "evs1 @ evs2"] by simp
  qed
  then show ?case
    using visits_trans [OF V1(1) V2(1)] by (intro exI [of _ "V1 \<union> V2"] exI [of _ "evs1 @ evs2"]) blast
qed

lemma set_rect_visits: "visits_below rank f W (SetGridLayoutRect f W)"
proof (induction f)
  case 0
  then show ?case by (simp add: visits_below_def)
next
  case (Suc f)
  show ?case
    unfolding visits_below_def
  proof (intro allI impI)
    fix w q x y width height w'
    assume a: "tree_ok rank w \<and> rank q < Suc f \<and> SetGridLayoutRect (Suc f) W w q x y width height = Some (Inr w')"
    show "\<exists>V evs. visits rank (Suc (rank q)) W V evs w w' \<and> (q \<noteq> 0 \<and> 0 < width \<and> 0 < height \<longrightarrow> q \<in> V)"
    proof (cases "q \<noteq> 0 \<and> 0 < width \<and> 0 < height")
      case False
      then show ?thesis using a visits_refl [of rank "Suc (rank q)" W w] by (auto split: if_splits)
    next
      case True
      then obtain gl gl' items where gl: "layouts w q = Some gl" "resized gl x y width height = Inr gl'"
          "deal_cell_with_position gl' = Inr items"
          "run_fold (resize_item (SetGridLayoutRect f W) W) (put_layout q gl' w) items = Some (Inr w')"
        using a by (auto simp: ubind_eq_Inr split: option.splits)
      have ok: "layout_ok gl" and cells: "\<And>cell. cell_in gl cell \<Longrightarrow> cell_ok rank w q cell"
        using a gl(1) by (simp_all add: tree_ok_def)
      have gl': "layout_ok gl'" "same_shape gl gl'" using resized_ok [OF ok, of width height x y] True gl(2) by auto
      have items: "items = walk_items gl' 0 (nat (col_cnt gl'))"
        using deal_cell_with_position_eq [OF gl'(1)] gl(3) by simp
      have ss: "same_structure w (put_layout q gl' w)" by (rule same_structure_put [OF gl(1) gl'(2)])
      have t0: "tree_ok rank (put_layout q gl' w)"
        by (rule tree_ok_same_structure [OF _ ss]) (use a gl'(1) in \<open>auto simp: tree_ok_def split: if_splits\<close>)
      have "cell_ok rank (put_layout q gl' w) q cell" if "(c, r, cell, rc) \<in> set items" for c r cell rc
      proof -
        have "in_grid gl' r c" "cell = cell_of gl' r c" using that walk_items_set [OF gl'(1)] items by auto
        then have "cell_in gl' cell" by (rule cell_of_in [OF gl'(1)])
        then show ?thesis
          using cells cell_ok_same_structure [OF ss] gl'(2) by (simp add: cell_in_def same_shape_def)
      qed
      then have cok: "\<forall>(c, r, cell, rc) \<in> set items. cell_ok rank (put_layout q gl' w) q cell" by blast
      have below: "visits_below rank (rank q) W (SetGridLayoutRect f W)" "resizes_below rank (rank q) (SetGridLayoutRect f W)"
        using Suc.IH set_rect_below [of rank f W] a less_le_trans [of _ "rank q" f]
        unfolding visits_below_def resizes_below_def by (metis less_Suc_eq_le)+
      obtain V evs where V: "visits rank (rank q) W V evs (put_layout q gl' w) w'"
          "\<forall>c r cell rc. (c, r, cell, rc) \<in> set items \<longrightarrow> cell_served W (put_layout q gl' w) V evs cell rc"
        using resize_cells_visits [OF below refl t0 cok gl(4)] by blast
      have own: "served W w' (insert q V) evs gl'"
        using V cell_served_mono [of W "put_layout q gl' w" V evs _ _ w' "insert q V" evs]
        unfolding served_def items [symmetric] by (fastforce simp: visits_def)
      have "q \<notin> V" using V(1) by (auto simp: visits_def)
      then have "layouts w' q = Some gl'" using V(1) by (simp add: visits_def)
      moreover have "\<exists>gl. layouts w' q' = Some gl \<and> served W w' (insert q V) evs gl" if "q' \<in> V" for q'
        using V(1) that served_mono [of W w' V evs _ w' "insert q V" evs] unfolding visits_def by blast
      ultimately have "visits rank (Suc (rank q)) W (insert q V) evs w w'"
        using V(1) own by (auto simp: visits_def less_SucI)
      then show ?thesis by blast
    qed
  qed
qed

text \<open>
  The layouts a resize reaches, read off the state it leaves: the layout itself, and the layout in a cell
  that has an extent. A layout in a cell without an extent is skipped.
\<close>

inductive layout_reached :: "grid_world \<Rightarrow> nat \<Rightarrow> nat \<Rightarrow> bool" for w p where
  self: "layout_reached w p p"
| inner: "layout_reached w p q \<Longrightarrow> layouts w q = Some gl \<Longrightarrow> in_grid gl r c \<Longrightarrow> \<not> on_spliter gl r c
    \<Longrightarrow> cell_at gl c r = Inr cell \<Longrightarrow> GridLayoutGetCellRect gl r c = Inr (Some rc)
    \<Longrightarrow> c_type cell = gct_grid \<Longrightarrow> c_data cell \<noteq> 0 \<Longrightarrow> 0 < RECTW rc \<Longrightarrow> 0 < RECTH rc
    \<Longrightarrow> layout_reached w p (c_data cell)"

lemma served_cell:
  assumes "served W w V evs gl" "layout_ok gl" "in_grid gl r c" "\<not> on_spliter gl r c" "cell_at gl c r = Inr cell"
    "GridLayoutGetCellRect gl r c = Inr (Some rc)"
  shows "cell_served W w V evs cell rc"
proof -
  have "rc = cell_rect gl (nat r) (nat c)"
    using GetCellRect_eq [OF assms(2), of "nat r" "nat c"] assms(3,6) by (simp add: in_grid_def)
  then have "(c, r, cell, rc) \<in> set (walk_items gl 0 (nat (col_cnt gl)))"
    using walk_items_set [OF assms(2)] assms(3-5) cell_at_ok [OF assms(2,3)] by simp
  then show ?thesis using assms(1) by (auto simp: served_def)
qed

lemma reached_visited:
  assumes "layout_reached w' p q" "visits rank n W V evs w w'" "tree_ok rank w'" "p \<in> V"
  shows "q \<in> V"
  using assms(1)
proof (induction rule: layout_reached.induct)
  case self
  then show ?case by (rule assms(4))
next
  case (inner q gl r c cell rc)
  have "served W w' V evs gl" "layout_ok gl"
    using inner.IH inner.hyps(2) assms(2,3) by (auto simp: visits_def tree_ok_def)
  then have "cell_served W w' V evs cell rc" using served_cell inner.hyps(3-6) by blast
  then show ?case using inner.hyps(7-10) by (simp add: cell_served_def)
qed

text \<open>
  C19: In a tree of grid layouts whose sizes are all given (none shares the rest), setting the
  rectangle of the root succeeds, and every window and every user cell with a callback for it, of
  the root and of the layouts nested at any depth in cells that have an extent, is given exactly the
  rectangle of its cell; every rectangle given lies inside the one of the root. A layout in a cell
  without width or height is skipped. The sizes fit afterwards, so this holds for every later resize
  too.
\<close>

theorem SetGridLayoutRect_stays_inside:
  assumes "tree_ok rank w" "all_fit w" "layouts w p = Some gl" "p \<noteq> 0" "rank p < f" "0 < width" "0 < height"
  shows "\<exists>w' evs. SetGridLayoutRect f W w p x y width height = Some (Inr w') \<and> all_fit w'
     \<and> event_log w' = event_log w @ evs \<and> list_all (event_in x y width height) evs
     \<and> (\<forall>q gq r c cell rc. layout_reached w' p q \<and> layouts w' q = Some gq \<and> in_grid gq r c \<and> \<not> on_spliter gq r c
          \<and> cell_at gq c r = Inr cell \<and> GridLayoutGetCellRect gq r c = Inr (Some rc) \<longrightarrow>
          (c_type cell = gct_hwnd \<and> W (c_data cell)
             \<longrightarrow> MoveWindow (c_data cell) (r_left rc) (r_top rc) (RECTW rc) (RECTH rc) \<in> set evs)
          \<and> (\<forall>fn u. c_type cell = gct_user \<and> user_fn inf_setRect w' cell = Inr (Some (fn, u))
             \<longrightarrow> CallSetRect fn u (r_left rc) (r_top rc) (RECTW rc) (RECTH rc) \<in> set evs))"
proof -
  have "ready rank True w" using assms(1,2) by (simp add: ready_def)
  then obtain w' evs where w': "SetGridLayoutRect f W w p x y width height = Some (Inr w')" "tree_ok rank w'" "all_fit w'"
      "event_log w' = event_log w @ evs" "list_all (event_in x y width height) evs"
    using SetGridLayoutRect_spec [of rank True w p gl f width height W x y] assms(3-7) by blast
  obtain V evs' where V: "visits rank (Suc (rank p)) W V evs' w w'" "p \<in> V"
    using set_rect_visits [of rank f W] assms(1,4-7) w'(1) unfolding visits_below_def by blast
  have evs: "evs' = evs" using V(1) w'(4) by (simp add: visits_def)
  have "cell_served W w' V evs cell rc"
    if "layout_reached w' p q" "layouts w' q = Some gq" "in_grid gq r c" "\<not> on_spliter gq r c" "cell_at gq c r = Inr cell"
      "GridLayoutGetCellRect gq r c = Inr (Some rc)" for q gq r c cell rc
  proof (rule served_cell [OF _ _ that(3-6)])
    show "served W w' V evs gq"
      using reached_visited [OF that(1) V(1) w'(2) V(2)] V(1) that(2) evs by (auto simp: visits_def)
    show "layout_ok gq" using w'(2) that(2) by (simp add: tree_ok_def)
  qed
  then show ?thesis using w' unfolding cell_served_def by (intro exI [of _ w'] exI [of _ evs]) blast
qed

text \<open>A window and a nested layout with a window of its own, side by side with a splitter bar between them.\<close>

definition sample_outer :: grid_layout where
  "sample_outer = \<lparr>hwndAttached = 0, gl_x = 0, gl_y = 0, gl_width = 0, gl_height = 0, row_cnt = 1,
     row_height = None, col_cnt = 3,
     col_width = Some [\<lparr>u_type = 0, u_logic = 30, u_current = 0\<rparr>, \<lparr>u_type = 2, u_logic = 0, u_current = 0\<rparr>,
                       \<lparr>u_type = 1, u_logic = 50, u_current = 0\<rparr>],
     cells = [[zero_cell\<lparr>c_type := gct_hwnd, c_data := 7\<rparr>], [zero_cell], [zero_cell\<lparr>c_type := gct_grid, c_data := 2\<rparr>]]\<rparr>"

definition sample_inner :: grid_layout where
  "sample_inner = zero_layout\<lparr>row_cnt := 1, col_cnt := 1, cells := [[zero_cell\<lparr>c_type := gct_hwnd, c_data := 8\<rparr>]]\<rparr>"

definition sample_world :: grid_world where
  "sample_world = \<lparr>layouts = [1 \<mapsto> sample_outer, 2 \<mapsto> sample_inner], users = Map.empty, event_log = []\<rparr>"

definition sample_rank :: "nat \<Rightarrow> nat" where "sample_rank p = (if p = 1 then 1 else 0)"

lemma sample_tree_ok: "tree_ok sample_rank sample_world"
  by (auto simp: tree_ok_def sample_world_def sample_outer_def sample_inner_def layout_ok_def units_ok_def unit_ok_def
      cell_in_def cell_ok_def sample_rank_def zero_cell_def zero_layout_def gct_defs split: if_splits)

lemma sample_all_fit: "all_fit sample_world"
  by (auto simp: all_fit_def fits_def axis_fits_def sample_world_def sample_outer_def sample_inner_def zero_layout_def
      is_avg_def lut_defs split: if_splits)

lemma sample_resize:
  "\<exists>w'. SetGridLayoutRect 2 (\<lambda>_. True) sample_world 1 5 6 100 40 = Some (Inr w')
      \<and> event_log w' = [MoveWindow 7 5 6 30 40, MoveWindow 8 39 6 50 40]"
  by (simp add: sample_world_def sample_outer_def sample_inner_def zero_layout_def zero_cell_def gct_defs lut_defs
      eval_nat_numeral resized_def recalca_units_def is_avg_def wanted_size_def cdiv_def deal_cell_with_position_def
      size_at_def spliter_at_def aget_def cell_at_def cdiv_checked_def grid_layout_resize_def RECTW_def RECTH_def)

lemma SetGridLayoutRect_moves_windows_witness:
  "\<exists>w' gl'. SetGridLayoutRect 2 (\<lambda>_. True) sample_world 1 5 6 100 40 = Some (Inr w')
     \<and> layouts w' 1 = Some gl' \<and> gl_width gl' = 100 \<and> event_log w' = [MoveWindow 7 5 6 30 40, MoveWindow 8 39 6 50 40]"
proof -
  have l: "layouts sample_world 1 = Some sample_outer" "sample_rank 1 < 2" by (simp_all add: sample_world_def sample_rank_def)
  show ?thesis
    using SetGridLayoutRect_moves_windows [OF sample_tree_ok l(1) _ l(2), of 100 40 "\<lambda>_. True" 5 6] sample_resize
    by auto
qed

lemma SetGridLayoutRect_stays_inside_witness:
  "\<exists>w'. SetGridLayoutRect 2 (\<lambda>_. True) sample_world 1 5 6 100 40 = Some (Inr w')
     \<and> list_all (event_in 5 6 100 40) (event_log w') \<and> MoveWindow 8 39 6 50 40 \<in> set (event_log w')"
proof -
  have l: "layouts sample_world 1 = Some sample_outer" "sample_rank 1 < 2" "event_log sample_world = []"
    by (simp_all add: sample_world_def sample_rank_def)
  show ?thesis
    using SetGridLayoutRect_stays_inside [OF sample_tree_ok sample_all_fit l(1) _ l(2), of 100 40 "\<lambda>_. True" 5 6] l(3)
      sample_resize
    by auto
qed

section \<open>Showing a tree\<close>

text \<open>
  \<open>GridLayoutShow\<close> goes through the same tree; it changes nothing but the log. It reaches the windows of the
  layouts below as well, which is stated with the relation of a layout to those nested in it.
\<close>

definition shown :: "grid_world \<Rightarrow> grid_event list \<Rightarrow> grid_world \<Rightarrow> bool" where
  "shown w evs w' \<longleftrightarrow> layouts w' = layouts w \<and> users w' = users w \<and> event_log w' = event_log w @ evs"

inductive window_below :: "grid_world \<Rightarrow> nat \<Rightarrow> nat \<Rightarrow> bool" for w where
  own: "layouts w p = Some gl \<Longrightarrow> cell_in gl cell \<Longrightarrow> c_type cell = gct_hwnd \<Longrightarrow> c_data cell = h \<Longrightarrow> window_below w p h"
| nested: "layouts w p = Some gl \<Longrightarrow> cell_in gl cell \<Longrightarrow> c_type cell = gct_grid \<Longrightarrow> c_data cell = q \<Longrightarrow> q \<noteq> 0
    \<Longrightarrow> window_below w q h \<Longrightarrow> window_below w p h"

inductive_cases window_belowE: "window_below w p h"

text \<open>What the walk of \<open>GridLayoutEnumAllCellObjs\<close> guarantees for a callback that logs what each cell needs.\<close>

definition logs_needed ::
  "grid_world \<Rightarrow> (grid_event \<Rightarrow> bool) \<Rightarrow> (grid_cell \<Rightarrow> grid_event set) \<Rightarrow> grid_cell
     \<Rightarrow> (grid_cell \<Rightarrow> int \<Rightarrow> int \<Rightarrow> grid_world \<Rightarrow> (bool \<times> grid_world) run) \<Rightarrow> bool" where
  "logs_needed w ok need cell deal \<longleftrightarrow>
     (\<forall>r c w1. layouts w1 = layouts w \<and> users w1 = users w \<longrightarrow>
        (\<exists>w2 evs. deal cell r c w1 = Some (Inr (True, w2)) \<and> shown w1 evs w2 \<and> list_all ok evs \<and> need cell \<subseteq> set evs))"

lemma shown_trans: "shown w evs1 w1 \<Longrightarrow> shown w1 evs2 w2 \<Longrightarrow> shown w (evs1 @ evs2) w2"
  by (simp add: shown_def)

lemma enum_cols_needed:
  assumes ok: "layout_ok gl" and r: "int r < row_cnt gl"
    and deal: "\<And>cell. cell_in gl cell \<Longrightarrow> c_type cell \<noteq> 0 \<Longrightarrow> logs_needed w P need cell deal"
  shows "layouts w1 = layouts w \<Longrightarrow> users w1 = users w \<Longrightarrow> int (i + k) \<le> col_cnt gl \<Longrightarrow>
     \<exists>w2 evs. enum_cols deal gl (int r) k (int i) w1 = Some (Inr (True, w2)) \<and> shown w1 evs w2 \<and> list_all P evs
       \<and> (\<forall>c \<in> {i..<i + k}. c_type (cells gl ! c ! r) \<noteq> 0 \<longrightarrow> need (cells gl ! c ! r) \<subseteq> set evs)"
proof (induction k arbitrary: i w1)
  case 0
  then show ?case by (intro exI [of _ w1] exI [of _ "[]"]) (simp add: shown_def)
next
  case (Suc k)
  let ?cell = "cells gl ! i ! r"
  have i: "int i < col_cnt gl" using Suc.prems(3) by simp
  have at: "cell_at gl (int i) (int r) = Inr ?cell"
    using cell_at_ok [OF ok, of "int r" "int i"] i r by (simp add: in_grid_def cell_of_def)
  have "i < length (cells gl)" "int (length (cells gl ! i)) = row_cnt gl" using i ok by (simp_all add: layout_ok_def)
  then have cin: "cell_in gl ?cell" unfolding cell_in_def using r by (intro bexI [of _ "cells gl ! i"]) simp_all
  have step: "\<exists>w2 evs. (if c_type ?cell \<noteq> 0 then deal ?cell (int r) (int i) w1 else Some (Inr (True, w1))) = Some (Inr (True, w2))
      \<and> shown w1 evs w2 \<and> list_all P evs \<and> (c_type ?cell \<noteq> 0 \<longrightarrow> need ?cell \<subseteq> set evs)"
  proof (cases "c_type ?cell = 0")
    case True
    then show ?thesis by (intro exI [of _ w1] exI [of _ "[]"]) (simp add: shown_def)
  next
    case False
    with deal [OF cin] Suc.prems(1,2) show ?thesis unfolding logs_needed_def by simp
  qed
  then obtain w2 evs where w2:
      "(if c_type ?cell \<noteq> 0 then deal ?cell (int r) (int i) w1 else Some (Inr (True, w1))) = Some (Inr (True, w2))"
      "shown w1 evs w2" "list_all P evs" "c_type ?cell \<noteq> 0 \<longrightarrow> need ?cell \<subseteq> set evs" by blast
  have same: "layouts w2 = layouts w" "users w2 = users w" using w2(2) Suc.prems(1,2) by (simp_all add: shown_def)
  have bound: "int (Suc i + k) \<le> col_cnt gl" using Suc.prems(3) by simp
  obtain w3 evs3 where w3: "enum_cols deal gl (int r) k (int (Suc i)) w2 = Some (Inr (True, w3))" "shown w2 evs3 w3"
      "list_all P evs3" "\<forall>c \<in> {Suc i..<Suc i + k}. c_type (cells gl ! c ! r) \<noteq> 0 \<longrightarrow> need (cells gl ! c ! r) \<subseteq> set evs3"
    using Suc.IH [OF same bound] by blast
  have "enum_cols deal gl (int r) (Suc k) (int i) w1 = Some (Inr (True, w3))"
    using at w2(1) w3(1) by (simp add: add.commute)
  moreover have "need (cells gl ! c ! r) \<subseteq> set (evs @ evs3)" if "c \<in> {i..<i + Suc k}" "c_type (cells gl ! c ! r) \<noteq> 0" for c
    using that w2(4) w3(4) by (cases "c = i") auto
  ultimately show ?case
    using shown_trans [OF w2(2) w3(2)] w2(3) w3(3) by (intro exI [of _ w3] exI [of _ "evs @ evs3"]) simp
qed

lemma enum_rows_needed:
  assumes ok: "layout_ok gl"
    and deal: "\<And>cell. cell_in gl cell \<Longrightarrow> c_type cell \<noteq> 0 \<Longrightarrow> logs_needed w P need cell deal"
  shows "layouts w1 = layouts w \<Longrightarrow> users w1 = users w \<Longrightarrow> int (i + k) \<le> row_cnt gl \<Longrightarrow>
     \<exists>w2 evs. enum_rows deal gl k (int i) w1 = Some (Inr w2) \<and> shown w1 evs w2 \<and> list_all P evs
       \<and> (\<forall>r \<in> {i..<i + k}. \<forall>c < nat (col_cnt gl). c_type (cells gl ! c ! r) \<noteq> 0 \<longrightarrow> need (cells gl ! c ! r) \<subseteq> set evs)"
proof (induction k arbitrary: i w1)
  case 0
  then show ?case by (intro exI [of _ w1] exI [of _ "[]"]) (simp add: shown_def)
next
  case (Suc k)
  have i: "int i < row_cnt gl" using Suc.prems(3) by simp
  have cols: "int (0 + nat (col_cnt gl)) \<le> col_cnt gl" using ok by (simp add: layout_ok_def)
  obtain w2 evs where w2: "enum_cols deal gl (int i) (nat (col_cnt gl)) (int 0) w1 = Some (Inr (True, w2))" "shown w1 evs w2"
      "list_all P evs" "\<forall>c \<in> {0..<0 + nat (col_cnt gl)}. c_type (cells gl ! c ! i) \<noteq> 0 \<longrightarrow> need (cells gl ! c ! i) \<subseteq> set evs"
    using enum_cols_needed [OF ok i deal Suc.prems(1,2) cols] by blast
  have same: "layouts w2 = layouts w" "users w2 = users w" using w2(2) Suc.prems(1,2) by (simp_all add: shown_def)
  have bound: "int (Suc i + k) \<le> row_cnt gl" using Suc.prems(3) by simp
  obtain w3 evs3 where w3: "enum_rows deal gl k (int (Suc i)) w2 = Some (Inr w3)" "shown w2 evs3 w3" "list_all P evs3"
      "\<forall>r \<in> {Suc i..<Suc i + k}. \<forall>c < nat (col_cnt gl). c_type (cells gl ! c ! r) \<noteq> 0 \<longrightarrow> need (cells gl ! c ! r) \<subseteq> set evs3"
    using Suc.IH [OF same bound] by blast
  have "enum_rows deal gl (Suc k) (int i) w1 = Some (Inr w3)" using w2(1) w3(1) by (simp add: add.commute)
  moreover have "need (cells gl ! c ! r) \<subseteq> set (evs @ evs3)"
    if "r \<in> {i..<i + Suc k}" "c < nat (col_cnt gl)" "c_type (cells gl ! c ! r) \<noteq> 0" for r c
  proof (cases "r = i")
    case True
    then show ?thesis using that(2,3) w2(4) by auto
  next
    case False
    then have "r \<in> {Suc i..<Suc i + k}" using that(1) by simp
    then have "need (cells gl ! c ! r) \<subseteq> set evs3" using that(2,3) w3(4) by blast
    then show ?thesis by auto
  qed
  ultimately show ?case
    using shown_trans [OF w2(2) w3(2)] w2(3) w3(3) by (intro exI [of _ w3] exI [of _ "evs @ evs3"]) simp
qed

definition is_show :: "bool \<Rightarrow> grid_event \<Rightarrow> bool" where
  "is_show sh e \<longleftrightarrow> (\<exists>h. e = ShowWindow h sh) \<or> (\<exists>f u. e = CallShow f u sh)"

text \<open>What a cell needs: the window it holds, or the windows below the layout it holds.\<close>

definition show_needs :: "grid_world \<Rightarrow> bool \<Rightarrow> grid_cell \<Rightarrow> grid_event set" where
  "show_needs w sh cell =
     (if c_type cell = gct_hwnd then {ShowWindow (c_data cell) sh}
      else if c_type cell = gct_grid \<and> c_data cell \<noteq> 0 then (\<lambda>h. ShowWindow h sh) ` {h. window_below w (c_data cell) h}
      else {})"

lemma window_below_mono: "window_below w p h \<Longrightarrow> layouts w1 = layouts w \<Longrightarrow> window_below w1 p h"
  by (induction rule: window_below.induct) (auto intro: window_below.intros)

lemma window_below_same: "layouts w1 = layouts w \<Longrightarrow> window_below w1 p h = window_below w p h"
  using window_below_mono [of w p h w1] window_below_mono [of w1 p h w] by auto

lemma tree_ok_same: "layouts w1 = layouts w \<Longrightarrow> users w1 = users w \<Longrightarrow> tree_ok rank w1 = tree_ok rank w"
  by (simp add: tree_ok_def cell_ok_def)

lemma show_cell_needs:
  fixes w :: grid_world
  assumes t: "tree_ok rank w" and c: "cell_ok rank w p cell"
    and rec: "\<And>w1 q. tree_ok rank w1 \<Longrightarrow> layouts w1 q \<noteq> None \<Longrightarrow> q \<noteq> 0 \<Longrightarrow> rank q < rank p \<Longrightarrow>
       \<exists>w2 evs. show_rec w1 q = Some (Inr w2) \<and> shown w1 evs w2 \<and> list_all (is_show sh) evs
         \<and> (\<lambda>h. ShowWindow h sh) ` {h. window_below w1 q h} \<subseteq> set evs"
    and null: "\<And>w1. show_rec w1 0 = Some (Inr w1)"
  shows "logs_needed w (is_show sh) (show_needs w sh) cell (gridlayout_show show_rec sh)"
  unfolding logs_needed_def
proof (intro allI impI)
  fix r c and w1 :: grid_world
  assume same: "layouts w1 = layouts w \<and> users w1 = users w"
  let ?goal = "\<lambda>w2 evs. gridlayout_show show_rec sh cell r c w1 = Some (Inr (True, w2)) \<and> shown w1 evs w2
      \<and> list_all (is_show sh) evs \<and> show_needs w sh cell \<subseteq> set evs"
  consider "c_type cell = gct_hwnd" | "c_type cell = gct_grid" "c_data cell = 0" | "c_type cell = gct_grid" "c_data cell \<noteq> 0"
    | "c_type cell = gct_user" | "c_type cell \<notin> {gct_hwnd, gct_grid, gct_user}" by blast
  then show "\<exists>w2 evs. ?goal w2 evs"
  proof cases
    case 1
    then show ?thesis
      by (intro exI [of _ "emit (ShowWindow (c_data cell) sh) w1"] exI [of _ "[ShowWindow (c_data cell) sh]"])
        (simp add: gridlayout_show_def shown_def is_show_def show_needs_def)
  next
    case 2
    then show ?thesis
      by (intro exI [of _ w1] exI [of _ "[]"]) (simp add: gridlayout_show_def show_needs_def null gct_defs shown_def)
  next
    case 3
    then have "layouts w1 (c_data cell) \<noteq> None" "rank (c_data cell) < rank p" using c same by (auto simp: cell_ok_def)
    moreover have "tree_ok rank w1" using t same tree_ok_same by blast
    ultimately obtain w2 evs where w2: "show_rec w1 (c_data cell) = Some (Inr w2)" "shown w1 evs w2" "list_all (is_show sh) evs"
        "(\<lambda>h. ShowWindow h sh) ` {h. window_below w1 (c_data cell) h} \<subseteq> set evs"
      using rec 3(2) by blast
    have "window_below w1 (c_data cell) h = window_below w (c_data cell) h" for h
      using same window_below_same by blast
    then show ?thesis
      using 3 w2 by (intro exI [of _ w2] exI [of _ evs]) (simp add: gridlayout_show_def show_needs_def gct_defs)
  next
    case 4
    then have "c_data cell = 0 \<or> (\<exists>gu. users w1 (c_data cell) = Some gu)" using c same by (auto simp: cell_ok_def)
    then have "\<exists>o'. user_fn inf_show w1 cell = Inr o'" by (auto simp: user_fn_def split: option.splits)
    then obtain o' where o': "user_fn inf_show w1 cell = Inr o'" ..
    have none: "show_needs w sh cell = {}" using 4 by (simp add: show_needs_def gct_defs)
    show ?thesis
    proof (cases o')
      case None
      then show ?thesis
        using 4 o' none by (intro exI [of _ w1] exI [of _ "[]"]) (simp add: gridlayout_show_def grid_cell_show_def gct_defs shown_def)
    next
      case (Some fu)
      then show ?thesis
        using 4 o' none
        by (intro exI [of _ "emit (CallShow (fst fu) (snd fu) sh) w1"] exI [of _ "[CallShow (fst fu) (snd fu) sh]"])
          (simp add: gridlayout_show_def grid_cell_show_def gct_defs split_beta shown_def is_show_def)
    qed
  next
    case 5
    then show ?thesis
      by (intro exI [of _ w1] exI [of _ "[]"]) (simp add: gridlayout_show_def show_needs_def shown_def)
  qed
qed

lemma cell_in_index:
  assumes "layout_ok gl" "cell_in gl cell"
  shows "\<exists>c r. c < nat (col_cnt gl) \<and> r < nat (row_cnt gl) \<and> cells gl ! c ! r = cell"
proof -
  obtain col where "col \<in> set (cells gl)" "cell \<in> set col" using assms(2) by (auto simp: cell_in_def)
  moreover from this obtain c r where "c < length (cells gl)" "cells gl ! c = col" "r < length col" "col ! r = cell"
    by (metis in_set_conv_nth)
  moreover have "length (cells gl) = nat (col_cnt gl)" "length col = nat (row_cnt gl)"
    using assms(1) \<open>col \<in> set (cells gl)\<close> by (auto simp: layout_ok_def)
  ultimately show ?thesis by metis
qed

lemma GridLayoutShow_spec:
  "tree_ok rank w \<Longrightarrow> layouts w p \<noteq> None \<Longrightarrow> p \<noteq> 0 \<Longrightarrow> Suc (rank p) < f \<Longrightarrow>
     \<exists>w' evs. GridLayoutShow f sh w p = Some (Inr w') \<and> shown w evs w' \<and> list_all (is_show sh) evs
       \<and> (\<lambda>h. ShowWindow h sh) ` {h. window_below w p h} \<subseteq> set evs"
proof (induction f arbitrary: w p)
  case (Suc f)
  obtain gl where gl: "layouts w p = Some gl" using Suc.prems(2) by blast
  have ok: "layout_ok gl" and cells: "\<And>cell. cell_in gl cell \<Longrightarrow> cell_ok rank w p cell"
    using Suc.prems(1) gl by (simp_all add: tree_ok_def)
  have null: "GridLayoutShow f sh w1 0 = Some (Inr w1)" for w1 using Suc.prems(4) by (cases f) simp_all
  have needs: "logs_needed w (is_show sh) (show_needs w sh) cell (gridlayout_show (GridLayoutShow f sh) sh)"
    if "cell_in gl cell" for cell
    by (rule show_cell_needs [OF Suc.prems(1) cells [OF that] Suc.IH null]) (use Suc.prems(4) in simp_all)
  have rows: "int (0 + nat (row_cnt gl)) \<le> row_cnt gl" using ok by (simp add: layout_ok_def)
  obtain w2 evs where w2: "enum_rows (gridlayout_show (GridLayoutShow f sh) sh) gl (nat (row_cnt gl)) (int 0) w = Some (Inr w2)"
      "shown w evs w2" "list_all (is_show sh) evs"
      "\<forall>r \<in> {0..<0 + nat (row_cnt gl)}. \<forall>c < nat (col_cnt gl). c_type (cells gl ! c ! r) \<noteq> 0
         \<longrightarrow> show_needs w sh (cells gl ! c ! r) \<subseteq> set evs"
    using enum_rows_needed [OF ok needs refl refl rows] by blast
  have every: "show_needs w sh cell \<subseteq> set evs" if "cell_in gl cell" "c_type cell \<noteq> 0" for cell
    using cell_in_index [OF ok that(1)] w2(4) that(2) by (metis add.left_neutral atLeastLessThan_iff le0)
  have "ShowWindow h sh \<in> set evs" if "window_below w p h" for h
    using that
  proof cases
    case (own gl1 cell)
    then have "show_needs w sh cell \<subseteq> set evs" using every [of cell] gl by (simp add: gct_defs)
    then show ?thesis using own by (simp add: show_needs_def)
  next
    case (nested gl1 cell q)
    then have "show_needs w sh cell \<subseteq> set evs" using every [of cell] gl by (simp add: gct_defs)
    then show ?thesis using nested by (auto simp: show_needs_def gct_defs)
  qed
  moreover have "GridLayoutShow (Suc f) sh w p = Some (Inr w2)"
    using Suc.prems(3) gl w2(1) by (simp add: GridLayoutEnumAllCellObjs_def)
  ultimately show ?case using w2(2,3) by (intro exI [of _ w2] exI [of _ evs]) auto
qed simp

text \<open>
  C28: GridLayoutShow on a tree returns, leaves the layouts alone, and shows or hides every window
  in the layout and in all nested ones; nothing else happens than shows and user callbacks with the
  same flag.
\<close>

theorem GridLayoutShow_reaches_every_window:
  assumes "tree_ok rank w" "layouts w p \<noteq> None" "p \<noteq> 0" "Suc (rank p) < f"
  shows "\<exists>w' evs. GridLayoutShow f sh w p = Some (Inr w') \<and> layouts w' = layouts w \<and> event_log w' = event_log w @ evs
     \<and> (\<forall>h. window_below w p h \<longrightarrow> ShowWindow h sh \<in> set evs)
     \<and> (\<forall>e \<in> set evs. (\<exists>h. e = ShowWindow h sh) \<or> (\<exists>fn u. e = CallShow fn u sh))"
proof -
  obtain w' evs where "GridLayoutShow f sh w p = Some (Inr w')" "shown w evs w'" "list_all (is_show sh) evs"
      "(\<lambda>h. ShowWindow h sh) ` {h. window_below w p h} \<subseteq> set evs"
    using GridLayoutShow_spec [OF assms] by blast
  then show ?thesis by (intro exI [of _ w'] exI [of _ evs]) (auto simp: shown_def list_all_iff is_show_def)
qed

lemma GridLayoutShow_reaches_every_window_witness:
  "\<exists>w'. GridLayoutShow 3 True sample_world 1 = Some (Inr w') \<and> ShowWindow 8 True \<in> set (event_log w')"
proof -
  have "window_below sample_world 2 8"
    by (rule window_below.own [of _ _ sample_inner "zero_cell\<lparr>c_type := gct_hwnd, c_data := 8\<rparr>"])
      (simp_all add: sample_world_def sample_inner_def cell_in_def)
  then have "window_below sample_world 1 8"
    by (rule window_below.nested [of _ _ sample_outer "zero_cell\<lparr>c_type := gct_grid, c_data := 2\<rparr>", rotated 5])
      (simp_all add: sample_world_def sample_outer_def cell_in_def)
  moreover have "layouts sample_world 1 \<noteq> None" "Suc (sample_rank 1) < 3" by (simp_all add: sample_world_def sample_rank_def)
  ultimately show ?thesis
    using GridLayoutShow_reaches_every_window [OF sample_tree_ok, of 1 3 True] by fastforce
qed

end
