(* ===== verification/Grid_Spliter.thy ===== *)
theory Grid_Spliter
  imports Grid_Tree
begin

text \<open>
  Dragging a splitter bar (\<open>getSpliterInfo\<close>, \<open>drawSpliterBar\<close>, \<open>updateSpliterSize\<close>, \<open>processSpliter\<close> and
  \<open>GridLayoutHookProc\<close> of \<open>mgfc/gridlayout.c\<close>): the state machine in the static variables of
  \<open>processSpliter\<close>, with the messages of the window as its inputs.
\<close>

section \<open>The splitter under a point\<close>

text \<open>
  The loop goes down through nested layouts and may run forever when one contains itself. The function
  \<open>user_to_gridlayout\<close> of a user cell is a parameter, by the function pointer and the user data. The
  result is the layout, the direction and the index, or \<open>None\<close> for \<open>FALSE\<close>.
\<close>

partial_function (option) getSpliterInfo ::
  "(nat \<Rightarrow> nat \<Rightarrow> nat) \<Rightarrow> grid_world \<Rightarrow> nat \<Rightarrow> int \<Rightarrow> int \<Rightarrow> (nat \<times> bool \<times> int) option run" where
  "getSpliterInfo to_grid w p x y =
     (case layouts w p of
        None \<Rightarrow> Some (Inl (if p = 0 then Null_Deref else Use_After_Free))
      | Some gl \<Rightarrow>
          ubind (Some (GetRowColByPos gl x y)) (\<lambda>(inside, row, col).
          if \<not> inside then Some (Inr None)
          else ubind (Some (spliter_at (col_width gl) col)) (\<lambda>on_col.
          if on_col then Some (Inr (Some (p, False, col)))
          else ubind (Some (spliter_at (row_height gl) row)) (\<lambda>on_row.
          if on_row then Some (Inr (Some (p, True, row)))
          else ubind (Some (cell_at gl col row)) (\<lambda>cell.
          if c_data cell \<noteq> 0 \<and> c_type cell = gct_grid then getSpliterInfo to_grid w (c_data cell) x y
          else if c_data cell \<noteq> 0 \<and> c_type cell = gct_user then
            ubind (Some (user_fn inf_user_to_gridlayout w cell)) (\<lambda>call.
            case call of
              None \<Rightarrow> Some (Inr None)
            | Some (f, u) \<Rightarrow>
                if to_grid f u \<noteq> 0 then getSpliterInfo to_grid w (to_grid f u) x y else Some (Inr None))
          else Some (Inr None))))))"

section \<open>The bar\<close>

definition drawSpliterBar :: "grid_layout \<Rightarrow> bool \<Rightarrow> int \<Rightarrow> int \<Rightarrow> grid_event" where
  "drawSpliterBar gl is_horz x y =
     (if is_horz then FillBox (gl_x gl) (y - cdiv SPLITER_SIZE 2) (gl_width gl) SPLITER_SIZE
      else FillBox (x - cdiv SPLITER_SIZE 2) (gl_y gl) SPLITER_SIZE (gl_height gl))"

section \<open>The new sizes\<close>

text \<open>
  The first loop looks for the next unit before the bar that is no bar itself. The condition of the second
  loop reads \<open>units[idxbefore]\<close> in every turn, so it stops at once or runs to the end.
\<close>

fun before_loop :: "layout_unit list \<Rightarrow> nat \<Rightarrow> int res" where
  "before_loop us 0 = Inr (- 1)"
| "before_loop us (Suc i) =
     rbind (aget us (int i)) (\<lambda>u. if u_type u = lutSpliter then before_loop us i else Inr (int i))"

definition after_loop :: "layout_unit list \<Rightarrow> int \<Rightarrow> int \<Rightarrow> int \<Rightarrow> int res" where
  "after_loop us idx idxbefore count =
     (if idx + 1 < count
      then rbind (aget us idxbefore) (\<lambda>u. Inr (if u_type u = lutSpliter then count else idx + 1))
      else Inr (idx + 1))"

text \<open>The size written for a dragged distance: pixels, or percent of the width.\<close>

definition dragged_size :: "layout_unit \<Rightarrow> int \<Rightarrow> int \<Rightarrow> layout_unit" where
  "dragged_size u width dist =
     (if u_type u = lutPixel then u\<lparr>u_logic := s14 (if dist \<le> 0 then 1 else dist)\<rparr>
      else if width > 0 then u\<lparr>u_logic := s14 (if dist \<le> 0 then 1 else cdiv (dist * 100) width)\<rparr>
      else u)"

definition drag_units ::
  "layout_unit list \<Rightarrow> int \<Rightarrow> int \<Rightarrow> int \<Rightarrow> int \<Rightarrow> int \<Rightarrow> layout_unit list res" where
  "drag_units us count width start idx xy =
     rbind (before_loop us (nat idx)) (\<lambda>idxbefore.
     rbind (after_loop us idx idxbefore count) (\<lambda>idxafter.
     rbind (if idxbefore \<ge> 0 then
              rbind (getPosFromUnit us idxbefore count) (\<lambda>p.
              rbind (aget us idxbefore) (\<lambda>u. aset us idxbefore (dragged_size u width (xy - (start + p)))))
            else Inr us) (\<lambda>us1.
     if idxafter < count then
       rbind (getPosFromUnit us1 idxafter count) (\<lambda>p.
       rbind (aget us1 idxafter) (\<lambda>u.
       aset us1 idxafter (dragged_size u width (start + p + u_current u - xy))))
     else Inr us1)))"

definition updateSpliterSize ::
  "nat \<Rightarrow> (nat \<Rightarrow> bool) \<Rightarrow> grid_world \<Rightarrow> nat \<Rightarrow> bool \<Rightarrow> int \<Rightarrow> int \<Rightarrow> int \<Rightarrow> grid_world run" where
  "updateSpliterSize f IsWindow w p is_horz idx x y =
     (case layouts w p of
        None \<Rightarrow> Some (Inl Use_After_Free)
      | Some gl \<Rightarrow>
          (case (if is_horz then row_height gl else col_width gl) of
             None \<Rightarrow> Some (Inl Null_Deref)
           | Some us \<Rightarrow>
               let count = (if is_horz then row_cnt gl else col_cnt gl);
                   width = (if is_horz then gl_height gl else gl_width gl);
                   start = (if is_horz then gl_y gl else gl_x gl);
                   xy = (if is_horz then y else x)
               in ubind (Some (drag_units us count width start idx xy)) (\<lambda>us1.
                  ubind (Some (recalca_units (Some us1) count width)) (\<lambda>us2.
                  let gl' = (if is_horz then gl\<lparr>row_height := us2\<rparr> else gl\<lparr>col_width := us2\<rparr>)
                  in ubind (Some (deal_cell_with_position gl')) (\<lambda>items.
                     run_fold (resize_item (SetGridLayoutRect f IsWindow) IsWindow)
                       (put_layout p gl' w) items)))))"

section \<open>The state machine\<close>

datatype message = MSG_MOUSEMOVE | MSG_LBUTTONDOWN | MSG_LBUTTONUP | MSG_CSIZECHANGED | MSG_OTHER

record spliter_state =
  old_x :: int
  old_y :: int
  is_horz :: bool
  spliter_idx :: int
  has_hdc :: bool
  spliter_layout :: nat

definition spliter_init :: spliter_state where
  "spliter_init = \<lparr>old_x = 0, old_y = 0, is_horz = False, spliter_idx = - 1, has_hdc = False, spliter_layout = 0\<rparr>"

text \<open>The halves of \<open>lParam\<close> as signed 16-bit numbers.\<close>

definition LOSWORD :: "64 word \<Rightarrow> int" where "LOSWORD l = sint (ucast l :: 16 word)"
definition HISWORD :: "64 word \<Rightarrow> int" where "HISWORD l = sint (ucast (drop_bit 16 l) :: 16 word)"

definition drag_cursor :: "bool \<Rightarrow> cursor" where
  "drag_cursor horz = (if horz then SizeNS else SizeWE)"

text \<open>
  The parameters are the fuel and \<open>IsWindow\<close> for the resize at the end, \<open>user_to_gridlayout\<close>, and
  \<open>ScreenToClient\<close>. The first part is the state without a dragged bar.
\<close>

definition spliter_idle ::
  "(nat \<Rightarrow> nat \<Rightarrow> nat) \<Rightarrow> nat \<Rightarrow> nat \<Rightarrow> message \<Rightarrow> int \<Rightarrow> int \<Rightarrow> spliter_state \<Rightarrow> grid_world
     \<Rightarrow> (bool \<times> spliter_state \<times> grid_world) run" where
  "spliter_idle to_grid hwnd p msg x y s w =
     (if msg = MSG_MOUSEMOVE \<or> msg = MSG_LBUTTONDOWN then
        ubind (getSpliterInfo to_grid w p x y) (\<lambda>found.
        case found of
          None \<Rightarrow> Some (Inr (False, s, w))
        | Some (q, horz, idx) \<Rightarrow>
            let s = s\<lparr>is_horz := horz, spliter_idx := idx\<rparr> in
            (case layouts w q of
               None \<Rightarrow> Some (Inl Use_After_Free)
             | Some gl \<Rightarrow>
                 if idx > 0 \<and> \<not> ((horz \<and> row_cnt gl - 1 \<le> idx) \<or> (\<not> horz \<and> col_cnt gl - 1 \<le> idx)) then
                   let w = emit (SetCursor (drag_cursor horz)) w in
                   if msg = MSG_LBUTTONDOWN then
                     Some (Inr (True, s\<lparr>spliter_layout := q, old_x := x, old_y := y, has_hdc := True\<rparr>,
                       emit (SetCapture hwnd) (emit (drawSpliterBar gl horz x y) (emit (GetClientDC hwnd) w))))
                   else Some (Inr (False, s, w))
                 else Some (Inr (False, s, w))))
      else Some (Inr (False, s, w)))"

definition processSpliter ::
  "nat \<Rightarrow> (nat \<Rightarrow> bool) \<Rightarrow> (nat \<Rightarrow> nat \<Rightarrow> nat) \<Rightarrow> (nat \<Rightarrow> int \<Rightarrow> int \<Rightarrow> int \<times> int) \<Rightarrow> nat \<Rightarrow> nat
     \<Rightarrow> message \<Rightarrow> 64 word \<Rightarrow> spliter_state \<Rightarrow> grid_world \<Rightarrow> (bool \<times> spliter_state \<times> grid_world) run" where
  "processSpliter f IsWindow to_grid ScreenToClient hwnd p msg lParam s w =
     (let x = LOSWORD lParam; y = HISWORD lParam in
      if spliter_layout s = 0 then spliter_idle to_grid hwnd p msg x y s w
      else case layouts w (spliter_layout s) of
        None \<Rightarrow> (if msg = MSG_MOUSEMOVE \<or> msg = MSG_LBUTTONUP then Some (Inl Use_After_Free) else Some (Inr (False, s, w)))
      | Some gl \<Rightarrow>
          (if msg = MSG_MOUSEMOVE then
             let w = emit (SetCursor (drag_cursor (is_horz s))) w;
                 (x, y) = ScreenToClient hwnd x y;
                 w = emit (drawSpliterBar gl (is_horz s) (old_x s) (old_y s)) w;
                 w = emit (drawSpliterBar gl (is_horz s) x y) w
             in Some (Inr (True, s\<lparr>old_x := x, old_y := y\<rparr>, w))
           else if msg = MSG_LBUTTONUP then
             let w = emit (drawSpliterBar gl (is_horz s) (old_x s) (old_y s)) w;
                 w = emit ReleaseCapture (emit (SetCursor DefaultCursor) (emit ReleaseDC w));
                 (x, y) = ScreenToClient hwnd x y
             in ubind (updateSpliterSize f IsWindow w (spliter_layout s) (is_horz s) (spliter_idx s) x y) (\<lambda>w.
                Some (Inr (True, s\<lparr>has_hdc := False, spliter_layout := 0\<rparr>, w)))
           else Some (Inr (False, s, w))))"

text \<open>\<open>SetGridLayoutRect(gl, 0, 0, wParam, lParam)\<close> takes the parameters of the message as \<open>int\<close>.\<close>

definition word_int :: "64 word \<Rightarrow> int" where
  "word_int v = sint (ucast v :: 32 word)"

definition GridLayoutHookProc ::
  "nat \<Rightarrow> (nat \<Rightarrow> bool) \<Rightarrow> (nat \<Rightarrow> nat \<Rightarrow> nat) \<Rightarrow> (nat \<Rightarrow> int \<Rightarrow> int \<Rightarrow> int \<times> int) \<Rightarrow> nat \<Rightarrow> nat
     \<Rightarrow> message \<Rightarrow> 64 word \<Rightarrow> 64 word \<Rightarrow> spliter_state \<Rightarrow> grid_world \<Rightarrow> (bool \<times> spliter_state \<times> grid_world) run" where
  "GridLayoutHookProc f IsWindow to_grid ScreenToClient hwnd p msg wParam lParam s w =
     (if p \<noteq> 0 then
        (if msg = MSG_CSIZECHANGED then
           ubind (SetGridLayoutRect f IsWindow w p 0 0 (word_int wParam) (word_int lParam)) (\<lambda>w.
           Some (Inr (False, s, w)))
         else processSpliter f IsWindow to_grid ScreenToClient hwnd p msg lParam s w)
      else Some (Inr (False, s, w)))"

section \<open>What is on the screen\<close>

text \<open>
  The bar is drawn with \<open>ROP_XOR\<close>: drawing the same box a second time takes it away. The boxes seen after a
  log are those drawn an odd number of times.
\<close>

definition is_bar :: "grid_event \<Rightarrow> bool" where
  "is_bar e = (case e of FillBox _ _ _ _ \<Rightarrow> True | _ \<Rightarrow> False)"

definition xor_box :: "grid_event set \<Rightarrow> grid_event \<Rightarrow> grid_event set" where
  "xor_box S e = (if \<not> is_bar e then S else if e \<in> S then S - {e} else insert e S)"

definition xor_screen :: "grid_event list \<Rightarrow> grid_event set" where
  "xor_screen es = foldl xor_box {} es"

lemma xor_screen_append [simp]: "xor_screen (es @ fs) = foldl xor_box (xor_screen es) fs"
  by (simp add: xor_screen_def)

lemma xor_screen_Nil [simp]: "xor_screen [] = {}"
  by (simp add: xor_screen_def)

lemma is_bar_draw [simp]: "is_bar (drawSpliterBar gl h x y)"
  by (simp add: is_bar_def drawSpliterBar_def)

lemma is_bar_simps [simp]:
  "\<not> is_bar (MoveWindow a b c d e)" "\<not> is_bar (CallSetRect a u b c d e)" "\<not> is_bar (SetCursor cu)"
  "\<not> is_bar (GetClientDC a)" "\<not> is_bar ReleaseDC" "\<not> is_bar (SetCapture a)" "\<not> is_bar ReleaseCapture"
  by (simp_all add: is_bar_def)

lemma xor_box_other [simp]: "\<not> is_bar e \<Longrightarrow> xor_box S e = S"
  by (simp add: xor_box_def)

text \<open>Resizing draws no bar.\<close>

definition same_screen :: "grid_world \<Rightarrow> grid_world \<Rightarrow> bool" where
  "same_screen w w' \<longleftrightarrow> xor_screen (event_log w') = xor_screen (event_log w)"

lemma same_screen_simps [simp]:
  "same_screen w w" "\<not> is_bar e \<Longrightarrow> same_screen w (emit e w') = same_screen w w'"
  "same_screen w (put_layout p gl w') = same_screen w w'" "same_screen (put_layout p gl w) w' = same_screen w w'"
  by (simp_all add: same_screen_def)

lemma same_screen_trans: "same_screen w w1 \<Longrightarrow> same_screen w1 w2 \<Longrightarrow> same_screen w w2"
  by (simp add: same_screen_def)

lemma resize_cell_screen:
  assumes "\<And>w p x y a b w'. set_rect w p x y a b = Some (Inr w') \<Longrightarrow> same_screen w w'"
    and "grid_layout_resize set_rect W w cell rc = Some (Inr w')"
  shows "same_screen w w'"
  using assms
  by (auto simp: grid_layout_resize_def grid_cell_set_rect_def rbind_eq_Inr split: if_splits option.splits)

lemma resize_cells_screen:
  assumes "\<And>w p x y a b w'. set_rect w p x y a b = Some (Inr w') \<Longrightarrow> same_screen w w'"
    and "run_fold (resize_item set_rect W) w items = Some (Inr w')"
  shows "same_screen w w'"
proof (rule run_fold_keeps [OF _ _ assms(2)])
  show "same_screen w w" by simp
  fix w1 a w2
  assume "same_screen w w1" "resize_item set_rect W w1 a = Some (Inr w2)"
  then show "same_screen w w2"
    using resize_cell_screen [OF assms(1)] same_screen_trans by (auto simp: resize_item_def)
qed

lemma SetGridLayoutRect_screen:
  "SetGridLayoutRect f W w p x y a b = Some (Inr w') \<Longrightarrow> same_screen w w'"
proof (induction f arbitrary: w p x y a b w')
  case (Suc f)
  have cells: "run_fold (resize_item (SetGridLayoutRect f W) W) w1 items = Some (Inr w2) \<Longrightarrow> same_screen w1 w2"
    for w1 items w2 by (rule resize_cells_screen [OF Suc.IH])
  from Suc.prems show ?case by (auto simp: ubind_eq_Inr split: if_splits option.splits dest!: cells)
qed simp

lemma updateSpliterSize_screen:
  assumes "updateSpliterSize f W w p h idx x y = Some (Inr w')"
  shows "same_screen w w'"
proof -
  have cells: "run_fold (resize_item (SetGridLayoutRect f W) W) w1 items = Some (Inr w2) \<Longrightarrow> same_screen w1 w2"
    for w1 items w2 by (rule resize_cells_screen [OF SetGridLayoutRect_screen])
  from assms show ?thesis
    unfolding updateSpliterSize_def Let_def
    by (auto simp: ubind_eq_Inr split: option.splits simp del: if_split dest!: cells)
qed

section \<open>The splitter that is found\<close>

lemma getSpliterInfo_found:
  assumes "getSpliterInfo to_grid w p x y = Some (Inr (Some (q, h, idx)))" "p \<noteq> 0"
  shows "q \<noteq> 0 \<and> layouts w q \<noteq> None"
proof -
  define P :: "(nat \<Rightarrow> nat \<Rightarrow> nat) \<Rightarrow> grid_world \<Rightarrow> nat \<Rightarrow> int \<Rightarrow> int \<Rightarrow> (nat \<times> bool \<times> int) option res \<Rightarrow> bool" where
    "P = (\<lambda>_ w p _ _ r. r = Inr (Some (q, h, idx)) \<longrightarrow> p \<noteq> 0 \<longrightarrow> q \<noteq> 0 \<and> layouts w q \<noteq> None)"
  have "P to_grid w p x y (Inr (Some (q, h, idx)))"
  proof (rule getSpliterInfo.raw_induct [where P = P and xa = "((((to_grid, w), p), x), y)", unfolded prod.case])
    show "getSpliterInfo to_grid w p x y = Some (Inr (Some (q, h, idx)))" by (rule assms(1))
  next
    fix rec tg w p x y r
    assume IH: "\<And>tg w p x y r. rec tg w p x y = Some r \<Longrightarrow> P tg w p x y r"
    have rec: "rec tg w p' x y = Some (Inr (Some (q, h, idx))) \<Longrightarrow> p' \<noteq> 0 \<Longrightarrow> q \<noteq> 0 \<and> layouts w q \<noteq> None" for p'
      using IH unfolding P_def by blast
    assume body: "(case layouts w p of
        None \<Rightarrow> Some (Inl (if p = 0 then Null_Deref else Use_After_Free))
      | Some gl \<Rightarrow>
          ubind (Some (GetRowColByPos gl x y)) (\<lambda>(inside, row, col).
          if \<not> inside then Some (Inr None)
          else ubind (Some (spliter_at (col_width gl) col)) (\<lambda>on_col.
          if on_col then Some (Inr (Some (p, False, col)))
          else ubind (Some (spliter_at (row_height gl) row)) (\<lambda>on_row.
          if on_row then Some (Inr (Some (p, True, row)))
          else ubind (Some (cell_at gl col row)) (\<lambda>cell.
          if c_data cell \<noteq> 0 \<and> c_type cell = gct_grid then rec tg w (c_data cell) x y
          else if c_data cell \<noteq> 0 \<and> c_type cell = gct_user then
            ubind (Some (user_fn inf_user_to_gridlayout w cell)) (\<lambda>call.
            case call of
              None \<Rightarrow> Some (Inr None)
            | Some (f, u) \<Rightarrow> if tg f u \<noteq> 0 then rec tg w (tg f u) x y else Some (Inr None))
          else Some (Inr None)))))) = Some r"
    show "P tg w p x y r"
      unfolding P_def
    proof (intro impI)
      assume r: "r = Inr (Some (q, h, idx))" "p \<noteq> 0"
      show "q \<noteq> 0 \<and> layouts w q \<noteq> None"
      proof -
        obtain gl where gl: "layouts w p = Some gl" using body r by (cases "layouts w p") auto
        obtain inside row col where g: "GetRowColByPos gl x y = Inr (inside, row, col)"
          using body gl by (cases "GetRowColByPos gl x y") (auto simp: r(1))
        have inside using body gl g r(1) by (cases inside) simp_all
        then obtain oc where oc: "spliter_at (col_width gl) col = Inr oc"
          using body gl g r(1) by (cases "spliter_at (col_width gl) col") simp_all
        show ?thesis
        proof (cases oc)
          case True
          then show ?thesis using body gl g \<open>inside\<close> oc r by simp
        next
          case oc': False
          obtain orow where orow: "spliter_at (row_height gl) row = Inr orow"
            using body gl g \<open>inside\<close> oc oc' r(1) by (cases "spliter_at (row_height gl) row") simp_all
          show ?thesis
          proof (cases orow)
            case True
            then show ?thesis using body gl g \<open>inside\<close> oc oc' orow r by simp
          next
            case orow': False
            note known = gl g \<open>inside\<close> oc oc' orow orow' r(1)
            obtain cell where cell: "cell_at gl col row = Inr cell"
              using body known by (cases "cell_at gl col row") simp_all
            show ?thesis
            proof (cases "c_data cell \<noteq> 0 \<and> c_type cell = gct_grid")
              case True
              then show ?thesis using body known cell True rec [of "c_data cell"] by simp
            next
              case no_grid: False
              then have user: "c_data cell \<noteq> 0 \<and> c_type cell = gct_user"
                using body known cell by (auto split: if_split_asm)
              obtain call where call: "user_fn inf_user_to_gridlayout w cell = Inr call"
                using body known cell no_grid user by (cases "user_fn inf_user_to_gridlayout w cell") simp_all
              obtain f u where fu: "call = Some (f, u)"
                using body known cell no_grid user call by (cases call) auto
              have "tg f u \<noteq> 0" using body known cell no_grid user call fu by (cases "tg f u = 0") simp_all
              then show ?thesis using body known cell no_grid user call fu rec [of "tg f u"] by simp
            qed
          qed
        qed
      qed
    qed
  qed
  then show ?thesis using assms(2) by (simp add: P_def)
qed

section \<open>Reachable states\<close>

text \<open>
  The states after any messages to any windows with any layouts, as long as no window is resized by a
  message while a bar is dragged. The static variables are shared by all windows.
\<close>

inductive hook_reached ::
  "nat \<Rightarrow> (nat \<Rightarrow> bool) \<Rightarrow> (nat \<Rightarrow> nat \<Rightarrow> nat) \<Rightarrow> (nat \<Rightarrow> int \<Rightarrow> int \<Rightarrow> int \<times> int) \<Rightarrow> spliter_state \<Rightarrow> grid_world \<Rightarrow> bool"
  for f W to_grid s2c
where
  start: "event_log w = [] \<Longrightarrow> hook_reached f W to_grid s2c spliter_init w"
| message: "hook_reached f W to_grid s2c s w \<Longrightarrow>
    GridLayoutHookProc f W to_grid s2c hwnd p msg wParam lParam s w = Some (Inr (r, s', w')) \<Longrightarrow>
    msg \<noteq> MSG_CSIZECHANGED \<or> spliter_layout s = 0 \<Longrightarrow> hook_reached f W to_grid s2c s' w'"

text \<open>The bar a state stands for: the one at the last position of the mouse, while it is dragged.\<close>

definition bar_of :: "spliter_state \<Rightarrow> grid_world \<Rightarrow> grid_event set" where
  "bar_of s w = (if spliter_layout s = 0 then {}
     else (case layouts w (spliter_layout s) of
             None \<Rightarrow> {} | Some gl \<Rightarrow> {drawSpliterBar gl (is_horz s) (old_x s) (old_y s)}))"

definition drag_inv :: "spliter_state \<Rightarrow> grid_world \<Rightarrow> bool" where
  "drag_inv s w \<longleftrightarrow> xor_screen (event_log w) = bar_of s w \<and> (has_hdc s \<longleftrightarrow> spliter_layout s \<noteq> 0)
     \<and> (spliter_layout s \<noteq> 0 \<longrightarrow> layouts w (spliter_layout s) \<noteq> None)"

lemma idle_keeps:
  assumes "drag_inv s w" "spliter_layout s = 0" "p \<noteq> 0"
    and "spliter_idle to_grid hwnd p msg x y s w = Some (Inr (r, s', w'))"
  shows "drag_inv s' w'"
proof -
  have idle: "xor_screen (event_log w) = {}" "\<not> has_hdc s" using assms(1,2) by (simp_all add: drag_inv_def bar_of_def)
  have unchanged: "drag_inv (s\<lparr>is_horz := h, spliter_idx := i\<rparr>) w1" if "xor_screen (event_log w1) = {}" for h i w1
    using that idle assms(2) by (simp add: drag_inv_def bar_of_def)
  consider "s' = s" "w' = w"
    | h i where "s' = s\<lparr>is_horz := h, spliter_idx := i\<rparr>" "xor_screen (event_log w') = {}"
    | q h i gl where "getSpliterInfo to_grid w p x y = Some (Inr (Some (q, h, i)))" "layouts w q = Some gl"
      "s' = s\<lparr>is_horz := h, spliter_idx := i, spliter_layout := q, old_x := x, old_y := y, has_hdc := True\<rparr>"
      "w' = emit (SetCapture hwnd) (emit (drawSpliterBar gl h x y) (emit (GetClientDC hwnd) (emit (SetCursor (drag_cursor h)) w)))"
  proof (cases "msg = MSG_MOUSEMOVE \<or> msg = MSG_LBUTTONDOWN")
    case True
    then obtain found where found: "getSpliterInfo to_grid w p x y = Some (Inr found)"
      using assms(4) by (auto simp: spliter_idle_def ubind_eq_Inr)
    show ?thesis
    proof (cases found)
      case None
      then show ?thesis using True found assms(4) that(1) by (simp add: spliter_idle_def)
    next
      case (Some t)
      obtain q h i where t: "t = (q, h, i)" by (cases t)
      obtain gl where gl: "layouts w q = Some gl"
        using True found assms(4) Some t by (auto simp: spliter_idle_def Let_def split: option.split_asm)
      note known = True found assms(4) Some t gl
      show ?thesis
      proof (cases "i > 0 \<and> \<not> ((h \<and> row_cnt gl - 1 \<le> i) \<or> (\<not> h \<and> col_cnt gl - 1 \<le> i))")
        case valid: True
        show ?thesis
        proof (cases "msg = MSG_LBUTTONDOWN")
          case True
          with known valid show ?thesis by (intro that(3)) (auto simp: spliter_idle_def)
        next
          case False
          with known valid idle show ?thesis by (intro that(2)) (auto simp: spliter_idle_def)
        qed
      next
        case False
        with known idle show ?thesis by (intro that(2)) (auto simp: spliter_idle_def Let_def)
      qed
    qed
  next
    case False
    then show ?thesis using assms(4) that(1) by (simp add: spliter_idle_def)
  qed
  then show ?thesis
  proof cases
    case 1
    then show ?thesis using assms(1) by simp
  next
    case 2
    then show ?thesis using unchanged by simp
  next
    case 3
    then have "q \<noteq> 0" using getSpliterInfo_found [OF 3(1) assms(3)] by simp
    then show ?thesis using 3 idle by (simp add: drag_inv_def bar_of_def xor_box_def)
  qed
qed

lemma hook_keeps:
  assumes inv: "drag_inv s w" and msg: "msg \<noteq> MSG_CSIZECHANGED \<or> spliter_layout s = 0"
    and hook: "GridLayoutHookProc f W to_grid s2c hwnd p msg wParam lParam s w = Some (Inr (r, s', w'))"
  shows "drag_inv s' w'"
proof (cases "p = 0")
  case True
  then show ?thesis using inv hook by (simp add: GridLayoutHookProc_def)
next
  case p: False
  show ?thesis
  proof (cases "msg = MSG_CSIZECHANGED")
    case True
    then have "spliter_layout s = 0" using msg by simp
    moreover from True p hook have "s' = s" "same_screen w w'"
      by (auto simp: GridLayoutHookProc_def ubind_eq_Inr dest: SetGridLayoutRect_screen)
    ultimately show ?thesis using inv by (simp add: drag_inv_def bar_of_def same_screen_def)
  next
    case False
    define x where "x = LOSWORD lParam"
    define y where "y = HISWORD lParam"
    have ps: "processSpliter f W to_grid s2c hwnd p msg lParam s w = Some (Inr (r, s', w'))"
      using hook p False by (simp add: GridLayoutHookProc_def)
    show ?thesis
    proof (cases "spliter_layout s = 0")
      case True
      then show ?thesis
        using ps idle_keeps [OF inv True p] by (simp add: processSpliter_def Let_def)
    next
      case drag: False
      then obtain gl where gl: "layouts w (spliter_layout s) = Some gl" using inv by (auto simp: drag_inv_def)
      have scr: "xor_screen (event_log w) = {drawSpliterBar gl (is_horz s) (old_x s) (old_y s)}" "has_hdc s"
        using inv drag gl by (simp_all add: drag_inv_def bar_of_def)
      consider "msg = MSG_MOUSEMOVE" | "msg = MSG_LBUTTONUP" | "msg \<noteq> MSG_MOUSEMOVE" "msg \<noteq> MSG_LBUTTONUP" by blast
      then show ?thesis
      proof cases
        case 1
        obtain nx ny where n: "s2c hwnd x y = (nx, ny)" by force
        have "s' = s\<lparr>old_x := nx, old_y := ny\<rparr>"
            "w' = emit (drawSpliterBar gl (is_horz s) nx ny) (emit (drawSpliterBar gl (is_horz s) (old_x s) (old_y s))
                    (emit (SetCursor (drag_cursor (is_horz s))) w))"
          using ps drag gl 1 n by (simp_all add: processSpliter_def Let_def x_def y_def)
        then show ?thesis using scr drag gl by (simp add: drag_inv_def bar_of_def xor_box_def)
      next
        case 2
        let ?w = "emit ReleaseCapture (emit (SetCursor DefaultCursor) (emit ReleaseDC
            (emit (drawSpliterBar gl (is_horz s) (old_x s) (old_y s)) w)))"
        obtain nx ny where n: "s2c hwnd x y = (nx, ny)" by force
        have up: "updateSpliterSize f W ?w (spliter_layout s) (is_horz s) (spliter_idx s) nx ny = Some (Inr w')"
            "s' = s\<lparr>has_hdc := False, spliter_layout := 0\<rparr>"
          using ps drag gl 2 n by (auto simp: processSpliter_def Let_def x_def y_def ubind_eq_Inr)
        have "xor_screen (event_log ?w) = {}" using scr by (simp add: xor_box_def)
        then have "xor_screen (event_log w') = {}"
          using updateSpliterSize_screen [OF up(1)] by (simp only: same_screen_def)
        then show ?thesis using up(2) by (simp add: drag_inv_def bar_of_def)
      next
        case 3
        then show ?thesis using ps drag gl inv by (simp add: processSpliter_def Let_def)
      qed
    qed
  qed
qed

lemma hook_reached_inv: "hook_reached f W to_grid s2c s w \<Longrightarrow> drag_inv s w"
proof (induction rule: hook_reached.induct)
  case (start w)
  then show ?case by (simp add: drag_inv_def bar_of_def spliter_init_def)
next
  case (message s w hwnd p msg wParam lParam r s' w')
  then show ?case using hook_keeps by blast
qed

text \<open>
  C22: Whatever messages reach the hooks of whatever windows, as long as no resize message comes
  during a drag, the XOR-drawn bars on screen are exactly the one being dragged at its last
  position, and none when no drag is on; a device context is held exactly during a drag.
\<close>

theorem splitter_bar_drawn_and_erased:
  assumes "hook_reached f W to_grid s2c s w"
  shows "(if spliter_layout s = 0 then xor_screen (event_log w) = {} \<and> \<not> has_hdc s
     else has_hdc s \<and> (\<exists>gl. layouts w (spliter_layout s) = Some gl
            \<and> xor_screen (event_log w) = {drawSpliterBar gl (is_horz s) (old_x s) (old_y s)}))"
  using hook_reached_inv [OF assms] by (auto simp: drag_inv_def bar_of_def)

text \<open>The left button goes down on the bar of a layout of three columns.\<close>

definition drag_layout :: grid_layout where
  "drag_layout = sample_outer\<lparr>gl_width := 100, gl_height := 40,
     col_width := Some [\<lparr>u_type = 0, u_logic = 30, u_current = 30\<rparr>, \<lparr>u_type = 2, u_logic = 0, u_current = 4\<rparr>,
                        \<lparr>u_type = 0, u_logic = 50, u_current = 50\<rparr>]\<rparr>"

definition drag_world :: grid_world where
  "drag_world = \<lparr>layouts = [1 \<mapsto> drag_layout, 2 \<mapsto> sample_inner], users = Map.empty, event_log = []\<rparr>"

lemma splitter_bar_drawn_and_erased_witness:
  "\<exists>s w. hook_reached 2 (\<lambda>_. True) (\<lambda>_ _. 0) (\<lambda>_ x y. (x, y)) s w \<and> spliter_layout s = 1
     \<and> xor_screen (event_log w) = {FillBox 30 0 4 40}"
proof -
  have start: "hook_reached 2 (\<lambda>_. True) (\<lambda>_ _. 0) (\<lambda>_ x y. (x, y)) spliter_init drag_world"
    by (rule hook_reached.start) (simp add: drag_world_def)
  have xy: "LOSWORD 655392 = 32" "HISWORD 655392 = 10" by (simp_all add: LOSWORD_def HISWORD_def)
  have info: "getSpliterInfo (\<lambda>_ _. 0) drag_world 1 32 10 = Some (Inr (Some (1, False, 1)))"
    by (subst getSpliterInfo.simps)
      (simp add: drag_world_def drag_layout_def sample_outer_def GetRowColByPos_def axis_idx_def get_idx_by_pos_def
        cdiv_checked_def cdiv_def spliter_at_def aget_def lut_defs)
  let ?s = "spliter_init\<lparr>is_horz := False, spliter_idx := 1, spliter_layout := 1, old_x := 32, old_y := 10, has_hdc := True\<rparr>"
  let ?w = "emit (SetCapture 9) (emit (drawSpliterBar drag_layout False 32 10) (emit (GetClientDC 9)
      (emit (SetCursor (drag_cursor False)) drag_world)))"
  have "GridLayoutHookProc 2 (\<lambda>_. True) (\<lambda>_ _. 0) (\<lambda>_ x y. (x, y)) 9 1 MSG_LBUTTONDOWN 0 655392 spliter_init drag_world
      = Some (Inr (True, ?s, ?w))"
    using info by (simp add: GridLayoutHookProc_def processSpliter_def spliter_idle_def xy spliter_init_def drag_world_def
        drag_layout_def sample_outer_def Let_def)
  then have r: "hook_reached 2 (\<lambda>_. True) (\<lambda>_ _. 0) (\<lambda>_ x y. (x, y)) ?s ?w"
    by (rule hook_reached.message [OF start]) simp
  have "layouts ?w 1 = Some drag_layout" by (simp add: drag_world_def)
  then have "xor_screen (event_log ?w) = {FillBox 30 0 4 40}"
    using splitter_bar_drawn_and_erased [OF r]
    by (simp add: drawSpliterBar_def drag_layout_def sample_outer_def lut_defs cdiv_def)
  with r show ?thesis by (intro exI [of _ ?s] exI [of _ ?w]) simp
qed

section \<open>The sizes after a drag\<close>

text \<open>
  Dragging a bar between two pixel-sized units sets the unit before it to the distance from its
  start and the one after it to the distance to its end; together they get the width of the bar as
  well, so each drag makes the units wider by the bar than the room they had.
\<close>

theorem drag_sets_neighbour_sizes:
  assumes "Suc (Suc j) < length us" "u_type (us ! j) = lutPixel" "u_type (us ! Suc (Suc j)) = lutPixel"
    and "start + unit_pos us j < xy" "xy < start + unit_pos us (j + 3)"
    and "unit_pos us (j + 3) - unit_pos us j < 8192"
  shows "\<exists>us'. drag_units us (int (length us)) width start (int (Suc j)) xy = Inr us'
     \<and> u_logic (us' ! j) = xy - (start + unit_pos us j)
     \<and> u_logic (us' ! Suc (Suc j)) = start + unit_pos us (j + 3) - xy
     \<and> u_logic (us' ! j) + u_logic (us' ! Suc (Suc j)) = u_current (us ! j) + u_current (us ! Suc j) + u_current (us ! Suc (Suc j))
     \<and> (\<forall>k. k \<noteq> j \<and> k \<noteq> Suc (Suc j) \<longrightarrow> us' ! k = us ! k)"
proof -
  let ?u = "us ! j" and ?v = "us ! Suc (Suc j)"
  let ?p = "unit_pos us j" and ?q = "unit_pos us (Suc (Suc j))"
  have pos: "unit_pos us (j + 3) = ?q + u_current ?v" "?q = ?p + u_current ?u + u_current (us ! Suc j)"
    using assms(1) unit_pos_Suc [of j us] unit_pos_Suc [of "Suc j" us] unit_pos_Suc [of "Suc (Suc j)" us]
    by (simp_all add: eval_nat_numeral)
  have before: "before_loop us (nat (int (Suc j))) = Inr (int j)"
    using assms(1,2) by (simp add: nat_add_distrib lut_defs)
  have after: "after_loop us (int (Suc j)) (int j) (int (length us)) = Inr (int (Suc (Suc j)))"
    using assms(1,2) by (simp add: after_loop_def lut_defs)
  define us1 where "us1 = us[j := ?u\<lparr>u_logic := xy - (start + ?p)\<rparr>]"
  define us' where "us' = us1[Suc (Suc j) := ?v\<lparr>u_logic := start + unit_pos us (j + 3) - xy\<rparr>]"
  have d1: "dragged_size ?u width (xy - (start + ?p)) = ?u\<lparr>u_logic := xy - (start + ?p)\<rparr>"
    using assms(2,4-6) by (simp add: dragged_size_def)
  have d2: "dragged_size ?v width (start + ?q + u_current ?v - xy) = ?v\<lparr>u_logic := start + unit_pos us (j + 3) - xy\<rparr>"
    using assms(3-6) pos(1) by (simp add: dragged_size_def algebra_simps)
  have "map u_current us1 = map u_current us"
    using assms(1) by (simp add: us1_def map_update list_update_same_conv)
  then have p1: "unit_pos us1 k = unit_pos us k" for k by (simp add: unit_pos_def total_size_def take_map [symmetric])
  have len: "length us1 = length us" "us1 ! Suc (Suc j) = ?v" by (simp_all add: us1_def)
  have get1: "getPosFromUnit us (int j) (int (length us)) = Inr ?p"
    using assms(1) by (intro getPosFromUnit_eq) simp
  have get2: "getPosFromUnit us1 (int (Suc (Suc j))) (int (length us)) = Inr ?q"
    using getPosFromUnit_eq [of "Suc (Suc j)" us1 "int (length us)"] assms(1) len p1 by simp
  have j: "j < length us" using assms(1) by simp
  have "drag_units us (int (length us)) width start (int (Suc j)) xy = Inr us'"
    unfolding drag_units_def before after rbind_simps get1 aget_nat [OF j] d1 aset_nat [OF j]
    using assms(1) len get2 d2
    by (simp add: us1_def [symmetric] us'_def del: of_nat_Suc)
  moreover have "u_logic (us' ! j) = xy - (start + ?p)" "u_logic (us' ! Suc (Suc j)) = start + unit_pos us (j + 3) - xy"
    using assms(1) by (simp_all add: us'_def us1_def)
  moreover have "us' ! k = us ! k" if "k \<noteq> j" "k \<noteq> Suc (Suc j)" for k
    using that by (simp add: us'_def us1_def)
  ultimately show ?thesis using pos by (intro exI [of _ us']) simp
qed

lemma drag_sets_neighbour_sizes_witness:
  "\<exists>us'. drag_units [\<lparr>u_type = 0, u_logic = 30, u_current = 30\<rparr>, \<lparr>u_type = 2, u_logic = 0, u_current = 4\<rparr>,
                    \<lparr>u_type = 0, u_logic = 50, u_current = 50\<rparr>] 3 84 0 1 40 = Inr us'
     \<and> u_logic (us' ! 0) = 40 \<and> u_logic (us' ! 2) = 44"
  using drag_sets_neighbour_sizes [of 0 "[\<lparr>u_type = 0, u_logic = 30, u_current = 30\<rparr>,
      \<lparr>u_type = 2, u_logic = 0, u_current = 4\<rparr>, \<lparr>u_type = 0, u_logic = 50, u_current = 50\<rparr>]" 0 40 84]
  by (auto simp: lut_defs unit_pos_def eval_nat_numeral)

lemma before_loop_none:
  "i \<le> length us \<Longrightarrow> \<forall>k < i. u_type (us ! k) = lutSpliter \<Longrightarrow> before_loop us i = Inr (- 1)"
  by (induction i) simp_all

text \<open>
  Dragging a bar with nothing but bars before it reads units[-1], because the second search loop
  tests the index of the first.
\<close>

theorem drag_without_unit_before:
  assumes "j + 1 < length us" "\<forall>k < j. u_type (us ! k) = lutSpliter"
  shows "drag_units us (int (length us)) width start (int j) xy = Inl Out_Of_Bounds"
  using assms before_loop_none [of j us] by (simp add: drag_units_def after_loop_def aget_def)

lemma drag_without_unit_before_witness:
  "drag_units [\<lparr>u_type = 2, u_logic = 0, u_current = 4\<rparr>, \<lparr>u_type = 2, u_logic = 0, u_current = 4\<rparr>,
               \<lparr>u_type = 0, u_logic = 0, u_current = 92\<rparr>] 3 100 0 1 50 = Inl Out_Of_Bounds"
  using drag_without_unit_before [of 1 "[\<lparr>u_type = 2, u_logic = 0, u_current = 4\<rparr>,
      \<lparr>u_type = 2, u_logic = 0, u_current = 4\<rparr>, \<lparr>u_type = 0, u_logic = 0, u_current = 92\<rparr>]" 100 0 50]
  by (simp add: lut_defs)

end
