(* ===== verification/Fixed_Layout.thy ===== *)
theory Fixed_Layout
  imports Grid_Tree
begin

text \<open>
  The fixed layout of \<open>mgfc/fixedlayout.c\<close>: a chain of cells, each with its own position and size in pixels
  or percent of the layout, counted from the far side when negative. The cells lie in a store by address;
  \<open>malloc\<close> is a parameter that gives an address for a store. The nested grid layouts, the windows and the
  callbacks are those of the grid layout.
\<close>

section \<open>Data\<close>

record fixed_rect =
  fr_x :: layout_unit
  fr_y :: layout_unit
  fr_w :: layout_unit
  fr_h :: layout_unit

record fixed_cell =
  fc_rect :: fixed_rect
  fc_type :: int
  fc_data :: nat
  fc_next :: nat

type_synonym fixed_store = "nat \<Rightarrow> fixed_cell option"

record fixed_layout =
  fl_head :: nat
  fl_x :: int
  fl_y :: int
  fl_w :: int
  fl_h :: int

section \<open>Positions\<close>

text \<open>\<open>_fixed_layout_calca\<close>: the result goes into the unsigned 16-bit \<open>current_size\<close>.\<close>

definition fixed_layout_calca :: "int \<Rightarrow> int \<Rightarrow> layout_unit \<Rightarrow> layout_unit" where
  "fixed_layout_calca begin_pos end_pos u =
     (if u_type u = lutPixel then
        (if u_logic u \<ge> 0 then u\<lparr>u_current := u16 (begin_pos + u_logic u)\<rparr>
         else u\<lparr>u_current := u16 (end_pos + u_logic u)\<rparr>)
      else if u_type u = lutPercent then
        (if u_logic u \<ge> 0 then u\<lparr>u_current := u16 (cdiv ((end_pos - begin_pos) * u_logic u) 100 + begin_pos)\<rparr>
         else u\<lparr>u_current := u16 (cdiv ((end_pos - begin_pos) * u_logic u) 100 + end_pos)\<rparr>)
      else u)"

definition fixed_layout_calcsize :: "rect \<Rightarrow> fixed_cell \<Rightarrow> fixed_cell" where
  "fixed_layout_calcsize rt cell =
     (let r = fc_rect cell in
      cell\<lparr>fc_rect :=
        \<lparr>fr_x = fixed_layout_calca (r_left rt) (r_right rt) (fr_x r),
         fr_y = fixed_layout_calca (r_top rt) (r_bottom rt) (fr_y r),
         fr_w = fixed_layout_calca 0 (r_right rt - r_left rt) (fr_w r),
         fr_h = fixed_layout_calca 0 (r_bottom rt - r_top rt) (fr_h r)\<rparr>\<rparr>)"

section \<open>Placing the cells\<close>

text \<open>A cell of this layout as the cell of a grid layout, for the callbacks of user cells.\<close>

definition as_grid_cell :: "fixed_cell \<Rightarrow> grid_cell" where
  "as_grid_cell cell = \<lparr>c_type = fc_type cell, c_revert = 0, c_flag = 0, c_data = fc_data cell\<rparr>"

definition fixed_layout_move_cell ::
  "nat \<Rightarrow> (nat \<Rightarrow> bool) \<Rightarrow> fixed_cell \<Rightarrow> grid_world \<Rightarrow> grid_world run" where
  "fixed_layout_move_cell f IsWindow cell w =
     (let r = fc_rect cell;
          x = u_current (fr_x r); y = u_current (fr_y r); wd = u_current (fr_w r); ht = u_current (fr_h r) in
      if fc_type cell = gct_hwnd then Some (Inr (emit (MoveWindow (fc_data cell) x y wd ht) w))
      else if fc_type cell = gct_grid then SetGridLayoutRect f IsWindow w (fc_data cell) x y wd ht
      else if fc_type cell = gct_user then Some (grid_cell_set_rect w (as_grid_cell cell) x y wd ht)
      else Some (Inr w))"

text \<open>The loop over the chain: it may run forever when the chain has a cycle.\<close>

partial_function (option) place_cells ::
  "nat \<Rightarrow> (nat \<Rightarrow> bool) \<Rightarrow> rect \<Rightarrow> nat \<Rightarrow> fixed_store \<Rightarrow> grid_world \<Rightarrow> (fixed_store \<times> grid_world) run" where
  "place_cells f IsWindow rt p st w =
     (if p = 0 then Some (Inr (st, w))
      else case st p of
        None \<Rightarrow> Some (Inl Use_After_Free)
      | Some cell \<Rightarrow>
          (let cell' = fixed_layout_calcsize rt cell in
           ubind (fixed_layout_move_cell f IsWindow cell' w) (\<lambda>w'.
           place_cells f IsWindow rt (fc_next cell') (st(p \<mapsto> cell')) w')))"

definition fixedlayout_setRect ::
  "nat \<Rightarrow> (nat \<Rightarrow> bool) \<Rightarrow> fixed_layout \<Rightarrow> int \<Rightarrow> int \<Rightarrow> int \<Rightarrow> int \<Rightarrow> fixed_store \<Rightarrow> grid_world
     \<Rightarrow> (fixed_layout \<times> fixed_store \<times> grid_world) run" where
  "fixedlayout_setRect f IsWindow pfl x y width height st w =
     (let rt = \<lparr>r_left = x, r_top = y, r_right = x + width, r_bottom = y + height\<rparr> in
      ubind (place_cells f IsWindow rt (fl_head pfl) st w) (\<lambda>(st', w').
      Some (Inr (pfl\<lparr>fl_x := x, fl_y := y, fl_w := width, fl_h := height\<rparr>, st', w'))))"

section \<open>Showing the cells\<close>

definition fixed_show_cell :: "nat \<Rightarrow> bool \<Rightarrow> fixed_cell \<Rightarrow> grid_world \<Rightarrow> grid_world run" where
  "fixed_show_cell f sh cell w =
     (if fc_type cell = gct_hwnd then Some (Inr (emit (ShowWindow (fc_data cell) sh) w))
      else if fc_type cell = gct_grid then GridLayoutShow f sh w (fc_data cell)
      else if fc_type cell = gct_user then Some (grid_cell_show w (as_grid_cell cell) sh)
      else Some (Inr w))"

text \<open>The loop of \<open>_fixedlayout_show\<close> does not move \<open>pcell\<close> on.\<close>

partial_function (option) show_loop ::
  "nat \<Rightarrow> bool \<Rightarrow> nat \<Rightarrow> fixed_store \<Rightarrow> grid_world \<Rightarrow> grid_world run" where
  "show_loop f sh p st w =
     (if p = 0 then Some (Inr w)
      else case st p of
        None \<Rightarrow> Some (Inl Use_After_Free)
      | Some cell \<Rightarrow> ubind (fixed_show_cell f sh cell w) (\<lambda>w'. show_loop f sh p st w'))"

definition fixedlayout_show ::
  "nat \<Rightarrow> bool \<Rightarrow> fixed_layout option \<Rightarrow> fixed_store \<Rightarrow> grid_world \<Rightarrow> grid_world run" where
  "fixedlayout_show f sh pfl st w =
     (case pfl of None \<Rightarrow> Some (Inr w) | Some fl \<Rightarrow> show_loop f sh (fl_head fl) st w)"

section \<open>Construction and release\<close>

definition FixedLayoutInit :: "fixed_layout option \<Rightarrow> bool \<times> fixed_layout option" where
  "FixedLayoutInit pfl =
     (case pfl of
        None \<Rightarrow> (False, None)
      | Some fl \<Rightarrow> (True, Some (fl\<lparr>fl_head := 0, fl_x := 0, fl_y := 0, fl_w := 0, fl_h := 0\<rparr>)))"

definition FixedLayoutInsert ::
  "(fixed_store \<Rightarrow> nat) \<Rightarrow> fixed_layout option \<Rightarrow> int \<Rightarrow> fixed_rect option \<Rightarrow> nat \<Rightarrow> fixed_store
     \<Rightarrow> (bool \<times> fixed_layout option \<times> fixed_store) res" where
  "FixedLayoutInsert malloc pfl type rt celldata st =
     (case (pfl, rt) of
        (Some fl, Some r) \<Rightarrow>
          if celldata = 0 \<or> type \<le> 0 \<or> type \<ge> gct_max then Inr (False, pfl, st)
          else (let p = malloc st in
                if p = 0 then Inl Null_Deref
                else Inr (True, Some (fl\<lparr>fl_head := p\<rparr>),
                          st(p \<mapsto> \<lparr>fc_rect = r, fc_type = type, fc_data = celldata, fc_next = fl_head fl\<rparr>)))
      | _ \<Rightarrow> Inr (False, pfl, st))"

text \<open>The loop of \<open>FixedLayoutClear\<close> frees the cell and reads its \<open>next\<close> afterwards.\<close>

partial_function (option) clear_loop :: "nat \<Rightarrow> fixed_store \<Rightarrow> fixed_store run" where
  "clear_loop p st =
     (if p = 0 then Some (Inr st)
      else case st p of
        None \<Rightarrow> Some (Inl Use_After_Free)
      | Some cell \<Rightarrow>
          (let st' = st(p := None) in
           case st' p of None \<Rightarrow> Some (Inl Use_After_Free) | Some c \<Rightarrow> clear_loop (fc_next c) st'))"

definition FixedLayoutClear :: "fixed_layout option \<Rightarrow> fixed_store \<Rightarrow> (fixed_layout option \<times> fixed_store) run" where
  "FixedLayoutClear pfl st =
     (case pfl of
        None \<Rightarrow> Some (Inr (None, st))
      | Some fl \<Rightarrow> ubind (clear_loop (fl_head fl) st) (\<lambda>st'. Some (Inr (Some (fl\<lparr>fl_head := 0\<rparr>), st'))))"

section \<open>The chain of cells\<close>

fun chain :: "fixed_store \<Rightarrow> nat \<Rightarrow> (nat \<times> fixed_cell) list \<Rightarrow> bool" where
  "chain st p [] \<longleftrightarrow> p = 0"
| "chain st p ((q, cell) # cs) \<longleftrightarrow> p = q \<and> p \<noteq> 0 \<and> st p = Some cell \<and> chain st (fc_next cell) cs"

definition fixed_ok :: "fixed_layout \<Rightarrow> fixed_store \<Rightarrow> (nat \<times> fixed_cell) list \<Rightarrow> bool" where
  "fixed_ok fl st cs \<longleftrightarrow> chain st (fl_head fl) cs \<and> distinct (map fst cs)"

lemma chain_other: "q \<notin> fst ` set cs \<Longrightarrow> chain (st(q := v)) p cs = chain st p cs"
  by (induction cs arbitrary: p) auto

lemma chain_dom: "chain st p cs \<Longrightarrow> q \<in> fst ` set cs \<Longrightarrow> q \<in> dom st"
  by (induction cs arbitrary: p) force+

lemma insert_ok:
  assumes "fixed_ok fl st cs" "malloc st \<noteq> 0" "malloc st \<notin> dom st"
    and "celldata \<noteq> 0" "0 < type" "type < gct_max"
  shows "\<exists>fl' st' cell. FixedLayoutInsert malloc (Some fl) type (Some r) celldata st = Inr (True, Some fl', st')
     \<and> fixed_ok fl' st' ((malloc st, cell) # cs) \<and> fc_rect cell = r \<and> fc_type cell = type \<and> fc_data cell = celldata"
proof -
  let ?cell = "\<lparr>fc_rect = r, fc_type = type, fc_data = celldata, fc_next = fl_head fl\<rparr>"
  have new: "malloc st \<notin> fst ` set cs" using chain_dom [of st "fl_head fl" cs "malloc st"] assms(1,3) unfolding fixed_ok_def by blast
  then have "fixed_ok (fl\<lparr>fl_head := malloc st\<rparr>) (st(malloc st \<mapsto> ?cell)) ((malloc st, ?cell) # cs)"
    using assms(1,2) chain_other [OF new] by (auto simp: fixed_ok_def)
  then show ?thesis using assms by (auto simp: FixedLayoutInsert_def Let_def)
qed

section \<open>Where the windows go\<close>

text \<open>The move of a window cell for the rectangle \<open>rt\<close>.\<close>

definition placed :: "rect \<Rightarrow> fixed_cell \<Rightarrow> grid_event" where
  "placed rt cell =
     (let r = fc_rect (fixed_layout_calcsize rt cell)
      in MoveWindow (fc_data cell) (u_current (fr_x r)) (u_current (fr_y r)) (u_current (fr_w r)) (u_current (fr_h r)))"

lemma calcsize_keeps [simp]:
  "fc_type (fixed_layout_calcsize rt cell) = fc_type cell" "fc_data (fixed_layout_calcsize rt cell) = fc_data cell"
  "fc_next (fixed_layout_calcsize rt cell) = fc_next cell"
  by (simp_all add: fixed_layout_calcsize_def Let_def)

lemma place_cells_windows:
  assumes "chain st p cs" "distinct (map fst cs)" "\<forall>c \<in> set cs. fc_type (snd c) = gct_hwnd"
  shows "\<exists>st' w'. place_cells f W rt p st w = Some (Inr (st', w')) \<and> layouts w' = layouts w
     \<and> event_log w' = event_log w @ map (placed rt \<circ> snd) cs
     \<and> chain st' p (map (apsnd (fixed_layout_calcsize rt)) cs) \<and> (\<forall>q. q \<notin> fst ` set cs \<longrightarrow> st' q = st q)"
  using assms
proof (induction cs arbitrary: p st w)
  case Nil
  then show ?case by (simp add: place_cells.simps)
next
  case (Cons c cs)
  obtain q cell where c: "c = (q, cell)" by (cases c)
  let ?cell = "fixed_layout_calcsize rt cell" and ?w = "emit (placed rt cell) w"
  define st1 where "st1 = st(p \<mapsto> ?cell)"
  have p: "p = q" "p \<noteq> 0" "st p = Some cell" "chain st (fc_next cell) cs" "fc_type cell = gct_hwnd"
    and new: "p \<notin> fst ` set cs" "distinct (map fst cs)" "\<forall>c \<in> set cs. fc_type (snd c) = gct_hwnd"
    using Cons.prems c by auto
  have "chain st1 (fc_next cell) cs" using p(4) chain_other [OF new(1)] by (simp add: st1_def)
  from Cons.IH [OF this new(2,3), of ?w] obtain st' w' where
    IH: "place_cells f W rt (fc_next cell) st1 ?w = Some (Inr (st', w'))" "layouts w' = layouts w"
      "event_log w' = event_log w @ placed rt cell # map (placed rt \<circ> snd) cs"
      "chain st' (fc_next cell) (map (apsnd (fixed_layout_calcsize rt)) cs)" "\<forall>q. q \<notin> fst ` set cs \<longrightarrow> st' q = st1 q"
    by auto
  have "fixed_layout_move_cell f W ?cell w = Some (Inr ?w)"
    using p(5) by (simp add: fixed_layout_move_cell_def placed_def Let_def)
  then have "place_cells f W rt p st w = Some (Inr (st', w'))"
    using p(2,3) IH(1) by (subst place_cells.simps) (simp add: Let_def st1_def)
  moreover have "st' p = Some ?cell" using IH(5) new(1) by (simp add: st1_def)
  moreover have "st' r = st r" if "r \<notin> fst ` set (c # cs)" for r
    using that IH(5) p(1) c by (auto simp: st1_def)
  ultimately show ?case using IH p c by (intro exI [of _ st'] exI [of _ w']) simp
qed

text \<open>
  Cells inserted one after the other, the last one first in the chain, each with a fresh address.
\<close>

fun insert_all ::
  "(fixed_store \<Rightarrow> nat) \<Rightarrow> fixed_layout \<Rightarrow> fixed_store \<Rightarrow> (fixed_rect \<times> nat) list \<Rightarrow> (fixed_layout \<times> fixed_store) res" where
  "insert_all malloc fl st [] = Inr (fl, st)"
| "insert_all malloc fl st ((r, h) # rs) =
     rbind (FixedLayoutInsert malloc (Some fl) gct_hwnd (Some r) h st) (\<lambda>(ok, fl', st').
       case fl' of None \<Rightarrow> Inl Null_Deref | Some fl' \<Rightarrow> insert_all malloc fl' st' rs)"

lemma insert_all_ok:
  assumes m: "\<And>st. finite (dom st) \<Longrightarrow> malloc st \<noteq> 0 \<and> malloc st \<notin> dom st"
  shows "fixed_ok fl st cs \<Longrightarrow> finite (dom st) \<Longrightarrow> \<forall>(r, h) \<in> set rs. h \<noteq> 0
     \<Longrightarrow> \<forall>c \<in> set cs. fc_type (snd c) = gct_hwnd
     \<Longrightarrow> \<exists>fl' st' cs'. insert_all malloc fl st rs = Inr (fl', st') \<and> fixed_ok fl' st' (cs' @ cs)
        \<and> map (\<lambda>c. (fc_rect (snd c), fc_data (snd c))) cs' = rev rs \<and> (\<forall>c \<in> set cs'. fc_type (snd c) = gct_hwnd)"
proof (induction rs arbitrary: fl st cs)
  case Nil
  then show ?case by (intro exI [of _ fl] exI [of _ st] exI [of _ "[]"]) simp
next
  case (Cons rh rs)
  obtain r h where rh: "rh = (r, h)" by (cases rh)
  obtain fl1 st1 cell where one: "FixedLayoutInsert malloc (Some fl) gct_hwnd (Some r) h st = Inr (True, Some fl1, st1)"
      "fixed_ok fl1 st1 ((malloc st, cell) # cs)" "fc_rect cell = r" "fc_type cell = gct_hwnd" "fc_data cell = h"
    using insert_ok [OF Cons.prems(1), of malloc h gct_hwnd r] m [OF Cons.prems(2)] Cons.prems(3) rh by (auto simp: gct_defs)
  have "dom st1 \<subseteq> insert (malloc st) (dom st)"
    using one(1) by (auto simp: FixedLayoutInsert_def Let_def split: if_splits)
  then have fin: "finite (dom st1)" using Cons.prems(2) by (simp add: finite_subset)
  have types: "\<forall>c \<in> set ((malloc st, cell) # cs). fc_type (snd c) = gct_hwnd" using Cons.prems(4) one(4) by simp
  have data: "\<forall>(r, h) \<in> set rs. h \<noteq> 0" using Cons.prems(3) by simp
  obtain fl' st' cs' where "insert_all malloc fl1 st1 rs = Inr (fl', st')" "fixed_ok fl' st' (cs' @ (malloc st, cell) # cs)"
      "map (\<lambda>c. (fc_rect (snd c), fc_data (snd c))) cs' = rev rs" "\<forall>c \<in> set cs'. fc_type (snd c) = gct_hwnd"
    using Cons.IH [OF one(2) fin data types] by blast
  then show ?case
    using one rh by (intro exI [of _ fl'] exI [of _ st'] exI [of _ "cs' @ [(malloc st, cell)]"]) simp
qed

text \<open>
  Where a window given with rectangle \<open>r\<close> is put, by the sizes alone: a value is a distance from the near side \<open>b\<close>, a negative one from
  the far side \<open>e\<close>, in pixels or in percent of the extent, rounded towards zero; 16 bits of the result are kept.
\<close>

definition axis_at :: "int \<Rightarrow> int \<Rightarrow> layout_unit \<Rightarrow> int \<Rightarrow> bool" where
  "axis_at b e u x \<longleftrightarrow>
     (let d = x - (if u_logic u \<ge> 0 then b else e); exact = (e - b) * u_logic u in
      if u_type u = lutPixel then d = u_logic u
      else 100 * \<bar>d\<bar> \<le> \<bar>exact\<bar> \<and> \<bar>exact\<bar> < 100 * \<bar>d\<bar> + 100 \<and> 0 \<le> d * exact)"

definition window_at :: "rect \<Rightarrow> fixed_rect \<times> nat \<Rightarrow> grid_event \<Rightarrow> bool" where
  "window_at rt rh ev \<longleftrightarrow>
     (\<exists>x y wd ht. ev = MoveWindow (snd rh) (x mod 65536) (y mod 65536) (wd mod 65536) (ht mod 65536) \<and>
        axis_at (r_left rt) (r_right rt) (fr_x (fst rh)) x \<and> axis_at (r_top rt) (r_bottom rt) (fr_y (fst rh)) y \<and>
        axis_at 0 (r_right rt - r_left rt) (fr_w (fst rh)) wd \<and> axis_at 0 (r_bottom rt - r_top rt) (fr_h (fst rh)) ht)"

definition pixels_or_percent :: "fixed_rect \<Rightarrow> bool" where
  "pixels_or_percent r \<longleftrightarrow> (\<forall>u\<in>{fr_x r, fr_y r, fr_w r, fr_h r}. u_type u = lutPixel \<or> u_type u = lutPercent)"

lemma cdiv_100: "100 * \<bar>cdiv n 100\<bar> \<le> \<bar>n\<bar>" "\<bar>n\<bar> < 100 * \<bar>cdiv n 100\<bar> + 100" "0 \<le> cdiv n 100 * n"
proof -
  have a: "\<bar>cdiv n 100\<bar> = \<bar>n\<bar> div 100" by (cases "n = 0") (simp_all add: cdiv_def abs_mult pos_imp_zdiv_nonneg_iff)
  show "100 * \<bar>cdiv n 100\<bar> \<le> \<bar>n\<bar>" "\<bar>n\<bar> < 100 * \<bar>cdiv n 100\<bar> + 100" unfolding a by linarith+
  have "0 \<le> - n div 100" if "n < 0" using that by (simp add: pos_imp_zdiv_nonneg_iff)
  then show "0 \<le> cdiv n 100 * n"
    by (cases "0 \<le> n") (simp_all add: cdiv_nonneg_eq cdiv_neg_eq pos_imp_zdiv_nonneg_iff mult_nonneg_nonpos)
qed

lemma calca_axis_at:
  assumes "u_type u = lutPixel \<or> u_type u = lutPercent"
  shows "\<exists>x. u_current (fixed_layout_calca b e u) = x mod 65536 \<and> axis_at b e u x"
proof -
  let ?o = "if u_logic u \<ge> 0 then b else e" and ?n = "(e - b) * u_logic u"
  let ?x = "?o + (if u_type u = lutPixel then u_logic u else cdiv ?n 100)"
  have "u_current (fixed_layout_calca b e u) = ?x mod 65536"
    using assms by (auto simp: fixed_layout_calca_def u16_def lut_defs add.commute)
  moreover have "axis_at b e u ?x" using cdiv_100 [of ?n] by (simp add: axis_at_def Let_def)
  ultimately show ?thesis by blast
qed

lemma placed_window_at:
  assumes "pixels_or_percent (fc_rect cell)" shows "window_at rt (fc_rect cell, fc_data cell) (placed rt cell)"
proof -
  let ?r = "fc_rect cell" and ?w = "r_right rt - r_left rt" and ?h = "r_bottom rt - r_top rt"
  obtain x y wd ht where
    "u_current (fixed_layout_calca (r_left rt) (r_right rt) (fr_x ?r)) = x mod 65536 \<and> axis_at (r_left rt) (r_right rt) (fr_x ?r) x"
    "u_current (fixed_layout_calca (r_top rt) (r_bottom rt) (fr_y ?r)) = y mod 65536 \<and> axis_at (r_top rt) (r_bottom rt) (fr_y ?r) y"
    "u_current (fixed_layout_calca 0 ?w (fr_w ?r)) = wd mod 65536 \<and> axis_at 0 ?w (fr_w ?r) wd"
    "u_current (fixed_layout_calca 0 ?h (fr_h ?r)) = ht mod 65536 \<and> axis_at 0 ?h (fr_h ?r) ht"
    using assms calca_axis_at unfolding pixels_or_percent_def by (metis insertI1 insertI2)
  then show ?thesis
    by (auto simp: placed_def window_at_def fixed_layout_calcsize_def Let_def)
qed

text \<open>
  C31: Windows inserted one by one into a fixed layout, with sizes in pixels or percent, are all
  moved when its rectangle is set, the last inserted first, and nothing else happens: every position
  and size is the distance its value gives from the near side, from the far side when the value is
  negative, a percentage of the extent rounded towards zero, of which the lower 16 bits are kept (so
  a position left of or above 0 wraps).
\<close>

theorem fixed_layout_places_windows:
  assumes "\<And>st. finite (dom st) \<Longrightarrow> malloc st \<noteq> 0 \<and> malloc st \<notin> dom st" "\<forall>(r, h) \<in> set rs. h \<noteq> 0 \<and> pixels_or_percent r"
    and "FixedLayoutInit (Some fl0) = (True, Some fl)"
  shows "\<exists>fl1 st1 fl2 st2 w' moves. insert_all malloc fl Map.empty rs = Inr (fl1, st1)
     \<and> fixedlayout_setRect f W fl1 x y width height st1 w = Some (Inr (fl2, st2, w'))
     \<and> layouts w' = layouts w \<and> event_log w' = event_log w @ moves
     \<and> list_all2 (window_at \<lparr>r_left = x, r_top = y, r_right = x + width, r_bottom = y + height\<rparr>) (rev rs) moves"
proof -
  have "\<forall>(r, h) \<in> set rs. h \<noteq> 0" using assms(2) by auto
  moreover have "fixed_ok fl Map.empty []" using assms(3) by (auto simp: FixedLayoutInit_def fixed_ok_def)
  ultimately obtain fl1 st1 cs where ins: "insert_all malloc fl Map.empty rs = Inr (fl1, st1)" "fixed_ok fl1 st1 cs"
      "map (\<lambda>c. (fc_rect (snd c), fc_data (snd c))) cs = rev rs" "\<forall>c \<in> set cs. fc_type (snd c) = gct_hwnd"
    using insert_all_ok [OF assms(1), where fl = fl and st = Map.empty and cs = "[]" and rs = rs] by auto
  let ?rt = "\<lparr>r_left = x, r_top = y, r_right = x + width, r_bottom = y + height\<rparr>"
  obtain st2 w' where "place_cells f W ?rt (fl_head fl1) st1 w = Some (Inr (st2, w'))" "layouts w' = layouts w"
      "event_log w' = event_log w @ map (placed ?rt \<circ> snd) cs"
    using place_cells_windows [OF _ _ ins(4), of st1 "fl_head fl1" f W ?rt w] ins(2) by (auto simp: fixed_ok_def)
  moreover have "pixels_or_percent (fc_rect (snd c))" if "c \<in> set cs" for c
  proof -
    have "(fc_rect (snd c), fc_data (snd c)) \<in> set (rev rs)" unfolding ins(3) [symmetric] using that by force
    then show ?thesis using assms(2) by auto
  qed
  then have "list_all2 (window_at ?rt) (rev rs) (map (placed ?rt \<circ> snd) cs)"
    unfolding ins(3) [symmetric] by (auto simp: list_all2_map1 list_all2_map2 list_all2_same intro: placed_window_at)
  ultimately show ?thesis using ins(1) by (auto simp: fixedlayout_setRect_def)
qed

text \<open>
  Clearing a fixed layout that has any cell reads a cell after it was freed; only an empty layout is
  cleared without a fault.
\<close>

theorem fixed_layout_clear_use_after_free:
  assumes "fixed_ok fl st cs"
  shows "FixedLayoutClear (Some fl) st =
     (if cs = [] then Some (Inr (Some fl, st)) else Some (Inl Use_After_Free))"
  using assms by (cases cs) (auto simp: fixed_ok_def FixedLayoutClear_def clear_loop.simps)

text \<open>An allocator that gives the first address above those in use.\<close>

definition bump_malloc :: "fixed_store \<Rightarrow> nat" where
  "bump_malloc st = (if finite (dom st) then Suc (Max (insert 0 (dom st))) else 0)"

lemma bump_malloc_fresh:
  assumes fin: "finite (dom st)"
  shows "bump_malloc st \<noteq> 0 \<and> bump_malloc st \<notin> dom st"
proof
  have "x \<le> Max (insert 0 (dom st))" if "x \<in> dom st" for x using that fin by (intro Max_ge) auto
  then have "Suc (Max (insert 0 (dom st))) \<notin> dom st" by fastforce
  then show "bump_malloc st \<notin> dom st" using fin by (simp add: bump_malloc_def)
  show "bump_malloc st \<noteq> 0" using fin by (simp add: bump_malloc_def)
qed

definition pixel_rect :: "int \<Rightarrow> int \<Rightarrow> int \<Rightarrow> int \<Rightarrow> fixed_rect" where
  "pixel_rect x y w h = \<lparr>fr_x = \<lparr>u_type = 0, u_logic = x, u_current = 0\<rparr>, fr_y = \<lparr>u_type = 0, u_logic = y, u_current = 0\<rparr>,
     fr_w = \<lparr>u_type = 0, u_logic = w, u_current = 0\<rparr>, fr_h = \<lparr>u_type = 0, u_logic = h, u_current = 0\<rparr>\<rparr>"

lemma axis_at_pixel: "axis_at b e \<lparr>u_type = 0, u_logic = l, u_current = c\<rparr> x \<longleftrightarrow> x = (if l \<ge> 0 then b else e) + l"
  by (auto simp: axis_at_def lut_defs Let_def)

lemma fixed_layout_places_windows_witness:
  "\<exists>fl1 st1 fl2 st2 w'. insert_all bump_malloc \<lparr>fl_head = 0, fl_x = 0, fl_y = 0, fl_w = 0, fl_h = 0\<rparr> Map.empty
       [(pixel_rect 3 4 20 10, 7), (pixel_rect (- 30) 4 20 10, 8)] = Inr (fl1, st1)
     \<and> fixedlayout_setRect 1 (\<lambda>_. True) fl1 100 50 200 80 st1 sample_world = Some (Inr (fl2, st2, w'))
     \<and> event_log w' = [MoveWindow 8 270 54 20 10, MoveWindow 7 103 54 20 10]"
proof -
  let ?fl = "\<lparr>fl_head = 0, fl_x = 0, fl_y = 0, fl_w = 0, fl_h = 0\<rparr>"
  let ?rs = "[(pixel_rect 3 4 20 10, 7), (pixel_rect (- 30) 4 20 10, 8)] :: (fixed_rect \<times> nat) list"
  have init: "FixedLayoutInit (Some ?fl) = (True, Some ?fl)" by (simp add: FixedLayoutInit_def)
  have "\<forall>(r, h)\<in>set ?rs. h \<noteq> 0 \<and> pixels_or_percent r" by (simp add: pixels_or_percent_def pixel_rect_def lut_defs)
  from fixed_layout_places_windows [OF bump_malloc_fresh this init, of 1 "\<lambda>_. True" 100 50 200 80 sample_world]
  obtain fl1 st1 fl2 st2 w' moves where w: "insert_all bump_malloc ?fl Map.empty ?rs = Inr (fl1, st1)"
      "fixedlayout_setRect 1 (\<lambda>_. True) fl1 100 50 200 80 st1 sample_world = Some (Inr (fl2, st2, w'))"
      "event_log w' = event_log sample_world @ moves"
      "list_all2 (window_at \<lparr>r_left = 100, r_top = 50, r_right = 100 + 200, r_bottom = 50 + 80\<rparr>) (rev ?rs) moves"
    by blast
  have "moves = [MoveWindow 8 270 54 20 10, MoveWindow 7 103 54 20 10]"
    using w(4) by (auto simp: list_all2_Cons1 window_at_def pixel_rect_def axis_at_pixel)
  moreover have "event_log sample_world = []" by (simp add: sample_world_def)
  ultimately show ?thesis using w(1-3) by auto
qed

lemma fixed_layout_clear_use_after_free_witness:
  "FixedLayoutClear (Some \<lparr>fl_head = 5, fl_x = 0, fl_y = 0, fl_w = 0, fl_h = 0\<rparr>)
     [5 \<mapsto> \<lparr>fc_rect = pixel_rect 0 0 1 1, fc_type = gct_hwnd, fc_data = 7, fc_next = 0\<rparr>] = Some (Inl Use_After_Free)"
  using fixed_layout_clear_use_after_free [of "\<lparr>fl_head = 5, fl_x = 0, fl_y = 0, fl_w = 0, fl_h = 0\<rparr>"
      "[5 \<mapsto> \<lparr>fc_rect = pixel_rect 0 0 1 1, fc_type = gct_hwnd, fc_data = 7, fc_next = 0\<rparr>]"
      "[(5, \<lparr>fc_rect = pixel_rect 0 0 1 1, fc_type = gct_hwnd, fc_data = 7, fc_next = 0\<rparr>)]"]
  by (simp add: fixed_ok_def)

section \<open>Showing never ends\<close>

lemma show_loop_diverges:
  assumes "p \<noteq> 0" "st p = Some cell" "fc_type cell = gct_hwnd"
  shows "show_loop f sh p st w = None"
proof -
  define P :: "nat \<Rightarrow> bool \<Rightarrow> nat \<Rightarrow> fixed_store \<Rightarrow> grid_world \<Rightarrow> grid_world res \<Rightarrow> bool" where
    "P = (\<lambda>_ _ p st _ _. \<not> (p \<noteq> 0 \<and> (\<exists>cell. st p = Some cell \<and> fc_type cell = gct_hwnd)))"
  have "P f sh p st w r" if "show_loop f sh p st w = Some r" for r
  proof (rule show_loop.raw_induct [where P = P])
    show "show_loop f sh p st w = Some r" by (rule that)
  next
    fix rec f sh p st w r
    assume IH: "\<And>f sh p st w r. rec f sh p st w = Some r \<Longrightarrow> P f sh p st w r"
    assume body: "(if p = 0 then Some (Inr w)
      else case st p of
        None \<Rightarrow> Some (Inl Use_After_Free)
      | Some cell \<Rightarrow> ubind (fixed_show_cell f sh cell w) (\<lambda>w'. rec f sh p st w')) = Some r"
    show "P f sh p st w r"
      unfolding P_def
    proof
      assume "p \<noteq> 0 \<and> (\<exists>cell. st p = Some cell \<and> fc_type cell = gct_hwnd)"
      then obtain cell where c: "p \<noteq> 0" "st p = Some cell" "fc_type cell = gct_hwnd" by blast
      then have "rec f sh p st (emit (ShowWindow (fc_data cell) sh) w) = Some r"
        using body by (simp add: fixed_show_cell_def)
      from IH [OF this] c show False by (simp add: P_def)
    qed
  qed
  then show ?thesis using assms by (cases "show_loop f sh p st w") (auto simp: P_def)
qed

text \<open>
  Showing or hiding a fixed layout whose first cell is a window never returns, because the loop does
  not move on to the next cell.
\<close>

theorem fixed_layout_show_never_returns:
  assumes "fixed_ok fl st cs" "cs \<noteq> []" "fc_type (snd (hd cs)) = gct_hwnd"
  shows "fixedlayout_show f sh (Some fl) st w = None"
  using assms show_loop_diverges by (cases cs) (auto simp: fixed_ok_def fixedlayout_show_def)

lemma fixed_layout_show_never_returns_witness:
  "fixedlayout_show 1 True (Some \<lparr>fl_head = 5, fl_x = 0, fl_y = 0, fl_w = 0, fl_h = 0\<rparr>)
     [5 \<mapsto> \<lparr>fc_rect = pixel_rect 0 0 1 1, fc_type = gct_hwnd, fc_data = 7, fc_next = 0\<rparr>] sample_world = None"
  by (rule fixed_layout_show_never_returns
      [where cs = "[(5, \<lparr>fc_rect = pixel_rect 0 0 1 1, fc_type = gct_hwnd, fc_data = 7, fc_next = 0\<rparr>)]"])
    (simp_all add: fixed_ok_def)

end
