(* ===== verification/Spec2Isabelle.thy ===== *)
theory Spec2Isabelle
  imports Dlg_Templates Undo_Redo Res2c Mo_Catalog Code_Combin_File Text_Ids Ncs_Source Id_Header Package_Readback Grid_Spliter Fixed_Layout
begin

text \<open>
  A verification of core parts of the miniStudio GUI builder. The program is a WYSIWYG designer: a main
  window hosts editors for windows, renderers, images, texts and ids, which keep their data in files and
  show them through MiniGUI. This development models the parts with an algorithm of their own: how a panel
  is divided among sub-windows, the static dialogs, the JSON library of the text editor, the history of the
  editors, the registry of resources and their ids, the merging of generated code, the translated texts,
  and the tools that turn a resource package into C. Paths below are relative to \<open>src/\<close>.

  \<^bold>\<open>How C is modelled.\<close> A function is a HOL function of its arguments and of the state it changes, which
  it returns. \<open>GB_Prelude\<close> has the results: \<open>'a res\<close> is a fault of the machine (a read outside a block, a null
  dereference, a division by zero, a use after free, a read of memory never written, ...) or a value;
  \<open>'a run\<close> adds \<open>None\<close> for a function that does not return, either in a \<open>partial_function\<close> or because
  fuel is spent. The error codes a function returns itself are values. An index outside its array, a freed
  or uninitialised pointer and an overflowing \<open>int\<close> are faults, never defaults. Integers of a fixed width
  are words or have the cut written out (\<open>u16\<close>, \<open>s14\<close>, \<open>u2\<close> for the bit-fields of the layout units).

  \<^bold>\<open>The parts.\<close>

  \<^item> Layout of panels (\<open>mgfc/gridlayout.[ch]\<close>, \<open>mgfc/fixedlayout.[ch]\<close>). \<open>Layout_Units\<close>: the division of a
    width among columns or rows (\<open>recalca_units\<close>), proved to use up the width exactly. \<open>Grid_Layout\<close>: one
    \<open>GRID_LAYOUT\<close>, its cells, the cell under a point, the rectangle of a cell, the walk over the cells.
    \<open>Grid_Resize\<close>, \<open>Grid_Tree\<close>: resizing, showing and deleting trees of layouts in a store by address.
    \<open>Grid_Spliter\<close>: the state machine of dragging a splitter bar, driven by messages. \<open>Fixed_Layout\<close>: the
    chain of cells with own positions, which calls the grid layout for its nested grids.
  \<^item> Static dialogs (\<open>mainframe/dlgtmpls.c\<close>). \<open>Dlg_Data\<close> holds the data, \<open>Dlg_Templates\<close> the lookups, which
    change the data (a visible bit, captions translated in place).
  \<^item> The JSON library (\<open>texteditor/json\<close>). \<open>Array_List\<close>, \<open>Print_Buf\<close>, \<open>Link_Hash\<close> with \<open>Link_Hash_Inv\<close> and
    \<open>Link_Hash_Dict\<close>: its containers. \<open>Json_Object\<close>: reference-counted values in a store of objects, over
    these containers; \<open>Json_Print\<close>: their text; \<open>Json_Tokener\<close>: the incremental parser, one definition per
    case of its switch; \<open>Json_File\<close>: reading and writing files. \<open>C_Lib\<close> holds what they use of C's library.
  \<^item> Resource packages (\<open>tools/res2c\<close>). \<open>Res_Package\<close>: the reader (\<open>resource.c\<close>) on blocks of bytes with
    checked reads; \<open>Res2c\<close>: the converter to C (\<open>res2c.c\<close>), which uses it.
  \<^item> Editors. \<open>Undo_Redo\<close>: the ring of commands (\<open>common/defundo-redo-observer.cpp\<close>). \<open>Id_Range\<close>: the ranges of
    ids a developer owns and the manager that draws new ids from them (\<open>include/resenv.h\<close>,
    \<open>common/reseditor.cpp\<close>); \<open>Res_Ids\<close>: the resources with their ids and names (\<open>include/reseditor.h\<close>,
    \<open>common/reseditor.cpp\<close>) and the dialog for a new range (\<open>mainframe/newidrange.cpp\<close>). It calls the managers
    for a free id and takes their nodes of XML into its own when it is saved.
  \<^item> Translated texts (\<open>include/stream.h\<close>, \<open>common/stream.cpp\<close>, \<open>texteditor/texteditor.cpp\<close>, \<open>mainframe/mainframe.h\<close>). \<open>Streams\<close>: the
    streams over a file and over memory; \<open>Text_Files\<close>: the texts of each language with their ids, how they are
    written to a file of lines and read back; \<open>Text_Ids\<close>: naming, numbering and deleting a text; \<open>Text_Roundtrip\<close>:
    writing, then reading. \<open>String_Pool\<close>: the table of strings that a package refers to by offset.
  \<^item> Writing a package (\<open>mainframe/mainframe.cpp\<close>, the \<open>save\<close> of each editor). \<open>Package_Writer\<close>: the sections of the
    package, byte for byte, and the header of ids; it takes the strings from the pool and the texts from their
    editor. \<open>Package_Readback\<close> reads it with \<open>Res_Package\<close>; \<open>Id_Header\<close> is the text of the header of ids.
  \<^item> The translator of windows (\<open>tools/ncs2ics\<close>, \<open>common/xmlhelp.cpp\<close>). \<open>Ncs_Texts\<close>: documents and the texts of a project,
    with the reader of \<open>Text_Files\<close> and its own buffer; \<open>Ncs_Translate\<close>: rules of classes, how they are read, and the
    translation of a window by them; \<open>Ncs_Inherit\<close>: what contributes to a window; \<open>Ncs_Source\<close>: the program, which
    writes the dialogs as C.
  \<^item> Generated code (\<open>common/codecombin.cpp\<close>). \<open>Code_Combin\<close>: the documents of sections, their parser, writer and
    merging; \<open>Code_Combin_File\<close>: what holds from file to file.
  \<^item> Translations (\<open>trans/read_mo.cpp\<close>, \<open>trans/gettext.cpp\<close>). \<open>Mo_Catalog\<close>: a \<open>.mo\<close> file and the lookup in it.

  \<^bold>\<open>What is proved.\<close>

  \<^item> Layout: no cell leaves its layout and every window moves to the rectangle of its cell when a tree is
    resized; the cell found under a point is the one whose rectangle has the point; a walk reaches every
    cell once; a splitter bar drawn on the screen is erased again whatever messages come; a drag moves
    the sizes of the two neighbours. Division by zero, uninitialised results and endless loops at the
    edges are theorems as well.
  \<^item> JSON: \<open>rep\<close> (\<open>Json_Value\<close>) relates an object in the store to an abstract value, \<open>json_text\<close> is the
    value's text. Printing writes exactly \<open>json_text\<close>; parsing a text of a value gives that value
    (\<open>Json_Read\<close>: runs of the parser; \<open>Json_Roundtrip\<close>: induction over the value), also through a file.
    \<open>Json_Refs\<close> is the invariant of the reference counts (the references of clients are a multiset);
    \<open>Json_Parse_Safe\<close>: the parser keeps it on every text, right or wrong, and never faults;
    \<open>Json_Client\<close>: no client that keeps the rules uses freed memory or leaks. The hash table refines an
    ordered dictionary as long as nothing is deleted, and otherwise wears out.
  \<^item> Packages: a lookup finds exactly the strings of the table; the C array of a file reads back as the file.
  \<^item> History: the ring refines a bounded list of done and undone commands; every command that left the history is
    deleted once, and none that is in it.
  \<^item> Ids: new ids run through all ranges in order without a gap and without a repetition; an id is taken from a
    range of the manager; the free ranges shown are exactly the ids that no range has; a new range is put in
    its place. The edges where ranges are lost, hidden or start too late are theorems. The registry keeps the
    two maps, the names and the objects consistent, name and id lead to each other, and it reloads as it was saved.
  \<^item> Generated code: text outside of sections survives a merge, sections take the new text; a saved document loads as
    it was; the merge returns for every two files.
  \<^item> Texts: a file of texts that was saved reads back as the same texts with the same ids, when no text has a
    backslash or ends where its line is broken; a text that does swallows the next one. The texts follow the ids of
    the registry, whatever is named, renumbered or deleted. The string pool refines a table in which equal strings
    share one entry, until its ids have run once through their range; then two strings may have the same id.
  \<^item> Packages written: every string of the pool is found by its id in the bytes that are written; the header of ids
    has one macro for each named resource, with the number of its id. A package of a project without strings has an
    entry for them that leads out of the file.
  \<^item> Windows translated: the object of a window has exactly what its class sets, the window gives and the defaults of
    the nearest classes add; the file has one dialog for each window, in order; a caption reads back from its literal.
  \<^item> Translations: hashing and binary search both find what a search through the whole table finds.

  \<^bold>\<open>Interfaces.\<close> \<open>stateless_server\<close> (\<open>GB_Prelude\<close>) is interpreted by the dialog templates, \<open>appendable\<close> by the
  array list, \<open>text_sink\<close> twice by the print buffer, \<open>linked_dict\<close> by the hash table, \<open>grid_axis\<close> by the rows
  and the columns of a grid, with and without units, \<open>specified_object\<close> by the history of commands, \<open>specified_server\<close> by the string
  pool, \<open>kept_invariant\<close> by the registry of resources and by the editor of texts.

  \<^bold>\<open>Fuel.\<close> \<open>lh_table_insert\<close> needs as much as the probe sequence (\<open>lh_insert\<close> gives it the number of entries and
  four); the recursive operations on layouts one for each level of nesting (a rank below the fuel is a
  hypothesis); \<open>json_object_put\<close> and printing one for each level of the value; the parser 32, the depth
  of its stack, and \<open>REDO_FUEL\<close>, 10, for the jumps at one character, which a weight bounds. \<open>ncsGetString\<close> has fuel for
  the lookups of file names it nests; the theorem on files says no amount is enough there. The loop of the
  document parser and the one over the ranges of an owner are partial functions, with theorems that they
  return.

  \<^bold>\<open>Assumed.\<close> \<open>cenv\<close> (\<open>C_Lib\<close>): what the allocator gives and how \<open>printf\<close> and \<open>sscanf\<close> convert a \<open>double\<close>;
  \<open>file_io\<close> (\<open>Json_File\<close>): which files can be opened and how much a call of \<open>read\<close> and \<open>write\<close> moves. Callbacks
  of the layouts are recorded in a log, not run. \<open>editor_env\<close> (\<open>Res_Ids\<close>): what the class of the editor and the main
  frame answer. A write to a file that is open succeeds, and what \<open>printf\<close> makes of a number is an argument where
  no property depends on it. The bytes of a window in a package are given. The XML library is not here: a node is the
  tuple of what the code reads from it or writes, or, for the translator of windows, the tree it walks over with the
  functions in \<open>xml_lib\<close>; the address of a string printed as a number is an argument. What the
  user enters in a dialog is a list.

  \<^bold>\<open>Not modelled.\<close> The binary form of a window (its structures are MiniGUI's), the types of property values, the
  class descriptions they come from, the clipboard and the service that proposes translations. The window procedures and most classes in C++ (calls into MiniGUI, whose source is not here),
  the flex scanner of \<open>tools/mgcfg-trans\<close> (generated), the Lua helpers and the dongle tools (wrappers around
  libraries that are not here), small programs that only do input and output, and the headers of other
  projects under \<open>build/\<close>.
\<close>

end
